(* ===== verification/Prelude.thy ===== *)
theory Prelude
  imports Main "HOL-Library.Word"
begin

text \<open>
  Shared vocabulary of the development: the widths of the machine integers, the errors a fallible
  operation can return, the result and state-passing combinators that stand for the \<open>?\<close> operator,
  and the slice searches of the Rust standard library that several components use.

  Integers that the code stores or computes with at a width are words of that width; \<open>i64\<close> is the
  64 bit word read with \<^const>\<open>sint\<close>. Arithmetic follows the release profile of the build, in
  which it wraps around. Lengths and indices (\<open>usize\<close>) are natural numbers.
\<close>

unbundle bit_operations_syntax

type_synonym u8 = "8 word"
type_synonym u16 = "16 word"
type_synonym u32 = "32 word"
type_synonym u64 = "64 word"
type_synonym i64 = "64 word"
type_synonym bytes = "u8 list"

named_theorems byte_simps \<open>lengths and contents of encoded byte sequences\<close>
named_theorems result_simps \<open>inversion of computations that may fail\<close>

subsection \<open>Errors and results\<close>

text \<open>
  The constructors of \<open>NativeBackendError\<close> that the modelled code builds. Texts meant for a human
  reader (\<open>reason\<close>, \<open>context\<close>) are left out, the field names and the numbers are kept. A panic of
  the code (an index out of range, a failed assertion, an \<open>unwrap\<close> of nothing) is the separate
  fault \<open>Panic\<close>.
\<close>

datatype native_error =
    InvalidMagic u64 u64
  | UnsupportedVersion u32 u32
  | InvalidHeader string
  | InvalidChecksum u64 u64
  | RecordTooLarge u32 u32
  | BincodeError
  | BufferTooSmall nat nat
  | InvalidOperation
  | CorruptionDetected
  | IoError
  | SerializationError
  | DeserializationError
  | InvalidParameter
  | InvalidStringOffset u32
  | CorruptStringTable

datatype fault = Err native_error | Panic

type_synonym 'a result = "fault + 'a"

definition bindR :: "'a result \<Rightarrow> ('a \<Rightarrow> 'b result) \<Rightarrow> 'b result" where
  "bindR m f = (case m of Inl e \<Rightarrow> Inl e | Inr x \<Rightarrow> f x)"

lemma bindR_simps [simp]:
  "bindR (Inl e) f = Inl e"
  "bindR (Inr x) f = f x"
  by (simp_all add: bindR_def)

lemma bindR_Inr_iff [result_simps]: "bindR m f = Inr y \<longleftrightarrow> (\<exists>x. m = Inr x \<and> f x = Inr y)"
  by (cases m) auto

lemma bindR_cong [fundef_cong]:
  "m = m' \<Longrightarrow> (\<And>x. m' = Inr x \<Longrightarrow> f x = f' x) \<Longrightarrow> bindR m f = bindR m' f'"
  by (cases m') auto

text \<open>\<open>map_err\<close>: an error of \<open>m\<close> is replaced by \<open>e\<close>, a panic stays a panic.\<close>

definition map_err :: "'a result \<Rightarrow> native_error \<Rightarrow> 'a result" where
  "map_err m e = (case m of Inl Panic \<Rightarrow> Inl Panic | Inl (Err _) \<Rightarrow> Inl (Err e) | Inr x \<Rightarrow> Inr x)"

lemma map_err_simps [simp]:
  "map_err (Inr x) e = Inr x"
  "map_err (Inl Panic) e = Inl Panic"
  "map_err (Inl (Err e')) e = Inl (Err e)"
  by (simp_all add: map_err_def)

lemma map_err_Inr_iff [result_simps]: "map_err m e = Inr x \<longleftrightarrow> m = Inr x"
  by (auto simp: map_err_def split: sum.splits fault.splits)

text \<open>
  A method that changes its object and may fail: on a failure the state reached so far is kept,
  as the code leaves its fields.
\<close>

type_synonym ('s, 'a) action = "'s \<Rightarrow> 'a result \<times> 's"

definition bindS :: "('s, 'a) action \<Rightarrow> ('a \<Rightarrow> ('s, 'b) action) \<Rightarrow> ('s, 'b) action" where
  "bindS m f s = (case m s of (Inl e, s') \<Rightarrow> (Inl e, s') | (Inr x, s') \<Rightarrow> f x s')"

definition returnS :: "'a \<Rightarrow> ('s, 'a) action" where
  "returnS x s = (Inr x, s)"

definition failS :: "fault \<Rightarrow> ('s, 'a) action" where
  "failS e s = (Inl e, s)"

lemma bindS_simps [simp]:
  "m s = (Inr x, s') \<Longrightarrow> bindS m f s = f x s'"
  "m s = (Inl e, s') \<Longrightarrow> bindS m f s = (Inl e, s')"
  by (simp_all add: bindS_def)

lemma bindS_Inr_iff [result_simps]:
  "bindS m f s = (Inr y, s'') \<longleftrightarrow> (\<exists>x s'. m s = (Inr x, s') \<and> f x s' = (Inr y, s''))"
  by (auto simp: bindS_def split: prod.splits sum.splits)

lemma returnS_Inr_iff [result_simps]: "returnS x s = (r, s') \<longleftrightarrow> r = Inr x \<and> s' = s"
  by (auto simp: returnS_def)

lemma failS_iff [result_simps]: "failS e s = (r, s') \<longleftrightarrow> r = Inl e \<and> s' = s"
  by (auto simp: failS_def)

subsection \<open>Integer operations of the standard library\<close>

definition i64_saturating_sub :: "i64 \<Rightarrow> i64 \<Rightarrow> i64" where
  "i64_saturating_sub a b =
     (let d = sint a - sint b
      in if d < - (2 ^ 63) then word_of_int (- (2 ^ 63))
         else if 2 ^ 63 - 1 < d then word_of_int (2 ^ 63 - 1)
         else word_of_int d)"

definition i64_checked_add :: "i64 \<Rightarrow> i64 \<Rightarrow> i64 option" where
  "i64_checked_add a b =
     (let s = sint a + sint b
      in if - (2 ^ 63) \<le> s \<and> s < 2 ^ 63 then Some (a + b) else None)"

definition u64_saturating_add :: "u64 \<Rightarrow> u64 \<Rightarrow> u64" where
  "u64_saturating_add a b = (if unat a + unat b < 2 ^ 64 then a + b else - 1)"

lemma unat_ucast_up:
  assumes "LENGTH('a) \<le> LENGTH('b)"
  shows "unat (ucast (v :: 'a::len word) :: 'b::len word) = unat v"
proof -
  have "unat v < 2 ^ LENGTH('b)"
    using unsigned_less [of v, where ?'a = nat] assms
    by (meson less_le_trans one_le_numeral power_increasing)
  then show ?thesis by (simp add: unsigned_ucast_eq take_bit_nat_eq_self)
qed

lemma ucast_up_down:
  "LENGTH('a) \<le> LENGTH('b) \<Longrightarrow> ucast (ucast (v :: 'a::len word) :: 'b::len word) = v"
  by (rule bit_word_eqI) (auto simp: bit_ucast_iff)

lemma sint_i64_bounds: "- (2 ^ 63) \<le> sint (x :: i64)" "sint (x :: i64) < 2 ^ 63"
  using sint_ge [of x] sint_lt [of x] by simp_all

lemma sint_word_of_int_i64:
  "- (2 ^ 63) \<le> k \<Longrightarrow> k < 2 ^ 63 \<Longrightarrow> sint (word_of_int k :: i64) = k"
  by (simp add: signed_of_int signed_take_bit_int_eq_self)

lemma sint_add_i64:
  assumes "- (2 ^ 63) \<le> sint a + sint b" "sint a + sint b < 2 ^ 63"
  shows "sint (a + b :: i64) = sint a + sint b"
proof -
  have "sint (a + b) = signed_take_bit 63 (sint a + sint b)" by (simp add: sint_word_ariths)
  then show ?thesis using assms by (simp add: signed_take_bit_int_eq_self)
qed

lemma sint_diff_i64:
  assumes "- (2 ^ 63) \<le> sint a - sint b" "sint a - sint b < 2 ^ 63"
  shows "sint (a - b :: i64) = sint a - sint b"
proof -
  have "sint (a - b) = signed_take_bit 63 (sint a - sint b)" by (simp add: sint_word_ariths)
  then show ?thesis using assms by (simp add: signed_take_bit_int_eq_self)
qed

lemma uint_eq_sint_i64: "0 \<le> sint (a :: i64) \<Longrightarrow> uint a = sint a"
  using sint_i64_bounds(2) [of a] by (simp add: uint_sint take_bit_int_eq_self)

lemma sint_i64_saturating_sub:
  "sint (i64_saturating_sub a b) = max (- (2 ^ 63)) (min (2 ^ 63 - 1) (sint a - sint b))"
  by (auto simp: i64_saturating_sub_def Let_def sint_word_of_int_i64 sint_diff_i64)

subsection \<open>Vectors\<close>

text \<open>\<open>Vec::resize\<close>.\<close>

definition vec_resize :: "'a list \<Rightarrow> nat \<Rightarrow> 'a \<Rightarrow> 'a list" where
  "vec_resize xs n v = take n xs @ replicate (n - length xs) v"

lemma length_vec_resize [simp]: "length (vec_resize xs n v) = n"
  by (simp add: vec_resize_def)

lemma nth_vec_resize:
  "length xs \<le> n \<Longrightarrow> i < n \<Longrightarrow> vec_resize xs n v ! i = (if i < length xs then xs ! i else v)"
  by (simp add: vec_resize_def nth_append)

subsection \<open>Searching a sorted slice\<close>

text \<open>
  \<open>slice::binary_search\<close> answers \<open>Ok i\<close> with the index of a match or \<open>Err i\<close> with the position
  that keeps the slice sorted. With duplicate keys the standard library leaves open which match it
  reports; the slices searched here hold distinct keys.
\<close>

function bsearch_loop :: "'k::linorder list \<Rightarrow> 'k \<Rightarrow> nat \<Rightarrow> nat \<Rightarrow> nat + nat" where
  "bsearch_loop xs k lo hi =
     (if lo < hi then
        let mid = lo + (hi - lo) div 2
        in if xs ! mid = k then Inr mid
           else if xs ! mid < k then bsearch_loop xs k (Suc mid) hi
           else bsearch_loop xs k lo mid
      else Inl lo)"
  by pat_completeness auto
termination
  by (relation "measure (\<lambda>(xs, k, lo, hi). hi - lo)") auto

declare bsearch_loop.simps [simp del]

definition binary_search :: "'k::linorder list \<Rightarrow> 'k \<Rightarrow> nat + nat" where
  "binary_search xs k = bsearch_loop xs k 0 (length xs)"

text \<open>\<open>slice::partition_point\<close>: the index of the first element that fails the predicate.\<close>

function ppoint_loop :: "('a \<Rightarrow> bool) \<Rightarrow> 'a list \<Rightarrow> nat \<Rightarrow> nat \<Rightarrow> nat" where
  "ppoint_loop P xs lo hi =
     (if lo < hi then
        let mid = lo + (hi - lo) div 2
        in if P (xs ! mid) then ppoint_loop P xs (Suc mid) hi else ppoint_loop P xs lo mid
      else lo)"
  by pat_completeness auto
termination
  by (relation "measure (\<lambda>(P, xs, lo, hi). hi - lo)") auto

declare ppoint_loop.simps [simp del]

definition partition_point :: "('a \<Rightarrow> bool) \<Rightarrow> 'a list \<Rightarrow> nat" where
  "partition_point P xs = ppoint_loop P xs 0 (length xs)"

lemma bsearch_loop_correct:
  assumes "sorted_wrt (<) xs" and "hi \<le> length xs" and "lo \<le> hi"
    and "\<forall>i<lo. xs ! i < k" and "\<forall>i. hi \<le> i \<and> i < length xs \<longrightarrow> k < xs ! i"
  shows "case bsearch_loop xs k lo hi of
           Inr i \<Rightarrow> i < length xs \<and> xs ! i = k
         | Inl i \<Rightarrow> i \<le> length xs \<and> (\<forall>j<i. xs ! j < k) \<and> (\<forall>j. i \<le> j \<and> j < length xs \<longrightarrow> k < xs ! j)"
  using assms
proof (induction xs k lo hi rule: bsearch_loop.induct)
  case (1 xs k lo hi)
  show ?case
  proof (cases "lo < hi")
    case False
    with "1.prems" show ?thesis by (subst bsearch_loop.simps) auto
  next
    case True
    define mid where "mid = lo + (hi - lo) div 2"
    from True have mid: "lo \<le> mid" "mid < hi" by (auto simp: mid_def)
    have mono: "xs ! i < xs ! j" if "i < j" "j < length xs" for i j
      using "1.prems"(1) that by (simp add: sorted_wrt_nth_less)
    consider (eq) "xs ! mid = k" | (less) "xs ! mid \<noteq> k" "xs ! mid < k"
      | (greater) "xs ! mid \<noteq> k" "\<not> xs ! mid < k" by blast
    then show ?thesis
    proof cases
      case eq
      with True mid "1.prems"(2) show ?thesis
        by (subst bsearch_loop.simps) (simp add: mid_def [symmetric])
    next
      case less
      have "\<forall>i<Suc mid. xs ! i < k"
        using less mid mono "1.prems"(2)
        by (metis less_SucE less_le_trans order_less_trans)
      with "1.IH"(1)[OF True mid_def less] "1.prems" mid True less show ?thesis
        by (subst bsearch_loop.simps) (simp add: mid_def [symmetric])
    next
      case greater
      then have "k < xs ! mid" by auto
      then have "\<forall>i. mid \<le> i \<and> i < length xs \<longrightarrow> k < xs ! i"
        using mono by (metis le_neq_implies_less order_less_trans)
      with "1.IH"(2)[OF True mid_def greater] "1.prems" mid True greater show ?thesis
        by (subst bsearch_loop.simps) (simp add: mid_def [symmetric])
    qed
  qed
qed

lemma binary_search_correct:
  assumes "sorted_wrt (<) xs"
  shows "case binary_search xs k of
           Inr i \<Rightarrow> i < length xs \<and> xs ! i = k
         | Inl i \<Rightarrow> i \<le> length xs \<and> (\<forall>j<i. xs ! j < k) \<and> (\<forall>j. i \<le> j \<and> j < length xs \<longrightarrow> k < xs ! j)"
  unfolding binary_search_def by (rule bsearch_loop_correct) (use assms in auto)

lemma binary_search_Inr:
  assumes "sorted_wrt (<) xs" "binary_search xs k = Inr i"
  shows "i < length xs" "xs ! i = k"
  using binary_search_correct [OF assms(1), of k] assms(2) by simp_all

lemma binary_search_Inl:
  assumes "sorted_wrt (<) xs" "binary_search xs k = Inl i"
  shows "i \<le> length xs" "\<And>j. j < i \<Longrightarrow> xs ! j < k"
    "\<And>j. i \<le> j \<Longrightarrow> j < length xs \<Longrightarrow> k < xs ! j"
  using binary_search_correct [OF assms(1), of k] assms(2) by simp_all

lemma binary_search_Inl_notin:
  assumes "sorted_wrt (<) xs" "binary_search xs k = Inl i"
  shows "k \<notin> set xs"
proof
  assume "k \<in> set xs"
  then obtain j where "j < length xs" "xs ! j = k" by (auto simp: in_set_conv_nth)
  with binary_search_Inl [OF assms] show False
    by (metis less_irrefl not_le_imp_less)
qed

lemma ppoint_loop_correct:
  assumes "lo \<le> hi" "hi \<le> length xs" "\<forall>i<lo. P (xs ! i)"
    and "\<forall>i. hi \<le> i \<and> i < length xs \<longrightarrow> \<not> P (xs ! i)"
    and "\<And>i j. i \<le> j \<Longrightarrow> j < length xs \<Longrightarrow> P (xs ! j) \<Longrightarrow> P (xs ! i)"
  shows "ppoint_loop P xs lo hi \<le> length xs \<and> (\<forall>i<ppoint_loop P xs lo hi. P (xs ! i)) \<and>
    (\<forall>i. ppoint_loop P xs lo hi \<le> i \<and> i < length xs \<longrightarrow> \<not> P (xs ! i))"
  using assms
proof (induction P xs lo hi rule: ppoint_loop.induct)
  case (1 P xs lo hi)
  show ?case
  proof (cases "lo < hi")
    case False
    with "1.prems"(1) have "lo = hi" by simp
    moreover from this have "ppoint_loop P xs lo hi = hi"
      by (subst ppoint_loop.simps) simp
    ultimately show ?thesis using "1.prems" by auto
  next
    case True
    define mid where "mid = lo + (hi - lo) div 2"
    from True have mid: "lo \<le> mid" "mid < hi" by (auto simp: mid_def)
    show ?thesis
    proof (cases "P (xs ! mid)")
      case P: True
      have "\<forall>i<Suc mid. P (xs ! i)"
        using P mid "1.prems"(2,5) by (metis less_Suc_eq_le less_le_trans)
      with "1.IH"(1)[OF True mid_def P] "1.prems" mid True P show ?thesis
        by (simp add: ppoint_loop.simps [of P xs lo hi] mid_def [symmetric])
    next
      case P: False
      have "\<forall>i. mid \<le> i \<and> i < length xs \<longrightarrow> \<not> P (xs ! i)"
        using P "1.prems"(5) by blast
      with "1.IH"(2)[OF True mid_def P] "1.prems" mid True P show ?thesis
        by (simp add: ppoint_loop.simps [of P xs lo hi] mid_def [symmetric])
    qed
  qed
qed

lemma partition_point_correct:
  assumes "\<And>i j. i \<le> j \<Longrightarrow> j < length xs \<Longrightarrow> P (xs ! j) \<Longrightarrow> P (xs ! i)"
  shows "partition_point P xs \<le> length xs"
    "i < partition_point P xs \<Longrightarrow> P (xs ! i)"
    "partition_point P xs \<le> i \<Longrightarrow> i < length xs \<Longrightarrow> \<not> P (xs ! i)"
proof -
  have *: "partition_point P xs \<le> length xs \<and> (\<forall>i<partition_point P xs. P (xs ! i)) \<and>
      (\<forall>i. partition_point P xs \<le> i \<and> i < length xs \<longrightarrow> \<not> P (xs ! i))"
    unfolding partition_point_def by (rule ppoint_loop_correct) (use assms in auto)
  show "partition_point P xs \<le> length xs" using * by blast
  show "i < partition_point P xs \<Longrightarrow> P (xs ! i)" using * by blast
  show "partition_point P xs \<le> i \<Longrightarrow> i < length xs \<Longrightarrow> \<not> P (xs ! i)" using * by blast
qed

end
