(* ===== verification/Bytes.thy ===== *)
theory Bytes
  imports Prelude
begin

text \<open>
  Byte sequences: the integer encodings \<open>to_le_bytes\<close>, \<open>to_be_bytes\<close>, \<open>from_le_bytes\<close> and
  \<open>from_be_bytes\<close> of the standard library, reading and overwriting a range of a buffer, and the XOR
  checksum of \<open>v3/constants.rs\<close> that headers and pages carry.
\<close>

unbundle bit_operations_syntax

subsection \<open>Integers as bytes\<close>

definition to_le :: "'a::len word \<Rightarrow> bytes" where
  "to_le w = map (\<lambda>i. ucast (drop_bit (8 * i) w)) [0..<LENGTH('a) div 8]"

definition to_be :: "'a::len word \<Rightarrow> bytes" where
  "to_be w = rev (to_le w)"

primrec from_le :: "bytes \<Rightarrow> 'a::len word" where
  "from_le [] = 0"
| "from_le (b # bs) = ucast b OR push_bit 8 (from_le bs)"

definition from_be :: "bytes \<Rightarrow> 'a::len word" where
  "from_be bs = from_le (rev bs)"

lemma length_to_le [byte_simps]: "length (to_le (w :: 'a::len word)) = LENGTH('a) div 8"
  by (simp add: to_le_def)

lemma length_to_be [byte_simps]: "length (to_be (w :: 'a::len word)) = LENGTH('a) div 8"
  by (simp add: to_be_def length_to_le)

lemma bit_from_le:
  "bit (from_le bs :: 'a::len word) n \<longleftrightarrow>
     n < LENGTH('a) \<and> n div 8 < length bs \<and> bit (bs ! (n div 8)) (n mod 8)"
proof (induction bs arbitrary: n)
  case Nil
  then show ?case by simp
next
  case (Cons b bs)
  show ?case
  proof (cases "n < 8")
    case True
    then show ?thesis by (auto simp: bit_or_iff bit_push_bit_iff bit_ucast_iff)
  next
    case False
    then have "n div 8 = Suc ((n - 8) div 8)" "n mod 8 = (n - 8) mod 8"
      by (simp_all add: le_div_geq le_mod_geq)
    with False show ?thesis
      by (auto simp: bit_or_iff bit_push_bit_iff bit_ucast_iff Cons.IH dest: bit_imp_le_length)
  qed
qed

lemma from_le_to_le: "8 dvd LENGTH('a) \<Longrightarrow> from_le (to_le w) = (w :: 'a::len word)"
proof (rule bit_word_eqI)
  fix n assume dvd: "8 dvd LENGTH('a)" and n: "n < LENGTH('a)"
  then have "n div 8 < LENGTH('a) div 8" by (auto elim!: dvdE simp: div_less_iff_less_mult)
  with n show "bit (from_le (to_le w) :: 'a word) n = bit w n"
    by (simp add: bit_from_le to_le_def bit_ucast_iff bit_drop_bit_eq)
qed

lemma from_be_to_be: "8 dvd LENGTH('a) \<Longrightarrow> from_be (to_be w) = (w :: 'a::len word)"
  by (simp add: from_be_def to_be_def from_le_to_le)

lemma from_le_to_le_widths [simp]:
  "from_le (to_le (a :: u16)) = a" "from_le (to_le (b :: u32)) = b" "from_le (to_le (c :: u64)) = c"
  by (simp_all add: from_le_to_le)

lemma from_be_to_be_widths [simp]:
  "from_be (to_be (a :: u16)) = a" "from_be (to_be (b :: u32)) = b" "from_be (to_be (c :: u64)) = c"
  by (simp_all add: from_be_to_be)

lemma to_le_inj: "8 dvd LENGTH('a) \<Longrightarrow> to_le (v :: 'a::len word) = to_le w \<longleftrightarrow> v = w"
  by (metis from_le_to_le)

subsection \<open>Ranges of a buffer\<close>

text \<open>
  \<open>slice bs off n\<close> is \<open>bs[off..off + n]\<close>; \<open>blit bs off src\<close> is \<open>bs[off..].copy_from_slice(src)\<close>.
  Both are used where the range lies in the buffer.
\<close>

definition slice :: "'a list \<Rightarrow> nat \<Rightarrow> nat \<Rightarrow> 'a list" where
  "slice bs off n = take n (drop off bs)"

definition blit :: "'a list \<Rightarrow> nat \<Rightarrow> 'a list \<Rightarrow> 'a list" where
  "blit bs off src = take off bs @ src @ drop (off + length src) bs"

lemma length_blit [simp]: "off + length src \<le> length bs \<Longrightarrow> length (blit bs off src) = length bs"
  by (simp add: blit_def)

lemma length_slice [simp]: "off + n \<le> length bs \<Longrightarrow> length (slice bs off n) = n"
  by (simp add: slice_def)

lemma slice_0_length [simp]: "slice bs 0 (length bs) = bs"
  by (simp add: slice_def)

lemma slice_append:
  "slice (xs @ ys) off n =
     slice xs off n @ slice ys (off - length xs) (n - (length xs - off))"
  by (simp add: slice_def)

lemma slice_append_skip [simp]: "length xs \<le> off \<Longrightarrow> slice (xs @ ys) off n = slice ys (off - length xs) n"
  by (simp add: slice_def)

lemma slice_Cons_skip [simp]: "0 < off \<Longrightarrow> slice (x # xs) off n = slice xs (off - 1) n"
  by (cases off) (simp_all add: slice_def)

lemma slice_append_take [simp]: "length xs = n \<Longrightarrow> slice (xs @ ys) 0 n = xs"
  by (simp add: slice_def)

lemma slice_blit_same:
  "off + length src \<le> length bs \<Longrightarrow> n = length src \<Longrightarrow> slice (blit bs off src) off n = src"
  by (simp add: slice_def blit_def)

lemma slice_blit_before:
  "off + length src \<le> length bs \<Longrightarrow> off' + n \<le> off \<Longrightarrow> slice (blit bs off src) off' n = slice bs off' n"
  by (rule nth_equalityI) (auto simp: slice_def blit_def nth_append)

lemma slice_blit_after:
  assumes "off + length src \<le> length bs" "off + length src \<le> off'"
  shows "slice (blit bs off src) off' n = slice bs off' n"
proof -
  have "drop off' (blit bs off src) = drop off' bs"
    using assms by (simp add: blit_def)
  then show ?thesis by (simp add: slice_def)
qed

lemma nth_blit:
  assumes "off + length src \<le> length bs" "i < length bs"
  shows "blit bs off src ! i = (if off \<le> i \<and> i < off + length src then src ! (i - off) else bs ! i)"
proof -
  consider "i < off" | "off \<le> i" "i < off + length src" | "off + length src \<le> i" by linarith
  then show ?thesis using assms by cases (auto simp: blit_def nth_append less_diff_conv2)
qed

lemma blit_append_exact:
  "length xs = off \<Longrightarrow> length src \<le> length ys \<Longrightarrow>
   blit (xs @ ys) off src = (xs @ src) @ drop (length src) ys"
  by (simp add: blit_def)

text \<open>
  \<open>write_fields bs fs\<close> copies every field of \<open>fs\<close> to its offset, as the serialisers do one
  \<open>copy_from_slice\<close> at a time. When the fields lie end to end the result is their concatenation.
\<close>

fun write_fields :: "'a list \<Rightarrow> (nat \<times> 'a list) list \<Rightarrow> 'a list" where
  "write_fields bs [] = bs"
| "write_fields bs ((off, src) # fs) = write_fields (blit bs off src) fs"

fun contiguous :: "nat \<Rightarrow> (nat \<times> 'a list) list \<Rightarrow> bool" where
  "contiguous n [] \<longleftrightarrow> True"
| "contiguous n ((off, src) # fs) \<longleftrightarrow> off = n \<and> contiguous (n + length src) fs"

lemma write_fields_contiguous:
  assumes "contiguous n fs" "n + length (concat (map snd fs)) \<le> length bs"
  shows "write_fields bs fs =
    take n bs @ concat (map snd fs) @ drop (n + length (concat (map snd fs))) bs"
  using assms
proof (induction fs arbitrary: n bs)
  case Nil
  then show ?case by simp
next
  case (Cons f fs)
  obtain off src where f: "f = (off, src)" by fastforce
  with Cons.prems have *: "off = n" "contiguous (n + length src) fs"
    "n + length src + length (concat (map snd fs)) \<le> length (blit bs n src)" by auto
  have "take (n + length src) (blit bs n src) = take n bs @ src"
    using * by (simp add: blit_def)
  moreover have "drop (n + length src + length (concat (map snd fs))) (blit bs n src)
      = drop (n + length src + length (concat (map snd fs))) bs"
    using * by (simp add: blit_def add.commute add.left_commute)
  ultimately show ?case using Cons.IH [OF *(2,3)] *(1) by (simp add: f add.assoc)
qed

subsection \<open>Parsing from an offset\<close>

text \<open>\<open>at data off bs\<close>: from offset \<open>off\<close> on, \<open>data\<close> consists of \<open>bs\<close>.\<close>

definition at :: "'a list \<Rightarrow> nat \<Rightarrow> 'a list \<Rightarrow> bool" where
  "at data off bs \<longleftrightarrow> off \<le> length data \<and> drop off data = bs"

lemma at_step: "at data off (xs @ bs) \<Longrightarrow> n = length xs \<Longrightarrow> at data (off + n) bs"
proof -
  assume *: "at data off (xs @ bs)" "n = length xs"
  then have "length data - off = length xs + length bs"
    by (metis at_def length_append length_drop)
  moreover have "drop (off + n) data = drop n (drop off data)" by (simp only: drop_drop add.commute)
  then have "drop (off + n) data = bs" using * by (simp only: at_def) simp
  ultimately show ?thesis using * by (cases "xs = []") (auto simp: at_def)
qed

lemma at_length: "at data off (xs @ bs) \<Longrightarrow> off + length xs \<le> length data"
  using at_step [of data off xs bs "length xs"] by (simp add: at_def)

lemma at_slice: "at data off (xs @ bs) \<Longrightarrow> n = length xs \<Longrightarrow> slice data off n = xs"
  by (simp add: at_def slice_def)

subsection \<open>The XOR checksum\<close>

definition XOR_SEED :: u64 where
  "XOR_SEED = 0x5A5A5A5A5A5A5A5A"

fun xor_loop :: "u64 \<Rightarrow> nat \<Rightarrow> bytes \<Rightarrow> u64" where
  "xor_loop checksum i [] = checksum"
| "xor_loop checksum i (byte # data) =
     xor_loop (checksum XOR (ucast byte XOR of_nat i)) (Suc i) data"

definition xor_checksum :: "bytes \<Rightarrow> u64" where
  "xor_checksum data = xor_loop XOR_SEED 0 data"

text \<open>
  The checksum is the XOR of the seed, of all bytes and of all indices: it depends on the length and
  on the XOR of the bytes, not on their order.
\<close>

primrec xor_all :: "bytes \<Rightarrow> u8" where
  "xor_all [] = 0"
| "xor_all (b # bs) = b XOR xor_all bs"

primrec xor_index :: "nat \<Rightarrow> nat \<Rightarrow> u64" where
  "xor_index i 0 = 0"
| "xor_index i (Suc n) = of_nat i XOR xor_index (Suc i) n"

lemma xor_index_add: "xor_index i (m + n) = xor_index i m XOR xor_index (i + m) n"
  by (induction m arbitrary: i) (simp_all add: xor.assoc)

lemma xor_index_numeral:
  "xor_index i (numeral k) = of_nat i XOR xor_index (Suc i) (pred_numeral k)"
  by (simp add: numeral_eq_Suc)

lemma ucast_xor_u8: "(ucast (a XOR b :: u8) :: u64) = ucast a XOR ucast b"
  by (rule bit_word_eqI) (auto simp: bit_ucast_iff bit_xor_iff)

lemma xor_loop_eq:
  "xor_loop c i data = c XOR ucast (xor_all data) XOR xor_index i (length data)"
proof (induction data arbitrary: c i)
  case Nil
  then show ?case by simp
next
  case (Cons b data)
  then show ?case by (simp only: xor_loop.simps xor_all.simps xor_index.simps length_Cons
        ucast_xor_u8 xor.assoc xor.left_commute xor.commute)
qed

lemma xor_checksum_eq:
  "xor_checksum data = XOR_SEED XOR ucast (xor_all data) XOR xor_index 0 (length data)"
  by (simp add: xor_checksum_def xor_loop_eq)

lemma xor_all_append [simp]: "xor_all (xs @ ys) = xor_all xs XOR xor_all ys"
  by (induction xs) (simp_all add: xor.assoc)

lemma xor_all_replicate_0 [simp]: "xor_all (replicate n 0) = 0"
  by (induction n) simp_all

lemma xor_checksum_cong:
  "length xs = length ys \<Longrightarrow> xor_all xs = xor_all ys \<Longrightarrow> xor_checksum xs = xor_checksum ys"
  by (simp add: xor_checksum_eq)

lemma unat_of_nat_u16: "n < 2 ^ 16 \<Longrightarrow> unat (of_nat n :: u16) = n"
  by (simp add: unat_of_nat take_bit_nat_eq_self)

lemma unat_of_nat_u32: "n < 2 ^ 32 \<Longrightarrow> unat (of_nat n :: u32) = n"
  by (simp add: unat_of_nat take_bit_nat_eq_self)

end
