(* ===== verification/Node_Record.thy ===== *)
theory Node_Record
  imports Bytes
begin

text \<open>
  Node records (\<open>v3/node/record.rs\<close>): the metadata of a node with its inline data or a reference to
  external data, the two constructors with their assertions, and the fixed 44 byte layout of
  \<open>serialize\<close> and \<open>deserialize\<close>. A failed assertion and an index out of range are the fault \<^const>\<open>Panic\<close>.
\<close>

unbundle bit_operations_syntax

definition FIXED_METADATA_SIZE :: nat where "FIXED_METADATA_SIZE = 44"
definition MAX_INLINE_DATA :: nat where "MAX_INLINE_DATA = 64"
definition EXTERNAL_DATA_FLAG :: u16 where "EXTERNAL_DATA_FLAG = 0x8000"
definition MAX_DATA_LEN :: u16 where "MAX_DATA_LEN = 0x7FFF"

record node_record =
  node_id :: i64
  flags :: u32
  kind_offset :: u16
  name_offset :: u16
  data_len :: u16
  data_inline :: "bytes option"
  data_external_offset :: "u64 option"
  outgoing_cluster_offset :: u64
  outgoing_edge_count :: u32
  incoming_cluster_offset :: u64
  incoming_edge_count :: u32

definition new_inline ::
  "i64 \<Rightarrow> u32 \<Rightarrow> u16 \<Rightarrow> u16 \<Rightarrow> bytes \<Rightarrow> u64 \<Rightarrow> u32 \<Rightarrow> u64 \<Rightarrow> u32 \<Rightarrow> node_record result" where
  "new_inline i fl kind name data out_off out_n in_off in_n =
     (let len = (of_nat (length data) :: u16)
      in if \<not> len \<le> of_nat MAX_INLINE_DATA then Inl Panic
         else Inr \<lparr>node_id = i, flags = fl, kind_offset = kind, name_offset = name, data_len = len,
                data_inline = Some data, data_external_offset = None,
                outgoing_cluster_offset = out_off, outgoing_edge_count = out_n,
                incoming_cluster_offset = in_off, incoming_edge_count = in_n\<rparr>)"

definition new_external ::
  "i64 \<Rightarrow> u32 \<Rightarrow> u16 \<Rightarrow> u16 \<Rightarrow> u64 \<Rightarrow> u16 \<Rightarrow> u64 \<Rightarrow> u32 \<Rightarrow> u64 \<Rightarrow> u32 \<Rightarrow> node_record result" where
  "new_external i fl kind name ext_off len out_off out_n in_off in_n =
     (if \<not> len > of_nat MAX_INLINE_DATA then Inl Panic
      else Inr \<lparr>node_id = i, flags = fl, kind_offset = kind, name_offset = name, data_len = len,
             data_inline = None, data_external_offset = Some ext_off,
             outgoing_cluster_offset = out_off, outgoing_edge_count = out_n,
             incoming_cluster_offset = in_off, incoming_edge_count = in_n\<rparr>)"

definition is_inline :: "node_record \<Rightarrow> bool" where
  "is_inline r \<longleftrightarrow> data_inline r \<noteq> None"

definition is_external :: "node_record \<Rightarrow> bool" where
  "is_external r \<longleftrightarrow> data_external_offset r \<noteq> None \<or> data_len r AND EXTERNAL_DATA_FLAG \<noteq> 0"

text \<open>The method \<open>data_len()\<close>, which masks the flag off the field of the same name.\<close>

definition masked_data_len :: "node_record \<Rightarrow> u16" where
  "masked_data_len r = data_len r AND MAX_DATA_LEN"

definition serialized_size :: "node_record \<Rightarrow> nat" where
  "serialized_size r =
     (if is_inline r then FIXED_METADATA_SIZE + (case data_inline r of Some d \<Rightarrow> length d | None \<Rightarrow> 0)
      else if is_external r then FIXED_METADATA_SIZE + 8
      else FIXED_METADATA_SIZE)"

definition encoded_data_len :: "node_record \<Rightarrow> u16" where
  "encoded_data_len r = (if is_external r then data_len r OR EXTERNAL_DATA_FLAG else data_len r)"

text \<open>The bytes that follow the metadata: the inline data, or else the external offset.\<close>

definition data_bytes :: "node_record \<Rightarrow> bytes" where
  "data_bytes r =
     (case data_inline r of Some data \<Rightarrow> data
      | None \<Rightarrow> (case data_external_offset r of Some off \<Rightarrow> to_be off | None \<Rightarrow> []))"

definition record_metadata :: "node_record \<Rightarrow> bytes" where
  "record_metadata r =
     to_be (node_id r) @ to_be (flags r) @ to_be (kind_offset r) @ to_be (name_offset r)
     @ to_be (encoded_data_len r) @ replicate 2 0
     @ to_be (outgoing_cluster_offset r) @ to_be (outgoing_edge_count r)
     @ to_be (incoming_cluster_offset r) @ to_be (incoming_edge_count r)"

definition record_serialize :: "node_record \<Rightarrow> bytes result" where
  "record_serialize r =
     (let buffer = record_metadata r
      in if length buffer \<noteq> FIXED_METADATA_SIZE then Inl Panic
         else Inr (buffer @ data_bytes r))"

definition record_deserialize :: "bytes \<Rightarrow> node_record result" where
  "record_deserialize bs =
     (if length bs < FIXED_METADATA_SIZE then Inl (Err (InvalidHeader ''node_record''))
      else
        let i = from_be (slice bs 0 8);
            fl = from_be (slice bs 8 4);
            kind = from_be (slice bs 12 2);
            name = from_be (slice bs 14 2);
            encoded = from_be (slice bs 16 2);
            external = (encoded AND EXTERNAL_DATA_FLAG \<noteq> 0);
            out_off = from_be (slice bs 20 8);
            out_n = from_be (slice bs 28 4);
            in_off = from_be (slice bs 32 8);
            in_n = from_be (slice bs 40 4);
            data = (if external then
                (if length bs > 44 then
                   (if 44 + 8 > length bs then Inl Panic
                    else Inr (None, Some (from_be (slice bs 44 8))))
                 else Inr (None, None))
              else Inr (Some (drop 44 bs), None))
        in bindR data (\<lambda>(inl, ext).
             Inr \<lparr>node_id = i, flags = fl, kind_offset = kind, name_offset = name, data_len = encoded,
               data_inline = inl, data_external_offset = ext,
               outgoing_cluster_offset = out_off, outgoing_edge_count = out_n,
               incoming_cluster_offset = in_off, incoming_edge_count = in_n\<rparr>))"

subsection \<open>Well-formed records\<close>

text \<open>
  What both constructors establish, as long as inline data is shorter than \<open>2 ^ 16\<close>: data is either
  inline, with its length in \<open>data_len\<close>, or external. \<open>stored r\<close> is the record a reader gets back:
  the external flag stays in its \<open>data_len\<close> field.
\<close>

definition wf_record :: "node_record \<Rightarrow> bool" where
  "wf_record r \<longleftrightarrow>
     (case data_inline r of
        Some d \<Rightarrow> data_external_offset r = None \<and> length d < 2 ^ 15 \<and> data_len r = of_nat (length d)
      | None \<Rightarrow> data_external_offset r \<noteq> None)"

definition stored :: "node_record \<Rightarrow> node_record" where
  "stored r = r\<lparr>data_len := encoded_data_len r\<rparr>"

lemma bit_external_flag: "bit (0x8000 :: u16) n \<longleftrightarrow> n = 15"
proof -
  have "(0x8000 :: u16) = push_bit 15 1" by simp
  then show ?thesis by (simp only: bit_push_bit_iff bit_1_iff) auto
qed

lemma flag_set: "x AND EXTERNAL_DATA_FLAG \<noteq> 0 \<longleftrightarrow> bit x 15"
proof -
  have "x AND EXTERNAL_DATA_FLAG = (if bit x 15 then 0x8000 else 0)"
    unfolding EXTERNAL_DATA_FLAG_def
    by (rule bit_word_eqI) (auto simp only: bit_and_iff bit_external_flag bit_0_eq split: if_splits)
  then show ?thesis by simp
qed

lemma flag_or: "bit (x OR EXTERNAL_DATA_FLAG) 15"
  by (simp only: EXTERNAL_DATA_FLAG_def bit_or_iff bit_external_flag) simp

lemma small_no_flag: "n < 2 ^ 15 \<Longrightarrow> \<not> bit (of_nat n :: u16) 15"
proof -
  assume "n < 2 ^ 15"
  then have "take_bit 15 (of_nat n :: u16) = of_nat n"
    by (metis of_nat_take_bit take_bit_nat_eq_self)
  then show ?thesis by (metis bit_take_bit_iff less_irrefl)
qed

lemma mask_data_len: "x AND MAX_DATA_LEN = take_bit 15 x"
proof -
  have "MAX_DATA_LEN = mask 15" by (simp add: MAX_DATA_LEN_def mask_eq_exp_minus_1)
  then show ?thesis by (simp add: take_bit_eq_mask)
qed

lemma wf_recordE:
  assumes "wf_record r"
  obtains (inline) d where "data_inline r = Some d" "data_external_offset r = None"
      "length d < 2 ^ 15" "data_len r = of_nat (length d)" "\<not> is_external r"
      "encoded_data_len r = of_nat (length d)"
    | (external) off where "data_inline r = None" "data_external_offset r = Some off"
      "is_external r" "bit (encoded_data_len r) 15"
proof (cases "data_inline r")
  case None
  with assms obtain off where "data_external_offset r = Some off" by (auto simp: wf_record_def)
  with None flag_or external show thesis by (auto simp: is_external_def encoded_data_len_def)
next
  case (Some d)
  with assms have *: "data_external_offset r = None" "length d < 2 ^ 15" "data_len r = of_nat (length d)"
    by (auto simp: wf_record_def)
  then have "\<not> is_external r" by (auto simp: is_external_def flag_set small_no_flag)
  with Some * inline show thesis by (simp add: encoded_data_len_def)
qed

lemma stored_simps [simp]:
  "node_id (stored r) = node_id r" "data_bytes (stored r) = data_bytes r"
  "data_inline (stored r) = data_inline r" "flags (stored r) = flags r"
  "data_external_offset (stored r) = data_external_offset r"
  by (simp_all add: stored_def data_bytes_def split: option.split)

lemma is_external_stored [simp]: "is_external (stored r) \<longleftrightarrow> is_external r"
  by (auto simp: stored_def is_external_def encoded_data_len_def flag_set flag_or)

lemma encoded_stored [simp]: "encoded_data_len (stored r) = encoded_data_len r"
  by (auto simp: encoded_data_len_def stored_def is_external_def flag_set flag_or)

lemma stored_stored [simp]: "stored (stored r) = stored r"
  by (simp only: stored_def [of "stored r"] encoded_stored) (simp add: stored_def)

lemma wf_stored_inline: "wf_record r \<Longrightarrow> data_inline r \<noteq> None \<Longrightarrow> stored r = r"
  by (erule wf_recordE) (simp_all add: stored_def)

subsection \<open>Serialised records\<close>

lemma length_record_metadata [byte_simps]: "length (record_metadata r) = 44"
  by (simp add: record_metadata_def byte_simps)

lemma record_serialize_eq: "record_serialize r = Inr (record_metadata r @ data_bytes r)"
  by (simp add: record_serialize_def FIXED_METADATA_SIZE_def byte_simps)

lemma metadata_fields:
  "slice (record_metadata r @ d) 0 8 = to_be (node_id r)"
  "slice (record_metadata r @ d) 8 4 = to_be (flags r)"
  "slice (record_metadata r @ d) 12 2 = to_be (kind_offset r)"
  "slice (record_metadata r @ d) 14 2 = to_be (name_offset r)"
  "slice (record_metadata r @ d) 16 2 = to_be (encoded_data_len r)"
  "slice (record_metadata r @ d) 20 8 = to_be (outgoing_cluster_offset r)"
  "slice (record_metadata r @ d) 28 4 = to_be (outgoing_edge_count r)"
  "slice (record_metadata r @ d) 32 8 = to_be (incoming_cluster_offset r)"
  "slice (record_metadata r @ d) 40 4 = to_be (incoming_edge_count r)"
  by (simp_all add: record_metadata_def byte_simps)

lemma record_deserialize_serialized:
  assumes "wf_record r"
  shows "record_deserialize (record_metadata r @ data_bytes r) = Inr (stored r)"
proof -
  have len: "length (record_metadata r @ data_bytes r) = 44 + length (data_bytes r)"
    by (simp add: byte_simps)
  have drop: "drop 44 (record_metadata r @ data_bytes r) = data_bytes r"
    by (simp add: byte_simps)
  have s44: "slice (record_metadata r @ data_bytes r) 44 8 = take 8 (data_bytes r)"
    by (simp add: byte_simps) (simp add: slice_def)
  from assms show ?thesis
  proof (cases rule: wf_recordE)
    case (inline d)
    have "stored r = r" using assms inline by (intro wf_stored_inline) simp_all
    with inline show ?thesis
      by (simp add: record_deserialize_def FIXED_METADATA_SIZE_def byte_simps metadata_fields Let_def
          flag_set small_no_flag data_bytes_def node_record.equality)
  next
    case (external off)
    have e8: "slice (to_be off) 0 8 = to_be off"
      by (simp add: slice_def byte_simps)
    from external have d: "data_bytes r = to_be off" by (simp add: data_bytes_def)
    with external show ?thesis
      by (simp add: record_deserialize_def FIXED_METADATA_SIZE_def len s44 metadata_fields Let_def
          flag_set byte_simps d stored_def e8 node_record.equality)
  qed
qed

subsection \<open>Properties\<close>

text \<open>
  A record that is serialised is deserialised with the same fields, inline data or external offset;
  only the external flag is added to the length field of an external record. The size is the one
  \<open>serialized_size\<close> announces.
\<close>

theorem record_roundtrip:
  assumes "wf_record r"
  shows "\<exists>bs. record_serialize r = Inr bs \<and> length bs = serialized_size r \<and>
    record_deserialize bs = Inr (r\<lparr>data_len := if is_external r then data_len r OR EXTERNAL_DATA_FLAG else data_len r\<rparr>)"
proof -
  have "length (record_metadata r @ data_bytes r) = serialized_size r"
    using assms by (cases rule: wf_recordE)
      (simp_all add: byte_simps serialized_size_def is_inline_def data_bytes_def FIXED_METADATA_SIZE_def)
  with record_deserialize_serialized [OF assms] show ?thesis
    by (simp add: record_serialize_eq stored_def encoded_data_len_def)
qed

lemma record_roundtrip_witness:
  "\<exists>bs. record_serialize \<lparr>node_id = 7, flags = 1, kind_offset = 2, name_offset = 3, data_len = 100,
       data_inline = None, data_external_offset = Some 4096, outgoing_cluster_offset = 5,
       outgoing_edge_count = 6, incoming_cluster_offset = 8, incoming_edge_count = 9\<rparr> = Inr bs \<and>
     length bs = 52"
  using record_roundtrip [of "\<lparr>node_id = 7, flags = 1, kind_offset = 2, name_offset = 3, data_len = 100,
       data_inline = None, data_external_offset = Some 4096, outgoing_cluster_offset = 5,
       outgoing_edge_count = 6, incoming_cluster_offset = 8, incoming_edge_count = 9\<rparr>"]
  by (auto simp: wf_record_def serialized_size_def is_inline_def is_external_def FIXED_METADATA_SIZE_def)

text \<open>
  \<open>new_inline\<close> builds a well-formed record when the data has at most 64 bytes and fails its
  assertion from 65 bytes to \<open>2 ^ 16 - 1\<close>; because the length is truncated to 16 bits before the
  assertion, data of \<open>2 ^ 16\<close> bytes passes it, with a recorded length of zero.
\<close>

theorem new_inline_length_check:
  "(if length data \<le> 64
    then \<exists>r. new_inline i fl kind name data oo on io ino = Inr r \<and> wf_record r \<and> data_inline r = Some data
    else if length data < 2 ^ 16 then new_inline i fl kind name data oo on io ino = Inl Panic
    else if length data = 2 ^ 16
    then \<exists>r. new_inline i fl kind name data oo on io ino = Inr r \<and> \<not> wf_record r \<and> data_len r = 0
    else True)"
proof -
  consider "length data \<le> 64" | "64 < length data" "length data < 2 ^ 16" | "length data = 2 ^ 16"
    | "2 ^ 16 < length data" by linarith
  then show ?thesis
  proof cases
    case 1
    then have "(of_nat (length data) :: u16) \<le> 64"
      by (simp add: word_le_nat_alt unat_of_nat take_bit_nat_eq_self)
    with 1 show ?thesis by (simp add: new_inline_def MAX_INLINE_DATA_def wf_record_def)
  next
    case 2
    then have "\<not> (of_nat (length data) :: u16) \<le> 64"
      by (simp add: word_le_nat_alt unat_of_nat take_bit_nat_eq_self)
    with 2 show ?thesis by (simp add: new_inline_def MAX_INLINE_DATA_def)
  next
    case 3
    then have "(of_nat (length data) :: u16) = 0"
      by simp
    with 3 show ?thesis by (simp add: new_inline_def MAX_INLINE_DATA_def wf_record_def)
  next
    case 4
    then show ?thesis by simp
  qed
qed

end
