(* ===== verification/Codec.thy ===== *)
theory Codec
  imports Bytes
begin

text \<open>
  The contract of a self-delimiting encoder and its decoder: what a reader of a packed record relies
  on when it decodes field after field from an offset. The decoder answers the value and the number
  of bytes it consumed.
\<close>

locale prefix_codec =
  fixes enc :: "'a \<Rightarrow> bytes" and dec :: "bytes \<Rightarrow> ('a \<times> nat) result"
  assumes dec_enc: "dec (enc x @ rest) = Inr (x, length (enc x))"
    and enc_nonempty: "enc x \<noteq> []"
begin

lemma dec_at:
  "data = pre @ enc x @ rest \<Longrightarrow> dec (drop (length pre) data) = Inr (x, length (enc x))"
  by (simp add: dec_enc)

lemma unique_parse: "enc x @ r = enc y @ s \<Longrightarrow> x = y \<and> r = s"
  by (metis dec_enc Inr_inject Pair_inject append_eq_append_conv)

lemma enc_inj: "enc x = enc y \<longleftrightarrow> x = y"
  using unique_parse [of x "[]" y "[]"] by auto

lemma stream_inj: "concat (map enc xs) = concat (map enc ys) \<Longrightarrow> xs = ys"
proof (induction xs arbitrary: ys)
  case Nil
  then show ?case using enc_nonempty by (cases ys) auto
next
  case (Cons x xs)
  then obtain y ys' where ys: "ys = y # ys'"
    using enc_nonempty by (cases ys) auto
  with Cons.prems have "enc x @ concat (map enc xs) = enc y @ concat (map enc ys')" by simp
  from unique_parse [OF this] Cons.IH ys show ?case by auto
qed

lemma length_stream: "length xs \<le> length (concat (map enc xs))"
proof (induction xs)
  case (Cons x xs)
  have "1 \<le> length (enc x)" using enc_nonempty by (cases "enc x") auto
  from add_mono [OF this Cons.IH] show ?case by simp
qed simp

end

end
