(* ===== verification/Varint.thy ===== *)
theory Varint
  imports Codec
begin

text \<open>
  The variable-length integers of \<open>v3/compression/varint.rs\<close>: seven data bits a byte, low group
  first, the top bit of a byte set when another byte follows.
\<close>

unbundle bit_operations_syntax

definition MAX_VARINT_BYTES :: nat where
  "MAX_VARINT_BYTES = 10"

definition DATA_MASK :: u8 where
  "DATA_MASK = 0x7F"

definition CONTINUATION_BIT :: u8 where
  "CONTINUATION_BIT = 0x80"

lemma unat_drop_bit_7_less [termination_simp]: "r \<noteq> 0 \<Longrightarrow> unat (drop_bit 7 (r :: u64)) < unat r"
proof -
  assume "r \<noteq> 0"
  then have "0 < unat r" by (simp add: unat_gt_0)
  moreover have "unat (drop_bit 7 r) = unat r div 2 ^ 7"
    by (subst unat_drop_bit_eq) (rule drop_bit_eq_div)
  ultimately show ?thesis by simp
qed

lemma word_pos_iff: "0 < (r :: 'a::len word) \<longleftrightarrow> r \<noteq> 0"
  by (simp add: word_neq_0_conv)

text \<open>The loop of \<open>encode_varint\<close> on the buffer written so far and the bits that remain.\<close>

function encode_varint_loop :: "bytes \<Rightarrow> u64 \<Rightarrow> bytes" where
  "encode_varint_loop buffer remaining =
     (if 0 < remaining then
        let byte = ucast (remaining AND ucast DATA_MASK);
            remaining' = drop_bit 7 remaining;
            byte' = (if 0 < remaining' then byte OR CONTINUATION_BIT else byte)
        in encode_varint_loop (buffer @ [byte']) remaining'
      else buffer)"
  by pat_completeness auto
termination
  by (relation "measure (\<lambda>(b, r). unat r)")
    (auto simp: word_pos_iff unat_drop_bit_7_less)

declare encode_varint_loop.simps [simp del]

definition encode_varint :: "u64 \<Rightarrow> bytes" where
  "encode_varint value = (if value = 0 then [0] else encode_varint_loop [] value)"

text \<open>The loop of \<open>decode_varint\<close>, with \<open>i\<close> the index of the next byte.\<close>

fun decode_varint_loop :: "nat \<Rightarrow> u64 \<Rightarrow> nat \<Rightarrow> bytes \<Rightarrow> (u64 \<times> nat) result" where
  "decode_varint_loop i result shift [] = Inl (Err (InvalidHeader ''varint''))"
| "decode_varint_loop i result shift (byte # bytes) =
     (if MAX_VARINT_BYTES \<le> i then Inl (Err (InvalidHeader ''varint''))
      else
        let data = ucast (byte AND DATA_MASK);
            result' = result OR push_bit shift data
        in if byte AND CONTINUATION_BIT = 0 then Inr (result', Suc i)
           else if 64 \<le> shift + 7 then Inl (Err (InvalidHeader ''varint''))
           else decode_varint_loop (Suc i) result' (shift + 7) bytes)"

definition decode_varint :: "bytes \<Rightarrow> (u64 \<times> nat) result" where
  "decode_varint bytes =
     (if bytes = [] then Inl (Err (InvalidHeader ''varint''))
      else decode_varint_loop 0 0 0 bytes)"

function varint_size_loop :: "nat \<Rightarrow> u64 \<Rightarrow> nat" where
  "varint_size_loop count remaining =
     (if 0 < remaining then varint_size_loop (count + 1) (drop_bit 7 remaining) else count)"
  by pat_completeness auto
termination
  by (relation "measure (\<lambda>(s, r). unat r)")
    (auto simp: word_pos_iff unat_drop_bit_7_less)

declare varint_size_loop.simps [simp del]

definition varint_size :: "u64 \<Rightarrow> nat" where
  "varint_size value = (if value = 0 then 1 else varint_size_loop 0 value)"

definition encode_varint_u32 :: "u32 \<Rightarrow> bytes" where
  "encode_varint_u32 value = encode_varint (ucast value)"

definition decode_varint_u32 :: "bytes \<Rightarrow> (u32 \<times> nat) result" where
  "decode_varint_u32 bytes = bindR (decode_varint bytes) (\<lambda>(value, bytes_read).
     if 0xFFFFFFFF < value then Inl (Err (InvalidHeader ''varint_u32''))
     else Inr (ucast value, bytes_read))"

definition encode_varint_u16 :: "u16 \<Rightarrow> bytes" where
  "encode_varint_u16 value = encode_varint (ucast value)"

definition decode_varint_u16 :: "bytes \<Rightarrow> (u16 \<times> nat) result" where
  "decode_varint_u16 bytes = bindR (decode_varint bytes) (\<lambda>(value, bytes_read).
     if 0xFFFF < value then Inl (Err (InvalidHeader ''varint_u16''))
     else Inr (ucast value, bytes_read))"

subsection \<open>The groups of an encoding\<close>

text \<open>The bytes the encoding loop appends, as a function of the bits that remain.\<close>

function groups :: "u64 \<Rightarrow> bytes" where
  "groups r =
     (if r = 0 then []
      else if drop_bit 7 r = 0 then [ucast r]
      else (ucast (r AND 0x7F) OR 0x80) # groups (drop_bit 7 r))"
  by pat_completeness auto
termination
  by (relation "measure unat") (auto simp: unat_drop_bit_7_less)

declare groups.simps [simp del]

lemma mask_7: "(0x7F :: 'a::len word) = mask 7"
  by (simp add: mask_eq_exp_minus_1)

lemma mask_small: "drop_bit 7 (r :: u64) = 0 \<Longrightarrow> r AND 0x7F = r"
  by (simp only: mask_7 take_bit_eq_mask [symmetric] take_bit_eq_self_iff_drop_bit_eq_0)

lemma groups_0 [simp]: "groups 0 = []"
  by (simp add: groups.simps)

lemma encode_varint_loop_groups: "encode_varint_loop buffer r = buffer @ groups r"
proof (induction buffer r rule: encode_varint_loop.induct)
  case (1 buffer r)
  show ?case
  proof (cases "r = 0")
    case True
    then show ?thesis by (simp add: encode_varint_loop.simps [of buffer])
  next
    case False
    then have r: "0 < r" by (simp add: word_pos_iff)
    show ?thesis
    proof (cases "drop_bit 7 r = 0")
      case True
      then show ?thesis using r mask_small [OF True]
        by (simp add: encode_varint_loop.simps [of buffer r] groups.simps [of r] Let_def
            encode_varint_loop.simps [of _ 0] DATA_MASK_def)
    next
      case nz: False
      from "1.IH" [OF r refl refl refl] nz r show ?thesis
        by (simp add: encode_varint_loop.simps [of buffer r] groups.simps [of r] Let_def
            DATA_MASK_def CONTINUATION_BIT_def word_pos_iff)
    qed
  qed
qed

lemma groups_nonempty: "r \<noteq> 0 \<Longrightarrow> groups r \<noteq> []"
  by (simp add: groups.simps [of r])

lemma bit_127_int: "bit (127 :: int) n \<longleftrightarrow> n < 7"
proof -
  have "(127 :: int) = mask 7" by (simp add: mask_eq_exp_minus_1)
  then show ?thesis by (simp only: bit_mask_iff) simp
qed
lemma bit_128_int: "bit (128 :: int) n \<longleftrightarrow> n = 7"
proof -
  have "(128 :: int) = push_bit 7 1" by simp
  then show ?thesis by (simp only: bit_push_bit_iff bit_1_iff) auto
qed

lemma low_group: "ucast (ucast r AND (0x7F :: u8)) = (r :: u64) AND 0x7F"
  by (rule bit_word_eqI) (auto simp: bit_ucast_iff bit_and_iff bit_127_int)

lemma last_group_no_flag: "drop_bit 7 (r :: u64) = 0 \<Longrightarrow> (ucast r :: u8) AND 0x80 = 0"
proof (rule bit_word_eqI)
  fix n assume "drop_bit 7 r = 0" "n < LENGTH(8)"
  then have "\<not> bit (drop_bit 7 r) 0" by simp
  then have "\<not> bit r 7" by (simp only: bit_drop_bit_eq comp_apply) simp
  then show "bit ((ucast r :: u8) AND 0x80) n = bit 0 n"
    by (auto simp: bit_and_iff bit_128_int bit_ucast_iff)
qed

lemma flagged_group_data:
  "ucast ((ucast ((r :: u64) AND 0x7F) OR 0x80 :: u8) AND 0x7F) = r AND 0x7F"
  by (rule bit_word_eqI)
    (auto simp: bit_ucast_iff bit_and_iff bit_or_iff bit_127_int bit_128_int)

lemma flagged_group_flag: "(x OR 0x80 :: u8) AND 0x80 \<noteq> 0"
proof
  assume "(x OR 0x80 :: u8) AND 0x80 = 0"
  then have "\<not> bit ((x OR 0x80 :: u8) AND 0x80) 7" by simp
  then show False by (simp add: bit_and_iff bit_or_iff bit_128_int)
qed

lemma join_group: "(r AND 0x7F) OR push_bit 7 (drop_bit 7 r) = (r :: u64)"
proof (rule bit_word_eqI)
  fix n assume "n < LENGTH(64)"
  then show "bit ((r AND 0x7F) OR push_bit 7 (drop_bit 7 r)) n = bit r n"
    by (cases "n < 7") (auto simp: bit_and_iff bit_or_iff bit_127_int bit_push_bit_iff bit_drop_bit_eq)
qed
lemma unat_drop_bit_7: "unat (drop_bit 7 (r :: u64)) = unat r div 128"
  by (subst unat_drop_bit_eq) (simp add: drop_bit_eq_div)

lemma drop_bit_7_nonzero: "drop_bit 7 (r :: u64) \<noteq> 0 \<longleftrightarrow> 128 \<le> unat r"
proof -
  have "drop_bit 7 r = 0 \<longleftrightarrow> unat r div 128 = 0"
    by (metis unat_0 unat_drop_bit_7 unat_eq_zero)
  then show ?thesis by (auto simp: div_eq_0_iff)
qed
lemma decode_groups:
  assumes "r \<noteq> 0" "shift = 7 * i" "shift < 64" "unat r < 2 ^ (64 - shift)"
  shows "decode_varint_loop i res shift (groups r @ rest) =
    Inr (res OR push_bit shift r, i + length (groups r))"
  using assms
proof (induction r arbitrary: i res shift rule: groups.induct)
  case (1 r)
  have i: "i < 10" using "1.prems" by simp
  show ?case
  proof (cases "drop_bit 7 r = 0")
    case True
    with "1.prems" i show ?thesis
      by (simp add: groups.simps [of r] Let_def MAX_VARINT_BYTES_def DATA_MASK_def
          CONTINUATION_BIT_def low_group last_group_no_flag mask_small)
  next
    case False
    then have "128 \<le> unat r" by (simp add: drop_bit_7_nonzero)
    with "1.prems"(4) have "(2::nat) ^ 7 < 2 ^ (64 - shift)" by simp
    then have shift: "shift + 7 < 64"
      using power_less_imp_less_exp [of "2::nat" 7 "64 - shift"] by linarith
    have "(2::nat) ^ (64 - shift) = 2 ^ (64 - (shift + 7)) * 128"
      using shift power_add [of "2::nat" "57 - shift" 7] by simp
    then have "unat (drop_bit 7 r) < 2 ^ (64 - (shift + 7))"
      using "1.prems"(4) by (simp add: unat_drop_bit_7 less_mult_imp_div_less)
    with "1.IH" [of "shift + 7" "Suc i" "res OR push_bit shift (r AND 0x7F)"] False "1.prems" shift
    have "decode_varint_loop (Suc i) (res OR push_bit shift (r AND 0x7F)) (shift + 7)
        (groups (drop_bit 7 r) @ rest) =
      Inr (res OR push_bit shift ((r AND 0x7F) OR push_bit 7 (drop_bit 7 r)),
        Suc i + length (groups (drop_bit 7 r)))"
      by (simp add: push_bit_or or.assoc add.commute)
    then show ?thesis
      using False "1.prems" i shift
      by (simp add: groups.simps [of r] Let_def MAX_VARINT_BYTES_def DATA_MASK_def
          CONTINUATION_BIT_def flagged_group_data flagged_group_flag join_group)
  qed
qed

lemma encode_varint_eq: "encode_varint v = (if v = 0 then [0] else groups v)"
  by (simp add: encode_varint_def encode_varint_loop_groups)

lemma decode_encode_varint: "decode_varint (encode_varint v @ rest) = Inr (v, length (encode_varint v))"
proof (cases "v = 0")
  case True
  then show ?thesis
    by (simp add: encode_varint_eq decode_varint_def MAX_VARINT_BYTES_def Let_def)
next
  case False
  then show ?thesis
    using decode_groups [of v 0 0 0 rest] groups_nonempty [OF False] unsigned_less [of v, where ?'a = nat]
    by (simp add: encode_varint_eq decode_varint_def)
qed

interpretation varint: prefix_codec encode_varint decode_varint
proof
  show "decode_varint (encode_varint x @ rest) = Inr (x, length (encode_varint x))" for x rest
    by (rule decode_encode_varint)
  show "encode_varint x \<noteq> []" for x
    by (simp add: encode_varint_eq groups_nonempty)
qed

subsection \<open>Size of an encoding\<close>

lemma varint_size_loop_groups: "varint_size_loop count r = count + length (groups r)"
proof (induction count r rule: varint_size_loop.induct)
  case (1 count r)
  show ?case
  proof (cases "r = 0")
    case True
    then show ?thesis by (simp add: varint_size_loop.simps [of count])
  next
    case False
    with "1.IH" show ?thesis
      by (simp add: varint_size_loop.simps [of count r] groups.simps [of r] word_pos_iff)
  qed
qed

lemma varint_size_eq: "varint_size v = length (encode_varint v)"
  by (simp add: varint_size_def encode_varint_eq varint_size_loop_groups)

lemma length_groups_le_iff: "length (groups r) \<le> k \<longleftrightarrow> unat r < 2 ^ (7 * k)"
proof (induction r arbitrary: k rule: groups.induct)
  case (1 r)
  show ?case
  proof (cases "r = 0")
    case False
    then have "unat r \<noteq> 0" by (simp add: unat_eq_zero)
    show ?thesis
    proof (cases k)
      case 0
      with False \<open>unat r \<noteq> 0\<close> show ?thesis by (simp add: groups.simps [of r])
    next
      case (Suc k')
      have small: "drop_bit 7 r = 0 \<longleftrightarrow> unat r < 128"
        using drop_bit_7_nonzero [of r] by auto
      have "unat r < 128 \<Longrightarrow> unat r < 2 ^ (7 * Suc k')"
        using power_increasing [of 7 "7 * Suc k'" "2::nat"] by simp
      moreover have "unat r div 128 < 2 ^ (7 * k') \<longleftrightarrow> unat r < 2 ^ (7 * Suc k')"
        by (simp add: div_less_iff_less_mult power_add mult.commute)
      ultimately show ?thesis
        using "1.IH" [of k'] False Suc small
        by (auto simp: groups.simps [of r] unat_drop_bit_7)
    qed
  qed simp
qed

lemma varint_size_le_iff:
  "1 \<le> k \<Longrightarrow> varint_size v \<le> k \<longleftrightarrow> unat v < 2 ^ (7 * k)"
  by (auto simp: varint_size_eq encode_varint_eq length_groups_le_iff)

lemma varint_size_bounds: "1 \<le> varint_size v" "varint_size v \<le> MAX_VARINT_BYTES"
proof -
  show "1 \<le> varint_size v"
    using varint.enc_nonempty [of v] by (cases "encode_varint v") (simp_all add: varint_size_eq)
  have "unat v < 2 ^ 64" using unsigned_less [of v, where ?'a = nat] by simp
  then show "varint_size v \<le> MAX_VARINT_BYTES"
    by (simp add: MAX_VARINT_BYTES_def varint_size_le_iff)
qed

subsection \<open>What the decoder accepts\<close>

lemma decode_varint_loop_bounds:
  assumes "decode_varint_loop i res shift bs = Inr (v, n)"
  shows "i < n" "n \<le> i + length bs" "n \<le> MAX_VARINT_BYTES"
    "decode_varint_loop i res shift (take (n - i) bs @ ys) = Inr (v, n)"
proof -
  have "i < n \<and> n \<le> i + length bs \<and> n \<le> MAX_VARINT_BYTES \<and>
    decode_varint_loop i res shift (take (n - i) bs @ ys) = Inr (v, n)"
    using assms
  proof (induction i res shift bs rule: decode_varint_loop.induct)
    case (2 i res shift b bs)
    from "2.prems" have i: "i < MAX_VARINT_BYTES" by (auto split: if_splits)
    show ?case
    proof (cases "b AND CONTINUATION_BIT = 0")
      case True
      with "2.prems" i show ?thesis by (auto simp: Let_def)
    next
      case False
      with "2.prems" i have shift: "\<not> 64 \<le> shift + 7"
        by (auto simp: Let_def split: if_splits)
      from "2.IH" [OF _ refl refl False shift] "2.prems" i False shift
      have IH: "Suc i < n" "n \<le> Suc i + length bs" "n \<le> MAX_VARINT_BYTES"
        "decode_varint_loop (Suc i) (res OR push_bit shift (ucast (b AND DATA_MASK))) (shift + 7)
           (take (n - Suc i) bs @ ys) = Inr (v, n)"
        by (auto simp: Let_def)
      then have "take (n - i) (b # bs) = b # take (n - Suc i) bs"
        by (simp add: take_Cons' Suc_diff_Suc)
      with IH False shift i show ?thesis by (simp add: Let_def)
    qed
  qed simp
  then show "i < n" "n \<le> i + length bs" "n \<le> MAX_VARINT_BYTES"
    "decode_varint_loop i res shift (take (n - i) bs @ ys) = Inr (v, n)" by auto
qed

lemma decode_varint_Inr:
  assumes "decode_varint bs = Inr (v, n)"
  shows "1 \<le> n" "n \<le> length bs" "n \<le> MAX_VARINT_BYTES"
    "decode_varint (take n bs @ ys) = Inr (v, n)"
proof -
  from assms have loop: "decode_varint_loop 0 0 0 bs = Inr (v, n)" and "bs \<noteq> []"
    by (auto simp: decode_varint_def split: if_splits)
  from decode_varint_loop_bounds [OF loop] show "1 \<le> n" "n \<le> length bs" "n \<le> MAX_VARINT_BYTES"
    by simp_all
  with decode_varint_loop_bounds(4) [OF loop, of ys] \<open>bs \<noteq> []\<close>
  show "decode_varint (take n bs @ ys) = Inr (v, n)"
    by (simp add: decode_varint_def)
qed

lemma decode_encode_varint_u32:
  "decode_varint_u32 (encode_varint_u32 v @ rest) = Inr (v, length (encode_varint_u32 v))"
proof -
  have "\<not> 0xFFFFFFFF < (ucast v :: u64)"
    using unsigned_less [of v, where ?'a = nat]
    by (simp add: word_less_nat_alt unat_ucast_up)
  then show ?thesis
    by (simp add: decode_varint_u32_def encode_varint_u32_def decode_encode_varint ucast_up_down)
qed

lemma decode_encode_varint_u16:
  "decode_varint_u16 (encode_varint_u16 v @ rest) = Inr (v, length (encode_varint_u16 v))"
proof -
  have "\<not> 0xFFFF < (ucast v :: u64)"
    using unsigned_less [of v, where ?'a = nat]
    by (simp add: word_less_nat_alt unat_ucast_up)
  then show ?thesis
    by (simp add: decode_varint_u16_def encode_varint_u16_def decode_encode_varint ucast_up_down)
qed

interpretation varint_u32: prefix_codec encode_varint_u32 decode_varint_u32
  by unfold_locales
    (rule decode_encode_varint_u32, simp add: encode_varint_u32_def varint.enc_nonempty)

interpretation varint_u16: prefix_codec encode_varint_u16 decode_varint_u16
  by unfold_locales
    (rule decode_encode_varint_u16, simp add: encode_varint_u16_def varint.enc_nonempty)

subsection \<open>Properties\<close>

text \<open>
  C40. Encoding a 64 bit value as a varint and decoding the result gives the value back, whatever
  bytes follow; the number of bytes read is the number written, the one \<open>varint_size\<close> predicts, at
  most ten, and no more than the bits of the value need.
\<close>

theorem varint_roundtrip:
  "decode_varint (encode_varint v @ rest) = Inr (v, varint_size v) \<and>
   varint_size v \<le> MAX_VARINT_BYTES \<and>
   (varint_size v \<le> Suc k \<longleftrightarrow> unat v < 2 ^ (7 * Suc k))"
  using decode_encode_varint [of v rest] varint_size_eq [of v] varint_size_bounds(2) [of v]
    varint_size_le_iff [of "Suc k" v] by simp

text \<open>
  Decoding untrusted bytes reads at least one and at most ten of them, never past the end of the
  input, and what it returns depends only on the bytes it read.
\<close>

theorem decode_varint_safe:
  assumes "decode_varint bs = Inr (v, n)"
  shows "1 \<le> n \<and> n \<le> length bs \<and> n \<le> MAX_VARINT_BYTES \<and> decode_varint (take n bs @ ys) = Inr (v, n)"
  using decode_varint_Inr [OF assms] by blast

lemma decode_varint_safe_witness:
  "1 \<le> (2 :: nat) \<and> 2 \<le> length [0xAC, 0x02, 0xFF :: u8] \<and> 2 \<le> MAX_VARINT_BYTES \<and>
   decode_varint (take 2 [0xAC, 0x02, 0xFF] @ [7]) = Inr (300, 2)"
  by (rule decode_varint_safe)
    (simp add: decode_varint_def MAX_VARINT_BYTES_def DATA_MASK_def CONTINUATION_BIT_def Let_def)

end
