(* ===== verification/Delta.thy ===== *)
theory Delta
  imports Prelude
begin

text \<open>
  The delta encoding of node ids of \<open>v3/compression/delta.rs\<close>: a page stores each id as its distance
  from the base id of the page, clamped to 32 bits.
\<close>

definition MAX_DELTA :: u32 where
  "MAX_DELTA = 0xFFFFFFFF"

definition MAX_ID_DIFFERENCE :: i64 where
  "MAX_ID_DIFFERENCE = ucast MAX_DELTA"

definition encode_id_delta :: "i64 \<Rightarrow> i64 \<Rightarrow> u32" where
  "encode_id_delta node_id base_id =
     (let difference = i64_saturating_sub node_id base_id
      in if sint difference < 0 then 0
         else if sint MAX_ID_DIFFERENCE < sint difference then MAX_DELTA
         else ucast difference)"

definition decode_id_delta :: "u32 \<Rightarrow> i64 \<Rightarrow> i64 result" where
  "decode_id_delta delta base_id =
     (case i64_checked_add base_id (ucast delta) of
        Some reconstructed_id \<Rightarrow> Inr reconstructed_id
      | None \<Rightarrow> Inl (Err (InvalidHeader ''id_delta'')))"

text \<open>\<open>iter().min()\<close> keeps the first of equal elements, which is the same value.\<close>

fun i64_min_loop :: "i64 \<Rightarrow> i64 list \<Rightarrow> i64" where
  "i64_min_loop m [] = m"
| "i64_min_loop m (x # xs) = i64_min_loop (if sint x < sint m then x else m) xs"

definition calculate_optimal_base_id :: "i64 list \<Rightarrow> i64" where
  "calculate_optimal_base_id node_ids =
     (case node_ids of [] \<Rightarrow> 0 | x # xs \<Rightarrow> i64_min_loop x xs)"

definition estimate_delta_savings :: "nat \<Rightarrow> u32 \<Rightarrow> nat" where
  "estimate_delta_savings node_count avg_delta = node_count * 8 - node_count * 4"

subsection \<open>Distances and clamping\<close>

lemma sint_MAX_ID_DIFFERENCE [simp]: "sint MAX_ID_DIFFERENCE = 2 ^ 32 - 1"
  by (simp add: MAX_ID_DIFFERENCE_def MAX_DELTA_def)

lemma sint_ucast_u32 [simp]: "sint (ucast (d :: u32) :: i64) = uint d"
proof -
  have "uint d < 2 ^ 32" using unsigned_less [of d, where ?'a = int] by simp
  moreover have "sint (ucast d :: i64) = signed_take_bit 63 (uint d)"
    by (simp add: signed_ucast_eq)
  moreover have "- (2 ^ 63) \<le> uint d"
    by (rule order.trans [OF _ unsigned_greater_eq]) simp
  ultimately show ?thesis by (simp add: signed_take_bit_int_eq_self)
qed

lemma uint_encode_id_delta:
  "uint (encode_id_delta node_id base_id) = max 0 (min (2 ^ 32 - 1) (sint node_id - sint base_id))"
proof -
  define d where "d = i64_saturating_sub node_id base_id"
  have d: "sint d = max (- (2 ^ 63)) (min (2 ^ 63 - 1) (sint node_id - sint base_id))"
    by (simp add: d_def sint_i64_saturating_sub)
  have "uint (ucast d :: u32) = sint d" if "0 \<le> sint d" "sint d \<le> 2 ^ 32 - 1"
  proof -
    have "uint d = sint d"
      using that(1) by (rule uint_eq_sint_i64)
    then show ?thesis using that by (simp add: unsigned_ucast_eq take_bit_int_eq_self)
  qed
  then show ?thesis
    unfolding encode_id_delta_def d_def [symmetric] Let_def
    using d by (auto simp: MAX_DELTA_def)
qed

lemma decode_id_delta_eq:
  "decode_id_delta delta base_id =
     (if sint base_id + uint delta < 2 ^ 63 then Inr (base_id + ucast delta)
      else Inl (Err (InvalidHeader ''id_delta'')))"
proof -
  have "- (2 ^ 63) \<le> sint base_id + uint delta"
    using sint_i64_bounds(1) [of base_id] unsigned_greater_eq [of delta, where ?'a = int] by linarith
  then show ?thesis by (simp add: decode_id_delta_def i64_checked_add_def Let_def)
qed

lemma decode_encode_id_delta:
  assumes "sint base_id \<le> sint node_id" "sint node_id - sint base_id \<le> 2 ^ 32 - 1"
  shows "decode_id_delta (encode_id_delta node_id base_id) base_id = Inr node_id"
proof -
  define d where "d = encode_id_delta node_id base_id"
  have d: "uint d = sint node_id - sint base_id"
    using assms by (simp add: d_def uint_encode_id_delta)
  have "sint (base_id + ucast d) = sint node_id"
    using sint_add_i64 [of base_id "ucast d"] d sint_i64_bounds [of node_id] by simp
  then have "base_id + ucast d = node_id" by (rule signed_word_eqI)
  with d sint_i64_bounds [of node_id] show ?thesis
    by (simp add: decode_id_delta_eq flip: d_def)
qed

lemma i64_min_loop_least:
  "sint (i64_min_loop m xs) \<le> sint m" "x \<in> set xs \<Longrightarrow> sint (i64_min_loop m xs) \<le> sint x"
  "i64_min_loop m xs \<in> insert m (set xs)"
  by (induction xs arbitrary: m) (auto, (smt (verit, best))+)

lemma calculate_optimal_base_id_least:
  "x \<in> set ids \<Longrightarrow> sint (calculate_optimal_base_id ids) \<le> sint x"
  "ids \<noteq> [] \<Longrightarrow> calculate_optimal_base_id ids \<in> set ids"
  using i64_min_loop_least by (cases ids; fastforce simp: calculate_optimal_base_id_def)+

lemma decode_encode_batch:
  assumes "x \<in> set ids"
    and "\<forall>y \<in> set ids. \<forall>z \<in> set ids. sint y - sint z \<le> 2 ^ 32 - 1"
  shows "decode_id_delta (encode_id_delta x (calculate_optimal_base_id ids))
           (calculate_optimal_base_id ids) = Inr x"
proof (rule decode_encode_id_delta)
  show "sint (calculate_optimal_base_id ids) \<le> sint x"
    by (rule calculate_optimal_base_id_least) (rule assms)
  have "ids \<noteq> []" using assms(1) by auto
  then have "calculate_optimal_base_id ids \<in> set ids"
    by (rule calculate_optimal_base_id_least)
  with assms show "sint x - sint (calculate_optimal_base_id ids) \<le> 2 ^ 32 - 1" by blast
qed

subsection \<open>Properties\<close>

text \<open>
  The delta encoding clamps the distance from the base to 32 bits, with no overflow for any pair
  of ids; decoding fails exactly when the sum leaves the signed 64 bit range.
\<close>

theorem delta_clamps:
  "uint (encode_id_delta node_id base_id) = max 0 (min (2 ^ 32 - 1) (sint node_id - sint base_id)) \<and>
   decode_id_delta delta base_id =
     (if sint base_id + uint delta < 2 ^ 63 then Inr (base_id + ucast delta)
      else Inl (Err (InvalidHeader ''id_delta'')))"
  using uint_encode_id_delta decode_id_delta_eq by blast

text \<open>
  With the optimal base of a page, every id of the page is recovered from its delta, as long as
  the ids of the page span less than \<open>2 ^ 32\<close>.
\<close>

theorem delta_page_roundtrip:
  assumes "x \<in> set ids" "\<forall>y \<in> set ids. \<forall>z \<in> set ids. sint y - sint z \<le> 2 ^ 32 - 1"
  shows "decode_id_delta (encode_id_delta x (calculate_optimal_base_id ids))
           (calculate_optimal_base_id ids) = Inr x"
  using assms by (rule decode_encode_batch)

lemma delta_page_roundtrip_witness:
  "decode_id_delta (encode_id_delta 1000 (calculate_optimal_base_id [1000, 7, 4294967302]))
     (calculate_optimal_base_id [1000, 7, 4294967302]) = Inr 1000"
  by (rule delta_page_roundtrip) simp_all

end
