(* ===== verification/Header_V3.thy ===== *)
theory Header_V3
  imports Bytes
begin

text \<open>
  The persistent file header of the V3 format (\<open>v3/header.rs\<close>, \<open>v3/constants.rs\<close>): 112 bytes, all
  integers big endian, with the validation that every opened file passes. The lemmas show that
  \<open>from_bytes\<close> inverts \<open>to_bytes\<close>, what \<open>validate\<close> accepts, and that the version test agrees with it.
\<close>

subsection \<open>Constants\<close>

definition V2_MAGIC :: bytes where
  "V2_MAGIC = [0x53, 0x51, 0x4C, 0x54, 0x47, 0x46, 0, 0]"

definition MAGIC_BYTES :: bytes where
  "MAGIC_BYTES = [0x53, 0x51, 0x4C, 0x54, 0x47, 0x46, 0, 0]"

definition V3_MAGIC :: bytes where
  "V3_MAGIC = [0x53, 0x51, 0x4C, 0x54, 0x47, 0x46, 0, 3]"

definition V3_FORMAT_VERSION :: u32 where
  "V3_FORMAT_VERSION = 4"

definition V3_HEADER_SIZE :: nat where
  "V3_HEADER_SIZE = 112"

definition DEFAULT_PAGE_SIZE :: nat where
  "DEFAULT_PAGE_SIZE = 4096"

definition MAX_BTREE_HEIGHT :: u32 where
  "MAX_BTREE_HEIGHT = 4"

definition FLAG_V2_FRAMED_RECORDS :: u32 where
  "FLAG_V2_FRAMED_RECORDS = 0x00000001"

definition FLAG_V2_ATOMIC_COMMIT :: u32 where
  "FLAG_V2_ATOMIC_COMMIT = 0x00000002"

definition FLAG_V3_BTREE_INDEX :: u32 where
  "FLAG_V3_BTREE_INDEX = 0x00000004"

definition DEFAULT_V3_FEATURE_FLAGS :: u32 where
  "DEFAULT_V3_FEATURE_FLAGS = (FLAG_V2_FRAMED_RECORDS OR FLAG_V2_ATOMIC_COMMIT) OR FLAG_V3_BTREE_INDEX"

definition DEFAULT_SCHEMA_VERSION :: u32 where
  "DEFAULT_SCHEMA_VERSION = 1"

lemmas header_consts = V2_MAGIC_def MAGIC_BYTES_def V3_MAGIC_def V3_FORMAT_VERSION_def V3_HEADER_SIZE_def
  DEFAULT_PAGE_SIZE_def MAX_BTREE_HEIGHT_def FLAG_V2_FRAMED_RECORDS_def FLAG_V2_ATOMIC_COMMIT_def
  FLAG_V3_BTREE_INDEX_def DEFAULT_V3_FEATURE_FLAGS_def DEFAULT_SCHEMA_VERSION_def

subsection \<open>The header\<close>

record persistent_header_v3 =
  hdr_magic :: bytes
  hdr_version :: u32
  hdr_flags :: u32
  hdr_node_count :: u64
  hdr_edge_count :: u64
  hdr_schema_version :: u32
  hdr_reserved :: u32
  hdr_node_data_offset :: u64
  hdr_edge_data_offset :: u64
  hdr_outgoing_cluster_offset :: u64
  hdr_incoming_cluster_offset :: u64
  hdr_free_space_offset :: u64
  hdr_root_index_page :: u64
  hdr_free_page_list_head :: u64
  hdr_total_pages :: u64
  hdr_page_size :: u32
  hdr_btree_height :: u32

definition new_v3 :: persistent_header_v3 where
  "new_v3 = \<lparr> hdr_magic = V3_MAGIC, hdr_version = V3_FORMAT_VERSION,
     hdr_flags = DEFAULT_V3_FEATURE_FLAGS, hdr_node_count = 0, hdr_edge_count = 0,
     hdr_schema_version = DEFAULT_SCHEMA_VERSION, hdr_reserved = 0, hdr_node_data_offset = 0,
     hdr_edge_data_offset = 0, hdr_outgoing_cluster_offset = 0, hdr_incoming_cluster_offset = 0,
     hdr_free_space_offset = 0, hdr_root_index_page = 0, hdr_free_page_list_head = 0,
     hdr_total_pages = 0, hdr_page_size = of_nat DEFAULT_PAGE_SIZE, hdr_btree_height = 0 \<rparr>"

text \<open>The field offsets of \<open>mod offset\<close>; a field's width is that of its type.\<close>

definition header_to_bytes :: "persistent_header_v3 \<Rightarrow> bytes" where
  "header_to_bytes h = write_fields (replicate V3_HEADER_SIZE 0)
     [(0, hdr_magic h),
      (8, to_be (hdr_version h)),
      (12, to_be (hdr_flags h)),
      (16, to_be (hdr_node_count h)),
      (24, to_be (hdr_edge_count h)),
      (32, to_be (hdr_schema_version h)),
      (36, to_be (hdr_reserved h)),
      (40, to_be (hdr_node_data_offset h)),
      (48, to_be (hdr_edge_data_offset h)),
      (56, to_be (hdr_outgoing_cluster_offset h)),
      (64, to_be (hdr_incoming_cluster_offset h)),
      (72, to_be (hdr_free_space_offset h)),
      (80, to_be (hdr_root_index_page h)),
      (88, to_be (hdr_free_page_list_head h)),
      (96, to_be (hdr_total_pages h)),
      (104, to_be (hdr_page_size h)),
      (108, to_be (hdr_btree_height h))]"

definition read_u32_be :: "bytes \<Rightarrow> nat \<Rightarrow> nat \<Rightarrow> string \<Rightarrow> u32 result" where
  "read_u32_be bs start len field =
     (if \<not> start + len \<le> length bs then Inl (Err (InvalidHeader field))
      else if len \<noteq> 4 then Inl (Err (InvalidHeader field))
      else Inr (from_be (slice bs start len)))"

definition read_u64_be :: "bytes \<Rightarrow> nat \<Rightarrow> nat \<Rightarrow> string \<Rightarrow> u64 result" where
  "read_u64_be bs start len field =
     (if \<not> start + len \<le> length bs then Inl (Err (InvalidHeader field))
      else if len \<noteq> 8 then Inl (Err (InvalidHeader field))
      else Inr (from_be (slice bs start len)))"

definition header_from_bytes :: "bytes \<Rightarrow> persistent_header_v3 result" where
  "header_from_bytes bs =
     (if length bs < V3_HEADER_SIZE then Inl (Err (InvalidHeader ''bytes''))
      else
        bindR (read_u32_be bs 8 4 ''version'') (\<lambda>version.
        bindR (read_u32_be bs 12 4 ''flags'') (\<lambda>flags.
        bindR (read_u64_be bs 16 8 ''node_count'') (\<lambda>node_count.
        bindR (read_u64_be bs 24 8 ''edge_count'') (\<lambda>edge_count.
        bindR (read_u32_be bs 32 4 ''schema_version'') (\<lambda>schema_version.
        bindR (read_u32_be bs 36 4 ''reserved'') (\<lambda>reserved.
        bindR (read_u64_be bs 40 8 ''node_data_offset'') (\<lambda>node_data_offset.
        bindR (read_u64_be bs 48 8 ''edge_data_offset'') (\<lambda>edge_data_offset.
        bindR (read_u64_be bs 56 8 ''outgoing_cluster_offset'') (\<lambda>outgoing_cluster_offset.
        bindR (read_u64_be bs 64 8 ''incoming_cluster_offset'') (\<lambda>incoming_cluster_offset.
        bindR (read_u64_be bs 72 8 ''free_space_offset'') (\<lambda>free_space_offset.
        bindR (read_u64_be bs 80 8 ''root_index_page'') (\<lambda>root_index_page.
        bindR (read_u64_be bs 88 8 ''free_page_list_head'') (\<lambda>free_page_list_head.
        bindR (read_u64_be bs 96 8 ''total_pages'') (\<lambda>total_pages.
        bindR (read_u32_be bs 104 4 ''page_size'') (\<lambda>page_size.
        bindR (read_u32_be bs 108 4 ''btree_height'') (\<lambda>btree_height.
        Inr \<lparr> hdr_magic = slice bs 0 8, hdr_version = version, hdr_flags = flags,
          hdr_node_count = node_count, hdr_edge_count = edge_count,
          hdr_schema_version = schema_version, hdr_reserved = reserved,
          hdr_node_data_offset = node_data_offset, hdr_edge_data_offset = edge_data_offset,
          hdr_outgoing_cluster_offset = outgoing_cluster_offset,
          hdr_incoming_cluster_offset = incoming_cluster_offset,
          hdr_free_space_offset = free_space_offset, hdr_root_index_page = root_index_page,
          hdr_free_page_list_head = free_page_list_head, hdr_total_pages = total_pages,
          hdr_page_size = page_size, hdr_btree_height = btree_height \<rparr>)))))))))))))))))"

definition header_validate :: "persistent_header_v3 \<Rightarrow> unit result" where
  "header_validate h =
     (if hdr_magic h \<noteq> V3_MAGIC then
        if hdr_magic h = V2_MAGIC then Inl (Err (UnsupportedVersion 2 3))
        else Inl (Err (InvalidMagic (from_be V3_MAGIC) (from_be (hdr_magic h))))
      else if hdr_version h \<noteq> V3_FORMAT_VERSION then
        Inl (Err (UnsupportedVersion (hdr_version h) V3_FORMAT_VERSION))
      else if hdr_flags h AND (FLAG_V2_FRAMED_RECORDS OR FLAG_V2_ATOMIC_COMMIT)
          \<noteq> (FLAG_V2_FRAMED_RECORDS OR FLAG_V2_ATOMIC_COMMIT) then
        Inl (Err (InvalidHeader ''flags''))
      else if hdr_flags h AND FLAG_V3_BTREE_INDEX \<noteq> FLAG_V3_BTREE_INDEX then
        Inl (Err (InvalidHeader ''flags''))
      else if hdr_node_data_offset h \<noteq> 0 \<and> hdr_node_data_offset h < 1 then
        Inl (Err (InvalidHeader ''node_data_offset''))
      else if hdr_edge_data_offset h \<noteq> 0 \<and> hdr_edge_data_offset h < 1 then
        Inl (Err (InvalidHeader ''edge_data_offset''))
      else if hdr_outgoing_cluster_offset h > 0
          \<and> hdr_outgoing_cluster_offset h < of_nat V3_HEADER_SIZE then
        Inl (Err (InvalidHeader ''outgoing_cluster_offset''))
      else if hdr_incoming_cluster_offset h > 0
          \<and> hdr_incoming_cluster_offset h < hdr_outgoing_cluster_offset h then
        Inl (Err (InvalidHeader ''incoming_cluster_offset''))
      else if hdr_free_space_offset h > 0
          \<and> hdr_free_space_offset h < hdr_incoming_cluster_offset h then
        Inl (Err (InvalidHeader ''free_space_offset''))
      else if hdr_page_size h \<noteq> 4096 \<and> hdr_page_size h \<noteq> 8192 \<and> hdr_page_size h \<noteq> 16384 then
        Inl (Err (InvalidHeader ''page_size''))
      else if hdr_btree_height h > MAX_BTREE_HEIGHT then
        Inl (Err (InvalidHeader ''btree_height''))
      else Inr ())"

definition detect_version :: "bytes \<Rightarrow> u32 result" where
  "detect_version bs =
     (if length bs < 8 then Inl (Err (InvalidHeader ''bytes''))
      else
        let magic = slice bs 0 8
        in if magic = V3_MAGIC then Inr 3
           else if magic = V2_MAGIC \<or> magic = MAGIC_BYTES then Inr 2
           else Inl (Err (InvalidMagic (from_be V3_MAGIC) (from_be magic))))"

subsection \<open>Encoding and decoding\<close>

lemma header_to_bytes_layout:
  assumes "length (hdr_magic h) = 8"
  shows "header_to_bytes h =
    hdr_magic h @ to_be (hdr_version h) @ to_be (hdr_flags h) @ to_be (hdr_node_count h)
    @ to_be (hdr_edge_count h) @ to_be (hdr_schema_version h) @ to_be (hdr_reserved h)
    @ to_be (hdr_node_data_offset h) @ to_be (hdr_edge_data_offset h)
    @ to_be (hdr_outgoing_cluster_offset h) @ to_be (hdr_incoming_cluster_offset h)
    @ to_be (hdr_free_space_offset h) @ to_be (hdr_root_index_page h)
    @ to_be (hdr_free_page_list_head h) @ to_be (hdr_total_pages h) @ to_be (hdr_page_size h)
    @ to_be (hdr_btree_height h)"
  unfolding header_to_bytes_def using assms
  by (subst write_fields_contiguous [where n = 0]) (simp_all add: byte_simps V3_HEADER_SIZE_def)

lemma length_header_to_bytes:
  "length (hdr_magic h) = 8 \<Longrightarrow> length (header_to_bytes h) = V3_HEADER_SIZE"
  by (simp add: header_to_bytes_layout byte_simps V3_HEADER_SIZE_def)

lemma header_from_to_bytes:
  assumes "length (hdr_magic h) = 8"
  shows "header_from_bytes (header_to_bytes h @ rest) = Inr h"
  using assms
  by (simp add: header_from_bytes_def header_to_bytes_layout read_u32_be_def read_u64_be_def
      byte_simps V3_HEADER_SIZE_def)

lemma header_from_bytes_total:
  assumes "V3_HEADER_SIZE \<le> length bs"
  obtains h where "header_from_bytes bs = Inr h" "hdr_magic h = slice bs 0 8"
    "hdr_version h = from_be (slice bs 8 4)"
  using assms by (simp add: header_from_bytes_def read_u32_be_def read_u64_be_def V3_HEADER_SIZE_def)

lemma required_flags_iff:
  "f AND (FLAG_V2_FRAMED_RECORDS OR FLAG_V2_ATOMIC_COMMIT)
     = (FLAG_V2_FRAMED_RECORDS OR FLAG_V2_ATOMIC_COMMIT) \<longleftrightarrow> bit f 0 \<and> bit f 1"
  "f AND FLAG_V3_BTREE_INDEX = FLAG_V3_BTREE_INDEX \<longleftrightarrow> bit f 2"
proof -
  have "f AND 3 = 3 \<longleftrightarrow> bit f 0 \<and> bit f 1" for f :: u32
  proof
    assume *: "f AND 3 = 3"
    have "bit (f AND 3) 0" "bit (f AND 3) 1" unfolding * by simp_all
    then show "bit f 0 \<and> bit f 1" by (simp only: bit_and_iff)
  next
    assume "bit f 0 \<and> bit f 1"
    moreover have "bit (3 :: u32) n \<longleftrightarrow> n = 0 \<or> n = 1" for n
    proof -
      have "(3 :: u32) = mask 2" by (simp add: mask_eq_exp_minus_1)
      then show ?thesis by (simp only: bit_mask_iff less_2_cases_iff) auto
    qed
    ultimately show "f AND 3 = 3"
      by (intro bit_word_eqI) (simp only: bit_and_iff, blast)
  qed
  then show "f AND (FLAG_V2_FRAMED_RECORDS OR FLAG_V2_ATOMIC_COMMIT)
     = (FLAG_V2_FRAMED_RECORDS OR FLAG_V2_ATOMIC_COMMIT) \<longleftrightarrow> bit f 0 \<and> bit f 1"
    by (simp add: header_consts)
  have "f AND 4 = 4 \<longleftrightarrow> bit f 2" for f :: u32
  proof -
    have bit4: "bit (4 :: u32) n \<longleftrightarrow> n = 2" for n
    proof -
      have "(4 :: u32) = 2 ^ 2" by simp
      then show ?thesis by (auto simp only: bit_exp_iff) auto
    qed
    show ?thesis
    proof
      assume *: "f AND 4 = 4"
      have "bit (f AND 4) 2" unfolding * by (simp add: bit4)
      then show "bit f 2" by (simp only: bit_and_iff)
    next
      assume "bit f 2"
      then show "f AND 4 = 4" by (intro bit_word_eqI) (simp only: bit_and_iff bit4, blast)
    qed
  qed
  then show "f AND FLAG_V3_BTREE_INDEX = FLAG_V3_BTREE_INDEX \<longleftrightarrow> bit f 2"
    by (simp add: header_consts)
qed

lemma header_validate_Inr_iff:
  "header_validate h = Inr () \<longleftrightarrow>
     hdr_magic h = V3_MAGIC \<and> hdr_version h = V3_FORMAT_VERSION \<and>
     (\<forall>n<3. bit (hdr_flags h) n) \<and>
     (hdr_outgoing_cluster_offset h = 0 \<or> 112 \<le> hdr_outgoing_cluster_offset h) \<and>
     (hdr_incoming_cluster_offset h = 0 \<or>
        hdr_outgoing_cluster_offset h \<le> hdr_incoming_cluster_offset h) \<and>
     (hdr_free_space_offset h = 0 \<or>
        hdr_incoming_cluster_offset h \<le> hdr_free_space_offset h) \<and>
     hdr_page_size h \<in> {4096, 8192, 16384} \<and> hdr_btree_height h \<le> MAX_BTREE_HEIGHT"
proof -
  have "(\<forall>n<3. bit f n) \<longleftrightarrow> bit f 0 \<and> bit f 1 \<and> bit f 2" for f :: u32
    by (auto simp: numeral_3_eq_3 less_Suc_eq numeral_2_eq_2)
  moreover have "0 < w \<longleftrightarrow> w \<noteq> 0" for w :: u64 by (simp add: word_neq_0_conv)
  moreover have "w < 1 \<longleftrightarrow> w = 0" for w :: u64 by (simp add: word_less_1)
  ultimately show ?thesis
    by (auto simp: header_validate_def required_flags_iff V3_HEADER_SIZE_def not_less not_le)
qed

subsection \<open>Properties\<close>

text \<open>
  A header written by \<open>to_bytes\<close> takes 112 bytes and \<open>from_bytes\<close> reads every field back, whatever
  follows in the file.
\<close>

theorem header_roundtrip:
  assumes "length (hdr_magic h) = 8"
  shows "length (header_to_bytes h) = V3_HEADER_SIZE \<and> header_from_bytes (header_to_bytes h @ rest) = Inr h"
  using assms length_header_to_bytes header_from_to_bytes by blast

lemma header_roundtrip_witness:
  "length (header_to_bytes new_v3) = V3_HEADER_SIZE \<and>
   header_from_bytes (header_to_bytes new_v3 @ [1, 2]) = Inr new_v3"
  by (rule header_roundtrip) (simp add: new_v3_def V3_MAGIC_def)

text \<open>
  \<open>validate\<close> accepts exactly the headers with the V3 magic and version, the three required flags,
  ordered section offsets that are 0 or past the header, a page size of 4, 8 or 16 KiB and a height of
  at most four levels.
\<close>

theorem header_validate_accepts:
  "header_validate h = Inr () \<longleftrightarrow>
     hdr_magic h = V3_MAGIC \<and> hdr_version h = V3_FORMAT_VERSION \<and>
     bit (hdr_flags h) 0 \<and> bit (hdr_flags h) 1 \<and> bit (hdr_flags h) 2 \<and>
     (hdr_outgoing_cluster_offset h = 0 \<or> 112 \<le> hdr_outgoing_cluster_offset h) \<and>
     (hdr_incoming_cluster_offset h = 0 \<or>
        hdr_outgoing_cluster_offset h \<le> hdr_incoming_cluster_offset h) \<and>
     (hdr_free_space_offset h = 0 \<or> hdr_incoming_cluster_offset h \<le> hdr_free_space_offset h) \<and>
     hdr_page_size h \<in> {4096, 8192, 16384} \<and> hdr_btree_height h \<le> 4"
proof -
  have "(\<forall>n<3. bit f n) \<longleftrightarrow> bit f 0 \<and> bit f 1 \<and> bit f 2" for f :: u32
    by (auto simp: numeral_3_eq_3 less_Suc_eq numeral_2_eq_2)
  then show ?thesis by (simp add: header_validate_Inr_iff MAX_BTREE_HEIGHT_def)
qed

end
