(* ===== verification/Node_Page.thy ===== *)
theory Node_Page
  imports Node_Record Varint Delta Header_V3
begin

text \<open>
  The pages of node records (\<open>v3/node/page.rs\<close>): the compressed image of the records (id as a delta to
  the base id of the page, the other fields as varints), adding a node with its capacity checks and
  rollback, the two searches, and the 4096 byte page with its checksum.
\<close>

unbundle bit_operations_syntax

definition PAGE_HEADER_SIZE :: nat where "PAGE_HEADER_SIZE = 32"
definition MAX_PAGE_SIZE :: nat where "MAX_PAGE_SIZE = 4096"
definition USABLE_SIZE :: nat where "USABLE_SIZE = MAX_PAGE_SIZE - PAGE_HEADER_SIZE"
definition ESTIMATED_NODE_SLOT_SIZE :: nat where "ESTIMATED_NODE_SLOT_SIZE = 80"
definition BLOCK_SIZE :: i64 where "BLOCK_SIZE = 128"

lemmas node_page_consts = PAGE_HEADER_SIZE_def MAX_PAGE_SIZE_def USABLE_SIZE_def
  ESTIMATED_NODE_SLOT_SIZE_def

record node_page =
  np_page_id :: u64
  next_page_id :: u64
  nodes :: "node_record list"
  used_bytes :: u16
  base_id :: i64
  checksum :: u32
  block_id :: i64

definition node_page_new :: "u64 \<Rightarrow> node_page" where
  "node_page_new pid = \<lparr>np_page_id = pid, next_page_id = 0, nodes = [], used_bytes = 0, base_id = 0,
     checksum = 0, block_id = 0\<rparr>"

definition node_id_to_block :: "i64 \<Rightarrow> i64" where
  "node_id_to_block i = (if sint i < 1 then 0 else word_of_int (sint (i - 1) div sint BLOCK_SIZE))"

definition page_block_id :: "node_page \<Rightarrow> i64" where
  "page_block_id p = (if block_id p \<noteq> 0 then block_id p else node_id_to_block (base_id p))"

definition min_node_id :: "node_record list \<Rightarrow> i64 option" where
  "min_node_id ns = (case map node_id ns of [] \<Rightarrow> None | i # ids \<Rightarrow> Some (i64_min_loop i ids))"

definition recompute_block_id :: "node_page \<Rightarrow> node_page" where
  "recompute_block_id p =
     (case min_node_id (nodes p) of
        Some min_id \<Rightarrow> p\<lparr>base_id := min_id, block_id := node_id_to_block min_id\<rparr>
      | None \<Rightarrow> p\<lparr>base_id := 0, block_id := 0\<rparr>)"

definition node_count :: "node_page \<Rightarrow> u16" where
  "node_count p = of_nat (length (nodes p))"

definition has_overflow :: "node_page \<Rightarrow> bool" where
  "has_overflow p \<longleftrightarrow> next_page_id p \<noteq> 0"

definition used_size :: "node_page \<Rightarrow> nat" where
  "used_size p = unat (used_bytes p)"

definition remaining_capacity :: "node_page \<Rightarrow> nat" where
  "remaining_capacity p = USABLE_SIZE - unat (used_bytes p)"

definition np_capacity :: "node_page \<Rightarrow> u16" where
  "np_capacity p =
     (if used_bytes p \<le> of_nat USABLE_SIZE then of_nat USABLE_SIZE - used_bytes p else 0)"

definition np_is_full :: "node_page \<Rightarrow> bool" where
  "np_is_full p \<longleftrightarrow> unat (np_capacity p) < ESTIMATED_NODE_SLOT_SIZE"

definition np_is_empty :: "node_page \<Rightarrow> bool" where
  "np_is_empty p \<longleftrightarrow> nodes p = []"

subsection \<open>Writing the records\<close>

definition pack_node :: "i64 \<Rightarrow> node_record \<Rightarrow> bytes" where
  "pack_node base n =
     encode_varint (ucast (encode_id_delta (node_id n) base))
     @ to_be (flags n)
     @ encode_varint_u16 (kind_offset n)
     @ encode_varint_u16 (name_offset n)
     @ encode_varint_u16 (if is_external n then data_len n OR EXTERNAL_DATA_FLAG else data_len n)
     @ encode_varint (outgoing_cluster_offset n)
     @ encode_varint (ucast (outgoing_edge_count n))
     @ encode_varint (incoming_cluster_offset n)
     @ encode_varint (ucast (incoming_edge_count n))
     @ (case data_inline n of Some data \<Rightarrow> data
        | None \<Rightarrow> (case data_external_offset n of Some off \<Rightarrow> to_be off | None \<Rightarrow> []))"

fun pack_nodes_loop :: "bytes \<Rightarrow> i64 \<Rightarrow> node_record list \<Rightarrow> bytes" where
  "pack_nodes_loop buffer base [] = buffer"
| "pack_nodes_loop buffer base (n # ns) = pack_nodes_loop (buffer @ pack_node base n) base ns"

definition pack_nodes :: "node_page \<Rightarrow> bytes result" where
  "pack_nodes p = Inr (pack_nodes_loop [] (base_id p) (nodes p))"

definition estimate_compressed_size_with_base :: "node_record \<Rightarrow> i64 \<Rightarrow> u16 result" where
  "estimate_compressed_size_with_base n base =
     (let size = varint_size (ucast (encode_id_delta (node_id n) base))
        + 4
        + varint_size (ucast (kind_offset n))
        + varint_size (ucast (name_offset n))
        + varint_size (ucast (masked_data_len n))
        + varint_size (outgoing_cluster_offset n)
        + varint_size (ucast (outgoing_edge_count n))
        + varint_size (incoming_cluster_offset n)
        + varint_size (ucast (incoming_edge_count n))
        + (case data_inline n of Some data \<Rightarrow> length data
           | None \<Rightarrow> if data_external_offset n \<noteq> None then 8 else 0)
      in if 0xFFFF < size then Inl (Err (InvalidHeader ''compressed_size''))
         else Inr (of_nat size))"

subsection \<open>Adding a node\<close>

definition i64_min :: "i64 \<Rightarrow> i64 \<Rightarrow> i64" where
  "i64_min a b = (if sint b < sint a then b else a)"

definition temp_base_id :: "node_page \<Rightarrow> node_record \<Rightarrow> i64" where
  "temp_base_id p n = (if nodes p = [] then node_id n else i64_min (base_id p) (node_id n))"

text \<open>
  The insertion, the check of the size the page really has, and the rollback when it does not fit.
\<close>

definition add_node :: "node_record \<Rightarrow> (node_page, unit) action" where
  "add_node n p =
     (let temp_base = temp_base_id p n
      in case estimate_compressed_size_with_base n temp_base of
        Inl e \<Rightarrow> (Inl e, p)
      | Inr compressed_size \<Rightarrow>
          if np_capacity p < compressed_size then (Inl (Err (InvalidHeader ''node_page'')), p)
          else
            let p1 = p\<lparr>base_id := temp_base, nodes := nodes p @ [n],
                  used_bytes := used_bytes p + compressed_size\<rparr>
            in case pack_nodes p1 of
                 Inl e \<Rightarrow> (Inl e, p1)
               | Inr packed \<Rightarrow>
                   if USABLE_SIZE < length packed then
                     let p2 = p1\<lparr>nodes := butlast (nodes p1),
                            used_bytes := used_bytes p1 - compressed_size\<rparr>;
                         p3 = (if nodes p2 \<noteq> []
                               then p2\<lparr>base_id := (case min_node_id (nodes p2) of
                                                      Some m \<Rightarrow> m | None \<Rightarrow> base_id p2)\<rparr>
                               else p2)
                     in (Inl (Err (InvalidHeader ''node_page'')), p3)
                   else (Inr (), p1\<lparr>used_bytes := of_nat (length packed),
                                   block_id := node_id_to_block (base_id p1)\<rparr>))"

subsection \<open>Reading the records\<close>

text \<open>
  \<open>&data[offset..]\<close> panics when the offset is past the end. Each reader answers a value and the
  offset after it.
\<close>

definition tail_at :: "bytes \<Rightarrow> nat \<Rightarrow> bytes result" where
  "tail_at data off = (if length data < off then Inl Panic else Inr (drop off data))"

definition read_varint_at :: "bytes \<Rightarrow> nat \<Rightarrow> string \<Rightarrow> (u64 \<times> nat) result" where
  "read_varint_at data off field = bindR (tail_at data off) (\<lambda>bs.
     bindR (map_err (decode_varint bs) (InvalidHeader field)) (\<lambda>(v, n). Inr (v, off + n)))"

definition read_varint_u16_at :: "bytes \<Rightarrow> nat \<Rightarrow> string \<Rightarrow> (u16 \<times> nat) result" where
  "read_varint_u16_at data off field = bindR (tail_at data off) (\<lambda>bs.
     bindR (map_err (decode_varint_u16 bs) (InvalidHeader field)) (\<lambda>(v, n). Inr (v, off + n)))"

definition read_id_at :: "bytes \<Rightarrow> nat \<Rightarrow> i64 \<Rightarrow> (i64 \<times> nat) result" where
  "read_id_at data off base =
     bindR (read_varint_at data off ''node.id_delta'') (\<lambda>(delta, off).
     bindR (map_err (decode_id_delta (ucast delta) base) (InvalidHeader ''node.id'')) (\<lambda>i.
       Inr (i, off)))"

definition read_payload_at :: "bytes \<Rightarrow> nat \<Rightarrow> u16 \<Rightarrow> ((bytes option \<times> u64 option) \<times> nat) result" where
  "read_payload_at data off encoded =
     (if encoded AND EXTERNAL_DATA_FLAG \<noteq> 0 then
        if length data < off + 8 then Inl (Err (InvalidHeader ''node.data_external_offset''))
        else Inr ((None, Some (from_be (slice data off 8))), off + 8)
      else
        let data_end = off + unat (encoded AND MAX_DATA_LEN)
        in if length data < data_end then Inl (Err (InvalidHeader ''node.data_inline''))
           else Inr ((Some (slice data off (unat (encoded AND MAX_DATA_LEN))), None), data_end))"

definition decode_node :: "bytes \<Rightarrow> nat \<Rightarrow> i64 \<Rightarrow> (node_record \<times> nat) result" where
  "decode_node data off base =
     bindR (read_id_at data off base) (\<lambda>(i, off).
     if length data < off + 4 then Inl (Err (InvalidHeader ''node.flags''))
     else let fl = from_be (slice data off 4); off = off + 4 in
     bindR (read_varint_u16_at data off ''node.kind_offset'') (\<lambda>(kind, off).
     bindR (read_varint_u16_at data off ''node.name_offset'') (\<lambda>(name, off).
     bindR (read_varint_u16_at data off ''node.data_len'') (\<lambda>(encoded, off).
     bindR (read_varint_at data off ''node.outgoing_cluster_offset'') (\<lambda>(out_off, off).
     bindR (read_varint_at data off ''node.outgoing_edge_count'') (\<lambda>(out_n, off).
     bindR (read_varint_at data off ''node.incoming_cluster_offset'') (\<lambda>(in_off, off).
     bindR (read_varint_at data off ''node.incoming_edge_count'') (\<lambda>(in_n, off).
     bindR (read_payload_at data off encoded) (\<lambda>((inl, ext), off).
       Inr (\<lparr>node_id = i, flags = fl, kind_offset = kind, name_offset = name, data_len = encoded,
          data_inline = inl, data_external_offset = ext,
          outgoing_cluster_offset = out_off, outgoing_edge_count = ucast out_n,
          incoming_cluster_offset = in_off, incoming_edge_count = ucast in_n\<rparr>, off))))))))))"

fun unpack_nodes :: "bytes \<Rightarrow> nat \<Rightarrow> i64 \<Rightarrow> nat \<Rightarrow> (node_record list \<times> nat) result" where
  "unpack_nodes data off base 0 = Inr ([], off)"
| "unpack_nodes data off base (Suc k) =
     bindR (decode_node data off base) (\<lambda>(n, off).
     bindR (unpack_nodes data off base k) (\<lambda>(ns, off). Inr (n # ns, off)))"

subsection \<open>The page image\<close>

definition node_page_checksum :: "bytes \<Rightarrow> u32" where
  "node_page_checksum data = ucast (xor_checksum data)"

definition calculate_checksum_with_nodes :: "node_page \<Rightarrow> u32" where
  "calculate_checksum_with_nodes p = ucast (xor_checksum
     (to_be (np_page_id p) @ to_be (next_page_id p) @ to_be (of_nat (length (nodes p)) :: u16)
      @ to_be (used_bytes p) @ to_be (base_id p) @ replicate 4 0
      @ (case pack_nodes p of Inr node_data \<Rightarrow> node_data | Inl _ \<Rightarrow> [])))"

definition node_page_pack :: "node_page \<Rightarrow> bytes result" where
  "node_page_pack p = bindR (pack_nodes p) (\<lambda>node_data.
     let bs = write_fields (replicate MAX_PAGE_SIZE 0)
            [(0, to_be (np_page_id p)),
             (8, to_be (next_page_id p)),
             (16, to_be (of_nat (length (nodes p)) :: u16)),
             (18, to_be (of_nat (length node_data) :: u16)),
             (20, to_be (base_id p))]
     in if MAX_PAGE_SIZE < PAGE_HEADER_SIZE + length node_data
        then Inl (Err (InvalidHeader ''node_page''))
        else
          let bs = blit bs PAGE_HEADER_SIZE node_data;
              ck = node_page_checksum (take (PAGE_HEADER_SIZE + length node_data) bs)
          in Inr (blit bs 28 (to_be ck)))"

definition node_page_unpack :: "bytes \<Rightarrow> node_page result" where
  "node_page_unpack bs =
     (if length bs < MAX_PAGE_SIZE then Inl (Err (InvalidHeader ''node_page''))
      else
        let pid = from_be (slice bs 0 8);
            nxt = from_be (slice bs 8 8);
            count = unat (from_be (slice bs 16 2) :: u16);
            used = (from_be (slice bs 18 2) :: u16);
            base = from_be (slice bs 20 8);
            ck = from_be (slice bs 28 4);
            data_end = PAGE_HEADER_SIZE + unat used
        in if MAX_PAGE_SIZE < data_end then Inl (Err (InvalidHeader ''node_page''))
           else bindR (unpack_nodes (slice bs PAGE_HEADER_SIZE (unat used)) 0 base count) (\<lambda>(ns, actual).
             if actual \<noteq> unat used then Inl (Err (InvalidHeader ''node_page''))
             else
               let p = \<lparr>np_page_id = pid, next_page_id = nxt, nodes = ns, used_bytes = used,
                     base_id = base, checksum = ck, block_id = node_id_to_block base\<rparr>
               in if calculate_checksum_with_nodes p \<noteq> ck
                  then Inl (Err (InvalidHeader ''node_page_checksum''))
                  else Inr p))"

subsection \<open>Searching\<close>

function find_node_loop :: "node_record list \<Rightarrow> i64 \<Rightarrow> nat \<Rightarrow> nat \<Rightarrow> node_record + nat" where
  "find_node_loop ns i left right =
     (if left < right then
        let mid = left + (right - left) div 2;
            mid_id = node_id (ns ! mid)
        in if mid_id = i then Inl (ns ! mid)
           else if sint mid_id < sint i then find_node_loop ns i (mid + 1) right
           else find_node_loop ns i left mid
      else Inr left)"
  by pat_completeness auto
termination
  by (relation "measure (\<lambda>(ns, i, l, r). r - l)") auto

declare find_node_loop.simps [simp del]

definition find_node :: "node_page \<Rightarrow> i64 \<Rightarrow> node_record option" where
  "find_node p i =
     (case find_node_loop (nodes p) i 0 (length (nodes p)) of
        Inl n \<Rightarrow> Some n
      | Inr left \<Rightarrow>
          if left < length (nodes p) \<and> node_id (nodes p ! left) = i then Some (nodes p ! left) else None)"

definition slice_at :: "bytes \<Rightarrow> nat \<Rightarrow> nat \<Rightarrow> bytes result" where
  "slice_at bs off n = (if length bs < off + n then Inl Panic else Inr (slice bs off n))"

definition skip_remaining_fields :: "bytes \<Rightarrow> nat \<Rightarrow> nat result" where
  "skip_remaining_fields data off =
     (let off = off + 4 in
     bindR (read_varint_u16_at data off ''node.kind_offset'') (\<lambda>(_, off).
     bindR (read_varint_u16_at data off ''node.name_offset'') (\<lambda>(_, off).
     bindR (read_varint_u16_at data off ''node.data_len'') (\<lambda>(encoded, off).
     bindR (read_varint_at data off ''node.outgoing_cluster_offset'') (\<lambda>(_, off).
     bindR (read_varint_at data off ''node.outgoing_edge_count'') (\<lambda>(_, off).
     bindR (read_varint_at data off ''node.incoming_cluster_offset'') (\<lambda>(_, off).
     bindR (read_varint_at data off ''node.incoming_edge_count'') (\<lambda>(_, off).
       if encoded AND EXTERNAL_DATA_FLAG \<noteq> 0 then Inr (off + 8)
       else Inr (off + unat (encoded AND MAX_DATA_LEN))))))))))"

definition decode_node_at_offset :: "bytes \<Rightarrow> i64 \<Rightarrow> node_record option result" where
  "decode_node_at_offset data base =
     bindR (decode_node data 0 base) (\<lambda>(n, _). Inr (Some n))"

fun find_lazy_loop :: "bytes \<Rightarrow> nat \<Rightarrow> i64 \<Rightarrow> i64 \<Rightarrow> nat \<Rightarrow> node_record option result" where
  "find_lazy_loop data off base target 0 = Inr None"
| "find_lazy_loop data off base target (Suc k) =
     bindR (read_id_at data off base) (\<lambda>(i, off').
       if i = target then bindR (tail_at data off) (\<lambda>bs. decode_node_at_offset bs base)
       else bindR (skip_remaining_fields data off') (\<lambda>off''.
              find_lazy_loop data off'' base target k))"

definition find_node_lazy :: "bytes \<Rightarrow> i64 \<Rightarrow> node_record option result" where
  "find_node_lazy page_data target =
     bindR (slice_at page_data 16 2) (\<lambda>count_bytes.
     bindR (slice_at page_data 20 8) (\<lambda>base_bytes.
     bindR (slice_at page_data 18 2) (\<lambda>used_field.
     bindR (slice_at page_data PAGE_HEADER_SIZE (unat (from_be used_field :: u16))) (\<lambda>data.
       find_lazy_loop data 0 (from_be base_bytes) target (unat (from_be count_bytes :: u16))))))"

subsection \<open>Decoding a packed record\<close>

named_theorems read_simps \<open>readers applied where their encoding stands\<close>

lemma read_varint_at [read_simps]:
  "at data off (encode_varint v @ bs) \<Longrightarrow>
   read_varint_at data off field = Inr (v, off + length (encode_varint v))"
  by (simp add: read_varint_at_def tail_at_def at_def varint.dec_enc)

lemma read_varint_u16_at [read_simps]:
  "at data off (encode_varint_u16 v @ bs) \<Longrightarrow>
   read_varint_u16_at data off field = Inr (v, off + length (encode_varint_u16 v))"
  by (simp add: read_varint_u16_at_def tail_at_def at_def varint_u16.dec_enc)

text \<open>The ids a page can hold: those whose delta to the base is not clamped.\<close>

definition in_span :: "i64 \<Rightarrow> i64 \<Rightarrow> bool" where
  "in_span base i \<longleftrightarrow> sint base \<le> sint i \<and> sint i - sint base \<le> 2 ^ 32 - 1"

definition id_delta :: "i64 \<Rightarrow> i64 \<Rightarrow> bytes" where
  "id_delta base i = encode_varint (ucast (encode_id_delta i base))"

lemma read_id_at [read_simps]:
  "at data off (id_delta base i @ bs) \<Longrightarrow> in_span base i \<Longrightarrow>
   read_id_at data off base = Inr (i, off + length (id_delta base i))"
  unfolding id_delta_def read_id_at_def
  by (subst read_varint_at, assumption)
    (simp add: ucast_up_down decode_encode_id_delta in_span_def)

lemma masked_of_nat: "n < 2 ^ 15 \<Longrightarrow> of_nat n AND MAX_DATA_LEN = of_nat n"
  by (metis mask_data_len of_nat_take_bit take_bit_nat_eq_self)

lemma masked_length: "n < 2 ^ 15 \<Longrightarrow> unat (of_nat n AND MAX_DATA_LEN) = n"
  by (simp add: masked_of_nat unat_of_nat take_bit_nat_eq_self)

lemma skip_payload:
  assumes "wf_record n"
  shows "(if encoded_data_len n AND EXTERNAL_DATA_FLAG \<noteq> 0 then x + 8
      else x + unat (encoded_data_len n AND MAX_DATA_LEN)) = x + length (data_bytes n)"
  using assms
  by (cases rule: wf_recordE) (simp_all add: flag_set small_no_flag masked_length data_bytes_def byte_simps)

lemma read_payload_at [read_simps]:
  assumes "at data off (data_bytes n @ bs)" "wf_record n"
  shows "read_payload_at data off (encoded_data_len n)
    = Inr ((data_inline n, data_external_offset n), off + length (data_bytes n))"
  using assms(2)
proof (cases rule: wf_recordE)
  case (inline d)
  then have "unat (encoded_data_len n AND MAX_DATA_LEN) = length d"
    by (simp add: masked_length)
  with inline at_length [OF assms(1)] at_slice [OF assms(1) refl] show ?thesis
    by (simp add: read_payload_at_def flag_set small_no_flag data_bytes_def Let_def)
next
  case (external x)
  with at_length [OF assms(1)] at_slice [OF assms(1), of 8] show ?thesis
    by (simp add: read_payload_at_def flag_set data_bytes_def byte_simps)
qed

text \<open>A packed record, field after field.\<close>

lemma pack_node_eq:
  "pack_node base n = id_delta base (node_id n) @ to_be (flags n) @ encode_varint_u16 (kind_offset n)
     @ encode_varint_u16 (name_offset n) @ encode_varint_u16 (encoded_data_len n)
     @ encode_varint (outgoing_cluster_offset n) @ encode_varint (ucast (outgoing_edge_count n))
     @ encode_varint (incoming_cluster_offset n) @ encode_varint (ucast (incoming_edge_count n))
     @ data_bytes n"
  by (simp add: pack_node_def id_delta_def encoded_data_len_def data_bytes_def)

lemma pack_node_stored [simp]: "pack_node base (stored n) = pack_node base n"
  by (simp only: pack_node_eq stored_simps encoded_stored) (simp add: stored_def)

lemma pack_nodes_eq: "pack_nodes p = Inr (concat (map (pack_node (base_id p)) (nodes p)))"
proof -
  have "pack_nodes_loop buffer base ns = buffer @ concat (map (pack_node base) ns)" for buffer base ns
    by (induction ns arbitrary: buffer) simp_all
  then show ?thesis by (simp add: pack_nodes_def)
qed

lemma at_flags: "at data off (to_be (v :: u32) @ bs) \<Longrightarrow> slice data off 4 = to_be v \<and> off + 4 \<le> length data"
  using at_slice [of data off "to_be v" bs 4] at_length [of data off "to_be v" bs]
  by (simp add: byte_simps)

lemma decode_node_packed:
  assumes at: "at data off (pack_node base n @ rest)" and wf: "wf_record n" and span: "in_span base (node_id n)"
  shows "decode_node data off base = Inr (stored n, off + length (pack_node base n))"
    and "\<exists>off'. read_id_at data off base = Inr (node_id n, off') \<and>
      skip_remaining_fields data off' = Inr (off + length (pack_node base n))"
proof -
  note D = at [unfolded pack_node_eq append.assoc]
  note d1 = at_step [OF D refl]
  note d2 = at_step [OF d1 refl, unfolded length_to_be]
  note d3 = at_step [OF d2 refl]
  note d4 = at_step [OF d3 refl]
  note d5 = at_step [OF d4 refl]
  note d6 = at_step [OF d5 refl]
  note d7 = at_step [OF d6 refl]
  note d8 = at_step [OF d7 refl]
  note d9 = at_step [OF d8 refl]
  note reads = read_id_at [OF D span] read_varint_u16_at [OF d2] read_varint_u16_at [OF d3]
    read_varint_u16_at [OF d4] read_varint_at [OF d5] read_varint_at [OF d6] read_varint_at [OF d7]
    read_varint_at [OF d8] read_payload_at [OF d9 wf]
  have fl: "slice data (off + length (id_delta base (node_id n))) 4 = to_be (flags n)"
      "\<not> length data < off + length (id_delta base (node_id n)) + 4"
    using at_flags [OF d1] by auto
  have payload: "(if encoded_data_len n AND EXTERNAL_DATA_FLAG \<noteq> 0 then x + 8
      else x + unat (encoded_data_len n AND MAX_DATA_LEN)) = x + length (data_bytes n)" for x
    by (rule skip_payload [OF wf])
  have len: "length (pack_node base n) = length (id_delta base (node_id n)) + 4
      + length (encode_varint_u16 (kind_offset n)) + length (encode_varint_u16 (name_offset n))
      + length (encode_varint_u16 (encoded_data_len n)) + length (encode_varint (outgoing_cluster_offset n))
      + length (encode_varint (ucast (outgoing_edge_count n)))
      + length (encode_varint (incoming_cluster_offset n))
      + length (encode_varint (ucast (incoming_edge_count n))) + length (data_bytes n)"
    by (simp add: pack_node_eq byte_simps)
  show "decode_node data off base = Inr (stored n, off + length (pack_node base n))"
    unfolding decode_node_def
    using reads fl
    by (simp add: len Let_def ucast_up_down stored_def add.assoc)
  show "\<exists>off'. read_id_at data off base = Inr (node_id n, off') \<and>
      skip_remaining_fields data off' = Inr (off + length (pack_node base n))"
    unfolding skip_remaining_fields_def
    using reads payload [of 0]
    by (simp add: len add.assoc split: if_splits)
qed

subsection \<open>Decoding a page\<close>

definition page_records :: "i64 \<Rightarrow> node_record list \<Rightarrow> bool" where
  "page_records base ns \<longleftrightarrow> (\<forall>n \<in> set ns. wf_record n \<and> in_span base (node_id n))"

definition packed :: "i64 \<Rightarrow> node_record list \<Rightarrow> bytes" where
  "packed base ns = concat (map (pack_node base) ns)"

lemma packed_simps [simp]: "packed base [] = []" "packed base (n # ns) = pack_node base n @ packed base ns"
  "packed base (ns @ ms) = packed base ns @ packed base ms"
  "packed base (map stored ns) = packed base ns"
  by (simp_all add: packed_def comp_def)

lemma page_records_simps [simp]:
  "page_records base []"
  "page_records base (n # ns) \<longleftrightarrow> wf_record n \<and> in_span base (node_id n) \<and> page_records base ns"
  by (auto simp: page_records_def)

lemma unpack_packed:
  assumes "at data off (packed base ns @ rest)" "page_records base ns"
  shows "unpack_nodes data off base (length ns) = Inr (map stored ns, off + length (packed base ns))"
  using assms
proof (induction ns arbitrary: off)
  case (Cons n ns)
  then have at: "at data off (pack_node base n @ packed base ns @ rest)" by simp
  from Cons.IH [OF at_step [OF at refl]] decode_node_packed(1) [OF at] Cons.prems(2)
  show ?case by simp
qed simp

lemma find_lazy_packed:
  assumes "at data off (packed base ns @ rest)" "page_records base ns"
  shows "find_lazy_loop data off base target (length ns) =
    Inr (find (\<lambda>n. node_id n = target) (map stored ns))"
  using assms
proof (induction ns arbitrary: off)
  case (Cons n ns)
  then have at: "at data off (pack_node base n @ packed base ns @ rest)" by simp
  obtain off' where off': "read_id_at data off base = Inr (node_id n, off')"
      "skip_remaining_fields data off' = Inr (off + length (pack_node base n))"
    using decode_node_packed(2) [OF at] Cons.prems(2) by auto
  have tail: "tail_at data off = Inr (drop off data)" "at (drop off data) 0 (pack_node base n @ packed base ns @ rest)"
    using at by (simp_all add: tail_at_def at_def)
  have "decode_node_at_offset (drop off data) base = Inr (Some (stored n))"
    using decode_node_packed(1) [OF tail(2)] Cons.prems(2) by (simp add: decode_node_at_offset_def)
  with off' tail(1) Cons.IH [OF at_step [OF at refl]] Cons.prems(2) show ?case by simp
qed simp

lemma length_pack_node: "12 \<le> length (pack_node base n)"
proof -
  have "1 \<le> length (encode_varint v)" for v using varint.enc_nonempty [of v] by (cases "encode_varint v") auto
  from this [of "ucast (encode_id_delta (node_id n) base)"] this [of "ucast (kind_offset n)"]
    this [of "ucast (name_offset n)"] this [of "ucast (encoded_data_len n)"]
    this [of "outgoing_cluster_offset n"] this [of "ucast (outgoing_edge_count n)"]
    this [of "incoming_cluster_offset n"] this [of "ucast (incoming_edge_count n)"]
  show ?thesis by (simp add: pack_node_eq id_delta_def byte_simps encode_varint_u16_def)
qed

lemma length_packed: "12 * length ns \<le> length (packed base ns)"
proof (induction ns)
  case (Cons n ns)
  from add_mono [OF length_pack_node [of base n] Cons] show ?case by simp
qed simp

text \<open>The records of a page fit when the packed image is within \<open>USABLE_SIZE\<close>.\<close>

definition page_header :: "node_page \<Rightarrow> u16 \<Rightarrow> bytes" where
  "page_header p used = to_be (np_page_id p) @ to_be (next_page_id p)
     @ to_be (of_nat (length (nodes p)) :: u16) @ to_be used @ to_be (base_id p)"

definition node_page_image :: "node_page \<Rightarrow> bytes" where
  "node_page_image p =
     (let node_data = packed (base_id p) (nodes p);
          hdr = page_header p (of_nat (length node_data))
      in hdr @ to_be (ucast (xor_checksum (hdr @ replicate 4 0 @ node_data)) :: u32) @ node_data
         @ replicate (USABLE_SIZE - length node_data) 0)"

definition page_accepts :: "node_page \<Rightarrow> bool" where
  "page_accepts p \<longleftrightarrow> length (packed (base_id p) (nodes p)) \<le> USABLE_SIZE"

lemma length_page_header [byte_simps]: "length (page_header p u) = 28"
  by (simp add: page_header_def byte_simps)

lemma node_page_pack_eq:
  "node_page_pack p = (if page_accepts p then Inr (node_page_image p)
     else Inl (Err (InvalidHeader ''node_page'')))"
proof (cases "page_accepts p")
  case False
  then show ?thesis
    by (simp add: node_page_pack_def pack_nodes_eq packed_def page_accepts_def node_page_consts)
next
  case True
  define d where "d = packed (base_id p) (nodes p)"
  define hdr where "hdr = page_header p (of_nat (length d))"
  from True have fits: "length d \<le> 4064" by (simp add: page_accepts_def d_def node_page_consts)
  have w: "write_fields (replicate MAX_PAGE_SIZE 0)
      [(0, to_be (np_page_id p)), (8, to_be (next_page_id p)),
       (16, to_be (of_nat (length (nodes p)) :: u16)), (18, to_be (of_nat (length d) :: u16)),
       (20, to_be (base_id p))] = hdr @ replicate 4 0 @ replicate 4064 0"
    by (subst write_fields_contiguous [where n = 0])
      (simp_all add: byte_simps hdr_def page_header_def node_page_consts flip: replicate_add)
  have b: "blit (hdr @ replicate 4 0 @ replicate 4064 0) 32 d
      = (hdr @ replicate 4 0) @ d @ replicate (4064 - length d) 0"
    using blit_append_exact [of "hdr @ replicate 4 0" 32 d "replicate 4064 0"] fits
    by (simp add: hdr_def byte_simps)
  have t: "take (32 + length d) ((hdr @ replicate 4 0) @ d @ replicate (4064 - length d) 0)
      = hdr @ replicate 4 0 @ d"
    by (simp add: hdr_def byte_simps)
  have c: "blit ((hdr @ replicate 4 0) @ d @ replicate (4064 - length d) 0) 28 (to_be (ck :: u32))
      = hdr @ to_be ck @ d @ replicate (4064 - length d) 0" for ck
    by (simp add: blit_def hdr_def byte_simps)
  show ?thesis
    using True fits
    by (simp only: node_page_pack_def pack_nodes_eq bindR_simps packed_def [symmetric] d_def [symmetric] w Let_def)
      (simp add: node_page_consts b t [simplified append.assoc] c [simplified] node_page_image_def Let_def node_page_checksum_def
        d_def [symmetric] hdr_def [symmetric] del: take_append)
qed

lemma length_node_page_image: "page_accepts p \<Longrightarrow> length (node_page_image p) = MAX_PAGE_SIZE"
  by (simp add: node_page_image_def Let_def byte_simps page_accepts_def node_page_consts)

lemma node_page_image_fields:
  assumes "page_accepts p" "d = packed (base_id p) (nodes p)"
  shows "slice (node_page_image p @ zs) 0 8 = to_be (np_page_id p)"
    "slice (node_page_image p @ zs) 8 8 = to_be (next_page_id p)"
    "slice (node_page_image p @ zs) 16 2 = to_be (of_nat (length (nodes p)) :: u16)"
    "slice (node_page_image p @ zs) 18 2 = to_be (of_nat (length d) :: u16)"
    "slice (node_page_image p @ zs) 20 8 = to_be (base_id p)"
    "slice (node_page_image p @ zs) 28 4 = to_be (ucast (xor_checksum
       (page_header p (of_nat (length d)) @ replicate 4 0 @ d)) :: u32)"
    "slice (node_page_image p @ zs) 32 (length d) = d"
  using assms(1) unfolding page_accepts_def assms(2) [symmetric] node_page_image_def
  by (simp_all add: Let_def assms(2) [symmetric] page_header_def byte_simps)

text \<open>The page a reader gets back.\<close>

definition stored_page :: "node_page \<Rightarrow> node_page" where
  "stored_page p =
     (let d = packed (base_id p) (nodes p); u = of_nat (length d)
      in p\<lparr>nodes := map stored (nodes p), used_bytes := u,
           checksum := ucast (xor_checksum (page_header p u @ replicate 4 0 @ d)),
           block_id := node_id_to_block (base_id p)\<rparr>)"

lemma checksum_stored_page:
  "calculate_checksum_with_nodes (stored_page p) = checksum (stored_page p)"
  by (simp add: calculate_checksum_with_nodes_def stored_page_def Let_def
      pack_nodes_eq [folded packed_def] page_header_def)

lemma page_counts:
  assumes "page_accepts p"
  shows "length (packed (base_id p) (nodes p)) \<le> 4064"
    "unat (of_nat (length (packed (base_id p) (nodes p))) :: u16) = length (packed (base_id p) (nodes p))"
    "unat (of_nat (length (nodes p)) :: u16) = length (nodes p)"
proof -
  show le: "length (packed (base_id p) (nodes p)) \<le> 4064"
    using assms by (simp add: page_accepts_def node_page_consts)
  then show "unat (of_nat (length (packed (base_id p) (nodes p))) :: u16)
      = length (packed (base_id p) (nodes p))"
    by (simp add: unat_of_nat take_bit_nat_eq_self)
  show "unat (of_nat (length (nodes p)) :: u16) = length (nodes p)"
    using le length_packed [of "nodes p" "base_id p"] by (simp add: unat_of_nat take_bit_nat_eq_self)
qed

lemma node_page_unpack_image:
  assumes "page_accepts p" "page_records (base_id p) (nodes p)"
  shows "node_page_unpack (node_page_image p @ zs) = Inr (stored_page p)"
proof -
  define d where "d = packed (base_id p) (nodes p)"
  note counts = page_counts [OF assms(1), folded d_def]
  have "at d 0 (packed (base_id p) (nodes p) @ [])" by (simp add: at_def d_def)
  from unpack_packed [OF this assms(2)]
  have u: "unpack_nodes d 0 (base_id p) (length (nodes p)) = Inr (map stored (nodes p), length d)"
    by (simp add: d_def)
  have ck: "calculate_checksum_with_nodes \<lparr>np_page_id = np_page_id p, next_page_id = next_page_id p,
      nodes = map stored (nodes p), used_bytes = of_nat (length d), base_id = base_id p,
      checksum = ucast (xor_checksum (page_header p (of_nat (length d)) @ replicate 4 0 @ d)),
      block_id = node_id_to_block (base_id p)\<rparr>
    = ucast (xor_checksum (page_header p (of_nat (length d)) @ replicate 4 0 @ d))"
    using checksum_stored_page [of p]
    by (simp add: stored_page_def Let_def calculate_checksum_with_nodes_def pack_nodes_eq d_def
        flip: packed_def)
  show ?thesis
    using counts(1) length_node_page_image [OF assms(1)]
    by (simp add: node_page_unpack_def node_page_consts Let_def counts(2,3) u ck
        node_page_image_fields [OF assms(1) d_def] stored_page_def flip: d_def)
qed

lemma find_node_lazy_image:
  assumes "page_accepts p" "page_records (base_id p) (nodes p)"
  shows "find_node_lazy (node_page_image p @ zs) target =
    Inr (find (\<lambda>n. node_id n = target) (map stored (nodes p)))"
proof -
  define d where "d = packed (base_id p) (nodes p)"
  note counts = page_counts [OF assms(1), folded d_def]
  have "at d 0 (packed (base_id p) (nodes p) @ [])" by (simp add: at_def d_def)
  from find_lazy_packed [OF this assms(2)] show ?thesis
    using counts(1) length_node_page_image [OF assms(1)]
    by (simp add: find_node_lazy_def slice_at_def node_page_consts counts(2,3)
        node_page_image_fields [OF assms(1) d_def])
qed

subsection \<open>Binary search\<close>

definition sorted_ids :: "node_record list \<Rightarrow> bool" where
  "sorted_ids ns \<longleftrightarrow> sorted_wrt (<) (map (\<lambda>n. sint (node_id n)) ns)"

lemma find_node_loop_bsearch:
  "right \<le> length ns \<Longrightarrow> find_node_loop ns i left right =
    (case bsearch_loop (map (\<lambda>n. sint (node_id n)) ns) (sint i) left right of
       Inr m \<Rightarrow> Inl (ns ! m) | Inl l \<Rightarrow> Inr l)"
proof (induction ns i left right rule: find_node_loop.induct)
  case (1 ns i left right)
  show ?case
  proof (cases "left < right")
    case False
    then show ?thesis by (simp add: find_node_loop.simps [of ns] bsearch_loop.simps [of _ _ left])
  next
    case True
    define mid where "mid = left + (right - left) div 2"
    have mid: "mid < length ns" "mid \<le> length ns" using True "1.prems" by (simp_all add: mid_def)
    have eq: "node_id (ns ! mid) = i \<longleftrightarrow> sint (node_id (ns ! mid)) = sint i"
      by (auto intro: signed_word_eqI)
    show ?thesis
      using "1.IH" [OF True refl refl] True mid eq "1.prems"
      by (simp add: find_node_loop.simps [of ns i left right]
          bsearch_loop.simps [of _ _ left right] mid_def [symmetric])
  qed
qed

lemma find_node_binary:
  "find_node p i =
    (case binary_search (map (\<lambda>n. sint (node_id n)) (nodes p)) (sint i) of
       Inr m \<Rightarrow> Some (nodes p ! m)
     | Inl l \<Rightarrow> if l < length (nodes p) \<and> node_id (nodes p ! l) = i then Some (nodes p ! l) else None)"
  by (simp add: find_node_def find_node_loop_bsearch binary_search_def split: sum.split)

lemma find_sorted_ids:
  assumes "sorted_ids ns" "m < length ns"
  shows "find (\<lambda>n. node_id n = node_id (ns ! m)) ns = Some (ns ! m)"
proof -
  have "node_id (ns ! j) \<noteq> node_id (ns ! m)" if "j < m" for j
    using assms that sorted_wrt_nth_less [of "(<)" "map (\<lambda>n. sint (node_id n)) ns" j m]
    by (auto simp: sorted_ids_def)
  with assms(2) show ?thesis by (auto simp: find_Some_iff)
qed

lemma find_node_sorted:
  assumes "sorted_ids (nodes p)"
  shows "find_node p i = find (\<lambda>n. node_id n = i) (nodes p)"
proof (cases "binary_search (map (\<lambda>n. sint (node_id n)) (nodes p)) (sint i)")
  case (Inr m)
  note m = binary_search_Inr [OF assms [unfolded sorted_ids_def] Inr]
  then have "node_id (nodes p ! m) = i" by (auto intro: signed_word_eqI)
  with find_sorted_ids [OF assms] m Inr show ?thesis by (auto simp: find_node_binary)
next
  case (Inl l)
  from binary_search_Inl_notin [OF assms [unfolded sorted_ids_def] Inl]
  have "i \<notin> node_id ` set (nodes p)" by auto
  then have "find (\<lambda>n. node_id n = i) (nodes p) = None"
    "l < length (nodes p) \<Longrightarrow> node_id (nodes p ! l) \<noteq> i"
    by (auto simp: find_None_iff)
  with Inl show ?thesis by (simp add: find_node_binary)
qed

subsection \<open>Adding nodes\<close>

text \<open>
  A page reached by adding nodes: its records fit, \<open>used_bytes\<close> is the size they pack to, and when
  there are records the base id is the least of their ids.
\<close>

definition page_inv :: "node_page \<Rightarrow> bool" where
  "page_inv p \<longleftrightarrow> page_accepts p \<and> (\<forall>n \<in> set (nodes p). wf_record n) \<and>
     used_bytes p = of_nat (length (packed (base_id p) (nodes p))) \<and>
     (nodes p \<noteq> [] \<longrightarrow> min_node_id (nodes p) = Some (base_id p))"

lemma min_node_id_append:
  "min_node_id (ns @ [n]) = Some (case min_node_id ns of None \<Rightarrow> node_id n | Some m \<Rightarrow> i64_min m (node_id n))"
proof -
  have "i64_min_loop i (is @ [j]) = i64_min (i64_min_loop i is) j" for i j :: i64 and "is"
    by (induction "is" arbitrary: i) (simp_all add: i64_min_def)
  then show ?thesis by (simp add: min_node_id_def split: list.split)
qed

lemma min_node_id_least: "min_node_id ns = Some m \<Longrightarrow> n \<in> set ns \<Longrightarrow> sint m \<le> sint (node_id n)"
  using i64_min_loop_least by (auto simp: min_node_id_def split: list.splits)

lemma estimate_no_panic: "estimate_compressed_size_with_base n b \<noteq> Inl Panic"
  by (simp add: estimate_compressed_size_with_base_def Let_def)

lemma add_node_outcome:
  assumes inv: "page_inv p" and n: "wf_record n"
  shows "case add_node n p of
      (Inr _, p') \<Rightarrow> page_inv p' \<and> nodes p' = nodes p @ [n] \<and> block_id p' = node_id_to_block (base_id p')
        \<and> np_page_id p' = np_page_id p \<and> next_page_id p' = next_page_id p
    | (Inl e, p') \<Rightarrow> e \<noteq> Panic \<and> page_inv p' \<and> nodes p' = nodes p \<and> (nodes p \<noteq> [] \<longrightarrow> p' = p)"
proof -
  define base where "base = temp_base_id p n"
  have min: "min_node_id (nodes p @ [n]) = Some base"
    using inv by (cases "nodes p = []")
      (simp_all add: base_def temp_base_id_def page_inv_def min_node_id_append, simp add: min_node_id_def)
  show ?thesis
  proof (cases "estimate_compressed_size_with_base n base")
    case (Inl e)
    then show ?thesis using inv estimate_no_panic [of n base]
      by (auto simp: add_node_def base_def [symmetric])
  next
    case (Inr c)
    let ?packed = "packed base (nodes p @ [n])"
    consider (full) "np_capacity p < c" | (fits) "\<not> np_capacity p < c" "length ?packed \<le> USABLE_SIZE"
      | (rollback) "\<not> np_capacity p < c" "USABLE_SIZE < length ?packed" by linarith
    then show ?thesis
    proof cases
      case full
      with Inr inv show ?thesis by (simp add: add_node_def base_def [symmetric])
    next
      case fits
      with Inr inv n min show ?thesis
        by (simp add: add_node_def base_def [symmetric] pack_nodes_eq [folded packed_def] Let_def
            page_inv_def page_accepts_def)
    next
      case rollback
      with Inr inv n min show ?thesis
        by (cases "nodes p = []")
          (simp_all add: add_node_def base_def [symmetric] pack_nodes_eq [folded packed_def] Let_def
            page_inv_def page_accepts_def)
    qed
  qed
qed

lemma page_inv_new: "page_inv (node_page_new pid)"
  by (simp add: page_inv_def node_page_new_def page_accepts_def)

lemma min_node_id_in: "min_node_id ns = Some m \<Longrightarrow> m \<in> node_id ` set ns"
proof (cases ns)
  case (Cons n ms)
  moreover assume "min_node_id ns = Some m"
  ultimately have "m = i64_min_loop (node_id n) (map node_id ms)" by (simp add: min_node_id_def)
  with i64_min_loop_least(3) [of "node_id n" "map node_id ms"] Cons show ?thesis by simp
qed (simp add: min_node_id_def)

text \<open>A page built by a client: the nodes are added one by one, until one is refused.\<close>

fun add_nodes :: "node_record list \<Rightarrow> (node_page, unit) action" where
  "add_nodes [] = returnS ()"
| "add_nodes (n # ns) = bindS (add_node n) (\<lambda>_. add_nodes ns)"

lemma add_nodes_outcome:
  assumes "add_nodes ns p = (Inr u, p')" "page_inv p" "\<forall>n \<in> set ns. wf_record n"
  shows "page_inv p' \<and> nodes p' = nodes p @ ns"
  using assms
proof (induction ns arbitrary: p)
  case Nil
  then show ?case by (simp add: returnS_def)
next
  case (Cons n ns)
  from Cons.prems(1) obtain v p1 where
    p1: "add_node n p = (Inr v, p1)" "add_nodes ns p1 = (Inr u, p')"
    by (auto simp: bindS_Inr_iff)
  with add_node_outcome [OF Cons.prems(2), of n] Cons.prems(3)
  have "page_inv p1" "nodes p1 = nodes p @ [n]" by auto
  with Cons.IH [OF p1(2)] Cons.prems(3) show ?case by simp
qed

lemma page_inv_records:
  assumes "page_inv p" "\<forall>m \<in> set (nodes p). \<forall>n \<in> set (nodes p). sint (node_id m) - sint (node_id n) \<le> 2 ^ 32 - 1"
  shows "page_records (base_id p) (nodes p)"
proof (cases "nodes p = []")
  case False
  with assms(1) have min: "min_node_id (nodes p) = Some (base_id p)" by (simp add: page_inv_def)
  then have "base_id p \<in> node_id ` set (nodes p)"
    by (rule min_node_id_in)
  with assms min_node_id_least [OF min] show ?thesis
    by (auto simp: page_records_def page_inv_def in_span_def)
qed simp

subsection \<open>Room for a record\<close>

lemma varint_size_narrow:
  "varint_size (ucast (a :: u16)) \<le> 3" "varint_size (ucast (b :: u32)) \<le> 5" "varint_size c \<le> 10"
proof -
  have "unat a < 2 ^ 16" "unat b < 2 ^ 32"
    using unsigned_less [of a, where ?'a = nat] unsigned_less [of b, where ?'a = nat] by simp_all
  then show "varint_size (ucast a) \<le> 3" "varint_size (ucast b) \<le> 5"
    by (simp_all add: varint_size_le_iff unat_ucast_up)
  show "varint_size c \<le> 10"
    using varint_size_bounds(2) [of c] by (simp add: MAX_VARINT_BYTES_def)
qed

definition MAX_INLINE_RECORD :: nat where "MAX_INLINE_RECORD = 112"

lemma estimate_inline:
  assumes "wf_record n" "data_inline n = Some d" "length d \<le> MAX_INLINE_DATA"
  shows "estimate_compressed_size_with_base n base = Inr (of_nat (length (pack_node base n)))"
    "length (pack_node base n) \<le> MAX_INLINE_RECORD"
proof -
  from assms(1,2) have len: "encoded_data_len n = of_nat (length d)" "data_len n = of_nat (length d)"
    "length d < 2 ^ 15" "data_bytes n = d"
    by (auto elim!: wf_recordE simp: data_bytes_def)
  have masked: "masked_data_len n = encoded_data_len n"
    using masked_of_nat [OF len(3)] len by (simp add: masked_data_len_def)
  have size: "length (pack_node base n) = varint_size (ucast (encode_id_delta (node_id n) base)) + 4
      + varint_size (ucast (kind_offset n)) + varint_size (ucast (name_offset n))
      + varint_size (ucast (encoded_data_len n)) + varint_size (outgoing_cluster_offset n)
      + varint_size (ucast (outgoing_edge_count n)) + varint_size (incoming_cluster_offset n)
      + varint_size (ucast (incoming_edge_count n)) + length d"
    by (simp add: pack_node_eq id_delta_def byte_simps varint_size_eq encode_varint_u16_def len(4))
  show le: "length (pack_node base n) \<le> MAX_INLINE_RECORD"
    using varint_size_narrow(2) [of "encode_id_delta (node_id n) base"]
      varint_size_narrow(1) [of "kind_offset n"] varint_size_narrow(1) [of "name_offset n"]
      varint_size_narrow(1) [of "encoded_data_len n"] varint_size_narrow(3) [of "outgoing_cluster_offset n"]
      varint_size_narrow(2) [of "outgoing_edge_count n"] varint_size_narrow(3) [of "incoming_cluster_offset n"]
      varint_size_narrow(2) [of "incoming_edge_count n"] assms(3)
    by (simp add: size MAX_INLINE_DATA_def MAX_INLINE_RECORD_def)
  then show "estimate_compressed_size_with_base n base = Inr (of_nat (length (pack_node base n)))"
    using assms(2) by (simp add: estimate_compressed_size_with_base_def masked size Let_def
        MAX_INLINE_RECORD_def)
qed

lemma add_node_fits:
  assumes inv: "page_inv p" and n: "wf_record n" "data_inline n = Some d" "length d \<le> MAX_INLINE_DATA"
    and room: "unat (used_bytes p) + MAX_INLINE_RECORD \<le> USABLE_SIZE"
    and fits: "length (packed (temp_base_id p n) (nodes p @ [n])) \<le> USABLE_SIZE"
  shows "\<exists>p'. add_node n p = (Inr (), p') \<and>
    unat (used_bytes p') = length (packed (temp_base_id p n) (nodes p @ [n]))"
proof -
  define base where "base = temp_base_id p n"
  note est = estimate_inline [OF n, of base]
  have le: "used_bytes p \<le> of_nat USABLE_SIZE"
    using room by (simp add: word_le_nat_alt node_page_consts)
  have "unat (np_capacity p) = USABLE_SIZE - unat (used_bytes p)"
    using le by (simp add: np_capacity_def unat_sub node_page_consts)
  then have "\<not> np_capacity p < of_nat (length (pack_node base n))"
    using est(2) room by (simp add: word_less_nat_alt unat_of_nat take_bit_nat_eq_self
        MAX_INLINE_RECORD_def)
  moreover have "unat (of_nat (length (packed base (nodes p @ [n]))) :: u16) = length (packed base (nodes p @ [n]))"
    using fits [folded base_def] by (simp only: unat_of_nat len_of_numeral_defs len_num1)
      (simp add: take_bit_nat_eq_self node_page_consts del: packed_simps)
  ultimately show ?thesis
    using est(1) fits [folded base_def]
    by (simp add: add_node_def base_def [symmetric] pack_nodes_eq [folded packed_def] Let_def)
qed

lemma used_bytes_packed: "page_inv p \<Longrightarrow> unat (used_bytes p) = length (packed (base_id p) (nodes p))"
  using page_counts(2) [of p] by (simp add: page_inv_def)

lemma add_node_room:
  assumes inv: "page_inv p" and n: "wf_record n" "data_inline n = Some d" "length d \<le> MAX_INLINE_DATA"
    and base: "nodes p = [] \<or> sint (base_id p) \<le> sint (node_id n)"
    and room: "unat (used_bytes p) + MAX_INLINE_RECORD \<le> USABLE_SIZE"
  shows "\<exists>p'. add_node n p = (Inr (), p') \<and> unat (used_bytes p') \<le> unat (used_bytes p) + MAX_INLINE_RECORD"
proof -
  have "packed (temp_base_id p n) (nodes p) = packed (base_id p) (nodes p)"
    using base by (cases "nodes p = []") (auto simp: temp_base_id_def i64_min_def)
  then have "length (packed (temp_base_id p n) (nodes p @ [n])) \<le> unat (used_bytes p) + MAX_INLINE_RECORD"
    using estimate_inline(2) [OF n] by (simp add: used_bytes_packed [OF inv])
  with add_node_fits [OF inv n room] room show ?thesis by fastforce
qed

subsection \<open>Properties\<close>

text \<open>
  Adding a record to a page either appends it or is refused without a panic. In both cases the
  packed records fit the page, \<open>used_bytes\<close> is the size they pack to and the base id is the least id;
  a refused record leaves the records as they were, and the whole page too unless it was empty.
\<close>

theorem add_node_correct:
  assumes "page_inv p" "wf_record n"
  shows "case add_node n p of
      (Inr _, p') \<Rightarrow> page_inv p' \<and> nodes p' = nodes p @ [n] \<and> block_id p' = node_id_to_block (base_id p')
        \<and> np_page_id p' = np_page_id p \<and> next_page_id p' = next_page_id p
    | (Inl e, p') \<Rightarrow> e \<noteq> Panic \<and> page_inv p' \<and> nodes p' = nodes p \<and> (nodes p \<noteq> [] \<longrightarrow> p' = p)"
  using assms by (rule add_node_outcome)

definition sample_record :: "i64 \<Rightarrow> node_record" where
  "sample_record i = \<lparr>node_id = i, flags = 1, kind_offset = 2, name_offset = 300, data_len = 2,
     data_inline = Some [7, 9], data_external_offset = None, outgoing_cluster_offset = 5000,
     outgoing_edge_count = 6, incoming_cluster_offset = 8, incoming_edge_count = 200\<rparr>"

lemma wf_sample_record: "wf_record (sample_record i)"
  by (simp add: sample_record_def wf_record_def)

lemma add_node_correct_witness: "page_inv (snd (add_node (sample_record 5) (node_page_new 3)))"
  using add_node_correct [OF page_inv_new wf_sample_record, of 3 5]
  by (auto split: prod.splits sum.splits)

text \<open>
  A record with inline data is accepted by every page with 112 bytes left, the size of the largest
  such record, when its id is not below the base id of the page; it takes at most these bytes.
\<close>

theorem add_node_accepts:
  assumes "page_inv p" "wf_record n" "data_inline n = Some d" "length d \<le> MAX_INLINE_DATA"
    and "nodes p = [] \<or> sint (base_id p) \<le> sint (node_id n)"
    and "unat (used_bytes p) + MAX_INLINE_RECORD \<le> USABLE_SIZE"
  shows "\<exists>p'. add_node n p = (Inr (), p') \<and> unat (used_bytes p') \<le> unat (used_bytes p) + MAX_INLINE_RECORD"
  using assms by (rule add_node_room)

lemma add_node_accepts_witness:
  "\<exists>p'. add_node (sample_record 5) (node_page_new 3) = (Inr (), p') \<and>
     unat (used_bytes p') \<le> unat (used_bytes (node_page_new 3)) + MAX_INLINE_RECORD"
  by (rule add_node_accepts [OF page_inv_new wf_sample_record, where d = "[7, 9]"])
    (simp_all add: sample_record_def node_page_new_def MAX_INLINE_DATA_def MAX_INLINE_RECORD_def
      node_page_consts)

text \<open>
  C38. A page built by adding records with increasing ids that span less than \<open>2 ^ 32\<close> packs into 4096
  bytes; unpacking them gives the records back (the external flag kept in the length field), with the
  checksum accepted; on the unpacked page \<open>find_node\<close> finds exactly the record with the given id, and
  \<open>find_node_lazy\<close>, which decodes only ids until the match, gives the same answer on the bytes.
\<close>

theorem node_page_roundtrip:
  assumes "add_nodes ns (node_page_new pid) = (Inr u, p)" "\<forall>n \<in> set ns. wf_record n" "sorted_ids ns"
    and "\<forall>m \<in> set ns. \<forall>n \<in> set ns. sint (node_id m) - sint (node_id n) \<le> 2 ^ 32 - 1"
  shows "\<exists>bs q. node_page_pack p = Inr bs \<and> length bs = MAX_PAGE_SIZE \<and>
    node_page_unpack bs = Inr q \<and> nodes q = map stored ns \<and> np_page_id q = np_page_id p \<and>
    find_node q i = find (\<lambda>n. node_id n = i) (map stored ns) \<and>
    find_node_lazy bs i = Inr (find_node q i)"
proof -
  from add_nodes_outcome [OF assms(1) page_inv_new assms(2)]
  have inv: "page_inv p" and ns: "nodes p = ns" by (simp_all add: node_page_new_def)
  then have accepts: "page_accepts p" by (simp add: page_inv_def)
  have recs: "page_records (base_id p) (nodes p)"
    using page_inv_records [OF inv] assms(4) ns by blast
  have q: "nodes (stored_page p) = map stored ns" "np_page_id (stored_page p) = np_page_id p"
    by (simp_all add: stored_page_def Let_def ns)
  have "sorted_ids (map stored ns)"
    using assms(3) by (simp add: sorted_ids_def comp_def)
  then have find: "find_node (stored_page p) i = find (\<lambda>n. node_id n = i) (map stored ns)"
    using find_node_sorted [of "stored_page p"] q by simp
  show ?thesis
    using node_page_pack_eq [of p] accepts length_node_page_image [OF accepts] q find
      node_page_unpack_image [OF accepts recs, of "[]"] find_node_lazy_image [OF accepts recs, of "[]" i] ns
    by simp
qed

lemma add_sample_records:
  "\<exists>p. add_nodes [sample_record 5, sample_record 9] (node_page_new 3) = (Inr (), p)"
proof -
  note facts = sample_record_def MAX_INLINE_DATA_def MAX_INLINE_RECORD_def node_page_consts
  obtain p1 where p1: "add_node (sample_record 5) (node_page_new 3) = (Inr (), p1)"
    "unat (used_bytes p1) \<le> unat (used_bytes (node_page_new 3)) + MAX_INLINE_RECORD"
    using add_node_room [OF page_inv_new wf_sample_record, where d = "[7, 9]"]
    by (auto simp: facts node_page_new_def)
  then have inv: "page_inv p1" "nodes p1 = [sample_record 5]"
    using add_node_outcome [OF page_inv_new wf_sample_record, of 3 5] by (auto simp: node_page_new_def)
  then have "base_id p1 = 5" by (simp add: page_inv_def min_node_id_def sample_record_def)
  then obtain p2 where "add_node (sample_record 9) p1 = (Inr (), p2)"
    using add_node_room [OF inv(1) wf_sample_record [of 9], where d = "[7, 9]"] p1(2)
    by (auto simp: facts node_page_new_def)
  with p1(1) show ?thesis by (simp add: returnS_def)
qed

lemma node_page_roundtrip_witness:
  "\<exists>p bs. add_nodes [sample_record 5, sample_record 9] (node_page_new 3) = (Inr (), p) \<and>
     node_page_pack p = Inr bs \<and> find_node_lazy bs 9 = Inr (Some (stored (sample_record 9)))"
proof -
  obtain p where p: "add_nodes [sample_record 5, sample_record 9] (node_page_new 3) = (Inr (), p)"
    using add_sample_records by blast
  have "node_id (sample_record 5) = 5" "node_id (sample_record 9) = 9"
    by (simp_all add: sample_record_def)
  with node_page_roundtrip [OF p, of 9] p show ?thesis
    by (auto simp: wf_sample_record sorted_ids_def)
qed

text \<open>
  Nothing makes a client add records in order: adding 9 and then 5 is accepted and the page packs,
  but \<open>find_node\<close> misses record 9 on it, while \<open>find_node_lazy\<close> finds it in the packed bytes.
\<close>

theorem find_node_misses_unsorted:
  "\<exists>p bs. add_nodes [sample_record 9, sample_record 5] (node_page_new 3) = (Inr (), p) \<and>
     node_page_pack p = Inr bs \<and> find_node p 9 = None \<and>
     find_node_lazy bs 9 = Inr (Some (stored (sample_record 9)))"
proof -
  note facts = sample_record_def MAX_INLINE_DATA_def MAX_INLINE_RECORD_def node_page_consts
  have inline: "data_inline (sample_record i) = Some [7, 9]" "node_id (sample_record i) = i" for i
    by (simp_all add: sample_record_def)
  have small: "length (pack_node b (sample_record i)) \<le> 112" for b i
    using estimate_inline(2) [OF wf_sample_record inline(1)] by (simp add: facts)
  obtain p1 where p1: "add_node (sample_record 9) (node_page_new 3) = (Inr (), p1)"
    "unat (used_bytes p1) \<le> unat (used_bytes (node_page_new 3)) + MAX_INLINE_RECORD"
    using add_node_room [OF page_inv_new wf_sample_record inline(1)]
    by (auto simp: facts node_page_new_def)
  then have inv: "page_inv p1" "nodes p1 = [sample_record 9]"
    using add_node_outcome [OF page_inv_new wf_sample_record, of 3 9] by (auto simp: node_page_new_def)
  have "length (packed (temp_base_id p1 (sample_record 5)) (nodes p1 @ [sample_record 5])) \<le> 224"
    using add_mono [OF small [of "temp_base_id p1 (sample_record 5)" 9]
        small [of "temp_base_id p1 (sample_record 5)" 5]] by (simp add: inv)
  then obtain p where p: "add_node (sample_record 5) p1 = (Inr (), p)"
    using add_node_fits [OF inv(1) wf_sample_record inline(1), of 5] p1(2)
    by (auto simp: facts(2-) node_page_new_def simp del: packed_simps)
  from add_node_outcome [OF inv(1) wf_sample_record, of 5] p inv(2)
  have inv_p: "page_inv p" "nodes p = [sample_record 9, sample_record 5]" by simp_all
  then have accepts: "page_accepts p" by (simp add: page_inv_def)
  have recs: "page_records (base_id p) (nodes p)"
    by (rule page_inv_records [OF inv_p(1)]) (simp add: inv_p(2) inline)
  have "find_node p 9 = None"
    by (simp add: find_node_def inv_p(2) inline find_node_loop.simps)
  then show ?thesis
    using p1(1) p node_page_pack_eq [of p] accepts find_node_lazy_image [OF accepts recs, of "[]" 9]
    by (simp add: inv_p(2) inline returnS_def)
qed

end
