(* ===== verification/Index_Page.thy ===== *)
theory Index_Page
  imports Header_V3
begin

text \<open>
  The pages of the B+Tree index (\<open>v3/index/page.rs\<close>): internal pages and leaves, the 4096 byte image
  with its checksum, and the searches inside a page. The lemmas give the exact layout of \<open>pack\<close>, that
  \<open>unpack\<close> inverts it, which pages \<open>pack\<close> refuses, and what the searches return on sorted keys.
\<close>

subsection \<open>Constants and pages\<close>

definition MAX_KEYS :: nat where "MAX_KEYS = 252"
definition MIN_KEYS :: nat where "MIN_KEYS = 125"
definition MAX_ENTRIES :: nat where "MAX_ENTRIES = 252"
definition MIN_ENTRIES :: nat where "MIN_ENTRIES = 126"
definition DATA_START_OFFSET :: nat where "DATA_START_OFFSET = 32"
definition ENTRY_SIZE :: nat where "ENTRY_SIZE = 8 + 8"

lemmas page_consts = MAX_KEYS_def MIN_KEYS_def MAX_ENTRIES_def MIN_ENTRIES_def
  DATA_START_OFFSET_def ENTRY_SIZE_def

text \<open>The fields, in order: page id, keys, children, checksum, root flag; page id, entries, next
  leaf, checksum, root flag.\<close>

datatype index_page =
    Internal u64 "u64 list" "u64 list" u32 bool
  | Leaf u64 "(u64 \<times> u64) list" u64 u32 bool

fun page_id :: "index_page \<Rightarrow> u64" where
  "page_id (Internal pid ks cs ck root) = pid"
| "page_id (Leaf pid es nxt ck root) = pid"

fun is_leaf_page :: "index_page \<Rightarrow> bool" where
  "is_leaf_page (Internal pid ks cs ck root) = False"
| "is_leaf_page (Leaf pid es nxt ck root) = True"

fun page_count :: "index_page \<Rightarrow> nat" where
  "page_count (Internal pid ks cs ck root) = length ks"
| "page_count (Leaf pid es nxt ck root) = length es"

definition new_internal :: "u64 \<Rightarrow> index_page" where
  "new_internal pid = Internal pid [] [] 0 False"

definition new_internal_root :: "u64 \<Rightarrow> index_page" where
  "new_internal_root pid = Internal pid [] [] 0 True"

definition new_leaf :: "u64 \<Rightarrow> index_page" where
  "new_leaf pid = Leaf pid [] 0 0 False"

definition new_leaf_root :: "u64 \<Rightarrow> index_page" where
  "new_leaf_root pid = Leaf pid [] 0 0 True"

fun is_root :: "index_page \<Rightarrow> bool" where
  "is_root (Internal pid ks cs ck root) = root"
| "is_root (Leaf pid es nxt ck root) = root"

fun set_root :: "bool \<Rightarrow> index_page \<Rightarrow> index_page" where
  "set_root r (Internal pid ks cs ck root) = Internal pid ks cs ck r"
| "set_root r (Leaf pid es nxt ck root) = Leaf pid es nxt ck r"

fun is_full_internal :: "index_page \<Rightarrow> bool" where
  "is_full_internal (Internal pid ks cs ck root) \<longleftrightarrow> MAX_KEYS \<le> length ks"
| "is_full_internal _ \<longleftrightarrow> False"

fun is_full_leaf :: "index_page \<Rightarrow> bool" where
  "is_full_leaf (Leaf pid es nxt ck root) \<longleftrightarrow> MAX_ENTRIES \<le> length es"
| "is_full_leaf _ \<longleftrightarrow> False"

fun needs_split_internal :: "index_page \<Rightarrow> bool" where
  "needs_split_internal (Internal pid ks cs ck root) \<longleftrightarrow> MAX_KEYS \<le> length ks"
| "needs_split_internal _ \<longleftrightarrow> False"

fun needs_split_leaf :: "index_page \<Rightarrow> bool" where
  "needs_split_leaf (Leaf pid es nxt ck root) \<longleftrightarrow> MAX_ENTRIES \<le> length es"
| "needs_split_leaf _ \<longleftrightarrow> False"

subsection \<open>Well-formedness check\<close>

fun strictly_ordered :: "u64 list \<Rightarrow> bool" where
  "strictly_ordered (a # b # ks) \<longleftrightarrow> (if b \<le> a then False else strictly_ordered (b # ks))"
| "strictly_ordered _ \<longleftrightarrow> True"

fun verify_invariants :: "index_page \<Rightarrow> unit result" where
  "verify_invariants (Internal pid ks cs ck root) =
     (if MAX_KEYS < length ks then Inl (Err (InvalidHeader ''btree_verify''))
      else if \<not> root \<and> ks \<noteq> [] \<and> length ks < MIN_KEYS then Inl (Err (InvalidHeader ''btree_verify''))
      else if \<not> strictly_ordered ks then Inl (Err (InvalidHeader ''btree_verify''))
      else if ks \<noteq> [] \<and> length cs \<noteq> length ks + 1 then Inl (Err (InvalidHeader ''btree_verify''))
      else Inr ())"
| "verify_invariants (Leaf pid es nxt ck root) =
     (if MAX_ENTRIES < length es then Inl (Err (InvalidHeader ''btree_verify''))
      else if \<not> root \<and> es \<noteq> [] \<and> length es < MIN_ENTRIES then Inl (Err (InvalidHeader ''btree_verify''))
      else if \<not> strictly_ordered (map fst es) then Inl (Err (InvalidHeader ''btree_verify''))
      else Inr ())"

subsection \<open>Writing a page\<close>

fun write_ids :: "bytes \<Rightarrow> nat \<Rightarrow> u64 list \<Rightarrow> (bytes \<times> nat) result" where
  "write_ids bs off [] = Inr (bs, off)"
| "write_ids bs off (k # ks) =
     (if off + 8 > 4096 then Inl (Err (InvalidHeader ''internal_page''))
      else write_ids (blit bs off (to_be k)) (off + 8) ks)"

fun write_entries :: "bytes \<Rightarrow> nat \<Rightarrow> (u64 \<times> u64) list \<Rightarrow> (bytes \<times> nat) result" where
  "write_entries bs off [] = Inr (bs, off)"
| "write_entries bs off ((node_id, pid) # es) =
     (if off + ENTRY_SIZE > 4096 then Inl (Err (InvalidHeader ''leaf_page''))
      else write_entries (blit (blit bs off (to_be node_id)) (off + 8) (to_be pid)) (off + 8 + 8) es)"

fun pack_payload :: "bytes \<Rightarrow> index_page \<Rightarrow> (bytes \<times> nat) result" where
  "pack_payload bs (Internal pid ks cs ck root) =
     (if ks \<noteq> [] \<and> length cs \<noteq> length ks + 1 then Inl (Err (InvalidHeader ''internal_page''))
      else if ks = [] \<and> length cs > 1 then Inl (Err (InvalidHeader ''internal_page''))
      else if length ks > MAX_KEYS then Inl (Err (InvalidHeader ''internal_page''))
      else bindR (write_ids bs DATA_START_OFFSET ks) (\<lambda>(bs, off). write_ids bs off cs))"
| "pack_payload bs (Leaf pid es nxt ck root) =
     (if length es > MAX_ENTRIES then Inl (Err (InvalidHeader ''leaf_page''))
      else bindR (write_entries bs DATA_START_OFFSET es) (\<lambda>(bs, off).
        if off + 8 > 4096 then Inl (Err (InvalidHeader ''leaf_page''))
        else Inr (blit bs off (to_be nxt), off + 8)))"

definition pack :: "index_page \<Rightarrow> bytes result" where
  "pack p =
     (let bs = write_fields (replicate 4096 0)
            [(0, to_be (page_id p)),
             (8, [if is_leaf_page p then 1 else 0]),
             (9, [if is_root p then 1 else 0]),
             (10, to_be (of_nat (page_count p) :: u16))]
      in bindR (pack_payload bs p) (\<lambda>(bs, off).
           let checksum = (ucast (xor_checksum (take off bs)) :: u32)
           in Inr (blit bs 12 (to_be checksum))))"

subsection \<open>Reading a page\<close>

definition extract_array :: "nat \<Rightarrow> bytes \<Rightarrow> nat \<Rightarrow> string \<Rightarrow> bytes result" where
  "extract_array n bs off field =
     (let e = off + n in if e > length bs then Inl (Err (InvalidHeader field)) else Inr (slice bs off n))"

fun read_ids :: "bytes \<Rightarrow> nat \<Rightarrow> nat \<Rightarrow> string \<Rightarrow> (u64 list \<times> nat) result" where
  "read_ids bs off 0 field = Inr ([], off)"
| "read_ids bs off (Suc n) field =
     (if off + 8 > 4096 then Inl (Err (InvalidHeader ''internal_page''))
      else bindR (extract_array 8 bs off field) (\<lambda>a.
           bindR (read_ids bs (off + 8) n field) (\<lambda>(ks, off'). Inr (from_be a # ks, off'))))"

fun read_entries :: "bytes \<Rightarrow> nat \<Rightarrow> nat \<Rightarrow> ((u64 \<times> u64) list \<times> nat) result" where
  "read_entries bs off 0 = Inr ([], off)"
| "read_entries bs off (Suc n) =
     (if off + ENTRY_SIZE > 4096 then Inl (Err (InvalidHeader ''leaf_page''))
      else bindR (extract_array 8 bs off ''node_id'') (\<lambda>a.
           bindR (extract_array 8 bs (off + 8) ''page_id'') (\<lambda>b.
           bindR (read_entries bs (off + 8 + 8) n) (\<lambda>(es, off').
             Inr ((from_be a, from_be b) # es, off')))))"

definition checksum_leaf :: "u64 \<Rightarrow> (u64 \<times> u64) list \<Rightarrow> u64 \<Rightarrow> bool \<Rightarrow> u32" where
  "checksum_leaf pid es nxt root = ucast (xor_checksum
     (to_be pid @ [1] @ [if root then 1 else 0] @ to_be (of_nat (length es) :: u16)
      @ replicate 4 0 @ replicate 16 0
      @ concat (map (\<lambda>(n, p). to_be n @ to_be p) es) @ to_be nxt))"

definition checksum_internal :: "u64 \<Rightarrow> u64 list \<Rightarrow> u64 list \<Rightarrow> bool \<Rightarrow> u32" where
  "checksum_internal pid ks cs root = ucast (xor_checksum
     (to_be pid @ [0] @ [if root then 1 else 0] @ to_be (of_nat (length ks) :: u16)
      @ replicate 4 0 @ replicate 16 0
      @ concat (map to_be ks) @ concat (map to_be cs)))"

definition unpack :: "bytes \<Rightarrow> index_page result" where
  "unpack bs =
     (if length bs < 4096 then Inl (Err (InvalidHeader ''page_data''))
      else bindR (extract_array 8 bs 0 ''page_id'') (\<lambda>pid_bytes.
        let pid = from_be pid_bytes;
            is_leaf = (bs ! 8 = 1);
            root = (bs ! 9 = 1)
        in bindR (extract_array 2 bs 10 ''count'') (\<lambda>count_bytes.
        let count = unat (from_be count_bytes :: u16)
        in bindR (extract_array 4 bs 12 ''checksum'') (\<lambda>ck_bytes.
        let checksum = from_be ck_bytes
        in if is_leaf then
             bindR (read_entries bs DATA_START_OFFSET count) (\<lambda>(es, off).
             if \<not> off + 8 \<le> 4096 then Inl (Err (InvalidHeader ''leaf_page''))
             else bindR (extract_array 8 bs off ''next_leaf'') (\<lambda>nxt_bytes.
               let nxt = from_be nxt_bytes
               in if checksum_leaf pid es nxt root \<noteq> checksum
                  then Inl (Err (InvalidHeader ''leaf_checksum''))
                  else Inr (Leaf pid es nxt checksum root)))
           else
             bindR (read_ids bs DATA_START_OFFSET count ''key'') (\<lambda>(ks, off).
             bindR (read_ids bs off (count + 1) ''child'') (\<lambda>(cs, off).
               if checksum_internal pid ks cs root \<noteq> checksum
               then Inl (Err (InvalidHeader ''internal_checksum''))
               else Inr (Internal pid ks cs checksum root)))))))"

subsection \<open>Searching a page\<close>

definition binary_search_leaf :: "(u64 \<times> u64) list \<Rightarrow> u64 \<Rightarrow> nat + nat" where
  "binary_search_leaf es target = binary_search (map fst es) target"

definition find_child_index :: "u64 list \<Rightarrow> u64 \<Rightarrow> nat" where
  "find_child_index ks target = (case binary_search ks target of Inr i \<Rightarrow> i + 1 | Inl i \<Rightarrow> i)"

lemma strictly_ordered_iff: "strictly_ordered ks \<longleftrightarrow> sorted_wrt (<) ks"
  by (induction ks rule: strictly_ordered.induct) (auto simp: not_le intro: less_trans)

lemma find_child_index_eq:
  assumes "sorted_wrt (<) ks"
  shows "find_child_index ks t \<le> length ks"
    "i < find_child_index ks t \<Longrightarrow> ks ! i \<le> t"
    "find_child_index ks t \<le> i \<Longrightarrow> i < length ks \<Longrightarrow> t < ks ! i"
proof -
  have *: "find_child_index ks t \<le> length ks \<and> (\<forall>i<find_child_index ks t. ks ! i \<le> t) \<and>
    (\<forall>i. find_child_index ks t \<le> i \<and> i < length ks \<longrightarrow> t < ks ! i)"
  proof (cases "binary_search ks t")
    case (Inl i)
    with binary_search_Inl [OF assms Inl] show ?thesis
      by (auto simp: find_child_index_def less_imp_le)
  next
    case (Inr i)
    have mono: "ks ! a < ks ! b" if "a < b" "b < length ks" for a b
      using assms that by (simp add: sorted_wrt_nth_less)
    have "ks ! j \<le> t" if "j < Suc i" for j
      using binary_search_Inr [OF assms Inr] mono [of j i] that by (cases "j = i") auto
    moreover have "t < ks ! j" if "Suc i \<le> j" "j < length ks" for j
      using binary_search_Inr [OF assms Inr] mono [of i j] that by auto
    ultimately show ?thesis
      using binary_search_Inr [OF assms Inr] Inr by (simp add: find_child_index_def)
  qed
  show "find_child_index ks t \<le> length ks" using * by blast
  show "i < find_child_index ks t \<Longrightarrow> ks ! i \<le> t" using * by blast
  show "find_child_index ks t \<le> i \<Longrightarrow> i < length ks \<Longrightarrow> t < ks ! i" using * by blast
qed

subsection \<open>The image of a page\<close>

fun payload :: "index_page \<Rightarrow> bytes" where
  "payload (Internal pid ks cs ck root) = concat (map to_be ks) @ concat (map to_be cs)"
| "payload (Leaf pid es nxt ck root) = concat (map (\<lambda>(n, p). to_be n @ to_be p) es) @ to_be nxt"

definition page_prefix :: "index_page \<Rightarrow> bytes" where
  "page_prefix p = to_be (page_id p) @ [if is_leaf_page p then 1 else 0]
     @ [if is_root p then 1 else 0] @ to_be (of_nat (page_count p) :: u16)"

fun page_checksum :: "index_page \<Rightarrow> u32" where
  "page_checksum (Internal pid ks cs ck root) = checksum_internal pid ks cs root"
| "page_checksum (Leaf pid es nxt ck root) = checksum_leaf pid es nxt root"

fun with_checksum :: "index_page \<Rightarrow> index_page" where
  "with_checksum (Internal pid ks cs ck root) = Internal pid ks cs (checksum_internal pid ks cs root) root"
| "with_checksum (Leaf pid es nxt ck root) = Leaf pid es nxt (checksum_leaf pid es nxt root) root"

text \<open>\<open>page_fits\<close> are the pages \<open>pack\<close> accepts, \<open>page_shaped\<close> those that are read back as they are.\<close>

fun page_fits :: "index_page \<Rightarrow> bool" where
  "page_fits (Internal pid ks cs ck root) \<longleftrightarrow>
     length ks \<le> MAX_KEYS \<and> (length cs = length ks + 1 \<or> ks = [] \<and> cs = [])"
| "page_fits (Leaf pid es nxt ck root) \<longleftrightarrow> length es \<le> MAX_ENTRIES"

fun page_shaped :: "index_page \<Rightarrow> bool" where
  "page_shaped (Internal pid ks cs ck root) \<longleftrightarrow> length ks \<le> MAX_KEYS \<and> length cs = length ks + 1"
| "page_shaped (Leaf pid es nxt ck root) \<longleftrightarrow> length es \<le> MAX_ENTRIES"

definition page_image :: "index_page \<Rightarrow> bytes" where
  "page_image p = page_prefix p @ to_be (page_checksum p) @ replicate 16 0 @ payload p
     @ replicate (4064 - length (payload p)) 0"

lemma length_concat_ids [byte_simps]: "length (concat (map to_be (ks :: u64 list))) = 8 * length ks"
  by (induction ks) (simp_all add: byte_simps)

lemma length_concat_entries [byte_simps]:
  "length (concat (map (\<lambda>(n, p). to_be (n :: u64) @ to_be (p :: u64)) es)) = 16 * length es"
  by (induction es) (auto simp: byte_simps)

lemma length_page_prefix [byte_simps]: "length (page_prefix p) = 12"
  by (simp add: page_prefix_def byte_simps)

lemma length_payload_le: "page_fits p \<Longrightarrow> length (payload p) \<le> 4040"
  by (cases p) (auto simp: byte_simps page_consts)

lemma write_ids_append:
  assumes "length xs + n = 4096" "8 * length ks \<le> n"
  shows "write_ids (xs @ replicate n 0) (length xs) ks =
    Inr ((xs @ concat (map to_be ks)) @ replicate (n - 8 * length ks) 0, length xs + 8 * length ks)"
  using assms
proof (induction ks arbitrary: xs n)
  case Nil
  then show ?case by simp
next
  case (Cons k ks)
  then have "write_ids ((xs @ to_be k) @ replicate (n - 8) 0) (length (xs @ to_be k)) ks =
      Inr (((xs @ to_be k) @ concat (map to_be ks)) @ replicate (n - 8 - 8 * length ks) 0,
           length (xs @ to_be k) + 8 * length ks)"
    by (intro Cons.IH) (simp_all add: byte_simps)
  with Cons.prems show ?case by (simp add: byte_simps blit_append_exact)
qed

lemma write_entries_append:
  assumes "length xs + n = 4096" "16 * length es \<le> n"
  shows "write_entries (xs @ replicate n 0) (length xs) es =
    Inr ((xs @ concat (map (\<lambda>(n, p). to_be n @ to_be p) es)) @ replicate (n - 16 * length es) 0,
         length xs + 16 * length es)"
  using assms
proof (induction es arbitrary: xs n)
  case Nil
  then show ?case by simp
next
  case (Cons e es)
  obtain a b where e: "e = (a, b)" by fastforce
  let ?xs = "xs @ to_be a @ to_be b"
  from Cons.prems have "write_entries (?xs @ replicate (n - 16) 0) (length ?xs) es =
      Inr ((?xs @ concat (map (\<lambda>(n, p). to_be n @ to_be p) es)) @ replicate (n - 16 - 16 * length es) 0,
           length ?xs + 16 * length es)"
    by (intro Cons.IH) (simp_all add: byte_simps)
  moreover have "blit (blit (xs @ replicate n 0) (length xs) (to_be a)) (length xs + 8) (to_be b)
      = ?xs @ replicate (n - 16) 0"
    using Cons.prems
    by (simp add: blit_append_exact byte_simps) (simp add: blit_def byte_simps)
  ultimately show ?case using Cons.prems by (simp add: e byte_simps ENTRY_SIZE_def add.assoc)
qed

lemma pack_payload_append:
  assumes "page_fits p" "length xs = 32"
  shows "pack_payload (xs @ replicate 4064 0) p =
    Inr ((xs @ payload p) @ replicate (4064 - length (payload p)) 0, 32 + length (payload p))"
proof (cases p)
  case (Internal pid ks cs ck root)
  from assms Internal have len: "length ks \<le> 252" "length cs \<le> length ks + 1"
    by (auto simp: page_consts)
  have 1: "write_ids (xs @ replicate 4064 0) 32 ks =
      Inr ((xs @ concat (map to_be ks)) @ replicate (4064 - 8 * length ks) 0, 32 + 8 * length ks)"
    using write_ids_append [of xs 4064 ks] assms(2) len by simp
  have 2: "write_ids ((xs @ concat (map to_be ks)) @ replicate (4064 - 8 * length ks) 0)
        (32 + 8 * length ks) cs =
      Inr (((xs @ concat (map to_be ks)) @ concat (map to_be cs))
            @ replicate (4064 - 8 * length ks - 8 * length cs) 0, 32 + 8 * length ks + 8 * length cs)"
    using write_ids_append [of "xs @ concat (map to_be ks)" "4064 - 8 * length ks" cs] assms(2) len
    by (simp add: byte_simps)
  from assms Internal 1 2 show ?thesis by (auto simp: page_consts byte_simps)
next
  case (Leaf pid es nxt ck root)
  from assms Leaf have len: "length es \<le> 252" by (simp add: page_consts)
  have 1: "write_entries (xs @ replicate 4064 0) 32 es =
      Inr ((xs @ concat (map (\<lambda>(n, p). to_be n @ to_be p) es)) @ replicate (4064 - 16 * length es) 0,
           32 + 16 * length es)"
    using write_entries_append [of xs 4064 es] assms(2) len by simp
  have 2: "blit ((xs @ concat (map (\<lambda>(n, p). to_be n @ to_be p) es)) @ replicate (4064 - 16 * length es) 0)
      (32 + 16 * length es) (to_be nxt) =
      ((xs @ concat (map (\<lambda>(n, p). to_be n @ to_be p) es)) @ to_be nxt)
        @ replicate (4064 - 16 * length es - 8) 0"
    using assms(2) len
    by (subst blit_append_exact) (simp_all add: byte_simps)
  from Leaf assms 1 2 len show ?thesis by (simp add: page_consts byte_simps)
qed

lemma write_prefix:
  "write_fields (replicate 4096 0)
     [(0, to_be (page_id p)), (8, [if is_leaf_page p then 1 else 0]),
      (9, [if is_root p then 1 else 0]), (10, to_be (of_nat (page_count p) :: u16))]
   = (page_prefix p @ replicate 20 0) @ replicate 4064 0"
proof -
  have "write_fields (replicate 4096 (0 :: u8))
     [(0, to_be (page_id p)), (8, [if is_leaf_page p then 1 else 0]),
      (9, [if is_root p then 1 else 0]), (10, to_be (of_nat (page_count p) :: u16))]
     = page_prefix p @ replicate (20 + 4064) 0"
    by (subst write_fields_contiguous [where n = 0])
      (simp_all add: byte_simps page_prefix_def)
  then show ?thesis by (simp only: replicate_add append_assoc)
qed

lemma page_checksum_eq:
  "page_checksum p = ucast (xor_checksum ((page_prefix p @ replicate 20 0) @ payload p))"
proof -
  have "replicate 20 (0 :: u8) = replicate 4 0 @ replicate 16 0"
    by (simp only: replicate_add [symmetric]) simp
  then show ?thesis
    by (cases p) (simp_all add: checksum_internal_def checksum_leaf_def page_prefix_def)
qed

lemma pack_eq:
  assumes "page_fits p"
  shows "pack p = Inr (page_image p)"
proof -
  let ?xs = "page_prefix p @ replicate 20 0"
  let ?n = "4064 - length (payload p)"
  have "pack_payload (?xs @ replicate 4064 0) p =
      Inr ((?xs @ payload p) @ replicate ?n 0, 32 + length (payload p))"
    by (rule pack_payload_append) (simp_all add: assms byte_simps)
  moreover have "take (32 + length (payload p)) ((?xs @ payload p) @ replicate ?n 0) = ?xs @ payload p"
    by (simp add: byte_simps)
  moreover have "blit ((?xs @ payload p) @ replicate ?n 0) 12 (to_be (page_checksum p)) = page_image p"
  proof -
    have "?xs @ payload p @ replicate ?n 0 =
        page_prefix p @ (replicate 4 0 @ replicate 16 0) @ payload p @ replicate ?n 0"
      by (simp only: replicate_add [symmetric]) simp
    then show ?thesis
      by (simp add: blit_append_exact byte_simps page_image_def)
  qed
  ultimately show ?thesis
    unfolding pack_def write_prefix Let_def by (simp del: append_assoc add: page_checksum_eq)
qed

lemma length_page_image: "page_fits p \<Longrightarrow> length (page_image p) = 4096"
  using length_payload_le [of p] by (simp add: page_image_def byte_simps)

lemma pack_refuses:
  assumes "\<not> page_fits p"
  shows "\<exists>f. pack p = Inl (Err (InvalidHeader f))"
proof -
  have "Suc 0 < length cs \<longleftrightarrow> cs \<noteq> [] \<and> length cs \<noteq> Suc 0" for cs :: "u64 list"
    by (cases cs) auto
  with assms show ?thesis by (cases p) (auto simp: pack_def Let_def page_consts)
qed

lemma pack_Inr_iff: "pack p = Inr bs \<longleftrightarrow> page_fits p \<and> bs = page_image p"
  using pack_refuses [of p] by (cases "page_fits p") (auto simp: pack_eq)

subsection \<open>Reading an image\<close>

lemma extract_array_append:
  "length xs = off \<Longrightarrow> length ys = n \<Longrightarrow> extract_array n (xs @ ys @ zs) off field = Inr ys"
  by (simp add: extract_array_def Let_def)

lemma read_ids_append:
  assumes "length xs = off" "off + 8 * length ks \<le> 4096"
  shows "read_ids (xs @ concat (map to_be ks) @ zs) off (length ks) field =
    Inr (ks, off + 8 * length ks)"
  using assms
proof (induction ks arbitrary: xs off)
  case Nil
  then show ?case by simp
next
  case (Cons k ks)
  then have "read_ids ((xs @ to_be k) @ concat (map to_be ks) @ zs) (off + 8) (length ks) field =
      Inr (ks, off + 8 + 8 * length ks)"
    by (intro Cons.IH) (simp_all add: byte_simps)
  with Cons.prems show ?case
    by (simp add: extract_array_append byte_simps)
qed

lemma read_entries_append:
  assumes "length xs = off" "off + 16 * length es \<le> 4096"
  shows "read_entries (xs @ concat (map (\<lambda>(n, p). to_be n @ to_be p) es) @ zs) off (length es) =
    Inr (es, off + 16 * length es)"
  using assms
proof (induction es arbitrary: xs off)
  case Nil
  then show ?case by simp
next
  case (Cons e es)
  obtain a b where e: "e = (a, b)" by fastforce
  let ?rest = "concat (map (\<lambda>(n, p). to_be n @ to_be p) es) @ zs"
  from Cons.prems have "read_entries ((xs @ to_be a @ to_be b) @ ?rest) (off + 16) (length es) =
      Inr (es, off + 16 + 16 * length es)"
    by (intro Cons.IH) (simp_all add: byte_simps)
  moreover have "extract_array 8 (xs @ to_be a @ to_be b @ ?rest) off ''node_id'' = Inr (to_be a)"
    "extract_array 8 (xs @ to_be a @ to_be b @ ?rest) (off + 8) ''page_id'' = Inr (to_be b)"
    using Cons.prems extract_array_append [of "xs @ to_be a" "off + 8" "to_be b" 8 ?rest]
    by (simp_all add: extract_array_append byte_simps)
  ultimately show ?case using Cons.prems by (simp add: e ENTRY_SIZE_def add.assoc)
qed

lemma extract_array_slice:
  "off + n \<le> length bs \<Longrightarrow> extract_array n bs off field = Inr (slice bs off n)"
  by (simp add: extract_array_def Let_def)

lemma page_image_fields:
  assumes "page_fits p"
  shows "slice (page_image p @ zs) 0 8 = to_be (page_id p)"
    "(page_image p @ zs) ! 8 = (if is_leaf_page p then 1 else 0)"
    "(page_image p @ zs) ! 9 = (if is_root p then 1 else 0)"
    "slice (page_image p @ zs) 10 2 = to_be (of_nat (page_count p) :: u16)"
    "slice (page_image p @ zs) 12 4 = to_be (page_checksum p)"
    "\<exists>xs ys. length xs = 32 \<and> page_image p @ zs = xs @ payload p @ ys"
proof -
  show "slice (page_image p @ zs) 0 8 = to_be (page_id p)"
    by (simp add: page_image_def page_prefix_def byte_simps)
  have "(xs @ b # ys) ! n = b" if "length xs = n" for n xs b and ys :: bytes using that by auto
  note nth = this
  show "(page_image p @ zs) ! 8 = (if is_leaf_page p then 1 else 0)"
    using nth [of "to_be (page_id p)" 8] by (simp add: page_image_def page_prefix_def byte_simps)
  show "(page_image p @ zs) ! 9 = (if is_root p then 1 else 0)"
    using nth [of "to_be (page_id p) @ [if is_leaf_page p then 1 else 0]" 9]
    by (simp add: page_image_def page_prefix_def byte_simps)
  show "slice (page_image p @ zs) 10 2 = to_be (of_nat (page_count p) :: u16)"
    by (simp add: page_image_def page_prefix_def byte_simps)
  show "slice (page_image p @ zs) 12 4 = to_be (page_checksum p)"
    by (simp add: page_image_def byte_simps)
  show "\<exists>xs ys. length xs = 32 \<and> page_image p @ zs = xs @ payload p @ ys"
    by (rule exI [of _ "page_prefix p @ to_be (page_checksum p) @ replicate 16 0"])
      (simp add: page_image_def byte_simps)
qed

lemma unpack_page_image:
  assumes "page_shaped p"
  shows "unpack (page_image p @ zs) = Inr (with_checksum p)"
proof (cases p)
  case (Internal pid ks cs ck root)
  from assms Internal have fits: "page_fits p" and len: "length ks \<le> 252" "length cs = length ks + 1"
    by (auto simp: page_consts)
  note fields = page_image_fields [OF fits, of zs]
  from fields(6) obtain xs ys where xs: "length xs = 32" "page_image p @ zs = xs @ payload p @ ys"
    by blast
  have "read_ids (page_image p @ zs) 32 (length ks) ''key'' = Inr (ks, 32 + 8 * length ks)"
    using read_ids_append [of xs 32 ks "concat (map to_be cs) @ ys"] xs len Internal by simp
  moreover have "read_ids (page_image p @ zs) (32 + 8 * length ks) (length ks + 1) ''child''
      = Inr (cs, 32 + 8 * length ks + 8 * length cs)"
    using read_ids_append [of "xs @ concat (map to_be ks)" "32 + 8 * length ks" cs ys] xs len Internal
    by (simp add: byte_simps)
  ultimately show ?thesis
    using fields len Internal length_page_image [OF fits]
    by (simp add: unpack_def extract_array_slice unat_of_nat_u16 DATA_START_OFFSET_def)
next
  case (Leaf pid es nxt ck root)
  from assms Leaf have fits: "page_fits p" and len: "length es \<le> 252"
    by (auto simp: page_consts)
  note fields = page_image_fields [OF fits, of zs]
  from fields(6) obtain xs ys where xs: "length xs = 32" "page_image p @ zs = xs @ payload p @ ys"
    by blast
  have "read_entries (page_image p @ zs) 32 (length es) = Inr (es, 32 + 16 * length es)"
    using read_entries_append [of xs 32 es "to_be nxt @ ys"] xs len Leaf by simp
  moreover have "extract_array 8 (page_image p @ zs) (32 + 16 * length es) ''next_leaf''
      = Inr (to_be nxt)"
    using extract_array_append [of "xs @ concat (map (\<lambda>(n, p). to_be n @ to_be p) es)"
        "32 + 16 * length es" "to_be nxt" 8 ys] xs Leaf
    by (simp add: byte_simps)
  ultimately show ?thesis
    using fields len Leaf length_page_image [OF fits]
    by (simp add: unpack_def extract_array_slice unat_of_nat_u16 DATA_START_OFFSET_def)
qed

lemma unpack_pack:
  "page_shaped p \<Longrightarrow> pack p = Inr bs \<Longrightarrow> unpack bs = Inr (with_checksum p)"
  using unpack_page_image [of p "[]"] by (simp add: pack_Inr_iff)

text \<open>The stored checksum of a page plays no part in its contents.\<close>

lemma page_shaped_fits: "page_shaped p \<Longrightarrow> page_fits p"
  by (cases p) auto

lemma with_checksum_simps [simp]:
  "page_id (with_checksum p) = page_id p" "is_root (with_checksum p) = is_root p"
  "page_shaped (with_checksum p) = page_shaped p" "page_fits (with_checksum p) = page_fits p"
  "with_checksum (with_checksum p) = with_checksum p"
  by (cases p; simp)+

lemma page_image_with_checksum [simp]: "page_image (with_checksum p) = page_image p"
  by (cases p) (simp_all add: page_image_def page_prefix_def)

text \<open>An internal page without keys and children is written, but read back with one child, page 0.\<close>

lemma unpack_empty_internal:
  assumes "pack (new_internal pid) = Inr bs"
  shows "unpack bs = Inr (Internal pid [] [0] (checksum_internal pid [] [] False) False)"
proof -
  let ?p = "Internal pid [] [0] 0 False"
  have 8: "to_be (0 :: u64) = replicate 8 0"
    by (simp add: to_be_def to_le_def map_replicate_const)
  have "xor_index 32 8 = 0" by (simp add: xor_index_numeral)
  then have "xor_index 0 40 = xor_index 0 32" using xor_index_add [of 0 32 8] by simp
  then have ck: "checksum_internal pid [] [0] False = checksum_internal pid [] [] False"
    by (simp add: checksum_internal_def xor_checksum_eq byte_simps 8)
  have "replicate 4064 (0 :: u8) = replicate 8 0 @ replicate 4056 0"
    by (simp only: replicate_add [symmetric]) simp
  then have "page_image (new_internal pid) = page_image ?p"
    by (simp add: page_image_def new_internal_def page_prefix_def ck 8)
  with assms unpack_page_image [of ?p "[]"] show ?thesis
    by (simp add: pack_Inr_iff ck page_consts)
qed

subsection \<open>Properties\<close>

text \<open>
  \<open>pack\<close> accepts a page exactly when it is within capacity and an internal page has one child more
  than keys (or is empty); the image is 4096 bytes.
\<close>

theorem pack_accepts:
  "(\<exists>bs. pack p = Inr bs) = page_fits p \<and> (pack p = Inr bs) = (page_fits p \<and> bs = page_image p)"
  by (auto simp: pack_Inr_iff)

text \<open>
  C12. A page that \<open>pack\<close> writes is read back by \<open>unpack\<close> with the same id, keys, children or entries,
  next leaf and root flag, and with the checksum of its contents: the checksum computed over the image
  agrees with the one computed over the decoded page.
\<close>

theorem index_page_roundtrip:
  assumes "page_shaped p"
  shows "\<exists>bs. pack p = Inr bs \<and> length bs = 4096 \<and> unpack (bs @ zs) = Inr (with_checksum p)"
  using unpack_page_image [OF assms] length_page_image [OF page_shaped_fits [OF assms]]
  by (simp add: pack_eq page_shaped_fits [OF assms])

lemma index_page_roundtrip_witness:
  "\<exists>bs. pack (Internal 9 [10, 20] [2, 3, 4] 0 True) = Inr bs \<and> length bs = 4096 \<and>
     unpack (bs @ []) = Inr (with_checksum (Internal 9 [10, 20] [2, 3, 4] 0 True))"
  by (rule index_page_roundtrip) (simp add: page_consts)

text \<open>
  On sorted separators, \<open>find_child_index\<close> selects the child between the last separator at or below
  the key and the first one above it.
\<close>

theorem find_child_index_correct:
  assumes "sorted_wrt (<) ks"
  shows "find_child_index ks t \<le> length ks \<and> (\<forall>i. i < find_child_index ks t \<longrightarrow> ks ! i \<le> t) \<and>
    (\<forall>i. find_child_index ks t \<le> i \<and> i < length ks \<longrightarrow> t < ks ! i)"
  using find_child_index_eq [OF assms, where t = t] by blast

lemma find_child_index_correct_witness:
  "find_child_index [10, 20, 30] (20 :: u64) \<le> length [10, 20, 30 :: u64] \<and>
   find_child_index [10, 20, 30] (20 :: u64) = 2"
proof
  show "find_child_index [10, 20, 30] (20 :: u64) \<le> length [10, 20, 30 :: u64]"
    using find_child_index_correct [of "[10, 20, 30]" 20] by simp
  show "find_child_index [10, 20, 30] (20 :: u64) = 2" by code_simp
qed

end
