(* ===== verification/Allocator.thy ===== *)
theory Allocator
  imports Header_V3
begin

text \<open>
  The page allocator (\<open>v3/allocator.rs\<close>): a bitmap of the pages in use, a stack of the pages given
  back, and the number of pages of the file. The locale \<open>page_pool\<close> is the contract the clients of
  the allocator rely on; the model is an interpretation of it. The trace relation \<open>alloc_run\<close> adds
  the set of pages a client holds, so that "no page is handed out twice" can be stated.
\<close>

subsection \<open>The contract of a page allocator\<close>

locale page_pool =
  fixes good :: "'s \<Rightarrow> bool"
    and live :: "'s \<Rightarrow> u64 set"
    and room :: "'s \<Rightarrow> bool"
    and alloc :: "('s, u64) action"
    and free :: "u64 \<Rightarrow> ('s, unit) action"
  assumes alloc_fresh: "good s \<Longrightarrow> room s \<Longrightarrow>
      \<exists>p s'. alloc s = (Inr p, s') \<and> p \<noteq> 0 \<and> p \<notin> live s \<and> live s' = insert p (live s) \<and> good s'"
    and free_live: "good s \<Longrightarrow> p \<in> live s \<Longrightarrow> p \<noteq> 0 \<Longrightarrow>
      \<exists>s'. free p s = (Inr (), s') \<and> live s' = live s - {p} \<and> room s' \<and> good s'"
    and free_dead: "good s \<Longrightarrow> p \<notin> live s \<Longrightarrow>
      \<exists>e s'. free p s = (Inl e, s') \<and> live s' = live s \<and> good s'"
    and reuse: "good s \<Longrightarrow> free p s = (Inr (), s') \<Longrightarrow> fst (alloc s') = Inr p"
begin

lemma allocD:
  assumes "good s" "room s" "alloc s = (r, s')"
  shows "\<exists>p. r = Inr p \<and> p \<noteq> 0 \<and> p \<notin> live s \<and> live s' = insert p (live s) \<and> good s'"
  using alloc_fresh [OF assms(1,2)] assms(3) by auto

lemma freeD:
  assumes "good s" "p \<noteq> 0" "free p s = (Inr u, s')"
  shows "p \<in> live s \<and> live s' = live s - {p} \<and> room s' \<and> good s'"
  using free_live [OF assms(1)] free_dead [OF assms(1)] assms(2,3)
  by (metis Inl_Inr_False Pair_inject)

lemma double_free:
  assumes "good s" "p \<noteq> 0" "free p s = (Inr u, s')"
  shows "\<exists>e s''. free p s' = (Inl e, s'')"
  using freeD [OF assms] free_dead [of s' p] by blast

lemma good_free: "good s \<Longrightarrow> p \<noteq> 0 \<Longrightarrow> good (snd (free p s))"
  using free_live [of s p] free_dead [of s p] by fastforce

lemma alloc_free_live:
  assumes "good s" "room s" "alloc s = (Inr p, s')"
  shows "\<exists>s''. free p s' = (Inr (), s'') \<and> live s'' = live s"
proof -
  from allocD [OF assms] have "p \<noteq> 0" "p \<notin> live s" "live s' = insert p (live s)" "good s'" by auto
  with free_live [of s' p] show ?thesis by auto
qed

end

subsection \<open>State and operations\<close>

datatype page_state = Free | Allocated | Pinned

record page_allocator =
  bitmap :: "bool list"
  free_list :: "u64 list"
  al_total_pages :: u64

definition allocator_new :: "persistent_header_v3 \<Rightarrow> page_allocator" where
  "allocator_new header =
     \<lparr> bitmap = [True, True], free_list = [], al_total_pages = hdr_total_pages header \<rparr>"

definition allocate_inner :: "(page_allocator, u64) action" where
  "allocate_inner al =
     (if free_list al \<noteq> [] then
        let page_id = last (free_list al);
            page_idx = unat page_id
        in (Inr page_id,
            al\<lparr> free_list := butlast (free_list al),
                bitmap := (if page_idx < length (bitmap al) then (bitmap al)[page_idx := True]
                           else bitmap al) \<rparr>)
      else
        let new_page_id = (if al_total_pages al < 2 then 2 else al_total_pages al);
            bm = (if length (bitmap al) \<le> unat new_page_id
                  then vec_resize (bitmap al) (unat new_page_id + 1024) False else bitmap al)
        in (Inr new_page_id,
            al\<lparr> bitmap := bm[unat new_page_id := True], al_total_pages := new_page_id + 1 \<rparr>))"

definition allocate :: "(page_allocator, u64) action" where
  "allocate = bindS allocate_inner returnS"

definition deallocate :: "u64 \<Rightarrow> (page_allocator, unit) action" where
  "deallocate page_id al =
     (if page_id = 0 then (Inl (Err (InvalidHeader ''page_id'')), al)
      else
        let page_idx = unat page_id;
            bm = (if length (bitmap al) \<le> page_idx then vec_resize (bitmap al) (page_idx + 1) False
                  else bitmap al)
        in if \<not> bm ! page_idx then (Inl (Err CorruptionDetected), al\<lparr> bitmap := bm \<rparr>)
           else (Inr (), al\<lparr> bitmap := bm[page_idx := False],
                             free_list := free_list al @ [page_id] \<rparr>))"

definition get_page_state :: "page_allocator \<Rightarrow> u64 \<Rightarrow> page_state result" where
  "get_page_state al page_id =
     (if page_id = 0 then Inr Allocated
      else
        let page_idx = unat page_id
        in if unat (al_total_pages al) \<le> page_idx then Inl (Err (InvalidHeader ''page_id''))
           else if length (bitmap al) \<le> page_idx then Inr Free
           else if bitmap al ! page_idx then Inr Allocated else Inr Free)"

definition pin_page :: "u64 \<Rightarrow> (page_allocator, unit) action" where
  "pin_page page_id al =
     (bindR (get_page_state al page_id) (\<lambda>state.
        if state = Free then Inl (Err (InvalidHeader ''page_state'')) else Inr ()), al)"

definition unpin_page :: "u64 \<Rightarrow> (page_allocator, unit) action" where
  "unpin_page page_id al = (bindR (get_page_state al page_id) (\<lambda>_. Inr ()), al)"

definition allocator_stats :: "page_allocator \<Rightarrow> u64 \<times> u64 \<times> u64" where
  "allocator_stats al =
     (of_nat (length (filter (\<lambda>x. x) (bitmap al))), of_nat (length (free_list al)),
      al_total_pages al)"

definition free_list_head :: "page_allocator \<Rightarrow> u64" where
  "free_list_head al = (if free_list al = [] then 0 else last (free_list al))"

definition page_offset :: "u64 \<Rightarrow> u64 result" where
  "page_offset page_id =
     (if page_id = 0 then Inr 0
      else Inr (of_nat V3_HEADER_SIZE + (page_id - 1) * of_nat DEFAULT_PAGE_SIZE))"

definition validate_checksum :: "bytes \<Rightarrow> u64 \<Rightarrow> unit result" where
  "validate_checksum page_data stored_checksum =
     (let calculated = xor_checksum page_data
      in if calculated \<noteq> stored_checksum then Inl (Err (InvalidChecksum stored_checksum calculated))
         else Inr ())"

record free_page_header =
  next_free :: u64
  fp_checksum :: u64

definition FreePageHeader_SIZE :: nat where
  "FreePageHeader_SIZE = 16"

definition free_page_new :: "u64 \<Rightarrow> free_page_header" where
  "free_page_new next = \<lparr> next_free = next, fp_checksum = 0 \<rparr>"

definition free_page_to_bytes :: "free_page_header \<Rightarrow> bytes" where
  "free_page_to_bytes h = write_fields (replicate FreePageHeader_SIZE 0)
     [(0, to_le (next_free h)), (8, to_le (fp_checksum h))]"

definition free_page_from_bytes :: "bytes \<Rightarrow> free_page_header option" where
  "free_page_from_bytes bs =
     (if length bs < FreePageHeader_SIZE then None
      else Some \<lparr> next_free = from_le (slice bs 0 8), fp_checksum = from_le (slice bs 8 8) \<rparr>)"

definition free_page_checksum :: "free_page_header \<Rightarrow> u64" where
  "free_page_checksum h = xor_checksum (to_le (next_free h))"

subsection \<open>The invariant\<close>

text \<open>
  \<open>live_pages\<close> are the pages the bitmap marks as used. In a good state the free list holds
  distinct pages that the bitmap marks as free, and a used page other than the two reserved ones
  lies below the page count.
\<close>

definition live_pages :: "page_allocator \<Rightarrow> u64 set" where
  "live_pages al = {p. unat p < length (bitmap al) \<and> bitmap al ! unat p}"

definition allocator_inv :: "page_allocator \<Rightarrow> bool" where
  "allocator_inv al \<longleftrightarrow>
     2 \<le> length (bitmap al) \<and> distinct (free_list al) \<and> 0 \<in> live_pages al \<and>
     (\<forall>p \<in> set (free_list al). p \<noteq> 0 \<and> unat p < length (bitmap al) \<and> p \<notin> live_pages al \<and>
        (2 \<le> p \<longrightarrow> p < al_total_pages al)) \<and>
     (\<forall>p \<in> live_pages al. 2 \<le> p \<longrightarrow> p < al_total_pages al)"

text \<open>There is room as long as a page was given back or the page count can still grow.\<close>

definition has_room :: "page_allocator \<Rightarrow> bool" where
  "has_room al \<longleftrightarrow> free_list al \<noteq> [] \<or> al_total_pages al \<noteq> - 1"

lemma allocator_inv_new [simp]: "allocator_inv (allocator_new header)"
proof -
  have "p < 2 \<or> \<not> unat p < 2" for p :: u64 by (auto simp: word_less_nat_alt)
  then show ?thesis
    by (auto simp: allocator_inv_def allocator_new_def live_pages_def not_less [symmetric]
        word_less_nat_alt)
qed

lemma allocate_eq: "allocate al = allocate_inner al"
  by (cases "allocate_inner al", cases "fst (allocate_inner al)")
    (auto simp: allocate_def returnS_def bindS_def)

lemma unat_inject [simp]: "unat (p :: u64) = unat q \<longleftrightarrow> p = q"
  by (simp add: word_unat_eq_iff)

lemma mem_live_pages:
  "p \<in> live_pages al \<longleftrightarrow> unat p < length (bitmap al) \<and> bitmap al ! unat p"
  by (simp add: live_pages_def)

lemma allocator_invI:
  assumes "2 \<le> length (bitmap al)" "distinct (free_list al)" "0 \<in> live_pages al"
    and "\<And>p. p \<in> set (free_list al) \<Longrightarrow> p \<noteq> 0 \<and> unat p < length (bitmap al) \<and> p \<notin> live_pages al"
    and "\<And>p. p \<in> set (free_list al) \<or> p \<in> live_pages al \<Longrightarrow> 2 \<le> p \<Longrightarrow> p < al_total_pages al"
  shows "allocator_inv al"
  using assms unfolding allocator_inv_def by blast

lemma allocator_invD:
  assumes "allocator_inv al"
  shows "2 \<le> length (bitmap al)" "distinct (free_list al)" "0 \<in> live_pages al"
    "p \<in> set (free_list al) \<Longrightarrow> p \<noteq> 0 \<and> unat p < length (bitmap al) \<and> p \<notin> live_pages al"
    "p \<in> set (free_list al) \<or> p \<in> live_pages al \<Longrightarrow> 2 \<le> p \<Longrightarrow> p < al_total_pages al"
  using assms unfolding allocator_inv_def by auto

lemma allocate_reuses:
  assumes inv: "allocator_inv al" and fl: "free_list al \<noteq> []"
  defines "p \<equiv> last (free_list al)"
  shows "\<exists>al'. allocate al = (Inr p, al') \<and> p \<noteq> 0 \<and> p \<notin> live_pages al \<and>
    live_pages al' = insert p (live_pages al) \<and> allocator_inv al'"
proof -
  let ?al = "al\<lparr> free_list := butlast (free_list al), bitmap := (bitmap al)[unat p := True] \<rparr>"
  have in_set: "p \<in> set (free_list al)" using fl by (simp add: p_def)
  note p = allocator_invD(4) [OF inv in_set] and less = allocator_invD(5) [OF inv]
  have snoc: "free_list al = butlast (free_list al) @ [p]" using fl by (simp add: p_def)
  then have dist: "distinct (butlast (free_list al))" "p \<notin> set (butlast (free_list al))"
    using allocator_invD(2) [OF inv] by (metis distinct_append not_distinct_conv_prefix)+
  have live: "live_pages ?al = insert p (live_pages al)"
    using p by (auto simp: live_pages_def nth_list_update)
  have "allocator_inv ?al"
  proof (rule allocator_invI)
    show "q \<noteq> 0 \<and> unat q < length (bitmap ?al) \<and> q \<notin> live_pages ?al"
      if "q \<in> set (free_list ?al)" for q
      using that dist allocator_invD(4) [OF inv, of q] unfolding live
      by (auto dest: in_set_butlastD)
    show "q < al_total_pages ?al" if "q \<in> set (free_list ?al) \<or> q \<in> live_pages ?al" "2 \<le> q" for q
      using that less [of q] in_set unfolding live by (auto dest: in_set_butlastD)
  qed (use allocator_invD(1-3) [OF inv] dist in \<open>simp_all add: live\<close>)
  moreover have "allocate al = (Inr p, ?al)"
    using fl p by (simp add: allocate_eq allocate_inner_def p_def [symmetric] Let_def)
  ultimately show ?thesis using p live by auto
qed

lemma less_add_one_u64: "p \<noteq> - 1 \<Longrightarrow> q \<le> p \<Longrightarrow> q < p + 1" for p q :: u64
proof -
  assume "p \<noteq> - 1" and le: "q \<le> p"
  then have "1 + p \<noteq> 0" by (metis add.commute add_eq_0_iff)
  then have "unat (p + 1) = Suc (unat p)" by (simp add: unatSuc add.commute)
  with le show ?thesis by (simp add: word_less_nat_alt word_le_nat_alt)
qed

lemma allocate_extends:
  assumes inv: "allocator_inv al" and fl: "free_list al = []" and room: "al_total_pages al \<noteq> - 1"
  defines "p \<equiv> (if al_total_pages al < 2 then 2 else al_total_pages al)"
  shows "\<exists>al'. allocate al = (Inr p, al') \<and> p \<noteq> 0 \<and> p \<notin> live_pages al \<and>
    live_pages al' = insert p (live_pages al) \<and> allocator_inv al' \<and> al_total_pages al' = p + 1"
proof -
  let ?bm = "if length (bitmap al) \<le> unat p then vec_resize (bitmap al) (unat p + 1024) False
             else bitmap al"
  let ?al = "al\<lparr> bitmap := ?bm[unat p := True], al_total_pages := p + 1 \<rparr>"
  have two: "2 \<le> p" by (auto simp: p_def not_less)
  then have p: "p \<noteq> 0" by auto
  have "p \<noteq> - 1" using room by (auto simp: p_def)
  note less = less_add_one_u64 [OF this]
  have new: "p \<notin> live_pages al"
    using allocator_invD(5) [OF inv, of p] two by (auto simp: p_def split: if_splits)
  have len: "unat p < length ?bm" "length (bitmap al) \<le> length ?bm" by auto
  have same: "?bm ! i \<longleftrightarrow> i < length (bitmap al) \<and> bitmap al ! i" if "i < length ?bm" for i
    using that by (auto simp: nth_vec_resize split: if_splits)
  have live: "live_pages ?al = insert p (live_pages al)"
    using len same by (auto simp: live_pages_def nth_list_update)
  have old: "q < p + 1" if "q \<in> live_pages al" "2 \<le> q" for q
  proof (rule less)
    from allocator_invD(5) [OF inv, of q] that have "q < al_total_pages al" by simp
    then show "q \<le> p" by (auto simp: p_def split: if_splits)
  qed
  have "allocator_inv ?al"
  proof (rule allocator_invI)
    show "q < al_total_pages ?al" if "q \<in> set (free_list ?al) \<or> q \<in> live_pages ?al" "2 \<le> q" for q
      using that old [of q] less [of p] fl unfolding live by auto
  qed (use allocator_invD(1,3) [OF inv] len fl in \<open>simp_all add: live\<close>)
  moreover have "allocate al = (Inr p, ?al)"
    using fl by (simp add: allocate_eq allocate_inner_def p_def [symmetric] Let_def)
  ultimately show ?thesis using p new live by auto
qed

lemma allocate_fresh:
  assumes "allocator_inv al" "has_room al"
  shows "\<exists>p al'. allocate al = (Inr p, al') \<and> p \<noteq> 0 \<and> p \<notin> live_pages al \<and>
    live_pages al' = insert p (live_pages al) \<and> allocator_inv al'"
proof (cases "free_list al = []")
  case True
  with assms(2) have "al_total_pages al \<noteq> - 1" by (simp add: has_room_def)
  from allocate_extends [OF assms(1) True this] show ?thesis by blast
next
  case False
  from allocate_reuses [OF assms(1) this] show ?thesis by blast
qed

lemma unat_add_one_le: "unat (x + 1 :: u64) \<le> Suc (unat x)"
  by (cases "1 + x = 0") (simp_all add: add.commute unatSuc)

lemma allocate_in_range:
  assumes "allocator_inv al" "\<forall>p \<in> live_pages al \<union> set (free_list al). unat p \<le> m"
    and "max 2 (unat (al_total_pages al)) + Suc n \<le> m + 1" "m < 2 ^ 64 - 1"
  shows "\<exists>p al'. allocate al = (Inr p, al') \<and> p \<noteq> 0 \<and> p \<notin> live_pages al \<and>
    live_pages al' = insert p (live_pages al) \<and> allocator_inv al' \<and>
    set (free_list al') \<subseteq> set (free_list al) \<and> unat p \<le> m \<and>
    max 2 (unat (al_total_pages al')) \<le> Suc (max 2 (unat (al_total_pages al)))"
proof (cases "free_list al = []")
  case True
  have "unat (- 1 :: u64) = 2 ^ 64 - 1"
    by (simp add: unsigned_minus_1_eq_mask mask_eq_exp_minus_1)
  with assms(3,4) have "al_total_pages al \<noteq> - 1" by auto
  note a = allocate_extends [OF assms(1) True this]
  have 2: "(if al_total_pages al < 2 then 2 else al_total_pages al) = max 2 (al_total_pages al)"
    by (auto simp: max_def not_le not_less)
  have m: "unat (max 2 (al_total_pages al)) = max 2 (unat (al_total_pages al))"
    by (auto simp: max_def word_le_nat_alt)
  have "unat (max 2 (al_total_pages al) + 1) \<le> Suc (unat (max 2 (al_total_pages al)))"
    by (rule unat_add_one_le)
  let ?q = "max 2 (al_total_pages al)"
  from a obtain al' where al': "allocate al = (Inr ?q, al')" "?q \<noteq> 0" "?q \<notin> live_pages al"
    "live_pages al' = insert ?q (live_pages al)" "allocator_inv al'" "al_total_pages al' = ?q + 1"
    unfolding 2 by blast
  have "free_list al' = []"
    using al'(1) True by (auto simp: allocate_eq allocate_inner_def Let_def)
  moreover have "unat ?q \<le> m" unfolding m using assms(3) by linarith
  moreover have "max 2 (unat (?q + 1)) \<le> Suc (max 2 (unat (al_total_pages al)))"
    using \<open>unat (?q + 1) \<le> Suc (unat ?q)\<close> unfolding m by simp
  ultimately show ?thesis using al' by (intro exI [of _ ?q] exI [of _ al']) simp
next
  case False
  from allocate_reuses [OF assms(1) this]
  obtain al' where al': "allocate al = (Inr (last (free_list al)), al')" "last (free_list al) \<noteq> 0"
    "last (free_list al) \<notin> live_pages al" "allocator_inv al'"
    "live_pages al' = insert (last (free_list al)) (live_pages al)" by blast
  have "free_list al' = butlast (free_list al)" "al_total_pages al' = al_total_pages al"
    using al'(1) False by (auto simp: allocate_eq allocate_inner_def Let_def)
  moreover have "unat (last (free_list al)) \<le> m" using assms(2) False by auto
  ultimately show ?thesis using al' by (auto dest: in_set_butlastD)
qed

lemma deallocate_live:
  assumes inv: "allocator_inv al" and p: "p \<in> live_pages al" "p \<noteq> 0"
  shows "\<exists>al'. deallocate p al = (Inr (), al') \<and> live_pages al' = live_pages al - {p} \<and>
    has_room al' \<and> allocator_inv al' \<and> free_list al' = free_list al @ [p]"
proof -
  let ?al = "al\<lparr> bitmap := (bitmap al)[unat p := False], free_list := free_list al @ [p] \<rparr>"
  have live: "live_pages ?al = live_pages al - {p}"
  proof (rule set_eqI)
    show "q \<in> live_pages ?al \<longleftrightarrow> q \<in> live_pages al - {p}" for q
      by (cases "q = p") (auto simp: mem_live_pages)
  qed
  have "allocator_inv ?al"
  proof (rule allocator_invI)
    show "q \<noteq> 0 \<and> unat q < length (bitmap ?al) \<and> q \<notin> live_pages ?al"
      if "q \<in> set (free_list ?al)" for q
      using that p allocator_invD(4) [OF inv, of q] unfolding live by (auto simp: mem_live_pages)
    show "q < al_total_pages ?al" if "q \<in> set (free_list ?al) \<or> q \<in> live_pages ?al" "2 \<le> q" for q
      using that p allocator_invD(5) [OF inv, of q] unfolding live by auto
  qed (use allocator_invD(1-3) [OF inv] allocator_invD(4) [OF inv, of p] p in \<open>simp_all only: live, auto\<close>)
  moreover have "deallocate p al = (Inr (), ?al)"
    using p by (simp add: deallocate_def mem_live_pages Let_def)
  ultimately show ?thesis using live by (auto simp: has_room_def)
qed

lemma deallocate_dead:
  assumes inv: "allocator_inv al" and dead: "p \<notin> live_pages al"
  shows "\<exists>al'. deallocate p al = (Inl (Err CorruptionDetected), al') \<and>
    live_pages al' = live_pages al \<and> allocator_inv al'"
proof -
  let ?bm = "if length (bitmap al) \<le> unat p then vec_resize (bitmap al) (unat p + 1) False
             else bitmap al"
  let ?al = "al\<lparr> bitmap := ?bm \<rparr>"
  have p: "p \<noteq> 0" using allocator_invD(3) [OF inv] dead by auto
  have same: "?bm ! i \<longleftrightarrow> i < length (bitmap al) \<and> bitmap al ! i" if "i < length ?bm" for i
    using that by (auto simp: nth_vec_resize split: if_splits)
  have len: "unat p < length ?bm" "length (bitmap al) \<le> length ?bm" by auto
  have live: "live_pages ?al = live_pages al"
    using same len by (auto simp: live_pages_def)
  have "allocator_inv ?al"
  proof (rule allocator_invI)
    show "q \<noteq> 0 \<and> unat q < length (bitmap ?al) \<and> q \<notin> live_pages ?al"
      if "q \<in> set (free_list ?al)" for q
      using that len allocator_invD(4) [OF inv, of q] unfolding live by auto
    show "q < al_total_pages ?al" if "q \<in> set (free_list ?al) \<or> q \<in> live_pages ?al" "2 \<le> q" for q
      using that allocator_invD(5) [OF inv, of q] unfolding live by auto
  qed (use allocator_invD(1-3) [OF inv] len in \<open>simp_all add: live\<close>)
  moreover have "deallocate p al = (Inl (Err CorruptionDetected), ?al)"
    using p dead same [OF len(1)] by (auto simp: deallocate_def mem_live_pages Let_def)
  ultimately show ?thesis using live by blast
qed

interpretation pages: page_pool allocator_inv live_pages has_room allocate deallocate
proof unfold_locales
  show "\<exists>p s'. allocate s = (Inr p, s') \<and> p \<noteq> 0 \<and> p \<notin> live_pages s \<and>
      live_pages s' = insert p (live_pages s) \<and> allocator_inv s'"
    if "allocator_inv s" "has_room s" for s
    using allocate_fresh [OF that] .
  show "\<exists>s'. deallocate p s = (Inr (), s') \<and> live_pages s' = live_pages s - {p} \<and> has_room s' \<and>
      allocator_inv s'" if "allocator_inv s" "p \<in> live_pages s" "p \<noteq> 0" for s p
    using deallocate_live [OF that] by blast
  show "\<exists>e s'. deallocate p s = (Inl e, s') \<and> live_pages s' = live_pages s \<and> allocator_inv s'"
    if "allocator_inv s" "p \<notin> live_pages s" for s p
    using deallocate_dead [OF that] by blast
  show "fst (allocate s') = Inr p" if "deallocate p s = (Inr (), s')" for s s' p
    using that by (auto simp: deallocate_def allocate_eq allocate_inner_def Let_def split: if_splits)
qed

subsection \<open>Runs of a client\<close>

text \<open>
  \<open>alloc_run header held al\<close>: from a new allocator a client allocated pages and gave some of them
  back, and \<open>held\<close> are those it holds. Failed calls and queries may come in between.
\<close>

inductive alloc_run :: "persistent_header_v3 \<Rightarrow> u64 set \<Rightarrow> page_allocator \<Rightarrow> bool" for header where
  start: "alloc_run header {} (allocator_new header)"
| take: "alloc_run header held al \<Longrightarrow> has_room al \<Longrightarrow> allocate al = (Inr p, al') \<Longrightarrow>
    alloc_run header (insert p held) al'"
| give: "alloc_run header held al \<Longrightarrow> p \<in> held \<Longrightarrow> deallocate p al = (r, al') \<Longrightarrow>
    alloc_run header (held - {p}) al'"
| refused: "alloc_run header held al \<Longrightarrow> deallocate p al = (Inl e, al') \<Longrightarrow>
    alloc_run header held al'"

lemma deallocate_zero: "deallocate 0 al = (Inl (Err (InvalidHeader ''page_id'')), al)"
  by (simp add: deallocate_def)

lemma live_pages_new: "live_pages (allocator_new header) = {0, 1}"
proof (rule set_eqI)
  fix p :: u64
  have "unat p < 2 \<longleftrightarrow> unat p = unat (0 :: u64) \<or> unat p = unat (1 :: u64)" by auto
  then have "unat p < 2 \<longleftrightarrow> p = 0 \<or> p = 1" by (simp only: unat_inject)
  moreover have "[True, True] ! i" if "i < 2" for i :: nat using that by (auto simp: less_2_cases_iff)
  ultimately show "p \<in> live_pages (allocator_new header) \<longleftrightarrow> p \<in> {0, 1}"
    by (auto simp: allocator_new_def live_pages_def numeral_2_eq_2)
qed

lemma alloc_run_inv:
  assumes "alloc_run header held al"
  shows "allocator_inv al \<and> held \<subseteq> live_pages al \<and> {0, 1} \<inter> held = {} \<and>
    live_pages al - held \<subseteq> {0, 1} \<and> {0, 1} \<subseteq> live_pages al"
  using assms
proof induction
  case start
  show ?case by (simp add: live_pages_new)
next
  case (take held al p al')
  then show ?case using pages.allocD [of al "Inr p" al'] by auto
next
  case (give held al p r al')
  then have "p \<in> live_pages al" "p \<noteq> 0" "p \<noteq> 1" by auto
  with give show ?case using pages.free_live [of al p] by auto
next
  case (refused held al p e al')
  show ?case
  proof (cases "p = 0")
    case True
    with refused show ?thesis by (simp add: deallocate_zero)
  next
    case False
    with refused have "p \<notin> live_pages al"
      using pages.free_live [of al p] by (metis Inl_Inr_False Pair_inject)
    with refused show ?thesis using deallocate_dead [of al p] by auto
  qed
qed

lemma live_pages_of_run:
  "alloc_run header held al \<Longrightarrow> live_pages al = insert 0 (insert 1 held)"
  using alloc_run_inv by fastforce

subsection \<open>The other operations\<close>

lemma get_page_state_live:
  assumes "allocator_inv al" "2 \<le> p"
  shows "get_page_state al p = Inr Allocated \<longleftrightarrow> p \<in> live_pages al"
  using assms allocator_invD(5) [of al p]
  by (auto simp: get_page_state_def Let_def mem_live_pages word_less_nat_alt not_le)

lemma page_offset_unat:
  assumes "p \<noteq> 0" "unat p \<le> 4503599627370495"
  shows "\<exists>off. page_offset p = Inr off \<and> unat off = 112 + (unat p - 1) * 4096"
proof -
  have 1: "unat (p - 1) = unat p - 1"
    using assms(1) by (simp add: unat_minus_one)
  have 2: "unat ((p - 1) * 4096) = (unat p - 1) * 4096"
    using assms(2) 1 by (subst unat_mult_lem [THEN iffD1]) auto
  have "unat (112 + (p - 1) * 4096) = 112 + (unat p - 1) * 4096"
    using assms(2) 2 by (subst unat_add_lem [THEN iffD1]) auto
  then show ?thesis
    using assms(1) by (simp add: page_offset_def V3_HEADER_SIZE_def DEFAULT_PAGE_SIZE_def)
qed

lemma free_page_to_bytes_layout:
  "free_page_to_bytes h = to_le (next_free h) @ to_le (fp_checksum h)"
  unfolding free_page_to_bytes_def
  by (subst write_fields_contiguous [where n = 0]) (simp_all add: byte_simps FreePageHeader_SIZE_def)

lemma free_page_from_to_bytes:
  "free_page_from_bytes (free_page_to_bytes h @ rest) = Some h"
  by (simp add: free_page_from_bytes_def free_page_to_bytes_layout byte_simps
      FreePageHeader_SIZE_def)

subsection \<open>Properties\<close>

text \<open>
  C39. No page is handed out twice: in every run of a client, a page that \<open>allocate\<close> returns is not one
  the client still holds, nor the header page 0 or the reserved page 1, and the call succeeds as long
  as there is room.
\<close>

theorem allocate_never_twice:
  assumes "alloc_run header held al" "has_room al" "allocate al = (r, al')"
  shows "\<exists>p. r = Inr p \<and> p \<notin> held \<and> p \<noteq> 0 \<and> p \<noteq> 1 \<and> alloc_run header (insert p held) al'"
proof -
  from alloc_run_inv [OF assms(1)] have inv: "allocator_inv al" "{0, 1} \<union> held \<subseteq> live_pages al"
    by auto
  from pages.allocD [OF inv(1) assms(2,3)] obtain p where "r = Inr p" "p \<notin> live_pages al" by blast
  with inv(2) assms show ?thesis by (auto intro: alloc_run.take)
qed

lemma allocate_never_twice_witness:
  "\<exists>p. fst (allocate (allocator_new new_v3)) = Inr p \<and> p \<notin> {} \<and> p \<noteq> 0 \<and> p \<noteq> 1 \<and>
     alloc_run new_v3 (insert p {}) (snd (allocate (allocator_new new_v3)))"
  by (rule allocate_never_twice [OF alloc_run.start])
    (simp_all add: has_room_def allocator_new_def new_v3_def)

text \<open>
  A page that a client holds can be given back; it is the next one to be handed out, and giving it
  back a second time is refused.
\<close>

theorem deallocate_then_reuse:
  assumes "alloc_run header held al" "p \<in> held"
  shows "\<exists>al'. deallocate p al = (Inr (), al') \<and> alloc_run header (held - {p}) al' \<and>
    fst (allocate al') = Inr p \<and> fst (deallocate p al') = Inl (Err CorruptionDetected)"
proof -
  from alloc_run_inv [OF assms(1)] assms(2) have inv: "allocator_inv al" "p \<in> live_pages al" "p \<noteq> 0"
    by auto
  obtain al' where al': "deallocate p al = (Inr (), al')" "live_pages al' = live_pages al - {p}"
    "allocator_inv al'" using pages.free_live [OF inv] by blast
  have "fst (deallocate p al') = Inl (Err CorruptionDetected)"
  proof -
    have "p \<notin> live_pages al'" using al'(2) by simp
    from deallocate_dead [OF al'(3) this] show ?thesis by force
  qed
  moreover have "fst (allocate al') = Inr p" by (rule pages.reuse [OF inv(1) al'(1)])
  moreover have "alloc_run header (held - {p}) al'" by (rule alloc_run.give [OF assms al'(1)])
  ultimately show ?thesis using al'(1) by blast
qed

lemma deallocate_then_reuse_witness:
  "\<exists>al'. deallocate 2 (snd (allocate (allocator_new new_v3))) = (Inr (), al') \<and>
     alloc_run new_v3 ({2} - {2}) al' \<and> fst (allocate al') = Inr 2 \<and>
     fst (deallocate 2 al') = Inl (Err CorruptionDetected)"
proof (rule deallocate_then_reuse)
  let ?al = "allocator_new new_v3"
  have "allocate ?al = (Inr 2, snd (allocate ?al))"
    by (simp add: allocate_eq allocate_inner_def allocator_new_def new_v3_def Let_def)
  moreover have "has_room ?al" by (simp add: has_room_def allocator_new_def new_v3_def)
  ultimately show "alloc_run new_v3 {2} (snd (allocate ?al))"
    using alloc_run.take [OF alloc_run.start] by metis
qed simp

text \<open>
  The bitmap query is right about a client's pages: above the reserved pages, \<open>get_page_state\<close>
  reports a page as allocated if and only if the client holds it.
\<close>

theorem get_page_state_held:
  assumes "alloc_run header held al" "2 \<le> p"
  shows "get_page_state al p = Inr Allocated \<longleftrightarrow> p \<in> held"
proof -
  have "\<not> (2 :: u64) \<le> 1" "\<not> (2 :: u64) \<le> 0" by (simp_all add: word_le_nat_alt)
  then have "p \<noteq> 0" "p \<noteq> 1" using assms(2) by metis+
  then show ?thesis
    using get_page_state_live [of al p] live_pages_of_run [OF assms(1)] alloc_run_inv [OF assms(1)] assms(2)
    by auto
qed

lemma get_page_state_held_witness:
  "get_page_state (allocator_new new_v3) 5 = Inr Allocated \<longleftrightarrow> (5 :: u64) \<in> {}"
  by (rule get_page_state_held [OF alloc_run.start]) simp

text \<open>
  Pages do not overlap in the file: the 4096 byte extents of two different data pages are
  disjoint, and none overlaps the 112 byte header.
\<close>

theorem page_extents_disjoint:
  assumes "p \<noteq> 0" "q \<noteq> 0" "p \<noteq> q" "unat p \<le> 4503599627370495" "unat q \<le> 4503599627370495"
  shows "\<exists>a b. page_offset p = Inr a \<and> page_offset q = Inr b \<and> 112 \<le> unat a \<and> 112 \<le> unat b \<and>
    (unat a + 4096 \<le> unat b \<or> unat b + 4096 \<le> unat a)"
proof -
  from assms have "unat p \<noteq> unat q" "0 < unat p" "0 < unat q" by (auto simp: unat_gt_0)
  moreover obtain a b where "page_offset p = Inr a" "unat a = 112 + (unat p - 1) * 4096"
    "page_offset q = Inr b" "unat b = 112 + (unat q - 1) * 4096"
    using page_offset_unat [OF assms(1,4)] page_offset_unat [OF assms(2,5)] by blast
  ultimately have "112 \<le> unat a" "112 \<le> unat b" "unat a + 4096 \<le> unat b \<or> unat b + 4096 \<le> unat a"
    by linarith+
  with \<open>page_offset p = Inr a\<close> \<open>page_offset q = Inr b\<close> show ?thesis by blast
qed

lemma page_extents_disjoint_witness:
  "\<exists>a b. page_offset 1 = Inr a \<and> page_offset 2 = Inr b \<and> 112 \<le> unat a \<and> 112 \<le> unat b \<and>
     (unat a + 4096 \<le> unat b \<or> unat b + 4096 \<le> unat a)"
  by (rule page_extents_disjoint) simp_all

end
