(* ===== verification/File_Store.thy ===== *)
theory File_Store
  imports Allocator
begin

text \<open>
  Files as byte sequences and the coordinator that serialises access to the database file
  (\<open>v3/file_coordinator.rs\<close>). Opening, seeking and syncing succeed; reading past the end of the file
  fails, writing past it extends it with zeros, as POSIX prescribes.
\<close>

subsection \<open>Files\<close>

definition file_write :: "bytes \<Rightarrow> nat \<Rightarrow> bytes \<Rightarrow> bytes" where
  "file_write f off bs = blit (vec_resize f (max (length f) (off + length bs)) 0) off bs"

definition file_read_exact :: "bytes \<Rightarrow> nat \<Rightarrow> nat \<Rightarrow> bytes result" where
  "file_read_exact f off n =
     (if off + n \<le> length f then Inr (slice f off n) else Inl (Err IoError))"

definition file_set_len :: "bytes \<Rightarrow> nat \<Rightarrow> bytes" where
  "file_set_len f n = vec_resize f n 0"

lemma length_file_write: "length (file_write f off bs) = max (length f) (off + length bs)"
  by (simp add: file_write_def)

lemma slice_file_write_same:
  "n = length bs \<Longrightarrow> slice (file_write f off bs) off n = bs"
  by (simp add: file_write_def slice_blit_same)

lemma slice_vec_resize:
  "off + n \<le> length f \<Longrightarrow> length f \<le> m \<Longrightarrow> slice (vec_resize f m v) off n = slice f off n"
  by (simp add: slice_def vec_resize_def)

lemma slice_file_write_other:
  assumes "off' + n \<le> length f" "off' + n \<le> off \<or> off + length bs \<le> off'"
  shows "slice (file_write f off bs) off' n = slice f off' n"
  using assms unfolding file_write_def
  by (auto simp: slice_blit_before slice_blit_after slice_vec_resize)

text \<open>Extending the file first changes nothing about the write.\<close>

lemma file_write_set_len:
  "length f < n \<Longrightarrow> n = off + length bs \<Longrightarrow> file_write (file_set_len f n) off bs = file_write f off bs"
  by (simp add: file_write_def file_set_len_def) (simp add: vec_resize_def)

subsection \<open>The file coordinator\<close>

record coordinated_file =
  co_file :: bytes
  cached_size :: u64

definition coordinator_create :: "bytes \<Rightarrow> coordinated_file" where
  "coordinator_create f = \<lparr> co_file = f, cached_size = of_nat (length f) \<rparr>"

definition co_page_offset :: "u64 \<Rightarrow> u64" where
  "co_page_offset page_id =
     (if page_id = 0 then 0
      else of_nat V3_HEADER_SIZE + (page_id - 1) * of_nat DEFAULT_PAGE_SIZE)"

definition co_write_page :: "u64 \<Rightarrow> bytes \<Rightarrow> (coordinated_file, unit) action" where
  "co_write_page page_id data co =
     (let offset = co_page_offset page_id;
          f = file_write (co_file co) (unat offset) data
      in (Inr (), co\<lparr> co_file := f, cached_size := of_nat (length f) \<rparr>))"

definition co_read_page :: "u64 \<Rightarrow> nat \<Rightarrow> coordinated_file \<Rightarrow> bytes result" where
  "co_read_page page_id n co =
     (let offset = co_page_offset page_id;
          required_len = offset + of_nat n
      in if cached_size co < required_len then Inl (Err IoError)
         else file_read_exact (co_file co) (unat offset) n)"

definition co_write_data_at_offset :: "u64 \<Rightarrow> bytes \<Rightarrow> (coordinated_file, unit) action" where
  "co_write_data_at_offset offset data co =
     (let required_len = offset + of_nat (length data);
          f = file_write (co_file co) (unat offset) data
      in (Inr (), co\<lparr> co_file := f,
             cached_size := (if cached_size co < required_len then required_len
                             else cached_size co) \<rparr>))"

definition co_file_size :: "coordinated_file \<Rightarrow> u64" where
  "co_file_size co = cached_size co"

subsection \<open>Where pages lie\<close>

text \<open>
  Page ids up to \<open>MAX_PAGE\<close> have an offset that fits 64 bits together with the page that follows.
\<close>

definition MAX_PAGE :: nat where "MAX_PAGE = 4503599627370495"

definition offset_of :: "u64 \<Rightarrow> nat" where
  "offset_of p = 112 + (unat p - 1) * 4096"

lemma unat_page_offset:
  assumes "p \<noteq> 0" "unat p \<le> MAX_PAGE"
  shows "unat (112 + (p - 1) * 4096) = offset_of p" "offset_of p + 4096 < 2 ^ 64"
proof -
  obtain off where "page_offset p = Inr off" "unat off = offset_of p"
    using page_offset_unat [OF assms(1)] assms(2) by (auto simp: MAX_PAGE_def offset_of_def)
  with assms(1) show "unat (112 + (p - 1) * 4096) = offset_of p"
    by (simp add: page_offset_def V3_HEADER_SIZE_def DEFAULT_PAGE_SIZE_def)
  show "offset_of p + 4096 < 2 ^ 64"
    using assms(2) by (simp add: offset_of_def MAX_PAGE_def)
qed

lemma unat_co_page_offset:
  "p \<noteq> 0 \<Longrightarrow> unat p \<le> MAX_PAGE \<Longrightarrow> unat (co_page_offset p) = offset_of p"
  using unat_page_offset [of p] by (simp add: co_page_offset_def V3_HEADER_SIZE_def DEFAULT_PAGE_SIZE_def)

lemma offset_of_disjoint:
  assumes "p \<noteq> 0" "q \<noteq> 0" "p \<noteq> q"
  shows "offset_of p + 4096 \<le> offset_of q \<or> offset_of q + 4096 \<le> offset_of p"
proof -
  from assms have "unat p \<noteq> unat q" "0 < unat p" "0 < unat q"
    by (auto simp: unat_gt_0)
  then show ?thesis unfolding offset_of_def by linarith
qed

text \<open>The page at an id of a file, when the file reaches that far.\<close>

definition page_at :: "bytes \<Rightarrow> u64 \<Rightarrow> bytes option" where
  "page_at f p =
     (if p = 0 \<or> MAX_PAGE < unat p \<or> length f < offset_of p + 4096 then None
      else Some (slice f (offset_of p) 4096))"

lemma page_at_file_write:
  assumes "p \<noteq> 0" "unat p \<le> MAX_PAGE" "length bs \<le> 4096"
  shows "length bs = 4096 \<Longrightarrow> page_at (file_write f (offset_of p) bs) p = Some bs"
    "q \<noteq> p \<Longrightarrow> page_at f q = Some x \<Longrightarrow> page_at (file_write f (offset_of p) bs) q = Some x"
proof -
  show "page_at (file_write f (offset_of p) bs) p = Some bs" if "length bs = 4096"
    using assms that by (simp add: page_at_def length_file_write slice_file_write_same)
  show "page_at (file_write f (offset_of p) bs) q = Some x"
    if "q \<noteq> p" "page_at f q = Some x"
  proof -
    from that have q: "q \<noteq> 0" "unat q \<le> MAX_PAGE" "offset_of q + 4096 \<le> length f"
      "x = slice f (offset_of q) 4096"
      by (auto simp: page_at_def split: if_splits)
    from offset_of_disjoint [OF assms(1) q(1)] that(1)
    have "slice (file_write f (offset_of p) bs) (offset_of q) 4096 = slice f (offset_of q) 4096"
      using q(3) assms(3) by (intro slice_file_write_other) auto
    with q show ?thesis by (simp add: page_at_def length_file_write)
  qed
qed

lemma length_file_write_page:
  assumes "p \<noteq> 0" "unat p \<le> MAX_PAGE" "length bs \<le> 4096" "length f < 2 ^ 64"
  shows "length (file_write f (offset_of p) bs) < 2 ^ 64"
  using assms unat_page_offset(2) [of p] by (simp add: length_file_write)

text \<open>
  The bytes a reader of a zeroed buffer finds at a page, whether or not the file reaches the end of it.
\<close>

definition zpage :: "bytes \<Rightarrow> u64 \<Rightarrow> bytes" where
  "zpage f p = vec_resize (slice f (offset_of p) 4096) 4096 0"

definition zbyte :: "bytes \<Rightarrow> nat \<Rightarrow> u8" where
  "zbyte f i = (if i < length f then f ! i else 0)"

lemma length_zpage [simp]: "length (zpage f p) = 4096"
  by (simp add: zpage_def)

lemma nth_zpage: "j < 4096 \<Longrightarrow> zpage f p ! j = zbyte f (offset_of p + j)"
  by (auto simp: zpage_def zbyte_def nth_vec_resize slice_def)

lemma zbyte_file_write:
  "zbyte (file_write f off bs) i = (if off \<le> i \<and> i < off + length bs then bs ! (i - off) else zbyte f i)"
proof -
  let ?g = "vec_resize f (max (length f) (off + length bs)) 0"
  have "zbyte ?g i = zbyte f i"
    by (auto simp: zbyte_def nth_vec_resize)
  moreover have "zbyte (blit ?g off bs) i =
      (if off \<le> i \<and> i < off + length bs then bs ! (i - off) else zbyte ?g i)"
    by (auto simp: zbyte_def nth_blit)
  ultimately show ?thesis by (simp add: file_write_def)
qed

lemma zpage_file_write_same:
  assumes "length bs \<le> 4096"
  shows "zpage (file_write f (offset_of p) bs) p = bs @ drop (length bs) (zpage f p)"
  using assms by (intro nth_equalityI) (auto simp: nth_zpage zbyte_file_write nth_append)

lemma zpage_file_write_other:
  assumes "p \<noteq> 0" "q \<noteq> 0" "q \<noteq> p" "length bs \<le> 4096"
  shows "zpage (file_write f (offset_of p) bs) q = zpage f q"
proof (intro nth_equalityI)
  fix j assume "j < length (zpage (file_write f (offset_of p) bs) q)"
  then show "zpage (file_write f (offset_of p) bs) q ! j = zpage f q ! j"
    using offset_of_disjoint [OF assms(2,1,3)] assms(4) by (auto simp: nth_zpage zbyte_file_write)
qed simp

lemma zpage_page_at: "page_at f p = Some bs \<Longrightarrow> zpage f p = bs"
  by (auto simp: page_at_def zpage_def vec_resize_def split: if_splits)

lemma co_write_page_eq:
  assumes "p \<noteq> 0" "unat p \<le> MAX_PAGE"
  shows "co_write_page p bs co = (Inr (), \<lparr> co_file = file_write (co_file co) (offset_of p) bs,
    cached_size = of_nat (length (file_write (co_file co) (offset_of p) bs)) \<rparr>)"
  using assms by (simp add: co_write_page_def unat_co_page_offset Let_def)

lemma co_read_page_eq:
  assumes "p \<noteq> 0" "unat p \<le> MAX_PAGE" "length (co_file co) < 2 ^ 64"
    "cached_size co = of_nat (length (co_file co))"
  shows "co_read_page p 4096 co =
    (case page_at (co_file co) p of None \<Rightarrow> Inl (Err IoError) | Some bs \<Rightarrow> Inr bs)"
proof -
  have "unat (co_page_offset p + 4096) = offset_of p + 4096"
    using assms(1,2) unat_page_offset(2) [of p]
    by (subst unat_add_lem [THEN iffD1]) (simp_all add: unat_co_page_offset)
  moreover have "unat (cached_size co) = length (co_file co)"
    using assms(3,4) by (simp add: unsigned_of_nat take_bit_nat_eq_self)
  ultimately have "cached_size co < co_page_offset p + 4096 \<longleftrightarrow> length (co_file co) < offset_of p + 4096"
    by (simp add: word_less_nat_alt)
  with assms show ?thesis
    by (simp add: co_read_page_def Let_def file_read_exact_def page_at_def unat_co_page_offset)
qed

end
