(* ===== verification/Btree_Store.thy ===== *)
theory Btree_Store
  imports Index_Page File_Store "HOL-Library.AList"
begin

text \<open>
  The state of the B+Tree manager and the way it reads and writes pages (\<open>BTreePageCache\<close>,
  \<open>load_page\<close> and \<open>write_page\<close> of \<open>v3/btree.rs\<close>): a bounded cache in front of the database file,
  reached directly or through the file coordinator. The locale \<open>page_store\<close> is the contract of a store
  of pages with an allocator; the interpretation shows that the cached file keeps it whatever the
  cache evicts.
\<close>

subsection \<open>The page cache\<close>

text \<open>
  The cache is a hash map, here an association list with one entry for each key; \<open>pc_first\<close> is the key
  that its iteration order lists first.
\<close>

record page_cache =
  pc_inner :: "(u64 \<times> index_page) list"
  pc_capacity :: nat
  pc_first :: "u64 list \<Rightarrow> u64"

definition cache_new :: "(u64 list \<Rightarrow> u64) \<Rightarrow> nat \<Rightarrow> page_cache" where
  "cache_new first capacity = \<lparr> pc_inner = [], pc_capacity = capacity, pc_first = first \<rparr>"

definition cache_with_default_capacity :: "(u64 list \<Rightarrow> u64) \<Rightarrow> page_cache" where
  "cache_with_default_capacity first = cache_new first 64"

definition cache_get :: "page_cache \<Rightarrow> u64 \<Rightarrow> index_page option" where
  "cache_get c pid = map_of (pc_inner c) pid"

definition cache_insert :: "u64 \<Rightarrow> index_page \<Rightarrow> page_cache \<Rightarrow> page_cache" where
  "cache_insert pid page c =
     (let inner = (if pc_capacity c \<le> length (pc_inner c) \<and> map_of (pc_inner c) pid = None
                   then if pc_inner c = [] then pc_inner c
                        else AList.delete (pc_first c (map fst (pc_inner c))) (pc_inner c)
                   else pc_inner c)
      in c\<lparr> pc_inner := AList.update pid page inner \<rparr>)"

definition cache_clear :: "page_cache \<Rightarrow> page_cache" where
  "cache_clear c = c\<lparr> pc_inner := [] \<rparr>"

definition cache_stats :: "page_cache \<Rightarrow> nat \<times> nat" where
  "cache_stats c = (length (pc_inner c), pc_capacity c)"

text \<open>Whatever is evicted, a cached page is one of the pages cached before or the new one.\<close>

lemma cache_get_insert:
  "cache_get (cache_insert pid page c) q = Some p \<Longrightarrow>
   q = pid \<and> p = page \<or> q \<noteq> pid \<and> cache_get c q = Some p"
  by (auto simp: cache_get_def cache_insert_def Let_def update_conv' delete_conv'
      split: if_splits)

lemma cache_get_insert_same: "cache_get (cache_insert pid page c) pid = Some page"
  by (simp add: cache_get_def cache_insert_def Let_def update_conv')

subsection \<open>The manager\<close>

text \<open>
  The calls on the WAL writer, in the order they are made. The manager only appends to the log, so it
  is represented by the sequence of these calls, each of which succeeds.
\<close>

datatype wal_call =
    Page_Allocate u64
  | Page_Write u64 u64 bytes
  | Btree_Split u64 u64 u64 bool

text \<open>
  \<open>bm_db\<close> is the content of the file at \<open>db_path\<close> when a path is configured; the coordinator, when one
  is set, has the same file open and \<open>bm_coordinator\<close> is the size it has cached.
\<close>

record btree_manager =
  bm_allocator :: page_allocator
  bm_wal :: "wal_call list option"
  bm_root_page_id :: u64
  bm_tree_height :: u32
  bm_cache :: page_cache
  bm_db :: "bytes option"
  bm_coordinator :: "u64 option"

definition EMPTY_TREE_ROOT :: u64 where "EMPTY_TREE_ROOT = - 1"
definition MAX_TREE_HEIGHT :: nat where "MAX_TREE_HEIGHT = 10"

definition btree_new ::
  "page_allocator \<Rightarrow> wal_call list option \<Rightarrow> bytes option \<Rightarrow> (u64 list \<Rightarrow> u64) \<Rightarrow> btree_manager" where
  "btree_new al wal db first =
     \<lparr> bm_allocator = al, bm_wal = wal, bm_root_page_id = EMPTY_TREE_ROOT, bm_tree_height = 0,
       bm_cache = cache_with_default_capacity first, bm_db = db, bm_coordinator = None \<rparr>"

definition btree_with_cache ::
  "page_allocator \<Rightarrow> wal_call list option \<Rightarrow> bytes option \<Rightarrow> page_cache \<Rightarrow> btree_manager" where
  "btree_with_cache al wal db cache =
     \<lparr> bm_allocator = al, bm_wal = wal, bm_root_page_id = EMPTY_TREE_ROOT, bm_tree_height = 0,
       bm_cache = cache, bm_db = db, bm_coordinator = None \<rparr>"

definition btree_with_root_and_cache ::
  "page_allocator \<Rightarrow> wal_call list option \<Rightarrow> u64 \<Rightarrow> u32 \<Rightarrow> bytes option \<Rightarrow> page_cache \<Rightarrow>
   btree_manager" where
  "btree_with_root_and_cache al wal root height db cache =
     \<lparr> bm_allocator = al, bm_wal = wal, bm_root_page_id = root, bm_tree_height = height,
       bm_cache = cache, bm_db = db, bm_coordinator = None \<rparr>"

definition btree_with_root ::
  "page_allocator \<Rightarrow> wal_call list option \<Rightarrow> u64 \<Rightarrow> u32 \<Rightarrow> bytes option \<Rightarrow> (u64 list \<Rightarrow> u64) \<Rightarrow>
   btree_manager" where
  "btree_with_root al wal root height db first =
     btree_with_root_and_cache al wal root height db (cache_with_default_capacity first)"

definition set_file_coordinator :: "u64 \<Rightarrow> btree_manager \<Rightarrow> btree_manager" where
  "set_file_coordinator sz s = s\<lparr> bm_coordinator := Some sz \<rparr>"

definition btree_is_empty :: "btree_manager \<Rightarrow> bool" where
  "btree_is_empty s \<longleftrightarrow> bm_root_page_id s = EMPTY_TREE_ROOT \<or> bm_root_page_id s = 0"

definition clear_cache :: "btree_manager \<Rightarrow> btree_manager" where
  "clear_cache s = s\<lparr> bm_cache := cache_clear (bm_cache s) \<rparr>"

text \<open>The manager's own use of the shared allocator.\<close>

definition bm_allocate :: "(btree_manager, u64) action" where
  "bm_allocate s = (let (r, al) = allocate (bm_allocator s) in (r, s\<lparr> bm_allocator := al \<rparr>))"

definition wal_append :: "wal_call list \<Rightarrow> (btree_manager, unit) action" where
  "wal_append calls s = (Inr (), s\<lparr> bm_wal := map_option (\<lambda>w. w @ calls) (bm_wal s) \<rparr>)"

definition disk_read :: "btree_manager \<Rightarrow> bytes \<Rightarrow> u64 \<Rightarrow> bytes result" where
  "disk_read s f pid =
     (case bm_coordinator s of
        Some sz \<Rightarrow> co_read_page pid DEFAULT_PAGE_SIZE \<lparr> co_file = f, cached_size = sz \<rparr>
      | None \<Rightarrow>
          let offset = of_nat V3_HEADER_SIZE + (pid - 1) * of_nat DEFAULT_PAGE_SIZE :: u64
          in file_read_exact f (unat offset) DEFAULT_PAGE_SIZE)"

definition load_page :: "u64 \<Rightarrow> (btree_manager, index_page) action" where
  "load_page pid s =
     (case cache_get (bm_cache s) pid of
        Some page \<Rightarrow> (Inr page, s)
      | None \<Rightarrow>
         (case bm_db s of
            None \<Rightarrow> (Inl (Err (InvalidHeader ''page_cache'')), s)
          | Some f \<Rightarrow>
              if pid = 0 then (Inl (Err (InvalidHeader ''page_id'')), s)
              else (case bindR (disk_read s f pid) unpack of
                      Inl e \<Rightarrow> (Inl e, s)
                    | Inr page \<Rightarrow>
                        (Inr page, s\<lparr> bm_cache := cache_insert pid page (bm_cache s) \<rparr>))))"

definition disk_write :: "btree_manager \<Rightarrow> bytes \<Rightarrow> u64 \<Rightarrow> bytes \<Rightarrow> btree_manager" where
  "disk_write s f pid bs =
     (case bm_coordinator s of
        Some sz \<Rightarrow>
          (let co = snd (co_write_page pid bs \<lparr> co_file = f, cached_size = sz \<rparr>)
           in s\<lparr> bm_db := Some (co_file co), bm_coordinator := Some (cached_size co) \<rparr>)
      | None \<Rightarrow>
          (let offset = of_nat V3_HEADER_SIZE + (pid - 1) * of_nat DEFAULT_PAGE_SIZE :: u64;
               required_len = offset + of_nat (length bs);
               f' = (if length f < unat required_len then file_set_len f (unat required_len) else f)
           in s\<lparr> bm_db := Some (file_write f' (unat offset) bs) \<rparr>))"

definition write_page :: "index_page \<Rightarrow> (btree_manager, unit) action" where
  "write_page page s =
     (case pack page of
        Inl e \<Rightarrow> (Inl e, s)
      | Inr bs \<Rightarrow>
         (case bm_db s of
            None \<Rightarrow> (Inr (), s\<lparr> bm_cache := cache_insert (page_id page) page (bm_cache s) \<rparr>)
          | Some f \<Rightarrow>
              if page_id page = 0 then (Inl (Err (InvalidHeader ''page_id'')), s)
              else (let s' = disk_write s f (page_id page) bs
                    in (Inr (), s'\<lparr> bm_cache := cache_insert (page_id page) page (bm_cache s') \<rparr>))))"

subsection \<open>The contract of a page store\<close>

text \<open>\<open>strip\<close> forgets the stored checksum, which a page in the cache and its image on disk may differ in.\<close>

fun strip :: "index_page \<Rightarrow> index_page" where
  "strip (Internal pid ks cs ck root) = Internal pid ks cs 0 root"
| "strip (Leaf pid es nxt ck root) = Leaf pid es nxt 0 root"

lemma strip_with_checksum [simp]: "strip (with_checksum p) = strip p"
  by (cases p) auto

lemma strip_eq_Internal: "strip p = Internal i ks cs 0 r \<longleftrightarrow> (\<exists>ck. p = Internal i ks cs ck r)"
  by (cases p) auto

lemma strip_eq_Leaf: "strip p = Leaf i es nxt 0 r \<longleftrightarrow> (\<exists>ck. p = Leaf i es nxt ck r)"
  by (cases p) auto

lemma strip_eqD:
  "strip p = strip q \<Longrightarrow> page_id p = page_id q \<and> page_shaped p = page_shaped q \<and>
    page_image p = page_image q"
  by (cases p; cases q) (auto simp: page_image_def page_prefix_def)

locale page_store =
  fixes good :: "'s \<Rightarrow> bool"
    and page_of :: "'s \<Rightarrow> u64 \<Rightarrow> index_page option"
    and live :: "'s \<Rightarrow> u64 set"
    and room :: "nat \<Rightarrow> 's \<Rightarrow> bool"
    and alloc :: "('s, u64) action"
    and load :: "u64 \<Rightarrow> ('s, index_page) action"
    and store :: "index_page \<Rightarrow> ('s, unit) action"
  assumes alloc_law: "good s \<Longrightarrow> room (Suc n) s \<Longrightarrow>
      \<exists>p s'. alloc s = (Inr p, s') \<and> good s' \<and> p \<noteq> 0 \<and> p \<notin> live s \<and> live s' = insert p (live s) \<and>
        page_of s' = page_of s \<and> room n s'"
    and load_law: "good s \<Longrightarrow> page_of s pid = Some p \<Longrightarrow>
      \<exists>p' s'. load pid s = (Inr p', s') \<and> strip p' = p \<and> good s' \<and> page_of s' = page_of s \<and>
        live s' = live s \<and> (\<forall>n. room n s \<longrightarrow> room n s')"
    and write_law: "good s \<Longrightarrow> page_id p \<in> live s \<Longrightarrow> page_id p \<noteq> 0 \<Longrightarrow> page_shaped p \<Longrightarrow>
      \<exists>s'. store p s = (Inr (), s') \<and> good s' \<and> page_of s' (page_id p) = Some (strip p) \<and>
        (\<forall>q x. q \<noteq> page_id p \<and> page_of s q = Some x \<longrightarrow> page_of s' q = Some x) \<and>
        live s' = live s \<and> (\<forall>n. room n s \<longrightarrow> room n s')"
begin

lemma load_Internal:
  assumes "good s" "page_of s pid = Some (Internal pid ks cs 0 r)"
  obtains ck s' where "load pid s = (Inr (Internal pid ks cs ck r), s')" "good s'"
    "page_of s' = page_of s" "live s' = live s" "\<And>n. room n s \<Longrightarrow> room n s'"
  using load_law [OF assms] by (auto simp: strip_eq_Internal)

lemma load_Leaf:
  assumes "good s" "page_of s pid = Some (Leaf pid es nxt 0 r)"
  obtains ck s' where "load pid s = (Inr (Leaf pid es nxt ck r), s')" "good s'"
    "page_of s' = page_of s" "live s' = live s" "\<And>n. room n s \<Longrightarrow> room n s'"
  using load_law [OF assms] by (auto simp: strip_eq_Leaf)

lemma write_then_load:
  assumes "good s" "page_id p \<in> live s" "page_id p \<noteq> 0" "page_shaped p" "store p s = (r, s')"
  shows "\<exists>p' s''. load (page_id p) s' = (Inr p', s'') \<and> strip p' = strip p"
  using write_law [OF assms(1-4)] assms(5) load_law by fastforce

lemma load_load:
  assumes "good s" "page_of s pid = Some p" "load q s = (Inr x, s')" "page_of s q = Some y"
  shows "\<exists>p' s''. load pid s' = (Inr p', s'') \<and> strip p' = p"
  using load_law [OF assms(1,4)] assms(2,3) load_law [of s' pid p] by auto

end

subsection \<open>The cached file keeps the contract\<close>

text \<open>
  The allocator and the file are shared: \<open>X\<close> is the set of allocated pages that belong to other users
  (node pages, edge clusters), which the index must neither read nor write. \<open>disk_page X\<close> is the index
  page on disk. A manager is in a good state when the allocator is, every page it can hand out has an
  offset, and the cache agrees with the file on the pages that are not foreign.
\<close>

definition disk_page :: "u64 set \<Rightarrow> btree_manager \<Rightarrow> u64 \<Rightarrow> index_page option" where
  "disk_page X s pid =
     (if pid \<in> X then None else case bm_db s of None \<Rightarrow> None
      | Some f \<Rightarrow> (case page_at f pid of None \<Rightarrow> None
                  | Some bs \<Rightarrow> (case unpack bs of Inl _ \<Rightarrow> None | Inr p \<Rightarrow> Some (strip p))))"

definition cache_coherent :: "u64 set \<Rightarrow> btree_manager \<Rightarrow> bytes \<Rightarrow> bool" where
  "cache_coherent X s f \<longleftrightarrow>
     (\<forall>pid p. pid \<notin> X \<and> cache_get (bm_cache s) pid = Some p \<longrightarrow>
        (\<exists>bs q. page_at f pid = Some bs \<and> unpack bs = Inr q \<and> strip q = strip p))"

definition pages_in_range :: "page_allocator \<Rightarrow> bool" where
  "pages_in_range al \<longleftrightarrow>
     (\<forall>p \<in> live_pages al \<union> set (free_list al). unat p \<le> MAX_PAGE)"

definition bm_live :: "u64 set \<Rightarrow> btree_manager \<Rightarrow> u64 set" where
  "bm_live X s = live_pages (bm_allocator s) - X"

definition bm_room :: "nat \<Rightarrow> btree_manager \<Rightarrow> bool" where
  "bm_room n s \<longleftrightarrow> max 2 (unat (al_total_pages (bm_allocator s))) + n \<le> MAX_PAGE + 1"

definition bm_good :: "u64 set \<Rightarrow> btree_manager \<Rightarrow> bool" where
  "bm_good X s \<longleftrightarrow>
     allocator_inv (bm_allocator s) \<and> pages_in_range (bm_allocator s) \<and>
     X \<subseteq> live_pages (bm_allocator s) \<and>
     (\<exists>f. bm_db s = Some f \<and> length f < 2 ^ 64 \<and> cache_coherent X s f \<and>
        (\<forall>sz. bm_coordinator s = Some sz \<longrightarrow> sz = of_nat (length f)))"

lemma disk_read_eq:
  assumes "bm_good X s" "bm_db s = Some f" "p \<noteq> 0" "unat p \<le> MAX_PAGE"
  shows "disk_read s f p = (case page_at f p of None \<Rightarrow> Inl (Err IoError) | Some bs \<Rightarrow> Inr bs)"
proof (cases "bm_coordinator s")
  case None
  then show ?thesis
    using assms unat_page_offset [of p]
    by (simp add: disk_read_def Let_def file_read_exact_def page_at_def V3_HEADER_SIZE_def
        DEFAULT_PAGE_SIZE_def)
next
  case (Some sz)
  with assms show ?thesis
    by (simp add: disk_read_def bm_good_def co_read_page_eq DEFAULT_PAGE_SIZE_def)
qed

lemma load_page_law:
  assumes good: "bm_good X s" and disk: "disk_page X s pid = Some p"
  shows "\<exists>p' c. load_page pid s = (Inr p', s\<lparr> bm_cache := c \<rparr>) \<and> strip p' = p \<and>
    bm_good X (s\<lparr> bm_cache := c \<rparr>)"
proof -
  from disk obtain f bs q where f: "bm_db s = Some f" and bs: "page_at f pid = Some bs"
    and q: "unpack bs = Inr q" "p = strip q" "pid \<notin> X"
    by (auto simp: disk_page_def split: option.splits sum.splits if_splits)
  from bs have pid: "pid \<noteq> 0" "unat pid \<le> MAX_PAGE" by (auto simp: page_at_def split: if_splits)
  from good f have coh: "cache_coherent X s f" by (auto simp: bm_good_def)
  show ?thesis
  proof (cases "cache_get (bm_cache s) pid")
    case (Some p')
    with coh bs q have "strip p' = p" unfolding cache_coherent_def by fastforce
    moreover have "s\<lparr> bm_cache := bm_cache s \<rparr> = s" by simp
    ultimately show ?thesis using Some good unfolding load_page_def by (metis option.simps(5))
  next
    case None
    let ?s = "s\<lparr> bm_cache := cache_insert pid q (bm_cache s) \<rparr>"
    have load: "load_page pid s = (Inr q, ?s)"
      using None f pid bs q by (simp add: load_page_def disk_read_eq [OF good f])
    have "cache_coherent X ?s f"
      using coh bs q unfolding cache_coherent_def
      by (auto dest!: cache_get_insert)
    then have "bm_good X ?s" using good f by (auto simp: bm_good_def)
    with load show ?thesis using q by blast
  qed
qed

lemma disk_write_eq:
  assumes "bm_good X s" "bm_db s = Some f" "p \<noteq> 0" "unat p \<le> MAX_PAGE" "length bs = 4096"
  defines "f' \<equiv> file_write f (offset_of p) bs"
  shows "disk_write s f p bs = s\<lparr> bm_db := Some f',
    bm_coordinator := map_option (\<lambda>_. of_nat (length f')) (bm_coordinator s) \<rparr>"
proof (cases "bm_coordinator s")
  case None
  define w :: u64 where "w = 112 + (p - 1) * 4096"
  have w: "unat w = offset_of p" "offset_of p + 4096 < 2 ^ 64"
    unfolding w_def using unat_page_offset assms(3,4) by auto
  have w2: "unat (w + 4096) = offset_of p + 4096"
    using w by (subst unat_add_lem [THEN iffD1]) simp_all
  have "disk_write s f p bs = s\<lparr> bm_db := Some (file_write
      (if length f < offset_of p + 4096 then file_set_len f (offset_of p + 4096) else f)
      (offset_of p) bs) \<rparr>"
    using None assms(5) w w2
    by (simp only: disk_write_def V3_HEADER_SIZE_def DEFAULT_PAGE_SIZE_def Let_def option.case
        of_nat_numeral w_def [symmetric])
  also have "file_write (if length f < offset_of p + 4096 then file_set_len f (offset_of p + 4096) else f)
      (offset_of p) bs = f'"
    using assms(5) by (simp add: f'_def file_write_set_len)
  also have "s\<lparr> bm_db := Some f' \<rparr> = s\<lparr> bm_db := Some f', bm_coordinator := None \<rparr>"
    using None by simp
  finally show ?thesis using None by simp
next
  case (Some sz)
  with assms show ?thesis by (simp add: disk_write_def co_write_page_eq Let_def f'_def)
qed

text \<open>The bytes of a page on disk, whatever they hold and whoever owns it.\<close>

definition raw_page :: "btree_manager \<Rightarrow> u64 \<Rightarrow> bytes option" where
  "raw_page s pid = (if pid = 0 then None else map_option (\<lambda>f. zpage f pid) (bm_db s))"

text \<open>The file never shrinks.\<close>

definition db_len :: "btree_manager \<Rightarrow> nat" where
  "db_len s = (case bm_db s of None \<Rightarrow> 0 | Some f \<Rightarrow> length f)"

lemma write_page_len: "write_page p s = (r, s') \<Longrightarrow> db_len s \<le> db_len s'"
  by (auto simp: write_page_def disk_write_def co_write_page_def Let_def db_len_def length_file_write file_set_len_def
      split: option.splits sum.splits if_splits)

lemma write_page_raw:
  assumes "bm_good X s" "page_id p \<in> bm_live X s" "page_id p \<noteq> 0" "page_shaped p"
    and "write_page p s = (Inr (), s')" "q \<noteq> page_id p"
  shows "raw_page s' q = raw_page s q"
proof -
  from assms(1) obtain f where f: "bm_db s = Some f" and al: "pages_in_range (bm_allocator s)"
    by (auto simp: bm_good_def)
  from al assms(2) have range: "unat (page_id p) \<le> MAX_PAGE"
    by (auto simp: pages_in_range_def bm_live_def)
  have len: "length (page_image p) = 4096" using assms(4) by (simp add: length_page_image page_shaped_fits)
  have "zpage (file_write f (offset_of (page_id p)) (page_image p)) q = zpage f q" if "q \<noteq> 0"
    using zpage_file_write_other [OF assms(3) that assms(6)] len by simp
  then show ?thesis
    using assms(3,4,5) f disk_write_eq [OF assms(1) f assms(3) range len]
    by (auto simp: write_page_def pack_eq page_shaped_fits Let_def raw_page_def)
qed

lemma write_page_law:
  assumes good: "bm_good X s" and p: "page_id p \<in> bm_live X s" "page_id p \<noteq> 0" and shape: "page_shaped p"
  shows "\<exists>f c sz. write_page p s = (Inr (), s\<lparr> bm_db := Some f, bm_cache := c, bm_coordinator := sz \<rparr>) \<and>
    bm_good X (s\<lparr> bm_db := Some f, bm_cache := c, bm_coordinator := sz \<rparr>) \<and>
    disk_page X (s\<lparr> bm_db := Some f, bm_cache := c, bm_coordinator := sz \<rparr>) (page_id p) = Some (strip p) \<and>
    (\<forall>q x. q \<noteq> page_id p \<and> disk_page X s q = Some x \<longrightarrow>
       disk_page X (s\<lparr> bm_db := Some f, bm_cache := c, bm_coordinator := sz \<rparr>) q = Some x)"
proof -
  from good obtain f where f: "bm_db s = Some f" and len: "length f < 2 ^ 64"
    and coh: "cache_coherent X s f" and co: "\<And>sz. bm_coordinator s = Some sz \<Longrightarrow> sz = of_nat (length f)"
    and al: "allocator_inv (bm_allocator s)" "pages_in_range (bm_allocator s)"
    and foreign: "X \<subseteq> live_pages (bm_allocator s)"
    by (auto simp: bm_good_def)
  from al(2) p(1) have range: "unat (page_id p) \<le> MAX_PAGE"
    by (auto simp: pages_in_range_def bm_live_def)
  let ?bs = "page_image p"
  let ?f = "file_write f (offset_of (page_id p)) ?bs"
  let ?sz = "map_option (\<lambda>_. of_nat (length ?f)) (bm_coordinator s) :: u64 option"
  let ?c = "cache_insert (page_id p) p (bm_cache s)"
  let ?s = "s\<lparr> bm_db := Some ?f, bm_cache := ?c, bm_coordinator := ?sz \<rparr>"
  have bs: "length ?bs = 4096" using shape by (simp add: length_page_image page_shaped_fits)
  have image: "unpack ?bs = Inr (with_checksum p)" using unpack_page_image [OF shape, of "[]"] by simp
  note at = page_at_file_write(1) [OF p(2) range eq_refl [OF bs] bs, where f = f]
    page_at_file_write(2) [OF p(2) range eq_refl [OF bs], where f = f]
  have w: "write_page p s = (Inr (), ?s)"
    using shape p f disk_write_eq [OF good f p(2) range bs]
    by (simp add: write_page_def pack_eq page_shaped_fits Let_def)
  have "cache_coherent X ?s ?f"
    unfolding cache_coherent_def
  proof (intro allI impI)
    fix pid q assume "pid \<notin> X \<and> cache_get (bm_cache ?s) pid = Some q"
    then have get: "cache_get ?c pid = Some q" and own: "pid \<notin> X" by simp_all
    from cache_get_insert [OF get] show "\<exists>bs q'. page_at ?f pid = Some bs \<and> unpack bs = Inr q' \<and> strip q' = strip q"
    proof (elim disjE conjE)
      assume "pid = page_id p" "q = p"
      with at(1) image show ?thesis by auto
    next
      assume "pid \<noteq> page_id p" "cache_get (bm_cache s) pid = Some q"
      with coh own at(2) [of pid] show ?thesis unfolding cache_coherent_def by blast
    qed
  qed
  then have well: "bm_good X ?s"
    using foreign al length_file_write_page [OF p(2) range eq_refl [OF bs] len] by (auto simp: bm_good_def)
  have "disk_page X ?s (page_id p) = Some (strip p)"
    using at(1) image p(1) by (simp add: disk_page_def bm_live_def)
  moreover have "disk_page X ?s q = Some x" if "q \<noteq> page_id p" "disk_page X s q = Some x" for q x
    using that f at(2) [of q] by (auto simp: disk_page_def split: option.splits)
  ultimately show ?thesis using w well by blast
qed

lemma bm_allocate_law:
  assumes good: "bm_good X s" and room: "bm_room (Suc n) s"
  shows "\<exists>p al. bm_allocate s = (Inr p, s\<lparr> bm_allocator := al \<rparr>) \<and> bm_good X (s\<lparr> bm_allocator := al \<rparr>) \<and>
    p \<noteq> 0 \<and> p \<notin> live_pages (bm_allocator s) \<and> p \<notin> X \<and>
    live_pages al = insert p (live_pages (bm_allocator s)) \<and> bm_room n (s\<lparr> bm_allocator := al \<rparr>)"
proof -
  let ?al = "bm_allocator s"
  from good have inv: "allocator_inv ?al" and range: "pages_in_range ?al" by (auto simp: bm_good_def)
  obtain p al where a: "allocate ?al = (Inr p, al)" and p: "p \<noteq> 0" "p \<notin> live_pages ?al"
    and live: "live_pages al = insert p (live_pages ?al)" and inv': "allocator_inv al"
    and sub: "set (free_list al) \<subseteq> set (free_list ?al)" "unat p \<le> MAX_PAGE"
    and total: "max 2 (unat (al_total_pages al)) \<le> Suc (max 2 (unat (al_total_pages ?al)))"
    using allocate_in_range [OF inv range [unfolded pages_in_range_def] room [unfolded bm_room_def]]
    by (auto simp: MAX_PAGE_def)
  have "pages_in_range al"
    using range sub live unfolding pages_in_range_def by (auto simp: subset_iff)
  then have "bm_good X (s\<lparr> bm_allocator := al \<rparr>)"
    using good inv' live by (auto simp: bm_good_def cache_coherent_def)
  moreover have "bm_room n (s\<lparr> bm_allocator := al \<rparr>)"
    using room total unfolding bm_room_def by simp linarith
  moreover have "bm_allocate s = (Inr p, s\<lparr> bm_allocator := al \<rparr>)"
    using a by (simp add: bm_allocate_def)
  moreover have "p \<notin> X" using good p(2) by (auto simp: bm_good_def)
  ultimately show ?thesis using p live by blast
qed

interpretation store: page_store "bm_good X" "disk_page X" "bm_live X" bm_room bm_allocate load_page write_page
  for X
proof unfold_locales
  show "\<exists>p s'. bm_allocate s = (Inr p, s') \<and> bm_good X s' \<and> p \<noteq> 0 \<and> p \<notin> bm_live X s \<and>
      bm_live X s' = insert p (bm_live X s) \<and> disk_page X s' = disk_page X s \<and> bm_room n s'"
    if "bm_good X s" "bm_room (Suc n) s" for s n
    using bm_allocate_law [OF that] by (force simp: bm_live_def disk_page_def)
  show "\<exists>p' s'. load_page pid s = (Inr p', s') \<and> strip p' = p \<and> bm_good X s' \<and>
      disk_page X s' = disk_page X s \<and> bm_live X s' = bm_live X s \<and> (\<forall>n. bm_room n s \<longrightarrow> bm_room n s')"
    if "bm_good X s" "disk_page X s pid = Some p" for s pid p
    using load_page_law [OF that] by (force simp: bm_live_def bm_room_def disk_page_def)
  show "\<exists>s'. write_page p s = (Inr (), s') \<and> bm_good X s' \<and> disk_page X s' (page_id p) = Some (strip p) \<and>
      (\<forall>q x. q \<noteq> page_id p \<and> disk_page X s q = Some x \<longrightarrow> disk_page X s' q = Some x) \<and>
      bm_live X s' = bm_live X s \<and> (\<forall>n. bm_room n s \<longrightarrow> bm_room n s')"
    if "bm_good X s" "page_id p \<in> bm_live X s" "page_id p \<noteq> 0" "page_shaped p" for s p
    using write_page_law [OF that] by (force simp: bm_live_def bm_room_def)
qed

subsection \<open>Other users of the allocator and the file\<close>

text \<open>
  A page that another component allocates joins the foreign set; a foreign page may be overwritten with
  anything, as long as the coordinator, if there is one, sees the new size of the file.
\<close>

lemma foreign_allocate:
  assumes "bm_good X s" "bm_room (Suc n) s"
  obtains p al where "allocate (bm_allocator s) = (Inr p, al)" "p \<noteq> 0" "p \<notin> X" "p \<notin> bm_live X s"
    "unat p \<le> MAX_PAGE"
    "bm_good (insert p X) (s\<lparr> bm_allocator := al \<rparr>)" "bm_live (insert p X) (s\<lparr> bm_allocator := al \<rparr>) = bm_live X s"
    "bm_room n (s\<lparr> bm_allocator := al \<rparr>)"
proof -
  obtain p al where a: "bm_allocate s = (Inr p, s\<lparr> bm_allocator := al \<rparr>)" "bm_good X (s\<lparr> bm_allocator := al \<rparr>)"
    "p \<noteq> 0" "p \<notin> live_pages (bm_allocator s)" "p \<notin> X"
    "live_pages al = insert p (live_pages (bm_allocator s))" "bm_room n (s\<lparr> bm_allocator := al \<rparr>)"
    using bm_allocate_law [OF assms] by blast
  have "allocate (bm_allocator s) = (Inr p, al)"
  proof (cases "allocate (bm_allocator s)")
    case (Pair r al')
    with a(1) have "r = Inr p" "s\<lparr> bm_allocator := al' \<rparr> = s\<lparr> bm_allocator := al \<rparr>"
      by (simp_all add: bm_allocate_def)
    moreover from this(2) have "bm_allocator (s\<lparr> bm_allocator := al' \<rparr>) = bm_allocator (s\<lparr> bm_allocator := al \<rparr>)"
      by (rule arg_cong)
    ultimately show ?thesis using Pair by simp
  qed
  moreover have "bm_good (insert p X) (s\<lparr> bm_allocator := al \<rparr>)"
    using a(2,6) by (auto simp: bm_good_def cache_coherent_def)
  moreover have "unat p \<le> MAX_PAGE"
    using a(2,6) by (auto simp: bm_good_def pages_in_range_def)
  ultimately show ?thesis
    using a by (intro that [of p al]) (auto simp: bm_live_def)
qed

definition file_update :: "btree_manager \<Rightarrow> bytes \<Rightarrow> btree_manager" where
  "file_update s f = s\<lparr> bm_db := Some f, bm_coordinator := map_option (\<lambda>_. of_nat (length f)) (bm_coordinator s) \<rparr>"

lemma foreign_write:
  assumes "bm_good X s" "bm_db s = Some f" "p \<in> X" "p \<noteq> 0" "length bs \<le> 4096"
  defines "s' \<equiv> file_update s (file_write f (offset_of p) bs)"
  shows "bm_good X s'" "bm_live X s' = bm_live X s" "bm_room n s' = bm_room n s"
    "disk_page X s q = Some x \<Longrightarrow> disk_page X s' q = Some x"
    "\<exists>zs. raw_page s' p = Some (bs @ zs)"
    "q \<noteq> p \<Longrightarrow> raw_page s' q = raw_page s q"
    "bm_root_page_id s' = bm_root_page_id s"
proof -
  from assms(1,3) have range: "unat p \<le> MAX_PAGE" by (auto simp: bm_good_def pages_in_range_def)
  note at = page_at_file_write(2) [OF assms(4) range assms(5)]
  from assms(1,2) have f: "length f < 2 ^ 64" "cache_coherent X s f" by (auto simp: bm_good_def)
  have "cache_coherent X s' (file_write f (offset_of p) bs)"
    using f(2) assms(3) at unfolding cache_coherent_def s'_def file_update_def by simp metis
  then show "bm_good X s'"
    using assms(1) length_file_write_page [OF assms(4) range assms(5) f(1)]
    unfolding bm_good_def s'_def file_update_def by auto
  show "bm_live X s' = bm_live X s" "bm_room n s' = bm_room n s" "bm_root_page_id s' = bm_root_page_id s"
    by (simp_all add: s'_def file_update_def bm_live_def bm_room_def)
  show "disk_page X s' q = Some x" if "disk_page X s q = Some x"
    using that assms(2,3) at [of q]
    by (cases "q = p") (auto simp: s'_def file_update_def disk_page_def split: option.splits if_splits)
  show "\<exists>zs. raw_page s' p = Some (bs @ zs)"
    using zpage_file_write_same [OF assms(5)] assms(4) by (simp add: s'_def file_update_def raw_page_def)
  show "raw_page s' q = raw_page s q" if "q \<noteq> p"
    using zpage_file_write_other [OF assms(4) _ that assms(5)] assms(2)
    by (simp add: s'_def file_update_def raw_page_def)
qed

subsection \<open>Properties\<close>

text \<open>The manager of the witnesses: a new allocator and an empty file.\<close>

definition empty_manager :: btree_manager where
  "empty_manager = btree_new (allocator_new new_v3) None (Some []) hd"

lemma bm_good_empty_manager: "bm_good {} empty_manager"
proof -
  have "pages_in_range (allocator_new new_v3)"
    by (simp add: pages_in_range_def live_pages_new MAX_PAGE_def) (simp add: allocator_new_def)
  then show ?thesis
    by (simp add: bm_good_def empty_manager_def btree_new_def cache_with_default_capacity_def
        cache_new_def cache_coherent_def cache_get_def)
qed

text \<open>
  C11. Reads see writes: over a database file, a page written to an allocated page is what the next
  load of it returns, up to its stored checksum, and loading it does not disturb any other page, whatever
  the cache holds or evicts.
\<close>

theorem load_after_write:
  assumes "bm_good X s" "page_id p \<in> bm_live X s" "page_id p \<noteq> 0" "page_shaped p"
  shows "\<exists>s1 p' s2. write_page p s = (Inr (), s1) \<and> load_page (page_id p) s1 = (Inr p', s2) \<and>
    strip p' = strip p \<and> bm_good X s2 \<and>
    (\<forall>q x. q \<noteq> page_id p \<and> disk_page X s q = Some x \<longrightarrow> disk_page X s2 q = Some x)"
proof -
  obtain s1 where s1: "write_page p s = (Inr (), s1)" "bm_good X s1" "disk_page X s1 (page_id p) = Some (strip p)"
    "\<forall>q x. q \<noteq> page_id p \<and> disk_page X s q = Some x \<longrightarrow> disk_page X s1 q = Some x"
    using store.write_law [OF assms] by blast
  from store.load_law [OF s1(2,3)] obtain p' s2 where s2: "load_page (page_id p) s1 = (Inr p', s2)"
    "strip p' = strip p" "bm_good X s2" "disk_page X s2 = disk_page X s1" by blast
  with s1 show ?thesis by auto
qed

lemma load_after_write_witness:
  "\<exists>s1 p' s2. write_page (Leaf 1 [(5, 6)] 0 0 True) empty_manager = (Inr (), s1) \<and>
     load_page 1 s1 = (Inr p', s2) \<and> strip p' = Leaf 1 [(5, 6)] 0 0 True \<and> bm_good {} s2"
proof -
  have "page_id (Leaf 1 [(5, 6)] 0 0 True) \<in> bm_live {} empty_manager"
    by (simp add: bm_live_def empty_manager_def btree_new_def live_pages_new)
  from load_after_write [OF bm_good_empty_manager this] show ?thesis by (auto simp: page_consts)
qed

text \<open>
  Without a database path the cache is the only store, and it evicts: writing a new page when the
  cache is full succeeds, and the page that the map lists first can no longer be loaded.
\<close>

theorem memory_mode_loses_page:
  assumes "bm_db s = None" "pc_inner (bm_cache s) \<noteq> []"
    and "pc_capacity (bm_cache s) \<le> length (pc_inner (bm_cache s))"
    and "cache_get (bm_cache s) (page_id p) = None" "page_fits p"
    and "old = pc_first (bm_cache s) (map fst (pc_inner (bm_cache s)))"
    and "cache_get (bm_cache s) old \<noteq> None"
  shows "\<exists>s'. write_page p s = (Inr (), s') \<and>
    fst (load_page old s') = Inl (Err (InvalidHeader ''page_cache''))"
proof -
  have "old \<noteq> page_id p" using assms(4,7) by auto
  then show ?thesis
    using assms
    by (simp add: write_page_def pack_eq load_page_def cache_get_def cache_insert_def update_conv'
        delete_conv' Let_def)
qed

lemma memory_mode_loses_page_witness:
  "\<exists>s'. write_page (new_leaf 7)
       (btree_with_cache (allocator_new new_v3) None None
          (cache_insert 3 (new_leaf 3) (cache_new hd 1))) = (Inr (), s') \<and>
     fst (load_page 3 s') = Inl (Err (InvalidHeader ''page_cache''))"
  by (rule memory_mode_loses_page)
    (simp_all add: btree_with_cache_def cache_insert_def cache_new_def cache_get_def new_leaf_def
      page_consts)

end
