(* ===== verification/Write_Batch.thy ===== *)
theory Write_Batch
  imports Btree_Store "HOL-Library.Multiset"
begin

text \<open>
  Batched page writes (\<open>v3/write_batch.rs\<close>): pages are staged by id and written to the file in one go.
  The pages are kept in a hash map, here an association list with one entry for each id; a batch is
  written in an iteration order that the code leaves open, the parameter \<open>order\<close>. The lemmas show that
  every order leaves the same pages in the file.
\<close>

record write_batch =
  dirty_pages :: "(u64 \<times> index_page) list"
  committed :: bool

definition batch_new :: write_batch where
  "batch_new = \<lparr> dirty_pages = [], committed = False \<rparr>"

definition stage_page :: "index_page \<Rightarrow> (write_batch, unit) action" where
  "stage_page page b =
     (if committed b then (Inl (Err InvalidOperation), b)
      else (Inr (), b\<lparr> dirty_pages := AList.update (page_id page) page (dirty_pages b) \<rparr>))"

definition batch_len :: "write_batch \<Rightarrow> nat" where
  "batch_len b = length (dirty_pages b)"

definition batch_is_empty :: "write_batch \<Rightarrow> bool" where
  "batch_is_empty b \<longleftrightarrow> dirty_pages b = []"

fun write_pages_to_disk :: "(u64 \<times> index_page) list \<Rightarrow> (bytes, unit) action" where
  "write_pages_to_disk [] f = (Inr (), f)"
| "write_pages_to_disk ((pid, page) # pages) f =
     (if pid = 0 then write_pages_to_disk pages f
      else
        let offset = of_nat V3_HEADER_SIZE + (pid - 1) * of_nat DEFAULT_PAGE_SIZE :: u64
        in case pack page of
             Inl e \<Rightarrow> (Inl e, f)
           | Inr bs \<Rightarrow> write_pages_to_disk pages (file_write f (unat offset) bs))"

definition batch_commit ::
  "((u64 \<times> index_page) list \<Rightarrow> (u64 \<times> index_page) list) \<Rightarrow> write_batch \<Rightarrow> (bytes, unit) action" where
  "batch_commit order b f =
     (if committed b then (Inl (Err InvalidOperation), f)
      else if batch_is_empty b then (Inl (Err InvalidOperation), f)
      else write_pages_to_disk (order (dirty_pages b)) f)"

text \<open>A batch is built by staging: each page under its own id, no id twice.\<close>

definition batch_ok :: "write_batch \<Rightarrow> bool" where
  "batch_ok b \<longleftrightarrow> distinct (map fst (dirty_pages b)) \<and> (\<forall>(pid, p) \<in> set (dirty_pages b). page_id p = pid)"

lemma batch_ok_new [simp]: "batch_ok batch_new"
  by (simp add: batch_ok_def batch_new_def)

lemma set_AList_update:
  "distinct (map fst xs) \<Longrightarrow> set (AList.update k v xs) = insert (k, v) {(k', v') \<in> set xs. k' \<noteq> k}"
  by (induction xs) force+

lemma batch_ok_stage: "batch_ok b \<Longrightarrow> stage_page p b = (r, b') \<Longrightarrow> batch_ok b'"
  by (auto simp: batch_ok_def stage_page_def set_AList_update distinct_update split: if_splits)

definition writable :: "u64 \<times> index_page \<Rightarrow> bool" where
  "writable = (\<lambda>(pid, p). unat pid \<le> MAX_PAGE \<and> page_fits p)"

lemma write_pages_to_disk_correct:
  assumes "distinct (map fst pages)" "\<forall>x \<in> set pages. writable x"
  shows "\<exists>f'. write_pages_to_disk pages f = (Inr (), f') \<and>
    (\<forall>(pid, p) \<in> set pages. pid \<noteq> 0 \<longrightarrow> page_at f' pid = Some (page_image p)) \<and>
    (\<forall>q bs. q \<notin> fst ` set pages \<and> page_at f q = Some bs \<longrightarrow> page_at f' q = Some bs)"
  using assms
proof (induction pages arbitrary: f)
  case Nil
  then show ?case by simp
next
  case (Cons x pages)
  obtain pid p where x: "x = (pid, p)" by fastforce
  show ?case
  proof (cases "pid = 0")
    case True
    with Cons.IH [of f] Cons.prems x show ?thesis by auto
  next
    case False
    from Cons.prems x have range: "unat pid \<le> MAX_PAGE" and fits: "page_fits p"
      and new: "pid \<notin> fst ` set pages" by (auto simp: writable_def)
    let ?f = "file_write f (offset_of pid) (page_image p)"
    note at = page_at_file_write(1) [OF False range eq_refl [OF length_page_image [OF fits]]
        length_page_image [OF fits], where f = f]
      page_at_file_write(2) [OF False range eq_refl [OF length_page_image [OF fits]], where f = f]
    have "\<forall>x \<in> set pages. writable x" "distinct (map fst pages)" using Cons.prems by auto
    from Cons.IH [OF this(2,1), of ?f] obtain f' where f': "write_pages_to_disk pages ?f = (Inr (), f')"
      "\<forall>(pid, p) \<in> set pages. pid \<noteq> 0 \<longrightarrow> page_at f' pid = Some (page_image p)"
      "\<forall>q bs. q \<notin> fst ` set pages \<and> page_at ?f q = Some bs \<longrightarrow> page_at f' q = Some bs"
      by blast
    have "write_pages_to_disk (x # pages) f = (Inr (), f')"
      using False fits f'(1) unat_page_offset(1) [OF False range]
      by (simp add: x pack_eq V3_HEADER_SIZE_def DEFAULT_PAGE_SIZE_def)
    moreover have "page_at f' pid = Some (page_image p)"
      using f'(3) new at(1) by blast
    moreover have "page_at f' q = Some bs" if "q \<notin> fst ` set (x # pages)" "page_at f q = Some bs" for q bs
      using that f'(3) at(2) [of q bs] by (simp add: x)
    ultimately show ?thesis using f'(2) by (auto simp: x)
  qed
qed

subsection \<open>Properties\<close>

text \<open>
  Committing a batch writes every staged data page to its place in the file and leaves all other
  pages as they were; the order in which the hash map lists the pages makes no difference.
\<close>

theorem batch_commit_correct:
  assumes "batch_ok b" "\<not> committed b" "dirty_pages b \<noteq> []" "\<forall>x \<in> set (dirty_pages b). writable x"
    and "mset (order (dirty_pages b)) = mset (dirty_pages b)"
  shows "\<exists>f'. batch_commit order b f = (Inr (), f') \<and>
    (\<forall>(pid, p) \<in> set (dirty_pages b). pid \<noteq> 0 \<longrightarrow> page_at f' pid = Some (page_image p)) \<and>
    (\<forall>q bs. q \<notin> fst ` set (dirty_pages b) \<and> page_at f q = Some bs \<longrightarrow> page_at f' q = Some bs)"
proof -
  have same: "set (order (dirty_pages b)) = set (dirty_pages b)"
    using assms(5) by (metis set_mset_mset)
  moreover have "distinct (map fst (order (dirty_pages b)))"
    using assms(1,5) mset_eq_imp_distinct_iff [of "map fst (order (dirty_pages b))" "map fst (dirty_pages b)"]
    by (simp add: batch_ok_def)
  ultimately show ?thesis
    using write_pages_to_disk_correct [of "order (dirty_pages b)" f] assms(2-4)
    by (simp add: batch_commit_def batch_is_empty_def)
qed

lemma batch_commit_correct_witness:
  "\<exists>f'. batch_commit rev \<lparr> dirty_pages = [(1, new_leaf 1), (2, new_leaf 2)], committed = False \<rparr> [] = (Inr (), f') \<and>
     page_at f' 1 = Some (page_image (new_leaf 1)) \<and> page_at f' 2 = Some (page_image (new_leaf 2))"
  using batch_commit_correct [of "\<lparr> dirty_pages = [(1, new_leaf 1), (2, new_leaf 2)], committed = False \<rparr>" rev "[]"]
  by (auto simp: batch_ok_def writable_def new_leaf_def page_consts MAX_PAGE_def)

end
