(* ===== verification/Btree.thy ===== *)
theory Btree
  imports Write_Batch
begin

text \<open>
  The operations of the B+Tree index (\<open>BTreeManager\<close> in \<open>v3/btree.rs\<close>): lookup, insertion with
  preemptive splitting, deletion without rebalancing, and the batch entry points. The descent of
  \<open>lookup\<close> and of \<open>insert_non_full\<close> follows pointers read from pages, so these two are partial functions
  into an option: \<open>None\<close> means that the code does not return. Slice indexing out of range is \<open>Panic\<close>.
\<close>

subsection \<open>Lookup\<close>

partial_function (option) lookup_loop ::
  "u64 \<Rightarrow> nat \<Rightarrow> u64 \<Rightarrow> btree_manager \<Rightarrow> (u64 option result \<times> btree_manager) option" where
  "lookup_loop key depth current s =
     (if depth < MAX_TREE_HEIGHT then
        (case load_page current s of
           (Inl e, s') \<Rightarrow> Some (Inl e, s')
         | (Inr page, s') \<Rightarrow>
            (case page of
               Leaf pid es nxt ck root \<Rightarrow>
                 (case binary_search_leaf es key of
                    Inr idx \<Rightarrow>
                      if idx < length es then Some (Inr (Some (snd (es ! idx))), s')
                      else Some (Inl (Err (InvalidHeader ''btree_leaf'')), s')
                  | Inl idx \<Rightarrow>
                      if nxt = 0 then Some (Inr None, s')
                      else lookup_loop key depth nxt s')
             | Internal pid ks cs ck root \<Rightarrow>
                 if find_child_index ks key < length cs
                 then lookup_loop key (depth + 1) (cs ! find_child_index ks key) s'
                 else Some (Inl (Err (InvalidHeader ''btree_internal'')), s')))
      else Some (Inl (Err (InvalidHeader ''btree_depth'')), s))"

definition btree_lookup :: "i64 \<Rightarrow> btree_manager \<Rightarrow> (u64 option result \<times> btree_manager) option" where
  "btree_lookup key s =
     (if bm_root_page_id s = EMPTY_TREE_ROOT \<or> bm_root_page_id s = 0 then Some (Inr None, s)
      else lookup_loop key 0 (bm_root_page_id s) s)"

subsection \<open>Splitting\<close>

definition vec_insert :: "'a list \<Rightarrow> nat \<Rightarrow> 'a \<Rightarrow> 'a list" where
  "vec_insert xs i x = take i xs @ x # drop i xs"

definition vec_remove :: "'a list \<Rightarrow> nat \<Rightarrow> 'a list" where
  "vec_remove xs i = take i xs @ drop (Suc i) xs"

definition ensure :: "bool \<Rightarrow> ('s, unit) action" where
  "ensure b s = (if b then Inr () else Inl Panic, s)"

definition log_new_page :: "u64 \<Rightarrow> (btree_manager, index_page) action \<Rightarrow> (btree_manager, unit) action" where
  "log_new_page pid get_page s =
     (case bm_wal s of
        None \<Rightarrow> (Inr (), s)
      | Some _ \<Rightarrow>
          bindS (wal_append [Page_Allocate pid]) (\<lambda>_.
          bindS get_page (\<lambda>page s. case pack page of
              Inl e \<Rightarrow> (Inl e, s)
            | Inr bs \<Rightarrow> wal_append [Page_Write pid 0 bs] s)) s)"

definition split_root :: "(btree_manager, unit) action" where
  "split_root s =
     (let old_root_id = bm_root_page_id s
      in bindS (load_page old_root_id) (\<lambda>old_root.
         bindS bm_allocate (\<lambda>new_root_id.
         bindS bm_allocate (\<lambda>sibling_id.
         bindS (case old_root of
             Internal pid ks cs ck root \<Rightarrow>
               (let split_idx = (length ks - 1) div 2;
                    separator_key = ks ! split_idx
                in bindS (ensure (split_idx < length ks \<and> split_idx + 1 \<le> length cs)) (\<lambda>_.
                   bindS (write_page (Internal old_root_id (take split_idx ks)
                            (take (split_idx + 1) cs) 0 False)) (\<lambda>_.
                   bindS (write_page (Internal sibling_id (drop (split_idx + 1) ks)
                            (drop (split_idx + 1) cs) 0 False)) (\<lambda>_.
                   write_page (Internal new_root_id [separator_key] [old_root_id, sibling_id] 0 True)))))
           | Leaf pid es nxt ck root \<Rightarrow>
               (let split_idx = length es div 2;
                    separator_key = fst (es ! split_idx)
                in bindS (ensure (split_idx < length es)) (\<lambda>_.
                   bindS (write_page (Leaf old_root_id (take split_idx es) sibling_id 0 True)) (\<lambda>_.
                   bindS (write_page (Leaf sibling_id (drop split_idx es) nxt 0 False)) (\<lambda>_.
                   write_page (Internal new_root_id [separator_key] [old_root_id, sibling_id] 0 True))))))
           (\<lambda>_. bindS (\<lambda>s. (Inr (), s\<lparr> bm_root_page_id := new_root_id,
                                       bm_tree_height := bm_tree_height s + 1 \<rparr>)) (\<lambda>_.
                log_new_page new_root_id (load_page new_root_id)))))) s)"

definition split_child :: "u64 \<Rightarrow> nat \<Rightarrow> (btree_manager, u64 \<times> u64) action" where
  "split_child parent_id child_idx =
     bindS (load_page parent_id) (\<lambda>parent.
       case parent of
         Leaf pid es nxt ck root \<Rightarrow> failS (Err (InvalidHeader ''btree_split_child''))
       | Internal ppid p_keys p_children pck proot \<Rightarrow>
           bindS (ensure (child_idx < length p_children)) (\<lambda>_.
           let child_id = p_children ! child_idx
           in bindS (load_page child_id) (\<lambda>child.
              bindS bm_allocate (\<lambda>new_page_id.
              case child of
                Internal pid ks cs ck root \<Rightarrow>
                  (let split_idx = (length ks - 1) div 2;
                       separator_key = ks ! split_idx
                   in bindS (ensure (split_idx < length ks \<and> split_idx + 1 \<le> length cs
                                     \<and> child_idx \<le> length p_keys)) (\<lambda>_.
                      bindS (write_page (Internal child_id (take split_idx ks)
                               (take (split_idx + 1) cs) 0 False)) (\<lambda>_.
                      bindS (write_page (Internal new_page_id (drop (split_idx + 1) ks)
                               (drop (split_idx + 1) cs) 0 False)) (\<lambda>_.
                      bindS (write_page (Internal ppid (vec_insert p_keys child_idx separator_key)
                               (vec_insert p_children (child_idx + 1) new_page_id) pck proot)) (\<lambda>_.
                      bindS (wal_append [Btree_Split child_id new_page_id separator_key False]) (\<lambda>_.
                      returnS (new_page_id, separator_key)))))))
              | Leaf pid es nxt ck root \<Rightarrow>
                  (let split_idx = length es div 2;
                       separator_key = fst (es ! split_idx)
                   in bindS (ensure (split_idx < length es \<and> child_idx \<le> length p_keys)) (\<lambda>_.
                      bindS (write_page (Leaf child_id (take split_idx es) new_page_id 0 False)) (\<lambda>_.
                      bindS (write_page (Leaf new_page_id (drop split_idx es) nxt 0 False)) (\<lambda>_.
                      bindS (write_page (Internal ppid (vec_insert p_keys child_idx separator_key)
                               (vec_insert p_children (child_idx + 1) new_page_id) pck proot)) (\<lambda>_.
                      bindS (wal_append [Btree_Split child_id new_page_id separator_key True]) (\<lambda>_.
                      returnS (new_page_id, separator_key)))))))))))"

subsection \<open>Insertion\<close>

definition insert_into_leaf :: "(u64 \<times> u64) list \<Rightarrow> u64 \<Rightarrow> u64 \<Rightarrow> (u64 \<times> u64) list" where
  "insert_into_leaf es key value =
     (case binary_search_leaf es key of
        Inr idx \<Rightarrow> es[idx := (key, value)]
      | Inl idx \<Rightarrow> vec_insert es idx (key, value))"

definition needs_split :: "index_page \<Rightarrow> bool" where
  "needs_split p \<longleftrightarrow> needs_split_internal p \<or> needs_split_leaf p"

partial_function (option) insert_non_full ::
  "u64 \<Rightarrow> u64 \<Rightarrow> u64 \<Rightarrow> btree_manager \<Rightarrow> (unit result \<times> btree_manager) option" where
  "insert_non_full pid key value s =
     (case load_page pid s of
        (Inl e, s1) \<Rightarrow> Some (Inl e, s1)
      | (Inr page, s1) \<Rightarrow>
         (case page of
            Leaf i es nxt ck root \<Rightarrow>
              Some (write_page (Leaf i (insert_into_leaf es key value) nxt ck root) s1)
          | Internal i ks cs ck root \<Rightarrow>
              let child_idx = find_child_index ks key
              in if \<not> child_idx < length cs then Some (Inl Panic, s1)
                 else
                   let child_id = cs ! child_idx
                   in (case load_page child_id s1 of
                         (Inl e, s2) \<Rightarrow> Some (Inl e, s2)
                       | (Inr child_page, s2) \<Rightarrow>
                           if needs_split child_page then
                             (case split_child pid child_idx s2 of
                                (Inl e, s3) \<Rightarrow> Some (Inl e, s3)
                              | (Inr (new_child, separator_key), s3) \<Rightarrow>
                                 (case load_page pid s3 of
                                    (Inl e, s4) \<Rightarrow> Some (Inl e, s4)
                                  | (Inr updated_parent, s4) \<Rightarrow>
                                      let new_child_idx = (if separator_key \<le> key then child_idx + 1 else child_idx)
                                      in (case updated_parent of
                                            Internal i' ks' cs' ck' root' \<Rightarrow>
                                              if \<not> new_child_idx < length cs' then Some (Inl Panic, s4)
                                              else insert_non_full (cs' ! new_child_idx) key value s4
                                          | Leaf i' es' nxt' ck' root' \<Rightarrow>
                                              insert_non_full child_id key value s4)))
                           else insert_non_full child_id key value s2)))"

definition insert_into_empty_tree :: "i64 \<Rightarrow> u64 \<Rightarrow> (btree_manager, unit) action" where
  "insert_into_empty_tree key value =
     bindS bm_allocate (\<lambda>pid.
       let leaf = Leaf pid [(key, value)] 0 0 True
       in bindS (write_page leaf) (\<lambda>_.
          bindS (\<lambda>s. (Inr (), s\<lparr> bm_root_page_id := pid, bm_tree_height := 1 \<rparr>)) (\<lambda>_.
          log_new_page pid (returnS leaf))))"

definition btree_insert :: "i64 \<Rightarrow> u64 \<Rightarrow> btree_manager \<Rightarrow> (unit result \<times> btree_manager) option" where
  "btree_insert key value s =
     (if bm_root_page_id s = EMPTY_TREE_ROOT \<or> bm_root_page_id s = 0
      then Some (insert_into_empty_tree key value s)
      else
        (case load_page (bm_root_page_id s) s of
           (Inl e, s1) \<Rightarrow> Some (Inl e, s1)
         | (Inr root_page, s1) \<Rightarrow>
            (case (if needs_split root_page then split_root s1 else (Inr (), s1)) of
               (Inl e, s2) \<Rightarrow> Some (Inl e, s2)
             | (Inr _, s2) \<Rightarrow> insert_non_full (bm_root_page_id s2) key value s2)))"

subsection \<open>Deletion\<close>

text \<open>The first argument is what is left of \<open>MAX_TREE_HEIGHT\<close>.\<close>

fun find_leaf_loop :: "nat \<Rightarrow> u64 \<Rightarrow> u64 \<Rightarrow> (btree_manager, u64) action" where
  "find_leaf_loop 0 current key s = (Inl (Err (InvalidHeader ''btree_depth'')), s)"
| "find_leaf_loop (Suc n) current key s =
     bindS (load_page current) (\<lambda>page s.
       case page of
         Leaf pid es nxt ck root \<Rightarrow> (Inr current, s)
       | Internal pid ks cs ck root \<Rightarrow>
           if find_child_index ks key < length cs
           then find_leaf_loop n (cs ! find_child_index ks key) key s
           else (Inl (Err (InvalidHeader ''btree_internal'')), s)) s"

definition find_leaf :: "u64 \<Rightarrow> u64 \<Rightarrow> (btree_manager, u64) action" where
  "find_leaf root key = find_leaf_loop MAX_TREE_HEIGHT root key"

definition btree_delete :: "i64 \<Rightarrow> (btree_manager, bool) action" where
  "btree_delete key s =
     (if bm_root_page_id s = EMPTY_TREE_ROOT \<or> bm_root_page_id s = 0 then (Inr False, s)
      else
        bindS (find_leaf (bm_root_page_id s) key) (\<lambda>leaf_id.
        bindS (load_page leaf_id) (\<lambda>page.
          case page of
            Leaf pid es nxt ck root \<Rightarrow>
              (case binary_search_leaf es key of
                 Inr idx \<Rightarrow>
                   bindS (write_page (Leaf pid (vec_remove es idx) nxt ck root)) (\<lambda>_. returnS True)
               | Inl _ \<Rightarrow> returnS False)
          | Internal pid ks cs ck root \<Rightarrow> failS (Err (InvalidHeader ''btree_delete'')))) s)"

subsection \<open>Batches\<close>

definition create_write_batch :: "btree_manager \<Rightarrow> write_batch" where
  "create_write_batch s = batch_new"

definition stage_page_to_batch :: "index_page \<Rightarrow> (write_batch, unit) action" where
  "stage_page_to_batch page = stage_page page"

definition commit_batch ::
  "((u64 \<times> index_page) list \<Rightarrow> (u64 \<times> index_page) list) \<Rightarrow> write_batch \<Rightarrow> (btree_manager, unit) action" where
  "commit_batch order b s =
     (case bm_db s of
        None \<Rightarrow> (Inl (Err InvalidOperation), s)
      | Some f \<Rightarrow> (let (r, f') = batch_commit order b f in (r, s\<lparr> bm_db := Some f' \<rparr>)))"

definition insert_simple_to_batch ::
  "i64 \<Rightarrow> u64 \<Rightarrow> (write_batch \<times> btree_manager, bool) action" where
  "insert_simple_to_batch key value bs =
     (let (b, s) = bs in
      if bm_root_page_id s = EMPTY_TREE_ROOT \<or> bm_root_page_id s = 0 then
        (case bm_allocate s of
           (Inl e, s1) \<Rightarrow> (Inl e, (b, s1))
         | (Inr pid, s1) \<Rightarrow>
             let leaf = Leaf pid [(key, value)] 0 0 False
             in (case stage_page leaf b of
                   (Inl e, b') \<Rightarrow> (Inl e, (b', s1))
                 | (Inr _, b') \<Rightarrow>
                     (Inr True, (b', s1\<lparr> bm_cache := cache_insert pid leaf (bm_cache s1),
                                         bm_root_page_id := pid, bm_tree_height := 1 \<rparr>))))
      else (Inl (Err InvalidOperation), bs))"

end
