(* ===== verification/Btree_Tree.thy ===== *)
theory Btree_Tree
  imports Index_Page
begin

text \<open>
  The tree that the index pages represent, without the store: a leaf or an internal node with its
  page id. The lemmas describe the routing of a key by the separators, splitting a full node, and
  replacing a child; they carry the correctness proofs of \<open>v3/btree.rs\<close>.
\<close>

subsection \<open>Routing a key\<close>

text \<open>The child a key is routed to is the number of separators not above it.\<close>

definition route :: "u64 list \<Rightarrow> u64 \<Rightarrow> nat" where
  "route ks k = length (filter (\<lambda>x. x \<le> k) ks)"

lemma route_append [simp]: "route (xs @ ys) k = route xs k + route ys k"
  by (simp add: route_def)

lemma route_Cons [simp]: "route (x # xs) k = (if x \<le> k then 1 else 0) + route xs k"
  by (simp add: route_def)

lemma route_Nil [simp]: "route [] k = 0"
  by (simp add: route_def)

lemma route_le_length: "route ks k \<le> length ks"
  by (simp add: route_def)

lemma route_all: "(\<And>x. x \<in> set ks \<Longrightarrow> x \<le> k) \<Longrightarrow> route ks k = length ks"
  by (simp add: route_def)

lemma route_none: "(\<And>x. x \<in> set ks \<Longrightarrow> k < x) \<Longrightarrow> route ks k = 0"
  by (auto simp: route_def filter_empty_conv not_le)

lemma route_mono: "k \<le> k' \<Longrightarrow> route ks k \<le> route ks k'"
  by (induction ks) auto

lemma find_child_index_route:
  assumes "sorted_wrt (<) ks"
  shows "find_child_index ks k = route ks k"
proof -
  let ?j = "find_child_index ks k"
  have "route (take ?j ks) k = length (take ?j ks)"
    using find_child_index_eq(2) [OF assms, where t = k] by (intro route_all) (auto simp: in_set_conv_nth)
  moreover have "route (drop ?j ks) k = 0"
    using find_child_index_eq(3) [OF assms, where t = k] by (intro route_none) (auto simp: in_set_conv_nth)
  moreover have "route ks k = route (take ?j ks) k + route (drop ?j ks) k"
    by (metis append_take_drop_id route_append)
  ultimately show ?thesis using find_child_index_eq(1) [OF assms, where t = k] by simp
qed

lemma route_nth:
  assumes "sorted_wrt (<) ks" "i < length ks"
  shows "ks ! i \<le> k \<longleftrightarrow> i < route ks k"
  using find_child_index_eq(2,3) [OF assms(1), where t = k] assms
  by (metis find_child_index_route le_less_linear not_le)

text \<open>A new separator \<open>s\<close> shifts the keys from \<open>s\<close> on by one child.\<close>

lemma route_insert_at:
  "route (take i ks @ s # drop i ks) k = route ks k + (if s \<le> k then 1 else 0)"
proof -
  have "route ks k = route (take i ks) k + route (drop i ks) k"
    by (metis append_take_drop_id route_append)
  then show ?thesis by simp
qed

lemma sorted_insert_at:
  assumes "sorted_wrt (<) ks" "route ks s = i" "route ks k0 = i" "k0 < s"
  shows "sorted_wrt (<) (take i ks @ s # drop i ks)"
proof -
  have "x < s" if x: "x \<in> set (take i ks)" for x
  proof -
    from x obtain n where n: "n < length ks" "n < i" "x = ks ! n" by (auto simp: in_set_conv_nth)
    with route_nth [OF assms(1), of n k0] assms(3) have "x \<le> k0" by simp
    with assms(4) show ?thesis by simp
  qed
  moreover have "s < x" if x: "x \<in> set (drop i ks)" for x
  proof -
    from x obtain n where n: "n < length ks" "i \<le> n" "x = ks ! n"
      by (auto simp: in_set_conv_nth) (metis add.commute le_add1 less_diff_conv)
    with route_nth [OF assms(1), of n s] assms(2) show ?thesis by (auto simp: not_le [symmetric])
  qed
  moreover have "sorted_wrt (<) (take i ks @ drop i ks)" using assms(1) by simp
  ultimately show ?thesis by (auto simp: sorted_wrt_append simp del: append_take_drop_id intro: less_trans)
qed

subsection \<open>Trees\<close>

datatype bpt = LeafT u64 "(u64 \<times> u64) list" | NodeT u64 "u64 list" "bpt list"

fun root_id :: "bpt \<Rightarrow> u64" where
  "root_id (LeafT i es) = i"
| "root_id (NodeT i ks ts) = i"

fun first_leaf :: "bpt \<Rightarrow> u64" where
  "first_leaf (LeafT i es) = i"
| "first_leaf (NodeT i ks []) = 0"
| "first_leaf (NodeT i ks (t # ts)) = first_leaf t"

fun ids :: "bpt \<Rightarrow> u64 list" where
  "ids (LeafT i es) = [i]"
| "ids (NodeT i ks ts) = i # concat (map ids ts)"

fun is_full :: "bpt \<Rightarrow> bool" where
  "is_full (LeafT i es) \<longleftrightarrow> MAX_ENTRIES \<le> length es"
| "is_full (NodeT i ks ts) \<longleftrightarrow> MAX_KEYS \<le> length ks"

text \<open>
  \<open>wf_tree h mn P t\<close>: all leaves are at depth \<open>h\<close>, keys and separators are sorted and satisfy \<open>P\<close>, every key
  lies where routing looks for it, the root has at least \<open>mn\<close> separators and every other internal
  node at least \<open>MIN_KEYS\<close>, and no node exceeds its capacity.
\<close>

fun wf_tree :: "nat \<Rightarrow> nat \<Rightarrow> (u64 \<Rightarrow> bool) \<Rightarrow> bpt \<Rightarrow> bool" where
  "wf_tree 0 mn P (LeafT i es) \<longleftrightarrow>
     sorted_wrt (<) (map fst es) \<and> (\<forall>e \<in> set es. P (fst e)) \<and> length es \<le> MAX_ENTRIES"
| "wf_tree (Suc h) mn P (NodeT i ks ts) \<longleftrightarrow>
     sorted_wrt (<) ks \<and> (\<forall>k \<in> set ks. P k) \<and> length ts = Suc (length ks) \<and>
     mn \<le> length ks \<and> length ks \<le> MAX_KEYS \<and>
     (\<forall>j < length ts. wf_tree h MIN_KEYS (\<lambda>k. P k \<and> route ks k = j) (ts ! j))"
| "wf_tree _ _ _ _ \<longleftrightarrow> False"

text \<open>The value of a key.\<close>

fun tget :: "nat \<Rightarrow> bpt \<Rightarrow> u64 \<Rightarrow> u64 option" where
  "tget (Suc h) (NodeT i ks ts) k = tget h (ts ! route ks k) k"
| "tget h (LeafT i es) k = map_of es k"
| "tget 0 (NodeT i ks ts) k = None"

lemma wf_mono: "wf_tree h mn P t \<Longrightarrow> (\<And>k. P k \<Longrightarrow> Q k) \<Longrightarrow> mn' \<le> mn \<Longrightarrow> wf_tree h mn' Q t"
proof (induction h mn P t arbitrary: mn' Q rule: wf_tree.induct)
  case (2 h mn P i ks ts)
  have "wf_tree h MIN_KEYS (\<lambda>k. Q k \<and> route ks k = j) (ts ! j)" if "j < length ts" for j
    using "2.IH" [OF that, of "\<lambda>k. Q k \<and> route ks k = j" MIN_KEYS] "2.prems" that by auto
  with "2.prems" show ?case by auto
qed auto

lemma wf_cases:
  assumes "wf_tree h mn P t"
  obtains i es where "h = 0" "t = LeafT i es"
  | h' i ks ts where "h = Suc h'" "t = NodeT i ks ts"
  using assms by (cases "(h, mn, P, t)" rule: wf_tree.cases) auto

lemma first_leaf_hd: "ts \<noteq> [] \<Longrightarrow> first_leaf (NodeT i ks ts) = first_leaf (hd ts)"
  by (cases ts) auto

lemma root_id_in_ids: "root_id t \<in> set (ids t)"
  by (cases t) auto

text \<open>A leaf holds its keys once, so updating the sorted list of entries updates the map.\<close>

lemma sorted_fst_distinct: "sorted_wrt (<) (map fst es) \<Longrightarrow> distinct (map fst (es :: (u64 \<times> 'v) list))"
  by (induction es) force+

subsection \<open>Splitting\<close>

fun split_tree :: "u64 \<Rightarrow> bpt \<Rightarrow> bpt \<times> u64 \<times> bpt" where
  "split_tree new (LeafT i es) =
     (let m = length es div 2 in (LeafT i (take m es), fst (es ! m), LeafT new (drop m es)))"
| "split_tree new (NodeT i ks ts) =
     (let m = (length ks - 1) div 2
      in (NodeT i (take m ks) (take (m + 1) ts), ks ! m, NodeT new (drop (m + 1) ks) (drop (m + 1) ts)))"

lemma sorted_take_drop:
  assumes "sorted_wrt (<) (ks :: u64 list)" "m < length ks"
  shows "x \<in> set (take m ks) \<Longrightarrow> x < ks ! m" "x \<in> set (drop (Suc m) ks) \<Longrightarrow> ks ! m < x"
    "sorted_wrt (<) (take m ks)" "sorted_wrt (<) (drop m ks)" "sorted_wrt (<) (drop (Suc m) ks)"
proof -
  have "sorted_wrt (<) (take m ks @ ks ! m # drop (Suc m) ks)"
    using assms id_take_nth_drop [OF assms(2)] by simp
  then show "x \<in> set (take m ks) \<Longrightarrow> x < ks ! m" "x \<in> set (drop (Suc m) ks) \<Longrightarrow> ks ! m < x"
    "sorted_wrt (<) (take m ks)" "sorted_wrt (<) (drop (Suc m) ks)"
    by (auto simp: sorted_wrt_append)
  show "sorted_wrt (<) (drop m ks)" using assms(1) by (rule sorted_wrt_drop)
qed

lemma route_split:
  assumes "sorted_wrt (<) ks" "m < length ks"
  shows "k < ks ! m \<Longrightarrow> route (take m ks) k = route ks k"
    "ks ! m \<le> k \<Longrightarrow> route ks k = Suc m + route (drop (Suc m) ks) k"
proof -
  have eq: "route ks k = route (take m ks) k + (if ks ! m \<le> k then 1 else 0) + route (drop (Suc m) ks) k"
    by (subst id_take_nth_drop [OF assms(2)]) simp
  show "k < ks ! m \<Longrightarrow> route (take m ks) k = route ks k"
  proof -
    assume k: "k < ks ! m"
    have "route (drop (Suc m) ks) k = 0"
      using sorted_take_drop(2) [OF assms] k by (intro route_none) (auto intro: less_trans)
    with eq k show ?thesis by (simp add: not_le)
  qed
  show "ks ! m \<le> k \<Longrightarrow> route ks k = Suc m + route (drop (Suc m) ks) k"
  proof -
    assume k: "ks ! m \<le> k"
    have "route (take m ks) k = length (take m ks)"
      using sorted_take_drop(1) [OF assms] k by (intro route_all) (auto intro: less_imp_le less_le_trans)
    with eq k assms(2) show ?thesis by simp
  qed
qed

lemma map_of_split:
  assumes "sorted_wrt (<) (map fst (es :: (u64 \<times> 'v) list))" "m < length es"
  shows "map_of es k = (if k < fst (es ! m) then map_of (take m es) k else map_of (drop m es) k)"
proof -
  let ?ks = "map fst es"
  note td = sorted_take_drop [of ?ks m, OF assms(1)]
  have split: "map_of es k = (map_of (drop m es) ++ map_of (take m es)) k"
    by (metis append_take_drop_id map_of_append)
  show ?thesis
  proof (cases "k < fst (es ! m)")
    case True
    have "fst (es ! m) \<le> x" if "x \<in> set (map fst (drop m es))" for x
    proof -
      have "map fst (drop m es) = fst (es ! m) # drop (Suc m) ?ks"
        using assms(2) by (simp add: Cons_nth_drop_Suc [symmetric] drop_map)
      with that td(2) assms(2) show ?thesis by (auto intro: less_imp_le)
    qed
    with True have "k \<notin> fst ` set (drop m es)" by (auto simp: not_le [symmetric])
    then have "map_of (drop m es) k = None" by (simp add: map_of_eq_None_iff)
    with split True show ?thesis by (simp add: map_add_def split: option.splits)
  next
    case False
    with td(1) assms(2) have "k \<notin> fst ` set (take m es)"
      by (metis length_map list.set_map nth_map take_map)
    then have "map_of (take m es) k = None" by (simp add: map_of_eq_None_iff)
    with split False show ?thesis by (simp add: map_add_def)
  qed
qed

lemma wf_split_leaf:
  assumes "wf_tree 0 mn P (LeafT i es)" "is_full (LeafT i es)" "split_tree new (LeafT i es) = (l, sep, r)"
  shows "wf_tree 0 MIN_KEYS (\<lambda>k. P k \<and> k < sep) l \<and> wf_tree 0 MIN_KEYS (\<lambda>k. P k \<and> sep \<le> k) r \<and>
    P sep \<and> (\<exists>k0. P k0 \<and> k0 < sep) \<and> \<not> is_full l \<and> \<not> is_full r \<and>
    tget 0 (LeafT i es) k = (if k < sep then tget 0 l k else tget 0 r k)"
proof -
  let ?ks = "map fst es" and ?m = "length es div 2"
  from assms have len: "length es = 252" and srt: "sorted_wrt (<) ?ks" and P: "\<forall>e \<in> set es. P (fst e)"
    and m: "?m < length ?ks" by (auto simp: page_consts)
  from assms(3) have split: "l = LeafT i (take ?m es)" "r = LeafT new (drop ?m es)" "sep = ?ks ! ?m"
    using m by (auto simp: Let_def)
  note td = sorted_take_drop [OF srt m]
  have low: "fst e < sep" if "e \<in> set (take ?m es)" for e
    using td(1) [of "fst e"] that split(3) by (simp add: take_map)
  have high: "sep \<le> fst e" if e: "e \<in> set (drop ?m es)" for e
  proof -
    have "drop ?m es = es ! ?m # drop (Suc ?m) es" using m by (simp add: Cons_nth_drop_Suc)
    with e consider "e = es ! ?m" | "fst e \<in> set (drop (Suc ?m) ?ks)" by (auto simp: drop_map)
    then show ?thesis using td(2) [of "fst e"] split(3) m by cases (auto intro: less_imp_le)
  qed
  have "P sep" using P m split(3) by auto
  moreover have "\<exists>k0. P k0 \<and> k0 < sep"
  proof -
    have "es ! 0 \<in> set (take ?m es)" using len by (auto simp: in_set_conv_nth intro!: exI [of _ 0])
    with low P show ?thesis by (meson in_set_takeD)
  qed
  moreover have "tget 0 (LeafT i es) k = (if k < sep then tget 0 l k else tget 0 r k)"
    using map_of_split [OF srt, of ?m k] m split by simp
  ultimately show ?thesis
    using low high P td(3,4) len unfolding split(1,2)
    by (auto simp: page_consts take_map [symmetric] drop_map [symmetric] dest: in_set_takeD in_set_dropD)
qed

lemma wf_split_node:
  assumes wf: "wf_tree (Suc h) mn P (NodeT i ks ts)" and full: "is_full (NodeT i ks ts)"
    and split: "split_tree new (NodeT i ks ts) = (l, sep, r)"
  shows "wf_tree (Suc h) MIN_KEYS (\<lambda>k. P k \<and> k < sep) l \<and> wf_tree (Suc h) MIN_KEYS (\<lambda>k. P k \<and> sep \<le> k) r \<and>
    P sep \<and> (\<exists>k0. P k0 \<and> k0 < sep) \<and> \<not> is_full l \<and> \<not> is_full r \<and>
    tget (Suc h) (NodeT i ks ts) k = (if k < sep then tget (Suc h) l k else tget (Suc h) r k)"
proof -
  let ?m = "(length ks - 1) div 2"
  from wf full have len: "length ks = 252" "length ts = 253" and srt: "sorted_wrt (<) ks"
    and P: "\<forall>k \<in> set ks. P k"
    and ch: "\<And>j. j < length ts \<Longrightarrow> wf_tree h MIN_KEYS (\<lambda>k. P k \<and> route ks k = j) (ts ! j)"
    by (auto simp: page_consts)
  then have m: "?m < length ks" "?m = 125" by auto
  from split have l: "l = NodeT i (take ?m ks) (take (Suc ?m) ts)" and sep: "sep = ks ! ?m"
    and r: "r = NodeT new (drop (Suc ?m) ks) (drop (Suc ?m) ts)"
    by (auto simp: Let_def)
  note td = sorted_take_drop [OF srt m(1)] and rs = route_split [OF srt m(1)]
  have "wf_tree h MIN_KEYS (\<lambda>k. (P k \<and> k < sep) \<and> route (take ?m ks) k = j) (take (Suc ?m) ts ! j)"
    if "j < Suc ?m" for j
  proof -
    have "wf_tree h MIN_KEYS (\<lambda>k. P k \<and> route ks k = j) (ts ! j)" using ch that len by simp
    then have "wf_tree h MIN_KEYS (\<lambda>k. (P k \<and> k < sep) \<and> route (take ?m ks) k = j) (ts ! j)"
    proof (rule wf_mono)
      fix k assume "P k \<and> route ks k = j"
      moreover from this that have "k < sep"
        using route_nth [OF srt m(1), of k] unfolding sep by (simp add: not_le [symmetric])
      ultimately show "(P k \<and> k < sep) \<and> route (take ?m ks) k = j" using rs(1) sep by simp
    qed simp
    then show ?thesis using that by simp
  qed
  then have wl: "wf_tree (Suc h) MIN_KEYS (\<lambda>k. P k \<and> k < sep) l"
    using td len m P by (auto simp: l sep page_consts dest: in_set_takeD)
  have "wf_tree h MIN_KEYS (\<lambda>k. (P k \<and> sep \<le> k) \<and> route (drop (Suc ?m) ks) k = j) (drop (Suc ?m) ts ! j)"
    if "j < length ts - Suc ?m" for j
  proof -
    have "wf_tree h MIN_KEYS (\<lambda>k. P k \<and> route ks k = Suc ?m + j) (ts ! (Suc ?m + j))" using ch that by simp
    then have "wf_tree h MIN_KEYS (\<lambda>k. (P k \<and> sep \<le> k) \<and> route (drop (Suc ?m) ks) k = j) (ts ! (Suc ?m + j))"
    proof (rule wf_mono)
      fix k assume k: "P k \<and> route ks k = Suc ?m + j"
      then have "sep \<le> k" using route_nth [OF srt m(1), of k] unfolding sep by simp
      with k rs(2) [of k] show "(P k \<and> sep \<le> k) \<and> route (drop (Suc ?m) ks) k = j"
        unfolding sep by simp
    qed simp
    then show ?thesis using that by simp
  qed
  then have wr: "wf_tree (Suc h) MIN_KEYS (\<lambda>k. P k \<and> sep \<le> k) r"
    using td len m P by (auto simp: r sep page_consts intro: less_imp_le dest: in_set_dropD)
  have "P sep" using P m unfolding sep by simp
  moreover have "\<exists>k0. P k0 \<and> k0 < sep"
  proof -
    have "ks ! 0 \<in> set (take ?m ks)" using m by (auto simp: in_set_conv_nth intro!: exI [of _ 0])
    with td(1) P m show ?thesis unfolding sep by (meson in_set_takeD)
  qed
  moreover have "tget (Suc h) (NodeT i ks ts) k = (if k < sep then tget (Suc h) l k else tget (Suc h) r k)"
  proof (cases "k < sep")
    case True
    then have "route ks k < Suc ?m"
      using route_nth [OF srt m(1), of k] unfolding sep by (simp add: not_le [symmetric] not_less)
    with True rs(1) [of k] show ?thesis unfolding l sep by simp
  next
    case False
    with rs(2) [of k] len show ?thesis unfolding r sep by (simp add: add.commute)
  qed
  ultimately show ?thesis using wl wr len m by (auto simp: l r page_consts)
qed

lemma wf_split:
  assumes "wf_tree h mn P c" "is_full c" "split_tree new c = (l, sep, r)"
  shows "wf_tree h MIN_KEYS (\<lambda>k. P k \<and> k < sep) l" "wf_tree h MIN_KEYS (\<lambda>k. P k \<and> sep \<le> k) r"
    "P sep" "\<exists>k0. P k0 \<and> k0 < sep" "\<not> is_full l" "\<not> is_full r"
    "tget h c k = (if k < sep then tget h l k else tget h r k)"
proof -
  have "wf_tree h MIN_KEYS (\<lambda>k. P k \<and> k < sep) l \<and> wf_tree h MIN_KEYS (\<lambda>k. P k \<and> sep \<le> k) r \<and>
    P sep \<and> (\<exists>k0. P k0 \<and> k0 < sep) \<and> \<not> is_full l \<and> \<not> is_full r \<and>
    tget h c k = (if k < sep then tget h l k else tget h r k)" for k
    using assms(1)
  proof (cases rule: wf_cases)
    case (1 i es)
    with assms wf_split_leaf [of mn P i es] show ?thesis by blast
  next
    case (2 h' i ks ts)
    with assms wf_split_node [of h' mn P i ks ts] show ?thesis by blast
  qed
  then show "wf_tree h MIN_KEYS (\<lambda>k. P k \<and> k < sep) l" "wf_tree h MIN_KEYS (\<lambda>k. P k \<and> sep \<le> k) r"
    "P sep" "\<exists>k0. P k0 \<and> k0 < sep" "\<not> is_full l" "\<not> is_full r"
    "tget h c k = (if k < sep then tget h l k else tget h r k)" by blast+
qed

lemma split_tree_facts:
  assumes "split_tree new c = (l, sep, r)"
  shows "root_id l = root_id c" "root_id r = new"
    "set (ids l) \<union> set (ids r) = insert new (set (ids c))"
    "distinct (ids c) \<Longrightarrow> new \<notin> set (ids c) \<Longrightarrow> distinct (ids l @ ids r)"
proof -
  have u: "set (take m xs) \<union> set (drop m xs) = set xs" for m and xs :: "bpt list"
    by (metis append_take_drop_id set_append)
  have d: "distinct (concat (map ids (take m xs)) @ concat (map ids (drop m xs)))"
    if "distinct (concat (map ids xs))" for m xs
    using that by (metis append_take_drop_id concat_append map_append)
  have *: "root_id l = root_id c \<and> root_id r = new \<and>
      set (ids l) \<union> set (ids r) = insert new (set (ids c)) \<and>
      (distinct (ids c) \<longrightarrow> new \<notin> set (ids c) \<longrightarrow> distinct (ids l @ ids r))"
  proof (cases c)
    case (LeafT i es)
    with assms show ?thesis by (auto simp: Let_def)
  next
    case (NodeT i ks ts)
    let ?m = "(length ks - 1) div 2 + 1"
    from assms NodeT have "l = NodeT i (take ((length ks - 1) div 2) ks) (take ?m ts)"
      "r = NodeT new (drop ?m ks) (drop ?m ts)" by (auto simp: Let_def)
    moreover have "set (concat (map ids (take ?m ts))) \<union> set (concat (map ids (drop ?m ts)))
        = set (concat (map ids ts))"
      using u [of ?m ts] by (metis append_take_drop_id concat_append map_append set_append)
    moreover have "distinct (concat (map ids (take ?m ts)) @ concat (map ids (drop ?m ts)))"
      if "distinct (ids c)" using that d [of ts ?m] by (simp add: NodeT)
    ultimately show ?thesis by (auto simp: NodeT simp del: set_concat)
  qed
  show "root_id l = root_id c" "root_id r = new"
    "set (ids l) \<union> set (ids r) = insert new (set (ids c))"
    "distinct (ids c) \<Longrightarrow> new \<notin> set (ids c) \<Longrightarrow> distinct (ids l @ ids r)"
    using * by blast+
qed

lemma wf_child:
  "wf_tree (Suc h) mn P (NodeT i ks ts) \<Longrightarrow> route ks k < length ts"
  using route_le_length [of ks k] by simp

lemma wf_replace_child:
  assumes "wf_tree (Suc h) mn P (NodeT i ks ts)" "wf_tree h MIN_KEYS (\<lambda>k. P k \<and> route ks k = j) c"
  shows "wf_tree (Suc h) mn P (NodeT i ks (ts[j := c]))"
proof -
  have "wf_tree h MIN_KEYS (\<lambda>k. P k \<and> route ks k = n) (ts[j := c] ! n)" if "n < length ts" for n
    using assms that by (cases "n = j") auto
  with assms(1) show ?thesis by auto
qed

lemma tget_replace_child:
  assumes "wf_tree (Suc h) mn P (NodeT i ks ts)" "j = route ks k" "tget h c = (tget h (ts ! j))(k := ov)"
  shows "tget (Suc h) (NodeT i ks (ts[j := c])) = (tget (Suc h) (NodeT i ks ts))(k := ov)"
  using assms wf_child [OF assms(1), of k] by (auto simp: fun_eq_iff nth_list_update)

definition split_children :: "bpt list \<Rightarrow> nat \<Rightarrow> bpt \<Rightarrow> bpt \<Rightarrow> bpt list" where
  "split_children ts j l r = take j ts @ l # r # drop (Suc j) ts"

lemma nth_split_children:
  assumes "j < length ts"
  shows "split_children ts j l r ! n =
    (if n < j then ts ! n else if n = j then l else if n = Suc j then r else ts ! (n - 1))"
proof (cases "Suc j < n")
  case True
  then have "n - j = Suc (Suc (n - j - 2))" "Suc j + (n - j - 2) = n - 1" by auto
  with True assms show ?thesis by (simp add: split_children_def nth_append min_def)
next
  case False
  then have "n < j \<or> n = j \<or> n = Suc j" by auto
  with assms show ?thesis by (auto simp: split_children_def nth_append min_def)
qed

lemma length_split_children: "j < length ts \<Longrightarrow> length (split_children ts j l r) = Suc (length ts)"
  by (simp add: split_children_def)

lemma wf_split_child:
  assumes wf: "wf_tree (Suc h) mn P (NodeT i ks ts)" and j: "j < length ts"
    and room: "\<not> is_full (NodeT i ks ts)" and full: "is_full (ts ! j)"
    and split: "split_tree new (ts ! j) = (l, sep, r)"
  defines "ks' \<equiv> take j ks @ sep # drop j ks"
  shows "wf_tree (Suc h) mn P (NodeT i ks' (split_children ts j l r))"
    "tget (Suc h) (NodeT i ks' (split_children ts j l r)) = tget (Suc h) (NodeT i ks ts)"
    "route ks' k = route ks k + (if sep \<le> k then 1 else 0)"
    "route ks sep = j"
proof -
  from wf have srt: "sorted_wrt (<) ks" and P: "\<forall>k \<in> set ks. P k" and len: "length ts = Suc (length ks)"
    and ch: "\<And>n. n < length ts \<Longrightarrow> wf_tree h MIN_KEYS (\<lambda>k. P k \<and> route ks k = n) (ts ! n)"
    by auto
  note sp = wf_split [OF ch [OF j] full split]
  from sp(3) have sep: "P sep" "route ks sep = j" by auto
  from sp(4) obtain k0 where k0: "route ks k0 = j" "k0 < sep" by blast
  have srt': "sorted_wrt (<) ks'"
    unfolding ks'_def by (rule sorted_insert_at [OF srt sep(2) k0])
  have route': "route ks' k = route ks k + (if sep \<le> k then 1 else 0)" for k
    unfolding ks'_def by (rule route_insert_at)
  have below: "k < sep" if "route ks k < j" for k
    using that sep(2) route_mono [of sep k ks] by (metis not_le not_less)
  have above: "sep \<le> k" if "j < route ks k" for k
    using that sep(2) route_mono [of k sep ks] by (metis not_le not_less linear)
  show "wf_tree (Suc h) mn P (NodeT i ks' (split_children ts j l r))"
  proof -
    have "wf_tree h MIN_KEYS (\<lambda>k. P k \<and> route ks' k = n) (split_children ts j l r ! n)"
      if n: "n < Suc (length ts)" for n
    proof -
      consider "n < j" | "n = j" | "n = Suc j" | "Suc j < n" by linarith
      then show ?thesis
      proof cases
        case 1
        then have "wf_tree h MIN_KEYS (\<lambda>k. P k \<and> route ks k = n) (ts ! n)" using ch j by simp
        then have "wf_tree h MIN_KEYS (\<lambda>k. P k \<and> route ks' k = n) (ts ! n)"
          by (rule wf_mono) (use 1 below route' in \<open>auto simp: not_le\<close>)
        with 1 j show ?thesis by (simp add: nth_split_children)
      next
        case 2
        have "wf_tree h MIN_KEYS (\<lambda>k. P k \<and> route ks' k = n) l"
          by (rule wf_mono [OF sp(1)]) (use 2 route' in auto)
        with 2 j show ?thesis by (simp add: nth_split_children)
      next
        case 3
        have "wf_tree h MIN_KEYS (\<lambda>k. P k \<and> route ks' k = n) r"
          by (rule wf_mono [OF sp(2)]) (use 3 route' in auto)
        with 3 j show ?thesis by (simp add: nth_split_children)
      next
        case 4
        then have "wf_tree h MIN_KEYS (\<lambda>k. P k \<and> route ks k = n - 1) (ts ! (n - 1))" using ch n by simp
        then have "wf_tree h MIN_KEYS (\<lambda>k. P k \<and> route ks' k = n) (ts ! (n - 1))"
          by (rule wf_mono) (use 4 above route' in auto)
        with 4 j show ?thesis by (simp add: nth_split_children)
      qed
    qed
    moreover have "length ks' = Suc (length ks)" "\<forall>k \<in> set ks'. P k"
      using P sep(1) len j by (auto simp: ks'_def dest: in_set_takeD in_set_dropD)
    ultimately show ?thesis
      using srt' wf room len by (auto simp: length_split_children [OF j])
  qed
  show "tget (Suc h) (NodeT i ks' (split_children ts j l r)) = tget (Suc h) (NodeT i ks ts)"
  proof
    fix k
    consider "route ks k < j" | "route ks k = j" | "j < route ks k" by linarith
    then show "tget (Suc h) (NodeT i ks' (split_children ts j l r)) k = tget (Suc h) (NodeT i ks ts) k"
    proof cases
      case 1
      from below [OF 1] have "\<not> sep \<le> k" by simp
      with 1 j show ?thesis by (simp add: route' nth_split_children)
    next
      case 2
      with sp(7) [of k] j show ?thesis by (simp add: route' nth_split_children not_le [symmetric])
    next
      case 3
      with above [OF 3] j show ?thesis by (simp add: route' nth_split_children)
    qed
  qed
  show "route ks' k = route ks k + (if sep \<le> k then 1 else 0)" by (rule route')
  show "route ks sep = j" by (rule sep(2))
qed

subsection \<open>A tree in a store\<close>

text \<open>
  \<open>rep h H t nxt\<close>: the pages \<open>H\<close> hold the tree, and its leaves are linked from left to right; the last
  one links to \<open>nxt\<close>.
\<close>

definition first_of :: "bpt list \<Rightarrow> u64 \<Rightarrow> u64" where
  "first_of ts nxt = (case ts of [] \<Rightarrow> nxt | t # _ \<Rightarrow> first_leaf t)"

lemma first_of_simps [simp]: "first_of [] nxt = nxt" "first_of (t # ts) nxt = first_leaf t"
  by (simp_all add: first_of_def)

fun chain :: "(bpt \<Rightarrow> u64 \<Rightarrow> bool) \<Rightarrow> bpt list \<Rightarrow> u64 \<Rightarrow> bool" where
  "chain R [] nxt \<longleftrightarrow> True"
| "chain R (t # ts) nxt \<longleftrightarrow> R t (first_of ts nxt) \<and> chain R ts nxt"

fun rep :: "nat \<Rightarrow> (u64 \<Rightarrow> index_page option) \<Rightarrow> bpt \<Rightarrow> u64 \<Rightarrow> bool" where
  "rep 0 H (LeafT i es) nxt \<longleftrightarrow> (\<exists>r. H i = Some (Leaf i es nxt 0 r))"
| "rep (Suc h) H (NodeT i ks ts) nxt \<longleftrightarrow>
     (\<exists>r. H i = Some (Internal i ks (map root_id ts) 0 r)) \<and> chain (rep h H) ts nxt"
| "rep _ _ _ _ \<longleftrightarrow> False"

lemma first_of_append: "first_of (xs @ ys) nxt = first_of xs (first_of ys nxt)"
  by (cases xs) auto

lemma chain_append: "chain R (xs @ ys) nxt \<longleftrightarrow> chain R xs (first_of ys nxt) \<and> chain R ys nxt"
  by (induction xs) (auto simp: first_of_append)

lemma chain_mono:
  "chain R ts nxt \<Longrightarrow> (\<And>t n. t \<in> set ts \<Longrightarrow> R t n \<Longrightarrow> R' t n) \<Longrightarrow> chain R' ts nxt"
  by (induction ts) auto

lemma rep_mono:
  "rep h H t nxt \<Longrightarrow> (\<And>q x. q \<in> set (ids t) \<Longrightarrow> H q = Some x \<Longrightarrow> H' q = Some x) \<Longrightarrow> rep h H' t nxt"
proof (induction h arbitrary: t nxt)
  case 0
  then show ?case by (cases t) auto
next
  case (Suc h)
  then obtain i ks ts where t: "t = NodeT i ks ts" by (cases t) auto
  from Suc.prems(1) have "chain (rep h H) ts nxt" unfolding t by simp
  then have "chain (rep h H') ts nxt"
  proof (rule chain_mono)
    fix t' n assume "t' \<in> set ts" "rep h H t' n"
    with Suc.prems(2) show "rep h H' t' n" unfolding t by (intro Suc.IH [of t' n]) auto
  qed
  with Suc.prems show ?case unfolding t by auto
qed

lemma first_leaf_node: "ts \<noteq> [] \<Longrightarrow> first_leaf (NodeT i ks ts) = first_of ts nxt"
  by (cases ts) auto

lemma chain_nth:
  assumes "chain R ts nxt" "j < length ts"
  shows "R (ts ! j) (first_of (drop (Suc j) ts) nxt)"
  using assms by (subst (asm) id_take_nth_drop [OF assms(2)]) (simp add: chain_append)

lemma chain_update:
  assumes "chain R ts nxt" "j < length ts" "first_leaf c = first_leaf (ts ! j)"
    and "R c (first_of (drop (Suc j) ts) nxt)"
  shows "chain R (ts[j := c]) nxt"
proof -
  have ts: "ts = take j ts @ ts ! j # drop (Suc j) ts" by (rule id_take_nth_drop [OF assms(2)])
  from assms(1) have "chain R (take j ts @ ts ! j # drop (Suc j) ts) nxt" using ts by simp
  with assms(3,4) show ?thesis by (simp add: chain_append upd_conv_take_nth_drop [OF assms(2)])
qed

lemma first_of_update:
  "first_leaf c = first_leaf (ts ! j) \<Longrightarrow> first_of (ts[j := c]) nxt = first_of ts nxt"
  by (cases ts; cases j) auto

text \<open>The two pages that a split writes represent the two halves.\<close>

fun lower_page :: "u64 \<Rightarrow> index_page \<Rightarrow> index_page" where
  "lower_page new (Leaf i es nxt ck r) = Leaf i (take (length es div 2) es) new 0 r"
| "lower_page new (Internal i ks cs ck r) =
     Internal i (take ((length ks - 1) div 2) ks) (take ((length ks - 1) div 2 + 1) cs) 0 r"

fun upper_page :: "u64 \<Rightarrow> index_page \<Rightarrow> index_page" where
  "upper_page new (Leaf i es nxt ck r) = Leaf new (drop (length es div 2) es) nxt 0 False"
| "upper_page new (Internal i ks cs ck r) =
     Internal new (drop ((length ks - 1) div 2 + 1) ks) (drop ((length ks - 1) div 2 + 1) cs) 0 False"

lemma rep_split:
  assumes rep: "rep h H c nxt" and page: "H (root_id c) = Some p"
    and split: "split_tree new c = (l, sep, r)" and wf: "wf_tree h mn P c" and full: "is_full c"
    and dist: "distinct (ids c)"
    and low: "\<exists>b. H' (root_id c) = Some (set_root b (lower_page new p))"
    and high: "H' new = Some (upper_page new p)"
    and same: "\<And>q x. q \<in> set (ids c) - {root_id c} \<Longrightarrow> H q = Some x \<Longrightarrow> H' q = Some x"
  shows "rep h H' l (first_leaf r)" "rep h H' r nxt" "first_leaf l = first_leaf c"
proof -
  have "rep h H' l (first_leaf r) \<and> rep h H' r nxt \<and> first_leaf l = first_leaf c"
    using wf
  proof (cases rule: wf_cases)
    case (1 i es)
    with rep page low high split show ?thesis by (auto simp: Let_def)
  next
    case (2 h' i ks ts)
    let ?m = "(length ks - 1) div 2"
    from 2 wf full have len: "length ks = 252" "length ts = 253" by (auto simp: page_consts)
    from 2 split have l: "l = NodeT i (take ?m ks) (take (Suc ?m) ts)"
      and r: "r = NodeT new (drop (Suc ?m) ks) (drop (Suc ?m) ts)" by (auto simp: Let_def)
    from 2 rep have ch: "chain (rep h' H) ts nxt" by simp
    then have "chain (rep h' H') ts nxt"
    proof (rule chain_mono)
      fix t n assume t: "t \<in> set ts" "rep h' H t n"
      have "i \<notin> set (ids t)" using dist 2 t(1) by auto
      with t(1) same 2 show "rep h' H' t n" by (intro rep_mono [OF t(2)]) auto
    qed
    then have "chain (rep h' H') (take (Suc ?m) ts @ drop (Suc ?m) ts) nxt" by simp
    then have c2: "chain (rep h' H') (take (Suc ?m) ts) (first_of (drop (Suc ?m) ts) nxt)"
      "chain (rep h' H') (drop (Suc ?m) ts) nxt" by (simp_all only: chain_append)
    have ne: "drop (Suc ?m) ts \<noteq> []" using len by simp
    have "first_leaf l = first_leaf c" unfolding l 2(2) using len by (cases ts) auto
    moreover from rep page 2 obtain b where p: "p = Internal i ks (map root_id ts) 0 b" by auto
    from low obtain b' where "H' i = Some (set_root b' (lower_page new p))" using 2 by auto
    then have "H' i = Some (Internal i (take ?m ks) (map root_id (take (Suc ?m) ts)) 0 b')"
      by (simp only: p lower_page.simps set_root.simps take_map Suc_eq_plus1)
    moreover have "H' new = Some (Internal new (drop (Suc ?m) ks) (map root_id (drop (Suc ?m) ts)) 0 False)"
      using high by (simp only: p upper_page.simps drop_map Suc_eq_plus1)
    ultimately have "rep h H' l (first_of (drop (Suc ?m) ts) nxt)" "rep h H' r nxt"
      "first_leaf l = first_leaf c"
      using c2 2 unfolding l r by auto
    moreover have "first_leaf r = first_of (drop (Suc ?m) ts) nxt"
      unfolding r by (rule first_leaf_node [OF ne])
    ultimately show ?thesis by simp
  qed
  then show "rep h H' l (first_leaf r)" "rep h H' r nxt" "first_leaf l = first_leaf c" by blast+
qed

subsection \<open>The entries of a leaf\<close>

lemma sorted_vec_insert:
  assumes "sorted_wrt (<) xs" "i \<le> length xs" "\<And>j. j < i \<Longrightarrow> xs ! j < x"
    and "\<And>j. i \<le> j \<Longrightarrow> j < length xs \<Longrightarrow> x < xs ! j"
  shows "sorted_wrt (<) (take i xs @ x # drop i xs)"
proof -
  have "y < x" if "y \<in> set (take i xs)" for y
    using that assms(2,3) by (auto simp: in_set_conv_nth)
  moreover have "x < y" if "y \<in> set (drop i xs)" for y
    using that assms(2,4) by (auto simp: in_set_conv_nth)
  moreover have "sorted_wrt (<) (take i xs @ drop i xs)" using assms(1) by simp
  ultimately show ?thesis
    by (auto simp: sorted_wrt_append simp del: append_take_drop_id intro: less_trans)
qed

lemma map_of_insert_at:
  assumes "k \<notin> fst ` set es"
  shows "map_of (take i es @ (k, v) # drop i es) = (map_of es)(k \<mapsto> v)"
proof -
  have "map_of (take i es) k = None"
    using assms by (force simp: map_of_eq_None_iff dest: in_set_takeD)
  moreover have "map_of es = map_of (drop i es) ++ map_of (take i es)"
    by (metis append_take_drop_id map_of_append)
  ultimately show ?thesis by (auto simp: fun_eq_iff map_add_def split: option.splits)
qed

lemma map_of_remove_at:
  assumes "distinct (map fst es)" "i < length es" "fst (es ! i) = k"
  shows "map_of (take i es @ drop (Suc i) es) = (map_of es)(k := None)"
proof -
  have es: "es = take i es @ es ! i # drop (Suc i) es" by (rule id_take_nth_drop [OF assms(2)])
  have "distinct (map fst (take i es) @ k # map fst (drop (Suc i) es))"
    using assms(1,3) by (subst (asm) es) simp
  then have "map_of (take i es) k = None" "map_of (drop (Suc i) es) k = None"
    by (auto simp: map_of_eq_None_iff)
  moreover have "map_of es = map_of (es ! i # drop (Suc i) es) ++ map_of (take i es)"
    by (subst es) (rule map_of_append)
  ultimately show ?thesis
    using assms(3) by (cases "es ! i") (auto simp: fun_eq_iff map_add_def split: option.splits)
qed

lemma map_of_update_at:
  assumes "distinct (map fst es)" "i < length es" "fst (es ! i) = k"
  shows "map_of (es[i := (k, v)]) = (map_of es)(k \<mapsto> v)"
proof -
  have es: "es = take i es @ es ! i # drop (Suc i) es" by (rule id_take_nth_drop [OF assms(2)])
  have "distinct (map fst (take i es) @ k # map fst (drop (Suc i) es))"
    using assms(1,3) by (subst (asm) es) simp
  then have "map_of (take i es) k = None" by (auto simp: map_of_eq_None_iff)
  moreover have "map_of es = map_of (es ! i # drop (Suc i) es) ++ map_of (take i es)"
    by (subst es) (rule map_of_append)
  ultimately show ?thesis
    using assms(2,3)
    by (cases "es ! i") (auto simp: upd_conv_take_nth_drop fun_eq_iff map_add_def split: option.splits)
qed

subsection \<open>Counting pages\<close>

lemma sum_list_lower: "(\<And>x. x \<in> set xs \<Longrightarrow> (n :: nat) \<le> f x) \<Longrightarrow> length xs * n \<le> sum_list (map f xs)"
  by (induction xs) (auto simp: add_le_mono)

lemma length_ids_lower: "wf_tree h MIN_KEYS P t \<Longrightarrow> 126 ^ h \<le> length (ids t)"
proof (induction h arbitrary: P t)
  case 0
  then show ?case by (cases rule: wf_cases) auto
next
  case (Suc h)
  from Suc.prems obtain i ks ts where t: "t = NodeT i ks ts" by (cases rule: wf_cases) auto
  with Suc.prems have len: "126 \<le> length ts" by (auto simp: page_consts)
  have "126 ^ h \<le> length (ids c)" if "c \<in> set ts" for c
  proof -
    from that obtain j where "j < length ts" "c = ts ! j" by (auto simp: in_set_conv_nth)
    with Suc.prems t have "wf_tree h MIN_KEYS (\<lambda>k. P k \<and> route ks k = j) c" by auto
    with Suc.IH show ?thesis .
  qed
  from sum_list_lower [OF this] have "length ts * 126 ^ h \<le> length (concat (map ids ts))"
    by (simp add: length_concat comp_def)
  with mult_le_mono1 [OF len] have "126 * 126 ^ h \<le> length (concat (map ids ts))"
    by (rule order_trans)
  then show ?case unfolding t by (simp add: le_SucI)
qed

lemma length_ids_root:
  assumes "wf_tree (Suc h) 1 P t"
  shows "2 * 126 ^ h \<le> length (ids t)"
proof -
  from assms obtain i ks ts where t: "t = NodeT i ks ts" by (cases rule: wf_cases) auto
  with assms have len: "2 \<le> length ts" by auto
  have "126 ^ h \<le> length (ids c)" if "c \<in> set ts" for c
  proof -
    from that obtain j where "j < length ts" "c = ts ! j" by (auto simp: in_set_conv_nth)
    with assms t have "wf_tree h MIN_KEYS (\<lambda>k. P k \<and> route ks k = j) c" by auto
    then show ?thesis by (rule length_ids_lower)
  qed
  from sum_list_lower [OF this] have "length ts * 126 ^ h \<le> length (concat (map ids ts))"
    by (simp add: length_concat comp_def)
  with mult_le_mono1 [OF len] have "2 * 126 ^ h \<le> length (concat (map ids ts))"
    by (rule order_trans)
  then show ?thesis unfolding t by (simp add: le_SucI)
qed

text \<open>The page ids bound the height: nine levels would need more pages than there are ids.\<close>

lemma height_bound:
  assumes "wf_tree h 1 P t" "distinct (ids t)" "\<And>p. p \<in> set (ids t) \<Longrightarrow> unat p \<le> 4503599627370495"
  shows "h \<le> 8"
proof (cases h)
  case (Suc h')
  have "set (map unat (ids t)) \<subseteq> {..4503599627370495}" using assms(3) by auto
  then have "card (set (map unat (ids t))) \<le> 4503599627370496"
    using card_mono [of "{..4503599627370495 :: nat}"] by fastforce
  moreover have "distinct (map unat (ids t))"
    using assms(2) by (simp add: distinct_map inj_on_def word_unat_eq_iff)
  ultimately have len: "length (ids t) \<le> 4503599627370496"
    using distinct_card by fastforce
  show ?thesis
  proof (rule ccontr)
    assume "\<not> h \<le> 8"
    with Suc have "8 \<le> h'" by simp
    then have "(126 :: nat) ^ 8 \<le> 126 ^ h'" by (intro power_increasing) simp_all
    with length_ids_root [of h' P t] assms(1) Suc len show False by simp
  qed
qed simp

end
