(* ===== verification/Btree_Correct.thy ===== *)
theory Btree_Correct
  imports Btree Btree_Tree
begin

text \<open>
  Correctness of the B+Tree operations over the cached file. The store is the one of the locale
  \<open>page_store\<close> (interpreted as \<open>store\<close>); a tree of \<open>Btree_Tree\<close> abstracts the pages, and a map from keys
  to values abstracts the tree. The relation \<open>btree_map\<close> ties the three together; lookup, insertion
  and deletion refine the operations of the map.
\<close>

subsection \<open>What a step leaves alone\<close>

text \<open>What is cached of the pages of others was cached before.\<close>

definition cache_kept :: "u64 set \<Rightarrow> btree_manager \<Rightarrow> btree_manager \<Rightarrow> bool" where
  "cache_kept X s s' \<longleftrightarrow>
     (\<forall>q p. q \<in> X \<and> cache_get (bm_cache s') q = Some p \<longrightarrow> cache_get (bm_cache s) q = Some p)"

lemma cache_kept_refl [simp]: "cache_kept X s s"
  by (simp add: cache_kept_def)

lemma cache_kept_same: "bm_cache s' = bm_cache s \<Longrightarrow> cache_kept X s s'"
  by (simp add: cache_kept_def)

lemma cache_kept_trans: "cache_kept X s s' \<Longrightarrow> cache_kept X s' s'' \<Longrightarrow> cache_kept X s s''"
  by (simp add: cache_kept_def)

text \<open>
  \<open>bm_ext X n A s s'\<close>: from \<open>s\<close> to \<open>s'\<close> at most \<open>n\<close> pages were allocated, no page of the index outside \<open>A\<close>
  and no page that is not of the index was changed.
\<close>

definition bm_ext :: "u64 set \<Rightarrow> nat \<Rightarrow> u64 set \<Rightarrow> btree_manager \<Rightarrow> btree_manager \<Rightarrow> bool" where
  "bm_ext X n A s s' \<longleftrightarrow>
     bm_good X s' \<and> bm_live X s \<subseteq> bm_live X s' \<and> (\<forall>m. bm_room (m + n) s \<longrightarrow> bm_room m s') \<and>
     (\<forall>q x. q \<notin> A \<and> disk_page X s q = Some x \<longrightarrow> disk_page X s' q = Some x) \<and>
     (\<forall>q. q \<notin> bm_live X s' \<longrightarrow> raw_page s' q = raw_page s q) \<and> cache_kept X s s' \<and> db_len s \<le> db_len s' \<and>
     (bm_coordinator s' = None \<longleftrightarrow> bm_coordinator s = None) \<and>
     bm_root_page_id s' = bm_root_page_id s \<and> bm_tree_height s' = bm_tree_height s"

lemma bm_ext_refl: "bm_good X s \<Longrightarrow> bm_ext X 0 A s s"
  by (simp add: bm_ext_def)

lemma bm_ext_trans:
  assumes "bm_ext X n A s s'" "bm_ext X m B s' s''" "n + m \<le> k" "A \<union> B \<subseteq> C"
  shows "bm_ext X k C s s''"
proof -
  have "bm_room l s''" if "bm_room (l + k) s" for l
  proof -
    have "bm_room ((l + m) + n) s" using that assms(3) by (auto simp: bm_room_def)
    with assms(1,2) show ?thesis unfolding bm_ext_def by blast
  qed
  moreover have "disk_page X s'' q = Some x" if "q \<notin> C" "disk_page X s q = Some x" for q x
    using that assms unfolding bm_ext_def by blast
  moreover have "raw_page s'' q = raw_page s q" if "q \<notin> bm_live X s''" for q
    using that assms(1,2) unfolding bm_ext_def by (metis subsetD)
  moreover have "cache_kept X s s''" using assms(1,2) cache_kept_trans unfolding bm_ext_def by blast
  ultimately show ?thesis using assms unfolding bm_ext_def by auto
qed

lemma bm_extD:
  assumes "bm_ext X n A s s'"
  shows "bm_good X s'" "bm_live X s \<subseteq> bm_live X s'" "bm_room (m + n) s \<Longrightarrow> bm_room m s'"
    "q \<notin> A \<Longrightarrow> disk_page X s q = Some x \<Longrightarrow> disk_page X s' q = Some x"
    "bm_root_page_id s' = bm_root_page_id s" "bm_tree_height s' = bm_tree_height s"
    "q \<in> X \<Longrightarrow> raw_page s' q = raw_page s q"
  using assms by (auto simp: bm_ext_def bm_live_def)

lemma wal_simps [simp]:
  "disk_page X (s\<lparr> bm_wal := w \<rparr>) = disk_page X s" "bm_live X (s\<lparr> bm_wal := w \<rparr>) = bm_live X s"
  "bm_good X (s\<lparr> bm_wal := w \<rparr>) = bm_good X s" "bm_room n (s\<lparr> bm_wal := w \<rparr>) = bm_room n s"
  "raw_page (s\<lparr> bm_wal := w \<rparr>) = raw_page s" "db_len (s\<lparr> bm_wal := w \<rparr>) = db_len s"
  "cache_kept X s' (s\<lparr> bm_wal := w \<rparr>) = cache_kept X s' s"
  by (simp_all add: cache_kept_def fun_eq_iff disk_page_def bm_live_def bm_good_def bm_room_def cache_coherent_def
      raw_page_def db_len_def)

text \<open>
  What the other users of the allocator and the file see of an operation of the index: their pages are
  as they were, no page is given back, and at most \<open>n\<close> pages are taken.
\<close>

definition index_step :: "u64 set \<Rightarrow> nat \<Rightarrow> btree_manager \<Rightarrow> btree_manager \<Rightarrow> bool" where
  "index_step X n s s' \<longleftrightarrow>
     bm_live X s \<subseteq> bm_live X s' \<and> (\<forall>m. bm_room (m + n) s \<longrightarrow> bm_room m s') \<and>
     (\<forall>q. q \<notin> bm_live X s' \<longrightarrow> raw_page s' q = raw_page s q) \<and> cache_kept X s s' \<and> db_len s \<le> db_len s' \<and>
     (bm_coordinator s' = None \<longleftrightarrow> bm_coordinator s = None)"

lemma index_step_ext: "bm_ext X n A s s' \<Longrightarrow> index_step X n s s'"
  by (simp add: index_step_def bm_ext_def)

lemma index_step_refl: "index_step X 0 s s"
  by (simp add: index_step_def)

lemma index_step_trans:
  assumes "index_step X n s s'" "index_step X m s' s''" "n + m \<le> k"
  shows "index_step X k s s''"
proof -
  have "bm_room l s''" if "bm_room (l + k) s" for l
  proof -
    have "bm_room ((l + m) + n) s" using that assms(3) by (auto simp: bm_room_def)
    with assms(1,2) show ?thesis unfolding index_step_def by blast
  qed
  moreover have "raw_page s'' q = raw_page s q" if "q \<notin> bm_live X s''" for q
    using that assms(1,2) unfolding index_step_def by (metis subsetD)
  moreover have "cache_kept X s s''" using assms(1,2) cache_kept_trans unfolding index_step_def by blast
  ultimately show ?thesis using assms unfolding index_step_def by auto
qed

lemma index_step_mono: "index_step X n s s' \<Longrightarrow> n \<le> k \<Longrightarrow> index_step X k s s'"
  by (rule index_step_trans [OF _ index_step_refl]) simp_all

lemma index_step_raw: "index_step X n s s' \<Longrightarrow> q \<in> X \<Longrightarrow> raw_page s' q = raw_page s q"
  by (simp add: index_step_def bm_live_def)

text \<open>
  The same for a component that uses the index and pages of its own: \<open>F\<close> are the pages of the others. No page
  is given back, and the pages of the others, on disk and cached, and those nobody holds are left alone.
\<close>

definition shared_step :: "u64 set \<Rightarrow> btree_manager \<Rightarrow> btree_manager \<Rightarrow> bool" where
  "shared_step F s s' \<longleftrightarrow>
     live_pages (bm_allocator s) \<subseteq> live_pages (bm_allocator s') \<and>
     (\<forall>q. q \<in> F \<or> q \<notin> live_pages (bm_allocator s') \<longrightarrow> raw_page s' q = raw_page s q) \<and>
     cache_kept F s s' \<and> db_len s \<le> db_len s' \<and> (bm_coordinator s' = None \<longleftrightarrow> bm_coordinator s = None)"

lemma shared_step_refl [simp]: "shared_step F s s"
  by (simp add: shared_step_def)

lemma shared_step_trans: "shared_step F s s' \<Longrightarrow> shared_step F s' s'' \<Longrightarrow> shared_step F s s''"
  unfolding shared_step_def using cache_kept_trans by (intro conjI allI impI; elim conjE) (blast, metis subsetD, blast, simp, simp)

lemma shared_stepD:
  assumes "shared_step F s s'"
  shows "live_pages (bm_allocator s) \<subseteq> live_pages (bm_allocator s')" "q \<in> F \<Longrightarrow> raw_page s' q = raw_page s q"
    "q \<notin> live_pages (bm_allocator s') \<Longrightarrow> raw_page s' q = raw_page s q" "cache_kept F s s'" "db_len s \<le> db_len s'"
    "bm_coordinator s' = None \<longleftrightarrow> bm_coordinator s = None"
  using assms by (simp_all add: shared_step_def)

lemma index_step_shared:
  assumes step: "index_step X n s s'" and F: "F \<subseteq> X" and good: "bm_good X s'"
  shows "shared_step F s s'"
proof -
  have "live_pages (bm_allocator s) \<subseteq> live_pages (bm_allocator s')"
    using step good by (auto simp: index_step_def bm_live_def bm_good_def)
  moreover have "cache_kept F s s'" using step F by (auto simp: index_step_def cache_kept_def)
  ultimately show ?thesis using step F by (auto simp: shared_step_def index_step_def bm_live_def)
qed

lemma index_step_room: "index_step X n s s' \<Longrightarrow> bm_room (m + n) s \<Longrightarrow> bm_room m s'"
  by (simp add: index_step_def)

lemma bm_ext_wal: "bm_ext X n A s s' \<Longrightarrow> bm_ext X n A s (s'\<lparr> bm_wal := w \<rparr>)"
  by (simp add: bm_ext_def)

lemma load_page_root:
  "load_page pid s = (r, s') \<Longrightarrow>
   bm_root_page_id s' = bm_root_page_id s \<and> bm_tree_height s' = bm_tree_height s \<and>
   raw_page s' = raw_page s \<and> db_len s' = db_len s \<and> bm_coordinator s' = bm_coordinator s"
  by (auto simp: load_page_def raw_page_def db_len_def split: option.splits sum.splits if_splits)

lemma write_page_root:
  "write_page p s = (r, s') \<Longrightarrow>
   bm_root_page_id s' = bm_root_page_id s \<and> bm_tree_height s' = bm_tree_height s \<and>
   (bm_coordinator s' = None \<longleftrightarrow> bm_coordinator s = None)"
  by (auto simp: write_page_def disk_write_def Let_def split: option.splits sum.splits if_splits)

lemma bm_allocate_root:
  "bm_allocate s = (r, s') \<Longrightarrow>
   bm_root_page_id s' = bm_root_page_id s \<and> bm_tree_height s' = bm_tree_height s \<and>
   raw_page s' = raw_page s \<and> db_len s' = db_len s \<and> bm_coordinator s' = bm_coordinator s \<and> bm_cache s' = bm_cache s"
  by (auto simp: bm_allocate_def raw_page_def db_len_def split: prod.splits)

lemma load_ext:
  assumes "bm_good X s" "disk_page X s pid = Some p"
  obtains p' s' where "load_page pid s = (Inr p', s')" "strip p' = p" "bm_ext X 0 {} s s'"
    "disk_page X s' = disk_page X s" "bm_live X s' = bm_live X s"
proof -
  obtain p' s' where l: "load_page pid s = (Inr p', s')" "strip p' = p" "bm_good X s'" "disk_page X s' = disk_page X s"
    "bm_live X s' = bm_live X s" "\<forall>n. bm_room n s \<longrightarrow> bm_room n s'"
    using store.load_law [OF assms] by blast
  have "cache_kept X s s'"
    using assms(2) l(1) by (auto simp: load_page_def cache_kept_def disk_page_def dest!: cache_get_insert
        split: option.splits sum.splits if_splits)
  then have "bm_ext X 0 {} s s'" using l load_page_root [OF l(1)] by (auto simp: bm_ext_def)
  with l that show thesis by blast
qed

lemma alloc_ext:
  assumes "bm_good X s" "bm_room 1 s"
  obtains p s' where "bm_allocate s = (Inr p, s')" "p \<noteq> 0" "p \<notin> bm_live X s"
    "bm_live X s' = insert p (bm_live X s)" "bm_ext X 1 {} s s'" "disk_page X s' = disk_page X s"
proof -
  from store.alloc_law [OF assms(1), of 0] assms(2)
  obtain p s' where a: "bm_allocate s = (Inr p, s')" "bm_good X s'" "p \<noteq> 0" "p \<notin> bm_live X s"
    "bm_live X s' = insert p (bm_live X s)" "disk_page X s' = disk_page X s" by auto
  have "bm_room m s'" if "bm_room (Suc m) s" for m
    using store.alloc_law [OF assms(1) that] a(1) by auto
  with a bm_allocate_root [OF a(1)] have "bm_ext X 1 {} s s'" by (auto simp: bm_ext_def intro: cache_kept_same)
  with a that show ?thesis by blast
qed

lemma write_ext:
  assumes "bm_good X s" "page_id p \<in> bm_live X s" "page_id p \<noteq> 0" "page_shaped p"
  obtains s' where "write_page p s = (Inr (), s')" "bm_ext X 0 {page_id p} s s'"
    "disk_page X s' (page_id p) = Some (strip p)" "bm_live X s' = bm_live X s"
proof -
  from store.write_law [OF assms] obtain s' where w: "write_page p s = (Inr (), s')" "bm_good X s'"
    "disk_page X s' (page_id p) = Some (strip p)"
    "\<forall>q x. q \<noteq> page_id p \<and> disk_page X s q = Some x \<longrightarrow> disk_page X s' q = Some x"
    "bm_live X s' = bm_live X s" "\<forall>n. bm_room n s \<longrightarrow> bm_room n s'" by blast
  have "raw_page s' q = raw_page s q" if "q \<notin> bm_live X s'" for q
    by (rule write_page_raw [OF assms w(1)]) (use that assms(2) w(5) in auto)
  moreover have "cache_kept X s s'"
    using assms(2) w(1) by (auto simp: write_page_def disk_write_def Let_def cache_kept_def bm_live_def dest!: cache_get_insert
        split: option.splits sum.splits if_splits)
  ultimately have "bm_ext X 0 {page_id p} s s'"
    using w write_page_root [OF w(1)] write_page_len [OF w(1)] by (simp add: bm_ext_def)
  with w that show ?thesis by blast
qed

text \<open>Three pages written one after the other.\<close>

lemma write3_ext:
  assumes "bm_good X s" "distinct [page_id a, page_id b, page_id c]"
    and "{page_id a, page_id b, page_id c} \<subseteq> bm_live X s" "0 \<notin> {page_id a, page_id b, page_id c}"
    and "page_shaped a" "page_shaped b" "page_shaped c"
  obtains s1 s2 s3 where "write_page a s = (Inr (), s1)" "write_page b s1 = (Inr (), s2)"
    "write_page c s2 = (Inr (), s3)" "bm_ext X 0 {page_id a, page_id b, page_id c} s s3"
    "disk_page X s3 (page_id a) = Some (strip a)" "disk_page X s3 (page_id b) = Some (strip b)"
    "disk_page X s3 (page_id c) = Some (strip c)" "bm_live X s3 = bm_live X s"
proof -
  obtain s1 where 1: "write_page a s = (Inr (), s1)" "bm_ext X 0 {page_id a} s s1"
    "disk_page X s1 (page_id a) = Some (strip a)" "bm_live X s1 = bm_live X s"
    by (rule write_ext [OF assms(1) _ _ assms(5)]) (use assms in auto)
  obtain s2 where 2: "write_page b s1 = (Inr (), s2)" "bm_ext X 0 {page_id b} s1 s2"
    "disk_page X s2 (page_id b) = Some (strip b)" "bm_live X s2 = bm_live X s1"
    by (rule write_ext [OF bm_extD(1) [OF 1(2)] _ _ assms(6)]) (use assms 1 in auto)
  obtain s3 where 3: "write_page c s2 = (Inr (), s3)" "bm_ext X 0 {page_id c} s2 s3"
    "disk_page X s3 (page_id c) = Some (strip c)" "bm_live X s3 = bm_live X s2"
    by (rule write_ext [OF bm_extD(1) [OF 2(2)] _ _ assms(7)]) (use assms 1 2 in auto)
  have 12: "bm_ext X 0 {page_id a, page_id b} s s2" by (rule bm_ext_trans [OF 1(2) 2(2)]) auto
  have 13: "bm_ext X 0 {page_id a, page_id b, page_id c} s s3" by (rule bm_ext_trans [OF 12 3(2)]) auto
  have "disk_page X s3 (page_id b) = Some (strip b)"
    using bm_extD(4) [OF 3(2) _ 2(3)] assms(2) by simp
  moreover have "disk_page X s3 (page_id a) = Some (strip a)"
    using bm_extD(4) [OF 3(2) _ bm_extD(4) [OF 2(2) _ 1(3)]] assms(2) by simp
  ultimately show ?thesis using that 1 2 3 13 by metis
qed

lemma rep_ext:
  assumes "rep h (disk_page X s) t nxt" "bm_ext X n A s s'" "set (ids t) \<inter> A = {}"
  shows "rep h (disk_page X s') t nxt"
  using bm_extD(4) [OF assms(2)] assms(3) by (intro rep_mono [OF assms(1)]) blast

subsection \<open>Lookup\<close>

text \<open>From leaf \<open>i\<close> on, no leaf of the chain holds the key.\<close>

inductive miss_chain :: "(u64 \<Rightarrow> index_page option) \<Rightarrow> u64 \<Rightarrow> u64 \<Rightarrow> bool" for H k where
  stop: "miss_chain H k 0"
| leaf: "H i = Some (Leaf i es nxt 0 r) \<Longrightarrow> sorted_wrt (<) (map fst es) \<Longrightarrow> k \<notin> fst ` set es \<Longrightarrow>
    miss_chain H k nxt \<Longrightarrow> miss_chain H k i"

lemma binary_search_leaf_miss:
  assumes "sorted_wrt (<) (map fst es)" "k \<notin> fst ` set es"
  obtains j where "binary_search_leaf es k = Inl j"
proof (cases "binary_search_leaf es k")
  case (Inr j)
  then have "k \<in> set (map fst es)"
    using binary_search_Inr [OF assms(1), of k j] unfolding binary_search_leaf_def
    by (metis nth_mem)
  with assms(2) show ?thesis by simp
qed

lemma binary_search_leaf_hit:
  assumes "sorted_wrt (<) (map fst es)" "map_of es k = Some v"
  obtains j where "binary_search_leaf es k = Inr j" "j < length es" "es ! j = (k, v)"
proof (cases "binary_search_leaf es k")
  case (Inl j)
  then have "k \<notin> set (map fst es)"
    using binary_search_Inl_notin [OF assms(1)] by (simp add: binary_search_leaf_def)
  moreover from assms(2) have "k \<in> fst ` set es" by (force dest: map_of_SomeD)
  ultimately show ?thesis by simp
next
  case (Inr j)
  note j = binary_search_Inr [OF assms(1) Inr [unfolded binary_search_leaf_def]]
  have "map_of es (fst (es ! j)) = Some (snd (es ! j))"
    using sorted_fst_distinct [OF assms(1)] j(1) by (intro map_of_is_SomeI) auto
  with j assms(2) have "es ! j = (k, v)" by (metis length_map nth_map option.inject prod.collapse)
  with j Inr that show ?thesis by simp
qed

lemma lookup_loop_miss:
  assumes "miss_chain H k i" "H = disk_page X s" "i \<noteq> 0" "bm_good X s" "depth < MAX_TREE_HEIGHT"
  shows "\<exists>s'. lookup_loop k depth i s = Some (Inr None, s') \<and> bm_ext X 0 {} s s' \<and>
    disk_page X s' = disk_page X s \<and> bm_live X s' = bm_live X s"
  using assms
proof (induction arbitrary: s rule: miss_chain.induct)
  case stop
  then show ?case by simp
next
  case (leaf i es nxt r)
  obtain p' s' where l: "load_page i s = (Inr p', s')" "strip p' = Leaf i es nxt 0 r"
    "bm_ext X 0 {} s s'" "disk_page X s' = disk_page X s" "bm_live X s' = bm_live X s"
    using load_ext [OF leaf.prems(3) leaf.hyps(1) [unfolded leaf.prems(1)]] .
  from l(2) obtain ck where p': "p' = Leaf i es nxt ck r" by (auto simp: strip_eq_Leaf)
  obtain j where j: "binary_search_leaf es k = Inl j"
    using binary_search_leaf_miss [OF leaf.hyps(2,3)] .
  show ?case
  proof (cases "nxt = 0")
    case True
    with l p' j leaf.prems show ?thesis by (simp add: lookup_loop.simps)
  next
    case False
    from leaf.IH [of s'] l False bm_extD(1) [OF l(3)] leaf.prems
    obtain s'' where s'': "lookup_loop k depth nxt s' = Some (Inr None, s'')" "bm_ext X 0 {} s' s''"
      "disk_page X s'' = disk_page X s'" "bm_live X s'' = bm_live X s'" by auto
    have "bm_ext X 0 {} s s''" by (rule bm_ext_trans [OF l(3) s''(2)]) auto
    with s'' l p' j leaf.prems False show ?thesis by (simp add: lookup_loop.simps [of k depth i])
  qed
qed

lemma chain_miss:
  assumes "chain R ts nxt" "miss_chain H k nxt"
    and "\<And>t n. t \<in> set ts \<Longrightarrow> R t n \<Longrightarrow> miss_chain H k n \<Longrightarrow> miss_chain H k (first_leaf t)"
  shows "miss_chain H k (first_of ts nxt)"
  using assms by (induction ts) auto

lemma tree_miss:
  "rep h H t nxt \<Longrightarrow> wf_tree h mn P t \<Longrightarrow> \<not> P k \<Longrightarrow> miss_chain H k nxt \<Longrightarrow> miss_chain H k (first_leaf t)"
proof (induction h arbitrary: t nxt mn P)
  case 0
  from 0(2) obtain i es where t: "t = LeafT i es" by (cases rule: wf_cases) auto
  with 0 have "k \<notin> fst ` set es" "sorted_wrt (<) (map fst es)" by auto
  with 0 t show ?case by (auto intro: miss_chain.leaf)
next
  case (Suc h)
  from Suc.prems(2) obtain i ks ts where t: "t = NodeT i ks ts" by (cases rule: wf_cases) auto
  with Suc.prems have ch: "chain (rep h H) ts nxt" and ne: "ts \<noteq> []" by auto
  have "miss_chain H k (first_of ts nxt)"
  proof (rule chain_miss [OF ch Suc.prems(4)])
    fix t' n assume t': "t' \<in> set ts" "rep h H t' n" "miss_chain H k n"
    then obtain j where "j < length ts" "t' = ts ! j" by (auto simp: in_set_conv_nth)
    with Suc.prems(2) t have "wf_tree h MIN_KEYS (\<lambda>k. P k \<and> route ks k = j) t'" by auto
    from Suc.IH [OF t'(2) this _ t'(3)] Suc.prems(3) show "miss_chain H k (first_leaf t')" by blast
  qed
  with t ne show ?case by (simp add: first_leaf_node [where nxt = nxt])
qed

lemma lookup_leaf:
  assumes "rep 0 (disk_page X s) (LeafT i es) nxt" "sorted_wrt (<) (map fst es)" "bm_good X s"
    and "miss_chain (disk_page X s) k nxt" "depth < MAX_TREE_HEIGHT"
  shows "\<exists>s'. lookup_loop k depth i s = Some (Inr (map_of es k), s') \<and> bm_ext X 0 {} s s' \<and>
    disk_page X s' = disk_page X s \<and> bm_live X s' = bm_live X s"
proof -
  from assms(1) obtain r where page: "disk_page X s i = Some (Leaf i es nxt 0 r)" by auto
  obtain p' s' where l: "load_page i s = (Inr p', s')" "strip p' = Leaf i es nxt 0 r"
    "bm_ext X 0 {} s s'" "disk_page X s' = disk_page X s" "bm_live X s' = bm_live X s"
    using load_ext [OF assms(3) page] .
  from l(2) obtain ck where p': "p' = Leaf i es nxt ck r" by (auto simp: strip_eq_Leaf)
  show ?thesis
  proof (cases "map_of es k")
    case (Some v)
    obtain j where "binary_search_leaf es k = Inr j" "j < length es" "es ! j = (k, v)"
      using binary_search_leaf_hit [OF assms(2) Some] .
    with l p' assms(5) Some show ?thesis by (simp add: lookup_loop.simps)
  next
    case None
    then have "k \<notin> fst ` set es" by (simp add: map_of_eq_None_iff)
    from binary_search_leaf_miss [OF assms(2) this] obtain j where j: "binary_search_leaf es k = Inl j" .
    show ?thesis
    proof (cases "nxt = 0")
      case True
      with l p' assms(5) None j show ?thesis by (simp add: lookup_loop.simps)
    next
      case False
      from lookup_loop_miss [OF assms(4) l(4) [symmetric] False bm_extD(1) [OF l(3)] assms(5)]
      obtain s'' where s'': "lookup_loop k depth nxt s' = Some (Inr None, s'')" "bm_ext X 0 {} s' s''"
        "disk_page X s'' = disk_page X s'" "bm_live X s'' = bm_live X s'" by blast
      have "bm_ext X 0 {} s s''" by (rule bm_ext_trans [OF l(3) s''(2)]) auto
      with s'' l p' assms(5) None j False show ?thesis
        by (simp add: lookup_loop.simps [of k depth i])
    qed
  qed
qed

text \<open>One step down: a page of an internal node and the child that the key is routed to.\<close>

lemma load_node:
  assumes "rep (Suc h) (disk_page X s) (NodeT i ks ts) nxt" "wf_tree (Suc h) mn P (NodeT i ks ts)"
    and "bm_good X s"
  obtains ck r s' where "load_page i s = (Inr (Internal i ks (map root_id ts) ck r), s')"
    "bm_ext X 0 {} s s'" "disk_page X s' = disk_page X s" "bm_live X s' = bm_live X s"
    "find_child_index ks k = route ks k" "route ks k < length ts"
    "rep h (disk_page X s) (ts ! route ks k) (first_of (drop (Suc (route ks k)) ts) nxt)"
    "wf_tree h MIN_KEYS (\<lambda>k'. P k' \<and> route ks k' = route ks k) (ts ! route ks k)"
proof -
  from assms(1) obtain r where page: "disk_page X s i = Some (Internal i ks (map root_id ts) 0 r)" by auto
  obtain p' s' where l: "load_page i s = (Inr p', s')" "strip p' = Internal i ks (map root_id ts) 0 r"
    "bm_ext X 0 {} s s'" "disk_page X s' = disk_page X s" "bm_live X s' = bm_live X s"
    using load_ext [OF assms(3) page] .
  from l(2) obtain ck where p': "p' = Internal i ks (map root_id ts) ck r"
    by (auto simp: strip_eq_Internal)
  have j: "route ks k < length ts" using wf_child [OF assms(2)] .
  moreover have "find_child_index ks k = route ks k"
    using assms(2) by (simp add: find_child_index_route)
  moreover have "rep h (disk_page X s) (ts ! route ks k) (first_of (drop (Suc (route ks k)) ts) nxt)"
    using assms(1) chain_nth [OF _ j] by auto
  moreover have "wf_tree h MIN_KEYS (\<lambda>k'. P k' \<and> route ks k' = route ks k) (ts ! route ks k)"
    using assms(2) j by auto
  ultimately show ?thesis using that l p' by blast
qed

lemma right_miss:
  assumes "rep (Suc h) H (NodeT i ks ts) nxt" "wf_tree (Suc h) mn P (NodeT i ks ts)"
    and "miss_chain H k nxt"
  shows "miss_chain H k (first_of (drop (Suc (route ks k)) ts) nxt)"
proof -
  have "chain (rep h H) (take (Suc (route ks k)) ts @ drop (Suc (route ks k)) ts) nxt"
    using assms(1) by simp
  then have "chain (rep h H) (drop (Suc (route ks k)) ts) nxt" by (simp only: chain_append)
  then show ?thesis
  proof (rule chain_miss [OF _ assms(3)])
    fix t n assume t: "t \<in> set (drop (Suc (route ks k)) ts)" "rep h H t n" "miss_chain H k n"
    then obtain m where "m < length ts" "route ks k < m" "t = ts ! m"
      by (auto simp: in_set_conv_nth) (metis add_Suc_right add.commute less_add_Suc1 less_diff_conv)
    with assms(2) have "wf_tree h MIN_KEYS (\<lambda>k'. P k' \<and> route ks k' = m) t" "route ks k \<noteq> m" by auto
    from tree_miss [OF t(2) this(1) _ t(3)] this(2) show "miss_chain H k (first_leaf t)" by blast
  qed
qed

lemma lookup_tree:
  "rep h (disk_page X s) t nxt \<Longrightarrow> wf_tree h mn P t \<Longrightarrow> bm_good X s \<Longrightarrow>
   miss_chain (disk_page X s) k nxt \<Longrightarrow> depth + h < MAX_TREE_HEIGHT \<Longrightarrow>
   \<exists>s'. lookup_loop k depth (root_id t) s = Some (Inr (tget h t k), s') \<and> bm_ext X 0 {} s s' \<and>
     disk_page X s' = disk_page X s \<and> bm_live X s' = bm_live X s"
proof (induction h arbitrary: t s depth nxt mn P)
  case 0
  from 0(2) obtain i es where t: "t = LeafT i es" by (cases rule: wf_cases) auto
  with 0 lookup_leaf [of X s i es nxt k depth] show ?case by simp
next
  case (Suc h)
  from Suc.prems(2) obtain i ks ts where t: "t = NodeT i ks ts" by (cases rule: wf_cases) auto
  note rep = Suc.prems(1) [unfolded t] and wf = Suc.prems(2) [unfolded t]
  obtain ck r s' where l: "load_page i s = (Inr (Internal i ks (map root_id ts) ck r), s')"
    "bm_ext X 0 {} s s'" "disk_page X s' = disk_page X s" "bm_live X s' = bm_live X s"
    and j: "find_child_index ks k = route ks k" "route ks k < length ts"
    and c: "rep h (disk_page X s) (ts ! route ks k) (first_of (drop (Suc (route ks k)) ts) nxt)"
      "wf_tree h MIN_KEYS (\<lambda>k'. P k' \<and> route ks k' = route ks k) (ts ! route ks k)"
    using load_node [OF rep wf Suc.prems(3)] .
  from Suc.IH [of s', OF c(1) [folded l(3)] c(2) bm_extD(1) [OF l(2)]
      right_miss [OF rep wf Suc.prems(4), folded l(3)], of "Suc depth"] Suc.prems(5)
  obtain s'' where s'': "lookup_loop k (Suc depth) (root_id (ts ! route ks k)) s' =
      Some (Inr (tget h (ts ! route ks k) k), s'')" "bm_ext X 0 {} s' s''"
    "disk_page X s'' = disk_page X s'" "bm_live X s'' = bm_live X s'" by auto
  have "bm_ext X 0 {} s s''" by (rule bm_ext_trans [OF l(2) s''(2)]) auto
  with s'' l j t Suc.prems(5) show ?case by (simp add: lookup_loop.simps [of k depth i])
qed

subsection \<open>Splitting a child\<close>

fun separator_of :: "index_page \<Rightarrow> u64" where
  "separator_of (Leaf i es nxt ck r) = fst (es ! (length es div 2))"
| "separator_of (Internal i ks cs ck r) = ks ! ((length ks - 1) div 2)"

fun splittable :: "index_page \<Rightarrow> bool" where
  "splittable (Leaf i es nxt ck r) \<longleftrightarrow> length es = MAX_ENTRIES"
| "splittable (Internal i ks cs ck r) \<longleftrightarrow> length ks = MAX_KEYS \<and> length cs = length ks + 1"

lemma rep_root: "rep h H t nxt \<Longrightarrow> \<exists>p. H (root_id t) = Some p"
  by (cases "(h, H, t, nxt)" rule: rep.cases) auto

text \<open>A full page, and what splitting it writes.\<close>

lemma split_pages:
  assumes "rep h H c nxt" "wf_tree h mn P c" "H (root_id c) = Some (strip p)"
  shows "page_id p = root_id c" "page_shaped p" "needs_split p \<longleftrightarrow> is_full c"
    "is_full c \<Longrightarrow> splittable p"
    "split_tree new c = (l, sep, r) \<Longrightarrow> sep = separator_of p"
proof -
  have *: "page_id p = root_id c \<and> page_shaped p \<and> (needs_split p \<longleftrightarrow> is_full c) \<and>
    (is_full c \<longrightarrow> splittable p) \<and> (split_tree new c = (l, sep, r) \<longrightarrow> sep = separator_of p)"
    using assms(2)
  proof (cases rule: wf_cases)
    case (1 i es)
    with assms obtain ck b where "p = Leaf i es nxt ck b"
      by (auto simp: strip_eq_Leaf dest!: sym [of _ "strip p"])
    with 1 assms(2) show ?thesis by (auto simp: needs_split_def Let_def)
  next
    case (2 h' i ks ts)
    with assms obtain ck b where "p = Internal i ks (map root_id ts) ck b"
      by (auto simp: strip_eq_Internal dest!: sym [of _ "strip p"])
    with 2 assms(2) show ?thesis by (auto simp: needs_split_def Let_def)
  qed
  show "page_id p = root_id c" "page_shaped p" "needs_split p \<longleftrightarrow> is_full c"
    "is_full c \<Longrightarrow> splittable p" "split_tree new c = (l, sep, r) \<Longrightarrow> sep = separator_of p"
    using * by blast+
qed

lemma strip_split_pages [simp]:
  "strip (lower_page new p) = lower_page new (strip p)" "strip (upper_page new p) = upper_page new (strip p)"
  "strip (set_root b p) = set_root b (strip p)"
  "page_id (lower_page new p) = page_id p" "page_id (upper_page new p) = new"
  "page_id (set_root b p) = page_id p" "page_shaped (set_root b p) = page_shaped p"
  by (cases p; simp)+

lemma shaped_split_pages:
  assumes "splittable p"
  shows "page_shaped (lower_page new p)" "page_shaped (upper_page new p)"
  using assms by (cases p; simp add: page_consts)+

lemma split_child_run:
  assumes "load_page i s = (Inr (Internal i ks cs ck r), s1)" "j < length cs" "j \<le> length ks"
    and "load_page (cs ! j) s1 = (Inr p, s2)" "bm_allocate s2 = (Inr new, s3)"
    and "splittable p" "page_id p = cs ! j"
    and "write_page (set_root False (lower_page new p)) s3 = (Inr (), s4)"
    and "write_page (upper_page new p) s4 = (Inr (), s5)"
    and "write_page (Internal i (vec_insert ks j (separator_of p)) (vec_insert cs (j + 1) new) ck r) s5
         = (Inr (), s6)"
  shows "\<exists>w. split_child i j s = (Inr (new, separator_of p), s6\<lparr> bm_wal := w \<rparr>)"
  using assms
  by (cases p) (auto simp: split_child_def ensure_def Let_def wal_append_def returnS_def page_consts)

lemma map_root_id_split_children:
  assumes "j < length ts" "root_id l = root_id (ts ! j)" "root_id r = new"
  shows "vec_insert (map root_id ts) (j + 1) new = map root_id (split_children ts j l r)"
  using assms
  by (simp add: vec_insert_def split_children_def take_Suc_conv_app_nth take_map drop_map)

lemma split_child_law:
  assumes good: "bm_good X s" and room: "bm_room 1 s"
    and rep: "rep (Suc h) (disk_page X s) (NodeT i ks ts) nxt"
    and wf: "wf_tree (Suc h) mn P (NodeT i ks ts)" and notfull: "\<not> is_full (NodeT i ks ts)"
    and j: "j < length ts" and full: "is_full (ts ! j)"
    and dist: "distinct (ids (NodeT i ks ts))" and live: "set (ids (NodeT i ks ts)) \<subseteq> bm_live X s - {0}"
  obtains new l sep r s' where "split_child i j s = (Inr (new, sep), s')"
    "split_tree new (ts ! j) = (l, sep, r)" "bm_ext X 1 (insert new (set (ids (NodeT i ks ts)))) s s'"
    "new \<noteq> 0" "new \<notin> bm_live X s" "new \<in> bm_live X s'"
    "rep (Suc h) (disk_page X s') (NodeT i (take j ks @ sep # drop j ks) (split_children ts j l r)) nxt"
proof -
  let ?c = "ts ! j"
  let ?n = "first_of (drop (Suc j) ts) nxt"
  from rep obtain b where page: "disk_page X s i = Some (Internal i ks (map root_id ts) 0 b)"
    and ch: "chain (rep h (disk_page X s)) ts nxt" by auto
  have repc: "rep h (disk_page X s) ?c ?n" using chain_nth [OF ch j] .
  have wfc: "wf_tree h MIN_KEYS (\<lambda>k. P k \<and> route ks k = j) ?c" using wf j by auto
  from wf have len: "length ts = Suc (length ks)" by simp
  obtain p1 s1 where l1: "load_page i s = (Inr p1, s1)" "strip p1 = Internal i ks (map root_id ts) 0 b"
    "bm_ext X 0 {} s s1" "disk_page X s1 = disk_page X s" "bm_live X s1 = bm_live X s"
    using load_ext [OF good page] .
  from l1(2) obtain ck where p1: "p1 = Internal i ks (map root_id ts) ck b"
    by (auto simp: strip_eq_Internal)
  obtain pc where pc: "disk_page X s (root_id ?c) = Some pc"
    using rep_root [OF repc] by blast
  obtain p s2 where l2: "load_page (root_id ?c) s1 = (Inr p, s2)" "strip p = pc"
    "bm_ext X 0 {} s1 s2" "disk_page X s2 = disk_page X s" "bm_live X s2 = bm_live X s"
    using load_ext [OF bm_extD(1) [OF l1(3)], of "root_id ?c" pc] pc l1(4,5) by auto
  have "disk_page X s (root_id ?c) = Some (strip p)" using pc l2(2) by simp
  note pages = split_pages [OF repc wfc this]
  have 12: "bm_ext X 0 {} s s2" by (rule bm_ext_trans [OF l1(3) l2(3)]) auto
  have "bm_room 1 s2" using bm_extD(3) [OF 12, of 1] room by simp
  then obtain new s3 where al: "bm_allocate s2 = (Inr new, s3)" "new \<noteq> 0" "new \<notin> bm_live X s"
    "bm_live X s3 = insert new (bm_live X s)" "bm_ext X 1 {} s2 s3" "disk_page X s3 = disk_page X s"
    using alloc_ext [OF bm_extD(1) [OF 12]] l2(4,5) by metis
  have 13: "bm_ext X 1 {} s s3" by (rule bm_ext_trans [OF 12 al(5)]) auto
  obtain l sep r where split: "split_tree new ?c = (l, sep, r)" by (metis prod_cases3)
  note sp = split_tree_facts [OF split] and shaped = shaped_split_pages [OF pages(4) [OF full]]
  have sep: "sep = separator_of p" using pages(5) [OF split] .
  let ?ks = "take j ks @ sep # drop j ks" and ?ts = "split_children ts j l r"
  let ?pp = "Internal i ?ks (map root_id ?ts) ck b"
  have tsj: "ts = take j ts @ ?c # drop (Suc j) ts" by (rule id_take_nth_drop [OF j])
  have dist': "distinct (i # concat (map ids (take j ts)) @ ids ?c @ concat (map ids (drop (Suc j) ts)))"
    using dist by (subst (asm) tsj) simp
  have ids_eq: "set (ids (NodeT i ks ts)) = insert i (set (concat (map ids (take j ts)))
      \<union> set (ids ?c) \<union> set (concat (map ids (drop (Suc j) ts))))"
    by (subst tsj) (auto simp del: set_concat)
  have rc: "root_id ?c \<in> set (ids ?c)" by (rule root_id_in_ids)
  have neq: "i \<noteq> root_id ?c" "new \<notin> set (ids (NodeT i ks ts))" "i \<in> bm_live X s" "i \<noteq> 0"
    "root_id ?c \<in> bm_live X s" "root_id ?c \<noteq> 0"
    using dist' rc live al(3) unfolding ids_eq by (auto simp del: set_concat)
  have "new \<noteq> i" "new \<noteq> root_id ?c" using neq rc unfolding ids_eq by auto
  moreover have "page_shaped ?pp"
    using notfull len j by (simp add: length_split_children page_consts)
  ultimately obtain s4 s5 s6 where w: "write_page (set_root False (lower_page new p)) s3 = (Inr (), s4)"
    "write_page (upper_page new p) s4 = (Inr (), s5)" "write_page ?pp s5 = (Inr (), s6)"
    "bm_ext X 0 {root_id ?c, new, i} s3 s6"
    "disk_page X s6 (root_id ?c) = Some (set_root False (lower_page new (strip p)))"
    "disk_page X s6 new = Some (upper_page new (strip p))" "disk_page X s6 i = Some (strip ?pp)"
    "bm_live X s6 = bm_live X s3"
    using write3_ext [of X s3 "set_root False (lower_page new p)" "upper_page new p" ?pp]
      bm_extD(1) [OF 13] pages(1) neq shaped al(2,4) by (auto simp del: strip.simps)
  have vi: "vec_insert ks j (separator_of p) = ?ks" "vec_insert (map root_id ts) (j + 1) new = map root_id ?ts"
    using sep map_root_id_split_children [OF j sp(1,2)] by (auto simp: vec_insert_def)
  obtain wal where run: "split_child i j s = (Inr (new, sep), s6\<lparr> bm_wal := wal \<rparr>)"
    using split_child_run [OF l1(1) [unfolded p1], of j p s2 new s3 s4 s5 s6] j len l2(1) al(1)
      pages(1) pages(4) [OF full] w(1-3) vi sep by auto
  have 36: "bm_ext X 1 {root_id ?c, new, i} s s6" by (rule bm_ext_trans [OF 13 w(4)]) auto
  have same: "disk_page X s6 q = Some x" if "q \<noteq> root_id ?c" "q \<noteq> new" "q \<noteq> i" "disk_page X s q = Some x" for q x
    using bm_extD(4) [OF 36 _ that(4)] that by simp
  have repl: "rep h (disk_page X s6) l (first_leaf r)" "rep h (disk_page X s6) r ?n" "first_leaf l = first_leaf ?c"
  proof -
    have *: "disk_page X s6 q = Some x" if "q \<in> set (ids ?c) - {root_id ?c}" "disk_page X s q = Some x" for q x
      using that neq dist' ids_eq by (intro same) auto
    note rs = rep_split [OF repc \<open>disk_page X s (root_id ?c) = Some (strip p)\<close> split wfc full,
        where H' = "disk_page X s6"]
    have "distinct (ids ?c)" using dist' by simp
    from rs [OF this _ w(6) *] w(5)
    show "rep h (disk_page X s6) l (first_leaf r)" "rep h (disk_page X s6) r ?n" "first_leaf l = first_leaf ?c"
      by blast+
  qed
  have "chain (rep h (disk_page X s)) (take j ts @ ?c # drop (Suc j) ts) nxt" using ch tsj by simp
  then have c1: "chain (rep h (disk_page X s)) (take j ts) (first_leaf ?c)"
    and c2: "chain (rep h (disk_page X s)) (drop (Suc j) ts) nxt" by (simp_all add: chain_append)
  have frame: "rep h (disk_page X s6) t n" if "t \<in> set (take j ts) \<union> set (drop (Suc j) ts)"
    "rep h (disk_page X s) t n" for t n
  proof (rule rep_mono [OF that(2)])
    fix q x assume q: "q \<in> set (ids t)" "disk_page X s q = Some x"
    have "q \<in> set (concat (map ids (take j ts))) \<union> set (concat (map ids (drop (Suc j) ts)))"
      using q(1) that(1) by auto
    then show "disk_page X s6 q = Some x"
      using dist' rc neq q(2) unfolding ids_eq by (intro same) (auto simp del: set_concat)
  qed
  have "chain (rep h (disk_page X s6)) (take j ts) (first_leaf ?c)"
    by (rule chain_mono [OF c1]) (use frame in blast)
  moreover have "chain (rep h (disk_page X s6)) (drop (Suc j) ts) nxt"
    by (rule chain_mono [OF c2]) (use frame in blast)
  ultimately have "rep (Suc h) (disk_page X s6) (NodeT i ?ks ?ts) nxt"
    using w(7) repl by (simp add: split_children_def chain_append)
  moreover have "bm_ext X 1 (insert new (set (ids (NodeT i ks ts)))) s s6"
    by (rule bm_ext_trans [OF 36 bm_ext_refl]) (use bm_extD(1) [OF 36] rc ids_eq in \<open>auto simp del: set_concat\<close>)
  ultimately show ?thesis
    using run split al(2,3,4) w(8) by (intro that [of new sep "s6\<lparr> bm_wal := wal \<rparr>" l r]) (auto intro: bm_ext_wal)
qed

subsection \<open>Insertion\<close>

lemma insert_into_leaf_correct:
  assumes "sorted_wrt (<) (map fst es)"
  shows "sorted_wrt (<) (map fst (insert_into_leaf es k v))"
    "map_of (insert_into_leaf es k v) = (map_of es)(k \<mapsto> v)"
    "length (insert_into_leaf es k v) \<le> Suc (length es)"
    "set (insert_into_leaf es k v) \<subseteq> insert (k, v) (set es)"
proof -
  let ?es = "insert_into_leaf es k v"
  have "sorted_wrt (<) (map fst ?es) \<and> map_of ?es = (map_of es)(k \<mapsto> v) \<and>
    length ?es \<le> Suc (length es) \<and> set ?es \<subseteq> insert (k, v) (set es)"
  proof (cases "binary_search_leaf es k")
    case (Inl i)
    note bs = Inl [unfolded binary_search_leaf_def]
    have "sorted_wrt (<) (take i (map fst es) @ k # drop i (map fst es))"
      by (rule sorted_vec_insert [OF assms]) (use binary_search_Inl [OF assms bs] in auto)
    moreover have "k \<notin> fst ` set es" using binary_search_Inl_notin [OF assms bs] by simp
    ultimately show ?thesis
      using Inl map_of_insert_at [of k es i v]
      by (auto simp: insert_into_leaf_def vec_insert_def take_map drop_map dest: in_set_takeD in_set_dropD)
  next
    case (Inr i)
    note bs = binary_search_Inr [OF assms Inr [unfolded binary_search_leaf_def]]
    then have "map fst (es[i := (k, v)]) = map fst es" by (simp add: map_update list_update_same_conv)
    then show ?thesis
      using Inr bs assms map_of_update_at [OF sorted_fst_distinct [OF assms], of i k v]
      by (auto simp: insert_into_leaf_def dest: set_update_subset_insert [THEN subsetD])
  qed
  then show "sorted_wrt (<) (map fst ?es)" "map_of ?es = (map_of es)(k \<mapsto> v)"
    "length ?es \<le> Suc (length es)" "set ?es \<subseteq> insert (k, v) (set es)" by blast+
qed

text \<open>What setting a key of a subtree to \<open>ov\<close> achieves: a value after an insertion, none after a deletion.\<close>

definition inserted ::
  "u64 set \<Rightarrow> nat \<Rightarrow> nat \<Rightarrow> nat \<Rightarrow> (u64 \<Rightarrow> bool) \<Rightarrow> u64 \<Rightarrow> u64 \<Rightarrow> u64 option \<Rightarrow> bpt \<Rightarrow> btree_manager \<Rightarrow> btree_manager \<Rightarrow> bpt \<Rightarrow> bool" where
  "inserted X n h mn P nxt k ov t s s' t' \<longleftrightarrow>
     bm_ext X n (set (ids t) \<union> - bm_live X s) s s' \<and> rep h (disk_page X s') t' nxt \<and> wf_tree h mn P t' \<and>
     tget h t' = (tget h t)(k := ov) \<and> root_id t' = root_id t \<and> first_leaf t' = first_leaf t \<and>
     distinct (ids t') \<and> set (ids t') \<subseteq> (set (ids t) \<union> - bm_live X s) \<inter> (bm_live X s' - {0})"

definition insertable ::
  "u64 set \<Rightarrow> nat \<Rightarrow> nat \<Rightarrow> (u64 \<Rightarrow> bool) \<Rightarrow> u64 \<Rightarrow> u64 \<Rightarrow> bpt \<Rightarrow> btree_manager \<Rightarrow> bool" where
  "insertable X h mn P nxt k t s \<longleftrightarrow>
     bm_good X s \<and> bm_room h s \<and> rep h (disk_page X s) t nxt \<and> wf_tree h mn P t \<and> \<not> is_full t \<and> P k \<and>
     distinct (ids t) \<and> set (ids t) \<subseteq> bm_live X s - {0}"

lemma insert_leaf:
  assumes "insertable X 0 mn P nxt k (LeafT i es) s"
  shows "\<exists>s' t'. insert_non_full i k v s = Some (Inr (), s') \<and>
    inserted X 0 0 mn P nxt k (Some v) (LeafT i es) s s' t'"
proof -
  from assms obtain r where page: "disk_page X s i = Some (Leaf i es nxt 0 r)" and good: "bm_good X s"
    and srt: "sorted_wrt (<) (map fst es)" and P: "\<forall>e \<in> set es. P (fst e)" "P k"
    and len: "length es < MAX_ENTRIES" and i: "i \<in> bm_live X s" "i \<noteq> 0"
    by (auto simp: insertable_def)
  obtain p' s1 where l: "load_page i s = (Inr p', s1)" "strip p' = Leaf i es nxt 0 r"
    "bm_ext X 0 {} s s1" "disk_page X s1 = disk_page X s" "bm_live X s1 = bm_live X s"
    using load_ext [OF good page] .
  from l(2) obtain ck where p': "p' = Leaf i es nxt ck r" by (auto simp: strip_eq_Leaf)
  note ins = insert_into_leaf_correct [OF srt, of k v]
  obtain s2 where w: "write_page (Leaf i (insert_into_leaf es k v) nxt ck r) s1 = (Inr (), s2)"
    "bm_ext X 0 {i} s1 s2" "disk_page X s2 i = Some (Leaf i (insert_into_leaf es k v) nxt 0 r)"
    "bm_live X s2 = bm_live X s1"
    using write_ext [OF bm_extD(1) [OF l(3)], of "Leaf i (insert_into_leaf es k v) nxt ck r"]
      l(5) i ins(3) len by auto
  have ext: "bm_ext X 0 (set (ids (LeafT i es)) \<union> - bm_live X s) s s2"
    by (rule bm_ext_trans [OF l(3) w(2)]) auto
  have wf: "wf_tree 0 mn P (LeafT i (insert_into_leaf es k v))"
    using ins P len by auto
  have "inserted X 0 0 mn P nxt k (Some v) (LeafT i es) s s2 (LeafT i (insert_into_leaf es k v))"
    unfolding inserted_def using w(3,4) l(5) i ins(2) ext wf by (simp add: fun_eq_iff)
  moreover have "insert_non_full i k v s = Some (Inr (), s2)"
    using l(1) w(1) p' by (simp add: insert_non_full.simps)
  ultimately show ?thesis by blast
qed

text \<open>An insertion seen from an earlier state.\<close>

lemma inserted_trans:
  assumes "bm_ext X m (set (ids t) \<union> - bm_live X s) s s1" "set (ids t1) \<subseteq> set (ids t) \<union> - bm_live X s"
    and "tget h t1 = tget h t" "root_id t1 = root_id t" "first_leaf t1 = first_leaf t"
    and "inserted X n h mn P nxt k ov t1 s1 s' t'" "m + n \<le> l"
  shows "inserted X l h mn P nxt k ov t s s' t'"
proof -
  have "set (ids t1) \<union> - bm_live X s1 \<subseteq> set (ids t) \<union> - bm_live X s"
    using assms(2) bm_extD(2) [OF assms(1)] by blast
  moreover have "bm_ext X l (set (ids t) \<union> - bm_live X s) s s'"
    by (rule bm_ext_trans [OF assms(1), of n "set (ids t1) \<union> - bm_live X s1"])
      (use assms(6,7) calculation in \<open>auto simp: inserted_def\<close>)
  ultimately show ?thesis using assms(3-6) unfolding inserted_def by auto
qed

text \<open>Replacing the child that received the key.\<close>

lemma ids_child:
  assumes "j < length ts"
  shows "set (ids (NodeT i ks ts)) = insert i (set (concat (map ids (take j ts))) \<union> set (ids (ts ! j))
      \<union> set (concat (map ids (drop (Suc j) ts))))"
    "ids (NodeT i ks (ts[j := c])) =
      i # concat (map ids (take j ts)) @ ids c @ concat (map ids (drop (Suc j) ts))"
    "ids (NodeT i ks ts) =
      i # concat (map ids (take j ts)) @ ids (ts ! j) @ concat (map ids (drop (Suc j) ts))"
proof -
  have ts: "ts = take j ts @ ts ! j # drop (Suc j) ts" by (rule id_take_nth_drop [OF assms])
  show "ids (NodeT i ks ts) =
      i # concat (map ids (take j ts)) @ ids (ts ! j) @ concat (map ids (drop (Suc j) ts))"
    by (subst ts) simp
  then show "set (ids (NodeT i ks ts)) = insert i (set (concat (map ids (take j ts))) \<union> set (ids (ts ! j))
      \<union> set (concat (map ids (drop (Suc j) ts))))" by (auto simp del: set_concat ids.simps)
  show "ids (NodeT i ks (ts[j := c])) =
      i # concat (map ids (take j ts)) @ ids c @ concat (map ids (drop (Suc j) ts))"
    by (simp add: upd_conv_take_nth_drop [OF assms])
qed

lemma inserted_child:
  assumes rep: "rep (Suc h) (disk_page X s) (NodeT i ks ts) nxt"
    and wf: "wf_tree (Suc h) mn P (NodeT i ks ts)"
    and dist: "distinct (ids (NodeT i ks ts))" and live: "set (ids (NodeT i ks ts)) \<subseteq> bm_live X s - {0}"
    and j_def: "j = route ks k"
    and ins: "inserted X n h MIN_KEYS (\<lambda>k'. P k' \<and> route ks k' = j) (first_of (drop (Suc j) ts) nxt)
      k ov (ts ! j) s s' c"
  shows "inserted X n (Suc h) mn P nxt k ov (NodeT i ks ts) s s' (NodeT i ks (ts[j := c]))"
proof -
  let ?A = "set (ids (ts ! j)) \<union> - bm_live X s"
  have j: "j < length ts" unfolding j_def using wf_child [OF wf] .
  note idc = ids_child [OF j]
  from ins have ext: "bm_ext X n ?A s s'" and repc: "rep h (disk_page X s') c (first_of (drop (Suc j) ts) nxt)"
    and wfc: "wf_tree h MIN_KEYS (\<lambda>k'. P k' \<and> route ks k' = j) c"
    and tg: "tget h c = (tget h (ts ! j))(k := ov)" and rc: "root_id c = root_id (ts ! j)"
    and fl: "first_leaf c = first_leaf (ts ! j)" and dc: "distinct (ids c)"
    and ic: "set (ids c) \<subseteq> ?A \<inter> (bm_live X s' - {0})"
    by (auto simp: inserted_def)
  have d: "distinct (i # concat (map ids (take j ts)) @ ids (ts ! j) @ concat (map ids (drop (Suc j) ts)))"
    using dist by (simp only: idc(3))
  have sub: "set (i # concat (map ids (take j ts)) @ concat (map ids (drop (Suc j) ts))) \<subseteq> bm_live X s - {0}"
    using live unfolding idc(1) by (auto simp del: set_concat)
  have others: "set (ids t) \<inter> ?A = {}" if "t \<in> set (take j ts) \<union> set (drop (Suc j) ts)" for t
  proof -
    have "set (ids t) \<subseteq> set (concat (map ids (take j ts)) @ concat (map ids (drop (Suc j) ts)))"
      using that by auto
    with d sub show ?thesis by (auto simp del: set_concat)
  qed
  from rep obtain b where page: "disk_page X s i = Some (Internal i ks (map root_id ts) 0 b)"
    and ch: "chain (rep h (disk_page X s)) ts nxt" by auto
  have "disk_page X s' i = Some (Internal i ks (map root_id (ts[j := c])) 0 b)"
  proof -
    have "map root_id (ts[j := c]) = map root_id ts"
      using rc j by (simp add: map_update list_update_same_conv)
    moreover have "i \<notin> ?A" using d sub by (auto simp del: set_concat)
    ultimately show ?thesis using bm_extD(4) [OF ext _ page] by simp
  qed
  moreover have "chain (rep h (disk_page X s')) (ts[j := c]) nxt"
  proof -
    have "chain (rep h (disk_page X s)) (take j ts @ ts ! j # drop (Suc j) ts) nxt"
      using ch id_take_nth_drop [OF j] by simp
    then have c: "chain (rep h (disk_page X s)) (take j ts) (first_leaf (ts ! j))"
      "chain (rep h (disk_page X s)) (drop (Suc j) ts) nxt" by (simp_all add: chain_append)
    have "chain (rep h (disk_page X s')) (take j ts) (first_leaf (ts ! j))"
      by (rule chain_mono [OF c(1)]) (use others rep_ext [OF _ ext] in blast)
    moreover have "chain (rep h (disk_page X s')) (drop (Suc j) ts) nxt"
      by (rule chain_mono [OF c(2)]) (use others rep_ext [OF _ ext] in blast)
    ultimately show ?thesis using repc fl by (simp add: upd_conv_take_nth_drop [OF j] chain_append)
  qed
  ultimately have "rep (Suc h) (disk_page X s') (NodeT i ks (ts[j := c])) nxt" by simp
  moreover have "bm_ext X n (set (ids (NodeT i ks ts)) \<union> - bm_live X s) s s'"
    by (rule bm_ext_trans [OF ext bm_ext_refl [OF bm_extD(1) [OF ext]]]) (use idc in \<open>auto simp del: set_concat\<close>)
  moreover have "first_leaf (NodeT i ks (ts[j := c])) = first_leaf (NodeT i ks ts)"
    using fl j by (cases ts; cases j) auto
  moreover have "distinct (ids (NodeT i ks (ts[j := c])))"
    using d dc ic sub unfolding idc(2) by (auto simp del: set_concat)
  moreover have "set (ids (NodeT i ks (ts[j := c]))) \<subseteq>
      (set (ids (NodeT i ks ts)) \<union> - bm_live X s) \<inter> (bm_live X s' - {0})"
    using ic sub bm_extD(2) [OF ext] unfolding idc(1,2) by (auto simp del: set_concat)
  ultimately show ?thesis
    using wf_replace_child [OF wf wfc] tget_replace_child [OF wf j_def tg]
    unfolding inserted_def by (simp only: root_id.simps simp_thms)
qed

lemma split_first_leaf:
  assumes "wf_tree h mn P c" "is_full c" "split_tree new c = (l, sep, r)"
  shows "first_leaf l = first_leaf c"
  using assms(1)
proof (cases rule: wf_cases)
  case (1 i es)
  with assms(3) show ?thesis by (auto simp: Let_def)
next
  case (2 h' i ks ts)
  with assms have "l = NodeT i (take ((length ks - 1) div 2) ks) (take ((length ks - 1) div 2 + 1) ts)"
    "ts \<noteq> []" by (auto simp: Let_def)
  with 2 show ?thesis by (cases ts) auto
qed

lemma ids_split_children:
  assumes "j < length ts" "split_tree new (ts ! j) = (l, sep, r)"
    and "distinct (ids (NodeT i ks ts))" "new \<notin> set (ids (NodeT i ks ts))"
  shows "set (ids (NodeT i ks' (split_children ts j l r))) = insert new (set (ids (NodeT i ks ts)))"
    "distinct (ids (NodeT i ks' (split_children ts j l r)))"
proof -
  note sp = split_tree_facts [OF assms(2)] and idc = ids_child [OF assms(1), of i ks]
  have eq: "ids (NodeT i ks' (split_children ts j l r)) =
      i # concat (map ids (take j ts)) @ (ids l @ ids r) @ concat (map ids (drop (Suc j) ts))"
    by (simp add: split_children_def)
  have s: "set (ids l @ ids r) = insert new (set (ids (ts ! j)))" using sp(3) by simp
  show "set (ids (NodeT i ks' (split_children ts j l r))) = insert new (set (ids (NodeT i ks ts)))"
    unfolding eq idc(1) using s by (auto simp del: set_concat)
  have d: "distinct (i # concat (map ids (take j ts)) @ ids (ts ! j) @ concat (map ids (drop (Suc j) ts)))"
    using assms(3) by (simp only: idc(3))
  then have "distinct (ids l @ ids r)" using sp(4) assms(4) unfolding idc(1) by simp
  with d s assms(4) show "distinct (ids (NodeT i ks' (split_children ts j l r)))"
    unfolding eq idc(1) by (auto simp del: set_concat)
qed

lemma first_leaf_split_children:
  assumes "first_leaf l = first_leaf (ts ! j)" "j < length ts"
  shows "first_leaf (NodeT i ks' (split_children ts j l r)) = first_leaf (NodeT i ks ts)"
  using assms by (cases ts; cases j) (auto simp: split_children_def)

lemma bm_room_mono: "bm_room n s \<Longrightarrow> m \<le> n \<Longrightarrow> bm_room m s"
  by (simp add: bm_room_def)

text \<open>The child of a node that takes the key, as the target of a recursive insertion.\<close>

lemma insertable_child:
  assumes "rep (Suc h) (disk_page X s) (NodeT i ks ts) nxt" "wf_tree (Suc h) mn P (NodeT i ks ts)"
    and "bm_good X s" "bm_room h s" "P k" "\<not> is_full (ts ! route ks k)"
    and "distinct (ids (NodeT i ks ts))" "set (ids (NodeT i ks ts)) \<subseteq> bm_live X s - {0}"
  shows "insertable X h MIN_KEYS (\<lambda>k'. P k' \<and> route ks k' = route ks k)
    (first_of (drop (Suc (route ks k)) ts) nxt) k (ts ! route ks k) s"
proof -
  have j: "route ks k < length ts" using wf_child [OF assms(2)] .
  have "rep h (disk_page X s) (ts ! route ks k) (first_of (drop (Suc (route ks k)) ts) nxt)"
    using assms(1) chain_nth [OF _ j] by auto
  moreover have "wf_tree h MIN_KEYS (\<lambda>k'. P k' \<and> route ks k' = route ks k) (ts ! route ks k)"
    using assms(2) j by auto
  moreover have "distinct (ids (ts ! route ks k))"
    using assms(7) unfolding ids_child(3) [OF j] by simp
  moreover have "set (ids (ts ! route ks k)) \<subseteq> bm_live X s - {0}"
    using assms(8) unfolding ids_child(1) [OF j] by (auto simp del: set_concat)
  ultimately show ?thesis using assms(3-6) by (simp add: insertable_def)
qed

lemma insert_node_not_full:
  assumes IH: "\<And>t s P mn nxt. insertable X h mn P nxt k t s \<Longrightarrow>
      \<exists>s' t'. insert_non_full (root_id t) k v s = Some (Inr (), s') \<and> inserted X h h mn P nxt k (Some v) t s s' t'"
    and node: "insertable X (Suc h) mn P nxt k (NodeT i ks ts) s" and nf: "\<not> is_full (ts ! route ks k)"
  shows "\<exists>s' t'. insert_non_full i k v s = Some (Inr (), s') \<and>
    inserted X (Suc h) (Suc h) mn P nxt k (Some v) (NodeT i ks ts) s s' t'"
proof -
  let ?c = "ts ! route ks k"
  let ?t = "NodeT i ks ts"
  from node have good: "bm_good X s" and room: "bm_room (Suc h) s" and P: "P k"
    and rep: "rep (Suc h) (disk_page X s) ?t nxt" and wf: "wf_tree (Suc h) mn P ?t"
    and dist: "distinct (ids ?t)" and live: "set (ids ?t) \<subseteq> bm_live X s - {0}"
    by (auto simp: insertable_def simp del: ids.simps wf_tree.simps rep.simps)
  obtain ck r s1 where l1: "load_page i s = (Inr (Internal i ks (map root_id ts) ck r), s1)"
    "bm_ext X 0 {} s s1" "disk_page X s1 = disk_page X s" "bm_live X s1 = bm_live X s"
    and j: "find_child_index ks k = route ks k" "route ks k < length ts"
    and c: "rep h (disk_page X s) ?c (first_of (drop (Suc (route ks k)) ts) nxt)"
      "wf_tree h MIN_KEYS (\<lambda>k'. P k' \<and> route ks k' = route ks k) ?c"
    using load_node [OF rep wf good] .
  from rep_root [OF c(1)] obtain pc where pc: "disk_page X s1 (root_id ?c) = Some pc" using l1(3) by auto
  obtain p s2 where l2: "load_page (root_id ?c) s1 = (Inr p, s2)" "strip p = pc"
    "bm_ext X 0 {} s1 s2" "disk_page X s2 = disk_page X s1" "bm_live X s2 = bm_live X s1"
    using load_ext [OF bm_extD(1) [OF l1(2)] pc] .
  have np: "\<not> needs_split p"
    using split_pages(3) [OF c(1,2), of p] pc l1(3) l2(2) nf by simp
  have 02: "bm_ext X 0 {} s s2" by (rule bm_ext_trans [OF l1(2) l2(3)]) auto
  have s2: "disk_page X s2 = disk_page X s" "bm_live X s2 = bm_live X s" using l1 l2 by auto
  have "bm_room h s2" using bm_extD(3) [OF 02, of "Suc h"] room by (auto intro: bm_room_mono)
  then have "insertable X h MIN_KEYS (\<lambda>k'. P k' \<and> route ks k' = route ks k)
      (first_of (drop (Suc (route ks k)) ts) nxt) k ?c s2"
    using insertable_child [of h X s2 i ks ts nxt mn P k] rep wf bm_extD(1) [OF 02] P nf dist live
    by (simp only: s2 simp_thms)
  from IH [OF this] obtain s' c' where ins: "insert_non_full (root_id ?c) k v s2 = Some (Inr (), s')"
    "inserted X h h MIN_KEYS (\<lambda>k'. P k' \<and> route ks k' = route ks k)
      (first_of (drop (Suc (route ks k)) ts) nxt) k (Some v) ?c s2 s' c'" by blast
  have "inserted X h (Suc h) mn P nxt k (Some v) ?t s2 s' (NodeT i ks (ts[route ks k := c']))"
    by (rule inserted_child [OF _ wf dist _ refl ins(2)]) (use rep live s2 in simp_all)
  then have "inserted X (Suc h) (Suc h) mn P nxt k (Some v) ?t s s' (NodeT i ks (ts[route ks k := c']))"
    by (rule inserted_trans [rotated 5])
      (use bm_ext_trans [OF 02 bm_ext_refl [OF bm_extD(1) [OF 02]]] in auto)
  moreover have "insert_non_full i k v s = Some (Inr (), s')"
    using l1(1) l2(1) np j ins(1) by (simp add: insert_non_full.simps [of i] Let_def)
  ultimately show ?thesis by blast
qed

lemma insert_node_full:
  assumes IH: "\<And>t s P mn nxt. insertable X h mn P nxt k t s \<Longrightarrow>
      \<exists>s' t'. insert_non_full (root_id t) k v s = Some (Inr (), s') \<and> inserted X h h mn P nxt k (Some v) t s s' t'"
    and node: "insertable X (Suc h) mn P nxt k (NodeT i ks ts) s" and full: "is_full (ts ! route ks k)"
  shows "\<exists>s' t'. insert_non_full i k v s = Some (Inr (), s') \<and>
    inserted X (Suc h) (Suc h) mn P nxt k (Some v) (NodeT i ks ts) s s' t'"
proof -
  let ?c = "ts ! route ks k" and ?j = "route ks k"
  let ?t = "NodeT i ks ts"
  from node have good: "bm_good X s" and room: "bm_room (Suc h) s" and P: "P k"
    and rep: "rep (Suc h) (disk_page X s) ?t nxt" and wf: "wf_tree (Suc h) mn P ?t" and nf: "\<not> is_full ?t"
    and dist: "distinct (ids ?t)" and live: "set (ids ?t) \<subseteq> bm_live X s - {0}"
    by (auto simp: insertable_def simp del: ids.simps wf_tree.simps rep.simps is_full.simps)
  obtain ck r s1 where l1: "load_page i s = (Inr (Internal i ks (map root_id ts) ck r), s1)"
    "bm_ext X 0 {} s s1" "disk_page X s1 = disk_page X s" "bm_live X s1 = bm_live X s"
    and j: "find_child_index ks k = ?j" "?j < length ts"
    and c: "rep h (disk_page X s) ?c (first_of (drop (Suc ?j) ts) nxt)"
      "wf_tree h MIN_KEYS (\<lambda>k'. P k' \<and> route ks k' = ?j) ?c"
    using load_node [OF rep wf good] .
  from rep_root [OF c(1)] obtain pc where pc: "disk_page X s1 (root_id ?c) = Some pc" using l1(3) by auto
  obtain p s2 where l2: "load_page (root_id ?c) s1 = (Inr p, s2)" "strip p = pc"
    "bm_ext X 0 {} s1 s2" "disk_page X s2 = disk_page X s1" "bm_live X s2 = bm_live X s1"
    using load_ext [OF bm_extD(1) [OF l1(2)] pc] .
  have np: "needs_split p"
    using split_pages(3) [OF c(1,2), of p] pc l1(3) l2(2) full by simp
  have 02: "bm_ext X 0 {} s s2" by (rule bm_ext_trans [OF l1(2) l2(3)]) auto
  have s2: "disk_page X s2 = disk_page X s" "bm_live X s2 = bm_live X s" using l1 l2 by auto
  have room2: "bm_room (Suc h) s2" using bm_extD(3) [OF 02, of "Suc h"] room by simp
  have room1: "bm_room 1 s2" using room2 by (rule bm_room_mono) simp
  have rep2: "rep (Suc h) (disk_page X s2) ?t nxt" and live2: "set (ids ?t) \<subseteq> bm_live X s2 - {0}"
    using rep live s2 by (simp_all del: ids.simps rep.simps)
  obtain new l sep r' s3 where sc: "split_child i ?j s2 = (Inr (new, sep), s3)"
    "split_tree new ?c = (l, sep, r')" "bm_ext X 1 (insert new (set (ids ?t))) s2 s3"
    "new \<noteq> 0" "new \<notin> bm_live X s" "new \<in> bm_live X s3"
    "rep (Suc h) (disk_page X s3) (NodeT i (take ?j ks @ sep # drop ?j ks) (split_children ts ?j l r')) nxt"
    using split_child_law [OF bm_extD(1) [OF 02] room1 rep2 wf nf j(2) full dist live2]
    unfolding s2 by (metis (no_types))
  let ?ks = "take ?j ks @ sep # drop ?j ks" and ?ts = "split_children ts ?j l r'"
  let ?t3 = "NodeT i ?ks ?ts"
  note wfs = wf_split_child [OF wf j(2) nf full sc(2)] and sp = wf_split [OF c(2) full sc(2)]
  have new: "new \<notin> set (ids ?t)" using sc(5) live by blast
  note id3 = ids_split_children [OF j(2) sc(2) dist new, of ?ks]
  obtain ck4 b s4 where l4: "load_page i s3 = (Inr (Internal i ?ks (map root_id ?ts) ck4 b), s4)"
    "bm_ext X 0 {} s3 s4" "disk_page X s4 = disk_page X s3" "bm_live X s4 = bm_live X s3"
    and j4: "route ?ks k < length ?ts"
    using load_node [OF sc(7) wfs(1) bm_extD(1) [OF sc(3)], of k] .
  have 04: "bm_ext X 1 (set (ids ?t) \<union> - bm_live X s) s s4"
    using sc(5) by (intro bm_ext_trans [OF 02 bm_ext_trans [OF sc(3) l4(2) le_refl subset_refl]]) auto
  have idx: "(if sep \<le> k then ?j + 1 else ?j) = route ?ks k" using wfs(3) [of k] by simp
  have nf4: "\<not> is_full (?ts ! route ?ks k)"
    using sp(5,6) j(2) unfolding idx [symmetric] by (simp add: nth_split_children)
  have live4: "set (ids ?t3) \<subseteq> bm_live X s4 - {0}"
    using id3(1) live sc(4,6) bm_extD(2) [OF 04] l4(4) by auto
  have rep4: "rep (Suc h) (disk_page X s4) ?t3 nxt" using sc(7) l4(3) by simp
  have "bm_room h s4" using bm_extD(3) [OF 04, of h] room by simp
  from insertable_child [OF rep4 wfs(1) bm_extD(1) [OF 04] this P nf4 id3(2) live4]
  obtain s' c' where ins: "insert_non_full (root_id (?ts ! route ?ks k)) k v s4 = Some (Inr (), s')"
    "inserted X h h MIN_KEYS (\<lambda>k'. P k' \<and> route ?ks k' = route ?ks k)
      (first_of (drop (Suc (route ?ks k)) ?ts) nxt) k (Some v) (?ts ! route ?ks k) s4 s' c'"
    using IH by blast
  have "inserted X h (Suc h) mn P nxt k (Some v) ?t3 s4 s' (NodeT i ?ks (?ts[route ?ks k := c']))"
    by (rule inserted_child [OF rep4 wfs(1) id3(2) live4 refl ins(2)])
  then have "inserted X (Suc h) (Suc h) mn P nxt k (Some v) ?t s s' (NodeT i ?ks (?ts[route ?ks k := c']))"
  proof (rule inserted_trans [OF 04, rotated 4])
    show "first_leaf ?t3 = first_leaf ?t"
      by (rule first_leaf_split_children [OF split_first_leaf [OF c(2) full sc(2)] j(2)])
  qed (use id3(1) sc(5) wfs(2) in auto)
  moreover have "insert_non_full i k v s = Some (Inr (), s')"
    using l1(1) l2(1) np j sc(1) l4(1) j4 [folded idx] ins(1) [folded idx]
    by (simp add: insert_non_full.simps [of i k v s] Let_def split: if_splits)
  ultimately show ?thesis by blast
qed

lemma insert_tree:
  "insertable X h mn P nxt k t s \<Longrightarrow>
   \<exists>s' t'. insert_non_full (root_id t) k v s = Some (Inr (), s') \<and> inserted X h h mn P nxt k (Some v) t s s' t'"
proof (induction h arbitrary: t s P mn nxt)
  case 0
  then have "wf_tree 0 mn P t" by (simp add: insertable_def)
  then obtain i es where "t = LeafT i es" by (cases rule: wf_cases) auto
  with 0 insert_leaf show ?case by simp
next
  case (Suc h)
  then have "wf_tree (Suc h) mn P t" by (simp add: insertable_def)
  then obtain i ks ts where t: "t = NodeT i ks ts" by (cases rule: wf_cases) auto
  show ?case
    using insert_node_full [OF Suc.IH Suc.prems [unfolded t]]
      insert_node_not_full [OF Suc.IH Suc.prems [unfolded t]]
    by (cases "is_full (ts ! route ks k)") (simp_all add: t)
qed

end
