(* ===== verification/Btree_Map.thy ===== *)
theory Btree_Map
  imports Btree_Correct
begin

text \<open>
  The index as a map. \<open>btree_map X s m\<close> relates a manager to the map from keys to values that its tree
  stands for; the operations of \<open>v3/btree.rs\<close> refine lookup, update and removal on that map.
\<close>

subsection \<open>The abstraction relation\<close>

definition tree_in :: "u64 set \<Rightarrow> btree_manager \<Rightarrow> nat \<Rightarrow> bpt \<Rightarrow> bool" where
  "tree_in X s h t \<longleftrightarrow>
     rep h (disk_page X s) t 0 \<and> wf_tree h 1 (\<lambda>_. True) t \<and> distinct (ids t) \<and>
     set (ids t) \<subseteq> bm_live X s - {0}"

definition btree_map :: "u64 set \<Rightarrow> btree_manager \<Rightarrow> (u64 \<Rightarrow> u64 option) \<Rightarrow> bool" where
  "btree_map X s m \<longleftrightarrow>
     bm_good X s \<and>
     (btree_is_empty s \<and> m = (\<lambda>_. None) \<or>
      (\<exists>h t. root_id t = bm_root_page_id s \<and> tree_in X s h t \<and> m = tget h t))"

lemma live_in_range: "bm_good X s \<Longrightarrow> p \<in> bm_live X s \<Longrightarrow> unat p \<le> 4503599627370495"
  by (auto simp: bm_good_def pages_in_range_def bm_live_def MAX_PAGE_def)

lemma tree_in_height: "bm_good X s \<Longrightarrow> tree_in X s h t \<Longrightarrow> h \<le> 8"
  using live_in_range by (intro height_bound [of h "\<lambda>_. True" t]) (auto simp: tree_in_def)

lemma tree_in_root:
  assumes "bm_good X s" "tree_in X s h t"
  shows "root_id t \<noteq> 0" "root_id t \<noteq> EMPTY_TREE_ROOT"
proof -
  have live: "root_id t \<in> bm_live X s - {0}"
    using assms(2) root_id_in_ids [of t] by (auto simp: tree_in_def)
  then show "root_id t \<noteq> 0" by simp
  have "unat (- 1 :: u64) = 2 ^ 64 - 1"
    by (simp add: unsigned_minus_1_eq_mask mask_eq_exp_minus_1)
  with live_in_range [OF assms(1), of "root_id t"] live show "root_id t \<noteq> EMPTY_TREE_ROOT"
    by (auto simp: EMPTY_TREE_ROOT_def)
qed

lemma btree_map_cases:
  assumes "btree_map X s m"
  obtains "bm_good X s" "btree_is_empty s" "m = (\<lambda>_. None)"
  | h t where "bm_good X s" "\<not> btree_is_empty s" "root_id t = bm_root_page_id s" "tree_in X s h t"
    "m = tget h t" "h \<le> 8"
  using assms tree_in_height tree_in_root unfolding btree_map_def btree_is_empty_def by metis

lemma btree_map_empty: "bm_good X s \<Longrightarrow> btree_is_empty s \<Longrightarrow> btree_map X s (\<lambda>_. None)"
  by (simp add: btree_map_def)

lemma btree_mapI:
  "bm_good X s \<Longrightarrow> root_id t = bm_root_page_id s \<Longrightarrow> tree_in X s h t \<Longrightarrow> tget h t = m \<Longrightarrow> btree_map X s m"
  by (auto simp: btree_map_def)

text \<open>Steps that change no page keep the tree.\<close>

lemma tree_in_ext:
  assumes "tree_in X s h t" "bm_ext X n A s s'" "set (ids t) \<inter> A = {}"
  shows "tree_in X s' h t"
  using assms rep_ext [OF _ assms(2,3)] bm_extD(2) [OF assms(2)] unfolding tree_in_def by blast

subsection \<open>Lookup\<close>

lemma btree_lookup_correct:
  assumes "btree_map X s m"
  shows "\<exists>s'. btree_lookup k s = Some (Inr (m k), s') \<and> btree_map X s' m \<and> bm_ext X 0 {} s s'"
  using assms
proof (cases rule: btree_map_cases)
  case 1
  then show ?thesis
    using assms by (auto simp: btree_lookup_def btree_is_empty_def bm_ext_refl)
next
  case (2 h t)
  then have "rep h (disk_page X s) t 0" "wf_tree h 1 (\<lambda>_. True) t" by (auto simp: tree_in_def)
  from lookup_tree [OF this 2(1) miss_chain.stop, where depth = 0] 2(6)
  obtain s' where s': "lookup_loop k 0 (root_id t) s = Some (Inr (tget h t k), s')" "bm_ext X 0 {} s s'"
    by (auto simp: MAX_TREE_HEIGHT_def)
  have "tree_in X s' h t" by (rule tree_in_ext [OF 2(4) s'(2)]) simp
  then have "btree_map X s' m"
    using bm_extD(1,5) [OF s'(2)] 2 by (intro btree_mapI) auto
  with s' 2 show ?thesis by (auto simp: btree_lookup_def btree_is_empty_def)
qed

subsection \<open>Deletion\<close>

lemma vec_remove_correct:
  assumes "sorted_wrt (<) (map fst es)" "binary_search_leaf es k = Inr i"
  shows "sorted_wrt (<) (map fst (vec_remove es i))" "map_of (vec_remove es i) = (map_of es)(k := None)"
    "length (vec_remove es i) \<le> length es" "set (vec_remove es i) \<subseteq> set es" "k \<in> dom (map_of es)"
proof -
  note bs = binary_search_Inr [OF assms(1) assms(2) [unfolded binary_search_leaf_def]]
  then have i: "i < length es" "fst (es ! i) = k" by auto
  have "es = take i es @ es ! i # drop (Suc i) es" by (rule id_take_nth_drop [OF i(1)])
  then have "map fst es = map fst (take i es) @ fst (es ! i) # map fst (drop (Suc i) es)"
    by (metis list.simps(9) map_append)
  with assms(1) have "sorted_wrt (<) (map fst (take i es) @ fst (es ! i) # map fst (drop (Suc i) es))"
    by simp
  then show "sorted_wrt (<) (map fst (vec_remove es i))"
    by (auto simp: vec_remove_def sorted_wrt_append)
  show "map_of (vec_remove es i) = (map_of es)(k := None)"
    unfolding vec_remove_def using map_of_remove_at [OF sorted_fst_distinct [OF assms(1)] i] .
  show "length (vec_remove es i) \<le> length es" by (simp add: vec_remove_def)
  show "set (vec_remove es i) \<subseteq> set es"
    by (auto simp: vec_remove_def dest: in_set_takeD in_set_dropD)
  show "k \<in> dom (map_of es)"
    using i by (metis domIff fst_conv image_eqI map_of_eq_None_iff nth_mem)
qed

text \<open>
  The leaf that \<open>find_leaf\<close> returns holds the value of the key, and rewriting this leaf rewrites the
  value in the tree.
\<close>

definition leaf_for ::
  "u64 set \<Rightarrow> nat \<Rightarrow> nat \<Rightarrow> (u64 \<Rightarrow> bool) \<Rightarrow> u64 \<Rightarrow> u64 \<Rightarrow> bpt \<Rightarrow> btree_manager \<Rightarrow> u64 \<Rightarrow> (u64 \<times> u64) list \<Rightarrow> bool" where
  "leaf_for X h mn P nxt k t s leaf es \<longleftrightarrow>
     leaf \<in> set (ids t) \<and> sorted_wrt (<) (map fst es) \<and> length es \<le> MAX_ENTRIES \<and>
     map_of es k = tget h t k \<and>
     (\<exists>nx r. disk_page X s leaf = Some (Leaf leaf es nx 0 r) \<and>
       (\<forall>es' s2. sorted_wrt (<) (map fst es') \<and> length es' \<le> MAX_ENTRIES \<and> set es' \<subseteq> set es \<and>
          map_of es' = (map_of es)(k := None) \<and> bm_ext X 0 {leaf} s s2 \<and> bm_live X s2 = bm_live X s \<and>
          disk_page X s2 leaf = Some (Leaf leaf es' nx 0 r) \<longrightarrow>
          (\<exists>t'. inserted X 0 h mn P nxt k None t s s2 t')))"

lemma leaf_for_leaf:
  assumes "rep 0 (disk_page X s) (LeafT i es) nxt" "wf_tree 0 mn P (LeafT i es)" "i \<in> bm_live X s" "i \<noteq> 0"
  shows "leaf_for X 0 mn P nxt k (LeafT i es) s i es"
proof -
  from assms obtain r where page: "disk_page X s i = Some (Leaf i es nxt 0 r)" by auto
  have "inserted X 0 0 mn P nxt k None (LeafT i es) s s2 (LeafT i es')"
    if "sorted_wrt (<) (map fst es')" "length es' \<le> MAX_ENTRIES" "set es' \<subseteq> set es"
      "map_of es' = (map_of es)(k := None)" "bm_ext X 0 {i} s s2" "bm_live X s2 = bm_live X s"
      "disk_page X s2 i = Some (Leaf i es' nxt 0 r)" for es' s2
  proof -
    have "bm_ext X 0 (set (ids (LeafT i es)) \<union> - bm_live X s) s s2"
      by (rule bm_ext_trans [OF that(5) bm_ext_refl [OF bm_extD(1) [OF that(5)]]]) auto
    with that assms show ?thesis unfolding inserted_def by (auto simp: fun_eq_iff)
  qed
  with page assms show ?thesis unfolding leaf_for_def by auto
qed

lemma leaf_for_node:
  assumes rep: "rep (Suc h) (disk_page X s) (NodeT i ks ts) nxt"
    and wf: "wf_tree (Suc h) mn P (NodeT i ks ts)"
    and dist: "distinct (ids (NodeT i ks ts))" and live: "set (ids (NodeT i ks ts)) \<subseteq> bm_live X s - {0}"
    and leaf: "leaf_for X h MIN_KEYS (\<lambda>k'. P k' \<and> route ks k' = route ks k)
      (first_of (drop (Suc (route ks k)) ts) nxt) k (ts ! route ks k) s leaf es"
  shows "leaf_for X (Suc h) mn P nxt k (NodeT i ks ts) s leaf es"
proof -
  have j: "route ks k < length ts" using wf_child [OF wf] .
  have "leaf \<in> set (ids (NodeT i ks ts))"
    using leaf unfolding ids_child(1) [OF j] by (auto simp: leaf_for_def)
  with leaf inserted_child [OF rep wf dist live refl, where n = 0 and ov = None] show ?thesis
    unfolding leaf_for_def by (auto simp del: ids.simps) blast
qed

lemma find_leaf_tree:
  "rep h (disk_page X s0) t nxt \<Longrightarrow> wf_tree h mn P t \<Longrightarrow> distinct (ids t) \<Longrightarrow>
   set (ids t) \<subseteq> bm_live X s0 - {0} \<Longrightarrow> bm_good X s \<Longrightarrow> disk_page X s = disk_page X s0 \<Longrightarrow>
   bm_live X s = bm_live X s0 \<Longrightarrow> h < n \<Longrightarrow>
   \<exists>leaf s' es. find_leaf_loop n (root_id t) k s = (Inr leaf, s') \<and> bm_ext X 0 {} s s' \<and>
     disk_page X s' = disk_page X s0 \<and> bm_live X s' = bm_live X s0 \<and> leaf_for X h mn P nxt k t s0 leaf es"
proof (induction h arbitrary: n t s nxt mn P)
  case 0
  from "0.prems"(2) obtain i es where t: "t = LeafT i es" by (cases rule: wf_cases) auto
  with "0.prems" obtain r where page: "disk_page X s i = Some (Leaf i es nxt 0 r)" by auto
  obtain p' s' where l: "load_page i s = (Inr p', s')" "strip p' = Leaf i es nxt 0 r"
    "bm_ext X 0 {} s s'" "disk_page X s' = disk_page X s" "bm_live X s' = bm_live X s"
    using load_ext [OF "0.prems"(5) page] .
  from l(2) obtain ck where p': "p' = Leaf i es nxt ck r" by (auto simp: strip_eq_Leaf)
  have "leaf_for X 0 mn P nxt k t s0 i es"
    unfolding t by (rule leaf_for_leaf) (use "0.prems" t in auto)
  with l p' "0.prems"(6-8) show ?case
    by (cases n) (auto simp: t)
next
  case (Suc h)
  from Suc.prems(2) obtain i ks ts where t: "t = NodeT i ks ts" by (cases rule: wf_cases) auto
  note rep = Suc.prems(1) [unfolded t] and wf = Suc.prems(2) [unfolded t]
  have rep_s: "rep (Suc h) (disk_page X s) (NodeT i ks ts) nxt" using rep Suc.prems(6) by simp
  obtain ck r s1 where l: "load_page i s = (Inr (Internal i ks (map root_id ts) ck r), s1)"
    "bm_ext X 0 {} s s1" "disk_page X s1 = disk_page X s" "bm_live X s1 = bm_live X s"
    and j: "find_child_index ks k = route ks k" "route ks k < length ts"
    and c: "rep h (disk_page X s) (ts ! route ks k) (first_of (drop (Suc (route ks k)) ts) nxt)"
      "wf_tree h MIN_KEYS (\<lambda>k'. P k' \<and> route ks k' = route ks k) (ts ! route ks k)"
    using load_node [OF rep_s wf Suc.prems(5)] .
  from Suc.prems(8) obtain n' where n: "n = Suc n'" "h < n'" by (cases n) auto
  have "distinct (ids (ts ! route ks k))"
    using Suc.prems(3) unfolding t ids_child(3) [OF j(2)] by simp
  moreover have "set (ids (ts ! route ks k)) \<subseteq> bm_live X s0 - {0}"
    using Suc.prems(4) unfolding t ids_child(1) [OF j(2)] by (auto simp del: set_concat)
  moreover have "disk_page X s1 = disk_page X s0" "bm_live X s1 = bm_live X s0"
    using l Suc.prems(6,7) by auto
  ultimately obtain leaf s' es where f: "find_leaf_loop n' (root_id (ts ! route ks k)) k s1 = (Inr leaf, s')"
    "bm_ext X 0 {} s1 s'" "disk_page X s' = disk_page X s0" "bm_live X s' = bm_live X s0"
    "leaf_for X h MIN_KEYS (\<lambda>k'. P k' \<and> route ks k' = route ks k)
      (first_of (drop (Suc (route ks k)) ts) nxt) k (ts ! route ks k) s0 leaf es"
    using Suc.IH [OF c(1) [unfolded Suc.prems(6)] c(2) _ _ bm_extD(1) [OF l(2)] _ _ n(2)] by blast
  have "leaf_for X (Suc h) mn P nxt k (NodeT i ks ts) s0 leaf es"
    by (rule leaf_for_node [OF rep wf Suc.prems(3,4) [unfolded t] f(5)])
  moreover have "bm_ext X 0 {} s s'" by (rule bm_ext_trans [OF l(2) f(2)]) auto
  moreover have "find_leaf_loop n (root_id t) k s = (Inr leaf, s')"
    using l(1) f(1) j by (simp add: n t)
  ultimately show ?case using f(3,4) t by blast
qed

lemma inserted_tree_in:
  assumes "inserted X n h 1 (\<lambda>_. True) 0 k ov t s s' t'"
  shows "tree_in X s' h t'" "root_id t' = root_id t" "tget h t' = (tget h t)(k := ov)"
    "bm_root_page_id s' = bm_root_page_id s"
  using assms by (auto simp: inserted_def tree_in_def bm_ext_def)

lemma btree_delete_correct:
  assumes "btree_map X s m"
  shows "\<exists>s'. btree_delete k s = (Inr (k \<in> dom m), s') \<and> btree_map X s' (m(k := None)) \<and>
    index_step X 0 s s'"
  using assms
proof (cases rule: btree_map_cases)
  case 1
  then have "m(k := None) = m" "k \<notin> dom m" by auto
  with 1 assms show ?thesis by (auto simp: btree_delete_def btree_is_empty_def index_step_refl)
next
  case (2 h t)
  from 2(4) have t: "rep h (disk_page X s) t 0" "wf_tree h 1 (\<lambda>_. True) t" "distinct (ids t)"
    "set (ids t) \<subseteq> bm_live X s - {0}" by (auto simp: tree_in_def)
  have "h < MAX_TREE_HEIGHT" using 2(6) by (simp add: MAX_TREE_HEIGHT_def)
  from find_leaf_tree [OF t 2(1) refl refl this, of k]
  obtain leaf s1 es where f: "find_leaf (root_id t) k s = (Inr leaf, s1)" "bm_ext X 0 {} s s1"
    "disk_page X s1 = disk_page X s" "bm_live X s1 = bm_live X s" "leaf_for X h 1 (\<lambda>_. True) 0 k t s leaf es"
    by (auto simp: find_leaf_def)
  from f(5) obtain nx r where leaf: "leaf \<in> set (ids t)" "sorted_wrt (<) (map fst es)"
    "length es \<le> MAX_ENTRIES" "map_of es k = m k" "disk_page X s1 leaf = Some (Leaf leaf es nx 0 r)"
    and upd: "\<And>es' s2. sorted_wrt (<) (map fst es') \<Longrightarrow> length es' \<le> MAX_ENTRIES \<Longrightarrow>
      set es' \<subseteq> set es \<Longrightarrow> map_of es' = (map_of es)(k := None) \<Longrightarrow> bm_ext X 0 {leaf} s s2 \<Longrightarrow>
      bm_live X s2 = bm_live X s \<Longrightarrow> disk_page X s2 leaf = Some (Leaf leaf es' nx 0 r) \<Longrightarrow>
      \<exists>t'. inserted X 0 h 1 (\<lambda>_. True) 0 k None t s s2 t'"
    unfolding leaf_for_def f(3) 2(5) by blast
  obtain p s2 where l: "load_page leaf s1 = (Inr p, s2)" "strip p = Leaf leaf es nx 0 r"
    "bm_ext X 0 {} s1 s2" "disk_page X s2 = disk_page X s1" "bm_live X s2 = bm_live X s1"
    using load_ext [OF bm_extD(1) [OF f(2)] leaf(5)] .
  from l(2) obtain ck where p: "p = Leaf leaf es nx ck r" by (auto simp: strip_eq_Leaf)
  have 02: "bm_ext X 0 {} s s2" by (rule bm_ext_trans [OF f(2) l(3)]) auto
  have run: "btree_delete k s = (case binary_search_leaf es k of
      Inr idx \<Rightarrow> bindS (write_page (Leaf leaf (vec_remove es idx) nx ck r)) (\<lambda>_. returnS True)
    | Inl _ \<Rightarrow> returnS False) s2"
    using 2(2,3) f(1) l(1) p by (simp add: btree_delete_def btree_is_empty_def)
  show ?thesis
  proof (cases "binary_search_leaf es k")
    case (Inl i)
    have "k \<notin> set (map fst es)"
      using binary_search_Inl_notin [OF leaf(2)] Inl by (simp add: binary_search_leaf_def)
    then have "m k = None" using leaf(4) by (simp add: map_of_eq_None_iff [symmetric])
    then have "m(k := None) = m" "k \<notin> dom m" by (auto simp: fun_eq_iff)
    moreover have "tree_in X s2 h t" by (rule tree_in_ext [OF 2(4) 02]) simp
    then have "btree_map X s2 m"
      using bm_extD(1,5) [OF 02] 2 by (intro btree_mapI) auto
    ultimately show ?thesis
      using run Inl index_step_ext [OF 02] by (auto simp: returnS_def)
  next
    case (Inr i)
    note rm = vec_remove_correct [OF leaf(2) Inr]
    have lv: "leaf \<in> bm_live X s2" "leaf \<noteq> 0" using leaf(1) t(4) f(4) l(5) by auto
    obtain s3 where w: "write_page (Leaf leaf (vec_remove es i) nx ck r) s2 = (Inr (), s3)"
      "bm_ext X 0 {leaf} s2 s3" "disk_page X s3 leaf = Some (Leaf leaf (vec_remove es i) nx 0 r)"
      "bm_live X s3 = bm_live X s2"
      using write_ext [OF bm_extD(1) [OF 02], of "Leaf leaf (vec_remove es i) nx ck r"]
        lv leaf(3) rm(3) by auto
    have 03: "bm_ext X 0 {leaf} s s3" by (rule bm_ext_trans [OF 02 w(2)]) auto
    obtain t' where t': "inserted X 0 h 1 (\<lambda>_. True) 0 k None t s s3 t'"
      using upd [OF rm(1) _ rm(4,2) 03 _ w(3)] rm(3) leaf(3) w(4) l(5) f(4) by auto
    have "btree_map X s3 (m(k := None))"
      using inserted_tree_in [OF t'] bm_extD(1) [OF 03] 2 by (intro btree_mapI) auto
    moreover have "k \<in> dom m" using rm(5) leaf(4) by (simp add: domIff)
    ultimately show ?thesis
      using run Inr w(1) index_step_ext [OF 03] by (auto simp: returnS_def)
  qed
qed

subsection \<open>Insertion\<close>

definition set_tree_root :: "u64 \<Rightarrow> u32 \<Rightarrow> btree_manager \<Rightarrow> btree_manager" where
  "set_tree_root root height s = s\<lparr> bm_root_page_id := root, bm_tree_height := height \<rparr>"

lemma set_tree_root_simps [simp]:
  "disk_page X (set_tree_root root height s) = disk_page X s"
  "bm_live X (set_tree_root root height s) = bm_live X s"
  "bm_room n (set_tree_root root height s) = bm_room n s"
  "bm_good X (set_tree_root root height s) = bm_good X s"
  "bm_root_page_id (set_tree_root root height s) = root"
  by (simp_all add: set_tree_root_def fun_eq_iff disk_page_def bm_live_def bm_room_def bm_good_def
      cache_coherent_def)

lemma index_step_set_tree_root:
  "index_step X n s (set_tree_root root height s') \<longleftrightarrow> index_step X n s s'"
  by (simp add: index_step_def set_tree_root_def bm_live_def bm_room_def raw_page_def db_len_def cache_kept_def)

text \<open>Logging a new page touches the log and the cache only.\<close>

lemma log_new_page_law:
  assumes "bm_good X s"
    and get: "\<And>s'. bm_good X s' \<Longrightarrow> disk_page X s' = disk_page X s \<Longrightarrow> bm_live X s' = bm_live X s \<Longrightarrow>
      \<exists>p s''. get_page s' = (Inr p, s'') \<and> page_shaped p \<and> bm_ext X 0 {} s' s'' \<and>
        disk_page X s'' = disk_page X s' \<and> bm_live X s'' = bm_live X s'"
  shows "\<exists>s'. log_new_page pid get_page s = (Inr (), s') \<and> bm_ext X 0 {} s s' \<and>
    disk_page X s' = disk_page X s \<and> bm_live X s' = bm_live X s"
proof (cases "bm_wal s")
  case None
  with assms(1) show ?thesis by (auto simp: log_new_page_def bm_ext_refl)
next
  case (Some w)
  let ?s = "s\<lparr> bm_wal := Some (w @ [Page_Allocate pid]) \<rparr>"
  have ext: "bm_ext X 0 {} s ?s" by (rule bm_ext_wal [OF bm_ext_refl [OF assms(1)]])
  from get [OF bm_extD(1) [OF ext]] obtain p s2 where g: "get_page ?s = (Inr p, s2)" "page_shaped p"
    "bm_ext X 0 {} ?s s2" "disk_page X s2 = disk_page X s" "bm_live X s2 = bm_live X s" by auto
  let ?s3 = "s2\<lparr> bm_wal := map_option (\<lambda>w. w @ [Page_Write pid 0 (page_image p)]) (bm_wal s2) \<rparr>"
  have "log_new_page pid get_page s = (Inr (), ?s3)"
    using Some g(1,2)
    by (simp add: log_new_page_def wal_append_def pack_eq page_shaped_fits)
  moreover have "bm_ext X 0 {} s ?s3"
    by (rule bm_ext_wal [OF bm_ext_trans [OF ext g(3)]]) auto
  ultimately show ?thesis using g(4,5) by auto
qed

lemma split_root_run:
  assumes "bm_root_page_id s = old" "load_page old s = (Inr p, s1)" "bm_allocate s1 = (Inr new, s2)"
    and "bm_allocate s2 = (Inr sib, s3)" "splittable p" "page_id p = old"
    and "write_page (set_root (is_leaf_page p) (lower_page sib p)) s3 = (Inr (), s4)"
    and "write_page (upper_page sib p) s4 = (Inr (), s5)"
    and "write_page (Internal new [separator_of p] [old, sib] 0 True) s5 = (Inr (), s6)"
  shows "split_root s =
    log_new_page new (load_page new) (set_tree_root new (bm_tree_height s6 + 1) s6)"
  using assms
  by (cases p) (auto simp: split_root_def ensure_def Let_def page_consts set_tree_root_def)

lemma split_root_law:
  assumes good: "bm_good X s" and room: "bm_room 2 s" and root: "root_id t = bm_root_page_id s"
    and tree: "tree_in X s h t" and full: "is_full t"
  obtains s' t' where "split_root s = (Inr (), s')" "tree_in X s' (Suc h) t'" "bm_good X s'"
    "root_id t' = bm_root_page_id s'" "tget (Suc h) t' = tget h t" "\<not> is_full t'"
    "index_step X 2 s s'"
proof -
  from tree have rep: "rep h (disk_page X s) t 0" and wf: "wf_tree h 1 (\<lambda>_. True) t"
    and dist: "distinct (ids t)" and live: "set (ids t) \<subseteq> bm_live X s - {0}"
    by (auto simp: tree_in_def)
  let ?old = "root_id t"
  obtain pc where pc: "disk_page X s ?old = Some pc" using rep_root [OF rep] by blast
  obtain p s1 where l: "load_page ?old s = (Inr p, s1)" "strip p = pc" "bm_ext X 0 {} s s1"
    "disk_page X s1 = disk_page X s" "bm_live X s1 = bm_live X s"
    using load_ext [OF good pc] .
  have pcs: "disk_page X s ?old = Some (strip p)" using pc l(2) by simp
  have "bm_room 2 s1" using bm_extD(3) [OF l(3), of 2] room by simp
  then obtain new s2 where a1: "bm_allocate s1 = (Inr new, s2)" "new \<noteq> 0" "new \<notin> bm_live X s"
    "bm_live X s2 = insert new (bm_live X s)" "bm_ext X 1 {} s1 s2" "disk_page X s2 = disk_page X s"
    using alloc_ext [OF bm_extD(1) [OF l(3)]] l(4,5) bm_room_mono [of 2 s1 1] by (metis one_le_numeral)
  have "bm_room 1 s2" using bm_extD(3) [OF a1(5), of 1] \<open>bm_room 2 s1\<close> by (simp add: numeral_2_eq_2)
  then obtain sib s3 where a2: "bm_allocate s2 = (Inr sib, s3)" "sib \<noteq> 0" "sib \<notin> bm_live X s2"
    "bm_live X s3 = insert sib (bm_live X s2)" "bm_ext X 1 {} s2 s3" "disk_page X s3 = disk_page X s"
    using alloc_ext [OF bm_extD(1) [OF a1(5)]] a1(6) by metis
  have 03: "bm_ext X 2 {} s s3"
    by (rule bm_ext_trans [OF bm_ext_trans [OF l(3) a1(5) order_refl subset_refl] a2(5)]) auto
  obtain lt sep rt where split: "split_tree sib t = (lt, sep, rt)" by (metis prod_cases3)
  note pages = split_pages [OF rep wf pcs] and sp = split_tree_facts [OF split]
    and ws = wf_split [OF wf full split]
  note shaped = shaped_split_pages [OF pages(4) [OF full]]
  have sep: "sep = separator_of p" using pages(5) [OF split] .
  have old: "?old \<in> bm_live X s" "?old \<noteq> 0" using live root_id_in_ids [of t] by auto
  let ?pp = "Internal new [sep] [?old, sib] 0 True"
  have neq: "new \<noteq> ?old" "sib \<noteq> ?old" "sib \<noteq> new" using old a1(3,4) a2(3) by auto
  obtain s4 s5 s6 where w: "write_page (set_root (is_leaf_page p) (lower_page sib p)) s3 = (Inr (), s4)"
    "write_page (upper_page sib p) s4 = (Inr (), s5)" "write_page ?pp s5 = (Inr (), s6)"
    "bm_ext X 0 {?old, sib, new} s3 s6"
    "disk_page X s6 ?old = Some (set_root (is_leaf_page p) (lower_page sib (strip p)))"
    "disk_page X s6 sib = Some (upper_page sib (strip p))" "disk_page X s6 new = Some ?pp"
    "bm_live X s6 = bm_live X s3"
    using write3_ext [of X s3 "set_root (is_leaf_page p) (lower_page sib p)" "upper_page sib p" ?pp]
      bm_extD(1) [OF 03] pages(1) shaped old a1(2,4) a2(2,4) neq by (auto simp: page_consts)
  let ?t = "NodeT new [sep] [lt, rt]"
  have 06: "bm_ext X 2 {?old, sib, new} s s6" by (rule bm_ext_trans [OF 03 w(4)]) auto
  have same: "disk_page X s6 q = Some x" if "q \<in> set (ids t) - {?old}" "disk_page X s q = Some x" for q x
    using bm_extD(4) [OF 06 _ that(2)] that(1) live a1(3,4) a2(3) by auto
  have reps: "rep h (disk_page X s6) lt (first_leaf rt)" "rep h (disk_page X s6) rt 0"
    using rep_split [OF rep pcs split wf full dist, where H' = "disk_page X s6"] w(5,6) same by blast+
  have "rep (Suc h) (disk_page X s6) ?t 0" using w(7) reps sp(1,2) by (auto intro: exI [of _ True])
  moreover have "wf_tree (Suc h) 1 (\<lambda>_. True) ?t"
    using ws(1,2) wf_mono [OF ws(1)] wf_mono [OF ws(2)]
    by (auto simp: page_consts less_Suc_eq_0_disj not_le)
  moreover have "distinct (ids ?t)"
    using sp(3) sp(4) [OF dist] live a1(3,4) a2(3) by auto
  moreover have "set (ids ?t) \<subseteq> bm_live X s6 - {0}"
    using sp(3) live a1(2,4) a2(2,4) w(8) by auto
  ultimately have tree6: "tree_in X s6 (Suc h) ?t" by (simp only: tree_in_def simp_thms)
  let ?s7 = "set_tree_root new (bm_tree_height s6 + 1) s6"
  have good7: "bm_good X ?s7" using bm_extD(1) [OF 06] by simp
  have "\<exists>p s''. load_page new s' = (Inr p, s'') \<and> page_shaped p \<and> bm_ext X 0 {} s' s'' \<and>
      disk_page X s'' = disk_page X s' \<and> bm_live X s'' = bm_live X s'"
    if "bm_good X s'" "disk_page X s' = disk_page X ?s7" for s'
    by (rule load_ext [OF that(1), of new ?pp]) (use that w(7) in \<open>auto simp: strip_eq_Internal page_consts\<close>)
  from log_new_page_law [OF good7 this] obtain s8 where s8: "log_new_page new (load_page new) ?s7 = (Inr (), s8)"
    "bm_ext X 0 {} ?s7 s8" "disk_page X s8 = disk_page X ?s7" "bm_live X s8 = bm_live X ?s7" by blast
  show ?thesis
  proof (rule that [of s8 ?t])
    show "split_root s = (Inr (), s8)"
      using split_root_run [OF root [symmetric] l(1) a1(1) a2(1) pages(4) [OF full] pages(1) w(1,2)]
        w(3) s8(1) sep by simp
    show "tree_in X s8 (Suc h) ?t" using tree6 s8(3,4) by (simp add: tree_in_def)
    show "bm_good X s8" by (rule bm_extD(1) [OF s8(2)])
    show "root_id ?t = bm_root_page_id s8" using bm_extD(5) [OF s8(2)] by simp
    show "tget (Suc h) ?t = tget h t"
    proof
      show "tget (Suc h) ?t k = tget h t k" for k
        using ws(7) [of k] by (cases "k < sep") (auto simp: not_less dest: leD)
    qed
    show "\<not> is_full ?t" by (simp add: page_consts)
    have "index_step X 2 s ?s7" using index_step_ext [OF 06] by (simp only: index_step_set_tree_root)
    then show "index_step X 2 s s8" by (rule index_step_trans [OF _ index_step_ext [OF s8(2)]]) simp
  qed
qed

lemma insert_into_empty_tree_law:
  assumes "bm_good X s" "bm_room 1 s"
  shows "\<exists>s'. insert_into_empty_tree k v s = (Inr (), s') \<and> btree_map X s' [k \<mapsto> v] \<and>
    index_step X 1 s s'"
proof -
  obtain pid s1 where a: "bm_allocate s = (Inr pid, s1)" "pid \<noteq> 0" "pid \<notin> bm_live X s"
    "bm_live X s1 = insert pid (bm_live X s)" "bm_ext X 1 {} s s1" "disk_page X s1 = disk_page X s"
    using alloc_ext [OF assms] .
  let ?leaf = "Leaf pid [(k, v)] 0 0 True"
  obtain s2 where w: "write_page ?leaf s1 = (Inr (), s2)" "bm_ext X 0 {pid} s1 s2"
    "disk_page X s2 pid = Some ?leaf" "bm_live X s2 = bm_live X s1"
    using write_ext [OF bm_extD(1) [OF a(5)], of ?leaf] a(2,4) by (auto simp: page_consts)
  let ?s3 = "set_tree_root pid 1 s2"
  have 02: "bm_ext X 1 {pid} s s2" by (rule bm_ext_trans [OF a(5) w(2)]) auto
  have "bm_good X ?s3" using bm_extD(1) [OF 02] by simp
  from log_new_page_law [OF this, where get_page = "returnS ?leaf"]
  obtain s4 where s4: "log_new_page pid (returnS ?leaf) ?s3 = (Inr (), s4)"
    "bm_ext X 0 {} ?s3 s4" "disk_page X s4 = disk_page X ?s3" "bm_live X s4 = bm_live X ?s3"
    by (auto simp: returnS_def page_consts bm_ext_refl)
  have "tree_in X s4 0 (LeafT pid [(k, v)])"
    using w(3,4) s4(3,4) a(2,4) by (auto simp: tree_in_def page_consts)
  moreover have "root_id (LeafT pid [(k, v)]) = bm_root_page_id s4" using bm_extD(5) [OF s4(2)] by simp
  moreover have "tget 0 (LeafT pid [(k, v)]) = [k \<mapsto> v]" by (simp add: fun_eq_iff)
  ultimately have "btree_map X s4 [k \<mapsto> v]"
    using bm_extD(1) [OF s4(2)] by (intro btree_mapI)
  moreover have "insert_into_empty_tree k v s = (Inr (), s4)"
    using a(1) w(1) s4(1) by (simp add: insert_into_empty_tree_def set_tree_root_def Let_def)
  moreover have "index_step X 1 s ?s3" using index_step_ext [OF 02] by (simp only: index_step_set_tree_root)
  then have "index_step X 1 s s4" by (rule index_step_trans [OF _ index_step_ext [OF s4(2)]]) simp
  ultimately show ?thesis by blast
qed

lemma btree_insert_correct:
  assumes map: "btree_map X s m" and room: "bm_room 11 s"
  shows "\<exists>s'. btree_insert k v s = Some (Inr (), s') \<and> btree_map X s' (m(k \<mapsto> v)) \<and>
    index_step X 11 s s'"
  using map
proof (cases rule: btree_map_cases)
  case 1
  obtain s' where e: "insert_into_empty_tree k v s = (Inr (), s')" "btree_map X s' [k \<mapsto> v]"
    "index_step X 11 s s'"
    using insert_into_empty_tree_law [OF 1(1), of k v] bm_room_mono [OF room, of 1] index_step_mono
    by fastforce
  with e show ?thesis
    using 1 by (auto simp: btree_insert_def btree_is_empty_def fun_upd_def)
next
  case (2 h t)
  from 2(4) have rep: "rep h (disk_page X s) t 0" and wf: "wf_tree h 1 (\<lambda>_. True) t"
    by (auto simp: tree_in_def)
  obtain pc where pc: "disk_page X s (root_id t) = Some pc" using rep_root [OF rep] by blast
  obtain p s1 where l: "load_page (root_id t) s = (Inr p, s1)" "strip p = pc" "bm_ext X 0 {} s s1"
    using load_ext [OF 2(1) pc] .
  have ns: "needs_split p \<longleftrightarrow> is_full t"
    using split_pages(3) [OF rep wf] pc l(2) by simp
  have tree1: "tree_in X s1 h t" by (rule tree_in_ext [OF 2(4) l(3)]) simp
  have root1: "root_id t = bm_root_page_id s1" using bm_extD(5) [OF l(3)] 2(3) by simp
  have "\<exists>s2 h2 t2. (if needs_split p then split_root s1 else (Inr (), s1)) = (Inr (), s2) \<and>
      tree_in X s2 h2 t2 \<and> bm_good X s2 \<and> root_id t2 = bm_root_page_id s2 \<and> tget h2 t2 = m \<and>
      \<not> is_full t2 \<and> h2 \<le> 9 \<and> index_step X 2 s1 s2"
  proof (cases "is_full t")
    case True
    have "bm_room 2 s1" using bm_extD(3) [OF l(3), of 2] bm_room_mono [OF room, of 2] by simp
    from split_root_law [OF bm_extD(1) [OF l(3)] this root1 tree1 True]
    show ?thesis using ns True 2(5,6) by (metis Suc_le_mono eval_nat_numeral(3))
  next
    case False
    then show ?thesis
      using ns tree1 bm_extD(1) [OF l(3)] root1 2(5,6) index_step_mono [OF index_step_refl]
      by (intro exI [of _ s1] exI [of _ h] exI [of _ t]) auto
  qed
  then obtain s2 h2 t2 where s2: "(if needs_split p then split_root s1 else (Inr (), s1)) = (Inr (), s2)"
    "tree_in X s2 h2 t2" "bm_good X s2" "root_id t2 = bm_root_page_id s2" "tget h2 t2 = m"
    "\<not> is_full t2" "h2 \<le> 9" "index_step X 2 s1 s2" by blast
  have step2: "index_step X 2 s s2" by (rule index_step_trans [OF index_step_ext [OF l(3)] s2(8)]) simp
  have "bm_room h2 s2"
    using index_step_room [OF step2, of h2] bm_room_mono [OF room, of "h2 + 2"] s2(7) by simp
  with s2 have "insertable X h2 1 (\<lambda>_. True) 0 k t2 s2" by (auto simp: insertable_def tree_in_def)
  from insert_tree [OF this, of v] obtain s' t' where
    s': "insert_non_full (root_id t2) k v s2 = Some (Inr (), s')"
    "inserted X h2 h2 1 (\<lambda>_. True) 0 k (Some v) t2 s2 s' t'" by blast
  from s'(2) have ext: "bm_ext X h2 (set (ids t2) \<union> - bm_live X s2) s2 s'" by (simp add: inserted_def)
  have "btree_map X s' (m(k \<mapsto> v))"
    using inserted_tree_in [OF s'(2)] bm_extD(1) [OF ext] s2(4,5) by (intro btree_mapI) auto
  moreover have "btree_insert k v s = Some (Inr (), s')"
    using 2(2,3) l(1) s2(1,4) s'(1) by (simp add: btree_insert_def btree_is_empty_def)
  moreover have "index_step X 11 s s'"
    by (rule index_step_trans [OF step2 index_step_ext [OF ext]]) (use s2(7) in simp)
  ultimately show ?thesis by blast
qed

subsection \<open>New and reopened managers\<close>

lemma pages_in_range_new: "pages_in_range (allocator_new header)"
  by (simp add: pages_in_range_def live_pages_new MAX_PAGE_def) (simp add: allocator_new_def)

lemma bm_good_cache:
  assumes "bm_good X s" "bm_db s' = bm_db s" "bm_allocator s' = bm_allocator s" "pc_inner (bm_cache s') = []"
    and "bm_coordinator s' = None \<or> bm_coordinator s' = bm_coordinator s"
  shows "bm_good X s'"
  using assms by (auto simp: bm_good_def cache_coherent_def cache_get_def)

lemma btree_map_new:
  assumes "length f < 2 ^ 64"
  shows "btree_map {} (btree_new (allocator_new header) wal (Some f) first) (\<lambda>_. None)"
proof (rule btree_map_empty)
  show "bm_good {} (btree_new (allocator_new header) wal (Some f) first)"
    using assms pages_in_range_new
    by (auto simp: bm_good_def btree_new_def cache_with_default_capacity_def cache_new_def
        cache_coherent_def cache_get_def)
qed (simp add: btree_is_empty_def btree_new_def)

lemma btree_map_reopen:
  assumes "btree_map X s m"
  shows "btree_map X (btree_with_root (bm_allocator s) wal (bm_root_page_id s) (bm_tree_height s)
    (bm_db s) first) m"
proof -
  let ?s = "btree_with_root (bm_allocator s) wal (bm_root_page_id s) (bm_tree_height s) (bm_db s) first"
  have good: "bm_good X ?s" if "bm_good X s"
    by (rule bm_good_cache [OF that])
      (simp_all add: btree_with_root_def btree_with_root_and_cache_def cache_with_default_capacity_def
        cache_new_def)
  have same: "disk_page X ?s = disk_page X s" "bm_live X ?s = bm_live X s" "bm_root_page_id ?s = bm_root_page_id s"
    by (simp_all add: fun_eq_iff disk_page_def bm_live_def btree_with_root_def btree_with_root_and_cache_def)
  from assms good show ?thesis
    by (auto simp: btree_map_def tree_in_def same btree_is_empty_def)
qed

subsection \<open>Other users of the allocator and the file\<close>

text \<open>
  The index goes on standing for the same map when another component allocates a page of its own and
  when it writes one of its pages.
\<close>

lemma btree_map_transfer:
  assumes "btree_map X s m" "bm_good Y s'" "bm_live Y s' = bm_live X s"
    and "\<And>q x. disk_page X s q = Some x \<Longrightarrow> q \<in> bm_live X s \<Longrightarrow> disk_page Y s' q = Some x"
    and "bm_root_page_id s' = bm_root_page_id s"
  shows "btree_map Y s' m"
  using assms(1)
proof (cases rule: btree_map_cases)
  case 1
  with assms(2,5) show ?thesis by (auto simp: btree_map_def btree_is_empty_def)
next
  case (2 h t)
  from 2(4) have live: "set (ids t) \<subseteq> bm_live X s - {0}" by (simp add: tree_in_def)
  have "rep h (disk_page Y s') t 0"
    by (rule rep_mono [where H = "disk_page X s"]) (use 2(4) live assms(4) in \<open>auto simp: tree_in_def\<close>)
  with 2 assms(2,3,5) show ?thesis
    by (intro btree_mapI [of Y s' t h]) (auto simp: tree_in_def)
qed

lemma foreign_allocate_shared:
  assumes "bm_good (insert p X) (s\<lparr> bm_allocator := al \<rparr>)" "bm_live (insert p X) (s\<lparr> bm_allocator := al \<rparr>) = bm_live X s"
  shows "shared_step F s (s\<lparr> bm_allocator := al \<rparr>)"
  using assms by (auto simp: shared_step_def raw_page_def db_len_def cache_kept_def bm_good_def bm_live_def)

lemma btree_map_foreign_allocate:
  assumes "btree_map X s m" "bm_room (Suc n) s"
  obtains p al where "allocate (bm_allocator s) = (Inr p, al)" "p \<noteq> 0" "p \<notin> X" "unat p \<le> MAX_PAGE"
    "btree_map (insert p X) (s\<lparr> bm_allocator := al \<rparr>) m" "bm_room n (s\<lparr> bm_allocator := al \<rparr>)"
    "\<And>F. shared_step F s (s\<lparr> bm_allocator := al \<rparr>)"
proof -
  have "bm_good X s" using assms(1) by (auto simp: btree_map_def)
  from foreign_allocate [OF this assms(2)] obtain p al where a: "allocate (bm_allocator s) = (Inr p, al)"
    "p \<noteq> 0" "p \<notin> X" "p \<notin> bm_live X s" "unat p \<le> MAX_PAGE" "bm_good (insert p X) (s\<lparr> bm_allocator := al \<rparr>)"
    "bm_live (insert p X) (s\<lparr> bm_allocator := al \<rparr>) = bm_live X s" "bm_room n (s\<lparr> bm_allocator := al \<rparr>)"
    by blast
  have "btree_map (insert p X) (s\<lparr> bm_allocator := al \<rparr>) m"
    by (rule btree_map_transfer [OF assms(1) a(6,7)]) (use a(4) in \<open>auto simp: disk_page_def\<close>)
  with a that foreign_allocate_shared [OF a(6,7)] show ?thesis by blast
qed

lemma btree_map_foreign_write:
  assumes "btree_map X s m" "bm_db s = Some f" "p \<in> X" "p \<noteq> 0" "length bs \<le> 4096"
  shows "btree_map X (file_update s (file_write f (offset_of p) bs)) m"
proof -
  have "bm_good X s" using assms(1) by (auto simp: btree_map_def)
  note w = foreign_write [OF this assms(2-5)]
  show ?thesis by (rule btree_map_transfer [OF assms(1) w(1,2)]) (use w in auto)
qed

text \<open>What such a write or allocation is for the others, and what a step of another component leaves of a tree.\<close>

lemma foreign_write_shared:
  assumes "bm_good X s" "bm_db s = Some f" "p \<in> X" "p \<noteq> 0" "length bs \<le> 4096" "p \<notin> F"
  shows "shared_step F s (file_update s (file_write f (offset_of p) bs))"
proof -
  note w = foreign_write [OF assms(1-5)]
  have "p \<in> live_pages (bm_allocator s)" using assms(1,3) by (auto simp: bm_good_def)
  then have "raw_page (file_update s (file_write f (offset_of p) bs)) q = raw_page s q"
    if "q \<in> F \<or> q \<notin> live_pages (bm_allocator s)" for q using w(6) [of q] assms(6) that by blast
  then show ?thesis
    using assms(2) by (simp add: shared_step_def) (simp add: file_update_def db_len_def length_file_write cache_kept_def)
qed

lemma page_at_zpage: "page_at f p = Some bs \<longleftrightarrow> p \<noteq> 0 \<and> unat p \<le> MAX_PAGE \<and> offset_of p + 4096 \<le> length f \<and> zpage f p = bs"
  using zpage_page_at [of f p] by (auto simp: page_at_def split: if_splits)

lemma page_at_kept:
  assumes "raw_page t' q = raw_page t q" "db_len t \<le> db_len t'" "bm_db t = Some f" "bm_db t' = Some f'" "page_at f q = Some bs"
  shows "page_at f' q = Some bs"
  using assms by (auto simp: page_at_zpage raw_page_def db_len_def)

lemma btree_map_shared:
  assumes map: "btree_map X s m" and step: "shared_step F t t'" and good: "bm_good Y t'"
    and same: "bm_db t = bm_db s" "bm_allocator t = bm_allocator s" "bm_coordinator s = None" and own: "bm_live X s \<subseteq> F"
    and cache: "c = bm_cache s \<or> bm_cache t = bm_cache s \<and> c = bm_cache t'"
  defines "s' \<equiv> s\<lparr> bm_db := bm_db t', bm_allocator := bm_allocator t', bm_cache := c \<rparr>"
    and "X' \<equiv> X \<union> (live_pages (bm_allocator t') - live_pages (bm_allocator t))"
  shows "btree_map X' s' m" "bm_live X' s' = bm_live X s"
proof -
  note st = shared_stepD [OF step]
  have g: "bm_good X s" using map by (auto simp: btree_map_def)
  then obtain f where f: "bm_db s = Some f" "cache_coherent X s f" "X \<subseteq> live_pages (bm_allocator s)" by (auto simp: bm_good_def)
  obtain f' where f': "bm_db t' = Some f'" "length f' < 2 ^ 64" "cache_coherent Y t' f'" "Y \<subseteq> live_pages (bm_allocator t')"
    "allocator_inv (bm_allocator t')" "pages_in_range (bm_allocator t')" using good by (auto simp: bm_good_def)
  have tf: "bm_db t = Some f" using same f by simp
  show live: "bm_live X' s' = bm_live X s" using st(1) same(2) by (auto simp: X'_def s'_def bm_live_def)
  have old: "page_at f' q = Some bs" if "q \<in> F \<or> q \<notin> live_pages (bm_allocator t')" "page_at f q = Some bs" for q bs
    by (rule page_at_kept [OF _ st(5) tf f'(1) that(2)]) (use st(2,3) that(1) in blast)
  have "\<exists>bs x. page_at f' q = Some bs \<and> unpack bs = Inr x \<and> strip x = strip p"
    if q: "q \<notin> X'" "cache_get c q = Some p" for q p
  proof -
    have loc: "q \<in> F \<or> q \<notin> live_pages (bm_allocator t')" using q(1) own same(2) by (auto simp: X'_def bm_live_def)
    have known: ?thesis if entry: "cache_get (bm_cache s) q = Some p"
    proof -
      have "q \<notin> X" using q(1) by (simp add: X'_def)
      then obtain bs x where "page_at f q = Some bs" "unpack bs = Inr x" "strip x = strip p"
        using f(2) entry unfolding cache_coherent_def by blast
      then show ?thesis using old [OF loc] by blast
    qed
    from cache show ?thesis
    proof
      assume "c = bm_cache s"
      then show ?thesis using known q(2) by simp
    next
      assume c: "bm_cache t = bm_cache s \<and> c = bm_cache t'"
      show ?thesis
      proof (cases "q \<in> F")
        case True
        then have "cache_get (bm_cache s) q = Some p" using st(4) q(2) c by (auto simp: cache_kept_def)
        then show ?thesis by (rule known)
      next
        case False
        then have "q \<notin> Y" using loc f'(4) by blast
        then show ?thesis using f'(3) q(2) c unfolding cache_coherent_def by blast
      qed
    qed
  qed
  then have "cache_coherent X' s' f'" by (simp add: cache_coherent_def s'_def)
  moreover have "X' \<subseteq> live_pages (bm_allocator t')" using f(3) st(1) same(2) by (auto simp: X'_def)
  ultimately have good': "bm_good X' s'" using f' same(3) by (auto simp: bm_good_def s'_def)
  show "btree_map X' s' m"
  proof (rule btree_map_transfer [OF map good' live])
    fix q x assume q: "disk_page X s q = Some x" "q \<in> bm_live X s"
    then obtain bs where bs: "page_at f q = Some bs" "(case unpack bs of Inl _ \<Rightarrow> None | Inr p \<Rightarrow> Some (strip p)) = Some x"
      using f(1) by (auto simp: disk_page_def split: option.splits if_splits)
    have "page_at f' q = Some bs" by (rule old [OF _ bs(1)]) (use q(2) own in blast)
    moreover have "q \<notin> X'" using q(2) live by (auto simp: bm_live_def)
    ultimately show "disk_page X' s' q = Some x" using bs(2) f'(1) by (simp add: disk_page_def s'_def)
  qed (simp add: s'_def)
qed

lemma btree_map_db: "btree_map X s m \<Longrightarrow> \<exists>f. bm_db s = Some f"
  by (auto simp: btree_map_def bm_good_def)

subsection \<open>Sequences of operations\<close>

datatype btree_op = Op_Insert i64 u64 | Op_Delete i64 | Op_Lookup i64

datatype btree_answer = Inserted | Deleted bool | Found "u64 option"

fun run_op :: "btree_op \<Rightarrow> btree_manager \<Rightarrow> (btree_answer result \<times> btree_manager) option" where
  "run_op (Op_Insert k v) s = map_option (\<lambda>(r, s'). (bindR r (\<lambda>_. Inr Inserted), s')) (btree_insert k v s)"
| "run_op (Op_Delete k) s = Some (let (r, s') = btree_delete k s in (bindR r (\<lambda>b. Inr (Deleted b)), s'))"
| "run_op (Op_Lookup k) s = map_option (\<lambda>(r, s'). (bindR r (\<lambda>v. Inr (Found v)), s')) (btree_lookup k s)"

fun run_ops :: "btree_op list \<Rightarrow> btree_manager \<Rightarrow> (btree_answer list result \<times> btree_manager) option" where
  "run_ops [] s = Some (Inr [], s)"
| "run_ops (oper # ops) s =
     (case run_op oper s of
        None \<Rightarrow> None
      | Some (Inl e, s') \<Rightarrow> Some (Inl e, s')
      | Some (Inr a, s') \<Rightarrow>
          map_option (\<lambda>(r, s''). (bindR r (\<lambda>as. Inr (a # as)), s'')) (run_ops ops s'))"

text \<open>The specification: the same operations on a map.\<close>

fun spec_op :: "btree_op \<Rightarrow> (u64 \<Rightarrow> u64 option) \<Rightarrow> btree_answer \<times> (u64 \<Rightarrow> u64 option)" where
  "spec_op (Op_Insert k v) m = (Inserted, m(k \<mapsto> v))"
| "spec_op (Op_Delete k) m = (Deleted (m k \<noteq> None), m(k := None))"
| "spec_op (Op_Lookup k) m = (Found (m k), m)"

fun spec_ops :: "btree_op list \<Rightarrow> (u64 \<Rightarrow> u64 option) \<Rightarrow> btree_answer list \<times> (u64 \<Rightarrow> u64 option)" where
  "spec_ops [] m = ([], m)"
| "spec_ops (oper # ops) m =
     (let (a, m') = spec_op oper m; (as, m'') = spec_ops ops m' in (a # as, m''))"

lemma run_op_correct:
  assumes "btree_map X s m" "bm_room 11 s"
  shows "\<exists>s'. run_op oper s = Some (Inr (fst (spec_op oper m)), s') \<and> btree_map X s' (snd (spec_op oper m)) \<and>
    index_step X 11 s s'"
proof (cases oper)
  case (Op_Insert k v)
  with btree_insert_correct [OF assms, of k v] show ?thesis by auto
next
  case (Op_Delete k)
  obtain s' where s': "btree_delete k s = (Inr (k \<in> dom m), s')" "btree_map X s' (m(k := None))"
    "index_step X 0 s s'"
    using btree_delete_correct [OF assms(1), of k] by blast
  with Op_Delete index_step_mono [of X 0 s s' 11] show ?thesis by (auto simp: domIff)
next
  case (Op_Lookup k)
  obtain s' where s': "btree_lookup k s = Some (Inr (m k), s')" "btree_map X s' m" "bm_ext X 0 {} s s'"
    using btree_lookup_correct [OF assms(1), of k] by blast
  with Op_Lookup index_step_mono [OF index_step_ext [OF s'(3)], of 11] show ?thesis by auto
qed

lemma run_ops_correct:
  "btree_map X s m \<Longrightarrow> bm_room (11 * length ops) s \<Longrightarrow>
   \<exists>s'. run_ops ops s = Some (Inr (fst (spec_ops ops m)), s') \<and> btree_map X s' (snd (spec_ops ops m))"
proof (induction ops arbitrary: s m)
  case Nil
  then show ?case by simp
next
  case (Cons oper ops)
  have "bm_room 11 s" using Cons.prems(2) by (rule bm_room_mono) simp
  from run_op_correct [OF Cons.prems(1) this, of oper]
  obtain s1 where s1: "run_op oper s = Some (Inr (fst (spec_op oper m)), s1)"
    "btree_map X s1 (snd (spec_op oper m))" "index_step X 11 s s1" by blast
  have "bm_room (11 * length ops) s1"
    using index_step_room [OF s1(3)] Cons.prems(2) by (simp add: add.commute)
  from Cons.IH [OF s1(2) this] s1(1) show ?case
    by (auto simp: Let_def split: prod.splits)
qed

subsection \<open>Properties\<close>

lemma btree_map_empty_manager: "btree_map {} empty_manager (\<lambda>_. None)"
  unfolding empty_manager_def by (rule btree_map_new) simp

lemma bm_room_empty_manager: "n \<le> 4503599627370494 \<Longrightarrow> bm_room n empty_manager"
  by (simp add: bm_room_def empty_manager_def btree_new_def allocator_new_def new_v3_def MAX_PAGE_def)

text \<open>
  \<open>lookup\<close> returns, and answers with the value of the key in the map that the tree stands for, or
  with none; it does not change the map. In particular the walk along the leaf chain after a miss ends.
\<close>

theorem btree_lookup_refines:
  assumes "btree_map X s m"
  shows "\<exists>s'. btree_lookup k s = Some (Inr (m k), s') \<and> btree_map X s' m"
  using btree_lookup_correct [OF assms] by blast

lemma btree_lookup_refines_witness:
  "\<exists>s'. btree_lookup 5 empty_manager = Some (Inr ((\<lambda>_. None) (5 :: u64)), s') \<and> btree_map {} s' (\<lambda>_. None)"
  by (rule btree_lookup_refines [OF btree_map_empty_manager])

text \<open>
  C9. \<open>insert\<close> returns without an error and updates the map at the key and nowhere else, through every
  split of leaves, internal pages and the root, as long as there is room for eleven more pages. The
  pages of the other users of the file and the allocator (the set \<open>X\<close>) are left as they were.
\<close>

theorem btree_insert_refines:
  assumes "btree_map X s m" "bm_room 11 s"
  shows "\<exists>s'. btree_insert k v s = Some (Inr (), s') \<and> btree_map X s' (m(k \<mapsto> v)) \<and>
    index_step X 11 s s'"
  using btree_insert_correct [OF assms] by blast

lemma btree_insert_refines_witness:
  "\<exists>s'. btree_insert 5 60 empty_manager = Some (Inr (), s') \<and> btree_map {} s' ((\<lambda>_. None)(5 \<mapsto> 60)) \<and>
     index_step {} 11 empty_manager s'"
  by (rule btree_insert_refines [OF btree_map_empty_manager bm_room_empty_manager]) simp

text \<open>
  \<open>delete\<close> returns whether the key was there and removes it from the map, and nothing else.
\<close>

theorem btree_delete_refines:
  assumes "btree_map X s m"
  shows "\<exists>s'. btree_delete k s = (Inr (k \<in> dom m), s') \<and> btree_map X s' (m(k := None)) \<and>
    index_step X 0 s s'"
  using btree_delete_correct [OF assms] by blast

lemma btree_delete_refines_witness:
  "\<exists>s'. btree_delete 5 empty_manager = (Inr (5 \<in> dom (\<lambda>_ :: u64. None :: u64 option)), s') \<and>
     btree_map {} s' ((\<lambda>_. None)(5 := None)) \<and> index_step {} 0 empty_manager s'"
  by (rule btree_delete_refines [OF btree_map_empty_manager])

text \<open>
  C8. The index refines a map: on a new manager over any file, every sequence of insertions, deletions
  and lookups gives the answers of the same sequence on the empty map, no operation fails or runs for
  ever, and the final tree stands for the final map.
\<close>

theorem btree_refines_map:
  assumes "length f < 2 ^ 64" "max 2 (unat (hdr_total_pages header)) + 11 * length ops \<le> MAX_PAGE + 1"
  shows "\<exists>s'. run_ops ops (btree_new (allocator_new header) wal (Some f) first) =
      Some (Inr (fst (spec_ops ops (\<lambda>_. None))), s') \<and>
    btree_map {} s' (snd (spec_ops ops (\<lambda>_. None)))"
proof (rule run_ops_correct [OF btree_map_new [OF assms(1)]])
  show "bm_room (11 * length ops) (btree_new (allocator_new header) wal (Some f) first)"
    using assms(2) by (simp add: bm_room_def btree_new_def allocator_new_def)
qed

lemma btree_refines_map_witness:
  "\<exists>s'. run_ops [Op_Insert 5 60, Op_Lookup 5, Op_Delete 5, Op_Lookup 5]
        (btree_new (allocator_new new_v3) None (Some []) hd) =
      Some (Inr (fst (spec_ops [Op_Insert 5 60, Op_Lookup 5, Op_Delete 5, Op_Lookup 5] (\<lambda>_. None))), s') \<and>
    btree_map {} s' (snd (spec_ops [Op_Insert 5 60, Op_Lookup 5, Op_Delete 5, Op_Lookup 5] (\<lambda>_. None)))"
  by (rule btree_refines_map) (simp_all add: new_v3_def MAX_PAGE_def)



end
