(* ===== verification/Node_Store.thy ===== *)
theory Node_Store
  imports Node_Page Btree_Map
begin

text \<open>
  The node store (\<open>NodeStore\<close> of \<open>v3/node/store.rs\<close>): records live on node pages, the B+tree names the page of
  an id; pages are read through a cache of bytes and a cache of unpacked pages, and in batch mode written pages
  wait in a buffer until the batch is committed. Also the cache of pages for traversals and the page loader.
\<close>

section \<open>Computations that may not return\<close>

type_synonym ('s, 'a) run = "'s \<Rightarrow> ('a result \<times> 's) option"

definition bindO :: "('s, 'a) run \<Rightarrow> ('a \<Rightarrow> ('s, 'b) run) \<Rightarrow> ('s, 'b) run" where
  "bindO m f s = (case m s of None \<Rightarrow> None | Some (Inl e, s') \<Rightarrow> Some (Inl e, s') | Some (Inr x, s') \<Rightarrow> f x s')"

definition liftO :: "('s, 'a) action \<Rightarrow> ('s, 'a) run" where
  "liftO m s = Some (m s)"

lemma bindO_simps [simp]:
  "m s = Some (Inr x, s') \<Longrightarrow> bindO m f s = f x s'"
  "m s = Some (Inl e, s') \<Longrightarrow> bindO m f s = Some (Inl e, s')"
  "m s = None \<Longrightarrow> bindO m f s = None"
  by (simp_all add: bindO_def)

lemma liftO_simp [simp]: "liftO m s = Some (m s)"
  by (simp add: liftO_def)

section \<open>The cache of a traversal\<close>

definition DEFAULT_CACHE_CAPACITY :: nat where "DEFAULT_CACHE_CAPACITY = 64"
definition MAX_CACHE_CAPACITY :: nat where "MAX_CACHE_CAPACITY = 256"
definition MIN_CACHE_CAPACITY :: nat where "MIN_CACHE_CAPACITY = 1"

record traversal_cache =
  tc_cache :: "(u64 \<times> node_page) list"
  tc_access_order :: "u64 list"
  tc_capacity :: nat
  tc_hits :: u64
  tc_misses :: u64

definition tc_new :: "nat \<Rightarrow> traversal_cache result" where
  "tc_new capacity =
     (if MIN_CACHE_CAPACITY \<le> capacity \<and> capacity \<le> MAX_CACHE_CAPACITY
      then Inr \<lparr>tc_cache = [], tc_access_order = [], tc_capacity = capacity, tc_hits = 0, tc_misses = 0\<rparr>
      else Inl Panic)"

definition tc_with_default_capacity :: "traversal_cache result" where
  "tc_with_default_capacity = tc_new DEFAULT_CACHE_CAPACITY"

definition tc_build :: "nat option \<Rightarrow> traversal_cache result" where
  "tc_build opt_capacity =
     (let capacity = (case opt_capacity of Some c \<Rightarrow> c | None \<Rightarrow> DEFAULT_CACHE_CAPACITY)
      in if \<not> (MIN_CACHE_CAPACITY \<le> capacity \<and> capacity \<le> MAX_CACHE_CAPACITY) then Inl (Err InvalidParameter)
         else tc_new capacity)"

definition tc_get :: "u64 \<Rightarrow> traversal_cache \<Rightarrow> node_page option \<times> traversal_cache" where
  "tc_get pid c =
     (case map_of (tc_cache c) pid of
        Some page \<Rightarrow>
          (Some page, c\<lparr>tc_access_order := filter (\<lambda>i. i \<noteq> pid) (tc_access_order c) @ [pid],
             tc_cache := AList.update pid page (AList.delete pid (tc_cache c)), tc_hits := tc_hits c + 1\<rparr>)
      | None \<Rightarrow> (None, c\<lparr>tc_misses := tc_misses c + 1\<rparr>))"

text \<open>The loop that makes room ends because every round removes the oldest entry of the order.\<close>

fun tc_evict :: "nat \<Rightarrow> u64 list \<Rightarrow> (u64 \<times> node_page) list \<Rightarrow> u64 list \<times> (u64 \<times> node_page) list" where
  "tc_evict capacity [] cache = ([], cache)"
| "tc_evict capacity (oldest # order) cache =
     (if capacity \<le> length cache then tc_evict capacity order (AList.delete oldest cache)
      else (oldest # order, cache))"

definition tc_insert :: "u64 \<Rightarrow> node_page \<Rightarrow> traversal_cache \<Rightarrow> traversal_cache" where
  "tc_insert pid page c =
     (let order = (if map_of (tc_cache c) pid \<noteq> None then filter (\<lambda>i. i \<noteq> pid) (tc_access_order c)
                   else tc_access_order c);
          (order', cache') = tc_evict (tc_capacity c) order (tc_cache c)
      in c\<lparr>tc_access_order := order' @ [pid], tc_cache := AList.update pid page cache'\<rparr>)"

definition tc_invalidate :: "u64 \<Rightarrow> traversal_cache \<Rightarrow> bool \<times> traversal_cache" where
  "tc_invalidate pid c =
     (map_of (tc_cache c) pid \<noteq> None,
      c\<lparr>tc_cache := AList.delete pid (tc_cache c), tc_access_order := filter (\<lambda>i. i \<noteq> pid) (tc_access_order c)\<rparr>)"

definition tc_clear :: "traversal_cache \<Rightarrow> traversal_cache" where
  "tc_clear c = c\<lparr>tc_cache := [], tc_access_order := []\<rparr>"

definition tc_reset_stats :: "traversal_cache \<Rightarrow> traversal_cache" where
  "tc_reset_stats c = c\<lparr>tc_hits := 0, tc_misses := 0\<rparr>"

section \<open>The state of the store\<close>

definition PAGE_CACHE_SIZE :: nat where "PAGE_CACHE_SIZE = 64"

text \<open>
  The hash maps of pages are association lists with one entry for each key; \<open>ns_order\<close> is the order in which a
  map lists its keys. The database file is \<^const>\<open>bm_db\<close> of the index and the shared allocator its
  \<^const>\<open>bm_allocator\<close>; \<open>ns_initialized\<close> says whether \<open>initialize\<close> has handed over the index and the
  allocator, \<open>ns_coordinator\<close> whether a file coordinator is set. A block without preferred pages has the empty
  list. The calls on the log are recorded and succeed.
\<close>

record node_store =
  ns_btree :: btree_manager
  ns_initialized :: bool
  ns_coordinator :: bool
  ns_root :: u64
  ns_height :: u32
  ns_page_cache :: "(u64 \<times> bytes) list"
  ns_unpacked :: "(u64 \<times> node_page) list"
  ns_capacity :: nat
  ns_access_block :: i64
  ns_preferred :: "i64 \<Rightarrow> u64 list"
  ns_max_preferred :: nat
  ns_index_cache :: "(u64 \<times> index_page) list"
  ns_wal :: "wal_call list option"
  ns_next_id :: i64
  ns_dirty :: "(u64 \<times> node_page) list"
  ns_batch :: bool
  ns_order :: "u64 list \<Rightarrow> u64 list"

definition ns_with_capacity ::
  "(u64 list \<Rightarrow> u64 list) \<Rightarrow> btree_manager \<Rightarrow> persistent_header_v3 \<Rightarrow> nat \<Rightarrow> node_store" where
  "ns_with_capacity order bt header capacity =
     \<lparr>ns_btree = bt, ns_initialized = False, ns_coordinator = False, ns_root = hdr_root_index_page header,
      ns_height = hdr_btree_height header, ns_page_cache = [], ns_unpacked = [], ns_capacity = capacity,
      ns_access_block = - 1, ns_preferred = (\<lambda>_. []), ns_max_preferred = 3, ns_index_cache = [], ns_wal = None,
      ns_next_id = 1, ns_dirty = [], ns_batch = False, ns_order = order\<rparr>"

definition ns_new :: "(u64 list \<Rightarrow> u64 list) \<Rightarrow> btree_manager \<Rightarrow> persistent_header_v3 \<Rightarrow> node_store" where
  "ns_new order bt header = ns_with_capacity order bt header PAGE_CACHE_SIZE"

definition ns_initialize :: "btree_manager \<Rightarrow> wal_call list option \<Rightarrow> node_store \<Rightarrow> node_store" where
  "ns_initialize bt wal s = s\<lparr>ns_btree := bt, ns_initialized := True, ns_wal := wal\<rparr>"

definition ns_set_wal_writer :: "wal_call list \<Rightarrow> node_store \<Rightarrow> node_store" where
  "ns_set_wal_writer w s = s\<lparr>ns_wal := Some w\<rparr>"

definition ns_set_file_coordinator :: "node_store \<Rightarrow> node_store" where
  "ns_set_file_coordinator s = s\<lparr>ns_coordinator := True\<rparr>"

definition allocate_node_id :: "node_store \<Rightarrow> i64 \<times> node_store" where
  "allocate_node_id s = (ns_next_id s, s\<lparr>ns_next_id := ns_next_id s + 1\<rparr>)"

definition set_next_node_id :: "i64 \<Rightarrow> node_store \<Rightarrow> node_store" where
  "set_next_node_id i s = s\<lparr>ns_next_id := i\<rparr>"

definition has_index :: "node_store \<Rightarrow> bool" where
  "has_index s \<longleftrightarrow> ns_root s \<noteq> 0"

definition is_valid_node_id :: "i64 \<Rightarrow> node_store \<Rightarrow> bool" where
  "is_valid_node_id i s \<longleftrightarrow> \<not> sint i \<le> 0 \<and> has_index s"

definition ns_btree_root_page_id :: "node_store \<Rightarrow> u64 option" where
  "ns_btree_root_page_id s =
     (if \<not> ns_initialized s then None
      else let root = bm_root_page_id (ns_btree s) in if root \<noteq> 0 \<and> root \<noteq> - 1 then Some root else None)"

definition ns_btree_height :: "node_store \<Rightarrow> u32 option" where
  "ns_btree_height s =
     (if \<not> ns_initialized s then None
      else let h = bm_tree_height (ns_btree s) in if 0 < h then Some h else None)"

definition update_root :: "u64 \<Rightarrow> node_store \<Rightarrow> node_store" where
  "update_root root s = s\<lparr>ns_root := root, ns_index_cache := []\<rparr>"

definition update_tree_height :: "u32 \<Rightarrow> node_store \<Rightarrow> node_store" where
  "update_tree_height h s = s\<lparr>ns_height := h\<rparr>"

section \<open>The caches\<close>

definition extract_block_id :: "bytes \<Rightarrow> i64 option" where
  "extract_block_id bs =
     (if length bs < 28 then None
      else let base = from_be (slice bs 20 8) :: i64
           in Some (if sint base < 1 then 0 else word_of_int (sint (base - 1) div sint BLOCK_SIZE)))"

definition unpacked_get :: "u64 \<Rightarrow> node_store \<Rightarrow> node_page option" where
  "unpacked_get pid s = map_of (ns_unpacked s) pid"

definition unpacked_invalidate :: "u64 \<Rightarrow> node_store \<Rightarrow> node_store" where
  "unpacked_invalidate pid s = s\<lparr>ns_unpacked := AList.delete pid (ns_unpacked s)\<rparr>"

text \<open>A map over its capacity loses the entry it lists first.\<close>

definition trim_first :: "node_store \<Rightarrow> (u64 \<times> 'a) list \<Rightarrow> (u64 \<times> 'a) list" where
  "trim_first s m =
     (if ns_capacity s < length m then AList.delete (hd (ns_order s (map fst m))) m else m)"

definition unpacked_insert :: "u64 \<Rightarrow> node_page \<Rightarrow> node_store \<Rightarrow> node_store" where
  "unpacked_insert pid page s = s\<lparr>ns_unpacked := trim_first s (AList.update pid page (ns_unpacked s))\<rparr>"

definition page_cache_get :: "u64 \<Rightarrow> node_store \<Rightarrow> bytes option" where
  "page_cache_get pid s = map_of (ns_page_cache s) pid"

definition note_block :: "bytes \<Rightarrow> node_store \<Rightarrow> node_store" where
  "note_block data s = (case extract_block_id data of Some b \<Rightarrow> s\<lparr>ns_access_block := b\<rparr> | None \<Rightarrow> s)"

definition page_cache_insert :: "u64 \<Rightarrow> bytes \<Rightarrow> node_store \<Rightarrow> node_store" where
  "page_cache_insert pid data s =
     (let s1 = unpacked_invalidate pid (note_block data s)
      in s1\<lparr>ns_page_cache := trim_first s1 (AList.update pid data (ns_page_cache s1))\<rparr>)"

definition page_cache_insert_if_absent :: "u64 \<Rightarrow> bytes \<Rightarrow> node_store \<Rightarrow> node_store" where
  "page_cache_insert_if_absent pid data s =
     (let s1 = note_block data s
      in if map_of (ns_page_cache s1) pid \<noteq> None then s1
         else s1\<lparr>ns_page_cache := trim_first s1 (AList.update pid data (ns_page_cache s1))\<rparr>)"

definition ns_clear_cache :: "node_store \<Rightarrow> node_store" where
  "ns_clear_cache s = s\<lparr>ns_page_cache := [], ns_index_cache := []\<rparr>"

definition ns_cache_stats :: "node_store \<Rightarrow> nat \<times> nat" where
  "ns_cache_stats s = (length (ns_page_cache s), length (ns_index_cache s))"

definition evict_index_cache :: "node_store \<Rightarrow> node_store" where
  "evict_index_cache s =
     (if ns_capacity s \<le> length (ns_index_cache s) \<and> ns_index_cache s \<noteq> []
      then s\<lparr>ns_index_cache := AList.delete (hd (ns_order s (map fst (ns_index_cache s)))) (ns_index_cache s)\<rparr>
      else s)"

section \<open>Reading and writing pages\<close>

definition ns_page_offset :: "u64 \<Rightarrow> u64" where
  "ns_page_offset pid =
     (if pid = 0 then 0 else of_nat V3_HEADER_SIZE + (pid - 1) * of_nat DEFAULT_PAGE_SIZE)"

definition db_bytes :: "node_store \<Rightarrow> bytes" where
  "db_bytes s = (case bm_db (ns_btree s) of Some f \<Rightarrow> f | None \<Rightarrow> [])"

definition coordinated :: "node_store \<Rightarrow> coordinated_file" where
  "coordinated s = \<lparr>co_file = db_bytes s, cached_size =
     (case bm_coordinator (ns_btree s) of Some sz \<Rightarrow> sz | None \<Rightarrow> of_nat (length (db_bytes s)))\<rparr>"

definition ns_disk_read :: "u64 \<Rightarrow> node_store \<Rightarrow> bytes result" where
  "ns_disk_read pid s =
     (if ns_coordinator s then co_read_page pid DEFAULT_PAGE_SIZE (coordinated s)
      else case bm_db (ns_btree s) of
        None \<Rightarrow> Inl (Err IoError)
      | Some f \<Rightarrow> file_read_exact f (unat (ns_page_offset pid)) DEFAULT_PAGE_SIZE)"

text \<open>Without a coordinator the file is first extended, except for the empty page of a new allocation.\<close>

definition ns_disk_write :: "bool \<Rightarrow> u64 \<Rightarrow> bytes \<Rightarrow> (node_store, unit) action" where
  "ns_disk_write grow pid bs s =
     (let bt = ns_btree s; f = db_bytes s
      in if ns_coordinator s then
           (case co_write_page pid bs (coordinated s) of
              (Inl e, _) \<Rightarrow> (Inl e, s)
            | (Inr _, co) \<Rightarrow> (Inr (), s\<lparr>ns_btree := bt\<lparr>bm_db := Some (co_file co),
                bm_coordinator := map_option (\<lambda>_. cached_size co) (bm_coordinator bt)\<rparr>\<rparr>))
         else
           (let offset = ns_page_offset pid;
                required_len = offset + of_nat (length bs);
                f' = (if grow \<and> length f < unat required_len then file_set_len f (unat required_len) else f)
            in (Inr (), s\<lparr>ns_btree := bt\<lparr>bm_db := Some (file_write f' (unat offset) bs)\<rparr>\<rparr>)))"

definition load_page_from_disk :: "u64 \<Rightarrow> (node_store, bytes) action" where
  "load_page_from_disk pid s =
     (case page_cache_get pid s of
        Some cached \<Rightarrow> (Inr cached, s)
      | None \<Rightarrow>
          (case ns_disk_read pid s of
             Inl e \<Rightarrow> (Inl e, s)
           | Inr buffer \<Rightarrow> (Inr buffer, page_cache_insert pid buffer s)))"

definition load_node_page :: "u64 \<Rightarrow> (node_store, node_page) action" where
  "load_node_page pid s =
     (case map_of (ns_dirty s) pid of
        Some page \<Rightarrow> (Inr page, s)
      | None \<Rightarrow>
          (case page_cache_get pid s of
             Some cached \<Rightarrow> (node_page_unpack cached, s)
           | None \<Rightarrow> (case load_page_from_disk pid s of
                 (Inl e, s') \<Rightarrow> (Inl e, s')
               | (Inr bs, s') \<Rightarrow> (node_page_unpack bs, s'))))"

definition write_node_page :: "node_page \<Rightarrow> (node_store, unit) action" where
  "write_node_page page s =
     (if ns_batch s then (Inr (), s\<lparr>ns_dirty := AList.update (np_page_id page) page (ns_dirty s)\<rparr>)
      else case node_page_pack page of
        Inl e \<Rightarrow> (Inl e, s)
      | Inr bs \<Rightarrow> ns_disk_write True (np_page_id page) bs s)"

definition load_page_cache_ro :: "u64 \<Rightarrow> (node_store, bytes) action" where
  "load_page_cache_ro pid s =
     (case page_cache_get pid s of
        Some cached \<Rightarrow> (Inr cached, s)
      | None \<Rightarrow>
          (case ns_disk_read pid s of
             Inl e \<Rightarrow> (Inl e, s)
           | Inr buffer \<Rightarrow> (Inr buffer, page_cache_insert_if_absent pid buffer s)))"

section \<open>Batches\<close>

definition begin_batch :: "node_store \<Rightarrow> node_store" where
  "begin_batch s = s\<lparr>ns_batch := True, ns_dirty := []\<rparr>"

text \<open>The dirty pages are written in the order of their map. Without a coordinator all of them are packed first.\<close>

fun commit_pages :: "(u64 \<times> node_page) list \<Rightarrow> (node_store, unit) action" where
  "commit_pages [] s = (Inr (), s)"
| "commit_pages ((pid, page) # rest) s =
     (case node_page_pack page of
        Inl e \<Rightarrow> (Inl e, s)
      | Inr bs \<Rightarrow> bindS (ns_disk_write True pid bs) (\<lambda>_ s. commit_pages rest (page_cache_insert pid bs s)) s)"

fun pack_all :: "(u64 \<times> node_page) list \<Rightarrow> unit result" where
  "pack_all [] = Inr ()"
| "pack_all ((pid, page) # rest) = bindR (node_page_pack page) (\<lambda>_. pack_all rest)"

definition in_order :: "node_store \<Rightarrow> (u64 \<times> 'a) list \<Rightarrow> (u64 \<times> 'a) list" where
  "in_order s m = map (\<lambda>k. (k, the (map_of m k))) (ns_order s (map fst m))"

definition ns_commit_batch :: "(node_store, nat) action" where
  "ns_commit_batch s =
     (if \<not> ns_batch s then (Inr 0, s)
      else
        let page_count = length (ns_dirty s); pages = in_order s (ns_dirty s)
        in if 0 < page_count then
             (if ns_coordinator s then
                bindS (commit_pages pages) (\<lambda>_ s. (Inr page_count, s\<lparr>ns_dirty := [], ns_batch := False\<rparr>)) s
              else
                (case pack_all pages of
                   Inl e \<Rightarrow> (Inl e, s)
                 | Inr _ \<Rightarrow>
                     bindS (commit_pages pages) (\<lambda>_ s. (Inr page_count, s\<lparr>ns_dirty := [], ns_batch := False\<rparr>)) s))
           else (Inr page_count, s\<lparr>ns_batch := False\<rparr>))"

definition rollback_batch :: "node_store \<Rightarrow> node_store" where
  "rollback_batch s = s\<lparr>ns_dirty := [], ns_batch := False\<rparr>"

section \<open>Choosing a page\<close>

definition estimate_node_size :: "node_record \<Rightarrow> u16 result" where
  "estimate_node_size n =
     (let size = varint_size (ucast (encode_id_delta (node_id n) 0))
        + 4
        + varint_size (ucast (kind_offset n))
        + varint_size (ucast (name_offset n))
        + varint_size (ucast (masked_data_len n))
        + varint_size (outgoing_cluster_offset n)
        + varint_size (ucast (outgoing_edge_count n))
        + varint_size (incoming_cluster_offset n)
        + varint_size (ucast (incoming_edge_count n))
        + (case data_inline n of Some data \<Rightarrow> length data
           | None \<Rightarrow> if data_external_offset n \<noteq> None then 8 else 0)
      in if 0xFFFF < size then Inl (Err (InvalidHeader ''compressed_size''))
         else Inr (of_nat size))"

definition dirty_fits :: "node_store \<Rightarrow> u16 \<Rightarrow> u64 \<Rightarrow> bool" where
  "dirty_fits s need pid = (case map_of (ns_dirty s) pid of Some page \<Rightarrow> need \<le> np_capacity page | None \<Rightarrow> False)"

definition cached_fits :: "node_store \<Rightarrow> u16 \<Rightarrow> u64 \<Rightarrow> bool" where
  "cached_fits s need pid =
     (case page_cache_get pid s of
        None \<Rightarrow> False
      | Some bs \<Rightarrow> (case node_page_unpack bs of Inl _ \<Rightarrow> False | Inr page \<Rightarrow> need \<le> np_capacity page))"

definition choose_page :: "node_store \<Rightarrow> u16 \<Rightarrow> i64 \<Rightarrow> u64 option" where
  "choose_page s need block =
     (case find (\<lambda>pid. dirty_fits s need pid \<or> cached_fits s need pid) (rev (ns_preferred s block)) of
        Some pid \<Rightarrow> Some pid
      | None \<Rightarrow>
          (case find (dirty_fits s need) (ns_order s (map fst (ns_dirty s))) of
             Some pid \<Rightarrow> Some pid
           | None \<Rightarrow> find (\<lambda>pid. map_of (ns_dirty s) pid = None \<and> cached_fits s need pid)
                       (ns_order s (map fst (ns_page_cache s)))))"

definition associate_page_with_block :: "u64 \<Rightarrow> i64 \<Rightarrow> node_store \<Rightarrow> node_store" where
  "associate_page_with_block pid block s =
     (let pages = ns_preferred s block
      in if pid \<in> set pages then s
         else
           let pages' = pages @ [pid]
           in s\<lparr>ns_preferred := (ns_preferred s)(block := drop (length pages' - ns_max_preferred s) pages')\<rparr>)"

definition ns_allocate :: "(node_store, u64) action" where
  "ns_allocate s =
     (if ns_initialized s then (case bm_allocate (ns_btree s) of (r, bt) \<Rightarrow> (r, s\<lparr>ns_btree := bt\<rparr>))
      else (Inl (Err (InvalidHeader ''page_allocator'')), s))"

definition find_or_create_page_for_node :: "node_record \<Rightarrow> (node_store, u64) action" where
  "find_or_create_page_for_node n s =
     (case estimate_node_size n of
        Inl e \<Rightarrow> (Inl e, s)
      | Inr need \<Rightarrow>
          let block = node_id_to_block (node_id n)
          in case choose_page s need block of
               Some pid \<Rightarrow> (Inr pid, s)
             | None \<Rightarrow>
                 bindS ns_allocate (\<lambda>pid s.
                   let s1 = associate_page_with_block pid block s
                   in case node_page_pack (node_page_new pid) of
                        Inl e \<Rightarrow> (Inl e, s1)
                      | Inr bs \<Rightarrow> bindS (ns_disk_write False pid bs) (\<lambda>_ s2. (Inr pid, page_cache_insert pid bs s2)) s1) s)"

definition create_retry_page :: "(node_store, u64) action" where
  "create_retry_page =
     bindS ns_allocate (\<lambda>pid s.
       case node_page_pack (node_page_new pid) of
         Inl e \<Rightarrow> (Inl e, s)
       | Inr bs \<Rightarrow> bindS (ns_disk_write True pid bs) (\<lambda>_ s. (Inr pid, s)) s)"

section \<open>Inserting, updating, deleting\<close>

text \<open>A call of the index, which fails when there is none.\<close>

definition with_index :: "(btree_manager \<Rightarrow> ('a result \<times> btree_manager) option) \<Rightarrow> (node_store, 'a) run" where
  "with_index f s =
     (if ns_initialized s
      then (case f (ns_btree s) of None \<Rightarrow> None | Some (r, bt) \<Rightarrow> Some (r, s\<lparr>ns_btree := bt\<rparr>))
      else Some (Inl (Err (InvalidHeader ''btree_manager'')), s))"

definition ns_log_page :: "node_page \<Rightarrow> (node_store, unit) action" where
  "ns_log_page page s =
     (case ns_wal s of
        None \<Rightarrow> (Inr (), s)
      | Some w \<Rightarrow>
          (case node_page_pack page of
             Inl e \<Rightarrow> (Inl e, s)
           | Inr bs \<Rightarrow> (Inr (), s\<lparr>ns_wal := Some (w @ [Page_Write (np_page_id page) 0 bs])\<rparr>)))"

definition cache_page :: "u64 \<Rightarrow> node_page \<Rightarrow> (node_store, unit) action" where
  "cache_page pid page s =
     (case node_page_pack page of Inl e \<Rightarrow> (Inl e, s) | Inr bs \<Rightarrow> (Inr (), page_cache_insert pid bs s))"

definition store_new :: "i64 \<Rightarrow> u64 \<Rightarrow> node_page \<Rightarrow> (node_store, i64) run" where
  "store_new i pid page =
     bindO (liftO (write_node_page page)) (\<lambda>_.
     bindO (with_index (btree_insert i pid)) (\<lambda>_ s.
       let s1 = s\<lparr>ns_root := bm_root_page_id (ns_btree s), ns_height := bm_tree_height (ns_btree s)\<rparr>
       in if ns_batch s1 then Some (Inr i, s1)
          else bindO (liftO (ns_log_page page)) (\<lambda>_. bindO (liftO (cache_page pid page)) (\<lambda>_ s. Some (Inr i, s))) s1))"

definition MAX_ATTEMPTS :: nat where "MAX_ATTEMPTS = 3"

fun insert_attempts :: "nat \<Rightarrow> (node_store, u64) action \<Rightarrow> node_record \<Rightarrow> (node_store, i64) run" where
  "insert_attempts retries pick n s =
     bindO (liftO pick) (\<lambda>pid.
     bindO (liftO (load_node_page pid)) (\<lambda>page s1.
       case add_node n page of
         (Inr _, page') \<Rightarrow> store_new (node_id n) pid page' s1
       | (Inl e, _) \<Rightarrow>
           (case retries of
              0 \<Rightarrow> Some (Inl e, s1)
            | Suc r \<Rightarrow> if e = Err (InvalidHeader ''node_page'') then insert_attempts r create_retry_page n s1
                      else Some (Inl e, s1)))) s"

declare insert_attempts.simps [simp del]

definition ns_insert_node :: "node_record \<Rightarrow> (node_store, i64) run" where
  "ns_insert_node n s =
     (case allocate_node_id s of
        (i, s1) \<Rightarrow> insert_attempts (MAX_ATTEMPTS - 1) (find_or_create_page_for_node (n\<lparr>node_id := i\<rparr>)) (n\<lparr>node_id := i\<rparr>) s1)"

section \<open>Lookup\<close>

text \<open>
  Without a manager the tree is walked from the root of the header. Going along the chain of leaves does not
  count as a step down, so the walk need not end.
\<close>

definition cached_index_page :: "u64 \<Rightarrow> (node_store, index_page) action" where
  "cached_index_page pid s =
     (case map_of (ns_index_cache s) pid of
        Some page \<Rightarrow> (Inr page, s)
      | None \<Rightarrow>
          bindS (load_page_from_disk pid) (\<lambda>bs s1.
            case unpack bs of
              Inl e \<Rightarrow> (Inl e, s1)
            | Inr index \<Rightarrow>
                let s2 = evict_index_cache s1
                in (Inr index, s2\<lparr>ns_index_cache := AList.update pid index (ns_index_cache s2)\<rparr>)) s)"

partial_function (option) direct_loop ::
  "u64 \<Rightarrow> nat \<Rightarrow> u64 \<Rightarrow> node_store \<Rightarrow> (u64 option result \<times> node_store) option" where
  "direct_loop key depth current s =
     (if depth < unat (ns_height s) + MAX_TREE_HEIGHT then
        (case cached_index_page current s of
           (Inl e, s') \<Rightarrow> Some (Inl e, s')
         | (Inr page, s') \<Rightarrow>
            (case page of
               Leaf pid es nxt ck root \<Rightarrow>
                 (case binary_search_leaf es key of
                    Inr idx \<Rightarrow>
                      if idx < length es then Some (Inr (Some (snd (es ! idx))), s')
                      else Some (Inl (Err (InvalidHeader ''btree_leaf'')), s')
                  | Inl idx \<Rightarrow>
                      if nxt = 0 then Some (Inr None, s')
                      else direct_loop key depth nxt s')
             | Internal pid ks cs ck root \<Rightarrow>
                 if find_child_index ks key < length cs
                 then direct_loop key (depth + 1) (cs ! find_child_index ks key) s'
                 else Some (Inl (Err (InvalidHeader ''btree_internal'')), s')))
      else Some (Inl (Err (InvalidHeader ''btree_depth'')), s))"

definition lookup_page :: "i64 \<Rightarrow> (node_store, u64 option) run" where
  "lookup_page i s =
     (if ns_initialized s then with_index (btree_lookup i) s
      else if ns_root s = 0 then Some (Inr None, s)
      else direct_loop i 0 (ns_root s) s)"

definition lookup_node :: "i64 \<Rightarrow> (node_store, node_record option) run" where
  "lookup_node i =
     bindO (lookup_page i) (\<lambda>found s.
       case found of
         None \<Rightarrow> Some (Inr None, s)
       | Some pid \<Rightarrow>
           bindO (liftO (load_node_page pid)) (\<lambda>page s. Some (Inr (find (\<lambda>n. node_id n = i) (nodes page)), s)) s)"

definition lookup_page_ro :: "i64 \<Rightarrow> (node_store, u64 option) run" where
  "lookup_page_ro i s = (if ns_initialized s then with_index (btree_lookup i) s else Some (Inr None, s))"

definition lookup_node_ro :: "i64 \<Rightarrow> (node_store, node_record option) run" where
  "lookup_node_ro i =
     bindO (lookup_page_ro i) (\<lambda>found s.
       case found of
         None \<Rightarrow> Some (Inr None, s)
       | Some pid \<Rightarrow>
           (case unpacked_get pid s of
              Some page \<Rightarrow> Some (Inr (find_node page i), s)
            | None \<Rightarrow>
                bindO (liftO (load_page_cache_ro pid)) (\<lambda>bs s.
                  case node_page_unpack bs of
                    Inl e \<Rightarrow> Some (Inl e, s)
                  | Inr page \<Rightarrow> Some (Inr (find_node page i), unpacked_insert pid page s)) s))"

definition NODE_DELETED :: u32 where "NODE_DELETED = 1"

text \<open>The first record of a page with an id is changed; \<open>None\<close> when there is none.\<close>

fun change_node :: "i64 \<Rightarrow> (node_record \<Rightarrow> node_record) \<Rightarrow> node_record list \<Rightarrow> node_record list option" where
  "change_node i f [] = None"
| "change_node i f (n # ns) =
     (if node_id n = i then Some (f n # ns) else map_option (\<lambda>ms. n # ms) (change_node i f ns))"

fun sum_estimates :: "node_record list \<Rightarrow> u16 result" where
  "sum_estimates [] = Inr 0"
| "sum_estimates (n # ns) = bindR (estimate_node_size n) (\<lambda>a. bindR (sum_estimates ns) (\<lambda>b. Inr (a + b)))"

definition ns_update_node :: "i64 \<Rightarrow> node_record \<Rightarrow> (node_store, unit) run" where
  "ns_update_node i n =
     bindO (lookup_page i) (\<lambda>found s.
       case found of
         None \<Rightarrow> Some (Inl (Err (InvalidHeader ''update_node'')), s)
       | Some pid \<Rightarrow>
           bindO (liftO (load_node_page pid)) (\<lambda>page s.
             case change_node i (\<lambda>_. n) (nodes page) of
               None \<Rightarrow> Some (Inl (Err (InvalidHeader ''update_node'')), s)
             | Some ns \<Rightarrow>
                 (case sum_estimates ns of
                    Inl e \<Rightarrow> Some (Inl e, s)
                  | Inr used \<Rightarrow>
                      let page' = page\<lparr>nodes := ns, used_bytes := used\<rparr>
                      in bindO (liftO (write_node_page page')) (\<lambda>_.
                         bindO (liftO (ns_log_page page')) (\<lambda>_. liftO (cache_page pid page'))) s)) s)"

definition ns_delete_node :: "i64 \<Rightarrow> (node_store, bool) run" where
  "ns_delete_node i =
     bindO (lookup_page i) (\<lambda>found s.
       case found of
         None \<Rightarrow> Some (Inr False, s)
       | Some pid \<Rightarrow>
           bindO (liftO (load_node_page pid)) (\<lambda>page s.
             case change_node i (\<lambda>n. n\<lparr>flags := NODE_DELETED\<rparr>) (nodes page) of
               None \<Rightarrow> Some (Inr False, s)
             | Some ns \<Rightarrow>
                 let page' = page\<lparr>nodes := ns\<rparr>
                 in bindO (liftO (write_node_page page')) (\<lambda>_.
                    bindO (with_index (\<lambda>bt. Some (btree_delete i bt))) (\<lambda>_.
                    bindO (liftO (ns_log_page page')) (\<lambda>_.
                    bindO (liftO (cache_page pid page')) (\<lambda>_ s. Some (Inr True, s))))) s) s)"

section \<open>The page loader\<close>

text \<open>The loader reads a file with one \<open>read\<close>, which must fill the buffer.\<close>

definition loader_page_bytes :: "nat \<Rightarrow> bytes \<Rightarrow> u64 \<Rightarrow> bytes result" where
  "loader_page_bytes page_size file pid =
     (if pid = 0 then Inl (Err (InvalidHeader ''page_id''))
      else
        let buffer = slice file (unat (ns_page_offset pid)) page_size
        in if length buffer \<noteq> page_size then Inl (Err IoError) else Inr buffer)"

definition loader_page :: "nat \<Rightarrow> bytes \<Rightarrow> u64 \<Rightarrow> node_page result" where
  "loader_page page_size file pid =
     (if pid = 0 then Inl (Err (InvalidHeader ''page_id''))
      else bindR (loader_page_bytes page_size file pid) node_page_unpack)"

definition loader_pages :: "nat \<Rightarrow> bytes \<Rightarrow> u64 list \<Rightarrow> node_page result list" where
  "loader_pages page_size file pids = map (loader_page page_size file) pids"

definition loader_validate_checksum :: "bytes \<Rightarrow> unit result" where
  "loader_validate_checksum bs =
     (if length bs < PAGE_HEADER_SIZE then Inl (Err (InvalidHeader ''page_checksum''))
      else
        let stored = from_be (slice bs 28 4) :: u32; calculated = ucast (xor_checksum bs) :: u32
        in if calculated \<noteq> stored then Inl (Err (InvalidChecksum (ucast stored) (ucast calculated))) else Inr ())"

end
