(* ===== verification/Node_Store_Correct.thy ===== *)
theory Node_Store_Correct
  imports Node_Store "HOL-Library.Multiset"
begin

text \<open>
  The invariant of the node store: its node pages, what is cached of them, what waits in a batch and what lies on
  disk, and the index; that reads, writes and the creation of pages keep it.
\<close>

section \<open>Small records and pages in order\<close>

definition small_record :: "node_record \<Rightarrow> bool" where
  "small_record n \<longleftrightarrow> wf_record n \<and> (case data_inline n of Some d \<Rightarrow> length d \<le> MAX_INLINE_DATA | None \<Rightarrow> True)"

lemma small_wf [simp]: "small_record n \<Longrightarrow> wf_record n"
  by (simp add: small_record_def)

lemma small_set_id [simp]: "small_record (n\<lparr>node_id := i\<rparr>) \<longleftrightarrow> small_record n"
  by (simp add: small_record_def wf_record_def split: option.splits)

lemma masked_le: "varint_size (ucast (masked_data_len n)) \<le> 3"
  by (rule varint_size_narrow(1))

lemma payload_small:
  assumes "small_record n"
  shows "(case data_inline n of Some data \<Rightarrow> length data | None \<Rightarrow> if data_external_offset n \<noteq> None then 8 else 0) \<le> 64"
    "length (data_bytes n) \<le> 64"
  using assms by (auto simp: small_record_def MAX_INLINE_DATA_def data_bytes_def byte_simps split: option.splits)

lemma estimate_small:
  assumes "small_record n"
  shows "\<exists>c. estimate_compressed_size_with_base n base = Inr c \<and> unat c \<le> MAX_INLINE_RECORD"
proof -
  define sz where "sz = varint_size (ucast (encode_id_delta (node_id n) base)) + 4
        + varint_size (ucast (kind_offset n)) + varint_size (ucast (name_offset n))
        + varint_size (ucast (masked_data_len n)) + varint_size (outgoing_cluster_offset n)
        + varint_size (ucast (outgoing_edge_count n)) + varint_size (incoming_cluster_offset n)
        + varint_size (ucast (incoming_edge_count n))
        + (case data_inline n of Some data \<Rightarrow> length data | None \<Rightarrow> if data_external_offset n \<noteq> None then 8 else 0)"
  have le: "sz \<le> 112"
    using varint_size_narrow(2) [of "encode_id_delta (node_id n) base"]
      varint_size_narrow(1) [of "kind_offset n"] varint_size_narrow(1) [of "name_offset n"]
      masked_le [of n] varint_size_narrow(3) [of "outgoing_cluster_offset n"]
      varint_size_narrow(2) [of "outgoing_edge_count n"] varint_size_narrow(3) [of "incoming_cluster_offset n"]
      varint_size_narrow(2) [of "incoming_edge_count n"] payload_small(1) [OF assms] unfolding sz_def by linarith
  have "estimate_compressed_size_with_base n base =
      (if 0xFFFF < sz then Inl (Err (InvalidHeader ''compressed_size'')) else Inr (of_nat sz))"
    unfolding estimate_compressed_size_with_base_def Let_def sz_def by (rule refl)
  then have "estimate_compressed_size_with_base n base = Inr (of_nat sz)" using le by simp
  moreover have "unat (of_nat sz :: u16) = sz" using le by (simp add: unat_of_nat take_bit_nat_eq_self)
  ultimately show ?thesis using le by (auto simp: MAX_INLINE_RECORD_def)
qed

lemma pack_node_small: "small_record n \<Longrightarrow> length (pack_node base n) \<le> MAX_INLINE_RECORD"
  using varint_size_narrow(2) [of "encode_id_delta (node_id n) base"]
      varint_size_narrow(1) [of "kind_offset n"] varint_size_narrow(1) [of "name_offset n"]
      varint_size_narrow(1) [of "encoded_data_len n"] varint_size_narrow(3) [of "outgoing_cluster_offset n"]
      varint_size_narrow(2) [of "outgoing_edge_count n"] varint_size_narrow(3) [of "incoming_cluster_offset n"]
      varint_size_narrow(2) [of "incoming_edge_count n"] payload_small(2) [of n]
  by (simp add: pack_node_eq id_delta_def byte_simps varint_size_eq encode_varint_u16_def MAX_INLINE_RECORD_def)

lemma estimate_node_size_eq: "estimate_node_size n = estimate_compressed_size_with_base n 0"
  by (simp add: estimate_node_size_def estimate_compressed_size_with_base_def)

text \<open>A page of the store: its records have ids from 1 below the next id, in ascending order, and fit the page.\<close>

definition ids_below :: "i64 \<Rightarrow> node_record list \<Rightarrow> bool" where
  "ids_below b ns \<longleftrightarrow> (\<forall>n \<in> set ns. 1 \<le> sint (node_id n) \<and> sint (node_id n) < sint b)"

definition node_ok :: "i64 \<Rightarrow> u64 \<Rightarrow> node_page \<Rightarrow> bool" where
  "node_ok b p pg \<longleftrightarrow> np_page_id pg = p \<and> page_accepts pg \<and> sorted_ids (nodes pg) \<and> ids_below b (nodes pg) \<and>
     (\<forall>n \<in> set (nodes pg). wf_record n) \<and> (nodes pg \<noteq> [] \<longrightarrow> min_node_id (nodes pg) = Some (base_id pg))"

lemma node_ok_records:
  assumes "node_ok b p pg" "sint b \<le> 2 ^ 32"
  shows "page_records (base_id pg) (nodes pg)"
proof (cases "nodes pg = []")
  case False
  then have min: "min_node_id (nodes pg) = Some (base_id pg)" using assms(1) by (simp add: node_ok_def)
  then have "base_id pg \<in> node_id ` set (nodes pg)" by (rule min_node_id_in)
  then have base: "1 \<le> sint (base_id pg)" using assms(1) by (auto simp: node_ok_def ids_below_def)
  have "in_span (base_id pg) (node_id n)" if "n \<in> set (nodes pg)" for n
    using min_node_id_least [OF min that] assms that base by (auto simp: in_span_def node_ok_def ids_below_def)
  then show ?thesis using assms(1) by (simp add: page_records_def node_ok_def)
qed (simp add: page_records_def)

lemma wf_stored: "wf_record n \<Longrightarrow> wf_record (stored n)"
  using wf_stored_inline [of n] by (cases "data_inline n") (auto simp: wf_record_def stored_def)

lemma min_node_id_map: "map node_id ms = map node_id ns \<Longrightarrow> min_node_id ms = min_node_id ns"
  by (simp add: min_node_id_def)

lemma sorted_ids_alt: "sorted_ids ns \<longleftrightarrow> sorted_wrt (<) (map sint (map node_id ns))"
  by (simp add: sorted_ids_def comp_def)

lemma sorted_ids_map: "map node_id ms = map node_id ns \<Longrightarrow> sorted_ids ms = sorted_ids ns"
  by (simp only: sorted_ids_alt)

lemma ids_below_alt: "ids_below b ns \<longleftrightarrow> (\<forall>i \<in> set (map node_id ns). 1 \<le> sint i \<and> sint i < sint b)"
  by (simp add: ids_below_def)

lemma ids_below_map: "map node_id ms = map node_id ns \<Longrightarrow> ids_below b ms = ids_below b ns"
  by (simp only: ids_below_alt)

lemma node_ok_stored:
  assumes "node_ok b p pg"
  shows "node_ok b p (stored_page pg)"
proof -
  have ids: "map node_id (map stored (nodes pg)) = map node_id (nodes pg)" by simp
  show ?thesis
    using assms min_node_id_map [OF ids] sorted_ids_map [OF ids] ids_below_map [OF ids] wf_stored
    by (simp add: node_ok_def stored_page_def Let_def page_accepts_def)
qed

lemma node_ok_unpack:
  assumes "node_ok b p pg" "sint b \<le> 2 ^ 32"
  shows "node_page_pack pg = Inr (node_page_image pg)" "length (node_page_image pg) = 4096"
    "node_page_unpack (node_page_image pg) = Inr (stored_page pg)"
proof -
  have acc: "page_accepts pg" using assms(1) by (simp add: node_ok_def)
  then show "node_page_pack pg = Inr (node_page_image pg)" by (simp add: node_page_pack_eq)
  show "length (node_page_image pg) = 4096" using length_node_page_image [OF acc] by (simp add: MAX_PAGE_SIZE_def)
  show "node_page_unpack (node_page_image pg) = Inr (stored_page pg)"
    using node_page_unpack_image [OF acc node_ok_records [OF assms], of "[]"] by simp
qed

lemma node_ok_new: "node_ok b p (node_page_new p)"
  by (simp add: node_ok_def node_page_new_def page_accepts_def sorted_ids_def ids_below_def)

lemma node_ok_mono: "node_ok b p pg \<Longrightarrow> sint b \<le> sint b' \<Longrightarrow> node_ok b' p pg"
  by (fastforce simp: node_ok_def ids_below_def)

text \<open>Adding the record with the next id.\<close>

lemma add_node_next:
  assumes ok: "node_ok b p pg" and n: "small_record n" "node_id n = b" "1 \<le> sint b" "sint b < sint b'"
  shows "(\<exists>pg'. add_node n pg = (Inr (), pg') \<and> node_ok b' p pg' \<and> nodes pg' = nodes pg @ [n]) \<or>
    (\<exists>pg'. add_node n pg = (Inl (Err (InvalidHeader ''node_page'')), pg'))"
proof -
  define base where "base = temp_base_id pg n"
  have min: "min_node_id (nodes pg @ [n]) = Some base"
    using ok by (cases "nodes pg = []") (simp_all add: base_def temp_base_id_def node_ok_def min_node_id_append,
        simp add: min_node_id_def)
  obtain c where c: "estimate_compressed_size_with_base n base = Inr c" using estimate_small [OF n(1)] by blast
  have sorted: "sorted_ids (nodes pg @ [n])" "ids_below b' (nodes pg @ [n])"
    using ok n by (fastforce simp: node_ok_def sorted_ids_def ids_below_def sorted_wrt_append)+
  let ?packed = "packed base (nodes pg @ [n])"
  consider "np_capacity pg < c" | "\<not> np_capacity pg < c" "length ?packed \<le> USABLE_SIZE"
    | "\<not> np_capacity pg < c" "USABLE_SIZE < length ?packed" by linarith
  then show ?thesis
  proof cases
    case 2
    then have "add_node n pg = (Inr (), pg\<lparr>base_id := base, nodes := nodes pg @ [n],
        used_bytes := of_nat (length ?packed), block_id := node_id_to_block base\<rparr>)"
      using c by (simp add: add_node_def base_def [symmetric] pack_nodes_eq [folded packed_def] Let_def)
    moreover have "node_ok b' p (pg\<lparr>base_id := base, nodes := nodes pg @ [n],
        used_bytes := of_nat (length ?packed), block_id := node_id_to_block base\<rparr>)"
      using ok n(1) 2(2) min sorted by (simp add: node_ok_def page_accepts_def)
    ultimately show ?thesis by auto
  qed (use c in \<open>simp_all add: add_node_def base_def [symmetric] pack_nodes_eq [folded packed_def] Let_def\<close>)
qed

lemma add_node_empty:
  assumes "nodes pg = []" "used_bytes pg = 0" "small_record n"
  shows "\<exists>pg'. add_node n pg = (Inr (), pg')"
proof -
  obtain c where c: "estimate_compressed_size_with_base n (node_id n) = Inr c" "unat c \<le> 112"
    using estimate_small [OF assms(3)] by (auto simp: MAX_INLINE_RECORD_def)
  have "\<not> np_capacity pg < c"
    using c(2) assms(2) by (simp add: np_capacity_def node_page_consts word_less_nat_alt)
  moreover have "length (packed (node_id n) [n]) \<le> USABLE_SIZE"
    using pack_node_small [OF assms(3), of "node_id n"] by (simp add: MAX_INLINE_RECORD_def node_page_consts)
  ultimately show ?thesis
    using c(1) assms(1) by (simp add: add_node_def temp_base_id_def pack_nodes_eq [folded packed_def] Let_def)
qed

section \<open>The invariant\<close>

text \<open>
  \<open>N\<close> are the node pages and \<open>F\<close> the pages of the other components, which the store leaves alone; \<open>m\<close> is the map
  the index stands for. The content of a page is what waits in the batch, or else what lies on disk. A cached page
  that does not wait in the batch is as on disk, except for the pages \<open>E\<close> that are just being changed.
\<close>

definition ns_disk :: "node_store \<Rightarrow> u64 \<Rightarrow> bytes option" where
  "ns_disk s p = (case bm_db (ns_btree s) of None \<Rightarrow> None | Some f \<Rightarrow> page_at f p)"

definition disk_content :: "node_store \<Rightarrow> u64 \<Rightarrow> node_page option" where
  "disk_content s p =
     (case ns_disk s p of None \<Rightarrow> None
      | Some bs \<Rightarrow> (case node_page_unpack bs of Inl _ \<Rightarrow> None | Inr pg \<Rightarrow> Some pg))"

definition content :: "node_store \<Rightarrow> u64 \<Rightarrow> node_page option" where
  "content s p = (case map_of (ns_dirty s) p of Some pg \<Rightarrow> Some pg | None \<Rightarrow> disk_content s p)"

definition ns_index :: "u64 set \<Rightarrow> u64 set \<Rightarrow> (u64 \<Rightarrow> u64 option) \<Rightarrow> node_store \<Rightarrow> bool" where
  "ns_index F N m s \<longleftrightarrow> btree_map (F \<union> N) (ns_btree s) m \<and> ns_initialized s \<and>
     (ns_coordinator s \<or> bm_coordinator (ns_btree s) = None) \<and> F \<inter> N = {} \<and> 0 \<notin> N"

definition ns_pages :: "u64 set \<Rightarrow> u64 set \<Rightarrow> node_store \<Rightarrow> bool" where
  "ns_pages E N s \<longleftrightarrow>
     (\<forall>p \<in> N. \<exists>pg. content s p = Some pg \<and> node_ok (ns_next_id s) p pg) \<and>
     (\<forall>p bs. page_cache_get p s = Some bs \<longrightarrow> p \<in> N \<and> (p \<notin> E \<and> map_of (ns_dirty s) p = None \<longrightarrow> ns_disk s p = Some bs)) \<and>
     (\<forall>p pg. unpacked_get p s = Some pg \<longrightarrow> p \<in> N \<and> (p \<notin> E \<and> map_of (ns_dirty s) p = None \<longrightarrow> disk_content s p = Some pg)) \<and>
     fst ` set (ns_dirty s) \<subseteq> N \<and> distinct (map fst (ns_dirty s)) \<and> (ns_batch s \<or> ns_dirty s = []) \<and>
     (\<forall>ks. mset (ns_order s ks) = mset ks) \<and> 1 \<le> sint (ns_next_id s) \<and> sint (ns_next_id s) \<le> 2 ^ 32"

definition ns_ids :: "u64 set \<Rightarrow> (u64 \<Rightarrow> u64 option) \<Rightarrow> node_store \<Rightarrow> bool" where
  "ns_ids N m s \<longleftrightarrow> (\<forall>i p. m i = Some p \<longrightarrow>
     p \<in> N \<and> 1 \<le> sint i \<and> sint i < sint (ns_next_id s) \<and> (\<exists>pg. content s p = Some pg \<and> i \<in> node_id ` set (nodes pg)))"

definition ns_inv :: "u64 set \<Rightarrow> u64 set \<Rightarrow> (u64 \<Rightarrow> u64 option) \<Rightarrow> node_store \<Rightarrow> bool" where
  "ns_inv F N m s \<longleftrightarrow> ns_index F N m s \<and> ns_pages {} N s \<and> ns_ids N m s"

text \<open>The records of the store, in the form a reader gets them from a page.\<close>

definition record_in :: "i64 \<Rightarrow> node_page \<Rightarrow> node_record option" where
  "record_in i pg = map_option stored (find (\<lambda>n. node_id n = i) (nodes pg))"

definition node_map :: "(u64 \<Rightarrow> u64 option) \<Rightarrow> node_store \<Rightarrow> i64 \<Rightarrow> node_record option" where
  "node_map m s i = (case m i of None \<Rightarrow> None | Some p \<Rightarrow> Option.bind (content s p) (record_in i))"

text \<open>What the other components see of a step: their pages are as they were, on disk and in the page cache of the index.\<close>

definition ns_step :: "u64 set \<Rightarrow> node_store \<Rightarrow> node_store \<Rightarrow> bool" where
  "ns_step F s s' \<longleftrightarrow> shared_step F (ns_btree s) (ns_btree s')"

lemma ns_step_same: "ns_btree s' = ns_btree s \<Longrightarrow> ns_step F s s'"
  by (simp add: ns_step_def shared_step_refl)

lemma ns_step_refl: "ns_step F s s"
  by (simp add: ns_step_same)

lemma ns_step_trans: "ns_step F s s' \<Longrightarrow> ns_step F s' s'' \<Longrightarrow> ns_step F s s''"
  unfolding ns_step_def by (rule shared_step_trans)

section \<open>The disk\<close>

lemma ns_index_file:
  assumes "ns_index F N m s"
  obtains f where "bm_db (ns_btree s) = Some f" "length f < 2 ^ 64" "bm_good (F \<union> N) (ns_btree s)"
    "\<And>sz. bm_coordinator (ns_btree s) = Some sz \<Longrightarrow> sz = of_nat (length f)"
    "db_bytes s = f" "coordinated s = \<lparr>co_file = f, cached_size = of_nat (length f)\<rparr>"
proof -
  have good: "bm_good (F \<union> N) (ns_btree s)" using assms by (auto simp: ns_index_def btree_map_def)
  then obtain f where f: "bm_db (ns_btree s) = Some f" "length f < 2 ^ 64"
    "\<And>sz. bm_coordinator (ns_btree s) = Some sz \<Longrightarrow> sz = of_nat (length f)" unfolding bm_good_def by blast
  moreover have "db_bytes s = f" using f(1) by (simp add: db_bytes_def)
  moreover have "coordinated s = \<lparr>co_file = f, cached_size = of_nat (length f)\<rparr>"
    using f by (auto simp: coordinated_def db_bytes_def split: option.split)
  ultimately show ?thesis using good that by blast
qed

lemma node_page_range:
  assumes "ns_index F N m s" "p \<in> N"
  shows "p \<noteq> 0" "unat p \<le> MAX_PAGE"
proof -
  show "p \<noteq> 0" using assms by (auto simp: ns_index_def)
  have "bm_good (F \<union> N) (ns_btree s)" using assms(1) by (auto simp: ns_index_def btree_map_def)
  then show "unat p \<le> MAX_PAGE" using assms(2) by (auto simp: bm_good_def pages_in_range_def)
qed

lemma ns_disk_read_law:
  assumes "ns_index F N m s" "ns_disk s p = Some bs"
  shows "ns_disk_read p s = Inr bs"
proof -
  obtain f where f: "bm_db (ns_btree s) = Some f" "length f < 2 ^ 64"
    "coordinated s = \<lparr>co_file = f, cached_size = of_nat (length f)\<rparr>" using ns_index_file [OF assms(1)] by blast
  have at: "page_at f p = Some bs" using assms(2) f(1) by (simp add: ns_disk_def)
  then have p: "p \<noteq> 0" "unat p \<le> MAX_PAGE" by (auto simp: page_at_def split: if_splits)
  show ?thesis
  proof (cases "ns_coordinator s")
    case True
    then show ?thesis using f at co_read_page_eq [OF p, of "coordinated s"]
      by (simp add: ns_disk_read_def DEFAULT_PAGE_SIZE_def)
  next
    case False
    then show ?thesis using f(1) at unat_page_offset(1) [OF p] p(1)
      by (simp add: ns_disk_read_def ns_page_offset_def V3_HEADER_SIZE_def DEFAULT_PAGE_SIZE_def file_read_exact_def
          page_at_def split: if_splits)
  qed
qed

lemma ns_disk_write_law:
  assumes ix: "ns_index F N m s" and p: "p \<in> N" and bs: "length bs = 4096"
  shows "\<exists>bt. ns_disk_write g p bs s = (Inr (), s\<lparr>ns_btree := bt\<rparr>) \<and> ns_index F N m (s\<lparr>ns_btree := bt\<rparr>) \<and>
    ns_disk (s\<lparr>ns_btree := bt\<rparr>) p = Some bs \<and>
    (\<forall>q x. q \<noteq> p \<longrightarrow> ns_disk s q = Some x \<longrightarrow> ns_disk (s\<lparr>ns_btree := bt\<rparr>) q = Some x) \<and>
    ns_step F s (s\<lparr>ns_btree := bt\<rparr>) \<and> (\<forall>n. bm_room n bt = bm_room n (ns_btree s))"
proof -
  obtain f where f: "bm_db (ns_btree s) = Some f" "bm_good (F \<union> N) (ns_btree s)" "db_bytes s = f"
    "coordinated s = \<lparr>co_file = f, cached_size = of_nat (length f)\<rparr>" using ns_index_file [OF ix] by blast
  note range = node_page_range [OF ix p]
  let ?f = "file_write f (offset_of p) bs"
  let ?bt = "file_update (ns_btree s) ?f"
  have wr: "ns_disk_write g p bs s = (Inr (), s\<lparr>ns_btree := ?bt\<rparr>)"
  proof (cases "ns_coordinator s")
    case True
    then show ?thesis using f co_write_page_eq [OF range]
      by (simp add: ns_disk_write_def file_update_def Let_def)
  next
    case False
    then have none: "bm_coordinator (ns_btree s) = None" using ix by (simp add: ns_index_def)
    define w :: u64 where "w = 112 + (p - 1) * 4096"
    have w: "unat w = offset_of p" "offset_of p + 4096 < 2 ^ 64"
      unfolding w_def using unat_page_offset range by auto
    have w2: "unat (w + 4096) = offset_of p + 4096" using w by (subst unat_add_lem [THEN iffD1]) simp_all
    have off: "ns_page_offset p = w" using range(1) by (simp add: ns_page_offset_def w_def V3_HEADER_SIZE_def DEFAULT_PAGE_SIZE_def)
    have "file_write (if g \<and> length f < offset_of p + 4096 then file_set_len f (offset_of p + 4096) else f) (offset_of p) bs = ?f"
      using bs by (simp add: file_write_set_len)
    moreover have "ns_btree s\<lparr>bm_db := Some ?f\<rparr> = ?bt" using none by (simp add: file_update_def)
    ultimately show ?thesis using False f(3) bs
      by (simp only: ns_disk_write_def Let_def if_False off w w2 of_nat_numeral)
  qed
  have map: "btree_map (F \<union> N) (ns_btree s) m" using ix by (simp add: ns_index_def)
  have in_X: "p \<in> F \<union> N" using p by simp
  have len: "length bs \<le> 4096" using bs by simp
  note fw = foreign_write [OF f(2,1) in_X range(1) len]
  have "ns_index F N m (s\<lparr>ns_btree := ?bt\<rparr>)"
    using ix btree_map_foreign_write [OF map f(1) in_X range(1) len] by (simp add: ns_index_def file_update_def)
  moreover have "ns_disk (s\<lparr>ns_btree := ?bt\<rparr>) p = Some bs"
    using page_at_file_write(1) [OF range len] bs by (simp add: ns_disk_def file_update_def)
  moreover have "ns_disk (s\<lparr>ns_btree := ?bt\<rparr>) q = Some x" if "q \<noteq> p" "ns_disk s q = Some x" for q x
    using page_at_file_write(2) [OF range len that(1)] that(2) f(1) by (simp add: ns_disk_def file_update_def)
  moreover have "ns_step F s (s\<lparr>ns_btree := ?bt\<rparr>)"
    using foreign_write_shared [OF f(2,1) in_X range(1) len, of F] p ix by (auto simp: ns_step_def ns_index_def)
  ultimately show ?thesis using wr fw(3) by blast
qed

text \<open>The index leaves the pages of the others as they were.\<close>

lemma index_step_disk:
  assumes "index_step X n (ns_btree s) bt" "q \<in> X" "ns_disk s q = Some bs" "bm_db bt \<noteq> None"
  shows "ns_disk (s\<lparr>ns_btree := bt\<rparr>) q = Some bs"
proof -
  obtain f f' where f: "bm_db (ns_btree s) = Some f" "bm_db bt = Some f'" "page_at f q = Some bs"
    using assms(3,4) by (auto simp: ns_disk_def split: option.splits)
  have "db_len (ns_btree s) \<le> db_len bt" using assms(1) by (simp add: index_step_def)
  from page_at_kept [OF index_step_raw [OF assms(1,2)] this f] show ?thesis using f(2) by (simp add: ns_disk_def)
qed

section \<open>The caches\<close>

text \<open>\<open>s'\<close> is \<open>s\<close> but for what is cached.\<close>

definition recached :: "node_store \<Rightarrow> node_store \<Rightarrow> bool" where
  "recached s s' \<longleftrightarrow> s'\<lparr>ns_page_cache := [], ns_unpacked := [], ns_access_block := 0\<rparr> =
     s\<lparr>ns_page_cache := [], ns_unpacked := [], ns_access_block := 0\<rparr>"

lemma recached_refl: "recached s s"
  by (simp add: recached_def)

lemma recached_trans: "recached s s' \<Longrightarrow> recached s' s'' \<Longrightarrow> recached s s''"
  by (simp add: recached_def)

lemma recached_fields:
  assumes "recached s s'"
  shows "ns_btree s' = ns_btree s" "ns_dirty s' = ns_dirty s" "ns_next_id s' = ns_next_id s" "ns_batch s' = ns_batch s"
    "ns_order s' = ns_order s" "ns_wal s' = ns_wal s" "ns_initialized s' = ns_initialized s" "ns_coordinator s' = ns_coordinator s"
  using assms by (cases s; cases s'; simp add: recached_def)+

lemma recachedD:
  assumes "recached s s'"
  shows "ns_disk s' = ns_disk s" "disk_content s' = disk_content s" "content s' = content s" "ns_index F N m s' = ns_index F N m s"
    "ns_ids N m s' = ns_ids N m s" "node_map m s' = node_map m s" "ns_step F s s'" "ns_step F s'' s' = ns_step F s'' s"
proof -
  note f = recached_fields [OF assms]
  show d: "ns_disk s' = ns_disk s" by (simp add: fun_eq_iff ns_disk_def f)
  then show d: "disk_content s' = disk_content s" by (simp add: fun_eq_iff disk_content_def)
  then show c: "content s' = content s" by (simp add: fun_eq_iff content_def f split: option.split)
  show "ns_index F N m s' = ns_index F N m s" by (simp add: ns_index_def f)
  show "ns_ids N m s' = ns_ids N m s" by (simp add: ns_ids_def f c)
  show "node_map m s' = node_map m s" by (simp add: fun_eq_iff node_map_def c split: option.split)
  show "ns_step F s s'" "ns_step F s'' s' = ns_step F s'' s" by (simp_all add: ns_step_def f shared_step_refl)
qed

lemma recached_insert: "recached s (page_cache_insert p bs s)"
  by (cases "extract_block_id bs") (simp_all add: recached_def page_cache_insert_def Let_def unpacked_invalidate_def note_block_def)

lemma recached_insert_absent: "recached s (page_cache_insert_if_absent p bs s)"
  by (cases "extract_block_id bs") (simp_all add: recached_def page_cache_insert_if_absent_def Let_def note_block_def)

lemma recached_unpacked: "recached s (unpacked_insert p pg s)"
  by (simp add: recached_def unpacked_insert_def)

lemma map_of_trim_first: "map_of (trim_first s m) q = Some x \<Longrightarrow> map_of m q = Some x"
  by (auto simp: trim_first_def delete_conv' split: if_splits)

lemma page_cache_get_insert:
  "page_cache_get q (page_cache_insert p bs s) = Some x \<Longrightarrow> q = p \<and> x = bs \<or> q \<noteq> p \<and> page_cache_get q s = Some x"
  by (cases "extract_block_id bs")
    (auto simp: page_cache_get_def page_cache_insert_def Let_def unpacked_invalidate_def note_block_def update_conv'
      dest!: map_of_trim_first split: if_splits)

lemma unpacked_get_insert:
  "unpacked_get q (page_cache_insert p bs s) = Some x \<Longrightarrow> q \<noteq> p \<and> unpacked_get q s = Some x"
  by (cases "extract_block_id bs")
    (auto simp: unpacked_get_def page_cache_insert_def Let_def unpacked_invalidate_def note_block_def delete_conv'
      split: if_splits)

lemma get_insert_if_absent:
  "page_cache_get q (page_cache_insert_if_absent p bs s) = Some x \<Longrightarrow> q = p \<and> x = bs \<or> page_cache_get q s = Some x"
  "unpacked_get q (page_cache_insert_if_absent p bs s) = unpacked_get q s"
  by (cases "extract_block_id bs";
      auto simp: unpacked_get_def page_cache_get_def page_cache_insert_if_absent_def Let_def note_block_def update_conv'
      dest!: map_of_trim_first split: if_splits)+

lemma get_unpacked_insert:
  "unpacked_get q (unpacked_insert p pg s) = Some x \<Longrightarrow> q = p \<and> x = pg \<or> unpacked_get q s = Some x"
  "page_cache_get q (unpacked_insert p pg s) = page_cache_get q s"
  by (auto simp: unpacked_get_def page_cache_get_def unpacked_insert_def update_conv' dest!: map_of_trim_first split: if_splits)

lemma ns_pagesD:
  assumes "ns_pages E N s"
  shows "p \<in> N \<Longrightarrow> \<exists>pg. content s p = Some pg \<and> node_ok (ns_next_id s) p pg"
    "page_cache_get p s = Some bs \<Longrightarrow> p \<in> N"
    "page_cache_get p s = Some bs \<Longrightarrow> p \<notin> E \<Longrightarrow> map_of (ns_dirty s) p = None \<Longrightarrow> ns_disk s p = Some bs"
    "unpacked_get p s = Some pg \<Longrightarrow> p \<in> N"
    "unpacked_get p s = Some pg \<Longrightarrow> p \<notin> E \<Longrightarrow> map_of (ns_dirty s) p = None \<Longrightarrow> disk_content s p = Some pg"
    "map_of (ns_dirty s) p = Some pg \<Longrightarrow> p \<in> N" "distinct (map fst (ns_dirty s))" "ns_batch s \<or> ns_dirty s = []"
    "mset (ns_order s ks) = mset ks" "1 \<le> sint (ns_next_id s)" "sint (ns_next_id s) \<le> 2 ^ 32"
  using assms by (auto simp: ns_pages_def dest: map_of_SomeD)

text \<open>Caching what lies on disk keeps the invariant, and makes good a page that was being changed.\<close>

lemma ns_pages_insert:
  assumes "ns_pages E N s" "p \<in> N" "map_of (ns_dirty s) p = None \<longrightarrow> ns_disk s p = Some bs"
  shows "ns_pages (E - {p}) N (page_cache_insert p bs s)"
proof -
  let ?s = "page_cache_insert p bs s"
  note same = recached_fields [OF recached_insert [of s p bs]] recachedD [OF recached_insert [of s p bs]]
  have "page_cache_get q ?s = Some x \<Longrightarrow> q \<in> N \<and> (q \<notin> E - {p} \<and> map_of (ns_dirty ?s) q = None \<longrightarrow> ns_disk ?s q = Some x)" for q x
    using page_cache_get_insert [of q p bs s x] ns_pagesD(2,3) [OF assms(1)] assms(2,3) by (auto simp: same)
  moreover have "unpacked_get q ?s = Some x \<Longrightarrow> q \<in> N \<and> (q \<notin> E - {p} \<and> map_of (ns_dirty ?s) q = None \<longrightarrow> disk_content ?s q = Some x)" for q x
    using unpacked_get_insert [of q p bs s x] ns_pagesD(4,5) [OF assms(1)] by (auto simp: same)
  ultimately show ?thesis using assms(1) unfolding ns_pages_def by (simp add: same)
qed

lemma ns_pages_insert_absent:
  assumes "ns_pages {} N s" "p \<in> N" "map_of (ns_dirty s) p = None \<longrightarrow> ns_disk s p = Some bs"
  shows "ns_pages {} N (page_cache_insert_if_absent p bs s)"
proof -
  let ?s = "page_cache_insert_if_absent p bs s"
  note same = recached_fields [OF recached_insert_absent [of s p bs]] recachedD [OF recached_insert_absent [of s p bs]]
  have "page_cache_get q ?s = Some x \<Longrightarrow> q \<in> N \<and> (map_of (ns_dirty ?s) q = None \<longrightarrow> ns_disk ?s q = Some x)" for q x
    using get_insert_if_absent(1) [of q p bs s x] ns_pagesD(2,3) [OF assms(1)] assms(2,3) by (auto simp: same)
  moreover have "unpacked_get q ?s = Some x \<Longrightarrow> q \<in> N \<and> (map_of (ns_dirty ?s) q = None \<longrightarrow> disk_content ?s q = Some x)" for q x
    using ns_pagesD(4,5) [OF assms(1)] by (auto simp: same get_insert_if_absent(2))
  ultimately show ?thesis using assms(1) unfolding ns_pages_def by (simp add: same)
qed

lemma ns_pages_unpacked:
  assumes "ns_pages {} N s" "p \<in> N" "map_of (ns_dirty s) p = None \<longrightarrow> disk_content s p = Some pg"
  shows "ns_pages {} N (unpacked_insert p pg s)"
proof -
  let ?s = "unpacked_insert p pg s"
  note same = recached_fields [OF recached_unpacked [of s p pg]] recachedD [OF recached_unpacked [of s p pg]]
  have "page_cache_get q ?s = Some x \<Longrightarrow> q \<in> N \<and> (map_of (ns_dirty ?s) q = None \<longrightarrow> ns_disk ?s q = Some x)" for q x
    using ns_pagesD(2,3) [OF assms(1)] by (auto simp: same get_unpacked_insert(2))
  moreover have "unpacked_get q ?s = Some x \<Longrightarrow> q \<in> N \<and> (map_of (ns_dirty ?s) q = None \<longrightarrow> disk_content ?s q = Some x)" for q x
    using get_unpacked_insert(1) [of q p pg s x] ns_pagesD(4,5) [OF assms(1)] assms(2,3) by (auto simp: same)
  ultimately show ?thesis using assms(1) unfolding ns_pages_def by (simp add: same)
qed

text \<open>A change of the index that leaves the node pages on disk.\<close>

lemma ns_pages_index:
  assumes "ns_pages E N s" "ns_ids N m s" and kept: "\<And>p x. p \<in> N \<Longrightarrow> ns_disk s p = Some x \<Longrightarrow> ns_disk (s\<lparr>ns_btree := bt\<rparr>) p = Some x"
  shows "ns_pages E N (s\<lparr>ns_btree := bt\<rparr>)" "p \<in> N \<Longrightarrow> content (s\<lparr>ns_btree := bt\<rparr>) p = content s p"
    "ns_ids N m (s\<lparr>ns_btree := bt\<rparr>)" "node_map m (s\<lparr>ns_btree := bt\<rparr>) = node_map m s"
proof -
  let ?s = "s\<lparr>ns_btree := bt\<rparr>"
  have disk: "disk_content ?s p = Some pg" if "p \<in> N" "disk_content s p = Some pg" for p pg
    using kept [OF that(1)] that(2) by (auto simp: disk_content_def split: option.splits)
  show c: "content ?s p = content s p" if p: "p \<in> N" for p
  proof -
    obtain pg where "content s p = Some pg" using ns_pagesD(1) [OF assms(1)] p by blast
    then show ?thesis using disk [OF p] by (auto simp: content_def split: option.splits)
  qed
  have "page_cache_get q ?s = Some x \<Longrightarrow> q \<in> N \<and> (q \<notin> E \<and> map_of (ns_dirty ?s) q = None \<longrightarrow> ns_disk ?s q = Some x)" for q x
    using ns_pagesD(2,3) [OF assms(1), of q x] kept [of q x] by (auto simp: page_cache_get_def)
  moreover have "unpacked_get q ?s = Some x \<Longrightarrow> q \<in> N \<and> (q \<notin> E \<and> map_of (ns_dirty ?s) q = None \<longrightarrow> disk_content ?s q = Some x)" for q x
    using ns_pagesD(4,5) [OF assms(1), of q x] disk [of q x] by (auto simp: unpacked_get_def)
  moreover have "\<forall>p \<in> N. \<exists>pg. content ?s p = Some pg \<and> node_ok (ns_next_id ?s) p pg"
    using ns_pagesD(1) [OF assms(1)] c by simp
  ultimately show "ns_pages E N ?s" using assms(1) unfolding ns_pages_def by simp
  show "ns_ids N m ?s" using assms(2) c by (fastforce simp: ns_ids_def)
  show "node_map m ?s = node_map m s"
    using assms(2) c by (auto simp: node_map_def ns_ids_def fun_eq_iff split: option.split)
qed

section \<open>Lookup\<close>

definition ns_room :: "nat \<Rightarrow> node_store \<Rightarrow> bool" where
  "ns_room n s \<longleftrightarrow> bm_room n (ns_btree s)"

lemma index_step_kept:
  assumes "ns_index F N m s" "index_step (F \<union> N) n (ns_btree s) bt" "btree_map (F \<union> N) bt m'"
  shows "ns_index F N m' (s\<lparr>ns_btree := bt\<rparr>)" "ns_step F s (s\<lparr>ns_btree := bt\<rparr>)"
    "p \<in> N \<Longrightarrow> ns_disk s p = Some x \<Longrightarrow> ns_disk (s\<lparr>ns_btree := bt\<rparr>) p = Some x"
    "ns_room (k + n) s \<Longrightarrow> ns_room k (s\<lparr>ns_btree := bt\<rparr>)"
proof -
  have db: "bm_db bt \<noteq> None" using btree_map_db [OF assms(3)] by auto
  show "ns_index F N m' (s\<lparr>ns_btree := bt\<rparr>)" using assms by (auto simp: ns_index_def index_step_def)
  have "bm_good (F \<union> N) bt" using assms(3) by (auto simp: btree_map_def)
  from index_step_shared [OF assms(2) _ this] show "ns_step F s (s\<lparr>ns_btree := bt\<rparr>)" by (simp add: ns_step_def)
  show "ns_disk (s\<lparr>ns_btree := bt\<rparr>) p = Some x" if "p \<in> N" "ns_disk s p = Some x"
    by (rule index_step_disk [OF assms(2) _ that(2) db]) (use that(1) in simp)
  show "ns_room k (s\<lparr>ns_btree := bt\<rparr>)" if "ns_room (k + n) s"
    using index_step_room [OF assms(2)] that by (simp add: ns_room_def)
qed

lemma lookup_page_law:
  assumes inv: "ns_inv F N m s"
  shows "\<exists>bt. lookup_page i s = Some (Inr (m i), s\<lparr>ns_btree := bt\<rparr>) \<and> ns_inv F N m (s\<lparr>ns_btree := bt\<rparr>) \<and>
    node_map m (s\<lparr>ns_btree := bt\<rparr>) = node_map m s \<and> (\<forall>p \<in> N. content (s\<lparr>ns_btree := bt\<rparr>) p = content s p) \<and>
    ns_step F s (s\<lparr>ns_btree := bt\<rparr>) \<and> (\<forall>n. ns_room n s \<longrightarrow> ns_room n (s\<lparr>ns_btree := bt\<rparr>))"
proof -
  have ix: "ns_index F N m s" and pages: "ns_pages {} N s" and ids: "ns_ids N m s" using inv by (simp_all add: ns_inv_def)
  have map: "btree_map (F \<union> N) (ns_btree s) m" "ns_initialized s" using ix by (simp_all add: ns_index_def)
  obtain bt where bt: "btree_lookup i (ns_btree s) = Some (Inr (m i), bt)" "btree_map (F \<union> N) bt m"
    "bm_ext (F \<union> N) 0 {} (ns_btree s) bt" using btree_lookup_correct [OF map(1)] by blast
  note k = index_step_kept [OF ix index_step_ext [OF bt(3)] bt(2)]
  note p = ns_pages_index [OF pages ids k(3)]
  have "lookup_page i s = Some (Inr (m i), s\<lparr>ns_btree := bt\<rparr>)" using map(2) bt(1) by (simp add: lookup_page_def with_index_def)
  then show ?thesis using k(1,2,4) p by (auto simp: ns_inv_def)
qed

text \<open>Loading a page gives its content.\<close>

lemma load_node_page_law:
  assumes ix: "ns_index F N m s" and pages: "ns_pages {} N s" and p: "p \<in> N"
  shows "\<exists>pg s'. load_node_page p s = (Inr pg, s') \<and> content s p = Some pg \<and> node_ok (ns_next_id s) p pg \<and>
    recached s s' \<and> ns_pages {} N s'"
proof -
  obtain pg where pg: "content s p = Some pg" "node_ok (ns_next_id s) p pg" using ns_pagesD(1) [OF pages p] by blast
  show ?thesis
  proof (cases "map_of (ns_dirty s) p")
    case (Some pg')
    then show ?thesis using pg recached_refl pages by (auto simp: load_node_page_def content_def)
  next
    case None
    then obtain bs where bs: "ns_disk s p = Some bs" "node_page_unpack bs = Inr pg"
      using pg(1) by (auto simp: content_def disk_content_def split: option.splits sum.splits)
    show ?thesis
    proof (cases "page_cache_get p s")
      case (Some cached)
      then have "cached = bs" using ns_pagesD(3) [OF pages Some _ None] bs(1) by simp
      then show ?thesis using None Some bs pg pages recached_refl by (auto simp: load_node_page_def)
    next
      case uncached: None
      have "load_node_page p s = (Inr pg, page_cache_insert p bs s)"
        using None uncached bs(2) ns_disk_read_law [OF ix bs(1)] by (simp add: load_node_page_def load_page_from_disk_def)
      moreover have "ns_pages {} N (page_cache_insert p bs s)"
        using ns_pages_insert [OF pages p] bs(1) by simp
      ultimately show ?thesis using pg recached_insert by blast
    qed
  qed
qed

lemma ns_inv_recached: "ns_inv F N m s \<Longrightarrow> recached s s' \<Longrightarrow> ns_pages {} N s' \<Longrightarrow> ns_inv F N m s'"
  by (simp add: ns_inv_def recachedD)

lemma ns_room_recached: "recached s s' \<Longrightarrow> ns_room n s' = ns_room n s"
  by (simp add: ns_room_def recached_fields)

text \<open>
  The read-only lookup, which searches the page by bisection and does not look at the batch, answers the same
  when no page waits.
\<close>

lemma lookup_node_ro_law:
  assumes inv: "ns_inv F N m s" and clean: "ns_dirty s = []"
  shows "\<exists>r s'. lookup_node_ro i s = Some (Inr r, s') \<and> map_option stored r = node_map m s i \<and> ns_inv F N m s' \<and>
    node_map m s' = node_map m s \<and> ns_step F s s' \<and> ns_dirty s' = []"
proof -
  obtain bt where l: "lookup_page i s = Some (Inr (m i), s\<lparr>ns_btree := bt\<rparr>)" "ns_inv F N m (s\<lparr>ns_btree := bt\<rparr>)"
    "node_map m (s\<lparr>ns_btree := bt\<rparr>) = node_map m s" "ns_step F s (s\<lparr>ns_btree := bt\<rparr>)" using lookup_page_law [OF inv, of i] by blast
  then obtain s1 where l1: "lookup_page i s = Some (Inr (m i), s1)" and b: "ns_inv F N m s1"
    "node_map m s1 = node_map m s" "ns_step F s s1" "ns_dirty s1 = []" using clean by fastforce
  have ro: "lookup_page_ro i s = Some (Inr (m i), s1)" using l1 inv by (simp add: lookup_page_ro_def lookup_page_def ns_inv_def ns_index_def)
  show ?thesis
  proof (cases "m i")
    case None
    then show ?thesis using ro b by (auto simp: lookup_node_ro_def node_map_def)
  next
    case (Some p)
    have ix: "ns_index F N m s1" and pages: "ns_pages {} N s1" and ids: "ns_ids N m s1" using b(1) by (simp_all add: ns_inv_def)
    then have p: "p \<in> N" using Some by (auto simp: ns_ids_def)
    then obtain pg where pg: "content s1 p = Some pg" "node_ok (ns_next_id s1) p pg" using ns_pagesD(1) [OF pages] by blast
    have search: "find_node pg i = find (\<lambda>n. node_id n = i) (nodes pg)"
      by (rule find_node_sorted) (use pg(2) in \<open>simp add: node_ok_def\<close>)
    have r: "map_option stored (find_node pg i) = node_map m s i"
      using b(2) [symmetric] Some pg(1) search by (simp add: node_map_def record_in_def)
    have disk: "disk_content s1 p = Some pg" using pg(1) b(4) by (simp add: content_def)
    then obtain bs where bs: "ns_disk s1 p = Some bs" "node_page_unpack bs = Inr pg"
      by (auto simp: disk_content_def split: option.splits sum.splits)
    have "\<exists>s2. lookup_node_ro i s = Some (Inr (find_node pg i), s2) \<and> recached s1 s2 \<and> ns_pages {} N s2"
    proof (cases "unpacked_get p s1")
      case up: (Some pg')
      then have "pg' = pg" using ns_pagesD(5) [OF pages up] disk b(4) by simp
      then show ?thesis using ro Some up recached_refl pages by (auto simp: lookup_node_ro_def)
    next
      case None
      have "\<exists>s2. load_page_cache_ro p s1 = (Inr bs, s2) \<and> recached s1 s2 \<and> ns_pages {} N s2"
      proof (cases "page_cache_get p s1")
        case (Some cached)
        then show ?thesis using ns_pagesD(3) [OF pages Some] bs(1) b(4) recached_refl pages by (auto simp: load_page_cache_ro_def)
      next
        case None
        have "ns_pages {} N (page_cache_insert_if_absent p bs s1)" using ns_pages_insert_absent [OF pages p] bs(1) by simp
        then show ?thesis using None ns_disk_read_law [OF ix bs(1)] recached_insert_absent by (auto simp: load_page_cache_ro_def)
      qed
      then obtain s2 where s2: "load_page_cache_ro p s1 = (Inr bs, s2)" "recached s1 s2" "ns_pages {} N s2" by blast
      have "ns_pages {} N (unpacked_insert p pg s2)"
        by (rule ns_pages_unpacked [OF s2(3) p]) (use disk in \<open>simp add: recachedD [OF s2(2)]\<close>)
      then show ?thesis
        using ro Some None s2(1) bs(2) recached_trans [OF s2(2) recached_unpacked] by (auto simp: lookup_node_ro_def)
    qed
    then obtain s2 where s2: "lookup_node_ro i s = Some (Inr (find_node pg i), s2)" "recached s1 s2" "ns_pages {} N s2" by blast
    then show ?thesis
      using r b ns_inv_recached [OF b(1) s2(2,3)] recachedD [OF s2(2)] recached_fields [OF s2(2)] by auto
  qed
qed

section \<open>Writing a page\<close>

text \<open>Fields that neither the pages nor the index depend on.\<close>

lemma side_disk [simp]:
  "ns_disk (s\<lparr>ns_preferred := a\<rparr>) = ns_disk s" "ns_disk (s\<lparr>ns_root := r, ns_height := h\<rparr>) = ns_disk s"
  "ns_disk (s\<lparr>ns_wal := w\<rparr>) = ns_disk s" "ns_disk (s\<lparr>ns_dirty := d\<rparr>) = ns_disk s" "ns_disk (s\<lparr>ns_batch := b\<rparr>) = ns_disk s"
  "ns_disk (s\<lparr>ns_next_id := i\<rparr>) = ns_disk s"
  by (simp_all add: ns_disk_def fun_eq_iff)

lemma disk_content_cong: assumes "ns_disk s' = ns_disk s" shows "disk_content s' = disk_content s"
  by (rule ext) (simp only: disk_content_def assms)

lemma content_cong:
  assumes "ns_disk s' = ns_disk s" "ns_dirty s' = ns_dirty s"
  shows "content s' = content s"
  by (rule ext) (simp only: content_def disk_content_cong [OF assms(1)] assms(2))

lemma side_fields [simp]:
  "content (s\<lparr>ns_preferred := a\<rparr>) = content s" "content (s\<lparr>ns_root := r, ns_height := h\<rparr>) = content s"
  "content (s\<lparr>ns_wal := w\<rparr>) = content s" "content (s\<lparr>ns_next_id := i\<rparr>) = content s" "content (s\<lparr>ns_batch := b\<rparr>) = content s"
  by (rule content_cong; simp)+

lemma ns_pages_cong:
  assumes "ns_disk s' = ns_disk s" "ns_dirty s' = ns_dirty s" "ns_page_cache s' = ns_page_cache s" "ns_unpacked s' = ns_unpacked s"
    "ns_next_id s' = ns_next_id s" "ns_batch s' = ns_batch s" "ns_order s' = ns_order s"
  shows "ns_pages E N s' = ns_pages E N s"
  unfolding ns_pages_def page_cache_get_def unpacked_get_def
  by (simp only: assms content_cong [OF assms(1,2)] disk_content_cong [OF assms(1)])

lemma side_invs [simp]:
  "ns_pages E N (s\<lparr>ns_preferred := a\<rparr>) = ns_pages E N s" "ns_pages E N (s\<lparr>ns_root := r, ns_height := h\<rparr>) = ns_pages E N s"
  "ns_pages E N (s\<lparr>ns_wal := w\<rparr>) = ns_pages E N s"
  "ns_index F N m (s\<lparr>ns_preferred := a\<rparr>) = ns_index F N m s" "ns_index F N m (s\<lparr>ns_root := r, ns_height := h\<rparr>) = ns_index F N m s"
  "ns_index F N m (s\<lparr>ns_wal := w\<rparr>) = ns_index F N m s" "ns_index F N m (s\<lparr>ns_next_id := i\<rparr>) = ns_index F N m s"
  "ns_index F N m (s\<lparr>ns_dirty := d\<rparr>) = ns_index F N m s" "ns_index F N m (s\<lparr>ns_batch := b\<rparr>) = ns_index F N m s"
  by ((rule ns_pages_cong; simp)+, simp_all add: ns_index_def)

lemma ns_pages_mono: "ns_pages E N s \<Longrightarrow> E \<subseteq> E' \<Longrightarrow> ns_pages E' N s"
  unfolding ns_pages_def by (intro conjI; elim conjE; blast)

lemma write_node_page_law:
  assumes ix: "ns_index F N m s" and pages: "ns_pages {} N s" and p: "p \<in> N" and ok: "node_ok (ns_next_id s) p pg"
  shows "\<exists>s'. write_node_page pg s = (Inr (), s') \<and> ns_index F N m s' \<and> ns_pages (if ns_batch s then {} else {p}) N s' \<and>
    content s' p = Some (if ns_batch s then pg else stored_page pg) \<and> (\<forall>q \<in> N - {p}. content s' q = content s q) \<and>
    ns_step F s s' \<and> (\<forall>n. ns_room n s' = ns_room n s) \<and> ns_next_id s' = ns_next_id s \<and> ns_batch s' = ns_batch s \<and>
    (map_of (ns_dirty s') p = None \<longrightarrow> ns_disk s' p = Some (node_page_image pg))"
proof -
  have id: "np_page_id pg = p" using ok by (simp add: node_ok_def)
  have small: "sint (ns_next_id s) \<le> 2 ^ 32" by (rule ns_pagesD(11) [OF pages])
  show ?thesis
  proof (cases "ns_batch s")
    case True
    let ?s = "s\<lparr>ns_dirty := AList.update p pg (ns_dirty s)\<rparr>"
    have disk: "ns_disk ?s = ns_disk s" "disk_content ?s = disk_content s" by (simp, rule disk_content_cong, simp)
    have c: "content ?s q = (if q = p then Some pg else content s q)" for q
      by (simp add: content_def update_conv' disk split: option.split)
    have "ns_pages {} N ?s"
      unfolding ns_pages_def
    proof (intro conjI)
      show "\<forall>q \<in> N. \<exists>pg. content ?s q = Some pg \<and> node_ok (ns_next_id ?s) q pg"
        using ok ns_pagesD(1) [OF pages] by (simp add: c)
      show "\<forall>q bs. page_cache_get q ?s = Some bs \<longrightarrow> q \<in> N \<and> (q \<notin> {} \<and> map_of (ns_dirty ?s) q = None \<longrightarrow> ns_disk ?s q = Some bs)"
        using ns_pagesD(2,3) [OF pages] by (auto simp: disk update_conv' page_cache_get_def)
      show "\<forall>q pg'. unpacked_get q ?s = Some pg' \<longrightarrow> q \<in> N \<and> (q \<notin> {} \<and> map_of (ns_dirty ?s) q = None \<longrightarrow> disk_content ?s q = Some pg')"
        using ns_pagesD(4,5) [OF pages] by (auto simp: disk update_conv' unpacked_get_def)
      show "fst ` set (ns_dirty ?s) \<subseteq> N"
      proof
        fix q assume "q \<in> fst ` set (ns_dirty ?s)"
        then have "map_of (AList.update p pg (ns_dirty s)) q \<noteq> None" by (simp add: map_of_eq_None_iff)
        then show "q \<in> N" using p ns_pagesD(6) [OF pages] by (auto simp: update_conv' split: if_splits)
      qed
      show "distinct (map fst (ns_dirty ?s))" using ns_pagesD(7) [OF pages] by (simp add: distinct_update)
    qed (use True ns_pagesD(8-11) [OF pages] in simp_all)
    moreover have "write_node_page pg s = (Inr (), ?s)" using True id by (simp add: write_node_page_def)
    moreover have "ns_index F N m ?s" "ns_step F s ?s" using ix by (simp_all add: ns_index_def ns_step_same)
    ultimately show ?thesis using True c by (intro exI [of _ ?s]) (auto simp: ns_room_def update_conv')
  next
    case False
    then have clean: "ns_dirty s = []" using ns_pagesD(8) [OF pages] by simp
    let ?bs = "node_page_image pg"
    note image = node_ok_unpack [OF ok small]
    obtain bt where bt: "ns_disk_write True p ?bs s = (Inr (), s\<lparr>ns_btree := bt\<rparr>)" "ns_index F N m (s\<lparr>ns_btree := bt\<rparr>)"
      "ns_disk (s\<lparr>ns_btree := bt\<rparr>) p = Some ?bs" "\<forall>q x. q \<noteq> p \<longrightarrow> ns_disk s q = Some x \<longrightarrow> ns_disk (s\<lparr>ns_btree := bt\<rparr>) q = Some x"
      "ns_step F s (s\<lparr>ns_btree := bt\<rparr>)" "\<forall>n. bm_room n bt = bm_room n (ns_btree s)"
      using ns_disk_write_law [OF ix p image(2)] by blast
    let ?s = "s\<lparr>ns_btree := bt\<rparr>"
    have wr: "write_node_page pg s = (Inr (), ?s)" using False id image(1) bt(1) by (simp add: write_node_page_def)
    have cp: "content ?s p = Some (stored_page pg)" using bt(3) clean image(3) by (simp add: content_def disk_content_def)
    have dc: "disk_content ?s q = Some x" if "q \<noteq> p" "disk_content s q = Some x" for q x
      using bt(4) that by (auto simp: disk_content_def split: option.splits)
    have cq: "content ?s q = content s q" if q: "q \<in> N - {p}" for q
    proof -
      obtain pg' where "content s q = Some pg'" using ns_pagesD(1) [OF pages] q by blast
      then show ?thesis using dc [of q pg'] q clean by (simp add: content_def)
    qed
    have "ns_pages {p} N ?s"
      unfolding ns_pages_def
    proof (intro conjI)
      show "\<forall>q \<in> N. \<exists>pg. content ?s q = Some pg \<and> node_ok (ns_next_id ?s) q pg"
      proof
        fix q assume q: "q \<in> N"
        show "\<exists>pg. content ?s q = Some pg \<and> node_ok (ns_next_id ?s) q pg"
          using ns_pagesD(1) [OF pages q] cq [of q] cp node_ok_stored [OF ok] q by (cases "q = p") auto
      qed
      show "\<forall>q bs. page_cache_get q ?s = Some bs \<longrightarrow> q \<in> N \<and> (q \<notin> {p} \<and> map_of (ns_dirty ?s) q = None \<longrightarrow> ns_disk ?s q = Some bs)"
        using ns_pagesD(2,3) [OF pages] bt(4) clean by (auto simp: page_cache_get_def)
      show "\<forall>q pg'. unpacked_get q ?s = Some pg' \<longrightarrow> q \<in> N \<and> (q \<notin> {p} \<and> map_of (ns_dirty ?s) q = None \<longrightarrow> disk_content ?s q = Some pg')"
        using ns_pagesD(4,5) [OF pages] dc clean by (auto simp: unpacked_get_def)
    qed (use ns_pagesD(8-11) [OF pages] clean in simp_all)
    then show ?thesis using wr bt cp cq False by (intro exI [of _ ?s]) (auto simp: ns_room_def)
  qed
qed

text \<open>The record lists of a page and of the page a reader gets are the same for a lookup.\<close>

lemma find_map_stored: "find (\<lambda>n. node_id n = i) (map stored ns) = map_option stored (find (\<lambda>n. node_id n = i) ns)"
  by (induction ns) auto

lemma record_in_stored [simp]: "record_in i (stored_page pg) = record_in i pg"
  by (simp add: record_in_def stored_page_def Let_def find_map_stored option.map_comp comp_def)

lemma stored_page_nodes [simp]: "nodes (stored_page pg) = map stored (nodes pg)"
  by (simp add: stored_page_def Let_def)

lemma find_append: "find P (xs @ ys) = (case find P xs of None \<Rightarrow> find P ys | Some x \<Rightarrow> Some x)"
  by (induction xs) auto

lemma record_in_append:
  assumes "nodes pg' = nodes pg @ [n]" "\<forall>k \<in> set (nodes pg). node_id k \<noteq> node_id n"
  shows "record_in j pg' = (if j = node_id n then Some (stored n) else record_in j pg)"
proof -
  have "find (\<lambda>k. node_id k = node_id n) (nodes pg) = None" using assms(2) by (simp add: find_None_iff)
  then show ?thesis using assms(1) by (auto simp: record_in_def find_append split: option.split)
qed

section \<open>New pages\<close>

text \<open>\<open>s'\<close> is \<open>s\<close> with the pages \<open>N' - N\<close> added, which are empty.\<close>

definition grown :: "u64 set \<Rightarrow> u64 set \<Rightarrow> (u64 \<Rightarrow> u64 option) \<Rightarrow> node_store \<Rightarrow> u64 set \<Rightarrow> node_store \<Rightarrow> bool" where
  "grown F N m s N' s' \<longleftrightarrow> N \<subseteq> N' \<and> ns_inv F N' m s' \<and> (\<forall>q \<in> N. content s' q = content s q) \<and>
     (\<forall>q \<in> N' - N. content s' q = Some (stored_page (node_page_new q))) \<and> ns_step F s s' \<and>
     ns_next_id s' = ns_next_id s \<and> ns_batch s' = ns_batch s"

lemma grown_refl: "ns_inv F N m s \<Longrightarrow> grown F N m s N s"
  by (simp add: grown_def ns_step_refl)

lemma grown_trans:
  assumes g: "grown F N m s N' s'" "grown F N' m s' N'' s''"
  shows "grown F N m s N'' s''"
proof -
  have "content s'' q = Some (stored_page (node_page_new q))" if "q \<in> N'' - N" for q
    using g that by (cases "q \<in> N'") (simp_all add: grown_def)
  moreover have "content s'' q = content s q" if "q \<in> N" for q
    using g that by (simp add: grown_def subset_eq)
  moreover have "ns_step F s s''" by (rule ns_step_trans [of F s s']) (use g in \<open>simp_all add: grown_def\<close>)
  ultimately show ?thesis using g unfolding grown_def by (intro conjI ballI) auto
qed

lemma grown_recached:
  "grown F N m s N' s' \<Longrightarrow> recached s' s'' \<Longrightarrow> ns_pages {} N' s'' \<Longrightarrow> grown F N m s N' s''"
  unfolding grown_def by (elim conjE, intro conjI ballI)
    (auto simp: recachedD recached_fields intro: ns_inv_recached)

lemma grown_map:
  assumes "grown F N m s N' s'" "ns_ids N m s"
  shows "node_map m s' = node_map m s"
proof
  fix i show "node_map m s' i = node_map m s i"
    using assms by (cases "m i") (auto simp: node_map_def grown_def ns_ids_def)
qed

lemma ns_ids_grow:
  assumes "ns_ids N m s" "N \<subseteq> N'" "\<forall>q \<in> N. content s' q = content s q" "ns_next_id s' = ns_next_id s"
  shows "ns_ids N' m s'"
  using assms by (fastforce simp: ns_ids_def)

lemma ns_allocate_law:
  assumes ix: "ns_index F N m s" and room: "ns_room (Suc k) s"
  shows "\<exists>p bt. ns_allocate s = (Inr p, s\<lparr>ns_btree := bt\<rparr>) \<and> p \<notin> F \<union> N \<and> p \<noteq> 0 \<and>
    ns_index F (insert p N) m (s\<lparr>ns_btree := bt\<rparr>) \<and> ns_disk (s\<lparr>ns_btree := bt\<rparr>) = ns_disk s \<and>
    ns_step F s (s\<lparr>ns_btree := bt\<rparr>) \<and> ns_room k (s\<lparr>ns_btree := bt\<rparr>)"
proof -
  have map: "btree_map (F \<union> N) (ns_btree s) m" and init: "ns_initialized s" using ix by (simp_all add: ns_index_def)
  obtain p al where a: "allocate (bm_allocator (ns_btree s)) = (Inr p, al)" "p \<noteq> 0" "p \<notin> F \<union> N"
    "btree_map (insert p (F \<union> N)) (ns_btree s\<lparr>bm_allocator := al\<rparr>) m" "bm_room k (ns_btree s\<lparr>bm_allocator := al\<rparr>)"
    and sh: "\<And>F. shared_step F (ns_btree s) (ns_btree s\<lparr>bm_allocator := al\<rparr>)"
    by (rule btree_map_foreign_allocate [OF map room [unfolded ns_room_def]]) (rule that; assumption)
  let ?s = "s\<lparr>ns_btree := ns_btree s\<lparr>bm_allocator := al\<rparr>\<rparr>"
  have "ns_allocate s = (Inr p, ?s)" using a(1) init by (simp add: ns_allocate_def bm_allocate_def)
  moreover have "ns_index F (insert p N) m ?s" using ix a by (auto simp: ns_index_def)
  moreover have "ns_disk ?s = ns_disk s" by (simp add: ns_disk_def fun_eq_iff)
  moreover have "ns_step F s ?s" using sh by (simp add: ns_step_def)
  ultimately show ?thesis using a by (auto simp: ns_room_def)
qed

lemma ns_pages_new:
  assumes pages: "ns_pages {} N s" and p: "p \<notin> N" and disk: "ns_disk s' p = Some (node_page_image (node_page_new p))"
    and kept: "\<forall>q x. q \<noteq> p \<longrightarrow> ns_disk s q = Some x \<longrightarrow> ns_disk s' q = Some x"
    and same: "ns_dirty s' = ns_dirty s" "ns_page_cache s' = ns_page_cache s" "ns_unpacked s' = ns_unpacked s"
      "ns_next_id s' = ns_next_id s" "ns_batch s' = ns_batch s" "ns_order s' = ns_order s"
  shows "ns_pages {} (insert p N) s'" "content s' p = Some (stored_page (node_page_new p))"
    "\<forall>q \<in> N. content s' q = content s q"
proof -
  have small: "sint (ns_next_id s) \<le> 2 ^ 32" by (rule ns_pagesD(11) [OF pages])
  have notd: "map_of (ns_dirty s) p = None" using ns_pagesD(6) [OF pages, of p] p by (cases "map_of (ns_dirty s) p") auto
  show cp: "content s' p = Some (stored_page (node_page_new p))"
    using disk notd node_ok_unpack(3) [OF node_ok_new small] by (simp add: content_def disk_content_def same)
  have dc: "disk_content s' q = Some x" if "q \<noteq> p" "disk_content s q = Some x" for q x
    using kept that by (auto simp: disk_content_def split: option.splits)
  have cq: "content s' q = content s q" if q: "q \<in> N" for q
  proof -
    obtain pg' where "content s q = Some pg'" using ns_pagesD(1) [OF pages q] by blast
    then show ?thesis using dc [of q pg'] p q by (auto simp: content_def same split: option.splits)
  qed
  then show "\<forall>q \<in> N. content s' q = content s q" by blast
  show "ns_pages {} (insert p N) s'"
    unfolding ns_pages_def
  proof (intro conjI)
    show "\<forall>q \<in> insert p N. \<exists>pg. content s' q = Some pg \<and> node_ok (ns_next_id s') q pg"
      using ns_pagesD(1) [OF pages] cq cp node_ok_stored [OF node_ok_new] by (auto simp: same)
    show "\<forall>q bs. page_cache_get q s' = Some bs \<longrightarrow> q \<in> insert p N \<and> (q \<notin> {} \<and> map_of (ns_dirty s') q = None \<longrightarrow> ns_disk s' q = Some bs)"
      using ns_pagesD(2,3) [OF pages] kept p by (fastforce simp: page_cache_get_def same)
    show "\<forall>q pg. unpacked_get q s' = Some pg \<longrightarrow> q \<in> insert p N \<and> (q \<notin> {} \<and> map_of (ns_dirty s') q = None \<longrightarrow> disk_content s' q = Some pg)"
      using ns_pagesD(4,5) [OF pages] dc p by (fastforce simp: unpacked_get_def same)
    show "fst ` set (ns_dirty s') \<subseteq> insert p N" using pages by (auto simp: ns_pages_def same)
  qed (use ns_pagesD(7-11) [OF pages] in \<open>simp_all add: same\<close>)
qed

text \<open>Allocating a page and writing it empty, possibly with a change of the preferences in between.\<close>

lemma fresh_page_law:
  assumes inv: "ns_inv F N m s" and room: "ns_room (Suc k) s"
  shows "\<exists>p s1. ns_allocate s = (Inr p, s1) \<and> p \<notin> N \<and>
    (\<forall>g a. \<exists>s2. ns_disk_write g p (node_page_image (node_page_new p)) (s1\<lparr>ns_preferred := a\<rparr>) = (Inr (), s2) \<and>
       grown F N m s (insert p N) s2 \<and> ns_room k s2 \<and> ns_disk s2 p = Some (node_page_image (node_page_new p))) \<and>
    ns_preferred s1 = ns_preferred s \<and> ns_max_preferred s1 = ns_max_preferred s"
proof -
  have ix: "ns_index F N m s" and pages: "ns_pages {} N s" and ids: "ns_ids N m s" using inv by (simp_all add: ns_inv_def)
  obtain p bt where a: "ns_allocate s = (Inr p, s\<lparr>ns_btree := bt\<rparr>)" "p \<notin> F \<union> N"
    "ns_index F (insert p N) m (s\<lparr>ns_btree := bt\<rparr>)" "ns_disk (s\<lparr>ns_btree := bt\<rparr>) = ns_disk s"
    "ns_step F s (s\<lparr>ns_btree := bt\<rparr>)" "ns_room k (s\<lparr>ns_btree := bt\<rparr>)" using ns_allocate_law [OF ix room] by blast
  let ?bs = "node_page_image (node_page_new p)"
  have bs: "length ?bs = 4096" by (rule node_ok_unpack(2) [OF node_ok_new ns_pagesD(11) [OF pages]])
  have "\<exists>s2. ns_disk_write g p ?bs (s\<lparr>ns_btree := bt\<rparr>\<lparr>ns_preferred := f\<rparr>) = (Inr (), s2) \<and> grown F N m s (insert p N) s2 \<and> ns_room k s2 \<and>
      ns_disk s2 p = Some ?bs" for g f
  proof -
    let ?s1 = "s\<lparr>ns_btree := bt\<rparr>\<lparr>ns_preferred := f\<rparr>"
    have "ns_index F (insert p N) m ?s1" using a(3) by (simp only: side_invs)
    from ns_disk_write_law [OF this insertI1 bs, of g] obtain bt2 where
      w: "ns_disk_write g p ?bs ?s1 = (Inr (), ?s1\<lparr>ns_btree := bt2\<rparr>)" "ns_index F (insert p N) m (?s1\<lparr>ns_btree := bt2\<rparr>)"
        "ns_disk (?s1\<lparr>ns_btree := bt2\<rparr>) p = Some ?bs"
        "\<forall>q x. q \<noteq> p \<longrightarrow> ns_disk ?s1 q = Some x \<longrightarrow> ns_disk (?s1\<lparr>ns_btree := bt2\<rparr>) q = Some x"
        "ns_step F ?s1 (?s1\<lparr>ns_btree := bt2\<rparr>)" "\<forall>n. bm_room n bt2 = bm_room n (ns_btree ?s1)" by blast
    let ?s2 = "?s1\<lparr>ns_btree := bt2\<rparr>"
    have d1: "ns_disk ?s1 = ns_disk s" using a(4) by (simp only: side_disk)
    have kept: "\<forall>q x. q \<noteq> p \<longrightarrow> ns_disk s q = Some x \<longrightarrow> ns_disk ?s2 q = Some x" using w(4) unfolding d1 .
    have notin: "p \<notin> N" using a(2) by simp
    note new = ns_pages_new [OF pages notin w(3) kept]
    have step: "ns_step F s ?s2" using a(5) w(5) by (auto simp: ns_step_def intro: shared_step_trans)
    have "ns_ids (insert p N) m ?s2" by (rule ns_ids_grow [OF ids]) (use new in auto)
    then have "grown F N m s (insert p N) ?s2"
      using w(2) new notin step by (auto simp: grown_def ns_inv_def)
    then show ?thesis using w(1,3,6) a(6) by (intro exI [of _ ?s2]) (simp add: ns_room_def)
  qed
  then show ?thesis using a(1,2) by (intro exI [of _ p] exI [of _ "s\<lparr>ns_btree := bt\<rparr>"]) simp
qed

lemma create_retry_page_law:
  assumes inv: "ns_inv F N m s" and room: "ns_room (Suc k) s"
  shows "\<exists>p s'. create_retry_page s = (Inr p, s') \<and> grown F N m s (insert p N) s' \<and> ns_room k s' \<and> p \<notin> N"
proof -
  obtain p s1 where a: "ns_allocate s = (Inr p, s1)" "p \<notin> N" and
    w: "\<forall>g a. \<exists>s2. ns_disk_write g p (node_page_image (node_page_new p)) (s1\<lparr>ns_preferred := a\<rparr>) = (Inr (), s2) \<and>
       grown F N m s (insert p N) s2 \<and> ns_room k s2 \<and> ns_disk s2 p = Some (node_page_image (node_page_new p))"
    using fresh_page_law [OF assms] by blast
  obtain s2 where "ns_disk_write True p (node_page_image (node_page_new p)) (s1\<lparr>ns_preferred := ns_preferred s1\<rparr>) = (Inr (), s2)"
    and s2: "grown F N m s (insert p N) s2" "ns_room k s2" using w by blast
  then have d: "ns_disk_write True p (node_page_image (node_page_new p)) s1 = (Inr (), s2)" by simp
  have "node_page_pack (node_page_new p) = Inr (node_page_image (node_page_new p))"
    by (rule node_ok_unpack(1) [OF node_ok_new, of 1]) simp
  then show ?thesis using a d s2 by (simp add: create_retry_page_def)
qed

lemma choose_page_in:
  assumes "ns_pages {} N s" "choose_page s need block = Some p"
  shows "p \<in> N"
proof -
  have "dirty_fits s need p \<or> cached_fits s need p"
    using assms(2) by (auto simp: choose_page_def find_Some_iff split: option.splits)
  then show ?thesis using ns_pagesD(2,6) [OF assms(1)] by (auto simp: dirty_fits_def cached_fits_def split: option.splits)
qed

lemma find_or_create_law:
  assumes inv: "ns_inv F N m s" and room: "ns_room (Suc k) s" and n: "small_record n"
  shows "\<exists>p N' s'. find_or_create_page_for_node n s = (Inr p, s') \<and> p \<in> N' \<and> grown F N m s N' s' \<and> ns_room k s'"
proof -
  have pages: "ns_pages {} N s" using inv by (simp add: ns_inv_def)
  obtain need where need: "estimate_node_size n = Inr need" using estimate_small [OF n, of 0] by (auto simp: estimate_node_size_eq)
  let ?block = "node_id_to_block (node_id n)"
  show ?thesis
  proof (cases "choose_page s need ?block")
    case (Some p)
    have "ns_room k s" using room by (simp add: ns_room_def bm_room_def)
    then show ?thesis
      using need Some choose_page_in [OF pages Some] grown_refl [OF inv]
      by (intro exI [of _ p] exI [of _ N] exI [of _ s]) (simp add: find_or_create_page_for_node_def)
  next
    case None
    obtain p s1 where a: "ns_allocate s = (Inr p, s1)" "p \<notin> N" and
      w: "\<forall>g a. \<exists>s2. ns_disk_write g p (node_page_image (node_page_new p)) (s1\<lparr>ns_preferred := a\<rparr>) = (Inr (), s2) \<and>
         grown F N m s (insert p N) s2 \<and> ns_room k s2 \<and> ns_disk s2 p = Some (node_page_image (node_page_new p))"
      using fresh_page_law [OF inv room] by blast
    obtain f where f: "associate_page_with_block p ?block s1 = s1\<lparr>ns_preferred := f\<rparr>"
    proof (cases "p \<in> set (ns_preferred s1 ?block)")
      case True
      then show ?thesis using that [of "ns_preferred s1"] by (simp add: associate_page_with_block_def)
    qed (use that in \<open>simp add: associate_page_with_block_def Let_def\<close>)
    obtain s2 where s2: "ns_disk_write False p (node_page_image (node_page_new p)) (s1\<lparr>ns_preferred := f\<rparr>) = (Inr (), s2)"
      "grown F N m s (insert p N) s2" "ns_room k s2" "ns_disk s2 p = Some (node_page_image (node_page_new p))" using w by blast
    have pack: "node_page_pack (node_page_new p) = Inr (node_page_image (node_page_new p))"
      by (rule node_ok_unpack(1) [OF node_ok_new, of 1]) simp
    let ?s3 = "page_cache_insert p (node_page_image (node_page_new p)) s2"
    have "ns_pages {} (insert p N) s2" using s2(2) by (simp add: grown_def ns_inv_def)
    from ns_pages_insert [OF this insertI1] s2(4) have "ns_pages {} (insert p N) ?s3" by simp
    then have "grown F N m s (insert p N) ?s3" by (rule grown_recached [OF s2(2) recached_insert])
    moreover have "find_or_create_page_for_node n s = (Inr p, ?s3)"
      using need None a(1) f pack s2(1) by (simp add: find_or_create_page_for_node_def Let_def)
    moreover have "ns_room k ?s3" using s2(3) ns_room_recached [OF recached_insert] by blast
    ultimately show ?thesis by blast
  qed
qed

section \<open>Changing a page\<close>

lemma write_changes:
  assumes inv: "ns_inv F N m s" and p: "p \<in> N" "content s p = Some pg0" and ok: "node_ok (ns_next_id s) p pg"
    and ids: "node_id ` set (nodes pg0) \<subseteq> node_id ` set (nodes pg)"
  shows "\<exists>s'. write_node_page pg s = (Inr (), s') \<and> ns_index F N m s' \<and> ns_pages (if ns_batch s then {} else {p}) N s' \<and>
    ns_ids N m s' \<and> ns_step F s s' \<and> (\<forall>n. ns_room n s' = ns_room n s) \<and> ns_next_id s' = ns_next_id s \<and> ns_batch s' = ns_batch s \<and>
    (map_of (ns_dirty s') p = None \<longrightarrow> ns_disk s' p = Some (node_page_image pg)) \<and>
    (\<exists>pg'. content s' p = Some pg' \<and> node_id ` set (nodes pg') = node_id ` set (nodes pg) \<and> (\<forall>j. record_in j pg' = record_in j pg)) \<and>
    (\<forall>q \<in> N - {p}. content s' q = content s q)"
proof -
  have ix: "ns_index F N m s" "ns_pages {} N s" "ns_ids N m s" using inv by (simp_all add: ns_inv_def)
  obtain s' where w: "write_node_page pg s = (Inr (), s')" "ns_index F N m s'" "ns_pages (if ns_batch s then {} else {p}) N s'"
    "content s' p = Some (if ns_batch s then pg else stored_page pg)" "\<forall>q \<in> N - {p}. content s' q = content s q"
    "ns_step F s s'" "\<forall>n. ns_room n s' = ns_room n s" "ns_next_id s' = ns_next_id s" "ns_batch s' = ns_batch s"
    "map_of (ns_dirty s') p = None \<longrightarrow> ns_disk s' p = Some (node_page_image pg)"
    using write_node_page_law [OF ix(1,2) p(1) ok] by (elim exE conjE) (rule that; assumption)
  let ?pg = "if ns_batch s then pg else stored_page pg"
  have pg: "node_id ` set (nodes ?pg) = node_id ` set (nodes pg)" "\<forall>j. record_in j ?pg = record_in j pg"
    by (simp_all add: image_image)
  have "ns_ids N m s'"
    unfolding ns_ids_def
  proof (intro allI impI)
    fix j q assume j: "m j = Some q"
    have "q \<in> N \<and> 1 \<le> sint j \<and> sint j < sint (ns_next_id s) \<and> (\<exists>pg. content s q = Some pg \<and> j \<in> node_id ` set (nodes pg))"
      using ix(3) j by (simp add: ns_ids_def)
    then show "q \<in> N \<and> 1 \<le> sint j \<and> sint j < sint (ns_next_id s') \<and> (\<exists>pg. content s' q = Some pg \<and> j \<in> node_id ` set (nodes pg))"
      using w(4,5,8) p(2) ids pg(1) by (cases "q = p") auto
  qed
  then show ?thesis using w pg by (intro exI [of _ s'] exI [of _ ?pg] conjI) (simp_all only: simp_thms)
qed

lemma pack_node_ok: "node_ok b p pg \<Longrightarrow> node_page_pack pg = Inr (node_page_image pg)"
  by (simp add: node_ok_def node_page_pack_eq)

lemma log_page_law:
  assumes "node_ok b p pg"
  obtains w where "ns_log_page pg s = (Inr (), s\<lparr>ns_wal := w\<rparr>)"
proof (cases "ns_wal s")
  case None
  then show ?thesis using that [of "ns_wal s"] by (simp add: ns_log_page_def)
next
  case (Some w)
  show ?thesis by (rule that [of "Some (w @ [Page_Write (np_page_id pg) 0 (node_page_image pg)])"])
      (simp add: ns_log_page_def Some pack_node_ok [OF assms])
qed

lemma side_wal [simp]:
  "ns_ids N m (s\<lparr>ns_wal := w\<rparr>) = ns_ids N m s" "node_map m (s\<lparr>ns_wal := w\<rparr>) = node_map m s"
  "ns_ids N m (s\<lparr>ns_root := r, ns_height := h\<rparr>) = ns_ids N m s" "node_map m (s\<lparr>ns_root := r, ns_height := h\<rparr>) = node_map m s"
  by (simp_all add: ns_ids_def node_map_def fun_eq_iff split: option.split)

text \<open>After a write the page goes to the log and into the cache, which restores the invariant.\<close>

lemma cache_page_law:
  assumes ix: "ns_index F N m s" "ns_pages E N s" "ns_ids N m s" and E: "E \<subseteq> {p}" "p \<in> N" and ok: "node_ok b p pg"
    and disk: "map_of (ns_dirty s) p = None \<longrightarrow> ns_disk s p = Some (node_page_image pg)"
  shows "\<exists>s1 s'. ns_log_page pg s = (Inr (), s1) \<and> cache_page p pg s1 = (Inr (), s') \<and> ns_inv F N m s' \<and>
    node_map m s' = node_map m s \<and> content s' = content s \<and> ns_step F s s' \<and> (\<forall>n. ns_room n s' = ns_room n s) \<and>
    ns_next_id s' = ns_next_id s \<and> ns_batch s' = ns_batch s"
proof -
  obtain w where w: "ns_log_page pg s = (Inr (), s\<lparr>ns_wal := w\<rparr>)" using log_page_law [OF ok] .
  let ?s1 = "s\<lparr>ns_wal := w\<rparr>"
  let ?s = "page_cache_insert p (node_page_image pg) ?s1"
  have rc: "recached ?s1 ?s" by (rule recached_insert)
  have pages: "ns_pages E N ?s1" using ix(2) by simp
  have "ns_pages (E - {p}) N ?s" by (rule ns_pages_insert [OF pages E(2)]) (use disk in simp)
  then have "ns_pages {} N ?s" using E(1) by (metis Diff_eq_empty_iff)
  then have "ns_inv F N m ?s" using ix by (simp add: ns_inv_def recachedD [OF rc])
  moreover have "ns_room n ?s = ns_room n s" for n by (simp add: ns_room_def recached_fields [OF rc])
  moreover have "ns_step F s ?s" by (simp add: ns_step_same recached_fields [OF rc])
  ultimately show ?thesis
    using w pack_node_ok [OF ok]
    by (intro exI [of _ ?s1] exI [of _ ?s]) (simp add: cache_page_def recachedD [OF rc] recached_fields [OF rc])
qed

end
