(* ===== verification/Node_Store_Map.thy ===== *)
theory Node_Store_Map
  imports Node_Store_Correct
begin

text \<open>
  The node store is a map of records: what insertion, lookup, update, deletion and the commit of a batch do to the
  records a store holds, for one operation and for sequences of them.
\<close>

section \<open>Insertion\<close>

text \<open>Storing a page that has one record more, the one with the id \<open>i\<close>.\<close>

lemma store_new_law:
  assumes inv: "ns_inv F N m s" and room: "ns_room (k + 11) s" and p: "p \<in> N" "content s p = Some pg0"
    and ok: "node_ok (ns_next_id s) p pg" and new: "nodes pg = nodes pg0 @ [n]" "node_id n = i" "\<forall>k \<in> set (nodes pg0). node_id k \<noteq> i"
    and i: "1 \<le> sint i" "sint i < sint (ns_next_id s)"
  shows "\<exists>s'. store_new i p pg s = Some (Inr i, s') \<and> ns_inv F N (m(i \<mapsto> p)) s' \<and>
    node_map (m(i \<mapsto> p)) s' = (node_map m s)(i \<mapsto> stored n) \<and> ns_step F s s' \<and> ns_room k s' \<and>
    ns_next_id s' = ns_next_id s \<and> ns_batch s' = ns_batch s"
proof -
  let ?M = "m(i \<mapsto> p)"
  have ids0: "ns_ids N m s" using inv by (simp add: ns_inv_def)
  have sub: "node_id ` set (nodes pg0) \<subseteq> node_id ` set (nodes pg)" using new(1) by auto
  obtain s1 pg' where w: "write_node_page pg s = (Inr (), s1)" "ns_index F N m s1" "ns_pages (if ns_batch s then {} else {p}) N s1"
    "ns_ids N m s1" "ns_step F s s1" "\<forall>n. ns_room n s1 = ns_room n s" "ns_next_id s1 = ns_next_id s" "ns_batch s1 = ns_batch s"
    "map_of (ns_dirty s1) p = None \<longrightarrow> ns_disk s1 p = Some (node_page_image pg)"
    "content s1 p = Some pg'" "node_id ` set (nodes pg') = node_id ` set (nodes pg)" "\<forall>j. record_in j pg' = record_in j pg"
    "\<forall>q \<in> N - {p}. content s1 q = content s q"
    using write_changes [OF inv p ok sub] by (elim exE conjE) (rule that; assumption)
  have tree: "btree_map (F \<union> N) (ns_btree s1) m" "ns_initialized s1" using w(2) by (simp_all add: ns_index_def)
  have r11: "bm_room 11 (ns_btree s1)" using room w(6) bm_room_mono [of "k + 11" _ 11] by (simp add: ns_room_def)
  obtain bt where bt: "btree_insert i p (ns_btree s1) = Some (Inr (), bt)" "btree_map (F \<union> N) bt ?M"
    "index_step (F \<union> N) 11 (ns_btree s1) bt" using btree_insert_correct [OF tree(1) r11] by blast
  note k = index_step_kept [OF w(2) bt(3,2)]
  let ?E = "if ns_batch s then {} else {p}"
  let ?s2 = "s1\<lparr>ns_btree := bt\<rparr>"
  let ?s3 = "?s2\<lparr>ns_root := bm_root_page_id bt, ns_height := bm_tree_height bt\<rparr>"
  have px: "ns_pages ?E N ?s2" "\<And>q. q \<in> N \<Longrightarrow> content ?s2 q = content s1 q" "ns_ids N m ?s2"
    using ns_pages_index [OF w(3,4)] k(3) by blast+
  have c2: "content ?s2 q = (if q = p then Some pg' else content s q)" if "q \<in> N" for q
    using px(2) [OF that] w(10,13) that by simp
  have i_in: "i \<in> node_id ` set (nodes pg')" using w(11) new(1,2) by simp
  have ids: "ns_ids N ?M ?s2"
    using px(3) i i_in p(1) c2 [OF p(1)] w(7) by (auto simp: ns_ids_def)
  have map: "node_map ?M ?s2 = (node_map m s)(i \<mapsto> stored n)"
  proof
    fix j
    have rec: "record_in j pg' = (if j = i then Some (stored n) else record_in j pg0)"
      using w(12) record_in_append [OF new(1), of j] new(2,3) by simp
    show "node_map ?M ?s2 j = ((node_map m s)(i \<mapsto> stored n)) j"
      using rec c2 p ids0 by (cases "m j") (auto simp: node_map_def ns_ids_def)
  qed
  have ix3: "ns_index F N ?M ?s3" using k(1) by simp
  have pages3: "ns_pages ?E N ?s3" using px(1) by simp
  have ids3: "ns_ids N ?M ?s3" using ids by simp
  have map3: "node_map ?M ?s3 = (node_map m s)(i \<mapsto> stored n)" using map by simp
  have step3: "ns_step F s ?s3" using w(5) k(2) by (auto simp: ns_step_def intro: shared_step_trans)
  have room3: "ns_room k ?s3" using k(4) [of k] room w(6) by (simp add: ns_room_def)
  have run: "store_new i p pg s = (if ns_batch s then Some (Inr i, ?s3)
      else bindO (liftO (ns_log_page pg)) (\<lambda>_. bindO (liftO (cache_page p pg)) (\<lambda>_ s. Some (Inr i, s))) ?s3)"
    using w(1,8) bt(1) tree(2) by (simp add: store_new_def with_index_def Let_def)
  show ?thesis
  proof (cases "ns_batch s")
    case True
    then have "ns_inv F N ?M ?s3" using ix3 pages3 ids3 by (simp add: ns_inv_def)
    then show ?thesis using True run map3 step3 room3 w(7,8) by (intro exI [of _ ?s3]) simp
  next
    case False
    have sub: "?E \<subseteq> {p}" by simp
    have disk: "map_of (ns_dirty ?s3) p = None \<longrightarrow> ns_disk ?s3 p = Some (node_page_image pg)" using w(9) k(3) [OF p(1)] by simp
    obtain s4 s5 where fin: "ns_log_page pg ?s3 = (Inr (), s4)" "cache_page p pg s4 = (Inr (), s5)" "ns_inv F N ?M s5"
      "node_map ?M s5 = node_map ?M ?s3" "ns_step F ?s3 s5" "\<forall>n. ns_room n s5 = ns_room n ?s3"
      "ns_next_id s5 = ns_next_id ?s3" "ns_batch s5 = ns_batch ?s3"
      using cache_page_law [OF ix3 pages3 ids3 sub p(1) ok disk] by blast
    have "store_new i p pg s = Some (Inr i, s5)" using False run fin(1,2) by simp
    moreover have "ns_step F s s5" by (rule ns_step_trans [OF step3 fin(5)])
    ultimately show ?thesis using fin(3,4,6,7,8) map3 room3 w(7,8) by (intro exI [of _ s5]) simp
  qed
qed

text \<open>The id of the new record is above all others.\<close>

definition ns_before :: "i64 \<Rightarrow> u64 set \<Rightarrow> node_store \<Rightarrow> bool" where
  "ns_before b N s \<longleftrightarrow> (\<forall>p \<in> N. \<forall>pg. content s p = Some pg \<longrightarrow> node_ok b p pg)"

lemma ns_before_grown:
  assumes "ns_before b N s" "grown F N m s N' s'"
  shows "ns_before b N' s'"
  unfolding ns_before_def
proof (intro ballI allI impI)
  fix p pg assume "p \<in> N'" "content s' p = Some pg"
  then show "node_ok b p pg" using assms node_ok_stored [OF node_ok_new] by (cases "p \<in> N") (auto simp: grown_def ns_before_def)
qed

text \<open>\<open>s'\<close> is \<open>s\<close> with the record \<open>n\<close> added.\<close>

definition added :: "u64 set \<Rightarrow> u64 set \<Rightarrow> (u64 \<Rightarrow> u64 option) \<Rightarrow> nat \<Rightarrow> node_record \<Rightarrow> node_store \<Rightarrow> node_store \<Rightarrow> bool" where
  "added F N m k n s s' \<longleftrightarrow> (\<exists>p N'. N \<subseteq> N' \<and> ns_inv F N' (m(node_id n \<mapsto> p)) s' \<and>
     node_map (m(node_id n \<mapsto> p)) s' = (node_map m s)(node_id n \<mapsto> stored n) \<and> ns_step F s s' \<and> ns_room k s' \<and>
     ns_next_id s' = ns_next_id s \<and> ns_batch s' = ns_batch s)"

text \<open>One attempt inserts the record or finds the page too full, which a page just created is not.\<close>

lemma attempt_law:
  assumes pick: "pick s = (Inr p, s1)" "p \<in> N'" "grown F N m s N' s1" and room: "ns_room (k + 11) s1"
    and before: "ns_before (node_id n) N s" and ids: "ns_ids N m s"
    and n: "small_record n" "1 \<le> sint (node_id n)" "sint (node_id n) < sint (ns_next_id s)"
  shows "(\<exists>s'. insert_attempts r pick n s = Some (Inr (node_id n), s') \<and> added F N m k n s s') \<or>
    content s1 p \<noteq> Some (stored_page (node_page_new p)) \<and>
    (\<exists>s2. (\<forall>r'. r = Suc r' \<longrightarrow> insert_attempts r pick n s = insert_attempts r' create_retry_page n s2) \<and>
      grown F N m s N' s2 \<and> ns_room (k + 11) s2)"
proof -
  have inv1: "ns_inv F N' m s1" using pick(3) by (simp add: grown_def)
  then have ix: "ns_index F N' m s1" "ns_pages {} N' s1" by (simp_all add: ns_inv_def)
  obtain pg s2 where l: "load_node_page p s1 = (Inr pg, s2)" "content s1 p = Some pg" "recached s1 s2" "ns_pages {} N' s2"
    using load_node_page_law [OF ix pick(2)] by blast
  have ok: "node_ok (node_id n) p pg" using ns_before_grown [OF before pick(3)] pick(2) l(2) by (auto simp: ns_before_def)
  have g2: "grown F N m s N' s2" by (rule grown_recached [OF pick(3) l(3,4)])
  have next_id: "ns_next_id s2 = ns_next_id s" using g2 by (simp add: grown_def)
  consider pg' where "add_node n pg = (Inr (), pg')" "node_ok (ns_next_id s) p pg'" "nodes pg' = nodes pg @ [n]"
    | pg' where "add_node n pg = (Inl (Err (InvalidHeader ''node_page'')), pg')"
    using add_node_next [OF ok n(1) refl n(2,3)] by blast
  then show ?thesis
  proof cases
    case 1
    have c2: "content s2 p = Some pg" using l(2) recachedD(3) [OF l(3)] by simp
    have inv2: "ns_inv F N' m s2" using g2 by (simp add: grown_def)
    have room2: "ns_room (k + 11) s2" using room ns_room_recached [OF l(3)] by simp
    have fresh: "\<forall>k \<in> set (nodes pg). node_id k \<noteq> node_id n" using ok by (auto simp: node_ok_def ids_below_def)
    have ok2: "node_ok (ns_next_id s2) p pg'" using 1(2) next_id by simp
    have lt: "sint (node_id n) < sint (ns_next_id s2)" using n(3) next_id by simp
    obtain s' where s': "store_new (node_id n) p pg' s2 = Some (Inr (node_id n), s')" "ns_inv F N' (m(node_id n \<mapsto> p)) s'"
      "node_map (m(node_id n \<mapsto> p)) s' = (node_map m s2)(node_id n \<mapsto> stored n)" "ns_step F s2 s'" "ns_room k s'"
      "ns_next_id s' = ns_next_id s2" "ns_batch s' = ns_batch s2"
      using store_new_law [OF inv2 room2 pick(2) c2 ok2 1(3) refl fresh n(2) lt] by blast
    have "insert_attempts r pick n s = Some (Inr (node_id n), s')"
      using pick(1) l(1) 1(1) s'(1) by (simp add: insert_attempts.simps)
    moreover have "ns_step F s s'" by (rule ns_step_trans [OF _ s'(4)]) (use g2 in \<open>simp add: grown_def\<close>)
    moreover have "node_map m s2 = node_map m s" by (rule grown_map [OF g2 ids])
    ultimately have "insert_attempts r pick n s = Some (Inr (node_id n), s') \<and> added F N m k n s s'"
      using s' g2 by (auto simp: added_def grown_def)
    then show ?thesis by blast
  next
    case 2
    have "pg \<noteq> stored_page (node_page_new p)"
    proof
      assume "pg = stored_page (node_page_new p)"
      then have "nodes pg = []" "used_bytes pg = 0" by (simp_all add: stored_page_def Let_def node_page_new_def)
      then show False using add_node_empty [OF _ _ n(1), of pg] 2 by auto
    qed
    moreover have "insert_attempts (Suc r') pick n s = insert_attempts r' create_retry_page n s2" for r'
      using pick(1) l(1) 2 by (subst insert_attempts.simps) simp
    moreover have "ns_room (k + 11) s2" using room ns_room_recached [OF l(3)] by simp
    ultimately show ?thesis using g2 l(2) by (intro disjI2 conjI exI [of _ s2]) simp_all
  qed
qed

lemma ns_room_mono: "ns_room n s \<Longrightarrow> n' \<le> n \<Longrightarrow> ns_room n' s"
  unfolding ns_room_def by (rule bm_room_mono)

lemma added_mono: "added F N m (k + 1) n s s' \<Longrightarrow> added F N m k n s s'"
  unfolding added_def using ns_room_mono [of "k + 1" s' k] by (elim exE conjE) (intro exI conjI; simp)

lemma added_grown:
  assumes g: "grown F N m s N' s2" and ids: "ns_ids N m s" and a: "added F N' m k n s2 s'"
  shows "added F N m k n s s'"
proof -
  obtain p N'' where "N' \<subseteq> N''" "ns_inv F N'' (m(node_id n \<mapsto> p)) s'"
    "node_map (m(node_id n \<mapsto> p)) s' = (node_map m s2)(node_id n \<mapsto> stored n)" "ns_step F s2 s'" "ns_room k s'"
    "ns_next_id s' = ns_next_id s2" "ns_batch s' = ns_batch s2" using a unfolding added_def by blast
  moreover have "N \<subseteq> N'" "ns_step F s s2" "ns_next_id s2 = ns_next_id s" "ns_batch s2 = ns_batch s"
    using g by (simp_all add: grown_def)
  ultimately show ?thesis
    unfolding added_def grown_map [OF g ids] using ns_step_trans by (intro exI [of _ p] exI [of _ N'']) auto
qed

lemma insert_attempts_law:
  assumes inv: "ns_inv F N m s" and room: "ns_room (k + 13) s" and before: "ns_before (node_id n) N s"
    and n: "small_record n" "1 \<le> sint (node_id n)" "sint (node_id n) < sint (ns_next_id s)"
  shows "\<exists>s'. insert_attempts (Suc r) (find_or_create_page_for_node n) n s = Some (Inr (node_id n), s') \<and> added F N m k n s s'"
proof -
  have ids: "ns_ids N m s" using inv by (simp add: ns_inv_def)
  have "Suc (k + 12) = k + 13" by simp
  then have room': "ns_room (Suc (k + 12)) s" using room by metis
  obtain p N' s1 where pick: "find_or_create_page_for_node n s = (Inr p, s1)" "p \<in> N'" "grown F N m s N' s1" "ns_room (k + 12) s1"
    using find_or_create_law [OF inv room' n(1)] by blast
  have "(k + 1) + 11 = k + 12" by simp
  then have room1: "ns_room ((k + 1) + 11) s1" using pick(4) by metis
  consider (ins) s' where "insert_attempts (Suc r) (find_or_create_page_for_node n) n s = Some (Inr (node_id n), s')" "added F N m (k + 1) n s s'"
    | (retry) s2 where "insert_attempts (Suc r) (find_or_create_page_for_node n) n s = insert_attempts r create_retry_page n s2"
      "grown F N m s N' s2" "ns_room ((k + 1) + 11) s2"
    using attempt_law [of "find_or_create_page_for_node n" s p s1, OF pick(1,2,3) room1 before ids n, of "Suc r"] by blast
  then show ?thesis
  proof cases
    case ins
    then show ?thesis using added_mono by blast
  next
    case retry
    have inv2: "ns_inv F N' m s2" and next2: "ns_next_id s2 = ns_next_id s" using retry(2) by (simp_all add: grown_def)
    have room2: "ns_room (Suc (k + 11)) s2" using retry(3) by simp
    obtain q s3 where q: "create_retry_page s2 = (Inr q, s3)" "grown F N' m s2 (insert q N') s3" "ns_room (k + 11) s3" "q \<notin> N'"
      using create_retry_page_law [OF inv2 room2] by blast
    have ids2: "ns_ids N' m s2" using inv2 by (simp add: ns_inv_def)
    have fresh: "content s3 q = Some (stored_page (node_page_new q))" using q(2,4) by (simp add: grown_def)
    have lt: "sint (node_id n) < sint (ns_next_id s2)" using n(3) next2 by simp
    obtain s' where s': "insert_attempts r create_retry_page n s2 = Some (Inr (node_id n), s')" "added F N' m k n s2 s'"
      using attempt_law [of create_retry_page s2 q s3, OF q(1) insertI1 q(2,3) ns_before_grown [OF before retry(2)] ids2 n(1,2) lt, of r] fresh by blast
    have "added F N m k n s s'" by (rule added_grown [OF retry(2) ids s'(2)])
    then show ?thesis using retry(1) s'(1) by metis
  qed
qed

section \<open>Committing a batch\<close>

lemma ns_disk_dirty [simp]: "disk_content (s\<lparr>ns_dirty := d\<rparr>) = disk_content s"
  by (rule disk_content_cong) simp

text \<open>
  Writing one waiting page: \<open>d\<close> are the pages still to be written, and the page is taken off that list.
\<close>

lemma commit_one:
  assumes inv: "ns_inv F N m (s\<lparr>ns_dirty := d\<rparr>)" and pg: "map_of d p = Some pg"
  shows "node_page_pack pg = Inr (node_page_image pg) \<and>
    (\<exists>s'. ns_disk_write True p (node_page_image pg) s = (Inr (), s') \<and>
      ns_inv F N m (page_cache_insert p (node_page_image pg) s'\<lparr>ns_dirty := AList.delete p d\<rparr>) \<and>
      node_map m (page_cache_insert p (node_page_image pg) s'\<lparr>ns_dirty := AList.delete p d\<rparr>) = node_map m (s\<lparr>ns_dirty := d\<rparr>) \<and>
      ns_step F s s' \<and> (\<forall>n. ns_room n s' = ns_room n s) \<and> ns_next_id s' = ns_next_id s)"
proof -
  let ?s = "s\<lparr>ns_dirty := d\<rparr>" and ?bs = "node_page_image pg"
  have ix: "ns_index F N m ?s" and pages: "ns_pages {} N ?s" and ids: "ns_ids N m ?s" using inv by (simp_all add: ns_inv_def)
  have p: "p \<in> N" using ns_pagesD(6) [OF pages, of p] pg by simp
  have c: "content ?s p = Some pg" using pg by (simp add: content_def)
  then have ok: "node_ok (ns_next_id s) p pg" using ns_pagesD(1) [OF pages p] by simp
  have small: "sint (ns_next_id s) \<le> 2 ^ 32" using ns_pagesD(11) [OF pages] by simp
  note image = node_ok_unpack [OF ok small]
  have ix0: "ns_index F N m s" using ix by simp
  obtain bt where w: "ns_disk_write True p ?bs s = (Inr (), s\<lparr>ns_btree := bt\<rparr>)" "ns_index F N m (s\<lparr>ns_btree := bt\<rparr>)"
    "ns_disk (s\<lparr>ns_btree := bt\<rparr>) p = Some ?bs" "\<forall>q x. q \<noteq> p \<longrightarrow> ns_disk s q = Some x \<longrightarrow> ns_disk (s\<lparr>ns_btree := bt\<rparr>) q = Some x"
    "ns_step F s (s\<lparr>ns_btree := bt\<rparr>)" "\<forall>n. bm_room n bt = bm_room n (ns_btree s)" using ns_disk_write_law [OF ix0 p image(2)] by blast
  let ?s1 = "s\<lparr>ns_btree := bt\<rparr>"
  let ?s2 = "page_cache_insert p ?bs ?s1"
  let ?t = "?s2\<lparr>ns_dirty := AList.delete p d\<rparr>"
  have rc: "recached ?s1 ?s2" by (rule recached_insert)
  note same = recached_fields [OF rc] recachedD [OF rc]
  have disk: "ns_disk ?t = ns_disk ?s1" "disk_content ?t = disk_content ?s1" by (simp_all add: same)
  have dp: "disk_content ?s1 p = Some (stored_page pg)" using w(3) image(3) by (simp add: disk_content_def)
  have dq: "disk_content ?s1 q = Some x" if "q \<noteq> p" "disk_content s q = Some x" for q x
    using w(4) that by (auto simp: disk_content_def split: option.splits)
  have dirty: "map_of (AList.delete p d) q = (if q = p then None else map_of d q)" for q by (simp add: delete_conv')
  have ct: "content ?t q = (if q = p then Some (stored_page pg) else content ?s q)" if q: "q \<in> N" for q
  proof -
    obtain x where "content ?s q = Some x" using ns_pagesD(1) [OF pages q] by blast
    then show ?thesis using dp dq [of q x] by (auto simp: content_def same dirty split: option.splits)
  qed
  have "ns_pages {} N ?t"
    unfolding ns_pages_def
  proof (intro conjI)
    show "\<forall>q \<in> N. \<exists>pg. content ?t q = Some pg \<and> node_ok (ns_next_id ?t) q pg"
      using ns_pagesD(1) [OF pages] ct node_ok_stored [OF ok] by (auto simp: same)
    show "\<forall>q bs. page_cache_get q ?t = Some bs \<longrightarrow> q \<in> N \<and> (q \<notin> {} \<and> map_of (ns_dirty ?t) q = None \<longrightarrow> ns_disk ?t q = Some bs)"
    proof (intro allI impI)
      fix q bs assume "page_cache_get q ?t = Some bs"
      then have "page_cache_get q ?s2 = Some bs" by (simp add: page_cache_get_def)
      from page_cache_get_insert [OF this] consider "q = p" "bs = ?bs" | "q \<noteq> p" "page_cache_get q ?s = Some bs"
        by (auto simp: page_cache_get_def)
      then show "q \<in> N \<and> (q \<notin> {} \<and> map_of (ns_dirty ?t) q = None \<longrightarrow> ns_disk ?t q = Some bs)"
        using p w(3,4) ns_pagesD(2,3) [OF pages, of q bs] by cases (auto simp: same dirty)
    qed
    show "\<forall>q pg. unpacked_get q ?t = Some pg \<longrightarrow> q \<in> N \<and> (q \<notin> {} \<and> map_of (ns_dirty ?t) q = None \<longrightarrow> disk_content ?t q = Some pg)"
    proof (intro allI impI)
      fix q x assume "unpacked_get q ?t = Some x"
      then have "unpacked_get q ?s2 = Some x" by (simp add: unpacked_get_def)
      from unpacked_get_insert [OF this] have "q \<noteq> p" "unpacked_get q ?s = Some x" by (auto simp: unpacked_get_def)
      then show "q \<in> N \<and> (q \<notin> {} \<and> map_of (ns_dirty ?t) q = None \<longrightarrow> disk_content ?t q = Some x)"
        using dq ns_pagesD(4,5) [OF pages, of q x] by (auto simp: same dirty)
    qed
    show "fst ` set (ns_dirty ?t) \<subseteq> N" using pages by (auto simp: ns_pages_def AList.delete_eq)
    show "distinct (map fst (ns_dirty ?t))" using ns_pagesD(7) [OF pages] by (simp add: distinct_delete)
    show "ns_batch ?t \<or> ns_dirty ?t = []" using ns_pagesD(8) [OF pages] by (auto simp: same)
  qed (use ns_pagesD(9-11) [OF pages] in \<open>simp_all add: same\<close>)
  moreover have "ns_ids N m ?t"
    using ids ct c by (fastforce simp: ns_ids_def same image_image)
  moreover have "ns_index F N m ?t" using w(2) by (simp add: same)
  moreover have "node_map m ?t = node_map m ?s"
  proof
    fix i show "node_map m ?t i = node_map m ?s i"
      using ct c ids by (cases "m i") (auto simp: node_map_def ns_ids_def)
  qed
  ultimately show ?thesis using w(1,5,6) image(1) by (auto simp: ns_inv_def ns_room_def)
qed

lemma commit_pages_law:
  assumes "ns_inv F N m (s\<lparr>ns_dirty := d\<rparr>)" "\<forall>(p, pg) \<in> set ps. map_of d p = Some pg" "distinct (map fst ps)"
  shows "pack_all ps = Inr () \<and> (\<exists>s' d'. commit_pages ps s = (Inr (), s') \<and> ns_inv F N m (s'\<lparr>ns_dirty := d'\<rparr>) \<and>
    node_map m (s'\<lparr>ns_dirty := d'\<rparr>) = node_map m (s\<lparr>ns_dirty := d\<rparr>) \<and> dom (map_of d') = dom (map_of d) - fst ` set ps \<and>
    ns_step F s s' \<and> (\<forall>n. ns_room n s' = ns_room n s) \<and> ns_next_id s' = ns_next_id s)"
  using assms
proof (induction ps arbitrary: s d)
  case Nil
  then show ?case using ns_step_refl by auto
next
  case (Cons pp ps)
  obtain p pg where pp: "pp = (p, pg)" by (cases pp)
  have pg: "map_of d p = Some pg" using Cons.prems(2) pp by simp
  obtain s1 where w: "node_page_pack pg = Inr (node_page_image pg)" "ns_disk_write True p (node_page_image pg) s = (Inr (), s1)"
    "ns_inv F N m (page_cache_insert p (node_page_image pg) s1\<lparr>ns_dirty := AList.delete p d\<rparr>)"
    "node_map m (page_cache_insert p (node_page_image pg) s1\<lparr>ns_dirty := AList.delete p d\<rparr>) = node_map m (s\<lparr>ns_dirty := d\<rparr>)"
    "ns_step F s s1" "\<forall>n. ns_room n s1 = ns_room n s" "ns_next_id s1 = ns_next_id s"
    using commit_one [OF Cons.prems(1) pg] by blast
  let ?s2 = "page_cache_insert p (node_page_image pg) s1"
  have rc: "recached s1 ?s2" by (rule recached_insert)
  have "\<forall>(q, pg) \<in> set ps. map_of (AList.delete p d) q = Some pg"
    using Cons.prems(2,3) pp by (force simp: delete_conv')
  with Cons.IH [OF w(3)] Cons.prems(3) pp obtain s' d' where
    "pack_all ps = Inr ()" "commit_pages ps ?s2 = (Inr (), s')" "ns_inv F N m (s'\<lparr>ns_dirty := d'\<rparr>)"
    "node_map m (s'\<lparr>ns_dirty := d'\<rparr>) = node_map m (s\<lparr>ns_dirty := d\<rparr>)" "dom (map_of d') = dom (map_of (AList.delete p d)) - fst ` set ps"
    "ns_step F ?s2 s'" "\<forall>n. ns_room n s' = ns_room n ?s2" "ns_next_id s' = ns_next_id ?s2" using w(4) by auto
  moreover have "dom (map_of (AList.delete p d)) - fst ` set ps = dom (map_of d) - fst ` set (pp # ps)"
    by (auto simp: delete_conv' pp split: if_splits)
  moreover have "ns_step F s ?s2" using w(5) by (simp add: ns_step_def recached_fields [OF rc])
  ultimately show ?case
    using w(1,2,6,7) pp ns_step_trans [of F s ?s2 s'] ns_room_recached [OF rc] recached_fields(3) [OF rc]
    by (intro conjI exI [of _ s'] exI [of _ d']) simp_all
qed

section \<open>The store as a map of records\<close>

text \<open>
  The store holds the records \<open>R\<close>: some map of ids to pages is the one its index stands for, and the records on
  these pages are \<open>R\<close>.
\<close>

definition holds_records :: "u64 set \<Rightarrow> (i64 \<Rightarrow> node_record option) \<Rightarrow> node_store \<Rightarrow> bool" where
  "holds_records F R s \<longleftrightarrow> (\<exists>N m. ns_inv F N m s \<and> node_map m s = R)"

lemma batch_off:
  assumes "ns_inv F N m s" "ns_dirty s = []"
  shows "ns_inv F N m (s\<lparr>ns_batch := b\<rparr>)" "node_map m (s\<lparr>ns_batch := b\<rparr>) = node_map m s" "ns_step F s (s\<lparr>ns_batch := b\<rparr>)"
proof -
  let ?s = "s\<lparr>ns_batch := b\<rparr>"
  have "ns_disk ?s = ns_disk s" "content ?s = content s" "disk_content ?s = disk_content s"
    by (simp, simp, rule disk_content_cong, simp)
  then show "ns_inv F N m ?s" "node_map m ?s = node_map m s" "ns_step F s ?s"
    using assms unfolding ns_inv_def ns_pages_def ns_ids_def ns_index_def page_cache_get_def unpacked_get_def
    by (simp_all add: fun_eq_iff node_map_def ns_step_def split: option.split)
qed

lemma ns_commit_law:
  assumes inv: "ns_inv F N m s"
  shows "\<exists>s'. ns_commit_batch s = (Inr (length (ns_dirty s)), s') \<and> ns_inv F N m s' \<and> node_map m s' = node_map m s \<and>
    ns_dirty s' = [] \<and> \<not> ns_batch s' \<and> ns_step F s s' \<and> (\<forall>n. ns_room n s' = ns_room n s) \<and> ns_next_id s' = ns_next_id s"
proof (cases "ns_batch s \<and> ns_dirty s \<noteq> []")
  case False
  have pages: "ns_pages {} N s" using inv by (simp add: ns_inv_def)
  have clean: "ns_dirty s = []" using ns_pagesD(8) [OF pages] False by auto
  let ?s = "s\<lparr>ns_batch := False\<rparr>"
  have "?s = s" if "\<not> ns_batch s" using that by (cases s) simp
  then show ?thesis using clean batch_off [OF inv clean] by (intro exI [of _ ?s]) (auto simp: ns_commit_batch_def ns_room_def)
next
  case True
  have pages: "ns_pages {} N s" using inv by (simp add: ns_inv_def)
  have keys: "mset (ns_order s (map fst (ns_dirty s))) = mset (map fst (ns_dirty s))" by (rule ns_pagesD(9) [OF pages])
  then have keys2: "set (ns_order s (map fst (ns_dirty s))) = fst ` set (ns_dirty s)" "distinct (ns_order s (map fst (ns_dirty s)))"
    using ns_pagesD(7) [OF pages] mset_eq_setD [OF keys] mset_eq_imp_distinct_iff [OF keys] by auto
  let ?ps = "in_order s (ns_dirty s)"
  have fst: "map fst ?ps = ns_order s (map fst (ns_dirty s))" by (simp add: in_order_def comp_def)
  have "\<forall>(p, pg) \<in> set ?ps. map_of (ns_dirty s) p = Some pg"
  proof (clarify)
    fix p pg assume "(p, pg) \<in> set ?ps"
    then have "p \<in> fst ` set (ns_dirty s)" "pg = the (map_of (ns_dirty s) p)" using keys2(1) by (auto simp: in_order_def)
    then show "map_of (ns_dirty s) p = Some pg" by (metis map_of_eq_None_iff option.collapse)
  qed
  moreover have "distinct (map fst ?ps)" using fst keys2(2) by simp
  moreover have "ns_inv F N m (s\<lparr>ns_dirty := ns_dirty s\<rparr>)" using inv by simp
  ultimately obtain s' d' where c: "pack_all ?ps = Inr ()" "commit_pages ?ps s = (Inr (), s')" "ns_inv F N m (s'\<lparr>ns_dirty := d'\<rparr>)"
    "node_map m (s'\<lparr>ns_dirty := d'\<rparr>) = node_map m s" "dom (map_of d') = dom (map_of (ns_dirty s)) - fst ` set ?ps"
    "ns_step F s s'" "\<forall>n. ns_room n s' = ns_room n s" "ns_next_id s' = ns_next_id s"
    using commit_pages_law [where F = F and N = N and m = m and s = s and d = "ns_dirty s" and ps = ?ps] by auto
  have "fst ` set ?ps = fst ` set (ns_dirty s)" using keys2(1) fst by (metis list.set_map)
  then have "d' = []" using c(5) by (simp add: dom_map_of_conv_image_fst)
  then have i: "ns_inv F N m (s'\<lparr>ns_dirty := []\<rparr>)" "node_map m (s'\<lparr>ns_dirty := []\<rparr>) = node_map m s" using c(3,4) by simp_all
  let ?s = "s'\<lparr>ns_dirty := [], ns_batch := False\<rparr>"
  have "ns_inv F N m ?s" "node_map m ?s = node_map m s" using batch_off [OF i(1)] i(2) by simp_all
  moreover have "ns_commit_batch s = (Inr (length (ns_dirty s)), ?s)" using True c(1,2) by (simp add: ns_commit_batch_def Let_def)
  ultimately show ?thesis using c(6,7,8) by (intro exI [of _ ?s]) (simp add: ns_step_def ns_room_def)
qed

lemma node_map_dom:
  assumes "ns_ids N m s"
  shows "node_map m s i = None \<longleftrightarrow> m i = None"
proof (cases "m i")
  case None
  then show ?thesis by (simp add: node_map_def)
next
  case (Some p)
  then obtain pg where pg: "content s p = Some pg" "i \<in> node_id ` set (nodes pg)" using assms by (simp add: ns_ids_def) blast
  then have "find (\<lambda>n. node_id n = i) (nodes pg) \<noteq> None" by (auto simp: find_None_iff)
  then show ?thesis using Some pg(1) by (auto simp: node_map_def record_in_def)
qed

lemma holds_records_fresh:
  assumes "holds_records F R s"
  shows "R (ns_next_id s) = None"
proof -
  obtain N m where h: "ns_inv F N m s" "node_map m s = R" using assms by (auto simp: holds_records_def)
  then have ids: "ns_ids N m s" by (simp add: ns_inv_def)
  then have "m (ns_next_id s) = None" by (cases "m (ns_next_id s)") (auto simp: ns_ids_def)
  then show ?thesis using node_map_dom [OF ids, of "ns_next_id s"] h(2) by simp
qed

lemma sint_next: "1 \<le> sint (b :: i64) \<Longrightarrow> sint b < 2 ^ 32 \<Longrightarrow> sint (b + 1) = sint b + 1"
  by (simp add: sint_word_ariths signed_take_bit_int_eq_self)

lemma ns_pages_next:
  assumes pages: "ns_pages E N s" and b: "sint (ns_next_id s) \<le> sint b" "sint b \<le> 2 ^ 32"
  shows "ns_pages E N (s\<lparr>ns_next_id := b\<rparr>)"
proof -
  let ?s = "s\<lparr>ns_next_id := b\<rparr>"
  have dc: "disk_content ?s = disk_content s" by (rule disk_content_cong) simp
  have "\<forall>p \<in> N. \<exists>pg. content ?s p = Some pg \<and> node_ok (ns_next_id ?s) p pg"
  proof
    fix p assume "p \<in> N"
    then obtain pg where "content s p = Some pg" "node_ok (ns_next_id s) p pg" using ns_pagesD(1) [OF pages] by blast
    then show "\<exists>pg. content ?s p = Some pg \<and> node_ok (ns_next_id ?s) p pg" using node_ok_mono [OF _ b(1)] by auto
  qed
  moreover have "1 \<le> sint b" using ns_pagesD(10) [OF pages] b(1) by simp
  ultimately show ?thesis using pages b(2) unfolding ns_pages_def page_cache_get_def unpacked_get_def by (simp add: dc)
qed

lemma ns_insert_law:
  assumes h: "holds_records F R s" and room: "ns_room (k + 13) s" and n: "small_record n" and next_id: "sint (ns_next_id s) < 2 ^ 32"
  shows "\<exists>s'. ns_insert_node n s = Some (Inr (ns_next_id s), s') \<and>
    holds_records F (R(ns_next_id s \<mapsto> stored (n\<lparr>node_id := ns_next_id s\<rparr>))) s' \<and> ns_room k s' \<and>
    ns_next_id s' = ns_next_id s + 1 \<and> ns_batch s' = ns_batch s \<and> ns_step F s s'"
proof -
  let ?b = "ns_next_id s" and ?n = "n\<lparr>node_id := ns_next_id s\<rparr>"
  let ?s = "s\<lparr>ns_next_id := ?b + 1\<rparr>"
  obtain N m where inv: "ns_inv F N m s" and map: "node_map m s = R" using h by (auto simp: holds_records_def)
  have pages: "ns_pages {} N s" and ids: "ns_ids N m s" using inv by (simp_all add: ns_inv_def)
  have b: "1 \<le> sint ?b" using ns_pagesD(10) [OF pages] .
  have b1: "sint (?b + 1) = sint ?b + 1" using b next_id by (simp add: sint_next)
  have "ns_pages {} N ?s" by (rule ns_pages_next [OF pages]) (use b1 next_id in simp_all)
  moreover have "ns_ids N m ?s" using ids b1 by (fastforce simp: ns_ids_def)
  ultimately have inv': "ns_inv F N m ?s" using inv by (simp add: ns_inv_def)
  have room': "ns_room (k + 13) ?s" using room by (simp add: ns_room_def)
  have before: "ns_before (node_id ?n) N ?s" using ns_pagesD(1) [OF pages] by (fastforce simp: ns_before_def)
  have small: "small_record ?n" using n by simp
  have ge: "1 \<le> sint (node_id ?n)" and lt: "sint (node_id ?n) < sint (ns_next_id ?s)" using b b1 by simp_all
  obtain s' where s': "insert_attempts (Suc 1) (find_or_create_page_for_node ?n) ?n ?s = Some (Inr (node_id ?n), s')"
    "added F N m k ?n ?s s'" using insert_attempts_law [OF inv' room' before small ge lt] by blast
  have "ns_insert_node n s = Some (Inr ?b, s')"
    using s'(1) by (simp add: ns_insert_node_def allocate_node_id_def MAX_ATTEMPTS_def numeral_2_eq_2)
  moreover have "node_map m ?s = R" using map by (simp only: fun_eq_iff node_map_def side_fields(4) simp_thms)
  ultimately show ?thesis using s'(2) unfolding added_def holds_records_def by (auto simp: ns_step_def)
qed

text \<open>Changing the records of a page in place.\<close>

lemma change_node_in: "change_node i f ns = Some ms \<Longrightarrow> n \<in> set ms \<Longrightarrow> n \<in> set ns \<or> n \<in> f ` set ns"
proof (induction ns arbitrary: ms)
  case (Cons a ns)
  show ?case
  proof (cases "node_id a = i")
    case False
    then obtain ks where ks: "change_node i f ns = Some ks" "ms = a # ks" using Cons.prems(1) by auto
    then show ?thesis using Cons.IH [OF ks(1)] Cons.prems(2) by auto
  qed (use Cons.prems in auto)
qed simp

lemma change_node_props:
  assumes "change_node i f ns = Some ms" "\<And>n. node_id n = i \<Longrightarrow> node_id (f n) = i"
  shows "map node_id ms = map node_id ns" "j \<noteq> i \<Longrightarrow> find (\<lambda>n. node_id n = j) ms = find (\<lambda>n. node_id n = j) ns"
    "find (\<lambda>n. node_id n = i) ms = map_option f (find (\<lambda>n. node_id n = i) ns)"
  using assms by (induction ns arbitrary: ms) (auto split: if_splits)

lemma change_node_Some: "i \<in> node_id ` set ns \<Longrightarrow> \<exists>ms. change_node i f ns = Some ms"
  by (induction ns) auto

lemma change_node_packed:
  assumes "change_node i f ns = Some ms" "\<And>n. length (pack_node base (f n)) = length (pack_node base n)"
  shows "length (packed base ms) = length (packed base ns)"
  using assms by (induction ns arbitrary: ms) (auto split: if_splits)

text \<open>A page with records replaced, when it still fits.\<close>

lemma node_ok_change:
  assumes ok: "node_ok b p pg" and ch: "change_node i f (nodes pg) = Some ms"
    and f: "\<And>n. node_id n = i \<Longrightarrow> node_id (f n) = i" "\<And>n. n \<in> set (nodes pg) \<Longrightarrow> wf_record (f n)"
    and fits: "length (packed (base_id pg) ms) \<le> USABLE_SIZE"
  shows "node_ok b p (pg\<lparr>nodes := ms, used_bytes := u\<rparr>)"
proof -
  note c = change_node_props [OF ch f(1)]
  have "\<forall>n \<in> set ms. wf_record n" using change_node_in [OF ch] f(2) ok by (fastforce simp: node_ok_def)
  moreover have "(ms = []) = (nodes pg = [])" using c(1) by (metis map_is_Nil_conv)
  ultimately show ?thesis
    using ok fits sorted_ids_map [OF c(1)] ids_below_map [OF c(1)] min_node_id_map [OF c(1)]
    by (simp add: node_ok_def page_accepts_def)
qed

lemma change_node_ids: "change_node i f ns = Some ms \<Longrightarrow> (\<And>n. node_id n = i \<Longrightarrow> node_id (f n) = i) \<Longrightarrow>
  node_id ` set ms = node_id ` set ns"
  using change_node_props(1) [of i f ns ms] by (metis list.set_map)

text \<open>Loading the page of an id that the store holds.\<close>

lemma load_found:
  assumes inv: "ns_inv F N m s" and found: "m i = Some p"
  shows "\<exists>s1 s2 pg. lookup_page i s = Some (Inr (Some p), s1) \<and> load_node_page p s1 = (Inr pg, s2) \<and> p \<in> N \<and>
    ns_inv F N m s2 \<and> node_map m s2 = node_map m s \<and> content s2 p = Some pg \<and> node_ok (ns_next_id s2) p pg \<and>
    i \<in> node_id ` set (nodes pg) \<and> ns_step F s s2 \<and> (\<forall>n. ns_room n s \<longrightarrow> ns_room n s2) \<and>
    ns_next_id s2 = ns_next_id s \<and> ns_batch s2 = ns_batch s \<and> ns_initialized s2"
proof -
  obtain bt where "lookup_page i s = Some (Inr (m i), s\<lparr>ns_btree := bt\<rparr>)" "ns_inv F N m (s\<lparr>ns_btree := bt\<rparr>)"
    "node_map m (s\<lparr>ns_btree := bt\<rparr>) = node_map m s" "ns_step F s (s\<lparr>ns_btree := bt\<rparr>)"
    "\<forall>n. ns_room n s \<longrightarrow> ns_room n (s\<lparr>ns_btree := bt\<rparr>)" using lookup_page_law [OF inv, of i] by blast
  then obtain s1 where l: "lookup_page i s = Some (Inr (Some p), s1)" and b: "ns_inv F N m s1"
    "node_map m s1 = node_map m s" "ns_step F s s1" "\<forall>n. ns_room n s \<longrightarrow> ns_room n s1" "ns_next_id s1 = ns_next_id s"
    "ns_batch s1 = ns_batch s" using found by fastforce
  have ix: "ns_index F N m s1" "ns_pages {} N s1" and ids: "ns_ids N m s1" using b(1) by (simp_all add: ns_inv_def)
  then have p: "p \<in> N" and ex: "\<exists>pg. content s1 p = Some pg \<and> i \<in> node_id ` set (nodes pg)" using found unfolding ns_ids_def by blast+
  obtain pg s2 where pg: "load_node_page p s1 = (Inr pg, s2)" "content s1 p = Some pg" "node_ok (ns_next_id s1) p pg"
    "recached s1 s2" "ns_pages {} N s2" using load_node_page_law [OF ix p] by blast
  note same = recached_fields [OF pg(4)] recachedD [OF pg(4)]
  have inv2: "ns_inv F N m s2" by (rule ns_inv_recached [OF b(1) pg(4,5)])
  then have "ns_initialized s2" by (simp add: ns_inv_def ns_index_def)
  then show ?thesis
    using l b p ex pg(1-3) inv2 by (intro exI [of _ s1] exI [of _ s2] exI [of _ pg]) (auto simp: same ns_room_recached [OF pg(4)] ns_step_def)
qed

lemma lookup_missing:
  assumes inv: "ns_inv F N m s" and missing: "m i = None"
  shows "\<exists>s1. lookup_page i s = Some (Inr None, s1) \<and> ns_inv F N m s1 \<and> node_map m s1 = node_map m s \<and> ns_step F s s1 \<and>
    (\<forall>n. ns_room n s \<longrightarrow> ns_room n s1) \<and> ns_next_id s1 = ns_next_id s \<and> ns_batch s1 = ns_batch s"
  using lookup_page_law [OF inv, of i] missing by fastforce

text \<open>The map after a write of the changed page.\<close>

lemma node_map_changed:
  assumes ids: "ns_ids N m s" and p: "m i = Some p" "content s p = Some pg" and i: "i \<in> node_id ` set (nodes pg)"
    and ch: "change_node i f (nodes pg) = Some ms" "\<And>n. node_id n = i \<Longrightarrow> node_id (f n) = i"
    and pg': "content s' p = Some pg'" "\<forall>j. record_in j pg' = record_in j (pg\<lparr>nodes := ms, used_bytes := u\<rparr>)"
    and others: "\<forall>q \<in> N - {p}. content s' q = content s q"
  shows "node_map m s' = (node_map m s)(i \<mapsto> stored (f (the (find (\<lambda>n. node_id n = i) (nodes pg)))))"
proof
  fix j
  have some: "find (\<lambda>n. node_id n = i) (nodes pg) \<noteq> None" using i by (auto simp: find_None_iff)
  have rec: "record_in j pg' = (if j = i then Some (stored (f (the (find (\<lambda>n. node_id n = i) (nodes pg))))) else record_in j pg)"
    using pg'(2) change_node_props(2) [OF ch, of j] change_node_props(3) [OF ch] some by (auto simp: record_in_def)
  show "node_map m s' j = ((node_map m s)(i \<mapsto> stored (f (the (find (\<lambda>n. node_id n = i) (nodes pg)))))) j"
  proof (cases "m j")
    case None
    then show ?thesis using p by (auto simp: node_map_def)
  next
    case (Some q)
    then have "q \<in> N" using ids by (simp add: ns_ids_def)
    then show ?thesis using Some rec p pg'(1) others by (cases "q = p") (auto simp: node_map_def)
  qed
qed

lemma wf_record_flags [simp]: "wf_record (n\<lparr>flags := x\<rparr>) = wf_record n"
  by (simp add: wf_record_def split: option.split)

lemma pack_node_flags: "length (pack_node base (n\<lparr>flags := x\<rparr>)) = length (pack_node base n)"
proof -
  have "encoded_data_len (n\<lparr>flags := x\<rparr>) = encoded_data_len n" by (simp add: encoded_data_len_def is_external_def)
  moreover have "data_bytes (n\<lparr>flags := x\<rparr>) = data_bytes n" by (cases "data_inline n") (simp_all add: data_bytes_def)
  ultimately show ?thesis by (simp add: pack_node_eq id_delta_def byte_simps)
qed

lemma ns_delete_law:
  assumes h: "holds_records F R s"
  shows "\<exists>s'. ns_delete_node i s = Some (Inr (i \<in> dom R), s') \<and> holds_records F (R(i := None)) s' \<and> ns_step F s s' \<and>
    (\<forall>n. ns_room n s \<longrightarrow> ns_room n s') \<and> ns_next_id s' = ns_next_id s \<and> ns_batch s' = ns_batch s"
proof -
  obtain N m where inv: "ns_inv F N m s" and map: "node_map m s = R" using h by (auto simp: holds_records_def)
  have ids: "ns_ids N m s" using inv by (simp add: ns_inv_def)
  have dom: "R i = None \<longleftrightarrow> m i = None" using node_map_dom [OF ids, of i] map by simp
  show ?thesis
  proof (cases "m i")
    case None
    then obtain s1 where s1: "lookup_page i s = Some (Inr None, s1)" "ns_inv F N m s1" "node_map m s1 = node_map m s" "ns_step F s s1"
      "\<forall>n. ns_room n s \<longrightarrow> ns_room n s1" "ns_next_id s1 = ns_next_id s" "ns_batch s1 = ns_batch s" using lookup_missing [OF inv] by blast
    have "R(i := None) = R" "i \<notin> dom R" using None dom by auto
    then show ?thesis using s1 map by (intro exI [of _ s1]) (auto simp: ns_delete_node_def holds_records_def)
  next
    case (Some p)
    obtain s1 s2 pg where l: "lookup_page i s = Some (Inr (Some p), s1)" "load_node_page p s1 = (Inr pg, s2)" "p \<in> N"
      "ns_inv F N m s2" "node_map m s2 = node_map m s" "content s2 p = Some pg" "node_ok (ns_next_id s2) p pg"
      "i \<in> node_id ` set (nodes pg)" "ns_step F s s2" "\<forall>n. ns_room n s \<longrightarrow> ns_room n s2" "ns_next_id s2 = ns_next_id s"
      "ns_batch s2 = ns_batch s" "ns_initialized s2" using load_found [OF inv Some] by (elim exE conjE) (rule that; assumption)
    let ?f = "\<lambda>n. n\<lparr>flags := NODE_DELETED\<rparr>"
    obtain ms where ch: "change_node i ?f (nodes pg) = Some ms" using change_node_Some [OF l(8)] by blast
    have fid: "\<And>n. node_id n = i \<Longrightarrow> node_id (?f n) = i" by simp
    have "length (packed (base_id pg) ms) = length (packed (base_id pg) (nodes pg))"
      by (rule change_node_packed [OF ch]) (rule pack_node_flags)
    then have fits: "length (packed (base_id pg) ms) \<le> USABLE_SIZE" using l(7) by (simp add: node_ok_def page_accepts_def)
    have wf: "\<And>n. n \<in> set (nodes pg) \<Longrightarrow> wf_record (?f n)" using l(7) by (simp add: node_ok_def)
    let ?pg = "pg\<lparr>nodes := ms\<rparr>"
    have "node_ok (ns_next_id s2) p (pg\<lparr>nodes := ms, used_bytes := used_bytes pg\<rparr>)"
      by (rule node_ok_change [OF l(7) ch fid wf fits])
    then have ok: "node_ok (ns_next_id s2) p ?pg" by simp
    have same_ids: "node_id ` set (nodes ?pg) = node_id ` set (nodes pg)" using change_node_ids [OF ch fid] by simp
    then have sub: "node_id ` set (nodes pg) \<subseteq> node_id ` set (nodes ?pg)" by simp
    let ?E = "if ns_batch s2 then {} else {p}"
    obtain s3 pg' where w: "write_node_page ?pg s2 = (Inr (), s3)" "ns_index F N m s3" "ns_pages ?E N s3"
      "ns_ids N m s3" "ns_step F s2 s3" "\<forall>n. ns_room n s3 = ns_room n s2" "ns_next_id s3 = ns_next_id s2" "ns_batch s3 = ns_batch s2"
      "map_of (ns_dirty s3) p = None \<longrightarrow> ns_disk s3 p = Some (node_page_image ?pg)"
      "content s3 p = Some pg'" "\<forall>j. record_in j pg' = record_in j ?pg"
      "\<forall>q \<in> N - {p}. content s3 q = content s2 q"
      using write_changes [OF l(4,3,6) ok sub] by (elim exE conjE) (rule that; assumption)
    have ids2: "ns_ids N m s2" using l(4) by (simp add: ns_inv_def)
    have map3: "node_map m s3 = (node_map m s2)(i \<mapsto> stored (?f (the (find (\<lambda>n. node_id n = i) (nodes pg)))))"
      by (rule node_map_changed [where u = "used_bytes pg", OF ids2 Some l(6) l(8) ch fid w(10) _ w(12)]) (use w(11) in simp_all)
    have tree: "btree_map (F \<union> N) (ns_btree s3) m" "ns_initialized s3" using w(2) by (simp_all add: ns_index_def)
    obtain bt where bt: "btree_delete i (ns_btree s3) = (Inr (i \<in> dom m), bt)" "btree_map (F \<union> N) bt (m(i := None))"
      "index_step (F \<union> N) 0 (ns_btree s3) bt" using btree_delete_correct [OF tree(1)] by blast
    note k = index_step_kept [OF w(2) bt(3,2)]
    let ?s4 = "s3\<lparr>ns_btree := bt\<rparr>" and ?M = "m(i := None)"
    have px: "ns_pages ?E N ?s4" "\<And>q. q \<in> N \<Longrightarrow> content ?s4 q = content s3 q" "ns_ids N m ?s4" "node_map m ?s4 = node_map m s3"
      using ns_pages_index [OF w(3,4)] k(3) by blast+
    have ids4: "ns_ids N ?M ?s4" using px(3) by (auto simp: ns_ids_def)
    have map4: "node_map ?M ?s4 = R(i := None)"
      using px(4) map3 l(5) map by (auto simp: fun_eq_iff node_map_def)
    have disk4: "map_of (ns_dirty ?s4) p = None \<longrightarrow> ns_disk ?s4 p = Some (node_page_image ?pg)" using w(9) k(3) [OF l(3)] by simp
    have E: "?E \<subseteq> {p}" by simp
    obtain s5 s6 where fin: "ns_log_page ?pg ?s4 = (Inr (), s5)" "cache_page p ?pg s5 = (Inr (), s6)" "ns_inv F N ?M s6"
      "node_map ?M s6 = node_map ?M ?s4" "ns_step F ?s4 s6" "\<forall>n. ns_room n s6 = ns_room n ?s4"
      "ns_next_id s6 = ns_next_id ?s4" "ns_batch s6 = ns_batch ?s4"
      using cache_page_law [OF k(1) px(1) ids4 E l(3) ok disk4] by blast
    have "ns_delete_node i s = Some (Inr (i \<in> dom R), s6)"
      using l(1,2) ch w(1) bt(1) tree(2) fin(1,2) Some dom by (simp add: ns_delete_node_def with_index_def Let_def) blast
    moreover have "ns_step F s s6" using l(9) w(5) k(2) fin(5) by (auto simp: ns_step_def intro: shared_step_trans)
    moreover have "ns_room n s6" if "ns_room n s" for n
      using that l(10) w(6) fin(6) k(4) [of n] by simp
    ultimately show ?thesis using fin(3,4,7,8) map4 w(7,8) l(11,12) by (intro exI [of _ s6]) (auto simp: holds_records_def)
  qed
qed

lemma write_refused: "\<not> ns_batch s \<Longrightarrow> node_page_pack pg = Inl e \<Longrightarrow> write_node_page pg s = (Inl e, s)"
  by (simp add: write_node_page_def)

lemma change_at: "change_node i (\<lambda>_. n) ns = Some ms \<Longrightarrow> change_node i (\<lambda>k. if node_id k = i then n else k) ns = Some ms"
  by (induction ns arbitrary: ms) (auto split: if_splits)

lemma ns_update_law:
  assumes h: "holds_records F R s" and n: "wf_record n" "node_id n = i" and now: "\<not> ns_batch s"
  shows "\<exists>r s'. ns_update_node i n s = Some (r, s') \<and>
    holds_records F (case r of Inr _ \<Rightarrow> R(i \<mapsto> stored n) | Inl _ \<Rightarrow> R) s' \<and> (r = Inr () \<longrightarrow> i \<in> dom R) \<and>
    (i \<notin> dom R \<longrightarrow> r = Inl (Err (InvalidHeader ''update_node''))) \<and> ns_step F s s' \<and>
    (\<forall>n. ns_room n s \<longrightarrow> ns_room n s') \<and> ns_next_id s' = ns_next_id s \<and> ns_batch s' = ns_batch s"
proof -
  obtain N m where inv: "ns_inv F N m s" and map: "node_map m s = R" using h by (auto simp: holds_records_def)
  have ids: "ns_ids N m s" using inv by (simp add: ns_inv_def)
  have dom: "R i = None \<longleftrightarrow> m i = None" using node_map_dom [OF ids, of i] map by simp
  show ?thesis
  proof (cases "m i")
    case None
    then obtain s1 where s1: "lookup_page i s = Some (Inr None, s1)" "ns_inv F N m s1" "node_map m s1 = node_map m s" "ns_step F s s1"
      "\<forall>n. ns_room n s \<longrightarrow> ns_room n s1" "ns_next_id s1 = ns_next_id s" "ns_batch s1 = ns_batch s" using lookup_missing [OF inv] by blast
    have "i \<notin> dom R" using None dom by auto
    then show ?thesis using s1 map
      by (intro exI [of _ "Inl (Err (InvalidHeader ''update_node''))"] exI [of _ s1]) (auto simp: ns_update_node_def holds_records_def)
  next
    case (Some p)
    obtain s1 s2 pg where l: "lookup_page i s = Some (Inr (Some p), s1)" "load_node_page p s1 = (Inr pg, s2)" "p \<in> N"
      "ns_inv F N m s2" "node_map m s2 = node_map m s" "content s2 p = Some pg" "node_ok (ns_next_id s2) p pg"
      "i \<in> node_id ` set (nodes pg)" "ns_step F s s2" "\<forall>n. ns_room n s \<longrightarrow> ns_room n s2" "ns_next_id s2 = ns_next_id s"
      "ns_batch s2 = ns_batch s" "ns_initialized s2" using load_found [OF inv Some] by (elim exE conjE) (rule that; assumption)
    let ?f = "\<lambda>k. if node_id k = i then n else k"
    obtain ms where ch0: "change_node i (\<lambda>_. n) (nodes pg) = Some ms" using change_node_Some [OF l(8)] by blast
    have ch: "change_node i ?f (nodes pg) = Some ms" by (rule change_at [OF ch0])
    have fid: "\<And>k. node_id k = i \<Longrightarrow> node_id (?f k) = i" using n(2) by simp
    have h2: "holds_records F R s2" using l(4,5) map by (auto simp: holds_records_def)
    have i_in: "i \<in> dom R" using Some dom by auto
    show ?thesis
    proof (cases "sum_estimates ms")
      case (Inl e)
      then have "ns_update_node i n s = Some (Inl e, s2)" using l(1,2) ch0 by (simp add: ns_update_node_def)
      then show ?thesis using h2 i_in l(9-12) by (intro exI [of _ "Inl e"] exI [of _ s2]) simp
    next
      case (Inr used)
      let ?pg = "pg\<lparr>nodes := ms, used_bytes := used\<rparr>"
      have run: "ns_update_node i n s = bindO (liftO (write_node_page ?pg)) (\<lambda>_.
          bindO (liftO (ns_log_page ?pg)) (\<lambda>_. liftO (cache_page p ?pg))) s2"
        using l(1,2) ch0 Inr by (simp add: ns_update_node_def Let_def)
      show ?thesis
      proof (cases "page_accepts ?pg")
        case False
        then have "node_page_pack ?pg = Inl (Err (InvalidHeader ''node_page''))" by (simp add: node_page_pack_eq)
        then have "ns_update_node i n s = Some (Inl (Err (InvalidHeader ''node_page'')), s2)"
          using run now l(12) write_refused [of s2 ?pg] by simp
        then show ?thesis using h2 i_in l(9-12)
          by (intro exI [of _ "Inl (Err (InvalidHeader ''node_page''))"] exI [of _ s2]) simp
      next
        case True
        have wf: "\<And>k. k \<in> set (nodes pg) \<Longrightarrow> wf_record (?f k)" using l(7) n(1) by (simp add: node_ok_def)
        have fits: "length (packed (base_id pg) ms) \<le> USABLE_SIZE" using True by (simp add: page_accepts_def)
        have ok: "node_ok (ns_next_id s2) p ?pg" by (rule node_ok_change [OF l(7) ch fid wf fits])
        have sub: "node_id ` set (nodes pg) \<subseteq> node_id ` set (nodes ?pg)" using change_node_ids [OF ch fid] by simp
        let ?E = "if ns_batch s2 then {} else {p}"
        obtain s3 pg' where w: "write_node_page ?pg s2 = (Inr (), s3)" "ns_index F N m s3" "ns_pages ?E N s3"
          "ns_ids N m s3" "ns_step F s2 s3" "\<forall>n. ns_room n s3 = ns_room n s2" "ns_next_id s3 = ns_next_id s2" "ns_batch s3 = ns_batch s2"
          "map_of (ns_dirty s3) p = None \<longrightarrow> ns_disk s3 p = Some (node_page_image ?pg)"
          "content s3 p = Some pg'" "\<forall>j. record_in j pg' = record_in j ?pg" "\<forall>q \<in> N - {p}. content s3 q = content s2 q"
          using write_changes [OF l(4,3,6) ok sub] by (elim exE conjE) (rule that; assumption)
        have ids2: "ns_ids N m s2" using l(4) by (simp add: ns_inv_def)
        have some: "find (\<lambda>k. node_id k = i) (nodes pg) \<noteq> None" using l(8) by (auto simp: find_None_iff)
        then obtain k where "find (\<lambda>k. node_id k = i) (nodes pg) = Some k" by blast
        moreover from this have "node_id k = i" by (auto simp: find_Some_iff)
        ultimately have map3: "node_map m s3 = (node_map m s2)(i \<mapsto> stored n)"
          using node_map_changed [OF ids2 Some l(6) l(8) ch fid w(10,11,12)] by simp
        have E: "?E \<subseteq> {p}" by simp
        obtain s5 s6 where fin: "ns_log_page ?pg s3 = (Inr (), s5)" "cache_page p ?pg s5 = (Inr (), s6)" "ns_inv F N m s6"
          "node_map m s6 = node_map m s3" "ns_step F s3 s6" "\<forall>n. ns_room n s6 = ns_room n s3"
          "ns_next_id s6 = ns_next_id s3" "ns_batch s6 = ns_batch s3"
          using cache_page_law [OF w(2,3,4) E l(3) ok w(9)] by blast
        have "ns_update_node i n s = Some (Inr (), s6)" using run w(1) fin(1,2) by simp
        moreover have "ns_step F s s6" using l(9) w(5) fin(5) by (auto simp: ns_step_def intro: shared_step_trans)
        ultimately show ?thesis using fin(3,4,6,7,8) map3 w(6,7,8) l(5,10,11,12) map i_in
          by (intro exI [of _ "Inr ()"] exI [of _ s6]) (auto simp: holds_records_def)
      qed
    qed
  qed
qed

section \<open>Sequences of operations\<close>

datatype node_op = NS_Insert node_record | NS_Lookup i64 | NS_Delete i64 | NS_Begin | NS_Commit

datatype node_answer = NS_Id i64 | NS_Record "node_record option" | NS_Deleted bool | NS_Done

fun node_op_run :: "node_op \<Rightarrow> (node_store, node_answer) run" where
  "node_op_run (NS_Insert n) = bindO (ns_insert_node n) (\<lambda>i s. Some (Inr (NS_Id i), s))"
| "node_op_run (NS_Lookup i) = bindO (lookup_node i) (\<lambda>r s. Some (Inr (NS_Record (map_option stored r)), s))"
| "node_op_run (NS_Delete i) = bindO (ns_delete_node i) (\<lambda>b s. Some (Inr (NS_Deleted b), s))"
| "node_op_run NS_Begin = (\<lambda>s. Some (Inr NS_Done, begin_batch s))"
| "node_op_run NS_Commit = bindO (liftO ns_commit_batch) (\<lambda>_ s. Some (Inr NS_Done, s))"

fun node_ops_run :: "node_op list \<Rightarrow> (node_store, node_answer list) run" where
  "node_ops_run [] s = Some (Inr [], s)"
| "node_ops_run (x # xs) s =
     bindO (node_op_run x) (\<lambda>a. bindO (node_ops_run xs) (\<lambda>as s. Some (Inr (a # as), s))) s"

text \<open>The specification: a map of records, the next id, and whether a batch runs.\<close>

type_synonym node_spec = "(i64 \<Rightarrow> node_record option) \<times> i64 \<times> bool"

fun node_spec_op :: "node_op \<Rightarrow> node_spec \<Rightarrow> node_answer \<times> node_spec" where
  "node_spec_op (NS_Insert n) (R, b, t) = (NS_Id b, R(b \<mapsto> stored (n\<lparr>node_id := b\<rparr>)), b + 1, t)"
| "node_spec_op (NS_Lookup i) (R, b, t) = (NS_Record (R i), R, b, t)"
| "node_spec_op (NS_Delete i) (R, b, t) = (NS_Deleted (i \<in> dom R), R(i := None), b, t)"
| "node_spec_op NS_Begin (R, b, t) = (NS_Done, R, b, True)"
| "node_spec_op NS_Commit (R, b, t) = (NS_Done, R, b, False)"

fun node_spec_run :: "node_op list \<Rightarrow> node_spec \<Rightarrow> node_answer list \<times> node_spec" where
  "node_spec_run [] a = ([], a)"
| "node_spec_run (x # xs) a = (let (r, a1) = node_spec_op x a; (rs, a2) = node_spec_run xs a1 in (r # rs, a2))"

text \<open>Batches are not nested, and the records inserted are small.\<close>

fun node_ops_ok :: "bool \<Rightarrow> node_op list \<Rightarrow> bool" where
  "node_ops_ok t [] = True"
| "node_ops_ok t (NS_Insert n # xs) = (small_record n \<and> node_ops_ok t xs)"
| "node_ops_ok t (NS_Begin # xs) = (\<not> t \<and> node_ops_ok True xs)"
| "node_ops_ok t (NS_Commit # xs) = node_ops_ok False xs"
| "node_ops_ok t (x # xs) = node_ops_ok t xs"

definition node_sim :: "u64 set \<Rightarrow> node_store \<Rightarrow> node_spec \<Rightarrow> bool" where
  "node_sim F s a \<longleftrightarrow> (case a of (R, b, t) \<Rightarrow> holds_records F R s \<and> ns_next_id s = b \<and> ns_batch s = t)"

lemma lookup_holds:
  assumes "holds_records F R s"
  shows "\<exists>r s'. lookup_node i s = Some (Inr r, s') \<and> map_option stored r = R i \<and> holds_records F R s' \<and>
    ns_step F s s' \<and> (\<forall>n. ns_room n s \<longrightarrow> ns_room n s') \<and> ns_next_id s' = ns_next_id s \<and> ns_batch s' = ns_batch s"
proof -
  obtain N m where inv: "ns_inv F N m s" and map: "node_map m s = R" using assms by (auto simp: holds_records_def)
  show ?thesis
  proof (cases "m i")
    case None
    then obtain s1 where s1: "lookup_page i s = Some (Inr None, s1)" "ns_inv F N m s1" "node_map m s1 = node_map m s" "ns_step F s s1"
      "\<forall>n. ns_room n s \<longrightarrow> ns_room n s1" "ns_next_id s1 = ns_next_id s" "ns_batch s1 = ns_batch s" using lookup_missing [OF inv] by blast
    have "R i = None" using None map by (auto simp: node_map_def)
    then show ?thesis using s1 map
      by (intro exI [of _ None] exI [of _ s1]) (auto simp: lookup_node_def holds_records_def)
  next
    case (Some p)
    obtain s1 s2 pg where l: "lookup_page i s = Some (Inr (Some p), s1)" "load_node_page p s1 = (Inr pg, s2)"
      "ns_inv F N m s2" "node_map m s2 = node_map m s" "content s2 p = Some pg" "ns_step F s s2"
      "\<forall>n. ns_room n s \<longrightarrow> ns_room n s2" "ns_next_id s2 = ns_next_id s" "ns_batch s2 = ns_batch s"
      using load_found [OF inv Some] by (elim exE conjE) (rule that; assumption)
    let ?r = "find (\<lambda>n. node_id n = i) (nodes pg)"
    have "map_option stored ?r = node_map m s2 i" using Some l(5) by (simp add: node_map_def record_in_def)
    then have "map_option stored ?r = R i" using l(4) map by simp
    moreover have "lookup_node i s = Some (Inr ?r, s2)" using l(1,2) by (simp add: lookup_node_def)
    ultimately show ?thesis using l(3,4,6-9) map by (intro exI [of _ ?r] exI [of _ s2]) (auto simp: holds_records_def)
  qed
qed

lemma begin_holds:
  assumes "holds_records F R s" "\<not> ns_batch s"
  shows "holds_records F R (begin_batch s)" "ns_step F s (begin_batch s)" "ns_room n (begin_batch s) = ns_room n s"
    "ns_next_id (begin_batch s) = ns_next_id s" "ns_batch (begin_batch s)"
proof -
  obtain N m where inv: "ns_inv F N m s" and map: "node_map m s = R" using assms(1) by (auto simp: holds_records_def)
  then have "ns_pages {} N s" by (simp add: ns_inv_def)
  then have clean: "ns_dirty s = []" using ns_pagesD(8) assms(2) by blast
  then have "begin_batch s = s\<lparr>ns_batch := True\<rparr>" by (cases s) (simp add: begin_batch_def)
  then show "holds_records F R (begin_batch s)" "ns_step F s (begin_batch s)"
    using batch_off [OF inv clean] map by (auto simp: holds_records_def)
qed (simp_all add: begin_batch_def ns_room_def)

lemma commit_holds:
  assumes "holds_records F R s"
  shows "\<exists>s'. ns_commit_batch s = (Inr (length (ns_dirty s)), s') \<and> holds_records F R s' \<and> ns_dirty s' = [] \<and>
    \<not> ns_batch s' \<and> ns_step F s s' \<and> (\<forall>n. ns_room n s' = ns_room n s) \<and> ns_next_id s' = ns_next_id s"
proof -
  obtain N m where inv: "ns_inv F N m s" and map: "node_map m s = R" using assms by (auto simp: holds_records_def)
  from ns_commit_law [OF inv] map show ?thesis unfolding holds_records_def by metis
qed

lemma node_op_correct:
  assumes sim: "node_sim F s a" and room: "ns_room (k + 13) s" and ok: "node_ops_ok (snd (snd a)) (x # xs)"
    and ids: "sint (fst (snd a)) + int (length (x # xs)) \<le> 2 ^ 32"
  shows "\<exists>s'. node_op_run x s = Some (Inr (fst (node_spec_op x a)), s') \<and> node_sim F s' (snd (node_spec_op x a)) \<and>
    ns_room k s' \<and> ns_step F s s' \<and> node_ops_ok (snd (snd (snd (node_spec_op x a)))) xs \<and>
    sint (fst (snd (snd (node_spec_op x a)))) + int (length xs) \<le> 2 ^ 32"
proof -
  obtain R b t where a: "a = (R, b, t)" by (cases a)
  have h: "holds_records F R s" and b: "ns_next_id s = b" and t: "ns_batch s = t" using sim by (simp_all add: node_sim_def a)
  have roomk: "ns_room k s" by (rule ns_room_mono [OF room]) simp
  show ?thesis
  proof (cases x)
    case (NS_Insert n)
    have n: "small_record n" and lt: "sint (ns_next_id s) < 2 ^ 32" using ok ids NS_Insert b by (simp_all add: a)
    obtain s' where s': "ns_insert_node n s = Some (Inr b, s')" "holds_records F (R(b \<mapsto> stored (n\<lparr>node_id := b\<rparr>))) s'"
      "ns_room k s'" "ns_next_id s' = b + 1" "ns_batch s' = t" "ns_step F s s'"
      using ns_insert_law [OF h room n lt] unfolding b t by blast
    have "1 \<le> sint b" using h b by (auto simp: holds_records_def ns_inv_def ns_pages_def)
    then have "sint (b + 1) = sint b + 1" using sint_next lt b by simp
    then show ?thesis using s' ok ids NS_Insert by (intro exI [of _ s']) (simp add: a node_sim_def)
  next
    case (NS_Lookup i)
    then show ?thesis using lookup_holds [OF h, of i] ok ids b t roomk by (auto simp: a node_sim_def)
  next
    case (NS_Delete i)
    then show ?thesis using ns_delete_law [OF h, of i] ok ids b t roomk by (auto simp: a node_sim_def)
  next
    case NS_Begin
    then have "\<not> ns_batch s" using ok t by (simp add: a)
    from begin_holds [OF h this] NS_Begin show ?thesis using ok ids b roomk by (simp add: a node_sim_def)
  next
    case NS_Commit
    then show ?thesis using commit_holds [OF h] ok ids b t roomk by (auto simp: a node_sim_def)
  qed
qed

lemma node_ops_correct:
  "node_sim F s a \<Longrightarrow> ns_room (13 * length xs) s \<Longrightarrow> node_ops_ok (snd (snd a)) xs \<Longrightarrow>
   sint (fst (snd a)) + int (length xs) \<le> 2 ^ 32 \<Longrightarrow>
   \<exists>s'. node_ops_run xs s = Some (Inr (fst (node_spec_run xs a)), s') \<and> node_sim F s' (snd (node_spec_run xs a)) \<and> ns_step F s s'"
proof (induction xs arbitrary: s a)
  case Nil
  then show ?case using ns_step_refl by simp
next
  case (Cons x xs)
  have "ns_room (13 * length xs + 13) s" using Cons.prems(2) by (simp add: add.commute)
  from node_op_correct [OF Cons.prems(1) this Cons.prems(3,4)] obtain s1 where
    s1: "node_op_run x s = Some (Inr (fst (node_spec_op x a)), s1)" "node_sim F s1 (snd (node_spec_op x a))"
      "ns_room (13 * length xs) s1" "ns_step F s s1" "node_ops_ok (snd (snd (snd (node_spec_op x a)))) xs"
      "sint (fst (snd (snd (node_spec_op x a)))) + int (length xs) \<le> 2 ^ 32" by blast
  from Cons.IH [OF s1(2,3,5,6)] s1(1,4) show ?case
    using ns_step_trans [OF s1(4)] by (auto simp: Let_def split: prod.splits)
qed

text \<open>An empty store on an empty file.\<close>

definition empty_nodes :: node_store where
  "empty_nodes = ns_initialize empty_manager None (ns_new (\<lambda>ks. ks) empty_manager new_v3)"

lemma empty_nodes_holds: "holds_records {} (\<lambda>_. None) empty_nodes"
proof -
  have "ns_index {} {} (\<lambda>_. None) empty_nodes"
    using btree_map_empty_manager
    by (simp add: ns_index_def empty_nodes_def ns_initialize_def empty_manager_def btree_new_def)
  moreover have "ns_pages {} {} empty_nodes"
    by (simp add: ns_pages_def empty_nodes_def ns_initialize_def ns_new_def ns_with_capacity_def page_cache_get_def unpacked_get_def)
  moreover have "ns_ids {} (\<lambda>_. None) empty_nodes" by (simp add: ns_ids_def)
  ultimately show ?thesis by (auto simp: holds_records_def ns_inv_def node_map_def intro!: exI [of _ "{}"] exI [of _ "\<lambda>_. None"])
qed

lemma empty_nodes_fields: "ns_next_id empty_nodes = 1" "\<not> ns_batch empty_nodes" "n \<le> 4503599627370494 \<Longrightarrow> ns_room n empty_nodes"
  by (simp_all add: empty_nodes_def ns_initialize_def ns_new_def ns_with_capacity_def ns_room_def bm_room_empty_manager)

lemma empty_nodes_sim: "node_sim {} empty_nodes (\<lambda>_. None, 1, False)"
  using empty_nodes_holds empty_nodes_fields by (simp add: node_sim_def)

definition sample_record :: node_record where
  "sample_record = \<lparr>node_id = 0, flags = 0, kind_offset = 3, name_offset = 4, data_len = 2, data_inline = Some [7, 8],
     data_external_offset = None, outgoing_cluster_offset = 0, outgoing_edge_count = 0, incoming_cluster_offset = 0,
     incoming_edge_count = 0\<rparr>"

lemma small_sample [simp]: "small_record sample_record" "small_record (sample_record\<lparr>node_id := i\<rparr>)"
  by (simp_all add: small_record_def wf_record_def sample_record_def MAX_INLINE_DATA_def)

section \<open>Properties\<close>

text \<open>
  C5. Inserting, looking up and deleting records, in batches or not, is working on a map: every sequence of these
  operations on a store that holds a map of records returns, without an error, the answers of the map (a new id
  is the next number), through every choice of a page, retry on a fresh page, split of the index, hit or miss of a
  cache, and page that waits in a batch, and leaves a store that holds the resulting map. The pages of the other
  components are left as they were.
\<close>

theorem node_ops_refine:
  assumes "node_sim F s a" "ns_room (13 * length xs) s" "node_ops_ok (snd (snd a)) xs"
    "sint (fst (snd a)) + int (length xs) \<le> 2 ^ 32"
  shows "\<exists>s'. node_ops_run xs s = Some (Inr (fst (node_spec_run xs a)), s') \<and> node_sim F s' (snd (node_spec_run xs a)) \<and> ns_step F s s'"
  by (rule node_ops_correct [OF assms])

lemma node_ops_refine_witness:
  "\<exists>s'. node_ops_run [NS_Begin, NS_Insert sample_record, NS_Lookup 1, NS_Commit, NS_Delete 1, NS_Lookup 1] empty_nodes =
      Some (Inr (fst (node_spec_run [NS_Begin, NS_Insert sample_record, NS_Lookup 1, NS_Commit, NS_Delete 1, NS_Lookup 1]
        (\<lambda>_. None, 1, False))), s') \<and>
    node_sim {} s' (snd (node_spec_run [NS_Begin, NS_Insert sample_record, NS_Lookup 1, NS_Commit, NS_Delete 1, NS_Lookup 1]
        (\<lambda>_. None, 1, False))) \<and> ns_step {} empty_nodes s'"
  by (rule node_ops_refine [OF empty_nodes_sim]) (simp_all add: empty_nodes_fields)

text \<open>
  An insertion gives the record the next id, which no record has, and adds it to the map as a reader will get it
  back; the first page chosen may refuse the record, but the page created for the second attempt takes it.
\<close>

theorem node_insert_refines:
  assumes "holds_records F R s" "ns_room 13 s" "small_record n" "sint (ns_next_id s) < 2 ^ 32"
  shows "R (ns_next_id s) = None \<and> (\<exists>s'. ns_insert_node n s = Some (Inr (ns_next_id s), s') \<and>
    holds_records F (R(ns_next_id s \<mapsto> stored (n\<lparr>node_id := ns_next_id s\<rparr>))) s' \<and>
    ns_next_id s' = ns_next_id s + 1 \<and> ns_batch s' = ns_batch s \<and> ns_step F s s')"
  using holds_records_fresh [OF assms(1)] ns_insert_law [of F R s 0 n] assms by fastforce

lemma node_insert_refines_witness:
  "(\<lambda>_. None :: node_record option) (ns_next_id empty_nodes) = None \<and>
   (\<exists>s'. ns_insert_node sample_record empty_nodes = Some (Inr (ns_next_id empty_nodes), s') \<and>
    holds_records {} ((\<lambda>_. None)(ns_next_id empty_nodes \<mapsto> stored (sample_record\<lparr>node_id := ns_next_id empty_nodes\<rparr>))) s' \<and>
    ns_next_id s' = ns_next_id empty_nodes + 1 \<and> ns_batch s' = ns_batch empty_nodes \<and> ns_step {} empty_nodes s')"
  by (rule node_insert_refines [OF empty_nodes_holds]) (simp_all add: empty_nodes_fields)

text \<open>
  The read-only lookup, which bisects the page and keeps unpacked pages, answers as the map does when no page
  waits in a batch, from whichever cache, and keeps the map.
\<close>

theorem node_lookup_ro_refines:
  assumes "holds_records F R s" "ns_dirty s = []"
  shows "\<exists>r s'. lookup_node_ro i s = Some (Inr r, s') \<and> map_option stored r = R i \<and> holds_records F R s' \<and>
    ns_step F s s' \<and> ns_dirty s' = []"
proof -
  obtain N m where inv: "ns_inv F N m s" and map: "node_map m s = R" using assms(1) by (auto simp: holds_records_def)
  from lookup_node_ro_law [OF inv assms(2), of i] map show ?thesis unfolding holds_records_def by blast
qed

lemma node_lookup_ro_refines_witness:
  "\<exists>r s'. lookup_node_ro 1 empty_nodes = Some (Inr r, s') \<and> map_option stored r = (\<lambda>_. None) (1 :: i64) \<and>
    holds_records {} (\<lambda>_. None) s' \<and> ns_step {} empty_nodes s' \<and> ns_dirty s' = []"
  by (rule node_lookup_ro_refines [OF empty_nodes_holds])
    (simp add: empty_nodes_def ns_initialize_def ns_new_def ns_with_capacity_def)



text \<open>
  C6. A commit always completes: every page that waits is written, nothing waits any more, and a store opened later
  on the same file, with empty caches, holds the same records.
\<close>

definition ns_reopened :: "(u64 list \<Rightarrow> u64 list) \<Rightarrow> persistent_header_v3 \<Rightarrow> nat \<Rightarrow> node_store \<Rightarrow> node_store" where
  "ns_reopened order header capacity s =
     (let t = set_next_node_id (ns_next_id s) (ns_initialize (ns_btree s) None (ns_with_capacity order (ns_btree s) header capacity))
      in if ns_coordinator s then ns_set_file_coordinator t else t)"

lemma reopened_holds:
  assumes h: "holds_records F R s" and clean: "ns_dirty s = []" and order: "\<And>ks. mset (order ks) = mset ks"
  shows "holds_records F R (ns_reopened order header capacity s)"
proof -
  let ?t = "ns_reopened order header capacity s"
  obtain N m where inv: "ns_inv F N m s" and map: "node_map m s = R" using h by (auto simp: holds_records_def)
  have f: "ns_btree ?t = ns_btree s" "ns_dirty ?t = []" "ns_next_id ?t = ns_next_id s" "ns_page_cache ?t = []" "ns_unpacked ?t = []"
    "ns_initialized ?t" "ns_coordinator ?t = ns_coordinator s" "ns_order ?t = order"
    by (simp_all add: ns_reopened_def Let_def set_next_node_id_def ns_initialize_def ns_with_capacity_def ns_set_file_coordinator_def)
  have d: "ns_disk ?t = ns_disk s" by (simp add: ns_disk_def f fun_eq_iff)
  have c: "content ?t = content s" by (rule content_cong [OF d]) (simp add: f clean)
  have "ns_index F N m ?t" using inv by (simp add: ns_inv_def ns_index_def f)
  moreover have "ns_pages {} N ?t"
    using inv order by (simp add: ns_inv_def ns_pages_def page_cache_get_def unpacked_get_def f c)
  moreover have "ns_ids N m ?t" using inv by (simp add: ns_inv_def ns_ids_def f c)
  moreover have "node_map m ?t = R" using map by (simp only: fun_eq_iff node_map_def c simp_thms)
  ultimately show ?thesis by (auto simp: holds_records_def ns_inv_def)
qed



end
