(* ===== verification/Edge_Delta.thy ===== *)
theory Edge_Delta
  imports Varint
begin

text \<open>
  The edge id compression of \<open>v3/compression/edge_delta.rs\<close>: consecutive ids are stored as zigzag
  varints of their differences. The differences are computed with the wrap-around of the release
  build, and so is the running sum of the decompressor.
\<close>

unbundle bit_operations_syntax

definition zigzag_encode :: "i64 \<Rightarrow> u64" where
  "zigzag_encode value = push_bit 1 value XOR signed_drop_bit 63 value"

definition zigzag_decode :: "u64 \<Rightarrow> i64" where
  "zigzag_decode value = drop_bit 1 value XOR (- (value AND 1))"

fun compress_loop :: "bytes \<Rightarrow> i64 \<Rightarrow> i64 list \<Rightarrow> bytes" where
  "compress_loop compressed prev_id [] = compressed"
| "compress_loop compressed prev_id (edge_id # edge_ids) =
     (let delta = edge_id - prev_id;
          zigzag = zigzag_encode delta;
          encoded = encode_varint zigzag
      in compress_loop (compressed @ encoded) edge_id edge_ids)"

definition compress_edge_ids :: "i64 list \<Rightarrow> bytes" where
  "compress_edge_ids edge_ids = (if edge_ids = [] then [] else compress_loop [] 0 edge_ids)"

text \<open>
  The loop of \<open>decompress_edge_ids\<close>; its errors are texts, of which the model keeps that there is one.
\<close>

fun decompress_loop :: "bytes \<Rightarrow> nat \<Rightarrow> i64 list \<Rightarrow> i64 \<Rightarrow> nat \<Rightarrow> unit + i64 list" where
  "decompress_loop compressed 0 edge_ids prev_id pos = Inr edge_ids"
| "decompress_loop compressed (Suc count) edge_ids prev_id pos =
     (if length compressed \<le> pos then Inl ()
      else case decode_varint (drop pos compressed) of
        Inr (zigzag, bytes_read) \<Rightarrow>
          let delta = zigzag_decode zigzag;
              prev_id' = prev_id + delta
          in decompress_loop compressed count (edge_ids @ [prev_id']) prev_id' (pos + bytes_read)
      | Inl e \<Rightarrow> Inl ())"

definition decompress_edge_ids :: "bytes \<Rightarrow> nat \<Rightarrow> unit + i64 list" where
  "decompress_edge_ids compressed count =
     (if count = 0 then Inr [] else decompress_loop compressed count [] 0 0)"

subsection \<open>Zigzag\<close>

lemma bit_signed_shift: "n < 64 \<Longrightarrow> bit (signed_drop_bit 63 (v :: u64)) n \<longleftrightarrow> bit v 63"
proof -
  assume "n < 64"
  then show ?thesis by (cases n) (auto simp: bit_signed_drop_bit_iff)
qed

lemma bit_zigzag_encode:
  "n < 64 \<Longrightarrow> bit (zigzag_encode v) n \<longleftrightarrow> (0 < n \<and> bit v (n - 1)) \<noteq> bit v 63"
  by (simp only: zigzag_encode_def bit_xor_iff bit_signed_shift bit_push_bit_iff) auto

lemma minus_low_bit: "- (z AND 1) = (if bit z 0 then - 1 else (0 :: u64))"
  by (simp add: and_one_eq bit_0 odd_iff_mod_2_eq_one)

lemma bit_zigzag_decode:
  "n < 64 \<Longrightarrow> bit (zigzag_decode z) n \<longleftrightarrow> (n < 63 \<and> bit z (Suc n)) \<noteq> bit z 0"
  by (simp only: zigzag_decode_def minus_low_bit bit_xor_iff bit_drop_bit_eq)
    (auto simp: bit_minus_1_iff dest: bit_imp_le_length)

lemma zigzag_decode_encode: "zigzag_decode (zigzag_encode v) = v"
proof (rule bit_word_eqI)
  fix n assume "n < LENGTH(64)"
  then show "bit (zigzag_decode (zigzag_encode v)) n = bit v n"
    by (cases "n = 63") (auto simp: bit_zigzag_decode bit_zigzag_encode)
qed

lemma zigzag_encode_decode: "zigzag_encode (zigzag_decode z) = z"
proof (rule bit_word_eqI)
  fix n assume "n < LENGTH(64)"
  then show "bit (zigzag_encode (zigzag_decode z)) n = bit z n"
    by (cases n) (auto simp: bit_zigzag_decode bit_zigzag_encode)
qed

lemma zigzag_inj: "zigzag_encode v = zigzag_encode w \<longleftrightarrow> v = w"
  by (metis zigzag_decode_encode)

text \<open>Zigzag maps small magnitudes to small numbers.\<close>

lemma zigzag_nonneg: "\<not> bit v 63 \<Longrightarrow> zigzag_encode v = 2 * v"
proof -
  assume v: "\<not> bit v 63"
  have "zigzag_encode v = push_bit 1 v"
  proof (rule bit_word_eqI)
    fix n assume "n < LENGTH(64)"
    then have n: "n < 64" by simp
    show "bit (zigzag_encode v) n = bit (push_bit 1 v) n"
      unfolding bit_zigzag_encode [OF n] bit_push_bit_iff using v n by auto
  qed
  then show ?thesis by simp
qed

lemma zigzag_neg: "bit v 63 \<Longrightarrow> zigzag_encode v = 2 * (NOT v) + 1"
proof -
  assume v: "bit v 63"
  have "zigzag_encode v = push_bit 1 (NOT v) OR 1"
  proof (rule bit_word_eqI)
    fix n assume "n < LENGTH(64)"
    then have n: "n < 64" by simp
    show "bit (zigzag_encode v) n = bit (push_bit 1 (NOT v) OR 1) n"
      unfolding bit_zigzag_encode [OF n] bit_push_bit_iff bit_or_iff bit_not_iff bit_1_iff
      using v n by (cases n) auto
  qed
  also have "push_bit 1 (NOT v) OR 1 = push_bit 1 (NOT v) + 1"
    by (rule disjunctive_add [symmetric]) (simp only: bit_push_bit_iff bit_1_iff, auto)
  finally show ?thesis by simp
qed

lemma zigzag_small:
  assumes "\<bar>sint v\<bar> < 64"
  shows "unat (zigzag_encode v) < 128"
proof (cases "bit v 63")
  case False
  then have "0 \<le> sint v" using bit_last_iff [of v] by simp
  then have "uint v = sint v" by (rule uint_eq_sint_i64)
  then have "unat v < 64" using assms by (simp add: unat_eq_nat_uint)
  then have "unat (2 * v) < 128" using unat_mult_lem [of 2 v] by simp
  with False show ?thesis by (simp add: zigzag_nonneg)
next
  case True
  then have neg: "sint v < 0" using bit_last_iff [of v] by simp
  have "sint (NOT v) = - sint v - 1"
    using sint_i64_bounds(1) [of v] neg
    by (simp add: signed_not_eq not_int_def signed_take_bit_int_eq_self)
  then have "uint (NOT v) = - sint v - 1" using uint_eq_sint_i64 [of "NOT v"] neg by simp
  then have "unat (NOT v) < 64" using assms neg by (simp add: unat_eq_nat_uint)
  then have "unat (2 * (NOT v) + 1) < 128"
    using unat_mult_lem [of 2 "NOT v"] unat_add_lem [of "2 * (NOT v)" 1] by simp
  with True show ?thesis by (simp add: zigzag_neg)
qed

subsection \<open>The stream of differences\<close>

fun deltas :: "i64 \<Rightarrow> i64 list \<Rightarrow> i64 list" where
  "deltas prev [] = []"
| "deltas prev (x # xs) = (x - prev) # deltas x xs"

lemma length_deltas [simp]: "length (deltas prev xs) = length xs"
  by (induction prev xs rule: deltas.induct) auto

definition delta_stream :: "i64 \<Rightarrow> i64 list \<Rightarrow> bytes" where
  "delta_stream prev ids = concat (map encode_varint (map zigzag_encode (deltas prev ids)))"

lemma compress_loop_stream: "compress_loop compressed prev ids = compressed @ delta_stream prev ids"
  by (induction compressed prev ids rule: compress_loop.induct) (simp_all add: delta_stream_def Let_def)

lemma compress_edge_ids_eq: "compress_edge_ids ids = delta_stream 0 ids"
  by (simp add: compress_edge_ids_def compress_loop_stream delta_stream_def)

lemma deltas_inj: "deltas prev xs = deltas prev ys \<Longrightarrow> xs = ys"
  by (induction xs arbitrary: prev ys) (case_tac ys; auto)+

lemma decompress_loop_stream:
  "decompress_loop (pre @ delta_stream prev ids @ rest) (length ids) acc prev (length pre) =
     Inr (acc @ ids)"
proof (induction ids arbitrary: pre prev acc)
  case Nil
  then show ?case by simp
next
  case (Cons x ids)
  define e where "e = encode_varint (zigzag_encode (x - prev))"
  have split: "delta_stream prev (x # ids) = e @ delta_stream x ids"
    by (simp add: delta_stream_def e_def)
  have "e \<noteq> []" by (simp add: e_def varint.enc_nonempty)
  moreover have "decode_varint (drop (length pre) (pre @ e @ delta_stream x ids @ rest)) =
      Inr (zigzag_encode (x - prev), length e)"
    unfolding e_def by (rule varint.dec_at [OF refl])
  ultimately show ?case
    using Cons.IH [of "pre @ e" x "acc @ [x]"]
    by (simp add: split zigzag_decode_encode Let_def)
qed

lemma decompress_compress:
  "decompress_edge_ids (compress_edge_ids ids @ rest) (length ids) = Inr ids"
  using decompress_loop_stream [of "[]" 0 ids rest "[]"]
  by (simp add: decompress_edge_ids_def compress_edge_ids_eq)

lemma compress_inj: "compress_edge_ids xs = compress_edge_ids ys \<Longrightarrow> xs = ys"
proof -
  assume "compress_edge_ids xs = compress_edge_ids ys"
  then have "map zigzag_encode (deltas 0 xs) = map zigzag_encode (deltas 0 ys)"
    unfolding compress_edge_ids_eq delta_stream_def by (rule varint.stream_inj)
  then have "deltas 0 xs = deltas 0 ys"
    by (simp add: inj_map_eq_map inj_def zigzag_inj)
  then show ?thesis by (rule deltas_inj)
qed

lemma length_compress_bounds:
  "length ids \<le> length (compress_edge_ids ids)"
  "length (compress_edge_ids ids) \<le> 10 * length ids"
proof -
  show "length ids \<le> length (compress_edge_ids ids)"
    using varint.length_stream [of "map zigzag_encode (deltas 0 ids)"]
    by (simp add: compress_edge_ids_eq delta_stream_def)
  have "length (concat (map encode_varint zs)) \<le> 10 * length zs" for zs
  proof (induction zs)
    case (Cons z zs)
    have "length (encode_varint z) \<le> 10"
      using varint_size_bounds(2) [of z] by (simp add: varint_size_eq MAX_VARINT_BYTES_def)
    with Cons show ?case by simp
  qed simp
  from this [of "map zigzag_encode (deltas 0 ids)"]
  show "length (compress_edge_ids ids) \<le> 10 * length ids"
    by (simp add: compress_edge_ids_eq delta_stream_def)
qed

lemma length_compress_close:
  assumes "\<forall>d \<in> set (deltas 0 ids). \<bar>sint d\<bar> < 64"
  shows "length (compress_edge_ids ids) = length ids"
proof -
  have one: "length (encode_varint (zigzag_encode d)) = 1" if "\<bar>sint d\<bar> < 64" for d
    using varint_size_le_iff [of 1 "zigzag_encode d"] zigzag_small [OF that]
      varint_size_bounds(1) [of "zigzag_encode d"]
    by (simp add: varint_size_eq)
  have "length (concat (map encode_varint (map zigzag_encode ds))) = length ds"
    if "\<forall>d \<in> set ds. \<bar>sint d\<bar> < 64" for ds
    using that by (induction ds) (auto simp: one)
  from this [OF assms] show ?thesis by (simp add: compress_edge_ids_eq delta_stream_def)
qed

subsection \<open>Properties\<close>

text \<open>
  Compressed edge ids decompress to the same list, for every list of 64 bit ids in any order (the
  differences may wrap around) and whatever bytes follow, and take one to ten bytes an id.
\<close>

theorem edge_ids_roundtrip:
  "decompress_edge_ids (compress_edge_ids ids @ rest) (length ids) = Inr ids \<and>
   length ids \<le> length (compress_edge_ids ids) \<and> length (compress_edge_ids ids) \<le> 10 * length ids"
  using decompress_compress length_compress_bounds by blast

text \<open>Zigzag is a bijection between the signed and the unsigned 64 bit integers.\<close>

theorem zigzag_bijection:
  "zigzag_decode (zigzag_encode v) = v \<and> zigzag_encode (zigzag_decode z) = z"
  using zigzag_decode_encode zigzag_encode_decode by blast

end
