(* ===== verification/Utf8.thy ===== *)
theory Utf8
  imports Bytes
begin

text \<open>
  Strings as the bytes of their UTF-8 encoding: well-formed sequences and \<open>String::from_utf8_lossy\<close>,
  which replaces every maximal ill-formed subsequence by the replacement character.
\<close>

definition byte_at :: "bytes \<Rightarrow> nat \<Rightarrow> u8" where
  "byte_at bs i = (if i < length bs then bs ! i else 0)"

definition continuation :: "u8 \<Rightarrow> bool" where
  "continuation b \<longleftrightarrow> 0x80 \<le> b \<and> b \<le> 0xBF"

text \<open>Whether a sequence starts with an encoded character, and how many bytes that or the ill-formed
  prefix takes.\<close>

definition utf8_chunk :: "bytes \<Rightarrow> bool \<times> nat" where
  "utf8_chunk bs =
     (let b0 = byte_at bs 0; b1 = byte_at bs 1; b2 = byte_at bs 2; b3 = byte_at bs 3 in
      if b0 < 0x80 then (True, 1)
      else if 0xC2 \<le> b0 \<and> b0 \<le> 0xDF then (if continuation b1 then (True, 2) else (False, 1))
      else if 0xE0 \<le> b0 \<and> b0 \<le> 0xEF then
        (if (if b0 = 0xE0 then 0xA0 \<le> b1 \<and> b1 \<le> 0xBF
             else if b0 = 0xED then 0x80 \<le> b1 \<and> b1 \<le> 0x9F
             else continuation b1)
         then (if continuation b2 then (True, 3) else (False, 2)) else (False, 1))
      else if 0xF0 \<le> b0 \<and> b0 \<le> 0xF4 then
        (if (if b0 = 0xF0 then 0x90 \<le> b1 \<and> b1 \<le> 0xBF
             else if b0 = 0xF4 then 0x80 \<le> b1 \<and> b1 \<le> 0x8F
             else continuation b1)
         then (if continuation b2 then (if continuation b3 then (True, 4) else (False, 3)) else (False, 2))
         else (False, 1))
      else (False, 1))"

lemma utf8_chunk_pos: "0 < snd (utf8_chunk bs)"
  by (simp add: utf8_chunk_def Let_def)

function utf8_valid :: "bytes \<Rightarrow> bool" where
  "utf8_valid bs \<longleftrightarrow>
     (if bs = [] then True
      else if fst (utf8_chunk bs) then utf8_valid (drop (snd (utf8_chunk bs)) bs) else False)"
  by pat_completeness auto
termination
  by (relation "measure length") (use utf8_chunk_pos in auto)

declare utf8_valid.simps [simp del]

function from_utf8_lossy :: "bytes \<Rightarrow> bytes" where
  "from_utf8_lossy bs =
     (if bs = [] then []
      else (if fst (utf8_chunk bs) then take (snd (utf8_chunk bs)) bs else [0xEF, 0xBF, 0xBD])
        @ from_utf8_lossy (drop (snd (utf8_chunk bs)) bs))"
  by pat_completeness auto
termination
  by (relation "measure length") (use utf8_chunk_pos in auto)

declare from_utf8_lossy.simps [simp del]

lemma from_utf8_lossy_valid: "utf8_valid bs \<Longrightarrow> from_utf8_lossy bs = bs"
proof (induction bs rule: utf8_valid.induct)
  case (1 bs)
  then show ?case
    by (cases "bs = []")
      (auto simp: from_utf8_lossy.simps [of bs] utf8_valid.simps [of bs]
        from_utf8_lossy.simps [of "[]"] split: if_splits)
qed

lemma utf8_valid_ascii: "\<forall>b \<in> set bs. b < 0x80 \<Longrightarrow> utf8_valid bs"
proof (induction bs)
  case (Cons b bs)
  then have "utf8_chunk (b # bs) = (True, 1)" by (simp add: utf8_chunk_def byte_at_def)
  with Cons show ?case by (simp add: utf8_valid.simps [of "b # bs"])
qed (simp add: utf8_valid.simps [of "[]"])

end
