(* ===== verification/Edge_Cluster.thy ===== *)
theory Edge_Cluster
  imports Edge_Delta Utf8
begin

text \<open>
  Edge records (\<open>v3/compact_edge_record.rs\<close>) and the clusters that keep the edges of a node in one
  direction (\<open>V3EdgeCluster\<close> of \<open>v3/edge_compat.rs\<close>): building a cluster, its format with compressed
  neighbour ids, the older formats, and the edge types stored inside the edge data. An edge type is
  the UTF-8 encoding of the string.
\<close>

unbundle bit_operations_syntax

subsection \<open>Edge records\<close>

record compact_edge =
  neighbor_id :: i64
  edge_type_offset :: u16
  edge_data :: bytes

definition compact_edge_new :: "i64 \<Rightarrow> u16 \<Rightarrow> bytes \<Rightarrow> compact_edge" where
  "compact_edge_new n t d = \<lparr> neighbor_id = n, edge_type_offset = t, edge_data = d \<rparr>"

definition compact_serialize :: "compact_edge \<Rightarrow> bytes" where
  "compact_serialize e =
     to_be (neighbor_id e) @ to_be (edge_type_offset e)
     @ to_be (of_nat (length (edge_data e)) :: u16) @ edge_data e"

definition compact_deserialize :: "bytes \<Rightarrow> compact_edge result" where
  "compact_deserialize bs =
     (if length bs < 12 then Inl (Err (BufferTooSmall (length bs) 12))
      else
        let len = unat (from_be (slice bs 10 2) :: u16)
        in if length bs < 12 + len then Inl (Err (BufferTooSmall (length bs) (12 + len)))
           else Inr \<lparr> neighbor_id = from_be (slice bs 0 8), edge_type_offset = from_be (slice bs 8 2),
                  edge_data = slice bs 12 len \<rparr>)"

definition compact_size_bytes :: "compact_edge \<Rightarrow> nat" where
  "compact_size_bytes e = 8 + 2 + 2 + length (edge_data e)"

subsection \<open>Clusters\<close>

datatype direction = Outgoing | Incoming

record edge_cluster =
  cl_src :: i64
  cl_edges :: "compact_edge list"
  cl_direction :: direction
  cl_format_version :: u8
  cl_page_id :: u64

definition cluster_new :: "i64 \<Rightarrow> direction \<Rightarrow> u64 \<Rightarrow> edge_cluster" where
  "cluster_new src dir pid =
     \<lparr> cl_src = src, cl_edges = [], cl_direction = dir, cl_format_version = 3, cl_page_id = pid \<rparr>"

definition cluster_add_edge :: "i64 \<Rightarrow> bytes option \<Rightarrow> edge_cluster \<Rightarrow> edge_cluster" where
  "cluster_add_edge dst edge_type c =
     (let data = (case edge_type of Some et \<Rightarrow> of_nat (length et) # et | None \<Rightarrow> [])
      in c\<lparr> cl_edges := cl_edges c @ [compact_edge_new dst 0 data] \<rparr>)"

fun extract_edge_type :: "bytes \<Rightarrow> bytes option" where
  "extract_edge_type [] = None"
| "extract_edge_type (b # bs) =
     (let type_len = unat b
      in if length (b # bs) < 1 + type_len then None
         else Some (from_utf8_lossy (take type_len bs)))"

definition cluster_dsts :: "edge_cluster \<Rightarrow> i64 list" where
  "cluster_dsts c = map neighbor_id (cl_edges c)"

definition edges_with_types :: "edge_cluster \<Rightarrow> (i64 \<times> bytes option) list" where
  "edges_with_types c = map (\<lambda>e. (neighbor_id e, extract_edge_type (edge_data e))) (cl_edges c)"

definition edge_metadata :: "compact_edge \<Rightarrow> bytes" where
  "edge_metadata e =
     to_be (edge_type_offset e) @ to_be (of_nat (length (edge_data e)) :: u16) @ edge_data e"

definition cluster_serialize :: "edge_cluster \<Rightarrow> bytes result" where
  "cluster_serialize c =
     Inr ([cl_format_version c]
       @ (if 2 \<le> cl_format_version c
          then to_be (cl_src c) @ [if cl_direction c = Outgoing then 0 else 1] else [])
       @ to_be (of_nat (length (cl_edges c)) :: u32)
       @ (if 3 \<le> cl_format_version c then
            let compressed_ids = compress_edge_ids (map neighbor_id (cl_edges c))
            in [1] @ to_be (of_nat (length compressed_ids) :: u32) @ compressed_ids
               @ concat (map edge_metadata (cl_edges c))
          else concat (map compact_serialize (cl_edges c))))"

text \<open>The data of an edge: its length field has just been read and \<open>pos\<close> is the offset after it.\<close>

definition read_edge_data :: "bytes \<Rightarrow> nat \<Rightarrow> nat \<Rightarrow> (bytes \<times> nat) result" where
  "read_edge_data bs pos len =
     (if 0 < len then
        if length bs < pos + len then Inl (Err DeserializationError)
        else Inr (slice bs pos len, pos + len)
      else Inr ([], pos))"

fun read_edge_metadata :: "bytes \<Rightarrow> nat \<Rightarrow> i64 list \<Rightarrow> (compact_edge list \<times> nat) result" where
  "read_edge_metadata bs pos [] = Inr ([], pos)"
| "read_edge_metadata bs pos (n # ns) =
     (if length bs < pos + 4 then Inl (Err DeserializationError)
      else
        let t = from_be (slice bs pos 2); len = unat (from_be (slice bs (pos + 2) 2) :: u16)
        in bindR (read_edge_data bs (pos + 4) len) (\<lambda>(d, pos).
           bindR (read_edge_metadata bs pos ns) (\<lambda>(es, pos). Inr (compact_edge_new n t d # es, pos))))"

fun read_edge_records :: "bytes \<Rightarrow> nat \<Rightarrow> nat \<Rightarrow> (compact_edge list \<times> nat) result" where
  "read_edge_records bs pos 0 = Inr ([], pos)"
| "read_edge_records bs pos (Suc k) =
     (if length bs < pos + 12 then Inl (Err DeserializationError)
      else
        let n = from_be (slice bs pos 8); t = from_be (slice bs (pos + 8) 2);
            len = unat (from_be (slice bs (pos + 10) 2) :: u16)
        in bindR (read_edge_data bs (pos + 12) len) (\<lambda>(d, pos).
           bindR (read_edge_records bs pos k) (\<lambda>(es, pos). Inr (compact_edge_new n t d # es, pos))))"

text \<open>The body of the third format: the flag, the compressed ids and the metadata of the edges.\<close>

definition read_compressed_edges :: "bytes \<Rightarrow> nat \<Rightarrow> nat \<Rightarrow> (compact_edge list \<times> nat) result" where
  "read_compressed_edges bs pos count =
     (if length bs \<le> pos then Inl (Err DeserializationError)
      else
        let flag = bs ! pos; pos = pos + 1
        in if flag = 1 then
             if length bs < pos + 4 then Inl (Err DeserializationError)
             else
               let len = unat (from_be (slice bs pos 4) :: u32); pos = pos + 4
               in if length bs < pos + len then Inl (Err DeserializationError)
                  else (case decompress_edge_ids (slice bs pos len) count of
                          Inl _ \<Rightarrow> Inl (Err DeserializationError)
                        | Inr ids \<Rightarrow> read_edge_metadata bs (pos + len) ids)
           else Inr ([], pos))"

definition cluster_deserialize :: "bytes \<Rightarrow> u64 \<Rightarrow> edge_cluster result" where
  "cluster_deserialize bs pid =
     (if length bs < 5 then Inl (Err DeserializationError)
      else if 3 < bs ! 0 then Inl (Err DeserializationError)
      else
        let ver = bs ! 0
        in bindR (if 2 \<le> ver then
                    if length bs < 1 + 8 + 1 then Inl (Err DeserializationError)
                    else Inr (from_be (slice bs 1 8), if bs ! 9 = 1 then Incoming else Outgoing, 10)
                  else Inr (0, Outgoing, 1)) (\<lambda>(src, dir, pos).
           if length bs < pos + 4 then Inl (Err DeserializationError)
           else
             let count = unat (from_be (slice bs pos 4) :: u32); pos = pos + 4
             in bindR (if 3 \<le> ver then read_compressed_edges bs pos count else Inr ([], pos)) (\<lambda>(es, pos).
                bindR (if es = [] then read_edge_records bs pos count else Inr (es, pos)) (\<lambda>(es, pos).
                  Inr \<lparr> cl_src = src, cl_edges = es, cl_direction = dir, cl_format_version = ver,
                        cl_page_id = pid \<rparr>))))"

subsection \<open>Reading what was written\<close>

definition wf_edge :: "compact_edge \<Rightarrow> bool" where
  "wf_edge e \<longleftrightarrow> length (edge_data e) < 2 ^ 16"

definition wf_cluster :: "edge_cluster \<Rightarrow> bool" where
  "wf_cluster c \<longleftrightarrow> (\<forall>e \<in> set (cl_edges c). wf_edge e) \<and> 10 * length (cl_edges c) < 2 ^ 32"

lemma at_be:
  fixes v :: "'a::len word"
  assumes "at bs pos (to_be v @ rest)" "n = LENGTH('a) div 8"
  shows "slice bs pos n = to_be v" "pos + n \<le> length bs" "at bs (pos + n) rest"
  using at_slice [OF assms(1), of n] at_length [OF assms(1)] at_step [OF assms(1), of n] assms(2)
  by (simp_all add: byte_simps)

lemma at_u16:
  "at bs pos (to_be (v :: u16) @ rest) \<Longrightarrow>
   slice bs pos 2 = to_be v \<and> pos + 2 \<le> length bs \<and> at bs (pos + 2) rest"
  using at_be [of bs pos v rest 2] by simp

lemma at_u32:
  "at bs pos (to_be (v :: u32) @ rest) \<Longrightarrow>
   slice bs pos 4 = to_be v \<and> pos + 4 \<le> length bs \<and> at bs (pos + 4) rest"
  using at_be [of bs pos v rest 4] by simp

lemma at_u64:
  "at bs pos (to_be (v :: u64) @ rest) \<Longrightarrow>
   slice bs pos 8 = to_be v \<and> pos + 8 \<le> length bs \<and> at bs (pos + 8) rest"
  using at_be [of bs pos v rest 8] by simp

lemma at_byte: "at bs pos (b # rest) \<Longrightarrow> bs ! pos = b \<and> pos + 1 \<le> length bs \<and> at bs (pos + 1) rest"
  using at_step [of bs pos "[b]" rest 1] at_length [of bs pos "[b]" rest]
  by (auto simp: at_def nth_via_drop)

lemmas at_rest = conjunct2 [THEN conjunct2]

lemma read_edge_data_at:
  "at bs pos (d @ rest) \<Longrightarrow> read_edge_data bs pos (length d) = Inr (d, pos + length d)"
  using at_slice [of bs pos d rest "length d"] at_length [of bs pos d rest]
  by (cases "d = []") (simp_all add: read_edge_data_def)

lemma compact_edge_eta: "compact_edge_new (neighbor_id e) (edge_type_offset e) (edge_data e) = e"
  by (simp add: compact_edge_new_def)

lemma length_edge_formats [byte_simps]:
  "length (edge_metadata e) = 4 + length (edge_data e)"
  "length (compact_serialize e) = 12 + length (edge_data e)"
  by (simp_all add: edge_metadata_def compact_serialize_def byte_simps)

lemma read_edge_metadata_at:
  assumes "at bs pos (concat (map edge_metadata es) @ rest)" "\<forall>e \<in> set es. wf_edge e"
  shows "read_edge_metadata bs pos (map neighbor_id es) =
    Inr (es, pos + length (concat (map edge_metadata es)))"
  using assms
proof (induction es arbitrary: pos)
  case (Cons e es)
  then have at: "at bs pos (to_be (edge_type_offset e) @ to_be (of_nat (length (edge_data e)) :: u16)
      @ edge_data e @ concat (map edge_metadata es) @ rest)"
    by (simp add: edge_metadata_def [of e])
  note t = at_u16 [OF at]
  note l = at_u16 [OF at_rest [OF t]]
  from Cons.prems(2) have "length (edge_data e) < 2 ^ 16" by (simp add: wf_edge_def)
  with Cons.IH [OF at_step [OF at_rest [OF l] refl]] Cons.prems(2) read_edge_data_at [OF at_rest [OF l]] t l
  show ?case
    by (simp add: unat_of_nat_u16 compact_edge_eta byte_simps add.assoc del: add_2_eq_Suc')
qed simp

lemma read_edge_records_at:
  assumes "at bs pos (concat (map compact_serialize es) @ rest)" "\<forall>e \<in> set es. wf_edge e"
  shows "read_edge_records bs pos (length es) =
    Inr (es, pos + length (concat (map compact_serialize es)))"
  using assms
proof (induction es arbitrary: pos)
  case (Cons e es)
  then have at: "at bs pos (to_be (neighbor_id e) @ to_be (edge_type_offset e)
      @ to_be (of_nat (length (edge_data e)) :: u16)
      @ edge_data e @ concat (map compact_serialize es) @ rest)"
    by (simp add: compact_serialize_def [of e])
  note n = at_u64 [OF at]
  note t = at_u16 [OF at_rest [OF n]]
  note l = at_u16 [OF at_rest [OF t]]
  from Cons.prems(2) have "length (edge_data e) < 2 ^ 16" by (simp add: wf_edge_def)
  with Cons.IH [OF at_step [OF at_rest [OF l] refl]] Cons.prems(2) read_edge_data_at [OF at_rest [OF l]] n t l
  show ?case
    by (simp add: unat_of_nat_u16 compact_edge_eta byte_simps add.assoc del: add_2_eq_Suc')
qed simp

lemma compact_roundtrip:
  assumes "wf_edge e"
  shows "compact_deserialize (compact_serialize e @ zs) = Inr e"
proof -
  have at: "at (compact_serialize e @ zs) 0 (to_be (neighbor_id e) @ to_be (edge_type_offset e)
      @ to_be (of_nat (length (edge_data e)) :: u16) @ edge_data e @ zs)"
    by (simp add: compact_serialize_def at_def)
  note n = at_u64 [OF at]
  note t = at_u16 [OF at_rest [OF n]]
  note l = at_u16 [OF at_rest [OF t]]
  have "slice (compact_serialize e @ zs) 12 (length (edge_data e)) = edge_data e"
    using at_slice [OF at_rest [OF l]] by simp
  with n t l assms show ?thesis
    by (simp add: compact_deserialize_def wf_edge_def unat_of_nat_u16 byte_simps)
qed

lemma read_compressed_edges_at:
  assumes "at bs pos ([1] @ to_be (of_nat (length (compress_edge_ids (map neighbor_id es))) :: u32)
      @ compress_edge_ids (map neighbor_id es) @ concat (map edge_metadata es) @ rest)"
    and "\<forall>e \<in> set es. wf_edge e" "10 * length es < 2 ^ 32"
  shows "\<exists>end_pos. read_compressed_edges bs pos (length es) = Inr (es, end_pos)"
proof -
  let ?ids = "compress_edge_ids (map neighbor_id es)"
  have f: "at bs pos (1 # to_be (of_nat (length ?ids) :: u32) @ ?ids @ concat (map edge_metadata es) @ rest)"
    using assms(1) by simp
  note b = at_byte [OF f]
  note l = at_u32 [OF at_rest [OF b]]
  have len: "unat (of_nat (length ?ids) :: u32) = length ?ids"
    using length_compress_bounds(2) [of "map neighbor_id es"] assms(3) by (simp add: unat_of_nat_u32)
  have "slice bs (pos + 1 + 4) (length ?ids) = ?ids" "pos + 1 + 4 + length ?ids \<le> length bs"
    using at_slice [OF at_rest [OF l] refl] at_length [OF at_rest [OF l]] by (simp_all add: add.assoc)
  moreover have "decompress_edge_ids ?ids (length es) = Inr (map neighbor_id es)"
    using decompress_compress [of "map neighbor_id es" "[]"] by simp
  moreover note read_edge_metadata_at [OF at_step [OF at_rest [OF l] refl] assms(2)]
  ultimately show ?thesis
    using b l len by (simp add: read_compressed_edges_def Let_def add.assoc)
qed

text \<open>What a reader finds after the header of a cluster.\<close>

definition cluster_body :: "edge_cluster \<Rightarrow> bytes" where
  "cluster_body c =
     (if 3 \<le> cl_format_version c then
        let ids = compress_edge_ids (map neighbor_id (cl_edges c))
        in [1] @ to_be (of_nat (length ids) :: u32) @ ids @ concat (map edge_metadata (cl_edges c))
      else concat (map compact_serialize (cl_edges c)))"

definition cluster_bytes :: "edge_cluster \<Rightarrow> bytes" where
  "cluster_bytes c =
     [cl_format_version c]
     @ (if 2 \<le> cl_format_version c
        then to_be (cl_src c) @ [if cl_direction c = Outgoing then 0 else 1] else [])
     @ to_be (of_nat (length (cl_edges c)) :: u32) @ cluster_body c"

lemma cluster_serialize_eq: "cluster_serialize c = Inr (cluster_bytes c)"
  by (simp add: cluster_serialize_def cluster_bytes_def cluster_body_def Let_def)

lemma read_body:
  assumes "at bs pos (cluster_body c @ zs)" "wf_cluster c"
  shows "\<exists>q r. (if 3 \<le> cl_format_version c then read_compressed_edges bs pos (length (cl_edges c))
        else Inr ([], pos)) = Inr (q, r) \<and>
    (\<exists>r'. (if q = [] then read_edge_records bs r (length (cl_edges c)) else Inr (q, r)) = Inr (cl_edges c, r'))"
proof (cases "3 \<le> cl_format_version c")
  case True
  then have "\<exists>r. read_compressed_edges bs pos (length (cl_edges c)) = Inr (cl_edges c, r)"
    using assms by (intro read_compressed_edges_at)
      (simp_all add: cluster_body_def wf_cluster_def Let_def)
  with True show ?thesis by (cases "cl_edges c = []") auto
next
  case False
  with assms read_edge_records_at [of bs pos "cl_edges c" zs] show ?thesis
    by (auto simp: cluster_body_def wf_cluster_def)
qed

lemma cluster_deserialize_bytes:
  assumes "wf_cluster c" "2 \<le> cl_format_version c" "cl_format_version c \<le> 3"
  shows "cluster_deserialize (cluster_bytes c @ zs) pid = Inr (c\<lparr> cl_page_id := pid \<rparr>)"
proof -
  let ?bs = "cluster_bytes c @ zs"
  have at: "at ?bs 0 (cl_format_version c # to_be (cl_src c) @ (if cl_direction c = Outgoing then 0 else 1)
      # to_be (of_nat (length (cl_edges c)) :: u32) @ cluster_body c @ zs)"
    using assms(2) by (simp add: cluster_bytes_def at_def)
  note v = at_byte [OF at]
  note s = at_u64 [OF at_rest [OF v]]
  note d = at_byte [OF at_rest [OF s]]
  note n = at_u32 [OF at_rest [OF d]]
  have count: "unat (of_nat (length (cl_edges c)) :: u32) = length (cl_edges c)"
    using assms(1) by (simp add: wf_cluster_def unat_of_nat_u32)
  have pos: "0 + 1 + 8 + 1 + 4 = (14 :: nat)" by simp
  from read_body [OF at_rest [OF n] assms(1), unfolded pos] obtain q r r' where body:
    "(if 3 \<le> cl_format_version c then read_compressed_edges ?bs 14 (length (cl_edges c))
        else Inr ([], 14)) = Inr (q, r)"
    "(if q = [] then read_edge_records ?bs r (length (cl_edges c)) else Inr (q, r)) = Inr (cl_edges c, r')"
    by blast
  have dir: "(if (if cl_direction c = Outgoing then 0 else 1 :: u8) = 1 then Incoming else Outgoing)
      = cl_direction c"
    by (cases "cl_direction c") auto
  have "\<not> 3 < ?bs ! 0" "\<not> length ?bs < 10" "\<not> length ?bs < 14" "\<not> length ?bs < 5"
    using v assms(3) n by auto
  then show ?thesis
    using v s d n assms(2) count body dir
    by (simp add: cluster_deserialize_def Let_def)
qed

lemma extract_edge_type_added:
  "length et < 256 \<Longrightarrow> utf8_valid et \<Longrightarrow> extract_edge_type (of_nat (length et) # et) = Some et"
  by (simp add: unat_of_nat take_bit_nat_eq_self from_utf8_lossy_valid)

subsection \<open>Properties\<close>

text \<open>A cluster as its users build it: one edge after the other.\<close>

fun cluster_add_edges :: "(i64 \<times> bytes option) list \<Rightarrow> edge_cluster \<Rightarrow> edge_cluster" where
  "cluster_add_edges [] c = c"
| "cluster_add_edges ((dst, t) # es) c = cluster_add_edges es (cluster_add_edge dst t c)"

definition storable_edge :: "i64 \<times> bytes option \<Rightarrow> bool" where
  "storable_edge e \<longleftrightarrow> (case snd e of None \<Rightarrow> True | Some t \<Rightarrow> length t < 256 \<and> utf8_valid t)"

lemma cluster_add_edges_fields [simp]:
  "cl_src (cluster_add_edges es c) = cl_src c" "cl_direction (cluster_add_edges es c) = cl_direction c"
  "cl_format_version (cluster_add_edges es c) = cl_format_version c"
  "cl_page_id (cluster_add_edges es c) = cl_page_id c"
  by (induction es c rule: cluster_add_edges.induct) (simp_all add: cluster_add_edge_def Let_def)

lemma edges_with_types_add:
  "storable_edge (dst, t) \<Longrightarrow> edges_with_types (cluster_add_edge dst t c) = edges_with_types c @ [(dst, t)]"
  by (cases t) (simp_all add: storable_edge_def cluster_add_edge_def edges_with_types_def compact_edge_new_def
      unat_of_nat take_bit_nat_eq_self from_utf8_lossy_valid)

lemma edges_with_types_add_edges:
  "\<forall>e \<in> set es. storable_edge e \<Longrightarrow> edges_with_types (cluster_add_edges es c) = edges_with_types c @ es"
  by (induction es c rule: cluster_add_edges.induct) (simp_all add: edges_with_types_add)

lemma dsts_edges_with_types: "cluster_dsts c = map fst (edges_with_types c)"
  by (simp add: cluster_dsts_def edges_with_types_def comp_def)

lemma wf_add_edge:
  "storable_edge (dst, t) \<Longrightarrow> \<forall>e \<in> set (cl_edges c). wf_edge e \<Longrightarrow>
   \<forall>e \<in> set (cl_edges (cluster_add_edge dst t c)). wf_edge e"
  by (cases t) (auto simp: storable_edge_def cluster_add_edge_def wf_edge_def compact_edge_new_def)

lemma wf_add_edges:
  "\<forall>e \<in> set es. storable_edge e \<Longrightarrow> \<forall>e \<in> set (cl_edges c). wf_edge e \<Longrightarrow>
   (\<forall>e \<in> set (cl_edges (cluster_add_edges es c)). wf_edge e) \<and>
   length (cl_edges (cluster_add_edges es c)) = length (cl_edges c) + length es"
proof (induction es c rule: cluster_add_edges.induct)
  case (2 dst t es c)
  then have "\<forall>e \<in> set (cl_edges (cluster_add_edge dst t c)). wf_edge e" by (intro wf_add_edge) auto
  with 2 show ?case by (simp add: cluster_add_edge_def Let_def)
qed simp

text \<open>
  C35. A cluster built edge by edge is serialised and read back from a page, whatever bytes follow it,
  with the same source, direction, neighbours in order and edge types, as long as the type of an edge
  is a string of at most 255 bytes.
\<close>

theorem cluster_roundtrip:
  assumes "\<forall>e \<in> set es. storable_edge e" "10 * length es < 2 ^ 32"
  shows "\<exists>bs c. cluster_serialize (cluster_add_edges es (cluster_new src dir pid)) = Inr bs \<and>
    cluster_deserialize (bs @ zs) pid' = Inr c \<and> cl_src c = src \<and> cl_direction c = dir \<and>
    cl_page_id c = pid' \<and> edges_with_types c = es \<and> cluster_dsts c = map fst es"
proof -
  let ?c = "cluster_add_edges es (cluster_new src dir pid)"
  have new: "cl_edges (cluster_new src dir pid) = []" "cl_format_version ?c = 3" "cl_src ?c = src"
    "cl_direction ?c = dir"
    by (simp_all add: cluster_new_def)
  have "edges_with_types ?c = es"
    using edges_with_types_add_edges [OF assms(1), of "cluster_new src dir pid"] new(1)
    by (simp add: edges_with_types_def)
  moreover have "wf_cluster ?c"
    using wf_add_edges [OF assms(1), of "cluster_new src dir pid"] new(1) assms(2)
    by (simp add: wf_cluster_def)
  moreover have "edges_with_types (?c\<lparr> cl_page_id := pid' \<rparr>) = edges_with_types ?c"
    by (simp add: edges_with_types_def)
  ultimately show ?thesis
    using cluster_deserialize_bytes [of ?c zs pid'] new
    by (simp add: cluster_serialize_eq dsts_edges_with_types)
qed

lemma cluster_roundtrip_witness:
  "\<exists>bs c. cluster_serialize (cluster_add_edges [(- 5, Some [104, 105]), (7, None)] (cluster_new 3 Incoming 9)) = Inr bs \<and>
     cluster_deserialize (bs @ [0, 0]) 9 = Inr c \<and> cl_src c = 3 \<and> cl_direction c = Incoming \<and>
     cl_page_id c = 9 \<and> edges_with_types c = [(- 5, Some [104, 105]), (7, None)] \<and>
     cluster_dsts c = map fst [(- 5, Some [104, 105 :: u8]), (7 :: i64, None)]"
  by (rule cluster_roundtrip) (auto simp: storable_edge_def intro!: utf8_valid_ascii)

text \<open>
  A longer type is cut: its length is stored in one byte, so the type read back is the prefix whose
  length is the length modulo 256.
\<close>

theorem long_edge_type_truncated:
  "edges_with_types (cluster_add_edge dst (Some t) (cluster_new src dir pid)) =
     [(dst, Some (from_utf8_lossy (take (length t mod 256) t)))]"
proof -
  have "unat (of_nat (length t) :: u8) = length t mod 256"
    by (simp add: unat_of_nat take_bit_eq_mod)
  then show ?thesis
    by (simp add: cluster_add_edge_def edges_with_types_def compact_edge_new_def cluster_new_def Let_def
        le_less_trans [OF mod_less_eq_dividend])
qed

end
