(* ===== verification/Edge_Store.thy ===== *)
theory Edge_Store
  imports Edge_Cluster Btree_Map
begin

text \<open>
  The adjacency store (\<open>V3EdgeStore\<close> of \<open>v3/edge_compat.rs\<close>): neighbours are answered from a cache,
  from the cluster page the B+Tree index names, or not at all; inserted edges collect in dirty clusters
  that \<open>flush\<close> writes to their pages and enters into the index.
\<close>

unbundle bit_operations_syntax

subsection \<open>State\<close>

text \<open>The calls on the log, in order.\<close>

datatype edge_wal_call =
    Edge_Insert i64 i64 direction u64
  | Edge_Checkpoint u64 u32
  | Edge_Wal_Flush
  | Edge_Wal_Truncate

type_synonym edge_slot = "i64 \<times> direction"

text \<open>
  The store is given a path and the shared allocator, as the backend creates it
  (\<open>with_path_and_allocator\<close>): the database file is \<^const>\<open>bm_db\<close> of its index, the allocator the
  \<^const>\<open>bm_allocator\<close>. \<open>es_has_path\<close> says whether a path is configured, \<open>es_coordinator\<close> whether writes go
  through the file coordinator that the index has too, \<open>es_meta\<close> is the content of the \<open>.v3edgemeta\<close> file if there is one. The
  dirty clusters are a hash map: an association list with one entry for each key.
\<close>

record edge_store =
  es_btree :: btree_manager
  es_wal :: "edge_wal_call list option"
  es_cache :: "edge_slot \<Rightarrow> i64 list option"
  es_edge_types :: "i64 \<times> i64 \<times> direction \<Rightarrow> bytes option"
  es_cache_hits :: u64
  es_cache_misses :: u64
  es_dirty :: "(edge_slot \<times> edge_cluster) list"
  es_has_path :: bool
  es_page_size :: u32
  es_coordinator :: bool
  es_meta :: "bytes option"

definition edge_key :: "i64 \<Rightarrow> direction \<Rightarrow> i64" where
  "edge_key src dir =
     (let dir_bit = (if dir = Outgoing then 0 else 1 :: i64);
          zigzag_src = push_bit 1 src XOR signed_drop_bit 63 src
      in push_bit 62 dir_bit OR (zigzag_src AND 0x3FFFFFFFFFFFFFFF))"

definition edge_store_with_path ::
  "btree_manager \<Rightarrow> edge_wal_call list option \<Rightarrow> u32 \<Rightarrow> bytes option \<Rightarrow> edge_store" where
  "edge_store_with_path bt wal page_size meta =
     \<lparr> es_btree = bt, es_wal = wal, es_cache = (\<lambda>_. None), es_edge_types = (\<lambda>_. None),
       es_cache_hits = 0, es_cache_misses = 0, es_dirty = [], es_has_path = True,
       es_page_size = page_size, es_coordinator = False, es_meta = meta \<rparr>"

definition es_set_file_coordinator :: "edge_store \<Rightarrow> edge_store" where
  "es_set_file_coordinator s = s\<lparr> es_coordinator := True \<rparr>"

definition es_set_wal :: "edge_wal_call list \<Rightarrow> edge_store \<Rightarrow> edge_store" where
  "es_set_wal w s = s\<lparr> es_wal := Some w \<rparr>"

definition es_clear_cache :: "edge_store \<Rightarrow> edge_store" where
  "es_clear_cache s = s\<lparr> es_cache := (\<lambda>_. None), es_edge_types := (\<lambda>_. None),
     es_cache_hits := 0, es_cache_misses := 0 \<rparr>"

subsection \<open>Neighbours\<close>

text \<open>The offset of an edge page depends on the page size of the store.\<close>

definition edge_page_offset :: "edge_store \<Rightarrow> u64 \<Rightarrow> u64" where
  "edge_page_offset s pid = of_nat V3_HEADER_SIZE + (pid - 1) * ucast (es_page_size s)"

text \<open>One \<open>read\<close> into a zeroed buffer: \<open>None\<close> when there is nothing at the offset.\<close>

definition read_buffer :: "bytes \<Rightarrow> nat \<Rightarrow> nat \<Rightarrow> bytes option" where
  "read_buffer f off n =
     (let got = slice f off n in if got = [] then None else Some (vec_resize got n 0))"

fun record_types :: "i64 \<Rightarrow> direction \<Rightarrow> (i64 \<times> bytes option) list \<Rightarrow>
    (i64 \<times> i64 \<times> direction \<Rightarrow> bytes option) \<Rightarrow> (i64 \<times> i64 \<times> direction \<Rightarrow> bytes option)" where
  "record_types src dir [] m = m"
| "record_types src dir ((dst, t) # es) m =
     record_types src dir es (case t of Some et \<Rightarrow> m((src, dst, dir) \<mapsto> et) | None \<Rightarrow> m)"

definition load_neighbors_from_disk ::
  "i64 \<Rightarrow> direction \<Rightarrow> edge_store \<Rightarrow> (i64 list result \<times> edge_store) option" where
  "load_neighbors_from_disk src dir s =
     (case btree_lookup (edge_key src dir) (es_btree s) of
        None \<Rightarrow> None
      | Some (Inl Panic, bt) \<Rightarrow> Some (Inl Panic, s\<lparr> es_btree := bt \<rparr>)
      | Some (Inl (Err e), bt) \<Rightarrow> Some (Inr [], s\<lparr> es_btree := bt \<rparr>)
      | Some (Inr None, bt) \<Rightarrow> Some (Inr [], s\<lparr> es_btree := bt \<rparr>)
      | Some (Inr (Some pid), bt) \<Rightarrow>
          let s1 = s\<lparr> es_btree := bt \<rparr>
          in (case bm_db bt of
                None \<Rightarrow> Some (Inr [], s1)
              | Some f \<Rightarrow>
                 (case read_buffer f (unat (edge_page_offset s pid)) (unat (es_page_size s)) of
                    None \<Rightarrow> Some (Inr [], s1)
                  | Some buffer \<Rightarrow>
                     (case cluster_deserialize buffer pid of
                        Inl Panic \<Rightarrow> Some (Inl Panic, s1)
                      | Inl (Err e) \<Rightarrow> Some (Inr [], s1)
                      | Inr cluster \<Rightarrow>
                          Some (Inr (cluster_dsts cluster),
                            s1\<lparr> es_edge_types := record_types src dir (edges_with_types cluster)
                                                   (es_edge_types s1) \<rparr>)))))"

definition es_neighbors ::
  "i64 \<Rightarrow> direction \<Rightarrow> edge_store \<Rightarrow> (i64 list result \<times> edge_store) option" where
  "es_neighbors src dir s =
     (case es_cache s (src, dir) of
        Some ns \<Rightarrow> Some (Inr ns, s\<lparr> es_cache_hits := es_cache_hits s + 1 \<rparr>)
      | None \<Rightarrow>
          let s = s\<lparr> es_cache_misses := es_cache_misses s + 1 \<rparr>
          in if es_has_path s then
               (case load_neighbors_from_disk src dir s of
                  None \<Rightarrow> None
                | Some (Inl Panic, s') \<Rightarrow> Some (Inl Panic, s')
                | Some (Inl (Err e), s') \<Rightarrow> Some (Inr [], s')
                | Some (Inr ns, s') \<Rightarrow>
                    if ns \<noteq> [] then Some (Inr ns, s'\<lparr> es_cache := (es_cache s')((src, dir) \<mapsto> ns) \<rparr>)
                    else Some (Inr [], s'))
             else Some (Inr [], s))"

definition es_outgoing :: "i64 \<Rightarrow> edge_store \<Rightarrow> (i64 list result \<times> edge_store) option" where
  "es_outgoing src = es_neighbors src Outgoing"

definition es_incoming :: "i64 \<Rightarrow> edge_store \<Rightarrow> (i64 list result \<times> edge_store) option" where
  "es_incoming src = es_neighbors src Incoming"

definition es_neighbors_filtered ::
  "i64 \<Rightarrow> direction \<Rightarrow> bytes \<Rightarrow> edge_store \<Rightarrow> (i64 list result \<times> edge_store) option" where
  "es_neighbors_filtered src dir edge_type s =
     map_option (\<lambda>(r, s'). (bindR r (\<lambda>all_neighbors.
         Inr (filter (\<lambda>dst. es_edge_types s' (src, dst, dir) = Some edge_type) all_neighbors)), s'))
       (es_neighbors src dir s)"

definition es_get_edge_type :: "edge_store \<Rightarrow> i64 \<Rightarrow> i64 \<Rightarrow> direction \<Rightarrow> bytes option" where
  "es_get_edge_type s src dst dir = es_edge_types s (src, dst, dir)"

subsection \<open>Inserting an edge\<close>

definition cache_edge :: "edge_slot \<Rightarrow> i64 \<Rightarrow> edge_store \<Rightarrow> edge_store" where
  "cache_edge k dst s =
     s\<lparr> es_cache := (es_cache s)(k \<mapsto>
         (case es_cache s k of
            Some ns \<Rightarrow> if dst \<in> set ns then ns else ns @ [dst]
          | None \<Rightarrow> [dst])) \<rparr>"

text \<open>\<open>or_insert_with\<close>: the cluster of a slot that has no dirty one yet is a new, empty one.\<close>

definition new_cluster_page :: "u64 option result \<Rightarrow> (btree_manager, u64) action" where
  "new_cluster_page found bt =
     (case found of
        Inl Panic \<Rightarrow> (Inl Panic, bt)
      | Inr (Some pid) \<Rightarrow> (Inr pid, bt)
      | _ \<Rightarrow>
         (case bm_allocate bt of
            (Inr pid, bt') \<Rightarrow> (Inr pid, bt')
          | (Inl (Err e), bt') \<Rightarrow> (Inr 0, bt')
          | (Inl Panic, bt') \<Rightarrow> (Inl Panic, bt')))"

definition dirty_entry :: "edge_slot \<Rightarrow> edge_store \<Rightarrow> (edge_cluster result \<times> edge_store) option" where
  "dirty_entry k s =
     (case map_of (es_dirty s) k of
        Some c \<Rightarrow> Some (Inr c, s)
      | None \<Rightarrow>
         (case btree_lookup (edge_key (fst k) (snd k)) (es_btree s) of
            None \<Rightarrow> None
          | Some (found, bt) \<Rightarrow>
             (case new_cluster_page found bt of
                (Inl e, bt') \<Rightarrow> Some (Inl e, s\<lparr> es_btree := bt' \<rparr>)
              | (Inr pid, bt') \<Rightarrow>
                  let c = cluster_new (fst k) (snd k) pid
                  in Some (Inr c, s\<lparr> es_btree := bt', es_dirty := es_dirty s @ [(k, c)] \<rparr>))))"

definition insert_edge ::
  "i64 \<Rightarrow> i64 \<Rightarrow> direction \<Rightarrow> bytes option \<Rightarrow> edge_store \<Rightarrow> (unit result \<times> edge_store) option" where
  "insert_edge src dst dir edge_type s =
     (let s1 = cache_edge (src, dir) dst s;
          s2 = s1\<lparr> es_edge_types := (es_edge_types s1)((src, dst, dir) := edge_type) \<rparr>
      in (case dirty_entry (src, dir) s2 of
            None \<Rightarrow> None
          | Some (Inl e, s3) \<Rightarrow> Some (Inl e, s3)
          | Some (Inr c, s3) \<Rightarrow>
             let page_id = cl_page_id c;
                 s4 = s3\<lparr> es_dirty := AList.update (src, dir) (cluster_add_edge dst edge_type c) (es_dirty s3) \<rparr>
             in Some (Inr (), s4\<lparr> es_wal :=
                  map_option (\<lambda>w. w @ [Edge_Insert src dst dir page_id]) (es_wal s4) \<rparr>)))"

subsection \<open>Flushing\<close>

definition write_page_to_disk :: "u64 \<Rightarrow> bytes \<Rightarrow> edge_store \<Rightarrow> edge_store" where
  "write_page_to_disk pid data s =
     (let f = (case bm_db (es_btree s) of Some f \<Rightarrow> f | None \<Rightarrow> [])
      in if es_coordinator s then
           (let page_data = (if length data < unat (es_page_size s)
                             then vec_resize data (unat (es_page_size s)) 0 else data);
                co = snd (co_write_page pid page_data \<lparr> co_file = f, cached_size = of_nat (length f) \<rparr>);
                bt = es_btree s
            in s\<lparr> es_btree := bt\<lparr> bm_db := Some (co_file co),
                   bm_coordinator := map_option (\<lambda>_. cached_size co) (bm_coordinator bt) \<rparr> \<rparr>)
         else
           (let offset = (if pid = 0 then 0 else edge_page_offset s pid);
                required_len = offset + of_nat (length data) :: u64;
                f' = (if length f < unat required_len then file_set_len f (unat required_len) else f)
            in s\<lparr> es_btree := (es_btree s)\<lparr> bm_db := Some (file_write f' (unat offset) data) \<rparr> \<rparr>))"

text \<open>The page of a cluster: the one it has, or a new one when the allocation at insertion failed.\<close>

definition flush_page_id :: "edge_cluster \<Rightarrow> (edge_store, u64) action" where
  "flush_page_id c s =
     (if cl_page_id c = 0 then
        (case bm_allocate (es_btree s) of
           (Inr pid, bt) \<Rightarrow> (Inr pid, s\<lparr> es_btree := bt \<rparr>)
         | (Inl (Err e), bt) \<Rightarrow> (Inl (Err IoError), s\<lparr> es_btree := bt \<rparr>)
         | (Inl Panic, bt) \<Rightarrow> (Inl Panic, s\<lparr> es_btree := bt \<rparr>))
      else (Inr (cl_page_id c), s))"

fun flush_clusters ::
  "(edge_slot \<times> edge_cluster) list \<Rightarrow> edge_store \<Rightarrow> (unit result \<times> edge_store) option" where
  "flush_clusters [] s = Some (Inr (), s)"
| "flush_clusters ((k, c) # rest) s =
     (case cluster_serialize c of
        Inl e \<Rightarrow> Some (Inl e, s)
      | Inr data \<Rightarrow>
         (case flush_page_id c s of
            (Inl e, s1) \<Rightarrow> Some (Inl e, s1)
          | (Inr pid, s1) \<Rightarrow>
             let s2 = write_page_to_disk pid data s1
             in (case btree_insert (edge_key (fst k) (snd k)) pid (es_btree s2) of
                   None \<Rightarrow> None
                 | Some (Inl Panic, bt) \<Rightarrow> Some (Inl Panic, s2\<lparr> es_btree := bt \<rparr>)
                 | Some (_, bt) \<Rightarrow> flush_clusters rest (s2\<lparr> es_btree := bt \<rparr>))))"

definition EDGE_META_MAGIC :: bytes where
  "EDGE_META_MAGIC = [0x56, 0x33, 0x45, 0x44, 0x47, 0x45, 0, 0]"

definition byte_sum :: "bytes \<Rightarrow> u32" where
  "byte_sum bs = foldl (\<lambda>acc b. acc + ucast b) 0 bs"

definition persist_btree_metadata :: "edge_store \<Rightarrow> edge_store" where
  "persist_btree_metadata s =
     (if es_has_path s then
        let data = EDGE_META_MAGIC @ to_le (bm_root_page_id (es_btree s))
                     @ to_le (bm_tree_height (es_btree s));
            checksum = byte_sum data
        in s\<lparr> es_meta := Some (data @ to_le checksum) \<rparr>
      else s)"

definition recover_btree_metadata :: "edge_store \<Rightarrow> (u64 \<times> u32) option" where
  "recover_btree_metadata s =
     (if \<not> es_has_path s then None
      else case es_meta s of
        None \<Rightarrow> None
      | Some data \<Rightarrow>
          if length data < 24 then None
          else if slice data 0 8 \<noteq> EDGE_META_MAGIC then None
          else
            let root = from_le (slice data 8 8); height = from_le (slice data 16 4);
                stored_checksum = from_le (slice data 20 4)
            in if stored_checksum \<noteq> byte_sum (take 20 data) then None else Some (root, height))"

definition restore_btree_from_metadata :: "edge_store \<Rightarrow> bool \<times> edge_store" where
  "restore_btree_from_metadata s =
     (case recover_btree_metadata s of
        Some (root, height) \<Rightarrow>
          (True, s\<lparr> es_btree := (es_btree s)\<lparr> bm_root_page_id := root, bm_tree_height := height \<rparr> \<rparr>)
      | None \<Rightarrow> (False, s))"

text \<open>\<open>order\<close> is the order in which the hash map lists its entries.\<close>

definition es_flush ::
  "((edge_slot \<times> edge_cluster) list \<Rightarrow> (edge_slot \<times> edge_cluster) list) \<Rightarrow> edge_store \<Rightarrow>
   (unit result \<times> edge_store) option" where
  "es_flush order s =
     (if \<not> es_has_path s then Some (Inr (), s\<lparr> es_dirty := [] \<rparr>)
      else if es_dirty s = [] then Some (Inr (), s)
      else case flush_clusters (order (es_dirty s)) s of
        None \<Rightarrow> None
      | Some (Inl e, s1) \<Rightarrow> Some (Inl e, s1)
      | Some (Inr _, s1) \<Rightarrow>
          let s2 = s1\<lparr> es_dirty := [] \<rparr>;
              s3 = s2\<lparr> es_wal := map_option (\<lambda>w. w @ [Edge_Checkpoint (bm_root_page_id (es_btree s2))
                     (bm_tree_height (es_btree s2)), Edge_Wal_Flush, Edge_Wal_Truncate]) (es_wal s2) \<rparr>
          in Some (Inr (), persist_btree_metadata s3))"

definition btree_root_page_id :: "edge_store \<Rightarrow> u64 option" where
  "btree_root_page_id s =
     (let root = bm_root_page_id (es_btree s) in if root \<noteq> 0 \<and> root \<noteq> - 1 then Some root else None)"

definition btree_height :: "edge_store \<Rightarrow> u32" where
  "btree_height s = bm_tree_height (es_btree s)"

subsection \<open>Keys of the index\<close>

definition slot_key :: "edge_slot \<Rightarrow> i64" where
  "slot_key k = edge_key (fst k) (snd k)"

definition in_domain :: "edge_slot \<Rightarrow> bool" where
  "in_domain k \<longleftrightarrow> - (2 ^ 61) \<le> sint (fst k) \<and> sint (fst k) < 2 ^ 61"

lemma bit_key_mask: "bit (0x3FFFFFFFFFFFFFFF :: i64) n \<longleftrightarrow> n < 62"
proof -
  have "(0x3FFFFFFFFFFFFFFF :: i64) = mask 62" by (simp add: mask_eq_exp_minus_1)
  then show ?thesis by (simp only: bit_mask_iff) auto
qed

lemma bit_edge_key:
  assumes "n < 64"
  shows "bit (edge_key src dir) n \<longleftrightarrow>
    (if n < 62 then bit (zigzag_encode src) n else n = 62 \<and> dir = Incoming)"
proof -
  have "bit (push_bit 62 (if dir = Outgoing then 0 else 1 :: i64)) n \<longleftrightarrow> n = 62 \<and> dir = Incoming"
    unfolding bit_push_bit_iff using assms by (cases dir) (auto simp: bit_1_iff)
  moreover have "edge_key src dir =
      push_bit 62 (if dir = Outgoing then 0 else 1) OR (zigzag_encode src AND 0x3FFFFFFFFFFFFFFF)"
    by (simp only: edge_key_def Let_def zigzag_encode_def)
  ultimately show ?thesis by (simp only: bit_or_iff bit_and_iff bit_key_mask) auto
qed

lemma sign_bits:
  assumes "- (2 ^ 61) \<le> sint v" "sint v < 2 ^ 61" "61 \<le> n" "n < 64"
  shows "bit (v :: i64) n \<longleftrightarrow> bit v 63"
proof -
  have "signed_take_bit 61 (sint v) = sint v" using assms(1,2) by (simp add: signed_take_bit_int_eq_self)
  then have b: "bit (sint v) m \<longleftrightarrow> bit (sint v) (min 61 m)" for m
    using bit_signed_take_bit_iff [of 61 "sint v" m] by (simp only:) simp
  have "bit (sint v) n \<longleftrightarrow> bit (sint v) 63"
    using b [of n] b [of 63] assms(3) by (simp add: min_def)
  then show ?thesis using assms(4) by (simp add: bit_signed_iff)
qed

lemma zigzag_high_bits: "in_domain k \<Longrightarrow> 62 \<le> n \<Longrightarrow> n < 64 \<Longrightarrow> \<not> bit (zigzag_encode (fst k)) n"
  using sign_bits [of "fst k" "n - 1"] by (auto simp: in_domain_def bit_zigzag_encode)

lemma slot_key_inj:
  assumes "in_domain k" "in_domain k'" "slot_key k = slot_key k'"
  shows "k = k'"
proof -
  have same: "bit (edge_key (fst k) (snd k)) n = bit (edge_key (fst k') (snd k')) n" for n
    using assms(3) by (simp add: slot_key_def)
  have "zigzag_encode (fst k) = zigzag_encode (fst k')"
  proof (rule bit_word_eqI)
    fix n assume "n < LENGTH(64)"
    then show "bit (zigzag_encode (fst k)) n = bit (zigzag_encode (fst k')) n"
      using same [of n] zigzag_high_bits [OF assms(1), of n] zigzag_high_bits [OF assms(2), of n]
      by (cases "n < 62") (auto simp: bit_edge_key)
  qed
  moreover have "snd k = Incoming \<longleftrightarrow> snd k' = Incoming" using same [of 62] by (simp add: bit_edge_key)
  then have "snd k = snd k'" by (cases "snd k"; cases "snd k'") auto
  ultimately show ?thesis by (simp add: zigzag_inj prod_eq_iff)
qed

lemma slot_key_nonneg: "0 \<le> sint (slot_key k)"
proof -
  have "\<not> bit (slot_key k) 63" by (simp add: slot_key_def bit_edge_key)
  then show ?thesis using bit_last_iff [of "slot_key k"] by simp
qed


subsection \<open>The invariant\<close>

text \<open>
  \<open>m\<close> is the map the index stands for and \<open>X\<close> the pages that are not its own. A slot owns the page of
  its dirty cluster, or else the page the index names.
\<close>

definition slot_page :: "edge_store \<Rightarrow> (u64 \<Rightarrow> u64 option) \<Rightarrow> edge_slot \<Rightarrow> u64 option" where
  "slot_page s m k =
     (case map_of (es_dirty s) k of Some c \<Rightarrow> Some (cl_page_id c) | None \<Rightarrow> m (slot_key k))"

definition dirty_ok :: "edge_slot \<Rightarrow> edge_cluster \<Rightarrow> bool" where
  "dirty_ok k c \<longleftrightarrow>
     in_domain k \<and> cl_src c = fst k \<and> cl_direction c = snd k \<and> cl_format_version c = 3 \<and>
     (\<forall>e \<in> set (cl_edges c). wf_edge e)"

text \<open>Every slot has its own page, among the pages that are foreign to the index.\<close>

definition owns :: "u64 set \<Rightarrow> (edge_slot \<Rightarrow> u64 option) \<Rightarrow> bool" where
  "owns X pg \<longleftrightarrow>
     (\<forall>k p. in_domain k \<and> pg k = Some p \<longrightarrow> p \<in> X \<and> p \<noteq> 0) \<and>
     (\<forall>k k' p. in_domain k \<and> in_domain k' \<and> pg k = Some p \<and> pg k' = Some p \<longrightarrow> k = k')"

definition es_ready :: "u64 set \<Rightarrow> (u64 \<Rightarrow> u64 option) \<Rightarrow> edge_store \<Rightarrow> bool" where
  "es_ready X m s \<longleftrightarrow>
     btree_map X (es_btree s) m \<and> es_has_path s \<and> es_page_size s = 4096 \<and>
     (es_coordinator s \<or> bm_coordinator (es_btree s) = None)"

definition es_inv :: "u64 set \<Rightarrow> (u64 \<Rightarrow> u64 option) \<Rightarrow> edge_store \<Rightarrow> bool" where
  "es_inv X m s \<longleftrightarrow>
     es_ready X m s \<and> distinct (map fst (es_dirty s)) \<and>
     (\<forall>k c. map_of (es_dirty s) k = Some c \<longrightarrow> dirty_ok k c) \<and>
     (\<forall>k c. map_of (es_dirty s) k = Some c \<and> m (slot_key k) \<noteq> None \<longrightarrow> m (slot_key k) = Some (cl_page_id c)) \<and>
     owns X (slot_page s m)"

text \<open>The edges of a slot as a reader of its page finds them, and those that wait in its dirty cluster.\<close>

definition page_edges :: "btree_manager \<Rightarrow> u64 \<Rightarrow> (i64 \<times> bytes option) list" where
  "page_edges bt p =
     (case raw_page bt p of
        None \<Rightarrow> []
      | Some bs \<Rightarrow> (case cluster_deserialize bs p of Inl _ \<Rightarrow> [] | Inr c \<Rightarrow> edges_with_types c))"

definition disk_edges :: "edge_store \<Rightarrow> (u64 \<Rightarrow> u64 option) \<Rightarrow> edge_slot \<Rightarrow> (i64 \<times> bytes option) list" where
  "disk_edges s m k = (case m (slot_key k) of None \<Rightarrow> [] | Some p \<Rightarrow> page_edges (es_btree s) p)"

definition dirty_edges :: "edge_store \<Rightarrow> edge_slot \<Rightarrow> (i64 \<times> bytes option) list" where
  "dirty_edges s k = (case map_of (es_dirty s) k of None \<Rightarrow> [] | Some c \<Rightarrow> edges_with_types c)"

lemma es_readyD:
  assumes "es_ready X m s"
  shows "btree_map X (es_btree s) m" "es_has_path s" "es_page_size s = 4096"
    "es_coordinator s \<or> bm_coordinator (es_btree s) = None"
  using assms by (simp_all add: es_ready_def)

lemma es_invD:
  assumes "es_inv X m s"
  shows "es_ready X m s" "distinct (map fst (es_dirty s))"
    "map_of (es_dirty s) k = Some c \<Longrightarrow> dirty_ok k c"
    "map_of (es_dirty s) k = Some c \<Longrightarrow> m (slot_key k) = None \<or> m (slot_key k) = Some (cl_page_id c)"
    "owns X (slot_page s m)"
proof -
  from assms have inv: "es_ready X m s" "distinct (map fst (es_dirty s))" "owns X (slot_page s m)"
    "\<And>k c. map_of (es_dirty s) k = Some c \<Longrightarrow> dirty_ok k c"
    "\<And>k c. map_of (es_dirty s) k = Some c \<and> m (slot_key k) \<noteq> None \<Longrightarrow> m (slot_key k) = Some (cl_page_id c)"
    unfolding es_inv_def by blast+
  then show "es_ready X m s" "distinct (map fst (es_dirty s))" "owns X (slot_page s m)" by blast+
  show "dirty_ok k c" "m (slot_key k) = None \<or> m (slot_key k) = Some (cl_page_id c)"
    if "map_of (es_dirty s) k = Some c"
    using inv(4,5) [of k c] that by blast+
qed

lemma ownsD:
  assumes "owns X pg"
  shows "in_domain k \<Longrightarrow> pg k = Some p \<Longrightarrow> p \<in> X \<and> p \<noteq> 0"
    "in_domain k \<Longrightarrow> in_domain k' \<Longrightarrow> pg k = Some p \<Longrightarrow> pg k' = Some p \<Longrightarrow> k = k'"
  using assms unfolding owns_def by blast+

lemma page_edges_cong: "raw_page bt' p = raw_page bt p \<Longrightarrow> page_edges bt' p = page_edges bt p"
  by (simp add: page_edges_def)

lemma es_inv_page:
  assumes "es_inv X m s" "m (slot_key k) = Some p"
  shows "slot_page s m k = Some p"
  using es_invD(4) [OF assms(1), of k] assms(2) by (auto simp: slot_page_def split: option.splits)

text \<open>Pages of the shared allocator have an offset.\<close>

lemma foreign_in_range: "btree_map X s m \<Longrightarrow> p \<in> X \<Longrightarrow> unat p \<le> MAX_PAGE"
  by (auto simp: btree_map_def bm_good_def pages_in_range_def)

lemma edge_page_offset_eq:
  "es_page_size s = 4096 \<Longrightarrow> p \<noteq> 0 \<Longrightarrow> unat p \<le> MAX_PAGE \<Longrightarrow> unat (edge_page_offset s p) = offset_of p"
  using unat_page_offset(1) [of p] by (simp add: edge_page_offset_def V3_HEADER_SIZE_def)

subsection \<open>Reading\<close>

text \<open>A lookup changes nothing but the cache of the index.\<close>

lemma load_page_frame:
  "load_page p s = (r, s') \<Longrightarrow> bm_db s' = bm_db s"
  by (auto simp: load_page_def bindR_def split: option.splits sum.splits if_splits)

lemma lookup_loop_frame:
  "lookup_loop k d p s = Some y \<Longrightarrow> bm_db (snd y) = bm_db s"
  apply (rule lookup_loop.raw_induct [of "\<lambda>k d p s y. bm_db (snd y) = bm_db s"])
  subgoal premises prems for f k d p s y
    using prems(3) by (auto split: if_splits sum.splits prod.splits index_page.splits
        dest!: prems(2) load_page_frame)
  apply assumption
  done

lemma lookup_step:
  assumes "btree_map X bt m"
  obtains bt' where "btree_lookup k bt = Some (Inr (m k), bt')" "btree_map X bt' m"
    "index_step X 0 bt bt'" "bm_db bt' = bm_db bt"
proof -
  obtain bt' where bt': "btree_lookup k bt = Some (Inr (m k), bt')" "btree_map X bt' m" "bm_ext X 0 {} bt bt'"
    using btree_lookup_correct [OF assms] by blast
  have "bm_db bt' = bm_db bt"
    using bt'(1) lookup_loop_frame by (fastforce simp: btree_lookup_def split: if_splits)
  with that bt' index_step_ext show ?thesis by blast
qed

text \<open>A page of zeros holds the empty cluster.\<close>

lemma from_le_zeros: "from_le (replicate n 0) = 0"
  by (induction n) simp_all

lemma deserialize_zeros:
  "cluster_deserialize (replicate 4096 0) p = Inr
     \<lparr> cl_src = 0, cl_edges = [], cl_direction = Outgoing, cl_format_version = 0, cl_page_id = p \<rparr>"
proof -
  have "from_be (slice (replicate 4096 0) 1 4 :: bytes) = (0 :: u32)"
    by (simp add: slice_def from_be_def from_le_zeros)
  then show ?thesis
    by (simp add: cluster_deserialize_def bindR_def Let_def)
qed

lemma read_edge_metadata_no_panic: "read_edge_metadata bs pos ns \<noteq> Inl Panic"
  by (induction ns arbitrary: pos)
    (auto simp: read_edge_data_def bindR_def Let_def split: sum.splits)

lemma read_edge_records_no_panic: "read_edge_records bs pos k \<noteq> Inl Panic"
  by (induction k arbitrary: pos)
    (auto simp: read_edge_data_def bindR_def Let_def split: sum.splits)

lemma read_compressed_no_panic: "read_compressed_edges bs pos n \<noteq> Inl Panic"
  using read_edge_metadata_no_panic
  by (simp add: read_compressed_edges_def Let_def split: sum.split)

lemma bindR_eq_Inl: "bindR r f = Inl e \<longleftrightarrow> r = Inl e \<or> (\<exists>x. r = Inr x \<and> f x = Inl e)"
  by (cases r) (simp_all add: bindR_def)

lemma deserialize_no_panic: "cluster_deserialize bs p \<noteq> Inl Panic"
  unfolding cluster_deserialize_def Let_def
  by (simp add: bindR_eq_Inl read_compressed_no_panic read_edge_records_no_panic split: prod.split)

text \<open>Reading the page a slot is mapped to finds what is on disk.\<close>

lemma read_buffer_page:
  assumes "bm_db bt = Some f" "p \<noteq> 0"
  shows "read_buffer f (offset_of p) 4096 = None \<and> page_edges bt p = [] \<or>
    read_buffer f (offset_of p) 4096 = raw_page bt p"
proof (cases "slice f (offset_of p) 4096 = []")
  case True
  then have "raw_page bt p = Some (replicate 4096 0)"
    using assms by (simp add: raw_page_def zpage_def vec_resize_def)
  then have "page_edges bt p = []"
    by (simp only: page_edges_def option.case deserialize_zeros sum.case) (simp add: edges_with_types_def)
  with True show ?thesis by (simp add: read_buffer_def)
next
  case False
  with assms show ?thesis by (simp add: read_buffer_def raw_page_def zpage_def Let_def)
qed

lemma load_neighbors_correct:
  assumes "es_ready X m s" "\<And>p. m (slot_key (src, dir)) = Some p \<Longrightarrow> p \<in> X \<and> p \<noteq> 0"
  shows "\<exists>bt ts. load_neighbors_from_disk src dir s =
      Some (Inr (map fst (disk_edges s m (src, dir))), s\<lparr> es_btree := bt, es_edge_types := ts \<rparr>) \<and>
    btree_map X bt m \<and> index_step X 0 (es_btree s) bt"
proof -
  note ready = es_readyD [OF assms(1)]
  have key: "edge_key src dir = slot_key (src, dir)" by (simp add: slot_key_def)
  obtain bt where bt: "btree_lookup (edge_key src dir) (es_btree s) = Some (Inr (m (slot_key (src, dir))), bt)"
    "btree_map X bt m" "index_step X 0 (es_btree s) bt" "bm_db bt = bm_db (es_btree s)"
    using lookup_step [OF ready(1), of "edge_key src dir"] key by metis
  obtain f where f: "bm_db bt = Some f" using btree_map_db [OF bt(2)] by blast
  show ?thesis
  proof (cases "m (slot_key (src, dir))")
    case None
    then show ?thesis
      using bt by (intro exI [of _ bt] exI [of _ "es_edge_types s"])
        (simp add: load_neighbors_from_disk_def disk_edges_def)
  next
    case (Some p)
    with assms(2) have p: "p \<in> X" "p \<noteq> 0" by auto
    have off: "unat (edge_page_offset s p) = offset_of p"
      using edge_page_offset_eq [OF ready(3) p(2) foreign_in_range [OF ready(1) p(1)]] .
    have pe: "disk_edges s m (src, dir) = page_edges bt p"
      using bt(4) Some by (simp add: disk_edges_def page_edges_def raw_page_def)
    have size: "unat (es_page_size s) = 4096" using ready(3) by simp
    show ?thesis
      using read_buffer_page [OF f p(2)]
    proof
      assume "read_buffer f (offset_of p) 4096 = None \<and> page_edges bt p = []"
      then show ?thesis
        using bt(1-3) f Some off pe size by (intro exI [of _ bt] exI [of _ "es_edge_types s"])
          (simp add: load_neighbors_from_disk_def Let_def)
    next
      assume r: "read_buffer f (offset_of p) 4096 = raw_page bt p"
      obtain bs where bs: "raw_page bt p = Some bs" using f p(2) by (simp add: raw_page_def)
      show ?thesis
      proof (cases "cluster_deserialize bs p")
        case (Inl e)
        then have "e \<noteq> Panic" using deserialize_no_panic by auto
        then show ?thesis
          using bt(1-3) f Some off pe size r bs Inl
          by (cases e; intro exI [of _ bt] exI [of _ "es_edge_types s"])
            (auto simp: load_neighbors_from_disk_def page_edges_def Let_def)
      next
        case (Inr c)
        then show ?thesis
          using bt(1-3) f Some off pe size r bs
          by (auto simp: load_neighbors_from_disk_def page_edges_def dsts_edges_with_types Let_def)
      qed
    qed
  qed
qed

subsection \<open>Writing a cluster\<close>

lemma file_pad:
  assumes "length bs \<le> n"
  shows "vec_resize bs n 0 = bs @ replicate (n - length bs) 0"
  using assms by (simp add: vec_resize_def)

text \<open>A page write is one write to the shared file, seen by the coordinator of the index.\<close>

lemma write_page_to_disk_eq:
  assumes "es_ready X m s" "bm_db (es_btree s) = Some f" "p \<in> X" "p \<noteq> 0" "length data \<le> 4096"
  obtains pad where "length (data @ pad) \<le> 4096"
    "write_page_to_disk p data s =
       s\<lparr> es_btree := file_update (es_btree s) (file_write f (offset_of p) (data @ pad)) \<rparr>"
proof (cases "es_coordinator s")
  case True
  note ready = es_readyD [OF assms(1)]
  have size: "unat (es_page_size s) = 4096" using ready(3) by simp
  note co = co_write_page_eq [OF assms(4) foreign_in_range [OF ready(1) assms(3)]]
  have "write_page_to_disk p data s =
      s\<lparr> es_btree := file_update (es_btree s) (file_write f (offset_of p) (data @ replicate (4096 - length data) 0)) \<rparr>"
    using True assms(2,5) size co
    by (cases "length data = 4096") (simp_all add: write_page_to_disk_def file_update_def Let_def file_pad)
  with that [of "replicate (4096 - length data) 0"] assms(5) show thesis by simp
next
  case False
  note ready = es_readyD [OF assms(1)]
  note range = foreign_in_range [OF ready(1) assms(3)]
  have off: "unat (edge_page_offset s p) = offset_of p" "offset_of p + 4096 < 2 ^ 64"
    using edge_page_offset_eq [OF ready(3) assms(4) range] unat_page_offset(2) [OF assms(4) range] by auto
  have "unat (of_nat (length data) :: u64) = length data"
    using assms(5) by (simp add: unat_of_nat take_bit_nat_eq_self)
  then have req: "unat (edge_page_offset s p + of_nat (length data)) = offset_of p + length data"
    using off assms(5) by (subst unat_add_lem [THEN iffD1]) simp_all
  have "bm_coordinator (es_btree s) = None" using ready(4) False by simp
  then have "write_page_to_disk p data s =
      s\<lparr> es_btree := file_update (es_btree s) (file_write f (offset_of p) data) \<rparr>"
    using False assms(2,4) off(1) req
    by (simp add: write_page_to_disk_def file_update_def Let_def file_write_set_len)
  with that [of "[]"] assms(5) show thesis by simp
qed

subsection \<open>The flush loop\<close>

text \<open>
  \<open>pg\<close> assigns every slot its page for the whole loop. A dirty cluster can be flushed when its slot has
  that page and its bytes fit one.
\<close>

definition flushable :: "(edge_slot \<Rightarrow> u64 option) \<Rightarrow> edge_slot \<times> edge_cluster \<Rightarrow> bool" where
  "flushable pg kc \<longleftrightarrow>
     dirty_ok (fst kc) (snd kc) \<and> pg (fst kc) = Some (cl_page_id (snd kc)) \<and>
     length (cluster_bytes (snd kc)) \<le> 4096"

definition flushed_map :: "(edge_slot \<times> edge_cluster) list \<Rightarrow> (u64 \<Rightarrow> u64 option) \<Rightarrow> (u64 \<Rightarrow> u64 option)" where
  "flushed_map L m = foldl (\<lambda>m (k, c). m(slot_key k \<mapsto> cl_page_id c)) m L"

lemma flushed_map_simps [simp]:
  "flushed_map [] m = m"
  "flushed_map ((k, c) # L) m = flushed_map L (m(slot_key k \<mapsto> cl_page_id c))"
  by (simp_all add: flushed_map_def)

lemma length_le_metadata: "length es \<le> length (concat (map edge_metadata es))"
  by (induction es) (simp_all add: byte_simps)

lemma dirty_wf:
  assumes "dirty_ok k c" "length (cluster_bytes c) \<le> 4096"
  shows "wf_cluster c"
proof -
  have "length (cl_edges c) \<le> length (cluster_bytes c)"
    using assms(1) length_le_metadata [of "cl_edges c"]
    by (simp add: dirty_ok_def cluster_bytes_def cluster_body_def Let_def)
  then show ?thesis using assms by (simp add: wf_cluster_def dirty_ok_def)
qed

lemma page_edges_written:
  assumes "dirty_ok k c" "length (cluster_bytes c) \<le> 4096" "raw_page bt p = Some (cluster_bytes c @ zs)"
  shows "page_edges bt p = edges_with_types c"
  using cluster_deserialize_bytes [OF dirty_wf [OF assms(1,2)], of zs p] assms(1,3)
  by (simp add: dirty_ok_def page_edges_def edges_with_types_def)

lemma flush_one:
  assumes ready: "es_ready X m s" and pg: "owns X pg" "flushable pg (k, c)" and room: "bm_room 11 (es_btree s)"
  obtains bt where
    "flush_clusters ((k, c) # L) s = flush_clusters L (s\<lparr> es_btree := bt \<rparr>)"
    "es_ready X (m(slot_key k \<mapsto> cl_page_id c)) (s\<lparr> es_btree := bt \<rparr>)"
    "\<And>n. bm_room (n + 11) (es_btree s) \<Longrightarrow> bm_room n bt"
    "page_edges bt (cl_page_id c) = edges_with_types c"
    "\<And>q. q \<in> X \<Longrightarrow> q \<noteq> cl_page_id c \<Longrightarrow> page_edges bt q = page_edges (es_btree s) q"
    "\<And>F. F \<subseteq> X \<Longrightarrow> cl_page_id c \<notin> F \<Longrightarrow> shared_step F (es_btree s) bt"
proof -
  let ?p = "cl_page_id c"
  from pg have p: "?p \<in> X" "?p \<noteq> 0" and ok: "dirty_ok k c" "length (cluster_bytes c) \<le> 4096"
    using ownsD(1) [OF pg(1), of k ?p] by (auto simp: flushable_def dirty_ok_def)
  note r = es_readyD [OF ready]
  obtain f where f: "bm_db (es_btree s) = Some f" using btree_map_db [OF r(1)] by blast
  obtain pad where pad: "length (cluster_bytes c @ pad) \<le> 4096"
    "write_page_to_disk ?p (cluster_bytes c) s =
       s\<lparr> es_btree := file_update (es_btree s) (file_write f (offset_of ?p) (cluster_bytes c @ pad)) \<rparr>"
    using write_page_to_disk_eq [OF ready f p ok(2)] by blast
  define b1 where "b1 = file_update (es_btree s) (file_write f (offset_of ?p) (cluster_bytes c @ pad))"
  have good: "bm_good X (es_btree s)" using r(1) by (auto simp: btree_map_def)
  note w = foreign_write [OF good f p pad(1), folded b1_def]
  have map1: "btree_map X b1 m" unfolding b1_def by (rule btree_map_foreign_write [OF r(1) f p pad(1)])
  have "bm_room 11 b1" using w(3) room by simp
  from btree_insert_correct [OF map1 this, of "slot_key k" ?p] obtain bt where
    bt: "btree_insert (slot_key k) ?p b1 = Some (Inr (), bt)" "btree_map X bt (m(slot_key k \<mapsto> ?p))"
    "index_step X 11 b1 bt" by blast
  have raw: "raw_page bt q = raw_page b1 q" if "q \<in> X" for q by (rule index_step_raw [OF bt(3) that])
  obtain zs where zs: "raw_page bt ?p = Some (cluster_bytes c @ zs)" using w(5) raw [OF p(1)] by auto
  show thesis
  proof (rule that)
    show "flush_clusters ((k, c) # L) s = flush_clusters L (s\<lparr> es_btree := bt \<rparr>)"
      using bt(1) p(2) pad(2) by (simp add: cluster_serialize_eq flush_page_id_def b1_def Let_def slot_key_def)
    have "bm_coordinator bt = None \<longleftrightarrow> bm_coordinator (es_btree s) = None"
      using bt(3) by (simp add: index_step_def b1_def file_update_def)
    then show "es_ready X (m(slot_key k \<mapsto> ?p)) (s\<lparr> es_btree := bt \<rparr>)"
      using bt(2) r by (simp add: es_ready_def)
    show "bm_room n bt" if "bm_room (n + 11) (es_btree s)" for n
      using index_step_room [OF bt(3)] w(3) that by simp
    show "page_edges bt ?p = edges_with_types c" by (rule page_edges_written [OF ok zs])
    show "page_edges bt q = page_edges (es_btree s) q" if "q \<in> X" "q \<noteq> ?p" for q
      using raw [OF that(1)] w(6) [OF that(2)] by (intro page_edges_cong) simp
    have "bm_good X bt" using bt(2) by (auto simp: btree_map_def)
    then show "shared_step F (es_btree s) bt" if "F \<subseteq> X" "?p \<notin> F" for F
      using shared_step_trans [OF foreign_write_shared [OF good f p pad(1) that(2), folded b1_def] index_step_shared [OF bt(3) that(1)]] by blast
  qed
qed

text \<open>The index maps no slot to a page that is not its own.\<close>

definition mapped_to :: "(edge_slot \<Rightarrow> u64 option) \<Rightarrow> (u64 \<Rightarrow> u64 option) \<Rightarrow> bool" where
  "mapped_to pg m \<longleftrightarrow> (\<forall>k p. in_domain k \<and> m (slot_key k) = Some p \<longrightarrow> pg k = Some p)"

lemma mapped_toD: "mapped_to pg m \<Longrightarrow> in_domain k \<Longrightarrow> m (slot_key k) = Some p \<Longrightarrow> pg k = Some p"
  unfolding mapped_to_def by blast

lemma flush_clusters_correct:
  assumes "es_ready X m s" "owns X pg" "mapped_to pg m" "\<forall>kc \<in> set L. flushable pg kc"
    and "distinct (map fst L)" "bm_room (n + 11 * length L) (es_btree s)"
  shows "\<exists>bt m'. flush_clusters L s = Some (Inr (), s\<lparr> es_btree := bt \<rparr>) \<and>
    es_ready X m' (s\<lparr> es_btree := bt \<rparr>) \<and> mapped_to pg m' \<and> bm_room n bt \<and>
    (\<forall>k. in_domain k \<longrightarrow> m' (slot_key k) =
       (case map_of L k of Some c \<Rightarrow> Some (cl_page_id c) | None \<Rightarrow> m (slot_key k))) \<and>
    (\<forall>k. in_domain k \<longrightarrow> disk_edges (s\<lparr> es_btree := bt \<rparr>) m' k =
       (case map_of L k of Some c \<Rightarrow> edges_with_types c | None \<Rightarrow> disk_edges s m k)) \<and>
    (\<forall>F. F \<subseteq> X \<and> owns (X - F) pg \<longrightarrow> shared_step F (es_btree s) bt)"
  using assms
proof (induction L arbitrary: s m)
  case Nil
  then show ?case by (intro exI [of _ "es_btree s"] exI [of _ m]) (simp add: shared_step_refl)
next
  case (Cons kc L)
  obtain k c where kc: "kc = (k, c)" by fastforce
  let ?m = "m(slot_key k \<mapsto> cl_page_id c)"
  from Cons.prems(4) kc have fl: "flushable pg (k, c)" by simp
  then have dom: "in_domain k" "pg k = Some (cl_page_id c)" by (auto simp: flushable_def dirty_ok_def)
  have room: "bm_room 11 (es_btree s)" by (rule bm_room_mono [OF Cons.prems(6)]) simp
  obtain bt where bt: "flush_clusters ((k, c) # L) s = flush_clusters L (s\<lparr> es_btree := bt \<rparr>)"
    "es_ready X ?m (s\<lparr> es_btree := bt \<rparr>)" "\<And>n. bm_room (n + 11) (es_btree s) \<Longrightarrow> bm_room n bt"
    "page_edges bt (cl_page_id c) = edges_with_types c"
    "\<And>q. q \<in> X \<Longrightarrow> q \<noteq> cl_page_id c \<Longrightarrow> page_edges bt q = page_edges (es_btree s) q"
    "\<And>F. F \<subseteq> X \<Longrightarrow> cl_page_id c \<notin> F \<Longrightarrow> shared_step F (es_btree s) bt"
    using flush_one [OF Cons.prems(1,2) fl room] by blast
  have mapped: "mapped_to pg ?m"
    using Cons.prems(3) dom slot_key_inj unfolding mapped_to_def by (metis fun_upd_apply option.inject)
  have "bm_room (n + 11 * length L) bt" by (rule bt(3)) (use Cons.prems(6) in \<open>simp add: ac_simps\<close>)
  with Cons.IH [OF bt(2) Cons.prems(2) mapped] Cons.prems(4,5) obtain bt' m' where IH:
    "flush_clusters L (s\<lparr> es_btree := bt \<rparr>) = Some (Inr (), s\<lparr> es_btree := bt' \<rparr>)"
    "es_ready X m' (s\<lparr> es_btree := bt' \<rparr>)" "mapped_to pg m'" "bm_room n bt'"
    "\<forall>k. in_domain k \<longrightarrow> m' (slot_key k) = (case map_of L k of Some c \<Rightarrow> Some (cl_page_id c) | None \<Rightarrow> ?m (slot_key k))"
    "\<forall>k. in_domain k \<longrightarrow> disk_edges (s\<lparr> es_btree := bt' \<rparr>) m' k =
       (case map_of L k of Some c \<Rightarrow> edges_with_types c | None \<Rightarrow> disk_edges (s\<lparr> es_btree := bt \<rparr>) ?m k)"
    "\<forall>F. F \<subseteq> X \<and> owns (X - F) pg \<longrightarrow> shared_step F bt bt'"
    by auto
  have fresh: "map_of L k = None" using Cons.prems(5) kc by (simp add: map_of_eq_None_iff)
  have keys: "?m (slot_key k') = (if k' = k then Some (cl_page_id c) else m (slot_key k'))" if "in_domain k'" for k'
    using slot_key_inj [OF that dom(1)] by auto
  have edges: "disk_edges (s\<lparr> es_btree := bt \<rparr>) ?m k' =
      (if k' = k then edges_with_types c else disk_edges s m k')" if k': "in_domain k'" for k'
  proof (cases "k' = k")
    case True
    then show ?thesis using bt(4) by (simp add: disk_edges_def)
  next
    case False
    have "page_edges bt q = page_edges (es_btree s) q" if "m (slot_key k') = Some q" for q
    proof (rule bt(5))
      have q: "pg k' = Some q" by (rule mapped_toD [OF Cons.prems(3) k' that])
      then show "q \<in> X" using ownsD(1) [OF Cons.prems(2) k'] by simp
      show "q \<noteq> cl_page_id c" using ownsD(2) [OF Cons.prems(2) k' dom(1) q] dom(2) False by auto
    qed
    then show ?thesis using False keys [OF k'] by (simp add: disk_edges_def split: option.splits)
  qed
  have "m' (slot_key k') = (case map_of (kc # L) k' of Some c \<Rightarrow> Some (cl_page_id c) | None \<Rightarrow> m (slot_key k'))"
    if "in_domain k'" for k'
    using IH(5) [THEN spec, THEN mp, OF that] keys [OF that] fresh kc by (simp split: option.split)
  moreover have "disk_edges (s\<lparr> es_btree := bt' \<rparr>) m' k' =
      (case map_of (kc # L) k' of Some c \<Rightarrow> edges_with_types c | None \<Rightarrow> disk_edges s m k')"
    if "in_domain k'" for k'
    using IH(6) [THEN spec, THEN mp, OF that] edges [OF that] fresh kc by (auto split: option.split)
  moreover have "flush_clusters (kc # L) s = Some (Inr (), s\<lparr> es_btree := bt' \<rparr>)"
    using bt(1) IH(1) kc by (simp only:)
  moreover have "shared_step F (es_btree s) bt'" if "F \<subseteq> X" "owns (X - F) pg" for F
    using shared_step_trans [OF bt(6) [OF that(1)]] ownsD(1) [OF that(2) dom] IH(7) that by blast
  ultimately show ?case using IH(2-4) by blast
qed

subsection \<open>The whole flush\<close>

definition listing :: "((edge_slot \<times> edge_cluster) list \<Rightarrow> (edge_slot \<times> edge_cluster) list) \<Rightarrow> bool" where
  "listing order \<longleftrightarrow> (\<forall>L. mset (order L) = mset L)"

lemma listing_facts:
  assumes "listing order" "distinct (map fst L)"
  shows "set (order L) = set L" "length (order L) = length L" "distinct (map fst (order L))"
    "map_of (order L) = map_of L"
proof -
  have m: "mset (order L) = mset L" using assms(1) by (simp add: listing_def)
  then show s: "set (order L) = set L" and "length (order L) = length L"
    by (metis set_mset_mset) (metis m size_mset)
  have "mset (map fst (order L)) = mset (map fst L)" using m by simp
  then show d: "distinct (map fst (order L))" using assms(2) mset_eq_imp_distinct_iff by blast
  show "map_of (order L) = map_of L" using s d assms(2) by (simp add: map_of_inject_set)
qed

lemma es_ready_fields:
  "es_ready X m s \<Longrightarrow> es_btree s' = es_btree s \<Longrightarrow> es_has_path s' = es_has_path s \<Longrightarrow>
   es_page_size s' = es_page_size s \<Longrightarrow> es_coordinator s' = es_coordinator s \<Longrightarrow> es_ready X m s'"
  by (simp add: es_ready_def)

lemma persist_fields:
  "es_btree (persist_btree_metadata s) = es_btree s" "es_dirty (persist_btree_metadata s) = es_dirty s"
  "es_has_path (persist_btree_metadata s) = es_has_path s"
  "es_page_size (persist_btree_metadata s) = es_page_size s"
  "es_coordinator (persist_btree_metadata s) = es_coordinator s"
  "es_cache (persist_btree_metadata s) = es_cache s"
  by (simp_all add: persist_btree_metadata_def Let_def)

lemma es_flush_correct:
  assumes inv: "es_inv X m s" and order: "listing order"
    and fits: "\<forall>k c. map_of (es_dirty s) k = Some c \<longrightarrow> length (cluster_bytes c) \<le> 4096"
    and room: "bm_room (n + 11 * length (es_dirty s)) (es_btree s)"
  shows "\<exists>s' m'. es_flush order s = Some (Inr (), s') \<and> es_inv X m' s' \<and> es_dirty s' = [] \<and>
    es_cache s' = es_cache s \<and> bm_room n (es_btree s') \<and>
    (\<forall>k. in_domain k \<longrightarrow> m' (slot_key k) = slot_page s m k) \<and>
    (\<forall>k. in_domain k \<longrightarrow> disk_edges s' m' k =
       (if map_of (es_dirty s) k = None then disk_edges s m k else dirty_edges s k)) \<and>
    (\<forall>F. F \<subseteq> X \<and> owns (X - F) (slot_page s m) \<longrightarrow>
       shared_step F (es_btree s) (es_btree s') \<and> owns (X - F) (slot_page s' m'))"
proof -
  note i = es_invD(1,2,5) [OF inv]
  have path: "es_has_path s" using es_readyD(2) [OF i(1)] .
  show ?thesis
  proof (cases "es_dirty s = []")
    case True
    then show ?thesis
      using inv path room by (intro exI [of _ s] exI [of _ m]) (simp add: es_flush_def slot_page_def shared_step_refl)
  next
    case False
    let ?L = "order (es_dirty s)"
    note l = listing_facts [OF order i(2)]
    have mapped: "mapped_to (slot_page s m) m" using es_inv_page [OF inv] by (auto simp: mapped_to_def)
    have "flushable (slot_page s m) kc" if "kc \<in> set ?L" for kc
    proof -
      obtain k c where kc: "kc = (k, c)" by fastforce
      then have "map_of (es_dirty s) k = Some c" using that i(2) l(1) by (simp add: map_of_is_SomeI)
      then show ?thesis using es_invD(3) [OF inv, of k c] fits [THEN spec, THEN spec, THEN mp, of k c] kc by (auto simp: flushable_def slot_page_def)
    qed
    then have fl: "\<forall>kc \<in> set ?L. flushable (slot_page s m) kc" by blast
    have "bm_room (n + 11 * length ?L) (es_btree s)" using room l(2) by simp
    from flush_clusters_correct [OF i(1,3) mapped fl l(3) this] obtain bt m' where f:
      "flush_clusters ?L s = Some (Inr (), s\<lparr> es_btree := bt \<rparr>)" "es_ready X m' (s\<lparr> es_btree := bt \<rparr>)"
      "mapped_to (slot_page s m) m'" "bm_room n bt"
      "\<And>k. in_domain k \<Longrightarrow> m' (slot_key k) =
         (case map_of (es_dirty s) k of Some c \<Rightarrow> Some (cl_page_id c) | None \<Rightarrow> m (slot_key k))"
      "\<And>k. in_domain k \<Longrightarrow> disk_edges (s\<lparr> es_btree := bt \<rparr>) m' k =
         (case map_of (es_dirty s) k of Some c \<Rightarrow> edges_with_types c | None \<Rightarrow> disk_edges s m k)"
      "\<And>F. F \<subseteq> X \<and> owns (X - F) (slot_page s m) \<Longrightarrow> shared_step F (es_btree s) bt"
      unfolding l(4) by blast
    let ?s2 = "s\<lparr> es_btree := bt, es_dirty := [] \<rparr>"
    let ?s = "persist_btree_metadata (?s2\<lparr> es_wal := map_option (\<lambda>w. w @ [Edge_Checkpoint
      (bm_root_page_id (es_btree ?s2)) (bm_tree_height (es_btree ?s2)), Edge_Wal_Flush, Edge_Wal_Truncate]) (es_wal ?s2) \<rparr>)"
    have run: "es_flush order s = Some (Inr (), ?s)" using False path f(1) by (simp add: es_flush_def Let_def)
    have ready: "es_ready X m' ?s" by (rule es_ready_fields [OF f(2)]) (simp_all add: persist_fields)
    have none: "es_dirty ?s = []" by (simp add: persist_fields)
    have slots: "slot_page ?s m' k = slot_page s m k" if "in_domain k" for k
      using f(5) [OF that] none by (simp add: slot_page_def split: option.splits)
    have own: "owns Y (slot_page ?s m')" if "owns Y (slot_page s m)" for Y
      unfolding owns_def using slots ownsD [OF that] by (metis (no_types, lifting))
    have "es_inv X m' ?s" using ready none own [OF i(3)] by (simp add: es_inv_def)
    moreover have "es_btree ?s = bt" by (simp add: persist_fields)
    moreover have "m' (slot_key k) = slot_page s m k" if "in_domain k" for k
      using f(5) [OF that] by (simp add: slot_page_def)
    moreover have "disk_edges ?s m' k = (if map_of (es_dirty s) k = None then disk_edges s m k else dirty_edges s k)"
      if "in_domain k" for k
      using f(6) [OF that] by (simp add: disk_edges_def persist_fields dirty_edges_def split: option.splits)
    moreover have "es_cache ?s = es_cache s" "bm_room n (es_btree ?s)" using f(4) by (simp_all add: persist_fields)
    ultimately show ?thesis using run none f(7) own by (intro exI [of _ ?s] exI [of _ m']) auto
  qed
qed

subsection \<open>Insertion\<close>

text \<open>
  What an insertion leaves of a store: the pages of the others, the clusters of the other slots. \<open>X\<close> and
  \<open>X'\<close> are the foreign pages before and after.
\<close>

definition same_disk :: "(u64 \<Rightarrow> u64 option) \<Rightarrow> edge_store \<Rightarrow> edge_store \<Rightarrow> bool" where
  "same_disk m s s' \<longleftrightarrow> (\<forall>k. in_domain k \<longrightarrow> disk_edges s' m k = disk_edges s m k)"

lemma disk_edges_cong:
  assumes "\<And>p. m (slot_key k) = Some p \<Longrightarrow> raw_page (es_btree s') p = raw_page (es_btree s) p"
  shows "disk_edges s' m k = disk_edges s m k"
  using assms by (auto simp: disk_edges_def intro: page_edges_cong split: option.split)

text \<open>Entering a new, empty cluster for a slot on a page of its own.\<close>

lemma owns_enter:
  assumes own: "owns Y pg" and dom: "in_domain k" and pages: "\<And>k'. pg' k' = (if k' = k then Some p else pg k')"
    and sub: "Y \<subseteq> Y'" and p: "p \<in> Y'" "p \<noteq> 0" "pg k = Some p \<or> p \<notin> Y"
  shows "owns Y' pg'"
  unfolding owns_def
proof (intro conjI allI impI)
  have new: "k' = k" if "in_domain k'" "pg k' = Some p" for k'
    using p(3) ownsD(2) [OF own that(1) dom that(2)] ownsD(1) [OF own that] by blast
  show "q \<in> Y'" "q \<noteq> 0" if "in_domain k' \<and> pg' k' = Some q" for k' q
    using that p(1,2) pages [of k'] ownsD(1) [OF own, of k' q] sub by (auto split: if_splits)
  show "k1 = k2" if "in_domain k1 \<and> in_domain k2 \<and> pg' k1 = Some q \<and> pg' k2 = Some q" for k1 k2 q
    using that pages [of k1] pages [of k2] new ownsD(2) [OF own, of k1 k2 q] by (auto split: if_splits)
qed

lemma es_inv_new_cluster:
  assumes inv: "es_inv X m s" and fresh: "map_of (es_dirty s) k = None" and dom: "in_domain k"
    and bt: "btree_map X' bt m" "X \<subseteq> X'" "bm_coordinator bt = None \<longleftrightarrow> bm_coordinator (es_btree s) = None"
    and p: "p \<in> X'" "p \<noteq> 0" "m (slot_key k) = Some p \<or> m (slot_key k) = None \<and> p \<notin> X"
  defines "s' \<equiv> s\<lparr> es_btree := bt, es_dirty := es_dirty s @ [(k, cluster_new (fst k) (snd k) p)] \<rparr>"
  shows "es_inv X' m s'"
proof -
  have own: "owns X (slot_page s m)" using es_invD(5) [OF inv] .
  have entry: "map_of (es_dirty s') k' = (if k' = k then Some (cluster_new (fst k) (snd k) p) else map_of (es_dirty s) k')" for k'
    using fresh by (auto simp: s'_def map_add_def split: option.split)
  have pages: "slot_page s' m k' = (if k' = k then Some p else slot_page s m k')" for k'
    using entry by (simp add: slot_page_def cluster_new_def)
  have "slot_page s m k = Some p \<or> p \<notin> X" using p(3) fresh by (auto simp: slot_page_def)
  then have "owns X' (slot_page s' m)" by (rule owns_enter [OF own dom pages bt(2) p(1,2)])
  moreover have "es_ready X' m s'"
    using es_readyD [OF es_invD(1) [OF inv]] bt by (simp add: es_ready_def s'_def)
  moreover have "distinct (map fst (es_dirty s'))"
    using es_invD(2) [OF inv] fresh by (auto simp: s'_def map_of_eq_None_iff)
  moreover have "dirty_ok k' c \<and> (m (slot_key k') \<noteq> None \<longrightarrow> m (slot_key k') = Some (cl_page_id c))"
    if "map_of (es_dirty s') k' = Some c" for k' c
    using that entry [of k'] es_invD(3,4) [OF inv, of k' c] dom p(3)
    by (auto simp: dirty_ok_def cluster_new_def split: if_splits)
  ultimately show ?thesis unfolding es_inv_def by blast
qed

text \<open>\<open>s'\<close> has a dirty cluster for the slot \<open>k\<close> and is otherwise as \<open>s\<close> was.\<close>

definition entered :: "u64 set \<Rightarrow> (u64 \<Rightarrow> u64 option) \<Rightarrow> edge_slot \<Rightarrow> edge_cluster \<Rightarrow> nat \<Rightarrow>
    edge_store \<Rightarrow> edge_store \<Rightarrow> u64 set \<Rightarrow> bool" where
  "entered X m k c n s s' X' \<longleftrightarrow>
     X \<subseteq> X' \<and> es_inv X' m s' \<and> map_of (es_dirty s') k = Some c \<and>
     (\<forall>k'. k' \<noteq> k \<longrightarrow> map_of (es_dirty s') k' = map_of (es_dirty s) k') \<and>
     (map_of (es_dirty s) k = Some c \<or>
      map_of (es_dirty s) k = None \<and> c = cluster_new (fst k) (snd k) (cl_page_id c)) \<and> edges_with_types c = dirty_edges s k \<and>
     dirty_edges s' = dirty_edges s \<and> same_disk m s s' \<and> bm_room n (es_btree s') \<and> es_cache s' = es_cache s \<and>
     (\<forall>F. F \<subseteq> X \<longrightarrow> shared_step F (es_btree s) (es_btree s') \<and>
        (owns (X - F) (slot_page s m) \<longrightarrow> owns (X' - F) (slot_page s' m)))"

lemma dirty_edges_new:
  assumes "map_of (es_dirty s) k = None" "es_dirty s' = es_dirty s @ [(k, cluster_new src dir p)]"
  shows "dirty_edges s' = dirty_edges s" "edges_with_types (cluster_new src dir p) = dirty_edges s k"
    "map_of (es_dirty s') k = Some (cluster_new src dir p)"
    "k' \<noteq> k \<Longrightarrow> map_of (es_dirty s') k' = map_of (es_dirty s) k'"
    "cl_page_id (cluster_new src dir p) = p"
  using assms by (auto simp: fun_eq_iff dirty_edges_def map_add_def edges_with_types_def cluster_new_def
      split: option.split)

lemma dirty_entry_correct:
  assumes inv: "es_inv X m s" and dom: "in_domain k" and room: "bm_room (Suc n) (es_btree s)"
  obtains c s' X' where "dirty_entry k s = Some (Inr c, s')" "entered X m k c n s s' X'"
proof (cases "map_of (es_dirty s) k")
  case (Some c)
  then have "entered X m k c n s s X"
    using inv bm_room_mono [OF room, of n]
    by (simp add: entered_def dirty_edges_def same_disk_def shared_step_refl)
  with that Some show thesis by (simp add: dirty_entry_def)
next
  case None
  note ready = es_readyD [OF es_invD(1) [OF inv]]
  obtain bt where bt: "btree_lookup (slot_key k) (es_btree s) = Some (Inr (m (slot_key k)), bt)"
    "btree_map X bt m" "index_step X 0 (es_btree s) bt" "bm_db bt = bm_db (es_btree s)"
    using lookup_step [OF ready(1)] by metis
  have co: "bm_coordinator bt = None \<longleftrightarrow> bm_coordinator (es_btree s) = None"
    using bt(3) by (simp add: index_step_def)
  have good: "bm_good X bt" using bt(2) by (auto simp: btree_map_def)
  have looked: "shared_step F (es_btree s) bt" if "F \<subseteq> X" for F by (rule index_step_shared [OF bt(3) that good])
  have enter: "owns (Y - F) (slot_page s m) \<Longrightarrow> p \<in> Y' - F \<Longrightarrow> p \<noteq> 0 \<Longrightarrow> Y \<subseteq> Y' \<Longrightarrow> slot_page s m k = Some p \<or> p \<notin> Y \<Longrightarrow>
      es_dirty s' = es_dirty s @ [(k, cluster_new (fst k) (snd k) p)] \<Longrightarrow> owns (Y' - F) (slot_page s' m)" for p Y Y' F s'
    by (rule owns_enter [where pg = "slot_page s m" and p = p and k = k and Y = "Y - F"])
      (use dom None in \<open>auto simp: slot_page_def map_add_def cluster_new_def split: option.splits\<close>)
  have roomy: "bm_room (Suc n) bt" using index_step_room [OF bt(3), of "Suc n"] room by simp
  show thesis
  proof (cases "m (slot_key k)")
    case (Some p)
    let ?s = "s\<lparr> es_btree := bt, es_dirty := es_dirty s @ [(k, cluster_new (fst k) (snd k) p)] \<rparr>"
    have own: "p \<in> X" "p \<noteq> 0"
      using es_inv_page [OF inv Some] ownsD(1) [OF es_invD(5) [OF inv] dom] by auto
    have "es_inv X m ?s" by (rule es_inv_new_cluster [OF inv None dom bt(2) _ co own]) (use Some in auto)
    moreover have "same_disk m s ?s"
      unfolding same_disk_def using bt(4) by (auto intro!: disk_edges_cong simp: raw_page_def)
    moreover have "shared_step F (es_btree s) bt \<and> (owns (X - F) (slot_page s m) \<longrightarrow> owns (X - F) (slot_page ?s m))"
      if "F \<subseteq> X" for F
      using looked [OF that] enter [of X F p X ?s] own(2) es_inv_page [OF inv Some] ownsD(1) [OF _ dom, of "X - F" "slot_page s m" p] by auto
    ultimately have "entered X m k (cluster_new (fst k) (snd k) p) n s ?s X"
      using dirty_edges_new [OF None, of ?s "fst k" "snd k" p] bm_room_mono [OF roomy, of n]
      by (simp add: entered_def None)
    with that show thesis
      using None bt(1) Some by (force simp: dirty_entry_def new_cluster_page_def slot_key_def Let_def)
  next
    case no: None
    obtain p al where a: "allocate (bm_allocator bt) = (Inr p, al)" "p \<noteq> 0" "p \<notin> X"
      "btree_map (insert p X) (bt\<lparr> bm_allocator := al \<rparr>) m" "bm_room n (bt\<lparr> bm_allocator := al \<rparr>)"
      "\<And>F. shared_step F bt (bt\<lparr> bm_allocator := al \<rparr>)"
      using btree_map_foreign_allocate [OF bt(2) roomy] by blast
    let ?b = "bt\<lparr> bm_allocator := al \<rparr>"
    let ?s = "s\<lparr> es_btree := ?b, es_dirty := es_dirty s @ [(k, cluster_new (fst k) (snd k) p)] \<rparr>"
    have "es_inv (insert p X) m ?s"
      by (rule es_inv_new_cluster [OF inv None dom a(4)]) (use co no a in auto)
    moreover have "same_disk m s ?s"
      unfolding same_disk_def using bt(4) by (auto intro!: disk_edges_cong simp: raw_page_def)
    moreover have "shared_step F (es_btree s) ?b \<and> (owns (X - F) (slot_page s m) \<longrightarrow> owns (insert p X - F) (slot_page ?s m))"
      if "F \<subseteq> X" for F
      using shared_step_trans [OF looked [OF that] a(6)] enter [of X F p "insert p X" ?s] a(2,3) that by auto
    ultimately have "entered X m k (cluster_new (fst k) (snd k) p) n s ?s (insert p X)"
      using dirty_edges_new [OF None, of ?s "fst k" "snd k" p] a(5) None by (auto simp: entered_def)
    with that show thesis
      using None bt(1) no a(1) by (simp add: dirty_entry_def new_cluster_page_def slot_key_def Let_def bm_allocate_def)
  qed
qed

lemma es_inv_update:
  assumes inv: "es_inv X m s" and c: "map_of (es_dirty s) k = Some c" and ok: "dirty_ok k c'"
    and pid: "cl_page_id c' = cl_page_id c"
  shows "es_inv X m (s\<lparr> es_dirty := AList.update k c' (es_dirty s) \<rparr>)"
proof -
  let ?s = "s\<lparr> es_dirty := AList.update k c' (es_dirty s) \<rparr>"
  have entry: "map_of (es_dirty ?s) k' = (if k' = k then Some c' else map_of (es_dirty s) k')" for k'
    by (simp add: update_conv')
  have "slot_page ?s m = slot_page s m"
    using c pid by (intro ext) (simp add: slot_page_def entry [simplified] del: split_paired_All split: option.split)
  moreover have "es_ready X m ?s" by (rule es_ready_fields [OF es_invD(1) [OF inv]]) simp_all
  moreover have "distinct (map fst (es_dirty ?s))" using es_invD(2) [OF inv] by (simp add: distinct_update)
  moreover have "dirty_ok k' d \<and> (m (slot_key k') \<noteq> None \<longrightarrow> m (slot_key k') = Some (cl_page_id d))"
    if "map_of (es_dirty ?s) k' = Some d" for k' d
    using that entry [of k'] es_invD(3,4) [OF inv, of k'] c ok pid by (auto split: if_splits)
  ultimately show ?thesis using es_invD(5) [OF inv] unfolding es_inv_def by auto
qed

definition added :: "edge_slot \<Rightarrow> i64 \<times> bytes option \<Rightarrow> edge_store \<Rightarrow> edge_store \<Rightarrow> bool" where
  "added k e s s' \<longleftrightarrow>
     (\<exists>c. map_of (es_dirty s') k = Some (cluster_add_edge (fst e) (snd e) c) \<and>
        (map_of (es_dirty s) k = Some c \<or>
         map_of (es_dirty s) k = None \<and> c = cluster_new (fst k) (snd k) (cl_page_id c))) \<and>
     (\<forall>k'. k' \<noteq> k \<longrightarrow> map_of (es_dirty s') k' = map_of (es_dirty s) k')"

lemma es_inv_cong:
  "es_inv X m s \<Longrightarrow> es_btree s' = es_btree s \<Longrightarrow> es_dirty s' = es_dirty s \<Longrightarrow> es_has_path s' = es_has_path s \<Longrightarrow>
   es_page_size s' = es_page_size s \<Longrightarrow> es_coordinator s' = es_coordinator s \<Longrightarrow> es_inv X m s'"
  by (simp add: es_inv_def es_ready_def slot_page_def [abs_def])

lemma disk_edges_btree: "es_btree s' = es_btree s \<Longrightarrow> disk_edges s' m k = disk_edges s m k"
  by (simp add: disk_edges_def split: option.split)

lemma dirty_edges_dirty: "es_dirty s' = es_dirty s \<Longrightarrow> dirty_edges s' = dirty_edges s"
  by (simp add: fun_eq_iff dirty_edges_def)

lemma insert_edge_correct:
  assumes inv: "es_inv X m s" and dom: "in_domain (src, dir)" and t: "storable_edge (dst, t)"
    and room: "bm_room (Suc n) (es_btree s)"
  obtains s' X' where "insert_edge src dst dir t s = Some (Inr (), s')" "X \<subseteq> X'" "es_inv X' m s'"
    "added (src, dir) (dst, t) s s'" "same_disk m s s'" "bm_room n (es_btree s')"
    "es_cache s' = es_cache (cache_edge (src, dir) dst s)"
    "dirty_edges s' = (dirty_edges s)((src, dir) := dirty_edges s (src, dir) @ [(dst, t)])"
    "\<And>F. F \<subseteq> X \<Longrightarrow> shared_step F (es_btree s) (es_btree s') \<and>
       (owns (X - F) (slot_page s m) \<longrightarrow> owns (X' - F) (slot_page s' m))"
proof -
  let ?k = "(src, dir)"
  define s2 where "s2 = (cache_edge ?k dst s)\<lparr> es_edge_types := (es_edge_types s)((src, dst, dir) := t) \<rparr>"
  have f2: "es_btree s2 = es_btree s" "es_dirty s2 = es_dirty s" "es_has_path s2 = es_has_path s"
    "es_page_size s2 = es_page_size s" "es_coordinator s2 = es_coordinator s"
    by (simp_all add: s2_def cache_edge_def)
  have inv2: "es_inv X m s2" by (rule es_inv_cong [OF inv f2])
  have room2: "bm_room (Suc n) (es_btree s2)" using room f2(1) by simp
  obtain c s3 X' where e: "dirty_entry ?k s2 = Some (Inr c, s3)" "entered X m ?k c n s2 s3 X'"
    using dirty_entry_correct [OF inv2 dom room2] by blast
  from e(2) have sub: "X \<subseteq> X'" and inv3: "es_inv X' m s3" and c: "map_of (es_dirty s3) ?k = Some c"
    and others: "\<And>k'. k' \<noteq> ?k \<Longrightarrow> map_of (es_dirty s3) k' = map_of (es_dirty s) k'"
    and origin: "map_of (es_dirty s) ?k = Some c \<or>
      map_of (es_dirty s) ?k = None \<and> c = cluster_new src dir (cl_page_id c)"
    and edges: "edges_with_types c = dirty_edges s2 ?k" "dirty_edges s3 = dirty_edges s2"
    and disk: "same_disk m s2 s3" and room3: "bm_room n (es_btree s3)" and cache: "es_cache s3 = es_cache s2"
    using f2(2) by (auto simp: entered_def)
  have frame: "shared_step F (es_btree s) (es_btree s3) \<and> (owns (X - F) (slot_page s m) \<longrightarrow> owns (X' - F) (slot_page s3 m))"
    if "F \<subseteq> X" for F
    using e(2) that f2(1,2) by (simp add: entered_def slot_page_def [abs_def])
  let ?c = "cluster_add_edge dst t c"
  define s4 where "s4 = s3\<lparr> es_dirty := AList.update ?k ?c (es_dirty s3) \<rparr>"
  define s' where "s' = s4\<lparr> es_wal := map_option (\<lambda>w. w @ [Edge_Insert src dst dir (cl_page_id c)]) (es_wal s4) \<rparr>"
  have fields: "cl_src ?c = cl_src c" "cl_direction ?c = cl_direction c"
    "cl_format_version ?c = cl_format_version c" "cl_page_id ?c = cl_page_id c"
    by (simp_all add: cluster_add_edge_def Let_def)
  have ok: "dirty_ok ?k ?c"
    using es_invD(3) [OF inv3 c] wf_add_edge [OF t, of c] fields by (simp add: dirty_ok_def)
  have "es_inv X' m s4" unfolding s4_def by (rule es_inv_update [OF inv3 c ok fields(4)])
  then have inv': "es_inv X' m s'" by (rule es_inv_cong) (simp_all add: s'_def)
  have entry: "map_of (es_dirty s') k' = (if k' = ?k then Some ?c else map_of (es_dirty s3) k')" for k'
    by (simp add: s'_def s4_def update_conv')
  show thesis
  proof (rule that [OF _ sub inv'])
    show "insert_edge src dst dir t s = Some (Inr (), s')"
      using e(1) by (simp add: insert_edge_def s2_def s'_def s4_def Let_def cache_edge_def)
    show "added ?k (dst, t) s s'"
      using entry others origin by (auto simp: added_def)
    show "same_disk m s s'"
      using disk disk_edges_btree [of s' s3] disk_edges_btree [of s2 s, OF f2(1)]
      by (simp add: same_disk_def s'_def s4_def)
    show "bm_room n (es_btree s')" using room3 by (simp add: s'_def s4_def)
    show "es_cache s' = es_cache (cache_edge ?k dst s)" using cache by (simp add: s'_def s4_def s2_def)
    have "dirty_edges s2 = dirty_edges s" by (rule dirty_edges_dirty [OF f2(2)])
    moreover have "dirty_edges s' k' = (if k' = ?k then edges_with_types ?c else dirty_edges s3 k')" for k'
      by (simp add: dirty_edges_def entry)
    ultimately show "dirty_edges s' = (dirty_edges s)(?k := dirty_edges s ?k @ [(dst, t)])"
      using edges edges_with_types_add [OF t, of c] by (auto simp: fun_eq_iff)
    have "slot_page s' m k' = slot_page s3 m k'" for k' using entry [of k'] c fields(4) by (simp add: slot_page_def)
    then have "slot_page s' m = slot_page s3 m" ..
    then show "shared_step F (es_btree s) (es_btree s') \<and> (owns (X - F) (slot_page s m) \<longrightarrow> owns (X' - F) (slot_page s' m))"
      if "F \<subseteq> X" for F using frame [OF that] by (simp add: s'_def s4_def)
  qed
qed

subsection \<open>Queries\<close>

lemma es_inv_btree:
  assumes "es_inv X m s" "btree_map X bt m" "bm_coordinator bt = None \<longleftrightarrow> bm_coordinator (es_btree s) = None"
    and "es_btree s' = bt" "es_dirty s' = es_dirty s" "es_has_path s' = es_has_path s"
    "es_page_size s' = es_page_size s" "es_coordinator s' = es_coordinator s"
  shows "es_inv X m s'"
  using assms by (simp add: es_inv_def es_ready_def slot_page_def [abs_def])

lemma es_neighbors_correct:
  assumes inv: "es_inv X m s" and dom: "in_domain (src, dir)" and cold: "es_cache s (src, dir) = None"
  obtains s' where "es_neighbors src dir s = Some (Inr (map fst (disk_edges s m (src, dir))), s')"
    "es_inv X m s'" "same_disk m s s'" "dirty_edges s' = dirty_edges s"
    "\<And>F. F \<subseteq> X \<Longrightarrow> shared_step F (es_btree s) (es_btree s')" "slot_page s' m = slot_page s m"
    "es_cache s' = (if map fst (disk_edges s m (src, dir)) = [] then es_cache s
       else (es_cache s)((src, dir) \<mapsto> map fst (disk_edges s m (src, dir))))"
    "\<And>n. bm_room n (es_btree s) \<Longrightarrow> bm_room n (es_btree s')"
proof -
  let ?s = "s\<lparr> es_cache_misses := es_cache_misses s + 1 \<rparr>"
  let ?ns = "map fst (disk_edges s m (src, dir))"
  have own: "p \<in> X \<and> p \<noteq> 0" if "m (slot_key k) = Some p" "in_domain k" for p k
    using es_inv_page [OF inv that(1)] ownsD(1) [OF es_invD(5) [OF inv] that(2)] by blast
  have ready: "es_ready X m ?s" by (rule es_ready_fields [OF es_invD(1) [OF inv]]) simp_all
  from load_neighbors_correct [OF ready, of src dir] own dom obtain bt ts where
    l: "load_neighbors_from_disk src dir ?s =
      Some (Inr (map fst (disk_edges ?s m (src, dir))), ?s\<lparr> es_btree := bt, es_edge_types := ts \<rparr>)"
    "btree_map X bt m" "index_step X 0 (es_btree ?s) bt" by blast
  have ns: "map fst (disk_edges ?s m (src, dir)) = ?ns" by (simp add: disk_edges_btree [of ?s s])
  have path: "es_has_path s" using es_readyD(2) [OF ready] by simp
  obtain c where run: "es_neighbors src dir s = Some (Inr ?ns, ?s\<lparr> es_btree := bt, es_edge_types := ts, es_cache := c \<rparr>)"
    and cache: "c = (if ?ns = [] then es_cache s else (es_cache s)((src, dir) \<mapsto> ?ns))"
  proof (cases "?ns = []")
    case True
    then have "es_neighbors src dir s = Some (Inr ?ns, ?s\<lparr> es_btree := bt, es_edge_types := ts, es_cache := es_cache s \<rparr>)"
      using cold path l(1) ns by (simp add: es_neighbors_def Let_def)
    then show thesis by (rule that) (simp add: True)
  next
    case False
    then have "es_neighbors src dir s = Some (Inr ?ns, ?s\<lparr> es_btree := bt, es_edge_types := ts,
        es_cache := (es_cache s)((src, dir) \<mapsto> ?ns) \<rparr>)"
      using cold path l(1) ns by (simp add: es_neighbors_def Let_def)
    then show thesis by (rule that) (simp only: False if_False)
  qed
  let ?s' = "?s\<lparr> es_btree := bt, es_edge_types := ts, es_cache := c \<rparr>"
  have "es_inv X m ?s'"
    by (rule es_inv_btree [OF inv l(2)]) (use l(3) in \<open>simp_all add: index_step_def\<close>)
  moreover have "same_disk m s ?s'"
    unfolding same_disk_def
  proof (intro allI impI disk_edges_cong)
    fix k p assume "in_domain k" "m (slot_key k) = Some p"
    with own index_step_raw [OF l(3)] show "raw_page (es_btree ?s') p = raw_page (es_btree s) p" by simp
  qed
  moreover have "dirty_edges ?s' = dirty_edges s" by (rule dirty_edges_dirty) simp
  moreover have "bm_good X bt" using l(2) by (auto simp: btree_map_def)
  then have "shared_step F (es_btree s) (es_btree ?s')" if "F \<subseteq> X" for F
    using index_step_shared [OF l(3) that] by simp
  moreover have "slot_page ?s' m = slot_page s m" by (simp add: fun_eq_iff slot_page_def)
  moreover have "bm_room n (es_btree ?s')" if "bm_room n (es_btree s)" for n
    using index_step_room [OF l(3), of n] that by simp
  ultimately show thesis using run cache by (intro that [of ?s']) simp_all
qed

text \<open>After the caches are dropped the answer comes from the disk.\<close>

definition cold_neighbors :: "i64 \<Rightarrow> direction \<Rightarrow> edge_store \<Rightarrow> i64 list result option" where
  "cold_neighbors src dir s = map_option fst (es_neighbors src dir (es_clear_cache s))"

lemma cold_neighbors_eq:
  assumes "es_inv X m s" "in_domain (src, dir)"
  shows "cold_neighbors src dir s = Some (Inr (map fst (disk_edges s m (src, dir))))"
proof -
  have "es_inv X m (es_clear_cache s)" by (rule es_inv_cong [OF assms(1)]) (simp_all add: es_clear_cache_def)
  then obtain s' where "es_neighbors src dir (es_clear_cache s) =
      Some (Inr (map fst (disk_edges (es_clear_cache s) m (src, dir))), s')"
    by (rule es_neighbors_correct [OF _ assms(2)]) (simp add: es_clear_cache_def)
  moreover have "disk_edges (es_clear_cache s) m (src, dir) = disk_edges s m (src, dir)"
    by (rule disk_edges_btree) (simp add: es_clear_cache_def)
  ultimately show ?thesis by (simp add: cold_neighbors_def)
qed

subsection \<open>A batch of edges\<close>

fun insert_edges ::
  "(i64 \<times> bytes option) list \<Rightarrow> i64 \<Rightarrow> direction \<Rightarrow> edge_store \<Rightarrow> (unit result \<times> edge_store) option" where
  "insert_edges [] src dir s = Some (Inr (), s)"
| "insert_edges ((dst, t) # es) src dir s =
     (case insert_edge src dst dir t s of
        None \<Rightarrow> None
      | Some (Inl e, s') \<Rightarrow> Some (Inl e, s')
      | Some (Inr _, s') \<Rightarrow> insert_edges es src dir s')"

text \<open>The space a list of edges takes in its page.\<close>

definition edges_size :: "(i64 \<times> bytes option) list \<Rightarrow> nat" where
  "edges_size es = 19 + sum_list (map (\<lambda>(dst, t). 14 + (case t of None \<Rightarrow> 0 | Some t \<Rightarrow> 1 + length t)) es)"

lemma length_added_edges:
  "length (concat (map edge_metadata (cl_edges (cluster_add_edges es c)))) + 10 * length (cl_edges (cluster_add_edges es c)) + 19 =
   length (concat (map edge_metadata (cl_edges c))) + 10 * length (cl_edges c) + edges_size es"
proof (induction es c rule: cluster_add_edges.induct)
  case (2 dst t es c)
  then show ?case
    by (cases t) (simp_all add: edges_size_def cluster_add_edge_def compact_edge_new_def byte_simps)
qed (simp add: edges_size_def)

lemma length_cluster_bytes:
  assumes "cl_format_version c = 3"
  shows "length (cluster_bytes c) \<le>
    length (concat (map edge_metadata (cl_edges c))) + 10 * length (cl_edges c) + 19"
  using assms length_compress_bounds(2) [of "map neighbor_id (cl_edges c)"]
  by (simp add: cluster_bytes_def cluster_body_def Let_def byte_simps)

lemma length_batch: "length (cluster_bytes (cluster_add_edges es (cluster_new src dir p))) \<le> edges_size es"
proof -
  have "cl_format_version (cluster_add_edges es (cluster_new src dir p)) = 3" by (simp add: cluster_new_def)
  from length_cluster_bytes [OF this] length_added_edges [of es "cluster_new src dir p"] show ?thesis
    by (simp add: cluster_new_def)
qed

lemma cluster_add_edges_append:
  "cluster_add_edges (es @ [(d, t)]) c = cluster_add_edge d t (cluster_add_edges es c)"
  by (induction es c rule: cluster_add_edges.induct) simp_all

definition batched :: "edge_slot \<Rightarrow> (i64 \<times> bytes option) list \<Rightarrow> edge_store \<Rightarrow> edge_store \<Rightarrow> bool" where
  "batched k es s s' \<longleftrightarrow>
     (\<exists>c. map_of (es_dirty s') k =
          (if es = [] then map_of (es_dirty s) k else Some (cluster_add_edges es c)) \<and>
        (map_of (es_dirty s) k = Some c \<or>
         map_of (es_dirty s) k = None \<and> c = cluster_new (fst k) (snd k) (cl_page_id c))) \<and>
     (\<forall>k'. k' \<noteq> k \<longrightarrow> map_of (es_dirty s') k' = map_of (es_dirty s) k')"

lemma batched_Nil: "batched k [] s s"
proof (cases "map_of (es_dirty s) k")
  case None
  then show ?thesis
    unfolding batched_def by (intro conjI exI [of _ "cluster_new (fst k) (snd k) 0"]) (simp_all add: cluster_new_def)
qed (simp add: batched_def)

lemma batched_Cons:
  assumes "added k (d, t) s s1" "batched k es s1 s2"
  shows "batched k ((d, t) # es) s s2"
proof -
  from assms(1) obtain c where c: "map_of (es_dirty s1) k = Some (cluster_add_edge d t c)"
    "map_of (es_dirty s) k = Some c \<or>
     map_of (es_dirty s) k = None \<and> c = cluster_new (fst k) (snd k) (cl_page_id c)"
    and o1: "\<And>k'. k' \<noteq> k \<Longrightarrow> map_of (es_dirty s1) k' = map_of (es_dirty s) k'"
    unfolding added_def fst_conv snd_conv by blast
  from assms(2) c(1) have "map_of (es_dirty s2) k = Some (cluster_add_edges es (cluster_add_edge d t c))"
    and o2: "\<And>k'. k' \<noteq> k \<Longrightarrow> map_of (es_dirty s2) k' = map_of (es_dirty s1) k'"
    by (auto simp: batched_def split: if_splits)
  then have "map_of (es_dirty s2) k = Some (cluster_add_edges ((d, t) # es) c)" by simp
  with c(2) o1 o2 show ?thesis unfolding batched_def by (metis list.distinct(1))
qed

lemma insert_edges_correct:
  assumes "es_inv X m s" "in_domain (src, dir)" "\<forall>e \<in> set es. storable_edge e"
    and "bm_room (length es + n) (es_btree s)"
  shows "\<exists>s' X'. insert_edges es src dir s = Some (Inr (), s') \<and> X \<subseteq> X' \<and> es_inv X' m s' \<and>
    batched (src, dir) es s s' \<and> same_disk m s s' \<and> bm_room n (es_btree s') \<and>
    dirty_edges s' = (dirty_edges s)((src, dir) := dirty_edges s (src, dir) @ es)"
  using assms
proof (induction es arbitrary: X s)
  case Nil
  then show ?case by (auto simp: batched_Nil same_disk_def)
next
  case (Cons e es)
  obtain d t where e: "e = (d, t)" by fastforce
  have "bm_room (Suc (length es + n)) (es_btree s)" using Cons.prems(4) by simp
  then obtain s1 X1 where s1: "insert_edge src d dir t s = Some (Inr (), s1)" "X \<subseteq> X1" "es_inv X1 m s1"
    "added (src, dir) (d, t) s s1" "same_disk m s s1" "bm_room (length es + n) (es_btree s1)"
    "dirty_edges s1 = (dirty_edges s)((src, dir) := dirty_edges s (src, dir) @ [(d, t)])"
    using insert_edge_correct [OF Cons.prems(1,2)] Cons.prems(3) e by (metis list.set_intros(1))
  have "\<forall>e \<in> set es. storable_edge e" using Cons.prems(3) by simp
  from Cons.IH [OF s1(3) Cons.prems(2) this s1(6)] obtain s2 X2 where s2:
    "insert_edges es src dir s1 = Some (Inr (), s2)" "X1 \<subseteq> X2" "es_inv X2 m s2" "batched (src, dir) es s1 s2"
    "same_disk m s1 s2" "bm_room n (es_btree s2)"
    "dirty_edges s2 = (dirty_edges s1)((src, dir) := dirty_edges s1 (src, dir) @ es)" by blast
  have "same_disk m s s2" using s1(5) s2(5) by (simp add: same_disk_def)
  moreover have "dirty_edges s2 = (dirty_edges s)((src, dir) := dirty_edges s (src, dir) @ e # es)"
    using s1(7) s2(7) e by simp
  moreover have "insert_edges (e # es) src dir s = Some (Inr (), s2)" using s1(1) s2(1) e by simp
  ultimately show ?case using s1(2) s2(2,3,6) batched_Cons [OF s1(4) s2(4)] e by blast
qed

text \<open>A batch inserted with nothing pending, then flushed.\<close>

lemma batch_flushed:
  assumes inv: "es_inv X m s" and clean: "es_dirty s = []" and dom: "in_domain (src, dir)"
    and es: "\<forall>e \<in> set es. storable_edge e" "es \<noteq> []" "edges_size es \<le> 4096"
    and order: "listing order" and room: "bm_room (n + 11 + length es) (es_btree s)"
  shows "\<exists>s1 s2 X' m'. insert_edges es src dir s = Some (Inr (), s1) \<and> es_flush order s1 = Some (Inr (), s2) \<and>
    X \<subseteq> X' \<and> es_inv X' m' s2 \<and> es_dirty s2 = [] \<and> bm_room n (es_btree s2) \<and>
    (\<forall>k. in_domain k \<longrightarrow> disk_edges s2 m' k = (if k = (src, dir) then es else disk_edges s m k))"
proof -
  have "bm_room (length es + (n + 11)) (es_btree s)" using room by (simp add: ac_simps)
  from insert_edges_correct [OF inv dom es(1) this] obtain s1 X1 where s1:
    "insert_edges es src dir s = Some (Inr (), s1)" "X \<subseteq> X1" "es_inv X1 m s1" "batched (src, dir) es s s1"
    "same_disk m s s1" "bm_room (n + 11) (es_btree s1)"
    "dirty_edges s1 = (dirty_edges s)((src, dir) := dirty_edges s (src, dir) @ es)" by blast
  from s1(4) obtain c where
    c: "map_of (es_dirty s1) (src, dir) = Some (cluster_add_edges es c)" "c = cluster_new src dir (cl_page_id c)"
    and others: "\<And>k. k \<noteq> (src, dir) \<Longrightarrow> map_of (es_dirty s1) k = None"
    using clean es(2) unfolding batched_def by (simp del: split_paired_All) blast
  then obtain p where
    entry: "map_of (es_dirty s1) (src, dir) = Some (cluster_add_edges es (cluster_new src dir p))" by metis
  have fits: "length (cluster_bytes c) \<le> 4096" if "map_of (es_dirty s1) k = Some c" for k c
  proof (cases "k = (src, dir)")
    case True
    then show ?thesis using that entry le_trans [OF length_batch es(3), of src dir p] by simp
  next
    case False
    with that others [of k] show ?thesis by simp
  qed
  have "dom (map_of (es_dirty s1)) = {(src, dir)}"
  proof (rule set_eqI)
    show "k \<in> dom (map_of (es_dirty s1)) \<longleftrightarrow> k \<in> {(src, dir)}" for k
      using entry others [of k] by (cases "k = (src, dir)") (simp_all add: domIff)
  qed
  then have len: "length (es_dirty s1) = 1"
    using distinct_card [OF es_invD(2) [OF s1(3)]] by (simp add: dom_map_of_conv_image_fst)
  have room1: "bm_room (n + 11 * length (es_dirty s1)) (es_btree s1)" using s1(6) len by simp
  have "\<forall>k c. map_of (es_dirty s1) k = Some c \<longrightarrow> length (cluster_bytes c) \<le> 4096" using fits by blast
  from es_flush_correct [OF s1(3) order this room1] obtain s2 m' where s2:
    "es_flush order s1 = Some (Inr (), s2)" "es_inv X1 m' s2" "es_dirty s2 = []" "bm_room n (es_btree s2)"
    "\<And>k. in_domain k \<Longrightarrow> disk_edges s2 m' k =
       (if map_of (es_dirty s1) k = None then disk_edges s1 m k else dirty_edges s1 k)" by blast
  have "disk_edges s2 m' k = (if k = (src, dir) then es else disk_edges s m k)" if "in_domain k" for k
  proof (cases "k = (src, dir)")
    case True
    have "dirty_edges s k = []" using clean by (simp add: dirty_edges_def)
    then show ?thesis using s2(5) [OF that] entry s1(7) True by simp
  next
    case False
    then show ?thesis using s2(5) [OF that] others [OF False] s1(5) [unfolded same_disk_def, THEN spec, THEN mp, OF that] by simp
  qed
  with s1(1,2) s2(1-4) show ?thesis by blast
qed

subsection \<open>Restarting\<close>

lemma byte_sum_append: "byte_sum (xs @ ys) = foldl (\<lambda>acc b. acc + ucast b) (byte_sum xs) ys"
  by (simp add: byte_sum_def)

lemma recover_persisted:
  assumes "es_has_path s" "es_has_path s'" "es_meta s' = es_meta (persist_btree_metadata s)"
  shows "recover_btree_metadata s' = Some (bm_root_page_id (es_btree s), bm_tree_height (es_btree s))"
proof -
  let ?r = "bm_root_page_id (es_btree s)" and ?h = "bm_tree_height (es_btree s)"
  let ?d = "EDGE_META_MAGIC @ to_le ?r @ to_le ?h"
  have len: "length EDGE_META_MAGIC = 8" by (simp add: EDGE_META_MAGIC_def)
  have "slice (?d @ to_le (byte_sum ?d)) 0 8 = EDGE_META_MAGIC"
    "slice (?d @ to_le (byte_sum ?d)) 8 8 = to_le ?r" "slice (?d @ to_le (byte_sum ?d)) 16 4 = to_le ?h"
    "slice (?d @ to_le (byte_sum ?d)) 20 4 = to_le (byte_sum ?d)" "take 20 (?d @ to_le (byte_sum ?d)) = ?d"
    using len by (simp_all add: slice_def byte_simps)
  then show ?thesis
    using assms len by (simp add: recover_btree_metadata_def persist_btree_metadata_def Let_def byte_simps)
qed

subsection \<open>Properties\<close>

definition empty_store :: edge_store where
  "empty_store = edge_store_with_path empty_manager None 4096 None"

lemma es_inv_empty_store: "es_inv {} (\<lambda>_. None) empty_store"
proof -
  have "bm_coordinator empty_manager = None" by (simp add: empty_manager_def btree_new_def)
  then show ?thesis
    using btree_map_empty_manager
    by (simp add: es_inv_def es_ready_def owns_def slot_page_def empty_store_def edge_store_with_path_def)
qed

lemma empty_store_fields: "es_btree empty_store = empty_manager" "es_dirty empty_store = []"
  by (simp_all add: empty_store_def edge_store_with_path_def)

lemma listing_id: "listing id" "listing rev"
  by (simp_all add: listing_def)

text \<open>
  Node ids of at most 62 bits have their own key in the index, for each direction: neither two
  nodes nor the two directions of a node share a cluster page.
\<close>

theorem edge_key_injective:
  assumes "- (2 ^ 61) \<le> sint a" "sint a < 2 ^ 61" "- (2 ^ 61) \<le> sint b" "sint b < 2 ^ 61"
    and "edge_key a d = edge_key b e"
  shows "a = b \<and> d = e"
  using slot_key_inj [of "(a, d)" "(b, e)"] assms by (simp add: in_domain_def slot_key_def)

lemma edge_key_injective_witness:
  "edge_key (- 3) Incoming = edge_key (- 3) Incoming \<and> (- 3 :: i64) = - 3 \<and> Incoming = Incoming"
  using edge_key_injective [of "- 3" "- 3" Incoming Incoming] by simp

text \<open>Beyond that range two nodes collide.\<close>

theorem edge_key_collision: "edge_key (2 ^ 61) d = edge_key 0 d"
proof (rule bit_word_eqI)
  fix n assume n: "n < LENGTH(64)"
  have high: "bit (2 ^ 61 :: i64) i \<longleftrightarrow> i = 61" for i by (simp only: bit_exp_iff) auto
  have "bit (zigzag_encode (2 ^ 61)) n \<longleftrightarrow> (0 < n \<and> bit (2 ^ 61 :: i64) (n - 1)) \<noteq> bit (2 ^ 61 :: i64) 63"
    by (rule bit_zigzag_encode) (use n in simp)
  also have "\<dots> \<longleftrightarrow> (0 < n \<and> n - 1 = 61) \<noteq> (63 = (61 :: nat))" by (simp only: high)
  also have "\<dots> \<longleftrightarrow> n = 62" by auto
  finally have "bit (zigzag_encode (2 ^ 61)) n = (n = 62)" .
  moreover have "\<not> bit (zigzag_encode 0) n" by (simp add: zigzag_encode_def)
  ultimately show "bit (edge_key (2 ^ 61) d) n = bit (edge_key 0 d) n"
    using n by (simp add: bit_edge_key)
qed

text \<open>
  Inserting an edge succeeds, keeps the invariant, appends the edge with its type to what its slot
  has waiting, and touches neither the other slots nor the disk, whether the slot has a page or gets a
  new one.
\<close>

theorem insert_edge_refines:
  assumes "es_inv X m s" "in_domain (src, dir)" "storable_edge (dst, t)" "bm_room 1 (es_btree s)"
  shows "\<exists>s' X'. insert_edge src dst dir t s = Some (Inr (), s') \<and> X \<subseteq> X' \<and> es_inv X' m s' \<and>
    dirty_edges s' = (dirty_edges s)((src, dir) := dirty_edges s (src, dir) @ [(dst, t)]) \<and>
    (\<forall>k. in_domain k \<longrightarrow> disk_edges s' m k = disk_edges s m k)"
proof -
  have "bm_room (Suc 0) (es_btree s)" using assms(4) by simp
  from insert_edge_correct [OF assms(1-3) this] show ?thesis unfolding same_disk_def by metis
qed

lemma insert_edge_refines_witness:
  "\<exists>s' X'. insert_edge 5 7 Outgoing (Some [97]) empty_store = Some (Inr (), s') \<and> {} \<subseteq> X' \<and>
     es_inv X' (\<lambda>_. None) s' \<and>
     dirty_edges s' = (dirty_edges empty_store)((5, Outgoing) := dirty_edges empty_store (5, Outgoing) @ [(7, Some [97])])"
proof -
  have "storable_edge (7, Some [97])" by (simp add: storable_edge_def utf8_valid_ascii)
  moreover have "bm_room 1 (es_btree empty_store)" using bm_room_empty_manager [of 1] by (simp add: empty_store_fields)
  moreover have "in_domain (5, Outgoing)" by (simp add: in_domain_def)
  ultimately show ?thesis using insert_edge_refines [OF es_inv_empty_store] by blast
qed



text \<open>
  C32. Edges inserted in one batch with nothing pending survive a flush: when the caches are dropped,
  the neighbours of the slot are the ones inserted, in order, and every other slot keeps its edges.
\<close>

theorem batch_read_back:
  assumes "es_inv X m s" "es_dirty s = []" "in_domain (src, dir)"
    and "\<forall>e \<in> set es. storable_edge e" "es \<noteq> []" "edges_size es \<le> 4096"
    and "listing order" "bm_room (11 + length es) (es_btree s)"
  shows "\<exists>s1 s2 X' m'. insert_edges es src dir s = Some (Inr (), s1) \<and> es_flush order s1 = Some (Inr (), s2) \<and>
    es_inv X' m' s2 \<and> cold_neighbors src dir s2 = Some (Inr (map fst es)) \<and>
    (\<forall>a d. in_domain (a, d) \<and> (a, d) \<noteq> (src, dir) \<longrightarrow> cold_neighbors a d s2 = cold_neighbors a d s)"
proof -
  have "bm_room (0 + 11 + length es) (es_btree s)" using assms(8) by simp
  from batch_flushed [OF assms(1-7) this] obtain s1 s2 X' m' where s:
    "insert_edges es src dir s = Some (Inr (), s1)" "es_flush order s1 = Some (Inr (), s2)" "es_inv X' m' s2"
    "\<And>k. in_domain k \<Longrightarrow> disk_edges s2 m' k = (if k = (src, dir) then es else disk_edges s m k)" by blast
  moreover have "cold_neighbors a d s2 = cold_neighbors a d s" if "in_domain (a, d)" "(a, d) \<noteq> (src, dir)" for a d
    using cold_neighbors_eq [OF s(3) that(1)] cold_neighbors_eq [OF assms(1) that(1)] s(4) [OF that(1)] that(2)
    by auto
  ultimately show ?thesis using cold_neighbors_eq [OF s(3) assms(3)] assms(3) by auto
qed

lemma batch_read_back_witness:
  "\<exists>s1 s2. insert_edges [(7, Some [97]), (9, None)] 5 Outgoing empty_store = Some (Inr (), s1) \<and>
     es_flush id s1 = Some (Inr (), s2) \<and> cold_neighbors 5 Outgoing s2 = Some (Inr [7, 9])"
proof -
  let ?es = "[(7, Some [97]), (9, None)] :: (i64 \<times> bytes option) list"
  have "\<forall>e \<in> set ?es. storable_edge e" by (simp add: storable_edge_def utf8_valid_ascii)
  moreover have "bm_room (11 + length ?es) (es_btree empty_store)"
    using bm_room_empty_manager by (simp add: empty_store_fields)
  ultimately show ?thesis
    using batch_read_back [OF es_inv_empty_store empty_store_fields(2), of 5 Outgoing ?es id]
    by (auto simp: in_domain_def edges_size_def listing_id)
qed

text \<open>
  A second batch for the same slot replaces the first: after both were flushed, the disk holds
  only the neighbours of the second.
\<close>

theorem second_batch_replaces_first:
  assumes "es_inv X m s" "es_dirty s = []" "in_domain (src, dir)"
    and "\<forall>e \<in> set (es1 @ es2). storable_edge e" "es1 \<noteq> []" "es2 \<noteq> []" "edges_size es1 \<le> 4096" "edges_size es2 \<le> 4096"
    and "listing order" "bm_room (22 + length es1 + length es2) (es_btree s)"
  shows "\<exists>s1 s2 s3 s4. insert_edges es1 src dir s = Some (Inr (), s1) \<and> es_flush order s1 = Some (Inr (), s2) \<and>
    insert_edges es2 src dir s2 = Some (Inr (), s3) \<and> es_flush order s3 = Some (Inr (), s4) \<and>
    cold_neighbors src dir s2 = Some (Inr (map fst es1)) \<and> cold_neighbors src dir s4 = Some (Inr (map fst es2))"
proof -
  have e: "\<forall>e \<in> set es1. storable_edge e" "\<forall>e \<in> set es2. storable_edge e" using assms(4) by auto
  have "bm_room ((11 + length es2) + 11 + length es1) (es_btree s)" using assms(10) by (simp add: ac_simps)
  from batch_flushed [OF assms(1-3) e(1) assms(5,7,9) this] obtain s1 s2 X' m' where a:
    "insert_edges es1 src dir s = Some (Inr (), s1)" "es_flush order s1 = Some (Inr (), s2)" "es_inv X' m' s2"
    "es_dirty s2 = []" "bm_room (11 + length es2) (es_btree s2)"
    "\<And>k. in_domain k \<Longrightarrow> disk_edges s2 m' k = (if k = (src, dir) then es1 else disk_edges s m k)" by blast
  have "bm_room (0 + 11 + length es2) (es_btree s2)" using a(5) by simp
  from batch_flushed [OF a(3,4) assms(3) e(2) assms(6,8,9) this] obtain s3 s4 Y n where b:
    "insert_edges es2 src dir s2 = Some (Inr (), s3)" "es_flush order s3 = Some (Inr (), s4)" "es_inv Y n s4"
    "\<And>k. in_domain k \<Longrightarrow> disk_edges s4 n k = (if k = (src, dir) then es2 else disk_edges s2 m' k)" by blast
  show ?thesis
    using a b cold_neighbors_eq [OF a(3) assms(3)] cold_neighbors_eq [OF b(3) assms(3)] assms(3) by auto
qed

lemma second_batch_replaces_first_witness:
  "\<exists>s1 s2 s3 s4. insert_edges [(7, None)] 5 Outgoing empty_store = Some (Inr (), s1) \<and>
     es_flush id s1 = Some (Inr (), s2) \<and> insert_edges [(9, None)] 5 Outgoing s2 = Some (Inr (), s3) \<and>
     es_flush id s3 = Some (Inr (), s4) \<and> cold_neighbors 5 Outgoing s2 = Some (Inr [7]) \<and>
     cold_neighbors 5 Outgoing s4 = Some (Inr [9])"
proof -
  have "\<forall>e \<in> set ([(7, None)] @ [(9, None)] :: (i64 \<times> bytes option) list). storable_edge e"
    by (simp add: storable_edge_def)
  moreover have "bm_room (22 + length [(7 :: i64, None :: bytes option)] + length [(9 :: i64, None :: bytes option)])
      (es_btree empty_store)"
    using bm_room_empty_manager by (simp add: empty_store_fields)
  ultimately show ?thesis
    using second_batch_replaces_first [OF es_inv_empty_store empty_store_fields(2), of 5 Outgoing "[(7, None)]" "[(9, None)]" id]
    by (auto simp: in_domain_def edges_size_def listing_id)
qed

text \<open>
  A store made anew over the file and the allocator of another one, and restored from the metadata file
  that the other one persists.
\<close>

definition restarted :: "(u64 list \<Rightarrow> u64) \<Rightarrow> edge_wal_call list option \<Rightarrow> edge_store \<Rightarrow> bool \<times> edge_store" where
  "restarted first wal s =
     (let bt = es_btree s
      in restore_btree_from_metadata
           (edge_store_with_path (btree_new (bm_allocator bt) (bm_wal bt) (bm_db bt) first) wal (es_page_size s)
              (es_meta (persist_btree_metadata s))))"

lemma restarted_eq:
  assumes "es_has_path s"
  shows "restarted first wal s = (True, (edge_store_with_path (btree_with_root (bm_allocator (es_btree s))
    (bm_wal (es_btree s)) (bm_root_page_id (es_btree s)) (bm_tree_height (es_btree s)) (bm_db (es_btree s)) first)
    wal (es_page_size s) (es_meta (persist_btree_metadata s))))"
proof -
  let ?f = "edge_store_with_path (btree_new (bm_allocator (es_btree s)) (bm_wal (es_btree s)) (bm_db (es_btree s)) first)
    wal (es_page_size s) (es_meta (persist_btree_metadata s))"
  have "recover_btree_metadata ?f = Some (bm_root_page_id (es_btree s), bm_tree_height (es_btree s))"
    by (rule recover_persisted [OF assms]) (simp_all add: edge_store_with_path_def)
  then show ?thesis
    by (simp add: restarted_def restore_btree_from_metadata_def edge_store_with_path_def btree_new_def
        btree_with_root_def btree_with_root_and_cache_def Let_def)
qed



text \<open>
  The neighbours on disk disappear behind the cache: when a slot is not cached, inserting an edge makes
  that edge its only neighbour for the queries that follow, whatever the disk holds.
\<close>

theorem insert_hides_disk_edges:
  assumes "es_inv X m s" "in_domain (src, dir)" "storable_edge (dst, t)" "bm_room 1 (es_btree s)"
    and "es_cache s (src, dir) = None"
  shows "\<exists>s'. insert_edge src dst dir t s = Some (Inr (), s') \<and>
    map_option fst (es_neighbors src dir s') = Some (Inr [dst])"
proof -
  have "bm_room (Suc 0) (es_btree s)" using assms(4) by simp
  from insert_edge_correct [OF assms(1-3) this] obtain s' where s': "insert_edge src dst dir t s = Some (Inr (), s')"
    "es_cache s' = es_cache (cache_edge (src, dir) dst s)" by metis
  then have "es_cache s' (src, dir) = Some [dst]" using assms(5) by (simp add: cache_edge_def)
  with s'(1) show ?thesis by (simp add: es_neighbors_def)
qed

lemma insert_hides_disk_edges_witness:
  "\<exists>s'. insert_edge 5 7 Outgoing None empty_store = Some (Inr (), s') \<and>
     map_option fst (es_neighbors 5 Outgoing s') = Some (Inr [7])"
proof -
  have "bm_room 1 (es_btree empty_store)" using bm_room_empty_manager [of 1] by (simp add: empty_store_fields)
  then show ?thesis
    by (intro insert_hides_disk_edges [OF es_inv_empty_store])
      (simp_all add: storable_edge_def in_domain_def empty_store_def edge_store_with_path_def)
qed

end
