(* ===== verification/Traversal.thy ===== *)
theory Traversal
  imports Prelude
begin

text \<open>
  Breadth first traversal of a finite graph given by its successor lists, as the searches of the
  library run it: nodes wait in a queue with their depth, a set holds the nodes seen, and the new
  successors of a node join the end of the queue. The traversal visits the nodes level by level; the
  levels are the nodes at each distance from the start.
\<close>

subsection \<open>New successors\<close>

fun fresh :: "'a list \<Rightarrow> 'a set \<Rightarrow> 'a list" where
  "fresh [] A = []"
| "fresh (x # xs) A = (if x \<in> A then fresh xs A else x # fresh xs (insert x A))"

lemma set_fresh [simp]: "set (fresh xs A) = set xs - A"
  by (induction xs A rule: fresh.induct) auto

lemma distinct_fresh [simp]: "distinct (fresh xs A)"
  by (induction xs A rule: fresh.induct) auto

lemma fresh_append: "fresh (xs @ ys) A = fresh xs A @ fresh ys (A \<union> set xs)"
  by (induction xs A rule: fresh.induct) (auto simp: insert_absorb)

lemma fresh_id: "distinct xs \<Longrightarrow> set xs \<inter> A = {} \<Longrightarrow> fresh xs A = xs"
  by (induction xs A rule: fresh.induct) auto

lemma fresh_subset: "set xs \<subseteq> A \<Longrightarrow> fresh xs A = []"
  by (induction xs A rule: fresh.induct) auto

lemma fresh_cong: "\<forall>x \<in> set xs. x \<in> A \<longleftrightarrow> x \<in> B \<Longrightarrow> fresh xs A = fresh xs B"
proof (induction xs A arbitrary: B rule: fresh.induct)
  case (2 x xs A)
  show ?case
  proof (cases "x \<in> A")
    case True
    then show ?thesis using 2(1) [OF True, of B] 2(3) by simp
  next
    case False
    then show ?thesis using 2(2) [OF False, of "insert x B"] 2(3) by simp
  qed
qed simp

subsection \<open>The traversal\<close>

text \<open>A node at depth \<open>d\<close> is expanded unless the bound \<open>m\<close> stops it.\<close>

definition stops :: "nat option \<Rightarrow> nat \<Rightarrow> bool" where
  "stops m d = (case m of None \<Rightarrow> False | Some k \<Rightarrow> k \<le> d)"

function traverse :: "('a::finite \<Rightarrow> 'a list) \<Rightarrow> nat option \<Rightarrow> ('a \<times> nat) list \<Rightarrow> 'a set \<Rightarrow> ('a \<times> nat) list" where
  "traverse succ m [] A = []"
| "traverse succ m ((v, d) # q) A =
     (v, d) # (if stops m d then traverse succ m q A
               else traverse succ m (q @ map (\<lambda>w. (w, Suc d)) (fresh (succ v) A)) (A \<union> set (succ v)))"
  by pat_completeness auto

definition search_measure :: "('a::finite set \<times> 'b list) \<Rightarrow> nat" where
  "search_measure = (\<lambda>(A, q). 2 * card (UNIV - A) + length q)"

lemma card_compl_fresh: "card (UNIV - A) = card (UNIV - (A \<union> set xs)) + length (fresh xs A)"
  for A :: "'a::finite set"
proof -
  have "UNIV - A = (UNIV - (A \<union> set xs)) \<union> set (fresh xs A)" by auto
  moreover have "card ((UNIV - (A \<union> set xs)) \<union> set (fresh xs A)) =
      card (UNIV - (A \<union> set xs)) + card (set (fresh xs A))"
    by (rule card_Un_disjoint) auto
  moreover have "card (set (fresh xs A)) = length (fresh xs A)" by (rule distinct_card) simp
  ultimately show ?thesis by (simp only:)
qed

lemma search_measure_step [simp]:
  "search_measure (A \<union> set xs, q @ map f (fresh xs A)) < search_measure (A, x # q)"
  "search_measure (A, q) < search_measure (A, x # q)"
  using card_compl_fresh [of A xs] by (simp_all add: search_measure_def)

termination traverse
  by (relation "measure (\<lambda>(succ, m, q, A). search_measure (A, q))")
    (auto simp del: Un_insert_right)

subsection \<open>Levels\<close>

text \<open>\<open>ball succ S k\<close> is the nodes within \<open>k\<close> steps of \<open>S\<close>, \<open>layer succ S k\<close> those at distance \<open>k\<close>.\<close>

primrec ball :: "('a \<Rightarrow> 'a list) \<Rightarrow> 'a set \<Rightarrow> nat \<Rightarrow> 'a set" where
  "ball succ S 0 = S"
| "ball succ S (Suc k) = ball succ S k \<union> (\<Union>v \<in> ball succ S k. set (succ v))"

primrec layer :: "('a \<Rightarrow> 'a list) \<Rightarrow> 'a set \<Rightarrow> nat \<Rightarrow> 'a set" where
  "layer succ S 0 = S"
| "layer succ S (Suc k) = ball succ S (Suc k) - ball succ S k"

definition edges_of :: "('a \<Rightarrow> 'a list) \<Rightarrow> ('a \<times> 'a) set" where
  "edges_of succ = {(u, v). v \<in> set (succ u)}"

lemma ball_mono: "j \<le> k \<Longrightarrow> ball succ S j \<subseteq> ball succ S k"
  by (induction k) (auto simp: le_Suc_eq)

lemma level_subset_ball: "layer succ S k \<subseteq> ball succ S k"
  by (cases k) auto

lemma ball_levels: "ball succ S k = (\<Union>j \<in> {0..k}. layer succ S j)"
proof (induction k)
  case (Suc k)
  have "ball succ S (Suc k) = ball succ S k \<union> layer succ S (Suc k)" by auto
  then show ?case using Suc.IH by (simp only: atLeast0_atMost_Suc) auto
qed simp

lemma level_disjoint: "j < k \<Longrightarrow> layer succ S k \<inter> ball succ S j = {}"
  using ball_mono [of j "k - 1" succ S] by (cases k) auto

lemma ball_Suc_level: "ball succ S (Suc k) = ball succ S k \<union> (\<Union>v \<in> layer succ S k. set (succ v))"
proof (induction k)
  case (Suc k)
  have "ball succ S (Suc (Suc k)) = ball succ S (Suc k) \<union>
      (\<Union>v \<in> ball succ S k. set (succ v)) \<union> (\<Union>v \<in> layer succ S (Suc k). set (succ v))"
    by auto
  also have "(\<Union>v \<in> ball succ S k. set (succ v)) \<subseteq> ball succ S (Suc k)" by auto
  ultimately show ?case by blast
qed simp

lemma ball_relpow: "v \<in> ball succ S k \<longleftrightarrow> (\<exists>s \<in> S. \<exists>j \<le> k. (s, v) \<in> edges_of succ ^^ j)"
proof (induction k arbitrary: v)
  case (Suc k)
  show ?case
  proof
    assume "v \<in> ball succ S (Suc k)"
    then consider "v \<in> ball succ S k" | u where "u \<in> ball succ S k" "(u, v) \<in> edges_of succ"
      by (auto simp: edges_of_def)
    then show "\<exists>s \<in> S. \<exists>j \<le> Suc k. (s, v) \<in> edges_of succ ^^ j"
    proof cases
      case 1
      then show ?thesis using Suc.IH le_SucI by meson
    next
      case (2 u)
      then show ?thesis using Suc.IH [of u] relpow_Suc_I Suc_le_mono by meson
    qed
  next
    assume "\<exists>s \<in> S. \<exists>j \<le> Suc k. (s, v) \<in> edges_of succ ^^ j"
    then obtain s j where s: "s \<in> S" "j \<le> Suc k" "(s, v) \<in> edges_of succ ^^ j" by blast
    show "v \<in> ball succ S (Suc k)"
    proof (cases j)
      case 0
      then have "v \<in> ball succ S 0" using s by simp
      then show ?thesis using ball_mono [of 0 "Suc k" succ S] by blast
    next
      case (Suc i)
      then obtain u where "(s, u) \<in> edges_of succ ^^ i" "(u, v) \<in> edges_of succ" using s(3) by auto
      then have "u \<in> ball succ S k" "v \<in> set (succ u)"
        using Suc.IH s(1,2) Suc by (auto simp: edges_of_def)
      then show ?thesis by auto
    qed
  qed
qed auto

lemma level_distance:
  "v \<in> layer succ {s} k \<longleftrightarrow> (s, v) \<in> edges_of succ ^^ k \<and> (\<forall>j < k. (s, v) \<notin> edges_of succ ^^ j)"
proof (cases k)
  case (Suc i)
  have "v \<in> layer succ {s} k \<longleftrightarrow> v \<in> ball succ {s} (Suc i) \<and> v \<notin> ball succ {s} i"
    using Suc by (simp only: layer.simps) blast
  also have "\<dots> \<longleftrightarrow> (\<exists>j \<le> Suc i. (s, v) \<in> edges_of succ ^^ j) \<and> (\<forall>j \<le> i. (s, v) \<notin> edges_of succ ^^ j)"
    unfolding ball_relpow by blast
  also have "\<dots> \<longleftrightarrow> (s, v) \<in> edges_of succ ^^ k \<and> (\<forall>j < k. (s, v) \<notin> edges_of succ ^^ j)"
    unfolding Suc less_Suc_eq_le by (metis le_Suc_eq order_refl)
  finally show ?thesis .
qed auto

subsection \<open>The order of the visits\<close>

text \<open>The list of each level in the order the queue holds it, with the nodes seen when it starts.\<close>

primrec level_list :: "('a \<Rightarrow> 'a list) \<Rightarrow> 'a list \<Rightarrow> nat \<Rightarrow> 'a list" where
  "level_list succ L 0 = L"
| "level_list succ L (Suc k) = fresh (concat (map succ (level_list succ L k))) (ball succ (set L) k)"

lemma set_level_list: "set (level_list succ L k) = layer succ (set L) k"
proof (cases k)
  case (Suc j)
  have *: "set (level_list succ L j) = layer succ (set L) j \<Longrightarrow>
    set (level_list succ L (Suc j)) = layer succ (set L) (Suc j)" for j
    using ball_Suc_level [of succ "set L" j] by auto
  show ?thesis by (induction k) (simp, rule *)
qed simp

lemma distinct_level_list: "distinct L \<Longrightarrow> distinct (level_list succ L k)"
  by (cases k) simp_all

lemma ball_Suc_list: "ball succ (set L) (Suc k) = ball succ (set L) k \<union> set (concat (map succ (level_list succ L k)))"
  using ball_Suc_level [of succ "set L" k] by (simp add: set_level_list)

definition at_depth :: "nat \<Rightarrow> 'a list \<Rightarrow> ('a \<times> nat) list" where
  "at_depth d l = map (\<lambda>v. (v, d)) l"

lemma at_depth_simps [simp]:
  "at_depth d [] = []" "at_depth d (v # l) = (v, d) # at_depth d l"
  "at_depth d (l @ l') = at_depth d l @ at_depth d l'"
  "map fst (at_depth d l) = l" "map snd (at_depth d l) = replicate (length l) d"
  "set (at_depth d l) = set l \<times> {d}"
  by (auto simp: at_depth_def comp_def map_replicate_const)

lemma traverse_one_level:
  assumes "\<not> stops m d"
  shows "traverse succ m (at_depth d l @ at_depth (Suc d) n) A =
    at_depth d l @ traverse succ m (at_depth (Suc d) (n @ fresh (concat (map succ l)) A)) (A \<union> set (concat (map succ l)))"
proof (induction l arbitrary: n A)
  case (Cons v l)
  have "traverse succ m (at_depth d (v # l) @ at_depth (Suc d) n) A =
      (v, d) # traverse succ m (at_depth d l @ at_depth (Suc d) (n @ fresh (succ v) A)) (A \<union> set (succ v))"
    using assms by (simp add: at_depth_def [of "Suc d"])
  also have "\<dots> = (v, d) # at_depth d l @ traverse succ m
      (at_depth (Suc d) ((n @ fresh (succ v) A) @ fresh (concat (map succ l)) (A \<union> set (succ v))))
      ((A \<union> set (succ v)) \<union> set (concat (map succ l)))"
    by (simp only: Cons.IH)
  finally show ?case by (simp add: fresh_append Un_assoc)
qed simp

lemma traverse_last_level:
  assumes "stops m d"
  shows "traverse succ m (at_depth d l) A = at_depth d l"
  using assms by (induction l arbitrary: A) simp_all

definition levels_upto :: "('a \<Rightarrow> 'a list) \<Rightarrow> 'a list \<Rightarrow> nat \<Rightarrow> ('a \<times> nat) list" where
  "levels_upto succ L k = concat (map (\<lambda>j. at_depth j (level_list succ L j)) [0..<k])"

lemma traverse_levels:
  assumes "\<forall>j < k. \<not> stops m j"
  shows "traverse succ m (at_depth 0 L) (set L) =
    levels_upto succ L k @ traverse succ m (at_depth k (level_list succ L k)) (ball succ (set L) k)"
  using assms
proof (induction k)
  case (Suc k)
  have "traverse succ m (at_depth k (level_list succ L k)) (ball succ (set L) k) =
      at_depth k (level_list succ L k) @
      traverse succ m (at_depth (Suc k) (level_list succ L (Suc k))) (ball succ (set L) (Suc k))"
    using traverse_one_level [of m k succ "level_list succ L k" "[]" "ball succ (set L) k"] Suc.prems
    by (simp only: ball_Suc_list level_list.simps) simp
  then show ?case using Suc by (simp add: levels_upto_def)
qed (simp add: levels_upto_def)

lemma traverse_bounded: "traverse succ (Some k) (at_depth 0 L) (set L) = levels_upto succ L (Suc k)"
proof -
  have "traverse succ (Some k) (at_depth 0 L) (set L) = levels_upto succ L k @ at_depth k (level_list succ L k)"
    by (subst traverse_levels [of k]) (simp_all add: stops_def traverse_last_level)
  then show ?thesis by (simp add: levels_upto_def)
qed

lemma traverse_unbounded:
  assumes "layer succ (set L) k = {}"
  shows "traverse succ None (at_depth 0 L) (set L) = levels_upto succ L k"
proof -
  have "level_list succ L k = []" using assms set_level_list [of succ L k] by simp
  then show ?thesis by (subst traverse_levels [of k]) (simp_all add: stops_def)
qed

text \<open>A finite graph runs out of levels, and what is within some distance is what can be reached.\<close>

lemma ball_stays:
  assumes "layer succ S k = {}" "k \<le> j"
  shows "ball succ S j = ball succ S k"
  using assms(2)
proof (induction rule: dec_induct)
  case (step j)
  have "layer succ S j = {}"
  proof (cases "j = k")
    case False
    with step(1) have "k < j" by simp
    then show ?thesis using step.IH level_disjoint [of k j succ S] level_subset_ball [of succ S j] by auto
  qed (use assms in simp)
  then show ?case using ball_Suc_level [of succ S j] step.IH by simp
qed simp

lemma card_ball: "(\<forall>j \<le> k. layer succ S j \<noteq> {}) \<Longrightarrow> k < card (ball succ S k)"
  for S :: "'a::finite set"
proof (induction k)
  case 0
  then have "S \<noteq> {}" by auto
  then show ?case by (simp add: card_gt_0_iff)
next
  case (Suc k)
  have "ball succ S k \<subset> ball succ S (Suc k)"
    using Suc.prems ball_mono [of k "Suc k" succ S] by fastforce
  then have "card (ball succ S k) < card (ball succ S (Suc k))" by (intro psubset_card_mono) simp_all
  then show ?case using Suc by fastforce
qed

lemma last_level:
  fixes S :: "'a::finite set"
  obtains k where "layer succ S k = {}" "\<And>j. k \<le> j \<Longrightarrow> layer succ S j = {}"
proof -
  have "\<exists>k. layer succ S k = {}"
  proof (rule ccontr)
    assume "\<nexists>k. layer succ S k = {}"
    then have "card (UNIV :: 'a set) < card (ball succ S (card (UNIV :: 'a set)))" by (intro card_ball) auto
    moreover have "card (ball succ S (card (UNIV :: 'a set))) \<le> card (UNIV :: 'a set)" by (intro card_mono) auto
    ultimately show False by simp
  qed
  then obtain k where k: "layer succ S k = {}" by blast
  have "layer succ S j = {}" if "k \<le> j" for j
  proof (cases "j = k")
    case False
    then show ?thesis
      using ball_stays [OF k that] level_disjoint [of k j succ S] level_subset_ball [of succ S j] that by auto
  qed (use k in simp)
  with k that show thesis by blast
qed

lemma in_ball_level: "(\<exists>k. v \<in> ball succ S k) \<longleftrightarrow> (\<exists>k. v \<in> layer succ S k)"
proof
  assume "\<exists>k. v \<in> ball succ S k"
  then obtain k where "v \<in> ball succ S k" ..
  then show "\<exists>k. v \<in> layer succ S k" using ball_levels [of succ S k] by auto
next
  assume "\<exists>k. v \<in> layer succ S k"
  then obtain k where "v \<in> layer succ S k" ..
  then show "\<exists>k. v \<in> ball succ S k" using level_subset_ball [of succ S k] by auto
qed

lemma reachable_level: "(\<exists>k. v \<in> layer succ S k) \<longleftrightarrow> v \<in> (edges_of succ)\<^sup>* `` S"
  unfolding in_ball_level [symmetric] by (auto simp: ball_relpow rtrancl_is_UN_relpow)

subsection \<open>What a traversal visits\<close>

definition within :: "nat option \<Rightarrow> nat \<Rightarrow> bool" where
  "within m d = (case m of None \<Rightarrow> True | Some k \<Rightarrow> d \<le> k)"

lemma levels_upto_facts:
  assumes "distinct L"
  shows "(v, d) \<in> set (levels_upto succ L k) \<longleftrightarrow> v \<in> layer succ (set L) d \<and> d < k"
    "distinct (map fst (levels_upto succ L k))" "sorted (map snd (levels_upto succ L k))"
    "set (map fst (levels_upto succ L k)) = (\<Union>j < k. layer succ (set L) j)"
proof -
  show mem: "(v, d) \<in> set (levels_upto succ L k) \<longleftrightarrow> v \<in> layer succ (set L) d \<and> d < k" for v d
    by (auto simp: levels_upto_def set_level_list)
  show nodes: "set (map fst (levels_upto succ L k)) = (\<Union>j < k. layer succ (set L) j)" for k
    by (force simp: levels_upto_def set_level_list)
  show "distinct (map fst (levels_upto succ L k))"
  proof (induction k)
    case (Suc k)
    have "layer succ (set L) k \<inter> (\<Union>j < k. layer succ (set L) j) = {}"
      using level_disjoint [of _ k succ "set L"] level_subset_ball [of succ "set L"] by blast
    then show ?case
      using Suc nodes [of k] distinct_level_list [OF assms, of succ k]
      by (auto simp: levels_upto_def set_level_list)
  qed (simp add: levels_upto_def)
  show "sorted (map snd (levels_upto succ L k))"
    by (induction k) (auto simp: levels_upto_def sorted_append)
qed

theorem traverse_correct:
  fixes succ :: "'a::finite \<Rightarrow> 'a list" and m :: "nat option" and L :: "'a list"
  assumes "distinct L"
  defines "T \<equiv> traverse succ m (at_depth 0 L) (set L)"
  shows "(v, d) \<in> set T \<longleftrightarrow> v \<in> layer succ (set L) d \<and> within m d"
    "distinct (map fst T)" "sorted (map snd T)"
proof -
  obtain k where k: "T = levels_upto succ L k" "\<And>d. layer succ (set L) d \<noteq> {} \<Longrightarrow> d < k \<longleftrightarrow> within m d"
  proof (cases m)
    case None
    obtain k where "layer succ (set L) k = {}" "\<And>j. k \<le> j \<Longrightarrow> layer succ (set L) j = {}"
      using last_level by blast
    with that [of k] None show ?thesis by (auto simp: T_def traverse_unbounded within_def not_le [symmetric])
  next
    case (Some n)
    with that [of "Suc n"] show ?thesis by (simp add: T_def traverse_bounded within_def less_Suc_eq_le)
  qed
  then show "(v, d) \<in> set T \<longleftrightarrow> v \<in> layer succ (set L) d \<and> within m d"
    using levels_upto_facts(1) [OF assms(1), of v d succ k] by auto
  show "distinct (map fst T)" "sorted (map snd T)"
    using levels_upto_facts(2,3) [OF assms(1), of succ k] k(1) by simp_all
qed

corollary traverse_reaches:
  fixes succ :: "'a::finite \<Rightarrow> 'a list" and L :: "'a list"
  assumes "distinct L"
  shows "fst ` set (traverse succ None (at_depth 0 L) (set L)) = (edges_of succ)\<^sup>* `` set L"
proof -
  let ?T = "traverse succ None (at_depth 0 L) (set L)"
  have "v \<in> fst ` set ?T \<longleftrightarrow> (\<exists>d. (v, d) \<in> set ?T)" for v by force
  then have "v \<in> fst ` set ?T \<longleftrightarrow> v \<in> (edges_of succ)\<^sup>* `` set L" for v
    by (simp add: traverse_correct(1) [OF assms] within_def reachable_level)
  then show ?thesis by (rule set_eqI)
qed

end
