(* ===== verification/Graph_Search.thy ===== *)
theory Graph_Search
  imports Traversal "HOL-Library.Product_Lexorder"
begin

text \<open>
  The searches over a graph whose adjacency is fetched from a store: \<open>bfs.rs\<close>, \<open>multi_hop.rs\<close>,
  \<open>query.rs\<close> and the search algorithms under \<open>algo/\<close>. A fetch may fail and may change the store (it
  fills a cache); the locale \<open>adjacency\<close> is what the searches rely on. Hash sets are sets. Depths
  never exceed the \<open>u32\<close> bound they are compared with, so they are natural numbers.
\<close>

type_synonym ('s, 'e) fetcher = "i64 \<Rightarrow> 's \<Rightarrow> ('e + i64 list) \<times> 's"

subsection \<open>Breadth first search\<close>

text \<open>The loop over the neighbours of a node: a neighbour seen for the first time joins the queue.\<close>

fun push_new :: "i64 list \<Rightarrow> nat \<Rightarrow> i64 set \<Rightarrow> (i64 \<times> nat) list \<Rightarrow> (i64 \<times> nat) list \<times> i64 set" where
  "push_new [] depth seen queue = (queue, seen)"
| "push_new (nxt # rest) depth seen queue =
     (if nxt \<in> seen then push_new rest depth seen queue
      else push_new rest depth (insert nxt seen) (queue @ [(nxt, depth + 1)]))"

lemma push_new_eq:
  "push_new ns d A q = (q @ map (\<lambda>n. (n, Suc d)) (fresh ns A), A \<union> set ns)"
  by (induction ns d A q rule: push_new.induct) (auto simp: insert_absorb)

function bfs_loop ::
  "('s, 'e) fetcher \<Rightarrow> nat \<Rightarrow> (i64 \<times> nat) list \<Rightarrow> i64 set \<Rightarrow> i64 list \<Rightarrow> 's \<Rightarrow> ('e + i64 list) \<times> 's" where
  "bfs_loop fetch max_depth [] seen visited s = (Inr visited, s)"
| "bfs_loop fetch max_depth ((node, depth) # queue) seen visited s =
     (let visited = visited @ [node]
      in if max_depth \<le> depth then bfs_loop fetch max_depth queue seen visited s
         else (case fetch node s of
                 (Inl e, s') \<Rightarrow> (Inl e, s')
               | (Inr nexts, s') \<Rightarrow>
                   let (queue', seen') = push_new nexts depth seen queue
                   in bfs_loop fetch max_depth queue' seen' visited s'))"
  by pat_completeness auto

termination bfs_loop
  by (relation "measure (\<lambda>(fetch, m, q, A, vis, s). search_measure (A, q))") (auto simp: push_new_eq)

definition bfs_search ::
  "('s, 'e) fetcher \<Rightarrow> i64 \<Rightarrow> u32 \<Rightarrow> 's \<Rightarrow> ('e + i64 list) \<times> 's" where
  "bfs_search fetch start max_depth s = bfs_loop fetch (unat max_depth) [(start, 0)] {start} [] s"

subsection \<open>Nodes within k hops\<close>

fun push_ordered ::
  "i64 list \<Rightarrow> nat \<Rightarrow> i64 set \<Rightarrow> (i64 \<times> nat) list \<Rightarrow> (nat \<times> i64) list \<Rightarrow>
   (i64 \<times> nat) list \<times> i64 set \<times> (nat \<times> i64) list" where
  "push_ordered [] level visited queue ordered = (queue, visited, ordered)"
| "push_ordered (nb # rest) level visited queue ordered =
     (if nb \<in> visited then push_ordered rest level visited queue ordered
      else push_ordered rest level (insert nb visited) (queue @ [(nb, level + 1)])
             (ordered @ [(level + 1, nb)]))"

lemma push_ordered_eq:
  "push_ordered ns d A q ord = (q @ map (\<lambda>n. (n, Suc d)) (fresh ns A), A \<union> set ns,
     ord @ map (\<lambda>n. (Suc d, n)) (fresh ns A))"
  by (induction ns d A q ord rule: push_ordered.induct) (auto simp: insert_absorb)

function k_hop_loop ::
  "('s, 'e) fetcher \<Rightarrow> nat \<Rightarrow> (i64 \<times> nat) list \<Rightarrow> i64 set \<Rightarrow> (nat \<times> i64) list \<Rightarrow> 's \<Rightarrow>
   ('e + (nat \<times> i64) list) \<times> 's" where
  "k_hop_loop fetch depth [] visited ordered s = (Inr ordered, s)"
| "k_hop_loop fetch depth ((node, level) # queue) visited ordered s =
     (if level = depth then k_hop_loop fetch depth queue visited ordered s
      else (case fetch node s of
              (Inl e, s') \<Rightarrow> (Inl e, s')
            | (Inr neighbors, s') \<Rightarrow>
                let (queue', visited', ordered') = push_ordered neighbors level visited queue ordered
                in k_hop_loop fetch depth queue' visited' ordered' s'))"
  by pat_completeness auto

termination k_hop_loop
  by (relation "measure (\<lambda>(fetch, m, q, A, ord, s). search_measure (A, q))") (auto simp: push_ordered_eq)

text \<open>\<open>sort_by\<close> on the level, then on the id as a signed number, then the ids alone.\<close>

definition level_order :: "(nat \<times> i64) list \<Rightarrow> i64 list" where
  "level_order ordered = map snd (sort_key (\<lambda>(level, node). (level, sint node)) ordered)"

definition map_ok :: "('a \<Rightarrow> 'b) \<Rightarrow> ('e + 'a) \<times> 's \<Rightarrow> ('e + 'b) \<times> 's" where
  "map_ok f r = (case r of (Inl e, s) \<Rightarrow> (Inl e, s) | (Inr x, s) \<Rightarrow> (Inr (f x), s))"

definition k_hop_internal :: "('s, 'e) fetcher \<Rightarrow> i64 \<Rightarrow> u32 \<Rightarrow> 's \<Rightarrow> ('e + i64 list) \<times> 's" where
  "k_hop_internal fetch start depth s =
     (if depth = 0 then (Inr [], s)
      else map_ok level_order (k_hop_loop fetch (unat depth) [(start, 0)] {start} [] s))"

fun push_starts :: "i64 list \<Rightarrow> i64 set \<Rightarrow> (i64 \<times> nat) list \<Rightarrow> (i64 \<times> nat) list \<times> i64 set" where
  "push_starts [] visited queue = (queue, visited)"
| "push_starts (start # rest) visited queue =
     (if start \<in> visited then push_starts rest visited queue
      else push_starts rest (insert start visited) (queue @ [(start, 0)]))"

definition k_hop_multi :: "('s, 'e) fetcher \<Rightarrow> i64 list \<Rightarrow> u32 \<Rightarrow> 's \<Rightarrow> ('e + i64 list) \<times> 's" where
  "k_hop_multi fetch starts depth s =
     (if depth = 0 \<or> starts = [] then (Inr [], s)
      else let (queue, visited) = push_starts starts {} []
           in map_ok level_order (k_hop_loop fetch (unat depth) queue visited [] s))"

subsection \<open>Chains of steps\<close>

text \<open>The neighbours of every current node, in order.\<close>

fun extend_all :: "('s, 'e) fetcher \<Rightarrow> i64 list \<Rightarrow> 's \<Rightarrow> ('e + i64 list) \<times> 's" where
  "extend_all fetch [] s = (Inr [], s)"
| "extend_all fetch (node # nodes) s =
     (case fetch node s of
        (Inl e, s') \<Rightarrow> (Inl e, s')
      | (Inr neighbors, s') \<Rightarrow> map_ok (\<lambda>rest. neighbors @ rest) (extend_all fetch nodes s'))"

fun chain_loop :: "('s, 'e) fetcher list \<Rightarrow> i64 list \<Rightarrow> 's \<Rightarrow> ('e + i64 list) \<times> 's" where
  "chain_loop [] current s = (Inr current, s)"
| "chain_loop (step # chain) current s =
     (case extend_all step current s of
        (Inl e, s') \<Rightarrow> (Inl e, s')
      | (Inr next, s') \<Rightarrow>
          if next = [] then (Inr [], s')
          else chain_loop chain (remdups_adj (sort_key sint next)) s')"

definition chain_query :: "('s, 'e) fetcher list \<Rightarrow> i64 \<Rightarrow> 's \<Rightarrow> ('e + i64 list) \<times> 's" where
  "chain_query chain start s = (if chain = [] then (Inr [start], s) else chain_loop chain [start] s)"

subsection \<open>Reachability\<close>

fun push_seen :: "i64 list \<Rightarrow> i64 set \<Rightarrow> i64 list \<Rightarrow> i64 list \<times> i64 set" where
  "push_seen [] visited queue = (queue, visited)"
| "push_seen (nb # rest) visited queue =
     (if nb \<in> visited then push_seen rest visited queue
      else push_seen rest (insert nb visited) (queue @ [nb]))"

lemma push_seen_eq: "push_seen ns A q = (q @ fresh ns A, A \<union> set ns)"
  by (induction ns A q rule: push_seen.induct) (auto simp: insert_absorb)

lemma search_measure_step' [simp]:
  "search_measure (A \<union> set xs, q @ fresh xs A) < search_measure (A, x # q)"
  using search_measure_step(1) [of A xs q id x] by simp

function reach_loop :: "('s, 'e) fetcher \<Rightarrow> i64 list \<Rightarrow> i64 set \<Rightarrow> 's \<Rightarrow> ('e + i64 set) \<times> 's" where
  "reach_loop fetch [] visited s = (Inr visited, s)"
| "reach_loop fetch (node # queue) visited s =
     (case fetch node s of
        (Inl e, s') \<Rightarrow> (Inl e, s')
      | (Inr neighbors, s') \<Rightarrow>
          let (queue', visited') = push_seen neighbors visited queue
          in reach_loop fetch queue' visited' s')"
  by pat_completeness auto

termination reach_loop
  by (relation "measure (\<lambda>(fetch, q, A, s). search_measure (A, q))") (auto simp: push_seen_eq)

definition reachable_from :: "('s, 'e) fetcher \<Rightarrow> i64 \<Rightarrow> 's \<Rightarrow> ('e + i64 set) \<times> 's" where
  "reachable_from fetch start s = reach_loop fetch [start] {start} s"

text \<open>The loop that stops at a target: \<open>None\<close> when the target is a neighbour.\<close>

fun push_until :: "i64 \<Rightarrow> i64 list \<Rightarrow> i64 set \<Rightarrow> i64 list \<Rightarrow> (i64 list \<times> i64 set) option" where
  "push_until target [] visited queue = Some (queue, visited)"
| "push_until target (nb # rest) visited queue =
     (if nb = target then None
      else if nb \<in> visited then push_until target rest visited queue
      else push_until target rest (insert nb visited) (queue @ [nb]))"

lemma push_until_eq:
  "push_until t ns A q = (if t \<in> set ns then None else Some (q @ fresh ns A, A \<union> set ns))"
  by (induction t ns A q rule: push_until.induct) (auto simp: insert_absorb)

function can_reach_loop :: "('s, 'e) fetcher \<Rightarrow> i64 \<Rightarrow> i64 list \<Rightarrow> i64 set \<Rightarrow> 's \<Rightarrow> ('e + bool) \<times> 's" where
  "can_reach_loop fetch target [] visited s = (Inr False, s)"
| "can_reach_loop fetch target (node # queue) visited s =
     (case fetch node s of
        (Inl e, s') \<Rightarrow> (Inl e, s')
      | (Inr neighbors, s') \<Rightarrow>
          (case push_until target neighbors visited queue of
             None \<Rightarrow> (Inr True, s')
           | Some (queue', visited') \<Rightarrow> can_reach_loop fetch target queue' visited' s'))"
  by pat_completeness auto

termination can_reach_loop
  by (relation "measure (\<lambda>(fetch, t, q, A, s). search_measure (A, q))")
    (auto simp: push_until_eq split: if_splits)

definition can_reach :: "('s, 'e) fetcher \<Rightarrow> i64 \<Rightarrow> i64 \<Rightarrow> 's \<Rightarrow> ('e + bool) \<times> 's" where
  "can_reach fetch from_node to_node s =
     (if from_node = to_node then (Inr True, s)
      else can_reach_loop fetch to_node [from_node] {from_node} s)"

text \<open>The same with a bound on the depth (\<open>GraphQuery::has_path\<close>).\<close>

fun push_new_until ::
  "i64 \<Rightarrow> i64 list \<Rightarrow> nat \<Rightarrow> i64 set \<Rightarrow> (i64 \<times> nat) list \<Rightarrow> ((i64 \<times> nat) list \<times> i64 set) option" where
  "push_new_until target [] depth visited queue = Some (queue, visited)"
| "push_new_until target (nxt # rest) depth visited queue =
     (if nxt = target then None
      else if nxt \<in> visited then push_new_until target rest depth visited queue
      else push_new_until target rest depth (insert nxt visited) (queue @ [(nxt, depth + 1)]))"

lemma push_new_until_eq:
  "push_new_until t ns d A q =
     (if t \<in> set ns then None else Some (q @ map (\<lambda>n. (n, Suc d)) (fresh ns A), A \<union> set ns))"
  by (induction t ns d A q rule: push_new_until.induct) (auto simp: insert_absorb)

function has_path_loop ::
  "('s, 'e) fetcher \<Rightarrow> i64 \<Rightarrow> nat \<Rightarrow> (i64 \<times> nat) list \<Rightarrow> i64 set \<Rightarrow> 's \<Rightarrow> ('e + bool) \<times> 's" where
  "has_path_loop fetch b max_depth [] visited s = (Inr False, s)"
| "has_path_loop fetch b max_depth ((node, depth) # queue) visited s =
     (if max_depth \<le> depth then has_path_loop fetch b max_depth queue visited s
      else (case fetch node s of
              (Inl e, s') \<Rightarrow> (Inl e, s')
            | (Inr nexts, s') \<Rightarrow>
                (case push_new_until b nexts depth visited queue of
                   None \<Rightarrow> (Inr True, s')
                 | Some (queue', visited') \<Rightarrow> has_path_loop fetch b max_depth queue' visited' s')))"
  by pat_completeness auto

termination has_path_loop
  by (relation "measure (\<lambda>(fetch, t, m, q, A, s). search_measure (A, q))")
    (auto simp: push_new_until_eq split: if_splits)

definition has_path :: "('s, 'e) fetcher \<Rightarrow> i64 \<Rightarrow> i64 \<Rightarrow> u32 \<Rightarrow> 's \<Rightarrow> ('e + bool) \<times> 's" where
  "has_path fetch a b max_depth s =
     (if a = b then (Inr True, s)
      else if max_depth = 0 then (Inr False, s)
      else has_path_loop fetch b (unat max_depth) [(a, 0)] {a} s)"

subsection \<open>Shortest paths\<close>

type_synonym parents = "i64 \<Rightarrow> i64 option"

fun expand_parents ::
  "i64 \<Rightarrow> i64 \<Rightarrow> i64 list \<Rightarrow> i64 set \<Rightarrow> parents \<Rightarrow> i64 list \<Rightarrow> bool \<times> i64 list \<times> i64 set \<times> parents" where
  "expand_parents node end_node [] seen parents queue = (False, queue, seen, parents)"
| "expand_parents node end_node (nxt # rest) seen parents queue =
     (if nxt \<in> seen then expand_parents node end_node rest seen parents queue
      else if nxt = end_node then (True, queue, insert nxt seen, parents(nxt \<mapsto> node))
      else expand_parents node end_node rest (insert nxt seen) (parents(nxt \<mapsto> node)) (queue @ [nxt]))"

lemma expand_parents_not_found:
  "expand_parents n e ns A P q = (False, q', A', P') \<Longrightarrow> q' = q @ fresh ns A \<and> A' = A \<union> set ns"
  by (induction n e ns A P q rule: expand_parents.induct) (auto simp: insert_absorb split: if_splits)

function parents_loop ::
  "('s, 'e) fetcher \<Rightarrow> i64 \<Rightarrow> i64 list \<Rightarrow> i64 set \<Rightarrow> parents \<Rightarrow> 's \<Rightarrow> ('e + bool \<times> parents) \<times> 's" where
  "parents_loop fetch end_node [] seen parents s = (Inr (False, parents), s)"
| "parents_loop fetch end_node (node # queue) seen parents s =
     (case fetch node s of
        (Inl e, s') \<Rightarrow> (Inl e, s')
      | (Inr nexts, s') \<Rightarrow>
          (case expand_parents node end_node nexts seen parents queue of
             (True, queue', seen', parents') \<Rightarrow> (Inr (True, parents'), s')
           | (False, queue', seen', parents') \<Rightarrow> parents_loop fetch end_node queue' seen' parents' s'))"
  by pat_completeness auto

termination parents_loop
  by (relation "measure (\<lambda>(fetch, t, q, A, P, s). search_measure (A, q))")
    (auto dest: expand_parents_not_found [OF sym])

text \<open>Following the parents back to the start; \<open>None\<close> when that never ends.\<close>

partial_function (option) path_back :: "parents \<Rightarrow> i64 \<Rightarrow> i64 \<Rightarrow> i64 list \<Rightarrow> i64 list option" where
  "path_back parents start current path =
     (case parents current of
        None \<Rightarrow> Some path
      | Some parent \<Rightarrow>
          if parent = start then Some (path @ [parent])
          else path_back parents start parent (path @ [parent]))"

definition path_search ::
  "('s, 'e) fetcher \<Rightarrow> i64 \<Rightarrow> i64 \<Rightarrow> 's \<Rightarrow> (('e + i64 list option) \<times> 's) option" where
  "path_search fetch start end_node s =
     (if start = end_node then Some (Inr (Some [start]), s)
      else (case parents_loop fetch end_node [start] {start} (\<lambda>_. None) s of
              (Inl e, s') \<Rightarrow> Some (Inl e, s')
            | (Inr (found, parents), s') \<Rightarrow>
                if \<not> found then Some (Inr None, s')
                else (case path_back parents start end_node [end_node] of
                        None \<Rightarrow> None
                      | Some path \<Rightarrow>
                          if last path \<noteq> start then Some (Inr None, s')
                          else Some (Inr (Some (rev path)), s'))))"

subsection \<open>Weakly connected components\<close>

function component_loop ::
  "('s, 'e) fetcher \<Rightarrow> ('s, 'e) fetcher \<Rightarrow> i64 list \<Rightarrow> i64 set \<Rightarrow> i64 list \<Rightarrow> 's \<Rightarrow>
   ('e + i64 list \<times> i64 set) \<times> 's" where
  "component_loop fetch_out fetch_in [] visited component s = (Inr (component, visited), s)"
| "component_loop fetch_out fetch_in (node # queue) visited component s =
     (case fetch_out node s of
        (Inl e, s1) \<Rightarrow> (Inl e, s1)
      | (Inr nexts, s1) \<Rightarrow>
          let (queue1, visited1) = push_seen nexts visited queue
          in (case fetch_in node s1 of
                (Inl e, s2) \<Rightarrow> (Inl e, s2)
              | (Inr prevs, s2) \<Rightarrow>
                  let (queue2, visited2) = push_seen prevs visited1 queue1
                  in component_loop fetch_out fetch_in queue2 visited2 (component @ [node]) s2))"
  by pat_completeness auto

lemma search_measure_step2:
  "search_measure (A \<union> set xs \<union> set ys, (q @ fresh xs A) @ fresh ys (A \<union> set xs)) < search_measure (A, x # q)"
  using search_measure_step' [of A "xs @ ys" q x] by (simp add: fresh_append Un_assoc)

termination component_loop
  by (relation "measure (\<lambda>(fo, fi, q, A, c, s). search_measure (A, q))")
    (use search_measure_step2 in \<open>auto simp: push_seen_eq\<close>)

fun components_loop ::
  "('s, 'e) fetcher \<Rightarrow> ('s, 'e) fetcher \<Rightarrow> i64 list \<Rightarrow> i64 set \<Rightarrow> i64 list list \<Rightarrow> 's \<Rightarrow>
   ('e + i64 list list) \<times> 's" where
  "components_loop fetch_out fetch_in [] visited components s = (Inr components, s)"
| "components_loop fetch_out fetch_in (node # ids) visited components s =
     (if node \<in> visited then components_loop fetch_out fetch_in ids visited components s
      else (case component_loop fetch_out fetch_in [node] (insert node visited) [] s of
              (Inl e, s') \<Rightarrow> (Inl e, s')
            | (Inr (component, visited'), s') \<Rightarrow>
                components_loop fetch_out fetch_in ids visited'
                  (components @ [sort_key sint component]) s'))"

text \<open>\<open>a[0].cmp(&b[0])\<close>: no component is empty.\<close>

definition weakly_connected_components ::
  "('s \<Rightarrow> ('e + i64 list) \<times> 's) \<Rightarrow> ('s, 'e) fetcher \<Rightarrow> ('s, 'e) fetcher \<Rightarrow> 's \<Rightarrow> ('e + i64 list list) \<times> 's" where
  "weakly_connected_components entity_ids fetch_out fetch_in s =
     (case entity_ids s of
        (Inl e, s') \<Rightarrow> (Inl e, s')
      | (Inr ids, s') \<Rightarrow>
          map_ok (sort_key (\<lambda>c. sint (hd c))) (components_loop fetch_out fetch_in ids {} [] s'))"

subsection \<open>What the searches need of a fetch\<close>

text \<open>
  A fetch answers with the row list of the node, or with the error of the store, and leaves a store
  that answers every node as before. \<open>pure_fetch\<close> is a store without state; every search over a store
  gives the answer it gives over the rows alone.
\<close>

definition pure_fetch :: "(i64 \<Rightarrow> 'e + i64 list) \<Rightarrow> (unit, 'e) fetcher" where
  "pure_fetch rows n u = (rows n, u)"

locale adjacency =
  fixes fetch :: "('s, 'e) fetcher"
    and rows :: "'s \<Rightarrow> i64 \<Rightarrow> 'e + i64 list"
    and good :: "'s \<Rightarrow> bool"
  assumes fetch_law: "good s \<Longrightarrow> \<exists>s'. fetch n s = (rows s n, s') \<and> good s' \<and> rows s' = rows s"
begin

definition answers :: "'s \<Rightarrow> ('e + 'a) \<times> unit \<Rightarrow> ('e + 'a) \<times> 's \<Rightarrow> bool" where
  "answers s p r \<longleftrightarrow> fst r = fst p \<and> good (snd r) \<and> rows (snd r) = rows s"

lemma answersI: "good s \<Longrightarrow> answers s (x, ()) (x, s)"
  by (simp add: answers_def)

lemma fetch_cases:
  assumes "good s"
  obtains s' where "fetch n s = (rows s n, s')" "good s'" "rows s' = rows s"
  using fetch_law [OF assms] by blast

lemma answers_map_ok: "answers s p r \<Longrightarrow> answers s (map_ok f p) (map_ok f r)"
  by (auto simp: answers_def map_ok_def split: sum.split prod.split)

lemma bfs_loop_answers:
  "good s \<Longrightarrow> answers s (bfs_loop (pure_fetch (rows s)) m q A vis ()) (bfs_loop fetch m q A vis s)"
proof (induction fetch \<equiv> fetch m q A vis s rule: bfs_loop.induct)
  case (1 m seen visited s)
  then show ?case by (simp add: answersI)
next
  case (2 m node depth queue seen visited s)
  show ?case
  proof (cases "m \<le> depth")
    case True
    then show ?thesis using 2(1) [OF refl True] 2(3) by simp
  next
    case False
    obtain s' where s': "fetch node s = (rows s node, s')" "good s'" "rows s' = rows s"
      using fetch_cases [OF 2(3)] .
    show ?thesis
    proof (cases "rows s node")
      case (Inl e)
      then show ?thesis using False s' by (simp add: pure_fetch_def answers_def)
    next
      case (Inr ns)
      then show ?thesis
        using 2(2) [OF refl False] False s' by (simp add: pure_fetch_def answers_def push_new_eq)
    qed
  qed
qed

lemma k_hop_loop_answers:
  "good s \<Longrightarrow> answers s (k_hop_loop (pure_fetch (rows s)) m q A ord ()) (k_hop_loop fetch m q A ord s)"
proof (induction fetch \<equiv> fetch m q A ord s rule: k_hop_loop.induct)
  case (1 m seen ord s)
  then show ?case by (simp add: answersI)
next
  case (2 m node depth queue seen ord s)
  show ?case
  proof (cases "depth = m")
    case True
    then show ?thesis using 2(1) [OF True] 2(3) by simp
  next
    case False
    obtain s' where s': "fetch node s = (rows s node, s')" "good s'" "rows s' = rows s"
      using fetch_cases [OF 2(3)] .
    show ?thesis
    proof (cases "rows s node")
      case (Inl e)
      then show ?thesis using False s' by (simp add: pure_fetch_def answers_def)
    next
      case (Inr ns)
      then show ?thesis
        using 2(2) [OF False] False s' by (simp add: pure_fetch_def answers_def push_ordered_eq)
    qed
  qed
qed

lemma reach_loop_answers:
  "good s \<Longrightarrow> answers s (reach_loop (pure_fetch (rows s)) q A ()) (reach_loop fetch q A s)"
proof (induction fetch \<equiv> fetch q A s rule: reach_loop.induct)
  case (2 node queue visited s)
  obtain s' where s': "fetch node s = (rows s node, s')" "good s'" "rows s' = rows s"
    using fetch_cases [OF 2(2)] .
  show ?case
  proof (cases "rows s node")
    case (Inr ns)
    then show ?thesis using 2(1) s' by (simp add: pure_fetch_def answers_def push_seen_eq)
  qed (use s' in \<open>simp add: pure_fetch_def answers_def\<close>)
qed (simp add: answersI)

lemma can_reach_loop_answers:
  "good s \<Longrightarrow> answers s (can_reach_loop (pure_fetch (rows s)) t q A ()) (can_reach_loop fetch t q A s)"
proof (induction fetch \<equiv> fetch t q A s rule: can_reach_loop.induct)
  case (2 t node queue visited s)
  obtain s' where s': "fetch node s = (rows s node, s')" "good s'" "rows s' = rows s"
    using fetch_cases [OF 2(2)] .
  show ?case
  proof (cases "rows s node")
    case (Inr ns)
    then show ?thesis using 2(1) s' by (simp add: pure_fetch_def answers_def push_until_eq)
  qed (use s' in \<open>simp add: pure_fetch_def answers_def\<close>)
qed (simp add: answersI)

lemma has_path_loop_answers:
  "good s \<Longrightarrow> answers s (has_path_loop (pure_fetch (rows s)) t m q A ()) (has_path_loop fetch t m q A s)"
proof (induction fetch \<equiv> fetch t m q A s rule: has_path_loop.induct)
  case (2 t m node depth queue visited s)
  show ?case
  proof (cases "m \<le> depth")
    case True
    then show ?thesis using 2(1) [OF True] 2(3) by simp
  next
    case False
    obtain s' where s': "fetch node s = (rows s node, s')" "good s'" "rows s' = rows s"
      using fetch_cases [OF 2(3)] .
    show ?thesis
    proof (cases "rows s node")
      case (Inr ns)
      then show ?thesis using 2(2) [OF False] False s' by (simp add: pure_fetch_def answers_def push_new_until_eq)
    qed (use s' False in \<open>simp add: pure_fetch_def answers_def\<close>)
  qed
qed (simp add: answersI)

lemma parents_loop_answers:
  "good s \<Longrightarrow> answers s (parents_loop (pure_fetch (rows s)) t q A P ()) (parents_loop fetch t q A P s)"
proof (induction fetch \<equiv> fetch t q A P s rule: parents_loop.induct)
  case (2 t node queue seen parents s)
  obtain s' where s': "fetch node s = (rows s node, s')" "good s'" "rows s' = rows s"
    using fetch_cases [OF 2(2)] .
  show ?case
  proof (cases "rows s node")
    case (Inr ns)
    obtain b q' A' P' where e: "expand_parents node t ns seen parents queue = (b, q', A', P')"
      by (metis prod_cases4)
    then show ?thesis using 2(1) s' Inr by (cases b) (simp_all add: pure_fetch_def answers_def)
  qed (use s' in \<open>simp add: pure_fetch_def answers_def\<close>)
qed (simp add: answersI)

lemma extend_all_answers:
  "good s \<Longrightarrow> answers s (extend_all (pure_fetch (rows s)) ns ()) (extend_all fetch ns s)"
proof (induction ns arbitrary: s)
  case (Cons n ns)
  obtain s' where s': "fetch n s = (rows s n, s')" "good s'" "rows s' = rows s"
    using fetch_cases [OF Cons.prems] .
  have "answers s (extend_all (pure_fetch (rows s)) ns ()) (extend_all fetch ns s')"
    using Cons.IH [OF s'(2)] s'(3) by (simp add: answers_def)
  from answers_map_ok [OF this] show ?case
    using s' by (cases "rows s n") (simp_all add: pure_fetch_def [abs_def] answers_def)
qed (simp add: answersI)

end

subsection \<open>Two fetches over one store\<close>

locale adjacency_pair = out: adjacency fetch_out rows_out good + inc: adjacency fetch_in rows_in good
  for fetch_out fetch_in :: "('s, 'e) fetcher" and rows_out rows_in and good +
  assumes out_keeps: "good s \<Longrightarrow> fetch_out n s = (r, s') \<Longrightarrow> rows_in s' = rows_in s"
    and in_keeps: "good s \<Longrightarrow> fetch_in n s = (r, s') \<Longrightarrow> rows_out s' = rows_out s"
begin

definition pair_answers :: "'s \<Rightarrow> ('e + 'a) \<times> unit \<Rightarrow> ('e + 'a) \<times> 's \<Rightarrow> bool" where
  "pair_answers s p r \<longleftrightarrow>
     fst r = fst p \<and> good (snd r) \<and> rows_out (snd r) = rows_out s \<and> rows_in (snd r) = rows_in s"

lemma component_loop_answers:
  "good s \<Longrightarrow> pair_answers s
     (component_loop (pure_fetch (rows_out s)) (pure_fetch (rows_in s)) q A c ())
     (component_loop fetch_out fetch_in q A c s)"
proof (induction fetch_out \<equiv> fetch_out fetch_in \<equiv> fetch_in q A c s rule: component_loop.induct)
  case (2 node queue visited component s)
  obtain s1 where s1: "fetch_out node s = (rows_out s node, s1)" "good s1" "rows_out s1 = rows_out s"
    using out.fetch_cases [OF 2(2)] .
  obtain s2 where s2: "fetch_in node s1 = (rows_in s1 node, s2)" "good s2" "rows_in s2 = rows_in s1"
    using inc.fetch_cases [OF s1(2)] .
  have keep: "rows_in s1 = rows_in s" "rows_out s2 = rows_out s"
    using out_keeps [OF 2(2) s1(1)] in_keeps [OF s1(2) s2(1)] s1(3) by simp_all
  show ?case
  proof (cases "rows_out s node"; cases "rows_in s node")
    fix ns ps assume "rows_out s node = Inr ns" "rows_in s node = Inr ps"
    then show ?thesis
      using 2(1) [OF s1(1) [symmetric]] s1 s2 keep by (simp add: pure_fetch_def pair_answers_def push_seen_eq)
  qed (use s1 s2 keep in \<open>simp_all add: pure_fetch_def pair_answers_def push_seen_eq\<close>)
qed (simp add: pair_answers_def)

lemma components_loop_answers:
  "good s \<Longrightarrow> pair_answers s
     (components_loop (pure_fetch (rows_out s)) (pure_fetch (rows_in s)) ids A cs ())
     (components_loop fetch_out fetch_in ids A cs s)"
proof (induction ids arbitrary: A cs s)
  case (Cons node ids)
  note one = component_loop_answers [OF Cons.prems, of "[node]" "insert node A" "[]"]
  obtain r s' where r: "component_loop fetch_out fetch_in [node] (insert node A) [] s = (r, s')"
    by (cases "component_loop fetch_out fetch_in [node] (insert node A) [] s")
  have p: "component_loop (pure_fetch (rows_out s)) (pure_fetch (rows_in s)) [node] (insert node A) [] () = (r, ())"
    using one r by (simp add: pair_answers_def prod_eq_iff)
  from one r have s': "good s'" "rows_out s' = rows_out s" "rows_in s' = rows_in s"
    by (simp_all add: pair_answers_def)
  show ?case
  proof (cases "node \<in> A")
    case True
    then show ?thesis using Cons by simp
  next
    case False
    then show ?thesis
      using r p s' Cons.IH [OF s'(1)]
      by (cases r) (auto simp: pair_answers_def split: prod.split)
  qed
qed (simp add: pair_answers_def)

end

end
