(* ===== verification/Search_Correct.thy ===== *)
theory Search_Correct
  imports Graph_Search "HOL-Library.Multiset"
begin

text \<open>
  The searches over a store whose every fetch succeeds with the successor list \<open>succ\<close> of the node:
  what they return, in terms of the edge relation.
\<close>

abbreviation total_fetch :: "(i64 \<Rightarrow> i64 list) \<Rightarrow> (unit, 'e) fetcher" where
  "total_fetch succ \<equiv> pure_fetch (\<lambda>n. Inr (succ n))"

subsection \<open>Breadth first search\<close>

lemma bfs_loop_total:
  "bfs_loop (total_fetch succ) m q A vis () = (Inr (vis @ map fst (traverse succ (Some m) q A)), ())"
proof (induction succ \<equiv> succ m' \<equiv> "Some m" q A arbitrary: vis rule: traverse.induct)
  case (2 v d q A)
  then show ?case by (simp add: pure_fetch_def push_new_eq stops_def)
qed simp

lemma bfs_search_total:
  "bfs_search (total_fetch succ) s m () =
     (Inr (map fst (traverse succ (Some (unat m)) (at_depth 0 [s]) (set [s]))), ())"
  by (simp add: bfs_search_def bfs_loop_total del: traverse.simps bfs_loop.simps)

subsection \<open>Nodes within k hops\<close>

lemma traverse_prefix: "\<exists>r. traverse succ m q A = q @ r"
  by (induction succ m q A rule: traverse.induct) auto

lemma traverse_drop: "traverse succ m q A = q @ drop (length q) (traverse succ m q A)"
  using traverse_prefix [of succ m q A] by auto

lemma k_hop_loop_total:
  assumes "\<forall>(v, d) \<in> set q. d \<le> m"
  shows "k_hop_loop (total_fetch succ) m q A ord () =
    (Inr (ord @ map (\<lambda>(v, d). (d, v)) (drop (length q) (traverse succ (Some m) q A))), ())"
  using assms
proof (induction succ \<equiv> succ m' \<equiv> "Some m" q A arbitrary: ord rule: traverse.induct)
  case (2 v d q A)
  show ?case
  proof (cases "d = m")
    case True
    then show ?thesis using 2 by (simp add: stops_def)
  next
    case False
    let ?new = "map (\<lambda>w. (w, Suc d)) (fresh (succ v) A)"
    from 2(3) False have d: "d < m" by simp
    have "\<forall>(v, d) \<in> set (q @ ?new). d \<le> m" using 2(3) d by auto
    note IH = 2(2) [OF _ this]
    have "drop (length q) (traverse succ (Some m) (q @ ?new) (A \<union> set (succ v))) =
        ?new @ drop (length (q @ ?new)) (traverse succ (Some m) (q @ ?new) (A \<union> set (succ v)))"
      by (subst traverse_drop) simp
    then show ?thesis
      using False d IH by (simp add: pure_fetch_def push_ordered_eq stops_def comp_def)
  qed
qed simp

text \<open>The order of the result: by distance, then by id; each node once.\<close>

definition by_distance :: "(i64 \<Rightarrow> i64 list) \<Rightarrow> i64 set \<Rightarrow> i64 list \<Rightarrow> bool" where
  "by_distance succ S ns \<longleftrightarrow>
     sorted_wrt (\<lambda>u v. \<exists>d e. u \<in> layer succ S d \<and> v \<in> layer succ S e \<and> (d < e \<or> d = e \<and> u <s v)) ns"

lemma level_order_correct:
  assumes "distinct (map snd ord)" "\<forall>(d, v) \<in> set ord. v \<in> layer succ S d"
  shows "set (level_order ord) = snd ` set ord" "by_distance succ S (level_order ord)" "distinct (level_order ord)"
proof -
  let ?s = "sort_key (\<lambda>(d, v). (d, sint v)) ord"
  show "set (level_order ord) = snd ` set ord" by (simp add: level_order_def)
  have "mset (map snd ?s) = mset (map snd ord)" by simp
  then have "distinct (map snd ?s)" using assms(1) mset_eq_imp_distinct_iff by blast
  then show d: "distinct (level_order ord)" by (simp add: level_order_def)
  have "sorted (map (\<lambda>(d, v). (d, sint v)) ?s)" by simp
  then have "sorted_wrt (\<lambda>x y. (case x of (d, v) \<Rightarrow> (d, sint v)) \<le> (case y of (d, v) \<Rightarrow> (d, sint v))) ?s"
    by (simp add: sorted_map)
  moreover have "sorted_wrt (\<lambda>x y. snd x \<noteq> snd y) ?s"
    using \<open>distinct (map snd ?s)\<close> by (simp add: distinct_map sorted_wrt_iff_nth_less distinct_conv_nth inj_on_def)
  ultimately have "sorted_wrt (\<lambda>x y. (case x of (d, v) \<Rightarrow> (d, sint v)) \<le> (case y of (d, v) \<Rightarrow> (d, sint v)) \<and> snd x \<noteq> snd y) ?s"
    by (simp add: sorted_wrt_iff_nth_less)
  then have "sorted_wrt (\<lambda>x y. \<exists>d e. snd x \<in> layer succ S d \<and> snd y \<in> layer succ S e \<and>
      (d < e \<or> d = e \<and> snd x <s snd y)) ?s"
  proof (rule sorted_wrt_mono_rel [rotated])
    fix x y assume xy: "x \<in> set ?s" "y \<in> set ?s"
      "(case x of (d, v) \<Rightarrow> (d, sint v)) \<le> (case y of (d, v) \<Rightarrow> (d, sint v)) \<and> snd x \<noteq> snd y"
    show "\<exists>d e. snd x \<in> layer succ S d \<and> snd y \<in> layer succ S e \<and> (d < e \<or> d = e \<and> snd x <s snd y)"
    proof -
      obtain d u where x: "x = (d, u)" by fastforce
      obtain e v where y: "y = (e, v)" by fastforce
      have "u \<in> layer succ S d" "v \<in> layer succ S e" using assms(2) xy(1,2) x y by auto
      moreover have "d < e \<or> d = e \<and> u <s v" using xy(3) x y by (auto simp: word_sless_alt less_le dest: signed_word_eqI)
      ultimately show ?thesis using x y by auto
    qed
  qed
  then show "by_distance succ S (level_order ord)"
    by (simp add: by_distance_def level_order_def sorted_wrt_map)
qed

lemma k_hop_total:
  assumes "distinct L" "0 < m"
  shows "\<exists>ns. map_ok level_order (k_hop_loop (total_fetch succ) m (at_depth 0 L) (set L) [] ()) = (Inr ns, ()) \<and>
    set ns = {v. \<exists>d. 1 \<le> d \<and> d \<le> m \<and> v \<in> layer succ (set L) d} \<and> distinct ns \<and> by_distance succ (set L) ns"
proof -
  let ?T = "traverse succ (Some m) (at_depth 0 L) (set L)"
  let ?r = "drop (length L) ?T"
  let ?o = "map (\<lambda>(v, d). (d, v)) ?r"
  have run: "k_hop_loop (total_fetch succ) m (at_depth 0 L) (set L) [] () = (Inr ?o, ())"
    by (subst k_hop_loop_total) (auto simp: at_depth_def)
  have T: "?T = at_depth 0 L @ ?r" using traverse_drop [of succ "Some m" "at_depth 0 L" "set L"] by (simp add: at_depth_def)
  note c = traverse_correct [OF assms(1), where succ = succ and m = "Some m"]
  have dist: "distinct (L @ map fst ?r)" using c(2) by (subst (asm) T) simp
  have mem: "(v, d) \<in> set ?r \<longleftrightarrow> v \<in> layer succ (set L) d \<and> 1 \<le> d \<and> d \<le> m" for v d
  proof -
    have split: "(v, d) \<in> set ?T \<longleftrightarrow> d = 0 \<and> v \<in> set L \<or> (v, d) \<in> set ?r" by (subst T) auto
    have "\<not> ((v, 0) \<in> set ?r)"
    proof
      assume r: "(v, 0) \<in> set ?r"
      then have "(v, 0) \<in> set ?T" using T by (metis in_set_dropD)
      then have "v \<in> set L" using c(1) [of v 0] by simp
      moreover have "v \<in> set (map fst ?r)" using r by force
      ultimately show False using dist by auto
    qed
    then show ?thesis using split c(1) [of v d] by (cases d) (auto simp: within_def simp del: layer.simps(2))
  qed
  have d: "distinct (map snd ?o)" using dist by (simp add: comp_def case_prod_unfold)
  have l: "\<forall>(d, v) \<in> set ?o. v \<in> layer succ (set L) d" using mem by auto
  note lo = level_order_correct [OF d l]
  have "snd ` set ?o = {v. \<exists>d. 1 \<le> d \<and> d \<le> m \<and> v \<in> layer succ (set L) d}"
    using mem by force
  with lo show ?thesis by (simp add: run map_ok_def del: drop_append)
qed

subsection \<open>Reachability\<close>

lemma closed_reach:
  assumes "\<forall>v \<in> A. set (succ v) \<subseteq> A"
  shows "(edges_of succ)\<^sup>* `` A = A"
proof -
  have "w \<in> A" if "(v, w) \<in> (edges_of succ)\<^sup>*" "v \<in> A" for v w
    using that by (induction rule: rtrancl_induct) (use assms in \<open>auto simp: edges_of_def\<close>)
  then show ?thesis by blast
qed

lemma reach_expand:
  assumes "v \<in> A"
  shows "(edges_of succ)\<^sup>* `` (A \<union> set (succ v)) = (edges_of succ)\<^sup>* `` A"
proof -
  have "(v, w) \<in> (edges_of succ)\<^sup>*" if "w \<in> set (succ v)" for w
    using that by (auto simp: edges_of_def)
  with assms show ?thesis by (auto dest: rtrancl_trans)
qed

text \<open>Every seen node that no longer waits has its successors seen.\<close>

definition explored :: "(i64 \<Rightarrow> i64 list) \<Rightarrow> i64 list \<Rightarrow> i64 set \<Rightarrow> bool" where
  "explored succ q A \<longleftrightarrow> set q \<subseteq> A \<and> (\<forall>v \<in> A - set q. set (succ v) \<subseteq> A)"

lemma explored_start: "explored succ [s] {s}"
  by (simp add: explored_def)

lemma explored_step:
  "explored succ (v # q) A \<Longrightarrow> explored succ (q @ fresh (succ v) A) (A \<union> set (succ v))"
  by (auto simp: explored_def)

lemma explored_head: "explored succ (v # q) A \<Longrightarrow> v \<in> A"
  by (simp add: explored_def)

lemma explored_end: "explored succ [] A \<Longrightarrow> (edges_of succ)\<^sup>* `` A = A"
  by (rule closed_reach) (simp add: explored_def)

lemma reach_loop_total:
  "explored succ q A \<Longrightarrow>
   reach_loop (total_fetch succ :: (unit, 'e) fetcher) q A () = (Inr ((edges_of succ)\<^sup>* `` A), ())"
proof (induction "total_fetch succ :: (unit, 'e) fetcher" q A "()" rule: reach_loop.induct)
  case (1 A)
  then show ?case by (simp add: explored_end)
next
  case (2 v q A)
  then show ?case
    using explored_step [OF 2(2)] reach_expand [OF explored_head [OF 2(2)]]
    by (simp add: pure_fetch_def push_seen_eq)
qed

lemma can_reach_loop_total:
  "explored succ q A \<Longrightarrow> t \<notin> A \<Longrightarrow>
   can_reach_loop (total_fetch succ :: (unit, 'e) fetcher) t q A () = (Inr (t \<in> (edges_of succ)\<^sup>* `` A), ())"
proof (induction "total_fetch succ :: (unit, 'e) fetcher" t q A "()" rule: can_reach_loop.induct)
  case (1 t A)
  then show ?case by (simp add: explored_end)
next
  case (2 t v q A)
  show ?case
  proof (cases "t \<in> set (succ v)")
    case True
    then have "(v, t) \<in> edges_of succ" by (simp add: edges_of_def)
    with explored_head [OF 2(2)] have "t \<in> (edges_of succ)\<^sup>* `` A" by blast
    with True show ?thesis by (simp add: pure_fetch_def push_until_eq)
  next
    case False
    then show ?thesis
      using 2(1) explored_step [OF 2(2)] reach_expand [OF explored_head [OF 2(2)]] 2(3)
      by (simp add: pure_fetch_def push_until_eq)
  qed
qed

lemma can_reach_total:
  "can_reach (total_fetch succ) a b () = (Inr ((a, b) \<in> (edges_of succ)\<^sup>*), ())"
  by (simp add: can_reach_def can_reach_loop_total [OF explored_start] Image_def del: can_reach_loop.simps)

lemma has_path_loop_total:
  "has_path_loop (total_fetch succ) t m q A () =
     (Inr (\<exists>(v, d) \<in> set (traverse succ (Some m) q A). d < m \<and> t \<in> set (succ v)), ())"
proof (induction succ \<equiv> succ m' \<equiv> "Some m" q A rule: traverse.induct)
  case (2 v d q A)
  then show ?case
    by (auto simp: pure_fetch_def push_new_until_eq stops_def)
qed simp

lemma has_path_total:
  "has_path (total_fetch succ) a b m () = (Inr (b \<in> ball succ {a} (unat m)), ())"
proof (cases "a = b \<or> m = 0")
  case True
  then show ?thesis using ball_mono [of 0 "unat m" succ "{a}"] by (auto simp: has_path_def)
next
  case False
  then obtain k where k: "unat m = Suc k" by (metis not0_implies_Suc unat_eq_0)
  have mem: "(v, d) \<in> set (traverse succ (Some (unat m)) [(a, 0)] {a}) \<longleftrightarrow> v \<in> layer succ {a} d \<and> d \<le> unat m" for v d
    using traverse_correct(1) [of "[a]" v d succ "Some (unat m)"] by (simp add: within_def del: traverse.simps)
  have "(\<exists>(v, d) \<in> set (traverse succ (Some (unat m)) [(a, 0)] {a}). d < unat m \<and> b \<in> set (succ v)) \<longleftrightarrow>
      (\<exists>v d. v \<in> layer succ {a} d \<and> d \<le> k \<and> b \<in> set (succ v))"
    unfolding Bex_def split_paired_Ex case_prod_conv mem unfolding k less_Suc_eq_le by (meson le_SucI)
  also have "\<dots> \<longleftrightarrow> (\<exists>v \<in> ball succ {a} k. b \<in> set (succ v))"
    unfolding ball_levels UN_iff Bex_def atLeastAtMost_iff by blast
  also have "\<dots> \<longleftrightarrow> b \<in> ball succ {a} (Suc k)"
  proof
    assume "b \<in> ball succ {a} (Suc k)"
    moreover have "b \<noteq> a" using False by auto
    ultimately show "\<exists>v \<in> ball succ {a} k. b \<in> set (succ v)"
      by (induction k) auto
  qed auto
  finally show ?thesis using False k by (simp add: has_path_def has_path_loop_total del: traverse.simps ball.simps has_path_loop.simps)
qed

subsection \<open>Chains\<close>

lemma extend_all_total: "extend_all (total_fetch succ) ns () = (Inr (concat (map succ ns)), ())"
  by (induction ns) (simp_all add: pure_fetch_def [abs_def] map_ok_def)

lemma remdups_adj_strict:
  assumes "sorted (map sint xs)"
  shows "sorted_wrt (<s) (remdups_adj xs)"
  using assms
proof (induction xs rule: remdups_adj.induct)
  case (3 x y xs)
  show ?case
  proof (cases "x = y")
    case False
    with 3(3) have "x <s y" by (auto simp: word_sless_alt less_le dest: signed_word_eqI)
    moreover have "\<forall>z \<in> set (remdups_adj (y # xs)). x <s z"
      using 3(3) calculation by (force simp: word_sless_alt)
    ultimately show ?thesis using 3 False by simp
  qed (use 3 in simp)
qed simp_all

text \<open>What a chain means: the image of the start under its steps.\<close>

definition chain_image :: "(i64 \<Rightarrow> i64 list) list \<Rightarrow> i64 set \<Rightarrow> i64 set" where
  "chain_image steps S = fold (\<lambda>succ S. \<Union>v \<in> S. set (succ v)) steps S"

lemma chain_image_empty: "chain_image steps {} = {}"
  by (induction steps) (simp_all add: chain_image_def)

lemma chain_loop_total:
  "sorted_wrt (<s) cur \<Longrightarrow>
   \<exists>ns. chain_loop (map total_fetch steps) cur () = (Inr ns, ()) \<and> set ns = chain_image steps (set cur) \<and>
     sorted_wrt (<s) ns"
proof (induction steps arbitrary: cur)
  case (Cons succ steps)
  let ?next = "concat (map succ cur)"
  let ?cur = "remdups_adj (sort_key sint ?next)"
  have set: "set ?cur = (\<Union>v \<in> set cur. set (succ v))" by simp
  have image: "chain_image (succ # steps) (set cur) = chain_image steps (set ?cur)"
    unfolding set by (simp add: chain_image_def)
  show ?case
  proof (cases "?next = []")
    case True
    then show ?thesis using image by (simp add: extend_all_total chain_image_empty)
  next
    case False
    have "sorted_wrt (<s) ?cur" by (rule remdups_adj_strict) simp
    from Cons.IH [OF this] image False show ?thesis by (auto simp: extend_all_total chain_image_empty)
  qed
qed (simp add: chain_image_def)

lemma chain_query_total:
  "\<exists>ns. chain_query (map total_fetch steps) start () = (Inr ns, ()) \<and> set ns = chain_image steps {start} \<and>
     sorted_wrt (<s) ns"
  using chain_loop_total [of "[start]" steps] by (auto simp: chain_query_def chain_image_def)


subsection \<open>Shortest paths\<close>

text \<open>
  Following the parents from a node goes back one layer at a time, along edges, to the start.
\<close>

definition good_parents :: "(i64 \<Rightarrow> i64 list) \<Rightarrow> i64 \<Rightarrow> parents \<Rightarrow> bool" where
  "good_parents succ start P \<longleftrightarrow>
     P start = None \<and>
     (\<forall>w p. P w = Some p \<longrightarrow> w \<in> set (succ p) \<and> (p = start \<or> P p \<noteq> None) \<and>
        (\<exists>k. p \<in> layer succ {start} k \<and> w \<in> layer succ {start} (Suc k)))"

lemma layer_unique: "v \<in> layer succ S j \<Longrightarrow> v \<in> layer succ S k \<Longrightarrow> j = k"
proof (rule ccontr)
  assume v: "v \<in> layer succ S j" "v \<in> layer succ S k" and "j \<noteq> k"
  then consider "j < k" | "k < j" by linarith
  then show False
    using v level_subset_ball [of succ S] level_disjoint [of j k succ S] level_disjoint [of k j succ S]
    by cases blast+
qed

lemma path_back_correct:
  assumes "good_parents succ start P" "P w \<noteq> None" "w \<in> layer succ {start} k"
  shows "\<exists>path. path_back P start w acc = Some (acc @ path) \<and> path \<noteq> [] \<and> last path = start \<and>
    length path = k \<and> successively (\<lambda>u v. u \<in> set (succ v)) (w # path)"
  using assms(2,3)
proof (induction k arbitrary: w acc)
  case 0
  then show ?case using assms(1) by (simp add: good_parents_def)
next
  case (Suc k)
  then obtain p where p: "P w = Some p" by auto
  with assms(1) obtain j where j: "w \<in> set (succ p)" "p = start \<or> P p \<noteq> None" "p \<in> layer succ {start} j"
    "w \<in> layer succ {start} (Suc j)"
    unfolding good_parents_def by blast
  have "j = k" using layer_unique [OF j(4) Suc.prems(2)] by simp
  show ?case
  proof (cases "p = start")
    case True
    then have "k = 0" using layer_unique [of start succ "{start}" 0 j] j(3) \<open>j = k\<close> by simp
    then show ?thesis using p True j(1) by (intro exI [of _ "[start]"]) (simp add: path_back.simps)
  next
    case False
    with j(2,3) \<open>j = k\<close> Suc.IH [of p "acc @ [p]"] obtain path where
      "path_back P start p (acc @ [p]) = Some ((acc @ [p]) @ path)" "path \<noteq> []" "last path = start"
      "length path = k" "successively (\<lambda>u v. u \<in> set (succ v)) (p # path)" by auto
    then show ?thesis
      using p False j(1) by (intro exI [of _ "p # path"]) (simp add: path_back.simps [of P start w])
  qed
qed

lemma expand_parents_found:
  "expand_parents v e ws A P q = (b, q', A', P') \<Longrightarrow>
   (b \<longleftrightarrow> e \<in> set ws - A) \<and> (b \<longrightarrow> P' e = Some v) \<and>
   (\<forall>w. P' w = P w \<or> w \<in> set ws - A \<and> P' w = Some v) \<and>
   (\<not> b \<longrightarrow> (\<forall>w \<in> set ws - A. P' w = Some v))"
  by (induction v e ws A P q arbitrary: b q' A' P' rule: expand_parents.induct)
    (auto split: if_splits)

text \<open>
  When the nodes \<open>L\<close> of a layer are still to be expanded and the nodes \<open>N\<close> of the next one wait behind
  them, what is seen is the ball of the layer and \<open>N\<close>.
\<close>

definition frontier ::
  "(i64 \<Rightarrow> i64 list) \<Rightarrow> i64 \<Rightarrow> nat \<Rightarrow> i64 list \<Rightarrow> i64 list \<Rightarrow> i64 set \<Rightarrow> bool" where
  "frontier succ start k L N A \<longleftrightarrow>
     set L \<subseteq> layer succ {start} k \<and> A = ball succ {start} k \<union> set N \<and>
     set N \<subseteq> layer succ {start} (Suc k) \<and> (\<forall>v \<in> layer succ {start} k - set L. set (succ v) \<subseteq> A)"

lemma frontier_new:
  assumes "frontier succ start k (v # L) N A" "w \<in> set (succ v) - A"
  shows "w \<in> layer succ {start} (Suc k)"
  using assms level_subset_ball [of succ "{start}" k] by (auto simp: frontier_def)

lemma frontier_next:
  assumes "frontier succ start k [] N A"
  shows "frontier succ start (Suc k) N [] A"
proof -
  have "ball succ {start} (Suc k) \<subseteq> A" "A \<subseteq> ball succ {start} (Suc k)"
    using assms ball_Suc_level [of succ "{start}" k] level_subset_ball [of succ "{start}" "Suc k"]
    by (auto simp: frontier_def simp del: ball.simps layer.simps)
  then have A: "A = ball succ {start} (Suc k)" by blast
  have "layer succ {start} (Suc k) \<subseteq> set N"
    using level_subset_ball [of succ "{start}" "Suc k"] level_disjoint [of k "Suc k" succ "{start}"] A assms
    by (auto simp: frontier_def simp del: ball.simps layer.simps)
  then show ?thesis using A assms by (auto simp: frontier_def simp del: ball.simps layer.simps)
qed

lemma frontier_step:
  assumes "frontier succ start k (v # L) N A"
  shows "frontier succ start k L (N @ fresh (succ v) A) (A \<union> set (succ v))"
proof -
  have "set (fresh (succ v) A) \<subseteq> layer succ {start} (Suc k)" using frontier_new [OF assms] by auto
  with assms show ?thesis by (auto simp: frontier_def simp del: ball.simps layer.simps)
qed

lemma frontier_Cons:
  assumes "frontier succ start k L N A" "L @ N = v # q"
  obtains j L' N' where "q = L' @ N'" "frontier succ start j (v # L') N' A"
proof (cases L)
  case Nil
  with assms that [of q "[]" "Suc k"] frontier_next show thesis by auto
next
  case (Cons u L')
  with assms that [of L' N k] show thesis by auto
qed

lemma frontier_done:
  assumes "frontier succ start k [] [] A"
  shows "(edges_of succ)\<^sup>* `` {start} = A"
proof -
  have "set (succ v) \<subseteq> A" if v: "v \<in> A" for v
  proof -
    from v assms obtain j where j: "j \<le> k" "v \<in> layer succ {start} j" by (auto simp: frontier_def ball_levels)
    show ?thesis
    proof (cases "j = k")
      case True
      have "v \<in> layer succ {start} k" using j True by simp
      moreover have "\<forall>v \<in> layer succ {start} k. set (succ v) \<subseteq> A"
        using assms unfolding frontier_def list.set Diff_empty by (elim conjE)
      ultimately show ?thesis by blast
    next
      case False
      then have "ball succ {start} (Suc j) \<subseteq> A" using assms j(1) ball_mono [of "Suc j" k succ] by (auto simp: frontier_def)
      moreover have "set (succ v) \<subseteq> ball succ {start} (Suc j)" using j(2) by (auto simp: ball_Suc_level simp del: ball.simps)
      ultimately show ?thesis by blast
    qed
  qed
  then have "(edges_of succ)\<^sup>* `` A = A" by (intro closed_reach) blast
  moreover have "start \<in> A" using assms ball_mono [of 0 k succ "{start}"] by (auto simp: frontier_def)
  moreover have "A \<subseteq> (edges_of succ)\<^sup>* `` {start}"
  proof
    fix v assume "v \<in> A"
    then have "\<exists>k. v \<in> ball succ {start} k" using assms by (auto simp: frontier_def)
    then show "v \<in> (edges_of succ)\<^sup>* `` {start}" by (simp only: in_ball_level reachable_level)
  qed
  ultimately show ?thesis by blast
qed

lemma parents_loop_total:
  assumes "frontier succ start k L N A" "good_parents succ start P" "\<forall>v \<in> A. v = start \<or> P v \<noteq> None" "e \<notin> A"
  shows "\<exists>b P'. parents_loop (total_fetch succ :: (unit, 'e) fetcher) e (L @ N) A P () = (Inr (b, P'), ()) \<and>
    (b \<longleftrightarrow> e \<in> (edges_of succ)\<^sup>* `` {start}) \<and> (b \<longrightarrow> good_parents succ start P' \<and> P' e \<noteq> None)"
  using assms
proof (induction "total_fetch succ :: (unit, 'e) fetcher" e "L @ N" A P "()" arbitrary: k L N rule: parents_loop.induct)
  case (1 e A P)
  then show ?case using frontier_done [of succ start k A] by (auto intro!: exI [of _ False])
next
  case (2 e v q A P)
  obtain j L' N' where q: "q = L' @ N'" "frontier succ start j (v # L') N' A"
    using frontier_Cons [OF 2(3) 2(2) [symmetric]] .
  have v: "v \<in> layer succ {start} j" "v \<in> A"
    using q(2) level_subset_ball [of succ "{start}" j] by (auto simp: frontier_def)
  have start: "start \<in> A" using q(2) ball_mono [of 0 j succ "{start}"] by (auto simp: frontier_def)
  obtain b q' A' P' where x: "expand_parents v e (succ v) A P q = (b, q', A', P')" by (metis prod_cases4)
  note f = expand_parents_found [OF x]
  have P': "good_parents succ start P'"
    unfolding good_parents_def
  proof (intro conjI allI impI)
    have "P' start = P start" using f start by blast
    then show "P' start = None" using 2(4) by (simp add: good_parents_def)
    fix w p assume p: "P' w = Some p"
    have keep: "P' u \<noteq> None" if "P u \<noteq> None" for u using f that by (metis option.distinct(1))
    consider "P w = Some p" | "w \<in> set (succ v) - A" "p = v" using f p by (metis option.inject)
    then have "w \<in> set (succ p) \<and> (p = start \<or> P' p \<noteq> None) \<and>
        (\<exists>k. p \<in> layer succ {start} k \<and> w \<in> layer succ {start} (Suc k))"
    proof cases
      case 1
      then show ?thesis using 2(4) keep unfolding good_parents_def by blast
    next
      case 2
      then show ?thesis using v frontier_new [OF q(2)] \<open>\<forall>v \<in> A. v = start \<or> P v \<noteq> None\<close> keep by blast
    qed
    then show "w \<in> set (succ p)" "p = start \<or> P' p \<noteq> None"
      "\<exists>k. p \<in> layer succ {start} k \<and> w \<in> layer succ {start} (Suc k)" by blast+
  qed
  show ?case
  proof (cases b)
    case True
    then have "e \<in> (edges_of succ)\<^sup>* `` {start}"
      using f v reachable_level [of v succ "{start}"] by (force simp: edges_of_def intro: rtrancl_into_rtrancl)
    then show ?thesis using x True f P' unfolding 2(2) [symmetric]
      by (intro exI [of _ True] exI [of _ P']) (simp add: pure_fetch_def)
  next
    case False
    with x have "expand_parents v e (succ v) A P q = (False, q', A', P')" by simp
    then have n: "q' = q @ fresh (succ v) A" "A' = A \<union> set (succ v)"
      using expand_parents_not_found by blast+
    have seen: "\<forall>u \<in> A'. u = start \<or> P' u \<noteq> None"
      using f False 2(5) n(2) by (metis Diff_iff Un_iff option.distinct(1))
    have "e \<notin> A'" using f False 2(6) n(2) by auto
    with 2(1) [of "Inr (succ v)" "succ v" b "(q', A', P')" L' "N' @ fresh (succ v) A" "(A', P')" A' P' j] x False n q(1) frontier_step [OF q(2)] P' seen
    show ?thesis unfolding 2(2) [symmetric] by (simp add: pure_fetch_def)
  qed
qed

lemma path_search_total:
  "\<exists>r. path_search (total_fetch succ :: (unit, 'e) fetcher) start e () = Some (Inr r, ()) \<and>
    (case r of
       None \<Rightarrow> (start, e) \<notin> (edges_of succ)\<^sup>*
     | Some p \<Rightarrow> p \<noteq> [] \<and> hd p = start \<and> last p = e \<and> successively (\<lambda>u v. v \<in> set (succ u)) p \<and>
         e \<in> layer succ {start} (length p - 1))"
proof (cases "start = e")
  case True
  then show ?thesis by (auto simp: path_search_def)
next
  case False
  have front: "frontier succ start 0 [start] [] {start}" by (simp add: frontier_def)
  have "good_parents succ start (\<lambda>_. None)" by (simp add: good_parents_def)
  from parents_loop_total [OF front this _ ] False obtain b P where
    run: "parents_loop (total_fetch succ :: (unit, 'e) fetcher) e [start] {start} (\<lambda>_. None) () = (Inr (b, P), ())"
    and b: "b \<longleftrightarrow> e \<in> (edges_of succ)\<^sup>* `` {start}" "b \<Longrightarrow> good_parents succ start P \<and> P e \<noteq> None"
    by fastforce
  show ?thesis
  proof (cases b)
    case False
    then show ?thesis using \<open>start \<noteq> e\<close> run b(1)
      by (auto simp: path_search_def edges_of_def simp del: parents_loop.simps intro!: exI [of _ None])
  next
    case True
    then obtain k where k: "e \<in> layer succ {start} k" using b(1) reachable_level [of e succ "{start}"] by auto
    from path_back_correct [of succ start P e k "[e]"] b(2) True k obtain path where
      p: "path_back P start e [e] = Some ([e] @ path)" "path \<noteq> []" "last path = start" "length path = k"
      "successively (\<lambda>u v. u \<in> set (succ v)) (e # path)" by blast
    have "successively (\<lambda>u v. v \<in> set (succ u)) (rev (e # path))"
      using p(5) by (simp only: successively_rev)
    then show ?thesis
      using True \<open>start \<noteq> e\<close> run k p
      by (intro exI [of _ "Some (rev path @ [e])"])
        (simp add: path_search_def hd_append hd_rev del: parents_loop.simps)
  qed
qed

subsection \<open>Weakly connected components\<close>

text \<open>The two fetches together walk the edges both ways; from a closed set the walk adds whole classes.\<close>

definition both :: "(i64 \<Rightarrow> i64 list) \<Rightarrow> (i64 \<Rightarrow> i64 list) \<Rightarrow> i64 \<Rightarrow> i64 list" where
  "both succ pred v = succ v @ pred v"

lemma component_loop_total:
  assumes "explored (both succ pred) q A" "distinct q"
  shows "\<exists>c'. component_loop (total_fetch succ :: (unit, 'e) fetcher) (total_fetch pred) q A c () =
      (Inr (c @ c', (edges_of (both succ pred))\<^sup>* `` A), ()) \<and>
    set c' = ((edges_of (both succ pred))\<^sup>* `` A - A) \<union> set q \<and> distinct c'"
  using assms
proof (induction "total_fetch succ :: (unit, 'e) fetcher" "total_fetch pred :: (unit, 'e) fetcher" q A c "()"
    rule: component_loop.induct)
  case (1 A c)
  then show ?case by (simp add: explored_end)
next
  case (2 v q A c)
  let ?A = "A \<union> set (succ v) \<union> set (pred v)" and ?q = "(q @ fresh (succ v) A) @ fresh (pred v) (A \<union> set (succ v))"
  have q: "?q = q @ fresh (both succ pred v) A" "?A = A \<union> set (both succ pred v)"
    by (auto simp: both_def fresh_append)
  have e: "explored (both succ pred) ?q ?A"
    unfolding q using explored_step [OF "2.prems"(1)] .
  have v: "v \<in> A" "set q \<subseteq> A" "v \<notin> set q" using "2.prems" by (auto simp: explored_def)
  have d: "distinct ?q" unfolding q using v "2.prems"(2) by auto
  have r: "(edges_of (both succ pred))\<^sup>* `` ?A = (edges_of (both succ pred))\<^sup>* `` A"
    unfolding q by (rule reach_expand [OF v(1)])
  have "\<exists>c'. component_loop (total_fetch succ :: (unit, 'e) fetcher) (total_fetch pred) ?q ?A (c @ [v]) () =
      (Inr ((c @ [v]) @ c', (edges_of (both succ pred))\<^sup>* `` ?A), ()) \<and>
    set c' = ((edges_of (both succ pred))\<^sup>* `` ?A - ?A) \<union> set ?q \<and> distinct c'"
    by (rule "2.hyps" [OF _ _ _ _ _ _ _ _ e d])
      (simp add: pure_fetch_def push_seen_eq)+
  then obtain c' where c': "component_loop (total_fetch succ :: (unit, 'e) fetcher) (total_fetch pred) ?q ?A (c @ [v]) () =
      (Inr ((c @ [v]) @ c', (edges_of (both succ pred))\<^sup>* `` ?A), ())"
    "set c' = ((edges_of (both succ pred))\<^sup>* `` ?A - ?A) \<union> set ?q" "distinct c'"
    by blast
  have "?A \<subseteq> (edges_of (both succ pred))\<^sup>* `` ?A" by blast
  then have "set (v # c') = ((edges_of (both succ pred))\<^sup>* `` A - A) \<union> set (v # q)" "distinct (v # c')"
    using c'(2,3) v unfolding r by auto
  with c'(1) show ?case
    by (intro exI [of _ "v # c'"]) (simp add: pure_fetch_def push_seen_eq r)
qed

lemma strict_sorted_sint:
  fixes c :: "i64 list"
  assumes "distinct c"
  shows "sorted_wrt (\<lambda>a b. sint a < sint b) (sort_key sint c)"
proof -
  have "distinct (map sint (sort_key sint c))"
    using assms by (simp add: distinct_map inj_on_def signed_word_eqI)
  then have "sorted_wrt (<) (map sint (sort_key sint c))"
    by (simp add: strict_sorted_iff)
  then show ?thesis by (simp add: sorted_wrt_map)
qed

definition weak_class :: "(i64 \<Rightarrow> i64 list) \<Rightarrow> (i64 \<Rightarrow> i64 list) \<Rightarrow> i64 \<Rightarrow> i64 set" where
  "weak_class succ pred v = (edges_of (both succ pred))\<^sup>* `` {v}"

definition converse_rows :: "(i64 \<Rightarrow> i64 list) \<Rightarrow> (i64 \<Rightarrow> i64 list) \<Rightarrow> bool" where
  "converse_rows succ pred \<longleftrightarrow> (\<forall>v w. w \<in> set (succ v) \<longleftrightarrow> v \<in> set (pred w))"

lemma weak_class_self [simp]: "v \<in> weak_class succ pred v"
  by (simp add: weak_class_def)

lemma both_sym: "converse_rows succ pred \<Longrightarrow> sym ((edges_of (both succ pred))\<^sup>*)"
  by (rule sym_rtrancl) (auto simp: sym_def edges_of_def both_def converse_rows_def)

lemma weak_class_eq:
  "converse_rows succ pred \<Longrightarrow> w \<in> weak_class succ pred v \<Longrightarrow> weak_class succ pred w = weak_class succ pred v"
  using both_sym [of succ pred] unfolding weak_class_def by (auto dest: symD intro: rtrancl_trans)

text \<open>The visited set is a union of classes; a new id adds its own.\<close>

definition classes_closed :: "(i64 \<Rightarrow> i64 list) \<Rightarrow> (i64 \<Rightarrow> i64 list) \<Rightarrow> i64 set \<Rightarrow> bool" where
  "classes_closed succ pred V \<longleftrightarrow> (\<forall>v \<in> V. weak_class succ pred v \<subseteq> V)"

lemma component_total:
  assumes "converse_rows succ pred" "classes_closed succ pred V" "v \<notin> V"
  shows "\<exists>c. component_loop (total_fetch succ :: (unit, 'e) fetcher) (total_fetch pred) [v] (insert v V) [] () =
      (Inr (c, V \<union> weak_class succ pred v), ()) \<and>
    set c = weak_class succ pred v \<and> distinct c"
proof -
  let ?E = "edges_of (both succ pred)"
  have "explored (both succ pred) [v] (insert v V)"
    using assms(2) by (auto simp: explored_def classes_closed_def weak_class_def edges_of_def)
  moreover have r: "?E\<^sup>* `` insert v V = V \<union> weak_class succ pred v"
    using assms(2) by (auto simp: classes_closed_def weak_class_def)
  moreover have "weak_class succ pred v \<inter> V = {}"
  proof -
    have "v \<in> V" if w: "w \<in> weak_class succ pred v" "w \<in> V" for w
    proof -
      have "weak_class succ pred w \<subseteq> V" using assms(2) w(2) unfolding classes_closed_def by blast
      then show ?thesis using weak_class_eq [OF assms(1) w(1)] weak_class_self [of v succ pred] by blast
    qed
    with assms(3) show ?thesis by blast
  qed
  then have "(V \<union> weak_class succ pred v) - insert v V \<union> set [v] = weak_class succ pred v"
    using assms(3) weak_class_self [of v succ pred] by auto
  ultimately show ?thesis
    using component_loop_total [of succ pred "[v]" "insert v V" "[]", where 'e = 'e]
    by (simp del: component_loop.simps)
qed

lemma components_loop_total:
  assumes "converse_rows succ pred" "classes_closed succ pred V"
  shows "\<exists>new. components_loop (total_fetch succ :: (unit, 'e) fetcher) (total_fetch pred) ids V cs () =
      (Inr (cs @ new), ()) \<and>
    set (map set new) = weak_class succ pred ` (set ids - V) \<and> distinct (map set new) \<and>
    (\<forall>c \<in> set new. c \<noteq> [] \<and> sorted_wrt (\<lambda>a b. sint a < sint b) c)"
  using assms(2)
proof (induction ids arbitrary: V cs)
  case (Cons v ids)
  show ?case
  proof (cases "v \<in> V")
    case True
    with Cons show ?thesis by (auto simp: insert_Diff_if)
  next
    case False
    let ?W = "V \<union> weak_class succ pred v"
    obtain c where c: "component_loop (total_fetch succ :: (unit, 'e) fetcher) (total_fetch pred) [v] (insert v V) [] () =
        (Inr (c, ?W), ())" "set c = weak_class succ pred v" "distinct c"
      using component_total [OF assms(1) Cons.prems False] by blast
    have W: "classes_closed succ pred ?W"
      using Cons.prems weak_class_eq [OF assms(1)] unfolding classes_closed_def by blast
    from Cons.IH [OF W] obtain new where
      new: "components_loop (total_fetch succ :: (unit, 'e) fetcher) (total_fetch pred) ids ?W (cs @ [sort_key sint c]) () =
        (Inr ((cs @ [sort_key sint c]) @ new), ())"
      "set (map set new) = weak_class succ pred ` (set ids - ?W)" "distinct (map set new)"
      "\<forall>c \<in> set new. c \<noteq> [] \<and> sorted_wrt (\<lambda>a b. sint a < sint b) c" by blast
    have "weak_class succ pred ` (set ids - ?W) \<union> {weak_class succ pred v} =
        weak_class succ pred ` (set (v # ids) - V)"
      using False weak_class_eq [OF assms(1)] by auto
    moreover have "weak_class succ pred v \<notin> weak_class succ pred ` (set ids - ?W)"
      using weak_class_self by blast
    moreover have "sorted_wrt (\<lambda>a b. sint a < sint b) (sort_key sint c)"
      using c(3) by (rule strict_sorted_sint)
    moreover have "sort_key sint c \<noteq> []"
      using c(2) weak_class_self [of v succ pred] by (metis empty_iff empty_set set_sort)
    ultimately show ?thesis
      using False c new
      by (intro exI [of _ "sort_key sint c # new"]) (auto simp del: component_loop.simps)
  qed
qed simp

theorem wcc_total:
  assumes "converse_rows succ pred"
  shows "\<exists>cs. weakly_connected_components (\<lambda>s. (Inr ids, s)) (total_fetch succ :: (unit, 'e) fetcher) (total_fetch pred) () =
      (Inr cs, ()) \<and>
    set (map set cs) = weak_class succ pred ` set ids \<and> distinct (map set cs) \<and>
    (\<forall>c \<in> set cs. c \<noteq> [] \<and> sorted_wrt (\<lambda>a b. sint a < sint b) c) \<and>
    sorted (map (\<lambda>c. sint (hd c)) cs)"
proof -
  have "classes_closed succ pred {}" by (simp add: classes_closed_def)
  from components_loop_total [OF assms this, of ids "[]"] obtain new where
    new: "components_loop (total_fetch succ :: (unit, 'e) fetcher) (total_fetch pred) ids {} [] () = (Inr new, ())"
    "set (map set new) = weak_class succ pred ` set ids" "distinct (map set new)"
    "\<forall>c \<in> set new. c \<noteq> [] \<and> sorted_wrt (\<lambda>a b. sint a < sint b) c" by auto
  have "distinct (map set (sort_key (\<lambda>c. sint (hd c)) new))"
    using new(3) by (simp add: distinct_map)
  with new show ?thesis by (simp add: weakly_connected_components_def map_ok_def)
qed

end
