(* ===== verification/Sqlite_Graph.thy ===== *)
theory Sqlite_Graph
  imports Search_Correct
begin

text \<open>
  The SQLite graph of \<open>graph/\<close>: the two adjacency caches of \<open>cache.rs\<close>, the query cache of
  \<open>query_cache.rs\<close>, the reads through them (\<open>graph/adjacency.rs\<close>, \<open>bfs.rs\<close>, \<open>multi_hop.rs\<close>), the
  writes that invalidate them (\<open>graph/edge_ops.rs\<close>, \<open>graph/entity_ops.rs\<close>) and the backend methods of
  \<open>backend/sqlite/impl_.rs\<close>. SQLite and \<open>serde_json\<close> are the parameter \<open>engine\<close>: one function for
  each statement the code prepares. A database is one value: pooled connections to the same
  file are not told apart.
\<close>

section \<open>Errors, rows and the statements\<close>

text \<open>A \<open>String\<close> is the list of its Unicode scalar values.\<close>

type_synonym rust_string = "nat list"

datatype sqlite_error =
  ConnectionError string
| SchemaError string
| QueryError string
| NotFound string
| InvalidInput string
| FaultInjected string
| TransactionError string
| ValidationError string
| GraphCorruption string
| Unsupported string
| NativeError string

type_synonym 'a outcome = "sqlite_error + 'a"

record 'j entity =
  ent_id :: i64
  ent_kind :: rust_string
  ent_name :: rust_string
  ent_path :: "rust_string option"
  ent_data :: 'j

record 'j edge =
  edge_id :: i64
  edge_from :: i64
  edge_to :: i64
  edge_kind :: rust_string
  edge_data :: 'j

type_synonym entity_row = "i64 \<times> rust_string \<times> rust_string \<times> rust_string option \<times> rust_string"
type_synonym edge_row = "i64 \<times> i64 \<times> i64 \<times> rust_string \<times> rust_string"

text \<open>
  The statements, named after what they do. A statement that writes returns the number of rows it
  changed; one that fails returns its message.
\<close>

record ('d, 'j) engine =
  select_to :: "'d \<Rightarrow> i64 \<Rightarrow> string + i64 list"
  select_from :: "'d \<Rightarrow> i64 \<Rightarrow> string + i64 list"
  select_to_typed :: "'d \<Rightarrow> i64 \<Rightarrow> string + (i64 \<times> rust_string) list"
  select_from_typed :: "'d \<Rightarrow> i64 \<Rightarrow> string + (i64 \<times> rust_string) list"
  select_to_of_type :: "'d \<Rightarrow> i64 \<Rightarrow> rust_string \<Rightarrow> string + i64 list"
  select_from_of_type :: "'d \<Rightarrow> i64 \<Rightarrow> rust_string \<Rightarrow> string + i64 list"
  select_entity_ids :: "'d \<Rightarrow> string + i64 list"
  probe_entity :: "'d \<Rightarrow> i64 \<Rightarrow> string + bool"
  select_entity :: "'d \<Rightarrow> i64 \<Rightarrow> string + entity_row option"
  select_edge :: "'d \<Rightarrow> i64 \<Rightarrow> string + edge_row option"
  exec_insert_entity ::
    "rust_string \<Rightarrow> rust_string \<Rightarrow> rust_string option \<Rightarrow> rust_string \<Rightarrow> 'd \<Rightarrow> (string + nat) \<times> 'd"
  exec_insert_label :: "i64 \<Rightarrow> rust_string \<Rightarrow> 'd \<Rightarrow> (string + nat) \<times> 'd"
  exec_update_entity ::
    "rust_string \<Rightarrow> rust_string \<Rightarrow> rust_string option \<Rightarrow> rust_string \<Rightarrow> i64 \<Rightarrow> 'd \<Rightarrow> (string + nat) \<times> 'd"
  exec_delete_entity :: "i64 \<Rightarrow> 'd \<Rightarrow> (string + nat) \<times> 'd"
  exec_delete_edges_of :: "i64 \<Rightarrow> 'd \<Rightarrow> (string + nat) \<times> 'd"
  exec_insert_edge :: "i64 \<Rightarrow> i64 \<Rightarrow> rust_string \<Rightarrow> rust_string \<Rightarrow> 'd \<Rightarrow> (string + nat) \<times> 'd"
  exec_delete_edge :: "i64 \<Rightarrow> 'd \<Rightarrow> (string + nat) \<times> 'd"
  exec_begin :: "'d \<Rightarrow> (string + nat) \<times> 'd"
  exec_commit :: "'d \<Rightarrow> (string + nat) \<times> 'd"
  exec_rollback :: "'d \<Rightarrow> 'd"
  last_rowid :: "'d \<Rightarrow> i64"
  json_to_string :: "'j \<Rightarrow> string + rust_string"
  json_from_str :: "rust_string \<Rightarrow> string + 'j"

text \<open>The decimal numbers of the messages.\<close>

fun show_nat :: "nat \<Rightarrow> string" where
  "show_nat n = (if n < 10 then [char_of (48 + n)] else show_nat (n div 10) @ [char_of (48 + n mod 10)])"

definition show_i64 :: "i64 \<Rightarrow> string" where
  "show_i64 i = (if sint i < 0 then ''-'' @ show_nat (nat (- sint i)) else show_nat (nat (sint i)))"

declare show_nat.simps [simp del]

definition err_with :: "('a \<Rightarrow> 'e) \<Rightarrow> 'a + 'b \<Rightarrow> 'e + 'b" where
  "err_with f r = (case r of Inl e \<Rightarrow> Inl (f e) | Inr x \<Rightarrow> Inr x)"

lemma err_with_simps [simp]:
  "err_with f (Inl e) = Inl (f e)" "err_with f (Inr x) = Inr x"
  "err_with f r = Inr y \<longleftrightarrow> r = Inr y"
  by (simp_all add: err_with_def split: sum.split)

section \<open>The caches\<close>

record adjacency_cache =
  inner :: "i64 \<Rightarrow> i64 list option"
  hits :: u64
  misses :: u64

definition adj_new :: adjacency_cache where
  "adj_new = \<lparr>inner = Map.empty, hits = 0, misses = 0\<rparr>"

definition adj_get :: "i64 \<Rightarrow> adjacency_cache \<Rightarrow> i64 list option \<times> adjacency_cache" where
  "adj_get key c =
     (case inner c key of
        Some value \<Rightarrow> (Some value, c\<lparr>hits := hits c + 1\<rparr>)
      | None \<Rightarrow> (None, c\<lparr>misses := misses c + 1\<rparr>))"

definition adj_insert :: "i64 \<Rightarrow> i64 list \<Rightarrow> adjacency_cache \<Rightarrow> adjacency_cache" where
  "adj_insert key value c = c\<lparr>inner := (inner c)(key \<mapsto> value)\<rparr>"

definition adj_clear :: "adjacency_cache \<Rightarrow> adjacency_cache" where
  "adj_clear c = c\<lparr>inner := Map.empty, hits := 0, misses := 0\<rparr>"

definition adj_remove :: "i64 \<Rightarrow> adjacency_cache \<Rightarrow> adjacency_cache" where
  "adj_remove key c = c\<lparr>inner := (inner c)(key := None)\<rparr>"

datatype backend_direction = Outgoing | Incoming

datatype query_key =
  BfsKey i64 u32
| KHopKey i64 u32 backend_direction
| KHopFilteredKey i64 u32 backend_direction "rust_string list"
| ShortestPathKey i64 i64

datatype query_result =
  BfsResult "i64 list"
| KHopResult "i64 list"
| ShortestPathResult "i64 list option"

type_synonym query_cache = "query_key \<Rightarrow> query_result option"

definition get_bfs :: "i64 \<Rightarrow> u32 \<Rightarrow> query_cache \<Rightarrow> i64 list option" where
  "get_bfs start depth c = (case c (BfsKey start depth) of Some (BfsResult r) \<Rightarrow> Some r | _ \<Rightarrow> None)"

definition put_bfs :: "i64 \<Rightarrow> u32 \<Rightarrow> i64 list \<Rightarrow> query_cache \<Rightarrow> query_cache" where
  "put_bfs start depth r c = c(BfsKey start depth \<mapsto> BfsResult r)"

definition get_k_hop :: "i64 \<Rightarrow> u32 \<Rightarrow> backend_direction \<Rightarrow> query_cache \<Rightarrow> i64 list option" where
  "get_k_hop start depth dir c =
     (case c (KHopKey start depth dir) of Some (KHopResult r) \<Rightarrow> Some r | _ \<Rightarrow> None)"

definition put_k_hop :: "i64 \<Rightarrow> u32 \<Rightarrow> backend_direction \<Rightarrow> i64 list \<Rightarrow> query_cache \<Rightarrow> query_cache" where
  "put_k_hop start depth dir r c = c(KHopKey start depth dir \<mapsto> KHopResult r)"

definition get_k_hop_filtered ::
  "i64 \<Rightarrow> u32 \<Rightarrow> backend_direction \<Rightarrow> rust_string list \<Rightarrow> query_cache \<Rightarrow> i64 list option" where
  "get_k_hop_filtered start depth dir types c =
     (case c (KHopFilteredKey start depth dir types) of Some (KHopResult r) \<Rightarrow> Some r | _ \<Rightarrow> None)"

definition put_k_hop_filtered ::
  "i64 \<Rightarrow> u32 \<Rightarrow> backend_direction \<Rightarrow> rust_string list \<Rightarrow> i64 list \<Rightarrow> query_cache \<Rightarrow> query_cache" where
  "put_k_hop_filtered start depth dir types r c = c(KHopFilteredKey start depth dir types \<mapsto> KHopResult r)"

definition get_shortest_path :: "i64 \<Rightarrow> i64 \<Rightarrow> query_cache \<Rightarrow> i64 list option option" where
  "get_shortest_path start stop c =
     (case c (ShortestPathKey start stop) of Some (ShortestPathResult r) \<Rightarrow> Some r | _ \<Rightarrow> None)"

definition put_shortest_path :: "i64 \<Rightarrow> i64 \<Rightarrow> i64 list option \<Rightarrow> query_cache \<Rightarrow> query_cache" where
  "put_shortest_path start stop r c = c(ShortestPathKey start stop \<mapsto> ShortestPathResult r)"

text \<open>The adjacency maps of the snapshot that is current, \<open>mvcc.rs\<close>; its time stamp is left out.\<close>

record snapshot_state =
  snap_outgoing :: "i64 \<Rightarrow> i64 list option"
  snap_incoming :: "i64 \<Rightarrow> i64 list option"

record 'd sqlite_graph =
  db :: 'd
  outgoing_cache :: adjacency_cache
  incoming_cache :: adjacency_cache
  query_cache :: query_cache
  current :: snapshot_state

definition invalidate_caches :: "'d sqlite_graph \<Rightarrow> 'd sqlite_graph" where
  "invalidate_caches g = g\<lparr>outgoing_cache := adj_clear (outgoing_cache g),
     incoming_cache := adj_clear (incoming_cache g), query_cache := Map.empty\<rparr>"

section \<open>Reads\<close>

definition fetch_outgoing :: "('d, 'j) engine \<Rightarrow> ('d sqlite_graph, sqlite_error) fetcher" where
  "fetch_outgoing E node g =
     (case adj_get node (outgoing_cache g) of
        (Some cached, c) \<Rightarrow> (Inr cached, g\<lparr>outgoing_cache := c\<rparr>)
      | (None, c) \<Rightarrow>
          (case select_to E (db g) node of
             Inl e \<Rightarrow> (Inl (QueryError e), g\<lparr>outgoing_cache := c\<rparr>)
           | Inr rows \<Rightarrow> (Inr rows, g\<lparr>outgoing_cache := adj_insert node rows c\<rparr>)))"

definition fetch_incoming :: "('d, 'j) engine \<Rightarrow> ('d sqlite_graph, sqlite_error) fetcher" where
  "fetch_incoming E node g =
     (case adj_get node (incoming_cache g) of
        (Some cached, c) \<Rightarrow> (Inr cached, g\<lparr>incoming_cache := c\<rparr>)
      | (None, c) \<Rightarrow>
          (case select_from E (db g) node of
             Inl e \<Rightarrow> (Inl (QueryError e), g\<lparr>incoming_cache := c\<rparr>)
           | Inr rows \<Rightarrow> (Inr rows, g\<lparr>incoming_cache := adj_insert node rows c\<rparr>)))"

definition all_entity_ids :: "('d, 'j) engine \<Rightarrow> 'd sqlite_graph \<Rightarrow> i64 list outcome" where
  "all_entity_ids E g = err_with QueryError (select_entity_ids E (db g))"

definition entity_exists :: "('d, 'j) engine \<Rightarrow> i64 \<Rightarrow> 'd sqlite_graph \<Rightarrow> bool outcome" where
  "entity_exists E node g = err_with QueryError (probe_entity E (db g) node)"

definition row_to_entity :: "('d, 'j) engine \<Rightarrow> entity_row \<Rightarrow> string + 'j entity" where
  "row_to_entity E row =
     (case row of (i, kind, name, path, data) \<Rightarrow>
        (case json_from_str E data of
           Inl e \<Rightarrow> Inl e
         | Inr value \<Rightarrow> Inr \<lparr>ent_id = i, ent_kind = kind, ent_name = name, ent_path = path, ent_data = value\<rparr>))"

definition row_to_edge :: "('d, 'j) engine \<Rightarrow> edge_row \<Rightarrow> string + 'j edge" where
  "row_to_edge E row =
     (case row of (i, from_id, to_id, kind, data) \<Rightarrow>
        (case json_from_str E data of
           Inl e \<Rightarrow> Inl e
         | Inr value \<Rightarrow> Inr \<lparr>edge_id = i, edge_from = from_id, edge_to = to_id, edge_kind = kind, edge_data = value\<rparr>))"

definition get_entity :: "('d, 'j) engine \<Rightarrow> i64 \<Rightarrow> 'd sqlite_graph \<Rightarrow> 'j entity outcome" where
  "get_entity E node g =
     (case select_entity E (db g) node of
        Inl e \<Rightarrow> Inl (QueryError e)
      | Inr None \<Rightarrow> Inl (NotFound (''entity '' @ show_i64 node))
      | Inr (Some row) \<Rightarrow> err_with QueryError (row_to_entity E row))"

definition get_edge :: "('d, 'j) engine \<Rightarrow> i64 \<Rightarrow> 'd sqlite_graph \<Rightarrow> 'j edge outcome" where
  "get_edge E i g =
     (case select_edge E (db g) i of
        Inl e \<Rightarrow> Inl (QueryError e)
      | Inr None \<Rightarrow> Inl (NotFound (''edge '' @ show_i64 i))
      | Inr (Some row) \<Rightarrow> err_with QueryError (row_to_edge E row))"

text \<open>The typed rows, with a neighbour not repeated directly after itself.\<close>

fun keep_allowed :: "rust_string set \<Rightarrow> (i64 \<times> rust_string) list \<Rightarrow> i64 list \<Rightarrow> i64 list" where
  "keep_allowed allowed [] result = result"
| "keep_allowed allowed ((neighbor, kind) # rows) result =
     (if kind \<in> allowed \<and> \<not> (result \<noteq> [] \<and> last result = neighbor)
      then keep_allowed allowed rows (result @ [neighbor])
      else keep_allowed allowed rows result)"

definition filter_neighbors ::
  "('d, 'j) engine \<Rightarrow> backend_direction \<Rightarrow> rust_string set \<Rightarrow> ('d sqlite_graph, sqlite_error) fetcher" where
  "filter_neighbors E dir allowed node g =
     (if allowed = {} then (Inr [], g)
      else (case (case dir of Outgoing \<Rightarrow> select_to_typed E (db g) node
                            | Incoming \<Rightarrow> select_from_typed E (db g) node) of
              Inl e \<Rightarrow> (Inl (QueryError e), g)
            | Inr rows \<Rightarrow> (Inr (keep_allowed allowed rows []), g)))"

definition typed_adjacency ::
  "('d, 'j) engine \<Rightarrow> backend_direction \<Rightarrow> rust_string set option \<Rightarrow> ('d sqlite_graph, sqlite_error) fetcher" where
  "typed_adjacency E dir allowed =
     (case allowed of
        Some allowed \<Rightarrow> filter_neighbors E dir allowed
      | None \<Rightarrow> (case dir of Outgoing \<Rightarrow> fetch_outgoing E | Incoming \<Rightarrow> fetch_incoming E))"

text \<open>\<open>query_neighbors\<close> of the backend.\<close>

definition query_neighbors ::
  "('d, 'j) engine \<Rightarrow> backend_direction \<Rightarrow> rust_string option \<Rightarrow> ('d sqlite_graph, sqlite_error) fetcher" where
  "query_neighbors E dir kind node g =
     (case (dir, kind) of
        (Outgoing, None) \<Rightarrow> fetch_outgoing E node g
      | (Incoming, None) \<Rightarrow> fetch_incoming E node g
      | (Outgoing, Some kind) \<Rightarrow> (err_with QueryError (select_to_of_type E (db g) node kind), g)
      | (Incoming, Some kind) \<Rightarrow> (err_with QueryError (select_from_of_type E (db g) node kind), g))"

definition bfs_neighbors ::
  "('d, 'j) engine \<Rightarrow> i64 \<Rightarrow> u32 \<Rightarrow> 'd sqlite_graph \<Rightarrow> i64 list outcome \<times> 'd sqlite_graph" where
  "bfs_neighbors E start max_depth g =
     (case get_entity E start g of
        Inl e \<Rightarrow> (Inl e, g)
      | Inr _ \<Rightarrow> bfs_search (fetch_outgoing E) start max_depth g)"

definition bfs_neighbors_filtered ::
  "('d, 'j) engine \<Rightarrow> i64 \<Rightarrow> u32 \<Rightarrow> rust_string list \<Rightarrow> backend_direction \<Rightarrow> 'd sqlite_graph \<Rightarrow>
   i64 list outcome \<times> 'd sqlite_graph" where
  "bfs_neighbors_filtered E start max_depth types dir g =
     (case get_entity E start g of
        Inl e \<Rightarrow> (Inl e, g)
      | Inr _ \<Rightarrow>
          if types = [] then (Inr [], g)
          else bfs_search (typed_adjacency E dir (Some (set types))) start max_depth g)"

definition shortest_path ::
  "('d, 'j) engine \<Rightarrow> i64 \<Rightarrow> i64 \<Rightarrow> 'd sqlite_graph \<Rightarrow> (i64 list option outcome \<times> 'd sqlite_graph) option" where
  "shortest_path E start stop g =
     (case get_entity E start g of
        Inl e \<Rightarrow> Some (Inl e, g)
      | Inr _ \<Rightarrow>
          (case get_entity E stop g of
             Inl e \<Rightarrow> Some (Inl e, g)
           | Inr _ \<Rightarrow> path_search (fetch_outgoing E) start stop g))"

definition shortest_path_filtered ::
  "('d, 'j) engine \<Rightarrow> i64 \<Rightarrow> i64 \<Rightarrow> rust_string list \<Rightarrow> 'd sqlite_graph \<Rightarrow>
   (i64 list option outcome \<times> 'd sqlite_graph) option" where
  "shortest_path_filtered E start stop types g =
     (case get_entity E start g of
        Inl e \<Rightarrow> Some (Inl e, g)
      | Inr _ \<Rightarrow>
          (case get_entity E stop g of
             Inl e \<Rightarrow> Some (Inl e, g)
           | Inr _ \<Rightarrow>
               if start = stop then Some (Inr (Some [start]), g)
               else if types = [] then Some (Inr None, g)
               else path_search (typed_adjacency E Outgoing (Some (set types))) start stop g))"

definition k_hop ::
  "('d, 'j) engine \<Rightarrow> i64 \<Rightarrow> u32 \<Rightarrow> backend_direction \<Rightarrow> 'd sqlite_graph \<Rightarrow> i64 list outcome \<times> 'd sqlite_graph" where
  "k_hop E start depth dir = k_hop_internal (typed_adjacency E dir None) start depth"

definition k_hop_filtered ::
  "('d, 'j) engine \<Rightarrow> i64 \<Rightarrow> u32 \<Rightarrow> backend_direction \<Rightarrow> rust_string list \<Rightarrow> 'd sqlite_graph \<Rightarrow>
   i64 list outcome \<times> 'd sqlite_graph" where
  "k_hop_filtered E start depth dir types g =
     (if types = [] then (Inr [], g)
      else k_hop_internal (typed_adjacency E dir (Some (set types))) start depth g)"

record chain_step =
  step_direction :: backend_direction
  step_type :: "rust_string option"

definition step_fetch :: "('d, 'j) engine \<Rightarrow> chain_step \<Rightarrow> ('d sqlite_graph, sqlite_error) fetcher" where
  "step_fetch E s =
     (case step_type s of
        Some kind \<Rightarrow> typed_adjacency E (step_direction s) (Some {kind})
      | None \<Rightarrow> typed_adjacency E (step_direction s) None)"

section \<open>Writes\<close>

text \<open>\<open>char::is_whitespace\<close>: a string whose \<open>trim\<close> is empty has nothing else.\<close>

definition is_whitespace :: "nat \<Rightarrow> bool" where
  "is_whitespace c \<longleftrightarrow> 9 \<le> c \<and> c \<le> 13 \<or>
     c \<in> {0x20, 0x85, 0xA0, 0x1680, 0x2028, 0x2029, 0x202F, 0x205F, 0x3000} \<or> 0x2000 \<le> c \<and> c \<le> 0x200A"

definition blank :: "rust_string \<Rightarrow> bool" where
  "blank s \<longleftrightarrow> list_all is_whitespace s"

definition validate_entity :: "'j entity \<Rightarrow> unit outcome" where
  "validate_entity e =
     (if blank (ent_kind e) then Inl (InvalidInput ''entity kind must be set'')
      else if blank (ent_name e) then Inl (InvalidInput ''entity name must be set'')
      else Inr ())"

definition validate_edge :: "'j edge \<Rightarrow> unit outcome" where
  "validate_edge e =
     (if blank (edge_kind e) then Inl (InvalidInput ''edge type must be set'')
      else if edge_from e \<le>s 0 \<or> edge_to e \<le>s 0 then Inl (InvalidInput ''edge endpoints must be positive ids'')
      else Inr ())"

text \<open>The checks of \<open>sqlite_insert_edge\<close>; the second endpoint is looked up only when the first exists.\<close>

definition check_edge :: "('d, 'j) engine \<Rightarrow> 'j edge \<Rightarrow> 'd sqlite_graph \<Rightarrow> unit outcome" where
  "check_edge E e g =
     (let missing = InvalidInput ''edge endpoints must reference existing entities''
      in case validate_edge e of
           Inl err \<Rightarrow> Inl err
         | Inr _ \<Rightarrow>
             (case entity_exists E (edge_from e) g of
                Inl err \<Rightarrow> Inl err
              | Inr False \<Rightarrow> Inl missing
              | Inr True \<Rightarrow>
                  (case entity_exists E (edge_to e) g of
                     Inl err \<Rightarrow> Inl err
                   | Inr False \<Rightarrow> Inl missing
                   | Inr True \<Rightarrow> Inr ())))"

definition json_text :: "('d, 'j) engine \<Rightarrow> 'j \<Rightarrow> rust_string outcome" where
  "json_text E j = err_with InvalidInput (json_to_string E j)"

definition sqlite_insert_edge ::
  "('d, 'j) engine \<Rightarrow> 'j edge \<Rightarrow> 'd sqlite_graph \<Rightarrow> i64 outcome \<times> 'd sqlite_graph" where
  "sqlite_insert_edge E e g =
     (case check_edge E e g of
        Inl err \<Rightarrow> (Inl err, g)
      | Inr _ \<Rightarrow>
          (case json_text E (edge_data e) of
             Inl err \<Rightarrow> (Inl err, g)
           | Inr data \<Rightarrow>
               (case exec_insert_edge E (edge_from e) (edge_to e) (edge_kind e) data (db g) of
                  (Inl err, d) \<Rightarrow> (Inl (QueryError err), g\<lparr>db := d\<rparr>)
                | (Inr _, d) \<Rightarrow> (Inr (last_rowid E d), invalidate_caches (g\<lparr>db := d\<rparr>)))))"

fun check_edges :: "('d, 'j) engine \<Rightarrow> 'j edge list \<Rightarrow> 'd sqlite_graph \<Rightarrow> unit outcome" where
  "check_edges E [] g = Inr ()"
| "check_edges E (e # es) g =
     (case check_edge E e g of Inl err \<Rightarrow> Inl err | Inr _ \<Rightarrow> check_edges E es g)"

text \<open>The statements of a bulk insert inside its transaction.\<close>

fun insert_edge_rows :: "('d, 'j) engine \<Rightarrow> 'j edge list \<Rightarrow> i64 list \<Rightarrow> 'd \<Rightarrow> i64 list outcome \<times> 'd" where
  "insert_edge_rows E [] ids d = (Inr ids, d)"
| "insert_edge_rows E (e # es) ids d =
     (case json_text E (edge_data e) of
        Inl err \<Rightarrow> (Inl err, d)
      | Inr data \<Rightarrow>
          (case exec_insert_edge E (edge_from e) (edge_to e) (edge_kind e) data d of
             (Inl err, d') \<Rightarrow> (Inl (QueryError err), d')
           | (Inr _, d') \<Rightarrow> insert_edge_rows E es (ids @ [last_rowid E d']) d'))"

definition insert_edges_bulk ::
  "('d, 'j) engine \<Rightarrow> 'j edge list \<Rightarrow> 'd sqlite_graph \<Rightarrow> i64 list outcome \<times> 'd sqlite_graph" where
  "insert_edges_bulk E es g =
     (if es = [] then (Inr [], g)
      else (case check_edges E es g of
              Inl err \<Rightarrow> (Inl err, g)
            | Inr _ \<Rightarrow>
                (case exec_begin E (db g) of
                   (Inl err, d) \<Rightarrow> (Inl (QueryError err), g\<lparr>db := d\<rparr>)
                 | (Inr _, d) \<Rightarrow>
                     (case insert_edge_rows E es [] d of
                        (Inl err, d') \<Rightarrow> (Inl err, g\<lparr>db := exec_rollback E d'\<rparr>)
                      | (Inr ids, d') \<Rightarrow>
                          (case exec_commit E d' of
                             (Inl err, d'') \<Rightarrow> (Inl (QueryError err), g\<lparr>db := d''\<rparr>)
                           | (Inr _, d'') \<Rightarrow> (Inr ids, invalidate_caches (g\<lparr>db := d''\<rparr>)))))))"

definition delete_edge ::
  "('d, 'j) engine \<Rightarrow> i64 \<Rightarrow> 'd sqlite_graph \<Rightarrow> unit outcome \<times> 'd sqlite_graph" where
  "delete_edge E i g =
     (case exec_delete_edge E i (db g) of
        (Inl err, d) \<Rightarrow> (Inl (QueryError err), g\<lparr>db := d\<rparr>)
      | (Inr affected, d) \<Rightarrow>
          if affected = 0 then (Inl (NotFound (''edge '' @ show_i64 i)), g\<lparr>db := d\<rparr>)
          else (Inr (), invalidate_caches (g\<lparr>db := d\<rparr>)))"

text \<open>An entity and its kind as a label.\<close>

definition insert_entity_row :: "('d, 'j) engine \<Rightarrow> 'j entity \<Rightarrow> 'd \<Rightarrow> i64 outcome \<times> 'd" where
  "insert_entity_row E e d =
     (case json_text E (ent_data e) of
        Inl err \<Rightarrow> (Inl err, d)
      | Inr data \<Rightarrow>
          (case exec_insert_entity E (ent_kind e) (ent_name e) (ent_path e) data d of
             (Inl err, d') \<Rightarrow> (Inl (QueryError err), d')
           | (Inr _, d') \<Rightarrow>
               let i = last_rowid E d'
               in if ent_kind e = [] then (Inr i, d')
                  else (case exec_insert_label E i (ent_kind e) d' of
                          (Inl err, d'') \<Rightarrow> (Inl (QueryError err), d'')
                        | (Inr _, d'') \<Rightarrow> (Inr i, d''))))"

definition insert_entity ::
  "('d, 'j) engine \<Rightarrow> 'j entity \<Rightarrow> 'd sqlite_graph \<Rightarrow> i64 outcome \<times> 'd sqlite_graph" where
  "insert_entity E e g =
     (case validate_entity e of
        Inl err \<Rightarrow> (Inl err, g)
      | Inr _ \<Rightarrow> (case insert_entity_row E e (db g) of (r, d) \<Rightarrow> (r, g\<lparr>db := d\<rparr>)))"

fun validate_entities :: "'j entity list \<Rightarrow> unit outcome" where
  "validate_entities [] = Inr ()"
| "validate_entities (e # es) =
     (case validate_entity e of Inl err \<Rightarrow> Inl err | Inr _ \<Rightarrow> validate_entities es)"

fun insert_entity_rows :: "('d, 'j) engine \<Rightarrow> 'j entity list \<Rightarrow> i64 list \<Rightarrow> 'd \<Rightarrow> i64 list outcome \<times> 'd" where
  "insert_entity_rows E [] ids d = (Inr ids, d)"
| "insert_entity_rows E (e # es) ids d =
     (case insert_entity_row E e d of
        (Inl err, d') \<Rightarrow> (Inl err, d')
      | (Inr i, d') \<Rightarrow> insert_entity_rows E es (ids @ [i]) d')"

definition insert_entities_bulk ::
  "('d, 'j) engine \<Rightarrow> 'j entity list \<Rightarrow> 'd sqlite_graph \<Rightarrow> i64 list outcome \<times> 'd sqlite_graph" where
  "insert_entities_bulk E es g =
     (if es = [] then (Inr [], g)
      else (case validate_entities es of
              Inl err \<Rightarrow> (Inl err, g)
            | Inr _ \<Rightarrow>
                (case exec_begin E (db g) of
                   (Inl err, d) \<Rightarrow> (Inl (QueryError err), g\<lparr>db := d\<rparr>)
                 | (Inr _, d) \<Rightarrow>
                     (case insert_entity_rows E es [] d of
                        (Inl err, d') \<Rightarrow> (Inl err, g\<lparr>db := exec_rollback E d'\<rparr>)
                      | (Inr ids, d') \<Rightarrow>
                          (case exec_commit E d' of
                             (Inl err, d'') \<Rightarrow> (Inl (QueryError err), g\<lparr>db := d''\<rparr>)
                           | (Inr _, d'') \<Rightarrow> (Inr ids, g\<lparr>db := d''\<rparr>))))))"

definition update_entity ::
  "('d, 'j) engine \<Rightarrow> 'j entity \<Rightarrow> 'd sqlite_graph \<Rightarrow> unit outcome \<times> 'd sqlite_graph" where
  "update_entity E e g =
     (if ent_id e \<le>s 0 then (Inl (InvalidInput ''entity id must be positive for update''), g)
      else (case validate_entity e of
              Inl err \<Rightarrow> (Inl err, g)
            | Inr _ \<Rightarrow>
                (case json_text E (ent_data e) of
                   Inl err \<Rightarrow> (Inl err, g)
                 | Inr data \<Rightarrow>
                     (case exec_update_entity E (ent_kind e) (ent_name e) (ent_path e) data (ent_id e) (db g) of
                        (Inl err, d) \<Rightarrow> (Inl (QueryError err), g\<lparr>db := d\<rparr>)
                      | (Inr affected, d) \<Rightarrow>
                          if affected = 0 then (Inl (NotFound (''entity '' @ show_i64 (ent_id e))), g\<lparr>db := d\<rparr>)
                          else (Inr (), g\<lparr>db := d\<rparr>)))))"

definition delete_entity ::
  "('d, 'j) engine \<Rightarrow> i64 \<Rightarrow> 'd sqlite_graph \<Rightarrow> unit outcome \<times> 'd sqlite_graph" where
  "delete_entity E i g =
     (case exec_delete_entity E i (db g) of
        (Inl err, d) \<Rightarrow> (Inl (QueryError err), g\<lparr>db := d\<rparr>)
      | (Inr affected, d) \<Rightarrow>
          if affected = 0 then (Inl (NotFound (''entity '' @ show_i64 i)), g\<lparr>db := d\<rparr>)
          else (case exec_delete_edges_of E i d of
                  (Inl err, d') \<Rightarrow> (Inl (QueryError err), g\<lparr>db := d'\<rparr>)
                | (Inr _, d') \<Rightarrow> (Inr (), invalidate_caches (g\<lparr>db := d'\<rparr>))))"

text \<open>Dropping cached lists by hand, \<open>graph_opt.rs\<close>.\<close>

fun cache_clear_ranges :: "i64 list \<Rightarrow> 'd sqlite_graph \<Rightarrow> 'd sqlite_graph" where
  "cache_clear_ranges [] g = g"
| "cache_clear_ranges (i # ids) g =
     cache_clear_ranges ids (g\<lparr>outgoing_cache := adj_remove i (outgoing_cache g),
       incoming_cache := adj_remove i (incoming_cache g)\<rparr>)"

text \<open>A snapshot copies the two cached adjacency maps.\<close>

definition update_snapshot :: "'d sqlite_graph \<Rightarrow> 'd sqlite_graph" where
  "update_snapshot g = g\<lparr>current := \<lparr>snap_outgoing = inner (outgoing_cache g),
     snap_incoming = inner (incoming_cache g)\<rparr>\<rparr>"

definition acquire_snapshot :: "'d sqlite_graph \<Rightarrow> snapshot_state \<times> 'd sqlite_graph" where
  "acquire_snapshot g = (let g' = update_snapshot g in (current g', g'))"

section \<open>The backend\<close>

text \<open>
  Every read of the backend takes a snapshot id, of which only 0 is supported. Three searches look in the
  query cache first and put a new result there.
\<close>

definition validate_snapshot :: "u64 \<Rightarrow> unit outcome" where
  "validate_snapshot lsn =
     (if lsn = 0 then Inr ()
      else Inl (QueryError (''SQLite backend does not support historical snapshots (requested: '' @
        show_nat (unat lsn) @ ''). Only SnapshotId::current() (which returns SnapshotId(0)) is supported. '' @
        ''Historical snapshot isolation requires AS OF queries or MVCC which are not implemented.'')))"

definition backend_neighbors ::
  "('d, 'j) engine \<Rightarrow> u64 \<Rightarrow> i64 \<Rightarrow> backend_direction \<Rightarrow> rust_string option \<Rightarrow> 'd sqlite_graph \<Rightarrow>
   i64 list outcome \<times> 'd sqlite_graph" where
  "backend_neighbors E lsn node dir kind g =
     (case validate_snapshot lsn of
        Inl e \<Rightarrow> (Inl e, g)
      | Inr _ \<Rightarrow> query_neighbors E dir kind node g)"

definition backend_bfs ::
  "('d, 'j) engine \<Rightarrow> u64 \<Rightarrow> i64 \<Rightarrow> u32 \<Rightarrow> 'd sqlite_graph \<Rightarrow> i64 list outcome \<times> 'd sqlite_graph" where
  "backend_bfs E lsn start depth g =
     (case validate_snapshot lsn of
        Inl e \<Rightarrow> (Inl e, g)
      | Inr _ \<Rightarrow>
          (case get_bfs start depth (query_cache g) of
             Some r \<Rightarrow> (Inr r, g)
           | None \<Rightarrow>
               (case bfs_neighbors E start depth g of
                  (Inl e, g') \<Rightarrow> (Inl e, g')
                | (Inr r, g') \<Rightarrow> (Inr r, g'\<lparr>query_cache := put_bfs start depth r (query_cache g')\<rparr>))))"

definition backend_shortest_path ::
  "('d, 'j) engine \<Rightarrow> u64 \<Rightarrow> i64 \<Rightarrow> i64 \<Rightarrow> 'd sqlite_graph \<Rightarrow> (i64 list option outcome \<times> 'd sqlite_graph) option" where
  "backend_shortest_path E lsn start stop g =
     (case validate_snapshot lsn of
        Inl e \<Rightarrow> Some (Inl e, g)
      | Inr _ \<Rightarrow>
          (case get_shortest_path start stop (query_cache g) of
             Some r \<Rightarrow> Some (Inr r, g)
           | None \<Rightarrow>
               (case shortest_path E start stop g of
                  None \<Rightarrow> None
                | Some (Inl e, g') \<Rightarrow> Some (Inl e, g')
                | Some (Inr r, g') \<Rightarrow>
                    Some (Inr r, g'\<lparr>query_cache := put_shortest_path start stop r (query_cache g')\<rparr>))))"

definition backend_node_degree ::
  "('d, 'j) engine \<Rightarrow> u64 \<Rightarrow> i64 \<Rightarrow> 'd sqlite_graph \<Rightarrow> (nat \<times> nat) outcome \<times> 'd sqlite_graph" where
  "backend_node_degree E lsn node g =
     (case validate_snapshot lsn of
        Inl e \<Rightarrow> (Inl e, g)
      | Inr _ \<Rightarrow>
          (case fetch_outgoing E node g of
             (Inl e, g') \<Rightarrow> (Inl e, g')
           | (Inr out, g') \<Rightarrow> map_ok (\<lambda>incoming. (length out, length incoming)) (fetch_incoming E node g')))"

definition backend_k_hop ::
  "('d, 'j) engine \<Rightarrow> u64 \<Rightarrow> i64 \<Rightarrow> u32 \<Rightarrow> backend_direction \<Rightarrow> 'd sqlite_graph \<Rightarrow> i64 list outcome \<times> 'd sqlite_graph" where
  "backend_k_hop E lsn start depth dir g =
     (case validate_snapshot lsn of
        Inl e \<Rightarrow> (Inl e, g)
      | Inr _ \<Rightarrow>
          (case get_k_hop start depth dir (query_cache g) of
             Some r \<Rightarrow> (Inr r, g)
           | None \<Rightarrow>
               (case k_hop E start depth dir g of
                  (Inl e, g') \<Rightarrow> (Inl e, g')
                | (Inr r, g') \<Rightarrow> (Inr r, g'\<lparr>query_cache := put_k_hop start depth dir r (query_cache g')\<rparr>))))"

definition backend_k_hop_filtered ::
  "('d, 'j) engine \<Rightarrow> u64 \<Rightarrow> i64 \<Rightarrow> u32 \<Rightarrow> backend_direction \<Rightarrow> rust_string list \<Rightarrow> 'd sqlite_graph \<Rightarrow>
   i64 list outcome \<times> 'd sqlite_graph" where
  "backend_k_hop_filtered E lsn start depth dir types g =
     (case validate_snapshot lsn of
        Inl e \<Rightarrow> (Inl e, g)
      | Inr _ \<Rightarrow>
          (case get_k_hop_filtered start depth dir types (query_cache g) of
             Some r \<Rightarrow> (Inr r, g)
           | None \<Rightarrow>
               (case k_hop_filtered E start depth dir types g of
                  (Inl e, g') \<Rightarrow> (Inl e, g')
                | (Inr r, g') \<Rightarrow>
                    (Inr r, g'\<lparr>query_cache := put_k_hop_filtered start depth dir types r (query_cache g')\<rparr>))))"

definition backend_chain_query ::
  "('d, 'j) engine \<Rightarrow> u64 \<Rightarrow> i64 \<Rightarrow> chain_step list \<Rightarrow> 'd sqlite_graph \<Rightarrow> i64 list outcome \<times> 'd sqlite_graph" where
  "backend_chain_query E lsn start chain g =
     (case validate_snapshot lsn of
        Inl e \<Rightarrow> (Inl e, g)
      | Inr _ \<Rightarrow> chain_query (map (step_fetch E) chain) start g)"

text \<open>\<open>connected_components\<close> of \<open>structure.rs\<close> is the same search as \<open>wcc.rs\<close>, over the graph.\<close>

definition graph_components ::
  "('d, 'j) engine \<Rightarrow> 'd sqlite_graph \<Rightarrow> i64 list list outcome \<times> 'd sqlite_graph" where
  "graph_components E =
     weakly_connected_components (\<lambda>g. (all_entity_ids E g, g)) (fetch_outgoing E) (fetch_incoming E)"

text \<open>The operations of a client, one after the other.\<close>

datatype 'j graph_op =
  GetEntity i64
| InsertEntity "'j entity"
| InsertEntities "'j entity list"
| UpdateEntity "'j entity"
| DeleteEntity i64
| InsertEdge "'j edge"
| InsertEdges "'j edge list"
| GetEdge i64
| DeleteEdge i64
| Neighbors i64 backend_direction "rust_string option"
| NodeDegree i64
| Bfs i64 u32
| BfsFiltered i64 u32 "rust_string list" backend_direction
| KHop i64 u32 backend_direction
| KHopFiltered i64 u32 backend_direction "rust_string list"
| ShortestPath i64 i64
| ShortestPathFiltered i64 i64 "rust_string list"
| ChainQuery i64 "chain_step list"
| Components
| ClearRanges "i64 list"

datatype 'j reply =
  Done
| NewId i64
| Ids "i64 list"
| OptPath "i64 list option"
| EntityReply "'j entity"
| EdgeReply "'j edge"
| DegreeReply nat nat
| Groups "i64 list list"

fun exec :: "('d, 'j) engine \<Rightarrow> 'j graph_op \<Rightarrow> 'd sqlite_graph \<Rightarrow> ('j reply outcome \<times> 'd sqlite_graph) option" where
  "exec E (GetEntity i) g = Some (map_ok EntityReply (get_entity E i g, g))"
| "exec E (InsertEntity e) g = Some (map_ok NewId (insert_entity E e g))"
| "exec E (InsertEntities es) g = Some (map_ok Ids (insert_entities_bulk E es g))"
| "exec E (UpdateEntity e) g = Some (map_ok (\<lambda>_. Done) (update_entity E e g))"
| "exec E (DeleteEntity i) g = Some (map_ok (\<lambda>_. Done) (delete_entity E i g))"
| "exec E (InsertEdge e) g = Some (map_ok NewId (sqlite_insert_edge E e g))"
| "exec E (InsertEdges es) g = Some (map_ok Ids (insert_edges_bulk E es g))"
| "exec E (GetEdge i) g = Some (map_ok EdgeReply (get_edge E i g, g))"
| "exec E (DeleteEdge i) g = Some (map_ok (\<lambda>_. Done) (delete_edge E i g))"
| "exec E (Neighbors i dir kind) g = Some (map_ok Ids (backend_neighbors E 0 i dir kind g))"
| "exec E (NodeDegree i) g = Some (map_ok (\<lambda>(a, b). DegreeReply a b) (backend_node_degree E 0 i g))"
| "exec E (Bfs i depth) g = Some (map_ok Ids (backend_bfs E 0 i depth g))"
| "exec E (BfsFiltered i depth types dir) g = Some (map_ok Ids (bfs_neighbors_filtered E i depth types dir g))"
| "exec E (KHop i depth dir) g = Some (map_ok Ids (backend_k_hop E 0 i depth dir g))"
| "exec E (KHopFiltered i depth dir types) g = Some (map_ok Ids (backend_k_hop_filtered E 0 i depth dir types g))"
| "exec E (ShortestPath i j) g = map_option (map_ok OptPath) (backend_shortest_path E 0 i j g)"
| "exec E (ShortestPathFiltered i j types) g = map_option (map_ok OptPath) (shortest_path_filtered E i j types g)"
| "exec E (ChainQuery i chain) g = Some (map_ok Ids (backend_chain_query E 0 i chain g))"
| "exec E Components g = Some (map_ok Groups (graph_components E g))"
| "exec E (ClearRanges ids) g = Some (Inr Done, cache_clear_ranges ids g)"

fun exec_all ::
  "('d, 'j) engine \<Rightarrow> 'j graph_op list \<Rightarrow> 'd sqlite_graph \<Rightarrow> ('j reply outcome list \<times> 'd sqlite_graph) option" where
  "exec_all E [] g = Some ([], g)"
| "exec_all E (p # ps) g =
     (case exec E p g of
        None \<Rightarrow> None
      | Some (r, g') \<Rightarrow> (case exec_all E ps g' of None \<Rightarrow> None | Some (rs, g'') \<Rightarrow> Some (r # rs, g'')))"

end
