(* ===== verification/Search_Defined.thy ===== *)
theory Search_Defined
  imports Search_Correct
begin

text \<open>
  A search that returns a result met no failing fetch: it returns what it would if the failing rows
  were empty.
\<close>

definition succ_of :: "(i64 \<Rightarrow> 'e + i64 list) \<Rightarrow> i64 \<Rightarrow> i64 list" where
  "succ_of rows n = (case rows n of Inl _ \<Rightarrow> [] | Inr ns \<Rightarrow> ns)"

lemma succ_of_Inr [simp]: "rows n = Inr ns \<Longrightarrow> succ_of rows n = ns"
  by (simp add: succ_of_def)

abbreviation defined_fetch :: "(i64 \<Rightarrow> 'e + i64 list) \<Rightarrow> (unit, 'e) fetcher" where
  "defined_fetch rows \<equiv> total_fetch (succ_of rows)"

lemma bfs_loop_defined:
  "bfs_loop (pure_fetch rows) m q A vis () = (Inr r, ()) \<Longrightarrow> bfs_loop (defined_fetch rows) m q A vis () = (Inr r, ())"
proof (induction "pure_fetch rows" m q A vis "()" rule: bfs_loop.induct)
  case (2 m v d q A vis)
  then show ?case by (cases "rows v"; cases "m \<le> d") (auto simp: pure_fetch_def push_new_eq)
qed simp

lemma k_hop_loop_defined:
  "k_hop_loop (pure_fetch rows) m q A vis () = (Inr r, ()) \<Longrightarrow> k_hop_loop (defined_fetch rows) m q A vis () = (Inr r, ())"
proof (induction "pure_fetch rows" m q A vis "()" rule: k_hop_loop.induct)
  case (2 m v d q A vis)
  then show ?case by (cases "rows v"; cases "d = m") (auto simp: pure_fetch_def push_ordered_eq)
qed simp

lemma extend_all_defined:
  "extend_all (pure_fetch rows) ns () = (Inr r, ()) \<Longrightarrow> extend_all (defined_fetch rows) ns () = (Inr r, ())"
  by (induction ns arbitrary: r) (auto simp: pure_fetch_def map_ok_def split: sum.splits prod.splits)

lemma parents_loop_defined:
  "parents_loop (pure_fetch rows) e q A P () = (Inr r, ()) \<Longrightarrow>
   parents_loop (defined_fetch rows) e q A P () = (Inr r, ())"
proof (induction "pure_fetch rows" e q A P "()" rule: parents_loop.induct)
  case (2 e v q A P)
  then show ?case by (cases "rows v") (auto simp: pure_fetch_def split: bool.splits prod.splits)
qed simp

lemma component_loop_defined:
  "component_loop (pure_fetch rows) (pure_fetch rows') q A c () = (Inr r, ()) \<Longrightarrow>
   component_loop (defined_fetch rows) (defined_fetch rows') q A c () = (Inr r, ())"
proof (induction "pure_fetch rows" "pure_fetch rows'" q A c "()" rule: component_loop.induct)
  case (2 v q A c)
  then show ?case by (cases "rows v"; cases "rows' v") (auto simp: pure_fetch_def push_seen_eq)
qed simp

lemma components_loop_defined:
  "components_loop (pure_fetch rows) (pure_fetch rows') ids A cs () = (Inr r, ()) \<Longrightarrow>
   components_loop (defined_fetch rows) (defined_fetch rows') ids A cs () = (Inr r, ())"
proof (induction ids arbitrary: A cs)
  case (Cons v ids)
  show ?case
  proof (cases "v \<in> A")
    case False
    then obtain c B where c: "component_loop (pure_fetch rows) (pure_fetch rows') [v] (insert v A) [] () = (Inr (c, B), ())"
      using Cons.prems by (auto split: prod.splits sum.splits simp del: component_loop.simps)
    with Cons False show ?thesis
      by (simp add: component_loop_defined [OF c] del: component_loop.simps)
  qed (use Cons in simp)
qed simp

section \<open>Whole searches over a store\<close>

context adjacency
begin

lemma bfs_search_answers: "good s \<Longrightarrow> answers s (bfs_search (pure_fetch (rows s)) a m ()) (bfs_search fetch a m s)"
  unfolding bfs_search_def by (rule bfs_loop_answers)

lemma k_hop_internal_answers:
  "good s \<Longrightarrow> answers s (k_hop_internal (pure_fetch (rows s)) a m ()) (k_hop_internal fetch a m s)"
  by (simp add: k_hop_internal_def answersI answers_map_ok k_hop_loop_answers del: k_hop_loop.simps)

lemma path_search_answers:
  assumes "good s"
  shows "rel_option (answers s) (path_search (pure_fetch (rows s)) a b ()) (path_search fetch a b s)"
proof (cases "a = b")
  case True
  then show ?thesis using assms by (simp add: path_search_def answersI)
next
  case False
  let ?p = "parents_loop (pure_fetch (rows s)) b [a] {a} (\<lambda>_. None) ()"
  let ?r = "parents_loop fetch b [a] {a} (\<lambda>_. None) s"
  have "answers s ?p ?r" using assms by (rule parents_loop_answers)
  then have r: "fst ?p = fst ?r" "good (snd ?r)" "rows (snd ?r) = rows s" by (simp_all add: answers_def)
  obtain x s' where x: "?r = (x, s')" by (cases ?r)
  with r have p: "?p = (x, ())" by (cases ?p) (simp del: parents_loop.simps)
  show ?thesis
  proof (cases x)
    case (Inl e)
    then show ?thesis using False p x r by (simp add: path_search_def answers_def del: parents_loop.simps)
  next
    case (Inr y)
    obtain found P where y: "y = (found, P)" by (cases y)
    show ?thesis
      using False p x r Inr y
      by (cases "path_back P a b [b]") (simp_all add: path_search_def answers_def del: parents_loop.simps)
  qed
qed

end

context adjacency_pair
begin

lemma components_answers:
  assumes "good s" "ids s = (r, s)"
  shows "pair_answers s
    (weakly_connected_components (\<lambda>u. (r, u)) (pure_fetch (rows_out s)) (pure_fetch (rows_in s)) ())
    (weakly_connected_components ids fetch_out fetch_in s)"
proof (cases r)
  case (Inl e)
  then show ?thesis using assms by (simp add: weakly_connected_components_def pair_answers_def)
next
  case (Inr ns)
  let ?p = "components_loop (pure_fetch (rows_out s)) (pure_fetch (rows_in s)) ns {} [] ()"
  obtain x s' where x: "components_loop fetch_out fetch_in ns {} [] s = (x, s')" by fastforce
  then have x': "?p = (x, ())" "good s'" "rows_out s' = rows_out s" "rows_in s' = rows_in s"
    using components_loop_answers [OF assms(1), of ns "{}" "[]"] by (auto simp: pair_answers_def prod_eq_iff)
  show ?thesis
    using assms(2) Inr x x' by (cases x) (simp_all add: weakly_connected_components_def pair_answers_def map_ok_def)
qed

end

section \<open>What a search that returns has found\<close>

text \<open>
  The nodes within \<open>m\<close> edges of the start: each once, layer after layer, the start first.
\<close>

theorem bfs_search_defined:
  assumes "bfs_search (pure_fetch rows) a m () = (Inr ns, ())"
  shows "ns = map fst (traverse (succ_of rows) (Some (unat m)) (at_depth 0 [a]) (set [a]))"
proof -
  have "bfs_search (defined_fetch rows) a m () = (Inr ns, ())"
    using assms unfolding bfs_search_def by (rule bfs_loop_defined)
  then show ?thesis by (simp only: bfs_search_total prod.inject sum.inject)
qed

lemma k_hop_internal_defined:
  assumes "k_hop_internal (pure_fetch rows) a m () = (Inr ns, ())"
  shows "k_hop_internal (defined_fetch rows) a m () = (Inr ns, ())"
proof (cases "m = 0")
  case False
  then obtain ord where "k_hop_loop (pure_fetch rows) (unat m) [(a, 0)] {a} [] () = (Inr ord, ())" "ns = level_order ord"
    using assms by (auto simp: k_hop_internal_def map_ok_def split: prod.splits sum.splits)
  then show ?thesis using False by (simp add: k_hop_internal_def map_ok_def k_hop_loop_defined del: k_hop_loop.simps)
qed (use assms in \<open>simp add: k_hop_internal_def\<close>)

lemma path_search_defined:
  assumes "path_search (pure_fetch rows) a b () = Some (Inr r, ())"
  shows "path_search (defined_fetch rows) a b () = Some (Inr r, ())"
proof (cases "a = b")
  case False
  obtain x where x: "parents_loop (pure_fetch rows) b [a] {a} (\<lambda>_. None) () = (x, ())"
    by (cases "parents_loop (pure_fetch rows) b [a] {a} (\<lambda>_. None) ()") (auto simp del: parents_loop.simps)
  show ?thesis
  proof (cases x)
    case (Inl e)
    then show ?thesis using assms False x by (simp add: path_search_def del: parents_loop.simps)
  next
    case (Inr y)
    with x have "parents_loop (defined_fetch rows) b [a] {a} (\<lambda>_. None) () = (Inr y, ())"
      by (intro parents_loop_defined) simp
    then show ?thesis using assms False x Inr by (simp add: path_search_def del: parents_loop.simps)
  qed
qed (use assms in \<open>simp add: path_search_def\<close>)

text \<open>The walk back over the parents always ends.\<close>

lemma path_search_returns: "path_search (pure_fetch rows) a b () \<noteq> None"
proof (cases "a = b")
  case False
  obtain x where x: "parents_loop (pure_fetch rows) b [a] {a} (\<lambda>_. None) () = (x, ())"
    by (cases "parents_loop (pure_fetch rows) b [a] {a} (\<lambda>_. None) ()") (auto simp del: parents_loop.simps)
  show ?thesis
  proof (cases x)
    case (Inl e)
    then show ?thesis using False x by (simp add: path_search_def del: parents_loop.simps)
  next
    case (Inr y)
    with x have y: "parents_loop (defined_fetch rows) b [a] {a} (\<lambda>_. None) () = (Inr y, ())"
      by (intro parents_loop_defined) simp
    have "path_search (defined_fetch rows) a b () \<noteq> None"
      using path_search_total [of "succ_of rows" a b] by auto
    then show ?thesis using False x Inr y
      by (auto simp: path_search_def simp del: parents_loop.simps split: prod.splits option.splits)
  qed
qed (simp add: path_search_def)

lemma chain_loop_defined:
  "chain_loop (map pure_fetch rowss) ns () = (Inr r, ()) \<Longrightarrow>
   chain_loop (map (\<lambda>rows. defined_fetch rows) rowss) ns () = (Inr r, ())"
proof (induction rowss arbitrary: ns)
  case (Cons rows rowss)
  obtain x where x: "extend_all (pure_fetch rows) ns () = (Inr x, ())"
    using Cons.prems by (cases "extend_all (pure_fetch rows) ns ()") (auto split: sum.splits)
  then show ?case using Cons extend_all_defined [OF x] by (auto split: if_splits)
qed simp

lemma chain_query_defined:
  "chain_query (map pure_fetch rowss) a () = (Inr r, ()) \<Longrightarrow>
   chain_query (map (\<lambda>rows. defined_fetch rows) rowss) a () = (Inr r, ())"
  using chain_loop_defined [of rowss "[a]" r] by (auto simp: chain_query_def)

end
