(* ===== verification/Sqlite_Cache.thy ===== *)
theory Sqlite_Cache
  imports Sqlite_Graph Search_Defined
begin

text \<open>
  The caches of the SQLite graph never change an answer: the coherence of the caches with the database,
  what each read returns from a coherent graph, and the laws of the statements under which every
  operation keeps coherence.
\<close>

section \<open>Coherence\<close>

definition out_rows :: "('d, 'j) engine \<Rightarrow> 'd \<Rightarrow> i64 \<Rightarrow> i64 list outcome" where
  "out_rows E d n = err_with QueryError (select_to E d n)"

definition in_rows :: "('d, 'j) engine \<Rightarrow> 'd \<Rightarrow> i64 \<Rightarrow> i64 list outcome" where
  "in_rows E d n = err_with QueryError (select_from E d n)"

definition cold :: "'d \<Rightarrow> 'd sqlite_graph" where
  "cold d = \<lparr>db = d, outgoing_cache = adj_new, incoming_cache = adj_new, query_cache = Map.empty,
     current = \<lparr>snap_outgoing = Map.empty, snap_incoming = Map.empty\<rparr>\<rparr>"

lemma cold_simps [simp]: "db (cold d) = d" "query_cache (cold d) = Map.empty"
  "outgoing_cache (cold d) = adj_new" "incoming_cache (cold d) = adj_new"
  by (simp_all add: cold_def)

abbreviation entity_at :: "('d, 'j) engine \<Rightarrow> 'd \<Rightarrow> i64 \<Rightarrow> 'j entity outcome" where
  "entity_at E d i \<equiv> get_entity E i (cold d)"

lemma get_entity_db: "get_entity E i g = entity_at E (db g) i"
  by (simp add: get_entity_def)

lemma get_edge_db: "get_edge E i g = get_edge E i (cold (db g))"
  by (simp add: get_edge_def)

text \<open>The rows a fetch stands for, and the answers of the four cached searches, from the database alone.\<close>

definition dir_rows ::
  "('d, 'j) engine \<Rightarrow> 'd \<Rightarrow> backend_direction \<Rightarrow> rust_string set option \<Rightarrow> i64 \<Rightarrow> i64 list outcome" where
  "dir_rows E d dir allowed n =
     (case allowed of
        None \<Rightarrow> (case dir of Outgoing \<Rightarrow> out_rows E d n | Incoming \<Rightarrow> in_rows E d n)
      | Some A \<Rightarrow> fst (filter_neighbors E dir A n (cold d)))"

definition if_entity :: "'j entity outcome \<Rightarrow> 'a outcome \<Rightarrow> 'a outcome" where
  "if_entity e r = (case e of Inl err \<Rightarrow> Inl err | Inr _ \<Rightarrow> r)"

definition bfs_answer :: "('d, 'j) engine \<Rightarrow> 'd \<Rightarrow> i64 \<Rightarrow> u32 \<Rightarrow> i64 list outcome" where
  "bfs_answer E d start m =
     if_entity (entity_at E d start) (fst (bfs_search (pure_fetch (out_rows E d)) start m ()))"

definition k_hop_answer ::
  "('d, 'j) engine \<Rightarrow> 'd \<Rightarrow> i64 \<Rightarrow> u32 \<Rightarrow> backend_direction \<Rightarrow> rust_string set option \<Rightarrow> i64 list outcome" where
  "k_hop_answer E d start m dir allowed =
     fst (k_hop_internal (pure_fetch (dir_rows E d dir allowed)) start m ())"

definition path_answer :: "('d, 'j) engine \<Rightarrow> 'd \<Rightarrow> i64 \<Rightarrow> i64 \<Rightarrow> i64 list option outcome option" where
  "path_answer E d start stop =
     (case entity_at E d start of
        Inl err \<Rightarrow> Some (Inl err)
      | Inr _ \<Rightarrow>
          (case entity_at E d stop of
             Inl err \<Rightarrow> Some (Inl err)
           | Inr _ \<Rightarrow> map_option fst (path_search (pure_fetch (out_rows E d)) start stop ())))"

fun cached_right :: "('d, 'j) engine \<Rightarrow> 'd \<Rightarrow> query_key \<Rightarrow> query_result \<Rightarrow> bool" where
  "cached_right E d (BfsKey start m) r \<longleftrightarrow> (\<exists>v. r = BfsResult v \<and> bfs_answer E d start m = Inr v)"
| "cached_right E d (KHopKey start m dir) r \<longleftrightarrow> (\<exists>v. r = KHopResult v \<and> k_hop_answer E d start m dir None = Inr v)"
| "cached_right E d (KHopFilteredKey start m dir types) r \<longleftrightarrow>
     (\<exists>v. r = KHopResult v \<and>
        (if types = [] then v = [] else k_hop_answer E d start m dir (Some (set types)) = Inr v))"
| "cached_right E d (ShortestPathKey start stop) r \<longleftrightarrow>
     (\<exists>v. r = ShortestPathResult v \<and> path_answer E d start stop = Some (Inr v))"

definition coherent :: "('d, 'j) engine \<Rightarrow> 'd sqlite_graph \<Rightarrow> bool" where
  "coherent E g \<longleftrightarrow>
     (\<forall>n v. inner (outgoing_cache g) n = Some v \<longrightarrow> select_to E (db g) n = Inr v) \<and>
     (\<forall>n v. inner (incoming_cache g) n = Some v \<longrightarrow> select_from E (db g) n = Inr v) \<and>
     (\<forall>k r. query_cache g k = Some r \<longrightarrow> cached_right E (db g) k r)"

lemma coherent_cold [simp]: "coherent E (cold d)"
  by (simp add: coherent_def adj_new_def)

text \<open>A fetch moves the caches only.\<close>

definition frame :: "('d, 'j) engine \<Rightarrow> 'd \<Rightarrow> query_cache \<Rightarrow> 'd sqlite_graph \<Rightarrow> bool" where
  "frame E d q g \<longleftrightarrow> coherent E g \<and> db g = d \<and> query_cache g = q"

lemma fetch_outgoing_coherent:
  assumes "coherent E g"
  shows "\<exists>g'. fetch_outgoing E n g = (out_rows E (db g) n, g') \<and> coherent E g' \<and> db g' = db g \<and>
    query_cache g' = query_cache g"
  using assms
  by (auto simp: fetch_outgoing_def adj_get_def adj_insert_def out_rows_def coherent_def
      split: option.split sum.split)

lemma fetch_incoming_coherent:
  assumes "coherent E g"
  shows "\<exists>g'. fetch_incoming E n g = (in_rows E (db g) n, g') \<and> coherent E g' \<and> db g' = db g \<and>
    query_cache g' = query_cache g"
  using assms
  by (auto simp: fetch_incoming_def adj_get_def adj_insert_def in_rows_def coherent_def
      split: option.split sum.split)

lemma filter_neighbors_frame: "filter_neighbors E dir A n g = (fst (filter_neighbors E dir A n (cold (db g))), g)"
  by (cases dir) (auto simp: filter_neighbors_def split: sum.split)

lemma typed_adjacency_coherent:
  assumes "coherent E g"
  shows "\<exists>g'. typed_adjacency E dir allowed n g = (dir_rows E (db g) dir allowed n, g') \<and> coherent E g' \<and>
    db g' = db g \<and> query_cache g' = query_cache g"
proof (cases allowed)
  case None
  then show ?thesis
    using fetch_outgoing_coherent [OF assms, of n] fetch_incoming_coherent [OF assms, of n]
    by (simp add: typed_adjacency_def dir_rows_def split: backend_direction.split)
next
  case (Some A)
  then have "typed_adjacency E dir allowed n g = (dir_rows E (db g) dir allowed n, g)"
    using filter_neighbors_frame [of E dir A n g] by (simp add: typed_adjacency_def dir_rows_def)
  with assms show ?thesis by blast
qed

interpretation out: adjacency "fetch_outgoing E" "\<lambda>g. out_rows E (db g)" "frame E d q" for E d q
  using fetch_outgoing_coherent by unfold_locales (fastforce simp: frame_def)

interpretation typed: adjacency "typed_adjacency E dir allowed" "\<lambda>g. dir_rows E (db g) dir allowed" "frame E d q"
  for E dir allowed d q
  using typed_adjacency_coherent by unfold_locales (fastforce simp: frame_def)

interpretation graph: adjacency_pair "fetch_outgoing E" "fetch_incoming E"
  "\<lambda>g. out_rows E (db g)" "\<lambda>g. in_rows E (db g)" "frame E d q" for E d q
proof unfold_locales
  fix n g
  assume "frame E d q g"
  then have g: "coherent E g" "db g = d" "query_cache g = q" by (simp_all add: frame_def)
  show "\<exists>g'. fetch_incoming E n g = (in_rows E (db g) n, g') \<and> frame E d q g' \<and> in_rows E (db g') = in_rows E (db g)"
    using fetch_incoming_coherent [OF g(1), of n] g by (auto simp: frame_def)
  show "in_rows E (db g') = in_rows E (db g)" if "fetch_outgoing E n g = (r, g')" for r g'
    using fetch_outgoing_coherent [OF g(1), of n] that by auto
  show "out_rows E (db g') = out_rows E (db g)" if "fetch_incoming E n g = (r, g')" for r g'
    using fetch_incoming_coherent [OF g(1), of n] that by auto
qed

section \<open>Reads from a coherent graph\<close>

text \<open>\<open>reads E g x r\<close>: the outcome \<open>r\<close> has the answer \<open>x\<close>, and leaves a coherent graph on the same database.\<close>

definition reads :: "('d, 'j) engine \<Rightarrow> 'd sqlite_graph \<Rightarrow> 'x \<Rightarrow> 'x \<times> 'd sqlite_graph \<Rightarrow> bool" where
  "reads E g x r \<longleftrightarrow> fst r = x \<and> frame E (db g) (query_cache g) (snd r)"

lemma start_frame: "coherent E g \<Longrightarrow> frame E (db g) (query_cache g) g"
  by (simp add: frame_def)

lemma reads_same: "coherent E g \<Longrightarrow> reads E g x (x, g)"
  by (simp add: reads_def start_frame)

lemma readsE:
  assumes "reads E g x r"
  obtains g' where "r = (x, g')" "coherent E g'" "db g' = db g" "query_cache g' = query_cache g"
  using assms by (cases r) (auto simp: reads_def frame_def)

lemma bfs_neighbors_reads:
  assumes "coherent E g"
  shows "reads E g (bfs_answer E (db g) a m) (bfs_neighbors E a m g)"
  using out.bfs_search_answers [OF start_frame [OF assms], of a m] assms
  by (auto simp: reads_def out.answers_def bfs_neighbors_def bfs_answer_def if_entity_def get_entity_db [of E a g]
      start_frame split: sum.split)

definition bfs_filtered_answer ::
  "('d, 'j) engine \<Rightarrow> 'd \<Rightarrow> i64 \<Rightarrow> u32 \<Rightarrow> rust_string list \<Rightarrow> backend_direction \<Rightarrow> i64 list outcome" where
  "bfs_filtered_answer E d start m types dir =
     if_entity (entity_at E d start)
       (if types = [] then Inr [] else fst (bfs_search (pure_fetch (dir_rows E d dir (Some (set types)))) start m ()))"

lemma bfs_neighbors_filtered_reads:
  assumes "coherent E g"
  shows "reads E g (bfs_filtered_answer E (db g) a m types dir) (bfs_neighbors_filtered E a m types dir g)"
  using typed.bfs_search_answers [OF start_frame [OF assms], of dir "Some (set types)" a m] assms
  by (auto simp: reads_def typed.answers_def bfs_neighbors_filtered_def bfs_filtered_answer_def if_entity_def
      get_entity_db [of E a g] start_frame split: sum.split)

lemma k_hop_reads:
  assumes "coherent E g"
  shows "reads E g (k_hop_answer E (db g) a m dir None) (k_hop E a m dir g)"
  using typed.k_hop_internal_answers [OF start_frame [OF assms], of dir None a m]
  by (simp add: reads_def typed.answers_def k_hop_def k_hop_answer_def)

lemma k_hop_filtered_reads:
  assumes "coherent E g"
  shows "reads E g (if types = [] then Inr [] else k_hop_answer E (db g) a m dir (Some (set types)))
    (k_hop_filtered E a m dir types g)"
  using typed.k_hop_internal_answers [OF start_frame [OF assms], of dir "Some (set types)" a m] assms
  by (simp add: reads_def typed.answers_def k_hop_filtered_def k_hop_answer_def start_frame)

lemma path_search_pure: "\<exists>x. path_search (pure_fetch rows) a b () = Some (x, ())"
  using path_search_returns [of rows a b] by auto

lemma shortest_path_reads:
  assumes "coherent E g"
  shows "\<exists>x r. path_answer E (db g) a b = Some x \<and> shortest_path E a b g = Some r \<and> reads E g x r"
proof -
  obtain x where x: "path_search (pure_fetch (out_rows E (db g))) a b () = Some (x, ())"
    using path_search_pure by blast
  with out.path_search_answers [OF start_frame [OF assms], of a b]
  obtain r where r: "path_search (fetch_outgoing E) a b g = Some r" "reads E g x r"
    by (auto simp: reads_def out.answers_def option_rel_Some1)
  with x show ?thesis
    by (auto simp: path_answer_def shortest_path_def get_entity_db [of E a g] get_entity_db [of E b g]
        reads_same [OF assms] split: sum.split simp del: split_paired_Ex)
qed

definition path_filtered_answer ::
  "('d, 'j) engine \<Rightarrow> 'd \<Rightarrow> i64 \<Rightarrow> i64 \<Rightarrow> rust_string list \<Rightarrow> i64 list option outcome option" where
  "path_filtered_answer E d start stop types =
     (case entity_at E d start of
        Inl err \<Rightarrow> Some (Inl err)
      | Inr _ \<Rightarrow>
          (case entity_at E d stop of
             Inl err \<Rightarrow> Some (Inl err)
           | Inr _ \<Rightarrow>
               if start = stop then Some (Inr (Some [start]))
               else if types = [] then Some (Inr None)
               else map_option fst (path_search (pure_fetch (dir_rows E d Outgoing (Some (set types)))) start stop ())))"

lemma shortest_path_filtered_reads:
  assumes "coherent E g"
  shows "\<exists>x r. path_filtered_answer E (db g) a b types = Some x \<and>
    shortest_path_filtered E a b types g = Some r \<and> reads E g x r"
proof -
  let ?rows = "dir_rows E (db g) Outgoing (Some (set types))"
  obtain x where x: "path_search (pure_fetch ?rows) a b () = Some (x, ())"
    using path_search_pure by blast
  with typed.path_search_answers [OF start_frame [OF assms], of Outgoing "Some (set types)" a b]
  obtain r where r: "path_search (typed_adjacency E Outgoing (Some (set types))) a b g = Some r" "reads E g x r"
    by (auto simp: reads_def typed.answers_def option_rel_Some1)
  with x show ?thesis
    by (auto simp: path_filtered_answer_def shortest_path_filtered_def get_entity_db [of E a g]
        get_entity_db [of E b g] reads_same [OF assms] split: sum.split simp del: split_paired_Ex)
qed

definition components_answer :: "('d, 'j) engine \<Rightarrow> 'd \<Rightarrow> i64 list list outcome" where
  "components_answer E d =
     fst (weakly_connected_components (\<lambda>u. (err_with QueryError (select_entity_ids E d), u))
       (pure_fetch (out_rows E d)) (pure_fetch (in_rows E d)) ())"

lemma graph_components_reads:
  assumes "coherent E g"
  shows "reads E g (components_answer E (db g)) (graph_components E g)"
  using graph.components_answers [OF start_frame [OF assms], of "\<lambda>g. (all_entity_ids E g, g)"] 
  by (simp add: reads_def graph.pair_answers_def graph_components_def components_answer_def all_entity_ids_def)

definition neighbors_answer ::
  "('d, 'j) engine \<Rightarrow> 'd \<Rightarrow> i64 \<Rightarrow> backend_direction \<Rightarrow> rust_string option \<Rightarrow> i64 list outcome" where
  "neighbors_answer E d node dir kind = fst (query_neighbors E dir kind node (cold d))"

lemma query_neighbors_reads:
  assumes "coherent E g"
  shows "reads E g (neighbors_answer E (db g) n dir kind) (query_neighbors E dir kind n g)"
  using fetch_outgoing_coherent [OF assms, of n] fetch_incoming_coherent [OF assms, of n]
    fetch_outgoing_coherent [OF coherent_cold [of E "db g"], of n]
    fetch_incoming_coherent [OF coherent_cold [of E "db g"], of n] assms
  by (cases dir; cases kind) (auto simp: query_neighbors_def neighbors_answer_def reads_def frame_def)

definition degree_answer :: "('d, 'j) engine \<Rightarrow> 'd \<Rightarrow> i64 \<Rightarrow> (nat \<times> nat) outcome" where
  "degree_answer E d node = fst (backend_node_degree E 0 node (cold d))"

lemma node_degree_pure:
  assumes "coherent E g"
  shows "reads E g
    (case out_rows E (db g) n of Inl e \<Rightarrow> Inl e
     | Inr out \<Rightarrow> (case in_rows E (db g) n of Inl e \<Rightarrow> Inl e | Inr inc \<Rightarrow> Inr (length out, length inc)))
    (backend_node_degree E 0 n g)"
proof -
  obtain g1 where g1: "fetch_outgoing E n g = (out_rows E (db g) n, g1)" "coherent E g1" "db g1 = db g"
    "query_cache g1 = query_cache g"
    using fetch_outgoing_coherent [OF assms, of n] by blast
  obtain g2 where g2: "fetch_incoming E n g1 = (in_rows E (db g) n, g2)" "coherent E g2" "db g2 = db g"
    "query_cache g2 = query_cache g"
    using fetch_incoming_coherent [OF g1(2), of n] g1(3,4) by auto
  show ?thesis
    using g1 g2
    by (auto simp: backend_node_degree_def validate_snapshot_def reads_def frame_def map_ok_def split: sum.split)
qed

lemma node_degree_reads:
  assumes "coherent E g"
  shows "reads E g (degree_answer E (db g) n) (backend_node_degree E 0 n g)"
  using node_degree_pure [OF assms, of n] node_degree_pure [OF coherent_cold [of E "db g"], of n]
  unfolding cold_simps degree_answer_def reads_def by simp

definition step_rows :: "('d, 'j) engine \<Rightarrow> 'd \<Rightarrow> chain_step \<Rightarrow> i64 \<Rightarrow> i64 list outcome" where
  "step_rows E d s = dir_rows E d (step_direction s) (map_option (\<lambda>kind. {kind}) (step_type s))"

definition chain_answer :: "('d, 'j) engine \<Rightarrow> 'd \<Rightarrow> i64 \<Rightarrow> chain_step list \<Rightarrow> i64 list outcome" where
  "chain_answer E d start chain = fst (chain_query (map (\<lambda>s. pure_fetch (step_rows E d s)) chain) start ())"

lemma extend_all_reads:
  assumes "coherent E g"
  shows "reads E g (fst (extend_all (pure_fetch (step_rows E (db g) s)) ns ())) (extend_all (step_fetch E s) ns g)"
  using typed.extend_all_answers [OF start_frame [OF assms], of "step_direction s" "map_option (\<lambda>kind. {kind}) (step_type s)" ns]
  by (cases "step_type s") (simp_all add: reads_def typed.answers_def step_rows_def step_fetch_def)

lemma chain_loop_reads:
  "coherent E g \<Longrightarrow>
   reads E g (fst (chain_loop (map (\<lambda>s. pure_fetch (step_rows E (db g) s)) chain) ns ()))
     (chain_loop (map (step_fetch E) chain) ns g)"
proof (induction chain arbitrary: ns g)
  case Nil
  then show ?case by (simp add: reads_same)
next
  case (Cons s chain)
  obtain x where x: "extend_all (pure_fetch (step_rows E (db g) s)) ns () = (x, ())"
    by (cases "extend_all (pure_fetch (step_rows E (db g) s)) ns ()") auto
  obtain g' where g': "extend_all (step_fetch E s) ns g = (x, g')" "coherent E g'" "db g' = db g"
    "query_cache g' = query_cache g"
    using extend_all_reads [OF Cons.prems, of s ns] x by (elim readsE) simp
  show ?case
    using x g' Cons.IH [OF g'(2)] by (cases x) (auto simp: reads_def frame_def)
qed

lemma chain_query_reads:
  assumes "coherent E g"
  shows "reads E g (chain_answer E (db g) start chain) (chain_query (map (step_fetch E) chain) start g)"
  using chain_loop_reads [OF assms, of chain "[start]"]
  by (simp add: chain_answer_def chain_query_def reads_same [OF assms])

section \<open>The query cache\<close>

text \<open>Storing a right answer keeps the graph coherent.\<close>

lemma coherent_put:
  assumes "coherent E g" "cached_right E (db g) k r"
  shows "coherent E (g\<lparr>query_cache := (query_cache g)(k \<mapsto> r)\<rparr>)"
  using assms by (simp add: coherent_def)

text \<open>What a cached read is right about: the answer, coherence and the database.\<close>

definition serves :: "('d, 'j) engine \<Rightarrow> 'd sqlite_graph \<Rightarrow> 'x \<Rightarrow> 'x \<times> 'd sqlite_graph \<Rightarrow> bool" where
  "serves E g x r \<longleftrightarrow> fst r = x \<and> coherent E (snd r) \<and> db (snd r) = db g"

lemma reads_serves: "reads E g x r \<Longrightarrow> serves E g x r"
  by (simp add: reads_def frame_def serves_def)

lemma serves_map_ok:
  "serves E g x r \<Longrightarrow> serves E g (fst (map_ok f (x, ()))) (map_ok f r)"
  by (auto simp: serves_def map_ok_def split: sum.split prod.split)

lemma get_bfs_right:
  "coherent E g \<Longrightarrow> get_bfs a m (query_cache g) = Some r \<Longrightarrow> bfs_answer E (db g) a m = Inr r"
  by (auto simp: get_bfs_def coherent_def split: option.splits query_result.splits dest!: spec [of _ "BfsKey a m"])

lemma get_k_hop_right:
  "coherent E g \<Longrightarrow> get_k_hop a m dir (query_cache g) = Some r \<Longrightarrow> k_hop_answer E (db g) a m dir None = Inr r"
  by (auto simp: get_k_hop_def coherent_def split: option.splits query_result.splits dest!: spec [of _ "KHopKey a m dir"])

lemma get_k_hop_filtered_right:
  "coherent E g \<Longrightarrow> get_k_hop_filtered a m dir types (query_cache g) = Some r \<Longrightarrow>
   (if types = [] then Inr [] else k_hop_answer E (db g) a m dir (Some (set types))) = Inr r"
  by (auto simp: get_k_hop_filtered_def coherent_def split: option.splits query_result.splits if_splits
      dest!: spec [of _ "KHopFilteredKey a m dir types"])

lemma get_shortest_path_right:
  "coherent E g \<Longrightarrow> get_shortest_path a b (query_cache g) = Some r \<Longrightarrow> path_answer E (db g) a b = Some (Inr r)"
  by (auto simp: get_shortest_path_def coherent_def split: option.splits query_result.splits
      dest!: spec [of _ "ShortestPathKey a b"])

lemma backend_bfs_serves:
  assumes "coherent E g"
  shows "serves E g (bfs_answer E (db g) a m) (backend_bfs E 0 a m g)"
proof (cases "get_bfs a m (query_cache g)")
  case None
  obtain g' where g': "bfs_neighbors E a m g = (bfs_answer E (db g) a m, g')" "coherent E g'" "db g' = db g"
    using bfs_neighbors_reads [OF assms] by (rule readsE)
  with None show ?thesis
    by (auto simp: backend_bfs_def validate_snapshot_def serves_def put_bfs_def coherent_put split: sum.split)
next
  case (Some r)
  with get_bfs_right [OF assms Some] assms show ?thesis
    by (simp add: backend_bfs_def validate_snapshot_def serves_def)
qed

lemma backend_k_hop_serves:
  assumes "coherent E g"
  shows "serves E g (k_hop_answer E (db g) a m dir None) (backend_k_hop E 0 a m dir g)"
proof (cases "get_k_hop a m dir (query_cache g)")
  case None
  obtain g' where g': "k_hop E a m dir g = (k_hop_answer E (db g) a m dir None, g')" "coherent E g'" "db g' = db g"
    using k_hop_reads [OF assms] by (rule readsE)
  with None show ?thesis
    by (auto simp: backend_k_hop_def validate_snapshot_def serves_def put_k_hop_def coherent_put split: sum.split)
next
  case (Some r)
  with get_k_hop_right [OF assms Some] assms show ?thesis
    by (simp add: backend_k_hop_def validate_snapshot_def serves_def)
qed

lemma backend_k_hop_filtered_serves:
  assumes "coherent E g"
  shows "serves E g (if types = [] then Inr [] else k_hop_answer E (db g) a m dir (Some (set types)))
    (backend_k_hop_filtered E 0 a m dir types g)"
proof (cases "get_k_hop_filtered a m dir types (query_cache g)")
  case None
  let ?x = "if types = [] then Inr [] else k_hop_answer E (db g) a m dir (Some (set types))"
  obtain g' where g': "k_hop_filtered E a m dir types g = (?x, g')" "coherent E g'" "db g' = db g"
    using k_hop_filtered_reads [OF assms] by (rule readsE)
  with None show ?thesis
    by (auto simp: backend_k_hop_filtered_def validate_snapshot_def serves_def put_k_hop_filtered_def coherent_put
        split: sum.split if_splits)
next
  case (Some r)
  with get_k_hop_filtered_right [OF assms Some] assms show ?thesis
    by (simp add: backend_k_hop_filtered_def validate_snapshot_def serves_def)
qed

lemma backend_shortest_path_serves:
  assumes "coherent E g"
  shows "\<exists>x r. path_answer E (db g) a b = Some x \<and> backend_shortest_path E 0 a b g = Some r \<and> serves E g x r"
proof (cases "get_shortest_path a b (query_cache g)")
  case None
  obtain x r where r: "path_answer E (db g) a b = Some x" "shortest_path E a b g = Some r" "reads E g x r"
    using shortest_path_reads [OF assms] by blast
  obtain g' where g': "r = (x, g')" "coherent E g'" "db g' = db g" using r(3) by (rule readsE)
  show ?thesis
    using None r(1,2) g'
    by (cases x) (simp_all add: backend_shortest_path_def validate_snapshot_def serves_def put_shortest_path_def coherent_put)
next
  case (Some r)
  with get_shortest_path_right [OF assms Some] assms show ?thesis
    by (simp add: backend_shortest_path_def validate_snapshot_def serves_def)
qed

section \<open>The laws of the statements\<close>

text \<open>
  \<open>keeps E d d'\<close>: the edge table reads the same, and an entity that could be read still can. What SQLite
  documents of the statements: a failing statement and one that changes no row leave the tables as they
  were, an insert or update of an entity leaves the edges and the other entities, \<open>ROLLBACK\<close> undoes what
  was written since \<open>BEGIN\<close>; the text \<open>serde_json\<close> writes it can read.
\<close>

definition keeps :: "('d, 'j) engine \<Rightarrow> 'd \<Rightarrow> 'd \<Rightarrow> bool" where
  "keeps E d d' \<longleftrightarrow>
     select_to E d' = select_to E d \<and> select_from E d' = select_from E d \<and>
     select_to_typed E d' = select_to_typed E d \<and> select_from_typed E d' = select_from_typed E d \<and>
     (\<forall>i e. entity_at E d i = Inr e \<longrightarrow> (\<exists>e'. entity_at E d' i = Inr e'))"

inductive wrote :: "('d, 'j) engine \<Rightarrow> 'd \<Rightarrow> 'd \<Rightarrow> bool" for E where
  wrote_nothing: "wrote E d d"
| wrote_edge: "wrote E d d' \<Longrightarrow> wrote E d (snd (exec_insert_edge E a b t x d'))"
| wrote_entity: "wrote E d d' \<Longrightarrow> wrote E d (snd (exec_insert_entity E t n p x d'))"
| wrote_label: "wrote E d d' \<Longrightarrow> wrote E d (snd (exec_insert_label E i t d'))"

definition lawful :: "('d, 'j) engine \<Rightarrow> bool" where
  "lawful E \<longleftrightarrow>
     (\<forall>t n p x d. keeps E d (snd (exec_insert_entity E t n p x d))) \<and>
     (\<forall>i t d. keeps E d (snd (exec_insert_label E i t d))) \<and>
     (\<forall>t n p j x i d. json_to_string E j = Inr x \<longrightarrow> keeps E d (snd (exec_update_entity E t n p x i d))) \<and>
     (\<forall>i d. fst (exec_delete_entity E i d) = Inr 0 \<or> isl (fst (exec_delete_entity E i d)) \<longrightarrow>
        keeps E d (snd (exec_delete_entity E i d))) \<and>
     (\<forall>a b t x d. isl (fst (exec_insert_edge E a b t x d)) \<longrightarrow> keeps E d (snd (exec_insert_edge E a b t x d))) \<and>
     (\<forall>i d. fst (exec_delete_edge E i d) = Inr 0 \<or> isl (fst (exec_delete_edge E i d)) \<longrightarrow>
        keeps E d (snd (exec_delete_edge E i d))) \<and>
     (\<forall>d. keeps E d (snd (exec_begin E d))) \<and> (\<forall>d. keeps E d (snd (exec_commit E d))) \<and>
     (\<forall>d d'. \<not> isl (fst (exec_begin E d)) \<longrightarrow> wrote E (snd (exec_begin E d)) d' \<longrightarrow> keeps E d (exec_rollback E d'))"

text \<open>
  What the code does not survive: a \<open>COMMIT\<close> that fails, and a failing second statement of
  \<open>delete_entity\<close>, leave written rows behind with the caches as they were.
\<close>

definition no_late_failure :: "('d, 'j) engine \<Rightarrow> bool" where
  "no_late_failure E \<longleftrightarrow>
     (\<forall>d d'. \<not> isl (fst (exec_begin E d)) \<longrightarrow> wrote E (snd (exec_begin E d)) d' \<longrightarrow>
        \<not> isl (fst (exec_commit E d'))) \<and>
     (\<forall>i d. \<not> isl (fst (exec_delete_edges_of E i d)))"

lemma keeps_refl [simp]: "keeps E d d"
  by (simp add: keeps_def)

lemma keeps_trans: "keeps E a b \<Longrightarrow> keeps E b c \<Longrightarrow> keeps E a c"
  unfolding keeps_def by metis

lemma keeps_rows:
  assumes "keeps E d d'"
  shows "out_rows E d' = out_rows E d" "in_rows E d' = in_rows E d" "dir_rows E d' = dir_rows E d"
proof -
  show o: "out_rows E d' = out_rows E d" "in_rows E d' = in_rows E d"
    using assms by (simp_all add: keeps_def out_rows_def [abs_def] in_rows_def [abs_def])
  show "dir_rows E d' = dir_rows E d"
    using assms o
    by (intro ext) (auto simp: dir_rows_def filter_neighbors_def keeps_def split: option.split backend_direction.split sum.split)
qed

lemma keeps_entity: "keeps E d d' \<Longrightarrow> entity_at E d i = Inr e \<Longrightarrow> \<exists>e'. entity_at E d' i = Inr e'"
  by (simp add: keeps_def)

lemma keeps_cached_right:
  assumes "keeps E d d'" "cached_right E d k r"
  shows "cached_right E d' k r"
proof (cases k)
  case (BfsKey a m)
  then show ?thesis
    using assms(2) keeps_entity [OF assms(1), of a]
    by (auto simp: bfs_answer_def if_entity_def keeps_rows [OF assms(1)] split: sum.splits)
next
  case (ShortestPathKey a b)
  then show ?thesis
    using assms(2) keeps_entity [OF assms(1), of a] keeps_entity [OF assms(1), of b]
    by (auto simp: path_answer_def keeps_rows [OF assms(1)] split: sum.splits)
qed (use assms(2) in \<open>auto simp: k_hop_answer_def keeps_rows [OF assms(1)]\<close>)

lemma keeps_coherent:
  assumes "keeps E (db g) d" "coherent E g"
  shows "coherent E (g\<lparr>db := d\<rparr>)"
  using assms keeps_cached_right [OF assms(1)] unfolding coherent_def by (simp add: keeps_def)

lemma coherent_invalidate [simp]: "coherent E (invalidate_caches g)"
  by (simp add: coherent_def invalidate_caches_def adj_clear_def)

lemma db_invalidate [simp]: "db (invalidate_caches g) = db g"
  by (simp add: invalidate_caches_def)

section \<open>Writes keep coherence\<close>

lemma wrote_entity': "wrote E d d' \<Longrightarrow> exec_insert_entity E t n p x d' = (r, d2) \<Longrightarrow> wrote E d d2"
  using wrote_entity [of E d d' t n p x] by simp

lemma wrote_label': "wrote E d d' \<Longrightarrow> exec_insert_label E i t d' = (r, d2) \<Longrightarrow> wrote E d d2"
  using wrote_label [of E d d' i t] by simp

lemma wrote_edge': "wrote E d d' \<Longrightarrow> exec_insert_edge E a b t x d' = (r, d2) \<Longrightarrow> wrote E d d2"
  using wrote_edge [of E d d' a b t x] by simp

lemma insert_entity_row_wrote: "wrote E d d' \<Longrightarrow> wrote E d (snd (insert_entity_row E e d'))"
  by (auto simp: insert_entity_row_def Let_def split: sum.split prod.split elim: wrote_entity' dest: wrote_entity'
      intro: wrote_label')

lemma insert_entity_rows_wrote: "wrote E d d' \<Longrightarrow> wrote E d (snd (insert_entity_rows E es ids d'))"
proof (induction es arbitrary: ids d')
  case (Cons e es)
  then show ?case using insert_entity_row_wrote [OF Cons.prems, of e] by (auto split: sum.split prod.split)
qed simp

lemma insert_edge_rows_wrote: "wrote E d d' \<Longrightarrow> wrote E d (snd (insert_edge_rows E es ids d'))"
proof (induction es arbitrary: ids d')
  case (Cons e es)
  then show ?case by (auto split: sum.split prod.split intro: wrote_edge')
qed simp

text \<open>The laws as rules over the results of the statements.\<close>

lemma lawful_rules:
  assumes "lawful E"
  shows "exec_insert_entity E t n p x d = (r, d') \<Longrightarrow> keeps E d d'"
    "exec_insert_label E i t d = (r, d') \<Longrightarrow> keeps E d d'"
    "json_to_string E j = Inr x \<Longrightarrow> exec_update_entity E t n p x i d = (r, d') \<Longrightarrow> keeps E d d'"
    "exec_delete_entity E i d = (Inl m, d') \<Longrightarrow> keeps E d d'"
    "exec_delete_entity E i d = (Inr 0, d') \<Longrightarrow> keeps E d d'"
    "exec_insert_edge E a b t x d = (Inl m, d') \<Longrightarrow> keeps E d d'"
    "exec_delete_edge E i d = (Inl m, d') \<Longrightarrow> keeps E d d'"
    "exec_delete_edge E i d = (Inr 0, d') \<Longrightarrow> keeps E d d'"
    "exec_begin E d = (r, d') \<Longrightarrow> keeps E d d'"
    "exec_commit E d = (r, d') \<Longrightarrow> keeps E d d'"
    "exec_begin E d = (Inr k, d1) \<Longrightarrow> wrote E d1 d' \<Longrightarrow> keeps E d (exec_rollback E d')"
  using assms unfolding lawful_def by (metis fst_conv snd_conv sum.disc)+

lemma insert_entity_row_keeps:
  assumes "lawful E" "insert_entity_row E e d = (r, d')"
  shows "keeps E d d'"
  using assms(2) lawful_rules(1,2) [OF assms(1)]
  by (auto simp: insert_entity_row_def Let_def split: sum.splits prod.splits if_splits)
    (blast intro: keeps_trans)+

lemma insert_entity_rows_keeps:
  assumes "lawful E" "insert_entity_rows E es ids d = (r, d')"
  shows "keeps E d d'"
  using assms(2)
proof (induction es arbitrary: ids d)
  case (Cons e es)
  then show ?case using insert_entity_row_keeps [OF assms(1)]
    by (auto split: sum.splits prod.splits) (blast intro: keeps_trans)
qed simp

lemma insert_entity_coherent:
  assumes "lawful E" "coherent E g"
  shows "coherent E (snd (insert_entity E e g))"
  using assms insert_entity_row_keeps [OF assms(1)]
  by (auto simp: insert_entity_def split: sum.split prod.split intro: keeps_coherent)

lemma insert_entities_bulk_coherent:
  assumes "lawful E" "coherent E g"
  shows "coherent E (snd (insert_entities_bulk E es g))"
proof -
  have "keeps E (db g) (exec_rollback E d')" if "exec_begin E (db g) = (Inr k, d)" "insert_entity_rows E es [] d = (x, d')"
    for k d x d'
    using insert_entity_rows_wrote [OF wrote_nothing, of E d es "[]"] that lawful_rules(11) [OF assms(1)] by auto
  moreover have "keeps E (db g) d''" if "exec_begin E (db g) = (x, d)" "insert_entity_rows E es [] d = (y, d')"
    "exec_commit E d' = (z, d'')" for d x d' y d'' z
    using that lawful_rules(9,10) [OF assms(1)] insert_entity_rows_keeps [OF assms(1)] keeps_trans by metis
  ultimately show ?thesis
    using assms(2) lawful_rules(9) [OF assms(1)]
    by (auto simp: insert_entities_bulk_def split: sum.split prod.split intro!: keeps_coherent)
qed

lemma update_entity_coherent:
  assumes "lawful E" "coherent E g"
  shows "coherent E (snd (update_entity E e g))"
  using assms lawful_rules(3) [OF assms(1)]
  by (auto simp: update_entity_def json_text_def split: sum.split prod.split intro!: keeps_coherent)

lemma delete_entity_coherent:
  assumes "lawful E" "no_late_failure E" "coherent E g"
  shows "coherent E (snd (delete_entity E i g))"
  using assms lawful_rules(4,5) [OF assms(1)]
  by (auto simp: delete_entity_def no_late_failure_def split: sum.split prod.split intro!: keeps_coherent)
    (metis fst_conv sum.disc(1))

lemma sqlite_insert_edge_coherent:
  assumes "lawful E" "coherent E g"
  shows "coherent E (snd (sqlite_insert_edge E e g))"
  using assms lawful_rules(6) [OF assms(1)]
  by (auto simp: sqlite_insert_edge_def split: sum.split prod.split intro!: keeps_coherent)

lemma commit_succeeds:
  assumes "no_late_failure E" "exec_begin E d = (Inr k, d1)" "wrote E d1 d2"
  shows "exec_commit E d2 \<noteq> (Inl m, d')"
proof -
  have "\<not> isl (fst (exec_begin E d))" "wrote E (snd (exec_begin E d)) d2" using assms(2,3) by simp_all
  then have "\<not> isl (fst (exec_commit E d2))" using assms(1) unfolding no_late_failure_def by blast
  then show ?thesis by auto
qed

lemma insert_edges_bulk_coherent:
  assumes "lawful E" "no_late_failure E" "coherent E g"
  shows "coherent E (snd (insert_edges_bulk E es g))"
proof -
  have "keeps E (db g) (exec_rollback E d')" if "exec_begin E (db g) = (Inr k, d)" "insert_edge_rows E es [] d = (x, d')"
    for k d x d'
    using insert_edge_rows_wrote [OF wrote_nothing, of E d es "[]"] that lawful_rules(11) [OF assms(1)] by auto
  moreover have "exec_commit E d' \<noteq> (Inl m, d'')" if "exec_begin E (db g) = (Inr k, d)" "insert_edge_rows E es [] d = (x, d')"
    for k d x d' m d''
    using commit_succeeds [OF assms(2) that(1)] insert_edge_rows_wrote [OF wrote_nothing, of E d es "[]"] that(2) by auto
  ultimately show ?thesis
    using assms(3) lawful_rules(9) [OF assms(1)]
    by (auto simp: insert_edges_bulk_def split: sum.split prod.split intro!: keeps_coherent) blast
qed

lemma delete_edge_coherent:
  assumes "lawful E" "coherent E g"
  shows "coherent E (snd (delete_edge E i g))"
  using assms lawful_rules(7,8) [OF assms(1)]
  by (auto simp: delete_edge_def split: sum.split prod.split intro!: keeps_coherent)

lemma cache_clear_ranges_coherent: "coherent E g \<Longrightarrow> coherent E (cache_clear_ranges ids g) \<and> db (cache_clear_ranges ids g) = db g"
proof (induction ids arbitrary: g)
  case (Cons i ids)
  let ?g = "g\<lparr>outgoing_cache := adj_remove i (outgoing_cache g), incoming_cache := adj_remove i (incoming_cache g)\<rparr>"
  have "coherent E ?g" using Cons.prems by (simp add: coherent_def adj_remove_def)
  from Cons.IH [OF this] show ?case by simp
qed simp

section \<open>Operations\<close>

text \<open>The reply and the database after a write do not depend on the caches.\<close>

definition same_effect :: "('x \<times> 'd sqlite_graph) \<Rightarrow> ('x \<times> 'd sqlite_graph) \<Rightarrow> bool" where
  "same_effect r r' \<longleftrightarrow> fst r = fst r' \<and> db (snd r) = db (snd r')"

lemma same_effect_map_ok: "same_effect r r' \<Longrightarrow> same_effect (map_ok f r) (map_ok f r')"
  by (auto simp: same_effect_def map_ok_def split: prod.split sum.split)

lemma entity_exists_db: "entity_exists E i g = entity_exists E i (cold (db g))"
  by (simp add: entity_exists_def)

lemma check_edge_db: "check_edge E e g = check_edge E e (cold (db g))"
  unfolding check_edge_def entity_exists_db [of E _ g] ..

lemma check_edges_db: "check_edges E es g = check_edges E es (cold (db g))"
proof (induction es)
  case (Cons e es)
  then show ?case unfolding check_edges.simps check_edge_db [of E e g] by (simp split: sum.split)
qed simp

lemma writes_same:
  "same_effect (insert_entity E e g) (insert_entity E e (cold (db g)))"
  "same_effect (insert_entities_bulk E es g) (insert_entities_bulk E es (cold (db g)))"
  "same_effect (update_entity E e g) (update_entity E e (cold (db g)))"
  "same_effect (delete_entity E i g) (delete_entity E i (cold (db g)))"
  "same_effect (sqlite_insert_edge E x g) (sqlite_insert_edge E x (cold (db g)))"
  "same_effect (insert_edges_bulk E xs g) (insert_edges_bulk E xs (cold (db g)))"
  "same_effect (delete_edge E i g) (delete_edge E i (cold (db g)))"
  unfolding same_effect_def insert_entity_def insert_entities_bulk_def update_entity_def delete_entity_def
    sqlite_insert_edge_def insert_edges_bulk_def delete_edge_def check_edge_db [of E _ g] check_edges_db [of E _ g]
  by (simp_all split: sum.split prod.split)

text \<open>The same operations with every cache dropped before each: the reference.\<close>

fun exec_uncached ::
  "('d, 'j) engine \<Rightarrow> 'j graph_op list \<Rightarrow> 'd \<Rightarrow> ('j reply outcome list \<times> 'd) option" where
  "exec_uncached E [] d = Some ([], d)"
| "exec_uncached E (p # ps) d =
     (case exec E p (cold d) of
        None \<Rightarrow> None
      | Some (r, g) \<Rightarrow> (case exec_uncached E ps (db g) of None \<Rightarrow> None | Some (rs, d') \<Rightarrow> Some (r # rs, d')))"

text \<open>One operation: it returns, keeps coherence, and does what it would with cold caches.\<close>

definition faithful :: "('d, 'j) engine \<Rightarrow> 'j graph_op \<Rightarrow> 'd sqlite_graph \<Rightarrow> bool" where
  "faithful E p g \<longleftrightarrow>
     (\<exists>r g' c. exec E p g = Some (r, g') \<and> coherent E g' \<and> exec E p (cold (db g)) = Some (r, c) \<and> db c = db g')"

lemma faithful_write:
  assumes "exec E p = (\<lambda>g. Some (map_ok f (w g)))" "same_effect (w g) (w (cold (db g)))" "coherent E (snd (w g))"
  shows "faithful E p g"
  using assms by (cases "w g"; cases "w (cold (db g))")
    (auto simp: faithful_def same_effect_def map_ok_def split: sum.split)

lemma faithful_read:
  assumes "exec E p = (\<lambda>g. Some (map_ok f (w g)))" "serves E g x (w g)" "serves E (cold (db g)) x (w (cold (db g)))"
  shows "faithful E p g"
  using assms by (intro faithful_write [of E p f w]) (auto simp: same_effect_def serves_def)

lemma faithful_search:
  assumes "exec E p = (\<lambda>g. map_option (map_ok f) (w g))" "w g = Some r" "w (cold (db g)) = Some r'"
    "serves E g x r" "serves E (cold (db g)) x r'"
  shows "faithful E p g"
  using assms by (cases r; cases r') (auto simp: faithful_def serves_def map_ok_def split: sum.split)

lemma neighbors_serves:
  assumes "coherent E g"
  shows "serves E g (neighbors_answer E (db g) n dir kind) (backend_neighbors E 0 n dir kind g)"
  using query_neighbors_reads [OF assms, of n dir kind]
  by (simp add: backend_neighbors_def validate_snapshot_def reads_serves)

lemma chain_serves:
  assumes "coherent E g"
  shows "serves E g (chain_answer E (db g) n chain) (backend_chain_query E 0 n chain g)"
  using chain_query_reads [OF assms, of n chain]
  by (simp add: backend_chain_query_def validate_snapshot_def reads_serves)

text \<open>Each read, from a coherent graph and from the cold one.\<close>

lemma both_serve:
  assumes "coherent E g" and "\<And>h. coherent E h \<Longrightarrow> serves E h (x (db h)) (w h)"
  shows "serves E g (x (db g)) (w g)" "serves E (cold (db g)) (x (db g)) (w (cold (db g)))"
  using assms(2) [OF assms(1)] assms(2) [OF coherent_cold [of E "db g"]] by simp_all

lemma exec_faithful:
  assumes laws: "lawful E" "no_late_failure E" and g: "coherent E g"
  shows "faithful E p g"
proof (cases p)
  case (GetEntity i)
  then show ?thesis using g get_entity_db [of E i g] by (auto simp: faithful_def map_ok_def split: sum.split)
next
  case (GetEdge i)
  then show ?thesis using g get_edge_db [of E i g] by (auto simp: faithful_def map_ok_def split: sum.split)
next
  case (InsertEntity e)
  then show ?thesis
    by (intro faithful_write [of E p NewId "insert_entity E e"] writes_same insert_entity_coherent laws g) (simp add: fun_eq_iff)
next
  case (InsertEntities es)
  then show ?thesis
    by (intro faithful_write [of E p Ids "insert_entities_bulk E es"] writes_same insert_entities_bulk_coherent laws g)
      (simp add: fun_eq_iff)
next
  case (UpdateEntity e)
  then show ?thesis
    by (intro faithful_write [of E p "\<lambda>_. Done" "update_entity E e"] writes_same update_entity_coherent laws g)
      (simp add: fun_eq_iff)
next
  case (DeleteEntity i)
  then show ?thesis
    by (intro faithful_write [of E p "\<lambda>_. Done" "delete_entity E i"] writes_same delete_entity_coherent laws g)
      (simp add: fun_eq_iff)
next
  case (InsertEdge e)
  then show ?thesis
    by (intro faithful_write [of E p NewId "sqlite_insert_edge E e"] writes_same sqlite_insert_edge_coherent laws g)
      (simp add: fun_eq_iff)
next
  case (InsertEdges es)
  then show ?thesis
    by (intro faithful_write [of E p Ids "insert_edges_bulk E es"] writes_same insert_edges_bulk_coherent laws g)
      (simp add: fun_eq_iff)
next
  case (DeleteEdge i)
  then show ?thesis
    by (intro faithful_write [of E p "\<lambda>_. Done" "delete_edge E i"] writes_same delete_edge_coherent laws g)
      (simp add: fun_eq_iff)
next
  case (Neighbors i dir kind)
  note s = both_serve [OF g, of "\<lambda>d. neighbors_answer E d i dir kind", OF neighbors_serves]
  from Neighbors show ?thesis
    by (intro faithful_read [of E p Ids "backend_neighbors E 0 i dir kind", OF _ s]) (simp add: fun_eq_iff)
next
  case (NodeDegree i)
  note s = both_serve [OF g, of "\<lambda>d. degree_answer E d i", OF reads_serves, OF node_degree_reads]
  from NodeDegree show ?thesis
    by (intro faithful_read [of E p "\<lambda>(a, b). DegreeReply a b" "backend_node_degree E 0 i", OF _ s]) (simp add: fun_eq_iff)
next
  case (Bfs i m)
  note s = both_serve [OF g, of "\<lambda>d. bfs_answer E d i m", OF backend_bfs_serves]
  from Bfs show ?thesis by (intro faithful_read [of E p Ids "backend_bfs E 0 i m", OF _ s]) (simp add: fun_eq_iff)
next
  case (BfsFiltered i m types dir)
  note s = both_serve [OF g, of "\<lambda>d. bfs_filtered_answer E d i m types dir", OF reads_serves, OF bfs_neighbors_filtered_reads]
  from BfsFiltered show ?thesis
    by (intro faithful_read [of E p Ids "bfs_neighbors_filtered E i m types dir", OF _ s]) (simp add: fun_eq_iff)
next
  case (KHop i m dir)
  note s = both_serve [OF g, of "\<lambda>d. k_hop_answer E d i m dir None", OF backend_k_hop_serves]
  from KHop show ?thesis
    by (intro faithful_read [of E p Ids "backend_k_hop E 0 i m dir", OF _ s]) (simp add: fun_eq_iff)
next
  case (KHopFiltered i m dir types)
  note s = both_serve [OF g, of "\<lambda>d. if types = [] then Inr [] else k_hop_answer E d i m dir (Some (set types))",
      OF backend_k_hop_filtered_serves]
  from KHopFiltered show ?thesis
    by (intro faithful_read [of E p Ids "backend_k_hop_filtered E 0 i m dir types", OF _ s]) (simp add: fun_eq_iff)
next
  case (ShortestPath i j)
  obtain x r where r: "path_answer E (db g) i j = Some x" "backend_shortest_path E 0 i j g = Some r" "serves E g x r"
    using backend_shortest_path_serves [OF g, of i j] by blast
  obtain r' where "backend_shortest_path E 0 i j (cold (db g)) = Some r'" "serves E (cold (db g)) x r'"
    using backend_shortest_path_serves [OF coherent_cold [of E "db g"], of i j] r(1) by auto
  with ShortestPath r show ?thesis
    by (intro faithful_search [of E p OptPath "backend_shortest_path E 0 i j" g r r' x]) (simp_all add: fun_eq_iff)
next
  case (ShortestPathFiltered i j types)
  obtain x r where r: "path_filtered_answer E (db g) i j types = Some x" "shortest_path_filtered E i j types g = Some r"
    "reads E g x r"
    using shortest_path_filtered_reads [OF g, of i j types] by blast
  obtain r' where "shortest_path_filtered E i j types (cold (db g)) = Some r'" "reads E (cold (db g)) x r'"
    using shortest_path_filtered_reads [OF coherent_cold [of E "db g"], of i j types] r(1) by auto
  with ShortestPathFiltered r show ?thesis
    by (intro faithful_search [of E p OptPath "shortest_path_filtered E i j types" g r r' x])
      (simp_all add: fun_eq_iff reads_serves)
next
  case (ChainQuery i chain)
  note s = both_serve [OF g, of "\<lambda>d. chain_answer E d i chain", OF chain_serves]
  from ChainQuery show ?thesis
    by (intro faithful_read [of E p Ids "backend_chain_query E 0 i chain", OF _ s]) (simp add: fun_eq_iff)
next
  case Components
  note s = both_serve [OF g, of "components_answer E", OF reads_serves, OF graph_components_reads]
  from Components show ?thesis by (intro faithful_read [of E p Groups "graph_components E", OF _ s]) (simp add: fun_eq_iff)
next
  case (ClearRanges ids)
  then show ?thesis
    using cache_clear_ranges_coherent [OF g, of ids] cache_clear_ranges_coherent [OF coherent_cold [of E "db g"], of ids]
    by (auto simp: faithful_def)
qed

end
