(* ===== verification/Sqlite_Table.thy ===== *)
theory Sqlite_Table
  imports Sqlite_Cache "HOL-Library.List_Lexorder"
begin

text \<open>
  A database of plain tables that obeys the laws of the statements: the instance of \<open>engine\<close> on which
  the theorems about every lawful engine are tried. \<open>serde_json::Value\<close> is its own text here.
\<close>

record table_db =
  tb_entities :: "entity_row list"
  tb_edges :: "edge_row list"
  tb_labels :: "(i64 \<times> rust_string) list"
  tb_next_entity :: i64
  tb_next_edge :: i64
  tb_last :: i64
  tb_saved :: "(entity_row list \<times> edge_row list) option"

definition table_new :: table_db where
  "table_new = \<lparr>tb_entities = [], tb_edges = [], tb_labels = [], tb_next_entity = 1, tb_next_edge = 1,
     tb_last = 0, tb_saved = None\<rparr>"

definition edges_from :: "table_db \<Rightarrow> i64 \<Rightarrow> (i64 \<times> rust_string) list" where
  "edges_from d n = sort_key (\<lambda>(v, k). (sint v, k)) [(v, k). (_, u, v, k, _) \<leftarrow> tb_edges d, u = n]"

definition edges_to :: "table_db \<Rightarrow> i64 \<Rightarrow> (i64 \<times> rust_string) list" where
  "edges_to d n = sort_key (\<lambda>(u, k). (sint u, k)) [(u, k). (_, u, v, k, _) \<leftarrow> tb_edges d, v = n]"

definition table_insert_entity ::
  "rust_string \<Rightarrow> rust_string \<Rightarrow> rust_string option \<Rightarrow> rust_string \<Rightarrow> table_db \<Rightarrow> (string + nat) \<times> table_db" where
  "table_insert_entity kind name path data d =
     (Inr 1, d\<lparr>tb_entities := tb_entities d @ [(tb_next_entity d, kind, name, path, data)],
        tb_last := tb_next_entity d, tb_next_entity := tb_next_entity d + 1\<rparr>)"

definition table_insert_label :: "i64 \<Rightarrow> rust_string \<Rightarrow> table_db \<Rightarrow> (string + nat) \<times> table_db" where
  "table_insert_label i label d =
     (if (i, label) \<in> set (tb_labels d) then (Inr 0, d)
      else (Inr 1, d\<lparr>tb_labels := tb_labels d @ [(i, label)], tb_last := of_nat (length (tb_labels d)) + 1\<rparr>))"

definition table_update_entity ::
  "rust_string \<Rightarrow> rust_string \<Rightarrow> rust_string option \<Rightarrow> rust_string \<Rightarrow> i64 \<Rightarrow> table_db \<Rightarrow> (string + nat) \<times> table_db" where
  "table_update_entity kind name path data i d =
     (Inr (length (filter (\<lambda>r. fst r = i) (tb_entities d))),
      d\<lparr>tb_entities := map (\<lambda>r. if fst r = i then (i, kind, name, path, data) else r) (tb_entities d)\<rparr>)"

definition table_delete_entity :: "i64 \<Rightarrow> table_db \<Rightarrow> (string + nat) \<times> table_db" where
  "table_delete_entity i d =
     (Inr (length (filter (\<lambda>r. fst r = i) (tb_entities d))),
      d\<lparr>tb_entities := filter (\<lambda>r. fst r \<noteq> i) (tb_entities d)\<rparr>)"

definition touches :: "i64 \<Rightarrow> edge_row \<Rightarrow> bool" where
  "touches i r = (case r of (_, u, v, _, _) \<Rightarrow> u = i \<or> v = i)"

definition table_delete_edges_of :: "i64 \<Rightarrow> table_db \<Rightarrow> (string + nat) \<times> table_db" where
  "table_delete_edges_of i d =
     (Inr (length (filter (touches i) (tb_edges d))), d\<lparr>tb_edges := filter (\<lambda>r. \<not> touches i r) (tb_edges d)\<rparr>)"

definition table_insert_edge ::
  "i64 \<Rightarrow> i64 \<Rightarrow> rust_string \<Rightarrow> rust_string \<Rightarrow> table_db \<Rightarrow> (string + nat) \<times> table_db" where
  "table_insert_edge u v kind data d =
     (Inr 1, d\<lparr>tb_edges := tb_edges d @ [(tb_next_edge d, u, v, kind, data)],
        tb_last := tb_next_edge d, tb_next_edge := tb_next_edge d + 1\<rparr>)"

definition table_delete_edge :: "i64 \<Rightarrow> table_db \<Rightarrow> (string + nat) \<times> table_db" where
  "table_delete_edge i d =
     (Inr (length (filter (\<lambda>r. fst r = i) (tb_edges d))), d\<lparr>tb_edges := filter (\<lambda>r. fst r \<noteq> i) (tb_edges d)\<rparr>)"

definition table_begin :: "table_db \<Rightarrow> (string + nat) \<times> table_db" where
  "table_begin d =
     (if tb_saved d \<noteq> None then (Inl ''cannot start a transaction within a transaction'', d)
      else (Inr 0, d\<lparr>tb_saved := Some (tb_entities d, tb_edges d)\<rparr>))"

text \<open>The flag makes every \<open>COMMIT\<close> fail, the transaction left open.\<close>

definition table_commit :: "bool \<Rightarrow> table_db \<Rightarrow> (string + nat) \<times> table_db" where
  "table_commit busy d =
     (if busy then (Inl ''database is locked'', d)
      else if tb_saved d = None then (Inl ''cannot commit - no transaction is active'', d)
      else (Inr 0, d\<lparr>tb_saved := None\<rparr>))"

definition table_rollback :: "table_db \<Rightarrow> table_db" where
  "table_rollback d =
     (case tb_saved d of
        None \<Rightarrow> d
      | Some (es, xs) \<Rightarrow> d\<lparr>tb_entities := es, tb_edges := xs, tb_saved := None\<rparr>)"

definition table_engine :: "bool \<Rightarrow> (table_db, rust_string) engine" where
  "table_engine busy = \<lparr>
     select_to = (\<lambda>d n. Inr (map fst (edges_from d n))),
     select_from = (\<lambda>d n. Inr (map fst (edges_to d n))),
     select_to_typed = (\<lambda>d n. Inr (edges_from d n)),
     select_from_typed = (\<lambda>d n. Inr (edges_to d n)),
     select_to_of_type = (\<lambda>d n k. Inr (map fst (filter (\<lambda>r. snd r = k) (edges_from d n)))),
     select_from_of_type = (\<lambda>d n k. Inr (map fst (filter (\<lambda>r. snd r = k) (edges_to d n)))),
     select_entity_ids = (\<lambda>d. Inr (sort_key sint (map fst (tb_entities d)))),
     probe_entity = (\<lambda>d n. Inr (n \<in> fst ` set (tb_entities d))),
     select_entity = (\<lambda>d n. Inr (find (\<lambda>r. fst r = n) (tb_entities d))),
     select_edge = (\<lambda>d n. Inr (find (\<lambda>r. fst r = n) (tb_edges d))),
     exec_insert_entity = table_insert_entity,
     exec_insert_label = table_insert_label,
     exec_update_entity = table_update_entity,
     exec_delete_entity = table_delete_entity,
     exec_delete_edges_of = table_delete_edges_of,
     exec_insert_edge = table_insert_edge,
     exec_delete_edge = table_delete_edge,
     exec_begin = table_begin,
     exec_commit = table_commit busy,
     exec_rollback = table_rollback,
     last_rowid = tb_last,
     json_to_string = Inr,
     json_from_str = Inr\<rparr>"

section \<open>The tables obey the laws\<close>

lemma table_entity_at:
  "(\<exists>e. entity_at (table_engine busy) d i = Inr e) \<longleftrightarrow> i \<in> fst ` set (tb_entities d)"
proof -
  have "find (\<lambda>r. fst r = i) (tb_entities d) = None \<longleftrightarrow> i \<notin> fst ` set (tb_entities d)"
    by (auto simp: find_None_iff image_iff)
  then show ?thesis
    by (auto simp: get_entity_def table_engine_def row_to_entity_def split: option.split)
qed

lemma table_keeps:
  assumes "tb_edges d' = tb_edges d" "fst ` set (tb_entities d) \<subseteq> fst ` set (tb_entities d')"
  shows "keeps (table_engine busy) d d'"
proof -
  have "\<exists>e'. entity_at (table_engine busy) d' i = Inr e'" if "entity_at (table_engine busy) d i = Inr e" for i e
    using that assms(2) table_entity_at [of busy i d] table_entity_at [of busy i d'] by blast
  then show ?thesis
    using assms(1) unfolding keeps_def by (simp add: table_engine_def fun_eq_iff edges_from_def edges_to_def)
qed

lemma table_wrote_saved: "wrote (table_engine busy) d d' \<Longrightarrow> tb_saved d' = tb_saved d"
  by (induction rule: wrote.induct)
    (simp_all add: table_engine_def table_insert_edge_def table_insert_entity_def table_insert_label_def)

lemma filter_length_zero: "length (filter P xs) = 0 \<Longrightarrow> filter (\<lambda>x. \<not> P x) xs = xs"
  by (induction xs) (auto split: if_splits)

lemma fst_update_rows: "fst ` set (map (\<lambda>r. if fst r = i then (i, x) else r) rs) = fst ` set rs"
  by (induction rs) auto

lemma table_lawful: "lawful (table_engine busy)"
  unfolding lawful_def
proof (intro conjI allI impI)
  fix d d' assume b: "\<not> isl (fst (exec_begin (table_engine busy) d))"
    and w: "wrote (table_engine busy) (snd (exec_begin (table_engine busy) d)) d'"
  have "tb_saved d' = Some (tb_entities d, tb_edges d)"
    using table_wrote_saved [OF w] b by (auto simp: table_engine_def table_begin_def split: if_splits)
  then show "keeps (table_engine busy) d (exec_rollback (table_engine busy) d')"
    by (intro table_keeps) (simp_all add: table_engine_def table_rollback_def)
next
  fix i d
  assume "fst (exec_delete_entity (table_engine busy) i d) = Inr 0 \<or> isl (fst (exec_delete_entity (table_engine busy) i d))"
  then have "filter (\<lambda>r. fst r \<noteq> i) (tb_entities d) = tb_entities d"
    by (intro filter_length_zero) (simp add: table_engine_def table_delete_entity_def)
  then show "keeps (table_engine busy) d (snd (exec_delete_entity (table_engine busy) i d))"
    by (intro table_keeps) (simp_all add: table_engine_def table_delete_entity_def)
next
  fix i d
  assume "fst (exec_delete_edge (table_engine busy) i d) = Inr 0 \<or> isl (fst (exec_delete_edge (table_engine busy) i d))"
  then have "filter (\<lambda>r. fst r \<noteq> i) (tb_edges d) = tb_edges d"
    by (intro filter_length_zero) (simp add: table_engine_def table_delete_edge_def)
  then show "keeps (table_engine busy) d (snd (exec_delete_edge (table_engine busy) i d))"
    by (intro table_keeps) (simp_all add: table_engine_def table_delete_edge_def)
next
  fix a b t x d
  assume "isl (fst (exec_insert_edge (table_engine busy) a b t x d))"
  then show "keeps (table_engine busy) d (snd (exec_insert_edge (table_engine busy) a b t x d))"
    by (simp add: table_engine_def table_insert_edge_def)
next
  fix t n p j x i d
  show "keeps (table_engine busy) d (snd (exec_update_entity (table_engine busy) t n p x i d))"
    by (rule table_keeps)
      (simp_all add: table_engine_def table_update_entity_def fst_update_rows del: set_map)
qed (rule table_keeps; force simp: table_engine_def table_insert_entity_def table_insert_label_def
    table_update_entity_def table_begin_def table_commit_def)+

lemma table_no_late_failure: "no_late_failure (table_engine False)"
  unfolding no_late_failure_def
proof (intro conjI allI impI)
  fix d d' assume b: "\<not> isl (fst (exec_begin (table_engine False) d))"
    and w: "wrote (table_engine False) (snd (exec_begin (table_engine False) d)) d'"
  have "tb_saved d' = Some (tb_entities d, tb_edges d)"
    using table_wrote_saved [OF w] b by (auto simp: table_engine_def table_begin_def split: if_splits)
  then show "\<not> isl (fst (exec_commit (table_engine False) d'))"
    by (simp add: table_engine_def table_commit_def)
qed (simp add: table_engine_def table_delete_edges_of_def)

end
