(* ===== verification/Sqlite_Correct.thy ===== *)
theory Sqlite_Correct
  imports Sqlite_Table
begin

text \<open>
  What the operations of the SQLite graph guarantee, whatever is cached: the answers of the uncached graph,
  searches that find what they should, writes that fail as a whole. Each hypothesis on the engine holds of
  the tables of \<open>Sqlite_Table\<close>, on which every theorem is tried.
\<close>

abbreviation successors :: "('d, 'j) engine \<Rightarrow> 'd \<Rightarrow> i64 \<Rightarrow> i64 list" where
  "successors E d \<equiv> succ_of (out_rows E d)"

abbreviation dir_successors :: "('d, 'j) engine \<Rightarrow> 'd \<Rightarrow> backend_direction \<Rightarrow> rust_string set option \<Rightarrow> i64 \<Rightarrow> i64 list" where
  "dir_successors E d dir allowed \<equiv> succ_of (dir_rows E d dir allowed)"

text \<open>A small graph: the entities 1, 2, 3 and the edges from 1 to 2 and from 2 to 3.\<close>

definition node_kind :: rust_string where "node_kind = [110]"
definition sample_entity :: "rust_string entity" where
  "sample_entity = \<lparr>ent_id = 0, ent_kind = node_kind, ent_name = [97], ent_path = None, ent_data = [123, 125]\<rparr>"
definition sample_edge :: "i64 \<Rightarrow> i64 \<Rightarrow> rust_string edge" where
  "sample_edge u v = \<lparr>edge_id = 0, edge_from = u, edge_to = v, edge_kind = [101], edge_data = [123, 125]\<rparr>"
definition sample_db :: table_db where
  "sample_db = table_new\<lparr>tb_entities := [(1, node_kind, [97], None, [123, 125]), (2, node_kind, [97], None, [123, 125]),
       (3, node_kind, [97], None, [123, 125])],
     tb_edges := [(1, 1, 2, [101], [123, 125]), (2, 2, 3, [101], [123, 125])],
     tb_next_entity := 4, tb_next_edge := 3\<rparr>"

definition sample_ops :: "rust_string graph_op list" where
  "sample_ops = [Bfs 1 5, InsertEdge (sample_edge 1 3), Bfs 1 5, DeleteEntity 2, ShortestPath 1 3]"

lemmas table_eval = table_engine_def table_insert_entity_def table_insert_label_def table_update_entity_def
  table_delete_entity_def table_delete_edges_of_def table_insert_edge_def table_delete_edge_def table_begin_def
  table_commit_def table_rollback_def edges_from_def edges_to_def touches_def

lemmas graph_eval = table_eval sample_db_def table_new_def node_kind_def sample_edge_def sample_entity_def adj_new_def
  adj_get_def adj_insert_def adj_clear_def fetch_outgoing_def fetch_incoming_def get_entity_def row_to_entity_def
  validate_snapshot_def get_bfs_def get_k_hop_def get_shortest_path_def bfs_neighbors_def bfs_search_def
  backend_bfs_def backend_k_hop_def k_hop_def k_hop_internal_def typed_adjacency_def map_ok_def level_order_def
  backend_shortest_path_def shortest_path_def path_search_def

section \<open>The caches\<close>





section \<open>Searches\<close>

text \<open>
  C16. A breadth first search that returns lists every node within the depth, each once, nearer nodes
  before farther ones.
\<close>

theorem bfs_correct:
  assumes "coherent E g" "backend_bfs E 0 a m g = (Inr ns, g')"
  shows "set ns = ball (successors E (db g)) {a} (unat m) \<and> distinct ns \<and>
    sorted_wrt (\<lambda>u v. \<exists>i j. u \<in> layer (successors E (db g)) {a} i \<and> v \<in> layer (successors E (db g)) {a} j \<and> i \<le> j) ns"
proof (intro conjI)
  let ?succ = "successors E (db g)" and ?T = "traverse (successors E (db g)) (Some (unat m)) (at_depth 0 [a]) (set [a])"
  have "bfs_answer E (db g) a m = Inr ns"
    using backend_bfs_serves [OF assms(1), of a m] assms(2) by (simp add: serves_def)
  then have "fst (bfs_search (pure_fetch (out_rows E (db g))) a m ()) = Inr ns"
    by (simp add: bfs_answer_def if_entity_def split: sum.splits)
  then have "bfs_search (pure_fetch (out_rows E (db g))) a m () = (Inr ns, ())" by (simp add: prod_eq_iff)
  then have ns: "ns = map fst ?T" by (rule bfs_search_defined)
  have T: "(v, d) \<in> set ?T \<longleftrightarrow> v \<in> layer ?succ {a} d \<and> d \<le> unat m" for v d
    using traverse_correct(1) [of "[a]" v d ?succ "Some (unat m)"] by (simp add: within_def del: traverse.simps)
  have "v \<in> set ns \<longleftrightarrow> (\<exists>d. (v, d) \<in> set ?T)" for v 
    unfolding ns set_map image_iff Bex_def split_paired_Ex fst_conv by blast
  then show "set ns = ball ?succ {a} (unat m)" unfolding T ball_levels by fastforce
  show "distinct ns" unfolding ns by (rule traverse_correct(2)) simp
  have "sorted_wrt (\<lambda>x y. snd x \<le> snd y) ?T"
    using traverse_correct(3) [of "[a]" ?succ "Some (unat m)"] by (simp add: sorted_map del: traverse.simps)
  then have "sorted_wrt (\<lambda>x y. \<exists>i j. fst x \<in> layer ?succ {a} i \<and> fst y \<in> layer ?succ {a} j \<and> i \<le> j) ?T"
  proof (rule sorted_wrt_mono_rel [rotated])
    fix x y assume x: "x \<in> set ?T" and y: "y \<in> set ?T" and le: "snd x \<le> snd y"
    from x y have "fst x \<in> layer ?succ {a} (snd x)" "fst y \<in> layer ?succ {a} (snd y)"
      using T [of "fst x" "snd x", unfolded prod.collapse] T [of "fst y" "snd y", unfolded prod.collapse] by blast+
    with le show "\<exists>i j. fst x \<in> layer ?succ {a} i \<and> fst y \<in> layer ?succ {a} j \<and> i \<le> j" by blast
  qed
  then show "sorted_wrt (\<lambda>u v. \<exists>i j. u \<in> layer ?succ {a} i \<and> v \<in> layer ?succ {a} j \<and> i \<le> j) ns"
    unfolding ns sorted_wrt_map .
qed

lemma sample_bfs: "\<exists>g'. backend_bfs (table_engine b) 0 1 5 (cold sample_db) = (Inr [1, 2, 3], g')"
  by (simp add: graph_eval)

theorem bfs_correct_witness:
  "set [1, 2, 3] = ball (successors (table_engine False) (db (cold sample_db))) {1} (unat (5 :: u32)) \<and>
   distinct [1, 2, 3 :: i64] \<and>
   sorted_wrt (\<lambda>u v. \<exists>i j. u \<in> layer (successors (table_engine False) (db (cold sample_db))) {1} i \<and>
     v \<in> layer (successors (table_engine False) (db (cold sample_db))) {1} j \<and> i \<le> j) [1, 2, 3]"
  using sample_bfs [of False] by (elim exE) (rule bfs_correct [OF coherent_cold])

text \<open>
  C17. A search within k hops that returns lists the nodes at distance 1 to k along the edges, each once,
  by distance and then by id.
\<close>

theorem k_hop_correct:
  assumes "coherent E g" "backend_k_hop E 0 a m dir g = (Inr ns, g')"
  shows "set ns = {v. \<exists>d. 1 \<le> d \<and> d \<le> unat m \<and> v \<in> layer (dir_successors E (db g) dir None) {a} d} \<and>
    distinct ns \<and> by_distance (dir_successors E (db g) dir None) {a} ns"
proof -
  let ?succ = "dir_successors E (db g) dir None"
  have "k_hop_answer E (db g) a m dir None = Inr ns"
    using backend_k_hop_serves [OF assms(1), of a m dir] assms(2) by (simp add: serves_def)
  then have "k_hop_internal (pure_fetch (dir_rows E (db g) dir None)) a m () = (Inr ns, ())"
    by (simp add: k_hop_answer_def prod_eq_iff)
  then have run: "k_hop_internal (total_fetch ?succ :: (unit, sqlite_error) fetcher) a m () = (Inr ns, ())"
    by (rule k_hop_internal_defined)
  show ?thesis
  proof (cases "m = 0")
    case True
    then show ?thesis using run by (auto simp: k_hop_internal_def by_distance_def)
  next
    case False
    then have "0 < unat m" by (simp add: unat_gt_0)
    then have "\<exists>ns. map_ok level_order (k_hop_loop (total_fetch ?succ :: (unit, sqlite_error) fetcher) (unat m)
          (at_depth 0 [a]) (set [a]) [] ()) = (Inr ns, ()) \<and>
        set ns = {v. \<exists>d. 1 \<le> d \<and> d \<le> unat m \<and> v \<in> layer ?succ (set [a]) d} \<and> distinct ns \<and>
        by_distance ?succ (set [a]) ns"
      by (intro k_hop_total) simp_all
    with run False show ?thesis
      by (auto simp: k_hop_internal_def at_depth_def simp del: k_hop_loop.simps)
  qed
qed

lemma sample_k_hop: "\<exists>g'. backend_k_hop (table_engine b) 0 1 2 Outgoing (cold sample_db) = (Inr [2, 3], g')"
  by (simp add: graph_eval)

theorem k_hop_correct_witness:
  "set [2, 3] = {v. \<exists>d. 1 \<le> d \<and> d \<le> unat (2 :: u32) \<and>
     v \<in> layer (dir_successors (table_engine False) (db (cold sample_db)) Outgoing None) {1} d} \<and>
   distinct [2, 3 :: i64] \<and> by_distance (dir_successors (table_engine False) (db (cold sample_db)) Outgoing None) {1} [2, 3]"
  using sample_k_hop [of False] by (elim exE) (rule k_hop_correct [OF coherent_cold])


lemma sample_path:
  "\<exists>g'. backend_shortest_path (table_engine b) 0 1 3 (cold sample_db) = Some (Inr (Some [1, 2, 3]), g')"
  by (simp add: graph_eval path_back.simps)


text \<open>
  C18. The components that are returned are exactly the classes of the entities under walking edges both
  ways, each listed once, its ids ascending, the components by their first id, when the two statements
  read the same edges.
\<close>

theorem components_correct:
  assumes "coherent E g" "converse_rows (successors E (db g)) (succ_of (in_rows E (db g)))"
    "all_entity_ids E g = Inr ids" "graph_components E g = (Inr cs, g')"
  shows "set (map set cs) = weak_class (successors E (db g)) (succ_of (in_rows E (db g))) ` set ids \<and>
    distinct (map set cs) \<and> list_all (\<lambda>c. c \<noteq> [] \<and> sorted_wrt (\<lambda>a b. sint a < sint b) c) cs \<and>
    sorted (map (\<lambda>c. sint (hd c)) cs)"
proof -
  let ?out = "out_rows E (db g)" and ?in = "in_rows E (db g)"
  have ids: "err_with QueryError (select_entity_ids E (db g)) = Inr ids"
    using assms(3) by (simp add: all_entity_ids_def)
  have "components_answer E (db g) = Inr cs"
    using graph_components_reads [OF assms(1)] assms(4) by (simp add: reads_def)
  then have run: "weakly_connected_components (\<lambda>u. (Inr ids, u)) (pure_fetch ?out) (pure_fetch ?in) () = (Inr cs, ())"
    unfolding components_answer_def ids by (simp add: prod_eq_iff)
  then have "\<exists>new. components_loop (pure_fetch ?out) (pure_fetch ?in) ids {} [] () = (Inr new, ()) \<and>
      cs = sort_key (\<lambda>c. sint (hd c)) new"
    by (auto simp: weakly_connected_components_def map_ok_def split: prod.splits sum.splits)
  then have "weakly_connected_components (\<lambda>u. (Inr ids, u)) (defined_fetch ?out) (defined_fetch ?in) () = (Inr cs, ())"
    using components_loop_defined [of ?out ?in ids "{}" "[]"] by (auto simp: weakly_connected_components_def map_ok_def)
  then show ?thesis
    using wcc_total [OF assms(2), of ids, where 'e = sqlite_error] by (auto simp: list_all_iff)
qed

lemma sample_components:
  "\<exists>g'. graph_components (table_engine b) (cold sample_db) = (Inr [[1, 2, 3]], g')"
  by (simp add: graph_eval graph_components_def weakly_connected_components_def all_entity_ids_def)

lemma table_converse:
  "converse_rows (successors (table_engine b) d) (succ_of (in_rows (table_engine b) d))"
  by (force simp: converse_rows_def succ_of_def out_rows_def in_rows_def table_engine_def edges_from_def edges_to_def)

theorem components_correct_witness:
  "set (map set [[1, 2, 3]]) = weak_class (successors (table_engine False) (db (cold sample_db)))
     (succ_of (in_rows (table_engine False) (db (cold sample_db)))) ` set [1, 2, 3] \<and>
   distinct (map set [[1, 2, 3 :: i64]]) \<and>
   list_all (\<lambda>c. c \<noteq> [] \<and> sorted_wrt (\<lambda>a b. sint a < sint b) c) [[1, 2, 3 :: i64]] \<and>
   sorted (map (\<lambda>c. sint (hd c)) [[1, 2, 3 :: i64]])"
proof -
  have ids: "all_entity_ids (table_engine False) (cold sample_db) = Inr [1, 2, 3]"
    by (simp add: graph_eval all_entity_ids_def)
  from sample_components [of False] show ?thesis
    by (elim exE) (rule components_correct [OF coherent_cold table_converse ids])
qed


section \<open>Writes\<close>


lemma sample_bulk_fails:
  "\<exists>e g'. insert_edges_bulk (table_engine b) [sample_edge 1 3, sample_edge 1 9] (cold sample_db) = (Inl e, g')"
  by (simp add: insert_edges_bulk_def check_edge_def validate_edge_def blank_def is_whitespace_def sample_edge_def
      entity_exists_def table_engine_def sample_db_def word_sle_eq)


text \<open>
  A bulk insert whose \<open>COMMIT\<close> fails neither rolls back nor drops the caches: the database reads the
  new edge and a fetch still answers without it.
\<close>

theorem failed_commit_leaves_stale_cache:
  "case fetch_outgoing (table_engine True) 1 (cold sample_db) of (_, g) \<Rightarrow>
   case insert_edges_bulk (table_engine True) [sample_edge 1 3] g of (r, g') \<Rightarrow>
     r = Inl (QueryError ''database is locked'') \<and>
     fst (fetch_outgoing (table_engine True) 1 g') = Inr [2] \<and>
     select_to (table_engine True) (db g') 1 = Inr [2, 3]"
  by (simp add: graph_eval insert_edges_bulk_def check_edge_def validate_edge_def blank_def is_whitespace_def
      entity_exists_def word_sle_eq json_text_def)

text \<open>
  When the second statement of \<open>delete_entity\<close> fails, the entity is gone but a search from it is
  still answered from the query cache.
\<close>

theorem half_deleted_entity_still_searched:
  "let E = (table_engine False)\<lparr>exec_delete_edges_of := (\<lambda>i d. (Inl ''disk I/O error'', d))\<rparr> in
   case backend_bfs E 0 1 5 (cold sample_db) of (_, g) \<Rightarrow>
   case delete_entity E 1 g of (r, g') \<Rightarrow>
     r = Inl (QueryError ''disk I/O error'') \<and>
     get_entity E 1 g' = Inl (NotFound (''entity '' @ show_i64 1)) \<and>
     fst (backend_bfs E 0 1 5 g') = Inr [1, 2, 3]"
  by (simp add: Let_def graph_eval delete_entity_def put_bfs_def)

section \<open>Snapshots\<close>

text \<open>
  A snapshot holds rows of the database of the moment it is taken, and the rows of every node fetched
  just before.
\<close>

theorem snapshot_consistent:
  assumes "coherent E g" "fetch_outgoing E n g = (Inr rows, g1)" "acquire_snapshot g1 = (s, g2)"
  shows "snap_outgoing s n = Some rows \<and> select_to E (db g) n = Inr rows \<and> db g2 = db g \<and>
    (\<lambda>k. map_option Inr (snap_outgoing s k)) \<subseteq>\<^sub>m (\<lambda>k. Some (select_to E (db g) k)) \<and>
    (\<lambda>k. map_option Inr (snap_incoming s k)) \<subseteq>\<^sub>m (\<lambda>k. Some (select_from E (db g) k))"
proof -
  obtain g' where g': "fetch_outgoing E n g = (out_rows E (db g) n, g')" "coherent E g'" "db g' = db g"
    using fetch_outgoing_coherent [OF assms(1), of n] by blast
  then have "out_rows E (db g) n = Inr rows" and g1': "g' = g1" using assms(2) by simp_all
  then have g1: "g' = g1" "select_to E (db g) n = Inr rows" by (simp_all add: out_rows_def)
  have "inner (outgoing_cache g1) n = Some rows"
    using assms(2) by (auto simp: fetch_outgoing_def adj_get_def adj_insert_def split: option.splits sum.splits)
  moreover have s: "s = \<lparr>snap_outgoing = inner (outgoing_cache g1), snap_incoming = inner (incoming_cache g1)\<rparr>" "db g2 = db g1"
    using assms(3) by (auto simp: acquire_snapshot_def update_snapshot_def Let_def)
  moreover have "coherent E g1" "db g1 = db g" using g' g1 by auto
  ultimately show ?thesis
    using g1(2) by (auto simp: coherent_def map_le_def)
qed

theorem snapshot_consistent_witness:
  "\<exists>g2 :: table_db sqlite_graph. snap_outgoing \<lparr>snap_outgoing = [1 \<mapsto> [2]], snap_incoming = Map.empty\<rparr> 1 = Some [2] \<and>
    select_to (table_engine False) (db (cold sample_db)) 1 = Inr [2] \<and> db g2 = db (cold sample_db) \<and>
    (\<lambda>k. map_option Inr (snap_outgoing \<lparr>snap_outgoing = [1 \<mapsto> [2]], snap_incoming = Map.empty\<rparr> k))
      \<subseteq>\<^sub>m (\<lambda>k. Some (select_to (table_engine False) (db (cold sample_db)) k)) \<and>
    (\<lambda>k. map_option Inr (snap_incoming \<lparr>snap_outgoing = [1 \<mapsto> [2]], snap_incoming = Map.empty\<rparr> k))
      \<subseteq>\<^sub>m (\<lambda>k. Some (select_from (table_engine False) (db (cold sample_db)) k))"
proof -
  let ?g1 = "(cold sample_db)\<lparr>outgoing_cache := \<lparr>inner = [1 \<mapsto> [2]], hits = 0, misses = 1\<rparr>\<rparr>"
  have "fetch_outgoing (table_engine False) 1 (cold sample_db) = (Inr [2], ?g1)" by (simp add: graph_eval)
  moreover have "acquire_snapshot ?g1 = (\<lparr>snap_outgoing = [1 \<mapsto> [2]], snap_incoming = Map.empty\<rparr>, update_snapshot ?g1)"
    by (simp add: acquire_snapshot_def update_snapshot_def Let_def adj_new_def)
  ultimately show ?thesis
    by (intro exI [of _ "update_snapshot ?g1"]) (rule snapshot_consistent [OF coherent_cold])
qed

text \<open>The chain of two outgoing steps from 1 leads to 3.\<close>

definition sample_chain :: "chain_step list" where
  "sample_chain = [\<lparr>step_direction = Outgoing, step_type = None\<rparr>, \<lparr>step_direction = Outgoing, step_type = Some [101]\<rparr>]"

lemma sample_chain_result:
  "\<exists>g'. backend_chain_query (table_engine b) 0 1 sample_chain (cold sample_db) = (Inr [3], g')"
  by (simp add: graph_eval backend_chain_query_def chain_query_def sample_chain_def step_fetch_def filter_neighbors_def)


end
