(* ===== verification/Typed_Digraph.thy ===== *)
theory Typed_Digraph
  imports Prelude
begin

text \<open>
  The in-memory directed graph of \<open>typed_digraph/graph.rs\<close>: nodes and edges in slots that are reused after
  a removal, and for every node the lists of its outgoing and incoming edges. Indices are \<open>usize\<close>, natural
  numbers; an index beyond a vector is a panic unless the code asks with \<open>get\<close>.
\<close>

section \<open>The graph\<close>

record 'e edge_entry =
  entry_from :: nat
  entry_to :: nat
  entry_weight :: "'e option"

datatype edge_dir = Out_Edges | In_Edges

record ('n, 'e) digraph =
  dg_nodes :: "'n option list"
  dg_edges :: "'e edge_entry option list"
  adj_out :: "(nat \<times> nat) list list"
  adj_in :: "(nat \<times> nat) list list"
  free_nodes :: "nat list"
  free_edges :: "nat list"
  dg_node_count :: nat
  dg_edge_count :: nat

definition dg_new :: "('n, 'e) digraph" where
  "dg_new = \<lparr>dg_nodes = [], dg_edges = [], adj_out = [], adj_in = [], free_nodes = [], free_edges = [],
     dg_node_count = 0, dg_edge_count = 0\<rparr>"

text \<open>\<open>Vec::get\<close>, and indexing, which panics beyond the end.\<close>

definition vec_get :: "'a list \<Rightarrow> nat \<Rightarrow> 'a option" where
  "vec_get xs i = (if i < length xs then Some (xs ! i) else None)"

definition slot_get :: "'a option list \<Rightarrow> nat \<Rightarrow> 'a option" where
  "slot_get xs i = Option.bind (vec_get xs i) (\<lambda>x. x)"

definition contains_node :: "nat \<Rightarrow> ('n, 'e) digraph \<Rightarrow> bool" where
  "contains_node v g \<longleftrightarrow> slot_get (dg_nodes g) v \<noteq> None"

text \<open>A reused slot keeps its adjacency lists, which its removal has emptied.\<close>

definition dg_add_node :: "'n \<Rightarrow> (('n, 'e) digraph, nat) action" where
  "dg_add_node weight g =
     (let g1 = g\<lparr>dg_node_count := dg_node_count g + 1\<rparr>
      in if free_nodes g1 \<noteq> [] then
           let slot = last (free_nodes g1);
               g2 = g1\<lparr>free_nodes := butlast (free_nodes g1)\<rparr>
           in if slot < length (dg_nodes g2) then (Inr slot, g2\<lparr>dg_nodes := (dg_nodes g2)[slot := Some weight]\<rparr>)
              else (Inl Panic, g2)
         else (Inr (length (dg_nodes g1)),
               g1\<lparr>dg_nodes := dg_nodes g1 @ [Some weight], adj_out := adj_out g1 @ [[]], adj_in := adj_in g1 @ [[]]\<rparr>))"

definition push_adj :: "nat \<Rightarrow> nat \<Rightarrow> nat \<Rightarrow> (('n, 'e) digraph, unit) action" where
  "push_adj e u v g =
     (if u < length (adj_out g) then
        let g1 = g\<lparr>adj_out := (adj_out g)[u := adj_out g ! u @ [(e, v)]]\<rparr>
        in if v < length (adj_in g1) then (Inr (), g1\<lparr>adj_in := (adj_in g1)[v := adj_in g1 ! v @ [(e, u)]]\<rparr>)
           else (Inl Panic, g1)
      else (Inl Panic, g))"

definition dg_add_edge :: "nat \<Rightarrow> nat \<Rightarrow> 'e \<Rightarrow> (('n, 'e) digraph, nat) action" where
  "dg_add_edge u v weight g =
     (if \<not> contains_node u g \<or> \<not> contains_node v g then (Inl Panic, g)
      else
        let g1 = g\<lparr>dg_edge_count := dg_edge_count g + 1\<rparr>;
            entry = \<lparr>entry_from = u, entry_to = v, entry_weight = Some weight\<rparr>
        in if free_edges g1 \<noteq> [] then
             let slot = last (free_edges g1);
                 g2 = g1\<lparr>free_edges := butlast (free_edges g1)\<rparr>
             in if slot < length (dg_edges g2) then
                  bindS (push_adj slot u v) (\<lambda>_. returnS slot) (g2\<lparr>dg_edges := (dg_edges g2)[slot := Some entry]\<rparr>)
                else (Inl Panic, g2)
           else
             let idx = length (dg_edges g1)
             in bindS (push_adj idx u v) (\<lambda>_. returnS idx) (g1\<lparr>dg_edges := dg_edges g1 @ [Some entry]\<rparr>))"

definition remove_edge_from_adj :: "nat \<Rightarrow> nat \<Rightarrow> nat \<Rightarrow> (('n, 'e) digraph, unit) action" where
  "remove_edge_from_adj e u v g =
     (if u < length (adj_out g) then
        let g1 = g\<lparr>adj_out := (adj_out g)[u := filter (\<lambda>x. fst x \<noteq> e) (adj_out g ! u)]\<rparr>
        in if v < length (adj_in g1) then
             (Inr (), g1\<lparr>adj_in := (adj_in g1)[v := filter (\<lambda>x. fst x \<noteq> e) (adj_in g1 ! v)]\<rparr>)
           else (Inl Panic, g1)
      else (Inl Panic, g))"

definition dg_remove_edge :: "nat \<Rightarrow> (('n, 'e) digraph, 'e option) action" where
  "dg_remove_edge e g =
     (case vec_get (dg_edges g) e of
        None \<Rightarrow> (Inl Panic, g)
      | Some None \<Rightarrow> (Inr None, g)
      | Some (Some entry) \<Rightarrow>
          bindS (remove_edge_from_adj e (entry_from entry) (entry_to entry)) (\<lambda>_ g2.
            let g3 = g2\<lparr>dg_edge_count := dg_edge_count g2 - 1, free_edges := free_edges g2 @ [e]\<rparr>
            in case entry_weight entry of None \<Rightarrow> (Inl Panic, g3) | Some w \<Rightarrow> (Inr (Some w), g3))
          (g\<lparr>dg_edges := (dg_edges g)[e := None]\<rparr>))"

definition remove_edge_raw :: "nat \<Rightarrow> (('n, 'e) digraph, unit) action" where
  "remove_edge_raw e g =
     (case vec_get (dg_edges g) e of
        None \<Rightarrow> (Inl Panic, g)
      | Some None \<Rightarrow> (Inr (), g)
      | Some (Some entry) \<Rightarrow>
          bindS (remove_edge_from_adj e (entry_from entry) (entry_to entry)) (\<lambda>_ g2.
            (Inr (), g2\<lparr>dg_edge_count := dg_edge_count g2 - 1, free_edges := free_edges g2 @ [e]\<rparr>))
          (g\<lparr>dg_edges := (dg_edges g)[e := None]\<rparr>))"

fun remove_edges_raw :: "nat list \<Rightarrow> (('n, 'e) digraph, unit) action" where
  "remove_edges_raw [] g = (Inr (), g)"
| "remove_edges_raw (e # es) g = bindS (remove_edge_raw e) (\<lambda>_. remove_edges_raw es) g"

definition dg_remove_node :: "nat \<Rightarrow> (('n, 'e) digraph, 'n option) action" where
  "dg_remove_node v g =
     (if length (dg_nodes g) \<le> v then (Inr None, g)
      else case dg_nodes g ! v of
        None \<Rightarrow> (Inr None, g)
      | Some weight \<Rightarrow>
          let g1 = g\<lparr>dg_nodes := (dg_nodes g)[v := None], dg_node_count := dg_node_count g - 1\<rparr>
          in if length (adj_out g1) \<le> v then (Inl Panic, g1)
             else bindS (remove_edges_raw (map fst (adj_out g1 ! v))) (\<lambda>_ g2.
               let g3 = g2\<lparr>adj_out := (adj_out g2)[v := []]\<rparr>
               in if length (adj_in g3) \<le> v then (Inl Panic, g3)
                  else bindS (remove_edges_raw (map fst (adj_in g3 ! v))) (\<lambda>_ g4.
                    (Inr (Some weight), g4\<lparr>adj_in := (adj_in g4)[v := []], free_nodes := free_nodes g4 @ [v]\<rparr>))
                  g3) g1)"

definition node_weight :: "nat \<Rightarrow> ('n, 'e) digraph \<Rightarrow> 'n option" where
  "node_weight v g = slot_get (dg_nodes g) v"

definition edge_weight :: "nat \<Rightarrow> ('n, 'e) digraph \<Rightarrow> 'e option" where
  "edge_weight e g = Option.bind (slot_get (dg_edges g) e) entry_weight"

definition edge_endpoints :: "nat \<Rightarrow> ('n, 'e) digraph \<Rightarrow> (nat \<times> nat) option" where
  "edge_endpoints e g = map_option (\<lambda>x. (entry_from x, entry_to x)) (slot_get (dg_edges g) e)"

definition adj_of :: "edge_dir \<Rightarrow> ('n, 'e) digraph \<Rightarrow> nat \<Rightarrow> (nat \<times> nat) list" where
  "adj_of dir g v =
     (case vec_get (case dir of Out_Edges \<Rightarrow> adj_out g | In_Edges \<Rightarrow> adj_in g) v of None \<Rightarrow> [] | Some l \<Rightarrow> l)"

definition neighbors_directed :: "edge_dir \<Rightarrow> ('n, 'e) digraph \<Rightarrow> nat \<Rightarrow> nat list" where
  "neighbors_directed dir g v = map snd (adj_of dir g v)"

definition edges_directed :: "edge_dir \<Rightarrow> ('n, 'e) digraph \<Rightarrow> nat \<Rightarrow> (nat \<times> 'e \<times> nat) list" where
  "edges_directed dir g v =
     List.map_filter (\<lambda>(e, target). map_option (\<lambda>w. (e, w, target)) (edge_weight e g)) (adj_of dir g v)"

definition out_degree :: "nat \<Rightarrow> ('n, 'e) digraph \<Rightarrow> nat" where
  "out_degree v g = length (adj_of Out_Edges g v)"

definition in_degree_of :: "nat \<Rightarrow> ('n, 'e) digraph \<Rightarrow> nat" where
  "in_degree_of v g = length (adj_of In_Edges g v)"

definition node_indices :: "('n, 'e) digraph \<Rightarrow> nat list" where
  "node_indices g = filter (\<lambda>v. dg_nodes g ! v \<noteq> None) [0..<length (dg_nodes g)]"

definition edge_indices :: "('n, 'e) digraph \<Rightarrow> nat list" where
  "edge_indices g = filter (\<lambda>e. dg_edges g ! e \<noteq> None) [0..<length (dg_edges g)]"

definition find_edge :: "nat \<Rightarrow> nat \<Rightarrow> ('n, 'e) digraph \<Rightarrow> nat option" where
  "find_edge u v g =
     Option.bind (vec_get (adj_out g) u) (\<lambda>l. map_option fst (find (\<lambda>x. snd x = v) l))"

section \<open>What a graph stands for\<close>

text \<open>The nodes and the edges as maps from their indices.\<close>

definition node_map :: "('n, 'e) digraph \<Rightarrow> nat \<Rightarrow> 'n option" where
  "node_map g = slot_get (dg_nodes g)"

definition edge_at :: "'e edge_entry option list \<Rightarrow> nat \<Rightarrow> (nat \<times> nat \<times> 'e) option" where
  "edge_at es e = Option.bind (slot_get es e) (\<lambda>x.
     map_option (\<lambda>w. (entry_from x, entry_to x, w)) (entry_weight x))"

abbreviation edge_map :: "('n, 'e) digraph \<Rightarrow> nat \<Rightarrow> (nat \<times> nat \<times> 'e) option" where
  "edge_map g \<equiv> edge_at (dg_edges g)"

definition out_list_ok :: "(nat \<Rightarrow> (nat \<times> nat \<times> 'e) option) \<Rightarrow> nat \<Rightarrow> (nat \<times> nat) list \<Rightarrow> bool" where
  "out_list_ok M v l \<longleftrightarrow> distinct (map fst l) \<and> set l = {(e, t). \<exists>w. M e = Some (v, t, w)}"

definition in_list_ok :: "(nat \<Rightarrow> (nat \<times> nat \<times> 'e) option) \<Rightarrow> nat \<Rightarrow> (nat \<times> nat) list \<Rightarrow> bool" where
  "in_list_ok M v l \<longleftrightarrow> distinct (map fst l) \<and> set l = {(e, t). \<exists>w. M e = Some (t, v, w)}"

definition slots_ok :: "'a option list \<Rightarrow> nat list \<Rightarrow> nat \<Rightarrow> bool" where
  "slots_ok xs free n \<longleftrightarrow> distinct free \<and> set free = {i. i < length xs \<and> xs ! i = None} \<and>
     n = card {i. i < length xs \<and> xs ! i \<noteq> None}"

text \<open>The adjacency lists fit the edges; the whole invariant adds that edges join live nodes.\<close>

definition edges_ok :: "('n, 'e) digraph \<Rightarrow> bool" where
  "edges_ok g \<longleftrightarrow>
     length (adj_out g) = length (dg_nodes g) \<and> length (adj_in g) = length (dg_nodes g) \<and>
     (\<forall>v < length (dg_nodes g). out_list_ok (edge_map g) v (adj_out g ! v)) \<and>
     (\<forall>v < length (dg_nodes g). in_list_ok (edge_map g) v (adj_in g ! v)) \<and>
     (\<forall>e u v w. edge_map g e = Some (u, v, w) \<longrightarrow> u < length (dg_nodes g) \<and> v < length (dg_nodes g)) \<and>
     (\<forall>e x. slot_get (dg_edges g) e = Some x \<longrightarrow> entry_weight x \<noteq> None) \<and>
     slots_ok (dg_edges g) (free_edges g) (dg_edge_count g)"

definition digraph_ok :: "('n, 'e) digraph \<Rightarrow> bool" where
  "digraph_ok g \<longleftrightarrow> edges_ok g \<and> slots_ok (dg_nodes g) (free_nodes g) (dg_node_count g) \<and>
     (\<forall>e u v w. edge_map g e = Some (u, v, w) \<longrightarrow> contains_node u g \<and> contains_node v g)"

section \<open>Slots\<close>

lemma slots_ok_push:
  assumes "slots_ok xs free n" "free = []"
  shows "slots_ok (xs @ [Some x]) [] (n + 1)"
proof -
  have "{i. i < length (xs @ [Some x]) \<and> (xs @ [Some x]) ! i \<noteq> None} =
      insert (length xs) {i. i < length xs \<and> xs ! i \<noteq> None}"
    by (auto simp: nth_append less_Suc_eq split: if_splits)
  then show ?thesis using assms by (auto simp: slots_ok_def nth_append less_Suc_eq split: if_splits)
qed

lemma slots_ok_pop:
  assumes "slots_ok xs free n" "free \<noteq> []"
  shows "last free < length xs" "xs ! last free = None"
    "slots_ok (xs[last free := Some x]) (butlast free) (n + 1)"
proof -
  have l: "last free \<in> {i. i < length xs \<and> xs ! i = None}"
    using assms last_in_set [of free] by (auto simp: slots_ok_def)
  then show "last free < length xs" "xs ! last free = None" by auto
  have free: "distinct (butlast free)" "set free = insert (last free) (set (butlast free))" "last free \<notin> set (butlast free)"
    using assms by (cases free rule: rev_cases; simp add: slots_ok_def)+
  have "{i. i < length (xs[last free := Some x]) \<and> xs[last free := Some x] ! i \<noteq> None} =
      insert (last free) {i. i < length xs \<and> xs ! i \<noteq> None}"
    using l by (auto simp: nth_list_update split: if_splits)
  then have "card {i. i < length (xs[last free := Some x]) \<and> xs[last free := Some x] ! i \<noteq> None} = n + 1"
    using l assms(1) by (simp add: slots_ok_def)
  moreover have "set (butlast free) = {i. i < length (xs[last free := Some x]) \<and> xs[last free := Some x] ! i = None}"
  proof -
    have "set (butlast free) = set free - {last free}" using free(2,3) by blast
    also have "set free = {i. i < length xs \<and> xs ! i = None}" using assms(1) by (simp add: slots_ok_def)
    finally show ?thesis using l by (auto simp: nth_list_update split: if_splits)
  qed
  ultimately show "slots_ok (xs[last free := Some x]) (butlast free) (n + 1)"
    using free(1) by (simp add: slots_ok_def)
qed

lemma slots_ok_free:
  assumes "slots_ok xs free n" "i < length xs" "xs ! i \<noteq> None"
  shows "slots_ok (xs[i := None]) (free @ [i]) (n - 1)"
proof -
  have "{j. j < length (xs[i := None]) \<and> xs[i := None] ! j \<noteq> None} = {j. j < length xs \<and> xs ! j \<noteq> None} - {i}"
    using assms(2) by (auto simp: nth_list_update split: if_splits)
  then show ?thesis using assms by (auto simp: slots_ok_def nth_list_update split: if_splits)
qed

section \<open>Edges come and go\<close>

lemma edge_at_update: "i < length es \<Longrightarrow> edge_at (es[i := x]) = (edge_at es)(i := Option.bind x (\<lambda>x.
    map_option (\<lambda>w. (entry_from x, entry_to x, w)) (entry_weight x)))"
  by (auto simp: edge_at_def slot_get_def vec_get_def)

lemma edge_at_push: "edge_at (es @ [x]) = (edge_at es)(length es := Option.bind x (\<lambda>x.
    map_option (\<lambda>w. (entry_from x, entry_to x, w)) (entry_weight x)))"
  by (auto simp: edge_at_def slot_get_def vec_get_def nth_append less_Suc_eq)

lemma edge_at_none: "length es \<le> i \<or> es ! i = None \<Longrightarrow> edge_at es i = None"
  by (auto simp: edge_at_def slot_get_def vec_get_def)

lemma out_list_add:
  assumes "out_list_ok M v l" "M e = None"
  shows "out_list_ok (M(e \<mapsto> (u, t, w))) v (if v = u then l @ [(e, t)] else l)"
  using assms by (auto simp: out_list_ok_def split: if_splits)

lemma in_list_add:
  assumes "in_list_ok M v l" "M e = None"
  shows "in_list_ok (M(e \<mapsto> (t, u, w))) v (if v = u then l @ [(e, t)] else l)"
  using assms by (auto simp: in_list_ok_def split: if_splits)

lemma out_list_del:
  assumes "out_list_ok M v l" "M e = Some (u, t, w)"
  shows "out_list_ok (M(e := None)) v (if v = u then filter (\<lambda>x. fst x \<noteq> e) l else l)"
  using assms by (auto simp: out_list_ok_def distinct_map_filter split: if_splits)

lemma in_list_del:
  assumes "in_list_ok M v l" "M e = Some (t, u, w)"
  shows "in_list_ok (M(e := None)) v (if v = u then filter (\<lambda>x. fst x \<noteq> e) l else l)"
  using assms by (auto simp: in_list_ok_def distinct_map_filter split: if_splits)

lemma edges_ok_ends:
  "edges_ok g \<Longrightarrow> edge_map g e = Some (u, v, w) \<Longrightarrow> u < length (dg_nodes g) \<and> v < length (dg_nodes g)"
  unfolding edges_ok_def by blast

text \<open>Adding the entry of a fresh edge to the two lists, and taking one out.\<close>

lemma lists_add:
  assumes ok: "edges_ok g" and e: "edge_map g e = None" and uv: "u < length (dg_nodes g)" "v < length (dg_nodes g)"
    and es: "edge_at es = (edge_map g)(e \<mapsto> (u, v, w))"
      "\<forall>i x. slot_get es i = Some x \<longrightarrow> entry_weight x \<noteq> None" "slots_ok es free n"
  shows "\<exists>g'. push_adj e u v (g\<lparr>dg_edges := es, free_edges := free, dg_edge_count := n\<rparr>) = (Inr (), g') \<and> edges_ok g' \<and>
    dg_edges g' = es \<and> dg_nodes g' = dg_nodes g \<and> free_nodes g' = free_nodes g \<and> dg_node_count g' = dg_node_count g"
proof -
  let ?g = "g\<lparr>dg_edges := es, free_edges := free, dg_edge_count := n,
    adj_out := (adj_out g)[u := adj_out g ! u @ [(e, v)]], adj_in := (adj_in g)[v := adj_in g ! v @ [(e, u)]]\<rparr>"
  have len: "length (adj_out g) = length (dg_nodes g)" "length (adj_in g) = length (dg_nodes g)"
    using ok by (simp_all add: edges_ok_def)
  have "push_adj e u v (g\<lparr>dg_edges := es, free_edges := free, dg_edge_count := n\<rparr>) = (Inr (), ?g)"
    using uv len by (simp add: push_adj_def Let_def)
  moreover have "out_list_ok (edge_at es) x (adj_out ?g ! x)" if "x < length (dg_nodes g)" for x
    using out_list_add [of "edge_map g" x "adj_out g ! x" e u v w] e ok that uv len
    by (auto simp: edges_ok_def es(1) nth_list_update)
  moreover have "in_list_ok (edge_at es) x (adj_in ?g ! x)" if "x < length (dg_nodes g)" for x
    using in_list_add [of "edge_map g" x "adj_in g ! x" e u v w] e ok that uv len
    by (auto simp: edges_ok_def es(1) nth_list_update)
  moreover have "a < length (dg_nodes g) \<and> b < length (dg_nodes g)" if "edge_at es i = Some (a, b, c)" for i a b c
    using that edges_ok_ends [OF ok, of i a b c] uv unfolding es(1) by (auto split: if_splits)
  ultimately have "edges_ok ?g" using es(2,3) len by (simp add: edges_ok_def)
  with \<open>push_adj e u v _ = _\<close> show ?thesis by (intro exI [of _ ?g]) simp
qed

lemma remove_edge_raw_ok:
  assumes ok: "edges_ok g" and e: "e < length (dg_edges g)"
  shows "\<exists>g'. remove_edge_raw e g = (Inr (), g') \<and> edges_ok g' \<and> edge_map g' = (edge_map g)(e := None) \<and>
    length (dg_edges g') = length (dg_edges g) \<and> dg_nodes g' = dg_nodes g \<and> free_nodes g' = free_nodes g \<and>
    dg_node_count g' = dg_node_count g"
proof (cases "dg_edges g ! e")
  case None
  then show ?thesis using ok e edge_at_none [of "dg_edges g" e]
    by (auto simp: remove_edge_raw_def vec_get_def intro!: exI [of _ g])
next
  case (Some x)
  let ?u = "entry_from x" and ?v = "entry_to x" and ?es = "(dg_edges g)[e := None]"
  have "slot_get (dg_edges g) e = Some x" using Some e by (simp add: slot_get_def vec_get_def)
  moreover from this ok have "entry_weight x \<noteq> None" unfolding edges_ok_def by blast
  ultimately obtain w where w: "edge_map g e = Some (?u, ?v, w)" by (auto simp: edge_at_def)
  have len: "length (adj_out g) = length (dg_nodes g)" "length (adj_in g) = length (dg_nodes g)"
    using ok by (simp_all add: edges_ok_def)
  from w ok have uv: "?u < length (dg_nodes g)" "?v < length (dg_nodes g)" unfolding edges_ok_def by blast+
  have M: "edge_at ?es = (edge_map g)(e := None)" using e by (simp add: edge_at_update)
  let ?g = "g\<lparr>dg_edges := ?es, adj_out := (adj_out g)[?u := filter (\<lambda>y. fst y \<noteq> e) (adj_out g ! ?u)],
    adj_in := (adj_in g)[?v := filter (\<lambda>y. fst y \<noteq> e) (adj_in g ! ?v)],
    dg_edge_count := dg_edge_count g - 1, free_edges := free_edges g @ [e]\<rparr>"
  have run: "remove_edge_raw e g = (Inr (), ?g)"
    using Some e uv len by (simp add: remove_edge_raw_def vec_get_def remove_edge_from_adj_def Let_def bindS_def)
  moreover have "out_list_ok (edge_at ?es) y (adj_out ?g ! y)" if "y < length (dg_nodes g)" for y
    using out_list_del [of "edge_map g" y "adj_out g ! y" e ?u ?v w] w ok that uv len by (auto simp: edges_ok_def M nth_list_update)
  moreover have "in_list_ok (edge_at ?es) y (adj_in ?g ! y)" if "y < length (dg_nodes g)" for y
    using in_list_del [of "edge_map g" y "adj_in g ! y" e ?u ?v w] w ok that uv len by (auto simp: edges_ok_def M nth_list_update)
  moreover have "slots_ok ?es (free_edges g @ [e]) (dg_edge_count g - 1)"
    using slots_ok_free [of "dg_edges g" "free_edges g" "dg_edge_count g" e] ok e Some by (simp add: edges_ok_def)
  moreover have "entry_weight y \<noteq> None" if "slot_get ?es i = Some y" for i y
  proof -
    have "slot_get (dg_edges g) i = Some y" using that e by (auto simp: slot_get_def vec_get_def nth_list_update split: if_splits)
    with ok show ?thesis unfolding edges_ok_def by blast
  qed
  moreover have "a < length (dg_nodes g) \<and> b < length (dg_nodes g)" if "edge_at ?es i = Some (a, b, c)" for i a b c
    using that edges_ok_ends [OF ok, of i a b c] unfolding M by (auto split: if_splits)
  ultimately have "edges_ok ?g" using len by (simp add: edges_ok_def)
  with run M show ?thesis by (intro exI [of _ ?g]) simp
qed

section \<open>The operations\<close>

lemma digraph_ok_new: "digraph_ok dg_new"
  by (simp add: digraph_ok_def edges_ok_def dg_new_def slots_ok_def edge_at_def slot_get_def vec_get_def)

lemma contains_node_map: "contains_node v g \<longleftrightarrow> node_map g v \<noteq> None"
  by (simp add: contains_node_def node_map_def)

lemma contains_node_less: "contains_node v g \<Longrightarrow> v < length (dg_nodes g)"
  by (auto simp: contains_node_def slot_get_def vec_get_def split: if_splits)

lemma node_map_update: "i < length ns \<Longrightarrow> slot_get (ns[i := x]) = (slot_get ns)(i := x)"
  by (auto simp: slot_get_def vec_get_def)

lemma node_map_push: "slot_get (ns @ [x]) = (slot_get ns)(length ns := x)"
  by (auto simp: slot_get_def vec_get_def nth_append less_Suc_eq)

lemma dg_add_node_ok:
  assumes "digraph_ok g"
  shows "\<exists>i g'. dg_add_node w g = (Inr i, g') \<and> digraph_ok g' \<and> node_map g i = None \<and>
    node_map g' = (node_map g)(i \<mapsto> w) \<and> edge_map g' = edge_map g"
proof (cases "free_nodes g = []")
  case True
  let ?i = "length (dg_nodes g)"
  let ?g = "g\<lparr>dg_node_count := dg_node_count g + 1, dg_nodes := dg_nodes g @ [Some w],
    adj_out := adj_out g @ [[]], adj_in := adj_in g @ [[]]\<rparr>"
  have ok: "edges_ok g" "slots_ok (dg_nodes g) (free_nodes g) (dg_node_count g)"
    using assms by (simp_all add: digraph_ok_def)
  have "out_list_ok (edge_map g) ?i []" "in_list_ok (edge_map g) ?i []"
    using edges_ok_ends [OF ok(1)] by (fastforce simp: out_list_ok_def in_list_ok_def)+
  then have "edges_ok ?g"
    using ok(1) edges_ok_ends [OF ok(1)] by (auto simp: edges_ok_def nth_append less_Suc_eq)
  moreover have "slots_ok (dg_nodes ?g) (free_nodes ?g) (dg_node_count ?g)"
    using slots_ok_push [OF ok(2) True, of w] True by simp
  moreover have m: "node_map ?g = (node_map g)(?i \<mapsto> w)" by (simp add: node_map_def node_map_push)
  then have "contains_node v ?g" if "contains_node v g" for v
    using that by (auto simp: contains_node_map)
  ultimately have "digraph_ok ?g" using assms by (simp add: digraph_ok_def)
  moreover have "node_map g ?i = None" by (simp add: node_map_def slot_get_def vec_get_def)
  moreover have "dg_add_node w g = (Inr ?i, ?g)" using True by (simp add: dg_add_node_def Let_def)
  ultimately show ?thesis using m by (intro exI [of _ ?i] exI [of _ ?g]) simp
next
  case False
  let ?i = "last (free_nodes g)"
  let ?g = "g\<lparr>dg_node_count := dg_node_count g + 1, free_nodes := butlast (free_nodes g),
    dg_nodes := (dg_nodes g)[?i := Some w]\<rparr>"
  have ok: "edges_ok g" "slots_ok (dg_nodes g) (free_nodes g) (dg_node_count g)"
    using assms by (simp_all add: digraph_ok_def)
  note pop = slots_ok_pop [OF ok(2) False]
  have "edges_ok ?g" using ok(1) by (simp add: edges_ok_def)
  moreover have m: "node_map ?g = (node_map g)(?i \<mapsto> w)" using pop(1) by (simp add: node_map_def node_map_update)
  then have "contains_node v ?g" if "contains_node v g" for v
    using that by (auto simp: contains_node_map)
  ultimately have "digraph_ok ?g" using assms pop(3) [of w] by (simp add: digraph_ok_def)
  moreover have "node_map g ?i = None" using pop(2) by (simp add: node_map_def slot_get_def vec_get_def)
  moreover have "dg_add_node w g = (Inr ?i, ?g)" using False pop(1) by (simp add: dg_add_node_def Let_def)
  ultimately show ?thesis using m by (intro exI [of _ ?i] exI [of _ ?g]) simp
qed

lemma digraph_ok_same_nodes:
  assumes "digraph_ok g" "edges_ok g'" "dg_nodes g' = dg_nodes g" "free_nodes g' = free_nodes g"
    "dg_node_count g' = dg_node_count g"
    "\<And>e u v w. edge_map g' e = Some (u, v, w) \<Longrightarrow> contains_node u g \<and> contains_node v g"
  shows "digraph_ok g'"
  using assms unfolding digraph_ok_def contains_node_def by simp

lemma digraph_ok_ends: "digraph_ok g \<Longrightarrow> edge_map g e = Some (u, v, w) \<Longrightarrow> contains_node u g \<and> contains_node v g"
  unfolding digraph_ok_def by blast

lemma dg_add_edge_ok:
  assumes ok: "digraph_ok g" and uv: "contains_node u g" "contains_node v g"
  shows "\<exists>e g'. dg_add_edge u v w g = (Inr e, g') \<and> digraph_ok g' \<and> edge_map g e = None \<and>
    edge_map g' = (edge_map g)(e \<mapsto> (u, v, w)) \<and> node_map g' = node_map g"
proof -
  let ?x = "\<lparr>entry_from = u, entry_to = v, entry_weight = Some w\<rparr>"
  have e: "edges_ok g" "slots_ok (dg_edges g) (free_edges g) (dg_edge_count g)"
    using ok by (simp_all add: digraph_ok_def edges_ok_def)
  have weights: "\<forall>i y. slot_get (dg_edges g) i = Some y \<longrightarrow> entry_weight y \<noteq> None"
    using e(1) unfolding edges_ok_def by blast
  note len = contains_node_less [OF uv(1)] contains_node_less [OF uv(2)]
  have "\<exists>i es free. edge_map g i = None \<and> edge_at es = (edge_map g)(i \<mapsto> (u, v, w)) \<and>
      (\<forall>i y. slot_get es i = Some y \<longrightarrow> entry_weight y \<noteq> None) \<and> slots_ok es free (dg_edge_count g + 1) \<and>
      dg_add_edge u v w g = bindS (push_adj i u v) (\<lambda>_. returnS i)
        (g\<lparr>dg_edges := es, free_edges := free, dg_edge_count := dg_edge_count g + 1\<rparr>)"
  proof (cases "free_edges g = []")
    case True
    then show ?thesis
      using slots_ok_push [OF e(2) True, of ?x] uv weights edge_at_none [of "dg_edges g" "length (dg_edges g)"]
      by (intro exI [of _ "length (dg_edges g)"] exI [of _ "dg_edges g @ [Some ?x]"] exI [of _ "free_edges g"])
        (auto simp: dg_add_edge_def edge_at_push node_map_push Let_def True intro!: arg_cong [where f = "bindS _ _"] digraph.equality)
  next
    case False
    note pop = slots_ok_pop [OF e(2) False]
    then show ?thesis
      using uv weights edge_at_none [of "dg_edges g" "last (free_edges g)"] False pop(3) [of ?x]
      by (intro exI [of _ "last (free_edges g)"] exI [of _ "(dg_edges g)[last (free_edges g) := Some ?x]"]
          exI [of _ "butlast (free_edges g)"])
        (auto simp: dg_add_edge_def edge_at_update node_map_update Let_def intro!: arg_cong [where f = "bindS _ _"] digraph.equality)
  qed
  then obtain i es free where i: "edge_map g i = None" "edge_at es = (edge_map g)(i \<mapsto> (u, v, w))"
    "\<forall>i y. slot_get es i = Some y \<longrightarrow> entry_weight y \<noteq> None" "slots_ok es free (dg_edge_count g + 1)"
    "dg_add_edge u v w g = bindS (push_adj i u v) (\<lambda>_. returnS i)
        (g\<lparr>dg_edges := es, free_edges := free, dg_edge_count := dg_edge_count g + 1\<rparr>)" by blast
  obtain g' where g': "push_adj i u v (g\<lparr>dg_edges := es, free_edges := free, dg_edge_count := dg_edge_count g + 1\<rparr>) = (Inr (), g')"
    "edges_ok g'" "dg_edges g' = es" "dg_nodes g' = dg_nodes g" "free_nodes g' = free_nodes g"
    "dg_node_count g' = dg_node_count g"
    using lists_add [OF e(1) i(1) len i(2-4)] by blast
  have "digraph_ok g'"
    using g' i(2) uv digraph_ok_ends [OF ok] by (intro digraph_ok_same_nodes [OF ok]) (auto split: if_splits)
  then show ?thesis
    using g' i by (intro exI [of _ i] exI [of _ g']) (simp add: bindS_def returnS_def node_map_def)
qed

lemma dg_remove_edge_ok:
  assumes ok: "digraph_ok g" and e: "e < length (dg_edges g)"
  shows "\<exists>g'. dg_remove_edge e g = (Inr (map_option (\<lambda>(u, v, w). w) (edge_map g e)), g') \<and> digraph_ok g' \<and>
    edge_map g' = (edge_map g)(e := None) \<and> node_map g' = node_map g"
proof -
  have eok: "edges_ok g" using ok by (simp add: digraph_ok_def)
  obtain g' where g': "remove_edge_raw e g = (Inr (), g')" "edges_ok g'" "edge_map g' = (edge_map g)(e := None)"
    "dg_nodes g' = dg_nodes g" "free_nodes g' = free_nodes g" "dg_node_count g' = dg_node_count g"
    using remove_edge_raw_ok [OF eok e] by blast
  have ok': "digraph_ok g'"
    using g' digraph_ok_ends [OF ok] by (intro digraph_ok_same_nodes [OF ok]) (auto split: if_splits)
  show ?thesis
  proof (cases "dg_edges g ! e")
    case None
    then show ?thesis
      using g' ok' e by (auto simp: dg_remove_edge_def remove_edge_raw_def vec_get_def edge_at_none node_map_def)
  next
    case (Some x)
    then have s: "slot_get (dg_edges g) e = Some x" using e by (simp add: slot_get_def vec_get_def)
    then obtain w where "entry_weight x = Some w" using eok unfolding edges_ok_def by blast
    with s Some e g' ok' show ?thesis
      by (auto simp: dg_remove_edge_def remove_edge_raw_def vec_get_def edge_at_def node_map_def bindS_def Let_def
          split: prod.splits sum.splits)
  qed
qed

lemma remove_edges_raw_ok:
  "edges_ok g \<Longrightarrow> set es \<subseteq> {..<length (dg_edges g)} \<Longrightarrow>
   \<exists>g'. remove_edges_raw es g = (Inr (), g') \<and> edges_ok g' \<and> edge_map g' = (edge_map g) |` (- set es) \<and>
    length (dg_edges g') = length (dg_edges g) \<and> dg_nodes g' = dg_nodes g \<and> free_nodes g' = free_nodes g \<and>
    dg_node_count g' = dg_node_count g"
proof (induction es arbitrary: g)
  case Nil
  then show ?case by (auto simp: restrict_map_def)
next
  case (Cons e es)
  obtain g1 where g1: "remove_edge_raw e g = (Inr (), g1)" "edges_ok g1" "edge_map g1 = (edge_map g)(e := None)"
    "length (dg_edges g1) = length (dg_edges g)" "dg_nodes g1 = dg_nodes g" "free_nodes g1 = free_nodes g"
    "dg_node_count g1 = dg_node_count g"
    using remove_edge_raw_ok [OF Cons.prems(1), of e] Cons.prems(2) by auto
  obtain g2 where g2: "remove_edges_raw es g1 = (Inr (), g2)" "edges_ok g2" "edge_map g2 = (edge_map g1) |` (- set es)"
    "length (dg_edges g2) = length (dg_edges g1)" "dg_nodes g2 = dg_nodes g1" "free_nodes g2 = free_nodes g1"
    "dg_node_count g2 = dg_node_count g1"
    using Cons.IH [OF g1(2)] Cons.prems(2) g1(4) by auto
  moreover have "edge_map g2 = (edge_map g) |` (- set (e # es))"
    unfolding g2(3) g1(3) by (auto simp: restrict_map_def)
  ultimately show ?case using g1 by (intro exI [of _ g2]) (simp add: bindS_def)
qed


lemma out_list_ids: assumes "edges_ok g" "v < length (dg_nodes g)"
  shows "set (map fst (adj_out g ! v)) = {e. \<exists>t w. edge_map g e = Some (v, t, w)}"
proof -
  have "set (adj_out g ! v) = {(e, t). \<exists>w. edge_map g e = Some (v, t, w)}"
    using assms by (simp add: edges_ok_def out_list_ok_def)
  then show ?thesis unfolding set_map by force
qed

lemma in_list_ids: assumes "edges_ok g" "v < length (dg_nodes g)"
  shows "set (map fst (adj_in g ! v)) = {e. \<exists>u w. edge_map g e = Some (u, v, w)}"
proof -
  have "set (adj_in g ! v) = {(e, u). \<exists>w. edge_map g e = Some (u, v, w)}"
    using assms by (simp add: edges_ok_def in_list_ok_def)
  then show ?thesis unfolding set_map by force
qed

lemma edge_map_bound: "edge_map g e = Some x \<Longrightarrow> e < length (dg_edges g)"
  by (auto simp: edge_at_def slot_get_def vec_get_def split: if_splits)

lemma edges_ok_cong:
  "edges_ok g \<Longrightarrow> length ns = length (dg_nodes g) \<Longrightarrow> edges_ok (g\<lparr>dg_nodes := ns, dg_node_count := n\<rparr>)"
  by (simp add: edges_ok_def)

text \<open>With no edges at a node its lists are empty, so emptying them changes nothing.\<close>

lemma adj_out_empty:
  assumes "edges_ok g" "v < length (dg_nodes g)" "\<And>e t w. edge_map g e \<noteq> Some (v, t, w)"
  shows "g\<lparr>adj_out := (adj_out g)[v := []]\<rparr> = g"
proof -
  have "adj_out g ! v = []" using out_list_ids [OF assms(1,2)] assms(3) by auto
  then have "(adj_out g)[v := []] = adj_out g" by (metis list_update_id)
  then show ?thesis by (intro digraph.equality) simp_all
qed

lemma adj_in_empty:
  assumes "edges_ok g" "v < length (dg_nodes g)" "\<And>e u w. edge_map g e \<noteq> Some (u, v, w)"
  shows "g\<lparr>adj_in := (adj_in g)[v := []]\<rparr> = g"
proof -
  have "adj_in g ! v = []" using in_list_ids [OF assms(1,2)] assms(3) by auto
  then have "(adj_in g)[v := []] = adj_in g" by (metis list_update_id)
  then show ?thesis by (intro digraph.equality) simp_all
qed

definition edge_touches :: "nat \<Rightarrow> nat \<times> nat \<times> 'e \<Rightarrow> bool" where
  "edge_touches v x \<longleftrightarrow> fst x = v \<or> fst (snd x) = v"

lemma dg_remove_node_ok:
  assumes ok: "digraph_ok g"
  shows "\<exists>g'. dg_remove_node v g = (Inr (node_map g v), g') \<and> digraph_ok g' \<and> node_map g' = (node_map g)(v := None) \<and>
    edge_map g' = edge_map g |` {e. \<forall>x. edge_map g e = Some x \<longrightarrow> \<not> edge_touches v x}"
proof (cases "node_map g v")
  case None
  then have "dg_remove_node v g = (Inr None, g)"
    by (auto simp: dg_remove_node_def node_map_def slot_get_def vec_get_def split: if_splits)
  moreover have "\<not> edge_touches v x" if "edge_map g e = Some x" for e x
    using digraph_ok_ends [OF ok, of e "fst x" "fst (snd x)" "snd (snd x)"] that None
    by (auto simp: edge_touches_def contains_node_map)
  ultimately show ?thesis using None ok by (auto simp: restrict_map_def fun_eq_iff)
next
  case (Some weight)
  have v: "v < length (dg_nodes g)" "dg_nodes g ! v = Some weight"
    using Some by (auto simp: node_map_def slot_get_def vec_get_def split: if_splits)
  let ?g1 = "g\<lparr>dg_nodes := (dg_nodes g)[v := None], dg_node_count := dg_node_count g - 1\<rparr>"
  have eok: "edges_ok g" and nok: "slots_ok (dg_nodes g) (free_nodes g) (dg_node_count g)"
    using ok by (simp_all add: digraph_ok_def)
  have g1: "edges_ok ?g1" using edges_ok_cong [OF eok] by simp
  let ?outs = "map fst (adj_out ?g1 ! v)"
  have outs: "set ?outs = {e. \<exists>t w. edge_map g e = Some (v, t, w)}" using out_list_ids [OF eok v(1)] by simp
  then have "set ?outs \<subseteq> {..<length (dg_edges ?g1)}" using edge_map_bound [of g] by auto
  from remove_edges_raw_ok [OF g1 this] obtain g2 where g2: "remove_edges_raw ?outs ?g1 = (Inr (), g2)" "edges_ok g2"
    "edge_map g2 = edge_map g |` (- set ?outs)" "length (dg_edges g2) = length (dg_edges g)"
    "dg_nodes g2 = (dg_nodes g)[v := None]" "free_nodes g2 = free_nodes g" "dg_node_count g2 = dg_node_count g - 1"
    by auto
  have none: "edge_map g2 e \<noteq> Some (v, t, w)" for e t w
    unfolding g2(3) outs by (auto simp: restrict_map_def split: if_splits)
  have g3: "g2\<lparr>adj_out := (adj_out g2)[v := []]\<rparr> = g2"
    by (rule adj_out_empty [OF g2(2)]) (use v none in \<open>simp_all add: g2(5)\<close>)
  let ?ins = "map fst (adj_in g2 ! v)"
  have ins: "set ?ins = {e. \<exists>u w. edge_map g2 e = Some (u, v, w)}" using in_list_ids [OF g2(2)] v(1) g2(5) by simp
  then have "set ?ins \<subseteq> {..<length (dg_edges g2)}" using edge_map_bound [of g2] by auto
  from remove_edges_raw_ok [OF g2(2) this] obtain g4 where g4: "remove_edges_raw ?ins g2 = (Inr (), g4)" "edges_ok g4"
    "edge_map g4 = edge_map g2 |` (- set ?ins)" "dg_nodes g4 = (dg_nodes g)[v := None]" "free_nodes g4 = free_nodes g"
    "dg_node_count g4 = dg_node_count g - 1"
    using g2 by auto
  have none: "edge_map g4 e \<noteq> Some (u, v, w)" for e u w
    unfolding g4(3) ins by (auto simp: restrict_map_def split: if_splits)
  have g5: "g4\<lparr>adj_in := (adj_in g4)[v := []]\<rparr> = g4"
    by (rule adj_in_empty [OF g4(2)]) (use v none in \<open>simp_all add: g4(4)\<close>)
  have M: "edge_map g4 = edge_map g |` {e. \<forall>x. edge_map g e = Some x \<longrightarrow> \<not> edge_touches v x}"
    unfolding g4(3) ins g2(3) outs by (force simp: restrict_map_def edge_touches_def fun_eq_iff split: if_splits)
  let ?g = "g4\<lparr>free_nodes := free_nodes g4 @ [v]\<rparr>"
  have "length (adj_out g) = length (dg_nodes g)" "length (adj_in g2) = length (dg_nodes g)"
    using eok g2(2,5) by (simp_all add: edges_ok_def)
  then have "dg_remove_node v g = (Inr (Some weight), ?g)"
    using v g2(1) g3 g4(1) g5 by (simp add: dg_remove_node_def Let_def bindS_def)
  moreover have nm: "node_map ?g = (node_map g)(v := None)" using v(1) by (simp add: node_map_def g4(4) node_map_update)
  moreover have "digraph_ok ?g"
  proof -
    have "edges_ok ?g" using g4(2) by (simp add: edges_ok_def)
    moreover have "slots_ok (dg_nodes ?g) (free_nodes ?g) (dg_node_count ?g)"
      using slots_ok_free [OF nok v(1)] v(2) g4(4-6) by simp
    moreover have "contains_node a ?g \<and> contains_node b ?g" if "edge_map g4 e = Some (a, b, c)" for e a b c
      using that digraph_ok_ends [OF ok, of e a b c] unfolding M contains_node_map nm
      by (auto simp: restrict_map_def edge_touches_def split: if_splits)
    ultimately show ?thesis by (simp add: digraph_ok_def)
  qed
  ultimately show ?thesis using Some M by (intro exI [of _ ?g]) simp
qed

section \<open>The contract\<close>

datatype ('n, 'e) dg_op = Add_Node 'n | Add_Edge nat nat 'e | Remove_Edge nat | Remove_Node nat

datatype ('n, 'e) dg_result = New_Node nat | New_Edge nat | Old_Edge "'e option" | Old_Node "'n option"

fun dg_exec :: "('n, 'e) dg_op \<Rightarrow> (('n, 'e) digraph, ('n, 'e) dg_result) action" where
  "dg_exec (Add_Node w) g = bindS (dg_add_node w) (\<lambda>i. returnS (New_Node i)) g"
| "dg_exec (Add_Edge u v w) g = bindS (dg_add_edge u v w) (\<lambda>e. returnS (New_Edge e)) g"
| "dg_exec (Remove_Edge e) g = bindS (dg_remove_edge e) (\<lambda>r. returnS (Old_Edge r)) g"
| "dg_exec (Remove_Node v) g = bindS (dg_remove_node v) (\<lambda>r. returnS (Old_Node r)) g"

inductive dg_reachable :: "('n, 'e) digraph \<Rightarrow> bool" where
  dg_start: "dg_reachable dg_new"
| dg_step: "dg_reachable g \<Longrightarrow> dg_exec op g = (Inr r, g') \<Longrightarrow> dg_reachable g'"

text \<open>
  What an operation promises of a graph given as two maps: new indices are unused ones, a removed node takes
  exactly its edges with it, and nothing else changes.
\<close>

fun graph_spec :: "('n, 'e) dg_op \<Rightarrow> ('n, 'e) dg_result \<Rightarrow> (nat \<Rightarrow> 'n option) \<Rightarrow> (nat \<Rightarrow> (nat \<times> nat \<times> 'e) option) \<Rightarrow>
    (nat \<Rightarrow> 'n option) \<Rightarrow> (nat \<Rightarrow> (nat \<times> nat \<times> 'e) option) \<Rightarrow> bool" where
  "graph_spec (Add_Node w) (New_Node i) N E N' E' \<longleftrightarrow> N i = None \<and> N' = N(i \<mapsto> w) \<and> E' = E"
| "graph_spec (Add_Edge u v w) (New_Edge e) N E N' E' \<longleftrightarrow>
     u \<in> dom N \<and> v \<in> dom N \<and> E e = None \<and> E' = E(e \<mapsto> (u, v, w)) \<and> N' = N"
| "graph_spec (Remove_Edge e) (Old_Edge r) N E N' E' \<longleftrightarrow>
     r = map_option (\<lambda>(u, v, w). w) (E e) \<and> E' = E(e := None) \<and> N' = N"
| "graph_spec (Remove_Node v) (Old_Node r) N E N' E' \<longleftrightarrow>
     r = N v \<and> N' = N(v := None) \<and> E' = E |` {e. \<forall>x. E e = Some x \<longrightarrow> \<not> edge_touches v x}"
| "graph_spec _ _ _ _ _ _ \<longleftrightarrow> False"

fun dg_refused :: "('n, 'e) dg_op \<Rightarrow> ('n, 'e) digraph \<Rightarrow> bool" where
  "dg_refused (Add_Edge u v w) g \<longleftrightarrow> node_map g u = None \<or> node_map g v = None"
| "dg_refused (Remove_Edge e) g \<longleftrightarrow> length (dg_edges g) \<le> e"
| "dg_refused _ _ \<longleftrightarrow> False"

lemma dg_exec_refused: "dg_refused op g \<Longrightarrow> dg_exec op g = (Inl Panic, g)"
  by (cases op) (auto simp: dg_add_edge_def dg_remove_edge_def contains_node_map vec_get_def bindS_def)

lemma dg_exec_ok:
  assumes "digraph_ok g" "\<not> dg_refused op g"
  shows "\<exists>r g'. dg_exec op g = (Inr r, g') \<and> digraph_ok g' \<and>
    graph_spec op r (node_map g) (edge_map g) (node_map g') (edge_map g')"
proof (cases op)
  case (Add_Node w)
  then show ?thesis using dg_add_node_ok [OF assms(1), of w] by (auto simp: bindS_def returnS_def)
next
  case (Add_Edge u v w)
  then show ?thesis using dg_add_edge_ok [OF assms(1), of u v w] assms(2)
    by (auto simp: bindS_def returnS_def contains_node_map dom_def)
next
  case (Remove_Edge e)
  then show ?thesis using dg_remove_edge_ok [OF assms(1), of e] assms(2) by (auto simp: bindS_def returnS_def)
next
  case (Remove_Node v)
  then show ?thesis using dg_remove_node_ok [OF assms(1), of v] by (auto simp: bindS_def returnS_def)
qed

lemma dg_reachable_ok: "dg_reachable g \<Longrightarrow> digraph_ok g"
proof (induction rule: dg_reachable.induct)
  case dg_start
  show ?case by (rule digraph_ok_new)
next
  case (dg_step g op r g')
  then show ?case using dg_exec_ok [of g op] dg_exec_refused [of op g] by (cases "dg_refused op g") auto
qed

text \<open>
  C21. On every graph built by the four mutating operations, an operation either panics, exactly when it adds
  an edge at a missing node or removes an edge beyond the slots, and then changes nothing, or it returns and
  has done to the maps of nodes and edges what its contract says; its new index is one no live item has.
\<close>

theorem digraph_refines:
  assumes "dg_reachable g"
  shows "if dg_refused op g then dg_exec op g = (Inl Panic, g)
    else \<exists>r g'. dg_exec op g = (Inr r, g') \<and> dg_reachable g' \<and>
      graph_spec op r (node_map g) (edge_map g) (node_map g') (edge_map g')"
  using dg_exec_ok [OF dg_reachable_ok [OF assms], of op] dg_exec_refused [of op g] dg_step [OF assms, of op]
  by auto

definition small_graph :: "(string, nat) digraph" where
  "small_graph = snd (bindS (dg_exec (Add_Node ''a'')) (\<lambda>_. bindS (dg_exec (Add_Node ''b''))
     (\<lambda>_. dg_exec (Add_Edge 0 1 7))) dg_new)"

lemma small_graph_reachable: "dg_reachable small_graph"
proof -
  let ?g1 = "snd (dg_exec (Add_Node ''a'') dg_new) :: (string, nat) digraph"
  let ?g2 = "snd (dg_exec (Add_Node ''b'') ?g1)"
  have 1: "dg_reachable ?g1" by (rule dg_step [OF dg_start, of "Add_Node ''a''" "New_Node 0"]) code_simp
  have 2: "dg_reachable ?g2" by (rule dg_step [OF 1, of "Add_Node ''b''" "New_Node 1"]) code_simp
  show ?thesis by (rule dg_step [OF 2, of "Add_Edge 0 1 7" "New_Edge 0"]) code_simp
qed

lemma digraph_refines_witness:
  "\<exists>r g'. dg_exec (Remove_Node 0) small_graph = (Inr r, g') \<and> dg_reachable g' \<and>
     graph_spec (Remove_Node 0) r (node_map small_graph) (edge_map small_graph) (node_map g') (edge_map g')"
  using digraph_refines [OF small_graph_reachable, of "Remove_Node 0"] by simp

lemma find_some_iff: "find P xs = Some x \<Longrightarrow> x \<in> set xs \<and> P x"
  by (induction xs) (auto split: if_splits)

lemma adj_of_lists: "digraph_ok g \<Longrightarrow> v < length (dg_nodes g) \<Longrightarrow>
  out_list_ok (edge_map g) v (adj_of Out_Edges g v) \<and> in_list_ok (edge_map g) v (adj_of In_Edges g v)"
  by (simp add: digraph_ok_def edges_ok_def adj_of_def vec_get_def)

lemma adj_of_beyond: "digraph_ok g \<Longrightarrow> length (dg_nodes g) \<le> v \<Longrightarrow> adj_of dir g v = []"
  by (cases dir) (simp_all add: digraph_ok_def edges_ok_def adj_of_def vec_get_def)

lemma adj_of_ok:
  assumes "digraph_ok g"
  shows "distinct (map fst (adj_of dir g v))"
    "set (adj_of Out_Edges g v) = {(e, t). \<exists>w. edge_map g e = Some (v, t, w)}"
    "set (adj_of In_Edges g v) = {(e, u). \<exists>w. edge_map g e = Some (u, v, w)}"
proof -
  have none: "edge_map g e \<noteq> Some (v, t, w) \<and> edge_map g e \<noteq> Some (t, v, w)" if "length (dg_nodes g) \<le> v" for e t w
    using digraph_ok_ends [OF assms, of e v t w] digraph_ok_ends [OF assms, of e t v w] contains_node_less [of v g] that
    by fastforce
  show "distinct (map fst (adj_of dir g v))"
    using adj_of_lists [OF assms, of v] adj_of_beyond [OF assms, of v dir]
    by (cases dir; cases "v < length (dg_nodes g)") (simp_all add: out_list_ok_def in_list_ok_def)
  show "set (adj_of Out_Edges g v) = {(e, t). \<exists>w. edge_map g e = Some (v, t, w)}"
    using adj_of_lists [OF assms, of v] adj_of_beyond [OF assms, of v Out_Edges] none
    by (cases "v < length (dg_nodes g)") (simp_all add: out_list_ok_def)
  show "set (adj_of In_Edges g v) = {(e, u). \<exists>w. edge_map g e = Some (u, v, w)}"
    using adj_of_lists [OF assms, of v] adj_of_beyond [OF assms, of v In_Edges] none
    by (cases "v < length (dg_nodes g)") (simp_all add: in_list_ok_def)
qed

lemma edge_weight_map: "edge_weight e g = map_option (\<lambda>(u, v, w). w) (edge_map g e)"
proof (cases "slot_get (dg_edges g) e")
  case (Some x)
  then show ?thesis by (cases "entry_weight x") (simp_all add: edge_weight_def edge_at_def)
qed (simp add: edge_weight_def edge_at_def)

lemma edges_directed_ok:
  assumes "digraph_ok g"
  shows "set (edges_directed Out_Edges g v) = {(e, w, t). edge_map g e = Some (v, t, w)}"
    "set (edges_directed In_Edges g v) = {(e, w, u). edge_map g e = Some (u, v, w)}"
  using adj_of_ok(2,3) [OF assms, of v]
  by (force simp: edges_directed_def List.map_filter_def edge_weight_map)+

lemma dg_counts:
  assumes "digraph_ok g"
  shows "dg_node_count g = card (dom (node_map g))" "dg_edge_count g = card (dom (edge_map g))"
proof -
  have "dom (node_map g) = {i. i < length (dg_nodes g) \<and> dg_nodes g ! i \<noteq> None}"
    by (auto simp: node_map_def slot_get_def vec_get_def split: if_splits)
  then show "dg_node_count g = card (dom (node_map g))" using assms by (simp add: digraph_ok_def slots_ok_def)
  have live: "edge_map g i \<noteq> None" if "i < length (dg_edges g)" "dg_edges g ! i \<noteq> None" for i
  proof -
    obtain x where "dg_edges g ! i = Some x" using \<open>dg_edges g ! i \<noteq> None\<close> by blast
    then have x: "slot_get (dg_edges g) i = Some x" using that(1) by (simp add: slot_get_def vec_get_def)
    then have "entry_weight x \<noteq> None" using assms unfolding digraph_ok_def edges_ok_def by blast
    with x show ?thesis by (auto simp: edge_at_def)
  qed
  have "i \<in> dom (edge_map g) \<longleftrightarrow> i < length (dg_edges g) \<and> dg_edges g ! i \<noteq> None" for i
    using live [of i] edge_at_none [of "dg_edges g" i]
    by (cases "i < length (dg_edges g)"; cases "dg_edges g ! i = None") (simp_all add: domIff del: not_None_eq)
  then have "dom (edge_map g) = {i. i < length (dg_edges g) \<and> dg_edges g ! i \<noteq> None}" by blast
  then show "dg_edge_count g = card (dom (edge_map g))" using assms by (simp add: digraph_ok_def edges_ok_def slots_ok_def)
qed

lemma find_edge_ok:
  assumes "digraph_ok g"
  shows "case find_edge u v g of None \<Rightarrow> (\<forall>e w. edge_map g e \<noteq> Some (u, v, w)) | Some e \<Rightarrow> (\<exists>w. edge_map g e = Some (u, v, w))"
proof -
  have "find_edge u v g = map_option fst (find (\<lambda>x. snd x = v) (adj_of Out_Edges g u))"
    by (simp add: find_edge_def adj_of_def split: option.split)
  then show ?thesis using adj_of_ok(2) [OF assms, of u] find_some_iff [of "\<lambda>x. snd x = v" "adj_of Out_Edges g u"]
    by (auto simp: find_None_iff split: option.splits)
qed

text \<open>
  On every graph built by the mutating operations the queries agree with the maps: the counts are the
  numbers of live items, the edges listed at a node are exactly the live edges that leave (or enter) it, each
  once, and an edge between two nodes is found exactly when there is one.
\<close>

theorem digraph_queries:
  assumes "dg_reachable g"
  shows "dg_node_count g = card (dom (node_map g)) \<and> dg_edge_count g = card (dom (edge_map g)) \<and>
    set (edges_directed Out_Edges g v) = {(e, w, t). edge_map g e = Some (v, t, w)} \<and>
    set (edges_directed In_Edges g v) = {(e, w, u). edge_map g e = Some (u, v, w)} \<and>
    out_degree v g = card {e. \<exists>t w. edge_map g e = Some (v, t, w)} \<and>
    in_degree_of v g = card {e. \<exists>u w. edge_map g e = Some (u, v, w)} \<and>
    (case find_edge u v g of None \<Rightarrow> \<forall>e w. edge_map g e \<noteq> Some (u, v, w) | Some e \<Rightarrow> \<exists>w. edge_map g e = Some (u, v, w))"
proof -
  note ok = dg_reachable_ok [OF assms]
  have "out_degree v g = card (set (map fst (adj_of Out_Edges g v)))" "in_degree_of v g = card (set (map fst (adj_of In_Edges g v)))"
    using distinct_card [OF adj_of_ok(1) [OF ok, of Out_Edges v]] distinct_card [OF adj_of_ok(1) [OF ok, of In_Edges v]]
    by (simp_all add: out_degree_def in_degree_of_def)
  moreover have "set (map fst (adj_of Out_Edges g v)) = {e. \<exists>t w. edge_map g e = Some (v, t, w)}"
    "set (map fst (adj_of In_Edges g v)) = {e. \<exists>u w. edge_map g e = Some (u, v, w)}"
    unfolding set_map adj_of_ok(2,3) [OF ok] by force+
  ultimately show ?thesis using dg_counts [OF ok] edges_directed_ok [OF ok, of v] find_edge_ok [OF ok, of u v] by simp
qed

lemma digraph_queries_witness:
  "edges_directed Out_Edges small_graph 0 = [(0, 7, 1)] \<and>
   set (edges_directed Out_Edges small_graph 0) = {(e, w, t). edge_map small_graph e = Some (0, t, w)}"
proof
  show "edges_directed Out_Edges small_graph 0 = [(0, 7, 1)]" by code_simp
qed (use digraph_queries [OF small_graph_reachable, of 0 1] in blast)

end
