(* ===== verification/Digraph_Algo.thy ===== *)
theory Digraph_Algo
  imports Typed_Digraph
begin

text \<open>
  The algorithms of \<open>typed_digraph/algo.rs\<close> over the in-memory directed graph: the topological sort, the
  cycle test by colours, and the depth first iterator. Vectors are lists indexed by node; an index beyond a
  vector and a degree below zero are panics of the model, and the theorems show that neither happens.
\<close>

section \<open>The edge relation\<close>

definition dg_rel :: "('n, 'e) digraph \<Rightarrow> (nat \<times> nat) set" where
  "dg_rel g = {(u, v). \<exists>e w. edge_map g e = Some (u, v, w)}"

abbreviation dg_succ :: "('n, 'e) digraph \<Rightarrow> nat \<Rightarrow> nat list" where
  "dg_succ g v \<equiv> neighbors_directed Out_Edges g v"

lemma dg_succ_rel: "digraph_ok g \<Longrightarrow> w \<in> set (dg_succ g v) \<longleftrightarrow> (v, w) \<in> dg_rel g"
  by (force simp: neighbors_directed_def adj_of_ok(2) dg_rel_def)

lemma node_indices_live: "set (node_indices g) = dom (node_map g)"
  by (auto simp: node_indices_def node_map_def slot_get_def vec_get_def split: if_splits)

lemma node_indices_distinct: "distinct (node_indices g)"
  by (simp add: node_indices_def)

lemma dg_rel_live: "digraph_ok g \<Longrightarrow> (u, v) \<in> dg_rel g \<Longrightarrow> u \<in> set (node_indices g) \<and> v \<in> set (node_indices g)"
  using digraph_ok_ends [of g] by (auto simp: dg_rel_def node_indices_live contains_node_map)

lemma node_indices_less: "v \<in> set (node_indices g) \<Longrightarrow> v < length (dg_nodes g)"
  by (simp add: node_indices_def)

section \<open>The topological sort\<close>

definition raw_node_count :: "('n, 'e) digraph \<Rightarrow> nat" where
  "raw_node_count g = length (dg_nodes g)"

fun bump_degrees :: "nat list \<Rightarrow> nat list \<Rightarrow> nat list result" where
  "bump_degrees [] deg = Inr deg"
| "bump_degrees (w # ws) deg =
     (if w < length deg then bump_degrees ws (deg[w := deg ! w + 1]) else Inl Panic)"

fun count_degrees :: "(nat \<Rightarrow> nat list) \<Rightarrow> nat list \<Rightarrow> nat list \<Rightarrow> nat list result" where
  "count_degrees succ [] deg = Inr deg"
| "count_degrees succ (v # vs) deg = bindR (bump_degrees (succ v) deg) (count_degrees succ vs)"

fun relax :: "nat list \<Rightarrow> nat list \<Rightarrow> nat list \<Rightarrow> (nat list \<times> nat list) result" where
  "relax [] deg queue = Inr (deg, queue)"
| "relax (w # ws) deg queue =
     (if w < length deg \<and> deg ! w \<noteq> 0 then
        let deg' = deg[w := deg ! w - 1]
        in relax ws deg' (if deg' ! w = 0 then queue @ [w] else queue)
      else Inl Panic)"

lemma relax_measure: "relax ws deg queue = Inr (deg', queue') \<Longrightarrow> sum_list deg' + length queue' \<le> sum_list deg + length queue"
proof (induction ws arbitrary: deg queue)
  case (Cons w ws)
  then have w: "w < length deg" "deg ! w \<noteq> 0" by (auto split: if_splits)
  have "sum_list (deg[w := deg ! w - 1]) + 1 = sum_list deg"
    using w elem_le_sum_list [OF w(1)] by (simp add: sum_list_update)
  then show ?case using Cons.prems w Cons.IH by (fastforce simp: Let_def split: if_splits)
qed simp

function kahn :: "(nat \<Rightarrow> nat list) \<Rightarrow> nat list \<Rightarrow> nat list \<Rightarrow> nat list \<Rightarrow> (nat list \<times> nat list) result" where
  "kahn succ deg [] order = Inr (deg, order)"
| "kahn succ deg (v # queue) order =
     bindR (relax (succ v) deg queue) (\<lambda>(deg', queue'). kahn succ deg' queue' (order @ [v]))"
  by pat_completeness auto
termination
  by (relation "measure (\<lambda>(succ, deg, queue, order). sum_list deg + length queue)")
    (auto dest: relax_measure)

text \<open>The outcome of \<open>toposort\<close> is \<open>Ok\<close> of the order or the nodes of the \<open>CycleError\<close>.\<close>

definition toposort :: "('n, 'e) digraph \<Rightarrow> (nat list + nat list) result" where
  "toposort g =
     bindR (count_degrees (dg_succ g) (node_indices g) (replicate (raw_node_count g) 0)) (\<lambda>degrees.
     bindR (kahn (dg_succ g) degrees (filter (\<lambda>v. degrees ! v = 0) (node_indices g)) []) (\<lambda>(deg, order).
       Inr (if length order \<noteq> length (node_indices g)
            then Inl (filter (\<lambda>v. 0 < deg ! v) (node_indices g)) else Inr order)))"

lemma bump_degrees_ok:
  "\<forall>w \<in> set ws. w < length deg \<Longrightarrow> \<exists>deg'. bump_degrees ws deg = Inr deg' \<and> length deg' = length deg \<and>
     (\<forall>w < length deg. deg' ! w = deg ! w + count_list ws w)"
proof (induction ws arbitrary: deg)
  case (Cons w ws)
  then show ?case using Cons.IH [of "deg[w := deg ! w + 1]"] by (auto simp: nth_list_update)
qed simp

lemma count_degrees_ok:
  "\<forall>v \<in> set vs. \<forall>w \<in> set (succ v). w < length deg \<Longrightarrow> distinct vs \<Longrightarrow>
   \<exists>deg'. count_degrees succ vs deg = Inr deg' \<and> length deg' = length deg \<and>
     (\<forall>w < length deg. deg' ! w = deg ! w + (\<Sum>v \<in> set vs. count_list (succ v) w))"
proof (induction vs arbitrary: deg)
  case (Cons v vs)
  obtain deg1 where "bump_degrees (succ v) deg = Inr deg1" "length deg1 = length deg"
    "\<forall>w < length deg. deg1 ! w = deg ! w + count_list (succ v) w"
    using bump_degrees_ok [of "succ v" deg] Cons.prems(1) by auto
  moreover have "\<forall>v \<in> set vs. \<forall>w \<in> set (succ v). w < length deg1" using Cons.prems(1) \<open>length deg1 = length deg\<close> by simp
  then obtain deg2 where "count_degrees succ vs deg1 = Inr deg2" "length deg2 = length deg1"
    "\<forall>w < length deg1. deg2 ! w = deg1 ! w + (\<Sum>v \<in> set vs. count_list (succ v) w)"
    using Cons.IH [of deg1] Cons.prems(2) by auto
  ultimately show ?case using Cons.prems(2) by (intro exI [of _ deg2]) simp
qed simp

lemma relax_ok:
  "\<forall>w \<in> set ws. w < length deg \<and> count_list ws w \<le> deg ! w \<Longrightarrow>
   \<exists>deg' new. relax ws deg queue = Inr (deg', queue @ new) \<and> length deg' = length deg \<and>
     (\<forall>w < length deg. deg' ! w = deg ! w - count_list ws w) \<and> distinct new \<and>
     set new = {w \<in> set ws. deg ! w = count_list ws w}"
proof (induction ws arbitrary: deg queue)
  case (Cons w ws)
  have w: "w < length deg" "count_list ws w < deg ! w" using Cons.prems by auto
  let ?deg = "deg[w := deg ! w - 1]"
  let ?queue = "if ?deg ! w = 0 then queue @ [w] else queue"
  have "\<forall>x \<in> set ws. x < length ?deg \<and> count_list ws x \<le> ?deg ! x"
    using Cons.prems w by (auto simp: nth_list_update)
  from Cons.IH [OF this, of ?queue] obtain deg' new where rest:
    "relax ws ?deg ?queue = Inr (deg', ?queue @ new)" "length deg' = length deg"
    "\<forall>x < length deg. deg' ! x = ?deg ! x - count_list ws x" "distinct new"
    "set new = {x \<in> set ws. ?deg ! x = count_list ws x}" by auto
  let ?new = "if ?deg ! w = 0 then w # new else new"
  have "relax (w # ws) deg queue = Inr (deg', queue @ ?new)" using w rest(1) by (simp add: Let_def)
  moreover have "distinct ?new" using rest(4,5) w by (auto simp: count_list_0_iff)
  moreover have "set ?new = {x \<in> set (w # ws). deg ! x = count_list (w # ws) x}"
    using rest(5) w Cons.prems by (auto simp: nth_list_update count_list_0_iff)
  moreover have "deg' ! x = deg ! x - count_list (w # ws) x" if "x < length deg" for x
    using rest(3) that w by (cases "x = w") simp_all
  ultimately show ?case using rest(2) by blast
qed simp

text \<open>
  The state of the sort: the degree of a node is the number of edges to it from live nodes not yet emitted;
  the nodes of degree zero are the emitted and the waiting ones; whatever has an edge to one of them was
  emitted before it.
\<close>

definition forward :: "(nat \<Rightarrow> nat list) \<Rightarrow> nat list \<Rightarrow> nat list \<Rightarrow> bool" where
  "forward succ live order \<longleftrightarrow>
     (\<forall>i < length order. \<forall>u \<in> set live. order ! i \<in> set (succ u) \<longrightarrow> u \<in> set (take i order))"

lemma forward_Nil: "forward succ live []"
  by (simp add: forward_def)

lemma forward_snoc: "forward succ live (order @ [v]) \<longleftrightarrow>
    forward succ live order \<and> (\<forall>u \<in> set live. v \<in> set (succ u) \<longrightarrow> u \<in> set order)"
  by (auto simp: forward_def less_Suc_eq nth_append)

definition kahn_ok :: "(nat \<Rightarrow> nat list) \<Rightarrow> nat list \<Rightarrow> nat list \<Rightarrow> nat list \<Rightarrow> nat list \<Rightarrow> bool" where
  "kahn_ok succ live deg queue order \<longleftrightarrow>
     distinct (order @ queue) \<and> set order \<union> set queue = {v \<in> set live. deg ! v = 0} \<and>
     (\<forall>w \<in> set live. deg ! w = (\<Sum>u \<in> set live - set order. count_list (succ u) w)) \<and>
     forward succ live order \<and> (\<forall>w \<in> set live. w < length deg)"

lemma sum_count_zero: "finite A \<Longrightarrow> (\<Sum>u \<in> A. count_list (succ u) w) = 0 \<longleftrightarrow> (\<forall>u \<in> A. w \<notin> set (succ u))"
  by (simp add: count_list_0_iff)

lemma kahn_step:
  assumes ok: "kahn_ok succ live deg (v # queue) order" and closed: "\<forall>u \<in> set live. set (succ u) \<subseteq> set live"
  shows "\<exists>deg' queue'. relax (succ v) deg queue = Inr (deg', queue') \<and> kahn_ok succ live deg' queue' (order @ [v])"
proof -
  have v: "v \<in> set live" "v \<notin> set order" "deg ! v = 0" using ok by (auto simp: kahn_ok_def)
  have deg: "deg ! w = (\<Sum>u \<in> set live - set order. count_list (succ u) w)" if "w \<in> set live" for w
    using ok that by (simp add: kahn_ok_def)
  have split: "deg ! w = count_list (succ v) w + (\<Sum>u \<in> set live - set (order @ [v]). count_list (succ u) w)"
    if "w \<in> set live" for w
  proof -
    have "set live - set order = insert v (set live - set (order @ [v]))" using v by auto
    moreover have "v \<notin> set live - set (order @ [v])" by simp
    ultimately show ?thesis unfolding deg [OF that] by (metis finite_Diff finite_set sum.insert)
  qed
  have less: "w < length deg" if "w \<in> set live" for w using ok that by (simp add: kahn_ok_def)
  have "w < length deg \<and> count_list (succ v) w \<le> deg ! w" if "w \<in> set (succ v)" for w
  proof -
    have "w \<in> set live" using that closed v(1) by blast
    then show ?thesis using less [of w] split [of w] by linarith
  qed
  then have "\<forall>w \<in> set (succ v). w < length deg \<and> count_list (succ v) w \<le> deg ! w" by blast
  from relax_ok [OF this, of queue] obtain deg' new where r: "relax (succ v) deg queue = Inr (deg', queue @ new)"
    "length deg' = length deg" "\<forall>w < length deg. deg' ! w = deg ! w - count_list (succ v) w" "distinct new"
    "set new = {w \<in> set (succ v). deg ! w = count_list (succ v) w}" by blast
  have deg': "deg' ! w = (\<Sum>u \<in> set live - set (order @ [v]). count_list (succ u) w)" if "w \<in> set live" for w
    using r(3) split [OF that] less [OF that] by simp
  have no: "v \<notin> set (succ u)" if "u \<in> set live" "u \<notin> set order" for u
    using deg [OF v(1)] v(3) sum_count_zero [of "set live - set order" succ v] that by simp
  have new: "set new = {w \<in> set live. deg' ! w = 0 \<and> deg ! w \<noteq> 0}"
  proof -
    have "w \<in> set new \<longleftrightarrow> deg' ! w = 0 \<and> deg ! w \<noteq> 0" if "w \<in> set live" for w
      using r(3,5) less [OF that] split [OF that] deg' [OF that] by (auto simp: count_list_0_iff)
    moreover have "set new \<subseteq> set live" using r(5) closed v(1) by auto
    ultimately show ?thesis by blast
  qed
  have zero: "deg' ! w = 0" if "w \<in> set live" "deg ! w = 0" for w
    using r(3) less [OF that(1)] that(2) by simp
  have old: "set order \<union> set (v # queue) = {w \<in> set live. deg ! w = 0}" using ok by (simp add: kahn_ok_def)
  have "kahn_ok succ live deg' (queue @ new) (order @ [v])"
    unfolding kahn_ok_def forward_snoc
  proof (intro conjI)
    have "distinct (order @ v # queue)" using ok by (simp add: kahn_ok_def)
    moreover have "(set order \<union> set (v # queue)) \<inter> set new = {}" unfolding old new by blast
    ultimately show "distinct ((order @ [v]) @ queue @ new)" using r(4) by auto
    show "set (order @ [v]) \<union> set (queue @ new) = {w \<in> set live. deg' ! w = 0}"
      using old zero unfolding set_append new by auto
  next
    show "\<forall>w \<in> set live. deg' ! w = (\<Sum>u \<in> set live - set (order @ [v]). count_list (succ u) w)" using deg' by blast
  next
    show "\<forall>u \<in> set live. v \<in> set (succ u) \<longrightarrow> u \<in> set order" using no by blast
  qed (use ok r(2) in \<open>simp_all add: kahn_ok_def\<close>)
  with r(1) show ?thesis by blast
qed

lemma kahn_runs:
  "kahn_ok succ live deg queue order \<Longrightarrow> \<forall>u \<in> set live. set (succ u) \<subseteq> set live \<Longrightarrow>
   \<exists>deg' order'. kahn succ deg queue order = Inr (deg', order') \<and> kahn_ok succ live deg' [] order'"
proof (induction succ deg queue order rule: kahn.induct)
  case (2 succ deg v queue order)
  obtain deg1 queue1 where 1: "relax (succ v) deg queue = Inr (deg1, queue1)" "kahn_ok succ live deg1 queue1 (order @ [v])"
    using kahn_step [OF 2(2,3)] by blast
  from 2(1) [OF 1(1) refl 1(2) 2(3)] 1(1) show ?case by simp
qed auto

lemma kahn_end_acyclic:
  assumes "kahn_ok succ live deg [] order" "length order = length live" "distinct live"
  shows "set order = set live" "distinct order" "forward succ live order"
proof -
  show "distinct order" "forward succ live order" using assms(1) by (simp_all add: kahn_ok_def)
  have "set order \<subseteq> set live" using assms(1) by (auto simp: kahn_ok_def)
  moreover have "card (set order) = card (set live)"
    using \<open>distinct order\<close> assms(2,3) by (simp add: distinct_card)
  ultimately show "set order = set live" by (simp add: card_subset_eq)
qed

lemma kahn_end_cycle:
  assumes "kahn_ok succ live deg [] order" "length order \<noteq> length live" "distinct live"
  shows "filter (\<lambda>v. 0 < deg ! v) live \<noteq> []"
    "\<forall>v \<in> set (filter (\<lambda>v. 0 < deg ! v) live). \<exists>u \<in> set (filter (\<lambda>v. 0 < deg ! v) live). v \<in> set (succ u)"
proof -
  have order: "distinct order" "set order = {v \<in> set live. deg ! v = 0}" using assms(1) by (simp_all add: kahn_ok_def)
  show "filter (\<lambda>v. 0 < deg ! v) live \<noteq> []"
  proof
    assume "filter (\<lambda>v. 0 < deg ! v) live = []"
    then have "set order = set live" unfolding order(2) by (auto simp: filter_empty_conv)
    then show False using assms(2,3) order(1) by (metis distinct_card)
  qed
  show "\<forall>v \<in> set (filter (\<lambda>v. 0 < deg ! v) live). \<exists>u \<in> set (filter (\<lambda>v. 0 < deg ! v) live). v \<in> set (succ u)"
  proof
    fix v assume "v \<in> set (filter (\<lambda>v. 0 < deg ! v) live)"
    then have v: "v \<in> set live" "deg ! v \<noteq> 0" by simp_all
    have "deg ! v = (\<Sum>u \<in> set live - set order. count_list (succ u) v)" using assms(1) v(1) by (simp add: kahn_ok_def)
    then have "\<exists>u \<in> set live - set order. v \<in> set (succ u)"
      using v(2) sum_count_zero [of "set live - set order" succ v] by (metis finite_Diff finite_set)
    then show "\<exists>u \<in> set (filter (\<lambda>v. 0 < deg ! v) live). v \<in> set (succ u)" using order(2) by auto
  qed
qed

text \<open>A forward order of the live nodes excludes cycles; a finite set of nodes that all have a predecessor in it has one.\<close>

lemma forward_acyclic:
  assumes fw: "forward succ live order" and all: "set order = set live"
    and R: "\<And>u v. (u, v) \<in> R \<longleftrightarrow> v \<in> set (succ u)" "\<And>u v. (u, v) \<in> R \<Longrightarrow> u \<in> set live \<and> v \<in> set live"
    and d: "distinct order"
  shows "acyclic R"
proof -
  define pos where "pos v = (THE i. i < length order \<and> order ! i = v)" for v
  have pos: "pos (order ! i) = i" if "i < length order" for i
    unfolding pos_def using that d by (auto simp: nth_eq_iff_index_eq)
  have "R \<subseteq> inv_image less_than pos"
  proof (clarify, simp)
    fix u v assume uv: "(u, v) \<in> R"
    obtain j where j: "j < length order" "order ! j = v" using R(2) [OF uv] all by (metis in_set_conv_nth)
    then have "u \<in> set (take j order)" using fw R uv by (auto simp: forward_def)
    then obtain i where "i < j" "order ! i = u" by (auto simp: in_set_conv_nth)
    then show "pos u < pos v" using pos [of i] pos [of j] j by simp
  qed
  then show ?thesis by (meson acyclic_subset wf_acyclic wf_inv_image wf_less_than)
qed

lemma preds_cyclic:
  assumes "finite A" "A \<noteq> {}" "\<forall>v \<in> A. \<exists>u \<in> A. (u, v) \<in> R"
  shows "\<not> acyclic R"
proof
  assume "acyclic R"
  then have "acyclic (R \<inter> A \<times> A)" by (rule acyclic_subset) simp
  moreover have "finite (R \<inter> A \<times> A)" using assms(1) by simp
  ultimately have "wf (R \<inter> A \<times> A)" by (simp add: finite_acyclic_wf)
  then obtain v where "v \<in> A" "\<forall>u. (u, v) \<in> R \<inter> A \<times> A \<longrightarrow> u \<notin> A"
    using assms(2) by (metis all_not_in_conv wfE_min)
  then show False using assms(3) by blast
qed

lemma toposort_runs:
  assumes ok: "digraph_ok g"
  shows "\<exists>deg order. toposort g = Inr (if length order \<noteq> length (node_indices g)
      then Inl (filter (\<lambda>v. 0 < deg ! v) (node_indices g)) else Inr order) \<and>
    kahn_ok (dg_succ g) (node_indices g) deg [] order"
proof -
  let ?live = "node_indices g"
  have closed: "\<forall>u \<in> set ?live. set (dg_succ g u) \<subseteq> set ?live"
    using dg_rel_live [OF ok] dg_succ_rel [OF ok] by blast
  then have "\<forall>v \<in> set ?live. \<forall>w \<in> set (dg_succ g v). w < length (replicate (raw_node_count g) (0::nat))"
    using node_indices_less [of _ g] by (auto simp: raw_node_count_def)
  from count_degrees_ok [OF this node_indices_distinct] obtain degrees where
    c: "count_degrees (dg_succ g) ?live (replicate (raw_node_count g) 0) = Inr degrees"
      "length degrees = raw_node_count g"
      "\<forall>w < raw_node_count g. degrees ! w = (\<Sum>v \<in> set ?live. count_list (dg_succ g v) w)" by auto
  have "kahn_ok (dg_succ g) ?live degrees (filter (\<lambda>v. degrees ! v = 0) ?live) []"
    using c(2,3) node_indices_less [of _ g] node_indices_distinct [of g]
    by (auto simp: kahn_ok_def forward_Nil raw_node_count_def)
  from kahn_runs [OF this closed] obtain deg order where
    k: "kahn (dg_succ g) degrees (filter (\<lambda>v. degrees ! v = 0) ?live) [] = Inr (deg, order)"
      "kahn_ok (dg_succ g) ?live deg [] order" by blast
  with c(1) show ?thesis by (intro exI [of _ deg] exI [of _ order]) (simp add: toposort_def)
qed

text \<open>
  C22. On every graph built by the mutating operations the topological sort returns without a panic. When the
  graph has no directed cycle it answers with all live nodes, each once, every edge leading forward in the
  list; when the graph has a cycle it answers with the error, whose nodes are live and each have a
  predecessor among them.
\<close>

theorem toposort_correct:
  assumes "dg_reachable g"
  shows "if acyclic (dg_rel g)
    then \<exists>order. toposort g = Inr (Inr order) \<and> distinct order \<and> set order = dom (node_map g) \<and>
      (\<forall>j < length order. \<forall>u. (u, order ! j) \<in> dg_rel g \<longrightarrow> u \<in> set (take j order))
    else \<exists>cycle. toposort g = Inr (Inl cycle) \<and> cycle \<noteq> [] \<and> set cycle \<subseteq> dom (node_map g) \<and>
      (\<forall>v \<in> set cycle. \<exists>u \<in> set cycle. (u, v) \<in> dg_rel g)"
proof -
  have ok: "digraph_ok g" by (rule dg_reachable_ok [OF assms])
  obtain deg order where t: "toposort g = Inr (if length order \<noteq> length (node_indices g)
      then Inl (filter (\<lambda>v. 0 < deg ! v) (node_indices g)) else Inr order)"
    and k: "kahn_ok (dg_succ g) (node_indices g) deg [] order" using toposort_runs [OF ok] by blast
  note rel = dg_succ_rel [OF ok] and live = dg_rel_live [OF ok]
  show ?thesis
  proof (cases "length order = length (node_indices g)")
    case True
    note e = kahn_end_acyclic [OF k True node_indices_distinct]
    have "acyclic (dg_rel g)" using forward_acyclic [OF e(3,1) _ _ e(2)] rel live by blast
    then show ?thesis using e t True live by (auto simp: forward_def rel node_indices_live)
  next
    case False
    note e = kahn_end_cycle [OF k False node_indices_distinct]
    let ?cycle = "filter (\<lambda>v. 0 < deg ! v) (node_indices g)"
    have preds: "\<forall>v \<in> set ?cycle. \<exists>u \<in> set ?cycle. (u, v) \<in> dg_rel g" using e(2) unfolding rel .
    have "\<not> acyclic (dg_rel g)" using preds_cyclic [OF _ _ preds] e(1) set_empty [of ?cycle] by fast
    then show ?thesis using e(1) t False preds by (auto simp: node_indices_live [symmetric])
  qed
qed

lemma toposort_correct_witness:
  "toposort small_graph = Inr (Inr [0, 1]) \<and> (if acyclic (dg_rel small_graph)
    then \<exists>order. toposort small_graph = Inr (Inr order) \<and> distinct order \<and> set order = dom (node_map small_graph) \<and>
      (\<forall>j < length order. \<forall>u. (u, order ! j) \<in> dg_rel small_graph \<longrightarrow> u \<in> set (take j order))
    else \<exists>cycle. toposort small_graph = Inr (Inl cycle) \<and> cycle \<noteq> [] \<and> set cycle \<subseteq> dom (node_map small_graph) \<and>
      (\<forall>v \<in> set cycle. \<exists>u \<in> set cycle. (u, v) \<in> dg_rel small_graph))"
proof
  show "toposort small_graph = Inr (Inr [0, 1])" by code_simp
qed (rule toposort_correct [OF small_graph_reachable])

section \<open>The cycle test\<close>

datatype mark = White | Gray | Black

text \<open>The neighbours of a node just made gray: a gray one answers \<open>true\<close> at once, here \<open>None\<close>.\<close>

fun push_white :: "nat list \<Rightarrow> mark list \<Rightarrow> (nat \<times> bool) list \<Rightarrow> (nat \<times> bool) list option result" where
  "push_white [] marks stack = Inr (Some stack)"
| "push_white (w # ws) marks stack =
     (if w < length marks then
        (case marks ! w of
           White \<Rightarrow> push_white ws marks ((w, False) # stack)
         | Gray \<Rightarrow> Inr None
         | Black \<Rightarrow> push_white ws marks stack)
      else Inl Panic)"

definition whites :: "mark list \<Rightarrow> nat" where
  "whites marks = card {v. v < length marks \<and> marks ! v = White}"

lemma whites_less: "v < length marks \<Longrightarrow> marks ! v = White \<Longrightarrow> c \<noteq> White \<Longrightarrow> whites (marks[v := c]) < whites marks"
  unfolding whites_def by (rule psubset_card_mono) (auto simp: nth_list_update)

lemma whites_le: "c \<noteq> White \<Longrightarrow> whites (marks[v := c]) \<le> whites marks"
  unfolding whites_def by (cases "v < length marks") (auto simp: nth_list_update intro!: card_mono)

lemma whites_gray:
  "v < length marks \<Longrightarrow> marks ! v \<noteq> Gray \<Longrightarrow> marks ! v \<noteq> Black \<Longrightarrow> whites (marks[v := Gray]) < whites marks"
  by (rule whites_less) (cases "marks ! v"; simp)+

function mark_dfs :: "(nat \<Rightarrow> nat list) \<Rightarrow> mark list \<Rightarrow> (nat \<times> bool) list \<Rightarrow> mark list option result" where
  "mark_dfs succ marks [] = Inr (Some marks)"
| "mark_dfs succ marks ((v, processed) # stack) =
     (if length marks \<le> v then Inl Panic
      else if processed then mark_dfs succ (marks[v := Black]) stack
      else if marks ! v = Gray \<or> marks ! v = Black then mark_dfs succ marks stack
      else
        let marks' = marks[v := Gray]
        in bindR (push_white (succ v) marks' ((v, True) # stack)) (\<lambda>r.
             case r of None \<Rightarrow> Inr None | Some stack' \<Rightarrow> mark_dfs succ marks' stack'))"
  by pat_completeness auto
termination
  by (relation "measures [\<lambda>(succ, marks, stack). whites marks, \<lambda>(succ, marks, stack). length stack]")
    (auto simp: whites_gray le_imp_less_or_eq [OF whites_le])


fun mark_starts :: "(nat \<Rightarrow> nat list) \<Rightarrow> nat list \<Rightarrow> mark list \<Rightarrow> bool result" where
  "mark_starts succ [] marks = Inr False"
| "mark_starts succ (start # starts) marks =
     (if length marks \<le> start then Inl Panic
      else if marks ! start \<noteq> White then mark_starts succ starts marks
      else bindR (mark_dfs succ marks [(start, False)]) (\<lambda>r.
        case r of None \<Rightarrow> Inr True | Some marks' \<Rightarrow> mark_starts succ starts marks'))"

definition is_cyclic_directed :: "('n, 'e) digraph \<Rightarrow> bool result" where
  "is_cyclic_directed g =
     (if raw_node_count g = 0 then Inr False
      else mark_starts (dg_succ g) (node_indices g) (replicate (raw_node_count g) White))"

text \<open>
  The state of the search, entry by entry from the top of the stack, with the nodes \<open>T\<close> that have a pending
  blackening above the entry and the nodes \<open>A\<close> that have any entry above it. The successors of a gray node
  are black or above it, and an entry of a node that has turned gray since lies below its blackening.
\<close>

fun stack_ok :: "(nat \<Rightarrow> nat list) \<Rightarrow> mark list \<Rightarrow> nat set \<Rightarrow> nat set \<Rightarrow> (nat \<times> bool) list \<Rightarrow> bool" where
  "stack_ok succ marks T A [] \<longleftrightarrow> True"
| "stack_ok succ marks T A ((v, True) # stack) \<longleftrightarrow>
     marks ! v = Gray \<and> v \<notin> T \<and> (\<forall>w \<in> set (succ v). marks ! w = Black \<or> w \<in> A) \<and>
     stack_ok succ marks (insert v T) (insert v A) stack"
| "stack_ok succ marks T A ((v, False) # stack) \<longleftrightarrow>
     (marks ! v = Gray \<longrightarrow> v \<in> T) \<and> stack_ok succ marks T (insert v A) stack"

text \<open>Every entry is a successor of the gray node nearest below it.\<close>

fun top_gray :: "(nat \<times> bool) list \<Rightarrow> nat option" where
  "top_gray [] = None"
| "top_gray ((v, b) # stack) = (if b then Some v else top_gray stack)"

fun chain_ok :: "(nat \<Rightarrow> nat list) \<Rightarrow> (nat \<times> bool) list \<Rightarrow> bool" where
  "chain_ok succ [] \<longleftrightarrow> True"
| "chain_ok succ ((v, b) # stack) \<longleftrightarrow>
     (case top_gray stack of None \<Rightarrow> True | Some u \<Rightarrow> v \<in> set (succ u)) \<and> chain_ok succ stack"

definition marks_ok :: "(nat \<Rightarrow> nat list) \<Rightarrow> nat set \<Rightarrow> mark list \<Rightarrow> (nat \<times> bool) list \<Rightarrow> bool" where
  "marks_ok succ live marks stack \<longleftrightarrow>
     (\<forall>v \<in> live. v < length marks \<and> set (succ v) \<subseteq> live) \<and> fst ` set stack \<subseteq> live \<and>
     (\<forall>v \<in> live. marks ! v = Gray \<longleftrightarrow> (v, True) \<in> set stack) \<and>
     (\<forall>v \<in> live. marks ! v = Black \<longrightarrow> (\<forall>w \<in> set (succ v). marks ! w = Black)) \<and>
     (\<forall>v \<in> live. marks ! v = Black \<longrightarrow> (v, v) \<notin> {(u, w). w \<in> set (succ u)}\<^sup>+) \<and>
     stack_ok succ marks {} {} stack \<and> chain_ok succ stack"

lemma stack_ok_mono:
  assumes "stack_ok succ marks T A stack"
    "\<And>w. w \<in> A \<Longrightarrow> w \<in> A' \<or> marks' ! w = Black" "\<And>w. marks ! w = Black \<Longrightarrow> marks' ! w = Black"
    "\<And>w. marks' ! w = Gray \<Longrightarrow> marks ! w = Gray \<and> (w \<in> T \<longrightarrow> w \<in> T') \<or> w \<in> T'"
    "\<And>w. (w, True) \<in> set stack \<Longrightarrow> marks ! w = Gray \<Longrightarrow> w \<notin> T \<Longrightarrow> marks' ! w = Gray \<and> w \<notin> T'"
  shows "stack_ok succ marks' T' A' stack"
  using assms
proof (induction succ marks T A stack arbitrary: T' A' rule: stack_ok.induct)
  case (2 succ marks T A v stack)
  from 2(2) have v: "marks ! v = Gray" "v \<notin> T" "\<forall>w \<in> set (succ v). marks ! w = Black \<or> w \<in> A"
    "stack_ok succ marks (insert v T) (insert v A) stack" by simp_all
  have "stack_ok succ marks' (insert v T') (insert v A') stack"
    by (rule 2(1) [OF v(4)]) (use 2(3-) v in auto)
  moreover have "\<forall>w \<in> set (succ v). marks' ! w = Black \<or> w \<in> A'" using v(3) 2(3,4) by blast
  ultimately show ?case using 2(6) v(1,2) by simp
next
  case (3 succ marks T A v stack)
  have "stack_ok succ marks' T' (insert v A') stack"
    by (rule 3(1)) (use 3(2-) in auto)
  with 3(2-) show ?case by auto
qed simp

abbreviation succ_rel :: "(nat \<Rightarrow> nat list) \<Rightarrow> (nat \<times> nat) set" where
  "succ_rel succ \<equiv> {(u, w). w \<in> set (succ u)}"

lemma push_white_ok:
  "\<forall>w \<in> set ws. w < length marks \<Longrightarrow>
   push_white ws marks stack =
     (if \<exists>w \<in> set ws. marks ! w = Gray then Inr None
      else Inr (Some (rev (map (\<lambda>w. (w, False)) (filter (\<lambda>w. marks ! w = White) ws)) @ stack)))"
  by (induction ws arbitrary: stack) (auto split: mark.split)

lemma stack_ok_white:
  "\<forall>w \<in> set ws. marks ! w = White \<Longrightarrow>
   stack_ok succ marks T A (rev (map (\<lambda>w. (w, False)) ws) @ stack) \<longleftrightarrow> stack_ok succ marks T (A \<union> set ws) stack"
  by (induction ws arbitrary: stack) (auto simp: Un_insert_right insert_absorb)

lemma chain_ok_white:
  "set ws \<subseteq> set (succ v) \<Longrightarrow> chain_ok succ ((v, True) # stack) \<Longrightarrow>
   chain_ok succ (rev (map (\<lambda>w. (w, False)) ws) @ (v, True) # stack) \<and>
   top_gray (rev (map (\<lambda>w. (w, False)) ws) @ (v, True) # stack) = Some v"
proof (induction ws rule: rev_induct)
  case (snoc w ws)
  then show ?case by (auto split: option.splits)
qed simp

lemma chain_path: "chain_ok succ ((v, b) # stack) \<Longrightarrow> (w, True) \<in> set stack \<Longrightarrow> (w, v) \<in> (succ_rel succ)\<^sup>+"
proof (induction stack arbitrary: v b)
  case (Cons x stack)
  obtain u c where x: "x = (u, c)" by fastforce
  show ?case
  proof (cases c)
    case True
    then have e: "(u, v) \<in> succ_rel succ" using Cons.prems(1) x by simp
    show ?thesis
    proof (cases "w = u")
      case False
      then have "(w, u) \<in> (succ_rel succ)\<^sup>+" using Cons.IH [of u c] Cons.prems x by simp
      with e show ?thesis by (meson trancl.trancl_into_trancl)
    qed (use e in blast)
  next
    case False
    then show ?thesis using Cons.IH [of v b] Cons.prems x by auto
  qed
qed simp

lemma marks_okI:
  assumes "\<And>v. v \<in> live \<Longrightarrow> v < length marks \<and> set (succ v) \<subseteq> live" "fst ` set stack \<subseteq> live"
    "\<And>v. v \<in> live \<Longrightarrow> marks ! v = Gray \<longleftrightarrow> (v, True) \<in> set stack"
    "\<And>v. v \<in> live \<Longrightarrow> marks ! v = Black \<Longrightarrow> \<forall>w \<in> set (succ v). marks ! w = Black"
    "\<And>v. v \<in> live \<Longrightarrow> marks ! v = Black \<Longrightarrow> (v, v) \<notin> (succ_rel succ)\<^sup>+"
    "stack_ok succ marks {} {} stack" "chain_ok succ stack"
  shows "marks_ok succ live marks stack"
  unfolding marks_ok_def using assms(2,6,7) by (simp add: assms(1,3,5)) (simp add: assms(4))

lemma marks_ok_live: "marks_ok succ live marks ((v, b) # stack) \<Longrightarrow> v \<in> live \<and> v < length marks"
  by (auto simp: marks_ok_def)

lemma marks_ok_succ: "marks_ok succ live marks stack \<Longrightarrow> v \<in> live \<Longrightarrow> v < length marks \<and> set (succ v) \<subseteq> live"
  by (simp add: marks_ok_def)

lemma marks_ok_gray: "marks_ok succ live marks stack \<Longrightarrow> v \<in> live \<Longrightarrow> marks ! v = Gray \<longleftrightarrow> (v, True) \<in> set stack"
  by (simp add: marks_ok_def)

lemma marks_ok_acyclic:
  "marks_ok succ live marks stack \<Longrightarrow> v \<in> live \<Longrightarrow> marks ! v = Black \<Longrightarrow> (v, v) \<notin> (succ_rel succ)\<^sup>+"
  by (simp add: marks_ok_def)

lemma marks_ok_black:
  "marks_ok succ live marks stack \<Longrightarrow> v \<in> live \<Longrightarrow> marks ! v = Black \<Longrightarrow> \<forall>w \<in> set (succ v). marks ! w = Black"
  by (simp add: marks_ok_def)

lemma black_closed: "(v, w) \<in> (succ_rel succ)\<^sup>+ \<Longrightarrow> v \<in> B \<Longrightarrow> \<forall>u \<in> B. set (succ u) \<subseteq> B \<Longrightarrow> w \<in> B"
  by (induction rule: trancl_induct) auto

text \<open>The three steps: a node is finished, a duplicate is dropped, a new node is opened.\<close>

lemma marks_ok_finish:
  assumes ok: "marks_ok succ live marks ((v, True) # stack)"
  shows "marks_ok succ live (marks[v := Black]) stack"
proof -
  let ?marks = "marks[v := Black]" and ?B = "{u \<in> live. marks ! u = Black}"
  note v = marks_ok_live [OF ok]
  have gray: "marks ! v = Gray" and black: "\<forall>w \<in> set (succ v). marks ! w = Black"
    and rest: "stack_ok succ marks {v} {v} stack" using ok by (simp_all add: marks_ok_def)
  have top: "(v, True) \<notin> set stack"
  proof
    assume "(v, True) \<in> set stack"
    then obtain xs ys where st: "stack = xs @ (v, True) # ys" by (meson split_list)
    have "\<not> stack_ok succ marks T A (xs @ (v, True) # ys)" if "v \<in> T" for T A
      using that
    proof (induction xs arbitrary: T A)
      case (Cons x xs)
      then show ?case by (cases x; cases "snd x") auto
    qed simp
    then show False using rest st by blast
  qed
  have closed: "\<forall>u \<in> ?B. set (succ u) \<subseteq> ?B" using ok by (fastforce simp: marks_ok_def)
  have sv: "set (succ v) \<subseteq> ?B" using ok v black by (auto simp: marks_ok_def)
  have "(v, v) \<notin> (succ_rel succ)\<^sup>+"
  proof
    assume "(v, v) \<in> (succ_rel succ)\<^sup>+"
    from tranclD [OF this] obtain w where w: "w \<in> set (succ v)" "w = v \<or> (w, v) \<in> (succ_rel succ)\<^sup>+"
      by (auto simp: rtrancl_eq_or_trancl)
    then have "w \<in> ?B" using sv by blast
    then have "v \<in> ?B" using w(2) black_closed [OF _ _ closed] by blast
    then show False using gray by simp
  qed
  moreover have "stack_ok succ ?marks {} {} stack"
    by (rule stack_ok_mono [OF rest]) (use v top in \<open>auto simp: nth_list_update split: if_splits\<close>)
  moreover have "?marks ! w = Black" if "marks ! w = Black" for w using that v by (simp add: nth_list_update)
  ultimately show ?thesis using ok v top black gray
    by (auto simp: marks_ok_def nth_list_update split: if_splits)
qed

lemma marks_ok_drop:
  "marks_ok succ live marks ((v, False) # stack) \<Longrightarrow> marks ! v = Black \<Longrightarrow> marks_ok succ live marks stack"
  using stack_ok_mono [of succ marks "{}" "{v}" stack "{}" marks "{}"] by (auto simp: marks_ok_def)

lemma marks_ok_open:
  assumes ok: "marks_ok succ live marks ((v, False) # stack)" and white: "marks ! v = White"
  shows "case push_white (succ v) (marks[v := Gray]) ((v, True) # stack) of
      Inl _ \<Rightarrow> False
    | Inr None \<Rightarrow> \<not> acyclic (succ_rel succ)
    | Inr (Some stack') \<Rightarrow> marks_ok succ live (marks[v := Gray]) stack' \<and>
        set ((v, True) # stack) \<subseteq> set stack'"
proof -
  let ?marks = "marks[v := Gray]"
  let ?ws = "filter (\<lambda>w. ?marks ! w = White) (succ v)"
  let ?stack = "rev (map (\<lambda>w. (w, False)) ?ws) @ (v, True) # stack"
  note v = marks_ok_live [OF ok]
  have less: "\<forall>w \<in> set (succ v). w < length ?marks"
    using marks_ok_succ [OF ok] v by auto
  have chain: "chain_ok succ ((v, True) # stack)" using ok by (simp add: marks_ok_def)
  show ?thesis
  proof (cases "\<exists>w \<in> set (succ v). ?marks ! w = Gray")
    case True
    then obtain w where w: "w \<in> set (succ v)" "?marks ! w = Gray" by blast
    have "(w, v) \<in> (succ_rel succ)\<^sup>*"
    proof (cases "w = v")
      case False
      then have "(w, True) \<in> set stack"
        using w marks_ok_gray [OF ok, of w] marks_ok_succ [OF ok, of v] v by auto
      from chain_path [OF chain this] show ?thesis by (rule trancl_into_rtrancl)
    qed simp
    moreover have "(v, w) \<in> succ_rel succ" using w(1) by simp
    ultimately have "(v, v) \<in> (succ_rel succ)\<^sup>+" by (rule rtrancl_into_trancl2 [rotated])
    then have "\<not> acyclic (succ_rel succ)" unfolding acyclic_def by blast
    then show ?thesis using push_white_ok [OF less] True by simp
  next
    case False
    have rest: "stack_ok succ marks {} {v} stack" using ok by (simp add: marks_ok_def)
    have "stack_ok succ ?marks {v} (insert v (set ?ws)) stack"
      by (rule stack_ok_mono [OF rest]) (use v white in \<open>auto simp: nth_list_update split: if_splits\<close>)
    moreover have "?marks ! w = Black \<or> w \<in> set ?ws" if "w \<in> set (succ v)" for w
      using False that by (cases "?marks ! w") auto
    ultimately have st: "stack_ok succ ?marks {} {} ?stack"
      using v by (subst stack_ok_white) auto
    have ch: "chain_ok succ ?stack" using chain_ok_white [OF _ chain, of ?ws] by auto
    have "fst ` set stack \<subseteq> live" using ok by (simp add: marks_ok_def)
    then have sub: "fst ` set ?stack \<subseteq> live" using marks_ok_succ [OF ok, of v] v by auto
    have gray: "?marks ! u = Gray \<longleftrightarrow> (u, True) \<in> set ?stack" if "u \<in> live" for u
      using marks_ok_gray [OF ok that] v by (cases "u = v") auto
    have black: "\<forall>w \<in> set (succ u). ?marks ! w = Black" if "u \<in> live" "?marks ! u = Black" for u
    proof
      fix w assume w: "w \<in> set (succ u)"
      have "u \<noteq> v" using that(2) v by auto
      then have "marks ! w = Black" using marks_ok_black [OF ok that(1)] that(2) w by simp
      then show "?marks ! w = Black" using white by (cases "w = v") simp_all
    qed
    have nocycle: "(u, u) \<notin> (succ_rel succ)\<^sup>+" if "u \<in> live" "?marks ! u = Black" for u
      using marks_ok_acyclic [OF ok that(1)] that(2) v by (cases "u = v") auto
    have all: "u < length ?marks \<and> set (succ u) \<subseteq> live" if "u \<in> live" for u
      using marks_ok_succ [OF ok that] by simp
    have "marks_ok succ live ?marks ?stack" by (rule marks_okI [OF all sub gray black nocycle st ch])
    then show ?thesis using push_white_ok [OF less] False by auto
  qed
qed

lemma mark_dfs_ok:
  "marks_ok succ live marks stack \<Longrightarrow>
   (case mark_dfs succ marks stack of
      Inl _ \<Rightarrow> False
    | Inr None \<Rightarrow> \<not> acyclic (succ_rel succ)
    | Inr (Some marks') \<Rightarrow> marks_ok succ live marks' [] \<and>
        (\<forall>v \<in> live. marks ! v = Black \<or> v \<in> fst ` set stack \<longrightarrow> marks' ! v = Black))"
proof (induction succ marks stack rule: mark_dfs.induct)
  case (2 succ marks v processed stack)
  note v = marks_ok_live [OF 2(4)]
  consider "processed" | "\<not> processed" "marks ! v = Black" | "\<not> processed" "marks ! v = White"
    using 2(4) by (cases "marks ! v"; cases processed) (auto simp: marks_ok_def)
  then show ?case
  proof cases
    case 1
    have IH: "case mark_dfs succ (marks[v := Black]) stack of Inl _ \<Rightarrow> False
      | Inr None \<Rightarrow> \<not> acyclic (succ_rel succ)
      | Inr (Some marks') \<Rightarrow> marks_ok succ live marks' [] \<and>
          (\<forall>u \<in> live. marks[v := Black] ! u = Black \<or> u \<in> fst ` set stack \<longrightarrow> marks' ! u = Black)"
      using 2(1) marks_ok_finish [of succ live marks v stack] 2(4) v 1 by simp
    show ?thesis using IH v 1 by (auto simp: nth_list_update split: sum.splits option.splits if_splits)
  next
    case 2
    then show ?thesis using "2.IH"(2) "2.prems" marks_ok_drop [of succ live marks v stack] v
      by (auto split: sum.splits option.splits)
  next
    case 3
    have p: "case push_white (succ v) (marks[v := Gray]) ((v, True) # stack) of
        Inl _ \<Rightarrow> False
      | Inr None \<Rightarrow> \<not> acyclic (succ_rel succ)
      | Inr (Some stack') \<Rightarrow> marks_ok succ live (marks[v := Gray]) stack' \<and> set ((v, True) # stack) \<subseteq> set stack'"
      using marks_ok_open [of succ live marks v stack] "2.prems" 3 by simp
    show ?thesis
    proof (cases "push_white (succ v) (marks[v := Gray]) ((v, True) # stack)")
      case (Inr r)
      show ?thesis
      proof (cases r)
        case (Some stack')
        have m: "marks_ok succ live (marks[v := Gray]) stack'" "set ((v, True) # stack) \<subseteq> set stack'"
          using p Inr Some by simp_all
        have IH: "case mark_dfs succ (marks[v := Gray]) stack' of Inl _ \<Rightarrow> False
          | Inr None \<Rightarrow> \<not> acyclic (succ_rel succ)
          | Inr (Some marks') \<Rightarrow> marks_ok succ live marks' [] \<and>
              (\<forall>u \<in> live. marks[v := Gray] ! u = Black \<or> u \<in> fst ` set stack' \<longrightarrow> marks' ! u = Black)"
          using "2.IH"(3) m(1) Inr Some 3 v by simp
        have "mark_dfs succ marks ((v, processed) # stack) = mark_dfs succ (marks[v := Gray]) stack'"
          using 3 v Inr Some by (simp add: Let_def)
        moreover have "marks[v := Gray] ! u = Black \<or> u \<in> fst ` set stack'"
          if "marks ! u = Black \<or> u \<in> fst ` set ((v, processed) # stack)" for u
          using that m(2) 3 by (cases "u = v") (force simp: nth_list_update)+
        ultimately show ?thesis using IH by (auto split: sum.splits option.splits)
      qed (use 3 v Inr p in \<open>simp add: Let_def\<close>)
    qed (use p in simp)
  qed
qed auto


lemma mark_starts_ok:
  "marks_ok succ live marks [] \<Longrightarrow> set starts \<subseteq> live \<Longrightarrow>
   (\<forall>v \<in> live. v \<in> set starts \<or> marks ! v = Black) \<Longrightarrow> succ_rel succ \<subseteq> live \<times> live \<Longrightarrow>
   mark_starts succ starts marks = Inr (\<not> acyclic (succ_rel succ))"
proof (induction starts arbitrary: marks)
  case Nil
  have "acyclic (succ_rel succ)"
    unfolding acyclic_def
  proof
    fix v
    show "(v, v) \<notin> (succ_rel succ)\<^sup>+"
    proof
      assume c: "(v, v) \<in> (succ_rel succ)\<^sup>+"
      have live: "v \<in> live" using subsetD [OF trancl_subset_Sigma [OF Nil(4)] c] by (rule SigmaD1)
      then have "marks ! v = Black" using Nil(3) by simp
      with marks_ok_acyclic [OF Nil(1) live] c show False by blast
    qed
  qed
  then show ?case by simp
next
  case (Cons start starts)
  have start: "start \<in> live" "start < length marks" using Cons.prems(1,2) by (auto simp: marks_ok_def)
  show ?case
  proof (cases "marks ! start = White")
    case False
    then have "marks ! start = Black" using Cons.prems(1) start by (cases "marks ! start") (auto simp: marks_ok_def)
    then have "\<forall>v \<in> live. v \<in> set starts \<or> marks ! v = Black" using Cons.prems(3) by auto
    then have "mark_starts succ starts marks = Inr (\<not> acyclic (succ_rel succ))"
      using Cons.IH [OF Cons.prems(1) _ _ Cons.prems(4)] Cons.prems(2) by simp
    then show ?thesis using False start(2) by simp
  next
    case True
    have "marks_ok succ live marks [(start, False)]" using Cons.prems(1) start True by (simp add: marks_ok_def)
    note r = mark_dfs_ok [OF this]
    show ?thesis
    proof (cases "mark_dfs succ marks [(start, False)]")
      case (Inr r)
      show ?thesis
      proof (cases r)
        case None
        then show ?thesis using Inr r True start by (simp del: mark_dfs.simps)
      next
        case (Some marks')
        then have "marks_ok succ live marks' []" "\<forall>v \<in> live. v \<in> set starts \<or> marks' ! v = Black"
          using Inr \<open>case mark_dfs _ _ _ of Inl _ \<Rightarrow> _ | Inr x \<Rightarrow> _ x\<close> Cons.prems(3) by auto
        then show ?thesis using Cons Inr Some True start by (simp del: mark_dfs.simps)
      qed
    qed (use r in \<open>simp del: mark_dfs.simps\<close>)
  qed
qed

text \<open>
  On every graph built by the mutating operations the cycle test returns without a panic, and it answers
  true exactly when the graph has a directed cycle.
\<close>

theorem is_cyclic_correct:
  assumes "dg_reachable g"
  shows "is_cyclic_directed g = Inr (\<not> acyclic (dg_rel g))"
proof -
  have ok: "digraph_ok g" by (rule dg_reachable_ok [OF assms])
  let ?live = "set (node_indices g)"
  have rel: "succ_rel (dg_succ g) = dg_rel g" using dg_succ_rel [OF ok] by auto
  have live: "dg_rel g \<subseteq> ?live \<times> ?live" using dg_rel_live [OF ok] by auto
  show ?thesis
  proof (cases "raw_node_count g = 0")
    case True
    then have "dg_rel g = {}" using live by (simp add: raw_node_count_def node_indices_def)
    then show ?thesis using True by (simp add: is_cyclic_directed_def acyclic_def)
  next
    case False
    have "v < raw_node_count g \<and> set (dg_succ g v) \<subseteq> ?live" if "v \<in> ?live" for v
      using node_indices_less [OF that] rel live by (auto simp: raw_node_count_def)
    then have "marks_ok (dg_succ g) ?live (replicate (raw_node_count g) White) []"
      by (simp add: marks_ok_def)
    then show ?thesis
      using mark_starts_ok [of "dg_succ g" ?live _ "node_indices g"] False live
      by (simp add: is_cyclic_directed_def rel)
  qed
qed

lemma is_cyclic_correct_witness:
  "is_cyclic_directed small_graph = Inr False \<and>
   is_cyclic_directed small_graph = Inr (\<not> acyclic (dg_rel small_graph))"
proof
  show "is_cyclic_directed small_graph = Inr False" by code_simp
qed (rule is_cyclic_correct [OF small_graph_reachable])

section \<open>The depth first iterator\<close>

record dfs_state =
  dfs_stack :: "nat list"
  dfs_visited :: "bool list"

definition dfs_new :: "('n, 'e) digraph \<Rightarrow> nat \<Rightarrow> dfs_state" where
  "dfs_new g start =
     \<lparr>dfs_stack = (if contains_node start g then [start] else []), dfs_visited = replicate (raw_node_count g) False\<rparr>"

fun push_unvisited :: "nat list \<Rightarrow> bool list \<Rightarrow> nat list \<Rightarrow> nat list result" where
  "push_unvisited [] visited stack = Inr stack"
| "push_unvisited (w # ws) visited stack =
     (if w < length visited then push_unvisited ws visited (if \<not> visited ! w then w # stack else stack) else Inl Panic)"

fun pop_unvisited :: "(nat \<Rightarrow> nat list) \<Rightarrow> bool list \<Rightarrow> nat list \<Rightarrow> (nat option \<times> bool list \<times> nat list) result" where
  "pop_unvisited succ visited [] = Inr (None, visited, [])"
| "pop_unvisited succ visited (v # stack) =
     (if length visited \<le> v then Inl Panic
      else if visited ! v then pop_unvisited succ visited stack
      else
        let visited' = visited[v := True]
        in bindR (push_unvisited (succ v) visited' stack) (\<lambda>stack'. Inr (Some v, visited', stack')))"

definition move_next :: "('n, 'e) digraph \<Rightarrow> dfs_state \<Rightarrow> (nat option \<times> dfs_state) result" where
  "move_next g d =
     bindR (pop_unvisited (dg_succ g) (dfs_visited d) (dfs_stack d)) (\<lambda>(r, visited, stack).
       Inr (r, \<lparr>dfs_stack = stack, dfs_visited = visited\<rparr>))"

definition was_visited :: "dfs_state \<Rightarrow> nat \<Rightarrow> bool" where
  "was_visited d v = (case vec_get (dfs_visited d) v of None \<Rightarrow> False | Some b \<Rightarrow> b)"

definition dfs_reset :: "('n, 'e) digraph \<Rightarrow> nat \<Rightarrow> dfs_state \<Rightarrow> dfs_state" where
  "dfs_reset g start d =
     (let d1 = d\<lparr>dfs_visited := replicate (raw_node_count g) False, dfs_stack := []\<rparr>
      in if contains_node start g then d1\<lparr>dfs_stack := [start]\<rparr> else d1)"

lemma dfs_reset_new: "dfs_reset g start d = dfs_new g start"
  by (cases d) (simp add: dfs_reset_def dfs_new_def Let_def)

text \<open>Calling \<open>next\<close> until it answers \<open>None\<close>, as a \<open>for\<close> loop over the iterator does.\<close>

lemma pop_unvisited_less:
  "pop_unvisited succ visited stack = Inr (Some v, visited', stack') \<Longrightarrow>
   card {u. u < length visited' \<and> \<not> visited' ! u} < card {u. u < length visited \<and> \<not> visited ! u}"
proof (induction stack)
  case (Cons u stack)
  show ?case
  proof (cases "visited ! u")
    case False
    then have u: "u < length visited" "visited' = visited[u := True]"
      using Cons.prems by (auto simp: Let_def bindR_Inr_iff split: if_splits)
    show ?thesis
      by (rule psubset_card_mono) (use u False in \<open>auto simp: nth_list_update split: if_splits\<close>)
  qed (use Cons in \<open>auto split: if_splits\<close>)
qed simp

function dfs_collect :: "('n, 'e) digraph \<Rightarrow> dfs_state \<Rightarrow> (nat list \<times> dfs_state) result" where
  "dfs_collect g d =
     bindR (move_next g d) (\<lambda>(r, d').
       case r of None \<Rightarrow> Inr ([], d')
       | Some v \<Rightarrow> bindR (dfs_collect g d') (\<lambda>(vs, d''). Inr (v # vs, d'')))"
  by pat_completeness auto
termination
  by (relation "measure (\<lambda>(g, d). card {u. u < length (dfs_visited d) \<and> \<not> dfs_visited d ! u})")
    (auto simp: move_next_def bindR_Inr_iff dest!: pop_unvisited_less)

declare dfs_collect.simps [simp del]

text \<open>
  The nodes answered so far are the visited ones; they and the waiting nodes are reachable from the start, and
  a successor of a visited node is visited or waits.
\<close>

definition dfs_ok :: "('n, 'e) digraph \<Rightarrow> nat \<Rightarrow> dfs_state \<Rightarrow> bool" where
  "dfs_ok g start d \<longleftrightarrow>
     length (dfs_visited d) = raw_node_count g \<and>
     (\<forall>v. v \<in> set (dfs_stack d) \<or> was_visited d v \<longrightarrow> v \<in> set (node_indices g) \<and> (start, v) \<in> (dg_rel g)\<^sup>*) \<and>
     (\<forall>u v. was_visited d u \<longrightarrow> (u, v) \<in> dg_rel g \<longrightarrow> was_visited d v \<or> v \<in> set (dfs_stack d)) \<and>
     (was_visited d start \<or> start \<in> set (dfs_stack d))"

lemma push_unvisited_ok:
  "\<forall>w \<in> set ws. w < length visited \<Longrightarrow>
   push_unvisited ws visited stack = Inr (rev (filter (\<lambda>w. \<not> visited ! w) ws) @ stack)"
  by (induction ws arbitrary: stack) auto

lemma was_visited_nth: "was_visited d v \<longleftrightarrow> v < length (dfs_visited d) \<and> dfs_visited d ! v"
  by (simp add: was_visited_def vec_get_def)

lemma move_next_ok:
  assumes g: "digraph_ok g" and ok: "dfs_ok g start d"
  shows "\<exists>r d'. move_next g d = Inr (r, d') \<and> dfs_ok g start d' \<and>
    (case r of None \<Rightarrow> dfs_stack d' = [] \<and> dfs_visited d' = dfs_visited d
     | Some v \<Rightarrow> \<not> was_visited d v \<and> (\<forall>u. was_visited d' u \<longleftrightarrow> u = v \<or> was_visited d u))"
  using ok
proof (induction "dfs_stack d" arbitrary: d)
  case Nil
  then show ?case by (intro exI [of _ None] exI [of _ d]) (cases d, simp add: move_next_def)
next
  case (Cons v stack)
  have v: "v \<in> set (node_indices g)" "(start, v) \<in> (dg_rel g)\<^sup>*" "v < length (dfs_visited d)"
  proof -
    have "v \<in> set (dfs_stack d)" unfolding Cons.hyps(2) [symmetric] by simp
    then show "v \<in> set (node_indices g)" "(start, v) \<in> (dg_rel g)\<^sup>*" using Cons.prems by (simp_all add: dfs_ok_def)
    then show "v < length (dfs_visited d)"
      using node_indices_less [of v g] Cons.prems by (simp add: dfs_ok_def raw_node_count_def)
  qed
  show ?case
  proof (cases "dfs_visited d ! v")
    case True
    let ?d = "d\<lparr>dfs_stack := stack\<rparr>"
    have wv: "was_visited ?d = was_visited d" by (simp add: fun_eq_iff was_visited_nth)
    have "was_visited d v" using True v(3) by (simp add: was_visited_nth)
    then have "u \<in> set stack \<or> was_visited d u \<longleftrightarrow> u \<in> set (dfs_stack d) \<or> was_visited d u" for u
      unfolding Cons.hyps(2) [symmetric] by auto
    then have "dfs_ok g start ?d"
      using Cons.prems unfolding dfs_ok_def wv by (simp add: disj_commute)
    moreover have "move_next g d = move_next g ?d"
      using Cons.hyps(2) [symmetric] True v(3) by (simp add: move_next_def)
    moreover have "dfs_visited ?d = dfs_visited d" by simp
    ultimately show ?thesis using Cons.hyps(1) [of ?d] unfolding wv by (simp cong: option.case_cong)
  next
    case False
    let ?visited = "(dfs_visited d)[v := True]"
    let ?stack = "rev (filter (\<lambda>w. \<not> ?visited ! w) (dg_succ g v)) @ stack"
    let ?d = "\<lparr>dfs_stack = ?stack, dfs_visited = ?visited\<rparr>"
    have live: "w \<in> set (node_indices g)" "(start, w) \<in> (dg_rel g)\<^sup>*" "w < length (dfs_visited d)"
      if "w \<in> set (dg_succ g v)" for w
    proof -
      have vw: "(v, w) \<in> dg_rel g" using that dg_succ_rel [OF g] by simp
      then show w: "w \<in> set (node_indices g)" using dg_rel_live [OF g] by blast
      show "(start, w) \<in> (dg_rel g)\<^sup>*" using v(2) vw by (rule rtrancl_into_rtrancl)
      show "w < length (dfs_visited d)"
        using node_indices_less [OF w] Cons.prems by (simp add: dfs_ok_def raw_node_count_def)
    qed
    then have push: "push_unvisited (dg_succ g v) ?visited stack = Inr ?stack"
      by (intro push_unvisited_ok) simp
    have run: "move_next g d = Inr (Some v, ?d)"
      using Cons.hyps(2) [symmetric] False v(3) push by (simp add: move_next_def Let_def)
    have vis: "was_visited ?d u \<longleftrightarrow> u = v \<or> was_visited d u" for u
      using v(3) by (auto simp: was_visited_nth nth_list_update)
    have mem: "u \<in> set (dfs_stack d) \<longleftrightarrow> u = v \<or> u \<in> set stack" for u
      unfolding Cons.hyps(2) [symmetric] by simp
    have old: "u \<in> set (node_indices g) \<and> (start, u) \<in> (dg_rel g)\<^sup>*" if "u \<in> set (dfs_stack d) \<or> was_visited d u" for u
      using Cons.prems that unfolding dfs_ok_def by blast
    have closed: "w \<in> set (dfs_stack d) \<or> was_visited d w" if "was_visited d u" "(u, w) \<in> dg_rel g" for u w
      using Cons.prems that unfolding dfs_ok_def by blast
    have "dfs_ok g start ?d"
      unfolding dfs_ok_def
    proof (intro conjI allI impI)
      show "length (dfs_visited ?d) = raw_node_count g" using Cons.prems by (simp add: dfs_ok_def)
    next
      fix u assume "u \<in> set (dfs_stack ?d) \<or> was_visited ?d u"
      then have "u \<in> set (dg_succ g v) \<or> u \<in> set (dfs_stack d) \<or> was_visited d u"
        unfolding vis mem by auto
      then show "u \<in> set (node_indices g)" "(start, u) \<in> (dg_rel g)\<^sup>*" using old live(1,2) by blast+
    next
      fix u w assume u: "was_visited ?d u" "(u, w) \<in> dg_rel g"
      show "was_visited ?d w \<or> w \<in> set (dfs_stack ?d)"
      proof (cases "u = v")
        case True
        then have "w \<in> set (dg_succ g v)" using u(2) dg_succ_rel [OF g] by simp
        then show ?thesis using live(3) by (auto simp: was_visited_nth)
      next
        case False
        then show ?thesis using closed [of u w] u unfolding vis mem by auto
      qed
    next
      have "was_visited d start \<or> start \<in> set (dfs_stack d)" using Cons.prems by (simp add: dfs_ok_def)
      then show "was_visited ?d start \<or> start \<in> set (dfs_stack ?d)" unfolding vis mem by auto
    qed
    with run vis False show ?thesis by (intro exI [of _ "Some v"] exI [of _ ?d]) (simp add: was_visited_nth)
  qed
qed

lemma dfs_collect_ok:
  assumes "digraph_ok g" "dfs_ok g start d"
  shows "\<exists>vs d'. dfs_collect g d = Inr (vs, d') \<and> dfs_ok g start d' \<and> dfs_stack d' = [] \<and> distinct vs \<and>
    (\<forall>v. was_visited d' v \<longleftrightarrow> v \<in> set vs \<or> was_visited d v) \<and> (\<forall>v \<in> set vs. \<not> was_visited d v)"
  using assms
proof (induction g d rule: dfs_collect.induct)
  case (1 g d)
  obtain r d1 where m: "move_next g d = Inr (r, d1)" "dfs_ok g start d1"
    "case r of None \<Rightarrow> dfs_stack d1 = [] \<and> dfs_visited d1 = dfs_visited d
     | Some v \<Rightarrow> \<not> was_visited d v \<and> (\<forall>u. was_visited d1 u \<longleftrightarrow> u = v \<or> was_visited d u)"
    using move_next_ok [OF 1(2,3)] by blast
  show ?case
  proof (cases r)
    case None
    then show ?thesis using m by (intro exI [of _ "[]"] exI [of _ d1]) (simp add: dfs_collect.simps [of g d] was_visited_nth)
  next
    case (Some v)
    obtain vs d2 where "dfs_collect g d1 = Inr (vs, d2)" "dfs_ok g start d2" "dfs_stack d2 = []" "distinct vs"
      "\<forall>u. was_visited d2 u \<longleftrightarrow> u \<in> set vs \<or> was_visited d1 u" "\<forall>u \<in> set vs. \<not> was_visited d1 u"
      using 1(1) [OF m(1) refl Some 1(2) m(2)] by blast
    then show ?thesis using m Some
      by (intro exI [of _ "v # vs"] exI [of _ d2]) (auto simp: dfs_collect.simps [of g d])
  qed
qed

text \<open>
  C23. On every graph built by the mutating operations a depth first iterator, new or reset, panics at no step
  and ends: it answers every node reachable from its start exactly once, and no other; from a node that is not
  in the graph it answers nothing.
\<close>

theorem dfs_correct:
  assumes "dg_reachable g"
  shows "\<exists>vs d'. dfs_collect g (dfs_new g start) = Inr (vs, d') \<and> dfs_collect g (dfs_reset g start d) = Inr (vs, d') \<and>
    distinct vs \<and> set vs = (if contains_node start g then (dg_rel g)\<^sup>* `` {start} else {}) \<and>
    (\<forall>v. was_visited d' v \<longleftrightarrow> v \<in> set vs)"
proof (cases "contains_node start g")
  case True
  have g: "digraph_ok g" by (rule dg_reachable_ok [OF assms])
  have new: "\<not> was_visited (dfs_new g start) v" for v by (simp add: was_visited_nth dfs_new_def)
  have "dfs_ok g start (dfs_new g start)"
    using True new by (auto simp: dfs_ok_def dfs_new_def node_indices_live contains_node_map)
  from dfs_collect_ok [OF g this] obtain vs d' where
    r: "dfs_collect g (dfs_new g start) = Inr (vs, d')" "dfs_ok g start d'" "dfs_stack d' = []" "distinct vs"
      "\<forall>v. was_visited d' v \<longleftrightarrow> v \<in> set vs" using new by auto
  have "set vs \<subseteq> (dg_rel g)\<^sup>* `` {start}" using r(2,5) by (auto simp: dfs_ok_def)
  moreover have "v \<in> set vs" if "(start, v) \<in> (dg_rel g)\<^sup>*" for v
    using that
  proof (induction rule: rtrancl_induct)
    case base
    then show ?case using r(2,3,5) by (simp add: dfs_ok_def)
  next
    case (step u v)
    then show ?case using r(2,3,5) by (auto simp: dfs_ok_def)
  qed
  ultimately show ?thesis using True r by (auto simp: dfs_reset_new)
next
  case False
  let ?d = "dfs_new g start"
  have "dfs_collect g ?d = Inr ([], ?d)" "dfs_stack ?d = []"
    using False by (simp_all add: dfs_collect.simps [of g "dfs_new g start"] move_next_def, simp_all add: dfs_new_def)
  then show ?thesis using False
    by (intro exI [of _ "[]"] exI [of _ ?d]) (simp add: dfs_reset_new was_visited_nth, simp add: dfs_new_def)
qed

lemma dfs_correct_witness:
  "\<exists>vs d'. dfs_collect small_graph (dfs_new small_graph 0) = Inr (vs, d') \<and>
     dfs_collect small_graph (dfs_reset small_graph 0 (dfs_new small_graph 1)) = Inr (vs, d') \<and> distinct vs \<and>
     set vs = (dg_rel small_graph)\<^sup>* `` {0}"
proof -
  have "contains_node 0 small_graph" by code_simp
  then show ?thesis using dfs_correct [OF small_graph_reachable, of 0 "dfs_new small_graph 1"] by auto
qed

end
