(* ===== verification/Graph_Index.thy ===== *)
theory Graph_Index
  imports Utf8 "HOL-Library.AList" "HOL-Library.Sublist" "HOL-Library.Multiset"
begin

text \<open>
  The indexes of the native backend from kinds and names to node ids (\<open>v3/kind_index.rs\<close>,
  \<open>v3/name_index.rs\<close>) and their sidecar file (\<open>v3/index_persistence.rs\<close>). A hash map is its list of
  entries; where the code walks through one, \<open>order\<close> is the order in which the entries come. Strings are
  the bytes of their UTF-8 encoding, for which a substring is a part of the bytes.
\<close>

section \<open>The indexes\<close>

type_synonym id_index = "(bytes \<times> i64 list) list"

definition index_get :: "bytes \<Rightarrow> id_index \<Rightarrow> i64 list" where
  "index_get k ix = (case map_of ix k of None \<Rightarrow> [] | Some is \<Rightarrow> is)"

definition index_insert :: "bytes \<Rightarrow> i64 \<Rightarrow> id_index \<Rightarrow> id_index" where
  "index_insert k i ix = AList.update k (index_get k ix @ [i]) ix"

definition all_kinds :: "(id_index \<Rightarrow> id_index) \<Rightarrow> id_index \<Rightarrow> bytes list" where
  "all_kinds order ix = map fst (order ix)"

definition kind_count :: "id_index \<Rightarrow> nat" where
  "kind_count ix = length ix"

definition total_nodes :: "id_index \<Rightarrow> nat" where
  "total_nodes ix = sum_list (map (\<lambda>(_, is). length is) ix)"

fun collect_ids :: "(bytes \<Rightarrow> bool) \<Rightarrow> id_index \<Rightarrow> i64 list" where
  "collect_ids P [] = []"
| "collect_ids P ((k, is) # ix) = (if P k then is @ collect_ids P ix else collect_ids P ix)"

definition get_prefix :: "(id_index \<Rightarrow> id_index) \<Rightarrow> bytes \<Rightarrow> id_index \<Rightarrow> i64 list" where
  "get_prefix order p ix = collect_ids (prefix p) (order ix)"

definition get_substring :: "(id_index \<Rightarrow> id_index) \<Rightarrow> bytes \<Rightarrow> id_index \<Rightarrow> i64 list" where
  "get_substring order p ix = collect_ids (sublist p) (order ix)"

definition name_stats :: "id_index \<Rightarrow> nat \<times> nat" where
  "name_stats ix = (length ix, sum_list (map (\<lambda>(_, is). length is) ix))"

definition permutes :: "('a list \<Rightarrow> 'a list) \<Rightarrow> bool" where
  "permutes order \<longleftrightarrow> (\<forall>xs. mset (order xs) = mset xs)"

lemma permutes_id [simp]: "permutes (\<lambda>xs. xs)" "permutes rev"
  by (simp_all add: permutes_def)

lemma index_get_insert: "index_get k (index_insert k' i ix) = (if k = k' then index_get k ix @ [i] else index_get k ix)"
  by (simp add: index_get_def index_insert_def update_conv')

lemma distinct_index_insert: "distinct (map fst ix) \<Longrightarrow> distinct (map fst (index_insert k i ix))"
  by (simp add: index_insert_def distinct_update)

lemma collect_update:
  "mset (collect_ids P (AList.update k (index_get k ix @ [i]) ix)) = mset (collect_ids P ix) + (if P k then {#i#} else {#})"
proof (induction ix)
  case (Cons e ix)
  then show ?case by (cases e) (auto simp: index_get_def split: option.splits if_splits)
qed (simp add: index_get_def)

lemma collect_mset: "mset ix = mset ix' \<Longrightarrow> mset (collect_ids P ix) = mset (collect_ids P ix')"
proof -
  have "mset (collect_ids P ix) = (\<Sum>(k, is) \<in># mset ix. if P k then mset is else {#})" for ix
    by (induction P ix rule: collect_ids.induct) simp_all
  then show "mset ix = mset ix' \<Longrightarrow> ?thesis" by simp
qed

text \<open>The index of a list of entries, in the order they were inserted.\<close>

fun index_of :: "(bytes \<times> i64) list \<Rightarrow> id_index \<Rightarrow> id_index" where
  "index_of [] ix = ix"
| "index_of ((k, i) # ps) ix = index_of ps (index_insert k i ix)"

lemma index_get_of: "index_get k (index_of ps ix) = index_get k ix @ map snd (filter (\<lambda>p. fst p = k) ps)"
  by (induction ps ix rule: index_of.induct) (auto simp: index_get_insert)

lemma collect_of: "mset (collect_ids P (index_of ps ix)) =
    mset (collect_ids P ix) + mset (map snd (filter (\<lambda>p. P (fst p)) ps))"
  by (induction ps ix rule: index_of.induct) (auto simp: index_insert_def collect_update)

lemma distinct_index_of: "distinct (map fst ix) \<Longrightarrow> distinct (map fst (index_of ps ix))"
  by (induction ps ix rule: index_of.induct) (simp_all add: distinct_index_insert)

section \<open>The sidecar file\<close>

datatype index_error = Index_Io | Index_Magic bytes | Index_Version u32 | Index_Corrupted string

definition INDEX_MAGIC :: bytes where "INDEX_MAGIC = [0x56, 0x33, 0x58, 0x49]"
definition INDEX_VERSION :: u32 where "INDEX_VERSION = 1"

definition index_entry_bytes :: "bytes \<times> i64 list \<Rightarrow> bytes" where
  "index_entry_bytes e = to_be (of_nat (length (fst e)) :: u32) @ fst e @ to_be (of_nat (length (snd e)) :: u32) @
     concat (map to_be (snd e))"

definition entries_bytes :: "id_index \<Rightarrow> bytes" where
  "entries_bytes es = to_be (of_nat (length es) :: u32) @ concat (map index_entry_bytes es)"

definition persist_indexes :: "(id_index \<Rightarrow> id_index) \<Rightarrow> id_index \<Rightarrow> id_index \<Rightarrow> u64 \<Rightarrow> bytes" where
  "persist_indexes order kinds names node_count = INDEX_MAGIC @ to_be INDEX_VERSION @ to_be node_count @
     entries_bytes (order kinds) @ entries_bytes (order names)"

text \<open>Reading keeps a cursor into what is left of the file.\<close>

type_synonym 'a reader = "bytes \<Rightarrow> index_error + 'a \<times> bytes"

definition bindP :: "'a reader \<Rightarrow> ('a \<Rightarrow> 'b reader) \<Rightarrow> 'b reader" where
  "bindP r f bs = (case r bs of Inl e \<Rightarrow> Inl e | Inr (x, bs') \<Rightarrow> f x bs')"

definition returnP :: "'a \<Rightarrow> 'a reader" where
  "returnP x bs = Inr (x, bs)"

definition read_bytes :: "string \<Rightarrow> nat \<Rightarrow> bytes reader" where
  "read_bytes err n bs = (if length bs < n then Inl (Index_Corrupted err) else Inr (take n bs, drop n bs))"

definition read_u32 :: "nat reader" where
  "read_u32 = bindP (read_bytes ''Unexpected EOF'' 4) (\<lambda>b. returnP (unat (from_be b :: u32)))"

fun read_ids :: "nat \<Rightarrow> i64 list reader" where
  "read_ids 0 = returnP []"
| "read_ids (Suc n) = bindP (read_bytes ''Unexpected EOF'' 8) (\<lambda>b. bindP (read_ids n) (\<lambda>is. returnP (from_be b # is)))"

definition read_string :: "string \<Rightarrow> nat \<Rightarrow> bytes reader" where
  "read_string err n = bindP (read_bytes ''Unexpected EOF'' n)
     (\<lambda>b bs. if utf8_valid b then Inr (b, bs) else Inl (Index_Corrupted err))"

definition read_entry :: "string \<Rightarrow> (bytes \<times> i64 list) reader" where
  "read_entry err = bindP read_u32 (\<lambda>n. bindP (read_string err n) (\<lambda>k. bindP read_u32 (\<lambda>c. bindP (read_ids c) (\<lambda>is. returnP (k, is)))))"

fun read_index_entries :: "string \<Rightarrow> nat \<Rightarrow> id_index \<Rightarrow> id_index reader" where
  "read_index_entries err 0 ix = returnP ix"
| "read_index_entries err (Suc n) ix = bindP (read_entry err) (\<lambda>(k, is). read_index_entries err n (AList.update k is ix))"

definition read_magic :: "unit reader" where
  "read_magic = bindP (read_bytes ''Failed to read magic'' 4)
     (\<lambda>m bs. if m = INDEX_MAGIC then Inr ((), bs) else Inl (Index_Magic m))"

definition read_version :: "unit reader" where
  "read_version = bindP (read_bytes ''Failed to read version'' 4)
     (\<lambda>b bs. if from_be b = INDEX_VERSION then Inr ((), bs) else Inl (Index_Version (from_be b)))"

definition read_count :: "u64 \<Rightarrow> unit reader" where
  "read_count node_count = bindP (read_bytes ''Failed to read stored node count'' 8)
     (\<lambda>b bs. if from_be b = node_count then Inr ((), bs) else Inl (Index_Corrupted ''Stale index''))"

definition index_reader :: "u64 \<Rightarrow> (id_index \<times> id_index) reader" where
  "index_reader node_count =
     bindP read_magic (\<lambda>_. bindP read_version (\<lambda>_. bindP (read_count node_count) (\<lambda>_.
     bindP read_u32 (\<lambda>kn. bindP (read_index_entries ''Invalid UTF-8 in kind'' kn []) (\<lambda>kinds.
     bindP read_u32 (\<lambda>nn. bindP (read_index_entries ''Invalid UTF-8 in name'' nn []) (\<lambda>names. returnP (kinds, names))))))))"

definition restore_indexes :: "bytes option \<Rightarrow> u64 \<Rightarrow> index_error + id_index \<times> id_index" where
  "restore_indexes file node_count =
     (case file of None \<Rightarrow> Inl (Index_Corrupted ''Index file not found'')
      | Some bs \<Rightarrow> map_sum id fst (index_reader node_count bs))"

section \<open>Readers\<close>

text \<open>
  A reader only looks at what it takes: what follows is left to the next one. So a file that is read to its end
  has no proper prefix that can be read.
\<close>

locale cursor_reader =
  fixes r :: "'a reader"
  assumes extend: "r bs = Inr (x, rest) \<Longrightarrow> r (bs @ more) = Inr (x, rest @ more)"
begin

lemma exact: "r bs = Inr (x, []) \<Longrightarrow> r (bs @ more) = Inr (x, more)"
  using extend by fastforce

lemma no_prefix:
  assumes "r bs = Inr (x, [])" "strict_prefix p bs"
  shows "\<exists>e. r p = Inl e"
proof (cases "r p")
  case (Inr y)
  obtain more where "bs = p @ more" "more \<noteq> []" using assms(2) by (auto simp: strict_prefix_def prefix_def)
  with extend [of p "fst y" "snd y" more] Inr assms(1) show ?thesis by simp
qed simp

end

named_theorems reader_intros

lemma reader_bind [reader_intros]:
  assumes "cursor_reader r" "\<And>x. cursor_reader (f x)"
  shows "cursor_reader (bindP r f)"
proof
  fix bs x rest more assume "bindP r f bs = Inr (x, rest)"
  then obtain y mid where y: "r bs = Inr (y, mid)" "f y mid = Inr (x, rest)"
    by (auto simp: bindP_def split: sum.splits)
  with cursor_reader.extend [OF assms(1) y(1), of more] cursor_reader.extend [OF assms(2) y(2), of more]
  show "bindP r f (bs @ more) = Inr (x, rest @ more)" by (simp add: bindP_def)
qed

lemma reader_return [reader_intros]: "cursor_reader (returnP x)"
  by unfold_locales (auto simp: returnP_def)

lemma reader_bytes [reader_intros]: "cursor_reader (read_bytes err n)"
  by unfold_locales (auto simp: read_bytes_def split: if_splits)

lemma reader_check [reader_intros]: "cursor_reader (\<lambda>bs. if P then Inr (x, bs) else Inl e)"
  by unfold_locales (auto split: if_splits)

lemma reader_u32 [reader_intros]: "cursor_reader read_u32"
  unfolding read_u32_def by (intro reader_intros)

lemma reader_ids [reader_intros]: "cursor_reader (read_ids n)"
  by (induction n) (simp_all add: reader_intros)

lemma reader_string [reader_intros]: "cursor_reader (read_string err n)"
  unfolding read_string_def by (intro reader_intros)

lemma reader_entry [reader_intros]: "cursor_reader (read_entry err)"
  unfolding read_entry_def by (intro reader_intros)

lemma reader_entries [reader_intros]: "cursor_reader (read_index_entries err n ix)"
proof (induction n arbitrary: ix)
  case (Suc n)
  then show ?case by (auto intro!: reader_intros split: prod.split)
qed (simp add: reader_intros)

interpretation index_file: cursor_reader "index_reader n" for n
  unfolding index_reader_def read_magic_def read_version_def read_count_def by (intro reader_intros)

text \<open>What was written is read back.\<close>

definition parses :: "'a reader \<Rightarrow> bytes \<Rightarrow> 'a \<Rightarrow> bool" where
  "parses r bs x \<longleftrightarrow> (\<forall>more. r (bs @ more) = Inr (x, more))"

lemma parses_bind: "parses r bs x \<Longrightarrow> parses (f x) bs' y \<Longrightarrow> bs'' = bs @ bs' \<Longrightarrow> parses (bindP r f) bs'' y"
  by (simp add: parses_def bindP_def)

lemma parses_return: "parses (returnP x) [] x"
  by (simp add: parses_def returnP_def)

lemma parses_bytes: "length bs = n \<Longrightarrow> parses (read_bytes err n) bs bs"
  by (simp add: parses_def read_bytes_def)

lemma parses_check: "P \<Longrightarrow> parses (\<lambda>bs. if P then Inr (x, bs) else Inl e) [] x"
  by (simp add: parses_def)

lemma parses_u32: "n < 2 ^ 32 \<Longrightarrow> parses read_u32 (to_be (of_nat n :: u32)) n"
  by (simp add: parses_def read_u32_def bindP_def read_bytes_def returnP_def byte_simps unat_of_nat_u32)

lemma parses_ids: "parses (read_ids (length is)) (concat (map to_be is)) is"
proof (induction "is")
  case (Cons i "is")
  have "parses (bindP (read_ids (length is)) (\<lambda>is. returnP (i # is))) (concat (map to_be is)) (i # is)"
    by (rule parses_bind [OF Cons parses_return]) simp
  then show ?case
    by (simp, intro parses_bind [OF parses_bytes]) (simp_all add: byte_simps)
qed (simp add: parses_return)

definition entry_ok :: "bytes \<times> i64 list \<Rightarrow> bool" where
  "entry_ok e \<longleftrightarrow> utf8_valid (fst e) \<and> length (fst e) < 2 ^ 32 \<and> length (snd e) < 2 ^ 32"

lemma parses_string: "utf8_valid k \<Longrightarrow> parses (read_string err (length k)) k k"
  unfolding read_string_def by (rule parses_bind [OF parses_bytes [OF refl] parses_check]) simp_all

lemma parses_entry:
  assumes "entry_ok e"
  shows "parses (read_entry err) (index_entry_bytes e) e"
proof -
  obtain k "is" where e: "e = (k, is)" by fastforce
  have ok: "utf8_valid k" "length k < 2 ^ 32" "length is < 2 ^ 32" using assms by (simp_all add: e entry_ok_def)
  have ids: "parses (bindP (read_ids (length is)) (\<lambda>is. returnP (k, is))) (concat (map to_be is)) e"
    unfolding e by (rule parses_bind [OF parses_ids parses_return]) simp
  have rest: "parses (bindP read_u32 (\<lambda>c. bindP (read_ids c) (\<lambda>is. returnP (k, is))))
      (to_be (of_nat (length is) :: u32) @ concat (map to_be is)) e"
    by (rule parses_bind) (rule parses_u32 [OF ok(3)], rule ids, rule refl)
  have "parses (bindP (read_string err (length k)) (\<lambda>k. bindP read_u32 (\<lambda>c. bindP (read_ids c) (\<lambda>is. returnP (k, is)))))
      (k @ to_be (of_nat (length is) :: u32) @ concat (map to_be is)) e"
    by (rule parses_bind) (rule parses_string [OF ok(1)], rule rest, rule refl)
  then show ?thesis
    unfolding read_entry_def by (rule parses_bind [OF parses_u32 [OF ok(2)]]) (simp add: e index_entry_bytes_def)
qed

lemma parses_entries:
  "\<forall>e \<in> set es. entry_ok e \<Longrightarrow>
   parses (read_index_entries err (length es) ix) (concat (map index_entry_bytes es)) (fold (\<lambda>(k, is). AList.update k is) es ix)"
proof (induction es arbitrary: ix)
  case (Cons e es)
  have "parses ((\<lambda>(k, is). read_index_entries err (length es) (AList.update k is ix)) e) (concat (map index_entry_bytes es))
      (fold (\<lambda>(k, is). AList.update k is) (e # es) ix)"
    using Cons by (cases e) simp
  moreover have "parses (read_entry err) (index_entry_bytes e) e" using Cons(2) by (simp add: parses_entry)
  ultimately show ?case by (auto intro: parses_bind)
qed (simp add: parses_return)

lemma fold_update_map: "map_of (fold (\<lambda>(k, v). AList.update k v) es ix) = map_of ix ++ map_of (rev es)"
  by (induction es arbitrary: ix) (auto simp: update_conv' map_add_def fun_eq_iff split: option.split)

lemma distinct_fold_update:
  "distinct (map fst ix) \<Longrightarrow> distinct (map fst (fold (\<lambda>(k, v). AList.update k v) es ix))"
  by (induction es arbitrary: ix) (auto simp: distinct_update)

lemma map_of_mset:
  assumes "mset xs = mset ys" "distinct (map fst ys)"
  shows "map_of xs = map_of ys"
proof -
  have d: "distinct (map fst xs)" using assms by (metis mset_eq_imp_distinct_iff mset_map)
  have "map_of xs k = Some v \<longleftrightarrow> map_of ys k = Some v" for k v
    using assms(1) by (simp add: map_of_eq_Some_iff d assms(2) mset_eq_setD [OF assms(1)])
  then show ?thesis by (metis ext option.exhaust)
qed

lemma parses_check_bind: "parses (read_bytes err n) bs b \<Longrightarrow> P b \<Longrightarrow>
    parses (bindP (read_bytes err n) (\<lambda>b bs. if P b then Inr (x, bs) else Inl (e b))) bs x"
  by (simp add: parses_def bindP_def)

lemma parses_magic: "parses read_magic INDEX_MAGIC ()"
  unfolding read_magic_def by (rule parses_check_bind [OF parses_bytes]) (simp_all add: INDEX_MAGIC_def)

lemma parses_version: "parses read_version (to_be INDEX_VERSION) ()"
  unfolding read_version_def by (rule parses_check_bind [OF parses_bytes]) (simp_all add: byte_simps)

lemma parses_count: "parses (read_count c) (to_be c) ()"
  unfolding read_count_def by (rule parses_check_bind [OF parses_bytes]) (simp_all add: byte_simps)

definition index_ok :: "id_index \<Rightarrow> bool" where
  "index_ok ix \<longleftrightarrow> (\<forall>e \<in> set ix. entry_ok e) \<and> length ix < 2 ^ 32 \<and> distinct (map fst ix)"

abbreviation restored :: "id_index \<Rightarrow> id_index" where
  "restored es \<equiv> fold (\<lambda>(k, is). AList.update k is) es []"

lemma parses_index:
  assumes "index_ok es" "f = (\<lambda>n. bindP (read_index_entries err n []) g)" "parses (g (restored es)) bs y"
  shows "parses (bindP read_u32 f) (entries_bytes es @ bs) y"
proof -
  have ok: "\<forall>e \<in> set es. entry_ok e" "length es < 2 ^ 32" using assms(1) by (simp_all add: index_ok_def)
  have "parses (f (length es)) (concat (map index_entry_bytes es) @ bs) y"
    unfolding assms(2) by (rule parses_bind) (rule parses_entries [OF ok(1)], rule assms(3), rule refl)
  then show ?thesis by (rule parses_bind [OF parses_u32 [OF ok(2)]]) (simp add: entries_bytes_def)
qed

lemma parses_file:
  assumes "index_ok ks" "index_ok ns"
  shows "parses (index_reader c) (INDEX_MAGIC @ to_be INDEX_VERSION @ to_be c @ entries_bytes ks @ entries_bytes ns)
    (restored ks, restored ns)"
  unfolding index_reader_def
proof (rule parses_bind [OF parses_magic parses_bind [OF parses_version parses_bind [OF parses_count]]])
  show "parses (bindP read_u32 (\<lambda>kn. bindP (read_index_entries ''Invalid UTF-8 in kind'' kn []) (\<lambda>kinds.
     bindP read_u32 (\<lambda>nn. bindP (read_index_entries ''Invalid UTF-8 in name'' nn []) (\<lambda>names. returnP (kinds, names))))))
     (entries_bytes ks @ entries_bytes ns @ []) (restored ks, restored ns)"
    by (rule parses_index [OF assms(1) refl], rule parses_index [OF assms(2) refl], rule parses_return)
qed simp_all

lemma index_ok_order: "permutes order \<Longrightarrow> index_ok ix \<Longrightarrow> index_ok (order ix)"
  unfolding index_ok_def permutes_def by (metis mset_eq_imp_distinct_iff mset_eq_length mset_eq_setD mset_map)

lemma restored_map:
  assumes "permutes order" "index_ok ix"
  shows "map_of (restored (order ix)) = map_of ix" "distinct (map fst (restored (order ix)))"
proof -
  have "mset (rev (order ix)) = mset ix" using assms(1) by (simp add: permutes_def)
  then show "map_of (restored (order ix)) = map_of ix"
    using assms(2) map_of_mset [of "rev (order ix)" ix] by (simp add: fold_update_map index_ok_def del: mset_rev)
qed (simp add: distinct_fold_update)

section \<open>What holds\<close>

text \<open>
  C37. The indexes find what was inserted: the ids of a kind or a name come in the order of their insertion, and a
  search for a prefix or a part of the name gives exactly the ids of the matching names.
\<close>

theorem index_finds_inserted:
  assumes "permutes order"
  shows "index_get k (index_of ps []) = map snd (filter (\<lambda>p. fst p = k) ps) \<and>
    mset (get_prefix order k (index_of ps [])) = mset (map snd (filter (\<lambda>p. prefix k (fst p)) ps)) \<and>
    mset (get_substring order k (index_of ps [])) = mset (map snd (filter (\<lambda>p. sublist k (fst p)) ps))"
proof -
  have "mset (collect_ids P (order (index_of ps []))) = mset (map snd (filter (\<lambda>p. P (fst p)) ps))" for P
    using assms collect_mset [of "order (index_of ps [])" "index_of ps []" P] collect_of [of P ps "[]"]
    by (simp add: permutes_def)
  then show ?thesis by (simp add: get_prefix_def get_substring_def index_get_of) (simp add: index_get_def)
qed

lemma index_finds_inserted_witness:
  "permutes (rev :: id_index \<Rightarrow> id_index) \<and>
   mset (get_prefix rev [0x66] (index_of [([0x66, 0x31], 1), ([0x67], 2), ([0x66], 3)] [])) = {#1, 3#}"
  using index_finds_inserted [of rev "[0x66]" "[([0x66, 0x31], 1), ([0x67], 2), ([0x66], 3)]"] by simp

text \<open>
  C36. The sidecar file gives the indexes back, whatever the order in which the hash maps are walked, when the
  node count is that of the database; with another count the file is refused as stale.
\<close>

theorem index_file_roundtrip:
  assumes "permutes order" "index_ok kinds" "index_ok names"
  shows "(\<exists>kinds' names'. restore_indexes (Some (persist_indexes order kinds names c)) c = Inr (kinds', names') \<and>
      map_of kinds' = map_of kinds \<and> map_of names' = map_of names) \<and>
    (c' \<noteq> c \<longrightarrow> restore_indexes (Some (persist_indexes order kinds names c)) c' = Inl (Index_Corrupted ''Stale index''))"
proof (intro conjI impI)
  note ok = index_ok_order [OF assms(1)]
  have "index_reader c (persist_indexes order kinds names c) = Inr ((restored (order kinds), restored (order names)), [])"
    using parses_file [OF ok [OF assms(2)] ok [OF assms(3)], of c]
    by (simp add: parses_def persist_indexes_def) (metis append.right_neutral append_assoc)
  then have "restore_indexes (Some (persist_indexes order kinds names c)) c = Inr (restored (order kinds), restored (order names))"
    by (simp add: restore_indexes_def)
  then show "\<exists>kinds' names'. restore_indexes (Some (persist_indexes order kinds names c)) c = Inr (kinds', names') \<and>
      map_of kinds' = map_of kinds \<and> map_of names' = map_of names"
    using restored_map(1) assms by blast
next
  assume "c' \<noteq> c"
  then have "read_count c' (to_be c @ bs) = Inl (Index_Corrupted ''Stale index'')" for bs
    by (simp add: read_count_def bindP_def read_bytes_def byte_simps)
  then show "restore_indexes (Some (persist_indexes order kinds names c)) c' = Inl (Index_Corrupted ''Stale index'')"
    using parses_magic parses_version
    by (simp add: restore_indexes_def persist_indexes_def index_reader_def bindP_def parses_def)
qed

lemma index_file_roundtrip_witness:
  "(\<exists>kinds' names'. restore_indexes (Some (persist_indexes rev [([0x66], [1, 2])] [] 2)) 2 = Inr (kinds', names') \<and>
      map_of kinds' = map_of [([0x66], [1, 2])] \<and> map_of names' = map_of []) \<and>
    restore_indexes (Some (persist_indexes rev [([0x66], [1, 2])] [] 2)) 3 = Inl (Index_Corrupted ''Stale index'')"
proof -
  have "index_ok [([0x66], [1, 2])]" "index_ok []" by (simp_all add: index_ok_def entry_ok_def utf8_valid_ascii)
  from index_file_roundtrip [OF permutes_id(2) this, of 2 3] show ?thesis by simp
qed

text \<open>A sidecar file that was cut short is never taken for an index: every proper prefix of it is refused.\<close>

theorem cut_index_refused:
  assumes "permutes order" "index_ok kinds" "index_ok names" "strict_prefix bs (persist_indexes order kinds names c)"
  shows "\<exists>e. restore_indexes (Some bs) c = Inl e"
proof -
  note ok = index_ok_order [OF assms(1)]
  have "index_reader c (persist_indexes order kinds names c) = Inr ((restored (order kinds), restored (order names)), [])"
    using parses_file [OF ok [OF assms(2)] ok [OF assms(3)], of c]
    by (simp add: parses_def persist_indexes_def) (metis append.right_neutral append_assoc)
  from index_file.no_prefix [OF this assms(4)] show ?thesis by (auto simp: restore_indexes_def)
qed

lemma cut_index_refused_witness: "\<exists>e. restore_indexes (Some (INDEX_MAGIC @ to_be INDEX_VERSION)) 0 = Inl e"
proof -
  have "index_ok []" by (simp add: index_ok_def)
  moreover have "length (to_be (0 :: u64)) = 8" by (simp add: byte_simps)
  then have "strict_prefix (INDEX_MAGIC @ to_be INDEX_VERSION) (persist_indexes rev [] [] 0)"
    by (auto simp: strict_prefix_def persist_indexes_def)
  ultimately show ?thesis using cut_index_refused [OF permutes_id(2)] by blast
qed

end
