(* ===== verification/Kv_Store.thy ===== *)
theory Kv_Store
  imports Utf8 "HOL-Library.List_Lexorder"
begin

text \<open>
  The key-value store of \<open>kv_store/types.rs\<close> and \<open>kv_store/store.rs\<close>: for every key the list of its versions,
  read at a snapshot, with times to live, and its checkpoint format. The hash of a key (the standard library's
  \<open>DefaultHasher\<close>), the clock and \<open>serde_json\<close> are parameters; an \<open>f64\<close> is the word of its bits, a string its
  UTF-8 bytes.
\<close>

section \<open>Values\<close>

datatype 'j kv_value =
    Kv_Null
  | Kv_Bytes bytes
  | Kv_String bytes
  | Kv_Integer i64
  | Kv_Float u64
  | Kv_Boolean bool
  | Kv_Json 'j

record 'j json_codec =
  json_to_vec :: "'j \<Rightarrow> bytes option"
  json_from_slice :: "bytes \<Rightarrow> 'j option"

fun type_tag :: "'j kv_value \<Rightarrow> u8" where
  "type_tag Kv_Null = 0"
| "type_tag (Kv_Integer _) = 1"
| "type_tag (Kv_Float _) = 2"
| "type_tag (Kv_String _) = 3"
| "type_tag (Kv_Boolean _) = 4"
| "type_tag (Kv_Bytes _) = 5"
| "type_tag (Kv_Json _) = 6"

fun value_to_bytes :: "'j json_codec \<Rightarrow> 'j kv_value \<Rightarrow> bytes" where
  "value_to_bytes jc Kv_Null = []"
| "value_to_bytes jc (Kv_Integer v) = to_le v"
| "value_to_bytes jc (Kv_Float v) = to_le v"
| "value_to_bytes jc (Kv_String s) = s"
| "value_to_bytes jc (Kv_Boolean b) = [if b then 1 else 0]"
| "value_to_bytes jc (Kv_Bytes b) = b"
| "value_to_bytes jc (Kv_Json v) = (case json_to_vec jc v of None \<Rightarrow> [] | Some b \<Rightarrow> b)"

definition value_from_bytes :: "'j json_codec \<Rightarrow> bytes \<Rightarrow> u8 \<Rightarrow> 'j kv_value option" where
  "value_from_bytes jc bs tag =
     (if tag = 0 then Some Kv_Null
      else if tag = 1 \<and> 8 \<le> length bs then Some (Kv_Integer (from_le (slice bs 0 8)))
      else if tag = 2 \<and> 8 \<le> length bs then Some (Kv_Float (from_le (slice bs 0 8)))
      else if tag = 3 then (if utf8_valid bs then Some (Kv_String bs) else None)
      else if tag = 4 \<and> bs \<noteq> [] then Some (Kv_Boolean (hd bs \<noteq> 0))
      else if tag = 5 then Some (Kv_Bytes bs)
      else if tag = 6 then map_option Kv_Json (json_from_slice jc bs)
      else None)"

text \<open>A string holds UTF-8, and \<open>serde_json\<close> writes the value and reads back what it wrote.\<close>

fun value_ok :: "'j json_codec \<Rightarrow> 'j kv_value \<Rightarrow> bool" where
  "value_ok jc (Kv_String s) \<longleftrightarrow> utf8_valid s"
| "value_ok jc (Kv_Json v) \<longleftrightarrow> Option.bind (json_to_vec jc v) (json_from_slice jc) = Some v"
| "value_ok jc _ \<longleftrightarrow> True"

lemma slice_to_le: "slice (to_le (w :: u64)) 0 8 = to_le w"
  by (simp add: slice_def length_to_le)

lemma value_roundtrip: "value_ok jc v \<Longrightarrow> value_from_bytes jc (value_to_bytes jc v) (type_tag v) = Some v"
  by (cases v) (auto simp: value_from_bytes_def length_to_le slice_to_le split: option.splits bind_splits)

section \<open>Entries\<close>

record kv_metadata =
  created_at :: u64
  updated_at :: u64
  ttl_seconds :: "u64 option"
  version :: u64

record 'j kv_entry =
  entry_key :: bytes
  entry_value :: "'j kv_value"
  metadata :: kv_metadata

definition metadata_new :: "u64 \<Rightarrow> u64 \<Rightarrow> u64 option \<Rightarrow> kv_metadata" where
  "metadata_new now ver ttl = \<lparr>created_at = now, updated_at = now, ttl_seconds = ttl, version = ver\<rparr>"

definition is_expired_at :: "kv_metadata \<Rightarrow> u64 \<Rightarrow> bool" where
  "is_expired_at m now =
     (case ttl_seconds m of Some ttl \<Rightarrow> u64_saturating_add (updated_at m) ttl \<le> now | None \<Rightarrow> False)"

definition is_expired :: "u64 \<Rightarrow> 'j kv_entry \<Rightarrow> bool" where
  "is_expired now e = is_expired_at (metadata e) now"

definition kv_entry_new :: "u64 \<Rightarrow> bytes \<Rightarrow> 'j kv_value \<Rightarrow> u64 \<Rightarrow> u64 option \<Rightarrow> 'j kv_entry" where
  "kv_entry_new now key v ver ttl = \<lparr>entry_key = key, entry_value = v, metadata = metadata_new now ver ttl\<rparr>"

section \<open>The store\<close>

text \<open>From the hash of a key to its versions, oldest first.\<close>

type_synonym 'j kv_store = "u64 \<Rightarrow> 'j kv_entry list option"

definition kv_new :: "'j kv_store" where
  "kv_new = (\<lambda>_. None)"

definition get_at_snapshot :: "(bytes \<Rightarrow> u64) \<Rightarrow> u64 \<Rightarrow> bytes \<Rightarrow> u64 \<Rightarrow> 'j kv_store \<Rightarrow> 'j kv_value option" where
  "get_at_snapshot hash now key snapshot store =
     (case store (hash key) of
        None \<Rightarrow> None
      | Some versions \<Rightarrow>
          if snapshot = 0 then
            (if versions = [] \<or> is_expired now (last versions) then None else Some (entry_value (last versions)))
          else
            let idx = partition_point (\<lambda>e. version (metadata e) \<le> snapshot) versions
            in if idx = 0 then None
               else
                 let entry = versions ! (idx - 1)
                 in if is_expired now entry then None
                    else if entry_value entry = Kv_Null then None
                    else Some (entry_value entry))"

definition push_version :: "u64 \<Rightarrow> 'j kv_entry \<Rightarrow> 'j kv_store \<Rightarrow> 'j kv_store" where
  "push_version h entry store = store(h \<mapsto> (case store h of None \<Rightarrow> [] | Some versions \<Rightarrow> versions) @ [entry])"

definition kv_set :: "(bytes \<Rightarrow> u64) \<Rightarrow> u64 \<Rightarrow> bytes \<Rightarrow> 'j kv_value \<Rightarrow> u64 option \<Rightarrow> u64 \<Rightarrow> 'j kv_store \<Rightarrow> 'j kv_store" where
  "kv_set hash now key v ttl ver store =
     (let h = hash key;
          created = (case store h of None \<Rightarrow> now | Some versions \<Rightarrow>
            if versions = [] then now else created_at (metadata (last versions)));
          entry = \<lparr>entry_key = key, entry_value = v,
            metadata = \<lparr>created_at = created, updated_at = now, ttl_seconds = ttl, version = ver\<rparr>\<rparr>
      in push_version h entry store)"

definition kv_delete :: "(bytes \<Rightarrow> u64) \<Rightarrow> u64 \<Rightarrow> bytes \<Rightarrow> u64 \<Rightarrow> 'j kv_store \<Rightarrow> 'j kv_store" where
  "kv_delete hash now key ver store = push_version (hash key) (kv_entry_new now key Kv_Null ver None) store"

text \<open>The order in which the hash map is walked is the list \<open>order\<close> of its keys.\<close>

definition starts_with :: "bytes \<Rightarrow> bytes \<Rightarrow> bool" where
  "starts_with key prefix \<longleftrightarrow> take (length prefix) key = prefix"

definition scan_entry :: "u64 \<Rightarrow> bytes \<Rightarrow> u64 \<Rightarrow> 'j kv_entry list \<Rightarrow> (bytes \<times> 'j kv_value) option" where
  "scan_entry now prefix snapshot versions =
     (if versions = [] then None
      else
        let entry = last versions
        in if starts_with (entry_key entry) prefix \<and> version (metadata entry) \<le> snapshot \<and>
              \<not> is_expired now entry \<and> entry_value entry \<noteq> Kv_Null
           then Some (entry_key entry, entry_value entry) else None)"

definition prefix_scan :: "u64 list \<Rightarrow> u64 \<Rightarrow> bytes \<Rightarrow> u64 \<Rightarrow> 'j kv_store \<Rightarrow> (bytes \<times> 'j kv_value) list" where
  "prefix_scan order now prefix snapshot store =
     sort_key fst (List.map_filter (\<lambda>h. Option.bind (store h) (scan_entry now prefix snapshot)) order)"

section \<open>The checkpoint format\<close>

definition u16_len :: "nat \<Rightarrow> u16" where
  "u16_len n = (if n < 2 ^ 16 then of_nat n else - 1)"

definition u32_len :: "nat \<Rightarrow> u32" where
  "u32_len n = (if n < 2 ^ 32 then of_nat n else - 1)"

definition entry_bytes :: "'j json_codec \<Rightarrow> 'j kv_entry \<Rightarrow> bytes" where
  "entry_bytes jc e =
     (let value_bytes = value_to_bytes jc (entry_value e)
      in to_le (u16_len (length (entry_key e))) @ entry_key e @
         to_le (u16_len (length value_bytes)) @ value_bytes @ [type_tag (entry_value e)] @
         to_le (case ttl_seconds (metadata e) of None \<Rightarrow> 0 | Some t \<Rightarrow> t) @ to_le (version (metadata e)))"

definition saved_bytes :: "'j json_codec \<Rightarrow> u64 \<Rightarrow> 'j kv_entry list \<Rightarrow> bytes" where
  "saved_bytes jc now versions =
     (if versions = [] then []
      else if entry_value (last versions) = Kv_Null \<or> is_expired now (last versions) then []
      else entry_bytes jc (last versions))"

definition kv_to_bytes :: "'j json_codec \<Rightarrow> u64 list \<Rightarrow> u64 \<Rightarrow> 'j kv_store \<Rightarrow> bytes" where
  "kv_to_bytes jc order now store =
     to_le (u32_len (length order)) @
     concat (map (\<lambda>h. case store h of None \<Rightarrow> [] | Some versions \<Rightarrow> saved_bytes jc now versions) order)"

text \<open>\<open>Cursor::read_exact\<close>: the bytes read and the rest, or an error.\<close>

definition cursor_read :: "nat \<Rightarrow> bytes \<Rightarrow> (bytes \<times> bytes) result" where
  "cursor_read n bs = (if n \<le> length bs then Inr (take n bs, drop n bs) else Inl (Err IoError))"

definition read_entry :: "'j json_codec \<Rightarrow> u64 \<Rightarrow> nat \<Rightarrow> bytes \<Rightarrow> ('j kv_entry \<times> bytes) result" where
  "read_entry jc now key_len bs =
     bindR (cursor_read key_len bs) (\<lambda>(key, bs1).
     bindR (cursor_read 2 bs1) (\<lambda>(value_len, bs2).
     bindR (cursor_read (unat (from_le value_len :: u16)) bs2) (\<lambda>(value_bytes, bs3).
     bindR (cursor_read 1 bs3) (\<lambda>(tag, bs4).
     case value_from_bytes jc value_bytes (hd tag) of
       None \<Rightarrow> Inl (Err DeserializationError)
     | Some v \<Rightarrow>
         bindR (cursor_read 8 bs4) (\<lambda>(ttl_bytes, bs5).
         bindR (cursor_read 8 bs5) (\<lambda>(version_bytes, bs6).
           let ttl = from_le ttl_bytes
           in Inr (kv_entry_new now key v (from_le version_bytes) (if 0 < ttl then Some ttl else None), bs6)))))))"

text \<open>The end of the data before an entry ends the loop, whatever the count says.\<close>

fun read_kv_entries :: "(bytes \<Rightarrow> u64) \<Rightarrow> 'j json_codec \<Rightarrow> u64 \<Rightarrow> nat \<Rightarrow> bytes \<Rightarrow> 'j kv_store \<Rightarrow> 'j kv_store result" where
  "read_kv_entries hash jc now 0 bs store = Inr store"
| "read_kv_entries hash jc now (Suc n) bs store =
     (case cursor_read 2 bs of
        Inl _ \<Rightarrow> Inr store
      | Inr (key_len, bs1) \<Rightarrow>
          bindR (read_entry jc now (unat (from_le key_len :: u16)) bs1) (\<lambda>(entry, bs2).
            read_kv_entries hash jc now n bs2 (store(hash (entry_key entry) \<mapsto> [entry]))))"

text \<open>On an error the store keeps its old contents.\<close>

definition kv_from_bytes :: "(bytes \<Rightarrow> u64) \<Rightarrow> 'j json_codec \<Rightarrow> u64 \<Rightarrow> bytes \<Rightarrow> ('j kv_store, unit) action" where
  "kv_from_bytes hash jc now bs store =
     (if length bs < 4 then (Inl (Err DeserializationError), store)
      else
        case cursor_read 4 bs of
          Inl e \<Rightarrow> (Inl e, store)
        | Inr (count_bytes, bs1) \<Rightarrow>
            (case read_kv_entries hash jc now (unat (from_le count_bytes :: u32)) bs1 kv_new of
               Inl e \<Rightarrow> (Inl e, store)
             | Inr new \<Rightarrow> (Inr (), new)))"

section \<open>Snapshot reads\<close>

datatype 'j kv_op =
    Kv_Set bytes "'j kv_value" "u64 option" u64 u64
  | Kv_Delete bytes u64 u64

text \<open>The last two components are the version and the time of the call.\<close>

fun kv_exec :: "(bytes \<Rightarrow> u64) \<Rightarrow> 'j kv_op \<Rightarrow> 'j kv_store \<Rightarrow> 'j kv_store" where
  "kv_exec hash (Kv_Set key v ttl ver now) store = kv_set hash now key v ttl ver store"
| "kv_exec hash (Kv_Delete key ver now) store = kv_delete hash now key ver store"

definition kv_run :: "(bytes \<Rightarrow> u64) \<Rightarrow> 'j kv_op list \<Rightarrow> 'j kv_store" where
  "kv_run hash ops = fold (kv_exec hash) ops kv_new"

fun op_key :: "'j kv_op \<Rightarrow> bytes" where
  "op_key (Kv_Set key _ _ _ _) = key"
| "op_key (Kv_Delete key _ _) = key"

fun op_version :: "'j kv_op \<Rightarrow> u64" where
  "op_version (Kv_Set _ _ _ ver _) = ver"
| "op_version (Kv_Delete _ ver _) = ver"

text \<open>What an operation leaves to be read at a time: nothing after a deletion, a null or an expiry.\<close>

fun op_result :: "u64 \<Rightarrow> 'j kv_op \<Rightarrow> 'j kv_value option" where
  "op_result now (Kv_Set _ v ttl _ time) =
     (if v = Kv_Null \<or> (case ttl of None \<Rightarrow> False | Some t \<Rightarrow> u64_saturating_add time t \<le> now) then None else Some v)"
| "op_result now (Kv_Delete _ _ _) = None"

text \<open>The specification of a read: the last operation on the key that the snapshot covers.\<close>

definition visible :: "bytes \<Rightarrow> u64 \<Rightarrow> 'j kv_op list \<Rightarrow> 'j kv_op list" where
  "visible key snapshot ops = filter (\<lambda>op. op_key op = key \<and> op_version op \<le> snapshot) ops"

definition snapshot_read :: "u64 \<Rightarrow> bytes \<Rightarrow> u64 \<Rightarrow> 'j kv_op list \<Rightarrow> 'j kv_value option" where
  "snapshot_read now key snapshot ops =
     (if visible key snapshot ops = [] then None else op_result now (last (visible key snapshot ops)))"

text \<open>An entry records an operation.\<close>

definition records :: "'j kv_entry \<Rightarrow> 'j kv_op \<Rightarrow> bool" where
  "records e op \<longleftrightarrow> entry_key e = op_key op \<and> version (metadata e) = op_version op \<and>
     (\<forall>now. (if is_expired now e \<or> entry_value e = Kv_Null then None else Some (entry_value e)) = op_result now op)"

lemma records_set:
  "records \<lparr>entry_key = key, entry_value = v,
     metadata = \<lparr>created_at = c, updated_at = now, ttl_seconds = ttl, version = ver\<rparr>\<rparr> (Kv_Set key v ttl ver now)"
  by (auto simp: records_def is_expired_def is_expired_at_def split: option.splits)

lemma records_delete: "records (kv_entry_new now key Kv_Null ver None) (Kv_Delete key ver now)"
  by (simp add: records_def kv_entry_new_def metadata_new_def)

definition ops_of :: "(bytes \<Rightarrow> u64) \<Rightarrow> u64 \<Rightarrow> 'j kv_op list \<Rightarrow> 'j kv_op list" where
  "ops_of hash h ops = filter (\<lambda>op. hash (op_key op) = h) ops"

definition versions_of :: "u64 \<Rightarrow> 'j kv_store \<Rightarrow> 'j kv_entry list" where
  "versions_of h store = (case store h of None \<Rightarrow> [] | Some versions \<Rightarrow> versions)"

lemma versions_of_push: "versions_of h (push_version h' e store) = versions_of h store @ (if h = h' then [e] else [])"
  by (simp add: versions_of_def push_version_def)

lemma kv_run_snoc: "kv_run hash (ops @ [op]) = kv_exec hash op (kv_run hash ops)"
  by (simp add: kv_run_def)

lemma kv_exec_push: "\<exists>e. kv_exec hash op store = push_version (hash (op_key op)) e store \<and> records e op"
proof (cases op)
  case (Kv_Set key v ttl ver now)
  then show ?thesis using records_set by (fastforce simp: kv_set_def Let_def)
next
  case (Kv_Delete key ver now)
  then show ?thesis using records_delete by (fastforce simp: kv_delete_def)
qed

lemma kv_run_records: "list_all2 records (versions_of h (kv_run hash ops)) (ops_of hash h ops)"
proof (induction ops rule: rev_induct)
  case Nil
  show ?case by (simp add: kv_run_def versions_of_def kv_new_def ops_of_def)
next
  case (snoc op ops)
  obtain e where "kv_exec hash op (kv_run hash ops) = push_version (hash (op_key op)) e (kv_run hash ops)" "records e op"
    using kv_exec_push [of hash op "kv_run hash ops"] by blast
  then show ?case using snoc by (auto simp: kv_run_snoc versions_of_push ops_of_def intro: list_all2_appendI)
qed

lemma kv_run_nonempty: "kv_run hash ops h \<noteq> Some []"
proof (induction ops rule: rev_induct)
  case (snoc op ops)
  obtain e where "kv_exec hash op (kv_run hash ops) = push_version (hash (op_key op)) e (kv_run hash ops)"
    using kv_exec_push [of hash op "kv_run hash ops"] by blast
  then show ?case using snoc by (simp add: kv_run_snoc push_version_def)
qed (simp add: kv_run_def kv_new_def)

text \<open>Versions that never fall are partitioned by a snapshot.\<close>

lemma partition_point_sorted:
  assumes "sorted (map f xs)"
  shows "take (partition_point (\<lambda>x. f x \<le> (s::'a::linorder)) xs) xs = filter (\<lambda>x. f x \<le> s) xs"
    "partition_point (\<lambda>x. f x \<le> s) xs = length (filter (\<lambda>x. f x \<le> s) xs)"
proof -
  define p where "p = partition_point (\<lambda>x. f x \<le> s) xs"
  have mono: "f (xs ! i) \<le> s" if "i \<le> j" "j < length xs" "f (xs ! j) \<le> s" for i j
    using sorted_nth_mono [OF assms, of i j] that by simp
  have pp: "p \<le> length xs" "\<And>i. i < p \<Longrightarrow> f (xs ! i) \<le> s" "\<And>i. p \<le> i \<Longrightarrow> i < length xs \<Longrightarrow> \<not> f (xs ! i) \<le> s"
    using partition_point_correct [of xs "\<lambda>x. f x \<le> s"] mono unfolding p_def by blast+
  have "f x \<le> s" if x: "x \<in> set (take p xs)" for x
  proof -
    obtain i where i: "i < length (take p xs)" "take p xs ! i = x" using x unfolding in_set_conv_nth by blast
    then have "i < p" "xs ! i = x" by (simp_all add: min_def split: if_splits)
    with pp(2) [OF this(1)] show ?thesis by simp
  qed
  then have "filter (\<lambda>x. f x \<le> s) (take p xs) = take p xs" by (simp add: filter_id_conv)
  moreover have "\<not> f x \<le> s" if x: "x \<in> set (drop p xs)" for x
  proof -
    obtain i where "i < length (drop p xs)" "drop p xs ! i = x" using x unfolding in_set_conv_nth by blast
    then have "i < length xs - p" "xs ! (p + i) = x" using pp(1) by simp_all
    then show ?thesis using pp(3) [of "p + i"] by simp
  qed
  then have "filter (\<lambda>x. f x \<le> s) (drop p xs) = []" by (simp add: filter_empty_conv)
  ultimately have t: "take p xs = filter (\<lambda>x. f x \<le> s) xs"
    by (metis append_Nil2 append_take_drop_id filter_append)
  moreover from this have "p = length (filter (\<lambda>x. f x \<le> s) xs)"
    using pp(1) by (metis length_take min.absorb2)
  ultimately show "take (partition_point (\<lambda>x. f x \<le> s) xs) xs = filter (\<lambda>x. f x \<le> s) xs"
    "partition_point (\<lambda>x. f x \<le> s) xs = length (filter (\<lambda>x. f x \<le> s) xs)"
    unfolding p_def by blast+
qed

text \<open>The hash keeps the keys in use apart, and versions do not fall from call to call.\<close>

definition hash_apart :: "(bytes \<Rightarrow> u64) \<Rightarrow> bytes set \<Rightarrow> bool" where
  "hash_apart hash keys \<longleftrightarrow> inj_on hash keys"

lemma ops_of_key:
  assumes "hash_apart hash (insert key (op_key ` set ops))"
  shows "ops_of hash (hash key) ops = filter (\<lambda>op. op_key op = key) ops"
proof -
  have "hash (op_key op) = hash key \<longleftrightarrow> op_key op = key" if "op \<in> set ops" for op
    using assms that unfolding hash_apart_def by (auto simp: inj_on_def)
  then show ?thesis unfolding ops_of_def by (simp cong: filter_cong)
qed

lemma records_result:
  "records e op \<Longrightarrow>
   (if is_expired now e then None else if entry_value e = Kv_Null then None else Some (entry_value e)) = op_result now op"
  unfolding records_def by (elim conjE, drule spec [of _ now]) (auto split: if_splits)

lemma records_versions: "list_all2 records es ops \<Longrightarrow> map (\<lambda>e. version (metadata e)) es = map op_version ops"
  by (induction rule: list_all2_induct) (simp_all add: records_def)

lemma list_all2_last: "list_all2 P xs ys \<Longrightarrow> xs \<noteq> [] \<Longrightarrow> P (last xs) (last ys)"
  by (cases "ys = []") (auto simp: list_all2_conv_all_nth last_conv_nth)

lemma records_visible:
  "list_all2 records es ops \<Longrightarrow>
   list_all2 records (filter (\<lambda>e. version (metadata e) \<le> s) es) (filter (\<lambda>op. op_version op \<le> s) ops)"
  by (induction rule: list_all2_induct) (auto simp: records_def)

lemma sorted_map_filter: "sorted (map f xs) \<Longrightarrow> sorted (map f (filter P xs))"
  by (induction xs) auto

lemma get_run:
  assumes apart: "hash_apart hash (insert key (op_key ` set ops))" and sorted: "sorted (map op_version ops)"
    and s: "s \<noteq> 0"
  shows "get_at_snapshot hash now key s (kv_run hash ops) = snapshot_read now key s ops"
proof -
  let ?es = "versions_of (hash key) (kv_run hash ops)" and ?ops = "filter (\<lambda>op. op_key op = key) ops"
  let ?p = "partition_point (\<lambda>e. version (metadata e) \<le> s) ?es"
  have rel: "list_all2 records ?es ?ops"
    using kv_run_records [of "hash key" hash ops] by (simp add: ops_of_key [OF apart])
  have "sorted (map op_version ?ops)" using sorted by (rule sorted_map_filter)
  then have "sorted (map (\<lambda>e. version (metadata e)) ?es)" by (simp only: records_versions [OF rel])
  note pp = partition_point_sorted [OF this, of s]
  have vis: "list_all2 records (take ?p ?es) (visible key s ops)"
    using records_visible [OF rel, of s] unfolding pp(1) visible_def by (simp add: conj_commute)
  have get: "get_at_snapshot hash now key s (kv_run hash ops) =
      (if ?p = 0 then None
       else let e = ?es ! (?p - 1) in if is_expired now e then None else if entry_value e = Kv_Null then None else Some (entry_value e))"
    using s by (cases "kv_run hash ops (hash key)")
      (simp_all add: get_at_snapshot_def versions_of_def partition_point_def ppoint_loop.simps)
  show ?thesis
  proof (cases "?p = 0")
    case True
    then have "visible key s ops = []" using vis by simp
    then show ?thesis using get True by (simp add: snapshot_read_def)
  next
    case False
    have le: "?p \<le> length ?es" unfolding pp(2) by (rule length_filter_le)
    then have ne: "take ?p ?es \<noteq> []" using False by auto
    have last: "last (take ?p ?es) = ?es ! (?p - 1)" using ne le by (simp add: last_conv_nth)
    have r: "records (?es ! (?p - 1)) (last (visible key s ops))" using list_all2_last [OF vis ne] by (simp only: last)
    have "get_at_snapshot hash now key s (kv_run hash ops) = op_result now (last (visible key s ops))"
      unfolding get Let_def if_not_P [OF False] by (rule records_result [OF r])
    moreover have "visible key s ops \<noteq> []" using vis ne by (metis list_all2_Nil2)
    ultimately show ?thesis by (simp add: snapshot_read_def)
  qed
qed

text \<open>
  C26. After any sequence of writes and deletions whose versions do not fall, and whose keys the hash keeps
  apart, a read at a snapshot other than 0 answers the value of the last call on the key with a version up to
  the snapshot, and nothing when there is none, when it deleted the key, or when its time to live has run out.
\<close>

theorem kv_snapshot_reads:
  assumes "hash_apart hash (insert key (op_key ` set ops))" "sorted (map op_version ops)" "snapshot \<noteq> 0"
  shows "get_at_snapshot hash now key snapshot (kv_run hash ops) =
    (case filter (\<lambda>op. op_key op = key \<and> op_version op \<le> snapshot) ops of
       [] \<Rightarrow> None
     | op # rest \<Rightarrow> op_result now (last (op # rest)))"
  using get_run [OF assms] by (simp add: snapshot_read_def visible_def split: list.split)

text \<open>
  C27. Snapshot isolation: calls with versions above a snapshot, on any key, change no read at the snapshot.
\<close>

theorem kv_snapshot_isolation:
  assumes "hash_apart hash (insert key (op_key ` set (ops @ later)))" "sorted (map op_version (ops @ later))"
    "snapshot \<noteq> 0" "\<forall>op \<in> set later. snapshot < op_version op"
  shows "get_at_snapshot hash now key snapshot (kv_run hash (ops @ later)) =
    get_at_snapshot hash now key snapshot (kv_run hash ops)"
proof -
  have "hash_apart hash (insert key (op_key ` set ops))" "sorted (map op_version ops)"
    using assms(1,2) by (auto simp: hash_apart_def sorted_append intro: inj_on_subset)
  moreover have "visible key snapshot (ops @ later) = visible key snapshot ops"
    using assms(4) by (auto simp: visible_def filter_empty_conv not_le)
  ultimately show ?thesis using get_run [OF assms(1-3)] get_run [of hash key ops snapshot] assms(3)
    by (simp add: snapshot_read_def)
qed

definition sample_kv_ops :: "unit kv_op list" where
  "sample_kv_ops = [Kv_Set [107] (Kv_Integer 1) None 10 0, Kv_Set [107] (Kv_Integer 2) None 20 0]"

definition sample_later :: "unit kv_op list" where
  "sample_later = [Kv_Delete [107] 30 0]"

text \<open>For one key any hash will do.\<close>

lemma kv_snapshot_reads_witness:
  "get_at_snapshot (\<lambda>_. 0) 5 [107] 15 (kv_run (\<lambda>_. 0) sample_kv_ops) = Some (Kv_Integer 1)"
proof -
  have "hash_apart (\<lambda>_. 0) (insert [107] (op_key ` set sample_kv_ops))"
    by (simp add: hash_apart_def sample_kv_ops_def)
  moreover have "sorted (map op_version sample_kv_ops)" by code_simp
  ultimately show ?thesis by (subst kv_snapshot_reads) (simp, simp, simp, simp add: sample_kv_ops_def)
qed

lemma kv_snapshot_isolation_witness:
  "get_at_snapshot (\<lambda>_. 0) 5 [107] 25 (kv_run (\<lambda>_. 0) (sample_kv_ops @ sample_later)) =
   get_at_snapshot (\<lambda>_. 0) 5 [107] 25 (kv_run (\<lambda>_. 0) sample_kv_ops)"
proof (rule kv_snapshot_isolation)
  show "hash_apart (\<lambda>_. 0) (insert [107] (op_key ` set (sample_kv_ops @ sample_later)))"
    by (simp add: hash_apart_def sample_kv_ops_def sample_later_def)
  show "sorted (map op_version (sample_kv_ops @ sample_later))" by code_simp
  show "\<forall>op \<in> set sample_later. 25 < op_version op" by (simp add: sample_later_def)
qed simp

section \<open>Scans\<close>

lemma set_map_filter_bind: "x \<in> set (List.map_filter f xs) \<longleftrightarrow> (\<exists>y \<in> set xs. f y = Some x)"
  by (force simp: List.map_filter_def)

lemma run_keys:
  assumes "e \<in> set (versions_of h (kv_run hash ops))"
  shows "\<exists>op \<in> set ops. records e op \<and> hash (entry_key e) = h"
proof -
  obtain i where i: "i < length (versions_of h (kv_run hash ops))" "e = versions_of h (kv_run hash ops) ! i"
    using assms by (metis in_set_conv_nth)
  then have "records e (ops_of hash h ops ! i)" "i < length (ops_of hash h ops)"
    using kv_run_records [of h hash ops] by (auto simp: list_all2_conv_all_nth)
  moreover from this have "ops_of hash h ops ! i \<in> set (ops_of hash h ops)" by simp
  ultimately show ?thesis by (auto simp: ops_of_def records_def)
qed

lemma partition_point_all:
  assumes "\<forall>x \<in> set xs. P x"
  shows "partition_point P xs = length xs"
proof (rule le_antisym)
  have mono: "P (xs ! i)" if "i \<le> j" "j < length xs" for i j using assms that by simp
  show "partition_point P xs \<le> length xs" by (rule partition_point_correct(1)) (use mono in blast)
  show "length xs \<le> partition_point P xs"
  proof (rule ccontr)
    assume "\<not> length xs \<le> partition_point P xs"
    then have l: "partition_point P xs < length xs" by simp
    have "\<not> P (xs ! partition_point P xs)" by (rule partition_point_correct(3)) (use mono l in blast)+
    with mono [OF order_refl l] show False by contradiction
  qed
qed

lemma run_last:
  assumes "kv_run hash ops h = Some es"
  shows "last es \<in> set es" "es \<noteq> []" "versions_of h (kv_run hash ops) = es"
  using assms kv_run_nonempty [of hash ops h] by (auto simp: versions_of_def)

lemma get_latest:
  assumes s: "s \<noteq> 0" "\<forall>op \<in> set ops. op_version op \<le> s" and es: "kv_run hash ops (hash k) = Some es"
  shows "get_at_snapshot hash now k s (kv_run hash ops) =
    (if is_expired now (last es) \<or> entry_value (last es) = Kv_Null then None else Some (entry_value (last es)))"
proof -
  note l = run_last [OF es]
  have "version (metadata e) \<le> s" if "e \<in> set es" for e
    using run_keys [of e "hash k" hash ops] that s(2) unfolding l(3) by (auto simp: records_def)
  then have "partition_point (\<lambda>e. version (metadata e) \<le> s) es = length es" by (intro partition_point_all) simp
  then show ?thesis using s(1) es l(2) by (simp add: get_at_snapshot_def last_conv_nth Let_def)
qed

lemma scan_run:
  assumes apart: "hash_apart hash (op_key ` set ops)"
    and s: "snapshot \<noteq> 0" "\<forall>op \<in> set ops. op_version op \<le> snapshot" and k: "k \<in> op_key ` set ops"
  shows "Option.bind (kv_run hash ops h) (scan_entry now prefix snapshot) = Some (k, v) \<longleftrightarrow>
    h = hash k \<and> starts_with k prefix \<and> get_at_snapshot hash now k snapshot (kv_run hash ops) = Some v"
proof (cases "kv_run hash ops h")
  case None
  then show ?thesis by (auto simp: get_at_snapshot_def)
next
  case (Some es)
  note l = run_last [OF Some]
  obtain op where op: "op \<in> set ops" "records (last es) op" "hash (entry_key (last es)) = h"
    using run_keys [of "last es" h hash ops] l by auto
  then have key: "entry_key (last es) \<in> op_key ` set ops" "version (metadata (last es)) \<le> snapshot"
    using s(2) by (auto simp: records_def)
  have "entry_key (last es) = k \<longleftrightarrow> h = hash k"
    using op(3) apart key(1) k by (auto simp: hash_apart_def dest: inj_onD)
  then show ?thesis
    using get_latest [OF s, of hash k es now] Some key(2) l(2)
    by (cases "h = hash k") (auto simp: scan_entry_def Let_def)
qed

lemma scan_key:
  assumes "Option.bind (kv_run hash ops h) (scan_entry now prefix snapshot) = Some x"
  shows "fst x \<in> op_key ` set ops \<and> hash (fst x) = h"
proof -
  obtain es where es: "kv_run hash ops h = Some es" "scan_entry now prefix snapshot es = Some x"
    using assms by (auto split: bind_splits)
  note l = run_last [OF es(1)]
  have "fst x = entry_key (last es)" using es(2) by (auto simp: scan_entry_def Let_def split: if_splits)
  then show ?thesis using run_keys [of "last es" h hash ops] l by (auto simp: records_def)
qed

lemma distinct_map_filter_keys:
  "distinct hs \<Longrightarrow> (\<And>h x. f h = Some x \<Longrightarrow> g (fst x) = h) \<Longrightarrow> distinct (map fst (List.map_filter f hs))"
proof (induction hs)
  case (Cons h hs)
  have "fst x \<notin> fst ` set (List.map_filter f hs)" if x: "f h = Some x" for x
  proof
    assume "fst x \<in> fst ` set (List.map_filter f hs)"
    then obtain h' y where "h' \<in> set hs" "f h' = Some y" "fst x = fst y" by (auto simp: set_map_filter_bind)
    moreover from this have "h' = h" using Cons.prems(2) [of h' y] Cons.prems(2) [OF x] by simp
    ultimately show False using Cons.prems(1) by simp
  qed
  then show ?case using Cons by (auto simp: List.map_filter_simps split: option.split)
qed (simp add: List.map_filter_simps)

text \<open>
  C28. A scan at a snapshot that covers every call lists, in strictly ascending order of the keys, exactly the
  keys with the prefix that a read at the snapshot finds, with their values, whatever the order of the hash map.
\<close>

theorem kv_scan_correct:
  assumes "hash_apart hash (op_key ` set ops)" "snapshot \<noteq> 0" "\<forall>op \<in> set ops. op_version op \<le> snapshot"
    "distinct order" "set order = dom (kv_run hash ops)"
  shows "sorted_wrt (<) (map fst (prefix_scan order now prefix snapshot (kv_run hash ops))) \<and>
    set (prefix_scan order now prefix snapshot (kv_run hash ops)) =
      {(k, v). k \<in> op_key ` set ops \<and> starts_with k prefix \<and>
         get_at_snapshot hash now k snapshot (kv_run hash ops) = Some v}"
proof -
  let ?f = "\<lambda>h. Option.bind (kv_run hash ops h) (scan_entry now prefix snapshot)"
  let ?found = "List.map_filter ?f order"
  have "distinct (map fst ?found)"
    by (rule distinct_map_filter_keys [OF assms(4), where g = hash]) (use scan_key in blast)
  moreover have "sorted (map fst (sort_key fst ?found))" by simp
  moreover have "distinct (map fst (sort_key fst ?found)) \<longleftrightarrow> distinct (map fst ?found)"
    by (simp add: distinct_map)
  ultimately have "sorted_wrt (<) (map fst (prefix_scan order now prefix snapshot (kv_run hash ops)))"
    by (simp add: prefix_scan_def strict_sorted_iff)
  moreover have "(k, v) \<in> set ?found \<longleftrightarrow> k \<in> op_key ` set ops \<and> starts_with k prefix \<and>
      get_at_snapshot hash now k snapshot (kv_run hash ops) = Some v" for k v
  proof (cases "k \<in> op_key ` set ops")
    case True
    have "get_at_snapshot hash now k snapshot (kv_run hash ops) = Some v \<Longrightarrow> hash k \<in> set order"
      unfolding assms(5) by (auto simp: get_at_snapshot_def split: option.splits)
    then show ?thesis using scan_run [OF assms(1-3) True] True by (auto simp: set_map_filter_bind)
  next
    case False
    then show ?thesis using scan_key by (fastforce simp: set_map_filter_bind)
  qed
  ultimately show ?thesis by (auto simp: prefix_scan_def)
qed

lemma kv_scan_correct_witness:
  "set (prefix_scan [0] 5 [] 20 (kv_run (\<lambda>_. 0) sample_kv_ops)) =
     {(k, v). k \<in> op_key ` set sample_kv_ops \<and> starts_with k [] \<and>
        get_at_snapshot (\<lambda>_. 0) 5 k 20 (kv_run (\<lambda>_. 0) sample_kv_ops) = Some v}"
proof -
  have "set [0] = dom (kv_run (\<lambda>_. 0) sample_kv_ops)"
    by (auto simp: kv_run_def sample_kv_ops_def kv_set_def push_version_def kv_new_def Let_def)
  then show ?thesis
    using kv_scan_correct [of "\<lambda>_. 0" sample_kv_ops 20 "[0]" 5 "[]"]
    by (simp add: hash_apart_def sample_kv_ops_def)
qed

section \<open>Checkpoints\<close>

text \<open>What fits the format: keys and values below 64 KiB.\<close>

definition entry_fits :: "'j json_codec \<Rightarrow> 'j kv_entry \<Rightarrow> bool" where
  "entry_fits jc e \<longleftrightarrow> length (entry_key e) < 2 ^ 16 \<and> length (value_to_bytes jc (entry_value e)) < 2 ^ 16 \<and>
     value_ok jc (entry_value e)"

definition store_fits :: "(bytes \<Rightarrow> u64) \<Rightarrow> 'j json_codec \<Rightarrow> 'j kv_store \<Rightarrow> bool" where
  "store_fits hash jc store \<longleftrightarrow> (\<forall>h es. store h = Some es \<longrightarrow>
     es \<noteq> [] \<and> hash (entry_key (last es)) = h \<and> entry_fits jc (last es))"

definition restored :: "u64 \<Rightarrow> 'j kv_entry \<Rightarrow> 'j kv_entry" where
  "restored now e = kv_entry_new now (entry_key e) (entry_value e) (version (metadata e))
     (case ttl_seconds (metadata e) of None \<Rightarrow> None | Some t \<Rightarrow> if t = 0 then None else Some t)"

lemma cursor_read_append: "length xs = n \<Longrightarrow> cursor_read n (xs @ ys) = Inr (xs, ys)"
  by (simp add: cursor_read_def)

lemma unat_u16_len: "n < 2 ^ 16 \<Longrightarrow> unat (u16_len n) = n"
  by (simp add: u16_len_def unat_of_nat_u16)

lemma unat_u32_len: "n < 2 ^ 32 \<Longrightarrow> unat (u32_len n) = n"
  by (simp add: u32_len_def unat_of_nat_u32)

lemma read_entry_bytes:
  assumes "entry_fits jc e"
  shows "\<exists>rest'. cursor_read 2 (entry_bytes jc e @ rest) = Inr (to_le (u16_len (length (entry_key e))), rest') \<and>
    read_entry jc now (unat (u16_len (length (entry_key e)))) rest' = Inr (restored now e, rest)"
proof -
  let ?v = "value_to_bytes jc (entry_value e)"
  let ?ttl = "case ttl_seconds (metadata e) of None \<Rightarrow> 0 | Some t \<Rightarrow> t"
  let ?tail = "to_le (u16_len (length ?v)) @ ?v @ [type_tag (entry_value e)] @ to_le ?ttl @ to_le (version (metadata e)) @ rest"
  have e: "length (entry_key e) < 2 ^ 16" "length ?v < 2 ^ 16" "value_ok jc (entry_value e)"
    using assms by (simp_all add: entry_fits_def)
  have "entry_bytes jc e @ rest = to_le (u16_len (length (entry_key e))) @ entry_key e @ ?tail"
    by (simp add: entry_bytes_def Let_def)
  then have "cursor_read 2 (entry_bytes jc e @ rest) = Inr (to_le (u16_len (length (entry_key e))), entry_key e @ ?tail)"
    by (simp add: cursor_read_append length_to_le)
  moreover have "read_entry jc now (unat (u16_len (length (entry_key e)))) (entry_key e @ ?tail) = Inr (restored now e, rest)"
    unfolding read_entry_def
    by (simp add: cursor_read_append length_to_le unat_u16_len [OF e(1)] unat_u16_len [OF e(2)] value_roundtrip [OF e(3)] Let_def restored_def
        cursor_read_append [where n = 1 and xs = "[type_tag (entry_value e)]", simplified])
      (cases "ttl_seconds (metadata e)"; simp add: word_gt_0)
  ultimately show ?thesis by blast
qed

definition saved_entry :: "u64 \<Rightarrow> 'j kv_store \<Rightarrow> u64 \<Rightarrow> 'j kv_entry option" where
  "saved_entry now store h = (case store h of None \<Rightarrow> None | Some versions \<Rightarrow>
     if versions = [] \<or> entry_value (last versions) = Kv_Null \<or> is_expired now (last versions) then None
     else Some (last versions))"

lemma saved_bytes_entry:
  "(case store h of None \<Rightarrow> [] | Some versions \<Rightarrow> saved_bytes jc now versions) =
   (case saved_entry now store h of None \<Rightarrow> [] | Some e \<Rightarrow> entry_bytes jc e)"
  by (simp add: saved_bytes_def saved_entry_def split: option.split)

lemma saved_entry_fits:
  "store_fits hash jc store \<Longrightarrow> saved_entry now store h = Some e \<Longrightarrow> entry_fits jc e \<and> hash (entry_key e) = h"
  by (auto simp: saved_entry_def store_fits_def split: option.splits if_splits)

lemma read_kv_entries_saved:
  assumes fits: "store_fits hash jc store"
  shows "length order \<le> n \<Longrightarrow>
    read_kv_entries hash jc now n (concat (map (\<lambda>h. case saved_entry now store h of None \<Rightarrow> [] | Some e \<Rightarrow> entry_bytes jc e) order)) st =
    Inr (\<lambda>h. if h \<in> set order \<and> saved_entry now store h \<noteq> None then Some [restored now (the (saved_entry now store h))] else st h)"
proof (induction order arbitrary: n st)
  case Nil
  have "read_kv_entries hash jc now n [] st = Inr st" by (cases n) (simp_all add: cursor_read_def)
  then show ?case by simp
next
  case (Cons h order)
  show ?case
  proof (cases "saved_entry now store h")
    case None
    then show ?thesis using Cons.IH [of n st] Cons.prems by (auto simp: fun_eq_iff intro: arg_cong [where f = Inr])
  next
    case (Some e)
    obtain m where n: "n = Suc m" using Cons.prems by (cases n) auto
    have e: "entry_fits jc e" "hash (entry_key e) = h" using saved_entry_fits [OF fits Some] by simp_all
    let ?rest = "concat (map (\<lambda>h. case saved_entry now store h of None \<Rightarrow> [] | Some e \<Rightarrow> entry_bytes jc e) order)"
    obtain rest' where r: "cursor_read 2 (entry_bytes jc e @ ?rest) = Inr (to_le (u16_len (length (entry_key e))), rest')"
      "read_entry jc now (unat (u16_len (length (entry_key e)))) rest' = Inr (restored now e, ?rest)"
      using read_entry_bytes [OF e(1), of ?rest now] by blast
    have "entry_key (restored now e) = entry_key e" by (simp add: restored_def kv_entry_new_def)
    then have "read_kv_entries hash jc now n (entry_bytes jc e @ ?rest) st =
        read_kv_entries hash jc now m ?rest (st(h \<mapsto> [restored now e]))"
      using r e(2) by (simp add: n)
    moreover have "(\<lambda>h'. if h' \<in> set order \<and> saved_entry now store h' \<noteq> None
          then Some [restored now (the (saved_entry now store h'))] else (st(h \<mapsto> [restored now e])) h') =
        (\<lambda>h'. if h' \<in> set (h # order) \<and> saved_entry now store h' \<noteq> None
          then Some [restored now (the (saved_entry now store h'))] else st h')"
      using Some by (auto simp: fun_eq_iff)
    moreover note Cons.IH [of m "st(h \<mapsto> [restored now e])"]
    moreover have "length order \<le> m" using Cons.prems n by simp
    moreover have "concat (map (\<lambda>h. case saved_entry now store h of None \<Rightarrow> [] | Some e \<Rightarrow> entry_bytes jc e) (h # order)) =
        entry_bytes jc e @ ?rest" using Some by simp
    ultimately show ?thesis by (simp only:)
  qed
qed

lemma restored_alive:
  assumes "\<not> is_expired now e" "now \<noteq> - 1"
  shows "\<not> is_expired now (restored now e)"
proof (cases "ttl_seconds (metadata e)")
  case (Some t)
  have "now < u64_saturating_add now t" if "t \<noteq> 0"
  proof -
    have "now < - 1" using assms(2) by (metis word_n1_ge order_le_less)
    moreover have "now < now + t" if "unat now + unat t < 2 ^ 64"
      using that \<open>t \<noteq> 0\<close> by (simp add: word_less_nat_alt unat_add_lem [THEN iffD1] unat_gt_0)
    ultimately show ?thesis by (simp add: u64_saturating_add_def)
  qed
  then show ?thesis using Some by (auto simp: is_expired_def is_expired_at_def restored_def kv_entry_new_def metadata_new_def not_le)
qed (simp add: is_expired_def is_expired_at_def restored_def kv_entry_new_def metadata_new_def)

text \<open>A read of the newest version, with a deleted key reported as absent, as the backend reads.\<close>

definition read_latest :: "(bytes \<Rightarrow> u64) \<Rightarrow> u64 \<Rightarrow> bytes \<Rightarrow> 'j kv_store \<Rightarrow> 'j kv_value option" where
  "read_latest hash now key store =
     (case get_at_snapshot hash now key 0 store of None \<Rightarrow> None | Some v \<Rightarrow> if v = Kv_Null then None else Some v)"

lemma read_latest_saved:
  "read_latest hash now key store = map_option entry_value (saved_entry now store (hash key))"
  by (auto simp: read_latest_def get_at_snapshot_def saved_entry_def split: option.split)

text \<open>
  A store whose newest versions fit the format is read back from its checkpoint, whatever the order of the
  hash map: every key has the same newest value, deleted and expired keys are absent, and the old contents of
  the store that reads are gone.
\<close>

lemma kv_checkpoint_roundtrip:
  assumes "store_fits hash jc store" "set order = dom store" "length order < 2 ^ 32" "now \<noteq> - 1"
  shows "\<exists>new. kv_from_bytes hash jc now (kv_to_bytes jc order now store) old = (Inr (), new) \<and>
    (\<forall>key. read_latest hash now key new = read_latest hash now key store)"
proof -
  let ?data = "concat (map (\<lambda>h. case saved_entry now store h of None \<Rightarrow> [] | Some e \<Rightarrow> entry_bytes jc e) order)"
  let ?new = "\<lambda>h. if h \<in> set order \<and> saved_entry now store h \<noteq> None
    then Some [restored now (the (saved_entry now store h))] else None"
  have "kv_to_bytes jc order now store = to_le (u32_len (length order)) @ ?data"
    by (simp add: kv_to_bytes_def saved_bytes_entry)
  then have "kv_from_bytes hash jc now (kv_to_bytes jc order now store) old = (Inr (), ?new)"
    using read_kv_entries_saved [OF assms(1), of order "length order" now kv_new, unfolded kv_new_def] assms(3)
    by (simp add: kv_from_bytes_def cursor_read_append length_to_le unat_u32_len [OF assms(3)] kv_new_def)
  moreover have "saved_entry now ?new h = map_option (restored now) (saved_entry now store h)" for h
  proof (cases "saved_entry now store h")
    case (Some e)
    then have h: "h \<in> set order" and e: "\<not> is_expired now e" "entry_value e \<noteq> Kv_Null"
      unfolding assms(2) by (auto simp: saved_entry_def split: option.splits if_splits)
    have "entry_value (restored now e) \<noteq> Kv_Null" using e(2) by (simp add: restored_def kv_entry_new_def)
    then show ?thesis
      unfolding saved_entry_def [of now ?new] using Some h restored_alive [OF e(1) assms(4)] by simp
  next
    case None
    then show ?thesis unfolding saved_entry_def [of now ?new] by simp
  qed
  moreover have "entry_value (restored now e) = entry_value e" for e :: "'a kv_entry"
    by (simp add: restored_def kv_entry_new_def)
  ultimately show ?thesis by (intro exI [of _ ?new]) (simp add: read_latest_saved option.map_comp comp_def)
qed

definition no_json :: "unit json_codec" where
  "no_json = \<lparr>json_to_vec = (\<lambda>_. None), json_from_slice = (\<lambda>_. None)\<rparr>"

lemma sample_store_fits:
  "store_fits (\<lambda>_. 0) no_json (kv_run (\<lambda>_. 0) sample_kv_ops)" "set [0] = dom (kv_run (\<lambda>_. 0) sample_kv_ops)"
proof -
  have "kv_run (\<lambda>_. 0) sample_kv_ops h = Some es \<Longrightarrow> h = 0 \<and> es \<noteq> [] \<and> last es =
      \<lparr>entry_key = [107], entry_value = Kv_Integer 2,
       metadata = \<lparr>created_at = 0, updated_at = 0, ttl_seconds = None, version = 20\<rparr>\<rparr>" for h es
    by (auto simp: kv_run_def sample_kv_ops_def kv_set_def push_version_def kv_new_def Let_def split: if_splits)
  then show "store_fits (\<lambda>_. 0) no_json (kv_run (\<lambda>_. 0) sample_kv_ops)"
    by (fastforce simp: store_fits_def entry_fits_def length_to_le)
  show "set [0] = dom (kv_run (\<lambda>_. 0) sample_kv_ops)"
    by (auto simp: kv_run_def sample_kv_ops_def kv_set_def push_version_def kv_new_def Let_def)
qed

text \<open>
  Defects. A deleted key read at snapshot 0 answers a null, not its absence; a key whose hash is that of another
  reads the other's value; a scan looks at the newest version only, so a key changed after the snapshot is
  missing from it although a read at the snapshot finds the key.
\<close>

lemma deleted_key_reads_null:
  "get_at_snapshot hash now key 0 (kv_delete hash time key ver store) = Some Kv_Null"
  by (simp add: get_at_snapshot_def kv_delete_def push_version_def is_expired_def is_expired_at_def kv_entry_new_def
      metadata_new_def)

lemma colliding_keys_share:
  "hash k = hash k' \<Longrightarrow> get_at_snapshot hash now k' 0 (kv_set hash time k v None ver store) = Some v"
  by (simp add: get_at_snapshot_def kv_set_def push_version_def is_expired_def is_expired_at_def Let_def)

lemma scan_misses_changed_key:
  "get_at_snapshot (\<lambda>_. 0) 5 [107] 15 (kv_run (\<lambda>_. 0) sample_kv_ops) = Some (Kv_Integer 1) \<and>
   prefix_scan [0] 5 [] 15 (kv_run (\<lambda>_. 0) sample_kv_ops) = []"
  by code_simp

end
