(* ===== verification/Wal.thy ===== *)
theory Wal
  imports Header_V3 Kv_Store
begin

text \<open>
  The write-ahead log (\<open>wal.rs\<close>): its header and records, the writer that buffers and appends them, the
  recovery that reads them back, and the checkpoint file of the key-value store. \<open>bincode\<close> and SHA-256 are
  parameters; the clock is an argument. A file is absent or its bytes; the system calls on an existing file
  succeed, except a read on a handle that was opened for writing only.
\<close>

section \<open>The header\<close>

definition V3_WAL_MAGIC :: bytes where
  "V3_WAL_MAGIC = [86, 51, 87, 65, 76, 0, 0, 0]"

definition V3_WAL_VERSION :: u32 where
  "V3_WAL_VERSION = 1"

definition V3_WAL_HEADER_SIZE :: nat where
  "V3_WAL_HEADER_SIZE = 64"

definition MAX_RECORD_SIZE :: nat where
  "MAX_RECORD_SIZE = 1024 * 1024"

definition LSN_BEGIN :: u64 where
  "LSN_BEGIN = 1"

definition LSN_INVALID :: u64 where
  "LSN_INVALID = 0"

definition lsn_is_valid :: "u64 \<Rightarrow> bool" where
  "lsn_is_valid lsn \<longleftrightarrow> LSN_BEGIN \<le> lsn"

definition lsn_next :: "u64 \<Rightarrow> u64" where
  "lsn_next lsn = lsn + 1"

record wal_header =
  wh_magic :: bytes
  wh_version :: u32
  wh_page_size :: u32
  wh_created_at :: u64
  wh_current_lsn :: u64
  wh_committed_lsn :: u64
  wh_checkpointed_lsn :: u64
  wh_reserved :: "u64 list"

definition wal_header_new :: "u64 \<Rightarrow> wal_header" where
  "wal_header_new now =
     \<lparr>wh_magic = V3_WAL_MAGIC, wh_version = V3_WAL_VERSION, wh_page_size = 4096, wh_created_at = now,
      wh_current_lsn = LSN_BEGIN, wh_committed_lsn = LSN_INVALID, wh_checkpointed_lsn = LSN_INVALID,
      wh_reserved = [0, 0, 0]\<rparr>"

definition wal_header_validate :: "wal_header \<Rightarrow> unit result" where
  "wal_header_validate h =
     (if wh_magic h \<noteq> V3_WAL_MAGIC then Inl (Err (InvalidHeader ''magic''))
      else if wh_version h \<noteq> V3_WAL_VERSION then Inl (Err (UnsupportedVersion (wh_version h) V3_WAL_VERSION))
      else if wh_page_size h \<noteq> 4096 \<and> wh_page_size h \<noteq> 8192 \<and> wh_page_size h \<noteq> 16384
        then Inl (Err (InvalidHeader ''page_size''))
      else if \<not> lsn_is_valid (wh_current_lsn h) then Inl (Err (InvalidHeader ''current_lsn''))
      else if wh_current_lsn h < wh_committed_lsn h then Inl (Err (InvalidHeader ''committed_lsn''))
      else if wh_committed_lsn h < wh_checkpointed_lsn h then Inl (Err (InvalidHeader ''checkpointed_lsn''))
      else Inr ())"

definition wal_header_to_bytes :: "wal_header \<Rightarrow> bytes" where
  "wal_header_to_bytes h =
     write_fields (replicate V3_WAL_HEADER_SIZE 0)
       [(0, wh_magic h), (8, to_le (wh_version h)), (12, to_le (wh_page_size h)), (16, to_le (wh_created_at h)),
        (24, to_le (wh_current_lsn h)), (32, to_le (wh_committed_lsn h)), (40, to_le (wh_checkpointed_lsn h)),
        (48, to_le (wh_reserved h ! 0)), (56, to_le (wh_reserved h ! 1))]"

definition extract_le :: "bytes \<Rightarrow> nat \<Rightarrow> nat \<Rightarrow> 'a::len word result" where
  "extract_le bs off n =
     (if off + n \<le> length bs then Inr (from_le (slice bs off n)) else Inl (Err (InvalidHeader ''offset'')))"

definition wal_header_from_bytes :: "bytes \<Rightarrow> wal_header result" where
  "wal_header_from_bytes bs =
     (if length bs < V3_WAL_HEADER_SIZE then Inl (Err (InvalidHeader ''bytes''))
      else
        bindR (extract_le bs 8 4) (\<lambda>ver.
        bindR (extract_le bs 12 4) (\<lambda>page_size.
        bindR (extract_le bs 16 8) (\<lambda>created.
        bindR (extract_le bs 24 8) (\<lambda>current.
        bindR (extract_le bs 32 8) (\<lambda>committed.
        bindR (extract_le bs 40 8) (\<lambda>checkpointed.
        bindR (extract_le bs 48 8) (\<lambda>reserved0.
        bindR (extract_le bs 56 8) (\<lambda>reserved1.
          Inr \<lparr>wh_magic = slice bs 0 8, wh_version = ver, wh_page_size = page_size, wh_created_at = created,
            wh_current_lsn = current, wh_committed_lsn = committed, wh_checkpointed_lsn = checkpointed,
            wh_reserved = [reserved0, reserved1, 0]\<rparr>)))))))))"

section \<open>The records\<close>

datatype wal_record_type =
    PageAllocate | PageFree | PageWrite | BTreeSplit | Checkpoint | TransactionBegin | TransactionCommit
  | TransactionRollback | KvSet | KvDelete | KvTombstone | EdgeInsert

definition record_type_of_u8 :: "u8 \<Rightarrow> wal_record_type result" where
  "record_type_of_u8 v =
     (if v = 1 then Inr PageAllocate else if v = 2 then Inr PageFree else if v = 3 then Inr PageWrite
      else if v = 4 then Inr BTreeSplit else if v = 5 then Inr Checkpoint else if v = 6 then Inr TransactionBegin
      else if v = 7 then Inr TransactionCommit else if v = 8 then Inr TransactionRollback
      else if v = 9 then Inr KvSet else if v = 10 then Inr KvDelete else if v = 11 then Inr KvTombstone
      else if v = 12 then Inr EdgeInsert else Inl (Err (InvalidHeader ''record_type'')))"

text \<open>The last argument of every record is its time stamp.\<close>

datatype wal_record =
    Page_Allocate (lsn: u64) (record_page: u64) u64
  | Page_Free (lsn: u64) (record_page: u64) u32 u64
  | Page_Write (lsn: u64) (record_page: u64) u32 bytes u32 u64
  | BTree_Split (lsn: u64) u64 u64 u64 u8 u64
  | Wal_Checkpoint (lsn: u64) u64 u64 u32 u64 bytes u64
  | Transaction_Begin u64 (lsn: u64) u64
  | Transaction_Commit u64 (lsn: u64) u64
  | Transaction_Rollback u64 (lsn: u64) u64
  | Kv_Set_Record (lsn: u64) bytes bytes u8 "u64 option" u64
  | Kv_Delete_Record (lsn: u64) bytes u64
  | Kv_Tombstone (lsn: u64) bytes "bytes option" u8 u64
  | Edge_Insert_Record (lsn: u64) i64 i64 u8 (record_page: u64) u64

fun record_type :: "wal_record \<Rightarrow> wal_record_type" where
  "record_type (Page_Allocate _ _ _) = PageAllocate"
| "record_type (Page_Free _ _ _ _) = PageFree"
| "record_type (Page_Write _ _ _ _ _ _) = PageWrite"
| "record_type (BTree_Split _ _ _ _ _ _) = BTreeSplit"
| "record_type (Wal_Checkpoint _ _ _ _ _ _ _) = Checkpoint"
| "record_type (Transaction_Begin _ _ _) = TransactionBegin"
| "record_type (Transaction_Commit _ _ _) = TransactionCommit"
| "record_type (Transaction_Rollback _ _ _) = TransactionRollback"
| "record_type (Kv_Set_Record _ _ _ _ _ _) = KvSet"
| "record_type (Kv_Delete_Record _ _ _) = KvDelete"
| "record_type (Kv_Tombstone _ _ _ _ _) = KvTombstone"
| "record_type (Edge_Insert_Record _ _ _ _ _ _) = EdgeInsert"

definition is_data_modifying :: "wal_record \<Rightarrow> bool" where
  "is_data_modifying r \<longleftrightarrow> record_type r \<in> {PageAllocate, PageFree, PageWrite, BTreeSplit}"

definition is_transaction_control :: "wal_record \<Rightarrow> bool" where
  "is_transaction_control r \<longleftrightarrow> record_type r \<in> {TransactionBegin, TransactionCommit, TransactionRollback}"

definition is_checkpoint :: "wal_record \<Rightarrow> bool" where
  "is_checkpoint r \<longleftrightarrow> record_type r = Checkpoint"

record bincode =
  bin_serialize :: "wal_record \<Rightarrow> bytes option"
  bin_deserialize :: "bytes \<Rightarrow> wal_record option"

definition record_to_bytes :: "bincode \<Rightarrow> wal_record \<Rightarrow> bytes result" where
  "record_to_bytes bc r =
     (case bin_serialize bc r of
        None \<Rightarrow> Inl (Err BincodeError)
      | Some bs \<Rightarrow>
          if MAX_RECORD_SIZE < length bs then Inl (Err (RecordTooLarge (of_nat (length bs)) (of_nat MAX_RECORD_SIZE)))
          else Inr bs)"

definition record_from_bytes :: "bincode \<Rightarrow> bytes \<Rightarrow> wal_record result" where
  "record_from_bytes bc bs = (case bin_deserialize bc bs of None \<Rightarrow> Inl (Err BincodeError) | Some r \<Rightarrow> Inr r)"

definition calculate_checksum :: "bincode \<Rightarrow> wal_record \<Rightarrow> u64" where
  "calculate_checksum bc r = (case record_to_bytes bc r of Inl _ \<Rightarrow> 0 | Inr bs \<Rightarrow> xor_checksum bs)"

definition page_write_record :: "u64 \<Rightarrow> u32 \<Rightarrow> bytes \<Rightarrow> u64 \<Rightarrow> u64 \<Rightarrow> wal_record" where
  "page_write_record page_id offset data ln now =
     Page_Write ln page_id offset data (ucast (xor_checksum data)) now"

definition btree_split_record :: "u64 \<Rightarrow> u64 \<Rightarrow> u64 \<Rightarrow> bool \<Rightarrow> u64 \<Rightarrow> u64 \<Rightarrow> wal_record" where
  "btree_split_record original new key is_leaf ln now =
     BTree_Split ln original new key (if is_leaf then 1 else 0) now"

definition checkpoint_record :: "u64 \<Rightarrow> u64 \<Rightarrow> u32 \<Rightarrow> u64 \<Rightarrow> persistent_header_v3 \<Rightarrow> u64 \<Rightarrow> u64 \<Rightarrow> wal_record" where
  "checkpoint_record root pages height free_head header ln now =
     Wal_Checkpoint ln root pages height free_head (header_to_bytes header) now"

section \<open>The writer\<close>

record wal_writer =
  current_lsn :: u64
  committed_lsn :: u64
  wal_buffer :: bytes
  flush_threshold :: nat
  wal_file :: "bytes option"

datatype access = Read_Only | Write_Only

definition read_handle :: "access \<Rightarrow> nat \<Rightarrow> nat \<Rightarrow> bytes \<Rightarrow> bytes result" where
  "read_handle mode off n file =
     (case mode of Write_Only \<Rightarrow> Inl (Err IoError)
      | Read_Only \<Rightarrow> if off + n \<le> length file then Inr (slice file off n) else Inl (Err IoError))"

definition read_header :: "(wal_writer, unit) action" where
  "read_header w =
     (case wal_file w of
        None \<Rightarrow> (Inl (Err IoError), w)
      | Some file \<Rightarrow>
          (case bindR (read_handle Read_Only 0 V3_WAL_HEADER_SIZE file) (\<lambda>bs.
                bindR (wal_header_from_bytes bs) (\<lambda>h. bindR (wal_header_validate h) (\<lambda>_. Inr h))) of
             Inl e \<Rightarrow> (Inl e, w)
           | Inr h \<Rightarrow> (Inr (), w\<lparr>current_lsn := wh_current_lsn h, committed_lsn := wh_committed_lsn h\<rparr>)))"

definition wal_writer_new :: "u64 \<Rightarrow> bytes option \<Rightarrow> wal_writer result" where
  "wal_writer_new start_lsn file =
     (let w = \<lparr>current_lsn = start_lsn, committed_lsn = LSN_INVALID, wal_buffer = [],
                flush_threshold = 64 * 1024, wal_file = file\<rparr>
      in if file \<noteq> None then
           (case read_header w of (Inl e, _) \<Rightarrow> Inl e | (Inr _, w') \<Rightarrow> Inr w')
         else Inr w)"

definition write_header :: "u64 \<Rightarrow> (wal_writer, unit) action" where
  "write_header now w =
     (Inr (), w\<lparr>wal_file := Some (wal_header_to_bytes (wal_header_new now
        \<lparr>wh_current_lsn := current_lsn w, wh_committed_lsn := committed_lsn w\<rparr>))\<rparr>)"

definition wal_flush :: "(wal_writer, unit) action" where
  "wal_flush w =
     (if wal_buffer w = [] then (Inr (), w)
      else (Inr (), w\<lparr>wal_file := Some ((case wal_file w of None \<Rightarrow> [] | Some f \<Rightarrow> f) @ wal_buffer w),
        wal_buffer := []\<rparr>))"

definition wal_frame :: "bytes \<Rightarrow> bytes" where
  "wal_frame bs = to_le (of_nat (length bs) :: u32) @ bs"

definition append_record :: "bincode \<Rightarrow> wal_record \<Rightarrow> (wal_writer, unit) action" where
  "append_record bc r w =
     (case record_to_bytes bc r of
        Inl e \<Rightarrow> (Inl e, w)
      | Inr bs \<Rightarrow>
          if MAX_RECORD_SIZE < length bs then (Inl (Err SerializationError), w)
          else
            let w1 = w\<lparr>wal_buffer := wal_buffer w @ wal_frame bs\<rparr>
            in bindS (if flush_threshold w1 \<le> length (wal_buffer w1) then wal_flush else returnS ())
                 (\<lambda>_ w2. (Inr (), w2\<lparr>current_lsn := lsn_next (current_lsn w2)\<rparr>)) w1)"

text \<open>The header is updated over a handle opened with \<open>write(true)\<close> alone.\<close>

definition update_header :: "(wal_writer, unit) action" where
  "update_header w =
     (case wal_file w of
        None \<Rightarrow> (Inl (Err IoError), w)
      | Some file \<Rightarrow>
          (case bindR (read_handle Write_Only 0 V3_WAL_HEADER_SIZE file) wal_header_from_bytes of
             Inl e \<Rightarrow> (Inl e, w)
           | Inr h \<Rightarrow>
               (Inr (), w\<lparr>wal_file := Some (blit file 0 (wal_header_to_bytes
                  (h\<lparr>wh_current_lsn := current_lsn w, wh_committed_lsn := committed_lsn w\<rparr>)))\<rparr>)))"

definition wal_commit :: "(wal_writer, unit) action" where
  "wal_commit w = update_header (w\<lparr>committed_lsn := current_lsn w\<rparr>)"

definition wal_truncate :: "(wal_writer, unit) action" where
  "wal_truncate w = (Inr (), w\<lparr>wal_file := None\<rparr>)"

definition set_flush_threshold :: "nat \<Rightarrow> wal_writer \<Rightarrow> wal_writer" where
  "set_flush_threshold n w = w\<lparr>flush_threshold := n\<rparr>"

text \<open>Each logging call builds its record at the current number, appends it and answers the number.\<close>

definition log_record :: "bincode \<Rightarrow> (u64 \<Rightarrow> wal_record) \<Rightarrow> (wal_writer, u64) action" where
  "log_record bc build w =
     (let r = build (current_lsn w) in bindS (append_record bc r) (\<lambda>_. returnS (lsn r)) w)"

definition log_page_allocate :: "bincode \<Rightarrow> u64 \<Rightarrow> u64 \<Rightarrow> (wal_writer, u64) action" where
  "log_page_allocate bc now page_id = log_record bc (\<lambda>ln. Page_Allocate ln page_id now)"

definition log_page_free :: "bincode \<Rightarrow> u64 \<Rightarrow> u64 \<Rightarrow> u32 \<Rightarrow> (wal_writer, u64) action" where
  "log_page_free bc now page_id checksum = log_record bc (\<lambda>ln. Page_Free ln page_id checksum now)"

definition log_page_write :: "bincode \<Rightarrow> u64 \<Rightarrow> u64 \<Rightarrow> u32 \<Rightarrow> bytes \<Rightarrow> (wal_writer, u64) action" where
  "log_page_write bc now page_id offset data = log_record bc (\<lambda>ln. page_write_record page_id offset data ln now)"

definition log_btree_split :: "bincode \<Rightarrow> u64 \<Rightarrow> u64 \<Rightarrow> u64 \<Rightarrow> u64 \<Rightarrow> bool \<Rightarrow> (wal_writer, u64) action" where
  "log_btree_split bc now original new key page_type =
     log_record bc (\<lambda>ln. btree_split_record original new key page_type ln now)"

definition log_checkpoint :: "bincode \<Rightarrow> u64 \<Rightarrow> u64 \<Rightarrow> u64 \<Rightarrow> u32 \<Rightarrow> u64 \<Rightarrow> persistent_header_v3 \<Rightarrow> (wal_writer, u64) action" where
  "log_checkpoint bc now root pages height free_head header =
     log_record bc (\<lambda>ln. checkpoint_record root pages height free_head header ln now)"

definition log_transaction_begin :: "bincode \<Rightarrow> u64 \<Rightarrow> u64 \<Rightarrow> (wal_writer, u64) action" where
  "log_transaction_begin bc now tx = log_record bc (\<lambda>ln. Transaction_Begin tx ln now)"

definition log_transaction_commit :: "bincode \<Rightarrow> u64 \<Rightarrow> u64 \<Rightarrow> (wal_writer, u64) action" where
  "log_transaction_commit bc now tx = log_record bc (\<lambda>ln. Transaction_Commit tx ln now)"

definition log_transaction_rollback :: "bincode \<Rightarrow> u64 \<Rightarrow> u64 \<Rightarrow> (wal_writer, u64) action" where
  "log_transaction_rollback bc now tx = log_record bc (\<lambda>ln. Transaction_Rollback tx ln now)"

definition log_edge_insert :: "bincode \<Rightarrow> u64 \<Rightarrow> i64 \<Rightarrow> i64 \<Rightarrow> u8 \<Rightarrow> u64 \<Rightarrow> (wal_writer, u64) action" where
  "log_edge_insert bc now src dst dir page_id = log_record bc (\<lambda>ln. Edge_Insert_Record ln src dst dir page_id now)"

section \<open>Recovery\<close>

record wal_stats =
  records_processed :: nat
  records_applied :: nat
  records_skipped :: nat
  page_allocations :: nat
  page_frees :: nat
  page_writes :: nat
  btree_splits :: nat
  checkpoints :: nat

definition wal_stats_new :: wal_stats where
  "wal_stats_new = \<lparr>records_processed = 0, records_applied = 0, records_skipped = 0, page_allocations = 0,
     page_frees = 0, page_writes = 0, btree_splits = 0, checkpoints = 0\<rparr>"

definition has_activity :: "wal_stats \<Rightarrow> bool" where
  "has_activity st \<longleftrightarrow> 0 < records_processed st"

record wal_recovery =
  rec_pages :: "u64 \<Rightarrow> bytes option"
  rec_stats :: wal_stats
  rec_header :: "persistent_header_v3 option"
  rec_last_lsn :: u64

definition recovery_new :: wal_recovery where
  "recovery_new = \<lparr>rec_pages = (\<lambda>_. None), rec_stats = wal_stats_new, rec_header = None, rec_last_lsn = LSN_INVALID\<rparr>"

definition zero_page :: bytes where
  "zero_page = replicate 4096 0"

definition page_or_zero :: "u64 \<Rightarrow> wal_recovery \<Rightarrow> bytes" where
  "page_or_zero page_id rv = (case rec_pages rv page_id of None \<Rightarrow> zero_page | Some p \<Rightarrow> p)"

fun apply_record :: "wal_record \<Rightarrow> (wal_recovery, unit) action" where
  "apply_record (Page_Allocate ln page_id _) rv =
     (Inr (), rv\<lparr>rec_pages := (rec_pages rv)(page_id \<mapsto> zero_page),
        rec_stats := (rec_stats rv)\<lparr>page_allocations := page_allocations (rec_stats rv) + 1\<rparr>, rec_last_lsn := ln\<rparr>)"
| "apply_record (Page_Free ln page_id _ _) rv =
     (Inr (), rv\<lparr>rec_pages := (rec_pages rv)(page_id := None),
        rec_stats := (rec_stats rv)\<lparr>page_frees := page_frees (rec_stats rv) + 1\<rparr>, rec_last_lsn := ln\<rparr>)"
| "apply_record (Page_Write ln page_id offset data _ _) rv =
     (let p = page_or_zero page_id rv;
          p' = (if unat offset + length data \<le> length p then blit p (unat offset) data else p)
      in (Inr (), rv\<lparr>rec_pages := (rec_pages rv)(page_id \<mapsto> p'),
           rec_stats := (rec_stats rv)\<lparr>page_writes := page_writes (rec_stats rv) + 1\<rparr>, rec_last_lsn := ln\<rparr>))"
| "apply_record (BTree_Split ln _ new_page_id _ _ _) rv =
     (Inr (), rv\<lparr>rec_pages := (rec_pages rv)(new_page_id \<mapsto> zero_page),
        rec_stats := (rec_stats rv)\<lparr>btree_splits := btree_splits (rec_stats rv) + 1\<rparr>, rec_last_lsn := ln\<rparr>)"
| "apply_record (Wal_Checkpoint ln _ _ _ _ snapshot _) rv =
     bindS (\<lambda>rv. if snapshot = [] then (Inr (), rv)
            else case map_err (header_from_bytes snapshot) DeserializationError of
              Inl e \<Rightarrow> (Inl e, rv)
            | Inr h \<Rightarrow> (Inr (), rv\<lparr>rec_header := Some h\<rparr>))
       (\<lambda>_ rv. (Inr (), rv\<lparr>rec_stats := (rec_stats rv)\<lparr>checkpoints := checkpoints (rec_stats rv) + 1\<rparr>,
          rec_last_lsn := ln\<rparr>)) rv"
| "apply_record (Edge_Insert_Record ln _ _ _ page_id _) rv =
     (Inr (), rv\<lparr>rec_pages := (rec_pages rv)(page_id \<mapsto> page_or_zero page_id rv), rec_last_lsn := ln\<rparr>)"
| "apply_record r rv = (Inr (), rv\<lparr>rec_last_lsn := lsn r\<rparr>)"

definition skip_record :: "wal_recovery \<Rightarrow> wal_recovery" where
  "skip_record rv = rv\<lparr>rec_stats := (rec_stats rv)\<lparr>records_skipped := records_skipped (rec_stats rv) + 1\<rparr>\<rparr>"

definition replay_record :: "wal_record \<Rightarrow> wal_recovery \<Rightarrow> wal_recovery" where
  "replay_record r rv =
     (case apply_record r rv of
        (Inl _, rv') \<Rightarrow> skip_record rv'
      | (Inr _, rv') \<Rightarrow>
          rv'\<lparr>rec_stats := (rec_stats rv')\<lparr>records_applied := records_applied (rec_stats rv') + 1\<rparr>, rec_last_lsn := lsn r\<rparr>)"

text \<open>The loop over the bytes after the header; a frame of impossible size loses its four bytes only.\<close>

function recover_loop :: "bincode \<Rightarrow> bytes \<Rightarrow> wal_recovery \<Rightarrow> wal_recovery" where
  "recover_loop bc bs rv =
     (if bs = [] then rv
      else if length bs < 4 then skip_record rv
      else
        let size = unat (from_le (take 4 bs) :: u32); rest = drop 4 bs
        in if size = 0 \<or> MAX_RECORD_SIZE < size then recover_loop bc rest (skip_record rv)
           else if length rest < size then skip_record rv
           else
             let rv1 = rv\<lparr>rec_stats := (rec_stats rv)\<lparr>records_processed := records_processed (rec_stats rv) + 1\<rparr>\<rparr>
             in recover_loop bc (drop size rest)
                  (case record_from_bytes bc (take size rest) of
                     Inl _ \<Rightarrow> skip_record rv1
                   | Inr r \<Rightarrow> replay_record r rv1))"
  by pat_completeness auto
termination
  by (relation "measure (\<lambda>(bc, bs, rv). length bs)") auto

declare recover_loop.simps [simp del]

definition read_log_header :: "bytes \<Rightarrow> wal_header result" where
  "read_log_header file =
     bindR (read_handle Read_Only 0 V3_WAL_HEADER_SIZE file) (\<lambda>bs.
     bindR (wal_header_from_bytes bs) (\<lambda>h. bindR (wal_header_validate h) (\<lambda>_. Inr h)))"

definition recover :: "bincode \<Rightarrow> bytes option \<Rightarrow> (wal_recovery, unit) action" where
  "recover bc file rv =
     (case file of
        None \<Rightarrow> (Inr (), rv)
      | Some f \<Rightarrow>
          (case read_log_header f of
             Inl e \<Rightarrow> (Inl e, rv)
           | Inr _ \<Rightarrow> (Inr (), recover_loop bc (drop V3_WAL_HEADER_SIZE f) rv)))"

section \<open>The checkpoint file of the key-value store\<close>

definition KV_CHECKPOINT_MAGIC :: bytes where
  "KV_CHECKPOINT_MAGIC = [86, 51, 75, 86, 67, 75, 0, 2]"

definition write_kv_checkpoint :: "(bytes \<Rightarrow> bytes) \<Rightarrow> 'j json_codec \<Rightarrow> u64 list \<Rightarrow> u64 \<Rightarrow> 'j kv_store \<Rightarrow> bytes option" where
  "write_kv_checkpoint sha jc order now store =
     (let data = kv_to_bytes jc order now store
      in Some (KV_CHECKPOINT_MAGIC @ to_le (2 :: u32) @ to_le (u32_len (length data)) @ sha data @ data))"

text \<open>The state is the checkpoint file and the store; a corrupt file is deleted.\<close>

definition drop_corrupt :: "fault \<Rightarrow> 'j kv_store \<Rightarrow> bool result \<times> (bytes option \<times> 'j kv_store)" where
  "drop_corrupt e store = (Inl e, (None, store))"

definition read_kv_checkpoint ::
  "(bytes \<Rightarrow> bytes) \<Rightarrow> (bytes \<Rightarrow> u64) \<Rightarrow> 'j json_codec \<Rightarrow> u64 \<Rightarrow> (bytes option \<times> 'j kv_store, bool) action" where
  "read_kv_checkpoint sha hash jc now = (\<lambda>(file, store).
     case file of
       None \<Rightarrow> (Inr False, (file, store))
     | Some f \<Rightarrow>
         (case cursor_read 8 f of
            Inl e \<Rightarrow> drop_corrupt e store
          | Inr (magic, f1) \<Rightarrow>
              if take 6 magic \<noteq> take 6 KV_CHECKPOINT_MAGIC then drop_corrupt (Err (InvalidHeader ''magic'')) store
              else
                let has_checksum = magic ! 7 = 2
                in case bindR (cursor_read 4 f1) (\<lambda>(ver, f2).
                     bindR (cursor_read 4 f2) (\<lambda>(len, f3).
                     bindR (if has_checksum then bindR (cursor_read 32 f3) (\<lambda>(c, f4). Inr (Some c, f4))
                            else Inr (None, f3)) (\<lambda>(stored, f4).
                     bindR (cursor_read (unat (from_le len :: u32)) f4) (\<lambda>(data, _).
                       if stored \<noteq> None \<and> stored \<noteq> Some (sha data) then Inl (Err (InvalidHeader ''checksum''))
                       else Inr data)))) of
                     Inl e \<Rightarrow> drop_corrupt e store
                   | Inr data \<Rightarrow>
                       (case kv_from_bytes hash jc now data store of
                          (Inl _, store') \<Rightarrow> drop_corrupt (Err (InvalidHeader ''checkpoint_data'')) store'
                        | (Inr _, store') \<Rightarrow> (Inr True, (file, store')))))"

section \<open>Recovery of the key-value store\<close>

definition apply_kv :: "(bytes \<Rightarrow> u64) \<Rightarrow> 'j json_codec \<Rightarrow> u64 \<Rightarrow> wal_record \<Rightarrow> 'j kv_store \<times> nat \<Rightarrow> 'j kv_store \<times> nat" where
  "apply_kv hash jc now r = (\<lambda>(store, n).
     case r of
       Kv_Set_Record ln key value_bytes value_type ttl _ \<Rightarrow>
         (case value_from_bytes jc value_bytes value_type of
            None \<Rightarrow> (store, n)
          | Some v \<Rightarrow> (kv_set hash now key v ttl ln store, n + 1))
     | Kv_Delete_Record ln key _ \<Rightarrow> (kv_delete hash now key ln store, n + 1)
     | Kv_Tombstone ln key _ _ _ \<Rightarrow> (kv_set hash now key Kv_Null None ln store, n + 1)
     | _ \<Rightarrow> (store, n))"

function kv_loop :: "bincode \<Rightarrow> (wal_record \<Rightarrow> 'b \<Rightarrow> 'b) \<Rightarrow> bytes \<Rightarrow> 'b \<Rightarrow> 'b" where
  "kv_loop bc step bs acc =
     (if length bs < 4 then acc
      else
        let size = unat (from_le (take 4 bs) :: u32); rest = drop 4 bs
        in if size = 0 \<or> MAX_RECORD_SIZE < size then kv_loop bc step rest acc
           else if length rest < size then acc
           else kv_loop bc step (drop size rest)
             (case record_from_bytes bc (take size rest) of Inl _ \<Rightarrow> acc | Inr r \<Rightarrow> step r acc))"
  by pat_completeness auto
termination
  by (relation "measure (\<lambda>(bc, step, bs, acc). length bs)") auto

declare kv_loop.simps [simp del]

definition recover_kv ::
  "bincode \<Rightarrow> (bytes \<Rightarrow> bytes) \<Rightarrow> (bytes \<Rightarrow> u64) \<Rightarrow> 'j json_codec \<Rightarrow> u64 \<Rightarrow> bytes option \<Rightarrow>
   (bytes option \<times> 'j kv_store, nat) action" where
  "recover_kv bc sha hash jc now file = (\<lambda>(checkpoint, store).
     case file of
       None \<Rightarrow>
         (case read_kv_checkpoint sha hash jc now (checkpoint, store) of
            (Inr found, s') \<Rightarrow> (Inr (if found then 1 else 0), s')
          | (Inl _, s') \<Rightarrow> (Inr 0, s'))
     | Some f \<Rightarrow>
         (case read_log_header f of
            Inl e \<Rightarrow> (Inl e, (checkpoint, store))
          | Inr _ \<Rightarrow>
              let (store', n) = kv_loop bc (apply_kv hash jc now) (drop V3_WAL_HEADER_SIZE f) (store, 0)
              in (Inr n, (checkpoint, store'))))"

section \<open>Headers are read back\<close>

definition header_shaped :: "wal_header \<Rightarrow> bool" where
  "header_shaped h \<longleftrightarrow> length (wh_magic h) = 8 \<and> length (wh_reserved h) = 3 \<and> wh_reserved h ! 2 = 0"

lemma wal_header_layout:
  assumes "header_shaped h"
  shows "wal_header_to_bytes h = wh_magic h @ to_le (wh_version h) @ to_le (wh_page_size h) @ to_le (wh_created_at h) @
    to_le (wh_current_lsn h) @ to_le (wh_committed_lsn h) @ to_le (wh_checkpointed_lsn h) @
    to_le (wh_reserved h ! 0) @ to_le (wh_reserved h ! 1)"
  unfolding wal_header_to_bytes_def using assms
  by (subst write_fields_contiguous [where n = 0]) (simp_all add: header_shaped_def byte_simps V3_WAL_HEADER_SIZE_def)

lemma length_wal_header: "header_shaped h \<Longrightarrow> length (wal_header_to_bytes h) = V3_WAL_HEADER_SIZE"
  by (simp add: wal_header_layout header_shaped_def byte_simps V3_WAL_HEADER_SIZE_def)

lemma wal_header_from_to_bytes:
  assumes "header_shaped h"
  shows "wal_header_from_bytes (wal_header_to_bytes h @ rest) = Inr h"
proof -
  obtain a b c where r: "wh_reserved h = [a, b, c]" "c = 0"
    using assms by (auto simp: header_shaped_def numeral_3_eq_3 length_Suc_conv)
  have "length (wh_magic h) = 8" using assms by (simp add: header_shaped_def)
  then show ?thesis
    by (simp add: wal_header_from_bytes_def wal_header_layout [OF assms] extract_le_def byte_simps V3_WAL_HEADER_SIZE_def r)
qed

lemma wal_header_new_ok:
  "header_shaped (wal_header_new now\<lparr>wh_current_lsn := c, wh_committed_lsn := d\<rparr>)"
  "lsn_is_valid c \<Longrightarrow> d \<le> c \<Longrightarrow> wal_header_validate (wal_header_new now\<lparr>wh_current_lsn := c, wh_committed_lsn := d\<rparr>) = Inr ()"
  by (auto simp: header_shaped_def wal_header_new_def V3_WAL_MAGIC_def wal_header_validate_def LSN_INVALID_def)

lemma read_log_header_ok:
  assumes "header_shaped h" "wal_header_validate h = Inr ()"
  shows "read_log_header (wal_header_to_bytes h @ rest) = Inr h"
proof -
  have l: "length (wal_header_to_bytes h) = V3_WAL_HEADER_SIZE" by (rule length_wal_header [OF assms(1)])
  then have "read_handle Read_Only 0 V3_WAL_HEADER_SIZE (wal_header_to_bytes h @ rest) = Inr (wal_header_to_bytes h)"
    by (simp add: read_handle_def)
  then show ?thesis
    using wal_header_from_to_bytes [OF assms(1), of "[]"] assms(2) by (simp add: read_log_header_def)
qed

section \<open>Frames are read back\<close>

text \<open>What the code relies on of \<open>bincode\<close>: it reads back what it wrote, which is never empty.\<close>

definition bincode_ok :: "bincode \<Rightarrow> bool" where
  "bincode_ok bc \<longleftrightarrow> (\<forall>r bs. bin_serialize bc r = Some bs \<longrightarrow> bs \<noteq> [] \<and> bin_deserialize bc bs = Some r)"

definition loggable :: "bincode \<Rightarrow> wal_record \<Rightarrow> bool" where
  "loggable bc r \<longleftrightarrow> (\<exists>bs. record_to_bytes bc r = Inr bs)"

definition record_bytes :: "bincode \<Rightarrow> wal_record \<Rightarrow> bytes" where
  "record_bytes bc r = (case bin_serialize bc r of None \<Rightarrow> [] | Some bs \<Rightarrow> bs)"

definition log_bytes :: "bincode \<Rightarrow> wal_record list \<Rightarrow> bytes" where
  "log_bytes bc rs = concat (map (\<lambda>r. wal_frame (record_bytes bc r)) rs)"

lemma log_bytes_simps [simp]:
  "log_bytes bc [] = []"
  "log_bytes bc (r # rs) = wal_frame (record_bytes bc r) @ log_bytes bc rs"
  "log_bytes bc (rs @ rs') = log_bytes bc rs @ log_bytes bc rs'"
  by (simp_all add: log_bytes_def)

lemma loggable_bytes:
  assumes "bincode_ok bc" "loggable bc r"
  shows "record_to_bytes bc r = Inr (record_bytes bc r)" "0 < length (record_bytes bc r)"
    "length (record_bytes bc r) \<le> MAX_RECORD_SIZE" "record_from_bytes bc (record_bytes bc r) = Inr r"
  using assms unfolding bincode_ok_def loggable_def
  by (auto simp: record_to_bytes_def record_bytes_def record_from_bytes_def split: option.splits if_splits)

lemma to_le_u32_nonempty [simp]: "to_le (w :: u32) \<noteq> []"
  using length_to_le [of w] by auto

lemma frame_read:
  assumes "bincode_ok bc" "loggable bc r"
  shows "take 4 (wal_frame (record_bytes bc r) @ bs) = to_le (of_nat (length (record_bytes bc r)) :: u32)"
    "unat (of_nat (length (record_bytes bc r)) :: u32) = length (record_bytes bc r)"
    "drop 4 (wal_frame (record_bytes bc r) @ bs) = record_bytes bc r @ bs"
  using loggable_bytes(3) [OF assms]
  by (simp_all add: wal_frame_def length_to_le unat_of_nat_u32 MAX_RECORD_SIZE_def)

definition replay :: "wal_record \<Rightarrow> wal_recovery \<Rightarrow> wal_recovery" where
  "replay r rv =
     replay_record r (rv\<lparr>rec_stats := (rec_stats rv)\<lparr>records_processed := records_processed (rec_stats rv) + 1\<rparr>\<rparr>)"

lemma recover_loop_frame:
  assumes "bincode_ok bc" "loggable bc r"
  shows "recover_loop bc (wal_frame (record_bytes bc r) @ bs) rv = recover_loop bc bs (replay r rv)"
proof -
  define data where "data = wal_frame (record_bytes bc r) @ bs"
  note f = frame_read(1,3) [OF assms, of bs, folded data_def] frame_read(2) [OF assms] and l = loggable_bytes [OF assms]
  have "4 \<le> length data" by (simp add: data_def wal_frame_def length_to_le)
  then have "recover_loop bc data rv = recover_loop bc bs (replay r rv)"
    using l by (subst recover_loop.simps) (auto simp: f Let_def replay_def)
  then show ?thesis by (simp only: data_def)
qed

lemma recover_loop_frames:
  "bincode_ok bc \<Longrightarrow> \<forall>r \<in> set rs. loggable bc r \<Longrightarrow>
   recover_loop bc (log_bytes bc rs @ bs) rv = recover_loop bc bs (fold replay rs rv)"
  by (induction rs arbitrary: rv) (simp_all add: recover_loop_frame)

lemma kv_loop_frame:
  assumes "bincode_ok bc" "loggable bc r"
  shows "kv_loop bc step (wal_frame (record_bytes bc r) @ bs) acc = kv_loop bc step bs (step r acc)"
proof -
  define data where "data = wal_frame (record_bytes bc r) @ bs"
  note f = frame_read(1,3) [OF assms, of bs, folded data_def] frame_read(2) [OF assms] and l = loggable_bytes [OF assms]
  have "4 \<le> length data" by (simp add: data_def wal_frame_def length_to_le)
  then have "kv_loop bc step data acc = kv_loop bc step bs (step r acc)"
    using l by (subst kv_loop.simps) (auto simp: f Let_def)
  then show ?thesis by (simp only: data_def)
qed

lemma kv_loop_frames:
  "bincode_ok bc \<Longrightarrow> \<forall>r \<in> set rs. loggable bc r \<Longrightarrow>
   kv_loop bc step (log_bytes bc rs @ bs) acc = kv_loop bc step bs (fold step rs acc)"
  by (induction rs arbitrary: acc) (simp_all add: kv_loop_frame)

text \<open>A frame cut short ends both loops.\<close>

lemma torn_frame:
  assumes "bincode_ok bc" "loggable bc r" "n < length (wal_frame (record_bytes bc r))"
  shows "recover_loop bc (take n (wal_frame (record_bytes bc r))) rv = (if n = 0 then rv else skip_record rv)"
    "kv_loop bc step (take n (wal_frame (record_bytes bc r))) acc = acc"
proof -
  let ?bs = "record_bytes bc r"
  note l = loggable_bytes [OF assms(1,2)]
  show "recover_loop bc (take n (wal_frame ?bs)) rv = (if n = 0 then rv else skip_record rv)"
    "kv_loop bc step (take n (wal_frame ?bs)) acc = acc"
  proof (atomize (full), cases "n < 4")
    case True
    then show "recover_loop bc (take n (wal_frame ?bs)) rv = (if n = 0 then rv else skip_record rv) \<and>
        kv_loop bc step (take n (wal_frame ?bs)) acc = acc"
      by (subst recover_loop.simps, subst kv_loop.simps) (simp add: wal_frame_def length_to_le)
  next
    case False
    then have t: "take n (wal_frame ?bs) = to_le (of_nat (length ?bs) :: u32) @ take (n - 4) ?bs"
      by (simp add: wal_frame_def length_to_le)
    have "n - 4 < length ?bs" using assms(3) False by (simp add: wal_frame_def length_to_le)
    then show "recover_loop bc (take n (wal_frame ?bs)) rv = (if n = 0 then rv else skip_record rv) \<and>
        kv_loop bc step (take n (wal_frame ?bs)) acc = acc"
      unfolding t using l False frame_read(2) [OF assms(1,2)]
      by (subst recover_loop.simps, subst kv_loop.simps) (simp add: length_to_le Let_def)
  qed
qed

text \<open>How many whole records the first \<open>n\<close> bytes of a log hold.\<close>

fun whole :: "bincode \<Rightarrow> wal_record list \<Rightarrow> nat \<Rightarrow> nat" where
  "whole bc [] n = 0"
| "whole bc (r # rs) n =
     (let k = length (wal_frame (record_bytes bc r)) in if n < k then 0 else Suc (whole bc rs (n - k)))"

lemma whole_spec:
  "whole bc rs n \<le> length rs" "length (log_bytes bc (take (whole bc rs n) rs)) \<le> n"
  "whole bc rs n < length rs \<Longrightarrow> n < length (log_bytes bc (take (Suc (whole bc rs n)) rs))"
  by (induction bc rs n rule: whole.induct) (auto simp: Let_def)

lemma whole_all: "length (log_bytes bc rs) \<le> n \<Longrightarrow> whole bc rs n = length rs"
  by (induction bc rs n rule: whole.induct) (auto simp: Let_def)

lemma recover_loop_prefix:
  assumes "bincode_ok bc"
  shows "\<forall>r \<in> set rs. loggable bc r \<Longrightarrow>
    \<exists>torn. recover_loop bc (take n (log_bytes bc rs)) rv =
      (if torn then skip_record else id) (fold replay (take (whole bc rs n) rs) rv) \<and>
      (torn \<longrightarrow> n < length (log_bytes bc rs))"
proof (induction rs arbitrary: n rv)
  case Nil
  then show ?case by (auto simp: recover_loop.simps [of bc "[]"])
next
  case (Cons r rs)
  let ?k = "length (wal_frame (record_bytes bc r))"
  show ?case
  proof (cases "n < ?k")
    case True
    then have "recover_loop bc (take n (log_bytes bc (r # rs))) rv = (if n = 0 then rv else skip_record rv)"
      using torn_frame(1) [OF assms, of r n rv] Cons.prems by simp
    then show ?thesis using True by (intro exI [of _ "n \<noteq> 0"]) simp
  next
    case False
    then have "recover_loop bc (take n (log_bytes bc (r # rs))) rv = recover_loop bc (take (n - ?k) (log_bytes bc rs)) (replay r rv)"
      using recover_loop_frame [OF assms] Cons.prems by simp
    moreover obtain torn where "recover_loop bc (take (n - ?k) (log_bytes bc rs)) (replay r rv) =
        (if torn then skip_record else id) (fold replay (take (whole bc rs (n - ?k)) rs) (replay r rv))"
      "torn \<longrightarrow> n - ?k < length (log_bytes bc rs)"
      using Cons.IH [of "n - ?k" "replay r rv"] Cons.prems by auto
    ultimately show ?thesis using False by (intro exI [of _ torn]) (auto simp: Let_def)
  qed
qed

lemma kv_loop_prefix:
  assumes "bincode_ok bc"
  shows "\<forall>r \<in> set rs. loggable bc r \<Longrightarrow>
    kv_loop bc step (take n (log_bytes bc rs)) acc = fold step (take (whole bc rs n) rs) acc"
proof (induction rs arbitrary: n acc)
  case Nil
  then show ?case by (simp add: kv_loop.simps [of bc step "[]"])
next
  case (Cons r rs)
  then show ?case
    using torn_frame(2) [OF assms, of r n step acc] kv_loop_frame [OF assms, of r step] by (simp add: Let_def)
qed

section \<open>The writer appends frames\<close>

text \<open>What the log holds, on disk and in the buffer together.\<close>

definition log_content :: "wal_writer \<Rightarrow> bytes" where
  "log_content w = (case wal_file w of None \<Rightarrow> [] | Some f \<Rightarrow> f) @ wal_buffer w"

lemma wal_flush_content:
  "wal_flush w = (Inr (), snd (wal_flush w)) \<and> log_content (snd (wal_flush w)) = log_content w \<and>
   wal_buffer (snd (wal_flush w)) = [] \<and> current_lsn (snd (wal_flush w)) = current_lsn w \<and>
   committed_lsn (snd (wal_flush w)) = committed_lsn w"
  by (simp add: wal_flush_def log_content_def)

lemma append_record_ok:
  assumes "bincode_ok bc" "loggable bc r"
  shows "append_record bc r w = (Inr (), snd (append_record bc r w)) \<and>
    log_content (snd (append_record bc r w)) = log_content w @ wal_frame (record_bytes bc r) \<and>
    current_lsn (snd (append_record bc r w)) = current_lsn w + 1 \<and>
    committed_lsn (snd (append_record bc r w)) = committed_lsn w"
proof -
  have "\<not> MAX_RECORD_SIZE < length (record_bytes bc r)" using loggable_bytes(3) [OF assms] by simp
  then show ?thesis using loggable_bytes(1) [OF assms]
    by (simp add: append_record_def Let_def log_content_def wal_flush_def returnS_def lsn_next_def bindS_def)
qed

text \<open>Appending a list of records, one call after another.\<close>

fun append_all :: "bincode \<Rightarrow> wal_record list \<Rightarrow> (wal_writer, unit) action" where
  "append_all bc [] w = (Inr (), w)"
| "append_all bc (r # rs) w = bindS (append_record bc r) (\<lambda>_. append_all bc rs) w"

lemma append_all_ok:
  assumes "bincode_ok bc"
  shows "\<forall>r \<in> set rs. loggable bc r \<Longrightarrow>
    \<exists>w'. append_all bc rs w = (Inr (), w') \<and> log_content w' = log_content w @ log_bytes bc rs \<and>
      current_lsn w' = current_lsn w + of_nat (length rs) \<and> committed_lsn w' = committed_lsn w"
proof (induction rs arbitrary: w)
  case (Cons r rs)
  let ?w1 = "snd (append_record bc r w)"
  have a: "append_record bc r w = (Inr (), ?w1)" "log_content ?w1 = log_content w @ wal_frame (record_bytes bc r)"
    "current_lsn ?w1 = current_lsn w + 1" "committed_lsn ?w1 = committed_lsn w"
    using append_record_ok [OF assms, of r w] Cons.prems by simp_all
  obtain w' where "append_all bc rs ?w1 = (Inr (), w')" "log_content w' = log_content ?w1 @ log_bytes bc rs"
    "current_lsn w' = current_lsn ?w1 + of_nat (length rs)" "committed_lsn w' = committed_lsn ?w1"
    using Cons.IH [of ?w1] Cons.prems by auto
  then show ?case using a by (intro exI [of _ w']) (use bindS_simps(1) [of "append_record bc r" w "()" ?w1 "\<lambda>_. append_all bc rs"] in simp)
qed simp

text \<open>A session: the header is written, the records are appended, the buffer is flushed.\<close>

definition log_session :: "bincode \<Rightarrow> u64 \<Rightarrow> wal_record list \<Rightarrow> (wal_writer, unit) action" where
  "log_session bc now rs = bindS (write_header now) (\<lambda>_. bindS (append_all bc rs) (\<lambda>_. wal_flush))"

definition fresh_writer :: "wal_writer" where
  "fresh_writer = \<lparr>current_lsn = 1, committed_lsn = LSN_INVALID, wal_buffer = [], flush_threshold = 64 * 1024, wal_file = None\<rparr>"

lemma fresh_writer_new: "wal_writer_new 1 None = Inr fresh_writer"
  by (simp add: wal_writer_new_def fresh_writer_def)

abbreviation session_header :: "u64 \<Rightarrow> wal_header" where
  "session_header now \<equiv> wal_header_new now\<lparr>wh_current_lsn := 1, wh_committed_lsn := 0\<rparr>"

lemma session_header_ok: "header_shaped (session_header now)" "wal_header_validate (session_header now) = Inr ()"
  using wal_header_new_ok(1) [where now = now and c = 1 and d = 0] wal_header_new_ok(2) [where now = now and c = 1 and d = 0]
  by (simp_all add: lsn_is_valid_def LSN_BEGIN_def)

lemma log_session_ok:
  assumes "bincode_ok bc" "\<forall>r \<in> set rs. loggable bc r"
  shows "\<exists>w. log_session bc now rs fresh_writer = (Inr (), w) \<and> wal_buffer w = [] \<and>
    wal_file w = Some (wal_header_to_bytes (session_header now) @ log_bytes bc rs) \<and>
    current_lsn w = 1 + of_nat (length rs) \<and> committed_lsn w = 0"
proof -
  let ?w0 = "fresh_writer\<lparr>wal_file := Some (wal_header_to_bytes (session_header now))\<rparr>"
  obtain w1 where w1: "append_all bc rs ?w0 = (Inr (), w1)" "log_content w1 = log_content ?w0 @ log_bytes bc rs"
    "current_lsn w1 = current_lsn ?w0 + of_nat (length rs)" "committed_lsn w1 = committed_lsn ?w0"
    using append_all_ok [OF assms, of ?w0] by blast
  define w where "w = snd (wal_flush w1)"
  have w: "wal_flush w1 = (Inr (), w)" "log_content w = log_content w1" "wal_buffer w = []"
    "current_lsn w = current_lsn w1" "committed_lsn w = committed_lsn w1"
    using wal_flush_content [of w1] by (simp_all add: w_def)
  have "write_header now fresh_writer = (Inr (), ?w0)" by (simp add: write_header_def fresh_writer_def LSN_INVALID_def)
  then have "log_session bc now rs fresh_writer = (Inr (), w)" using w1(1) w(1) by (simp add: log_session_def)
  moreover have "log_content w = wal_header_to_bytes (session_header now) @ log_bytes bc rs"
    using w(2) w1(2) by (simp only: log_content_def) (simp add: fresh_writer_def)
  then have "wal_file w = Some (wal_header_to_bytes (session_header now) @ log_bytes bc rs)"
    using w(3) length_wal_header [OF session_header_ok(1), of now]
    by (cases "wal_file w") (auto simp: log_content_def V3_WAL_HEADER_SIZE_def)
  ultimately show ?thesis using w w1 by (simp add: fresh_writer_def LSN_INVALID_def)
qed

text \<open>
  C25. Crash recovery. After a session that writes the header, appends records of any kind and flushes, the file
  cut off at any point behind the header is recovered without an error: exactly the records that lie in it
  whole are replayed, in order, and the whole file replays them all.
\<close>

theorem wal_crash_recovery:
  assumes "bincode_ok bc" "\<forall>r \<in> set rs. loggable bc r" "V3_WAL_HEADER_SIZE \<le> n"
  shows "\<exists>w k torn. log_session bc now rs fresh_writer = (Inr (), w) \<and>
    recover bc (map_option (take n) (wal_file w)) rv = (Inr (), (if torn then skip_record else id) (fold replay (take k rs) rv)) \<and>
    k \<le> length rs \<and> V3_WAL_HEADER_SIZE + length (log_bytes bc (take k rs)) \<le> n \<and>
    (k < length rs \<longrightarrow> n < V3_WAL_HEADER_SIZE + length (log_bytes bc (take (Suc k) rs))) \<and>
    (V3_WAL_HEADER_SIZE + length (log_bytes bc rs) \<le> n \<longrightarrow> k = length rs \<and> \<not> torn)"
proof -
  let ?hdr = "wal_header_to_bytes (session_header now)" and ?n = "n - V3_WAL_HEADER_SIZE"
  let ?k = "whole bc rs ?n"
  obtain w where w: "log_session bc now rs fresh_writer = (Inr (), w)" "wal_file w = Some (?hdr @ log_bytes bc rs)"
    using log_session_ok [OF assms(1,2)] by blast
  have l: "length ?hdr = V3_WAL_HEADER_SIZE" by (rule length_wal_header [OF session_header_ok(1)])
  obtain torn where t: "recover_loop bc (take ?n (log_bytes bc rs)) rv =
      (if torn then skip_record else id) (fold replay (take ?k rs) rv)" "torn \<longrightarrow> ?n < length (log_bytes bc rs)"
    using recover_loop_prefix [OF assms(1,2)] by blast
  have "take n (?hdr @ log_bytes bc rs) = ?hdr @ take ?n (log_bytes bc rs)" using assms(3) l by simp
  then have "recover bc (map_option (take n) (wal_file w)) rv =
      (Inr (), (if torn then skip_record else id) (fold replay (take ?k rs) rv))"
    using w(2) t(1) read_log_header_ok [OF session_header_ok] l by (simp add: recover_def)
  then show ?thesis
    using w(1) t(2) whole_spec [of bc rs ?n] whole_all [of bc rs ?n] assms(3)
    by (intro exI [of _ w] exI [of _ ?k] exI [of _ torn]) auto
qed

text \<open>
  A defect. The commit of a session always fails, because the header is read over a handle that may only
  write, and the header on disk keeps its first numbers: a writer reopened on the log starts again from number
  1, with nothing committed, however many records the log holds.
\<close>

theorem commit_never_persists:
  assumes "bincode_ok bc" "\<forall>r \<in> set rs. loggable bc r"
  shows "\<exists>w w'. log_session bc now rs fresh_writer = (Inr (), w) \<and> wal_commit w = (Inl (Err IoError), w') \<and>
    wal_file w' = wal_file w \<and> committed_lsn w' = current_lsn w \<and>
    wal_writer_new 1 (wal_file w') =
      Inr \<lparr>current_lsn = 1, committed_lsn = 0, wal_buffer = [], flush_threshold = 64 * 1024, wal_file = wal_file w\<rparr>"
proof -
  let ?hdr = "wal_header_to_bytes (session_header now)"
  obtain w where w: "log_session bc now rs fresh_writer = (Inr (), w)" "wal_file w = Some (?hdr @ log_bytes bc rs)"
    using log_session_ok [OF assms] by blast
  have "wal_commit w = (Inl (Err IoError), w\<lparr>committed_lsn := current_lsn w\<rparr>)"
    using w(2) by (simp add: wal_commit_def update_header_def read_handle_def)
  moreover have "wal_writer_new 1 (Some (?hdr @ log_bytes bc rs)) =
      Inr \<lparr>current_lsn = 1, committed_lsn = 0, wal_buffer = [], flush_threshold = 64 * 1024, wal_file = Some (?hdr @ log_bytes bc rs)\<rparr>"
    using read_log_header_ok [OF session_header_ok, of now "log_bytes bc rs"]
    by (simp add: wal_writer_new_def read_header_def read_log_header_def)
  ultimately show ?thesis using w by (intro exI [of _ w] exI [of _ "w\<lparr>committed_lsn := current_lsn w\<rparr>"]) simp
qed

lemma magic_not_frame:
  assumes "bincode_ok bc" "loggable bc r"
  shows "take 8 (wal_frame (record_bytes bc r) @ bs) \<noteq> V3_WAL_MAGIC"
proof
  assume "take 8 (wal_frame (record_bytes bc r) @ bs) = V3_WAL_MAGIC"
  then have "take 4 (take 8 (wal_frame (record_bytes bc r) @ bs)) = take 4 V3_WAL_MAGIC" by (rule arg_cong)
  moreover have "take 4 V3_WAL_MAGIC = [86, 51, 87, 65]" by (simp add: V3_WAL_MAGIC_def)
  moreover have "take 4 (take 8 xs) = take 4 xs" for xs :: bytes by (simp add: take_take)
  ultimately have "to_le (of_nat (length (record_bytes bc r)) :: u32) = [86, 51, 87, 65]"
    using frame_read(1) [OF assms, of bs] by (simp only:)
  then have "from_le (to_le (of_nat (length (record_bytes bc r)) :: u32)) = (from_le [86, 51, 87, 65] :: u32)" by simp
  then have "(of_nat (length (record_bytes bc r)) :: u32) = 0x41573356" by (simp add: push_bit_eq_mult)
  then have "length (record_bytes bc r) = 0x41573356" using frame_read(2) [OF assms] by simp
  then show False using loggable_bytes(3) [OF assms] by (simp add: MAX_RECORD_SIZE_def)
qed

text \<open>
  A defect. \<open>truncate\<close> deletes the file, and the next flush starts it without a header: a writer reopened on
  a log that was truncated and then written to fails, and so does its recovery.
\<close>

theorem truncated_log_unreadable:
  assumes "bincode_ok bc" "rs \<noteq> []" "\<forall>r \<in> set rs. loggable bc r" "wal_buffer w = []"
  shows "\<exists>w'. bindS wal_truncate (\<lambda>_. bindS (append_all bc rs) (\<lambda>_. wal_flush)) w = (Inr (), w') \<and>
    wal_file w' = Some (log_bytes bc rs) \<and> (\<exists>e. wal_writer_new 1 (wal_file w') = Inl e) \<and>
    (\<exists>e. recover bc (wal_file w') recovery_new = (Inl e, recovery_new))"
proof -
  let ?w0 = "w\<lparr>wal_file := None\<rparr>"
  obtain w1 where w1: "append_all bc rs ?w0 = (Inr (), w1)" "log_content w1 = log_content ?w0 @ log_bytes bc rs"
    using append_all_ok [OF assms(1,3), of ?w0] by blast
  define w' where "w' = snd (wal_flush w1)"
  have w': "wal_flush w1 = (Inr (), w')" "log_content w' = log_bytes bc rs" "wal_buffer w' = []"
    using wal_flush_content [of w1] w1(2) assms(4) by (simp_all add: w'_def log_content_def [of ?w0])
  obtain r rs' where rs: "rs = r # rs'" using assms(2) by (cases rs) auto
  have ne: "log_bytes bc rs \<noteq> []" by (simp add: rs wal_frame_def)
  then have disk: "wal_file w' = Some (log_bytes bc rs)" using w'(2,3) by (auto simp: log_content_def split: option.splits)
  have magic: "take 8 (log_bytes bc rs) \<noteq> V3_WAL_MAGIC"
    using magic_not_frame [OF assms(1), of r "log_bytes bc rs'"] assms(3) by (simp add: rs)
  have "\<exists>e. read_log_header (log_bytes bc rs) = Inl e"
  proof (cases "64 \<le> length (log_bytes bc rs)")
    case True
    then show ?thesis using magic
      by (simp add: read_log_header_def read_handle_def wal_header_from_bytes_def extract_le_def V3_WAL_HEADER_SIZE_def
          wal_header_validate_def slice_def)
  qed (simp add: read_log_header_def read_handle_def V3_WAL_HEADER_SIZE_def)
  then obtain e where e: "read_log_header (log_bytes bc rs) = Inl e" by blast
  have "wal_writer_new 1 (wal_file w') = Inl e"
    using e by (simp add: disk wal_writer_new_def read_header_def read_log_header_def)
  moreover have "recover bc (wal_file w') recovery_new = (Inl e, recovery_new)" using e by (simp add: disk recover_def)
  ultimately show ?thesis using w1(1) w'(1) disk by (intro exI [of _ w']) (simp add: wal_truncate_def)
qed

text \<open>The parts of a checkpoint file, in the order they are read.\<close>

definition checkpoint_head :: "(bytes \<Rightarrow> bytes) \<Rightarrow> bytes \<Rightarrow> bytes" where
  "checkpoint_head sha data = KV_CHECKPOINT_MAGIC @ to_le (2 :: u32) @ to_le (u32_len (length data)) @ sha data"

lemma checkpoint_parts:
  assumes "length (sha data) = 32" and pre: "pre = checkpoint_head sha data"
  shows "cursor_read 8 (pre @ d) = Inr (KV_CHECKPOINT_MAGIC, drop 8 (pre @ d))"
    "cursor_read 4 (drop 8 (pre @ d)) = Inr (to_le (2 :: u32), drop 12 (pre @ d))"
    "cursor_read 4 (drop 12 (pre @ d)) = Inr (to_le (u32_len (length data)), drop 16 (pre @ d))"
    "cursor_read 32 (drop 16 (pre @ d)) = Inr (sha data, d)"
    "KV_CHECKPOINT_MAGIC ! 7 = 2"
    "length d = n \<Longrightarrow> cursor_read n d = Inr (d, [])"
  using assms(1) by (simp_all add: pre checkpoint_head_def cursor_read_def KV_CHECKPOINT_MAGIC_def length_to_le)

lemma write_kv_checkpoint_bytes:
  "write_kv_checkpoint sha jc order now store =
    Some (checkpoint_head sha (kv_to_bytes jc order now store) @ kv_to_bytes jc order now store)"
  by (simp add: write_kv_checkpoint_def checkpoint_head_def Let_def)

lemma read_kv_checkpoint_parts:
  assumes "length data < 2 ^ 32" "length (sha data) = 32" "length d = length data"
  shows "read_kv_checkpoint sha hash jc now (Some (checkpoint_head sha data @ d), old) =
    (if sha d = sha data then
       (case kv_from_bytes hash jc now d old of
          (Inr _, new) \<Rightarrow> (Inr True, (Some (checkpoint_head sha data @ d), new))
        | (Inl _, new) \<Rightarrow> drop_corrupt (Err (InvalidHeader ''checkpoint_data'')) new)
     else drop_corrupt (Err (InvalidHeader ''checksum'')) old)"
proof -
  have len: "unat (from_le (to_le (u32_len (length data))) :: u32) = length data"
    using unat_u32_len [OF assms(1)] by simp
  note parts = checkpoint_parts [where sha = sha and data = data, OF assms(2) refl]
  show ?thesis
    unfolding read_kv_checkpoint_def
    by (simp only: prod.case option.case parts sum.case bindR_simps len Let_def if_True simp_thms)
      (auto simp: len assms(3) cursor_read_def split: prod.split sum.split)
qed

lemma checkpoint_reads_back:
  assumes "store_fits hash jc store" "set order = dom store" "length order < 2 ^ 32" "now \<noteq> - 1"
    and "length (kv_to_bytes jc order now store) < 2 ^ 32" "length (sha (kv_to_bytes jc order now store)) = 32"
  shows "\<exists>new. read_kv_checkpoint sha hash jc now (write_kv_checkpoint sha jc order now store, old) =
      (Inr True, (write_kv_checkpoint sha jc order now store, new)) \<and>
      (\<forall>key. read_latest hash now key new = read_latest hash now key store)"
proof -
  obtain new where new: "kv_from_bytes hash jc now (kv_to_bytes jc order now store) old = (Inr (), new)"
    "\<forall>key. read_latest hash now key new = read_latest hash now key store"
    using kv_checkpoint_roundtrip [OF assms(1-4), of old] by blast
  then show ?thesis
    unfolding write_kv_checkpoint_bytes by (simp add: read_kv_checkpoint_parts [where sha = sha, OF assms(5,6) refl])
qed

text \<open>
  C29. The checkpoint file of the key-value store. What is written is read back: every key keeps its newest
  value. A file whose data was changed, so that its hash is another, is answered with an error and deleted, and
  the store keeps its contents.
\<close>

theorem kv_checkpoint_file:
  assumes "store_fits hash jc store" "set order = dom store" "length order < 2 ^ 32" "now \<noteq> - 1"
    and data: "data = kv_to_bytes jc order now store" "length data < 2 ^ 32" "length (sha data) = 32"
    and bad: "length bad = length data" "sha bad \<noteq> sha data"
  shows "(\<exists>new. read_kv_checkpoint sha hash jc now (write_kv_checkpoint sha jc order now store, old) =
      (Inr True, (write_kv_checkpoint sha jc order now store, new)) \<and>
      (\<forall>key. read_latest hash now key new = read_latest hash now key store)) \<and>
    (\<exists>pre. write_kv_checkpoint sha jc order now store = Some (pre @ data) \<and>
      read_kv_checkpoint sha hash jc now (Some (pre @ bad), old) = (Inl (Err (InvalidHeader ''checksum'')), (None, old)))"
proof (intro conjI exI [of _ "checkpoint_head sha data"])
  show "\<exists>new. read_kv_checkpoint sha hash jc now (write_kv_checkpoint sha jc order now store, old) =
      (Inr True, (write_kv_checkpoint sha jc order now store, new)) \<and>
      (\<forall>key. read_latest hash now key new = read_latest hash now key store)"
    using checkpoint_reads_back [OF assms(1-4)] data by simp
  show "write_kv_checkpoint sha jc order now store = Some (checkpoint_head sha data @ data)"
    by (simp add: write_kv_checkpoint_bytes data(1))
  show "read_kv_checkpoint sha hash jc now (Some (checkpoint_head sha data @ bad), old) =
      (Inl (Err (InvalidHeader ''checksum'')), (None, old))"
    by (simp add: read_kv_checkpoint_parts [where sha = sha, OF data(2,3) bad(1)] bad(2) drop_corrupt_def)
qed

section \<open>A codec for the examples\<close>

text \<open>A codec in the manner of \<open>bincode\<close> for three kinds of records; the others it refuses.\<close>

fun sample_serialize :: "wal_record \<Rightarrow> bytes option" where
  "sample_serialize (Transaction_Begin tx ln time) = Some (6 # to_le tx @ to_le ln @ to_le time)"
| "sample_serialize (Kv_Set_Record ln key v ty None time) =
     (if length key < 256 then Some (9 # to_le ln @ to_le time @ [ty, of_nat (length key)] @ key @ v) else None)"
| "sample_serialize (Kv_Delete_Record ln key time) = Some (10 # to_le ln @ to_le time @ key)"
| "sample_serialize _ = None"

definition sample_deserialize :: "bytes \<Rightarrow> wal_record option" where
  "sample_deserialize bs =
     (if length bs < 17 then None
      else if hd bs = 6 then Some (Transaction_Begin (from_le (slice bs 1 8)) (from_le (slice bs 9 8)) (from_le (slice bs 17 8)))
      else if hd bs = 9 then
        let n = unat (bs ! 18) in
        Some (Kv_Set_Record (from_le (slice bs 1 8)) (slice bs 19 n) (drop (19 + n) bs) (bs ! 17) None (from_le (slice bs 9 8)))
      else if hd bs = 10 then Some (Kv_Delete_Record (from_le (slice bs 1 8)) (drop 17 bs) (from_le (slice bs 9 8)))
      else None)"

definition sample_bincode :: bincode where
  "sample_bincode = \<lparr>bin_serialize = sample_serialize, bin_deserialize = sample_deserialize\<rparr>"

lemma sample_bincode_ok: "bincode_ok sample_bincode"
proof -
  have "bs \<noteq> [] \<and> sample_deserialize bs = Some r" if "sample_serialize r = Some bs" for r bs
    using that
    by (cases r rule: sample_serialize.cases)
      (auto simp: sample_deserialize_def length_to_le nth_append unat_of_nat take_bit_nat_eq_self Let_def
        slice_def drop_Cons' split: if_splits)
  then show ?thesis by (simp add: bincode_ok_def sample_bincode_def)
qed

definition sample_log :: "wal_record list" where
  "sample_log = [Transaction_Begin 3 1 0, Kv_Delete_Record 2 [107] 0]"

lemma sample_loggable: "\<forall>r \<in> set sample_log. loggable sample_bincode r"
  by (simp add: sample_log_def loggable_def record_to_bytes_def sample_bincode_def length_to_le MAX_RECORD_SIZE_def)


lemma wal_crash_recovery_witness:
  "\<exists>w k torn. log_session sample_bincode 0 sample_log fresh_writer = (Inr (), w) \<and>
    recover sample_bincode (map_option (take 100) (wal_file w)) recovery_new =
      (Inr (), (if torn then skip_record else id) (fold replay (take k sample_log) recovery_new)) \<and>
    k \<le> 2 \<and> 64 + length (log_bytes sample_bincode (take k sample_log)) \<le> 100"
proof -
  have n: "V3_WAL_HEADER_SIZE \<le> 100" "V3_WAL_HEADER_SIZE = 64" "length sample_log = 2"
    by (simp_all add: V3_WAL_HEADER_SIZE_def sample_log_def)
  from wal_crash_recovery [OF sample_bincode_ok sample_loggable n(1), of 0 recovery_new] show ?thesis
    unfolding n(2,3) by (elim exE conjE) (intro exI conjI)
qed

lemma commit_never_persists_witness:
  "\<exists>w w'. log_session sample_bincode 0 sample_log fresh_writer = (Inr (), w) \<and> wal_commit w = (Inl (Err IoError), w') \<and>
    wal_file w' = wal_file w \<and> committed_lsn w' = current_lsn w \<and>
    wal_writer_new 1 (wal_file w') =
      Inr \<lparr>current_lsn = 1, committed_lsn = 0, wal_buffer = [], flush_threshold = 64 * 1024, wal_file = wal_file w\<rparr>"
  by (rule commit_never_persists [OF sample_bincode_ok sample_loggable])

lemma truncated_log_unreadable_witness:
  "\<exists>w'. bindS wal_truncate (\<lambda>_. bindS (append_all sample_bincode sample_log) (\<lambda>_. wal_flush)) fresh_writer = (Inr (), w') \<and>
    wal_file w' = Some (log_bytes sample_bincode sample_log) \<and> (\<exists>e. wal_writer_new 1 (wal_file w') = Inl e) \<and>
    (\<exists>e. recover sample_bincode (wal_file w') recovery_new = (Inl e, recovery_new))"
  by (rule truncated_log_unreadable [OF sample_bincode_ok _ sample_loggable])
    (simp_all add: sample_log_def fresh_writer_def)

text \<open>A hash for the example: the first byte, repeated.\<close>

definition sample_sha :: "bytes \<Rightarrow> bytes" where
  "sample_sha bs = replicate 32 (hd bs)"

lemma kv_checkpoint_file_witness:
  "\<exists>new. read_kv_checkpoint sample_sha (\<lambda>_. 0) no_json 5
      (write_kv_checkpoint sample_sha no_json [0] 5 (kv_run (\<lambda>_. 0) sample_kv_ops), kv_new) =
      (Inr True, (write_kv_checkpoint sample_sha no_json [0] 5 (kv_run (\<lambda>_. 0) sample_kv_ops), new)) \<and>
      (\<forall>key. read_latest (\<lambda>_. 0) 5 key new = read_latest (\<lambda>_. 0) 5 key (kv_run (\<lambda>_. 0) sample_kv_ops))"
proof -
  let ?data = "kv_to_bytes no_json [0] 5 (kv_run (\<lambda>_. 0) sample_kv_ops)"
  let ?bad = "replicate (length ?data) 7"
  obtain es where es: "kv_run (\<lambda>_. 0) sample_kv_ops 0 = Some es" "es \<noteq> []" "entry_key (last es) = [107]"
    "entry_value (last es) = Kv_Integer 2"
    by (simp add: kv_run_def sample_kv_ops_def kv_set_def push_version_def kv_new_def Let_def)
  have "length ?data < 2 ^ 32"
    using es by (simp add: kv_to_bytes_def saved_bytes_def entry_bytes_def length_to_le)
  moreover have "hd ?data = 1" by (simp add: kv_to_bytes_def u32_len_def to_le_def upt_rec)
  then have "sample_sha ?bad \<noteq> sample_sha ?data" by (simp add: sample_sha_def kv_to_bytes_def)
  moreover have "length [0::u64] < 2 ^ 32" "(5::u64) \<noteq> - 1" "length (sample_sha ?data) = 32" "length ?bad = length ?data"
    by (simp_all add: sample_sha_def)
  ultimately show ?thesis
    by (intro kv_checkpoint_file [OF sample_store_fits _ _ refl, where old = kv_new, THEN conjunct1])
qed

end
