(* ===== verification/Kv_Backend.thy ===== *)
theory Kv_Backend
  imports Wal
begin

text \<open>
  The key-value part of the native backend (\<open>backend.rs\<close>): reads and writes with their log records and their
  events, the checkpoint a flush writes before it truncates the log, and what opening a database recovers. An
  error of the log is passed on; the code wraps it into a connection error with its text.
\<close>

section \<open>The operations\<close>

record 'j kv_backend =
  be_kv :: "'j kv_store option"
  be_wal :: "wal_writer option"
  be_checkpoint :: "bytes option"
  be_events :: "(u64 \<times> u64) list"

definition kv_version :: "'j kv_backend \<Rightarrow> u64" where
  "kv_version b = (case be_wal b of Some w \<Rightarrow> committed_lsn w | None \<Rightarrow> 1)"

definition kv_init :: "'j kv_backend \<Rightarrow> 'j kv_store" where
  "kv_init b = (case be_kv b of None \<Rightarrow> kv_new | Some s \<Rightarrow> s)"

definition log_kv :: "bincode \<Rightarrow> wal_record \<Rightarrow> ('j kv_backend, unit) action" where
  "log_kv bc r b =
     (case be_wal b of
        None \<Rightarrow> (Inr (), b)
      | Some w \<Rightarrow> (case append_record bc r w of (res, w') \<Rightarrow> (res, b\<lparr>be_wal := Some w'\<rparr>)))"

definition kv_get_v3 :: "(bytes \<Rightarrow> u64) \<Rightarrow> u64 \<Rightarrow> u64 \<Rightarrow> bytes \<Rightarrow> 'j kv_backend \<Rightarrow> 'j kv_value option" where
  "kv_get_v3 hash now snapshot key b =
     (case be_kv b of
        None \<Rightarrow> None
      | Some kv \<Rightarrow>
          (case get_at_snapshot hash now key snapshot kv of
             None \<Rightarrow> None | Some v \<Rightarrow> if v = Kv_Null then None else Some v))"

definition kv_set_v3 :: "(bytes \<Rightarrow> u64) \<Rightarrow> u64 \<Rightarrow> bytes \<Rightarrow> 'j kv_value \<Rightarrow> u64 option \<Rightarrow> 'j kv_backend \<Rightarrow> 'j kv_backend" where
  "kv_set_v3 hash now key v ttl b = b\<lparr>be_kv := Some (kv_set hash now key v ttl (kv_version b) (kv_init b))\<rparr>"

definition kv_delete_v3 :: "(bytes \<Rightarrow> u64) \<Rightarrow> u64 \<Rightarrow> bytes \<Rightarrow> 'j kv_backend \<Rightarrow> 'j kv_backend" where
  "kv_delete_v3 hash now key b = b\<lparr>be_kv := Some (kv_delete hash now key (kv_version b) (kv_init b))\<rparr>"

definition kv_prefix_scan_v3 :: "u64 list \<Rightarrow> u64 \<Rightarrow> u64 \<Rightarrow> bytes \<Rightarrow> 'j kv_backend \<Rightarrow> (bytes \<times> 'j kv_value) list" where
  "kv_prefix_scan_v3 order now snapshot prefix b =
     (case be_kv b of None \<Rightarrow> [] | Some kv \<Rightarrow> prefix_scan order now prefix snapshot kv)"

text \<open>The trait operations convert between two value types that are the same type.\<close>

definition backend_kv_get :: "(bytes \<Rightarrow> u64) \<Rightarrow> u64 \<Rightarrow> u64 \<Rightarrow> bytes \<Rightarrow> 'j kv_backend \<Rightarrow> 'j kv_value option" where
  "backend_kv_get hash now snapshot key b =
     Option.bind (Option.bind (be_kv b) (get_at_snapshot hash now key snapshot))
       (\<lambda>v. if v = Kv_Null then None else Some v)"

definition backend_kv_set ::
  "(bytes \<Rightarrow> u64) \<Rightarrow> bincode \<Rightarrow> 'j json_codec \<Rightarrow> u64 \<Rightarrow> bytes \<Rightarrow> 'j kv_value \<Rightarrow> u64 option \<Rightarrow> ('j kv_backend, unit) action" where
  "backend_kv_set hash bc jc now key v ttl b =
     (let ver = kv_version b;
          b1 = b\<lparr>be_kv := Some (kv_set hash now key v ttl ver (kv_init b))\<rparr>
      in bindS (log_kv bc (Kv_Set_Record ver key (value_to_bytes jc v) (type_tag v) ttl now))
           (\<lambda>_ b2. (Inr (), b2\<lparr>be_events := be_events b2 @ [(hash key, ver)]\<rparr>)) b1)"

definition backend_kv_delete :: "(bytes \<Rightarrow> u64) \<Rightarrow> bincode \<Rightarrow> u64 \<Rightarrow> bytes \<Rightarrow> ('j kv_backend, unit) action" where
  "backend_kv_delete hash bc now key b =
     (let ver = kv_version b;
          b1 = b\<lparr>be_kv := Some (kv_delete hash now key ver (kv_init b))\<rparr>
      in bindS (log_kv bc (Kv_Delete_Record ver key now))
           (\<lambda>_ b2. (Inr (), b2\<lparr>be_events := be_events b2 @ [(hash key, ver)]\<rparr>)) b1)"

definition backend_kv_prefix_scan :: "u64 list \<Rightarrow> u64 \<Rightarrow> u64 \<Rightarrow> bytes \<Rightarrow> 'j kv_backend \<Rightarrow> (bytes \<times> 'j kv_value) list" where
  "backend_kv_prefix_scan order now snapshot prefix b =
     filter (\<lambda>(k, v). v \<noteq> Kv_Null)
       (case be_kv b of None \<Rightarrow> [] | Some kv \<Rightarrow> prefix_scan order now prefix snapshot kv)"

section \<open>Creating, flushing and opening\<close>

definition create_with_wal :: "u64 \<Rightarrow> bool \<Rightarrow> 'j kv_backend result" where
  "create_with_wal now enable_wal =
     (let b = \<lparr>be_kv = None, be_wal = None, be_checkpoint = None, be_events = []\<rparr>
      in if enable_wal then
           bindR (wal_writer_new 1 None) (\<lambda>w.
             case write_header now w of (Inl e, _) \<Rightarrow> Inl e | (Inr _, w') \<Rightarrow> Inr (b\<lparr>be_wal := Some w'\<rparr>))
         else Inr b)"

text \<open>
  The end of \<open>flush_to_disk\<close>, after the edge store, the indexes and the header: the checkpoint of the store, a
  checkpoint record (of root, pages, height, free list and header), a flush of the log and its truncation.
\<close>

definition flush_kv ::
  "(bytes \<Rightarrow> bytes) \<Rightarrow> bincode \<Rightarrow> 'j json_codec \<Rightarrow> u64 list \<Rightarrow> u64 \<Rightarrow> u64 \<Rightarrow> u64 \<Rightarrow> u32 \<Rightarrow> u64 \<Rightarrow> persistent_header_v3 \<Rightarrow>
   ('j kv_backend, unit) action" where
  "flush_kv sha bc jc order now root pages height free_head header b =
     (let b1 = (case be_kv b of None \<Rightarrow> b
                | Some kv \<Rightarrow> b\<lparr>be_checkpoint := write_kv_checkpoint sha jc order now kv\<rparr>)
      in case be_wal b1 of
           None \<Rightarrow> (Inr (), b1)
         | Some w \<Rightarrow>
             (case bindS (log_checkpoint bc now root pages height free_head header)
                (\<lambda>_. bindS wal_flush (\<lambda>_. wal_truncate)) w of
                (r, w') \<Rightarrow> (r, b1\<lparr>be_wal := Some w'\<rparr>)))"

text \<open>Opening: the log first, then the checkpoint when the log gave nothing. The arguments are the two files.\<close>

definition open_kv ::
  "bincode \<Rightarrow> (bytes \<Rightarrow> bytes) \<Rightarrow> (bytes \<Rightarrow> u64) \<Rightarrow> 'j json_codec \<Rightarrow> u64 \<Rightarrow> bytes option \<Rightarrow> bytes option \<Rightarrow> 'j kv_backend result" where
  "open_kv bc sha hash jc now log checkpoint =
     bindR (if log \<noteq> None then bindR (wal_writer_new 1 log) (\<lambda>w. Inr (Some w)) else Inr None) (\<lambda>wal.
       let (recovered, cp1, kv1) =
             (if log \<noteq> None then
                (case recover_kv bc sha hash jc now log (checkpoint, kv_new) of
                   (Inr n, (cp, kv)) \<Rightarrow> (0 < n, cp, kv)
                 | (Inl _, (cp, kv)) \<Rightarrow> (False, cp, kv))
              else (False, checkpoint, kv_new));
           (recovered, cp2, kv2) =
             (if \<not> recovered then
                (case read_kv_checkpoint sha hash jc now (cp1, kv1) of
                   (Inr found, (cp, kv)) \<Rightarrow> (found, cp, kv)
                 | (Inl _, (cp, kv)) \<Rightarrow> (recovered, cp, kv))
              else (recovered, cp1, kv1))
       in Inr \<lparr>be_kv = (if recovered then Some kv2 else None), be_wal = wal, be_checkpoint = cp2, be_events = []\<rparr>)"

section \<open>Runs of a client\<close>

datatype 'j kv_call = Call_Set bytes "'j kv_value" "u64 option" | Call_Delete bytes

fun call :: "(bytes \<Rightarrow> u64) \<Rightarrow> bincode \<Rightarrow> 'j json_codec \<Rightarrow> u64 \<Rightarrow> 'j kv_call \<Rightarrow> ('j kv_backend, unit) action" where
  "call hash bc jc now (Call_Set key v ttl) = backend_kv_set hash bc jc now key v ttl"
| "call hash bc jc now (Call_Delete key) = backend_kv_delete hash bc now key"

text \<open>Calls, each at its time.\<close>

fun calls :: "(bytes \<Rightarrow> u64) \<Rightarrow> bincode \<Rightarrow> 'j json_codec \<Rightarrow> ('j kv_call \<times> u64) list \<Rightarrow> ('j kv_backend, unit) action" where
  "calls hash bc jc [] b = (Inr (), b)"
| "calls hash bc jc ((c, now) # cs) b = bindS (call hash bc jc now c) (\<lambda>_. calls hash bc jc cs) b"

text \<open>The operation of the store and the log record of a call.\<close>

fun store_op :: "u64 \<Rightarrow> 'j kv_call \<times> u64 \<Rightarrow> 'j kv_op" where
  "store_op ver (Call_Set key v ttl, now) = Kv_Set key v ttl ver now"
| "store_op ver (Call_Delete key, now) = Kv_Delete key ver now"

fun call_record :: "'j json_codec \<Rightarrow> u64 \<Rightarrow> 'j kv_call \<times> u64 \<Rightarrow> wal_record" where
  "call_record jc ver (Call_Set key v ttl, now) = Kv_Set_Record ver key (value_to_bytes jc v) (type_tag v) ttl now"
| "call_record jc ver (Call_Delete key, now) = Kv_Delete_Record ver key now"

lemma call_result:
  assumes "bincode_ok bc" "loggable bc (call_record jc (committed_lsn w) (c, now))" "be_wal b = Some w"
  shows "\<exists>w'. call hash bc jc now c b = (Inr (), b\<lparr>be_kv := Some (kv_exec hash (store_op (committed_lsn w) (c, now)) (kv_init b)),
      be_wal := Some w', be_events := be_events b @ [(hash (op_key (store_op (committed_lsn w) (c, now))), committed_lsn w)]\<rparr>) \<and>
    log_content w' = log_content w @ wal_frame (record_bytes bc (call_record jc (committed_lsn w) (c, now))) \<and>
    committed_lsn w' = committed_lsn w"
proof (cases c)
  case (Call_Set key v ttl)
  then show ?thesis using append_record_ok [OF assms(1,2), of w] assms(3)
    by (intro exI [of _ "snd (append_record bc (call_record jc (committed_lsn w) (c, now)) w)"])
      (auto simp: backend_kv_set_def Let_def kv_version_def log_kv_def bindS_def split: prod.splits)
next
  case (Call_Delete key)
  then show ?thesis using append_record_ok [OF assms(1,2), of w] assms(3)
    by (intro exI [of _ "snd (append_record bc (call_record jc (committed_lsn w) (c, now)) w)"])
      (auto simp: backend_kv_delete_def Let_def kv_version_def log_kv_def bindS_def split: prod.splits)
qed

lemma calls_result:
  assumes "bincode_ok bc"
  shows "be_wal b = Some w \<Longrightarrow> \<forall>c \<in> set cs. loggable bc (call_record jc (committed_lsn w) c) \<Longrightarrow>
    \<exists>b' w'. calls hash bc jc cs b = (Inr (), b') \<and> be_wal b' = Some w' \<and>
      kv_init b' = fold (kv_exec hash) (map (store_op (committed_lsn w)) cs) (kv_init b) \<and>
      (cs \<noteq> [] \<or> be_kv b \<noteq> None \<longrightarrow> be_kv b' \<noteq> None) \<and> be_checkpoint b' = be_checkpoint b \<and>
      log_content w' = log_content w @ log_bytes bc (map (call_record jc (committed_lsn w)) cs) \<and>
      committed_lsn w' = committed_lsn w"
proof (induction cs arbitrary: b w)
  case (Cons x cs)
  obtain c now where x: "x = (c, now)" by fastforce
  obtain b1 w1 where 1: "call hash bc jc now c b = (Inr (), b1)" "be_wal b1 = Some w1"
    "kv_init b1 = kv_exec hash (store_op (committed_lsn w) x) (kv_init b)" "be_kv b1 \<noteq> None"
    "be_checkpoint b1 = be_checkpoint b"
    "log_content w1 = log_content w @ wal_frame (record_bytes bc (call_record jc (committed_lsn w) x))"
    "committed_lsn w1 = committed_lsn w"
    using call_result [OF assms, of jc w c now b hash] Cons.prems by (auto simp: x kv_init_def)
  show ?case
    using Cons.IH [OF 1(2)] Cons.prems(2) 1 by (auto simp: x bindS_def)
qed auto

section \<open>Entries that only differ in their times\<close>

lemma ppoint_loop_cong:
  "\<forall>i < hi. P (xs ! i) = Q (ys ! i) \<Longrightarrow> ppoint_loop P xs lo hi = ppoint_loop Q ys lo hi"
proof (induction P xs lo hi rule: ppoint_loop.induct)
  case (1 P xs lo hi)
  show ?case
  proof (cases "lo < hi")
    case True
    let ?mid = "lo + (hi - lo) div 2"
    have mid: "?mid < hi" using True by linarith
    then have "P (xs ! ?mid) = Q (ys ! ?mid)" using 1(3) by blast
    moreover have "ppoint_loop P xs (Suc ?mid) hi = ppoint_loop Q ys (Suc ?mid) hi" if "P (xs ! ?mid)"
      using 1(1) [OF True refl that] 1(3) by simp
    moreover have "ppoint_loop P xs lo ?mid = ppoint_loop Q ys lo ?mid" if "\<not> P (xs ! ?mid)"
      using 1(2) [OF True refl that] 1(3) mid by simp
    ultimately show ?thesis using True by (subst (1 2) ppoint_loop.simps) (simp add: Let_def)
  qed (subst (1 2) ppoint_loop.simps, simp)
qed

definition same_entry :: "'j kv_entry \<Rightarrow> 'j kv_entry \<Rightarrow> bool" where
  "same_entry e e' \<longleftrightarrow> entry_key e = entry_key e' \<and> entry_value e = entry_value e' \<and>
     version (metadata e) = version (metadata e') \<and> ttl_seconds (metadata e) = None \<and> ttl_seconds (metadata e') = None"

definition same_store :: "'j kv_store \<Rightarrow> 'j kv_store \<Rightarrow> bool" where
  "same_store s s' \<longleftrightarrow> (\<forall>h. rel_option (list_all2 same_entry) (s h) (s' h))"

lemma ppoint_loop_le: "lo \<le> hi \<Longrightarrow> ppoint_loop P xs lo hi \<le> hi"
proof (induction P xs lo hi rule: ppoint_loop.induct)
  case (1 P xs lo hi)
  show ?case
  proof (cases "lo < hi")
    case True
    let ?mid = "lo + (hi - lo) div 2"
    have "Suc ?mid \<le> hi" "lo \<le> ?mid" using True by linarith+
    then show ?thesis
      using 1(1) [OF True refl] 1(2) [OF True refl] True by (subst ppoint_loop.simps) (fastforce simp: Let_def)
  qed (use 1(3) in \<open>subst ppoint_loop.simps, simp\<close>)
qed

lemma same_get:
  assumes "same_store s s'"
  shows "get_at_snapshot hash now key snapshot s = get_at_snapshot hash now key snapshot s'"
proof -
  have "rel_option (list_all2 same_entry) (s (hash key)) (s' (hash key))" using assms by (simp add: same_store_def)
  then show ?thesis
  proof (cases rule: option.rel_cases)
    case (Some es es')
    have l: "length es' = length es" and nth: "\<And>i. i < length es \<Longrightarrow> same_entry (es ! i) (es' ! i)"
      using Some(3) by (auto simp: list_all2_conv_all_nth)
    have alive: "\<not> is_expired now (es ! i) \<and> \<not> is_expired now (es' ! i) \<and> entry_value (es' ! i) = entry_value (es ! i)"
      if "i < length es" for i
      using nth [OF that] by (simp add: same_entry_def is_expired_def is_expired_at_def)
    define p where "p = partition_point (\<lambda>e. version (metadata e) \<le> snapshot) es"
    have p': "partition_point (\<lambda>e. version (metadata e) \<le> snapshot) es' = p"
      unfolding partition_point_def p_def l
      by (rule ppoint_loop_cong) (use nth in \<open>auto simp: same_entry_def\<close>)
    have "p \<le> length es" unfolding p_def partition_point_def by (rule ppoint_loop_le) simp
    then have "p \<noteq> 0 \<Longrightarrow> p - 1 < length es" by simp
    moreover have "es \<noteq> [] \<Longrightarrow> length es - 1 < length es" by simp
    moreover have "es' = [] \<longleftrightarrow> es = []" using l by auto
    ultimately show ?thesis
      using alive [of "p - 1"] alive [of "length es - 1"] l
      by (auto simp: get_at_snapshot_def Some(1,2) p' p_def [symmetric] Let_def last_conv_nth)
  qed (simp add: get_at_snapshot_def)
qed

text \<open>Operations without an expiry keep stores that agree in this way in agreement, at whatever times they run.\<close>

fun at_time :: "u64 \<Rightarrow> 'j kv_op \<Rightarrow> 'j kv_op" where
  "at_time now (Kv_Set key v ttl ver _) = Kv_Set key v ttl ver now"
| "at_time now (Kv_Delete key ver _) = Kv_Delete key ver now"

fun no_ttl :: "'j kv_op \<Rightarrow> bool" where
  "no_ttl (Kv_Set key v ttl ver _) \<longleftrightarrow> ttl = None"
| "no_ttl (Kv_Delete key ver _) \<longleftrightarrow> True"

lemma same_push:
  assumes "same_store s s'" "same_entry e e'"
  shows "same_store (push_version h e s) (push_version h e' s')"
proof -
  have "rel_option (list_all2 same_entry) (s h) (s' h)" using assms(1) by (simp add: same_store_def)
  then have "list_all2 same_entry (case s h of None \<Rightarrow> [] | Some es \<Rightarrow> es) (case s' h of None \<Rightarrow> [] | Some es \<Rightarrow> es)"
    by (cases rule: option.rel_cases) auto
  then show ?thesis using assms by (simp add: same_store_def push_version_def list_all2_appendI)
qed

lemma same_exec:
  "same_store s s' \<Longrightarrow> no_ttl op \<Longrightarrow> same_store (kv_exec hash op s) (kv_exec hash (at_time now op) s')"
  by (cases op) (auto simp: kv_set_def kv_delete_def Let_def kv_entry_new_def metadata_new_def same_entry_def intro!: same_push)

lemma same_fold:
  "same_store s s' \<Longrightarrow> \<forall>op \<in> set ops. no_ttl op \<Longrightarrow>
   same_store (fold (kv_exec hash) ops s) (fold (kv_exec hash) (map (at_time now) ops) s')"
  by (induction ops arbitrary: s s') (simp_all add: same_exec)

section \<open>What survives a crash\<close>

fun call_ok :: "'j json_codec \<Rightarrow> 'j kv_call \<Rightarrow> bool" where
  "call_ok jc (Call_Set key v ttl) \<longleftrightarrow> value_ok jc v \<and> ttl = None"
| "call_ok jc (Call_Delete key) \<longleftrightarrow> True"

lemma apply_call_record:
  "call_ok jc (fst c) \<Longrightarrow> apply_kv hash jc now (call_record jc ver c) (s, n) =
    (kv_exec hash (at_time now (store_op ver c)) s, Suc n)"
  by (cases c; cases "fst c") (auto simp: apply_kv_def value_roundtrip)

lemma fold_call_records:
  "\<forall>c \<in> set cs. call_ok jc (fst c) \<Longrightarrow> fold (apply_kv hash jc now) (map (call_record jc ver) cs) (s, n) =
    (fold (kv_exec hash) (map (at_time now) (map (store_op ver) cs)) s, n + length cs)"
  by (induction cs arbitrary: s n) (simp_all add: apply_call_record)

text \<open>The log of a session opens again, and gives the calls back in order.\<close>

lemma open_log:
  assumes "bincode_ok bc" "\<forall>c \<in> set cs. call_ok jc (fst c) \<and> loggable bc (call_record jc ver c)" "cs \<noteq> []"
  shows "\<exists>w. open_kv bc sha hash jc now (Some (wal_header_to_bytes (session_header t) @ log_bytes bc (map (call_record jc ver) cs))) cp =
    Inr \<lparr>be_kv = Some (fold (kv_exec hash) (map (at_time now) (map (store_op ver) cs)) kv_new),
      be_wal = Some w, be_checkpoint = cp, be_events = []\<rparr>"
proof -
  let ?log = "wal_header_to_bytes (session_header t) @ log_bytes bc (map (call_record jc ver) cs)"
  have l: "length (wal_header_to_bytes (session_header t)) = V3_WAL_HEADER_SIZE" by (rule length_wal_header [OF session_header_ok(1)])
  have h: "read_log_header ?log = Inr (session_header t)" by (rule read_log_header_ok [OF session_header_ok])
  then obtain w where w: "wal_writer_new 1 (Some ?log) = Inr w"
    by (auto simp: wal_writer_new_def read_header_def read_log_header_def Let_def split: sum.splits)
  have "kv_loop bc (apply_kv hash jc now) (log_bytes bc (map (call_record jc ver) cs) @ []) (kv_new, 0) =
      kv_loop bc (apply_kv hash jc now) [] (fold (apply_kv hash jc now) (map (call_record jc ver) cs) (kv_new, 0))"
    by (rule kv_loop_frames [OF assms(1)]) (use assms(2) in auto)
  then have "kv_loop bc (apply_kv hash jc now) (log_bytes bc (map (call_record jc ver) cs)) (kv_new, 0) =
      (fold (kv_exec hash) (map (at_time now) (map (store_op ver) cs)) kv_new, length cs)"
    using fold_call_records [of cs jc hash now ver kv_new 0] assms(2) by (subst (asm) (2) kv_loop.simps) simp
  then have "recover_kv bc sha hash jc now (Some ?log) (cp, kv_new) =
      (Inr (length cs), (cp, fold (kv_exec hash) (map (at_time now) (map (store_op ver) cs)) kv_new))"
    using h l by (simp add: recover_kv_def)
  then show ?thesis using w assms(3) by (simp add: open_kv_def)
qed

lemma session_start:
  assumes "create_with_wal t True = Inr b0"
  shows "\<exists>w. be_wal b0 = Some w \<and> committed_lsn w = 0 \<and> log_content w = wal_header_to_bytes (session_header t) \<and>
    be_kv b0 = None"
  using assms
  by (auto simp: create_with_wal_def Let_def fresh_writer_new fresh_writer_def write_header_def LSN_INVALID_def log_content_def)

text \<open>
  C24. What a crash keeps. A database created with a log takes any number of key-value calls without an expiry,
  all of which succeed, and its log reaches the disk. Whoever opens the database from that log alone, at
  another time and whatever the checkpoint file holds, reads what the lost process would read: every key at
  every snapshot.
\<close>

theorem kv_survives_crash:
  assumes "bincode_ok bc" "cs \<noteq> []" "\<forall>c \<in> set cs. call_ok jc (fst c) \<and> loggable bc (call_record jc 0 c)"
  shows "\<exists>b0 b w b'. create_with_wal t True = Inr b0 \<and> calls hash bc jc cs b0 = (Inr (), b) \<and> be_wal b = Some w \<and>
    open_kv bc sha hash jc now (wal_file (snd (wal_flush w))) cp = Inr b' \<and>
    (\<forall>key snapshot time. kv_get_v3 hash time snapshot key b' = kv_get_v3 hash time snapshot key b)"
proof -
  obtain b0 where b0: "create_with_wal t True = (Inr b0 :: 'a kv_backend result)"
    by (auto simp: create_with_wal_def Let_def fresh_writer_new write_header_def)
  obtain w0 where w0: "be_wal b0 = Some w0" "committed_lsn w0 = 0" "log_content w0 = wal_header_to_bytes (session_header t)"
    "be_kv b0 = None" using session_start [OF b0] by blast
  let ?ops = "map (store_op 0) cs"
  obtain b w where b: "calls hash bc jc cs b0 = (Inr (), b)" "be_wal b = Some w" "kv_init b = fold (kv_exec hash) ?ops kv_new"
    "be_kv b \<noteq> None" "log_content w = log_content w0 @ log_bytes bc (map (call_record jc 0) cs)"
    using calls_result [OF assms(1) w0(1), of cs jc hash] assms(2,3) w0(2,4) by (auto simp: kv_init_def)
  let ?w = "snd (wal_flush w)"
  have "log_content ?w = log_content w" "wal_buffer ?w = []" using wal_flush_content [of w] by simp_all
  moreover have "log_content w \<noteq> []"
    using b(5) w0(3) length_wal_header [OF session_header_ok(1), of t] by (auto simp: V3_WAL_HEADER_SIZE_def)
  ultimately have log: "wal_file ?w = Some (wal_header_to_bytes (session_header t) @ log_bytes bc (map (call_record jc 0) cs))"
    using b(5) w0(3) by (cases "wal_file ?w") (auto simp: log_content_def)
  obtain w' where o: "open_kv bc sha hash jc now (wal_file ?w) cp =
      Inr \<lparr>be_kv = Some (fold (kv_exec hash) (map (at_time now) ?ops) kv_new), be_wal = Some w', be_checkpoint = cp, be_events = []\<rparr>"
    using open_log [OF assms(1,3,2)] unfolding log by blast
  have "\<forall>op \<in> set ?ops. no_ttl op" using assms(3) by (auto elim!: call_ok.elims)
  then have "same_store (fold (kv_exec hash) ?ops kv_new) (fold (kv_exec hash) (map (at_time now) ?ops) kv_new)"
    by (intro same_fold) (simp_all add: same_store_def kv_new_def)
  moreover have "be_kv b = Some (fold (kv_exec hash) ?ops kv_new)" using b(3,4) by (auto simp: kv_init_def split: option.splits)
  ultimately have "kv_get_v3 hash time snapshot key \<lparr>be_kv = Some (fold (kv_exec hash) (map (at_time now) ?ops) kv_new),
      be_wal = Some w', be_checkpoint = cp, be_events = []\<rparr> = kv_get_v3 hash time snapshot key b" for key snapshot time
    using same_get by (fastforce simp: kv_get_v3_def)
  then show ?thesis using b0 b(1,2) o by blast
qed

section \<open>No snapshot is isolated\<close>

definition one_version :: "u64 \<Rightarrow> 'j kv_backend \<Rightarrow> bool" where
  "one_version ver b \<longleftrightarrow> kv_version b = ver \<and> (\<forall>h es e. kv_init b h = Some es \<longrightarrow> e \<in> set es \<longrightarrow> version (metadata e) = ver)"

lemma append_record_committed: "committed_lsn (snd (append_record bc r w)) = committed_lsn w"
  by (simp add: append_record_def wal_flush_def Let_def returnS_def bindS_def split: sum.split)

lemma log_kv_keeps:
  assumes "log_kv bc r b = (res, b')"
  shows "be_kv b' = be_kv b" "kv_version b' = kv_version b"
proof -
  have "be_kv b' = be_kv b \<and> kv_version b' = kv_version b"
  proof (cases "be_wal b")
    case (Some w)
    then show ?thesis using assms append_record_committed [of bc r w]
      by (cases "append_record bc r w") (auto simp: log_kv_def kv_version_def)
  qed (use assms in \<open>simp add: log_kv_def\<close>)
  then show "be_kv b' = be_kv b" "kv_version b' = kv_version b" by simp_all
qed

text \<open>A call changes the store in one place; its log record changes neither the store nor the version.\<close>

lemma logged_change:
  assumes "bindS (log_kv bc r) (\<lambda>_ b2. (Inr (), b2\<lparr>be_events := be_events b2 @ evs\<rparr>)) (b\<lparr>be_kv := kv\<rparr>) = (res, b')"
  shows "be_kv b' = kv" "kv_version b' = kv_version b"
proof -
  obtain res1 b1 where l: "log_kv bc r (b\<lparr>be_kv := kv\<rparr>) = (res1, b1)" by fastforce
  have "b' = b1 \<or> b' = b1\<lparr>be_events := be_events b1 @ evs\<rparr>" using assms l by (cases res1) (auto simp: bindS_def)
  moreover have "kv_version (b\<lparr>be_kv := kv\<rparr>) = kv_version b" by (simp add: kv_version_def)
  ultimately show "be_kv b' = kv" "kv_version b' = kv_version b"
    using log_kv_keeps [OF l] by (auto simp: kv_version_def)
qed

lemma one_version_push:
  assumes "one_version ver b" "version (metadata e) = ver" "be_kv b' = Some (push_version h e (kv_init b))" "kv_version b' = kv_version b"
  shows "one_version ver b'"
  using assms by (fastforce simp: one_version_def push_version_def kv_init_def split: option.splits if_splits)

lemma call_one_version:
  assumes "one_version ver b" "call hash bc jc now c b = (res, b')"
  shows "one_version ver b'"
proof -
  have v: "kv_version b = ver" using assms(1) by (simp add: one_version_def)
  show ?thesis
  proof (cases c)
    case (Call_Set key x ttl)
    note l = logged_change [OF assms(2) [unfolded Call_Set call.simps backend_kv_set_def Let_def]]
    then show ?thesis
      unfolding kv_set_def Let_def by (intro one_version_push [OF assms(1) _ l(1) [unfolded kv_set_def Let_def] l(2)]) (simp add: v)
  next
    case (Call_Delete key)
    note l = logged_change [OF assms(2) [unfolded Call_Delete call.simps backend_kv_delete_def Let_def]]
    then show ?thesis
      by (intro one_version_push [OF assms(1) _ l(1) [unfolded kv_delete_def] l(2)])
        (simp add: v kv_entry_new_def metadata_new_def)
  qed
qed

lemma calls_one_version:
  "one_version ver b \<Longrightarrow> calls hash bc jc cs b = (res, b') \<Longrightarrow> one_version ver b'"
proof (induction cs arbitrary: b)
  case (Cons x cs)
  obtain c now where x: "x = (c, now)" by fastforce
  obtain res1 b1 where 1: "call hash bc jc now c b = (res1, b1)" by fastforce
  have "one_version ver b1" by (rule call_one_version [OF Cons.prems(1) 1])
  then show ?case using Cons.prems(2) Cons.IH [of b1] 1 by (cases res1) (auto simp: x bindS_def)
qed simp

lemma create_one_version: "create_with_wal t enable = Inr b0 \<Longrightarrow> one_version (if enable then 0 else 1) b0"
  by (auto simp: create_with_wal_def Let_def fresh_writer_new fresh_writer_def write_header_def LSN_INVALID_def one_version_def
      kv_version_def kv_init_def kv_new_def split: if_splits)

text \<open>
  C31. A defect: the backend isolates no snapshot. All its calls write at one version, the committed number
  of the log, which stays 0, or 1 without a log; so after any calls a new value is read at once at every
  snapshot, also at those taken before it was written.
\<close>

theorem no_snapshot_isolated:
  assumes "create_with_wal t enable = Inr b0" "calls hash bc jc cs b0 = (res, b)"
    and "backend_kv_set hash bc jc now key v None b = (res', b')" "v \<noteq> Kv_Null"
  shows "kv_get_v3 hash time snapshot key b' = Some v"
proof -
  let ?ver = "if enable then 0 else 1"
  have o: "one_version ?ver b" by (rule calls_one_version [OF create_one_version [OF assms(1)] assms(2)])
  have o': "one_version ?ver b'" by (rule call_one_version [OF o, of hash bc jc now "Call_Set key v None"]) (simp add: assms(3))
  have kv: "be_kv b' = Some (kv_set hash now key v None (kv_version b) (kv_init b))"
    by (rule logged_change(1) [OF assms(3) [unfolded backend_kv_set_def Let_def]])
  then obtain es where es: "kv_init b' (hash key) = Some es" "es \<noteq> []" "entry_value (last es) = v"
    "ttl_seconds (metadata (last es)) = None"
    by (fastforce simp: kv_init_def kv_set_def push_version_def Let_def)
  have alive: "\<not> is_expired time (last es)" using es(4) by (simp add: is_expired_def is_expired_at_def)
  have "version (metadata e) \<le> snapshot" if "snapshot \<noteq> 0" "e \<in> set es" for e
  proof -
    have "version (metadata e) = ?ver" using o' es(1) that(2) unfolding one_version_def by blast
    then show ?thesis using that(1) by (simp add: word_le_nat_alt Suc_le_eq unat_gt_0)
  qed
  then have "snapshot \<noteq> 0 \<Longrightarrow> partition_point (\<lambda>e. version (metadata e) \<le> snapshot) es = length es"
    by (intro partition_point_all) simp
  then have "get_at_snapshot hash time key snapshot (kv_init b') = Some v"
    using es alive assms(4) by (simp add: get_at_snapshot_def last_conv_nth Let_def)
  then show ?thesis using kv assms(4) by (simp add: kv_get_v3_def kv_init_def)
qed

text \<open>
  C30. A flush and a reopening. After a flush, whatever it answers, the database is opened from the checkpoint
  alone (the flush has deleted the log) and every key has the newest value it had.
\<close>

theorem kv_flush_reopen:
  assumes "be_kv b = Some kv" "store_fits hash jc kv" "set order = dom kv" "length order < 2 ^ 32" "now \<noteq> - 1"
    and "length (kv_to_bytes jc order now kv) < 2 ^ 32" "length (sha (kv_to_bytes jc order now kv)) = 32"
    and "flush_kv sha bc jc order now root pages height free_head header b = (res, b')"
  shows "\<exists>b2. open_kv bc sha hash jc now None (be_checkpoint b') = Inr b2 \<and>
    (\<forall>key. kv_get_v3 hash now 0 key b2 = kv_get_v3 hash now 0 key b)"
proof -
  let ?cp = "write_kv_checkpoint sha jc order now kv"
  have cp: "be_checkpoint b' = ?cp"
    using assms(1,8) by (auto simp: flush_kv_def Let_def split: option.splits prod.splits)
  obtain new where new: "read_kv_checkpoint sha hash jc now (?cp, kv_new) = (Inr True, (?cp, new))"
    "\<forall>key. read_latest hash now key new = read_latest hash now key kv"
    using checkpoint_reads_back [where sha = sha and old = kv_new, OF assms(2-7)] by blast
  have "open_kv bc sha hash jc now None ?cp = Inr \<lparr>be_kv = Some new, be_wal = None, be_checkpoint = ?cp, be_events = []\<rparr>"
    using new(1) by (simp add: open_kv_def)
  moreover have "kv_get_v3 hash now 0 key b = read_latest hash now key kv" for key
    using assms(1) by (simp add: kv_get_v3_def read_latest_def)
  ultimately show ?thesis using new(2) by (simp add: cp kv_get_v3_def read_latest_def)
qed

section \<open>Examples\<close>

definition sample_calls :: "(unit kv_call \<times> u64) list" where
  "sample_calls = [(Call_Set [107] (Kv_Integer 1) None, 3), (Call_Delete [107], 4), (Call_Set [108] (Kv_Boolean True) None, 5)]"

lemma sample_calls_ok:
  "\<forall>c \<in> set sample_calls. call_ok no_json (fst c) \<and> loggable sample_bincode (call_record no_json 0 c)" "sample_calls \<noteq> []"
  by (simp_all add: sample_calls_def loggable_def record_to_bytes_def sample_bincode_def length_to_le MAX_RECORD_SIZE_def)

lemma kv_survives_crash_witness:
  "\<exists>b0 b w b'. create_with_wal 0 True = Inr b0 \<and> calls (\<lambda>k. of_nat (length k)) sample_bincode no_json sample_calls b0 = (Inr (), b) \<and>
    be_wal b = Some w \<and>
    open_kv sample_bincode sample_sha (\<lambda>k. of_nat (length k)) no_json 9 (wal_file (snd (wal_flush w))) None = Inr b' \<and>
    (\<forall>key snapshot time. kv_get_v3 (\<lambda>k. of_nat (length k)) time snapshot key b' = kv_get_v3 (\<lambda>k. of_nat (length k)) time snapshot key b)"
  by (rule kv_survives_crash [OF sample_bincode_ok sample_calls_ok(2,1)])

lemma no_snapshot_isolated_witness:
  "\<exists>b0 b. create_with_wal 0 False = (Inr b0 :: unit kv_backend result) \<and>
    backend_kv_set (\<lambda>_. 0) sample_bincode no_json 7 [107] (Kv_Integer 2) None b0 = (Inr (), b) \<and>
    kv_get_v3 (\<lambda>_. 0) 8 1 [107] b = Some (Kv_Integer 2)"
proof -
  obtain b0 where b0: "create_with_wal 0 False = (Inr b0 :: unit kv_backend result)" "be_wal b0 = None"
    by (simp add: create_with_wal_def)
  obtain b where b: "backend_kv_set (\<lambda>_. 0) sample_bincode no_json 7 [107] (Kv_Integer 2) None b0 = (Inr (), b)"
    by (simp add: backend_kv_set_def log_kv_def bindS_def Let_def b0(2))
  show ?thesis
    using b0(1) b no_snapshot_isolated [OF b0(1) calls.simps(1) b, of 8 1] by blast
qed

lemma kv_flush_reopen_witness:
  "\<exists>b2. open_kv sample_bincode sample_sha (\<lambda>_. 0) no_json 5 None
      (be_checkpoint (snd (flush_kv sample_sha sample_bincode no_json [0] 5 0 0 0 0 new_v3
        \<lparr>be_kv = Some (kv_run (\<lambda>_. 0) sample_kv_ops), be_wal = None, be_checkpoint = None, be_events = []\<rparr>))) = Inr b2 \<and>
    (\<forall>key. kv_get_v3 (\<lambda>_. 0) 5 0 key b2 = kv_get_v3 (\<lambda>_. 0) 5 0 key
      \<lparr>be_kv = Some (kv_run (\<lambda>_. 0) sample_kv_ops), be_wal = None, be_checkpoint = None, be_events = []\<rparr>)"
proof -
  let ?data = "kv_to_bytes no_json [0] 5 (kv_run (\<lambda>_. 0) sample_kv_ops)"
  obtain es where es: "kv_run (\<lambda>_. 0) sample_kv_ops 0 = Some es" "es \<noteq> []" "entry_key (last es) = [107]"
    "entry_value (last es) = Kv_Integer 2"
    by (simp add: kv_run_def sample_kv_ops_def kv_set_def push_version_def kv_new_def Let_def)
  then have "length ?data < 2 ^ 32" by (simp add: kv_to_bytes_def saved_bytes_def entry_bytes_def length_to_le)
  moreover have "length [0::u64] < 2 ^ 32" "(5::u64) \<noteq> - 1" "length (sample_sha ?data) = 32" by (simp_all add: sample_sha_def)
  ultimately show ?thesis
    by (intro kv_flush_reopen [OF _ sample_store_fits _ _ _ _ surjective_pairing]) simp_all
qed

end
