(* ===== verification/Native_Graph.thy ===== *)
theory Native_Graph
  imports Node_Store_Map Edge_Store Graph_Index Kv_Backend Header_V3 Graph_Search
begin

text \<open>
  The native backend as a graph (\<open>v3/backend.rs\<close>): the node store and the edge store over one database file and
  one page allocator, the header, the indexes of kinds and names with their sidecar file, the cache of node
  records (\<open>v3/node/cache.rs\<close>) and the key-value part.
\<close>

section \<open>What the backend uses\<close>

text \<open>The least recently used cache of the crate \<open>lru\<close>, in the state of which \<open>'c\<close> are the values.\<close>

record 'c lru_cache =
  lru_new :: "nat \<Rightarrow> 'c"
  lru_get :: "i64 \<Rightarrow> 'c \<Rightarrow> node_record option \<times> 'c"
  lru_put :: "i64 \<Rightarrow> node_record \<Rightarrow> 'c \<Rightarrow> 'c"
  lru_pop :: "i64 \<Rightarrow> 'c \<Rightarrow> 'c"
  lru_clear :: "'c \<Rightarrow> 'c"
  lru_len :: "'c \<Rightarrow> nat"

definition node_cache_new :: "'c lru_cache \<Rightarrow> nat \<Rightarrow> 'c" where
  "node_cache_new L capacity = lru_new L (max capacity 1)"

definition node_cache_insert :: "'c lru_cache \<Rightarrow> i64 \<Rightarrow> node_record \<Rightarrow> 'c \<Rightarrow> 'c" where
  "node_cache_insert L i n c = lru_put L i n c"

definition node_cache_get :: "'c lru_cache \<Rightarrow> i64 \<Rightarrow> 'c \<Rightarrow> node_record option \<times> 'c" where
  "node_cache_get L i c = lru_get L i c"

definition node_cache_invalidate :: "'c lru_cache \<Rightarrow> i64 \<Rightarrow> 'c \<Rightarrow> 'c" where
  "node_cache_invalidate L i c = lru_pop L i c"

definition node_cache_is_empty :: "'c lru_cache \<Rightarrow> 'c \<Rightarrow> bool" where
  "node_cache_is_empty L c \<longleftrightarrow> lru_len L c = 0"

definition NODE_CACHE_CAPACITY :: nat where "NODE_CACHE_CAPACITY = 1000"

text \<open>
  What is not code of this repository or depends on the machine: \<open>serde_json\<close> with its empty object, the cache
  crate, the orders in which hash maps are walked, the hash and the log format of the key-value part, the clock.
\<close>

record ('j, 'c) platform =
  pf_json :: "'j json_codec"
  pf_object :: 'j
  pf_lru :: "'c lru_cache"
  pf_dirty_order :: "(edge_slot \<times> edge_cluster) list \<Rightarrow> (edge_slot \<times> edge_cluster) list"
  pf_index_order :: "id_index \<Rightarrow> id_index"
  pf_page_order :: "u64 list \<Rightarrow> u64 list"
  pf_first :: "u64 list \<Rightarrow> u64"
  pf_kv_order :: "u64 list"
  pf_sha :: "bytes \<Rightarrow> bytes"
  pf_hash :: "bytes \<Rightarrow> u64"
  pf_bincode :: bincode
  pf_now :: u64

section \<open>State\<close>

record 'j node_spec =
  spec_kind :: bytes
  spec_name :: bytes
  spec_file_path :: "bytes option"
  spec_data :: 'j

record 'j edge_spec =
  spec_from :: i64
  spec_to :: i64
  spec_type :: bytes
  spec_edge_data :: 'j

record 'j native_entity =
  en_id :: i64
  en_kind :: bytes
  en_name :: bytes
  en_file_path :: "bytes option"
  en_data :: 'j

text \<open>
  The errors of the trait. An error of a store becomes a connection or a query error with its text, for which the
  error itself is kept; an error of the file system is \<open>Connection_Io\<close>.
\<close>

datatype graph_error =
    Connection_Native native_error
  | Connection_Io
  | Native_Error native_error
  | Node_Not_Found i64
  | Missing_Endpoint
  | Unsupported_Query
  | Graph_Panic

fun map_v3_error :: "fault \<Rightarrow> graph_error" where
  "map_v3_error Panic = Graph_Panic"
| "map_v3_error (Err e) = Connection_Native e"

text \<open>
  The stores are handed the same file, the same allocator and, by \<open>create\<close>, the same cache of index pages
  (\<open>ng_one_cache\<close>): each holds a copy of them in its index, and a call of one store passes them on to the other.
  \<open>ng_root\<close> and \<open>ng_height\<close> are those of the manager \<open>btree\<close> of the backend, which no operation changes.
\<close>

record ('j, 'c) native_graph =
  ng_nodes :: node_store
  ng_edges :: edge_store
  ng_one_cache :: bool
  ng_root :: u64
  ng_height :: u32
  ng_header :: persistent_header_v3
  ng_kinds :: id_index
  ng_names :: id_index
  ng_cache :: 'c
  ng_sidecar :: "bytes option"
  ng_kv :: "'j kv_backend"

type_synonym ('s, 'a) grun = "'s \<Rightarrow> ((graph_error + 'a) \<times> 's) option"

definition lend :: "bool \<Rightarrow> btree_manager \<Rightarrow> btree_manager \<Rightarrow> btree_manager" where
  "lend one_cache from to = to\<lparr>bm_db := bm_db from, bm_allocator := bm_allocator from,
     bm_cache := (if one_cache then bm_cache from else bm_cache to)\<rparr>"

definition with_nodes :: "(node_store, 'a) run \<Rightarrow> (('j, 'c) native_graph, 'a) grun" where
  "with_nodes f g =
     (case f (ng_nodes g) of
        None \<Rightarrow> None
      | Some (r, ns) \<Rightarrow> Some (map_sum map_v3_error id r, g\<lparr>ng_nodes := ns,
          ng_edges := (ng_edges g)\<lparr>es_btree := lend (ng_one_cache g) (ns_btree ns) (es_btree (ng_edges g))\<rparr>\<rparr>))"

definition with_edges :: "(edge_store \<Rightarrow> ('a result \<times> edge_store) option) \<Rightarrow> (('j, 'c) native_graph, 'a) grun" where
  "with_edges f g =
     (case f (ng_edges g) of
        None \<Rightarrow> None
      | Some (r, es) \<Rightarrow> Some (map_sum map_v3_error id r, g\<lparr>ng_edges := es,
          ng_nodes := (ng_nodes g)\<lparr>ns_btree := lend (ng_one_cache g) (es_btree es) (ns_btree (ng_nodes g))\<rparr>\<rparr>))"

definition bindG :: "('s, 'a) grun \<Rightarrow> ('a \<Rightarrow> ('s, 'b) grun) \<Rightarrow> ('s, 'b) grun" where
  "bindG m f g = (case m g of None \<Rightarrow> None | Some (Inl e, g') \<Rightarrow> Some (Inl e, g') | Some (Inr x, g') \<Rightarrow> f x g')"

definition returnG :: "'a \<Rightarrow> ('s, 'a) grun" where
  "returnG x g = Some (Inr x, g)"

definition failG :: "graph_error \<Rightarrow> ('s, 'a) grun" where
  "failG e g = Some (Inl e, g)"

definition ng_file :: "('j, 'c) native_graph \<Rightarrow> bytes option" where
  "ng_file g = bm_db (ns_btree (ng_nodes g))"

definition ng_allocator :: "('j, 'c) native_graph \<Rightarrow> page_allocator" where
  "ng_allocator g = bm_allocator (ns_btree (ng_nodes g))"

text \<open>The backend's own writes to the file and calls of the allocator.\<close>

definition set_shared :: "bytes option \<Rightarrow> page_allocator \<Rightarrow> ('j, 'c) native_graph \<Rightarrow> ('j, 'c) native_graph" where
  "set_shared f al g = g\<lparr>
     ng_nodes := (ng_nodes g)\<lparr>ns_btree := (ns_btree (ng_nodes g))\<lparr>bm_db := f, bm_allocator := al\<rparr>\<rparr>,
     ng_edges := (ng_edges g)\<lparr>es_btree := (es_btree (ng_edges g))\<lparr>bm_db := f, bm_allocator := al\<rparr>\<rparr>\<rparr>"

definition write_file :: "nat \<Rightarrow> bytes \<Rightarrow> (('j, 'c) native_graph, unit) grun" where
  "write_file off bs g =
     (case ng_file g of None \<Rightarrow> Some (Inl Connection_Io, g)
      | Some f \<Rightarrow> Some (Inr (), set_shared (Some (file_write f off bs)) (ng_allocator g) g))"

definition sync_header :: "(('j, 'c) native_graph, unit) grun" where
  "sync_header g = write_file 0 (header_to_bytes (ng_header g)) g"

section \<open>Nodes\<close>

fun decimal_nat :: "nat \<Rightarrow> bytes" where
  "decimal_nat n = (if n < 10 then [of_nat (48 + n)] else decimal_nat (n div 10) @ [of_nat (48 + n mod 10)])"

declare decimal_nat.simps [simp del]

definition decimal_i64 :: "i64 \<Rightarrow> bytes" where
  "decimal_i64 i = (if sint i < 0 then 0x2D # decimal_nat (nat (- sint i)) else decimal_nat (nat (sint i)))"

definition default_name :: "i64 \<Rightarrow> bytes" where
  "default_name i = [0x6E, 0x6F, 0x64, 0x65, 0x5F] @ decimal_i64 i"

definition DEFAULT_KIND :: bytes where "DEFAULT_KIND = [0x4E, 0x6F, 0x64, 0x65]"

definition parse_node_data :: "('j, 'c) platform \<Rightarrow> bytes \<Rightarrow> i64 \<Rightarrow> bytes \<times> bytes \<times> 'j" where
  "parse_node_data E data i =
     (if length data < 2 then (DEFAULT_KIND, default_name i, pf_object E)
      else
        let kind_len = unat (data ! 0)
        in if length data < 1 + kind_len + 1 then (DEFAULT_KIND, default_name i, pf_object E)
           else
             let kind = from_utf8_lossy (slice data 1 kind_len);
                 name_len_pos = 1 + kind_len;
                 name_len = unat (data ! name_len_pos)
             in if length data < name_len_pos + 1 + name_len then (kind, default_name i, pf_object E)
                else
                  let name_start = name_len_pos + 1;
                      name = from_utf8_lossy (slice data name_start name_len);
                      data_start = name_start + name_len;
                      json_data = (if data_start < length data
                                   then (case json_from_slice (pf_json E) (drop data_start data) of
                                           None \<Rightarrow> pf_object E | Some j \<Rightarrow> j)
                                   else pf_object E)
                  in (kind, name, json_data))"

definition json_or_empty :: "('j, 'c) platform \<Rightarrow> 'j \<Rightarrow> bytes" where
  "json_or_empty E j = (case json_to_vec (pf_json E) j of None \<Rightarrow> [] | Some b \<Rightarrow> b)"

definition backend_page_offset :: "u64 \<Rightarrow> u64" where
  "backend_page_offset pid =
     (if pid = 0 then 0 else of_nat V3_HEADER_SIZE + (if pid < 1 then 0 else pid - 1) * of_nat DEFAULT_PAGE_SIZE)"

definition compact_data :: "bytes \<Rightarrow> bytes \<Rightarrow> bytes \<Rightarrow> bytes" where
  "compact_data kind name data = of_nat (length kind) # kind @ of_nat (length name) # name @ data"

fun allocate_pages :: "nat \<Rightarrow> (('j, 'c) native_graph, unit) grun" where
  "allocate_pages 0 g = Some (Inr (), g)"
| "allocate_pages (Suc n) g =
     (case allocate (ng_allocator g) of
        (Inl Panic, al) \<Rightarrow> Some (Inl Graph_Panic, set_shared (ng_file g) al g)
      | (Inl (Err e), al) \<Rightarrow> Some (Inl (Native_Error e), set_shared (ng_file g) al g)
      | (Inr _, al) \<Rightarrow> allocate_pages n (set_shared (ng_file g) al g))"

text \<open>
  The record of a node: its data goes inline when it has at most 64 bytes; else it is written to pages of its own,
  from the first one on, and the record holds the offset.
\<close>

definition external_record :: "bytes \<Rightarrow> (('j, 'c) native_graph, node_record) grun" where
  "external_record data g =
     (let data_len = length data;
          pages_needed = (data_len + DEFAULT_PAGE_SIZE - 1) div DEFAULT_PAGE_SIZE
      in case allocate (ng_allocator g) of
           (Inl Panic, al) \<Rightarrow> Some (Inl Graph_Panic, set_shared (ng_file g) al g)
         | (Inl (Err e), al) \<Rightarrow> Some (Inl (Native_Error e), set_shared (ng_file g) al g)
         | (Inr start, al) \<Rightarrow>
             bindG (allocate_pages (pages_needed - 1)) (\<lambda>_.
             bindG (write_file (unat (backend_page_offset start)) data) (\<lambda>_ g.
               case new_external 0 0 0 0 (backend_page_offset start) (of_nat data_len) 0 0 0 0 of
                 Inl e \<Rightarrow> Some (Inl (map_v3_error e), g)
               | Inr n \<Rightarrow> Some (Inr n, g))) (set_shared (ng_file g) al g))"

definition make_record :: "('j, 'c) platform \<Rightarrow> 'j node_spec \<Rightarrow> (('j, 'c) native_graph, node_record) grun" where
  "make_record E node g =
     (let data_bytes = json_or_empty E (spec_data node);
          total_len = 2 + length (spec_kind node) + length (spec_name node) + length data_bytes;
          data = compact_data (spec_kind node) (spec_name node) data_bytes
      in if total_len \<le> 64 then
           (case new_inline 0 0 0 0 data 0 0 0 0 of
              Inl e \<Rightarrow> Some (Inl (map_v3_error e), g)
            | Inr n \<Rightarrow> Some (Inr n, g))
         else external_record data g)"

definition root_to_header :: "('j, 'c) native_graph \<Rightarrow> persistent_header_v3 \<Rightarrow> persistent_header_v3" where
  "root_to_header g h =
     (let h1 = (case ns_btree_root_page_id (ng_nodes g) of
                  Some root_page \<Rightarrow> h\<lparr>hdr_root_index_page := root_page\<rparr> | None \<Rightarrow> h)
      in case ns_btree_height (ng_nodes g) of
           Some tree_height \<Rightarrow> h1\<lparr>hdr_btree_height := tree_height\<rparr> | None \<Rightarrow> h1)"

definition insert_node_inner :: "('j, 'c) platform \<Rightarrow> 'j node_spec \<Rightarrow> (('j, 'c) native_graph, i64) grun" where
  "insert_node_inner E node =
     bindG (make_record E node) (\<lambda>node_record.
     bindG (with_nodes (ns_insert_node node_record)) (\<lambda>i g.
       let g1 = g\<lparr>ng_kinds := index_insert (spec_kind node) i (ng_kinds g),
                  ng_names := index_insert (spec_name node) i (ng_names g)\<rparr>;
           h = ng_header g1
       in Some (Inr i, g1\<lparr>ng_header := root_to_header g1 (h\<lparr>hdr_node_count := hdr_node_count h + 1\<rparr>)\<rparr>)))"

definition native_insert_node :: "('j, 'c) platform \<Rightarrow> 'j node_spec \<Rightarrow> (('j, 'c) native_graph, i64) grun" where
  "native_insert_node E node = bindG (insert_node_inner E node) (\<lambda>i. bindG sync_header (\<lambda>_. returnG i))"

definition get_node_internal :: "('j, 'c) platform \<Rightarrow> i64 \<Rightarrow> (('j, 'c) native_graph, node_record option) grun" where
  "get_node_internal E i g =
     (case node_cache_get (pf_lru E) i (ng_cache g) of
        (Some r, c) \<Rightarrow> Some (Inr (Some r), g\<lparr>ng_cache := c\<rparr>)
      | (None, c) \<Rightarrow>
          bindG (with_nodes (lookup_node i)) (\<lambda>found g.
            case found of
              Some r \<Rightarrow> Some (Inr (Some r), g\<lparr>ng_cache := node_cache_insert (pf_lru E) i r (ng_cache g)\<rparr>)
            | None \<Rightarrow> Some (Inr None, g)) (g\<lparr>ng_cache := c\<rparr>))"

definition record_payload :: "node_record \<Rightarrow> (('j, 'c) native_graph, bytes) grun" where
  "record_payload r g =
     (case data_inline r of
        Some inline \<Rightarrow> Some (Inr inline, g)
      | None \<Rightarrow>
         (case data_external_offset r of
            Some offset \<Rightarrow>
              (case ng_file g of
                 None \<Rightarrow> Some (Inl Connection_Io, g)
               | Some f \<Rightarrow>
                   (case file_read_exact f (unat offset) (unat (masked_data_len r)) of
                      Inl e \<Rightarrow> Some (Inl Connection_Io, g)
                    | Inr buffer \<Rightarrow> Some (Inr buffer, g)))
          | None \<Rightarrow> Some (Inr [], g)))"

definition native_get_node :: "('j, 'c) platform \<Rightarrow> u64 \<Rightarrow> i64 \<Rightarrow> (('j, 'c) native_graph, 'j native_entity) grun" where
  "native_get_node E snapshot i =
     bindG (get_node_internal E i) (\<lambda>found.
       case found of
         None \<Rightarrow> failG (Node_Not_Found i)
       | Some r \<Rightarrow> bindG (record_payload r) (\<lambda>data_bytes.
           case parse_node_data E data_bytes i of
             (kind, name, data) \<Rightarrow> returnG \<lparr>en_id = i, en_kind = kind, en_name = name, en_file_path = None, en_data = data\<rparr>))"

section \<open>Edges\<close>

definition insert_edge_inner :: "('j, 'c) platform \<Rightarrow> 'j edge_spec \<Rightarrow> (('j, 'c) native_graph, i64) grun" where
  "insert_edge_inner E edge =
     bindG (get_node_internal E (spec_from edge)) (\<lambda>from_node.
     bindG (get_node_internal E (spec_to edge)) (\<lambda>to_node.
       if from_node = None \<or> to_node = None then failG Missing_Endpoint
       else
         let edge_type = (if spec_type edge = [] then None else Some (spec_type edge))
         in bindG (with_edges (insert_edge (spec_from edge) (spec_to edge) Outgoing edge_type)) (\<lambda>_.
            bindG (with_edges (insert_edge (spec_to edge) (spec_from edge) Incoming edge_type)) (\<lambda>_ g.
              let h = (ng_header g)\<lparr>hdr_edge_count := hdr_edge_count (ng_header g) + 1\<rparr>
              in Some (Inr (hdr_edge_count h), g\<lparr>ng_header := h\<rparr>)))))"

definition native_insert_edge :: "('j, 'c) platform \<Rightarrow> 'j edge_spec \<Rightarrow> (('j, 'c) native_graph, i64) grun" where
  "native_insert_edge E edge = bindG (insert_edge_inner E edge) (\<lambda>i. bindG sync_header (\<lambda>_. returnG i))"

definition fetch_neighbors :: "direction \<Rightarrow> i64 \<Rightarrow> (('j, 'c) native_graph, i64 list) grun" where
  "fetch_neighbors dir node = with_edges (es_neighbors node dir)"

definition native_neighbors :: "u64 \<Rightarrow> i64 \<Rightarrow> direction \<Rightarrow> bytes option \<Rightarrow> (('j, 'c) native_graph, i64 list) grun" where
  "native_neighbors snapshot node dir edge_type =
     (case edge_type of
        Some t \<Rightarrow> with_edges (es_neighbors_filtered node dir t)
      | None \<Rightarrow> fetch_neighbors dir node)"

definition native_degree :: "i64 \<Rightarrow> (('j, 'c) native_graph, nat \<times> nat) grun" where
  "native_degree node =
     bindG (fetch_neighbors Outgoing node) (\<lambda>out. bindG (fetch_neighbors Incoming node) (\<lambda>inc. returnG (length out, length inc)))"

text \<open>The breadth first searches; \<open>push_new\<close> is the loop over the neighbours.\<close>

function native_bfs_loop ::
  "nat \<Rightarrow> (i64 \<times> nat) list \<Rightarrow> i64 set \<Rightarrow> i64 list \<Rightarrow> (('j, 'c) native_graph, i64 list) grun" where
  "native_bfs_loop depth [] visited result g = Some (Inr result, g)"
| "native_bfs_loop depth ((node, current) # queue) visited result g =
     (if depth < current then native_bfs_loop depth queue visited result g
      else if current < depth then
        (case fetch_neighbors Outgoing node g of
           None \<Rightarrow> None
         | Some (Inl e, g') \<Rightarrow> Some (Inl e, g')
         | Some (Inr neighbors, g') \<Rightarrow>
             let (queue', visited') = push_new neighbors current visited queue
             in native_bfs_loop depth queue' visited' (result @ [node]) g')
      else native_bfs_loop depth queue visited (result @ [node]) g)"
  by pat_completeness auto

termination native_bfs_loop
  by (relation "measure (\<lambda>(m, q, A, r, g). search_measure (A, q))") (auto simp: push_new_eq)

definition native_bfs :: "u64 \<Rightarrow> i64 \<Rightarrow> u32 \<Rightarrow> (('j, 'c) native_graph, i64 list) grun" where
  "native_bfs snapshot start depth = native_bfs_loop (unat depth) [(start, 0)] {start} []"

function native_k_hop_loop ::
  "nat \<Rightarrow> direction \<Rightarrow> (i64 \<times> nat) list \<Rightarrow> i64 set \<Rightarrow> i64 list \<Rightarrow> (('j, 'c) native_graph, i64 list) grun" where
  "native_k_hop_loop depth dir [] visited result g = Some (Inr result, g)"
| "native_k_hop_loop depth dir ((node, current) # queue) visited result g =
     (if depth < current then native_k_hop_loop depth dir queue visited result g
      else
        let result' = (if 0 < current \<or> depth = 0 then result @ [node] else result)
        in if current < depth then
             (case fetch_neighbors dir node g of
                None \<Rightarrow> None
              | Some (Inl e, g') \<Rightarrow> Some (Inl e, g')
              | Some (Inr neighbors, g') \<Rightarrow>
                  let (queue', visited') = push_new neighbors current visited queue
                  in native_k_hop_loop depth dir queue' visited' result' g')
           else native_k_hop_loop depth dir queue visited result' g)"
  by pat_completeness auto

termination native_k_hop_loop
  by (relation "measure (\<lambda>(m, d, q, A, r, g). search_measure (A, q))") (auto simp: push_new_eq)

definition native_k_hop :: "u64 \<Rightarrow> i64 \<Rightarrow> u32 \<Rightarrow> direction \<Rightarrow> (('j, 'c) native_graph, i64 list) grun" where
  "native_k_hop snapshot start depth dir = native_k_hop_loop (unat depth) dir [(start, 0)] {start} []"

text \<open>The filtered versions ignore the filter.\<close>

definition native_k_hop_filtered ::
  "u64 \<Rightarrow> i64 \<Rightarrow> u32 \<Rightarrow> direction \<Rightarrow> bytes list \<Rightarrow> (('j, 'c) native_graph, i64 list) grun" where
  "native_k_hop_filtered snapshot start depth dir allowed = native_k_hop snapshot start depth dir"

definition native_bfs_filtered ::
  "u64 \<Rightarrow> i64 \<Rightarrow> u32 \<Rightarrow> direction \<Rightarrow> bytes list \<Rightarrow> (('j, 'c) native_graph, i64 list) grun" where
  "native_bfs_filtered snapshot start depth dir allowed = native_bfs snapshot start depth"

text \<open>
  The shortest path: \<open>visited\<close> maps a node to its parent. The loop over the neighbours stops at the end of the path.
\<close>

fun expand_until ::
  "i64 \<Rightarrow> i64 \<Rightarrow> i64 list \<Rightarrow> (i64 \<Rightarrow> i64 option option) \<Rightarrow> i64 list \<Rightarrow> bool \<times> (i64 \<Rightarrow> i64 option option) \<times> i64 list" where
  "expand_until finish node [] visited queue = (False, visited, queue)"
| "expand_until finish node (nb # rest) visited queue =
     (if visited nb \<noteq> None then expand_until finish node rest visited queue
      else let visited' = visited(nb \<mapsto> Some node)
           in if nb = finish then (True, visited', queue)
              else expand_until finish node rest visited' (queue @ [nb]))"

partial_function (option) walk_back ::
  "(i64 \<Rightarrow> i64 option option) \<Rightarrow> i64 \<Rightarrow> i64 list \<Rightarrow> i64 list option" where
  "walk_back visited current path =
     (case visited current of
        None \<Rightarrow> Some path
      | Some None \<Rightarrow> Some (path @ [current])
      | Some (Some p) \<Rightarrow> walk_back visited p (path @ [current]))"

declare walk_back.simps [code]

lemma expand_until_seen:
  "expand_until finish node ns visited queue = (False, visited', queue') \<Longrightarrow>
   queue' = queue @ fresh ns (dom visited) \<and> dom visited' = dom visited \<union> set ns"
proof (induction ns arbitrary: visited queue)
  case (Cons nb ns)
  show ?case
  proof (cases "visited nb")
    case None
    then have e: "expand_until finish node ns (visited(nb \<mapsto> Some node)) (queue @ [nb]) = (False, visited', queue')"
      using Cons.prems by (simp add: Let_def split: if_splits)
    have dom: "dom (visited(nb \<mapsto> Some node)) = insert nb (dom visited)" by simp
    have "nb \<notin> dom visited" using None by blast
    then show ?thesis using Cons.IH [OF e, unfolded dom] by simp
  next
    case (Some x)
    then have "nb \<in> dom visited" by blast
    then show ?thesis using Cons Some by (auto simp: insert_absorb)
  qed
qed simp

function native_path_loop ::
  "i64 \<Rightarrow> i64 list \<Rightarrow> (i64 \<Rightarrow> i64 option option) \<Rightarrow> (('j, 'c) native_graph, i64 list option) grun" where
  "native_path_loop finish [] visited g = Some (Inr None, g)"
| "native_path_loop finish (node # queue) visited g =
     (case fetch_neighbors Outgoing node g of
        None \<Rightarrow> None
      | Some (Inl e, g') \<Rightarrow> Some (Inl e, g')
      | Some (Inr neighbors, g') \<Rightarrow>
         (case expand_until finish node neighbors visited queue of
            (True, visited', _) \<Rightarrow>
              (case walk_back visited' node [finish] of None \<Rightarrow> None | Some path \<Rightarrow> Some (Inr (Some (rev path)), g'))
          | (False, visited', queue') \<Rightarrow> native_path_loop finish queue' visited' g'))"
  by pat_completeness auto

termination native_path_loop
  by (relation "measure (\<lambda>(f, q, v, g). search_measure (dom v, q))") (auto dest!: expand_until_seen [OF sym])

definition native_shortest_path :: "u64 \<Rightarrow> i64 \<Rightarrow> i64 \<Rightarrow> (('j, 'c) native_graph, i64 list option) grun" where
  "native_shortest_path snapshot start finish g =
     (if start = finish then Some (Inr (Some [start]), g)
      else native_path_loop finish [start] [start \<mapsto> None] g)"

definition native_shortest_path_filtered ::
  "u64 \<Rightarrow> i64 \<Rightarrow> i64 \<Rightarrow> bytes list \<Rightarrow> (('j, 'c) native_graph, i64 list option) grun" where
  "native_shortest_path_filtered snapshot start finish allowed = native_shortest_path snapshot start finish"

fun step_all :: "direction \<Rightarrow> i64 list \<Rightarrow> i64 list \<Rightarrow> (('j, 'c) native_graph, i64 list) grun" where
  "step_all dir [] next_nodes = returnG next_nodes"
| "step_all dir (node # rest) next_nodes =
     bindG (fetch_neighbors dir node) (\<lambda>neighbors. step_all dir rest (next_nodes @ neighbors))"

fun native_chain :: "direction list \<Rightarrow> i64 list \<Rightarrow> (('j, 'c) native_graph, i64 list) grun" where
  "native_chain [] current = returnG current"
| "native_chain (dir # steps) current = bindG (step_all dir current []) (\<lambda>next_nodes. native_chain steps next_nodes)"

definition native_chain_query :: "u64 \<Rightarrow> i64 \<Rightarrow> direction list \<Rightarrow> (('j, 'c) native_graph, i64 list) grun" where
  "native_chain_query snapshot start steps = native_chain steps [start]"

definition native_pattern_search :: "u64 \<Rightarrow> i64 \<Rightarrow> (('j, 'c) native_graph, 'm list) grun" where
  "native_pattern_search snapshot start = failG Unsupported_Query"

end
