(* ===== verification/Native_Admin.thy ===== *)
theory Native_Admin
  imports Native_Graph
begin

text \<open>
  The other operations of the native backend (\<open>v3/backend.rs\<close>): updates and deletions, the queries by kind and
  name, write batches, the flush, and the creation, opening, export and import of a database.
\<close>

section \<open>Flushing\<close>

definition native_checkpoint :: "('j, 'c) platform \<Rightarrow> (('j, 'c) native_graph, unit) grun" where
  "native_checkpoint E g =
     (case be_wal (ng_kv g) of
        None \<Rightarrow> Some (Inr (), g)
      | Some w \<Rightarrow>
         (case log_checkpoint (pf_bincode E) (pf_now E) (ng_root g) (al_total_pages (ng_allocator g)) (ng_height g)
            (free_list_head (ng_allocator g)) (ng_header g) w of
            (r, w') \<Rightarrow> Some (map_sum map_v3_error (\<lambda>_. ()) r, g\<lparr>ng_kv := (ng_kv g)\<lparr>be_wal := Some w'\<rparr>\<rparr>)))"

definition flush_to_disk :: "('j, 'c) platform \<Rightarrow> (('j, 'c) native_graph, unit) grun" where
  "flush_to_disk E =
     bindG (with_edges (es_flush (pf_dirty_order E))) (\<lambda>_ g.
       let h = (case btree_root_page_id (ng_edges g) of
                  Some root_page \<Rightarrow> (ng_header g)\<lparr>hdr_edge_data_offset := root_page\<rparr> | None \<Rightarrow> ng_header g);
           h = h\<lparr>hdr_total_pages := al_total_pages (ng_allocator g)\<rparr>;
           g1 = g\<lparr>ng_header := h,
                  ng_sidecar := Some (persist_indexes (pf_index_order E) (ng_kinds g) (ng_names g) (hdr_node_count h))\<rparr>
       in bindG sync_header (\<lambda>_ g2.
            case flush_kv (pf_sha E) (pf_bincode E) (pf_json E) (pf_kv_order E) (pf_now E) (ng_root g2)
                   (al_total_pages (ng_allocator g2)) (ng_height g2) (free_list_head (ng_allocator g2)) (ng_header g2) (ng_kv g2) of
              (r, kv) \<Rightarrow> Some (map_sum map_v3_error id r, g2\<lparr>ng_kv := kv\<rparr>)) g1)"

section \<open>Updating, deleting, listing\<close>

definition native_update_node :: "('j, 'c) platform \<Rightarrow> i64 \<Rightarrow> 'j node_spec \<Rightarrow> (('j, 'c) native_graph, i64) grun" where
  "native_update_node E i node g =
     (case new_inline i 0 0 0 (json_or_empty E (spec_data node)) 0 0 0 0 of
        Inl e \<Rightarrow> Some (Inl (map_v3_error e), g)
      | Inr updated \<Rightarrow>
          bindG (with_nodes (ns_update_node i updated)) (\<lambda>_ g.
            bindG (flush_to_disk E) (\<lambda>_. returnG i)
              (g\<lparr>ng_cache := node_cache_invalidate (pf_lru E) i (ng_cache g)\<rparr>)) g)"

definition native_delete_entity :: "('j, 'c) platform \<Rightarrow> i64 \<Rightarrow> (('j, 'c) native_graph, unit) grun" where
  "native_delete_entity E i =
     bindG (with_nodes (ns_delete_node i)) (\<lambda>_ g.
       let h = ng_header g;
           count = (if hdr_node_count h < 1 then 0 else hdr_node_count h - 1)
       in bindG sync_header (\<lambda>_. flush_to_disk E)
            (g\<lparr>ng_cache := node_cache_invalidate (pf_lru E) i (ng_cache g), ng_header := h\<lparr>hdr_node_count := count\<rparr>\<rparr>))"

definition ids_upto :: "u64 \<Rightarrow> i64 list" where
  "ids_upto n = map word_of_int [1..sint n]"

fun present_ids :: "('j, 'c) platform \<Rightarrow> i64 list \<Rightarrow> (('j, 'c) native_graph, i64 list) grun" where
  "present_ids E [] = returnG []"
| "present_ids E (i # rest) =
     bindG (get_node_internal E i) (\<lambda>found.
     bindG (present_ids E rest) (\<lambda>ids. returnG (if found \<noteq> None then i # ids else ids)))"

definition native_entity_ids :: "('j, 'c) platform \<Rightarrow> (('j, 'c) native_graph, i64 list) grun" where
  "native_entity_ids E g = present_ids E (ids_upto (hdr_node_count (ng_header g))) g"

text \<open>A failed read of external data leaves the buffer as far as it was filled.\<close>

definition indexed_payload :: "node_record \<Rightarrow> ('j, 'c) native_graph \<Rightarrow> bytes" where
  "indexed_payload r g =
     (case data_inline r of
        Some inline \<Rightarrow> inline
      | None \<Rightarrow>
         (case data_external_offset r of
            Some offset \<Rightarrow>
              vec_resize (case ng_file g of None \<Rightarrow> [] | Some f \<Rightarrow> slice f (unat offset) (unat (masked_data_len r)))
                (unat (masked_data_len r)) 0
          | None \<Rightarrow> []))"

fun index_nodes :: "('j, 'c) platform \<Rightarrow> i64 list \<Rightarrow> ('j, 'c) native_graph \<Rightarrow> ('j, 'c) native_graph option" where
  "index_nodes E [] g = Some g"
| "index_nodes E (i # rest) g =
     (case get_node_internal E i g of
        None \<Rightarrow> None
      | Some (Inr (Some r), g1) \<Rightarrow>
          (case parse_node_data E (indexed_payload r g1) i of
             (kind, name, _) \<Rightarrow> index_nodes E rest (g1\<lparr>ng_kinds := index_insert kind i (ng_kinds g1),
                                                     ng_names := index_insert name i (ng_names g1)\<rparr>))
      | Some (_, g1) \<Rightarrow> index_nodes E rest g1)"

definition rebuild_indexes :: "('j, 'c) platform \<Rightarrow> ('j, 'c) native_graph \<Rightarrow> ('j, 'c) native_graph option" where
  "rebuild_indexes E g = index_nodes E (ids_upto (hdr_node_count (ng_header g))) (g\<lparr>ng_kinds := [], ng_names := []\<rparr>)"

definition query_nodes_by_kind :: "u64 \<Rightarrow> bytes \<Rightarrow> ('j, 'c) native_graph \<Rightarrow> i64 list" where
  "query_nodes_by_kind snapshot kind g = index_get kind (ng_kinds g)"

definition STAR :: u8 where "STAR = 0x2A"

definition query_nodes_by_name_pattern :: "('j, 'c) platform \<Rightarrow> u64 \<Rightarrow> bytes \<Rightarrow> ('j, 'c) native_graph \<Rightarrow> i64 list" where
  "query_nodes_by_name_pattern E snapshot pattern g =
     (if (pattern \<noteq> [] \<and> last pattern = STAR) \<and> \<not> (pattern \<noteq> [] \<and> hd pattern = STAR)
      then get_prefix (pf_index_order E) (butlast pattern) (ng_names g)
      else if STAR \<in> set pattern then
        let cleaned = filter (\<lambda>c. c \<noteq> STAR) pattern
        in if cleaned = [] then [] else get_substring (pf_index_order E) cleaned (ng_names g)
      else index_get pattern (ng_names g))"

section \<open>Write batches\<close>

record write_batch =
  wb_node_count :: u64
  wb_edge_count :: u64
  wb_committed :: bool

definition batch_new :: "('j, 'c) native_graph \<Rightarrow> write_batch \<times> ('j, 'c) native_graph" where
  "batch_new g = (\<lparr>wb_node_count = 0, wb_edge_count = 0, wb_committed = False\<rparr>, g\<lparr>ng_nodes := begin_batch (ng_nodes g)\<rparr>)"

definition batch_insert_node ::
  "('j, 'c) platform \<Rightarrow> 'j node_spec \<Rightarrow> write_batch \<Rightarrow> (('j, 'c) native_graph, i64 \<times> write_batch) grun" where
  "batch_insert_node E node b =
     bindG (insert_node_inner E node) (\<lambda>i. returnG (i, b\<lparr>wb_node_count := wb_node_count b + 1\<rparr>))"

definition batch_insert_edge ::
  "('j, 'c) platform \<Rightarrow> 'j edge_spec \<Rightarrow> write_batch \<Rightarrow> (('j, 'c) native_graph, i64 \<times> write_batch) grun" where
  "batch_insert_edge E edge b =
     bindG (insert_edge_inner E edge) (\<lambda>i. returnG (i, b\<lparr>wb_edge_count := wb_edge_count b + 1\<rparr>))"

definition batch_drop :: "write_batch \<Rightarrow> ('j, 'c) native_graph \<Rightarrow> ('j, 'c) native_graph" where
  "batch_drop b g = (if wb_committed b then g else g\<lparr>ng_nodes := rollback_batch (ng_nodes g)\<rparr>)"

text \<open>The guard is dropped at the end of \<open>commit\<close>, with an error before it is marked as committed.\<close>

definition batch_commit :: "('j, 'c) platform \<Rightarrow> write_batch \<Rightarrow> (('j, 'c) native_graph, unit) grun" where
  "batch_commit E b g =
     (if wb_committed b then Some (Inr (), batch_drop b g)
      else
        (case bindG (if 0 < wb_node_count b then bindG (with_nodes (liftO ns_commit_batch)) (\<lambda>_. returnG ()) else returnG ())
               (\<lambda>_. if 0 < wb_node_count b \<or> 0 < wb_edge_count b then bindG sync_header (\<lambda>_. flush_to_disk E) else returnG ()) g of
           None \<Rightarrow> None
         | Some (Inl e, g') \<Rightarrow> Some (Inl e, batch_drop b g')
         | Some (Inr _, g') \<Rightarrow> Some (Inr (), batch_drop (b\<lparr>wb_committed := True\<rparr>) g')))"

section \<open>Creating and opening\<close>

datatype media_type = SSD | HDD | Unknown_Media

fun page_size_for :: "media_type \<Rightarrow> u32" where
  "page_size_for SSD = 4096"
| "page_size_for HDD = 16384"
| "page_size_for Unknown_Media = 4096"

text \<open>\<open>meta\<close> and \<open>sidecar\<close> are the files beside the database that an earlier one of the same name may have left.\<close>

definition native_create ::
  "('j, 'c) platform \<Rightarrow> media_type \<Rightarrow> bytes option \<Rightarrow> bytes option \<Rightarrow> ('j, 'c) native_graph" where
  "native_create E media meta sidecar =
     (let header = new_v3\<lparr>hdr_page_size := page_size_for media\<rparr>;
          btree = btree_new (allocator_new header) None (Some (header_to_bytes header)) (pf_first E)
      in \<lparr>ng_nodes = ns_initialize btree None (ns_new (pf_page_order E) btree header),
          ng_edges = edge_store_with_path btree None (hdr_page_size header) meta,
          ng_one_cache = True, ng_root = bm_root_page_id btree, ng_height = bm_tree_height btree,
          ng_header = header, ng_kinds = [], ng_names = [],
          ng_cache = node_cache_new (pf_lru E) NODE_CACHE_CAPACITY, ng_sidecar = sidecar,
          ng_kv = \<lparr>be_kv = None, be_wal = None, be_checkpoint = None, be_events = []\<rparr>\<rparr>)"

text \<open>The stores over the file of a database with this header.\<close>

definition stores_of ::
  "('j, 'c) platform \<Rightarrow> persistent_header_v3 \<Rightarrow> bytes \<Rightarrow> bytes option \<Rightarrow> node_store \<times> edge_store" where
  "stores_of E header f meta =
     (let al = allocator_new header;
          btree = btree_with_root al None (hdr_root_index_page header) (hdr_btree_height header) (Some f) (pf_first E);
          edge_btree = btree_with_root al None (hdr_edge_data_offset header) (hdr_btree_height header) (Some f) (pf_first E)
      in (ns_initialize btree None (ns_new (pf_page_order E) btree header),
          snd (restore_btree_from_metadata (edge_store_with_path edge_btree None (hdr_page_size header) meta))))"

definition read_file_header :: "bytes option \<Rightarrow> graph_error + persistent_header_v3 \<times> bytes" where
  "read_file_header file =
     (case file of
        None \<Rightarrow> Inl Connection_Io
      | Some f \<Rightarrow>
          if length f < V3_HEADER_SIZE then Inl Connection_Io
          else (case bindR (header_from_bytes (take V3_HEADER_SIZE f)) (\<lambda>h. bindR (header_validate h) (\<lambda>_. Inr h)) of
                  Inl e \<Rightarrow> Inl (map_v3_error e)
                | Inr h \<Rightarrow> Inr (h, f)))"

definition native_open ::
  "('j, 'c) platform \<Rightarrow> bytes option \<Rightarrow> bytes option \<Rightarrow> bytes option \<Rightarrow> bytes option \<Rightarrow> bytes option \<Rightarrow>
   (graph_error + ('j, 'c) native_graph) option" where
  "native_open E file meta sidecar log checkpoint =
     (case read_file_header file of
        Inl e \<Rightarrow> Some (Inl e)
      | Inr (header, f) \<Rightarrow>
         (case open_kv (pf_bincode E) (pf_sha E) (pf_hash E) (pf_json E) (pf_now E) log checkpoint of
            Inl e \<Rightarrow> Some (Inl (map_v3_error e))
          | Inr kv \<Rightarrow>
              let (nodes, edges) = stores_of E header f meta;
                  (kinds, names) = (case restore_indexes sidecar (hdr_node_count header) of Inl _ \<Rightarrow> ([], []) | Inr ix \<Rightarrow> ix);
                  g = \<lparr>ng_nodes = nodes, ng_edges = (if log \<noteq> None then es_set_wal [] edges else edges),
                       ng_one_cache = False, ng_root = hdr_root_index_page header, ng_height = hdr_btree_height header,
                       ng_header = header, ng_kinds = kinds, ng_names = names,
                       ng_cache = node_cache_new (pf_lru E) NODE_CACHE_CAPACITY, ng_sidecar = sidecar, ng_kv = kv\<rparr>
              in if kind_count (ng_kinds g) = 0 \<and> 0 < hdr_node_count header
                 then map_option Inr (rebuild_indexes E g) else Some (Inr g)))"

section \<open>Copies of the database\<close>

text \<open>A backup copies the file and the log as they are; an export takes a checkpoint first.\<close>

definition native_backup :: "('j, 'c) native_graph \<Rightarrow> graph_error + bytes \<times> u64 \<times> bool" where
  "native_backup g =
     (case ng_file g of None \<Rightarrow> Inl Connection_Io
      | Some f \<Rightarrow> Inr (f, hdr_node_count (ng_header g), be_wal (ng_kv g) \<noteq> None))"

definition snapshot_export :: "('j, 'c) platform \<Rightarrow> (('j, 'c) native_graph, bytes \<times> u64 \<times> u64) grun" where
  "snapshot_export E =
     bindG (native_checkpoint E) (\<lambda>_ g.
       case ng_file g of
         None \<Rightarrow> Some (Inl Connection_Io, g)
       | Some f \<Rightarrow> Some (Inr (f, hdr_node_count (ng_header g), hdr_edge_count (ng_header g)), g))"

text \<open>
  The import, from the snapshot file that is found: the file is replaced first, so that a bad header leaves the old
  stores on the new file.
\<close>

definition snapshot_import :: "('j, 'c) platform \<Rightarrow> bytes option \<Rightarrow> (('j, 'c) native_graph, u64 \<times> u64) grun" where
  "snapshot_import E snapshot g =
     (case snapshot of
        None \<Rightarrow> Some (Inl Connection_Io, g)
      | Some f \<Rightarrow>
          let before_count = hdr_node_count (ng_header g);
              g1 = set_shared (Some f) (ng_allocator g) g
          in case read_file_header (Some f) of
               Inl e \<Rightarrow> Some (Inl e, g1)
             | Inr (header, _) \<Rightarrow>
                 let (nodes, edges) = stores_of E header f (es_meta (ng_edges g));
                     g2 = g1\<lparr>ng_nodes := nodes, ng_edges := edges, ng_one_cache := False,
                             ng_root := hdr_root_index_page header, ng_height := hdr_btree_height header, ng_header := header\<rparr>
                 in (case rebuild_indexes E g2 of
                       None \<Rightarrow> None
                     | Some g3 \<Rightarrow>
                         let after_count = hdr_node_count header
                         in Some (Inr (if after_count < before_count then 0 else after_count - before_count, hdr_edge_count header),
                              g3\<lparr>ng_sidecar := Some (persist_indexes (pf_index_order E) (ng_kinds g3) (ng_names g3)
                                                       (hdr_node_count header))\<rparr>)))"

end
