(* ===== verification/Native_Compose.thy ===== *)
theory Native_Compose
  imports Native_Admin
begin

text \<open>
  Two stores over one file: what a step of the node store, of the edge store or of the backend itself leaves of
  the others.
\<close>

section \<open>A step seen from a store\<close>

definition new_pages :: "btree_manager \<Rightarrow> btree_manager \<Rightarrow> u64 set" where
  "new_pages t t' = live_pages (bm_allocator t') - live_pages (bm_allocator t)"

definition same_shared :: "btree_manager \<Rightarrow> btree_manager \<Rightarrow> bool" where
  "same_shared s t \<longleftrightarrow> bm_db t = bm_db s \<and> bm_allocator t = bm_allocator s \<and> bm_coordinator s = None"

lemma btree_map_lend:
  assumes "btree_map X s m" "shared_step G t t'" "bm_good Y t'" "same_shared s t" "bm_live X s \<subseteq> G"
    and one: "one \<longrightarrow> bm_cache t = bm_cache s"
  shows "btree_map (X \<union> new_pages t t') (lend one t' s) m" "bm_live (X \<union> new_pages t t') (lend one t' s) = bm_live X s"
proof -
  let ?c = "if one then bm_cache t' else bm_cache s"
  have c: "?c = bm_cache s \<or> bm_cache t = bm_cache s \<and> ?c = bm_cache t'" using one by simp
  note s = assms(4) [unfolded same_shared_def]
  show "btree_map (X \<union> new_pages t t') (lend one t' s) m" "bm_live (X \<union> new_pages t t') (lend one t' s) = bm_live X s"
    unfolding lend_def new_pages_def
    by (rule btree_map_shared [OF assms(1-3) conjunct1 [OF s] conjunct1 [OF conjunct2 [OF s]] conjunct2 [OF conjunct2 [OF s]] assms(5) c])+
qed

lemma lend_fields [simp]:
  "bm_db (lend one t s) = bm_db t" "bm_allocator (lend one t s) = bm_allocator t"
  "bm_coordinator (lend one t s) = bm_coordinator s" "raw_page (lend one t s) = raw_page t"
  "bm_root_page_id (lend one t s) = bm_root_page_id s" "bm_tree_height (lend one t s) = bm_tree_height s"
  "bm_room n (lend one t s) = bm_room n t" "one \<Longrightarrow> bm_cache (lend one t s) = bm_cache t"
  by (simp_all add: lend_def fun_eq_iff raw_page_def bm_room_def)

lemma holds_lend:
  assumes h: "holds_records F R s" and step: "shared_step G t t'" and good: "bm_good Y t'" and same: "same_shared (ns_btree s) t"
    and own: "live_pages (bm_allocator t) - F \<subseteq> G" and one: "one \<longrightarrow> bm_cache t = bm_cache (ns_btree s)"
  shows "holds_records (F \<union> new_pages t t') R (s\<lparr>ns_btree := lend one t' (ns_btree s)\<rparr>)"
proof -
  obtain N m where inv: "ns_inv F N m s" "node_map m s = R" using h by (auto simp: holds_records_def)
  then have ix: "ns_index F N m s" and pages: "ns_pages {} N s" and ids: "ns_ids N m s" by (simp_all add: ns_inv_def)
  have map: "btree_map (F \<union> N) (ns_btree s) m" using ix by (simp add: ns_index_def)
  have live: "F \<union> N \<subseteq> live_pages (bm_allocator t)" "N \<inter> F = {}"
    using map ix same by (auto simp: btree_map_def bm_good_def same_shared_def ns_index_def)
  have "bm_live (F \<union> N) (ns_btree s) \<subseteq> G" using own same by (auto simp: bm_live_def same_shared_def)
  note bt = btree_map_lend [OF map step good same this one]
  obtain f' where f': "bm_db t' = Some f'" using good by (auto simp: bm_good_def)
  have "ns_disk (s\<lparr>ns_btree := lend one t' (ns_btree s)\<rparr>) p = Some x" if p: "p \<in> N" "ns_disk s p = Some x" for p x
  proof -
    obtain f where f: "bm_db t = Some f" "page_at f p = Some x"
      using p(2) same by (auto simp: ns_disk_def same_shared_def split: option.splits)
    have "p \<in> G" using p(1) live own by blast
    from page_at_kept [OF shared_stepD(2) [OF step this] shared_stepD(5) [OF step] f(1) f' f(2)] show ?thesis
      using f' by (simp add: ns_disk_def)
  qed
  note k = ns_pages_index [OF pages ids this]
  have "F \<union> new_pages t t' \<union> N = F \<union> N \<union> new_pages t t'" by blast
  then have "ns_index (F \<union> new_pages t t') N m (s\<lparr>ns_btree := lend one t' (ns_btree s)\<rparr>)"
    using ix bt(1) live by (auto simp: ns_index_def new_pages_def)
  then have "ns_inv (F \<union> new_pages t t') N m (s\<lparr>ns_btree := lend one t' (ns_btree s)\<rparr>)"
    using k by (simp add: ns_inv_def)
  then show ?thesis using k(4) inv(2) by (auto simp: holds_records_def)
qed

lemma slot_page_btree: "slot_page (e\<lparr>es_btree := b\<rparr>) m = slot_page e m"
  by (simp add: fun_eq_iff slot_page_def)

lemma owns_mono: "owns X pg \<Longrightarrow> X \<subseteq> Y \<Longrightarrow> owns Y pg"
  unfolding owns_def by blast

lemma edges_lend:
  assumes inv: "es_inv X m e" and step: "shared_step G t t'" and good: "bm_good Y t'" and same: "same_shared (es_btree e) t"
    and own: "live_pages (bm_allocator t) - X \<subseteq> G" "owns (X \<inter> G) (slot_page e m)"
    and one: "one \<longrightarrow> bm_cache t = bm_cache (es_btree e)"
  shows "es_inv (X \<union> new_pages t t') m (e\<lparr>es_btree := lend one t' (es_btree e)\<rparr>)"
    "in_domain k \<Longrightarrow> disk_edges (e\<lparr>es_btree := lend one t' (es_btree e)\<rparr>) m k = disk_edges e m k"
proof -
  let ?e = "e\<lparr>es_btree := lend one t' (es_btree e)\<rparr>"
  note ready = es_readyD [OF es_invD(1) [OF inv]]
  have "bm_live X (es_btree e) \<subseteq> G" using own(1) same by (simp add: bm_live_def same_shared_def)
  note bt = btree_map_lend [OF ready(1) step good same this one]
  have "es_ready (X \<union> new_pages t t') m ?e" using ready bt(1) by (simp add: es_ready_def)
  moreover have "owns (X \<union> new_pages t t') (slot_page ?e m)"
    unfolding slot_page_btree by (rule owns_mono [OF es_invD(5) [OF inv]]) blast
  ultimately show "es_inv (X \<union> new_pages t t') m ?e" using inv by (simp add: es_inv_def)
  show "disk_edges ?e m k = disk_edges e m k" if k: "in_domain k"
  proof (rule disk_edges_cong)
    fix p assume "m (slot_key k) = Some p"
    then have "p \<in> G" using ownsD(1) [OF own(2) k] es_inv_page [OF inv] by blast
    from shared_stepD(2) [OF step this] show "raw_page (es_btree ?e) p = raw_page (es_btree e) p"
      using same by (simp add: same_shared_def raw_page_def)
  qed
qed

section \<open>Writes of the backend\<close>

text \<open>The header lies before the first page.\<close>

lemma zpage_header:
  assumes "length bs \<le> 112" "q \<noteq> 0"
  shows "zpage (file_write f 0 bs) q = zpage f q"
proof (intro nth_equalityI)
  fix j assume "j < length (zpage (file_write f 0 bs) q)"
  then show "zpage (file_write f 0 bs) q ! j = zpage f q ! j"
    using assms by (simp add: nth_zpage zbyte_file_write offset_of_def)
qed simp

lemma header_write_step:
  assumes "bm_db s = Some f" "length bs \<le> 112" "bm_coordinator s = None"
  shows "shared_step G s (s\<lparr>bm_db := Some (file_write f 0 bs)\<rparr>)"
  using assms by (simp add: shared_step_def raw_page_def zpage_header db_len_def length_file_write cache_kept_def)

lemma header_write_good:
  assumes good: "bm_good X s" and f: "bm_db s = Some f" and len: "length bs \<le> 112" and no: "bm_coordinator s = None"
  shows "bm_good X (s\<lparr>bm_db := Some (file_write f 0 bs)\<rparr>)"
proof -
  have kept: "page_at (file_write f 0 bs) q = Some x" if "page_at f q = Some x" for q x
    using that len by (auto simp: page_at_zpage zpage_header length_file_write)
  have "cache_coherent X (s\<lparr>bm_db := Some (file_write f 0 bs)\<rparr>) (file_write f 0 bs)"
    using good f kept unfolding bm_good_def cache_coherent_def by fastforce
  then show ?thesis using good f len no by (auto simp: bm_good_def length_file_write)
qed

section \<open>The whole\<close>

text \<open>
  \<open>R\<close> are the node records and \<open>me\<close> the map the edge index stands for. \<open>F\<close> are the pages that are foreign to the node
  store, \<open>X\<close> those foreign to the index of the edge store: a page that is in use is foreign to one of them. \<open>D\<close> are
  the pages with the data of large nodes, foreign to both.
\<close>

abbreviation node_bt :: "('j, 'c) native_graph \<Rightarrow> btree_manager" where
  "node_bt g \<equiv> ns_btree (ng_nodes g)"

abbreviation edge_bt :: "('j, 'c) native_graph \<Rightarrow> btree_manager" where
  "edge_bt g \<equiv> es_btree (ng_edges g)"

definition graph_inv ::
  "u64 set \<Rightarrow> u64 set \<Rightarrow> u64 set \<Rightarrow> (u64 \<Rightarrow> u64 option) \<Rightarrow> (i64 \<Rightarrow> node_record option) \<Rightarrow> ('j, 'c) native_graph \<Rightarrow> bool" where
  "graph_inv F X D me R g \<longleftrightarrow>
     holds_records F R (ng_nodes g) \<and> es_inv X me (ng_edges g) \<and> same_shared (edge_bt g) (node_bt g) \<and>
     bm_coordinator (node_bt g) = None \<and> (ng_one_cache g \<longrightarrow> bm_cache (node_bt g) = bm_cache (edge_bt g)) \<and>
     live_pages (ng_allocator g) \<subseteq> X \<union> F \<and> D \<subseteq> X \<inter> F \<and> owns (X \<inter> F - D) (slot_page (ng_edges g) me)"

lemma graph_invD:
  assumes "graph_inv F X D me R g"
  shows "holds_records F R (ng_nodes g)" "es_inv X me (ng_edges g)" "same_shared (edge_bt g) (node_bt g)"
    "bm_coordinator (node_bt g) = None" "bm_coordinator (edge_bt g) = None"
    "ng_one_cache g \<Longrightarrow> bm_cache (node_bt g) = bm_cache (edge_bt g)"
    "live_pages (ng_allocator g) \<subseteq> X \<union> F" "D \<subseteq> X" "D \<subseteq> F" "owns (X \<inter> F - D) (slot_page (ng_edges g) me)"
    "bm_allocator (node_bt g) = ng_allocator g" "bm_allocator (edge_bt g) = ng_allocator g" "bm_db (node_bt g) = ng_file g" "bm_db (edge_bt g) = ng_file g"
  using assms by (auto simp: graph_inv_def same_shared_def ng_allocator_def ng_file_def)

lemma holds_good:
  assumes "holds_records F R s"
  obtains Y where "bm_good Y (ns_btree s)" "F \<subseteq> Y" "Y \<subseteq> live_pages (bm_allocator (ns_btree s))"
proof -
  obtain N m where "ns_inv F N m s" using assms by (auto simp: holds_records_def)
  then have "bm_good (F \<union> N) (ns_btree s)" by (auto simp: ns_inv_def ns_index_def btree_map_def)
  then show thesis using that [of "F \<union> N"] by (auto simp: bm_good_def)
qed

lemma edges_good: "es_inv X me e \<Longrightarrow> bm_good X (es_btree e)"
  by (auto simp: es_inv_def es_ready_def btree_map_def)

text \<open>What stays the same for the edges in a step of the others.\<close>

definition edges_kept :: "(u64 \<Rightarrow> u64 option) \<Rightarrow> edge_store \<Rightarrow> edge_store \<Rightarrow> bool" where
  "edges_kept me e e' \<longleftrightarrow> es_cache e' = es_cache e \<and> es_dirty e' = es_dirty e \<and> es_edge_types e' = es_edge_types e \<and>
     (\<forall>k. in_domain k \<longrightarrow> disk_edges e' me k = disk_edges e me k)"

lemma edges_kept_refl [simp]: "edges_kept me e e"
  by (simp add: edges_kept_def)

lemma edges_kept_trans: "edges_kept me e e' \<Longrightarrow> edges_kept me e' e'' \<Longrightarrow> edges_kept me e e''"
  by (simp add: edges_kept_def)

text \<open>The data of large nodes in the file.\<close>

definition data_at :: "btree_manager \<Rightarrow> u64 \<Rightarrow> bytes \<Rightarrow> bool" where
  "data_at t p bs \<longleftrightarrow> (\<exists>f. bm_db t = Some f \<and> p \<noteq> 0 \<and> length bs \<le> 4096 \<and> file_read_exact f (offset_of p) (length bs) = Inr bs)"

lemma data_kept:
  assumes "data_at t p bs" "shared_step G t t'" "p \<in> G" "bm_db t' = Some f'"
  shows "data_at t' p bs"
proof -
  obtain f where f: "bm_db t = Some f" "p \<noteq> 0" "length bs \<le> 4096" "offset_of p + length bs \<le> length f"
    "slice f (offset_of p) (length bs) = bs"
    using assms(1) by (auto simp: data_at_def file_read_exact_def split: if_splits)
  have z: "zpage f' p = zpage f p" and len: "length f \<le> length f'"
    using shared_stepD(2) [OF assms(2,3)] shared_stepD(5) [OF assms(2)] assms(4) f(1,2)
    by (simp_all add: raw_page_def db_len_def)
  have "slice f' (offset_of p) (length bs) = slice f (offset_of p) (length bs)"
  proof (rule nth_equalityI)
    fix j assume j: "j < length (slice f' (offset_of p) (length bs))"
    then have j: "j < length bs" using f(4) len by simp
    then have "zpage f' p ! j = f' ! (offset_of p + j)" "zpage f p ! j = f ! (offset_of p + j)"
      using f(3,4) len by (simp_all add: nth_zpage zbyte_def)
    then show "slice f' (offset_of p) (length bs) ! j = slice f (offset_of p) (length bs) ! j"
      using z j f(4) len by (simp add: slice_def)
  qed (use f(4) len in simp)
  then show ?thesis using assms(4) f len by (auto simp: data_at_def file_read_exact_def)
qed

section \<open>A call of the node store\<close>

lemma with_nodes_law:
  assumes inv: "graph_inv F X D me R g" and run: "f (ng_nodes g) = Some (r, s')"
    and holds: "holds_records F R' s'" and step: "ns_step F (ng_nodes g) s'"
  defines "g' \<equiv> g\<lparr>ng_nodes := s', ng_edges := (ng_edges g)\<lparr>es_btree := lend (ng_one_cache g) (ns_btree s') (edge_bt g)\<rparr>\<rparr>"
  shows "with_nodes f g = Some (map_sum map_v3_error id r, g')"
    "\<exists>X'. X \<subseteq> X' \<and> graph_inv F X' D me R' g'" "edges_kept me (ng_edges g) (ng_edges g')"
    "p \<in> D \<Longrightarrow> data_at (node_bt g) p bs \<Longrightarrow> data_at (node_bt g') p bs"
proof -
  note i = graph_invD [OF inv]
  have st: "shared_step F (node_bt g) (ns_btree s')" using step by (simp add: ns_step_def)
  obtain Y where good: "bm_good Y (ns_btree s')" using holds_good [OF holds] by blast
  obtain Z where Z: "F \<subseteq> Z" "Z \<subseteq> live_pages (ng_allocator g)" using holds_good [OF i(1)] i(11) by metis
  have one: "ng_one_cache g \<longrightarrow> bm_cache (node_bt g) = bm_cache (edge_bt g)" using i(6) by blast
  have "live_pages (bm_allocator (node_bt g)) - X \<subseteq> F" "owns (X \<inter> F) (slot_page (ng_edges g) me)"
    using i(7,11) owns_mono [OF i(10), of "X \<inter> F"] by auto
  note e = edges_lend [OF i(2) st good i(3) this one]
  let ?X = "X \<union> new_pages (node_bt g) (ns_btree s')"
  have live: "live_pages (bm_allocator (ns_btree s')) \<subseteq> ?X \<union> F" using i(7,11) by (auto simp: new_pages_def)
  have own: "owns (?X \<inter> F - D) (slot_page (ng_edges g) me)" by (rule owns_mono [OF i(10)]) auto
  have "graph_inv F ?X D me R' g'"
    using holds e(1) i(4,5,8,9) live own shared_stepD(6) [OF st] unfolding graph_inv_def
    by (auto simp: g'_def same_shared_def ng_allocator_def slot_page_btree)
  then show "\<exists>X'. X \<subseteq> X' \<and> graph_inv F X' D me R' g'" by blast
  show "with_nodes f g = Some (map_sum map_v3_error id r, g')" using run by (simp add: with_nodes_def g'_def)
  show "edges_kept me (ng_edges g) (ng_edges g')" using e(2) by (simp add: edges_kept_def g'_def)
  show "data_at (node_bt g') p bs" if "p \<in> D" "data_at (node_bt g) p bs"
    using data_kept [OF that(2) st] that(1) i(9) good by (auto simp: g'_def bm_good_def)
qed

section \<open>A call of the edge store\<close>

text \<open>The pages the edge store must leave alone.\<close>

definition kept_by_edges :: "u64 set \<Rightarrow> u64 set \<Rightarrow> ('j, 'c) native_graph \<Rightarrow> u64 set" where
  "kept_by_edges F D g = (live_pages (ng_allocator g) - F) \<union> D"

lemma kept_by_edges_foreign: "graph_inv F X D me R g \<Longrightarrow> kept_by_edges F D g \<subseteq> X"
  using graph_invD(7,8) by (fastforce simp: kept_by_edges_def)

lemma kept_by_edges_owns:
  assumes "graph_inv F X D me R g"
  shows "owns (X - kept_by_edges F D g) (slot_page (ng_edges g) me)"
  by (rule owns_mono [OF graph_invD(10) [OF assms]]) (auto simp: kept_by_edges_def)

lemma with_edges_law:
  assumes inv: "graph_inv F X D me R g" and run: "f (ng_edges g) = Some (r, e')"
    and e: "es_inv X' me' e'" "X \<subseteq> X'" and step: "shared_step (kept_by_edges F D g) (edge_bt g) (es_btree e')"
    and own: "owns (X' - kept_by_edges F D g) (slot_page e' me')"
  defines "g' \<equiv> g\<lparr>ng_edges := e', ng_nodes := (ng_nodes g)\<lparr>ns_btree := lend (ng_one_cache g) (es_btree e') (node_bt g)\<rparr>\<rparr>"
  shows "with_edges f g = Some (map_sum map_v3_error id r, g')" "\<exists>F'. graph_inv F' X' D me' R g'"
    "p \<in> D \<Longrightarrow> data_at (node_bt g) p bs \<Longrightarrow> data_at (node_bt g') p bs"
proof -
  note i = graph_invD [OF inv]
  have same: "same_shared (node_bt g) (edge_bt g)" using i(4,11-14) by (simp add: same_shared_def)
  have one: "ng_one_cache g \<longrightarrow> bm_cache (edge_bt g) = bm_cache (node_bt g)" using i(6) by auto
  note good = edges_good [OF e(1)]
  obtain Z where Z: "F \<subseteq> Z" "Z \<subseteq> live_pages (ng_allocator g)" using holds_good [OF i(1)] i(11) by metis
  have "live_pages (bm_allocator (edge_bt g)) - F \<subseteq> kept_by_edges F D g" using i(12) by (auto simp: kept_by_edges_def)
  note h = holds_lend [OF i(1) step good same this one]
  let ?F = "F \<union> new_pages (edge_bt g) (es_btree e')"
  have live: "live_pages (bm_allocator (es_btree e')) \<subseteq> X' \<union> ?F" using i(7,12) e(2) by (auto simp: new_pages_def)
  have "X' \<subseteq> live_pages (bm_allocator (es_btree e'))" using good by (auto simp: bm_good_def)
  then have "owns (X' \<inter> ?F - D) (slot_page e' me')"
    using i(12) by (intro owns_mono [OF own]) (auto simp: kept_by_edges_def new_pages_def)
  then have "graph_inv ?F X' D me' R g'"
    using h e i(4,5,8,9) live shared_stepD(6) [OF step] unfolding graph_inv_def
    by (auto simp: g'_def same_shared_def ng_allocator_def)
  then show "\<exists>F'. graph_inv F' X' D me' R g'" by blast
  show "with_edges f g = Some (map_sum map_v3_error id r, g')" using run by (simp add: with_edges_def g'_def)
  show "data_at (node_bt g') p bs" if "p \<in> D" "data_at (node_bt g) p bs"
  proof -
    have d: "data_at (edge_bt g) p bs" using that(2) i(13,14) by (simp add: data_at_def)
    obtain f' where "bm_db (es_btree e') = Some f'" using good by (auto simp: bm_good_def)
    from data_kept [OF d step _ this] that(1) show ?thesis by (auto simp: g'_def kept_by_edges_def data_at_def)
  qed
qed

end
