(* ===== verification/Native_Laws.thy ===== *)
theory Native_Laws
  imports Native_Compose
begin

text \<open>
  What the steps of the native backend do to its stores: the writes of the header and of the data of large nodes,
  the lookup through the cache of records, and the insertion of nodes and edges.
\<close>

section \<open>Steps of the backend itself\<close>

lemma set_shared_fields [simp]:
  "ng_header (set_shared f al g) = ng_header g" "ng_kinds (set_shared f al g) = ng_kinds g" "ng_names (set_shared f al g) = ng_names g"
  "ng_cache (set_shared f al g) = ng_cache g" "ng_kv (set_shared f al g) = ng_kv g" "ng_file (set_shared f al g) = f"
  "ng_allocator (set_shared f al g) = al" "ns_next_id (ng_nodes (set_shared f al g)) = ns_next_id (ng_nodes g)"
  "ns_batch (ng_nodes (set_shared f al g)) = ns_batch (ng_nodes g)" "ng_one_cache (set_shared f al g) = ng_one_cache g"
  "node_bt (set_shared f al g) = (node_bt g)\<lparr>bm_db := f, bm_allocator := al\<rparr>"
  by (simp_all add: set_shared_def ng_file_def ng_allocator_def)

lemma set_shared_twice [simp]: "set_shared f al (set_shared f' al' g) = set_shared f al g"
  by (simp add: set_shared_def)

lemma lend_False: "lend False t s = s\<lparr>bm_db := bm_db t, bm_allocator := bm_allocator t\<rparr>"
  by (simp add: lend_def)

text \<open>\<open>P\<close> are the pages that are written, whose data is the backend's own.\<close>

lemma shared_write_law:
  fixes f :: "bytes option" and al :: page_allocator and g :: "('j, 'c) native_graph"
  assumes inv: "graph_inv F X D me R g" and P: "P \<subseteq> D"
  defines "t' \<equiv> (node_bt g)\<lparr>bm_db := f, bm_allocator := al\<rparr>"
  defines "new \<equiv> new_pages (node_bt g) t'"
  assumes step: "shared_step (UNIV - P) (node_bt g) t'" and good: "bm_good Y t'" and D': "D \<subseteq> D'" "D' \<subseteq> D \<union> new"
  shows "graph_inv (F \<union> new) (X \<union> new) D' me R (set_shared f al g)"
    "edges_kept me (ng_edges g) (ng_edges (set_shared f al g))"
    "p \<in> D \<Longrightarrow> p \<notin> P \<Longrightarrow> data_at (node_bt g) p bs \<Longrightarrow> data_at (node_bt (set_shared f al g)) p bs"
proof -
  note i = graph_invD [OF inv]
  have same: "same_shared (node_bt g) (node_bt g)" using i(4) by (simp add: same_shared_def)
  obtain Z where Z: "F \<subseteq> Z" "Z \<subseteq> live_pages (ng_allocator g)" using holds_good [OF i(1)] i(11) by metis
  have X: "X \<subseteq> live_pages (ng_allocator g)" using edges_good [OF i(2)] i(12) by (auto simp: bm_good_def)
  have f: "bm_db t' = f" "bm_allocator t' = al" by (simp_all add: t'_def)
  have "live_pages (bm_allocator (node_bt g)) - F \<subseteq> UNIV - P" using P i(9) by blast
  from holds_lend [OF i(1) step good same this, of False]
  have h: "holds_records (F \<union> new) R (ng_nodes (set_shared f al g))" by (simp add: lend_False f set_shared_def new_def)
  have "live_pages (bm_allocator (node_bt g)) - X \<subseteq> UNIV - P" "owns (X \<inter> (UNIV - P)) (slot_page (ng_edges g) me)"
    using P i(8) owns_mono [OF i(10), of "X \<inter> (UNIV - P)"] by auto
  note e = edges_lend [OF i(2) step good i(3) this, of False]
  have e1: "es_inv (X \<union> new) me (ng_edges (set_shared f al g))" using e(1) by (simp add: lend_False f set_shared_def new_def)
  have "live_pages al = live_pages (ng_allocator g) \<union> new" using shared_stepD(1) [OF step] i(11) f by (auto simp: new_def new_pages_def)
  moreover have "new \<inter> live_pages (ng_allocator g) = {}" using i(11) by (auto simp: new_def new_pages_def)
  ultimately have live: "live_pages al \<subseteq> (X \<union> new) \<union> (F \<union> new)" and own: "X \<inter> F - D \<subseteq> (X \<union> new) \<inter> (F \<union> new) - D'"
    using i(7) D' X by blast+
  have pages: "slot_page (ng_edges (set_shared f al g)) me = slot_page (ng_edges g) me" by (simp add: set_shared_def slot_page_btree)
  show "graph_inv (F \<union> new) (X \<union> new) D' me R (set_shared f al g)"
    unfolding graph_inv_def
  proof (intro conjI)
    show "owns ((X \<union> new) \<inter> (F \<union> new) - D') (slot_page (ng_edges (set_shared f al g)) me)"
      unfolding pages by (rule owns_mono [OF i(10) own])
    show "live_pages (ng_allocator (set_shared f al g)) \<subseteq> (X \<union> new) \<union> (F \<union> new)" using live by simp
    show "D' \<subseteq> (X \<union> new) \<inter> (F \<union> new)" using D' i(8,9) by blast
  qed (use h e1 i(3-6) in \<open>auto simp: set_shared_def same_shared_def\<close>)
  show "edges_kept me (ng_edges g) (ng_edges (set_shared f al g))"
    using e(2) by (simp add: edges_kept_def lend_False f set_shared_def)
  show "data_at (node_bt (set_shared f al g)) p bs" if "p \<in> D" "p \<notin> P" "data_at (node_bt g) p bs"
  proof -
    obtain f' where "bm_db t' = Some f'" using good by (auto simp: bm_good_def)
    from data_kept [OF that(3) step _ this] that(2) show ?thesis by (simp add: t'_def)
  qed
qed

lemma length_header: "length (hdr_magic h) = 8 \<Longrightarrow> length (header_to_bytes h) = 112"
  by (simp add: header_to_bytes_def V3_HEADER_SIZE_def byte_simps blit_def)

lemma graph_file:
  assumes "graph_inv F X D me R g"
  obtains f Y where "ng_file g = Some f" "bm_good Y (node_bt g)" "bm_db (node_bt g) = Some f" "F \<subseteq> Y" "Y \<subseteq> live_pages (ng_allocator g)"
proof -
  note i = graph_invD [OF assms]
  obtain Y where Y: "bm_good Y (node_bt g)" "F \<subseteq> Y" "Y \<subseteq> live_pages (ng_allocator g)" using holds_good [OF i(1)] i(11) by metis
  then obtain f where "bm_db (node_bt g) = Some f" by (auto simp: bm_good_def)
  then show thesis using that Y by (simp add: ng_file_def)
qed

lemma sync_header_law:
  assumes inv: "graph_inv F X D me R g" and magic: "length (hdr_magic (ng_header g)) = 8"
  obtains f where "sync_header g = Some (Inr (), set_shared f (ng_allocator g) g)"
    "graph_inv F X D me R (set_shared f (ng_allocator g) g)" "edges_kept me (ng_edges g) (ng_edges (set_shared f (ng_allocator g) g))"
    "\<And>p bs. p \<in> D \<Longrightarrow> data_at (node_bt g) p bs \<Longrightarrow> data_at (node_bt (set_shared f (ng_allocator g) g)) p bs"
proof -
  note i = graph_invD [OF inv]
  obtain f Y where f: "ng_file g = Some f" "bm_good Y (node_bt g)" "bm_db (node_bt g) = Some f" by (rule graph_file [OF inv])
  let ?bs = "header_to_bytes (ng_header g)"
  let ?f = "Some (file_write f 0 ?bs)"
  have len: "length ?bs \<le> 112" using length_header [OF magic] by simp
  have same: "(node_bt g)\<lparr>bm_db := ?f, bm_allocator := ng_allocator g\<rparr> = (node_bt g)\<lparr>bm_db := ?f\<rparr>"
    using i(11) by (cases "node_bt g") simp
  have step: "shared_step (UNIV - {}) (node_bt g) ((node_bt g)\<lparr>bm_db := ?f, bm_allocator := ng_allocator g\<rparr>)"
    unfolding same by (rule header_write_step [OF f(3) len i(4)])
  have good: "bm_good Y ((node_bt g)\<lparr>bm_db := ?f, bm_allocator := ng_allocator g\<rparr>)"
    unfolding same by (rule header_write_good [OF f(2,3) len i(4)])
  have new: "new_pages (node_bt g) ((node_bt g)\<lparr>bm_db := ?f, bm_allocator := ng_allocator g\<rparr>) = {}"
    using i(11) by (simp add: new_pages_def)
  note w = shared_write_law [OF inv _ step good, of D, unfolded new]
  show thesis
    by (rule that [of ?f]) (use w f(1) in \<open>auto simp: sync_header_def write_file_def\<close>)
qed

lemma allocate_law:
  assumes inv: "graph_inv F X D me R g" and room: "bm_room (Suc n) (node_bt g)"
  obtains p al F' X' where "allocate (ng_allocator g) = (Inr p, al)" "p \<noteq> 0" "unat p \<le> MAX_PAGE" "p \<notin> D"
    "graph_inv F' X' (insert p D) me R (set_shared (ng_file g) al g)" "edges_kept me (ng_edges g) (ng_edges (set_shared (ng_file g) al g))"
    "bm_room n (node_bt (set_shared (ng_file g) al g))"
    "\<And>q bs. q \<in> D \<Longrightarrow> data_at (node_bt g) q bs \<Longrightarrow> data_at (node_bt (set_shared (ng_file g) al g)) q bs"
proof -
  note i = graph_invD [OF inv]
  obtain f Y where f: "ng_file g = Some f" "bm_good Y (node_bt g)" "F \<subseteq> Y" "Y \<subseteq> live_pages (ng_allocator g)" by (rule graph_file [OF inv])
  obtain p al where a: "allocate (bm_allocator (node_bt g)) = (Inr p, al)" "p \<noteq> 0" "p \<notin> Y" "p \<notin> bm_live Y (node_bt g)" "unat p \<le> MAX_PAGE"
    "bm_good (insert p Y) ((node_bt g)\<lparr>bm_allocator := al\<rparr>)"
    "bm_live (insert p Y) ((node_bt g)\<lparr>bm_allocator := al\<rparr>) = bm_live Y (node_bt g)" "bm_room n ((node_bt g)\<lparr>bm_allocator := al\<rparr>)"
    by (rule foreign_allocate [OF f(2) room])
  let ?t = "(node_bt g)\<lparr>bm_db := ng_file g, bm_allocator := al\<rparr>"
  have same: "?t = (node_bt g)\<lparr>bm_allocator := al\<rparr>" using i(13) by (cases "node_bt g") simp
  have step: "shared_step (UNIV - {}) (node_bt g) ?t" unfolding same by (rule foreign_allocate_shared [OF a(6,7)])
  have good: "bm_good (insert p Y) ?t" unfolding same by (rule a(6))
  have fresh: "p \<notin> live_pages (ng_allocator g)" using a(3,4) i(11) by (auto simp: bm_live_def)
  have live: "live_pages al = insert p (live_pages (ng_allocator g))"
  proof
    show "insert p (live_pages (ng_allocator g)) \<subseteq> live_pages al"
      using shared_stepD(1) [OF step] i(11) a(6) by (auto simp: bm_good_def)
    have "live_pages al - insert p Y = live_pages (ng_allocator g) - Y" using a(7) i(11) by (simp add: bm_live_def)
    then show "live_pages al \<subseteq> insert p (live_pages (ng_allocator g))" using f(4) by blast
  qed
  have new: "new_pages (node_bt g) ?t = {p}" using live fresh i(11) by (auto simp: new_pages_def)
  note w = shared_write_law [OF inv _ step good, of "insert p D", unfolded new]
  have "p \<notin> D" using fresh i(9) f(3,4) by blast
  then show thesis
    by (intro that [of p al]) (use w a i(11) same in auto)
qed

lemma write_data_law:
  assumes inv: "graph_inv F X D me R g" and p: "p \<in> D" "p \<noteq> 0" "unat p \<le> MAX_PAGE" and len: "length bs \<le> 4096"
  obtains f where "write_file (unat (backend_page_offset p)) bs g = Some (Inr (), set_shared f (ng_allocator g) g)"
    "graph_inv F X D me R (set_shared f (ng_allocator g) g)" "edges_kept me (ng_edges g) (ng_edges (set_shared f (ng_allocator g) g))"
    "\<And>q x. q \<in> D \<Longrightarrow> q \<noteq> p \<Longrightarrow> data_at (node_bt g) q x \<Longrightarrow> data_at (node_bt (set_shared f (ng_allocator g) g)) q x"
    "data_at (node_bt (set_shared f (ng_allocator g) g)) p bs"
proof -
  note i = graph_invD [OF inv]
  obtain f Y where f: "ng_file g = Some f" "bm_good Y (node_bt g)" "bm_db (node_bt g) = Some f" "F \<subseteq> Y" by (rule graph_file [OF inv])
  have off: "unat (backend_page_offset p) = offset_of p"
    using p(2,3) unat_page_offset(1) [OF p(2,3)] by (simp add: backend_page_offset_def V3_HEADER_SIZE_def DEFAULT_PAGE_SIZE_def)
  let ?f = "file_write f (offset_of p) bs"
  have pY: "p \<in> Y" using p(1) i(9) f(4) by blast
  have same: "(node_bt g)\<lparr>bm_db := Some ?f, bm_allocator := ng_allocator g\<rparr> = file_update (node_bt g) ?f"
    using i(4,11) by (cases "node_bt g") (simp add: file_update_def)
  have step: "shared_step (UNIV - {p}) (node_bt g) ((node_bt g)\<lparr>bm_db := Some ?f, bm_allocator := ng_allocator g\<rparr>)"
    unfolding same by (rule foreign_write_shared [OF f(2,3) pY p(2) len]) simp
  have good: "bm_good Y ((node_bt g)\<lparr>bm_db := Some ?f, bm_allocator := ng_allocator g\<rparr>)"
    unfolding same by (rule foreign_write(1) [OF f(2,3) pY p(2) len])
  have new: "new_pages (node_bt g) ((node_bt g)\<lparr>bm_db := Some ?f, bm_allocator := ng_allocator g\<rparr>) = {}"
    using i(11) by (simp add: new_pages_def)
  have "{p} \<subseteq> D" using p(1) by simp
  note w = shared_write_law [OF inv this step good, of D, unfolded new]
  have "data_at (node_bt (set_shared (Some ?f) (ng_allocator g) g)) p bs"
    using p(2) len by (simp add: data_at_def file_read_exact_def length_file_write) (simp add: file_write_def slice_blit_same)
  then show thesis
    by (intro that [of "Some ?f"]) (use w f(1) off in \<open>auto simp: write_file_def\<close>)
qed

section \<open>The record of a node\<close>

text \<open>The bytes a record stands for, which a large node has on a page of its own.\<close>

definition holds_data :: "u64 set \<Rightarrow> btree_manager \<Rightarrow> node_record \<Rightarrow> bytes \<Rightarrow> bool" where
  "holds_data D t r bs \<longleftrightarrow>
     (case data_inline r of
        Some d \<Rightarrow> d = bs
      | None \<Rightarrow> \<exists>p \<in> D. p \<noteq> 0 \<and> unat p \<le> MAX_PAGE \<and> data_external_offset r = Some (backend_page_offset p) \<and>
          unat (masked_data_len r) = length bs \<and> data_at t p bs)"

definition node_bytes :: "('j, 'c) platform \<Rightarrow> 'j node_spec \<Rightarrow> bytes" where
  "node_bytes E n = compact_data (spec_kind n) (spec_name n) (json_or_empty E (spec_data n))"

lemma length_node_bytes:
  "length (node_bytes E n) = 2 + length (spec_kind n) + length (spec_name n) + length (json_or_empty E (spec_data n))"
  by (simp add: node_bytes_def compact_data_def)

lemma masked_small: "n \<le> 4096 \<Longrightarrow> unat ((of_nat n :: u16) AND MAX_DATA_LEN) = n"
  using masked_length [of n] by simp

lemma make_record_law:
  assumes inv: "graph_inv F X D me R g" and room: "bm_room (Suc n) (node_bt g)" and len: "length (node_bytes E node) \<le> 4096"
  obtains r f al F' X' D' where "make_record E node g = Some (Inr r, set_shared f al g)" "small_record r" "D \<subseteq> D'"
    "graph_inv F' X' D' me R (set_shared f al g)" "edges_kept me (ng_edges g) (ng_edges (set_shared f al g))"
    "bm_room n (node_bt (set_shared f al g))" "holds_data D' (node_bt (set_shared f al g)) r (node_bytes E node)"
    "\<And>q x. q \<in> D \<Longrightarrow> data_at (node_bt g) q x \<Longrightarrow> data_at (node_bt (set_shared f al g)) q x"
proof (cases "length (node_bytes E node) \<le> 64")
  case True
  note i = graph_invD [OF inv]
  obtain r where r: "new_inline 0 0 0 0 (node_bytes E node) 0 0 0 0 = Inr r" "wf_record r" "data_inline r = Some (node_bytes E node)"
    using new_inline_length_check [of "node_bytes E node" 0 0 0 0 0 0 0 0] True by auto
  have same: "set_shared (ng_file g) (ng_allocator g) g = g"
    using i(11-14) by (cases g) (simp add: set_shared_def ng_file_def ng_allocator_def)
  have "make_record E node g = Some (Inr r, g)"
    using True [unfolded length_node_bytes] r(1) by (simp add: make_record_def Let_def node_bytes_def)
  moreover have "small_record r" using r True by (simp add: small_record_def MAX_INLINE_DATA_def)
  moreover have "holds_data D (node_bt g) r (node_bytes E node)" using r(3) by (simp add: holds_data_def)
  ultimately show thesis
    using that [of r "ng_file g" "ng_allocator g" D F X] inv bm_room_mono [OF room, of n] by (simp add: same)
next
  case False
  let ?bs = "node_bytes E node"
  obtain p al F' X' where a: "allocate (ng_allocator g) = (Inr p, al)" "p \<noteq> 0" "unat p \<le> MAX_PAGE" "p \<notin> D"
    "graph_inv F' X' (insert p D) me R (set_shared (ng_file g) al g)" "edges_kept me (ng_edges g) (ng_edges (set_shared (ng_file g) al g))"
    "bm_room n (node_bt (set_shared (ng_file g) al g))"
    "\<And>q bs. q \<in> D \<Longrightarrow> data_at (node_bt g) q bs \<Longrightarrow> data_at (node_bt (set_shared (ng_file g) al g)) q bs"
    by (rule allocate_law [OF inv room]) (rule that; blast)
  let ?g1 = "set_shared (ng_file g) al g"
  obtain f where w: "write_file (unat (backend_page_offset p)) ?bs ?g1 = Some (Inr (), set_shared f (ng_allocator ?g1) ?g1)"
    "graph_inv F' X' (insert p D) me R (set_shared f (ng_allocator ?g1) ?g1)" "edges_kept me (ng_edges ?g1) (ng_edges (set_shared f (ng_allocator ?g1) ?g1))"
    "\<And>q x. q \<in> insert p D \<Longrightarrow> q \<noteq> p \<Longrightarrow> data_at (node_bt ?g1) q x \<Longrightarrow> data_at (node_bt (set_shared f (ng_allocator ?g1) ?g1)) q x"
    "data_at (node_bt (set_shared f (ng_allocator ?g1) ?g1)) p ?bs"
    by (rule write_data_law [OF a(5) insertI1 a(2,3) len]) (rule that; blast)
  have twice: "set_shared f (ng_allocator ?g1) ?g1 = set_shared f al g" by simp
  have pages: "(length ?bs + DEFAULT_PAGE_SIZE - 1) div DEFAULT_PAGE_SIZE - 1 = 0"
    using len by (simp add: DEFAULT_PAGE_SIZE_def)
  have big: "(of_nat (length ?bs) :: u16) > of_nat MAX_INLINE_DATA"
    using False len by (simp add: MAX_INLINE_DATA_def word_less_nat_alt unat_of_nat take_bit_nat_eq_self)
  then obtain r where r: "new_external 0 0 0 0 (backend_page_offset p) (of_nat (length ?bs)) 0 0 0 0 = Inr r"
    "data_inline r = None" "data_external_offset r = Some (backend_page_offset p)" "data_len r = of_nat (length ?bs)"
    by (simp add: new_external_def)
  have "external_record ?bs g = Some (Inr r, set_shared f al g)"
    using a(1) w(1) r(1) by (simp add: external_record_def Let_def pages [unfolded One_nat_def] bindG_def twice)
  then have "make_record E node g = Some (Inr r, set_shared f al g)"
    using False [unfolded length_node_bytes] by (simp add: make_record_def Let_def node_bytes_def)
  moreover have "small_record r" using r by (simp add: small_record_def wf_record_def)
  moreover have "holds_data (insert p D) (node_bt (set_shared f al g)) r ?bs"
    using r w(5) a(2,3) len masked_small by (simp add: holds_data_def masked_data_len_def twice)
  moreover have "bm_room n (node_bt (set_shared f al g))" using a(7) by (simp add: bm_room_def)
  moreover have "data_at (node_bt (set_shared f al g)) q x" if "q \<in> D" "data_at (node_bt g) q x" for q x
    using w(4) [of q x] a(4,8) that by (auto simp: twice)
  ultimately show thesis
    using that [of r f al "insert p D" F' X'] w(2) edges_kept_trans [OF a(6) w(3)] by (simp add: twice subset_insertI)
qed

section \<open>Looking up a record\<close>

text \<open>The cache crate: \<open>view c\<close> is what a cache holds; an entry may be evicted when another is put.\<close>

definition lru_ok :: "'c lru_cache \<Rightarrow> ('c \<Rightarrow> i64 \<Rightarrow> node_record option) \<Rightarrow> bool" where
  "lru_ok L view \<longleftrightarrow>
     (\<forall>n. 1 \<le> n \<longrightarrow> view (lru_new L n) = (\<lambda>_. None)) \<and>
     (\<forall>i c. fst (lru_get L i c) = view c i \<and> view (snd (lru_get L i c)) = view c) \<and>
     (\<forall>i r c. view (lru_put L i r c) \<subseteq>\<^sub>m (view c)(i \<mapsto> r)) \<and>
     (\<forall>i c. view (lru_pop L i c) = (view c)(i := None))"

definition cache_ok :: "('c \<Rightarrow> i64 \<Rightarrow> node_record option) \<Rightarrow> (i64 \<Rightarrow> node_record option) \<Rightarrow> 'c \<Rightarrow> bool" where
  "cache_ok view R c \<longleftrightarrow> (\<forall>i r. view c i = Some r \<longrightarrow> R i = Some (stored r))"

lemma cache_ok_put: "lru_ok L view \<Longrightarrow> cache_ok view R c \<Longrightarrow> R i = Some (stored r) \<Longrightarrow> cache_ok view R (lru_put L i r c)"
  unfolding lru_ok_def cache_ok_def map_le_def by (metis domI fun_upd_apply option.inject)

lemma with_nodes_fields:
  assumes "with_nodes f g = Some (r, g')"
  shows "ng_header g' = ng_header g" "ng_kinds g' = ng_kinds g" "ng_names g' = ng_names g" "ng_cache g' = ng_cache g" "ng_kv g' = ng_kv g"
  using assms by (auto simp: with_nodes_def split: option.splits prod.splits)

text \<open>What a read changes nothing of.\<close>

definition same_meta :: "('j, 'c) native_graph \<Rightarrow> ('j, 'c) native_graph \<Rightarrow> bool" where
  "same_meta g g' \<longleftrightarrow> ng_header g' = ng_header g \<and> ng_kinds g' = ng_kinds g \<and> ng_names g' = ng_names g \<and>
     ns_next_id (ng_nodes g') = ns_next_id (ng_nodes g) \<and> ns_batch (ng_nodes g') = ns_batch (ng_nodes g) \<and> ng_kv g' = ng_kv g"

lemma same_meta_refl [simp]: "same_meta g g"
  by (simp add: same_meta_def)

lemma same_meta_trans: "same_meta g g' \<Longrightarrow> same_meta g' g'' \<Longrightarrow> same_meta g g''"
  by (simp add: same_meta_def)

lemma graph_inv_cong:
  "ng_nodes g' = ng_nodes g \<Longrightarrow> ng_edges g' = ng_edges g \<Longrightarrow> ng_one_cache g' = ng_one_cache g \<Longrightarrow>
   graph_inv F X D me R g' = graph_inv F X D me R g"
  by (simp add: graph_inv_def ng_allocator_def)

lemma get_node_internal_law:
  assumes inv: "graph_inv F X D me R g" and L: "lru_ok (pf_lru E) view" and c: "cache_ok view R (ng_cache g)"
  shows "\<exists>r g' X'. get_node_internal E i g = Some (Inr r, g') \<and> map_option stored r = R i \<and> graph_inv F X' D me R g' \<and>
    cache_ok view R (ng_cache g') \<and> same_meta g g' \<and> edges_kept me (ng_edges g) (ng_edges g') \<and>
    (\<forall>n. bm_room n (node_bt g) \<longrightarrow> bm_room n (node_bt g')) \<and>
    (\<forall>p bs. p \<in> D \<longrightarrow> data_at (node_bt g) p bs \<longrightarrow> data_at (node_bt g') p bs)"
proof -
  obtain hit c' where get: "lru_get (pf_lru E) i (ng_cache g) = (hit, c')" by fastforce
  then have hit: "hit = view (ng_cache g) i" "view c' = view (ng_cache g)"
    using L unfolding lru_ok_def by (metis fst_conv, metis snd_conv)
  have c': "cache_ok view R c'" using c by (simp add: cache_ok_def hit(2))
  let ?g = "g\<lparr>ng_cache := c'\<rparr>"
  have inv1: "graph_inv F X D me R ?g" using inv by (simp add: graph_inv_cong [of ?g g])
  show ?thesis
  proof (cases hit)
    case (Some r)
    then have "R i = Some (stored r)" using c hit(1) by (simp add: cache_ok_def)
    moreover have "get_node_internal E i g = Some (Inr (Some r), ?g)"
      using get Some by (simp add: get_node_internal_def node_cache_get_def)
    ultimately show ?thesis using inv1 c' by (intro exI [of _ "Some r"] exI [of _ ?g] exI [of _ X]) (simp add: same_meta_def)
  next
    case None
    obtain r s' where l: "lookup_node i (ng_nodes ?g) = Some (Inr r, s')" "map_option stored r = R i" "holds_records F R s'"
      "ns_step F (ng_nodes ?g) s'" "\<forall>n. ns_room n (ng_nodes ?g) \<longrightarrow> ns_room n s'" "ns_next_id s' = ns_next_id (ng_nodes ?g)"
      "ns_batch s' = ns_batch (ng_nodes ?g)" using lookup_holds [OF graph_invD(1) [OF inv1]] by blast
    note w = with_nodes_law [where f = "lookup_node i", OF inv1 l(1,3,4)]
    let ?g1 = "?g\<lparr>ng_nodes := s', ng_edges := (ng_edges ?g)\<lparr>es_btree := lend (ng_one_cache ?g) (ns_btree s') (edge_bt ?g)\<rparr>\<rparr>"
    let ?g2 = "case r of None \<Rightarrow> ?g1 | Some n \<Rightarrow> ?g1\<lparr>ng_cache := lru_put (pf_lru E) i n (ng_cache ?g1)\<rparr>"
    obtain X' where X': "graph_inv F X' D me R ?g1" using w(2) by blast
    have "graph_inv F X' D me R ?g2" 
      by (rule graph_inv_cong [THEN iffD2, OF _ _ _ X']) (simp_all split: option.split)
    moreover have "get_node_internal E i g = Some (Inr r, ?g2)"
      using get None w(1)
      by (simp add: get_node_internal_def node_cache_get_def node_cache_insert_def bindG_def split: option.split)
    moreover have "cache_ok view R (ng_cache ?g2)"
      using c' l(2) cache_ok_put [OF L c'] by (auto split: option.split)
    moreover have "same_meta g ?g2" using l(6,7) by (simp add: same_meta_def split: option.split)
    moreover have "edges_kept me (ng_edges g) (ng_edges ?g2)" using w(3) by (simp split: option.split)
    moreover have "bm_room n (node_bt g) \<longrightarrow> bm_room n (node_bt ?g2)" for n using l(5) by (simp add: ns_room_def split: option.split)
    moreover have "p \<in> D \<longrightarrow> data_at (node_bt g) p bs \<longrightarrow> data_at (node_bt ?g2) p bs" for p bs using w(4) by (simp split: option.split)
    ultimately show ?thesis using l(2) by blast
  qed
qed

lemma masked_stored [simp]: "masked_data_len (stored r) = masked_data_len r"
  by (auto simp: masked_data_len_def stored_def encoded_data_len_def mask_data_len EXTERNAL_DATA_FLAG_def intro!: bit_word_eqI
      simp: bit_simps bit_external_flag)

lemma holds_data_stored [simp]: "holds_data D t (stored r) bs = holds_data D t r bs"
  by (simp add: holds_data_def split: option.split)

lemma holds_data_mono:
  assumes "holds_data D t r bs" "D \<subseteq> D'" "\<And>p x. p \<in> D \<Longrightarrow> data_at t p x \<Longrightarrow> data_at t' p x"
  shows "holds_data D' t' r bs"
  using assms by (auto simp: holds_data_def split: option.splits)

lemma record_payload_law:
  assumes "holds_data D (node_bt g) r bs"
  shows "record_payload r g = Some (Inr bs, g)"
proof (cases "data_inline r")
  case None
  then obtain p where p: "p \<noteq> 0" "unat p \<le> MAX_PAGE" "data_external_offset r = Some (backend_page_offset p)"
    "unat (masked_data_len r) = length bs" "data_at (node_bt g) p bs" using assms by (auto simp: holds_data_def)
  have "unat (backend_page_offset p) = offset_of p"
    using p(1,2) unat_page_offset(1) [OF p(1,2)] by (simp add: backend_page_offset_def V3_HEADER_SIZE_def DEFAULT_PAGE_SIZE_def)
  then show ?thesis using None p by (auto simp: record_payload_def data_at_def ng_file_def)
qed (use assms in \<open>simp add: record_payload_def holds_data_def\<close>)

section \<open>Inserting a node\<close>

lemma holds_data_id [simp]: "holds_data D t (r\<lparr>node_id := i\<rparr>) bs = holds_data D t r bs"
  by (simp add: holds_data_def masked_data_len_def split: option.split)

lemma root_to_header_fields [simp]:
  "hdr_node_count (root_to_header g h) = hdr_node_count h" "hdr_edge_count (root_to_header g h) = hdr_edge_count h"
  "hdr_magic (root_to_header g h) = hdr_magic h"
  by (simp_all add: root_to_header_def Let_def split: option.split)

lemma insert_node_inner_law:
  assumes inv: "graph_inv F X D me R g" and room: "bm_room (n + 14) (node_bt g)" and len: "length (node_bytes E node) \<le> 4096"
    and next_id: "sint (ns_next_id (ng_nodes g)) < 2 ^ 32"
  defines "i \<equiv> ns_next_id (ng_nodes g)"
  shows "\<exists>r g' F' X' D'. insert_node_inner E node g = Some (Inr i, g') \<and> graph_inv F' X' D' me (R(i \<mapsto> r)) g' \<and> D \<subseteq> D' \<and>
    holds_data D' (node_bt g') r (node_bytes E node) \<and> edges_kept me (ng_edges g) (ng_edges g') \<and> bm_room n (node_bt g') \<and>
    ns_next_id (ng_nodes g') = i + 1 \<and> ns_batch (ng_nodes g') = ns_batch (ng_nodes g) \<and> ng_cache g' = ng_cache g \<and> ng_kv g' = ng_kv g \<and>
    ng_kinds g' = index_insert (spec_kind node) i (ng_kinds g) \<and> ng_names g' = index_insert (spec_name node) i (ng_names g) \<and>
    hdr_node_count (ng_header g') = hdr_node_count (ng_header g) + 1 \<and> hdr_edge_count (ng_header g') = hdr_edge_count (ng_header g) \<and>
    hdr_magic (ng_header g') = hdr_magic (ng_header g) \<and>
    (\<forall>p bs. p \<in> D \<longrightarrow> data_at (node_bt g) p bs \<longrightarrow> data_at (node_bt g') p bs)"
proof -
  have sum: "Suc (n + 13) = n + 14" by simp
  have "bm_room (Suc (n + 13)) (node_bt g)" unfolding sum by (rule room)
  then obtain r f al F1 X1 D1 where m: "make_record E node g = Some (Inr r, set_shared f al g)" "small_record r" "D \<subseteq> D1"
    "graph_inv F1 X1 D1 me R (set_shared f al g)" "edges_kept me (ng_edges g) (ng_edges (set_shared f al g))"
    "bm_room (n + 13) (node_bt (set_shared f al g))" "holds_data D1 (node_bt (set_shared f al g)) r (node_bytes E node)"
    "\<And>q x. q \<in> D \<Longrightarrow> data_at (node_bt g) q x \<Longrightarrow> data_at (node_bt (set_shared f al g)) q x"
    by (rule make_record_law [OF inv _ len]) (rule that; blast)
  let ?g1 = "set_shared f al g"
  have id: "ns_next_id (ng_nodes ?g1) = i" by (simp add: i_def)
  obtain s' where s: "ns_insert_node r (ng_nodes ?g1) = Some (Inr i, s')" "holds_records F1 (R(i \<mapsto> stored (r\<lparr>node_id := i\<rparr>))) s'"
    "ns_room n s'" "ns_next_id s' = i + 1" "ns_batch s' = ns_batch (ng_nodes g)" "ns_step F1 (ng_nodes ?g1) s'"
    using ns_insert_law [OF graph_invD(1) [OF m(4)], of n r] m(2,6) next_id by (auto simp: ns_room_def id i_def)
  note w = with_nodes_law [where f = "ns_insert_node r", OF m(4) s(1,2,6)]
  let ?g2 = "?g1\<lparr>ng_nodes := s', ng_edges := (ng_edges ?g1)\<lparr>es_btree := lend (ng_one_cache ?g1) (ns_btree s') (edge_bt ?g1)\<rparr>\<rparr>"
  obtain X2 where X2: "graph_inv F1 X2 D1 me (R(i \<mapsto> stored (r\<lparr>node_id := i\<rparr>))) ?g2" using w(2) by blast
  define g3 where "g3 = ?g2\<lparr>ng_kinds := index_insert (spec_kind node) i (ng_kinds ?g2),
                  ng_names := index_insert (spec_name node) i (ng_names ?g2)\<rparr>"
  define g4 where "g4 = g3\<lparr>ng_header := root_to_header g3 ((ng_header g3)\<lparr>hdr_node_count := hdr_node_count (ng_header g3) + 1\<rparr>)\<rparr>"
  have same: "ng_nodes g4 = ng_nodes ?g2" "ng_edges g4 = ng_edges ?g2" "ng_one_cache g4 = ng_one_cache ?g2"
    by (simp_all add: g4_def g3_def)
  have run: "insert_node_inner E node g = Some (Inr i, g4)"
    using m(1) w(1) by (simp add: insert_node_inner_def bindG_def Let_def g4_def g3_def)
  have kept: "data_at (node_bt g4) p bs" if "p \<in> D" "data_at (node_bt g) p bs" for p bs
    using w(4) [of p bs] m(3,8) that by (auto simp: same)
  have "holds_data D1 (node_bt g4) (stored (r\<lparr>node_id := i\<rparr>)) (node_bytes E node)"
    using holds_data_mono [OF m(7) subset_refl, of "node_bt g4"] w(4) by (simp add: same)
  moreover have "graph_inv F1 X2 D1 me (R(i \<mapsto> stored (r\<lparr>node_id := i\<rparr>))) g4"
    by (rule graph_inv_cong [THEN iffD2, OF same X2])
  moreover have "edges_kept me (ng_edges g) (ng_edges g4)" unfolding same by (rule edges_kept_trans [OF m(5) w(3)])
  moreover have "bm_room n (node_bt g4)" using s(3) by (simp add: same ns_room_def)
  ultimately show ?thesis
    using run m(3) kept s(4,5)
    by (intro exI [of _ "stored (r\<lparr>node_id := i\<rparr>)"] exI [of _ g4] exI [of _ F1] exI [of _ X2] exI [of _ D1])
      (simp add: g4_def g3_def set_shared_def)
qed

section \<open>Calls of the edge store\<close>

lemma graph_room: "graph_inv F X D me R g \<Longrightarrow> bm_room n (edge_bt g) = bm_room n (node_bt g)"
  using graph_invD(11,12) by (fastforce simp: bm_room_def)

lemma insert_edge_types:
  assumes "insert_edge src dst dir t s = Some (Inr (), s')"
  shows "es_edge_types s' = (es_edge_types s)((src, dst, dir) := t)"
  using assms by (auto simp: insert_edge_def dirty_entry_def Let_def cache_edge_def split: option.splits prod.splits sum.splits)

lemma added_length:
  assumes "added k e s s'" "distinct (map fst (es_dirty s))" "distinct (map fst (es_dirty s'))"
  shows "length (es_dirty s') \<le> Suc (length (es_dirty s))"
proof -
  have len: "length (es_dirty s) = card (dom (map_of (es_dirty s)))" if "distinct (map fst (es_dirty s))" for s
    using distinct_card [OF that] by (simp add: dom_map_of_conv_image_fst)
  have "dom (map_of (es_dirty s')) \<subseteq> insert k (dom (map_of (es_dirty s)))"
    using assms(1) by (auto simp: added_def domIff simp del: split_paired_All)
  then have "card (dom (map_of (es_dirty s'))) \<le> card (insert k (dom (map_of (es_dirty s))))"
    by (intro card_mono) (simp_all add: finite_dom_map_of)
  also have "\<dots> \<le> Suc (card (dom (map_of (es_dirty s))))" by (simp add: card_insert_if finite_dom_map_of)
  finally show ?thesis by (simp add: len assms(2,3))
qed

lemma with_edges_fields:
  assumes "with_edges f g = Some (r, g')"
  shows "same_meta g g'" "ng_cache g' = ng_cache g" "ng_kv g' = ng_kv g"
  using assms by (auto simp: with_edges_def same_meta_def split: option.splits prod.splits)

lemma insert_edge_law:
  assumes inv: "graph_inv F X D me R g" and dom: "in_domain (src, dir)" and t: "storable_edge (dst, t)" and room: "bm_room (Suc n) (node_bt g)"
  shows "\<exists>g' F' X'. with_edges (insert_edge src dst dir t) g = Some (Inr (), g') \<and> graph_inv F' X' D me R g' \<and>
    added (src, dir) (dst, t) (ng_edges g) (ng_edges g') \<and> same_disk me (ng_edges g) (ng_edges g') \<and>
    es_cache (ng_edges g') = es_cache (cache_edge (src, dir) dst (ng_edges g)) \<and>
    es_edge_types (ng_edges g') = (es_edge_types (ng_edges g))((src, dst, dir) := t) \<and> bm_room n (node_bt g') \<and>
    same_meta g g' \<and> ng_cache g' = ng_cache g \<and> ng_kv g' = ng_kv g \<and>
    (\<forall>p bs. p \<in> D \<longrightarrow> data_at (node_bt g) p bs \<longrightarrow> data_at (node_bt g') p bs)"
proof -
  note i = graph_invD [OF inv]
  have "bm_room (Suc n) (edge_bt g)" using room graph_room [OF inv] by simp
  then obtain e' X' where e: "insert_edge src dst dir t (ng_edges g) = Some (Inr (), e')" "X \<subseteq> X'" "es_inv X' me e'"
    "added (src, dir) (dst, t) (ng_edges g) e'" "same_disk me (ng_edges g) e'" "bm_room n (es_btree e')"
    "es_cache e' = es_cache (cache_edge (src, dir) dst (ng_edges g))"
    and frame: "\<And>F. F \<subseteq> X \<Longrightarrow> shared_step F (edge_bt g) (es_btree e') \<and>
       (owns (X - F) (slot_page (ng_edges g) me) \<longrightarrow> owns (X' - F) (slot_page e' me))"
    by (rule insert_edge_correct [OF i(2) dom t]) (rule that; assumption)
  have step: "shared_step (kept_by_edges F D g) (edge_bt g) (es_btree e')" "owns (X' - kept_by_edges F D g) (slot_page e' me)"
    using frame [OF kept_by_edges_foreign [OF inv]] kept_by_edges_owns [OF inv] by blast+
  note w = with_edges_law [where f = "insert_edge src dst dir t", OF inv e(1,3,2) step]
  have run: "with_edges (insert_edge src dst dir t) g = Some (Inr (), g\<lparr>ng_edges := e', ng_nodes := (ng_nodes g)\<lparr>ns_btree := lend (ng_one_cache g) (es_btree e') (node_bt g)\<rparr>\<rparr>)"
    using w(1) by simp
  show ?thesis
    using run w(2,3) e(4-7) insert_edge_types [OF e(1)] with_edges_fields [OF run] by fastforce
qed

lemma es_neighbors_frame:
  assumes "es_neighbors src dir s = Some (Inr [], s')"
  shows "es_edge_types s' = es_edge_types s" "es_dirty s' = es_dirty s"
  using assms
  by (auto simp: es_neighbors_def load_neighbors_from_disk_def Let_def cluster_dsts_def edges_with_types_def
      split: option.splits prod.splits sum.splits fault.splits if_splits)

text \<open>Nothing lies on disk for a slot that is not cached: then the cache answers.\<close>

definition cached_neighbors :: "edge_store \<Rightarrow> edge_slot \<Rightarrow> i64 list" where
  "cached_neighbors e k = (case es_cache e k of Some ns \<Rightarrow> ns | None \<Rightarrow> [])"

definition all_cached :: "(u64 \<Rightarrow> u64 option) \<Rightarrow> edge_store \<Rightarrow> bool" where
  "all_cached me e \<longleftrightarrow> (\<forall>k. in_domain k \<and> es_cache e k = None \<longrightarrow> disk_edges e me k = [])"

lemma es_neighbors_law:
  assumes inv: "graph_inv F X D me R g" and dom: "in_domain (src, dir)" and cached: "all_cached me (ng_edges g)"
  shows "\<exists>e'. es_neighbors src dir (ng_edges g) = Some (Inr (cached_neighbors (ng_edges g) (src, dir)), e') \<and> es_inv X me e' \<and>
    edges_kept me (ng_edges g) e' \<and> shared_step (kept_by_edges F D g) (edge_bt g) (es_btree e') \<and>
    owns (X - kept_by_edges F D g) (slot_page e' me) \<and> (\<forall>n. bm_room n (edge_bt g) \<longrightarrow> bm_room n (es_btree e'))"
proof (cases "es_cache (ng_edges g) (src, dir)")
  case (Some ns)
  let ?e = "(ng_edges g)\<lparr>es_cache_hits := es_cache_hits (ng_edges g) + 1\<rparr>"
  have "es_inv X me ?e" by (rule es_inv_cong [OF graph_invD(2) [OF inv]]) simp_all
  moreover have "edges_kept me (ng_edges g) ?e" by (simp add: edges_kept_def disk_edges_btree [of ?e "ng_edges g"])
  moreover have "slot_page ?e me = slot_page (ng_edges g) me" by (simp add: fun_eq_iff slot_page_def)
  ultimately show ?thesis
    using Some kept_by_edges_owns [OF inv] by (intro exI [of _ ?e]) (simp add: es_neighbors_def cached_neighbors_def)
next
  case None
  then have empty: "disk_edges (ng_edges g) me (src, dir) = []" using cached dom by (simp add: all_cached_def)
  obtain e' where e: "es_neighbors src dir (ng_edges g) = Some (Inr (map fst (disk_edges (ng_edges g) me (src, dir))), e')"
    "es_inv X me e'" "same_disk me (ng_edges g) e'" "dirty_edges e' = dirty_edges (ng_edges g)"
    "\<And>F. F \<subseteq> X \<Longrightarrow> shared_step F (edge_bt g) (es_btree e')" "slot_page e' me = slot_page (ng_edges g) me"
    "es_cache e' = (if map fst (disk_edges (ng_edges g) me (src, dir)) = [] then es_cache (ng_edges g)
       else (es_cache (ng_edges g))((src, dir) \<mapsto> map fst (disk_edges (ng_edges g) me (src, dir))))"
    "\<And>n. bm_room n (edge_bt g) \<Longrightarrow> bm_room n (es_btree e')"
    by (rule es_neighbors_correct [OF graph_invD(2) [OF inv] dom None]) (rule that; assumption)
  have run: "es_neighbors src dir (ng_edges g) = Some (Inr [], e')" using e(1) empty by simp
  note frame = es_neighbors_frame [OF run]
  have "edges_kept me (ng_edges g) e'"
    using e(3,7) empty frame by (simp add: edges_kept_def same_disk_def)
  then show ?thesis
    using run e(2,5,6,8) None kept_by_edges_owns [OF inv] kept_by_edges_foreign [OF inv]
    by (intro exI [of _ e']) (simp add: cached_neighbors_def)
qed

section \<open>Flushing\<close>

lemma write_page_types: "es_edge_types (write_page_to_disk pid d s) = es_edge_types s"
  by (simp add: write_page_to_disk_def Let_def)

lemma flush_page_types: "flush_page_id c s = (r, s') \<Longrightarrow> es_edge_types s' = es_edge_types s"
  by (auto simp: flush_page_id_def split: if_splits prod.splits sum.splits fault.splits)

lemma flush_clusters_types: "flush_clusters kcs s = Some (r, s') \<Longrightarrow> es_edge_types s' = es_edge_types s"
proof (induction kcs s rule: flush_clusters.induct)
  case (2 k c rest s)
  obtain d where d: "cluster_serialize c = Inr d" by (simp add: cluster_serialize_eq)
  obtain q s1 where p: "flush_page_id c s = (q, s1)" by fastforce
  show ?case
    using 2 d p flush_page_types [OF p]
    by (auto simp: Let_def write_page_types split: sum.splits fault.splits option.splits prod.splits)
qed simp

lemma es_flush_types: "es_flush order s = Some (r, s') \<Longrightarrow> es_edge_types s' = es_edge_types s"
  by (auto simp: es_flush_def persist_btree_metadata_def Let_def split: if_splits option.splits sum.splits prod.splits
      dest!: flush_clusters_types)

lemma edges_flush_law:
  assumes inv: "graph_inv F X D me R g" and order: "listing order"
    and fits: "\<forall>k c. map_of (es_dirty (ng_edges g)) k = Some c \<longrightarrow> length (cluster_bytes c) \<le> 4096"
    and room: "bm_room (n + 11 * length (es_dirty (ng_edges g))) (node_bt g)"
  shows "\<exists>g' F' me'. with_edges (es_flush order) g = Some (Inr (), g') \<and> graph_inv F' X D me' R g' \<and>
    es_dirty (ng_edges g') = [] \<and> es_cache (ng_edges g') = es_cache (ng_edges g) \<and>
    es_edge_types (ng_edges g') = es_edge_types (ng_edges g) \<and> bm_room n (node_bt g') \<and>
    (\<forall>k. in_domain k \<longrightarrow> disk_edges (ng_edges g') me' k =
       (if map_of (es_dirty (ng_edges g)) k = None then disk_edges (ng_edges g) me k else dirty_edges (ng_edges g) k)) \<and>
    same_meta g g' \<and> ng_cache g' = ng_cache g \<and> ng_kv g' = ng_kv g \<and>
    (\<forall>p bs. p \<in> D \<longrightarrow> data_at (node_bt g) p bs \<longrightarrow> data_at (node_bt g') p bs)"
proof -
  note i = graph_invD [OF inv]
  have room': "bm_room (n + 11 * length (es_dirty (ng_edges g))) (edge_bt g)" using room graph_room [OF inv] by simp
  obtain e' me' where e: "es_flush order (ng_edges g) = Some (Inr (), e')" "es_inv X me' e'" "es_dirty e' = []"
    "es_cache e' = es_cache (ng_edges g)" "bm_room n (es_btree e')"
    "\<forall>k. in_domain k \<longrightarrow> disk_edges e' me' k =
       (if map_of (es_dirty (ng_edges g)) k = None then disk_edges (ng_edges g) me k else dirty_edges (ng_edges g) k)"
    "\<forall>F. F \<subseteq> X \<and> owns (X - F) (slot_page (ng_edges g) me) \<longrightarrow>
       shared_step F (edge_bt g) (es_btree e') \<and> owns (X - F) (slot_page e' me')"
    using es_flush_correct [OF i(2) order fits room'] by (elim exE conjE) (rule that; assumption)
  have step: "shared_step (kept_by_edges F D g) (edge_bt g) (es_btree e')" "owns (X - kept_by_edges F D g) (slot_page e' me')"
    using e(7) kept_by_edges_foreign [OF inv] kept_by_edges_owns [OF inv] by blast+
  note w = with_edges_law [where f = "es_flush order", OF inv e(1,2) subset_refl step]
  have run: "with_edges (es_flush order) g = Some (Inr (), g\<lparr>ng_edges := e', ng_nodes := (ng_nodes g)\<lparr>ns_btree := lend (ng_one_cache g) (es_btree e') (node_bt g)\<rparr>\<rparr>)"
    using w(1) by simp
  show ?thesis
    using run w(2,3) e(3-6) es_flush_types [OF e(1)] with_edges_fields [OF run] by fastforce
qed

lemma flush_to_disk_law:
  assumes inv: "graph_inv F X D me R g" and order: "listing (pf_dirty_order E)"
    and fits: "\<forall>k c. map_of (es_dirty (ng_edges g)) k = Some c \<longrightarrow> length (cluster_bytes c) \<le> 4096"
    and room: "bm_room (n + 11 * length (es_dirty (ng_edges g))) (node_bt g)"
    and magic: "length (hdr_magic (ng_header g)) = 8" and kv: "be_wal (ng_kv g) = None" "be_kv (ng_kv g) = None"
  shows "\<exists>g' F' me'. flush_to_disk E g = Some (Inr (), g') \<and> graph_inv F' X D me' R g' \<and>
    es_dirty (ng_edges g') = [] \<and> es_cache (ng_edges g') = es_cache (ng_edges g) \<and>
    es_edge_types (ng_edges g') = es_edge_types (ng_edges g) \<and> bm_room n (node_bt g') \<and>
    (\<forall>k. in_domain k \<longrightarrow> disk_edges (ng_edges g') me' k =
       (if map_of (es_dirty (ng_edges g)) k = None then disk_edges (ng_edges g) me k else dirty_edges (ng_edges g) k)) \<and>
    ng_kinds g' = ng_kinds g \<and> ng_names g' = ng_names g \<and> ng_cache g' = ng_cache g \<and> ng_kv g' = ng_kv g \<and>
    ns_next_id (ng_nodes g') = ns_next_id (ng_nodes g) \<and> ns_batch (ng_nodes g') = ns_batch (ng_nodes g) \<and>
    hdr_node_count (ng_header g') = hdr_node_count (ng_header g) \<and> hdr_edge_count (ng_header g') = hdr_edge_count (ng_header g) \<and>
    hdr_magic (ng_header g') = hdr_magic (ng_header g) \<and>
    (\<forall>p bs. p \<in> D \<longrightarrow> data_at (node_bt g) p bs \<longrightarrow> data_at (node_bt g') p bs)"
proof -
  obtain g1 F1 me1 where f: "with_edges (es_flush (pf_dirty_order E)) g = Some (Inr (), g1)" "graph_inv F1 X D me1 R g1"
    "es_dirty (ng_edges g1) = []" "es_cache (ng_edges g1) = es_cache (ng_edges g)"
    "es_edge_types (ng_edges g1) = es_edge_types (ng_edges g)" "bm_room n (node_bt g1)"
    "\<forall>k. in_domain k \<longrightarrow> disk_edges (ng_edges g1) me1 k =
       (if map_of (es_dirty (ng_edges g)) k = None then disk_edges (ng_edges g) me k else dirty_edges (ng_edges g) k)"
    "same_meta g g1" "ng_cache g1 = ng_cache g" "ng_kv g1 = ng_kv g"
    "\<forall>p bs. p \<in> D \<longrightarrow> data_at (node_bt g) p bs \<longrightarrow> data_at (node_bt g1) p bs"
    using edges_flush_law [OF inv order fits room] by (elim exE conjE) (rule that; assumption)
  define h where "h = (case btree_root_page_id (ng_edges g1) of
    Some root_page \<Rightarrow> (ng_header g1)\<lparr>hdr_edge_data_offset := root_page\<rparr> | None \<Rightarrow> ng_header g1)\<lparr>hdr_total_pages := al_total_pages (ng_allocator g1)\<rparr>"
  define g2 where "g2 = g1\<lparr>ng_header := h, ng_sidecar := Some (persist_indexes (pf_index_order E) (ng_kinds g1) (ng_names g1) (hdr_node_count h))\<rparr>"
  have h: "hdr_node_count h = hdr_node_count (ng_header g)" "hdr_edge_count h = hdr_edge_count (ng_header g)" "hdr_magic h = hdr_magic (ng_header g)"
    using f(8) by (simp_all add: h_def same_meta_def split: option.split)
  have same: "ng_nodes g2 = ng_nodes g1" "ng_edges g2 = ng_edges g1" "ng_one_cache g2 = ng_one_cache g1" by (simp_all add: g2_def)
  have inv2: "graph_inv F1 X D me1 R g2" by (rule graph_inv_cong [THEN iffD2, OF same f(2)])
  have "length (hdr_magic (ng_header g2)) = 8" using magic h by (simp add: g2_def)
  from sync_header_law [OF inv2 this] obtain f' where s: "sync_header g2 = Some (Inr (), set_shared f' (ng_allocator g2) g2)"
    "graph_inv F1 X D me1 R (set_shared f' (ng_allocator g2) g2)" "edges_kept me1 (ng_edges g2) (ng_edges (set_shared f' (ng_allocator g2) g2))"
    "\<And>p bs. p \<in> D \<Longrightarrow> data_at (node_bt g2) p bs \<Longrightarrow> data_at (node_bt (set_shared f' (ng_allocator g2) g2)) p bs" by blast
  let ?g = "set_shared f' (ng_allocator g2) g2"
  have "flush_to_disk E g = Some (Inr (), ?g)"
    using f(1,10) s(1) kv by (simp add: flush_to_disk_def bindG_def Let_def g2_def h_def flush_kv_def)
  moreover have "bm_room n (node_bt ?g)"
    using f(6) by (simp add: bm_room_def same ng_allocator_def)
  ultimately show ?thesis
    using s f h unfolding edges_kept_def same same_meta_def
    by (intro exI [of _ ?g] exI [of _ F1] exI [of _ me1]) (simp add: same g2_def)
qed

end
