(* ===== verification/Native_Refine.thy ===== *)
theory Native_Refine
  imports Native_Laws
begin

text \<open>
  What the native backend promises: a graph is its list of nodes and its list of edges, in the order they were
  inserted. The operations on the database file answer as this graph does.
\<close>

section \<open>The graph\<close>

text \<open>\<open>sg_flushed\<close> edges have been flushed; \<open>sg_disk\<close> are those of each node the file has.\<close>

record 'j graph_spec =
  sg_nodes :: "'j node_spec list"
  sg_edges :: "'j edge_spec list"
  sg_flushed :: nat
  sg_disk :: "edge_slot \<Rightarrow> (i64 \<times> bytes option) list"

definition empty_spec :: "'j graph_spec" where
  "empty_spec = \<lparr>sg_nodes = [], sg_edges = [], sg_flushed = 0, sg_disk = (\<lambda>_. [])\<rparr>"

text \<open>Ids are the positions from one on.\<close>

definition spec_node :: "'j graph_spec \<Rightarrow> i64 \<Rightarrow> 'j node_spec option" where
  "spec_node S i =
     (if 1 \<le> sint i \<and> sint i \<le> int (length (sg_nodes S)) then Some (sg_nodes S ! (nat (sint i) - 1)) else None)"

definition edge_type_of :: "'j edge_spec \<Rightarrow> bytes option" where
  "edge_type_of e = (if spec_type e = [] then None else Some (spec_type e))"

fun slot_entries :: "'j edge_spec list \<Rightarrow> edge_slot \<Rightarrow> (i64 \<times> bytes option) list" where
  "slot_entries es (v, Outgoing) = map (\<lambda>e. (spec_to e, edge_type_of e)) (filter (\<lambda>e. spec_from e = v) es)"
| "slot_entries es (v, Incoming) = map (\<lambda>e. (spec_from e, edge_type_of e)) (filter (\<lambda>e. spec_to e = v) es)"

text \<open>A neighbour comes once, where its first edge is; its type is the one of the last edge to it.\<close>

definition spec_neighbors :: "'j graph_spec \<Rightarrow> edge_slot \<Rightarrow> i64 list" where
  "spec_neighbors S k = fresh (map fst (slot_entries (sg_edges S) k)) {}"

definition last_type :: "(i64 \<times> bytes option) list \<Rightarrow> i64 \<Rightarrow> bytes option" where
  "last_type es w = (case map_of (rev es) w of None \<Rightarrow> None | Some t \<Rightarrow> t)"

definition pending :: "'j graph_spec \<Rightarrow> edge_slot \<Rightarrow> (i64 \<times> bytes option) list" where
  "pending S k = slot_entries (drop (sg_flushed S) (sg_edges S)) k"

definition spec_entity :: "i64 \<Rightarrow> 'j node_spec \<Rightarrow> 'j native_entity" where
  "spec_entity i n = \<lparr>en_id = i, en_kind = spec_kind n, en_name = spec_name n, en_file_path = None, en_data = spec_data n\<rparr>"

datatype 'j graph_op =
    Add_Node "'j node_spec"
  | Add_Edge "'j edge_spec"
  | Get_Node i64
  | Neighbors i64 direction "bytes option"
  | Degree i64
  | Kind_Query bytes
  | Name_Query bytes
  | Flush

datatype 'j graph_answer = Id_Answer i64 | Node_Answer "'j native_entity" | Ids_Answer "i64 list" | Degree_Answer nat nat | Done

definition spec_ids :: "('j node_spec \<Rightarrow> bytes) \<Rightarrow> 'j graph_spec \<Rightarrow> (bytes \<times> i64) list" where
  "spec_ids f S = map (\<lambda>k. (f (sg_nodes S ! k), of_nat (Suc k))) [0..<length (sg_nodes S)]"

fun spec_step :: "'j graph_op \<Rightarrow> 'j graph_spec \<Rightarrow> (graph_error + 'j graph_answer) \<times> 'j graph_spec" where
  "spec_step (Add_Node n) S = (Inr (Id_Answer (of_nat (length (sg_nodes S) + 1))), S\<lparr>sg_nodes := sg_nodes S @ [n]\<rparr>)"
| "spec_step (Add_Edge e) S =
     (if spec_node S (spec_from e) = None \<or> spec_node S (spec_to e) = None then (Inl Missing_Endpoint, S)
      else (Inr (Id_Answer (of_nat (length (sg_edges S) + 1))), S\<lparr>sg_edges := sg_edges S @ [e]\<rparr>))"
| "spec_step (Get_Node i) S =
     ((case spec_node S i of None \<Rightarrow> Inl (Node_Not_Found i) | Some n \<Rightarrow> Inr (Node_Answer (spec_entity i n))), S)"
| "spec_step (Neighbors v dir None) S = (Inr (Ids_Answer (spec_neighbors S (v, dir))), S)"
| "spec_step (Neighbors v dir (Some t)) S =
     (Inr (Ids_Answer (filter (\<lambda>w. last_type (slot_entries (sg_edges S) (v, dir)) w = Some t) (spec_neighbors S (v, dir)))), S)"
| "spec_step (Degree v) S =
     (Inr (Degree_Answer (length (spec_neighbors S (v, Outgoing))) (length (spec_neighbors S (v, Incoming)))), S)"
| "spec_step (Kind_Query k) S = (Inr (Ids_Answer (map snd (filter (\<lambda>p. fst p = k) (spec_ids spec_kind S)))), S)"
| "spec_step (Name_Query p) S = (Inr (Ids_Answer (map snd (filter (\<lambda>q. fst q = p) (spec_ids spec_name S)))), S)"
| "spec_step Flush S = (Inr Done, S\<lparr>sg_flushed := length (sg_edges S),
     sg_disk := (\<lambda>k. if pending S k = [] then sg_disk S k else pending S k)\<rparr>)"

text \<open>The calls of the backend.\<close>

definition map_answer :: "('a \<Rightarrow> 'b) \<Rightarrow> ('s, 'a) grun \<Rightarrow> ('s, 'b) grun" where
  "map_answer f m = bindG m (\<lambda>x. returnG (f x))"

fun graph_step :: "('j, 'c) platform \<Rightarrow> 'j graph_op \<Rightarrow> (('j, 'c) native_graph, 'j graph_answer) grun" where
  "graph_step E (Add_Node n) = map_answer Id_Answer (native_insert_node E n)"
| "graph_step E (Add_Edge e) = map_answer Id_Answer (native_insert_edge E e)"
| "graph_step E (Get_Node i) = map_answer Node_Answer (native_get_node E 0 i)"
| "graph_step E (Neighbors v dir t) = map_answer Ids_Answer (native_neighbors 0 v dir t)"
| "graph_step E (Degree v) = map_answer (\<lambda>(out, inc). Degree_Answer out inc) (native_degree v)"
| "graph_step E (Kind_Query k) = (\<lambda>g. Some (Inr (Ids_Answer (query_nodes_by_kind 0 k g)), g))"
| "graph_step E (Name_Query p) = (\<lambda>g. Some (Inr (Ids_Answer (query_nodes_by_name_pattern E 0 p g)), g))"
| "graph_step E Flush = map_answer (\<lambda>_. Done) (flush_to_disk E)"

fun run_ops ::
  "('j, 'c) platform \<Rightarrow> 'j graph_op list \<Rightarrow> ('j, 'c) native_graph \<Rightarrow>
   ((graph_error + 'j graph_answer) list \<times> ('j, 'c) native_graph) option" where
  "run_ops E [] g = Some ([], g)"
| "run_ops E (c # cs) g =
     (case graph_step E c g of
        None \<Rightarrow> None
      | Some (r, g1) \<Rightarrow> (case run_ops E cs g1 of None \<Rightarrow> None | Some (rs, g2) \<Rightarrow> Some (r # rs, g2)))"

fun spec_run :: "'j graph_op list \<Rightarrow> 'j graph_spec \<Rightarrow> (graph_error + 'j graph_answer) list \<times> 'j graph_spec" where
  "spec_run [] S = ([], S)"
| "spec_run (c # cs) S = (case spec_step c S of (r, S1) \<Rightarrow> case spec_run cs S1 of (rs, S2) \<Rightarrow> (r # rs, S2))"

text \<open>
  What the code relies on. Kinds and names of more than 255 bytes and nodes of more than a page do not survive the
  encoding; a page must hold the edges of a node that are flushed together; ids that differ by \<open>2 ^ 61\<close> share a key.
\<close>

definition json_ok :: "('j, 'c) platform \<Rightarrow> 'j \<Rightarrow> bool" where
  "json_ok E j \<longleftrightarrow> (\<exists>b. json_to_vec (pf_json E) j = Some b \<and> b \<noteq> [] \<and> json_from_slice (pf_json E) b = Some j)"

definition node_fits :: "('j, 'c) platform \<Rightarrow> 'j node_spec \<Rightarrow> bool" where
  "node_fits E n \<longleftrightarrow>
     length (spec_kind n) < 256 \<and> length (spec_name n) < 256 \<and> utf8_valid (spec_kind n) \<and> utf8_valid (spec_name n) \<and>
     json_ok E (spec_data n) \<and> length (node_bytes E n) \<le> 4096"

fun op_ok :: "('j, 'c) platform \<Rightarrow> 'j graph_spec \<Rightarrow> 'j graph_op \<Rightarrow> bool" where
  "op_ok E S (Add_Node n) \<longleftrightarrow> node_fits E n"
| "op_ok E S (Add_Edge e) \<longleftrightarrow> length (spec_type e) < 256 \<and> utf8_valid (spec_type e)"
| "op_ok E S (Get_Node i) \<longleftrightarrow> True"
| "op_ok E S (Neighbors v dir t) \<longleftrightarrow> in_domain (v, dir)"
| "op_ok E S (Degree v) \<longleftrightarrow> in_domain (v, Outgoing)"
| "op_ok E S (Kind_Query k) \<longleftrightarrow> True"
| "op_ok E S (Name_Query p) \<longleftrightarrow> STAR \<notin> set p"
| "op_ok E S Flush \<longleftrightarrow> (\<forall>k. edges_size (pending S k) \<le> 4096)"

fun ops_ok :: "('j, 'c) platform \<Rightarrow> 'j graph_spec \<Rightarrow> 'j graph_op list \<Rightarrow> bool" where
  "ops_ok E S [] \<longleftrightarrow> True"
| "ops_ok E S (c # cs) \<longleftrightarrow> op_ok E S c \<and> ops_ok E (snd (spec_step c S)) cs"

section \<open>Facts of the graph\<close>

text \<open>Slots are pairs that are best left alone.\<close>

declare split_paired_All [simp del] split_paired_Ex [simp del]

lemma slot_entries_snoc:
  "slot_entries (es @ [e]) k = slot_entries es k @
     (if k = (spec_from e, Outgoing) then [(spec_to e, edge_type_of e)] else if k = (spec_to e, Incoming) then [(spec_from e, edge_type_of e)] else [])"
  by (cases "(es, k)" rule: slot_entries.cases) auto

lemma slot_entries_append: "slot_entries (es @ fs) k = slot_entries es k @ slot_entries fs k"
  by (cases "(es, k)" rule: slot_entries.cases) auto

lemma pending_empty: "slot_entries (sg_edges S) k = [] \<Longrightarrow> pending S k = []"
  using slot_entries_append [of "take (sg_flushed S) (sg_edges S)" "drop (sg_flushed S) (sg_edges S)" k] by (simp add: pending_def)

lemma last_type_snoc: "last_type (es @ [(w, t)]) v = (if v = w then t else last_type es v)"
  by (simp add: last_type_def)

lemma spec_ids_snoc:
  "spec_ids f (S\<lparr>sg_nodes := sg_nodes S @ [n]\<rparr>) = spec_ids f S @ [(f n, of_nat (Suc (length (sg_nodes S))))]"
  by (simp add: spec_ids_def nth_append)

lemma index_of_append: "index_of (ps @ qs) ix = index_of qs (index_of ps ix)"
  by (induction ps ix rule: index_of.induct) simp_all

definition edge_ok :: "'j edge_spec \<Rightarrow> bool" where
  "edge_ok e \<longleftrightarrow> length (spec_type e) < 256 \<and> utf8_valid (spec_type e)"

definition spec_ok :: "'j graph_spec \<Rightarrow> bool" where
  "spec_ok S \<longleftrightarrow> sg_flushed S \<le> length (sg_edges S) \<and> (\<forall>k. slot_entries (sg_edges S) k = [] \<longrightarrow> sg_disk S k = []) \<and>
     (\<forall>e \<in> set (sg_edges S). spec_node S (spec_from e) \<noteq> None \<and> spec_node S (spec_to e) \<noteq> None \<and> edge_ok e)"

lemma spec_node_snoc: "spec_node S i \<noteq> None \<Longrightarrow> spec_node (S\<lparr>sg_nodes := sg_nodes S @ [n]\<rparr>) i \<noteq> None"
  by (auto simp: spec_node_def split: if_splits)

lemma spec_node_fields [simp]:
  "spec_node (S\<lparr>sg_edges := es\<rparr>) = spec_node S" "spec_node (S\<lparr>sg_flushed := n\<rparr>) = spec_node S" "spec_node (S\<lparr>sg_disk := d\<rparr>) = spec_node S"
  by (simp_all add: fun_eq_iff spec_node_def)

lemma spec_ok_step:
  assumes "spec_ok S" "op_ok E S c"
  shows "spec_ok (snd (spec_step c S))"
proof (cases "(c, S)" rule: spec_step.cases)
  case (1 n S')
  then show ?thesis using assms spec_node_snoc [of S] by (simp add: spec_ok_def)
next
  case (2 e S')
  show ?thesis using assms 2 by (auto simp: spec_ok_def edge_ok_def slot_entries_append)
next
  case (9 S')
  then show ?thesis using assms pending_empty [of S] by (simp add: spec_ok_def)
qed (use assms in simp_all)

lemma parse_node_bytes:
  assumes "node_fits E n"
  shows "parse_node_data E (node_bytes E n) i = (spec_kind n, spec_name n, spec_data n)"
proof -
  obtain b where b: "json_to_vec (pf_json E) (spec_data n) = Some b" "b \<noteq> []" "json_from_slice (pf_json E) b = Some (spec_data n)"
    using assms by (auto simp: node_fits_def json_ok_def)
  let ?k = "spec_kind n" and ?m = "spec_name n"
  let ?bs = "(of_nat (length ?k) :: u8) # ?k @ of_nat (length ?m) # ?m @ b"
  have len: "unat (of_nat (length ?k) :: u8) = length ?k" "unat (of_nat (length ?m) :: u8) = length ?m"
    using assms by (simp_all add: node_fits_def unat_of_nat)
  have nth: "?bs ! (1 + length ?k) = of_nat (length ?m)" by (simp add: nth_append)
  have sl: "slice ?bs 1 (length ?k) = ?k" "slice ?bs (1 + length ?k + 1) (length ?m) = ?m"
    by (simp_all add: slice_def)
  have dr: "drop (1 + length ?k + 1 + length ?m) ?bs = b" by simp
  have bs: "node_bytes E n = ?bs" using b(1) by (simp add: node_bytes_def compact_data_def json_or_empty_def)
  have lossy: "from_utf8_lossy ?k = ?k" "from_utf8_lossy ?m = ?m"
    using assms by (simp_all add: node_fits_def from_utf8_lossy_valid)
  have first: "?bs ! 0 = of_nat (length ?k)" by simp
  show ?thesis
    unfolding bs parse_node_data_def Let_def first len nth sl dr lossy using b by simp
qed

section \<open>The simulation\<close>

text \<open>\<open>view\<close> is what the cache of the crate holds.\<close>

definition platform_ok :: "('j, 'c) platform \<Rightarrow> ('c \<Rightarrow> i64 \<Rightarrow> node_record option) \<Rightarrow> bool" where
  "platform_ok E view \<longleftrightarrow> lru_ok (pf_lru E) view \<and> listing (pf_dirty_order E) \<and>
     permutes (pf_page_order E) \<and> permutes (pf_index_order E)"

definition nodes_sim ::
  "('j, 'c) platform \<Rightarrow> 'j node_spec list \<Rightarrow> u64 set \<Rightarrow> (i64 \<Rightarrow> node_record option) \<Rightarrow> btree_manager \<Rightarrow> bool" where
  "nodes_sim E ns D R t \<longleftrightarrow>
     dom R = {i. 1 \<le> sint i \<and> sint i \<le> int (length ns)} \<and> (\<forall>n \<in> set ns. node_fits E n) \<and>
     (\<forall>k < length ns. \<exists>r. R (of_nat (Suc k)) = Some r \<and> holds_data D t r (node_bytes E (ns ! k)))"

text \<open>\<open>A\<close> are the edges of each slot, \<open>P\<close> those that wait for the flush.\<close>

definition edges_rel ::
  "(edge_slot \<Rightarrow> (i64 \<times> bytes option) list) \<Rightarrow> (edge_slot \<Rightarrow> (i64 \<times> bytes option) list) \<Rightarrow> edge_store \<Rightarrow> bool" where
  "edges_rel A P e \<longleftrightarrow>
     (\<forall>k. es_cache e k = (if A k = [] then None else Some (fresh (map fst (A k)) {}))) \<and>
     (\<forall>v d w. es_edge_types e (v, w, d) = last_type (A (v, d)) w) \<and>
     (\<forall>k. (P k = [] \<longrightarrow> map_of (es_dirty e) k = None) \<and>
          (P k \<noteq> [] \<longrightarrow> (\<exists>p. map_of (es_dirty e) k = Some (cluster_add_edges (P k) (cluster_new (fst k) (snd k) p)))))"

abbreviation edges_sim :: "'j graph_spec \<Rightarrow> edge_store \<Rightarrow> bool" where
  "edges_sim S \<equiv> edges_rel (slot_entries (sg_edges S)) (pending S)"

definition meta_sim :: "'j graph_spec \<Rightarrow> ('j, 'c) native_graph \<Rightarrow> bool" where
  "meta_sim S g \<longleftrightarrow>
     ns_next_id (ng_nodes g) = of_nat (Suc (length (sg_nodes S))) \<and> \<not> ns_batch (ng_nodes g) \<and>
     ng_kinds g = index_of (spec_ids spec_kind S) [] \<and> ng_names g = index_of (spec_ids spec_name S) [] \<and>
     hdr_node_count (ng_header g) = of_nat (length (sg_nodes S)) \<and> hdr_edge_count (ng_header g) = of_nat (length (sg_edges S)) \<and>
     length (hdr_magic (ng_header g)) = 8 \<and> be_wal (ng_kv g) = None \<and> be_kv (ng_kv g) = None"

text \<open>\<open>n\<close> operations still have room.\<close>

definition graph_sim ::
  "('j, 'c) platform \<Rightarrow> ('c \<Rightarrow> i64 \<Rightarrow> node_record option) \<Rightarrow> nat \<Rightarrow> 'j graph_spec \<Rightarrow> ('j, 'c) native_graph \<Rightarrow> bool" where
  "graph_sim E view n S g \<longleftrightarrow>
     (\<exists>F X D me R. graph_inv F X D me R g \<and> cache_ok view R (ng_cache g) \<and> nodes_sim E (sg_nodes S) D R (node_bt g) \<and>
        (\<forall>k. in_domain k \<longrightarrow> disk_edges (ng_edges g) me k = sg_disk S k)) \<and>
     edges_sim S (ng_edges g) \<and> meta_sim S g \<and> length (sg_nodes S) + n < 2 ^ 32 \<and> spec_ok S \<and>
     bm_room (24 * n + 11 * length (es_dirty (ng_edges g))) (node_bt g)"

lemma edges_relD:
  assumes "edges_rel A P e"
  shows "es_cache e k = (if A k = [] then None else Some (fresh (map fst (A k)) {}))"
    "es_edge_types e (v, w, d) = last_type (A (v, d)) w"
    "P k = [] \<Longrightarrow> map_of (es_dirty e) k = None"
    "P k \<noteq> [] \<Longrightarrow> \<exists>p. map_of (es_dirty e) k = Some (cluster_add_edges (P k) (cluster_new (fst k) (snd k) p))"
  using assms unfolding edges_rel_def by blast+

lemma edges_sim_cong:
  "edges_sim S e \<Longrightarrow> es_cache e' = es_cache e \<Longrightarrow> es_edge_types e' = es_edge_types e \<Longrightarrow> es_dirty e' = es_dirty e \<Longrightarrow> edges_sim S e'"
  by (simp add: edges_rel_def)

lemma nodes_sim_mono:
  assumes "nodes_sim E ns D R t" "D \<subseteq> D'" "\<And>p bs. p \<in> D \<Longrightarrow> data_at t p bs \<Longrightarrow> data_at t' p bs"
  shows "nodes_sim E ns D' R t'"
  using assms(1) holds_data_mono [OF _ assms(2,3)] unfolding nodes_sim_def by blast

lemma spec_node_dom:
  "nodes_sim E (sg_nodes S) D R t \<Longrightarrow> (R i = None) = (spec_node S i = None)"
  unfolding nodes_sim_def spec_node_def by (auto simp: dom_def set_eq_iff)

lemma position_id:
  assumes "1 \<le> sint (i :: i64)"
  shows "of_nat (Suc (nat (sint i) - 1)) = i"
proof -
  have "Suc (nat (sint i) - 1) = nat (sint i)" using assms by simp
  moreover have "(of_nat (nat (sint i)) :: i64) = i" using assms by (simp add: of_nat_nat)
  ultimately show ?thesis by simp
qed

lemma spec_node_data:
  assumes "nodes_sim E (sg_nodes S) D R t" "spec_node S i = Some n"
  shows "\<exists>r. R i = Some r \<and> holds_data D t r (node_bytes E n)" "node_fits E n"
proof -
  let ?k = "nat (sint i) - 1"
  have i: "1 \<le> sint i" "?k < length (sg_nodes S)" "n = sg_nodes S ! ?k" using assms(2) by (auto simp: spec_node_def split: if_splits)
  show "\<exists>r. R i = Some r \<and> holds_data D t r (node_bytes E n)"
    using assms(1) i(2) position_id [OF i(1)] unfolding nodes_sim_def i(3) by metis
  show "node_fits E n" using assms(1) i(2,3) by (simp add: nodes_sim_def)
qed

section \<open>Reads\<close>

text \<open>What a step must keep for the graph to stay as it is.\<close>

definition read_step ::
  "('c \<Rightarrow> i64 \<Rightarrow> node_record option) \<Rightarrow> u64 set \<Rightarrow> (u64 \<Rightarrow> u64 option) \<Rightarrow> (i64 \<Rightarrow> node_record option) \<Rightarrow>
   ('j, 'c) native_graph \<Rightarrow> ('j, 'c) native_graph \<Rightarrow> bool" where
  "read_step view D me R g g' \<longleftrightarrow> (\<exists>F' X'. graph_inv F' X' D me R g') \<and> cache_ok view R (ng_cache g') \<and> same_meta g g' \<and>
     edges_kept me (ng_edges g) (ng_edges g') \<and> (\<forall>n. bm_room n (node_bt g) \<longrightarrow> bm_room n (node_bt g')) \<and>
     (\<forall>p bs. p \<in> D \<longrightarrow> data_at (node_bt g) p bs \<longrightarrow> data_at (node_bt g') p bs)"

lemma sim_kept:
  assumes sim: "graph_sim E view n S g"
    and step: "\<And>F X D me R. graph_inv F X D me R g \<Longrightarrow> cache_ok view R (ng_cache g) \<Longrightarrow>
      nodes_sim E (sg_nodes S) D R (node_bt g) \<Longrightarrow> (\<forall>k. in_domain k \<longrightarrow> disk_edges (ng_edges g) me k = sg_disk S k) \<Longrightarrow>
      edges_sim S (ng_edges g) \<Longrightarrow>
      \<exists>g'. P g' \<and> read_step view D me R g g'"
  shows "\<exists>g'. P g' \<and> graph_sim E view n S g'"
proof -
  obtain F X D me R where s: "graph_inv F X D me R g" "cache_ok view R (ng_cache g)" "nodes_sim E (sg_nodes S) D R (node_bt g)"
    "\<forall>k. in_domain k \<longrightarrow> disk_edges (ng_edges g) me k = sg_disk S k" "edges_sim S (ng_edges g)"
    using sim unfolding graph_sim_def by blast
  obtain F' X' g' where g': "P g'" "graph_inv F' X' D me R g'" "cache_ok view R (ng_cache g')" "same_meta g g'"
    "edges_kept me (ng_edges g) (ng_edges g')" "\<forall>n. bm_room n (node_bt g) \<longrightarrow> bm_room n (node_bt g')"
    "\<forall>p bs. p \<in> D \<longrightarrow> data_at (node_bt g) p bs \<longrightarrow> data_at (node_bt g') p bs"
    using step [OF s] unfolding read_step_def by (elim exE conjE) (rule that; assumption)
  have n: "nodes_sim E (sg_nodes S) D R (node_bt g')" by (rule nodes_sim_mono [OF s(3) subset_refl]) (use g'(7) in blast)
  have k: "es_cache (ng_edges g') = es_cache (ng_edges g)" "es_edge_types (ng_edges g') = es_edge_types (ng_edges g)"
    "es_dirty (ng_edges g') = es_dirty (ng_edges g)" using g'(5) by (simp_all add: edges_kept_def)
  have "edges_sim S (ng_edges g')" by (rule edges_sim_cong [OF s(5) k])
  moreover have "meta_sim S g'" using sim g'(4) by (simp add: graph_sim_def meta_sim_def same_meta_def)
  moreover have "\<forall>k. in_domain k \<longrightarrow> disk_edges (ng_edges g') me k = sg_disk S k" using s(4) g'(5) by (simp add: edges_kept_def)
  moreover have "bm_room (24 * n + 11 * length (es_dirty (ng_edges g'))) (node_bt g')" using sim g'(6) k(3) by (simp add: graph_sim_def)
  ultimately have "graph_sim E view n S g'" using sim g'(2,3) n unfolding graph_sim_def by blast
  with g'(1) show ?thesis by blast
qed

lemma get_node_sim:
  assumes sim: "graph_sim E view n S g" and ok: "platform_ok E view"
  shows "\<exists>g'. native_get_node E snapshot i g =
      Some ((case spec_node S i of None \<Rightarrow> Inl (Node_Not_Found i) | Some n \<Rightarrow> Inr (spec_entity i n)), g') \<and> graph_sim E view n S g'"
proof (rule sim_kept [OF sim])
  fix F X D me R
  assume s: "graph_inv F X D me R g" "cache_ok view R (ng_cache g)" "nodes_sim E (sg_nodes S) D R (node_bt g)"
  obtain r g' X' where g': "get_node_internal E i g = Some (Inr r, g')" "map_option stored r = R i" "graph_inv F X' D me R g'"
    "cache_ok view R (ng_cache g')" "same_meta g g'" "edges_kept me (ng_edges g) (ng_edges g')"
    "\<forall>n. bm_room n (node_bt g) \<longrightarrow> bm_room n (node_bt g')"
    "\<forall>p bs. p \<in> D \<longrightarrow> data_at (node_bt g) p bs \<longrightarrow> data_at (node_bt g') p bs"
    using get_node_internal_law [where i = i, OF s(1) conjunct1 [OF ok [unfolded platform_ok_def]] s(2)]
    by (elim exE conjE) (rule that; assumption)
  have "native_get_node E snapshot i g =
      Some ((case spec_node S i of None \<Rightarrow> Inl (Node_Not_Found i) | Some n \<Rightarrow> Inr (spec_entity i n)), g')"
  proof (cases "spec_node S i")
    case None
    then have "r = None" using g'(2) spec_node_dom [OF s(3), of i] by simp
    then show ?thesis using g'(1) None by (simp add: native_get_node_def bindG_def failG_def)
  next
    case (Some nd)
    obtain r' where r': "R i = Some r'" "holds_data D (node_bt g) r' (node_bytes E nd)" using spec_node_data(1) [OF s(3) Some] by blast
    then obtain r0 where r0: "r = Some r0" "stored r0 = r'" using g'(2) by (cases r) auto
    have "holds_data D (node_bt g') (stored r0) (node_bytes E nd)"
      using holds_data_mono [OF r'(2) subset_refl, of "node_bt g'"] g'(8) r0(2) by blast
    then have "record_payload r0 g' = Some (Inr (node_bytes E nd), g')" by (intro record_payload_law) simp
    then show ?thesis
      using g'(1) r0(1) Some parse_node_bytes [OF spec_node_data(2) [OF s(3) Some]]
      by (simp add: native_get_node_def bindG_def returnG_def spec_entity_def)
  qed
  moreover have "read_step view D me R g g'" using g'(3-8) unfolding read_step_def by blast
  ultimately show "\<exists>g'. native_get_node E snapshot i g =
      Some ((case spec_node S i of None \<Rightarrow> Inl (Node_Not_Found i) | Some n \<Rightarrow> Inr (spec_entity i n)), g') \<and>
      read_step view D me R g g'"
    by blast
qed

lemma cached_sim: "edges_sim S e \<Longrightarrow> cached_neighbors e k = spec_neighbors S k"
  by (simp add: edges_relD(1) [where A = "slot_entries (sg_edges S)"] cached_neighbors_def spec_neighbors_def)

lemma with_edges_kept:
  assumes inv: "graph_inv F X D me R g" and run: "f (ng_edges g) = Some (Inr x, e')" and kept: "edges_kept me (ng_edges g) e'"
    and e: "es_inv X me e'" and step: "shared_step (kept_by_edges F D g) (edge_bt g) (es_btree e')"
    and own: "owns (X - kept_by_edges F D g) (slot_page e' me)" and room: "\<forall>n. bm_room n (edge_bt g) \<longrightarrow> bm_room n (es_btree e')"
  shows "\<exists>F' X' g'. with_edges f g = Some (Inr x, g') \<and> graph_inv F' X' D me R g' \<and> ng_cache g' = ng_cache g \<and> same_meta g g' \<and>
      edges_kept me (ng_edges g) (ng_edges g') \<and> (\<forall>n. bm_room n (node_bt g) \<longrightarrow> bm_room n (node_bt g')) \<and>
      (\<forall>p bs. p \<in> D \<longrightarrow> data_at (node_bt g) p bs \<longrightarrow> data_at (node_bt g') p bs)"
proof -
  note w = with_edges_law [where f = f, OF inv run e subset_refl step own]
  let ?g = "g\<lparr>ng_edges := e', ng_nodes := (ng_nodes g)\<lparr>ns_btree := lend (ng_one_cache g) (es_btree e') (node_bt g)\<rparr>\<rparr>"
  have run': "with_edges f g = Some (Inr x, ?g)" using w(1) by simp
  obtain F' where "graph_inv F' X D me R ?g" using w(2) by blast
  moreover have "bm_room n (node_bt g) \<longrightarrow> bm_room n (node_bt ?g)" for n using room graph_room [OF inv] by simp
  ultimately show ?thesis
    using run' w(3) kept with_edges_fields(1) [OF run'] by (intro exI [of _ F'] exI [of _ X] exI [of _ ?g]) simp
qed

lemma all_cached_sim:
  assumes "edges_sim S e" "\<forall>k. in_domain k \<longrightarrow> disk_edges e me k = sg_disk S k" "\<forall>k. slot_entries (sg_edges S) k = [] \<longrightarrow> sg_disk S k = []"
  shows "all_cached me e"
  unfolding all_cached_def using assms(2,3) edges_relD(1) [OF assms(1)] by (metis option.distinct(1))

lemma es_neighbors_sim:
  assumes sim: "graph_sim E view n S g" and dom: "in_domain (v, d)"
  shows "\<exists>g'. with_edges (es_neighbors v d) g = Some (Inr (spec_neighbors S (v, d)), g') \<and> graph_sim E view n S g'"
proof (rule sim_kept [OF sim])
  fix F X D me R
  assume s: "graph_inv F X D me R g" "cache_ok view R (ng_cache g)" "\<forall>k. in_domain k \<longrightarrow> disk_edges (ng_edges g) me k = sg_disk S k"
    "edges_sim S (ng_edges g)"
  have "all_cached me (ng_edges g)" by (rule all_cached_sim [OF s(4,3)]) (use sim in \<open>simp add: graph_sim_def spec_ok_def\<close>)
  from es_neighbors_law [OF s(1) dom this, unfolded cached_sim [OF s(4)]] obtain e' where e:
    "es_neighbors v d (ng_edges g) = Some (Inr (spec_neighbors S (v, d)), e')" "es_inv X me e'"
    "edges_kept me (ng_edges g) e'" "shared_step (kept_by_edges F D g) (edge_bt g) (es_btree e')"
    "owns (X - kept_by_edges F D g) (slot_page e' me)" "\<forall>n. bm_room n (edge_bt g) \<longrightarrow> bm_room n (es_btree e')"
    by (elim exE conjE) (rule that; assumption)
  obtain F' X' g' where w: "with_edges (es_neighbors v d) g = Some (Inr (spec_neighbors S (v, d)), g')"
    "graph_inv F' X' D me R g'" "ng_cache g' = ng_cache g" "same_meta g g'"
    "edges_kept me (ng_edges g) (ng_edges g')" "\<forall>n. bm_room n (node_bt g) \<longrightarrow> bm_room n (node_bt g')"
    "\<forall>p bs. p \<in> D \<longrightarrow> data_at (node_bt g) p bs \<longrightarrow> data_at (node_bt g') p bs"
    using with_edges_kept [where f = "es_neighbors v d", OF s(1) e(1,3,2,4-6)] by (elim exE conjE) (rule that; assumption)
  have "cache_ok view R (ng_cache g')" using s(2) w(3) by simp
  then have "read_step view D me R g g'" using w(2,4-7) unfolding read_step_def by blast
  with w(1) show "\<exists>g'. with_edges (es_neighbors v d) g = Some (Inr (spec_neighbors S (v, d)), g') \<and> read_step view D me R g g'"
    by blast
qed

lemma with_edges_filtered:
  assumes "with_edges (es_neighbors v d) g = Some (Inr ns, g')"
  shows "with_edges (es_neighbors_filtered v d t) g =
    Some (Inr (filter (\<lambda>w. es_edge_types (ng_edges g') (v, w, d) = Some t) ns), g')"
proof -
  obtain r e where e: "es_neighbors v d (ng_edges g) = Some (r, e)" using assms by (auto simp: with_edges_def split: option.splits)
  then show ?thesis using assms by (cases r) (auto simp: with_edges_def es_neighbors_filtered_def)
qed

lemma neighbors_sim:
  assumes sim: "graph_sim E view n S g" and dom: "in_domain (v, d)"
  shows "\<exists>g'. graph_step E (Neighbors v d t) g = Some (fst (spec_step (Neighbors v d t) S), g') \<and> graph_sim E view n S g'"
proof -
  obtain g' where g': "with_edges (es_neighbors v d) g = Some (Inr (spec_neighbors S (v, d)), g')" "graph_sim E view n S g'"
    using es_neighbors_sim [OF sim dom] by blast
  have "edges_sim S (ng_edges g')" using g'(2) by (simp add: graph_sim_def)
  then have "with_edges (es_neighbors_filtered v d t) g =
    Some (Inr (filter (\<lambda>w. last_type (slot_entries (sg_edges S) (v, d)) w = Some t) (spec_neighbors S (v, d))), g')" for t
    using with_edges_filtered [OF g'(1), of t] by (simp add: edges_relD(2))
  then show ?thesis using g'
    by (cases t) (simp_all add: map_answer_def native_neighbors_def fetch_neighbors_def bindG_def returnG_def)
qed

lemma degree_sim:
  assumes sim: "graph_sim E view n S g" and dom: "in_domain (v, Outgoing)"
  shows "\<exists>g'. graph_step E (Degree v) g = Some (fst (spec_step (Degree v) S), g') \<and> graph_sim E view n S g'"
proof -
  have dom': "in_domain (v, Incoming)" using dom by (simp add: in_domain_def)
  obtain g1 where g1: "with_edges (es_neighbors v Outgoing) g = Some (Inr (spec_neighbors S (v, Outgoing)), g1)" "graph_sim E view n S g1"
    using es_neighbors_sim [OF sim dom] by blast
  obtain g2 where "with_edges (es_neighbors v Incoming) g1 = Some (Inr (spec_neighbors S (v, Incoming)), g2)" "graph_sim E view n S g2"
    using es_neighbors_sim [OF g1(2) dom'] by blast
  with g1(1) show ?thesis by (simp add: map_answer_def native_degree_def fetch_neighbors_def bindG_def returnG_def)
qed

lemma query_sim:
  assumes "graph_sim E view n S g"
  shows "query_nodes_by_kind 0 k g = map snd (filter (\<lambda>p. fst p = k) (spec_ids spec_kind S))"
    "STAR \<notin> set k \<Longrightarrow> query_nodes_by_name_pattern E 0 k g = map snd (filter (\<lambda>p. fst p = k) (spec_ids spec_name S))"
proof -
  have ix: "ng_kinds g = index_of (spec_ids spec_kind S) []" "ng_names g = index_of (spec_ids spec_name S) []"
    using assms by (simp_all add: graph_sim_def meta_sim_def)
  show "query_nodes_by_kind 0 k g = map snd (filter (\<lambda>p. fst p = k) (spec_ids spec_kind S))"
    by (simp add: query_nodes_by_kind_def ix index_get_of) (simp add: index_get_def)
  show "query_nodes_by_name_pattern E 0 k g = map snd (filter (\<lambda>p. fst p = k) (spec_ids spec_name S))" if "STAR \<notin> set k"
  proof -
    have "(k \<noteq> [] \<and> last k = STAR) = False" using that by (metis last_in_set)
    then show ?thesis using that
      by (simp only: query_nodes_by_name_pattern_def ix index_get_of simp_thms if_False) (simp add: index_get_def)
  qed
qed

lemma lookup_sim:
  assumes sim: "graph_sim E view n S g" and ok: "platform_ok E view"
  shows "\<exists>g'. (\<exists>r. get_node_internal E i g = Some (Inr r, g') \<and> (r = None) = (spec_node S i = None)) \<and> graph_sim E view n S g'"
proof (rule sim_kept [OF sim])
    fix F X D me R
    assume s: "graph_inv F X D me R g" "cache_ok view R (ng_cache g)" "nodes_sim E (sg_nodes S) D R (node_bt g)"
    obtain r g' X' where g': "get_node_internal E i g = Some (Inr r, g')" "map_option stored r = R i" "graph_inv F X' D me R g'"
      "cache_ok view R (ng_cache g')" "same_meta g g'" "edges_kept me (ng_edges g) (ng_edges g')"
      "\<forall>n. bm_room n (node_bt g) \<longrightarrow> bm_room n (node_bt g')"
      "\<forall>p bs. p \<in> D \<longrightarrow> data_at (node_bt g) p bs \<longrightarrow> data_at (node_bt g') p bs"
      using get_node_internal_law [where i = i, OF s(1) conjunct1 [OF ok [unfolded platform_ok_def]] s(2)]
      by (elim exE conjE) (rule that; assumption)
    have "(r = None) = (R i = None)" by (simp add: g'(2) [symmetric])
    then have "(r = None) = (spec_node S i = None)" by (simp only: spec_node_dom [OF s(3), of i])
    then have "\<exists>r. get_node_internal E i g = Some (Inr r, g') \<and> (r = None) = (spec_node S i = None)"
      by (intro exI [of _ r] conjI g'(1))
    moreover have "read_step view D me R g g'" using g'(3-8) unfolding read_step_def by blast
    ultimately show "\<exists>g'. (\<exists>r. get_node_internal E i g = Some (Inr r, g') \<and> (r = None) = (spec_node S i = None)) \<and>
        read_step view D me R g g'"
      by (intro exI [of _ g'] conjI)
qed

section \<open>Flush\<close>

lemma storable_entries: "\<forall>e \<in> set es. edge_ok e \<Longrightarrow> \<forall>x \<in> set (slot_entries es k). storable_edge x"
  by (cases "(es, k)" rule: slot_entries.cases) (auto simp: edge_ok_def storable_edge_def edge_type_of_def)

lemma flush_sim:
  assumes sim: "graph_sim E view (Suc n) S g" and ok: "platform_ok E view" and fits: "\<forall>k. edges_size (pending S k) \<le> 4096"
  shows "\<exists>g'. flush_to_disk E g = Some (Inr (), g') \<and> graph_sim E view n (snd (spec_step Flush S)) g'"
proof -
  obtain F X D me R where s: "graph_inv F X D me R g" "cache_ok view R (ng_cache g)" "nodes_sim E (sg_nodes S) D R (node_bt g)"
    "\<forall>k. in_domain k \<longrightarrow> disk_edges (ng_edges g) me k = sg_disk S k" and e: "edges_sim S (ng_edges g)" and m: "meta_sim S g"
    using sim unfolding graph_sim_def by blast
  have clusters: "\<forall>k c. map_of (es_dirty (ng_edges g)) k = Some c \<longrightarrow> length (cluster_bytes c) \<le> 4096"
  proof (intro allI impI)
    fix k c assume c: "map_of (es_dirty (ng_edges g)) k = Some c"
    then have "pending S k \<noteq> []" using edges_relD(3) [OF e, of k] by auto
    then obtain p where "c = cluster_add_edges (pending S k) (cluster_new (fst k) (snd k) p)" using edges_relD(4) [OF e, of k] c by auto
    then show "length (cluster_bytes c) \<le> 4096" using length_batch [of "pending S k" "fst k" "snd k" p] fits [THEN spec, of k] by simp
  qed
  have room: "bm_room (24 * n + 11 * length (es_dirty (ng_edges g))) (node_bt g)"
    using sim by (auto simp: graph_sim_def intro: bm_room_mono)
  have given: "listing (pf_dirty_order E)" "length (hdr_magic (ng_header g)) = 8" "be_wal (ng_kv g) = None" "be_kv (ng_kv g) = None"
    using ok m by (simp_all add: platform_ok_def meta_sim_def)
  obtain g' F' me' where g': "flush_to_disk E g = Some (Inr (), g')" "graph_inv F' X D me' R g'"
    "es_dirty (ng_edges g') = []" "es_cache (ng_edges g') = es_cache (ng_edges g)"
    "es_edge_types (ng_edges g') = es_edge_types (ng_edges g)" "bm_room (24 * n) (node_bt g')"
    "\<forall>k. in_domain k \<longrightarrow> disk_edges (ng_edges g') me' k =
       (if map_of (es_dirty (ng_edges g)) k = None then disk_edges (ng_edges g) me k else dirty_edges (ng_edges g) k)"
    "ng_kinds g' = ng_kinds g" "ng_names g' = ng_names g" "ng_cache g' = ng_cache g" "ng_kv g' = ng_kv g"
    "ns_next_id (ng_nodes g') = ns_next_id (ng_nodes g)" "ns_batch (ng_nodes g') = ns_batch (ng_nodes g)"
    "hdr_node_count (ng_header g') = hdr_node_count (ng_header g)" "hdr_edge_count (ng_header g') = hdr_edge_count (ng_header g)"
    "hdr_magic (ng_header g') = hdr_magic (ng_header g)"
    "\<forall>p bs. p \<in> D \<longrightarrow> data_at (node_bt g) p bs \<longrightarrow> data_at (node_bt g') p bs"
    using flush_to_disk_law [OF s(1) given(1) clusters room given(2-4)] by (elim exE conjE) (rule that; assumption)
  let ?S = "snd (spec_step Flush S)"
  have stay: "sg_nodes ?S = sg_nodes S" "sg_edges ?S = sg_edges S" "pending ?S k = []" for k
    by (cases k; cases "snd k"; simp add: pending_def)+
  have "nodes_sim E (sg_nodes ?S) D R (node_bt g')"
    using nodes_sim_mono [OF s(3) subset_refl, of "node_bt g'"] g'(17) by (simp add: stay)
  moreover have "disk_edges (ng_edges g') me' k = sg_disk ?S k" if k: "in_domain k" for k
  proof (cases "pending S k = []")
    case True
    then show ?thesis using g'(7) s(4) k edges_relD(3) [OF e True] by simp
  next
    case False
    obtain p where p: "map_of (es_dirty (ng_edges g)) k = Some (cluster_add_edges (pending S k) (cluster_new (fst k) (snd k) p))"
      using edges_relD(4) [OF e False] by blast
    have "\<forall>x \<in> set (drop (sg_flushed S) (sg_edges S)). edge_ok x"
      using sim by (auto simp: graph_sim_def spec_ok_def dest: in_set_dropD)
    then have "\<forall>x \<in> set (pending S k). storable_edge x" unfolding pending_def by (rule storable_entries)
    then have "dirty_edges (ng_edges g) k = pending S k"
      using p edges_with_types_add_edges [of "pending S k"] by (simp add: dirty_edges_def edges_with_types_def cluster_new_def)
    then show ?thesis using g'(7) k p False by simp
  qed
  moreover have "edges_sim ?S (ng_edges g')"
    using e g'(3-5) unfolding edges_rel_def stay by simp
  moreover have "meta_sim ?S g'" using m g'(8,9,11-16) by (simp add: meta_sim_def spec_ids_def)
  moreover have "spec_ok ?S" by (rule spec_ok_step) (use sim fits in \<open>simp_all add: graph_sim_def\<close>)
  moreover have "length (sg_nodes ?S) + n < 2 ^ 32" using sim by (simp add: graph_sim_def stay)
  moreover have "bm_room (24 * n + 11 * length (es_dirty (ng_edges g'))) (node_bt g')" using g'(3,6) by simp
  moreover have "cache_ok view R (ng_cache g')" using s(2) g'(10) by simp
  ultimately have "graph_sim E view n ?S g'" using g'(2) unfolding graph_sim_def by blast
  with g'(1) show ?thesis by blast
qed

section \<open>Inserting nodes\<close>

lemma next_position: "k < 2 ^ 32 \<Longrightarrow> sint (of_nat k :: i64) = int k"
  by (simp add: sint_uint signed_take_bit_int_eq_self unsigned_of_nat take_bit_nat_eq_self of_nat_take_bit)

lemma nodes_sim_add:
  assumes sim: "nodes_sim E ns D R t" and fits: "node_fits E n" and sub: "D \<subseteq> D'" and len: "length ns + 1 < 2 ^ 32"
    and kept: "\<And>p bs. p \<in> D \<Longrightarrow> data_at t p bs \<Longrightarrow> data_at t' p bs" and new: "holds_data D' t' r (node_bytes E n)"
  shows "nodes_sim E (ns @ [n]) D' (R(of_nat (Suc (length ns)) \<mapsto> r)) t'"
proof -
  let ?i = "of_nat (Suc (length ns)) :: i64"
  have i: "sint ?i = int (Suc (length ns))" using len by (intro next_position) simp
  have "dom (R(?i \<mapsto> r)) = {i :: i64. 1 \<le> sint i \<and> sint i \<le> int (length (ns @ [n]))}"
  proof (intro set_eqI iffI)
    fix j assume "j \<in> dom (R(?i \<mapsto> r))"
    then show "j \<in> {i :: i64. 1 \<le> sint i \<and> sint i \<le> int (length (ns @ [n]))}"
      using sim i by (cases "j = ?i") (auto simp: nodes_sim_def)
  next
    fix j assume j: "j \<in> {i :: i64. 1 \<le> sint i \<and> sint i \<le> int (length (ns @ [n]))}"
    show "j \<in> dom (R(?i \<mapsto> r))"
    proof (cases "sint j = sint ?i")
      case True
      then have "j = ?i" by (simp only: signed_word_eqI)
      then show ?thesis by simp
    next
      case False
      then have "j \<in> dom R" using sim j i by (simp add: nodes_sim_def)
      then show ?thesis by simp
    qed
  qed
  moreover have "\<exists>r'. (R(?i \<mapsto> r)) (of_nat (Suc k)) = Some r' \<and> holds_data D' t' r' (node_bytes E ((ns @ [n]) ! k))"
    if k: "k < length (ns @ [n])" for k
  proof (cases "k = length ns")
    case True
    then show ?thesis using new by simp
  next
    case False
    then have less: "k < length ns" using k by simp
    then obtain r' where r': "R (of_nat (Suc k)) = Some r'" "holds_data D t r' (node_bytes E (ns ! k))" using sim by (auto simp: nodes_sim_def)
    have "sint (of_nat (Suc k) :: i64) = int (Suc k)" using less len by (intro next_position) simp
    then have "of_nat (Suc k) \<noteq> ?i" using i less by auto
    then show ?thesis using r' less holds_data_mono [OF r'(2) sub kept] by (simp add: nth_append del: of_nat_Suc)
  qed
  ultimately show ?thesis using sim fits by (auto simp: nodes_sim_def)
qed

lemma insert_node_sim:
  assumes sim: "graph_sim E view (Suc n) S g" and ok: "platform_ok E view" and fits: "node_fits E node"
  defines "i \<equiv> of_nat (Suc (length (sg_nodes S))) :: i64"
  shows "\<exists>g'. native_insert_node E node g = Some (Inr i, g') \<and> graph_sim E view n (S\<lparr>sg_nodes := sg_nodes S @ [node]\<rparr>) g'"
proof -
  obtain F X D me R where s: "graph_inv F X D me R g" "cache_ok view R (ng_cache g)" "nodes_sim E (sg_nodes S) D R (node_bt g)"
    "\<forall>k. in_domain k \<longrightarrow> disk_edges (ng_edges g) me k = sg_disk S k" and e: "edges_sim S (ng_edges g)" and m: "meta_sim S g"
    using sim unfolding graph_sim_def by blast
  have len: "length (sg_nodes S) + 1 < 2 ^ 32" using sim by (simp add: graph_sim_def)
  have next_id: "ns_next_id (ng_nodes g) = i" using m by (simp add: meta_sim_def i_def)
  have sint_i: "sint i = int (Suc (length (sg_nodes S)))" unfolding i_def using len by (intro next_position) simp
  have "sint i < 2 ^ 32" using len sint_i by simp
  moreover have "bm_room ((24 * n + 11 * length (es_dirty (ng_edges g))) + 14) (node_bt g)"
    using sim by (auto simp: graph_sim_def intro: bm_room_mono)
  moreover have "length (node_bytes E node) \<le> 4096" using fits by (simp add: node_fits_def)
  ultimately have law: "\<exists>r g1 F1 X1 D1. insert_node_inner E node g = Some (Inr i, g1) \<and> graph_inv F1 X1 D1 me (R(i \<mapsto> r)) g1 \<and>
    D \<subseteq> D1 \<and> holds_data D1 (node_bt g1) r (node_bytes E node) \<and> edges_kept me (ng_edges g) (ng_edges g1) \<and>
    bm_room (24 * n + 11 * length (es_dirty (ng_edges g))) (node_bt g1) \<and> ns_next_id (ng_nodes g1) = i + 1 \<and>
    ns_batch (ng_nodes g1) = ns_batch (ng_nodes g) \<and> ng_cache g1 = ng_cache g \<and> ng_kv g1 = ng_kv g \<and>
    ng_kinds g1 = index_insert (spec_kind node) i (ng_kinds g) \<and> ng_names g1 = index_insert (spec_name node) i (ng_names g) \<and>
    hdr_node_count (ng_header g1) = hdr_node_count (ng_header g) + 1 \<and> hdr_edge_count (ng_header g1) = hdr_edge_count (ng_header g) \<and>
    hdr_magic (ng_header g1) = hdr_magic (ng_header g) \<and> (\<forall>p bs. p \<in> D \<longrightarrow> data_at (node_bt g) p bs \<longrightarrow> data_at (node_bt g1) p bs)"
    using insert_node_inner_law [OF s(1), unfolded next_id] by blast
  obtain r g1 F1 X1 D1 where g1: "insert_node_inner E node g = Some (Inr i, g1)" "graph_inv F1 X1 D1 me (R(i \<mapsto> r)) g1"
    "D \<subseteq> D1" "holds_data D1 (node_bt g1) r (node_bytes E node)" "edges_kept me (ng_edges g) (ng_edges g1)"
    "bm_room (24 * n + 11 * length (es_dirty (ng_edges g))) (node_bt g1)" "ns_next_id (ng_nodes g1) = i + 1"
    "ns_batch (ng_nodes g1) = ns_batch (ng_nodes g)" "ng_cache g1 = ng_cache g" "ng_kv g1 = ng_kv g"
    "ng_kinds g1 = index_insert (spec_kind node) i (ng_kinds g)" "ng_names g1 = index_insert (spec_name node) i (ng_names g)"
    "hdr_node_count (ng_header g1) = hdr_node_count (ng_header g) + 1" "hdr_edge_count (ng_header g1) = hdr_edge_count (ng_header g)"
    "hdr_magic (ng_header g1) = hdr_magic (ng_header g)" "\<forall>p bs. p \<in> D \<longrightarrow> data_at (node_bt g) p bs \<longrightarrow> data_at (node_bt g1) p bs"
    using law by (elim exE conjE) (rule that; assumption)
  have "length (hdr_magic (ng_header g1)) = 8" using m g1(15) by (simp add: meta_sim_def)
  from sync_header_law [OF g1(2) this] obtain f where h: "sync_header g1 = Some (Inr (), set_shared f (ng_allocator g1) g1)"
    "graph_inv F1 X1 D1 me (R(i \<mapsto> r)) (set_shared f (ng_allocator g1) g1)"
    "edges_kept me (ng_edges g1) (ng_edges (set_shared f (ng_allocator g1) g1))"
    "\<And>p bs. p \<in> D1 \<Longrightarrow> data_at (node_bt g1) p bs \<Longrightarrow> data_at (node_bt (set_shared f (ng_allocator g1) g1)) p bs" by blast
  let ?g = "set_shared f (ng_allocator g1) g1" and ?S = "S\<lparr>sg_nodes := sg_nodes S @ [node]\<rparr>"
  have run: "native_insert_node E node g = Some (Inr i, ?g)"
    using g1(1) h(1) by (simp add: native_insert_node_def bindG_def returnG_def)
  have kept: "edges_kept me (ng_edges g) (ng_edges ?g)" by (rule edges_kept_trans [OF g1(5) h(3)])
  have pend: "pending ?S k = pending S k" for k by (simp add: pending_def)
  have "R i = None" using spec_node_dom [OF s(3), of i] sint_i by (simp add: spec_node_def)
  then have "cache_ok view (R(i \<mapsto> r)) (ng_cache ?g)" using s(2) g1(9) by (auto simp: cache_ok_def)
  moreover have "nodes_sim E (sg_nodes ?S) D1 (R(i \<mapsto> r)) (node_bt ?g)"
  proof -
    have "holds_data D1 (node_bt ?g) r (node_bytes E node)" by (rule holds_data_mono [OF g1(4) subset_refl]) (rule h(4))
    moreover have "data_at (node_bt ?g) p bs" if "p \<in> D" "data_at (node_bt g) p bs" for p bs
      using g1(3,16) h(4) that by blast
    ultimately have "nodes_sim E (sg_nodes S @ [node]) D1 (R(i \<mapsto> r)) (node_bt ?g)"
      unfolding i_def by (intro nodes_sim_add [OF s(3) fits g1(3) len])
    then show ?thesis by simp
  qed
  moreover have "\<forall>k. in_domain k \<longrightarrow> disk_edges (ng_edges ?g) me k = sg_disk ?S k" using s(4) kept by (simp add: edges_kept_def)
  moreover have "edges_sim ?S (ng_edges ?g)"
    using kept edges_sim_cong [OF e, of "ng_edges ?g"] unfolding edges_rel_def pend by (simp add: edges_kept_def)
  moreover have "meta_sim ?S ?g"
    using m g1(7,8,10-15) unfolding meta_sim_def spec_ids_snoc index_of_append by (simp add: i_def)
  moreover have "spec_ok ?S" using spec_ok_step [of S E "Add_Node node"] sim fits by (simp add: graph_sim_def)
  moreover have "length (sg_nodes ?S) + n < 2 ^ 32" using sim by (simp add: graph_sim_def)
  moreover have "bm_room (24 * n + 11 * length (es_dirty (ng_edges ?g))) (node_bt ?g)"
    using g1(6) kept by (simp add: edges_kept_def bm_room_def ng_allocator_def)
  ultimately have "graph_sim E view n ?S ?g" using h(2) unfolding graph_sim_def by blast
  with run show ?thesis by blast
qed

section \<open>Inserting edges\<close>

lemma added_rel:
  assumes rel: "edges_rel A P e" and added: "added (v, d) (w, t) e e'"
    and cache: "es_cache e' = es_cache (cache_edge (v, d) w e)" and types: "es_edge_types e' = (es_edge_types e)((v, w, d) := t)"
  shows "edges_rel (A((v, d) := A (v, d) @ [(w, t)])) (P((v, d) := P (v, d) @ [(w, t)])) e'"
proof -
  let ?A = "A((v, d) := A (v, d) @ [(w, t)])" and ?P = "P((v, d) := P (v, d) @ [(w, t)])"
  note r = edges_relD [OF rel]
  have "es_cache e' k = (if ?A k = [] then None else Some (fresh (map fst (?A k)) {}))" for k
  proof (cases "k = (v, d)")
    case True
    then show ?thesis using r(1) [of "(v, d)"] by (simp add: cache cache_edge_def fresh_append)
  next
    case False
    then show ?thesis using r(1) [of k] by (simp add: cache cache_edge_def)
  qed
  moreover have "es_edge_types e' (v', w', d') = last_type (?A (v', d')) w'" for v' d' w'
    by (auto simp: types r(2) last_type_snoc)
  moreover have "(?P k = [] \<longrightarrow> map_of (es_dirty e') k = None) \<and>
      (?P k \<noteq> [] \<longrightarrow> (\<exists>p. map_of (es_dirty e') k = Some (cluster_add_edges (?P k) (cluster_new (fst k) (snd k) p))))" for k
  proof (cases "k = (v, d)")
    case True
    obtain c where c: "map_of (es_dirty e') (v, d) = Some (cluster_add_edge w t c)"
      "map_of (es_dirty e) (v, d) = Some c \<or> map_of (es_dirty e) (v, d) = None \<and> c = cluster_new v d (cl_page_id c)"
      using added by (auto simp: added_def)
    obtain p where "c = cluster_add_edges (P (v, d)) (cluster_new v d p)"
    proof (cases "P (v, d) = []")
      case True
      then show ?thesis using that [of "cl_page_id c"] c(2) r(3) [OF True] by simp
    next
      case False
      then show ?thesis using that c(2) r(4) [OF False] by auto
    qed
    then show ?thesis using True c(1) by (auto simp: cluster_add_edges_append)
  next
    case False
    then show ?thesis using added r(3,4) [of k] by (simp add: added_def)
  qed
  ultimately show ?thesis unfolding edges_rel_def by blast
qed

text \<open>One of the two halves of an edge.\<close>

definition edges_state ::
  "u64 set \<Rightarrow> (u64 \<Rightarrow> u64 option) \<Rightarrow> (i64 \<Rightarrow> node_record option) \<Rightarrow> (edge_slot \<Rightarrow> (i64 \<times> bytes option) list) \<Rightarrow>
   (edge_slot \<Rightarrow> (i64 \<times> bytes option) list) \<Rightarrow> nat \<Rightarrow> ('j, 'c) native_graph \<Rightarrow> bool" where
  "edges_state D me R A P n g \<longleftrightarrow>
     (\<exists>F X. graph_inv F X D me R g) \<and> edges_rel A P (ng_edges g) \<and> bm_room (n + 11 * length (es_dirty (ng_edges g))) (node_bt g)"

lemma half_edge:
  assumes state: "edges_state D me R A P (n + 12) g" and dom: "in_domain (v, d)" and t: "storable_edge (w, t)"
  shows "\<exists>g'. with_edges (insert_edge v w d t) g = Some (Inr (), g') \<and>
    edges_state D me R (A((v, d) := A (v, d) @ [(w, t)])) (P((v, d) := P (v, d) @ [(w, t)])) n g' \<and>
    same_disk me (ng_edges g) (ng_edges g') \<and> same_meta g g' \<and> ng_cache g' = ng_cache g \<and>
    (\<forall>p bs. p \<in> D \<longrightarrow> data_at (node_bt g) p bs \<longrightarrow> data_at (node_bt g') p bs)"
proof -
  obtain F X where inv: "graph_inv F X D me R g" and rel: "edges_rel A P (ng_edges g)"
    and room: "bm_room (n + 12 + 11 * length (es_dirty (ng_edges g))) (node_bt g)"
    using state unfolding edges_state_def by blast
  have "bm_room (Suc (n + 11 * Suc (length (es_dirty (ng_edges g))))) (node_bt g)" using room by (simp add: bm_room_def)
  from insert_edge_law [OF inv dom t this] obtain g' F' X' where g': "with_edges (insert_edge v w d t) g = Some (Inr (), g')"
    "graph_inv F' X' D me R g'" "added (v, d) (w, t) (ng_edges g) (ng_edges g')" "same_disk me (ng_edges g) (ng_edges g')"
    "es_cache (ng_edges g') = es_cache (cache_edge (v, d) w (ng_edges g))"
    "es_edge_types (ng_edges g') = (es_edge_types (ng_edges g))((v, w, d) := t)"
    "bm_room (n + 11 * Suc (length (es_dirty (ng_edges g)))) (node_bt g')" "same_meta g g'" "ng_cache g' = ng_cache g"
    "\<forall>p bs. p \<in> D \<longrightarrow> data_at (node_bt g) p bs \<longrightarrow> data_at (node_bt g') p bs"
    by (elim exE conjE) (rule that; assumption)
  have "length (es_dirty (ng_edges g')) \<le> Suc (length (es_dirty (ng_edges g)))"
    by (rule added_length [OF g'(3) es_invD(2) [OF graph_invD(2) [OF inv]] es_invD(2) [OF graph_invD(2) [OF g'(2)]]])
  then have "bm_room (n + 11 * length (es_dirty (ng_edges g'))) (node_bt g')" using g'(7) by (auto simp: bm_room_def)
  then have "edges_state D me R (A((v, d) := A (v, d) @ [(w, t)])) (P((v, d) := P (v, d) @ [(w, t)])) n g'"
    using g'(2) added_rel [OF rel g'(3,5,6)] unfolding edges_state_def by blast
  with g' show ?thesis by blast
qed

lemma node_in_domain:
  assumes "spec_node S v \<noteq> None" "length (sg_nodes S) < 2 ^ 32"
  shows "in_domain (v, d)"
  using assms by (auto simp: spec_node_def in_domain_def split: if_splits)

lemma slots_add:
  "slot_entries (es @ [e]) = (slot_entries es)((spec_from e, Outgoing) := slot_entries es (spec_from e, Outgoing) @ [(spec_to e, edge_type_of e)],
     (spec_to e, Incoming) := slot_entries es (spec_to e, Incoming) @ [(spec_from e, edge_type_of e)])"
  by (rule ext) (simp add: slot_entries_snoc del: slot_entries.simps)

lemma insert_edge_sim:
  assumes sim: "graph_sim E view (Suc n) S g" and ok: "platform_ok E view" and e: "edge_ok e"
    and ends: "spec_node S (spec_from e) \<noteq> None" "spec_node S (spec_to e) \<noteq> None"
  shows "\<exists>g'. native_insert_edge E e g = Some (Inr (of_nat (Suc (length (sg_edges S)))), g') \<and>
    graph_sim E view n (S\<lparr>sg_edges := sg_edges S @ [e]\<rparr>) g'"
proof -
  let ?S = "S\<lparr>sg_edges := sg_edges S @ [e]\<rparr>" and ?t = "edge_type_of e"
  let ?H = "\<lambda>A. A((spec_from e, Outgoing) := A (spec_from e, Outgoing) @ [(spec_to e, ?t)])"
  let ?P = "\<lambda>A. (?H A)((spec_to e, Incoming) := ?H A (spec_to e, Incoming) @ [(spec_from e, ?t)])"
  obtain g1 r1 where g1: "get_node_internal E (spec_from e) g = Some (Inr (Some r1), g1)" "graph_sim E view (Suc n) S g1"
    using lookup_sim [OF sim ok, of "spec_from e"] ends(1) by auto
  obtain g2 r2 where g2: "get_node_internal E (spec_to e) g1 = Some (Inr (Some r2), g2)" "graph_sim E view (Suc n) S g2"
    using lookup_sim [OF g1(2) ok, of "spec_to e"] ends(2) by auto
  obtain F X D me R where s: "graph_inv F X D me R g2" "cache_ok view R (ng_cache g2)" "nodes_sim E (sg_nodes S) D R (node_bt g2)"
    "\<forall>k. in_domain k \<longrightarrow> disk_edges (ng_edges g2) me k = sg_disk S k" and rel: "edges_sim S (ng_edges g2)" and m: "meta_sim S g2"
    using g2(2) unfolding graph_sim_def by blast
  have st: "edges_state D me R (slot_entries (sg_edges S)) (pending S) ((24 * n + 12) + 12) g2"
    using s(1) rel g2(2) unfolding edges_state_def graph_sim_def by (auto simp: bm_room_def)
  have len: "length (sg_nodes S) < 2 ^ 32" using sim by (simp add: graph_sim_def)
  have store: "storable_edge (x, ?t)" for x using e by (simp add: storable_edge_def edge_ok_def edge_type_of_def)
  obtain g3 where g3: "with_edges (insert_edge (spec_from e) (spec_to e) Outgoing ?t) g2 = Some (Inr (), g3)"
    "edges_state D me R (?H (slot_entries (sg_edges S))) (?H (pending S)) (24 * n + 12) g3"
    "same_disk me (ng_edges g2) (ng_edges g3)" "same_meta g2 g3" "ng_cache g3 = ng_cache g2"
    "\<forall>p bs. p \<in> D \<longrightarrow> data_at (node_bt g2) p bs \<longrightarrow> data_at (node_bt g3) p bs"
    using half_edge [OF st node_in_domain [OF ends(1) len] store] by blast
  obtain g4 where g4: "with_edges (insert_edge (spec_to e) (spec_from e) Incoming ?t) g3 = Some (Inr (), g4)"
    "edges_state D me R (slot_entries (sg_edges ?S)) (pending ?S) (24 * n) g4"
    "same_disk me (ng_edges g3) (ng_edges g4)" "same_meta g3 g4" "ng_cache g4 = ng_cache g3"
    "\<forall>p bs. p \<in> D \<longrightarrow> data_at (node_bt g3) p bs \<longrightarrow> data_at (node_bt g4) p bs"
  proof -
    have "sg_flushed S \<le> length (sg_edges S)" using sim by (simp add: graph_sim_def spec_ok_def)
    then have "pending ?S = slot_entries (drop (sg_flushed S) (sg_edges S) @ [e])" by (simp add: fun_eq_iff pending_def)
    then have p: "pending ?S = ?P (pending S)" by (simp add: slots_add pending_def [abs_def] del: slot_entries.simps)
    have a: "slot_entries (sg_edges ?S) = ?P (slot_entries (sg_edges S))" by (simp add: slots_add del: slot_entries.simps)
    obtain g' where "with_edges (insert_edge (spec_to e) (spec_from e) Incoming ?t) g3 = Some (Inr (), g')"
      "edges_state D me R (?P (slot_entries (sg_edges S))) (?P (pending S)) (24 * n) g'"
      "same_disk me (ng_edges g3) (ng_edges g')" "same_meta g3 g'" "ng_cache g' = ng_cache g3"
      "\<forall>p bs. p \<in> D \<longrightarrow> data_at (node_bt g3) p bs \<longrightarrow> data_at (node_bt g') p bs"
      using half_edge [OF g3(2) node_in_domain [OF ends(2) len, of Incoming] store] by blast
    then show thesis unfolding p [symmetric] a [symmetric] by (rule that)
  qed
  define h where "h = (ng_header g4)\<lparr>hdr_edge_count := hdr_edge_count (ng_header g4) + 1\<rparr>"
  define g5 where "g5 = g4\<lparr>ng_header := h\<rparr>"
  obtain F5 X5 where i4: "graph_inv F5 X5 D me R g4" using g4(2) unfolding edges_state_def by blast
  have same: "ng_nodes g5 = ng_nodes g4" "ng_edges g5 = ng_edges g4" "ng_one_cache g5 = ng_one_cache g4" by (simp_all add: g5_def)
  have i5: "graph_inv F5 X5 D me R g5" by (rule graph_inv_cong [THEN iffD2, OF same i4])
  have mt: "same_meta g2 g4" by (rule same_meta_trans [OF g3(4) g4(4)])
  have "length (hdr_magic (ng_header g5)) = 8" using m mt by (simp add: g5_def h_def same_meta_def meta_sim_def)
  from sync_header_law [OF i5 this] obtain f where w: "sync_header g5 = Some (Inr (), set_shared f (ng_allocator g5) g5)"
    "graph_inv F5 X5 D me R (set_shared f (ng_allocator g5) g5)"
    "edges_kept me (ng_edges g5) (ng_edges (set_shared f (ng_allocator g5) g5))"
    "\<And>p bs. p \<in> D \<Longrightarrow> data_at (node_bt g5) p bs \<Longrightarrow> data_at (node_bt (set_shared f (ng_allocator g5) g5)) p bs" by blast
  let ?g = "set_shared f (ng_allocator g5) g5"
  have "hdr_edge_count h = of_nat (Suc (length (sg_edges S)))" using m mt by (simp add: h_def same_meta_def meta_sim_def)
  then have run: "native_insert_edge E e g = Some (Inr (of_nat (Suc (length (sg_edges S)))), ?g)"
    using g1(1) g2(1) g3(1) g4(1) w(1)
    by (simp add: native_insert_edge_def insert_edge_inner_def bindG_def returnG_def g5_def h_def edge_type_of_def Let_def)
  have "cache_ok view R (ng_cache ?g)" using s(2) g3(5) g4(5) by (simp add: g5_def)
  moreover have "nodes_sim E (sg_nodes ?S) D R (node_bt ?g)"
    using nodes_sim_mono [OF s(3) subset_refl, of "node_bt ?g"] g3(6) g4(6) w(4) by (simp add: same)
  moreover have "\<forall>k. in_domain k \<longrightarrow> disk_edges (ng_edges ?g) me k = sg_disk ?S k"
    using s(4) g3(3) g4(3) w(3) by (simp add: same_disk_def edges_kept_def same)
  moreover have "edges_sim ?S (ng_edges ?g)"
    using g4(2) w(3) unfolding edges_state_def edges_rel_def by (simp add: edges_kept_def same)
  moreover have "meta_sim ?S ?g" using m mt by (simp add: g5_def h_def same_meta_def meta_sim_def spec_ids_def)
  moreover have "spec_ok ?S" using spec_ok_step [of S E "Add_Edge e"] sim e ends by (simp add: graph_sim_def edge_ok_def)
  moreover have "length (sg_nodes ?S) + n < 2 ^ 32" using sim by (simp add: graph_sim_def)
  moreover have "bm_room (24 * n + 11 * length (es_dirty (ng_edges ?g))) (node_bt ?g)"
    using g4(2) w(3) unfolding edges_state_def by (simp add: edges_kept_def same bm_room_def ng_allocator_def)
  ultimately have "graph_sim E view n ?S ?g" using w(2) unfolding graph_sim_def by blast
  with run show ?thesis by blast
qed

section \<open>Creating a database\<close>

text \<open>The pages 0 and 1 are never handed out.\<close>

lemma new_index:
  assumes "X \<subseteq> {0, 1}" "length f < 2 ^ 64"
  shows "btree_map X (btree_new (allocator_new header) wal (Some f) first) (\<lambda>_. None)"
proof (rule btree_map_empty)
  show "bm_good X (btree_new (allocator_new header) wal (Some f) first)"
    using assms pages_in_range_new
    by (auto simp: bm_good_def btree_new_def cache_with_default_capacity_def cache_new_def cache_coherent_def cache_get_def live_pages_new)
qed (simp add: btree_is_empty_def btree_new_def)

lemma create_sim:
  fixes E :: "('j, 'c) platform" and meta sidecar :: "bytes option"
  assumes ok: "platform_ok E view" and media: "page_size_for media = 4096" and n: "n < 2 ^ 32"
  shows "graph_sim E view n empty_spec (native_create E media meta sidecar)"
proof -
  define bt where "bt = btree_new (allocator_new new_v3) None (Some (header_to_bytes new_v3)) (pf_first E)"
  define g where "g = native_create E media meta sidecar"
  have hdr: "new_v3\<lparr>hdr_page_size := page_size_for media\<rparr> = new_v3"
    using media by (simp add: new_v3_def DEFAULT_PAGE_SIZE_def)
  have map: "btree_map X bt (\<lambda>_. None)" if "X \<subseteq> {0, 1}" for X
    using that unfolding bt_def by (rule new_index) (simp add: length_header new_v3_def V3_MAGIC_def)
  have fields: "ng_nodes g = ns_initialize bt None (ns_new (pf_page_order E) bt new_v3)" "ng_edges g = edge_store_with_path bt None 4096 meta"
    "ng_one_cache g" "ng_header g = new_v3" "ng_kinds g = []" "ng_names g = []"
    "ng_cache g = node_cache_new (pf_lru E) NODE_CACHE_CAPACITY" "be_wal (ng_kv g) = None" "be_kv (ng_kv g) = None"
    by (simp_all add: g_def native_create_def Let_def hdr bt_def [symmetric]) (simp add: new_v3_def DEFAULT_PAGE_SIZE_def)
  have b: "ns_btree (ng_nodes g) = bt" "es_btree (ng_edges g) = bt" "es_dirty (ng_edges g) = []" "bm_coordinator bt = None"
    "live_pages (bm_allocator bt) = {0, 1}"
    by (simp_all add: fields ns_initialize_def edge_store_with_path_def) (simp_all add: bt_def btree_new_def live_pages_new)
  have nodes: "holds_records {} (\<lambda>_. None) (ng_nodes g)"
  proof -
    have "ns_index {} {} (\<lambda>_. None) (ng_nodes g)"
      using map [of "{}"] b(4) by (simp add: ns_index_def fields ns_initialize_def)
    then have "ns_inv {} {} (\<lambda>_. None) (ng_nodes g)"
      using ok by (simp add: ns_inv_def ns_pages_def ns_ids_def fields ns_initialize_def ns_new_def ns_with_capacity_def
          page_cache_get_def unpacked_get_def platform_ok_def permutes_def)
    moreover have "node_map (\<lambda>_. None) (ng_nodes g) = (\<lambda>_. None)" by (simp add: fun_eq_iff node_map_def)
    ultimately show ?thesis unfolding holds_records_def by blast
  qed
  have edges: "es_inv {0, 1} (\<lambda>_. None) (ng_edges g)"
    using map [of "{0, 1}"] b(4) by (simp add: es_inv_def es_ready_def owns_def slot_page_def fields edge_store_with_path_def)
  have inv: "graph_inv {} {0, 1} {} (\<lambda>_. None) (\<lambda>_. None) g"
    using nodes edges b by (simp add: graph_inv_def same_shared_def ng_allocator_def owns_def slot_page_def)
  moreover have "cache_ok view (\<lambda>_. None) (ng_cache g)"
    using ok by (simp add: cache_ok_def fields node_cache_new_def NODE_CACHE_CAPACITY_def platform_ok_def lru_ok_def)
  moreover have "nodes_sim E (sg_nodes empty_spec) {} (\<lambda>_. None) (node_bt g)" by (auto simp: nodes_sim_def empty_spec_def)
  moreover have "\<forall>k. in_domain k \<longrightarrow> disk_edges (ng_edges g) (\<lambda>_. None) k = sg_disk empty_spec k"
    by (simp add: disk_edges_def empty_spec_def)
  moreover have none: "slot_entries [] k = []" for k :: edge_slot by (cases "([] :: 'j edge_spec list, k)" rule: slot_entries.cases) auto
  then have "edges_sim empty_spec (ng_edges g)"
    by (simp add: edges_rel_def empty_spec_def pending_def none last_type_def fields edge_store_with_path_def)
  moreover have "meta_sim empty_spec g"
    using fields by (simp add: meta_sim_def empty_spec_def spec_ids_def new_v3_def V3_MAGIC_def ns_initialize_def ns_new_def ns_with_capacity_def)
  moreover have "spec_ok empty_spec" by (simp add: spec_ok_def empty_spec_def)
  moreover have "bm_room (24 * n + 11 * length (es_dirty (ng_edges g))) (node_bt g)"
    using n b(1,3) by (simp add: bm_room_def bt_def btree_new_def allocator_new_def new_v3_def MAX_PAGE_def)
  moreover have "length (sg_nodes empty_spec) + n < 2 ^ 32" using n by (simp add: empty_spec_def)
  ultimately have "graph_sim E view n empty_spec g" unfolding graph_sim_def by blast
  then show ?thesis by (simp add: g_def)
qed

section \<open>The backend answers as the graph\<close>

lemma graph_sim_mono: "graph_sim E view (Suc n) S g \<Longrightarrow> graph_sim E view n S g"
  unfolding graph_sim_def by (auto intro: bm_room_mono)

lemma step_sim:
  assumes sim: "graph_sim E view (Suc n) S g" and ok: "platform_ok E view" and op: "op_ok E S c"
  shows "\<exists>g'. graph_step E c g = Some (fst (spec_step c S), g') \<and> graph_sim E view n (snd (spec_step c S)) g'"
proof (cases c)
  case (Add_Node x1)
  then show ?thesis using insert_node_sim [OF sim ok, of x1] op by (auto simp: map_answer_def bindG_def returnG_def)
next
  case (Add_Edge e)
  show ?thesis
  proof (cases "spec_node S (spec_from e) = None \<or> spec_node S (spec_to e) = None")
    case True
    obtain g1 r1 where g1: "get_node_internal E (spec_from e) g = Some (Inr r1, g1)" "(r1 = None) = (spec_node S (spec_from e) = None)"
      "graph_sim E view (Suc n) S g1" using lookup_sim [OF sim ok, of "spec_from e"] by (elim exE conjE) (rule that; assumption)
    obtain g2 r2 where g2: "get_node_internal E (spec_to e) g1 = Some (Inr r2, g2)" "(r2 = None) = (spec_node S (spec_to e) = None)"
      "graph_sim E view (Suc n) S g2" using lookup_sim [OF g1(3) ok, of "spec_to e"] by (elim exE conjE) (rule that; assumption)
    then have "insert_edge_inner E e g = Some (Inl Missing_Endpoint, g2)"
      using g1 True by (auto simp: insert_edge_inner_def bindG_def failG_def)
    then show ?thesis using Add_Edge True graph_sim_mono [OF g2(3)]
      by (auto simp: map_answer_def native_insert_edge_def bindG_def)
  next
    case False
    then show ?thesis using insert_edge_sim [OF sim ok, of e] op Add_Edge
      by (auto simp: edge_ok_def map_answer_def bindG_def returnG_def)
  qed
next
  case (Get_Node i)
  then show ?thesis using get_node_sim [where snapshot = 0 and i = i, OF graph_sim_mono [OF sim] ok]
    by (auto simp: map_answer_def bindG_def returnG_def split: option.split)
next
  case (Neighbors v d t)
  then show ?thesis using neighbors_sim [OF graph_sim_mono [OF sim], of v d t] op by (cases t) auto
next
  case (Degree v)
  then show ?thesis using degree_sim [OF graph_sim_mono [OF sim], of v] op by auto
next
  case (Kind_Query k)
  then show ?thesis using query_sim(1) [OF sim, of k] graph_sim_mono [OF sim] by simp
next
  case (Name_Query p)
  then show ?thesis using query_sim(2) [OF sim, of p] graph_sim_mono [OF sim] op by simp
next
  case Flush
  then show ?thesis using flush_sim [OF sim ok] op by (auto simp: map_answer_def bindG_def returnG_def)
qed

lemma run_sim:
  assumes "graph_sim E view (n + length cs) S g" "platform_ok E view" "ops_ok E S cs"
  shows "\<exists>g'. run_ops E cs g = Some (fst (spec_run cs S), g') \<and> graph_sim E view n (snd (spec_run cs S)) g'"
  using assms
proof (induction cs arbitrary: S g)
  case (Cons c cs)
  have "graph_sim E view (Suc (n + length cs)) S g" using Cons.prems(1) by simp
  from step_sim [OF this Cons.prems(2), of c] Cons.prems(3) obtain g1 where g1: "graph_step E c g = Some (fst (spec_step c S), g1)"
    "graph_sim E view (n + length cs) (snd (spec_step c S)) g1" by auto
  with Cons.IH [OF this(2) Cons.prems(2)] Cons.prems(3) show ?case by (auto split: prod.splits)
qed simp

section \<open>Properties\<close>

text \<open>
  C1. Every sequence of insertions, reads, queries and flushes on a new database file answers as the graph of its
  nodes and edges does, errors included: the pages, the indexes, the caches and the batches of the two stores over
  one file never show.
\<close>

theorem native_refines_graph:
  assumes "platform_ok E view" "page_size_for media = 4096" "length cs < 2 ^ 32" "ops_ok E empty_spec cs"
  shows "\<exists>g. run_ops E cs (native_create E media meta sidecar) = Some (fst (spec_run cs empty_spec), g)"
proof -
  have "graph_sim E view (0 + length cs) empty_spec (native_create E media meta sidecar)"
    using create_sim [OF assms(1-3)] by simp
  from run_sim [OF this assms(1,4)] show ?thesis by blast
qed

text \<open>A platform: the cache holds a bounded list, the data of nodes and edges is the empty object.\<close>

definition sample_lru :: "(nat \<times> (i64 \<times> node_record) list) lru_cache" where
  "sample_lru = \<lparr>lru_new = (\<lambda>n. (n, [])), lru_get = (\<lambda>i c. (map_of (snd c) i, c)),
     lru_put = (\<lambda>i r c. (fst c, take (fst c) ((i, r) # AList.delete i (snd c)))),
     lru_pop = (\<lambda>i c. (fst c, AList.delete i (snd c))), lru_clear = (\<lambda>c. (fst c, [])), lru_len = (\<lambda>c. length (snd c))\<rparr>"

definition sample_platform :: "(unit, nat \<times> (i64 \<times> node_record) list) platform" where
  "sample_platform = \<lparr>pf_json = \<lparr>json_to_vec = (\<lambda>_. Some [0x7B, 0x7D]), json_from_slice = (\<lambda>b. if b = [0x7B, 0x7D] then Some () else None)\<rparr>,
     pf_object = (), pf_lru = sample_lru, pf_dirty_order = rev, pf_index_order = rev, pf_page_order = rev, pf_first = hd,
     pf_kv_order = [], pf_sha = (\<lambda>b. b), pf_hash = (\<lambda>k. of_nat (length k)), pf_bincode = sample_bincode, pf_now = 0\<rparr>"

lemma map_of_take: "map_of (take n xs) \<subseteq>\<^sub>m map_of xs"
proof (induction xs arbitrary: n)
  case (Cons x xs)
  then show ?case by (cases n) (auto simp: map_le_def dom_def)
qed simp

lemma sample_platform_ok: "platform_ok sample_platform (\<lambda>c. map_of (snd c))"
proof -
  have "map_of (take n ((i, r) # AList.delete i xs)) \<subseteq>\<^sub>m (map_of xs)(i \<mapsto> r)" for n i r and xs :: "(i64 \<times> node_record) list"
    using map_of_take [of n "(i, r) # AList.delete i xs"] by (simp add: delete_conv')
  then show ?thesis
    by (simp add: platform_ok_def lru_ok_def sample_platform_def sample_lru_def listing_def permutes_def delete_conv')
qed

definition sample_node :: "bytes \<Rightarrow> unit node_spec" where
  "sample_node name = \<lparr>spec_kind = [70], spec_name = name, spec_file_path = None, spec_data = ()\<rparr>"

definition sample_ops :: "unit graph_op list" where
  "sample_ops = [Add_Node (sample_node [97]), Add_Node (sample_node [98]),
     Add_Edge \<lparr>spec_from = 1, spec_to = 2, spec_type = [67], spec_edge_data = ()\<rparr>, Flush,
     Add_Edge \<lparr>spec_from = 1, spec_to = 9, spec_type = [67], spec_edge_data = ()\<rparr>,
     Get_Node 2, Neighbors 1 Outgoing None, Neighbors 2 Incoming (Some [67]), Get_Node 3, Kind_Query [70]]"

lemma sample_node_fits: "length name < 256 \<Longrightarrow> \<forall>b \<in> set name. b < 128 \<Longrightarrow> node_fits sample_platform (sample_node name)"
  by (simp add: node_fits_def sample_node_def json_ok_def sample_platform_def length_node_bytes json_or_empty_def utf8_valid_ascii)

lemma sample_pending:
  "edges_size (slot_entries [\<lparr>spec_from = 1, spec_to = 2, spec_type = [67], spec_edge_data = ()\<rparr>] k) \<le> 4096"
  by (cases k; cases "snd k") (simp_all add: edges_size_def edge_type_of_def)

lemma native_refines_graph_witness:
  "\<exists>g. run_ops sample_platform sample_ops (native_create sample_platform SSD None None) =
     Some ([Inr (Id_Answer 1), Inr (Id_Answer 2), Inr (Id_Answer 1), Inr Done, Inl Missing_Endpoint,
       Inr (Node_Answer (spec_entity 2 (sample_node [98]))), Inr (Ids_Answer [2]), Inr (Ids_Answer [1]),
       Inl (Node_Not_Found 3), Inr (Ids_Answer [1, 2])], g)"
proof -
  have "ops_ok sample_platform empty_spec sample_ops"
    using sample_pending
    by (simp add: sample_ops_def empty_spec_def sample_node_fits utf8_valid_ascii spec_node_def pending_def in_domain_def)
  moreover have "length sample_ops < 2 ^ 32" by (simp add: sample_ops_def)
  ultimately have "\<exists>g. run_ops sample_platform sample_ops (native_create sample_platform SSD None None) =
      Some (fst (spec_run sample_ops empty_spec), g)"
    by (intro native_refines_graph [OF sample_platform_ok]) simp_all
  then show ?thesis
    by (simp add: sample_ops_def empty_spec_def spec_node_def spec_neighbors_def edge_type_of_def last_type_def spec_ids_def sample_node_def)
qed

end
