(* ===== verification/Native_Search.thy ===== *)
theory Native_Search
  imports Native_Refine Search_Correct
begin

text \<open>
  The searches of the native backend over the neighbours it answers: breadth first search, search within k hops,
  shortest paths and chains of steps, on every graph that a sequence of operations can build.
\<close>

section \<open>Neighbours\<close>

abbreviation spec_succ :: "'j graph_spec \<Rightarrow> direction \<Rightarrow> i64 \<Rightarrow> i64 list" where
  "spec_succ S d v \<equiv> spec_neighbors S (v, d)"

lemma neighbor_in_domain:
  assumes sim: "graph_sim E view n S g" and w: "w \<in> set (spec_succ S d v)"
  shows "in_domain (w, d')"
proof -
  have "w \<in> fst ` set (slot_entries (sg_edges S) (v, d))" using w by (simp add: spec_neighbors_def)
  then obtain e where "e \<in> set (sg_edges S)" "w = spec_from e \<or> w = spec_to e" by (cases d) auto
  then have "spec_node S w \<noteq> None" using sim by (auto simp: graph_sim_def spec_ok_def)
  then show ?thesis using sim by (intro node_in_domain) (auto simp: graph_sim_def)
qed

lemma fetch_sim:
  assumes "graph_sim E view n S g" "in_domain (v, d)"
  obtains g' where "fetch_neighbors d v g = Some (Inr (spec_succ S d v), g')" "graph_sim E view n S g'"
  using es_neighbors_sim [OF assms] by (auto simp: fetch_neighbors_def)

text \<open>Nodes that wait in a queue.\<close>

definition queue_ok :: "direction \<Rightarrow> nat \<Rightarrow> (i64 \<times> nat) list \<Rightarrow> bool" where
  "queue_ok d m q \<longleftrightarrow> (\<forall>(v, k) \<in> set q. k \<le> m \<and> in_domain (v, d))"

lemma queue_step:
  assumes "graph_sim E view n S g" "queue_ok d m q" "k < m"
  shows "queue_ok d m (q @ map (\<lambda>w. (w, Suc k)) (fresh (spec_succ S d v) A))"
  using assms neighbor_in_domain [OF assms(1)] by (auto simp: queue_ok_def)

section \<open>Breadth first search\<close>

lemma native_bfs_loop_sim:
  assumes "graph_sim E view n S g" "queue_ok Outgoing m q"
  shows "\<exists>g'. native_bfs_loop m q A r g = Some (Inr (r @ map fst (traverse (spec_succ S Outgoing) (Some m) q A)), g') \<and>
    graph_sim E view n S g'"
  using assms
proof (induction "spec_succ S Outgoing" "Some m" q A arbitrary: r g rule: traverse.induct)
  case (2 v k q A)
  have k: "k \<le> m" "in_domain (v, Outgoing)" "queue_ok Outgoing m q" using 2(4) by (auto simp: queue_ok_def)
  show ?case
  proof (cases "k = m")
    case True
    then have "stops (Some m) k" by (simp add: stops_def)
    with 2(1) [OF this 2(3) k(3), of "r @ [v]"] True show ?thesis by auto
  next
    case False
    then have less: "k < m" "\<not> stops (Some m) k" using k(1) by (simp_all add: stops_def)
    obtain g1 where g1: "fetch_neighbors Outgoing v g = Some (Inr (spec_succ S Outgoing v), g1)" "graph_sim E view n S g1"
      by (rule fetch_sim [OF 2(3) k(2)])
    from 2(2) [OF less(2) g1(2) queue_step [OF 2(3) k(3) less(1)], of "r @ [v]"] g1(1) less
    show ?thesis by (simp add: push_new_eq)
  qed
qed simp

lemma native_bfs_sim:
  assumes "graph_sim E view n S g" "in_domain (a, Outgoing)"
  shows "\<exists>g'. native_bfs snapshot a m g =
      Some (Inr (map fst (traverse (spec_succ S Outgoing) (Some (unat m)) (at_depth 0 [a]) (set [a]))), g') \<and> graph_sim E view n S g'"
  using native_bfs_loop_sim [OF assms(1), of "unat m" "[(a, 0)]" "{a}" "[]"] assms(2)
  by (simp add: native_bfs_def queue_ok_def at_depth_def del: traverse.simps native_bfs_loop.simps)

section \<open>Nodes within k hops\<close>

lemma native_k_hop_loop_sim:
  assumes "graph_sim E view n S g" "queue_ok d m q"
  shows "\<exists>g'. native_k_hop_loop m d q A r g =
      Some (Inr (r @ map fst (filter (\<lambda>(v, k). 0 < k \<or> m = 0) (traverse (spec_succ S d) (Some m) q A))), g') \<and> graph_sim E view n S g'"
  using assms
proof (induction "spec_succ S d" "Some m" q A arbitrary: r g rule: traverse.induct)
  case (2 v k q A)
  let ?r = "if 0 < k \<or> m = 0 then r @ [v] else r"
  have k: "k \<le> m" "in_domain (v, d)" "queue_ok d m q" using 2(4) by (auto simp: queue_ok_def)
  show ?case
  proof (cases "k = m")
    case True
    then have "stops (Some m) k" by (simp add: stops_def)
    with 2(1) [OF this 2(3) k(3), of ?r] True show ?thesis by (auto simp: Let_def)
  next
    case False
    then have less: "k < m" "\<not> stops (Some m) k" using k(1) by (simp_all add: stops_def)
    obtain g1 where g1: "fetch_neighbors d v g = Some (Inr (spec_succ S d v), g1)" "graph_sim E view n S g1"
      by (rule fetch_sim [OF 2(3) k(2)])
    from 2(2) [OF less(2) g1(2) queue_step [OF 2(3) k(3) less(1)], of ?r] g1(1) less
    show ?thesis by (cases "k = 0") (simp_all add: push_new_eq Let_def)
  qed
qed simp

lemma native_k_hop_sim:
  assumes "graph_sim E view n S g" "in_domain (a, d)"
  shows "\<exists>g'. native_k_hop snapshot a m d g =
      Some (Inr (map fst (filter (\<lambda>(v, k). 0 < k \<or> m = 0) (traverse (spec_succ S d) (Some (unat m)) (at_depth 0 [a]) (set [a])))), g') \<and>
    graph_sim E view n S g'"
  using native_k_hop_loop_sim [OF assms(1), of d "unat m" "[(a, 0)]" "{a}" "[]"] assms(2)
  by (simp add: native_k_hop_def queue_ok_def at_depth_def unat_eq_0 del: traverse.simps native_k_hop_loop.simps)

section \<open>Shortest paths\<close>

text \<open>The map of visited nodes, seen as the parents of a search.\<close>

definition parent_of :: "(i64 \<Rightarrow> i64 option option) \<Rightarrow> parents" where
  "parent_of V w = (case V w of None \<Rightarrow> None | Some p \<Rightarrow> p)"

lemma parent_of_upd [simp]: "parent_of (V(w \<mapsto> Some v)) = (parent_of V)(w \<mapsto> v)"
  by (simp add: fun_eq_iff parent_of_def)

lemma expand_until_parents:
  "expand_until e v ws V q = (b, V', q') \<Longrightarrow>
   expand_parents v e ws (dom V) (parent_of V) q = (b, q', dom V', parent_of V') \<and> (\<forall>x. V x = Some None \<longrightarrow> V' x = Some None)"
proof (induction e v ws V q rule: expand_until.induct)
  case (2 e v w ws V q)
  show ?case
  proof (cases "V w")
    case None
    then have w: "w \<notin> dom V" "dom (V(w \<mapsto> Some v)) = insert w (dom V)" by auto
    have keep: "(V(w \<mapsto> Some v)) x = Some None" if "V x = Some None" for x using that None by auto
    show ?thesis
    proof (cases "w = e")
      case True
      then have "b" "V' = V(w \<mapsto> Some v)" "q' = q" using 2(3) None by (simp_all add: Let_def)
      then show ?thesis using w keep True by (simp del: fun_upd_apply)
    next
      case False
      then have "expand_until e v ws (V(w \<mapsto> Some v)) (q @ [w]) = (b, V', q')" using 2(3) None by (simp add: Let_def)
      note step = this
      have "\<not> V w \<noteq> None" using None by simp
      from 2(2) [OF this refl False step] have IH: "expand_parents v e ws (dom (V(w \<mapsto> Some v))) (parent_of (V(w \<mapsto> Some v))) (q @ [w]) =
          (b, q', dom V', parent_of V')" "\<forall>x. (V(w \<mapsto> Some v)) x = Some None \<longrightarrow> V' x = Some None" by blast+
      have "expand_parents v e ws (insert w (dom V)) ((parent_of V)(w \<mapsto> v)) (q @ [w]) = (b, q', dom V', parent_of V')"
        by (rule IH(1) [unfolded w(2) parent_of_upd])
      then show ?thesis using w(1) IH(2) keep False by (simp del: fun_upd_apply)
    qed
  next
    case (Some p)
    then have "w \<in> dom V" by blast
    then show ?thesis using 2(1) 2(3) Some by simp
  qed
qed simp

lemma walk_back_correct:
  assumes good: "good_parents succ start (parent_of V)" and start: "V start = Some None"
  shows "w \<in> layer succ {start} k \<Longrightarrow> w = start \<or> parent_of V w \<noteq> None \<Longrightarrow>
    \<exists>path. walk_back V w acc = Some (acc @ w # path) \<and> last (w # path) = start \<and> length path = k \<and>
      successively (\<lambda>u v. u \<in> set (succ v)) (w # path)"
proof (induction k arbitrary: w acc)
  case 0
  then show ?case using start by (auto simp: walk_back.simps)
next
  case (Suc k)
  have "w \<noteq> start" using Suc.prems(1) layer_unique [of start succ "{start}" 0 "Suc k"] by auto
  then obtain p where p: "parent_of V w = Some p" using Suc.prems(2) by auto
  with good obtain j where j: "w \<in> set (succ p)" "p = start \<or> parent_of V p \<noteq> None" "p \<in> layer succ {start} j"
    "w \<in> layer succ {start} (Suc j)"
    unfolding good_parents_def by blast
  have "j = k" using layer_unique [OF j(4) Suc.prems(1)] by simp
  with Suc.IH [of p "acc @ [w]"] j obtain path where path: "walk_back V p (acc @ [w]) = Some ((acc @ [w]) @ p # path)"
    "last (p # path) = start" "length path = k" "successively (\<lambda>u v. u \<in> set (succ v)) (p # path)" by blast
  have "V w = Some (Some p)" using p by (simp add: parent_of_def split: option.splits)
  then show ?case using path j(1) by (intro exI [of _ "p # path"]) (simp add: walk_back.simps [of V w])
qed

text \<open>The loop follows the search over the neighbours and stops with the same parents.\<close>

lemma native_path_loop_sim:
  assumes "graph_sim E view n S g" "\<forall>v \<in> set q. in_domain (v, Outgoing)"
    and "parents_loop (total_fetch (spec_succ S Outgoing) :: (unit, graph_error) fetcher) e q (dom V) (parent_of V) () = (Inr (b, P), ())"
  shows "\<exists>g' V' v. graph_sim E view n S g' \<and> (\<forall>x. V x = Some None \<longrightarrow> V' x = Some None) \<and>
    (if b then parent_of V' = P \<and> P e = Some v \<and>
         native_path_loop e q V g = (case walk_back V' v [e] of None \<Rightarrow> None | Some path \<Rightarrow> Some (Inr (Some (rev path)), g'))
     else native_path_loop e q V g = Some (Inr None, g'))"
  using assms
proof (induction e q V g rule: native_path_loop.induct)
  case (1 e V g)
  then show ?case by (intro exI [of _ g] exI [of _ V]) auto
next
  case (2 e v q V g)
  have dom: "in_domain (v, Outgoing)" using 2(3) by simp
  obtain g1 where g1: "fetch_neighbors Outgoing v g = Some (Inr (spec_succ S Outgoing v), g1)" "graph_sim E view n S g1"
    by (rule fetch_sim [OF 2(2) dom])
  obtain b1 V1 q1 where x: "expand_until e v (spec_succ S Outgoing v) V q = (b1, V1, q1)" by (metis prod_cases3)
  note y = expand_until_parents [OF x]
  show ?case
  proof (cases b1)
    case True
    have "(b, P) = (True, parent_of V1)" using 2(4) y True by (simp add: pure_fetch_def)
    moreover have "parent_of V1 e = Some v"
      using expand_parents_found [OF conjunct1 [OF y]] True by blast
    ultimately show ?thesis
      using g1 x y True by (intro exI [of _ g1] exI [of _ V1] exI [of _ v]) simp
  next
    case False
    have q1: "q1 = q @ fresh (spec_succ S Outgoing v) (dom V)" using expand_until_seen [of e v] x False by simp
    have "\<forall>v \<in> set q1. in_domain (v, Outgoing)" using 2(3) neighbor_in_domain [OF 2(2)] by (auto simp: q1)
    moreover have "parents_loop (total_fetch (spec_succ S Outgoing) :: (unit, graph_error) fetcher) e q1 (dom V1) (parent_of V1) () = (Inr (b, P), ())"
      using 2(4) y False by (simp add: pure_fetch_def [abs_def])
    moreover note 2(1) [OF g1(1) refl refl x [symmetric]]
    ultimately obtain g' V' v' where r: "graph_sim E view n S g'" "\<forall>x. V1 x = Some None \<longrightarrow> V' x = Some None"
      "if b then parent_of V' = P \<and> P e = Some v' \<and>
           native_path_loop e q1 V1 g1 = (case walk_back V' v' [e] of None \<Rightarrow> None | Some path \<Rightarrow> Some (Inr (Some (rev path)), g'))
       else native_path_loop e q1 V1 g1 = Some (Inr None, g')"
      using g1(2) False by (simp only: simp_thms) blast
    have "native_path_loop e (v # q) V g = native_path_loop e q1 V1 g1" using g1(1) x False by simp
    moreover have "\<forall>x. V x = Some None \<longrightarrow> V' x = Some None" using r(2) y by blast
    ultimately show ?thesis using r(1,3) by (intro exI [of _ g'] exI [of _ V'] exI [of _ v']) (simp only: simp_thms)
  qed
qed

lemma native_path_sim:
  assumes sim: "graph_sim E view n S g" and dom: "in_domain (a, Outgoing)"
  shows "\<exists>r g'. native_shortest_path snapshot a e g = Some (Inr r, g') \<and> graph_sim E view n S g' \<and>
    (case r of
       None \<Rightarrow> (a, e) \<notin> (edges_of (spec_succ S Outgoing))\<^sup>*
     | Some p \<Rightarrow> p \<noteq> [] \<and> hd p = a \<and> last p = e \<and> successively (\<lambda>u v. v \<in> set (spec_succ S Outgoing u)) p \<and>
         e \<in> layer (spec_succ S Outgoing) {a} (length p - 1))"
proof (cases "a = e")
  case True
  then show ?thesis using sim by (intro exI [of _ "Some [a]"] exI [of _ g]) (simp add: native_shortest_path_def)
next
  case False
  let ?succ = "spec_succ S Outgoing" and ?V = "[a \<mapsto> None] :: i64 \<Rightarrow> i64 option option"
  have V: "dom ?V = {a}" "parent_of ?V = (\<lambda>_. None)" by (auto simp: fun_eq_iff parent_of_def)
  have front: "frontier ?succ a 0 [a] [] {a}" by (simp add: frontier_def)
  have "good_parents ?succ a (\<lambda>_. None)" by (simp add: good_parents_def)
  from parents_loop_total [OF front this, of e] False obtain b P where
    run: "parents_loop (total_fetch ?succ :: (unit, graph_error) fetcher) e [a] {a} (\<lambda>_. None) () = (Inr (b, P), ())"
    and b: "b \<longleftrightarrow> e \<in> (edges_of ?succ)\<^sup>* `` {a}" "b \<Longrightarrow> good_parents ?succ a P \<and> P e \<noteq> None"
    by fastforce
  obtain g' V' v where g': "graph_sim E view n S g'" "\<forall>x. ?V x = Some None \<longrightarrow> V' x = Some None"
    "if b then parent_of V' = P \<and> P e = Some v \<and>
         native_path_loop e [a] ?V g = (case walk_back V' v [e] of None \<Rightarrow> None | Some path \<Rightarrow> Some (Inr (Some (rev path)), g'))
     else native_path_loop e [a] ?V g = Some (Inr None, g')"
    using native_path_loop_sim [OF sim, of "[a]" e ?V b P] dom run unfolding V by auto
  show ?thesis
  proof (cases b)
    case True
    then have good: "good_parents ?succ a (parent_of V')" and e: "P e = Some v" and P: "parent_of V' = P" using b(2) g'(3) by auto
    obtain k where k: "v = a \<or> parent_of V' v \<noteq> None" "v \<in> layer ?succ {a} k" "e \<in> layer ?succ {a} (Suc k)" "e \<in> set (?succ v)"
      using good e P unfolding good_parents_def by blast
    have "V' a = Some None" using g'(2) by simp
    from walk_back_correct [OF good this k(2,1), of "[e]"] obtain path where p: "walk_back V' v [e] = Some ([e] @ v # path)"
      "last (v # path) = a" "length path = k" "successively (\<lambda>u v. u \<in> set (?succ v)) (v # path)" by blast
    have "successively (\<lambda>u v. v \<in> set (?succ u)) (rev (e # v # path))"
      using p(4) k(4) by (simp only: successively_rev) simp
    then show ?thesis
      using True False g'(1,3) p k(3)
      by (intro exI [of _ "Some (rev (e # v # path))"] exI [of _ g'])
        (simp add: native_shortest_path_def hd_append hd_rev del: native_path_loop.simps layer.simps split: if_splits)
  next
    case nb: False
    then show ?thesis
      using False g'(1,3) b(1)
      by (intro exI [of _ None] exI [of _ g']) (simp add: native_shortest_path_def del: native_path_loop.simps)
  qed
qed

section \<open>Properties\<close>

text \<open>A traversal from one node lists the nodes within its bound, nearer ones first.\<close>

definition near_first :: "(i64 \<Rightarrow> i64 list) \<Rightarrow> i64 \<Rightarrow> i64 list \<Rightarrow> bool" where
  "near_first succ a ns \<longleftrightarrow> distinct ns \<and>
     sorted_wrt (\<lambda>u v. \<exists>i j. u \<in> layer succ {a} i \<and> v \<in> layer succ {a} j \<and> i \<le> j) ns"

lemma traverse_near:
  defines "T \<equiv> \<lambda>succ a m. traverse succ (Some m) (at_depth 0 [a]) (set [a :: i64])"
  shows "set (map fst (filter (\<lambda>(v, k). P k) (T succ a m))) = {v. \<exists>k \<le> m. P k \<and> v \<in> layer succ {a} k}"
    "near_first succ a (map fst (filter (\<lambda>(v, k). P k) (T succ a m)))"
proof -
  have T: "(v, k) \<in> set (T succ a m) \<longleftrightarrow> v \<in> layer succ {a} k \<and> k \<le> m" for v k
    using traverse_correct(1) [of "[a]" v k succ "Some m"] by (simp add: T_def within_def del: traverse.simps)
  have d: "distinct (map fst (T succ a m))" "sorted (map snd (T succ a m))"
    unfolding T_def by (rule traverse_correct; simp)+
  show "set (map fst (filter (\<lambda>(v, k). P k) (T succ a m))) = {v. \<exists>k \<le> m. P k \<and> v \<in> layer succ {a} k}"
    unfolding set_map set_filter using T by force
  have "sorted_wrt (\<lambda>x y. snd x \<le> snd y) (T succ a m)" using d(2) by (simp add: sorted_map)
  then have "sorted_wrt (\<lambda>x y. \<exists>i j. fst x \<in> layer succ {a} i \<and> fst y \<in> layer succ {a} j \<and> i \<le> j) (T succ a m)"
  proof (rule sorted_wrt_mono_rel [rotated])
    fix x y assume x: "x \<in> set (T succ a m)" and y: "y \<in> set (T succ a m)" and le: "snd x \<le> snd y"
    from x y have "fst x \<in> layer succ {a} (snd x)" "fst y \<in> layer succ {a} (snd y)"
      using T [of "fst x" "snd x", unfolded prod.collapse] T [of "fst y" "snd y", unfolded prod.collapse] by blast+
    with le show "\<exists>i j. fst x \<in> layer succ {a} i \<and> fst y \<in> layer succ {a} j \<and> i \<le> j" by blast
  qed
  then show "near_first succ a (map fst (filter (\<lambda>(v, k). P k) (T succ a m)))"
    using d(1) by (simp add: near_first_def distinct_map_filter sorted_wrt_map sorted_wrt_filter)
qed

lemma run_created:
  assumes "platform_ok E view" "page_size_for media = 4096" "length cs < 2 ^ 32" "ops_ok E empty_spec cs"
  obtains g where "run_ops E cs (native_create E media meta sidecar) = Some (fst (spec_run cs empty_spec), g)"
    "graph_sim E view 0 (snd (spec_run cs empty_spec)) g"
proof -
  have "graph_sim E view (0 + length cs) empty_spec (native_create E media meta sidecar)"
    using create_sim [OF assms(1-3)] by simp
  from run_sim [OF this assms(1,4)] that show thesis by blast
qed

text \<open>
  C2. On every graph that operations have built, the breadth first search of the native backend returns the nodes
  within the given number of steps of the start along the edges, each once, nearer ones first.
\<close>

theorem native_bfs_correct:
  assumes "platform_ok E view" "page_size_for media = 4096" "length cs < 2 ^ 32" "ops_ok E empty_spec cs" "in_domain (a, Outgoing)"
  defines "succ \<equiv> spec_succ (snd (spec_run cs empty_spec)) Outgoing"
  shows "\<exists>rs g ns g'. run_ops E cs (native_create E media meta sidecar) = Some (rs, g) \<and>
    native_bfs snapshot a m g = Some (Inr ns, g') \<and> set ns = ball succ {a} (unat m) \<and> near_first succ a ns"
proof -
  obtain g where g: "run_ops E cs (native_create E media meta sidecar) = Some (fst (spec_run cs empty_spec), g)"
    "graph_sim E view 0 (snd (spec_run cs empty_spec)) g" by (rule run_created [OF assms(1-4)])
  let ?ns = "map fst (traverse succ (Some (unat m)) (at_depth 0 [a]) (set [a]))"
  obtain g' where "native_bfs snapshot a m g = Some (Inr ?ns, g')" using native_bfs_sim [OF g(2) assms(5)] unfolding succ_def by blast
  moreover have "set ?ns = ball succ {a} (unat m)" "near_first succ a ?ns"
    using traverse_near [where P = "\<lambda>_. True" and succ = succ and a = a and m = "unat m"] by (auto simp: ball_levels simp del: traverse.simps)
  ultimately show ?thesis using g(1) by blast
qed

text \<open>
  C4. The search within \<open>m\<close> hops, in either direction, returns the nodes at distance 1 to \<open>m\<close>, each once, nearer ones
  first; for no hops it returns the start alone.
\<close>

theorem native_k_hop_correct:
  assumes "platform_ok E view" "page_size_for media = 4096" "length cs < 2 ^ 32" "ops_ok E empty_spec cs" "in_domain (a, d)"
  defines "succ \<equiv> spec_succ (snd (spec_run cs empty_spec)) d"
  shows "\<exists>rs g ns g'. run_ops E cs (native_create E media meta sidecar) = Some (rs, g) \<and>
    native_k_hop snapshot a m d g = Some (Inr ns, g') \<and> near_first succ a ns \<and>
    set ns = (if m = 0 then {a} else {v. \<exists>k \<in> {1..unat m}. v \<in> layer succ {a} k})"
proof -
  obtain g where g: "run_ops E cs (native_create E media meta sidecar) = Some (fst (spec_run cs empty_spec), g)"
    "graph_sim E view 0 (snd (spec_run cs empty_spec)) g" by (rule run_created [OF assms(1-4)])
  let ?ns = "map fst (filter (\<lambda>(v, k). 0 < k \<or> m = 0) (traverse succ (Some (unat m)) (at_depth 0 [a]) (set [a])))"
  obtain g' where "native_k_hop snapshot a m d g = Some (Inr ?ns, g')" using native_k_hop_sim [OF g(2) assms(5)] unfolding succ_def by blast
  moreover have "near_first succ a ?ns" by (rule traverse_near(2))
  moreover have "set ?ns = (if m = 0 then {a} else {v. \<exists>k \<in> {1..unat m}. v \<in> layer succ {a} k})"
    unfolding traverse_near(1) by (auto simp: Suc_le_eq)
  ultimately show ?thesis using g(1) by blast
qed

text \<open>
  C3. The shortest path search returns a path along the edges from the start to the end that no other is shorter
  than, or nothing when the end cannot be reached; it always returns.
\<close>

theorem native_path_correct:
  assumes "platform_ok E view" "page_size_for media = 4096" "length cs < 2 ^ 32" "ops_ok E empty_spec cs" "in_domain (a, Outgoing)"
  defines "succ \<equiv> spec_succ (snd (spec_run cs empty_spec)) Outgoing"
  shows "\<exists>rs g r g'. run_ops E cs (native_create E media meta sidecar) = Some (rs, g) \<and>
    native_shortest_path snapshot a e g = Some (Inr r, g') \<and>
    (case r of
       None \<Rightarrow> (a, e) \<notin> (edges_of succ)\<^sup>*
     | Some p \<Rightarrow> p \<noteq> [] \<and> hd p = a \<and> last p = e \<and> successively (\<lambda>u v. v \<in> set (succ u)) p \<and> e \<in> layer succ {a} (length p - 1))"
proof -
  obtain g where g: "run_ops E cs (native_create E media meta sidecar) = Some (fst (spec_run cs empty_spec), g)"
    "graph_sim E view 0 (snd (spec_run cs empty_spec)) g" by (rule run_created [OF assms(1-4)])
  then show ?thesis using native_path_sim [OF g(2) assms(5), of snapshot e] unfolding succ_def by blast
qed

text \<open>Three nodes in a row, the edges flushed in between.\<close>

definition path_edge :: "i64 \<Rightarrow> i64 \<Rightarrow> unit edge_spec" where
  "path_edge u v = \<lparr>spec_from = u, spec_to = v, spec_type = [], spec_edge_data = ()\<rparr>"

definition path_ops :: "unit graph_op list" where
  "path_ops = [Add_Node (sample_node [97]), Add_Node (sample_node [98]), Add_Node (sample_node [99]),
     Add_Edge (path_edge 1 2), Flush, Add_Edge (path_edge 2 3)]"

lemma path_ops_ok: "ops_ok sample_platform empty_spec path_ops" "length path_ops < 2 ^ 32"
proof -
  have "edges_size (slot_entries [path_edge 1 2] k) \<le> 4096" for k
    by (cases k; cases "snd k") (simp_all add: edges_size_def edge_type_of_def path_edge_def)
  then show "ops_ok sample_platform empty_spec path_ops"
    by (simp add: path_ops_def empty_spec_def sample_node_fits path_edge_def spec_node_def pending_def utf8_valid_ascii)
qed (simp add: path_ops_def)

lemma native_bfs_correct_witness:
  "\<exists>rs g ns g'. run_ops sample_platform path_ops (native_create sample_platform SSD None None) = Some (rs, g) \<and>
    native_bfs 0 1 2 g = Some (Inr ns, g') \<and>
    set ns = ball (spec_succ (snd (spec_run path_ops empty_spec)) Outgoing) {1} (unat (2 :: u32)) \<and>
    near_first (spec_succ (snd (spec_run path_ops empty_spec)) Outgoing) 1 ns"
  by (rule native_bfs_correct [OF sample_platform_ok _ path_ops_ok(2,1)]) (simp_all add: in_domain_def)

lemma native_k_hop_correct_witness:
  "\<exists>rs g ns g'. run_ops sample_platform path_ops (native_create sample_platform SSD None None) = Some (rs, g) \<and>
    native_k_hop 0 3 1 Incoming g = Some (Inr ns, g') \<and>
    near_first (spec_succ (snd (spec_run path_ops empty_spec)) Incoming) 3 ns \<and>
    set ns = (if (1 :: u32) = 0 then {3} else {v. \<exists>k \<in> {1..unat (1 :: u32)}. v \<in> layer (spec_succ (snd (spec_run path_ops empty_spec)) Incoming) {3} k})"
  by (rule native_k_hop_correct [OF sample_platform_ok _ path_ops_ok(2,1)]) (simp_all add: in_domain_def)

lemma native_path_correct_witness:
  "\<exists>rs g r g'. run_ops sample_platform path_ops (native_create sample_platform SSD None None) = Some (rs, g) \<and>
    native_shortest_path 0 1 3 g = Some (Inr r, g') \<and>
    (case r of
       None \<Rightarrow> (1, 3) \<notin> (edges_of (spec_succ (snd (spec_run path_ops empty_spec)) Outgoing))\<^sup>*
     | Some p \<Rightarrow> p \<noteq> [] \<and> hd p = 1 \<and> last p = 3 \<and>
         successively (\<lambda>u v. v \<in> set (spec_succ (snd (spec_run path_ops empty_spec)) Outgoing u)) p \<and>
         3 \<in> layer (spec_succ (snd (spec_run path_ops empty_spec)) Outgoing) {1} (length p - 1))"
  by (rule native_path_correct [OF sample_platform_ok _ path_ops_ok(2,1)]) (simp_all add: in_domain_def)

end
