(* ===== verification/Spec2Isabelle.thy ===== *)
theory Spec2Isabelle
  imports Node_Store_Map Edge_Store Varint Sqlite_Correct Digraph_Algo Native_Search
begin

text \<open>
  A verification library for SQLiteGraph, a graph database in Rust with two backends: a native one with its
  own page file (\<open>sqlitegraph-core/src/backend/native/v3/\<close>) and one over SQLite
  (\<open>sqlitegraph-core/src/graph/\<close>, \<open>backend/sqlite/\<close>). The library models the storage of the first from
  the bytes up to the edge store, its write-ahead log and its key-value store, the caches and searches of the
  second, and the in-memory digraph of \<open>typed_digraph/\<close>.

  \<^bold>\<open>Conventions.\<close> Machine integers are words: \<open>i64\<close> and \<open>u64\<close> are both \<open>64 word\<close>, read with
  \<open>sint\<close> or \<open>unat\<close>, and arithmetic wraps as in a release build. A structure is a record, an enum a datatype. A
  method is a function from the state to a result and the new state. In the native part the result is
  \<open>fault + 'a\<close>: \<open>Panic\<close> for a failing assertion or index, \<open>Err\<close> for the error the code returns; a loop that
  might not end is in \<open>option\<close>, where \<open>None\<close> is not returning, and is proved to return. A file is the list
  of its bytes; reads past its end and short reads are errors, other I/O errors are not modelled.

  \<^bold>\<open>The native file.\<close>
  \<^item> \<open>Prelude\<close>, \<open>Bytes\<close>, \<open>Utf8\<close>: results, big endian fields, blocks of bytes, checksums, lossy UTF-8.
  \<^item> \<open>Codec\<close>: the interface of an encoder and decoder; \<open>Varint\<close>, \<open>Delta\<close>, \<open>Edge_Delta\<close>
    (\<open>compression/\<close>): the integer codecs, their round trips and their bounds on hostile input.
  \<^item> \<open>Header_V3\<close> (\<open>header.rs\<close>, \<open>constants.rs\<close>): the 112 byte header.
  \<^item> \<open>Allocator\<close> (\<open>allocator.rs\<close>): pages handed out and given back; a step relation \<open>alloc_run\<close> with the
    set of held pages as ghost state shows that no page is handed out twice.
  \<^item> \<open>File_Store\<close> (\<open>file_coordinator.rs\<close>), \<open>Index_Page\<close> (\<open>index/page.rs\<close>), \<open>Btree_Store\<close> and \<open>Btree\<close>
    (\<open>btree.rs\<close>), \<open>Write_Batch\<close> (\<open>write_batch.rs\<close>): the B+tree over the page cache and the file.
    \<open>Btree_Tree\<close> is the abstract tree, \<open>Btree_Correct\<close> the simulation of the page operations by tree
    operations, \<open>Btree_Map\<close> the refinement of the map from keys to values. A page number is below
    \<open>2 ^ 52 - 1\<close>, so that its offset does not wrap; an insertion needs room for 11 new pages,
    more than the splits along one path of a tree of height at most eight and a new root can take; pages held by others
    (the set \<open>X\<close> of the lemmas) are left alone.
  \<^item> \<open>Node_Record\<close>, \<open>Node_Page\<close> (\<open>node/record.rs\<close>, \<open>node/page.rs\<close>): node records and the compressed
    pages that hold them.
  \<^item> \<open>Node_Store\<close> (\<open>node/store.rs\<close>): records on node pages, found through the B+tree, with its caches, batches and
    retries. \<open>Node_Store_Correct\<close> is the invariant: the content of a page is what waits in the batch, else what lies
    on disk, and a cached page agrees with it. \<open>Node_Store_Map\<close>: the store is a map of records. An insertion needs room
    for 13 pages (two node pages and 11 for the index) and an id below \<open>2 ^ 32\<close>, where the distances of ids on a
    page are not clamped.
  \<^item> \<open>Edge_Cluster\<close> (\<open>compact_edge_record.rs\<close> and the clusters of \<open>edge_compat.rs\<close>), \<open>Edge_Store\<close>
    (\<open>edge_compat.rs\<close>): insertion, flush and reads of the edges of a node and direction, the index of
    slots being the B+tree; the abstract content of a slot is what is cached, else what waits, else what
    the disk holds. The order in which a hash map is walked and the entry a full cache evicts
    (\<open>pc_first\<close>) are parameters. The calls of the write-ahead log are recorded as a list and succeed.

  \<^bold>\<open>The key-value store and the log.\<close>
  \<^item> \<open>Kv_Store\<close> (\<open>kv_store/\<close>): the versions of a key, reads at a snapshot, prefix scans, the checkpoint bytes. A run
    of the store is the list of its operations; \<open>snapshot_read\<close> is what a read means in terms of the run.
  \<^item> \<open>Wal\<close> (\<open>wal.rs\<close>): the header, the records, the buffered writer, replay, the recovery of the key-value
    store and its checkpoint file. A log cut off anywhere is replayed up to the last whole record. The encoding of
    a record (\<open>bincode\<close>) and SHA-256 are parameters, of which only reading back what was written is assumed.
  \<^item> \<open>Kv_Backend\<close> (\<open>backend.rs\<close>): the key-value calls with their log records, creation, the end of a flush,
    opening. The hash of a key, the clock and the order of the hash map are arguments.

  \<^bold>\<open>The SQLite graph.\<close>
  \<^item> \<open>Traversal\<close>: breadth first order over a successor function, by layers; the specification of the
    searches. \<open>layer succ S k\<close> is the set of nodes at distance \<open>k\<close> from \<open>S\<close>, \<open>ball\<close> those within \<open>k\<close>.
  \<^item> \<open>Graph_Search\<close> (\<open>bfs.rs\<close>, \<open>multi_hop.rs\<close>, \<open>query.rs\<close>, \<open>algo/reachability.rs\<close>, \<open>algo/wcc.rs\<close>): the
    loops over any \<open>fetch\<close> that may fail and may change its store. The locales \<open>adjacency\<close> and
    \<open>adjacency_pair\<close> are what a loop needs of its fetches: then it answers as over the rows alone.
  \<^item> \<open>Search_Correct\<close>, \<open>Search_Defined\<close>: what the loops compute in terms of the edge relation.
  \<^item> \<open>Sqlite_Graph\<close> (\<open>graph/\<close>, \<open>cache.rs\<close>, \<open>query_cache.rs\<close>, \<open>backend/sqlite/impl_.rs\<close>): the graph over an
    \<open>engine\<close>, the record of the SQL statements the code prepares and of \<open>serde_json\<close>. \<open>exec\<close> is one call of a
    client.
  \<^item> \<open>Sqlite_Cache\<close>: coherence of the caches with the database, kept by every operation of a lawful engine
    in which no statement fails after an earlier one has written; the locales are interpreted on the
    cached fetches. \<open>Sqlite_Table\<close>: plain tables that obey the laws. \<open>Sqlite_Correct\<close>: the guarantees.

  \<^bold>\<open>The typed digraph.\<close>
  \<^item> \<open>Typed_Digraph\<close> (\<open>typed_digraph/graph.rs\<close>): slots that are reused, adjacency lists in both directions;
    \<open>node_map\<close> and \<open>edge_map\<close> are the maps a graph stands for and \<open>graph_spec\<close> the contract of an operation on
    them. \<open>Digraph_Algo\<close> (\<open>typed_digraph/algo.rs\<close>): topological sort, cycle test, depth first iterator, each
    loop terminating by a measure (edges left, white nodes, unvisited nodes).

  \<^bold>\<open>What the properties show.\<close> Round trips of every format; refinement of maps and of the contents of a slot by
  the page operations, across flushes and restarts; safety of the allocator; the invariants of pages,
  index, edge store and caches; the functional correctness and termination of the searches; equivalence of
  the cached and the uncached graph. Some properties show a defect: a second batch of edges replaces the
  first, an insertion hides the edges on disk, a page of a memory only tree is lost, a search by bisection
  misses a record, a failed commit leaves stale caches, no snapshot of the key-value store is isolated.

  \<^bold>\<open>Not modelled.\<close> Threads and locks; the graph operations of the
  native backend; the string table and the secondary indexes; the strongly
  connected components of the typed digraph; publish and subscribe; the vector index, the inference engine and the centralities, which
  compute with floats; the program analyses under \<open>algo/\<close>; the query languages; configuration, metrics,
  progress reports, bindings and benchmarks.
\<close>

end
